(* ===== verification/Prelude.thy ===== *)
theory Prelude imports Main "HOL-Library.Word" begin

text \<open>
  Shared vocabulary of the development: the machine integer types of libs/types.h, the
  identities of the kernel's locks and sleep channels, the ways a kernel routine can fail to
  return, the sequencing operator of fallible routines, and lemmas on words and lists that
  several components use.
\<close>

unbundle bit_operations_syntax

section \<open>Machine integers\<close>

type_synonym u8 = "8 word"
type_synonym u16 = "16 word"
type_synonym u32 = "32 word"
type_synonym u64 = "64 word"

section \<open>Identities of kernel objects\<close>

text \<open>
  A directory entry pointer (\<open>struct dirent *\<close>) is either the static \<open>root\<close> or
  one of the entries of the entry cache.
\<close>

datatype eptr = Root | Ent nat

text \<open>A sleep lock is embedded in a buffer of the block cache or in a directory entry, or is that of the memory card.\<close>

datatype slockid = BufSL nat | EntSL eptr | CardSL

text \<open>
  The spin locks of the kernel. Every lock is a distinct object in memory, so its address is
  its constructor and arguments; the lock inside a pipe is identified by the pipe's page.
\<close>

datatype lockid =
    KmemLock | PidLock | ProcLock nat | FtableLock | BcacheLock | EcacheLock
  | TicksLock | ConsLock | UartLock | VdiskLock | PrLock | PipeLock u64 | SleepLk slockid

text \<open>The addresses that processes sleep on (\<open>void *chan\<close>); \<open>ChNone\<close> is the null pointer.\<close>

datatype chan =
    ChNone | ChProc nat | ChSleepLock slockid | ChTicks | ChPipeRead u64 | ChPipeWrite u64
  | ChCons | ChUartTx | ChVdiskFree | ChBuf nat | ChDma

section \<open>Routines that may not return\<close>

text \<open>
  \<open>Panic msg\<close>: the routine calls \<open>panic(msg)\<close>, which never returns.
  \<open>Spins l\<close>: it spins on a lock that another hart holds. \<open>Sleeps c\<close>: it
  puts the calling process to sleep on a channel, so it cannot finish before another process runs.
  \<open>Deep\<close>: a recursive routine went deeper than the depth its model is given. \<open>Wild\<close>: it accesses memory outside of an
  object or through a null pointer, and what happens then is not modelled. \<open>Exits\<close>: the calling
  process has exited and its hart is in the scheduler.
\<close>

datatype kfail = Panic string | Spins lockid | Sleeps chan | Deep | Wild | Exits

type_synonym 'a kres = "kfail + 'a"

definition kbind :: "'a kres \<Rightarrow> ('a \<Rightarrow> 'b kres) \<Rightarrow> 'b kres" where
  "kbind m f = (case m of Inl e \<Rightarrow> Inl e | Inr x \<Rightarrow> f x)"

lemma kbind_simps [simp]:
  "kbind (Inl e) f = Inl e"
  "kbind (Inr x) f = f x"
  by (simp_all add: kbind_def)

lemma kbind_Inr_iff: "kbind m f = Inr y \<longleftrightarrow> (\<exists>x. m = Inr x \<and> f x = Inr y)"
  by (cases m) simp_all

lemma kbind_InrE:
  assumes "kbind m f = Inr y"
  obtains x where "m = Inr x" and "f x = Inr y"
  using assms by (auto simp: kbind_Inr_iff)

lemma kbind_assoc: "kbind (kbind m f) g = kbind m (\<lambda>x. kbind (f x) g)"
  by (cases m) simp_all

lemma kbind_if: "kbind (if b then m else n) f = (if b then kbind m f else kbind n f)"
  by simp

lemma kbind_cong [fundef_cong]:
  "m = m' \<Longrightarrow> (\<And>x. m' = Inr x \<Longrightarrow> f x = f' x) \<Longrightarrow> kbind m f = kbind m' f'"
  by (cases m') simp_all

text \<open>A routine that may put its process to sleep: what it returned, or what it needs to go on from there.\<close>

datatype ('w, 'a) outcome = Finished 'a | Waiting 'w

section \<open>Strings\<close>

text \<open>The C string in an array of characters.\<close>

definition cstr :: "u8 list \<Rightarrow> u8 list" where
  "cstr = takeWhile (\<lambda>c. c \<noteq> 0)"

section \<open>Collections of facts\<close>

named_theorems frame_simps \<open>fields that an operation leaves alone\<close>
named_theorems lock_simps \<open>closed forms of the locking routines\<close>

section \<open>Words\<close>

lemma unat_add_no_wrap:
  fixes a b :: "'a::len word"
  assumes "unat a + unat b < 2 ^ LENGTH('a)"
  shows "unat (a + b) = unat a + unat b"
  using assms by (simp add: unat_word_ariths)

lemma unat_sub_le:
  fixes a b :: "'a::len word"
  assumes "b \<le> a"
  shows "unat (a - b) = unat a - unat b"
  using assms by (rule unat_sub)

lemma unat_of_nat_small:
  "n < 2 ^ LENGTH('a) \<Longrightarrow> unat (of_nat n :: 'a::len word) = n"
  by (simp add: unat_of_nat)

lemma unat_Suc_less:
  fixes i n :: "'a::len word"
  assumes "i < n"
  shows "unat (i + 1) = Suc (unat i)"
proof -
  have "unat i < unat n" using assms by (simp add: word_less_nat_alt)
  moreover have "unat n < 2 ^ LENGTH('a)" by (rule unsigned_less)
  moreover have "unat (1::'a word) = 1" by simp
  ultimately have "unat i + unat (1::'a word) < 2 ^ LENGTH('a)" by linarith
  then show ?thesis by (subst unat_add_no_wrap) simp_all
qed

lemma word_eq_of_nat_iff:
  fixes a :: "'a::len word"
  assumes "n < 2 ^ LENGTH('a)"
  shows "a = of_nat n \<longleftrightarrow> unat a = n"
  using assms by (metis unat_of_nat_small of_nat_unat ucast_id)

lemma unat_ucast_up:
  assumes "LENGTH('a) \<le> LENGTH('b)"
  shows "unat (ucast (w::'a::len word) :: 'b::len word) = unat w"
proof -
  have "unat w < 2 ^ LENGTH('a)" by (rule unsigned_less)
  also have "\<dots> \<le> 2 ^ LENGTH('b)" using assms by simp
  finally show ?thesis by (simp add: unsigned_ucast_eq take_bit_nat_eq_self_iff)
qed

lemma unat_minus_1: "unat (- 1 :: 'a::len word) = 2 ^ LENGTH('a) - 1"
  by (simp add: unsigned_minus_1_eq_mask mask_eq_exp_minus_1)

lemma unat_inj: "unat a = unat b \<Longrightarrow> a = b"
  by (simp add: word_unat_eq_iff)

lemma unat_drop_bit_eq: "unat (drop_bit n (w::'a::len word)) = drop_bit n (unat w)"
  by (rule bit_eqI) (auto simp: bit_simps dest: bit_imp_le_length)

lemma uint_eq_iff: "uint a = uint b \<longleftrightarrow> a = b"
  by (simp add: word_uint_eq_iff)

lemma word_diff_eq_iff:
  fixes a b c :: "'a::len word"
  shows "a - b = c \<longleftrightarrow> a = b + c"
  by (auto simp: algebra_simps)

end
