(* ===== verification/KString.thy ===== *)
theory KString imports Prelude begin

text \<open>
  Byte-addressed memory and the routines of kernel/string.c over it. Memory is a total function
  from 64-bit addresses to bytes; pointer arithmetic wraps at 64 bits as on the machine.
  64-bit loads and stores are little-endian. Each routine is its C loop; the \<open>_eq\<close>
  lemmas give closed forms, which the other components use.
\<close>

section \<open>Memory\<close>

type_synonym bytemem = "u64 \<Rightarrow> u8"

definition load64 :: "bytemem \<Rightarrow> u64 \<Rightarrow> u64" where
  "load64 m p = word_rcat (map (\<lambda>i. m (p + of_nat i)) [7, 6, 5, 4, 3, 2, 1, 0])"

definition store64 :: "u64 \<Rightarrow> u64 \<Rightarrow> bytemem \<Rightarrow> bytemem" where
  "store64 p v m = (\<lambda>a. if unat (a - p) < 8 then ucast (drop_bit (8 * unat (a - p)) v) else m a)"

definition bytes_at :: "bytemem \<Rightarrow> u64 \<Rightarrow> nat \<Rightarrow> u8 list" where
  "bytes_at m p n = map (\<lambda>i. m (p + of_nat i)) [0..<n]"

lemma length_bytes_at [simp]: "length (bytes_at m p n) = n"
  by (simp add: bytes_at_def)

lemma nth_bytes_at [simp]: "i < n \<Longrightarrow> bytes_at m p n ! i = m (p + of_nat i)"
  by (simp add: bytes_at_def)

lemma bytes_at_Suc: "bytes_at m p (Suc n) = m p # bytes_at m (p + 1) n"
  by (rule nth_equalityI) (auto simp: nth_Cons' of_nat_diff algebra_simps)

lemma bit_load64:
  assumes "n < 64"
  shows "bit (load64 m p) n = bit (m (p + of_nat (n div 8))) (n mod 8)"
proof -
  let ?ws = "map (\<lambda>i. m (p + of_nat i)) [0..<8]"
  have load: "load64 m p = word_of_int (horner_sum uint 256 ?ws)"
    by (simp add: load64_def word_rcat_def upt_rec)
  have "bit (horner_sum uint 256 ?ws) n \<longleftrightarrow> n div 8 < 8 \<and> bit (?ws ! (n div 8)) (n mod 8)"
    using bit_horner_sum_uint_exp_iff [of ?ws n] by simp
  moreover from assms have "n div 8 < 8" by simp
  ultimately show ?thesis
    using assms by (simp add: load bit_word_of_int_iff)
qed

lemma load64_store64 [simp]: "load64 (store64 p v m) p = v"
proof (rule bit_word_eqI)
  fix n assume n: "n < LENGTH(64)"
  then have "n div 8 < 8" by simp
  then have u: "unat (of_nat (n div 8) :: u64) = n div 8"
    by (simp add: unat_of_nat_small)
  have "bit (load64 (store64 p v m) p) n = bit (store64 p v m (p + of_nat (n div 8))) (n mod 8)"
    using n by (simp add: bit_load64)
  also have "\<dots> = bit v (8 * (n div 8) + n mod 8)"
    using u \<open>n div 8 < 8\<close> by (simp add: store64_def bit_ucast_iff bit_drop_bit_eq)
  finally show "bit (load64 (store64 p v m) p) n = bit v n" by simp
qed

lemma load64_cong:
  assumes "\<And>i. i < 8 \<Longrightarrow> m (p + of_nat i) = m' (p + of_nat i)"
  shows "load64 m p = load64 m' p"
proof (rule bit_word_eqI)
  fix n assume "n < LENGTH(64)"
  then show "bit (load64 m p) n = bit (load64 m' p) n"
    using assms [of "n div 8"] by (simp add: bit_load64)
qed

text \<open>Aligned 64-bit cells at different addresses do not overlap.\<close>

definition aligned8 :: "u64 \<Rightarrow> bool" where
  "aligned8 p \<longleftrightarrow> unat p mod 8 = 0"

lemma aligned8_disjoint:
  assumes "aligned8 p" and "aligned8 q" and "p \<noteq> q" and "i < 8"
  shows "8 \<le> unat (q + of_nat i - p)"
proof -
  let ?d = "unat (q - p)"
  have d: "8 dvd ?d"
  proof -
    have d: "?d = (if unat p \<le> unat q then unat q - unat p else unat q + 2 ^ 64 - unat p)"
      using unat_sub_if_size [of q p] by (simp add: word_le_nat_alt word_size)
    have dvd: "8 dvd unat p" "8 dvd unat q"
      using assms(1,2) by (simp_all add: aligned8_def mod_eq_0_iff_dvd)
    then have dvd64: "(8::nat) dvd unat q + 2 ^ 64" by simp
    show ?thesis
    proof (cases "unat p \<le> unat q")
      case True
      with d dvd show ?thesis by (simp add: dvd_diff_nat)
    next
      case False
      with d have "?d = unat q + 2 ^ 64 - unat p" by simp
      then show ?thesis using dvd_diff_nat [OF dvd64 dvd(1)] by simp
    qed
  qed
  have "?d \<noteq> 0" using assms(3) by (metis diff_eq_diff_eq diff_self unat_eq_zero)
  with d have ge: "8 \<le> ?d" by (auto dest: dvd_imp_le)
  have "?d < 18446744073709551616" using unsigned_less [of "q - p"] by simp
  with d have lt: "?d + 7 < 18446744073709551616" by presburger
  have "unat (of_nat i :: u64) = i" using assms(4) by (simp add: unat_of_nat_small)
  with lt assms(4) have "unat ((q - p) + of_nat i) = ?d + i"
    by (subst unat_add_no_wrap) simp_all
  then show ?thesis using ge by (simp add: algebra_simps)
qed

lemma load64_store64_other:
  assumes "aligned8 p" and "aligned8 q" and "p \<noteq> q"
  shows "load64 (store64 p v m) q = load64 m q"
  proof (rule load64_cong)
  fix i :: nat assume "i < 8"
  with assms have "8 \<le> unat (q + of_nat i - p)" by (rule aligned8_disjoint)
  then show "store64 p v m (q + of_nat i) = m (q + of_nat i)" by (simp add: store64_def)
qed

section \<open>memset\<close>

text \<open>
  \<open>int i; for(i = 0; i < n; i++) cdst[i] = c;\<close> the index is compared as unsigned
  (\<open>n\<close> is \<open>uint\<close>) and sign-extended when it is added to the pointer.
\<close>

function memset_loop :: "bytemem \<Rightarrow> u64 \<Rightarrow> u8 \<Rightarrow> u32 \<Rightarrow> u32 \<Rightarrow> bytemem" where
  "memset_loop m dst c i n =
     (if i < n then memset_loop (m(dst + scast i := c)) dst c (i + 1) n else m)"
  by pat_completeness auto
termination
proof (relation "measure (\<lambda>(m, dst, c, i, n). unat n - unat i)")
  fix m :: bytemem and dst :: u64 and c :: u8 and i n :: u32
  assume lt: "i < n"
  then have "unat (i + 1) = Suc (unat i)" by (rule unat_Suc_less)
  with lt show "((m(dst + scast i := c), dst, c, i + 1, n), m, dst, c, i, n)
      \<in> measure (\<lambda>(m, dst, c, i, n). unat n - unat i)"
    by (simp add: word_less_nat_alt)
qed simp

declare memset_loop.simps [simp del]

definition memset :: "bytemem \<Rightarrow> u64 \<Rightarrow> u8 \<Rightarrow> u32 \<Rightarrow> bytemem" where
  "memset m dst c n = memset_loop m dst c 0 n"

lemma scast_small:
  assumes "unat (i::u32) < 2 ^ 31"
  shows "(scast i :: u64) = of_nat (unat i)"
proof -
  have "int (unat i) < int (2 ^ 31)" using assms by (simp only: of_nat_less_iff)
  then have "uint i < 2 ^ 31" unfolding uint_nat by simp
  then have "sint i = uint i"
    unfolding sint_uint
    by (intro signed_take_bit_int_eq_self) (simp_all add: order_trans [OF _ unsigned_greater_eq])
  also have "uint i = int (unat i)" unfolding uint_nat ..
  finally show ?thesis unfolding scast_eq by (simp only: of_int_of_nat_eq)
qed

lemma memset_loop_eq:
  assumes "unat n \<le> 2 ^ 31" and "i \<le> n"
  shows "memset_loop m dst c i n =
    (\<lambda>a. if unat i \<le> unat (a - dst) \<and> unat (a - dst) < unat n then c else m a)"
  using assms
proof (induction m dst c i n rule: memset_loop.induct)
  case (1 m dst c i n)
  show ?case
  proof (cases "i < n")
    case False
    with "1.prems" have "unat i = unat n" by (simp add: word_le_nat_alt word_less_nat_alt)
    with False show ?thesis
      by (auto simp: memset_loop.simps [of m dst c i n] fun_eq_iff)
  next
    case True
    then have suc: "unat (i + 1) = Suc (unat i)" by (rule unat_Suc_less)
    have le: "i + 1 \<le> n" using True suc by (simp add: word_le_nat_alt word_less_nat_alt)
    have small: "unat i < 2 ^ 31" using True "1.prems" by (simp add: word_less_nat_alt)
    have lt64: "unat i < 2 ^ LENGTH(64)" using small by simp
    have at: "a = dst + scast i \<longleftrightarrow> unat (a - dst) = unat i" for a
      using word_eq_of_nat_iff [OF lt64, of "a - dst"]
      by (auto simp: scast_small [OF small] algebra_simps)
    have nlt: "unat i < unat n" using True by (simp add: word_less_nat_alt)
    have "memset_loop m dst c i n = memset_loop (m(dst + scast i := c)) dst c (i + 1) n"
      using True by (simp add: memset_loop.simps [of m dst c i n])
    also have "\<dots> = (\<lambda>a. if Suc (unat i) \<le> unat (a - dst) \<and> unat (a - dst) < unat n then c
        else if unat (a - dst) = unat i then c else m a)"
      unfolding "1.IH" [OF True "1.prems"(1) le] suc by (simp add: fun_eq_iff at)
    also have "\<dots> = (\<lambda>a. if unat i \<le> unat (a - dst) \<and> unat (a - dst) < unat n then c else m a)"
      using nlt by (auto simp: fun_eq_iff)
    finally show ?thesis .
  qed
qed

text \<open>\<open>memset\<close> writes exactly the \<open>n\<close> bytes from \<open>dst\<close> on.\<close>

lemma memset_eq:
  "unat n \<le> 2 ^ 31 \<Longrightarrow> memset m dst c n = (\<lambda>a. if unat (a - dst) < unat n then c else m a)"
  by (simp add: memset_def memset_loop_eq)

section \<open>memmove\<close>

primrec mm_fwd :: "bytemem \<Rightarrow> u64 \<Rightarrow> u64 \<Rightarrow> nat \<Rightarrow> bytemem" where
  "mm_fwd m d s 0 = m"
| "mm_fwd m d s (Suc k) = mm_fwd (m(d := m s)) (d + 1) (s + 1) k"

primrec mm_back :: "bytemem \<Rightarrow> u64 \<Rightarrow> u64 \<Rightarrow> nat \<Rightarrow> bytemem" where
  "mm_back m d s 0 = m"
| "mm_back m d s (Suc k) = mm_back (m(d - 1 := m (s - 1))) (d - 1) (s - 1) k"

definition memmove :: "bytemem \<Rightarrow> u64 \<Rightarrow> u64 \<Rightarrow> u32 \<Rightarrow> bytemem" where
  "memmove m dst src n =
     (if src < dst \<and> src + ucast n > dst
      then mm_back m (dst + ucast n) (src + ucast n) (unat n)
      else mm_fwd m dst src (unat n))"

definition memcpy :: "bytemem \<Rightarrow> u64 \<Rightarrow> u64 \<Rightarrow> u32 \<Rightarrow> bytemem" where
  "memcpy m dst src n = memmove m dst src n"

text \<open>The forward loop is right when no write hits a byte that is read later.\<close>

lemma mm_fwd_eq:
  assumes "k < 2 ^ 64" and "\<And>i j. i < j \<Longrightarrow> j < k \<Longrightarrow> d + of_nat i \<noteq> s + of_nat j"
  shows "mm_fwd m d s k a = (if unat (a - d) < k then m (s + (a - d)) else m a)"
  using assms
proof (induction k arbitrary: m d s)
  case 0
  then show ?case by simp
next
  case (Suc k)
  let ?m = "m(d := m s)"
  have IH: "mm_fwd ?m (d + 1) (s + 1) k a =
      (if unat (a - (d + 1)) < k then ?m (s + 1 + (a - (d + 1))) else ?m a)"
  proof (rule Suc.IH)
    show "k < 2 ^ 64" using Suc.prems(1) by simp
    fix i j assume "i < j" "j < k"
    then show "d + 1 + of_nat i \<noteq> s + 1 + of_nat j"
      using Suc.prems(2) [of "Suc i" "Suc j"] by (simp add: algebra_simps)
  qed
  show ?case
  proof (cases "a = d")
    case True
    have "unat (- 1 :: u64) = 2 ^ 64 - 1" by (simp add: unat_minus_1)
    with True IH Suc.prems(1) show ?thesis by (simp add: algebra_simps)
  next
    case False
    let ?t = "unat (a - d)"
    from False have "a - d \<noteq> 0" by simp
    then have t: "?t \<noteq> 0" "unat (a - (d + 1)) = ?t - 1"
      using unat_minus_one [of "a - d"] by (simp_all add: unat_eq_zero algebra_simps)
    have "?t < Suc k \<Longrightarrow> s + (a - d) \<noteq> d"
      using Suc.prems(2) [of 0 ?t] t by auto
    with False IH t show ?thesis by (auto simp: algebra_simps)
  qed
qed

lemma mm_back_eq:
  assumes "k < 2 ^ 64" and "\<And>i j. i < j \<Longrightarrow> j < k \<Longrightarrow> d + of_nat j \<noteq> s + of_nat i"
  shows "mm_back m (d + of_nat k) (s + of_nat k) k a =
    (if unat (a - d) < k then m (s + (a - d)) else m a)"
  using assms
proof (induction k arbitrary: m)
  case 0
  then show ?case by simp
next
  case (Suc k)
  let ?m = "m(d + of_nat k := m (s + of_nat k))"
  have IH: "mm_back ?m (d + of_nat k) (s + of_nat k) k a =
      (if unat (a - d) < k then ?m (s + (a - d)) else ?m a)"
    by (rule Suc.IH) (use Suc.prems in auto)
  have step: "mm_back m (d + of_nat (Suc k)) (s + of_nat (Suc k)) (Suc k) a =
      mm_back ?m (d + of_nat k) (s + of_nat k) k a"
    by (simp add: algebra_simps)
  have at: "a = d + of_nat k \<longleftrightarrow> unat (a - d) = k"
    using word_eq_of_nat_iff [of k "a - d"] Suc.prems(1) by (simp add: word_diff_eq_iff)
  have "s + (a - d) \<noteq> d + of_nat k" if "unat (a - d) < k"
  proof -
    have "of_nat (unat (a - d)) = a - d" by simp
    then show ?thesis using Suc.prems(2) [OF that lessI] by metis
  qed
  with step IH at show ?case by (auto simp: less_Suc_eq)
qed

text \<open>
  \<open>memmove\<close> copies the bytes that the source held before the call, even where the two
  ranges overlap, provided that neither range wraps around the address space.
\<close>

lemma memmove_eq:
  assumes s: "unat src + unat n < 2 ^ 64" and d: "unat dst + unat n < 2 ^ 64"
  shows "memmove m dst src n =
    (\<lambda>a. if unat (a - dst) < unat n then m (src + (a - dst)) else m a)"
proof
  fix a
  let ?k = "unat n"
  have k: "?k < 2 ^ 64" using s by simp
  have u: "unat (of_nat i :: u64) = i" if "i < ?k" for i
    using that k by (intro unat_of_nat_small) simp
  have us: "unat (src + of_nat i) = unat src + i" if "i < ?k" for i
    using that s u [OF that] by (subst unat_add_no_wrap) simp_all
  have ud: "unat (dst + of_nat i) = unat dst + i" if "i < ?k" for i
    using that d u [OF that] by (subst unat_add_no_wrap) simp_all
  have n: "(ucast n :: u64) = of_nat ?k" by simp
  have "unat (ucast n :: u64) = ?k" by (rule unat_ucast_up) simp
  then have end_s: "unat (src + ucast n) = unat src + ?k"
    using s by (subst unat_add_no_wrap) simp_all
  show "memmove m dst src n a = (if unat (a - dst) < ?k then m (src + (a - dst)) else m a)"
  proof (cases "src < dst \<and> src + ucast n > dst")
    case True
    have "mm_back m (dst + of_nat ?k) (src + of_nat ?k) ?k a =
        (if unat (a - dst) < ?k then m (src + (a - dst)) else m a)"
    proof (rule mm_back_eq [OF k])
      fix i j assume ij: "i < j" "j < ?k"
      have "unat src < unat dst" using True by (simp add: word_less_nat_alt)
      with ij have "unat (dst + of_nat j) \<noteq> unat (src + of_nat i)"
        by (simp add: us ud)
      then show "dst + of_nat j \<noteq> src + of_nat i" by metis
    qed
    with True show ?thesis unfolding memmove_def n by simp
  next
    case False
    then have "unat dst \<le> unat src \<or> unat src + ?k \<le> unat dst"
      using end_s by (auto simp: word_less_nat_alt)
    then have "dst + of_nat i \<noteq> src + of_nat j" if "i < j" "j < ?k" for i j
    proof -
      from that have "unat (dst + of_nat i) = unat dst + i" by (intro ud) simp
      moreover from that have "unat (src + of_nat j) = unat src + j" by (intro us)
      moreover note that \<open>unat dst \<le> unat src \<or> unat src + ?k \<le> unat dst\<close>
      ultimately have "unat (dst + of_nat i) \<noteq> unat (src + of_nat j)" by linarith
      then show ?thesis by metis
    qed
    then have "mm_fwd m dst src ?k a = (if unat (a - dst) < ?k then m (src + (a - dst)) else m a)"
      using k by (rule mm_fwd_eq [rotated])
    with False show ?thesis by (auto simp: memmove_def)
  qed
qed

section \<open>Comparison\<close>

text \<open>\<open>*s1 - *s2\<close> on \<open>uchar\<close> operands is an \<open>int\<close> between -255 and 255.\<close>

primrec memcmp_loop :: "bytemem \<Rightarrow> u64 \<Rightarrow> u64 \<Rightarrow> nat \<Rightarrow> int" where
  "memcmp_loop m s1 s2 0 = 0"
| "memcmp_loop m s1 s2 (Suc k) =
     (if m s1 \<noteq> m s2 then uint (m s1) - uint (m s2) else memcmp_loop m (s1 + 1) (s2 + 1) k)"

definition memcmp :: "bytemem \<Rightarrow> u64 \<Rightarrow> u64 \<Rightarrow> u32 \<Rightarrow> int" where
  "memcmp m v1 v2 n = memcmp_loop m v1 v2 (unat n)"

primrec strncmp_loop :: "bytemem \<Rightarrow> u64 \<Rightarrow> u64 \<Rightarrow> nat \<Rightarrow> int" where
  "strncmp_loop m p q 0 = 0"
| "strncmp_loop m p q (Suc k) =
     (if m p \<noteq> 0 \<and> m p = m q then strncmp_loop m (p + 1) (q + 1) k
      else uint (m p) - uint (m q))"

definition strncmp :: "bytemem \<Rightarrow> u64 \<Rightarrow> u64 \<Rightarrow> u32 \<Rightarrow> int" where
  "strncmp m p q n = strncmp_loop m p q (unat n)"

lemma memcmp_loop_zero: "memcmp_loop m p q k = 0 \<longleftrightarrow> bytes_at m p k = bytes_at m q k"
proof (induction k arbitrary: p q)
  case 0
  then show ?case by (simp add: bytes_at_def)
next
  case (Suc k)
  then show ?case by (auto simp: bytes_at_Suc uint_eq_iff)
qed

text \<open>
  The part of a character array that is a C string, read up to a bound: the bytes before the
  first NUL, at most \<open>n\<close> of them.
\<close>

definition cstr_prefix :: "u8 list \<Rightarrow> u8 list" where
  "cstr_prefix bs = takeWhile (\<lambda>b. b \<noteq> 0) bs"

lemma strncmp_loop_zero:
  "strncmp_loop m p q k = 0 \<longleftrightarrow> cstr_prefix (bytes_at m p k) = cstr_prefix (bytes_at m q k)"
proof (induction k arbitrary: p q)
  case 0
  then show ?case by (simp add: cstr_prefix_def bytes_at_def)
next
  case (Suc k)
  have "uint b = 0 \<longleftrightarrow> b = 0" for b :: u8 using uint_eq_iff [of b 0] by simp
  with Suc show ?case by (auto simp: bytes_at_Suc cstr_prefix_def uint_eq_iff)
qed

section \<open>Bounded copies\<close>

text \<open>\<open>while(n-- > 0) *s++ = 0;\<close>\<close>

primrec zero_fill :: "bytemem \<Rightarrow> u64 \<Rightarrow> nat \<Rightarrow> bytemem" where
  "zero_fill m s 0 = m"
| "zero_fill m s (Suc k) = zero_fill (m(s := 0)) (s + 1) k"

primrec strncpy_loop :: "bytemem \<Rightarrow> u64 \<Rightarrow> u64 \<Rightarrow> nat \<Rightarrow> bytemem" where
  "strncpy_loop m s t 0 = m"
| "strncpy_loop m s t (Suc k) =
     (let m' = m(s := m t)
      in if m t \<noteq> 0 then strncpy_loop m' (s + 1) (t + 1) k else zero_fill m' (s + 1) k)"

definition strncpy :: "bytemem \<Rightarrow> u64 \<Rightarrow> u64 \<Rightarrow> int \<Rightarrow> bytemem" where
  "strncpy m s t n = strncpy_loop m s t (nat n)"

primrec safestrcpy_loop :: "bytemem \<Rightarrow> u64 \<Rightarrow> u64 \<Rightarrow> nat \<Rightarrow> bytemem" where
  "safestrcpy_loop m s t 0 = m(s := 0)"
| "safestrcpy_loop m s t (Suc k) =
     (let m' = m(s := m t)
      in if m t \<noteq> 0 then safestrcpy_loop m' (s + 1) (t + 1) k else m'(s + 1 := 0))"

definition safestrcpy :: "bytemem \<Rightarrow> u64 \<Rightarrow> u64 \<Rightarrow> int \<Rightarrow> bytemem" where
  "safestrcpy m s t n = (if n \<le> 0 then m else safestrcpy_loop m s t (nat (n - 1)))"

section \<open>Length and search\<close>

text \<open>Both loops run until a NUL byte; \<open>None\<close> stands for a loop that never finds one.\<close>

partial_function (option) strlen_loop :: "bytemem \<Rightarrow> u64 \<Rightarrow> nat \<Rightarrow> nat option" where
  "strlen_loop m s n = (if m (s + of_nat n) \<noteq> 0 then strlen_loop m s (Suc n) else Some n)"

definition strlen :: "bytemem \<Rightarrow> u64 \<Rightarrow> nat option" where
  "strlen m s = strlen_loop m s 0"

partial_function (option) strchr :: "bytemem \<Rightarrow> u64 \<Rightarrow> u8 \<Rightarrow> u64 option" where
  "strchr m s c =
     (if m s \<noteq> 0 then (if m s = c then Some s else strchr m (s + 1) c) else Some 0)"

section \<open>Wide characters\<close>

text \<open>A \<open>wchar\<close> is two bytes, low byte first.\<close>

definition load16 :: "bytemem \<Rightarrow> u64 \<Rightarrow> u16" where
  "load16 m p = word_rcat [m (p + 1), m p]"

definition store16 :: "u64 \<Rightarrow> u16 \<Rightarrow> bytemem \<Rightarrow> bytemem" where
  "store16 p v m = m(p := ucast v, p + 1 := ucast (drop_bit 8 v))"

text \<open>
  The length counters are \<open>int\<close> in the source and the callers pass array sizes, so the
  models take a natural number. \<open>wnstr\<close> stores through a \<open>uchar\<close> pointer: only
  the low byte of each wide character is written.
\<close>

primrec wnstr :: "bytemem \<Rightarrow> u64 \<Rightarrow> u64 \<Rightarrow> nat \<Rightarrow> bytemem" where
  "wnstr m dst src 0 = store16 dst 0 m"
| "wnstr m dst src (Suc len) =
     (if m src \<noteq> 0 then wnstr (m(dst := m src)) (dst + 2) (src + 1) len else store16 dst 0 m)"

text \<open>
  The test \<open>len--\<close> has already counted the NUL when the second loop of \<open>snstr\<close>
  starts, so it writes one zero byte less than the array has room for.
\<close>

primrec snstr :: "bytemem \<Rightarrow> u64 \<Rightarrow> u64 \<Rightarrow> nat \<Rightarrow> bytemem" where
  "snstr m dst src 0 = m"
| "snstr m dst src (Suc len) =
     (if load16 m src \<noteq> 0
      then snstr (m(dst := ucast (load16 m src AND 255))) (dst + 1) (src + 2) len
      else zero_fill m dst len)"

primrec wcsncmp_loop :: "bytemem \<Rightarrow> u64 \<Rightarrow> u64 \<Rightarrow> nat \<Rightarrow> int \<Rightarrow> int" where
  "wcsncmp_loop m s1 s2 0 ret = ret"
| "wcsncmp_loop m s1 s2 (Suc len) ret =
     (if load16 m s1 \<noteq> 0
      then (let r = uint (load16 m s1) - uint (load16 m s2)
            in if r \<noteq> 0 then r else wcsncmp_loop m (s1 + 2) (s2 + 2) len r)
      else ret)"

definition wcsncmp :: "bytemem \<Rightarrow> u64 \<Rightarrow> u64 \<Rightarrow> nat \<Rightarrow> int" where
  "wcsncmp m s1 s2 len = wcsncmp_loop m s1 s2 len 0"

section \<open>What the copies write\<close>

lemma of_nat_Suc_shift: "(p::u64) + of_nat (Suc i) = p + 1 + of_nat i"
  by (simp add: algebra_simps)

text \<open>An address outside \<open>[p, p + n)\<close>.\<close>

definition outside :: "u64 \<Rightarrow> nat \<Rightarrow> u64 \<Rightarrow> bool" where
  "outside p n a \<longleftrightarrow> (\<forall>i<n. a \<noteq> p + of_nat i)"

lemma outside_Suc: "outside p (Suc n) a \<longleftrightarrow> a \<noteq> p \<and> outside (p + 1) n a"
proof -
  have "outside p (Suc n) a \<longleftrightarrow> a \<noteq> p + of_nat 0 \<and> (\<forall>i<n. a \<noteq> p + of_nat (Suc i))"
    unfolding outside_def by (simp only: All_less_Suc2)
  then show ?thesis by (simp add: outside_def algebra_simps)
qed

lemma outside_0 [simp]: "outside p 0 a"
  by (simp add: outside_def)

lemma outside_mono: "outside p n a \<Longrightarrow> k \<le> n \<Longrightarrow> outside p k a"
  by (simp add: outside_def)

lemma outside_self: "n < 2 ^ 64 \<Longrightarrow> outside (p + 1) n p"
proof -
  assume n: "n < 2 ^ 64"
  have "p \<noteq> p + 1 + of_nat i" if i: "i < n" for i
  proof
    assume "p = p + 1 + of_nat i"
    then have "p = p + of_nat (Suc i)" by (simp only: of_nat_Suc add.assoc)
    then have "of_nat (Suc i) = (0::u64)" by (simp only: add_cancel_right_right)
    then have "unat (of_nat (Suc i) :: u64) = 0" by simp
    moreover have "Suc i < 2 ^ LENGTH(64)" using i n by simp
    ultimately show False by (simp only: unat_of_nat_small)
  qed
  then show ?thesis by (simp add: outside_def)
qed

lemma zero_fill_outside: "outside s k a \<Longrightarrow> zero_fill m s k a = m a"
  by (induction k arbitrary: m s) (simp_all add: outside_Suc)

lemma zero_fill_inside: "i < k \<Longrightarrow> k < 2 ^ 64 \<Longrightarrow> zero_fill m s k (s + of_nat i) = 0"
proof (induction k arbitrary: m s i)
  case (Suc k)
  show ?case
  proof (cases i)
    case 0
    have "outside (s + 1) k s" using Suc.prems by (intro outside_self) simp
    then show ?thesis by (simp add: 0 zero_fill_outside)
  next
    case (Suc j)
    then show ?thesis using Suc.IH [of j] Suc.prems by (simp add: of_nat_Suc_shift del: of_nat_Suc)
  qed
qed simp

lemma strncpy_loop_outside: "outside s k a \<Longrightarrow> strncpy_loop m s t k a = m a"
  by (induction k arbitrary: m s t) (simp_all add: outside_Suc Let_def zero_fill_outside)

lemma safestrcpy_loop_outside: "outside s (Suc k) a \<Longrightarrow> safestrcpy_loop m s t k a = m a"
  by (induction k arbitrary: m s t) (simp_all add: outside_Suc Let_def)

text \<open>Source and destination ranges that share no byte.\<close>

definition disjoint_ranges :: "u64 \<Rightarrow> u64 \<Rightarrow> nat \<Rightarrow> bool" where
  "disjoint_ranges s t n \<longleftrightarrow> (\<forall>i<n. outside s n (t + of_nat i))"

lemma disjoint_ranges_Suc:
  "disjoint_ranges s t (Suc n) \<Longrightarrow> outside s (Suc n) t \<and> disjoint_ranges (s + 1) (t + 1) n"
proof -
  assume d: "disjoint_ranges s t (Suc n)"
  then have "outside s (Suc n) t" by (force simp: disjoint_ranges_def)
  moreover have "outside (s + 1) n (t + 1 + of_nat i)" if "i < n" for i
  proof -
    have "outside s (Suc n) (t + of_nat (Suc i))"
      using d that unfolding disjoint_ranges_def by blast
    then show ?thesis by (simp add: outside_Suc of_nat_Suc_shift del: of_nat_Suc)
  qed
  ultimately show ?thesis by (simp add: disjoint_ranges_def)
qed

lemma bytes_at_cong:
  "(\<And>i. i < n \<Longrightarrow> m (p + of_nat i) = m' (p + of_nat i)) \<Longrightarrow> bytes_at m p n = bytes_at m' p n"
  by (simp add: bytes_at_def)

lemma bytes_at_zero_fill: "k < 2 ^ 64 \<Longrightarrow> bytes_at (zero_fill m s k) s k = replicate k 0"
  by (rule nth_equalityI) (simp_all add: zero_fill_inside)

lemma disjoint_ranges_upd:
  assumes "disjoint_ranges s t (Suc k)"
  shows "bytes_at (m(s := b)) (t + 1) k = bytes_at m (t + 1) k"
proof (rule bytes_at_cong)
  fix i assume "i < k"
  then have "outside s (Suc k) (t + of_nat (Suc i))"
    using assms unfolding disjoint_ranges_def by blast
  then show "(m(s := b)) (t + 1 + of_nat i) = m (t + 1 + of_nat i)"
    by (simp add: outside_Suc of_nat_Suc_shift del: of_nat_Suc)
qed

lemma strncpy_loop_bytes:
  "k < 2 ^ 64 \<Longrightarrow> disjoint_ranges s t k \<Longrightarrow>
   bytes_at (strncpy_loop m s t k) s k =
     (let c = cstr_prefix (bytes_at m t k) in c @ replicate (k - length c) 0)"
proof (induction k arbitrary: m s t)
  case 0
  then show ?case by (simp add: bytes_at_def cstr_prefix_def)
next
  case (Suc k)
  let ?m = "m(s := m t)"
  from Suc.prems(2) have d: "disjoint_ranges (s + 1) (t + 1) k"
    by (simp add: disjoint_ranges_Suc)
  have out: "outside (s + 1) k s" using Suc.prems(1) by (intro outside_self) simp
  have tail: "bytes_at ?m (t + 1) k = bytes_at m (t + 1) k"
    by (rule disjoint_ranges_upd [OF Suc.prems(2)])
  show ?case
  proof (cases "m t = 0")
    case True
    then show ?thesis
      using Suc.prems(1) out
      by (simp add: bytes_at_Suc cstr_prefix_def bytes_at_zero_fill zero_fill_outside)
  next
    case False
    have "bytes_at (strncpy_loop ?m (s + 1) (t + 1) k) (s + 1) k =
        (let c = cstr_prefix (bytes_at m (t + 1) k) in c @ replicate (k - length c) 0)"
      unfolding tail [symmetric] by (rule Suc.IH) (use Suc.prems(1) d in simp_all)
    then show ?thesis using out False
      by (simp add: bytes_at_Suc cstr_prefix_def strncpy_loop_outside Let_def)
  qed
qed

lemma safestrcpy_loop_bytes:
  "Suc k < 2 ^ 64 \<Longrightarrow> disjoint_ranges s t (Suc k) \<Longrightarrow>
   (let c = cstr_prefix (bytes_at m t k); m' = safestrcpy_loop m s t k
    in bytes_at m' s (length c) = c \<and> m' (s + of_nat (length c)) = 0)"
proof (induction k arbitrary: m s t)
  case 0
  then show ?case by (simp add: bytes_at_def cstr_prefix_def)
next
  case (Suc k)
  let ?m = "m(s := m t)"
  from Suc.prems(2) have d: "disjoint_ranges (s + 1) (t + 1) (Suc k)"
    by (simp add: disjoint_ranges_Suc)
  have out: "outside (s + 1) (Suc k) s" using Suc.prems(1) by (intro outside_self) simp
  have "bytes_at ?m (t + 1) (Suc k) = bytes_at m (t + 1) (Suc k)"
    by (rule disjoint_ranges_upd [OF Suc.prems(2)])
  then have tail: "bytes_at ?m (t + 1) k = bytes_at m (t + 1) k"
    by (simp add: bytes_at_def)
  show ?case
  proof (cases "m t = 0")
    case True
    then show ?thesis using out
      by (simp add: bytes_at_Suc cstr_prefix_def outside_Suc) (simp add: bytes_at_def)
  next
    case False
    have "let c = cstr_prefix (bytes_at m (t + 1) k); m' = safestrcpy_loop ?m (s + 1) (t + 1) k
        in bytes_at m' (s + 1) (length c) = c \<and> m' (s + 1 + of_nat (length c)) = 0"
      unfolding tail [symmetric] by (rule Suc.IH) (use Suc.prems(1) d in simp_all)
    then show ?thesis using out False
      by (simp add: bytes_at_Suc cstr_prefix_def safestrcpy_loop_outside Let_def
          of_nat_Suc_shift del: of_nat_Suc)
  qed
qed

lemma strlen_loop_Some:
  "(\<And>i. n \<le> i \<Longrightarrow> i < k \<Longrightarrow> m (s + of_nat i) \<noteq> 0) \<Longrightarrow> m (s + of_nat k) = 0 \<Longrightarrow> n \<le> k \<Longrightarrow>
   strlen_loop m s n = Some k"
proof (induction "k - n" arbitrary: n)
  case 0
  then show ?case by (simp add: strlen_loop.simps)
next
  case (Suc d)
  then have "strlen_loop m s (Suc n) = Some k" by simp
  with Suc show ?case by (subst strlen_loop.simps) simp
qed

section \<open>Properties\<close>

text \<open>
  \<open>memmove\<close> leaves in the destination the bytes that the source held before the
  call, whatever the overlap of the two ranges, and changes no other byte.
\<close>

theorem memmove_copies:
  assumes "unat src + unat n < 2 ^ 64" and "unat dst + unat n < 2 ^ 64"
  shows "bytes_at (memmove m dst src n) dst (unat n) = bytes_at m src (unat n)
    \<and> (\<forall>a. outside dst (unat n) a \<longrightarrow> memmove m dst src n a = m a)"
proof (intro conjI allI impI)
  have u: "unat (of_nat i :: u64) = i" if "i < unat n" for i
    using that assms(1) by (intro unat_of_nat_small) simp
  show "bytes_at (memmove m dst src n) dst (unat n) = bytes_at m src (unat n)"
    by (rule nth_equalityI) (simp_all add: memmove_eq [OF assms] u del: of_nat_unat)
  fix a assume "outside dst (unat n) a"
  then have "unat (a - dst) < unat n \<Longrightarrow> a \<noteq> dst + of_nat (unat (a - dst))"
    unfolding outside_def by blast
  then show "memmove m dst src n a = m a" by (auto simp: memmove_eq [OF assms])
qed

lemma memmove_copies_witness:
  "bytes_at (memmove (\<lambda>a. ucast a) 0x1002 0x1000 4) 0x1002 4 = [0, 1, 2, 3]"
  using memmove_copies [of "0x1000" 4 "0x1002" "\<lambda>a. ucast a"]
  by (simp add: bytes_at_def upt_rec)

text \<open>
  \<open>strncmp\<close> is 0 exactly when the two arrays hold the same C string, as far as the
  first \<open>n\<close> bytes tell.
\<close>

theorem strncmp_zero_iff:
  "strncmp m p q n = 0 \<longleftrightarrow>
   cstr_prefix (bytes_at m p (unat n)) = cstr_prefix (bytes_at m q (unat n))"
  by (simp add: strncmp_def strncmp_loop_zero)

text \<open>
  \<open>safestrcpy\<close> copies the source string, cut to \<open>n - 1\<close> bytes, always ends it with a
  NUL, and writes nothing beyond the \<open>n\<close> bytes of the destination.
\<close>

theorem safestrcpy_terminates:
  assumes "0 < n" and "n < 2 ^ 64" and "disjoint_ranges s t (nat n)"
  shows "let c = cstr_prefix (bytes_at m t (nat n - 1)); m' = safestrcpy m s t n
    in bytes_at m' s (length c) = c \<and> m' (s + of_nat (length c)) = 0
      \<and> (\<forall>a. outside s (nat n) a \<longrightarrow> m' a = m a)"
proof -
  have n: "Suc (nat (n - 1)) = nat n" "nat n - Suc 0 = nat (n - 1)" using assms(1) by auto
  have lt: "Suc (nat (n - 1)) < 2 ^ 64" using assms(1,2) n by simp
  have d: "disjoint_ranges s t (Suc (nat (n - 1)))" using assms(3) n by simp
  show ?thesis
    using safestrcpy_loop_bytes [OF lt d, of m] assms(1)
    by (simp add: safestrcpy_def n(2) Let_def safestrcpy_loop_outside n(1))
qed

lemma safestrcpy_terminates_witness:
  "let m' = safestrcpy (\<lambda>a. if a < 0x2000 then 65 else 7) 0x3000 0x1000 3
   in m' 0x3001 = 65 \<and> m' 0x3002 = 0 \<and> m' 0x3003 = 7"
proof -
  let ?m = "\<lambda>a::u64. if a < 0x2000 then 65 else 7 :: u8"
  have d: "disjoint_ranges 0x3000 0x1000 (nat 3)"
    by (simp add: disjoint_ranges_def outside_def numeral_3_eq_3 All_less_Suc)
  have o: "outside 0x3000 (nat 3) 0x3003"
    by (simp add: outside_def numeral_3_eq_3 All_less_Suc)
  have c: "cstr_prefix (bytes_at ?m 0x1000 2) = [65, 65]"
    by (simp add: cstr_prefix_def bytes_at_def upt_rec)
  have "bytes_at (safestrcpy ?m 0x3000 0x1000 3) 0x3000 (Suc (Suc 0)) = [65, 65]
      \<and> safestrcpy ?m 0x3000 0x1000 3 0x3002 = 0 \<and> safestrcpy ?m 0x3000 0x1000 3 0x3003 = 7"
    using safestrcpy_terminates [OF _ _ d, of ?m] o by (simp add: c Let_def)
  then show ?thesis by (simp add: bytes_at_def upt_rec Let_def)
qed

end
