(* ===== verification/Riscv.thy ===== *)
theory Riscv imports Prelude begin

text \<open>
  The constants and address arithmetic of libs/riscv.h, libs/memlayout.h and libs/param.h: page
  rounding, the Sv39 page table entry format, the three 9-bit table indices of a virtual address
  and the memory layout. All of it is arithmetic on \<open>uint64\<close>.
\<close>

section \<open>Limits (libs/param.h)\<close>

definition NPROC :: nat where "NPROC = 50"
definition NCPU :: nat where "NCPU = 2"
definition NOFILE :: nat where "NOFILE = 16"
definition NFILE :: nat where "NFILE = 100"
definition NDEV :: nat where "NDEV = 10"
definition MAXARG :: nat where "MAXARG = 32"
definition NBUF :: nat where "NBUF = 30"

section \<open>Pages\<close>

definition PGSIZE :: u64 where "PGSIZE = 4096"
definition PGSHIFT :: nat where "PGSHIFT = 12"

definition PGROUNDUP :: "u64 \<Rightarrow> u64" where
  "PGROUNDUP sz = (sz + PGSIZE - 1) AND NOT (PGSIZE - 1)"

definition PGROUNDDOWN :: "u64 \<Rightarrow> u64" where
  "PGROUNDDOWN a = a AND NOT (PGSIZE - 1)"

section \<open>Page table entries\<close>

definition PTE_V :: u64 where "PTE_V = push_bit 0 1"
definition PTE_R :: u64 where "PTE_R = push_bit 1 1"
definition PTE_W :: u64 where "PTE_W = push_bit 2 1"
definition PTE_X :: u64 where "PTE_X = push_bit 3 1"
definition PTE_U :: u64 where "PTE_U = push_bit 4 1"

definition PA2PTE :: "u64 \<Rightarrow> u64" where
  "PA2PTE pa = push_bit 10 (drop_bit 12 pa)"

definition PTE2PA :: "u64 \<Rightarrow> u64" where
  "PTE2PA pte = push_bit 12 (drop_bit 10 pte)"

definition PTE_FLAGS :: "u64 \<Rightarrow> u64" where
  "PTE_FLAGS pte = pte AND 0x3FF"

definition PXMASK :: u64 where "PXMASK = 0x1FF"

definition PXSHIFT :: "nat \<Rightarrow> nat" where
  "PXSHIFT level = PGSHIFT + 9 * level"

definition PX :: "nat \<Rightarrow> u64 \<Rightarrow> u64" where
  "PX level va = drop_bit (PXSHIFT level) va AND PXMASK"

definition MAXVA :: u64 where
  "MAXVA = push_bit (9 + 9 + 9 + 12 - 1) 1"

definition SATP_SV39 :: u64 where "SATP_SV39 = push_bit 60 8"

definition MAKE_SATP :: "u64 \<Rightarrow> u64" where
  "MAKE_SATP pagetable = SATP_SV39 OR drop_bit 12 pagetable"

section \<open>Memory layout (libs/memlayout.h)\<close>

definition VIRT_OFFSET :: u64 where "VIRT_OFFSET = 0x3F00000000"
definition PHYSTOP :: u64 where "PHYSTOP = 0x80600000"
definition TRAMPOLINE :: u64 where "TRAMPOLINE = MAXVA - PGSIZE"
definition TRAPFRAME :: u64 where "TRAPFRAME = TRAMPOLINE - PGSIZE"
definition VKSTACK :: u64 where "VKSTACK = 0x3EC0000000"
definition MAXUVA :: u64 where "MAXUVA = 0x80000000"

section \<open>Page rounding\<close>

lemmas riscv_consts = PGSIZE_def PGSHIFT_def PTE_V_def PTE_R_def PTE_W_def PTE_X_def PTE_U_def
  PXMASK_def MAXVA_def PHYSTOP_def TRAMPOLINE_def TRAPFRAME_def VKSTACK_def MAXUVA_def

definition page_aligned :: "u64 \<Rightarrow> bool" where
  "page_aligned a \<longleftrightarrow> unat a mod 4096 = 0"

lemma PGROUNDDOWN_shift: "PGROUNDDOWN a = push_bit 12 (drop_bit 12 a)"
proof -
  have "PGSIZE - 1 = mask 12" by (simp add: PGSIZE_def mask_eq_exp_minus_1)
  then show ?thesis
    by (auto simp: PGROUNDDOWN_def intro!: bit_word_eqI simp: bit_simps)
qed

lemma unat_PGROUNDDOWN: "unat (PGROUNDDOWN a) = 4096 * (unat a div 4096)"
proof -
  have lt: "unat a < 2 ^ 64" using unsigned_less [of a] by simp
  have d: "unat (drop_bit 12 a) = unat a div 4096"
    unfolding unat_drop_bit_eq by (simp add: drop_bit_eq_div)
  have "PGROUNDDOWN a = drop_bit 12 a * 4096"
    by (simp add: PGROUNDDOWN_shift push_bit_eq_mult)
  moreover have "unat (drop_bit 12 a * 4096) = (unat a div 4096 * 4096) mod 2 ^ 64"
    unfolding unat_word_ariths d by simp
  moreover have "unat a div 4096 * 4096 < 2 ^ 64"
    using lt div_times_less_eq_dividend [of "unat a" 4096] by (rule le_less_trans [rotated])
  ultimately show ?thesis by simp
qed

lemma page_aligned_PGROUNDDOWN [simp]: "page_aligned (PGROUNDDOWN a)"
  by (simp add: page_aligned_def unat_PGROUNDDOWN)

lemma PGROUNDDOWN_le: "PGROUNDDOWN a \<le> a"
  by (simp add: word_le_nat_alt unat_PGROUNDDOWN)

lemma PGROUNDDOWN_aligned: "page_aligned a \<Longrightarrow> PGROUNDDOWN a = a"
  by (rule unat_inj) (auto simp: unat_PGROUNDDOWN page_aligned_def)

lemma PGROUNDUP_eq: "PGROUNDUP a = PGROUNDDOWN (a + 4095)"
  by (simp add: PGROUNDUP_def PGROUNDDOWN_def PGSIZE_def add.commute)

lemma unat_PGROUNDUP:
  assumes "unat a + 4095 < 2 ^ 64"
  shows "unat (PGROUNDUP a) = 4096 * ((unat a + 4095) div 4096)"
proof -
  have "unat (a + 4095) = unat a + 4095"
    using assms by (subst unat_add_no_wrap) simp_all
  then show ?thesis by (simp add: PGROUNDUP_eq unat_PGROUNDDOWN)
qed

lemma page_aligned_PGROUNDUP [simp]: "page_aligned (PGROUNDUP a)"
  by (simp add: PGROUNDUP_eq)

lemma PGROUNDUP_bounds:
  assumes "unat a + 4095 < 2 ^ 64"
  shows "unat a \<le> unat (PGROUNDUP a)" and "unat (PGROUNDUP a) < unat a + 4096"
  using div_mult_mod_eq [of "unat a + 4095" 4096] mod_less_divisor [of 4096 "unat a + 4095"]
  unfolding unat_PGROUNDUP [OF assms] by linarith+

text \<open>The 4096 bytes from a page-aligned address on are the addresses that round down to it.\<close>

lemma in_page_iff:
  assumes "page_aligned p"
  shows "unat (a - p) < 4096 \<longleftrightarrow> PGROUNDDOWN a = p"
proof
  assume "PGROUNDDOWN a = p"
  then have p: "unat p = 4096 * (unat a div 4096)" using unat_PGROUNDDOWN by metis
  then have "p \<le> a" by (simp add: word_le_nat_alt)
  then have "unat (a - p) = unat a - unat p" by (rule unat_sub_le)
  then show "unat (a - p) < 4096" unfolding p using mult_div_mod_eq [of 4096 "unat a"] mod_less_divisor [of 4096 "unat a"] by linarith
next
  assume lt: "unat (a - p) < 4096"
  have dvd: "4096 dvd unat p" using assms by (simp add: page_aligned_def mod_eq_0_iff_dvd)
  have "unat p < 2 ^ 64" using unsigned_less [of p] by simp
  then have "unat p + 4096 \<le> 2 ^ 64"
    using dvd by (auto elim!: dvdE)
  then have "unat (p + (a - p)) = unat p + unat (a - p)"
    using lt by (subst unat_add_no_wrap) simp_all
  then have a: "unat a = unat p + unat (a - p)" by simp
  have "unat a div 4096 = unat p div 4096" using dvd lt unfolding a by (auto elim!: dvdE)
  then have "unat (PGROUNDDOWN a) = unat p" using dvd by (simp add: unat_PGROUNDDOWN)
  then show "PGROUNDDOWN a = p" by (rule unat_inj)
qed

lemma PGROUNDDOWN_offset:
  assumes "page_aligned p" and "n < 4096"
  shows "PGROUNDDOWN (p + of_nat n) = p"
proof -
  have "unat (of_nat n :: u64) = n" using assms(2) by (simp add: unat_of_nat_small)
  then show ?thesis using assms by (simp flip: in_page_iff [OF assms(1)])
qed

section \<open>Page table entry round trips\<close>

lemma page_aligned_iff_bits: "page_aligned pa \<longleftrightarrow> (\<forall>n<12. \<not> bit pa n)"
proof -
  have "page_aligned pa \<longleftrightarrow> take_bit 12 (unat pa) = 0"
    by (simp add: page_aligned_def take_bit_eq_mod)
  also have "\<dots> \<longleftrightarrow> (\<forall>n. \<not> bit (take_bit 12 (unat pa)) n)"
    by (metis bit_0_eq bit_eq_iff bot_apply bot_bool_def)
  also have "\<dots> \<longleftrightarrow> (\<forall>n<12. \<not> bit pa n)"
    by (auto simp: bit_take_bit_iff bit_unsigned_iff)
  finally show ?thesis .
qed

lemma flags_bits: "f AND 0x3FF = (f::u64) \<Longrightarrow> 10 \<le> n \<Longrightarrow> \<not> bit f n"
proof
  assume f: "f AND 0x3FF = f" and n: "10 \<le> n" and b: "bit f n"
  have "(0x3FF::u64) = mask 10" by (simp add: mask_eq_exp_minus_1)
  with f have "take_bit 10 f = f" by (simp add: take_bit_eq_mask)
  with b have "bit (take_bit 10 f) n" by simp
  with n show False by (simp add: bit_take_bit_iff)
qed

lemma PTE2PA_PA2PTE:
  assumes pa: "page_aligned pa" and f: "f AND 0x3FF = f"
  shows "PTE2PA (PA2PTE pa OR f) = pa"
proof (rule bit_word_eqI)
  fix n assume n: "n < LENGTH(64)"
  show "bit (PTE2PA (PA2PTE pa OR f)) n = bit pa n"
  proof (cases "n < 12")
    case True
    then show ?thesis using pa n by (simp add: PTE2PA_def bit_simps page_aligned_iff_bits)
  next
    case False
    then have "\<not> bit f (10 + (n - 12))" using f by (intro flags_bits) simp_all
    moreover have "10 \<le> n - 2" "n - 2 < 64" using False n by simp_all
    ultimately show ?thesis using False n
      by (simp add: PTE2PA_def PA2PTE_def bit_simps)
  qed
qed

lemma PTE_FLAGS_PA2PTE:
  assumes f: "f AND 0x3FF = f"
  shows "PTE_FLAGS (PA2PTE pa OR f) = f"
proof (rule bit_word_eqI)
  fix n assume n: "n < LENGTH(64)"
  have m: "(0x3FF::u64) = mask 10" by (simp add: mask_eq_exp_minus_1)
  show "bit (PTE_FLAGS (PA2PTE pa OR f)) n = bit f n"
    using flags_bits [OF f, of n] n
    by (cases "n < 10") (auto simp: PTE_FLAGS_def PA2PTE_def m bit_simps)
qed

lemma PTE_V_bit: "(p AND PTE_V \<noteq> 0) = bit p 0"
  by (simp add: PTE_V_def bit_iff_odd and_one_eq odd_iff_mod_2_eq_one)

lemma page_aligned_PTE2PA [simp]: "page_aligned (PTE2PA p)"
  by (simp add: page_aligned_iff_bits PTE2PA_def bit_simps)

section \<open>Table indices\<close>

lemma PX_take: "PX l va = take_bit 9 (drop_bit (12 + 9 * l) va)"
proof -
  have "PXMASK = mask 9" by (simp add: PXMASK_def mask_eq_exp_minus_1)
  then show ?thesis by (simp add: PX_def PXSHIFT_def PGSHIFT_def take_bit_eq_mask)
qed

lemma unat_PX: "unat (PX l va) = unat va div 2 ^ (12 + 9 * l) mod 512"
  unfolding PX_take unsigned_take_bit_eq unat_drop_bit_eq
  by (simp add: take_bit_eq_mod drop_bit_eq_div)

lemma unat_PX_less: "unat (PX l va) < 512"
  by (simp add: unat_PX)

end
