(* ===== verification/Spinlock.thy ===== *)
theory Spinlock imports Prelude begin

text \<open>
  kernel/intr.c and kernel/spinlock.c: the interrupt-enable bit of each hart, the nested
  \<open>push_off\<close>/\<open>pop_off\<close> discipline and the spin locks built on it, together with
  \<open>mycpu\<close> and \<open>myproc\<close> of kernel/proc.c. The first part is the code as one hart runs it; a
  lock that another hart holds makes \<open>acquire\<close> spin. The second part is the same
  code as a step relation of several harts over one lock, one step per memory access, in which
  mutual exclusion is an invariant.
\<close>

section \<open>State\<close>

text \<open>\<open>struct cpu\<close> of libs/proc.h, without the saved registers of the scheduler context.\<close>

record cpu =
  cproc :: "nat option"
  noff :: int
  intena :: bool

text \<open>\<open>struct spinlock\<close> of libs/spinlock.h; \<open>lk_cpu\<close> is the hart number of the \<open>cpu\<close> pointer.\<close>

record spinlock =
  locked :: bool
  lk_cpu :: "nat option"

text \<open>
  \<open>hart\<close> is the hart that runs the code (its register \<open>tp\<close>), \<open>sie\<close> the
  interrupt-enable bit of \<open>sstatus\<close> on each hart.
\<close>

record kcore =
  hart :: nat
  sie :: "nat \<Rightarrow> bool"
  cpus :: "nat \<Rightarrow> cpu"
  locks :: "lockid \<Rightarrow> spinlock"

text \<open>Every component extends this record by its own state.\<close>

record kst = core :: kcore

section \<open>Interrupts (intr.c, riscv.h)\<close>

definition intr_get :: "kcore \<Rightarrow> bool" where
  "intr_get c = sie c (hart c)"

definition intr_on :: "kcore \<Rightarrow> kcore" where
  "intr_on c = c\<lparr>sie := (sie c)(hart c := True)\<rparr>"

definition intr_off :: "kcore \<Rightarrow> kcore" where
  "intr_off c = c\<lparr>sie := (sie c)(hart c := False)\<rparr>"

definition mycpu :: "kcore \<Rightarrow> cpu" where
  "mycpu c = cpus c (hart c)"

definition set_mycpu :: "cpu \<Rightarrow> kcore \<Rightarrow> kcore" where
  "set_mycpu p c = c\<lparr>cpus := (cpus c)(hart c := p)\<rparr>"

definition push_off :: "kcore \<Rightarrow> kcore" where
  "push_off c =
    (let old = intr_get c;
         c = intr_off c;
         c = (if noff (mycpu c) = 0 then set_mycpu ((mycpu c)\<lparr>intena := old\<rparr>) c else c)
     in set_mycpu ((mycpu c)\<lparr>noff := noff (mycpu c) + 1\<rparr>) c)"

definition pop_off :: "kcore \<Rightarrow> kcore kres" where
  "pop_off c =
    (if intr_get c then Inl (Panic ''pop_off - interruptible'')
     else if noff (mycpu c) < 1 then Inl (Panic ''pop_off'')
     else
       (let c = set_mycpu ((mycpu c)\<lparr>noff := noff (mycpu c) - 1\<rparr>) c
        in Inr (if noff (mycpu c) = 0 \<and> intena (mycpu c) then intr_on c else c)))"

section \<open>Spin locks (spinlock.c)\<close>

definition set_lock :: "lockid \<Rightarrow> spinlock \<Rightarrow> kcore \<Rightarrow> kcore" where
  "set_lock l k c = c\<lparr>locks := (locks c)(l := k)\<rparr>"

definition initlock :: "lockid \<Rightarrow> kcore \<Rightarrow> kcore" where
  "initlock l c = set_lock l \<lparr>locked = False, lk_cpu = None\<rparr> c"

definition holding :: "lockid \<Rightarrow> kcore \<Rightarrow> bool" where
  "holding l c \<longleftrightarrow> locked (locks c l) \<and> lk_cpu (locks c l) = Some (hart c)"

definition acquire :: "lockid \<Rightarrow> kcore \<Rightarrow> kcore kres" where
  "acquire l c =
    (let c = push_off c in
     if holding l c then Inl (Panic ''acquire'')
     else if locked (locks c l) then Inl (Spins l)
     else Inr (set_lock l \<lparr>locked = True, lk_cpu = Some (hart c)\<rparr> c))"

definition release :: "lockid \<Rightarrow> kcore \<Rightarrow> kcore kres" where
  "release l c =
    (if \<not> holding l c then Inl (Panic ''release'')
     else
       (let c = set_lock l ((locks c l)\<lparr>lk_cpu := None\<rparr>) c;
            c = set_lock l ((locks c l)\<lparr>locked := False\<rparr>) c
        in pop_off c))"

text \<open>proc.c: the process running on this hart, read with interrupts off.\<close>

definition myproc :: "kcore \<Rightarrow> (nat option \<times> kcore) kres" where
  "myproc c =
    (let c = push_off c; p = cproc (mycpu c)
     in kbind (pop_off c) (\<lambda>c. Inr (p, c)))"

text \<open>A lock operation on a larger state.\<close>

definition on_core :: "(kcore \<Rightarrow> kcore kres) \<Rightarrow> 'a kst_scheme \<Rightarrow> 'a kst_scheme kres" where
  "on_core f s = kbind (f (core s)) (\<lambda>c. Inr (s\<lparr>core := c\<rparr>))"

abbreviation lock :: "lockid \<Rightarrow> 'a kst_scheme \<Rightarrow> 'a kst_scheme kres" where
  "lock l \<equiv> on_core (acquire l)"

abbreviation unlock :: "lockid \<Rightarrow> 'a kst_scheme \<Rightarrow> 'a kst_scheme kres" where
  "unlock l \<equiv> on_core (release l)"

section \<open>Closed forms\<close>

text \<open>
  \<open>core_ok\<close>: the nesting depth is not negative, and interrupts are off while it is positive.
  \<open>settle c\<close> is what an acquire followed by a release leaves: the interrupt bit is what it
  was, and at depth 0 the saved \<open>intena\<close> is that bit.
\<close>

definition core_ok :: "kcore \<Rightarrow> bool" where
  "core_ok c \<longleftrightarrow> noff (mycpu c) \<ge> 0 \<and> (noff (mycpu c) > 0 \<longrightarrow> \<not> intr_get c)"

definition lockfree :: "lockid \<Rightarrow> kcore \<Rightarrow> bool" where
  "lockfree l c \<longleftrightarrow> locks c l = \<lparr>locked = False, lk_cpu = None\<rparr>"

definition acq :: "lockid \<Rightarrow> kcore \<Rightarrow> kcore" where
  "acq l c = set_lock l \<lparr>locked = True, lk_cpu = Some (hart c)\<rparr> (push_off c)"

definition settle :: "kcore \<Rightarrow> kcore" where
  "settle c = (if noff (mycpu c) = 0 then set_mycpu ((mycpu c)\<lparr>intena := intr_get c\<rparr>) c else c)"

lemmas core_defs = intr_get_def intr_on_def intr_off_def mycpu_def set_mycpu_def set_lock_def

lemma core_simps [simp]:
  "hart (set_lock l k c) = hart c" "hart (push_off c) = hart c" "hart (acq l c) = hart c"
  "hart (settle c) = hart c" "hart (set_mycpu p c) = hart c" "hart (intr_on c) = hart c"
  "hart (intr_off c) = hart c"
  "locks (push_off c) = locks c" "locks (settle c) = locks c"
  "locks (set_lock l k c) = (locks c)(l := k)"
  "locks (set_mycpu p c) = locks c" "locks (intr_on c) = locks c"
  "locks (intr_off c) = locks c"
  by (simp_all add: core_defs push_off_def acq_def settle_def Let_def)

lemma locks_acq [simp]:
  "locks (acq l c) = (locks c)(l := \<lparr>locked = True, lk_cpu = Some (hart c)\<rparr>)"
  by (simp add: acq_def)

lemma cproc_simps [simp]:
  "cproc (cpus (acq l c) i) = cproc (cpus c i)"
  "cproc (cpus (settle c) i) = cproc (cpus c i)"
  "cproc (cpus (push_off c) i) = cproc (cpus c i)"
  "cproc (cpus (set_lock l k c) i) = cproc (cpus c i)"
  by (simp_all add: core_defs push_off_def acq_def settle_def Let_def)

lemma cproc_mycpu [simp]:
  "cproc (mycpu (acq l c)) = cproc (mycpu c)"
  "cproc (mycpu (settle c)) = cproc (mycpu c)"
  by (simp_all add: mycpu_def)

lemma core_ok_acq [simp]: "core_ok c \<Longrightarrow> core_ok (acq l c)"
  by (simp add: core_ok_def core_defs push_off_def acq_def Let_def)

lemma core_ok_settle [simp]: "core_ok c \<Longrightarrow> core_ok (settle c)"
  by (simp add: core_ok_def core_defs settle_def)

lemma lockfree_settle [simp]: "lockfree l (settle c) = lockfree l c"
  by (simp add: lockfree_def)

lemma lockfree_acq [simp]: "lockfree l (acq l' c) \<longleftrightarrow> l \<noteq> l' \<and> lockfree l c"
  by (simp add: lockfree_def)

lemma holding_acq [simp]: "holding l (acq l' c) \<longleftrightarrow> l = l' \<or> holding l c"
  by (auto simp: holding_def)

lemma holding_settle [simp]: "holding l (settle c) = holding l c"
  by (simp add: holding_def)

lemma lockfree_not_holding [simp]: "lockfree l c \<Longrightarrow> \<not> holding l c"
  by (simp add: lockfree_def holding_def)

lemma settle_idem [simp]: "settle (settle c) = settle c"
  by (simp add: settle_def core_defs)

lemma acq_settle [simp]: "acq l (settle c) = acq l c"
  by (simp add: settle_def acq_def push_off_def core_defs Let_def)

lemma settle_acq [simp]: "core_ok c \<Longrightarrow> settle (acq l c) = acq l c"
  by (simp add: settle_def acq_def push_off_def core_defs core_ok_def Let_def)

lemma acquire_free [lock_simps]: "lockfree l c \<Longrightarrow> acquire l c = Inr (acq l c)"
  by (simp add: acquire_def acq_def lockfree_def holding_def Let_def)

lemma release_acq [lock_simps]:
  assumes "core_ok c" and "lockfree l c"
  shows "release l (acq l c) = Inr (settle c)"
proof -
  have ll: "(locks c)(l := \<lparr>locked = False, lk_cpu = None\<rparr>) = locks c"
    using assms(2) by (auto simp: lockfree_def)
  show ?thesis
    using assms(1)
    by (auto simp: release_def holding_def pop_off_def acq_def settle_def push_off_def core_defs
        core_ok_def Let_def fun_upd_idem_iff ll intro!: kcore.equality)
qed

lemma myproc_eq [lock_simps]:
  assumes "core_ok c"
  shows "myproc c = Inr (cproc (mycpu c), settle c)"
  using assms
  by (auto simp: myproc_def pop_off_def settle_def push_off_def core_defs core_ok_def Let_def
      fun_upd_idem_iff intro!: kcore.equality)

lemma on_core_Inr [simp]: "f (core s) = Inr c \<Longrightarrow> on_core f s = Inr (s\<lparr>core := c\<rparr>)"
  by (simp add: on_core_def)

lemma lock_free [lock_simps]:
  "lockfree l (core s) \<Longrightarrow> on_core (acquire l) s = Inr (s\<lparr>core := acq l (core s)\<rparr>)"
  by (simp add: lock_simps)

lemma unlock_acq [lock_simps]:
  "core s = acq l c \<Longrightarrow> core_ok c \<Longrightarrow> lockfree l c \<Longrightarrow>
   on_core (release l) s = Inr (s\<lparr>core := settle c\<rparr>)"
  by (simp add: lock_simps)

lemma on_core_InrE:
  assumes "on_core f s = Inr s'"
  obtains c where "f (core s) = Inr c" and "s' = s\<lparr>core := c\<rparr>"
  using assms by (auto simp: on_core_def kbind_Inr_iff)

text \<open>Releasing the outer of two locks first, as \<open>sleep\<close> does.\<close>

lemma pop_off_set_lock:
  "pop_off (set_lock l k c) = kbind (pop_off c) (\<lambda>d. Inr (set_lock l k d))"
  by (simp add: pop_off_def core_defs Let_def)

lemma pop_push_push:
  assumes "core_ok c"
  shows "pop_off (push_off (push_off c)) = Inr (push_off c)"
  using assms
  by (auto simp: pop_off_def push_off_def core_defs core_ok_def Let_def)

lemma push_off_set_lock: "push_off (set_lock l k c) = set_lock l k (push_off c)"
  by (simp add: push_off_def core_defs Let_def)

lemma release_outer [lock_simps]:
  assumes "core_ok c" and "lockfree l c" and "l \<noteq> p"
  shows "release l (acq p (acq l c)) = Inr (acq p c)"
proof -
  let ?k = "\<lparr>locked = True, lk_cpu = Some (hart c)\<rparr>"
  have a: "acq p (acq l c) = set_lock p ?k (set_lock l ?k (push_off (push_off c)))"
    by (simp add: acq_def push_off_set_lock)
  have "set_lock l \<lparr>locked = False, lk_cpu = None\<rparr> (set_lock p ?k (set_lock l ?k d)) = set_lock p ?k d"
    if "locks d = locks c" for d
    using assms(2,3) that by (cases d) (auto simp: set_lock_def lockfree_def fun_upd_def)
  then have b: "set_lock l \<lparr>locked = False, lk_cpu = None\<rparr> (acq p (acq l c))
      = set_lock p ?k (push_off (push_off c))"
    unfolding a by simp
  have "release l (acq p (acq l c)) = pop_off (set_lock l \<lparr>locked = False, lk_cpu = None\<rparr> (acq p (acq l c)))"
    using assms(3) by (simp add: release_def set_lock_def Let_def)
  also have "\<dots> = Inr (acq p c)"
    unfolding b by (simp add: pop_off_set_lock pop_push_push [OF assms(1)] acq_def)
  finally show ?thesis .
qed

text \<open>No lock is held by anyone: where a system call starts on an otherwise quiet machine.\<close>

definition idle :: "kcore \<Rightarrow> bool" where
  "idle c \<longleftrightarrow> core_ok c \<and> (\<forall>l. lockfree l c)"

lemma idleD: "idle c \<Longrightarrow> core_ok c" "idle c \<Longrightarrow> lockfree l c"
  by (simp_all add: idle_def)

lemma idle_settle [simp]: "idle c \<Longrightarrow> idle (settle c)"
  by (simp add: idle_def)

lemma noff_acq [simp]: "noff (mycpu (acq l c)) = noff (mycpu c) + 1"
  by (simp add: acq_def push_off_def core_defs Let_def)

lemma noff_settle [simp]: "noff (mycpu (settle c)) = noff (mycpu c)"
  by (simp add: settle_def core_defs)

lemma intr_get_acq [simp]: "\<not> intr_get (acq l c)"
  by (simp add: acq_def push_off_def core_defs Let_def)

lemma intr_get_settle [simp]: "intr_get (settle c) = intr_get c"
  by (simp add: settle_def core_defs)

end
