(* ===== verification/SpinSteps.thy ===== *)
theory SpinSteps imports Spinlock "HOL-Library.Transitive_Closure_Table" begin

text \<open>
  The spin lock of kernel/spinlock.c run by any number of harts at once. Every step is one access
  to the lock's memory (\<open>lk->locked\<close>, \<open>lk->cpu\<close>), so the check of
  \<open>holding\<close> in \<open>acquire\<close> is two reads that other harts' steps can separate. Interrupts stay
  off from the first step of \<open>acquire\<close> to the last of \<open>release\<close>, so a hart runs
  these steps in order.
\<close>

section \<open>Steps\<close>

datatype pc =
    Outside           \<comment> \<open>not in acquire or release, lock not held\<close>
  | AcqLocked         \<comment> \<open>acquire: holding() reads lk->locked\<close>
  | AcqCpu            \<comment> \<open>acquire: holding() reads lk->cpu\<close>
  | Swap              \<comment> \<open>acquire: about to run the atomic swap\<close>
  | SetCpu            \<comment> \<open>acquire: swap returned 0, lk->cpu not written yet\<close>
  | Critical          \<comment> \<open>acquire returned\<close>
  | RelLocked         \<comment> \<open>release: holding() reads lk->locked\<close>
  | RelCpu            \<comment> \<open>release: holding() reads lk->cpu\<close>
  | ClearCpu          \<comment> \<open>release: about to write lk->cpu = 0\<close>
  | ClearLocked       \<comment> \<open>release: about to write lk->locked = 0\<close>
  | Panicked

record slk =
  word_locked :: bool
  word_cpu :: "nat option"
  pcs :: "nat \<Rightarrow> pc"

definition at_pc :: "nat \<Rightarrow> pc \<Rightarrow> slk \<Rightarrow> slk" where
  "at_pc h p s = s\<lparr>pcs := (pcs s)(h := p)\<rparr>"

fun hart_step :: "nat \<Rightarrow> slk \<Rightarrow> slk option" where
  "hart_step h s = (case pcs s h of
      Outside \<Rightarrow> Some (at_pc h AcqLocked s)
    | AcqLocked \<Rightarrow> Some (at_pc h (if word_locked s then AcqCpu else Swap) s)
    | AcqCpu \<Rightarrow> Some (at_pc h (if word_cpu s = Some h then Panicked else Swap) s)
    | Swap \<Rightarrow> Some (at_pc h (if word_locked s then Swap else SetCpu) (s\<lparr>word_locked := True\<rparr>))
    | SetCpu \<Rightarrow> Some (at_pc h Critical (s\<lparr>word_cpu := Some h\<rparr>))
    | Critical \<Rightarrow> Some (at_pc h RelLocked s)
    | RelLocked \<Rightarrow> Some (at_pc h (if word_locked s then RelCpu else Panicked) s)
    | RelCpu \<Rightarrow> Some (at_pc h (if word_cpu s = Some h then ClearCpu else Panicked) s)
    | ClearCpu \<Rightarrow> Some (at_pc h ClearLocked (s\<lparr>word_cpu := None\<rparr>))
    | ClearLocked \<Rightarrow> Some (at_pc h Outside (s\<lparr>word_locked := False\<rparr>))
    | Panicked \<Rightarrow> None)"

inductive slk_step :: "slk \<Rightarrow> slk \<Rightarrow> bool" where
  by_hart: "hart_step h s = Some s' \<Longrightarrow> slk_step s s'"

inductive_cases slk_stepE: "slk_step s s'"

definition slk_init :: slk where
  "slk_init = \<lparr>word_locked = False, word_cpu = None, pcs = (\<lambda>_. Outside)\<rparr>"

inductive slk_reach :: "slk \<Rightarrow> bool" where
  start: "slk_reach slk_init"
| step: "slk_reach s \<Longrightarrow> slk_step s s' \<Longrightarrow> slk_reach s'"

section \<open>Mutual exclusion\<close>

text \<open>The program points between a successful swap and the clearing of \<open>locked\<close>.\<close>

definition owns :: "pc \<Rightarrow> bool" where
  "owns p \<longleftrightarrow> p \<in> {SetCpu, Critical, RelLocked, RelCpu, ClearCpu, ClearLocked}"

text \<open>The program points at which \<open>lk->cpu\<close> names the owner.\<close>

definition named :: "pc \<Rightarrow> bool" where
  "named p \<longleftrightarrow> p \<in> {Critical, RelLocked, RelCpu, ClearCpu}"

definition slk_inv :: "slk \<Rightarrow> bool" where
  "slk_inv s \<longleftrightarrow>
    (word_locked s \<longleftrightarrow> (\<exists>h. owns (pcs s h))) \<and>
    (\<forall>h k. owns (pcs s h) \<longrightarrow> owns (pcs s k) \<longrightarrow> h = k) \<and>
    (\<forall>h. word_cpu s = Some h \<longleftrightarrow> named (pcs s h)) \<and>
    (\<forall>h. pcs s h \<noteq> Panicked)"

lemma named_owns: "named p \<Longrightarrow> owns p"
  by (auto simp: named_def owns_def)

lemma owns_simps [simp]:
  "owns SetCpu" "owns Critical" "owns RelLocked" "owns RelCpu" "owns ClearCpu" "owns ClearLocked"
  "\<not> owns Outside" "\<not> owns AcqLocked" "\<not> owns AcqCpu" "\<not> owns Swap" "\<not> owns Panicked"
  "named Critical" "named RelLocked" "named RelCpu" "named ClearCpu"
  "\<not> named SetCpu" "\<not> named ClearLocked" "\<not> named Outside" "\<not> named AcqLocked"
  "\<not> named AcqCpu" "\<not> named Swap" "\<not> named Panicked"
  by (simp_all add: owns_def named_def)

text \<open>
  A step that keeps a hart on its side of ownership and naming keeps the invariant; the
  steps that change a side are done one by one.
\<close>

lemma slk_inv_same_side:
  assumes "slk_inv s" and "owns p = owns (pcs s h)" and "named p = named (pcs s h)"
    and "p \<noteq> Panicked"
  shows "slk_inv (at_pc h p s)"
  using assms by (auto simp: slk_inv_def at_pc_def)

lemma slk_inv_swap:
  assumes "slk_inv s" and "pcs s h = Swap" and "\<not> word_locked s"
  shows "slk_inv (at_pc h SetCpu (s\<lparr>word_locked := True\<rparr>))"
proof -
  have "\<not> owns (pcs s k)" for k using assms by (auto simp: slk_inv_def)
  moreover from this have "\<not> named (pcs s k)" for k using named_owns by blast
  ultimately show ?thesis using assms by (auto simp: slk_inv_def at_pc_def)
qed

text \<open>An owner may write \<open>lk->cpu\<close>: to its own number, or to null when it gives the name up.\<close>

lemma slk_inv_owner:
  assumes inv: "slk_inv s" and h: "owns (pcs s h)" and p: "owns p"
    and w: "w = (if named p then Some h else None)"
  shows "slk_inv (at_pc h p (s\<lparr>word_cpu := w\<rparr>))"
proof -
  have u: "owns (pcs s k) = (k = h)" for k using inv h unfolding slk_inv_def by blast
  have l: "word_locked s" using inv h unfolding slk_inv_def by blast
  have np: "p \<noteq> Panicked" "\<forall>k. pcs s k \<noteq> Panicked" using p inv by (auto simp: slk_inv_def)
  have n: "named (pcs s k) \<Longrightarrow> k = h" for k using u named_owns by blast
  show ?thesis
    unfolding slk_inv_def at_pc_def using u l np n p w by simp (metis option.inject)
qed

lemma slk_inv_clearlocked:
  assumes "slk_inv s" and "pcs s h = ClearLocked"
  shows "slk_inv (at_pc h Outside (s\<lparr>word_locked := False\<rparr>))"
  using assms by (auto simp: slk_inv_def at_pc_def)

lemma slk_inv_init: "slk_inv slk_init"
  by (simp add: slk_inv_def slk_init_def)

lemma slk_inv_step:
  assumes inv: "slk_inv s" and st: "hart_step h s = Some s'"
  shows "slk_inv s'"
proof (cases "pcs s h")
  case AcqCpu
  then have "word_cpu s \<noteq> Some h" using inv by (auto simp: slk_inv_def)
  then show ?thesis using AcqCpu st slk_inv_same_side [OF inv, of Swap h] by simp
next
  case Swap
  show ?thesis
  proof (cases "word_locked s")
    case True
    then have e: "s\<lparr>word_locked := True\<rparr> = s" by simp
    have "s' = at_pc h Swap s" using Swap True st by (simp add: e)
    then show ?thesis using Swap slk_inv_same_side [OF inv, of Swap h] by simp
  next
    case False
    then show ?thesis using Swap st slk_inv_swap [OF inv] by auto
  qed
next
  case RelLocked
  then have "word_locked s" using inv unfolding slk_inv_def by (metis owns_simps(3))
  then show ?thesis using RelLocked st slk_inv_same_side [OF inv, of RelCpu h] by simp
next
  case RelCpu
  then have "word_cpu s = Some h" using inv by (auto simp: slk_inv_def)
  then show ?thesis using RelCpu st slk_inv_same_side [OF inv, of ClearCpu h] by simp
next
  case SetCpu then show ?thesis using st slk_inv_owner [OF inv, of h Critical] by auto
next
  case ClearCpu then show ?thesis using st slk_inv_owner [OF inv, of h ClearLocked] by auto
next
  case ClearLocked then show ?thesis using st slk_inv_clearlocked [OF inv] by auto
qed (use st slk_inv_same_side [OF inv] in \<open>auto split: if_splits\<close>)

lemma slk_reach_inv: "slk_reach s \<Longrightarrow> slk_inv s"
  by (induction rule: slk_reach.induct) (auto elim!: slk_stepE intro: slk_inv_init slk_inv_step)

text \<open>A schedule: the harts that run, one step each.\<close>

fun run_harts :: "nat list \<Rightarrow> slk \<Rightarrow> slk option" where
  "run_harts [] s = Some s"
| "run_harts (h # hs) s = (case hart_step h s of None \<Rightarrow> None | Some s' \<Rightarrow> run_harts hs s')"

lemma run_harts_reach: "run_harts hs s = Some s' \<Longrightarrow> slk_reach s \<Longrightarrow> slk_reach s'"
proof (induction hs arbitrary: s)
  case (Cons h hs)
  then obtain t where t: "hart_step h s = Some t" "run_harts hs t = Some s'"
    by (simp del: hart_step.simps split: option.splits)
  from t(1) Cons.prems(2) have "slk_reach t" by (blast intro: slk_reach.step by_hart)
  then show ?case by (rule Cons.IH [OF t(2)])
qed simp

lemma run_reach: "run_harts hs slk_init = Some s \<Longrightarrow> slk_reach s"
  by (rule run_harts_reach) (auto intro: slk_reach.start)

text \<open>
  C1: However the harts' memory accesses interleave, at most one hart is between the swap that
  took the lock and the store that gives it back, no hart panics in \<open>acquire\<close> or
  \<open>release\<close>, and \<open>lk->cpu\<close> names a hart exactly when that hart's \<open>holding\<close> check must
  succeed.
\<close>

theorem spinlock_mutual_exclusion:
  assumes "slk_reach s"
  shows "(owns (pcs s h) \<and> owns (pcs s k) \<longrightarrow> h = k) \<and> pcs s h \<noteq> Panicked
    \<and> (word_cpu s = Some h \<longleftrightarrow> named (pcs s h))
    \<and> (word_locked s \<longleftrightarrow> (\<exists>j. owns (pcs s j)))"
  using slk_reach_inv [OF assms] unfolding slk_inv_def by blast

text \<open>Hart 0 is in the critical section and hart 1 spins.\<close>

definition contended :: slk where
  "contended = \<lparr>word_locked = True, word_cpu = Some 0,
     pcs = (\<lambda>_. Outside)(0 := Critical, 1 := Swap)\<rparr>"

lemma contended_reach: "slk_reach contended"
  by (rule run_reach [of "[0, 0, 0, 0, 1, 1, 1]"])
    (simp add: contended_def slk_init_def at_pc_def fun_upd_twist)

lemma spinlock_mutual_exclusion_witness:
  "owns (pcs contended 0) \<and> \<not> owns (pcs contended 1)"
  using spinlock_mutual_exclusion [OF contended_reach, of 0 1] by (simp add: contended_def)

section \<open>Progress\<close>

text \<open>The steps that remain to an owner before the lock is free.\<close>

fun to_go :: "pc \<Rightarrow> nat" where
  "to_go SetCpu = 6" | "to_go Critical = 5" | "to_go RelLocked = 4" | "to_go RelCpu = 3"
| "to_go ClearCpu = 2" | "to_go ClearLocked = 1" | "to_go _ = 0"

text \<open>An owner's own step leaves the other harts alone and brings the release nearer.\<close>

lemma owner_step:
  assumes inv: "slk_inv s" and own: "owns (pcs s h)"
  shows "\<exists>s'. hart_step h s = Some s' \<and> (\<forall>k. k \<noteq> h \<longrightarrow> pcs s' k = pcs s k)
    \<and> to_go (pcs s' h) < to_go (pcs s h) \<and> (owns (pcs s' h) \<or> \<not> word_locked s')"
proof -
  have l: "word_locked s" using inv own unfolding slk_inv_def by blast
  have n: "named (pcs s h) \<Longrightarrow> word_cpu s = Some h" using inv by (auto simp: slk_inv_def)
  show ?thesis using own l n by (cases "pcs s h") (auto simp: at_pc_def owns_def)
qed

lemma owner_releases:
  assumes "slk_inv s" and "owns (pcs s h)"
  shows "\<exists>s'. slk_step\<^sup>*\<^sup>* s s' \<and> slk_inv s' \<and> \<not> word_locked s' \<and> (\<forall>k. k \<noteq> h \<longrightarrow> pcs s' k = pcs s k)"
  using assms
proof (induction "to_go (pcs s h)" arbitrary: s rule: less_induct)
  case less
  obtain t where t: "hart_step h s = Some t" "\<forall>k. k \<noteq> h \<longrightarrow> pcs t k = pcs s k"
      "to_go (pcs t h) < to_go (pcs s h)" "owns (pcs t h) \<or> \<not> word_locked t"
    using owner_step [OF less.prems] by blast
  have it: "slk_inv t" by (rule slk_inv_step [OF less.prems(1) t(1)])
  have st: "slk_step s t" by (rule by_hart [OF t(1)])
  show ?case
  proof (cases "owns (pcs t h)")
    case True
    obtain u where "slk_step\<^sup>*\<^sup>* t u" "slk_inv u" "\<not> word_locked u" "\<forall>k. k \<noteq> h \<longrightarrow> pcs u k = pcs t k"
      using less.hyps [OF t(3) it True] by blast
    then show ?thesis using st t(2) by (metis converse_rtranclp_into_rtranclp)
  next
    case False then show ?thesis using t(2,4) it st by blast
  qed
qed

text \<open>
  The lock cannot be lost: in every reachable state in which a hart is spinning in
  \<open>acquire\<close>, the harts can be scheduled so that the spinning hart takes the lock.
\<close>

theorem spinlock_no_deadlock:
  assumes "slk_reach s" and "pcs s h = Swap"
  shows "\<exists>s'. slk_step\<^sup>*\<^sup>* s s' \<and> pcs s' h = Critical \<and> word_cpu s' = Some h"
proof -
  have inv: "slk_inv s" by (rule slk_reach_inv [OF assms(1)])
  obtain t where t: "slk_step\<^sup>*\<^sup>* s t" "\<not> word_locked t" "pcs t h = Swap"
  proof (cases "word_locked s")
    case True
    then obtain k where k: "owns (pcs s k)" using inv by (auto simp: slk_inv_def)
    then have "h \<noteq> k" using assms(2) by auto
    then show ?thesis using owner_releases [OF inv k] assms(2) that by metis
  next
    case False then show ?thesis using assms(2) that by blast
  qed
  let ?u = "at_pc h SetCpu (t\<lparr>word_locked := True\<rparr>)"
  let ?v = "at_pc h Critical (?u\<lparr>word_cpu := Some h\<rparr>)"
  have "slk_step t ?u" using t by (intro by_hart [of h]) simp
  moreover have "slk_step ?u ?v" by (intro by_hart [of h]) (simp add: at_pc_def)
  ultimately have "slk_step\<^sup>*\<^sup>* s ?v" using t(1) by (meson rtranclp.rtrancl_into_rtrancl)
  then show ?thesis by (intro exI [of _ ?v]) (simp add: at_pc_def)
qed

lemma spinlock_no_deadlock_witness:
  "\<exists>s'. slk_step\<^sup>*\<^sup>* contended s' \<and> pcs s' 1 = Critical \<and> word_cpu s' = Some 1"
  by (rule spinlock_no_deadlock [OF contended_reach]) (simp add: contended_def)

end
