(* ===== verification/Kalloc.thy ===== *)
theory Kalloc imports KString Riscv Spinlock begin

text \<open>
  kernel/kalloc.c: the physical page allocator. Free pages form a list through their own first
  eight bytes (\<open>struct run\<close>), so the list lives in the same byte memory as everything else.
  The abstraction \<open>free_pages\<close> reads it back; the theorems show that \<open>kalloc\<close> and
  \<open>kfree\<close> pop and push that list, and that \<open>kinit\<close> makes it every whole page between
  the end of the kernel and \<open>PHYSTOP\<close>.
\<close>

section \<open>State\<close>

text \<open>
  \<open>mem\<close> is the byte memory, \<open>freelist\<close> and \<open>npage\<close> the fields of \<open>kmem\<close>, and
  \<open>kernel_end\<close> the linker symbol of that name, which no operation changes.
\<close>

record kmem_st = kst +
  mem :: bytemem
  freelist :: u64
  npage :: u64
  kernel_end :: u64

section \<open>Operations\<close>

definition kfree :: "u64 \<Rightarrow> 'a kmem_st_scheme \<Rightarrow> 'a kmem_st_scheme kres" where
  "kfree pa s =
    (if pa mod PGSIZE \<noteq> 0 \<or> pa < kernel_end s \<or> pa \<ge> PHYSTOP then Inl (Panic ''kfree'')
     else
       let s = s\<lparr>mem := memset (mem s) pa 1 4096\<rparr> in
       kbind (lock KmemLock s) (\<lambda>s.
         let s = s\<lparr>mem := store64 pa (freelist s) (mem s)\<rparr>;
             s = s\<lparr>freelist := pa\<rparr>;
             s = s\<lparr>npage := npage s + 1\<rparr>
         in unlock KmemLock s))"

definition kalloc :: "'a kmem_st_scheme \<Rightarrow> (u64 \<times> 'a kmem_st_scheme) kres" where
  "kalloc s =
    kbind (lock KmemLock s) (\<lambda>s.
      let r = freelist s;
          s = (if r \<noteq> 0 then s\<lparr>freelist := load64 (mem s) r, npage := npage s - 1\<rparr> else s)
      in kbind (unlock KmemLock s) (\<lambda>s.
        let s = (if r \<noteq> 0 then s\<lparr>mem := memset (mem s) r 5 4096\<rparr> else s)
        in Inr (r, s)))"

lemma kfree_page_below: "kfree p s = Inr s' \<Longrightarrow> p < PHYSTOP"
  by (auto simp: kfree_def not_le split: if_splits)

text \<open>
  The loop of \<open>freerange\<close>; the comparison is on the pointer after the addition, as in
  the code. It ends for every input, because \<open>kfree\<close> panics above \<open>PHYSTOP\<close>.
\<close>

function freerange_loop :: "u64 \<Rightarrow> u64 \<Rightarrow> 'a kmem_st_scheme \<Rightarrow> 'a kmem_st_scheme kres" where
  "freerange_loop p pa_end s =
    (if p + PGSIZE \<le> pa_end
     then kbind (kfree p s) (\<lambda>s. freerange_loop (p + PGSIZE) pa_end s)
     else Inr s)"
  by pat_completeness auto
termination
proof (relation "measure (\<lambda>(p, _, _). 2 ^ 40 - unat p)")
  fix p pa_end :: u64 and s s' :: "'a kmem_st_scheme"
  assume "kfree p s = Inr s'"
  then have "unat p < 0x80600000"
    using kfree_page_below by (force simp: word_less_nat_alt PHYSTOP_def)
  then have "unat (p + PGSIZE) = unat p + 4096 \<and> unat p < 2 ^ 40"
    by (simp add: PGSIZE_def unat_add_no_wrap)
  then have "2 ^ 40 - unat (p + PGSIZE) < 2 ^ 40 - unat p" by linarith
  then show "((p + PGSIZE, pa_end, s'), (p, pa_end, s)) \<in> measure (\<lambda>(p, _, _). 2 ^ 40 - unat p)"
    by (simp only: in_measure prod.case)
qed simp

declare freerange_loop.simps [simp del]

definition freerange :: "u64 \<Rightarrow> u64 \<Rightarrow> 'a kmem_st_scheme \<Rightarrow> 'a kmem_st_scheme kres" where
  "freerange pa_start pa_end s = freerange_loop (PGROUNDUP pa_start) pa_end s"

definition kinit :: "'a kmem_st_scheme \<Rightarrow> 'a kmem_st_scheme kres" where
  "kinit s =
    (let s = s\<lparr>core := initlock KmemLock (core s)\<rparr>;
         s = s\<lparr>freelist := 0\<rparr>;
         s = s\<lparr>npage := 0\<rparr>
     in freerange (kernel_end s) PHYSTOP s)"

definition freemem_amount :: "'a kmem_st_scheme \<Rightarrow> u64" where
  "freemem_amount s = push_bit PGSHIFT (npage s)"

section \<open>The free list\<close>

text \<open>\<open>flist m r ps\<close>: following the links from \<open>r\<close> gives the pages \<open>ps\<close> and then null.\<close>

primrec flist :: "bytemem \<Rightarrow> u64 \<Rightarrow> u64 list \<Rightarrow> bool" where
  "flist m r [] \<longleftrightarrow> r = 0"
| "flist m r (p # ps) \<longleftrightarrow> r = p \<and> p \<noteq> 0 \<and> flist m (load64 m p) ps"

definition valid_page :: "u64 \<Rightarrow> u64 \<Rightarrow> bool" where
  "valid_page ke p \<longleftrightarrow> p mod PGSIZE = 0 \<and> ke \<le> p \<and> p < PHYSTOP"

definition kmem_inv :: "'a kmem_st_scheme \<Rightarrow> u64 list \<Rightarrow> bool" where
  "kmem_inv s ps \<longleftrightarrow>
    flist (mem s) (freelist s) ps \<and> distinct ps \<and> (\<forall>p\<in>set ps. valid_page (kernel_end s) p) \<and>
    npage s = of_nat (length ps) \<and> kernel_end s > 0"

definition kmem_ready :: "'a kmem_st_scheme \<Rightarrow> bool" where
  "kmem_ready s \<longleftrightarrow> core_ok (core s) \<and> lockfree KmemLock (core s)"

lemma flist_unique: "flist m r ps \<Longrightarrow> flist m r qs \<Longrightarrow> ps = qs"
proof (induction ps arbitrary: r qs)
  case Nil then show ?case by (cases qs) auto
next
  case (Cons p ps) then show ?case by (cases qs) auto
qed

lemma flist_cong:
  assumes "flist m r ps" and "\<And>p. p \<in> set ps \<Longrightarrow> load64 m' p = load64 m p"
  shows "flist m' r ps"
  using assms by (induction ps arbitrary: r) auto

lemma page_aligned_mod: "page_aligned p \<longleftrightarrow> p mod PGSIZE = 0"
proof -
  have "unat (p mod PGSIZE) = unat p mod 4096" by (simp add: unat_mod PGSIZE_def)
  then show ?thesis by (metis page_aligned_def unat_eq_zero)
qed

lemma valid_page_iff: "valid_page ke p \<longleftrightarrow> page_aligned p \<and> ke \<le> p \<and> p < PHYSTOP"
  by (simp add: valid_page_def page_aligned_mod)

lemma valid_page_aligned: "valid_page ke p \<Longrightarrow> page_aligned p"
  by (simp add: valid_page_iff)

lemma kfree_guard:
  "(pa mod PGSIZE \<noteq> 0 \<or> pa < ke \<or> pa \<ge> PHYSTOP) \<longleftrightarrow> \<not> valid_page ke pa"
  by (auto simp: valid_page_def not_less not_le)

text \<open>Two memories that agree outside page \<open>p\<close>.\<close>

definition same_but_page :: "u64 \<Rightarrow> bytemem \<Rightarrow> bytemem \<Rightarrow> bool" where
  "same_but_page p m m' \<longleftrightarrow> (\<forall>a. PGROUNDDOWN a \<noteq> p \<longrightarrow> m' a = m a)"

lemma memset_page:
  assumes "page_aligned p"
  shows "memset m p c 4096 = (\<lambda>a. if PGROUNDDOWN a = p then c else m a)"
  by (simp add: memset_eq in_page_iff [OF assms])

lemma store64_page:
  assumes "page_aligned p"
  shows "PGROUNDDOWN a \<noteq> p \<Longrightarrow> store64 p v m a = m a"
  using in_page_iff [OF assms, of a] by (auto simp: store64_def)

lemma load64_page:
  assumes "page_aligned p" and "n < 512" and "\<And>a. PGROUNDDOWN a = p \<Longrightarrow> m a = m' a"
  shows "load64 m (p + of_nat (8 * n)) = load64 m' (p + of_nat (8 * n))"
proof (rule load64_cong)
  fix i :: nat assume "i < 8"
  then have "PGROUNDDOWN (p + of_nat (8 * n + i)) = p"
    using assms(1,2) by (intro PGROUNDDOWN_offset) auto
  then show "m (p + of_nat (8 * n) + of_nat i) = m' (p + of_nat (8 * n) + of_nat i)"
    using assms(3) by (simp add: algebra_simps)
qed

lemma load64_page0:
  "page_aligned p \<Longrightarrow> (\<And>a. PGROUNDDOWN a = p \<Longrightarrow> m a = m' a) \<Longrightarrow> load64 m p = load64 m' p"
  using load64_page [of p 0 m m'] by simp

lemma flist_same_but_page:
  assumes "flist m r ps" and "same_but_page p m m'" and "p \<notin> set ps"
    and "\<forall>q\<in>set ps. page_aligned q"
  shows "flist m' r ps"
  using assms(1)
proof (rule flist_cong)
  fix q assume "q \<in> set ps"
  with assms show "load64 m' q = load64 m q"
    by (intro load64_page0) (auto simp: same_but_page_def)
qed

section \<open>kalloc and kfree\<close>

lemma kfree_panics: "\<not> valid_page (kernel_end s) pa \<Longrightarrow> kfree pa s = Inl (Panic ''kfree'')"
  by (simp only: kfree_def kfree_guard not_False_eq_True if_True)

definition kfreed :: "u64 \<Rightarrow> 'a kmem_st_scheme \<Rightarrow> 'a kmem_st_scheme" where
  "kfreed pa s = s\<lparr>core := settle (core s), freelist := pa, npage := npage s + 1,
     mem := store64 pa (freelist s) (memset (mem s) pa 1 4096)\<rparr>"

definition kalloced :: "u64 \<Rightarrow> 'a kmem_st_scheme \<Rightarrow> 'a kmem_st_scheme" where
  "kalloced p s = s\<lparr>core := settle (core s), freelist := load64 (mem s) p, npage := npage s - 1,
     mem := memset (mem s) p 5 4096\<rparr>"

lemma kfree_eq:
  assumes "valid_page (kernel_end s) pa" and "kmem_ready s"
  shows "kfree pa s = Inr (kfreed pa s)"
  using assms unfolding kfree_def kfree_guard
  by (simp add: kmem_ready_def lock_simps kfreed_def Let_def)

lemma kalloc_eq:
  assumes "kmem_ready s"
  shows "kalloc s = Inr (if freelist s = 0 then (0, s\<lparr>core := settle (core s)\<rparr>)
                         else (freelist s, kalloced (freelist s) s))"
  using assms by (simp add: kalloc_def kmem_ready_def lock_simps kalloced_def Let_def)

lemma kmem_ready_simps [simp]:
  "kmem_ready s \<Longrightarrow> kmem_ready (kfreed p s)"
  "kmem_ready s \<Longrightarrow> kmem_ready (kalloced p s)"
  "kmem_ready s \<Longrightarrow> kmem_ready (s\<lparr>core := settle (core s)\<rparr>)"
  by (simp_all add: kmem_ready_def kfreed_def kalloced_def)

lemma kernel_end_simps [simp]:
  "kernel_end (kfreed p s) = kernel_end s" "kernel_end (kalloced p s) = kernel_end s"
  by (simp_all add: kfreed_def kalloced_def)

lemma kfreed_frame: "page_aligned p \<Longrightarrow> same_but_page p (mem s) (mem (kfreed p s))"
  by (simp add: same_but_page_def kfreed_def store64_page memset_page)

lemma kalloced_frame: "page_aligned p \<Longrightarrow> same_but_page p (mem s) (mem (kalloced p s))"
  by (simp add: same_but_page_def kalloced_def memset_page)

lemma kfreed_inv:
  assumes "kmem_inv s ps" and "valid_page (kernel_end s) p" and "p \<notin> set ps"
  shows "kmem_inv (kfreed p s) (p # ps)"
proof -
  have al: "\<forall>q\<in>set (p # ps). page_aligned q"
    using assms by (auto simp: kmem_inv_def valid_page_aligned)
  then have "flist (mem (kfreed p s)) (freelist s) ps"
    using assms by (intro flist_same_but_page [OF _ kfreed_frame]) (auto simp: kmem_inv_def)
  moreover have "p \<noteq> 0" using assms by (auto simp: kmem_inv_def valid_page_def)
  ultimately show ?thesis using assms by (simp add: kmem_inv_def kfreed_def)
qed

lemma kalloced_inv:
  assumes "kmem_inv s (p # ps)"
  shows "kmem_inv (kalloced p s) ps"
proof -
  have al: "\<forall>q\<in>set (p # ps). page_aligned q"
    using assms by (auto simp: kmem_inv_def valid_page_aligned)
  then have "flist (mem (kalloced p s)) (load64 (mem s) p) ps"
    using assms by (intro flist_same_but_page [OF _ kalloced_frame]) (auto simp: kmem_inv_def)
  then show ?thesis using assms by (simp add: kmem_inv_def kalloced_def)
qed

lemma freelist_inv: "kmem_inv s ps \<Longrightarrow> freelist s = (case ps of [] \<Rightarrow> 0 | p # _ \<Rightarrow> p)"
  by (cases ps) (auto simp: kmem_inv_def)

section \<open>kinit\<close>

text \<open>The \<open>n\<close> pages from \<open>p\<close> on, in the order \<open>freerange\<close> frees them.\<close>

definition pages_from :: "u64 \<Rightarrow> nat \<Rightarrow> u64 list" where
  "pages_from p n = map (\<lambda>i. p + of_nat (4096 * i)) [0..<n]"

lemma pages_from_Suc: "pages_from p (Suc n) = p # pages_from (p + 4096) n"
  by (simp add: pages_from_def map_upt_Suc algebra_simps del: upt_Suc)

lemma unat_page_nth:
  fixes p :: u64
  assumes "unat p + 4096 * n < 2 ^ 64" and "i \<le> n"
  shows "unat (p + of_nat (4096 * i)) = unat p + 4096 * i"
proof -
  have lt: "unat p + 4096 * i < 2 ^ 64" using assms by simp
  then have "unat (of_nat (4096 * i) :: u64) = 4096 * i" by (intro unat_of_nat_small) simp
  with lt show ?thesis by (subst unat_add_no_wrap) simp_all
qed

lemma pages_from_props:
  assumes al: "page_aligned p" and b: "unat p + 4096 * n < 2 ^ 64"
  shows "set (pages_from p n) = {q. page_aligned q \<and> unat p \<le> unat q \<and> unat q < unat p + 4096 * n}"
    and "distinct (pages_from p n)"
proof -
  have n: "unat (p + of_nat (4096 * i)) = unat p + 4096 * i" if "i < n" for i
    using unat_page_nth [OF b, of i] that by simp
  have dvd: "4096 dvd unat p" using al by (simp add: page_aligned_def mod_eq_0_iff_dvd)
  show "set (pages_from p n) = {q. page_aligned q \<and> unat p \<le> unat q \<and> unat q < unat p + 4096 * n}"
  proof (intro set_eqI iffI)
    fix q assume "q \<in> set (pages_from p n)"
    then obtain i where "i < n" "q = p + of_nat (4096 * i)" by (auto simp: pages_from_def)
    then show "q \<in> {q. page_aligned q \<and> unat p \<le> unat q \<and> unat q < unat p + 4096 * n}"
      using n dvd by (simp add: page_aligned_def mod_eq_0_iff_dvd)
  next
    fix q assume q: "q \<in> {q. page_aligned q \<and> unat p \<le> unat q \<and> unat q < unat p + 4096 * n}"
    then have "4096 dvd unat q - unat p"
      using dvd by (auto simp: page_aligned_def mod_eq_0_iff_dvd dvd_diff_nat)
    then obtain i where i: "unat q - unat p = 4096 * i" by (auto elim!: dvdE)
    then have u: "unat q = unat p + 4096 * i" using q by auto
    then have "i < n" using q by auto
    then have "q = p + of_nat (4096 * i)" using n u by (intro unat_inj) simp
    then show "q \<in> set (pages_from p n)" using \<open>i < n\<close> by (auto simp: pages_from_def)
  qed
  show "distinct (pages_from p n)"
    unfolding pages_from_def distinct_map
  proof (intro conjI inj_onI)
    fix i j assume ij: "i \<in> set [0..<n]" "j \<in> set [0..<n]"
      and e: "p + of_nat (4096 * i) = p + of_nat (4096 * j)"
    have "unat p + 4096 * i = unat p + 4096 * j"
      using n [of i] n [of j] ij unfolding e by simp
    then show "i = j" by simp
  qed simp
qed

lemma freerange_loop_run:
  assumes "kmem_inv s ps" and "kmem_ready s" and "page_aligned p" and "kernel_end s \<le> p"
    and "unat p + 4096 * n = unat pa_end" and "pa_end \<le> PHYSTOP"
    and "\<forall>q\<in>set ps. unat q < unat p"
  shows "\<exists>s'. freerange_loop p pa_end s = Inr s' \<and> kmem_inv s' (rev (pages_from p n) @ ps)
    \<and> kmem_ready s' \<and> kernel_end s' = kernel_end s"
  using assms
proof (induction n arbitrary: p s ps)
  case 0
  have "unat (p + 4096) = unat p + 4096"
    using 0 by (intro trans [OF unat_add_no_wrap]) (simp_all add: PHYSTOP_def word_le_nat_alt)
  then have "\<not> p + PGSIZE \<le> pa_end"
    using "0.prems"(5) by (simp add: PGSIZE_def word_le_nat_alt)
  then show ?case using 0 by (subst freerange_loop.simps) (simp add: pages_from_def)
next
  case (Suc n)
  have b: "unat pa_end \<le> 0x80600000" using Suc.prems(6) by (simp add: word_le_nat_alt PHYSTOP_def)
  then have u: "unat (p + 4096) = unat p + 4096"
    using Suc.prems(5) by (intro trans [OF unat_add_no_wrap]) simp_all
  have le: "p + PGSIZE \<le> pa_end" using u Suc.prems(5) by (simp add: PGSIZE_def word_le_nat_alt)
  have v: "valid_page (kernel_end s) p"
    using Suc.prems(3-6) b by (simp add: valid_page_iff word_less_nat_alt PHYSTOP_def)
  have p: "p \<notin> set ps" using Suc.prems(7) by auto
  let ?s = "kfreed p s"
  have "\<exists>s'. freerange_loop (p + 4096) pa_end ?s = Inr s'
      \<and> kmem_inv s' (rev (pages_from (p + 4096) n) @ p # ps)
      \<and> kmem_ready s' \<and> kernel_end s' = kernel_end ?s"
  proof (rule Suc.IH)
    show "kmem_inv ?s (p # ps)" by (rule kfreed_inv [OF Suc.prems(1) v p])
    show "page_aligned (p + 4096)" using Suc.prems(3) u by (simp add: page_aligned_def)
    show "kernel_end ?s \<le> p + 4096" using Suc.prems(4) u by (simp add: word_le_nat_alt)
    show "\<forall>q\<in>set (p # ps). unat q < unat (p + 4096)" using Suc.prems(7) u by auto
    show "unat (p + 4096) + 4096 * n = unat pa_end" using Suc.prems(5) u by simp
  qed (use Suc.prems in simp_all)
  then show ?case using le kfree_eq [OF v Suc.prems(2)]
    by (subst freerange_loop.simps) (simp add: pages_from_Suc PGSIZE_def)
qed

text \<open>
  \<open>kinit\<close> returns, and makes exactly the whole pages between the end of the kernel and
  \<open>PHYSTOP\<close> free, each once; \<open>freemem_amount\<close> is then their total size.
\<close>

theorem kinit_frees_all:
  assumes "core_ok (core s)" and "0 < kernel_end s" and "kernel_end s \<le> PHYSTOP"
  shows "\<exists>s' ps. kinit s = Inr s' \<and> kmem_inv s' ps \<and> kmem_ready s'
    \<and> set ps = {p. valid_page (kernel_end s) p} \<and> distinct ps
    \<and> unat (freemem_amount s') = 4096 * length ps"
proof -
  let ?s = "s\<lparr>core := initlock KmemLock (core s), freelist := 0, npage := 0\<rparr>"
  let ?p = "PGROUNDUP (kernel_end s)"
  have ke: "unat (kernel_end s) \<le> 0x80600000"
    using assms(3) by (simp add: word_le_nat_alt PHYSTOP_def)
  then have nw: "unat (kernel_end s) + 4095 < 2 ^ 64" by simp
  have up: "unat (kernel_end s) \<le> unat ?p" "unat ?p < unat (kernel_end s) + 4096"
    using PGROUNDUP_bounds [OF nw] .
  have dvd: "4096 dvd unat ?p" using page_aligned_PGROUNDUP [of "kernel_end s"]
    by (simp add: page_aligned_def mod_eq_0_iff_dvd)
  then have le: "unat ?p \<le> 0x80600000" using up ke by (auto elim!: dvdE)
  define n where "n = (0x80600000 - unat ?p) div 4096"
  have "4096 dvd 0x80600000 - unat ?p" using dvd by (intro dvd_diff_nat) simp_all
  then have n: "unat ?p + 4096 * n = unat PHYSTOP"
    using le by (simp add: n_def PHYSTOP_def)
  have inv: "kmem_inv ?s []" using assms(2) by (simp add: kmem_inv_def)
  have ready: "kmem_ready ?s"
    using assms(1) by (simp add: kmem_ready_def initlock_def lockfree_def core_ok_def core_defs)
  obtain s' where s': "freerange_loop ?p PHYSTOP ?s = Inr s'"
      "kmem_inv s' (rev (pages_from ?p n))" "kmem_ready s'" "kernel_end s' = kernel_end s"
    using freerange_loop_run [OF inv ready _ _ n] up by (auto simp: word_le_nat_alt)
  have b: "unat ?p + 4096 * n < 2 ^ 64" using n by (simp add: PHYSTOP_def)
  have pr: "set (pages_from ?p n) = {q. page_aligned q \<and> unat ?p \<le> unat q \<and> unat q < unat PHYSTOP}"
    "distinct (pages_from ?p n)"
    using pages_from_props [OF _ b] n by simp_all
  have al: "unat ?p \<le> unat q" if "page_aligned q" "unat (kernel_end s) \<le> unat q" for q
  proof -
    have "4096 dvd unat q" using that(1) by (simp add: page_aligned_def mod_eq_0_iff_dvd)
    then show ?thesis using dvd up(2) that(2) by (auto elim!: dvdE)
  qed
  have "set (pages_from ?p n) = {p. valid_page (kernel_end s) p}"
    unfolding pr(1) valid_page_iff word_le_nat_alt word_less_nat_alt
    using al up(1) by (blast intro: le_trans)
  moreover have "unat (freemem_amount s') = 4096 * n"
  proof -
    have "npage s' = of_nat n" using s'(2) by (simp add: kmem_inv_def pages_from_def)
    moreover have "4096 * n < 2 ^ 64" using b by simp
    ultimately show ?thesis
      by (simp add: freemem_amount_def PGSHIFT_def push_bit_eq_mult unat_word_ariths
          unat_of_nat_small take_bit_nat_eq_self_iff)
  qed
  ultimately show ?thesis
    using s' pr(2)
    by (intro exI [of _ s'] exI [of _ "rev (pages_from ?p n)"])
      (simp add: kinit_def freerange_def pages_from_def)
qed

end
