(* ===== verification/PageAlloc.thy ===== *)
theory PageAlloc imports Kalloc begin

text \<open>
  The contract between the page allocator and its clients (page tables, pipes, processes): what
  \<open>kalloc\<close> and \<open>kfree\<close> promise about the set of free pages, and what a client can
  conclude from it alone. It is interpreted on the model of kernel/kalloc.c.
\<close>

section \<open>The contract\<close>

text \<open>Allocate \<open>n\<close> pages one after the other, as a client's loop does; stop at the first failure.\<close>

fun alloc_many :: "('s \<Rightarrow> (u64 \<times> 's) kres) \<Rightarrow> nat \<Rightarrow> 's \<Rightarrow> (u64 list \<times> 's) kres" where
  "alloc_many alloc 0 s = Inr ([], s)"
| "alloc_many alloc (Suc n) s = kbind (alloc s) (\<lambda>(p, s).
     if p = 0 then Inr ([], s)
     else kbind (alloc_many alloc n s) (\<lambda>(ps, s). Inr (p # ps, s)))"

fun give_all :: "(u64 \<Rightarrow> 's \<Rightarrow> 's kres) \<Rightarrow> u64 list \<Rightarrow> 's \<Rightarrow> 's kres" where
  "give_all give [] s = Inr s"
| "give_all give (p # ps) s = kbind (give p s) (give_all give ps)"

locale page_allocator =
  fixes ready :: "'s \<Rightarrow> bool"
    and avail :: "'s \<Rightarrow> u64 set"
    and usable :: "'s \<Rightarrow> u64 \<Rightarrow> bool"
    and alloc :: "'s \<Rightarrow> (u64 \<times> 's) kres"
    and give :: "u64 \<Rightarrow> 's \<Rightarrow> 's kres"
  assumes alloc_empty: "ready s \<Longrightarrow> avail s = {} \<Longrightarrow>
      \<exists>s'. alloc s = Inr (0, s') \<and> ready s' \<and> avail s' = {} \<and> usable s' = usable s"
    and alloc_page: "ready s \<Longrightarrow> avail s \<noteq> {} \<Longrightarrow>
      \<exists>p s'. alloc s = Inr (p, s') \<and> ready s' \<and> p \<in> avail s \<and> p \<noteq> 0
        \<and> avail s' = avail s - {p} \<and> usable s' = usable s"
    and give_page: "ready s \<Longrightarrow> usable s p \<Longrightarrow> p \<notin> avail s \<Longrightarrow>
      \<exists>s'. give p s = Inr s' \<and> ready s' \<and> avail s' = insert p (avail s) \<and> usable s' = usable s"
    and avail_usable: "ready s \<Longrightarrow> p \<in> avail s \<Longrightarrow> usable s p"
    and avail_finite: "ready s \<Longrightarrow> finite (avail s)"
begin

text \<open>The pages a client gets are distinct, and there are as many as asked for or as were free.\<close>

lemma alloc_many_ok:
  "ready s \<Longrightarrow> \<exists>ps s'. alloc_many alloc n s = Inr (ps, s') \<and> ready s' \<and> distinct ps
     \<and> set ps \<subseteq> avail s \<and> avail s' = avail s - set ps \<and> 0 \<notin> set ps
     \<and> length ps = min n (card (avail s)) \<and> usable s' = usable s"
proof (induction n arbitrary: s)
  case (Suc n)
  show ?case
  proof (cases "avail s = {}")
    case True
    then obtain s' where "alloc s = Inr (0, s')" "ready s'" "avail s' = {}" "usable s' = usable s"
      using alloc_empty [OF Suc.prems] by blast
    then show ?thesis using True by (intro exI [of _ "[]"] exI [of _ s']) simp
  next
    case False
    obtain p s1 where a: "alloc s = Inr (p, s1)" "ready s1" "p \<in> avail s" "p \<noteq> 0"
        "avail s1 = avail s - {p}" "usable s1 = usable s"
      using alloc_page [OF Suc.prems False] by (elim exE conjE) (rule that)
    obtain ps s2 where b: "alloc_many alloc n s1 = Inr (ps, s2)" "ready s2" "distinct ps"
        "set ps \<subseteq> avail s1" "avail s2 = avail s1 - set ps" "0 \<notin> set ps"
        "length ps = min n (card (avail s1))" "usable s2 = usable s1"
      using Suc.IH [OF a(2)] by (elim exE conjE) (rule that)
    have c: "card (avail s) = Suc (card (avail s1))"
      using card.remove [of "avail s" p] a(3,5) avail_finite [OF Suc.prems] by simp
    have "alloc_many alloc (Suc n) s = Inr (p # ps, s2)" using a(1,4) b(1) by simp
    moreover have "distinct (p # ps)" "set (p # ps) \<subseteq> avail s" using a(3,5) b(3,4) by auto
    moreover have "avail s2 = avail s - set (p # ps)" using a(5) b(5) by auto
    moreover have "length (p # ps) = min (Suc n) (card (avail s))" using b(7) c by simp
    moreover have "0 \<notin> set (p # ps)" using a(4) b(6) by simp
    ultimately show ?thesis using b(2,8) a(6) by metis
  qed
qed simp

text \<open>Giving distinct pages back restores them all.\<close>

lemma give_all_ok:
  "ready s \<Longrightarrow> distinct ps \<Longrightarrow> \<forall>p\<in>set ps. usable s p \<and> p \<notin> avail s \<Longrightarrow>
   \<exists>s'. give_all give ps s = Inr s' \<and> ready s' \<and> avail s' = avail s \<union> set ps \<and> usable s' = usable s"
proof (induction ps arbitrary: s)
  case (Cons p ps)
  then obtain s1 where g: "give p s = Inr s1" "ready s1" "avail s1 = insert p (avail s)"
      "usable s1 = usable s"
    using give_page [of s p] by auto
  have "\<forall>q\<in>set ps. usable s1 q \<and> q \<notin> avail s1" using Cons.prems g by auto
  then obtain s2 where "give_all give ps s1 = Inr s2" "ready s2" "avail s2 = avail s1 \<union> set ps"
      "usable s2 = usable s1"
    using Cons.IH [OF g(2)] Cons.prems(2) by auto
  then show ?case using g by auto
qed simp

lemma alloc_give_restores:
  assumes "ready s"
  shows "\<exists>ps s1. alloc_many alloc n s = Inr (ps, s1) \<and> length ps = min n (card (avail s))
     \<and> distinct ps \<and> set ps \<subseteq> avail s \<and> avail s1 = avail s - set ps
     \<and> (\<forall>qs. distinct qs \<and> set qs = set ps \<longrightarrow> (\<exists>s2. give_all give qs s1 = Inr s2 \<and> ready s2 \<and> avail s2 = avail s))"
proof -
  obtain ps s1 where a: "alloc_many alloc n s = Inr (ps, s1)" "ready s1" "distinct ps"
      "set ps \<subseteq> avail s" "avail s1 = avail s - set ps" "length ps = min n (card (avail s))"
      "usable s1 = usable s"
    using alloc_many_ok [OF assms, of n] by (elim exE conjE) (rule that)
  have "\<exists>s2. give_all give qs s1 = Inr s2 \<and> ready s2 \<and> avail s2 = avail s" if q: "distinct qs" "set qs = set ps" for qs
  proof -
    have "\<forall>p\<in>set qs. usable s1 p \<and> p \<notin> avail s1" using a q(2) avail_usable [OF assms] by auto
    then obtain s2 where "give_all give qs s1 = Inr s2" "ready s2" "avail s2 = avail s1 \<union> set qs"
      using give_all_ok [OF a(2) q(1)] by blast
    then show ?thesis using a(4,5) q(2) by auto
  qed
  then show ?thesis using a by blast
qed

end

section \<open>kalloc.c meets it\<close>

definition free_pages :: "'a kmem_st_scheme \<Rightarrow> u64 set" where
  "free_pages s = {p. \<exists>ps. flist (mem s) (freelist s) ps \<and> p \<in> set ps}"

definition kmem_ok :: "'a kmem_st_scheme \<Rightarrow> bool" where
  "kmem_ok s \<longleftrightarrow> kmem_ready s \<and> (\<exists>ps. kmem_inv s ps)"

definition kmem_usable :: "'a kmem_st_scheme \<Rightarrow> u64 \<Rightarrow> bool" where
  "kmem_usable s = valid_page (kernel_end s)"

lemma free_pages_eq: "kmem_inv s ps \<Longrightarrow> free_pages s = set ps"
  unfolding free_pages_def kmem_inv_def using flist_unique by blast

lemma free_pages_settle [simp]:
  "free_pages (s\<lparr>core := c\<rparr>) = free_pages s" "kmem_inv (s\<lparr>core := c\<rparr>) ps = kmem_inv s ps"
  by (simp_all add: free_pages_def kmem_inv_def)

lemma kmem_okE:
  assumes "kmem_ok s"
  obtains ps where "kmem_ready s" "kmem_inv s ps" "free_pages s = set ps"
  using assms free_pages_eq by (auto simp: kmem_ok_def)

text \<open>The two outcomes of \<open>kalloc\<close> and the one of \<open>kfree\<close>, on the set of free pages.\<close>

lemma kalloc_empty:
  assumes "kmem_ok s" and "free_pages s = {}"
  shows "kalloc s = Inr (0, s\<lparr>core := settle (core s)\<rparr>)" and "kmem_ok (s\<lparr>core := settle (core s)\<rparr>)"
proof -
  obtain ps where ps: "kmem_ready s" "kmem_inv s ps" "free_pages s = set ps"
    using kmem_okE [OF assms(1)] .
  then have "freelist s = 0" using assms(2) freelist_inv by fastforce
  then show "kalloc s = Inr (0, s\<lparr>core := settle (core s)\<rparr>)" using ps(1) by (simp add: kalloc_eq)
  show "kmem_ok (s\<lparr>core := settle (core s)\<rparr>)" using ps by (auto simp: kmem_ok_def)
qed

lemma kalloc_page:
  assumes "kmem_ok s" and "free_pages s \<noteq> {}"
  shows "\<exists>p. kalloc s = Inr (p, kalloced p s) \<and> kmem_ok (kalloced p s) \<and> p \<in> free_pages s \<and> p \<noteq> 0
    \<and> valid_page (kernel_end s) p \<and> free_pages (kalloced p s) = free_pages s - {p}"
proof -
  obtain ps where ps: "kmem_ready s" "kmem_inv s ps" "free_pages s = set ps"
    using kmem_okE [OF assms(1)] .
  then obtain p qs where q: "ps = p # qs" using assms(2) by (cases ps) auto
  have f: "freelist s = p" "p \<noteq> 0" using ps(2) q by (auto simp: kmem_inv_def)
  have i: "kmem_inv (kalloced p s) qs" using ps(2) q by (simp add: kalloced_inv)
  have "kalloc s = Inr (p, kalloced p s)" using f ps(1) by (simp add: kalloc_eq)
  moreover have "valid_page (kernel_end s) p" "p \<notin> set qs"
    using ps(2) q by (auto simp: kmem_inv_def)
  ultimately show ?thesis
    using f ps q i free_pages_eq [OF i] by (auto simp: kmem_ok_def)
qed

lemma kfree_page:
  assumes "kmem_ok s" and "valid_page (kernel_end s) p" and "p \<notin> free_pages s"
  shows "kfree p s = Inr (kfreed p s)" and "kmem_ok (kfreed p s)"
    and "free_pages (kfreed p s) = insert p (free_pages s)"
proof -
  obtain ps where ps: "kmem_ready s" "kmem_inv s ps" "free_pages s = set ps"
    using kmem_okE [OF assms(1)] .
  then have i: "kmem_inv (kfreed p s) (p # ps)" using assms kfreed_inv by metis
  show "kfree p s = Inr (kfreed p s)" using kfree_eq [OF assms(2) ps(1)] .
  show "kmem_ok (kfreed p s)" using i ps(1) by (auto simp: kmem_ok_def)
  show "free_pages (kfreed p s) = insert p (free_pages s)"
    using free_pages_eq [OF i] ps(3) by simp
qed

interpretation kpages: page_allocator kmem_ok free_pages kmem_usable kalloc kfree
proof unfold_locales
  fix s :: "'a kmem_st_scheme" and p
  show "\<exists>s'. kalloc s = Inr (0, s') \<and> kmem_ok s' \<and> free_pages s' = {} \<and> kmem_usable s' = kmem_usable s"
    if "kmem_ok s" "free_pages s = {}"
    using kalloc_empty [OF that] that(2) by (simp add: kmem_usable_def)
  show "\<exists>p s'. kalloc s = Inr (p, s') \<and> kmem_ok s' \<and> p \<in> free_pages s \<and> p \<noteq> 0
      \<and> free_pages s' = free_pages s - {p} \<and> kmem_usable s' = kmem_usable s"
    if "kmem_ok s" "free_pages s \<noteq> {}"
    using kalloc_page [OF that] by (metis kernel_end_simps(2) kmem_usable_def)
  show "\<exists>s'. kfree p s = Inr s' \<and> kmem_ok s' \<and> free_pages s' = insert p (free_pages s)
      \<and> kmem_usable s' = kmem_usable s"
    if "kmem_ok s" "kmem_usable s p" "p \<notin> free_pages s"
    using kfree_page [OF that(1) _ that(3)] that(2) by (simp add: kmem_usable_def)
  show "kmem_usable s p" if "kmem_ok s" "p \<in> free_pages s"
    using that kmem_okE [OF that(1)] by (metis kmem_inv_def kmem_usable_def)
  show "finite (free_pages s)" if "kmem_ok s"
    using kmem_okE [OF that] by (metis List.finite_set)
qed

section \<open>Properties\<close>

text \<open>A machine with two pages of memory after the kernel.\<close>

definition boot_core :: kcore where
  "boot_core = \<lparr>hart = 0, sie = (\<lambda>_. False),
     cpus = (\<lambda>_. \<lparr>cproc = None, noff = 0, intena = False\<rparr>),
     locks = (\<lambda>_. \<lparr>locked = False, lk_cpu = None\<rparr>)\<rparr>"

definition small_boot :: kmem_st where
  "small_boot = \<lparr>core = boot_core, mem = (\<lambda>_. 0), freelist = 0, npage = 0,
     kernel_end = 0x805fdff8\<rparr>"

lemma boot_core_ok [simp]: "core_ok boot_core" "lockfree l boot_core"
  by (simp_all add: boot_core_def core_ok_def lockfree_def core_defs)

lemma kinit_frees_all_witness:
  "\<exists>s' ps. kinit small_boot = Inr s' \<and> kmem_inv s' ps \<and> kmem_ready s'
    \<and> set ps = {p. valid_page 0x805fdff8 p} \<and> distinct ps
    \<and> unat (freemem_amount s') = 4096 * length ps"
  using kinit_frees_all [of small_boot] by (simp add: small_boot_def PHYSTOP_def)

lemma small_boot_ok: "kmem_ok small_boot" "free_pages small_boot = {}"
proof -
  have "kmem_inv small_boot []" by (simp add: kmem_inv_def small_boot_def)
  then show "kmem_ok small_boot" "free_pages small_boot = {}"
    using free_pages_eq by (force simp: kmem_ok_def kmem_ready_def small_boot_def)+
qed

text \<open>The counter of free pages.\<close>

lemma npage_free: "kmem_ok s \<Longrightarrow> npage s = of_nat (card (free_pages s))"
  using free_pages_eq by (fastforce simp: kmem_ok_def kmem_inv_def distinct_card)

text \<open>
  C32: Asking \<open>kalloc\<close> for any number of pages gives distinct free pages, as many as were
  asked for or as there were (then it returns 0), and giving them back with \<open>kfree\<close>, in
  whatever order, restores the set of free pages and their number.
\<close>

theorem kalloc_kfree_restores:
  assumes "kmem_ok s"
  shows "\<exists>ps s1. alloc_many kalloc n s = Inr (ps, s1) \<and> length ps = min n (card (free_pages s))
    \<and> distinct ps \<and> set ps \<subseteq> free_pages s \<and> free_pages s1 = free_pages s - set ps
    \<and> (\<forall>qs. distinct qs \<and> set qs = set ps \<longrightarrow>
        (\<exists>s2. give_all kfree qs s1 = Inr s2 \<and> kmem_ok s2 \<and> free_pages s2 = free_pages s \<and> npage s2 = npage s))"
  using kpages.alloc_give_restores [OF assms, of n] npage_free assms by metis

lemma kalloc_kfree_restores_witness:
  "\<exists>p q s1 s2. alloc_many kalloc 3 (kfreed 0x805fe000 (kfreed 0x805ff000 small_boot)) = Inr ([p, q], s1)
    \<and> give_all kfree [q, p] s1 = Inr s2 \<and> free_pages s2 = {0x805fe000, 0x805ff000} \<and> npage s2 = 2"
proof -
  let ?s = "kfreed 0x805ff000 small_boot" and ?t = "kfreed 0x805fe000 (kfreed 0x805ff000 small_boot)"
  have v: "valid_page (kernel_end small_boot) 0x805ff000" "valid_page (kernel_end ?s) 0x805fe000"
    by (simp_all add: valid_page_def small_boot_def PGSIZE_def PHYSTOP_def kfreed_def)
  have s: "kmem_ok ?s" "free_pages ?s = {0x805ff000}"
    using kfree_page [OF small_boot_ok(1) v(1)] small_boot_ok(2) by auto
  have t: "kmem_ok ?t" "free_pages ?t = {0x805fe000, 0x805ff000}"
    using kfree_page [OF s(1) v(2)] s(2) by auto
  have c: "card (free_pages ?t) = 2" "npage ?t = 2" using t npage_free [OF t(1)] by simp_all
  obtain ps s1 where r: "alloc_many kalloc 3 ?t = Inr (ps, s1)" "length ps = 2" "distinct ps"
    and giveb: "\<forall>qs. distinct qs \<and> set qs = set ps \<longrightarrow>
        (\<exists>s2. give_all kfree qs s1 = Inr s2 \<and> kmem_ok s2 \<and> free_pages s2 = free_pages ?t \<and> npage s2 = npage ?t)"
    using kalloc_kfree_restores [OF t(1), of 3] c(1) by auto
  obtain p q where ps: "ps = [p, q]" using r(2) by (auto simp: length_Suc_conv numeral_2_eq_2)
  have "distinct [q, p] \<and> set [q, p] = set ps" using r(3) by (auto simp: ps)
  with giveb obtain s2 where "give_all kfree [q, p] s1 = Inr s2" "free_pages s2 = free_pages ?t" "npage s2 = npage ?t"
    by blast
  then show ?thesis using r(1) [unfolded ps] t(2) c(2)
    by (intro exI [of _ p] exI [of _ q] exI [of _ s1] exI [of _ s2]) simp
qed

text \<open>
  \<open>kfree\<close> panics on exactly the addresses that are not whole pages between the end of
  the kernel and \<open>PHYSTOP\<close>; a page that is accepted becomes free and no byte outside it changes.
\<close>

theorem kfree_total:
  assumes "kmem_ok s" and "p \<notin> free_pages s"
  shows "if valid_page (kernel_end s) p
    then \<exists>s'. kfree p s = Inr s' \<and> kmem_ok s' \<and> free_pages s' = insert p (free_pages s)
      \<and> same_but_page p (mem s) (mem s') \<and> npage s' = npage s + 1
    else kfree p s = Inl (Panic ''kfree'')"
proof (cases "valid_page (kernel_end s) p")
  case True
  then show ?thesis
    using kfree_page [OF assms(1) True assms(2)] kfreed_frame [OF valid_page_aligned [OF True]]
    by (intro iffD2 [OF if_P] exI [of _ "kfreed p s"]) (simp_all add: kfreed_def)
next
  case False then show ?thesis by (simp add: kfree_panics)
qed

lemma kfree_total_witness:
  "(\<exists>s'. kfree 0x805ff000 small_boot = Inr s' \<and> free_pages s' = {0x805ff000})
   \<and> kfree 0x805ff008 small_boot = Inl (Panic ''kfree'')"
  using kfree_total [OF small_boot_ok(1), where p = "0x805ff000"] kfree_total [OF small_boot_ok(1), where p = "0x805ff008"]
    small_boot_ok(2)
  by (auto simp: valid_page_def small_boot_def PGSIZE_def PHYSTOP_def)

end
