(* ===== verification/Vm.thy ===== *)
theory Vm imports PageAlloc begin

text \<open>
  kernel/vm.c: Sv39 page tables in the byte memory. Every routine works on the raw table pages
  through \<open>walk\<close>; the pages come from and go back to \<open>kalloc\<close>. A pointer to a page table entry
  is its address, and 0 is the null pointer. This theory holds the code; VmTree states what it
  does to the mapping that a table represents.
\<close>

section \<open>State\<close>

text \<open>
  \<open>satp\<close> is the translation root of each hart; \<open>etext\<close> and \<open>trampoline\<close> are the linker symbols.
\<close>

record vm_st = kmem_st +
  kernel_pagetable :: u64
  satp :: "nat \<Rightarrow> u64"
  etext :: u64
  trampoline :: u64

section \<open>walk\<close>

definition pte_addr :: "u64 \<Rightarrow> nat \<Rightarrow> u64 \<Rightarrow> u64" where
  "pte_addr pagetable level va = pagetable + 8 * PX level va"

text \<open>The loop over the levels above 0, and the address in the level-0 table.\<close>

primrec walk_loop :: "nat \<Rightarrow> u64 \<Rightarrow> u64 \<Rightarrow> bool \<Rightarrow> 'a kmem_st_scheme \<Rightarrow> (u64 \<times> 'a kmem_st_scheme) kres" where
  "walk_loop 0 pagetable va alloc s = Inr (pte_addr pagetable 0 va, s)"
| "walk_loop (Suc level) pagetable va alloc s =
    (let pte = pte_addr pagetable (Suc level) va in
     if load64 (mem s) pte AND PTE_V \<noteq> 0
     then walk_loop level (PTE2PA (load64 (mem s) pte)) va alloc s
     else if \<not> alloc then Inr (0, s)
     else kbind (kalloc s) (\<lambda>(pagetable, s).
       if pagetable = 0 then Inr (0, s)
       else
         let s = s\<lparr>mem := memset (mem s) pagetable 0 4096\<rparr>;
             s = s\<lparr>mem := store64 pte (PA2PTE pagetable OR PTE_V) (mem s)\<rparr>
         in walk_loop level pagetable va alloc s))"

definition walk :: "u64 \<Rightarrow> u64 \<Rightarrow> bool \<Rightarrow> 'a kmem_st_scheme \<Rightarrow> (u64 \<times> 'a kmem_st_scheme) kres" where
  "walk pagetable va alloc s =
    (if va \<ge> MAXVA then Inl (Panic ''walk'') else walk_loop 2 pagetable va alloc s)"

lemma walk_below: "walk pagetable va alloc s = Inr r \<Longrightarrow> unat va < 2 ^ 38"
  by (auto simp: walk_def MAXVA_def not_le word_less_nat_alt split: if_splits)

lemma next_page:
  assumes "unat a < 2 ^ 38"
  shows "unat (a + PGSIZE) = unat a + 4096"
  using assms by (simp add: PGSIZE_def unat_add_no_wrap)

lemma next_page_less:
  assumes "unat a < 2 ^ 38"
  shows "2 ^ 38 - unat (a + PGSIZE) < 2 ^ 38 - unat a"
  using assms next_page [OF assms] by linarith

definition walkaddr :: "u64 \<Rightarrow> u64 \<Rightarrow> 'a kmem_st_scheme \<Rightarrow> (u64 \<times> 'a kmem_st_scheme) kres" where
  "walkaddr pagetable va s =
    (if va \<ge> MAXVA then Inr (0, s)
     else kbind (walk pagetable va False s) (\<lambda>(pte, s).
       if pte = 0 then Inr (0, s)
       else if load64 (mem s) pte AND PTE_V = 0 then Inr (0, s)
       else if load64 (mem s) pte AND PTE_U = 0 then Inr (0, s)
       else Inr (PTE2PA (load64 (mem s) pte), s)))"

definition kwalkaddr :: "u64 \<Rightarrow> u64 \<Rightarrow> 'a kmem_st_scheme \<Rightarrow> (u64 \<times> 'a kmem_st_scheme) kres" where
  "kwalkaddr kpt va s =
    (let off = va mod PGSIZE in
     kbind (walk kpt va False s) (\<lambda>(pte, s).
       if pte = 0 then Inl (Panic ''kvmpa'')
       else if load64 (mem s) pte AND PTE_V = 0 then Inl (Panic ''kvmpa'')
       else Inr (PTE2PA (load64 (mem s) pte) + off, s)))"

definition kvmpa :: "u64 \<Rightarrow> 'a vm_st_scheme \<Rightarrow> (u64 \<times> 'a vm_st_scheme) kres" where
  "kvmpa va s = kwalkaddr (kernel_pagetable s) va s"

section \<open>Installing and removing mappings\<close>

text \<open>The \<open>for(;;)\<close> of \<open>mappages\<close>: it ends because \<open>walk\<close> panics at \<open>MAXVA\<close>.\<close>

function mappages_loop ::
    "u64 \<Rightarrow> u64 \<Rightarrow> u64 \<Rightarrow> u64 \<Rightarrow> u64 \<Rightarrow> 'a kmem_st_scheme \<Rightarrow> (int \<times> 'a kmem_st_scheme) kres" where
  "mappages_loop pagetable a fin pa perm s =
    kbind (walk pagetable a True s) (\<lambda>(pte, s).
      if pte = 0 then Inr (- 1, s)
      else if load64 (mem s) pte AND PTE_V \<noteq> 0 then Inl (Panic ''remap'')
      else
        let s = s\<lparr>mem := store64 pte (PA2PTE pa OR perm OR PTE_V) (mem s)\<rparr> in
        if a = fin then Inr (0, s)
        else mappages_loop pagetable (a + PGSIZE) fin (pa + PGSIZE) perm s)"
  by pat_completeness auto
termination
  by (relation "measure (\<lambda>(_, a, _). 2 ^ 38 - unat a)")
    (auto simp del: power_numeral dest!: walk_below intro!: next_page_less)

declare mappages_loop.simps [simp del]

definition mappages ::
    "u64 \<Rightarrow> u64 \<Rightarrow> u64 \<Rightarrow> u64 \<Rightarrow> u64 \<Rightarrow> 'a kmem_st_scheme \<Rightarrow> (int \<times> 'a kmem_st_scheme) kres" where
  "mappages pagetable va sz pa perm s =
    (let a = PGROUNDDOWN va; fin = PGROUNDDOWN (va + sz - 1)
     in mappages_loop pagetable a fin pa perm s)"

definition kvmmap :: "u64 \<Rightarrow> u64 \<Rightarrow> u64 \<Rightarrow> u64 \<Rightarrow> 'a vm_st_scheme \<Rightarrow> 'a vm_st_scheme kres" where
  "kvmmap va pa sz perm s =
    kbind (mappages (kernel_pagetable s) va sz pa perm s) (\<lambda>(r, s).
      if r \<noteq> 0 then Inl (Panic ''kvmmap'') else Inr s)"

function vmunmap_loop ::
    "u64 \<Rightarrow> u64 \<Rightarrow> u64 \<Rightarrow> bool \<Rightarrow> 'a kmem_st_scheme \<Rightarrow> 'a kmem_st_scheme kres" where
  "vmunmap_loop pagetable a stop do_free s =
    (if a < stop then
       kbind (walk pagetable a False s) (\<lambda>(pte, s).
         if pte = 0 then Inl (Panic ''vmunmap: walk'')
         else if load64 (mem s) pte AND PTE_V = 0 then Inl (Panic ''vmunmap: not mapped'')
         else if PTE_FLAGS (load64 (mem s) pte) = PTE_V then Inl (Panic ''vmunmap: not a leaf'')
         else
           kbind (if do_free then kfree (PTE2PA (load64 (mem s) pte)) s else Inr s) (\<lambda>s.
             vmunmap_loop pagetable (a + PGSIZE) stop do_free
               (s\<lparr>mem := store64 pte 0 (mem s)\<rparr>)))
     else Inr s)"
  by pat_completeness auto
termination
  by (relation "measure (\<lambda>(_, a, _). 2 ^ 38 - unat a)")
    (auto simp del: power_numeral dest!: walk_below intro!: next_page_less)

declare vmunmap_loop.simps [simp del]

definition vmunmap :: "u64 \<Rightarrow> u64 \<Rightarrow> u64 \<Rightarrow> bool \<Rightarrow> 'a kmem_st_scheme \<Rightarrow> 'a kmem_st_scheme kres" where
  "vmunmap pagetable va npages do_free s =
    (if va mod PGSIZE \<noteq> 0 then Inl (Panic ''vmunmap: not aligned'')
     else vmunmap_loop pagetable va (va + npages * PGSIZE) do_free s)"

section \<open>User address spaces\<close>

definition uvmcreate :: "'a kmem_st_scheme \<Rightarrow> (u64 \<times> 'a kmem_st_scheme) kres" where
  "uvmcreate s =
    kbind (kalloc s) (\<lambda>(pagetable, s).
      if pagetable = 0 then Inr (0, s)
      else Inr (pagetable, s\<lparr>mem := memset (mem s) pagetable 0 4096\<rparr>))"

definition uvminit :: "u64 \<Rightarrow> u64 \<Rightarrow> u64 \<Rightarrow> u32 \<Rightarrow> 'a kmem_st_scheme \<Rightarrow> 'a kmem_st_scheme kres" where
  "uvminit pagetable kpagetable src sz s =
    (if sz \<ge> ucast PGSIZE then Inl (Panic ''inituvm: more than a page'')
     else kbind (kalloc s) (\<lambda>(pg, s).
       let s = s\<lparr>mem := memset (mem s) pg 0 4096\<rparr> in
       kbind (mappages pagetable 0 PGSIZE pg (PTE_W OR PTE_R OR PTE_X OR PTE_U) s) (\<lambda>(_, s).
       kbind (mappages kpagetable 0 PGSIZE pg (PTE_W OR PTE_R OR PTE_X) s) (\<lambda>(_, s).
         Inr (s\<lparr>mem := memmove (mem s) pg src sz\<rparr>)))))"

text \<open>The conversion of a page count to \<open>int\<close> and back to \<open>uint64\<close>.\<close>

definition as_int :: "u64 \<Rightarrow> u64" where
  "as_int n = scast (ucast n :: u32)"

definition uvmdealloc :: "u64 \<Rightarrow> u64 \<Rightarrow> u64 \<Rightarrow> u64 \<Rightarrow> 'a kmem_st_scheme \<Rightarrow> (u64 \<times> 'a kmem_st_scheme) kres" where
  "uvmdealloc pagetable kpagetable oldsz newsz s =
    (if newsz \<ge> oldsz then Inr (oldsz, s)
     else if PGROUNDUP newsz < PGROUNDUP oldsz then
       let npages = as_int ((PGROUNDUP oldsz - PGROUNDUP newsz) div PGSIZE) in
       kbind (vmunmap kpagetable (PGROUNDUP newsz) npages False s) (\<lambda>s.
       kbind (vmunmap pagetable (PGROUNDUP newsz) npages True s) (\<lambda>s.
         Inr (newsz, s)))
     else Inr (newsz, s))"

lemma mappages_below: "mappages pagetable va sz pa perm s = Inr r \<Longrightarrow> unat (PGROUNDDOWN va) < 2 ^ 38"
  unfolding mappages_def Let_def mappages_loop.simps [of _ _ _ pa]
  by (auto simp: kbind_Inr_iff dest: walk_below)

lemma mappages_below_arg:
  assumes "mappages pagetable va sz pa perm s = Inr r"
  shows "unat va < 2 ^ 38"
proof -
  have "4096 * (unat va div 4096) < 2 ^ 38"
    using mappages_below [OF assms] by (simp add: unat_PGROUNDDOWN)
  then have "unat va div 4096 < 2 ^ 26" by simp
  then show ?thesis by (simp add: div_less_iff_less_mult)
qed

function uvmalloc_loop ::
    "u64 \<Rightarrow> u64 \<Rightarrow> u64 \<Rightarrow> u64 \<Rightarrow> u64 \<Rightarrow> 'a kmem_st_scheme \<Rightarrow> (u64 \<times> 'a kmem_st_scheme) kres" where
  "uvmalloc_loop pagetable kpagetable oldsz newsz a s =
    (if a < newsz then
       kbind (kalloc s) (\<lambda>(pg, s).
         if pg = 0 then
           kbind (uvmdealloc pagetable kpagetable a oldsz s) (\<lambda>(_, s). Inr (0, s))
         else
           let s = s\<lparr>mem := memset (mem s) pg 0 4096\<rparr> in
           kbind (mappages pagetable a PGSIZE pg (PTE_W OR PTE_X OR PTE_R OR PTE_U) s) (\<lambda>(r, s).
             if r \<noteq> 0 then
               kbind (kfree pg s) (\<lambda>s.
               kbind (uvmdealloc pagetable kpagetable a oldsz s) (\<lambda>(_, s). Inr (0, s)))
             else
               kbind (mappages kpagetable a PGSIZE pg (PTE_W OR PTE_X OR PTE_R) s) (\<lambda>(r, s).
                 if r \<noteq> 0 then
                   let npages = as_int ((a - oldsz) div PGSIZE) in
                   kbind (vmunmap pagetable oldsz (npages + 1) True s) (\<lambda>s.
                   kbind (vmunmap kpagetable oldsz npages False s) (\<lambda>s. Inr (0, s)))
                 else uvmalloc_loop pagetable kpagetable oldsz newsz (a + PGSIZE) s)))
     else Inr (newsz, s))"
  by pat_completeness auto
termination
  by (relation "measure (\<lambda>(_, _, _, _, a, _). 2 ^ 38 - unat a)")
    (auto simp del: power_numeral dest!: mappages_below_arg intro!: next_page_less)

declare uvmalloc_loop.simps [simp del]

definition uvmalloc :: "u64 \<Rightarrow> u64 \<Rightarrow> u64 \<Rightarrow> u64 \<Rightarrow> 'a kmem_st_scheme \<Rightarrow> (u64 \<times> 'a kmem_st_scheme) kres" where
  "uvmalloc pagetable kpagetable oldsz newsz s =
    (if newsz < oldsz then Inr (oldsz, s)
     else let oldsz = PGROUNDUP oldsz
          in uvmalloc_loop pagetable kpagetable oldsz newsz oldsz s)"

text \<open>
  \<open>freewalk\<close>: the entries from index \<open>512 - left\<close> on, then the page itself. The first argument is how
  many levels of tables may hang below this one; a table tree that is deeper gives \<open>Deep\<close>.
\<close>

definition is_table :: "u64 \<Rightarrow> bool" where
  "is_table pte \<longleftrightarrow> pte AND PTE_V \<noteq> 0 \<and> pte AND (PTE_R OR PTE_W OR PTE_X) = 0"

function (sequential) freewalk_loop :: "nat \<Rightarrow> nat \<Rightarrow> u64 \<Rightarrow> 'a kmem_st_scheme \<Rightarrow> 'a kmem_st_scheme kres" where
  "freewalk_loop depth 0 pagetable s = kfree pagetable s"
| "freewalk_loop depth (Suc left) pagetable s =
    (let slot = pagetable + 8 * of_nat (511 - left);
         pte = load64 (mem s) slot
     in if is_table pte then
          (case depth of
             0 \<Rightarrow> Inl Deep
           | Suc d \<Rightarrow> kbind (freewalk_loop d 512 (PTE2PA pte) s) (\<lambda>s.
               freewalk_loop depth left pagetable (s\<lparr>mem := store64 slot 0 (mem s)\<rparr>)))
        else if pte AND PTE_V \<noteq> 0 then Inl (Panic ''freewalk: leaf'')
        else freewalk_loop depth left pagetable s)"
  by pat_completeness auto
termination
  by (relation "measures [\<lambda>(d, _, _). d, \<lambda>(_, k, _). k]") auto

declare freewalk_loop.simps [simp del]

definition freewalk :: "u64 \<Rightarrow> 'a kmem_st_scheme \<Rightarrow> 'a kmem_st_scheme kres" where
  "freewalk pagetable s = freewalk_loop 2 512 pagetable s"

definition uvmfree :: "u64 \<Rightarrow> u64 \<Rightarrow> 'a kmem_st_scheme \<Rightarrow> 'a kmem_st_scheme kres" where
  "uvmfree pagetable sz s =
    kbind (if sz > 0 then vmunmap pagetable 0 (PGROUNDUP sz div PGSIZE) True s else Inr s) (\<lambda>s.
      freewalk pagetable s)"

text \<open>\<open>err:\<close> of \<open>uvmcopy\<close>.\<close>

definition uvmcopy_err :: "u64 \<Rightarrow> u64 \<Rightarrow> u64 \<Rightarrow> u64 \<Rightarrow> 'a kmem_st_scheme \<Rightarrow> (int \<times> 'a kmem_st_scheme) kres" where
  "uvmcopy_err newpt knew i ki s =
    kbind (vmunmap knew 0 (ki div PGSIZE) False s) (\<lambda>s.
    kbind (vmunmap newpt 0 (i div PGSIZE) True s) (\<lambda>s. Inr (- 1, s)))"

function uvmcopy_loop ::
    "u64 \<Rightarrow> u64 \<Rightarrow> u64 \<Rightarrow> u64 \<Rightarrow> u64 \<Rightarrow> u64 \<Rightarrow> 'a kmem_st_scheme \<Rightarrow> (int \<times> 'a kmem_st_scheme) kres" where
  "uvmcopy_loop old newpt knew sz i ki s =
    (if i < sz then
       kbind (walk old i False s) (\<lambda>(pte, s).
         if pte = 0 then Inl (Panic ''uvmcopy: pte should exist'')
         else if load64 (mem s) pte AND PTE_V = 0 then Inl (Panic ''uvmcopy: page not present'')
         else
           let pa = PTE2PA (load64 (mem s) pte);
               flags = PTE_FLAGS (load64 (mem s) pte)
           in kbind (kalloc s) (\<lambda>(pg, s).
             if pg = 0 then uvmcopy_err newpt knew i ki s
             else
               let s = s\<lparr>mem := memmove (mem s) pg pa 4096\<rparr> in
               kbind (mappages newpt i PGSIZE pg flags s) (\<lambda>(r, s).
                 if r \<noteq> 0 then kbind (kfree pg s) (\<lambda>s. uvmcopy_err newpt knew i ki s)
                 else
                   kbind (mappages knew ki PGSIZE pg (flags AND NOT PTE_U) s) (\<lambda>(r, s).
                     if r \<noteq> 0 then uvmcopy_err newpt knew (i + PGSIZE) ki s
                     else uvmcopy_loop old newpt knew sz (i + PGSIZE) (ki + PGSIZE) s))))
     else Inr (0, s))"
  by pat_completeness auto
termination
  by (relation "measure (\<lambda>(_, _, _, _, i, _). 2 ^ 38 - unat i)")
    (auto simp del: power_numeral dest!: walk_below intro!: next_page_less)

declare uvmcopy_loop.simps [simp del]

definition uvmcopy :: "u64 \<Rightarrow> u64 \<Rightarrow> u64 \<Rightarrow> u64 \<Rightarrow> 'a kmem_st_scheme \<Rightarrow> (int \<times> 'a kmem_st_scheme) kres" where
  "uvmcopy old newpt knew sz s = uvmcopy_loop old newpt knew sz 0 0 s"

definition uvmclear :: "u64 \<Rightarrow> u64 \<Rightarrow> 'a kmem_st_scheme \<Rightarrow> 'a kmem_st_scheme kres" where
  "uvmclear pagetable va s =
    kbind (walk pagetable va False s) (\<lambda>(pte, s).
      if pte = 0 then Inl (Panic ''uvmclear'')
      else Inr (s\<lparr>mem := store64 pte (load64 (mem s) pte AND NOT PTE_U) (mem s)\<rparr>))"

section \<open>Copying between kernel and user memory through a page table\<close>

definition page_rest :: "u64 \<Rightarrow> u64 \<Rightarrow> u64" where
  "page_rest va0 va = PGSIZE - (va - va0)"

lemma page_rest_pos: "page_rest (PGROUNDDOWN va) va \<noteq> 0"
proof -
  have "unat (va - PGROUNDDOWN va) < 4096" by (simp add: in_page_iff)
  then show ?thesis by (auto simp: page_rest_def PGSIZE_def word_less_nat_alt)
qed

text \<open>\<open>if(n > len) n = len;\<close>\<close>

definition at_most :: "u64 \<Rightarrow> u64 \<Rightarrow> u64" where
  "at_most len n = (if n > len then len else n)"

lemma chunk_less:
  assumes "n \<noteq> 0" and "len \<noteq> 0"
  shows "unat (len - at_most len n) < unat len"
proof -
  have "unat n \<noteq> 0" "unat len \<noteq> 0" using assms by (simp_all add: unat_eq_zero)
  then show ?thesis by (auto simp: at_most_def unat_sub_le not_less)
qed

function copyout :: "u64 \<Rightarrow> u64 \<Rightarrow> u64 \<Rightarrow> u64 \<Rightarrow> 'a kmem_st_scheme \<Rightarrow> (int \<times> 'a kmem_st_scheme) kres" where
  "copyout pagetable dstva src len s =
    (if len \<noteq> 0 then
       let va0 = PGROUNDDOWN dstva in
       kbind (walkaddr pagetable va0 s) (\<lambda>(pa0, s).
         if pa0 = 0 then Inr (- 1, s)
         else
           let n = page_rest va0 dstva;
               n = at_most len n;
               s = s\<lparr>mem := memmove (mem s) (pa0 + (dstva - va0)) src (ucast n)\<rparr>
           in copyout pagetable (va0 + PGSIZE) (src + n) (len - n) s)
     else Inr (0, s))"
  by pat_completeness auto
termination
  by (relation "measure (\<lambda>(_, _, _, len, _). unat len)")
    (auto intro!: chunk_less page_rest_pos)

declare copyout.simps [simp del]

function copyin :: "u64 \<Rightarrow> u64 \<Rightarrow> u64 \<Rightarrow> u64 \<Rightarrow> 'a kmem_st_scheme \<Rightarrow> (int \<times> 'a kmem_st_scheme) kres" where
  "copyin pagetable dst srcva len s =
    (if len \<noteq> 0 then
       let va0 = PGROUNDDOWN srcva in
       kbind (walkaddr pagetable va0 s) (\<lambda>(pa0, s).
         if pa0 = 0 then Inr (- 1, s)
         else
           let n = page_rest va0 srcva;
               n = at_most len n;
               s = s\<lparr>mem := memmove (mem s) dst (pa0 + (srcva - va0)) (ucast n)\<rparr>
           in copyin pagetable (dst + n) (va0 + PGSIZE) (len - n) s)
     else Inr (0, s))"
  by pat_completeness auto
termination
  by (relation "measure (\<lambda>(_, _, _, len, _). unat len)")
    (auto intro!: chunk_less page_rest_pos)

declare copyin.simps [simp del]

text \<open>
  The inner loop of \<open>copyinstr\<close> over the \<open>n\<close> bytes at \<open>p\<close>: the memory, whether the
  terminator was found, and what is left of \<open>dst\<close> and \<open>max\<close>.
\<close>

primrec copyinstr_chunk ::
    "nat \<Rightarrow> bytemem \<Rightarrow> u64 \<Rightarrow> u64 \<Rightarrow> u64 \<Rightarrow> bytemem \<times> bool \<times> u64 \<times> u64" where
  "copyinstr_chunk 0 m p dst mx = (m, False, dst, mx)"
| "copyinstr_chunk (Suc n) m p dst mx =
    (if m p = 0 then (m(dst := 0), True, dst, mx)
     else copyinstr_chunk n (m(dst := m p)) (p + 1) (dst + 1) (mx - 1))"

lemma copyinstr_chunk_left:
  "copyinstr_chunk n m p dst mx = (m', False, dst', mx') \<Longrightarrow> mx' = mx - of_nat n"
  by (induction n arbitrary: m p dst mx) (fastforce split: if_splits simp: algebra_simps)+

function copyinstr :: "u64 \<Rightarrow> u64 \<Rightarrow> u64 \<Rightarrow> u64 \<Rightarrow> 'a kmem_st_scheme \<Rightarrow> (int \<times> 'a kmem_st_scheme) kres" where
  "copyinstr pagetable dst srcva mx s =
    (if mx \<noteq> 0 then
       let va0 = PGROUNDDOWN srcva in
       kbind (walkaddr pagetable va0 s) (\<lambda>(pa0, s).
         if pa0 = 0 then Inr (- 1, s)
         else
           let n = page_rest va0 srcva;
               n = at_most mx n
           in (case copyinstr_chunk (unat n) (mem s) (pa0 + (srcva - va0)) dst mx of
                 (m, True, _, _) \<Rightarrow> Inr (0, s\<lparr>mem := m\<rparr>)
               | (m, False, dst, mx) \<Rightarrow>
                   copyinstr pagetable dst (va0 + PGSIZE) mx (s\<lparr>mem := m\<rparr>)))
     else Inr (- 1, s))"
  by pat_completeness auto
termination
proof (relation "measure (\<lambda>(_, _, _, mx, _). unat mx)", goal_cases)
  case (2 pagetable dst srcva mx)
  then show ?case
    by (auto dest!: sym [of _ "copyinstr_chunk _ _ _ _ _"] copyinstr_chunk_left
        intro!: chunk_less page_rest_pos)
qed simp

declare copyinstr.simps [simp del]

section \<open>Kernel page tables\<close>

text \<open>Like \<open>freewalk\<close>, but a leaf ends the scan of its table: the pages belong to someone else.\<close>

function (sequential) kfreewalk_loop :: "nat \<Rightarrow> nat \<Rightarrow> u64 \<Rightarrow> 'a kmem_st_scheme \<Rightarrow> 'a kmem_st_scheme kres" where
  "kfreewalk_loop depth 0 kpt s = kfree kpt s"
| "kfreewalk_loop depth (Suc left) kpt s =
    (let slot = kpt + 8 * of_nat (511 - left);
         pte = load64 (mem s) slot
     in if is_table pte then
          (case depth of
             0 \<Rightarrow> Inl Deep
           | Suc d \<Rightarrow> kbind (kfreewalk_loop d 512 (PTE2PA pte) s) (\<lambda>s.
               kfreewalk_loop depth left kpt (s\<lparr>mem := store64 slot 0 (mem s)\<rparr>)))
        else if pte AND PTE_V \<noteq> 0 then kfree kpt s
        else kfreewalk_loop depth left kpt s)"
  by pat_completeness auto
termination
  by (relation "measures [\<lambda>(d, _, _). d, \<lambda>(_, k, _). k]") auto

declare kfreewalk_loop.simps [simp del]

text \<open>Both callers pass the child of a root entry, so one level of tables hangs below it.\<close>

definition kfreewalk :: "u64 \<Rightarrow> 'a kmem_st_scheme \<Rightarrow> 'a kmem_st_scheme kres" where
  "kfreewalk kpt s = kfreewalk_loop 1 512 kpt s"

fun kvmfreeusr_loop :: "nat list \<Rightarrow> u64 \<Rightarrow> 'a kmem_st_scheme \<Rightarrow> 'a kmem_st_scheme kres" where
  "kvmfreeusr_loop [] kpt s = Inr s"
| "kvmfreeusr_loop (i # is) kpt s =
    (let slot = kpt + 8 * of_nat i;
         pte = load64 (mem s) slot
     in if is_table pte then
          kbind (kfreewalk (PTE2PA pte) s) (\<lambda>s.
            kvmfreeusr_loop is kpt (s\<lparr>mem := store64 slot 0 (mem s)\<rparr>))
        else kvmfreeusr_loop is kpt s)"

definition kvmfreeusr :: "u64 \<Rightarrow> 'a kmem_st_scheme \<Rightarrow> 'a kmem_st_scheme kres" where
  "kvmfreeusr kpt s = kvmfreeusr_loop [0..<unat (PX 2 MAXUVA)] kpt s"

definition kvmfree :: "u64 \<Rightarrow> bool \<Rightarrow> 'a kmem_st_scheme \<Rightarrow> 'a kmem_st_scheme kres" where
  "kvmfree kpt stack_free s =
    kbind (if stack_free then
             kbind (vmunmap kpt VKSTACK 1 True s) (\<lambda>s.
               let pte = load64 (mem s) (pte_addr kpt 2 VKSTACK)
               in if is_table pte then kfreewalk (PTE2PA pte) s else Inr s)
           else Inr s) (\<lambda>s.
    kbind (kvmfreeusr kpt s) (\<lambda>s. kfree kpt s))"

definition proc_kpagetable :: "'a vm_st_scheme \<Rightarrow> (u64 \<times> 'a vm_st_scheme) kres" where
  "proc_kpagetable s =
    kbind (kalloc s) (\<lambda>(kpt, s).
      if kpt = 0 then Inr (0, s)
      else
        let s = s\<lparr>mem := memmove (mem s) kpt (kernel_pagetable s) 4096\<rparr>;
            fail = (\<lambda>s. kbind (kvmfree kpt True s) (\<lambda>s. Inr (0, s)))
        in kbind (kalloc s) (\<lambda>(pstack, s).
             if pstack = 0 then fail s
             else kbind (mappages kpt VKSTACK PGSIZE pstack (PTE_R OR PTE_W) s) (\<lambda>(r, s).
               if r \<noteq> 0 then fail s else Inr (kpt, s))))"

text \<open>
  The ranges that \<open>kvminit\<close> maps: virtual address, physical address, size and permissions, in
  order. The argument says which of the two boards the kernel is built for.
\<close>

definition kvm_ranges :: "bool \<Rightarrow> u64 \<Rightarrow> u64 \<Rightarrow> (u64 \<times> u64 \<times> u64 \<times> u64) list" where
  "kvm_ranges qemu et tramp =
    (let rw = PTE_R OR PTE_W;
         dev = (\<lambda>pa sz. (pa + VIRT_OFFSET, pa, sz, rw));
         kernbase = (if qemu then 0x80200000 else 0x80020000)
     in [dev (if qemu then 0x10000000 else 0x38000000) PGSIZE] @
        (if qemu then [dev 0x10001000 PGSIZE] else []) @
        [dev 0x02000000 0x10000, dev 0x0c000000 0x4000, dev 0x0c200000 0x4000] @
        (if qemu then []
         else [dev 0x38001000 0x1000, dev 0x50000000 0x1000, dev 0x50240000 0x1000,
               dev 0x502B0000 0x1000, dev 0x52000000 0x1000, dev 0x53000000 0x1000,
               dev 0x54000000 0x1000, dev 0x50440000 0x1000]) @
        [(kernbase, kernbase, et - kernbase, PTE_R OR PTE_X),
         (et, et, PHYSTOP - et, rw),
         (TRAMPOLINE, tramp, PGSIZE, PTE_R OR PTE_X)])"

fun kvmmap_all :: "(u64 \<times> u64 \<times> u64 \<times> u64) list \<Rightarrow> 'a vm_st_scheme \<Rightarrow> 'a vm_st_scheme kres" where
  "kvmmap_all [] s = Inr s"
| "kvmmap_all ((va, pa, sz, perm) # rs) s = kbind (kvmmap va pa sz perm s) (kvmmap_all rs)"

definition kvminit :: "bool \<Rightarrow> 'a vm_st_scheme \<Rightarrow> 'a vm_st_scheme kres" where
  "kvminit qemu s =
    kbind (kalloc s) (\<lambda>(kpt, s).
      let s = s\<lparr>kernel_pagetable := kpt\<rparr>;
          s = s\<lparr>mem := memset (mem s) kpt 0 4096\<rparr>
      in kvmmap_all (kvm_ranges qemu (etext s) (trampoline s)) s)"

definition kvminithart :: "'a vm_st_scheme \<Rightarrow> 'a vm_st_scheme" where
  "kvminithart s =
    s\<lparr>satp := (satp s)(hart (core s) := MAKE_SATP (kernel_pagetable s))\<rparr>"

end
