(* ===== verification/VmTree.thy ===== *)
theory VmTree imports Vm begin

text \<open>
  What the page table routines of Vm do to the mapping that a table represents. \<open>path m root k va\<close>
  is the table page reached after \<open>k\<close> steps of the walk for \<open>va\<close>, \<open>lookup m root va\<close> the leaf entry
  (0 where there is none). In a well-formed tree no page is reached along two different paths, so
  a store through one entry changes the mapping of one page of addresses only.
\<close>

section \<open>Paths\<close>

primrec path :: "bytemem \<Rightarrow> u64 \<Rightarrow> nat \<Rightarrow> u64 \<Rightarrow> u64 option" where
  "path m root 0 va = Some root"
| "path m root (Suc k) va = (case path m root k va of
      None \<Rightarrow> None
    | Some t \<Rightarrow>
        (let e = load64 m (pte_addr t (2 - k) va)
         in if e AND PTE_V \<noteq> 0 then Some (PTE2PA e) else None))"

text \<open>The part of an address that selects the first \<open>k\<close> steps.\<close>

definition pre :: "nat \<Rightarrow> u64 \<Rightarrow> u64" where
  "pre k va = drop_bit (39 - 9 * k) va"

definition lookup :: "bytemem \<Rightarrow> u64 \<Rightarrow> u64 \<Rightarrow> u64" where
  "lookup m root va = (case path m root 2 va of
      None \<Rightarrow> 0
    | Some t \<Rightarrow> load64 m (pte_addr t 0 va))"

definition tables :: "bytemem \<Rightarrow> u64 \<Rightarrow> u64 set" where
  "tables m root = {t. \<exists>k\<le>2. \<exists>va<MAXVA. path m root k va = Some t}"

definition pt_wf :: "bytemem \<Rightarrow> u64 \<Rightarrow> bool" where
  "pt_wf m root \<longleftrightarrow>
    (\<forall>t\<in>tables m root. page_aligned t \<and> t \<noteq> 0) \<and>
    (\<forall>j\<le>2. \<forall>k\<le>2. \<forall>va<MAXVA. \<forall>vb<MAXVA. \<forall>t.
      path m root j va = Some t \<longrightarrow> path m root k vb = Some t \<longrightarrow> j = k \<and> pre j va = pre k vb)"

lemma pre_Suc_eq:
  assumes "k \<le> 2"
  shows "pre (Suc k) va = pre (Suc k) vb \<longleftrightarrow> pre k va = pre k vb \<and> PX (2 - k) va = PX (2 - k) vb"
proof -
  have n: "9 + (39 - 9 * Suc k) = 39 - 9 * k" "12 + 9 * (2 - k) = 39 - 9 * Suc k"
    using assms by auto
  have d: "drop_bit 9 (pre (Suc k) v) = pre k v" for v
    by (simp only: pre_def drop_bit_drop_bit n)
  have t: "take_bit 9 (pre (Suc k) v) = PX (2 - k) v" for v
    by (simp only: pre_def PX_take n)
  have "pre (Suc k) v = push_bit 9 (pre k v) + PX (2 - k) v" for v
    using bits_ident [of 9 "pre (Suc k) v"] unfolding d t by (rule sym)
  then show ?thesis using d t by metis
qed

lemma pre_0: "va < MAXVA \<Longrightarrow> pre 0 va = 0"
proof -
  assume "va < MAXVA"
  then have "unat va < 2 ^ 38" by (simp add: word_less_nat_alt MAXVA_def)
  then have "unat (drop_bit 39 va) = 0" unfolding unat_drop_bit_eq by (simp add: drop_bit_eq_div)
  then show ?thesis by (simp add: pre_def unat_eq_zero)
qed

lemma path_pre:
  "k \<le> 3 \<Longrightarrow> va < MAXVA \<Longrightarrow> vb < MAXVA \<Longrightarrow> pre k va = pre k vb \<Longrightarrow> path m root k va = path m root k vb"
proof (induction k)
  case (Suc k)
  then have "pre k va = pre k vb" "PX (2 - k) va = PX (2 - k) vb"
    using pre_Suc_eq [of k va vb] by auto
  then show ?case using Suc by (simp add: pte_addr_def split: option.splits)
qed simp

lemma path_in_tables: "path m root k va = Some t \<Longrightarrow> k \<le> 2 \<Longrightarrow> va < MAXVA \<Longrightarrow> t \<in> tables m root"
  by (auto simp: tables_def)

lemma root_in_tables: "root \<in> tables m root"
  by (rule path_in_tables [of _ _ 0 0]) (simp_all add: MAXVA_def)

lemma path_Suc_Some:
  "path m root (Suc k) va = Some t \<Longrightarrow> \<exists>u. path m root k va = Some u"
  by (auto split: option.splits)

section \<open>Slots\<close>

lemma pte_addr_nat: "pte_addr t l va = t + of_nat (8 * unat (PX l va))"
  by (simp add: pte_addr_def)

lemma pte_addr_page: "page_aligned t \<Longrightarrow> PGROUNDDOWN (pte_addr t l va) = t"
  unfolding pte_addr_nat using unat_PX_less [of l va] by (intro PGROUNDDOWN_offset) simp_all

lemma unat_8PX: "unat (8 * PX l va) = 8 * unat (PX l va)"
  using unat_PX_less [of l va] by (simp add: unat_word_ariths)

lemma pte_addr_aligned:
  assumes "page_aligned t"
  shows "aligned8 (pte_addr t l va)"
proof -
  have lt: "8 * unat (PX l va) < 4096" using unat_PX_less [of l va] by simp
  have t: "4096 dvd unat t" using assms by (simp add: page_aligned_def mod_eq_0_iff_dvd)
  moreover have "unat t < 2 ^ 64" using unsigned_less [of t] by simp
  ultimately have "unat t + 4096 \<le> 2 ^ 64" by (auto elim!: dvdE)
  then have "unat t + 8 * unat (PX l va) < 2 ^ 64" using lt by linarith
  then have "unat (pte_addr t l va) = unat t + 8 * unat (PX l va)"
    unfolding pte_addr_def by (subst unat_add_no_wrap) (simp_all add: unat_8PX)
  moreover have "8 dvd unat t" using t by (rule dvd_trans [rotated]) simp
  ultimately show ?thesis by (simp add: aligned8_def)
qed

lemma pte_addr_eq_iff:
  assumes "page_aligned t" and "page_aligned u"
  shows "pte_addr t l va = pte_addr u k vb \<longleftrightarrow> t = u \<and> PX l va = PX k vb"
proof
  assume e: "pte_addr t l va = pte_addr u k vb"
  then have t: "t = u" using pte_addr_page [OF assms(1)] pte_addr_page [OF assms(2)] by metis
  then have "8 * PX l va = 8 * PX k vb" using e by (simp add: pte_addr_def)
  then have "unat (PX l va) = unat (PX k vb)" using unat_8PX by (metis mult_cancel1 zero_neq_numeral)
  then show "t = u \<and> PX l va = PX k vb" using t by (simp add: unat_inj)
qed (simp add: pte_addr_def)

lemma pte_addr_nonzero: "page_aligned t \<Longrightarrow> t \<noteq> 0 \<Longrightarrow> pte_addr t l va \<noteq> 0"
  using pte_addr_page [of t l va] by (auto simp: PGROUNDDOWN_def)

lemma load64_slot_cong:
  assumes "page_aligned t" and "\<And>a. PGROUNDDOWN a = t \<Longrightarrow> m' a = m a"
  shows "load64 m' (pte_addr t l va) = load64 m (pte_addr t l va)"
  unfolding pte_addr_nat by (rule load64_page [OF assms(1) unat_PX_less assms(2)])

section \<open>Memories that agree on the tables\<close>

lemma path_cong:
  assumes al: "\<forall>t\<in>tables m root. page_aligned t"
    and eq: "\<And>a. PGROUNDDOWN a \<in> tables m root \<Longrightarrow> m' a = m a"
    and "va < MAXVA"
  shows "k \<le> 2 \<Longrightarrow> path m' root k va = path m root k va"
proof (induction k)
  case (Suc k)
  then have IH: "path m' root k va = path m root k va" by simp
  show ?case
  proof (cases "path m root k va")
    case (Some t)
    then have "t \<in> tables m root" using Suc.prems assms(3) by (intro path_in_tables) auto
    then have "load64 m' (pte_addr t (2 - k) va) = load64 m (pte_addr t (2 - k) va)"
      using al eq by (intro load64_slot_cong) auto
    then show ?thesis using IH Some by simp
  qed (simp add: IH)
qed simp

lemma same_paths:
  assumes "\<And>k va. k \<le> 2 \<Longrightarrow> va < MAXVA \<Longrightarrow> path m' root k va = path m root k va"
  shows "tables m' root = tables m root" and "pt_wf m' root = pt_wf m root"
proof -
  show t: "tables m' root = tables m root" unfolding tables_def by (simp add: assms cong: conj_cong)
  show "pt_wf m' root = pt_wf m root" unfolding pt_wf_def t by (simp add: assms cong: imp_cong)
qed

lemma tables_cong:
  assumes "\<forall>t\<in>tables m root. page_aligned t"
    and "\<And>a. PGROUNDDOWN a \<in> tables m root \<Longrightarrow> m' a = m a"
  shows "tables m' root = tables m root" and "pt_wf m' root = pt_wf m root"
    and "va < MAXVA \<Longrightarrow> lookup m' root va = lookup m root va"
proof -
  have p: "path m' root k vb = path m root k vb" if "k \<le> 2" "vb < MAXVA" for k vb
    using assms that by (intro path_cong) auto
  show "tables m' root = tables m root" "pt_wf m' root = pt_wf m root"
    using same_paths [OF p] by simp_all
  show "lookup m' root va = lookup m root va" if va: "va < MAXVA"
  proof (cases "path m root 2 va")
    case (Some u)
    then have "u \<in> tables m root" using va by (auto intro: path_in_tables)
    then have "load64 m' (pte_addr u 0 va) = load64 m (pte_addr u 0 va)"
      using assms by (intro load64_slot_cong) auto
    then show ?thesis using Some p [of 2 va] va by (simp add: lookup_def)
  qed (use p [of 2 va] va in \<open>simp add: lookup_def\<close>)
qed

section \<open>Storing one entry\<close>

lemma pt_wfD:
  assumes "pt_wf m root" and "path m root j va = Some t" and "path m root k vb = Some t"
    and "j \<le> 2" and "k \<le> 2" and "va < MAXVA" and "vb < MAXVA"
  shows "j = k" and "pre j va = pre k vb"
  using assms unfolding pt_wf_def by blast+

lemma pt_wf_aligned:
  "pt_wf m root \<Longrightarrow> path m root k va = Some t \<Longrightarrow> k \<le> 2 \<Longrightarrow> va < MAXVA \<Longrightarrow> page_aligned t \<and> t \<noteq> 0"
proof -
  assume "pt_wf m root" "path m root k va = Some t" "k \<le> 2" "va < MAXVA"
  moreover from this(2-4) have "t \<in> tables m root" by (rule path_in_tables)
  ultimately show ?thesis by (simp add: pt_wf_def)
qed

text \<open>The entry read at step \<open>i\<close> towards \<open>vb\<close> is the stored one only on the same path.\<close>

lemma read_other:
  assumes wf: "pt_wf m root"
    and t: "path m root j va = Some t" "j \<le> 2" "va < MAXVA"
    and u: "path m root i vb = Some u" "i \<le> 2" "vb < MAXVA"
    and diff: "i \<noteq> j \<or> pre (Suc j) vb \<noteq> pre (Suc j) va"
  shows "load64 (store64 (pte_addr t (2 - j) va) e m) (pte_addr u (2 - i) vb)
    = load64 m (pte_addr u (2 - i) vb)"
proof (rule load64_store64_other)
  have al: "page_aligned t" "page_aligned u"
    using pt_wf_aligned [OF wf t] pt_wf_aligned [OF wf u] by simp_all
  show "aligned8 (pte_addr t (2 - j) va)" "aligned8 (pte_addr u (2 - i) vb)"
    using al by (simp_all add: pte_addr_aligned)
  show "pte_addr t (2 - j) va \<noteq> pte_addr u (2 - i) vb"
  proof
    assume "pte_addr t (2 - j) va = pte_addr u (2 - i) vb"
    then have e: "t = u" "PX (2 - j) va = PX (2 - i) vb" using pte_addr_eq_iff [OF al] by auto
    then have "j = i" "pre j va = pre i vb"
      using pt_wfD [OF wf t(1) _ t(2) u(2) t(3) u(3)] u(1) by auto
    then show False using diff e(2) pre_Suc_eq [OF t(2), of vb va] by auto
  qed
qed

lemma path_store_other:
  assumes wf: "pt_wf m root"
    and t: "path m root j va = Some t" "j \<le> 2" "va < MAXVA"
    and vb: "vb < MAXVA"
    and diff: "k \<le> j \<or> pre (Suc j) vb \<noteq> pre (Suc j) va"
  shows "k \<le> 2 \<Longrightarrow> path (store64 (pte_addr t (2 - j) va) e m) root k vb = path m root k vb"
  using diff
proof (induction k)
  case (Suc k)
  let ?m = "store64 (pte_addr t (2 - j) va) e m"
  have IH: "path ?m root k vb = path m root k vb" using Suc by auto
  show ?case
  proof (cases "path m root k vb")
    case (Some u)
    have "load64 ?m (pte_addr u (2 - k) vb) = load64 m (pte_addr u (2 - k) vb)"
      using Suc.prems by (intro read_other [OF wf t Some _ vb]) auto
    then show ?thesis using IH Some by simp
  qed (simp add: IH)
qed simp

text \<open>Storing a leaf changes the mapping of its page of addresses, and no table.\<close>

definition page_no :: "u64 \<Rightarrow> u64" where
  "page_no va = drop_bit 12 va"

lemma pre_3: "pre 3 va = page_no va"
  by (simp add: pre_def page_no_def)

lemma store_leaf:
  assumes wf: "pt_wf m root" and t: "path m root 2 va = Some t" "va < MAXVA"
    and m': "m' = store64 (pte_addr t 0 va) e m"
  shows "tables m' root = tables m root" and "pt_wf m' root"
    and "k \<le> 2 \<Longrightarrow> vb < MAXVA \<Longrightarrow> path m' root k vb = path m root k vb"
    and "vb < MAXVA \<Longrightarrow> lookup m' root vb = (if page_no vb = page_no va then e else lookup m root vb)"
proof -
  have p: "path m' root k vb = path m root k vb" if "k \<le> 2" "vb < MAXVA" for k vb
    using path_store_other [OF wf t(1) _ t(2) that(2), of k e] that(1) m' by simp
  then show "k \<le> 2 \<Longrightarrow> vb < MAXVA \<Longrightarrow> path m' root k vb = path m root k vb" by blast
  show "tables m' root = tables m root" "pt_wf m' root"
    using same_paths [OF p] wf by simp_all
  show "lookup m' root vb = (if page_no vb = page_no va then e else lookup m root vb)" if vb: "vb < MAXVA"
  proof (cases "page_no vb = page_no va")
    case True
    then have "pre 3 vb = pre 3 va" by (simp add: pre_3)
    then have "pre 2 vb = pre 2 va" "PX 0 vb = PX 0 va"
      using pre_Suc_eq [of 2 vb va] by (simp_all add: numeral_3_eq_3 numeral_2_eq_2)
    then have "path m root 2 vb = Some t" "pte_addr t 0 vb = pte_addr t 0 va"
      using path_pre [of 2 vb va m root] t vb by (simp_all add: pte_addr_def)
    then show ?thesis using True p [of 2 vb] vb m' by (simp add: lookup_def)
  next
    case False
    then have d: "pre (Suc 2) vb \<noteq> pre (Suc 2) va" using pre_3 by (simp add: numeral_3_eq_3)
    show ?thesis
    proof (cases "path m root 2 vb")
      case (Some u)
      then have "load64 m' (pte_addr u 0 vb) = load64 m (pte_addr u 0 vb)"
        using read_other [OF wf t(1) _ t(2) Some _ vb, of e] d m' by simp
      then show ?thesis using False Some p [of 2 vb] vb by (simp add: lookup_def)
    qed (use False p [of 2 vb] vb in \<open>simp add: lookup_def\<close>)
  qed
qed

section \<open>Installing a new table\<close>

text \<open>
  The effect of a zeroed page \<open>p\<close> hung below an invalid entry: \<open>p\<close> becomes a table, and no
  address changes its leaf entry.
\<close>

lemma table_entry [simp]: "(PA2PTE p OR PTE_V) AND PTE_V \<noteq> 0"
  unfolding PTE_V_bit by (simp add: bit_or_iff PTE_V_def)

lemma PTE_V_nonzero [simp]: "PTE_V \<noteq> 0"
  by (simp add: PTE_V_def)

lemma PTE2PA_table: "page_aligned p \<Longrightarrow> PTE2PA (PA2PTE p OR PTE_V) = p"
  by (intro PTE2PA_PA2PTE) (simp_all add: PTE_V_def)

text \<open>\<open>m'\<close> is \<open>m\<close> after page \<open>p\<close> was zeroed and entered at step \<open>j\<close> towards \<open>va\<close>.\<close>

definition zero_page :: "u64 \<Rightarrow> bytemem \<Rightarrow> bytemem" where
  "zero_page p m = (\<lambda>a. if PGROUNDDOWN a = p then 0 else m a)"

definition installs :: "bytemem \<Rightarrow> u64 \<Rightarrow> nat \<Rightarrow> u64 \<Rightarrow> u64 \<Rightarrow> u64 \<Rightarrow> bytemem \<Rightarrow> bool" where
  "installs m root j va t p m' \<longleftrightarrow>
    pt_wf m root \<and> path m root j va = Some t \<and> j < 2 \<and> va < MAXVA \<and>
    load64 m (pte_addr t (2 - j) va) AND PTE_V = 0 \<and>
    page_aligned p \<and> p \<noteq> 0 \<and> p \<notin> tables m root \<and>
    m' = store64 (pte_addr t (2 - j) va) (PA2PTE p OR PTE_V) (zero_page p m)"

lemma zero_page_other:
  assumes "pt_wf m root" and "p \<notin> tables m root"
  shows "tables (zero_page p m) root = tables m root" "pt_wf (zero_page p m) root"
    "k \<le> 2 \<Longrightarrow> vb < MAXVA \<Longrightarrow> path (zero_page p m) root k vb = path m root k vb"
    "vb < MAXVA \<Longrightarrow> lookup (zero_page p m) root vb = lookup m root vb"
proof -
  have al: "\<forall>u\<in>tables m root. page_aligned u" using assms(1) by (simp add: pt_wf_def)
  have eq: "\<And>a. PGROUNDDOWN a \<in> tables m root \<Longrightarrow> zero_page p m a = m a"
    using assms(2) by (auto simp: zero_page_def)
  show "tables (zero_page p m) root = tables m root" by (rule tables_cong(1) [OF al eq])
  show "pt_wf (zero_page p m) root" using tables_cong(2) [OF al eq] assms(1) by simp
  show "vb < MAXVA \<Longrightarrow> lookup (zero_page p m) root vb = lookup m root vb"
    by (rule tables_cong(3) [OF al eq])
  show "k \<le> 2 \<Longrightarrow> vb < MAXVA \<Longrightarrow> path (zero_page p m) root k vb = path m root k vb"
    by (rule path_cong [OF al eq])
qed

lemma installsD:
  assumes "installs m root j va t p m'"
  shows "pt_wf m root" "path m root j va = Some t" "j < 2" "j \<le> 2" "va < MAXVA"
    "load64 m (pte_addr t (2 - j) va) AND PTE_V = 0" "page_aligned p" "p \<noteq> 0" "p \<notin> tables m root"
    "m' = store64 (pte_addr t (2 - j) va) (PA2PTE p OR PTE_V) (zero_page p m)"
    "pt_wf (zero_page p m) root" "path (zero_page p m) root j va = Some t"
    "t \<in> tables m root" "page_aligned t" "t \<noteq> p"
proof -
  have i: "pt_wf m root" "path m root j va = Some t" "j < 2" "va < MAXVA" "p \<notin> tables m root"
    "page_aligned p" "p \<noteq> 0" using assms by (simp_all add: installs_def)
  then have j2: "j \<le> 2" by simp
  show "pt_wf m root" "path m root j va = Some t" "j < 2" "va < MAXVA" "p \<notin> tables m root"
    "page_aligned p" "p \<noteq> 0" "j \<le> 2" using i j2 by simp_all
  show "load64 m (pte_addr t (2 - j) va) AND PTE_V = 0"
    "m' = store64 (pte_addr t (2 - j) va) (PA2PTE p OR PTE_V) (zero_page p m)"
    using assms by (simp_all add: installs_def)
  show "pt_wf (zero_page p m) root" by (rule zero_page_other(2) [OF i(1,5)])
  show "path (zero_page p m) root j va = Some t"
    using zero_page_other(3) [OF i(1,5) j2 i(4)] i(2) by simp
  show tt: "t \<in> tables m root" by (rule path_in_tables [OF i(2) j2 i(4)])
  then show "page_aligned t" "t \<noteq> p" using i by (auto simp: pt_wf_def)
qed

lemma installs_other:
  assumes I: "installs m root j va t p m'"
    and k: "k \<le> 2" "vb < MAXVA" "k \<le> j \<or> pre (Suc j) vb \<noteq> pre (Suc j) va"
  shows "path m' root k vb = path m root k vb"
proof -
  note i = installsD [OF I]
  show ?thesis
    unfolding i(10)
    using path_store_other [OF i(11,12,4,5) k(2,3,1)] zero_page_other(3) [OF i(1,9) k(1,2)]
    by simp
qed

lemma installs_same:
  assumes I: "installs m root j va t p m'" and vb: "vb < MAXVA" "pre (Suc j) vb = pre (Suc j) va"
  shows "path m' root (Suc j) vb = Some p" "path m root (Suc j) vb = None"
proof -
  note i = installsD [OF I]
  have e: "pre j vb = pre j va" "PX (2 - j) vb = PX (2 - j) va"
    using pre_Suc_eq [OF i(4), of vb va] vb(2) by auto
  have s: "pte_addr t (2 - j) vb = pte_addr t (2 - j) va" using e by (simp add: pte_addr_def)
  have "j \<le> 3" using i(3) by simp
  then have pj: "path m root j vb = Some t" using path_pre [OF _ vb(1) i(5) e(1)] i(2) by simp
  then have pj': "path m' root j vb = Some t" using installs_other [OF I i(4) vb(1)] by simp
  have "load64 m' (pte_addr t (2 - j) vb) = PA2PTE p OR PTE_V" by (simp add: s i(10))
  then show "path m' root (Suc j) vb = Some p"
    using pj' by (simp add: PTE2PA_table [OF i(7)] Let_def)
  show "path m root (Suc j) vb = None" using pj s i(6) by simp
qed

lemma slot_in_page:
  assumes "page_aligned t" and "unat (a - pte_addr t l va) < 8"
  shows "PGROUNDDOWN a = t"
proof -
  let ?n = "8 * unat (PX l va) + unat (a - pte_addr t l va)"
  have "?n < 4096" using assms(2) unat_PX_less [of l va] by linarith
  moreover have "a = pte_addr t l va + (a - pte_addr t l va)" by simp
  then have "a = t + of_nat ?n" unfolding pte_addr_nat of_nat_add of_nat_unat ucast_id by (simp add: pte_addr_nat)
  ultimately show ?thesis using PGROUNDDOWN_offset [OF assms(1), of ?n] by metis
qed

lemma store_slot_other:
  "page_aligned t \<Longrightarrow> PGROUNDDOWN a \<noteq> t \<Longrightarrow> store64 (pte_addr t l va) e m a = m a"
  using slot_in_page [of t a l va] by (auto simp: store64_def)

lemma installs_zero_below:
  assumes I: "installs m root j va t p m'"
  shows "load64 m' (pte_addr p l vb) = 0"
proof -
  note i = installsD [OF I]
  have "m' a = 0" if "PGROUNDDOWN a = p" for a
    using that i(15) store_slot_other [OF i(14), of a] by (simp add: i(10) zero_page_def)
  then have "load64 m' (pte_addr p l vb) = load64 (\<lambda>_. 0) (pte_addr p l vb)"
    by (intro load64_slot_cong [OF i(7)]) auto
  also have "\<dots> = 0" by (simp add: load64_def word_rcat_def)
  finally show ?thesis .
qed

lemma installs_deeper:
  assumes I: "installs m root j va t p m'"
    and k: "vb < MAXVA" "pre (Suc j) vb = pre (Suc j) va" "Suc j < k" "k \<le> 2"
  shows "path m' root k vb = None"
proof -
  have "k = Suc (Suc j)" using k(3,4) by simp
  then show ?thesis using installs_same(1) [OF I k(1,2)] by (simp add: installs_zero_below [OF I])
qed

lemma installs_cases:
  assumes I: "installs m root j va t p m'"
    and u: "path m' root k vb = Some u" "k \<le> 2" "vb < MAXVA"
  shows "path m root k vb = Some u \<or> (k = Suc j \<and> u = p \<and> pre (Suc j) vb = pre (Suc j) va)"
proof (cases "k \<le> j \<or> pre (Suc j) vb \<noteq> pre (Suc j) va")
  case True then show ?thesis using installs_other [OF I u(2,3)] u(1) by simp
next
  case False
  then show ?thesis using installs_same(1) [OF I u(3)] installs_deeper [OF I u(3)] u
    by (cases "k = Suc j") auto
qed

lemma installs_tables:
  assumes I: "installs m root j va t p m'"
  shows "tables m' root = insert p (tables m root)"
proof (intro set_eqI iffI)
  fix u assume "u \<in> tables m' root"
  then show "u \<in> insert p (tables m root)"
    using installs_cases [OF I] by (fastforce simp: tables_def)
next
  note i = installsD [OF I]
  fix u assume "u \<in> insert p (tables m root)"
  then consider "u = p" | k vb where "k \<le> 2" "vb < MAXVA" "path m root k vb = Some u"
    by (auto simp: tables_def)
  then show "u \<in> tables m' root"
  proof cases
    case 1
    have "Suc j \<le> 2" using i(3) by simp
    then show ?thesis unfolding 1 by (rule path_in_tables [OF installs_same(1) [OF I i(5) refl] _ i(5)])
  next
    case (2 k vb)
    have "k \<le> j \<or> pre (Suc j) vb \<noteq> pre (Suc j) va"
    proof (rule ccontr)
      assume n: "\<not> (k \<le> j \<or> pre (Suc j) vb \<noteq> pre (Suc j) va)"
      then have "path m root (Suc j) vb = None" using installs_same(2) [OF I 2(2)] by simp
      moreover have "k = Suc j \<or> k = Suc (Suc j)" using n 2(1) i(3) by auto
      ultimately show False using 2(3) by auto
    qed
    then have "path m' root k vb = Some u" using installs_other [OF I 2(1,2)] 2(3) by simp
    then show ?thesis by (rule path_in_tables [OF _ 2(1,2)])
  qed
qed

lemma installs_wf:
  assumes I: "installs m root j va t p m'"
  shows "pt_wf m' root"
  unfolding pt_wf_def
proof (intro conjI ballI allI impI)
  note i = installsD [OF I]
  {
    fix u assume "u \<in> tables m' root"
    then show "page_aligned u" "u \<noteq> 0"
      using i(1,7,8) unfolding installs_tables [OF I] pt_wf_def by auto
  next
    fix n k va1 va2 u
    assume a: "n \<le> 2" "k \<le> 2" "va1 < MAXVA" "va2 < MAXVA"
      "path m' root n va1 = Some u" "path m' root k va2 = Some u"
    have np: "path m root l v \<noteq> Some p" if "l \<le> 2" "v < MAXVA" for l v
      using i(9) path_in_tables that by blast
    consider "path m root n va1 = Some u" "path m root k va2 = Some u"
      | "n = Suc j" "k = Suc j" "pre (Suc j) va1 = pre (Suc j) va" "pre (Suc j) va2 = pre (Suc j) va"
      using installs_cases [OF I a(5,1,3)] installs_cases [OF I a(6,2,4)] np a(1-4) by auto
    then have "n = k \<and> pre n va1 = pre k va2"
    proof cases
      case 1 then show ?thesis using pt_wfD [OF i(1) 1 a(1,2,3,4)] by blast
    qed auto
    then show "n = k" "pre n va1 = pre k va2" by blast+
  }
qed

lemma installs_lookup:
  assumes I: "installs m root j va t p m'" and vb: "vb < MAXVA"
  shows "lookup m' root vb = lookup m root vb"
proof (cases "pre (Suc j) vb = pre (Suc j) va")
  case True
  note i = installsD [OF I]
  have old: "path m root 2 vb = None"
    using installs_same(2) [OF I vb True] i(3) path_Suc_Some [of m root "Suc j" vb]
    by (cases j) (auto simp: numeral_2_eq_2)
  show ?thesis
  proof (cases "j = 1")
    case j1: True
    then have "path m' root 2 vb = Some p"
      using installs_same(1) [OF I vb True] by (simp add: numeral_2_eq_2)
    then show ?thesis using old installs_zero_below [OF I] by (simp add: lookup_def)
  next
    case False
    then have "path m' root 2 vb = None" using installs_deeper [OF I vb True, of 2] i(3) by auto
    then show ?thesis using old by (simp add: lookup_def)
  qed
next
  case False
  note i = installsD [OF I]
  have p2: "path m' root 2 vb = path m root 2 vb" using installs_other [OF I _ vb, of 2] False by simp
  show ?thesis
  proof (cases "path m root 2 vb")
    case (Some u)
    then have s0: "path (zero_page p m) root 2 vb = Some u"
      using zero_page_other(3) [OF i(1,9)] vb by simp
    have "load64 m' (pte_addr u 0 vb) = load64 (zero_page p m) (pte_addr u 0 vb)"
      using read_other [OF i(11,12,4,5) s0 _ vb] i(3) by (simp add: i(10))
    moreover have "lookup (zero_page p m) root vb = load64 (zero_page p m) (pte_addr u 0 vb)"
      using s0 by (simp add: lookup_def)
    ultimately show ?thesis using Some p2 zero_page_other(4) [OF i(1,9) vb] by (simp add: lookup_def)
  qed (use p2 in \<open>simp add: lookup_def\<close>)
qed

end
