(* ===== verification/VmMap.thy ===== *)
theory VmMap imports VmTree begin

text \<open>
  The page table routines refine updates of a map from pages of addresses to leaf entries:
  \<open>walk\<close> changes no entry, \<open>mappages\<close> sets the entries of a range of pages, \<open>vmunmap\<close> clears them,
  and \<open>walkaddr\<close> reads one. The tables come from the page allocator and stay disjoint from its free
  pages.
\<close>

section \<open>The invariant\<close>

definition pt_ok :: "u64 \<Rightarrow> 'a kmem_st_scheme \<Rightarrow> bool" where
  "pt_ok root s \<longleftrightarrow> kmem_ok s \<and> pt_wf (mem s) root \<and> tables (mem s) root \<inter> free_pages s = {}"

lemma free_page_facts:
  assumes "kmem_ok s" and "p \<in> free_pages s"
  shows "valid_page (kernel_end s) p" and "page_aligned p" and "p \<noteq> 0"
proof -
  obtain ps where "kmem_inv s ps" "free_pages s = set ps" using kmem_okE [OF assms(1)] .
  then show "valid_page (kernel_end s) p" "p \<noteq> 0"
    using assms(2) by (auto simp: kmem_inv_def valid_page_def)
  then show "page_aligned p" using valid_page_aligned by blast
qed

text \<open>Writing outside the free pages leaves the allocator alone.\<close>

lemma kmem_frame:
  assumes "kmem_ok s" and "\<And>a. PGROUNDDOWN a \<in> free_pages s \<Longrightarrow> m' a = mem s a"
  shows "kmem_ok (s\<lparr>mem := m'\<rparr>)" and "free_pages (s\<lparr>mem := m'\<rparr>) = free_pages s"
proof -
  obtain ps where ps: "kmem_ready s" "kmem_inv s ps" "free_pages s = set ps"
    using kmem_okE [OF assms(1)] .
  have "load64 m' p = load64 (mem s) p" if "p \<in> set ps" for p
  proof (rule load64_page0)
    show "page_aligned p" using free_page_facts(2) [OF assms(1)] that ps(3) by blast
    show "m' a = mem s a" if "PGROUNDDOWN a = p" for a
      using assms(2) [of a] that \<open>p \<in> set ps\<close> ps(3) by blast
  qed
  moreover have "flist (mem s) (freelist s) ps" using ps(2) by (simp add: kmem_inv_def)
  ultimately have "flist m' (freelist s) ps" by (metis flist_cong)
  then have "kmem_inv (s\<lparr>mem := m'\<rparr>) ps" using ps(2) by (simp add: kmem_inv_def)
  moreover have "kmem_ready (s\<lparr>mem := m'\<rparr>)" using ps(1) by (simp add: kmem_ready_def)
  ultimately show "kmem_ok (s\<lparr>mem := m'\<rparr>)" "free_pages (s\<lparr>mem := m'\<rparr>) = free_pages s"
    using free_pages_eq ps(3) by (auto simp: kmem_ok_def)
qed

section \<open>walk\<close>

lemma walk_loop_lookup:
  assumes "pt_wf (mem s) root" and "va < MAXVA"
  shows "l \<le> 2 \<Longrightarrow> path (mem s) root (2 - l) va = Some t \<Longrightarrow>
    walk_loop l t va False s =
      Inr (case path (mem s) root 2 va of None \<Rightarrow> 0 | Some u \<Rightarrow> pte_addr u 0 va, s)"
proof (induction l arbitrary: t)
  case (Suc l)
  have k: "2 - l = Suc (2 - Suc l)" "2 - (2 - Suc l) = Suc l" using Suc.prems(1) by auto
  let ?e = "load64 (mem s) (pte_addr t (Suc l) va)"
  show ?case
  proof (cases "?e AND PTE_V = 0")
    case True
    then have "path (mem s) root (2 - l) va = None" using Suc.prems(2) k by simp
    then have "path (mem s) root 2 va = None"
      using Suc.prems(1) path_Suc_Some [of "mem s" root 1 va]
      by (cases l) (auto simp: numeral_2_eq_2)
    then show ?thesis using True by simp
  next
    case False
    then have "path (mem s) root (2 - l) va = Some (PTE2PA ?e)" using Suc.prems(2) k by simp
    then show ?thesis using Suc.IH Suc.prems(1) False by simp
  qed
qed simp

text \<open>Without \<open>alloc\<close>, \<open>walk\<close> reads the tree: the address of the entry, or null.\<close>

lemma walk_lookup:
  assumes "pt_wf (mem s) root" and "va < MAXVA"
  shows "walk root va False s =
    Inr (case path (mem s) root 2 va of None \<Rightarrow> 0 | Some t \<Rightarrow> pte_addr t 0 va, s)"
  using walk_loop_lookup [OF assms, of 2 root] assms(2) by (simp add: walk_def not_le)

text \<open>Where the path exists, \<open>alloc\<close> makes no difference.\<close>

lemma walk_loop_existing:
  assumes "va < MAXVA" and u: "path (mem s) root 2 va = Some u"
  shows "l \<le> 2 \<Longrightarrow> path (mem s) root (2 - l) va = Some t \<Longrightarrow>
    walk_loop l t va alloc s = Inr (pte_addr u 0 va, s)"
proof (induction l arbitrary: t)
  case (Suc l)
  have k: "2 - l = Suc (2 - Suc l)" "2 - (2 - Suc l) = Suc l" using Suc.prems(1) by auto
  have "path (mem s) root (2 - l) va \<noteq> None"
    using u Suc.prems(1) by (cases l) (auto simp: numeral_2_eq_2 split: option.splits)
  then have "path (mem s) root (2 - l) va = Some (PTE2PA (load64 (mem s) (pte_addr t (Suc l) va)))"
    and "load64 (mem s) (pte_addr t (Suc l) va) AND PTE_V \<noteq> 0"
    using Suc.prems(2) k by (auto simp: Let_def split: if_splits)
  then show ?case using Suc.IH Suc.prems(1) by simp
qed (use u in simp)

lemma walk_existing:
  assumes "pt_wf (mem s) root" and "va < MAXVA" and "path (mem s) root 2 va = Some u"
  shows "walk root va alloc s = Inr (pte_addr u 0 va, s)"
  using walk_loop_existing [OF assms(2,3), of 2 root] assms(2) by (simp add: walk_def not_le)

lemma leaf_slot:
  assumes "pt_wf m root" and "va < MAXVA" and "path m root 2 va = Some t"
  shows "pte_addr t 0 va \<noteq> 0" and "load64 m (pte_addr t 0 va) = lookup m root va"
proof -
  have "page_aligned t \<and> t \<noteq> 0" by (rule pt_wf_aligned [OF assms(1,3) _ assms(2)]) simp
  then show "pte_addr t 0 va \<noteq> 0" by (simp add: pte_addr_nonzero)
  show "load64 m (pte_addr t 0 va) = lookup m root va" using assms(3) by (simp add: lookup_def)
qed

text \<open>
  What every allocating step keeps. \<open>fresh s s'\<close>: the allocator is intact, its free
  pages only shrank, and memory outside \<open>own\<close> and the free pages did not change.
\<close>

definition grows :: "u64 \<Rightarrow> 'a kmem_st_scheme \<Rightarrow> 'a kmem_st_scheme \<Rightarrow> bool" where
  "grows root s s' \<longleftrightarrow>
    pt_ok root s' \<and> free_pages s' \<subseteq> free_pages s \<and> kernel_end s' = kernel_end s \<and>
    tables (mem s) root \<subseteq> tables (mem s') root \<and>
    tables (mem s') root \<subseteq> tables (mem s) root \<union> free_pages s \<and>
    (\<forall>a. PGROUNDDOWN a \<notin> tables (mem s) root \<union> free_pages s \<longrightarrow> mem s' a = mem s a)"

lemma grows_refl: "pt_ok root s \<Longrightarrow> grows root s s"
  by (simp add: grows_def)

lemma grows_trans:
  assumes "grows root s s'" and "grows root s' s''"
  shows "grows root s s''"
proof -
  have o: "mem s'' a = mem s a" if a: "PGROUNDDOWN a \<notin> tables (mem s) root \<union> free_pages s" for a
  proof -
    have "PGROUNDDOWN a \<notin> tables (mem s') root \<union> free_pages s'"
      using a assms(1) unfolding grows_def by blast
    then have "mem s'' a = mem s' a" using assms(2) unfolding grows_def by blast
    also have "\<dots> = mem s a" using a assms(1) unfolding grows_def by blast
    finally show ?thesis .
  qed
  show ?thesis
    unfolding grows_def
  proof (intro conjI)
    show "pt_ok root s''" using assms(2) by (simp add: grows_def)
    show "kernel_end s'' = kernel_end s" using assms by (simp add: grows_def)
    have f: "free_pages s'' \<subseteq> free_pages s'" "free_pages s' \<subseteq> free_pages s"
      and t: "tables (mem s'') root \<subseteq> tables (mem s') root \<union> free_pages s'"
        "tables (mem s') root \<subseteq> tables (mem s) root \<union> free_pages s"
      and u: "tables (mem s) root \<subseteq> tables (mem s') root" "tables (mem s') root \<subseteq> tables (mem s'') root"
      using assms by (simp_all add: grows_def)
    show "free_pages s'' \<subseteq> free_pages s" using f by (rule subset_trans)
    show "tables (mem s) root \<subseteq> tables (mem s'') root" using u by (rule subset_trans)
    show "tables (mem s'') root \<subseteq> tables (mem s) root \<union> free_pages s" using t f(2) by auto
    show "\<forall>a. PGROUNDDOWN a \<notin> tables (mem s) root \<union> free_pages s \<longrightarrow> mem s'' a = mem s a"
      using o by blast
  qed
qed

text \<open>Allocating, zeroing and installing one table page.\<close>

lemma walk_install:
  assumes ok: "pt_ok root s"
    and t: "path (mem s) root j va = Some t" "j < 2" "va < MAXVA"
    and e: "load64 (mem s) (pte_addr t (2 - j) va) AND PTE_V = 0"
    and p: "p \<in> free_pages s" "p \<noteq> 0" "kmem_ok (kalloced p s)"
      "free_pages (kalloced p s) = free_pages s - {p}"
    and s': "s' = (kalloced p s)\<lparr>mem := store64 (pte_addr t (2 - j) va) (PA2PTE p OR PTE_V)
      (memset (mem (kalloced p s)) p 0 4096)\<rparr>"
  shows "grows root s s'" and "installs (mem s) root j va t p (mem s')"
proof -
  have wf: "pt_wf (mem s) root" using ok by (simp add: pt_ok_def)
  have kok: "kmem_ok s" using ok by (simp add: pt_ok_def)
  have pf: "page_aligned p" "p \<notin> tables (mem s) root"
    using free_page_facts [OF kok p(1)] p(1) ok by (auto simp: pt_ok_def)
  have z: "memset (mem (kalloced p s)) p 0 4096 = zero_page p (mem s)"
    using pf(1) by (auto simp: kalloced_def memset_page zero_page_def)
  show I: "installs (mem s) root j va t p (mem s')"
    using wf t e p pf by (simp add: installs_def s' z)
  note i = installsD [OF I]
  have o: "mem s' a = mem s a" if "PGROUNDDOWN a \<noteq> p" "PGROUNDDOWN a \<noteq> t" for a
    using that store_slot_other [OF i(14), of a] by (simp add: s' z zero_page_def)
  have tf: "t \<notin> free_pages s" using i(13) ok by (auto simp: pt_ok_def)
  have "mem s' a = mem (kalloced p s) a" if "PGROUNDDOWN a \<in> free_pages (kalloced p s)" for a
  proof -
    have n: "PGROUNDDOWN a \<noteq> p" "PGROUNDDOWN a \<noteq> t" using that p(4) tf by auto
    then have "mem (kalloced p s) a = mem s a" by (simp add: kalloced_def memset_page [OF pf(1)])
    then show ?thesis using o [OF n] by simp
  qed
  then have k: "kmem_ok s'" "free_pages s' = free_pages s - {p}"
    using kmem_frame [OF p(3), of "mem s'"] p(4) by (simp_all add: s')
  have T: "tables (mem s') root = insert p (tables (mem s) root)" by (rule installs_tables [OF I])
  show "grows root s s'"
    unfolding grows_def
  proof (intro conjI allI impI)
    show "pt_ok root s'" using k installs_wf [OF I] ok by (auto simp: pt_ok_def T)
    show "mem s' a = mem s a" if "PGROUNDDOWN a \<notin> tables (mem s) root \<union> free_pages s" for a
      using o [of a] that i(13) p(1) by blast
    show "kernel_end s' = kernel_end s" by (simp add: s')
  qed (use k T p(1) in auto)
qed

text \<open>
  With \<open>alloc\<close>, \<open>walk\<close> returns the address of the entry in the tree it leaves, or null when no page was
  free; either way no address changes its entry.
\<close>

definition walk_post :: "u64 \<Rightarrow> u64 \<Rightarrow> 'a kmem_st_scheme \<Rightarrow> u64 \<Rightarrow> 'a kmem_st_scheme \<Rightarrow> bool" where
  "walk_post root va s r s' \<longleftrightarrow>
    grows root s s' \<and> (\<forall>vb<MAXVA. lookup (mem s') root vb = lookup (mem s) root vb) \<and>
    (if r = 0 then free_pages s' = {}
     else \<exists>t. path (mem s') root 2 va = Some t \<and> r = pte_addr t 0 va)"

lemma walk_post_trans:
  assumes "grows root s s1" and "\<forall>vb<MAXVA. lookup (mem s1) root vb = lookup (mem s) root vb"
    and "walk_post root va s1 r s'"
  shows "walk_post root va s r s'"
  using assms grows_trans [OF assms(1)] by (auto simp: walk_post_def)

lemma walk_loop_alloc:
  assumes "va < MAXVA"
  shows "l \<le> 2 \<Longrightarrow> pt_ok root s \<Longrightarrow> path (mem s) root (2 - l) va = Some t \<Longrightarrow>
    \<exists>r s'. walk_loop l t va True s = Inr (r, s') \<and> walk_post root va s r s'"
proof (induction l arbitrary: s t)
  case 0
  then have "pte_addr t 0 va \<noteq> 0"
    using leaf_slot(1) [of "mem s" root va t] assms by (simp add: pt_ok_def)
  then show ?case using 0 grows_refl [OF "0.prems"(2)] by (auto simp: walk_post_def)
next
  case (Suc l)
  have k: "2 - l = Suc (2 - Suc l)" "2 - (2 - Suc l) = Suc l" "2 - Suc l < 2" "l \<le> 2"
    using Suc.prems(1) by auto
  let ?slot = "pte_addr t (Suc l) va"
  let ?e = "load64 (mem s) ?slot"
  show ?case
  proof (cases "?e AND PTE_V = 0")
    case False
    then have "path (mem s) root (2 - l) va = Some (PTE2PA ?e)" using Suc.prems(3) k by simp
    then show ?thesis using Suc.IH [OF k(4) Suc.prems(2)] False by simp
  next
    case inv: True
    have kok: "kmem_ok s" using Suc.prems(2) by (simp add: pt_ok_def)
    show ?thesis
    proof (cases "free_pages s = {}")
      case True
      let ?s = "s\<lparr>core := settle (core s)\<rparr>"
      have "walk_loop (Suc l) t va True s = Inr (0, ?s)"
        using inv kalloc_empty(1) [OF kok True] by simp
      moreover have "walk_post root va s 0 ?s"
        using Suc.prems(2) kalloc_empty(2) [OF kok True] True
        by (simp add: walk_post_def grows_def pt_ok_def)
      ultimately show ?thesis by blast
    next
      case False
      obtain p where p: "kalloc s = Inr (p, kalloced p s)" "kmem_ok (kalloced p s)"
          "p \<in> free_pages s" "p \<noteq> 0" "free_pages (kalloced p s) = free_pages s - {p}"
        using kalloc_page [OF kok False] by blast
      define s1 where "s1 = (kalloced p s)\<lparr>mem := store64 ?slot (PA2PTE p OR PTE_V)
        (memset (mem (kalloced p s)) p 0 4096)\<rparr>"
      have e: "load64 (mem s) (pte_addr t (2 - (2 - Suc l)) va) AND PTE_V = 0"
        unfolding k(2) by (rule inv)
      have g: "grows root s s1" and I: "installs (mem s) root (2 - Suc l) va t p (mem s1)"
        using walk_install [OF Suc.prems(2,3) k(3) assms e p(3,4,2,5), of s1] k(2)
        by (simp_all add: s1_def)
      have "path (mem s1) root (2 - l) va = Some p"
        using installs_same(1) [OF I assms refl] k(1) by simp
      then obtain r s' where w: "walk_loop l p va True s1 = Inr (r, s')" "walk_post root va s1 r s'"
        using Suc.IH [OF k(4), of s1 p] g by (auto simp: grows_def)
      have "walk_loop (Suc l) t va True s = Inr (r, s')"
        using inv p(1,4) w(1) by (simp add: s1_def Let_def)
      then show ?thesis
        using walk_post_trans [OF g _ w(2)] installs_lookup [OF I] by blast
    qed
  qed
qed

lemma walk_alloc:
  assumes "pt_ok root s" and "va < MAXVA"
  shows "\<exists>r s'. walk root va True s = Inr (r, s') \<and> walk_post root va s r s'"
  using walk_loop_alloc [OF assms(2), of 2 root s root] assms by (simp add: walk_def not_le)

end
