(* ===== verification/VmProps.thy ===== *)
theory VmProps imports VmMap begin

text \<open>
  The theorems on the page table routines: \<open>mappages\<close>, \<open>vmunmap\<close> and \<open>walkaddr\<close> against the map from
  pages of addresses to leaf entries.
\<close>

section \<open>mappages\<close>

text \<open>The map \<open>L\<close> with the \<open>n\<close> pages from that of \<open>a\<close> on set to \<open>pa\<close>, \<open>pa + PGSIZE\<close>, ...\<close>

definition map_pages :: "(u64 \<Rightarrow> u64) \<Rightarrow> u64 \<Rightarrow> u64 \<Rightarrow> u64 \<Rightarrow> nat \<Rightarrow> u64 \<Rightarrow> u64" where
  "map_pages L a pa perm n vb =
    (let i = unat (page_no vb) - unat (page_no a) in
     if unat (page_no a) \<le> unat (page_no vb) \<and> i < n
     then PA2PTE (pa + of_nat (4096 * i)) OR perm OR PTE_V
     else L vb)"

lemma unat_page_no: "unat (page_no va) = unat va div 4096"
  unfolding page_no_def unat_drop_bit_eq by (simp add: drop_bit_eq_div)

lemma page_no_next:
  assumes "unat a + 4096 < 2 ^ 64"
  shows "unat (page_no (a + 4096)) = Suc (unat (page_no a))"
proof -
  have "unat (a + 4096) = unat a + 4096" using assms by (simp add: unat_add_no_wrap)
  then show ?thesis by (simp add: unat_page_no)
qed

lemma map_pages_0 [simp]: "map_pages L a pa perm 0 = L"
  by (simp add: map_pages_def fun_eq_iff)

lemma map_pages_step:
  assumes "unat a + 4096 < 2 ^ 64"
    and L1: "\<And>vb. vb < MAXVA \<Longrightarrow> L1 vb = (if page_no vb = page_no a then PA2PTE pa OR perm OR PTE_V else L vb)"
    and vb: "vb < MAXVA"
  shows "map_pages L1 (a + 4096) (pa + 4096) perm n vb = map_pages L a pa perm (Suc n) vb"
proof -
  let ?b = "unat (page_no vb)" and ?a = "unat (page_no a)"
  have nx: "unat (page_no (a + 4096)) = Suc ?a" by (rule page_no_next [OF assms(1)])
  consider "?b < ?a" | "?b = ?a" | "Suc ?a \<le> ?b" by linarith
  then show ?thesis
  proof cases
    case 1
    then have "page_no vb \<noteq> page_no a" "\<not> ?a \<le> ?b" "\<not> Suc ?a \<le> ?b" by auto
    then show ?thesis using L1 [OF vb] by (simp only: map_pages_def nx Let_def if_False simp_thms)
  next
    case 2
    then have "page_no vb = page_no a" by (rule unat_inj)
    then show ?thesis using L1 [OF vb] by (simp add: map_pages_def nx)
  next
    case 3
    define k where "k = ?b - Suc ?a"
    have 3: "?b = Suc ?a + k" using 3 by (simp add: k_def)
    then have "page_no vb \<noteq> page_no a" by auto
    moreover have "pa + 4096 + of_nat (4096 * k) = pa + of_nat (4096 * Suc k)"
      by (simp add: algebra_simps)
    moreover have "?b - Suc ?a = k" "?b - ?a = Suc k" using 3 by simp_all
    ultimately show ?thesis using L1 [OF vb] 3 by (simp add: map_pages_def nx Let_def add.assoc)
  qed
qed

text \<open>Storing a leaf through the address that \<open>walk\<close> returned.\<close>

lemma store_leaf_grows:
  assumes ok: "pt_ok root s" and t: "path (mem s) root 2 va = Some t" "va < MAXVA"
    and s': "s' = s\<lparr>mem := store64 (pte_addr t 0 va) e (mem s)\<rparr>"
  shows "grows root s s'" and "free_pages s' = free_pages s"
    and "vb < MAXVA \<Longrightarrow> lookup (mem s') root vb
      = (if page_no vb = page_no va then e else lookup (mem s) root vb)"
proof -
  have wf: "pt_wf (mem s) root" and kok: "kmem_ok s" using ok by (simp_all add: pt_ok_def)
  have tt: "t \<in> tables (mem s) root" "page_aligned t"
    using path_in_tables [OF t(1) _ t(2)] pt_wf_aligned [OF wf t(1) _ t(2)] by simp_all
  have m: "mem s' = store64 (pte_addr t 0 va) e (mem s)" by (simp add: s')
  note sl = store_leaf [OF wf t m]
  have o: "mem s' a = mem s a" if "PGROUNDDOWN a \<noteq> t" for a
    using that store_slot_other [OF tt(2)] by (simp add: m)
  have tf: "t \<notin> free_pages s" using ok tt(1) by (auto simp: pt_ok_def)
  have fr: "mem s' a = mem s a" if "PGROUNDDOWN a \<in> free_pages s" for a
    using that tf by (intro o) auto
  have k: "kmem_ok s'" "free_pages s' = free_pages s"
    using kmem_frame [OF kok fr] by (simp_all add: s')
  then show "free_pages s' = free_pages s" by simp
  show "vb < MAXVA \<Longrightarrow> lookup (mem s') root vb
      = (if page_no vb = page_no va then e else lookup (mem s) root vb)" by (rule sl(4))
  show "grows root s s'"
    unfolding grows_def
  proof (intro conjI allI impI)
    show "pt_ok root s'" using ok k sl(1,2) by (simp add: pt_ok_def)
    show "mem s' a = mem s a" if "PGROUNDDOWN a \<notin> tables (mem s) root \<union> free_pages s" for a
      using o [of a] that tt(1) by blast
    show "kernel_end s' = kernel_end s" by (simp add: s')
  qed (use k(2) sl(1) in simp_all)
qed

lemma below_MAXVA: "unat a < 2 ^ 38 \<longleftrightarrow> a < MAXVA"
  by (simp add: word_less_nat_alt MAXVA_def)

definition mapped_post ::
    "u64 \<Rightarrow> u64 \<Rightarrow> u64 \<Rightarrow> u64 \<Rightarrow> nat \<Rightarrow> 'a kmem_st_scheme \<Rightarrow> int \<Rightarrow> 'a kmem_st_scheme \<Rightarrow> bool" where
  "mapped_post root a pa perm n s r s' \<longleftrightarrow> grows root s s' \<and>
    (\<exists>k. (r = 0 \<and> k = n \<or> r = - 1 \<and> k < n \<and> free_pages s' = {}) \<and>
      (\<forall>vb<MAXVA. lookup (mem s') root vb = map_pages (lookup (mem s) root) a pa perm k vb))"

lemma page_offset_inj:
  fixes a :: u64
  assumes "4096 * n < 2 ^ 64"
  shows "a = a + of_nat (4096 * n) \<longleftrightarrow> n = 0"
proof -
  have "unat (of_nat (4096 * n) :: u64) = 4096 * n" using assms by (intro unat_of_nat_small) simp
  then show ?thesis by (metis add.right_neutral add_left_cancel mult_eq_0_iff of_nat_0 unat_eq_zero zero_neq_numeral)
qed

text \<open>One iteration: no page for a table, or the leaf entry of the page is set.\<close>

lemma mappages_step:
  assumes ok: "pt_ok root s" and a: "a < MAXVA"
    and inv: "lookup (mem s) root a AND PTE_V = 0"
  obtains (fail) s1 where "walk root a True s = Inr (0, s1)" "grows root s s1" "free_pages s1 = {}"
      "\<forall>vb<MAXVA. lookup (mem s1) root vb = lookup (mem s) root vb"
  | (slot) r s1 s2 where "walk root a True s = Inr (r, s1)" "r \<noteq> 0" "load64 (mem s1) r AND PTE_V = 0"
      "s2 = s1\<lparr>mem := store64 r e (mem s1)\<rparr>" "grows root s s2"
      "\<forall>vb<MAXVA. lookup (mem s2) root vb = (if page_no vb = page_no a then e else lookup (mem s) root vb)"
proof -
  obtain r s1 where w: "walk root a True s = Inr (r, s1)" "walk_post root a s r s1"
    using walk_alloc [OF ok a] by blast
  then have g: "grows root s s1" and L: "\<forall>vb<MAXVA. lookup (mem s1) root vb = lookup (mem s) root vb"
    by (simp_all add: walk_post_def)
  show thesis
  proof (cases "r = 0")
    case True
    then show thesis using w g L by (intro fail) (simp_all add: walk_post_def)
  next
    case False
    then obtain t where t: "path (mem s1) root 2 a = Some t" "r = pte_addr t 0 a"
      using w(2) by (auto simp: walk_post_def)
    have ok1: "pt_ok root s1" using g by (simp add: grows_def)
    have "lookup (mem s1) root a = load64 (mem s1) r" using t by (simp add: lookup_def)
    then have "load64 (mem s1) r = lookup (mem s) root a" using L a by simp
    then have v: "load64 (mem s1) r AND PTE_V = 0" using inv by simp
    let ?s2 = "s1\<lparr>mem := store64 r e (mem s1)\<rparr>"
    have s2: "?s2 = s1\<lparr>mem := store64 (pte_addr t 0 a) e (mem s1)\<rparr>" using t(2) by simp
    note st = store_leaf_grows [OF ok1 t(1) a s2]
    show thesis
      using st(3) L by (intro slot [OF w(1) False v refl grows_trans [OF g st(1)]]) simp
  qed
qed

lemma mappages_loop_ok:
  assumes "pt_ok root s" and "unat a + 4096 * n < 2 ^ 38"
    and "\<And>i. i \<le> n \<Longrightarrow> lookup (mem s) root (a + of_nat (4096 * i)) AND PTE_V = 0"
  shows "\<exists>r s'. mappages_loop root a (a + of_nat (4096 * n)) pa perm s = Inr (r, s')
    \<and> mapped_post root a pa perm (Suc n) s r s'"
  using assms
proof (induction n arbitrary: a pa s)
  case (0 a pa s)
  have a: "a < MAXVA" using "0.prems"(2) by (simp add: below_MAXVA [symmetric])
  have inv: "lookup (mem s) root a AND PTE_V = 0" using "0.prems"(3) [of 0] by simp
  have nw: "unat a + 4096 < 2 ^ 64" using "0.prems"(2) by simp
  show ?case
  proof (cases rule: mappages_step [OF "0.prems"(1) a inv, where e = "PA2PTE pa OR perm OR PTE_V"])
    case (1 s1)
    then show ?thesis by (simp add: mappages_loop.simps [of root a] mapped_post_def)
  next
    case (2 r s1 s2)
    have "lookup (mem s2) root vb = map_pages (lookup (mem s) root) a pa perm 1 vb" if "vb < MAXVA" for vb
      using map_pages_step [OF nw, of "lookup (mem s2) root" pa perm "lookup (mem s) root" vb 0] 2(6) that
      by simp
    then show ?thesis using 2 by (simp add: mappages_loop.simps [of root a] mapped_post_def Let_def)
  qed
next
  case (Suc n)
  have a: "a < MAXVA" using Suc.prems(2) by (simp add: below_MAXVA [symmetric])
  have inv: "lookup (mem s) root a AND PTE_V = 0" using Suc.prems(3) [of 0] by simp
  have nw: "unat a + 4096 < 2 ^ 64" using Suc.prems(2) by simp
  have ne: "a \<noteq> a + of_nat (4096 * Suc n)"
    using page_offset_inj [of "Suc n" a] Suc.prems(2) by simp
  have a1: "unat (a + 4096) = unat a + 4096" using nw by (simp add: unat_add_no_wrap)
  have fin: "a + of_nat (4096 * Suc n) = (a + 4096) + of_nat (4096 * n)" by (simp add: algebra_simps)
  show ?case
  proof (cases rule: mappages_step [OF Suc.prems(1) a inv, where e = "PA2PTE pa OR perm OR PTE_V"])
    case (1 s1)
    then show ?thesis
      by (intro exI [of _ "- 1"] exI [of _ s1])
        (simp add: mappages_loop.simps [of root a] mapped_post_def exI [of _ 0])
  next
    case (2 r s1 s2)
    have inv1: "lookup (mem s2) root (a + 4096 + of_nat (4096 * i)) AND PTE_V = 0" if i: "i \<le> n" for i
    proof -
      let ?b = "a + 4096 + of_nat (4096 * i)"
      have "unat ?b = unat a + 4096 + 4096 * i"
        using unat_page_nth [of "a + 4096" n i] i a1 Suc.prems(2) by simp
      then have "?b < MAXVA" "page_no ?b \<noteq> page_no a"
        using i Suc.prems(2) unat_page_no [of ?b] unat_page_no [of a]
        by (auto simp: below_MAXVA [symmetric])
      then have "lookup (mem s2) root ?b = lookup (mem s) root ?b" using 2(6) by simp
      moreover have "?b = a + of_nat (4096 * Suc i)" by (simp add: algebra_simps)
      moreover have "lookup (mem s) root (a + of_nat (4096 * Suc i)) AND PTE_V = 0"
        using i by (intro Suc.prems(3)) simp
      ultimately show ?thesis by metis
    qed
    have "pt_ok root s2" using 2(5) by (simp add: grows_def)
    then obtain r' s' where IH: "mappages_loop root (a + 4096) ((a + 4096) + of_nat (4096 * n)) (pa + 4096) perm s2
        = Inr (r', s')" "mapped_post root (a + 4096) (pa + 4096) perm (Suc n) s2 r' s'"
      using Suc.IH [of s2 "a + 4096" "pa + 4096"] inv1 a1 Suc.prems(2) by auto
    obtain k where k: "r' = 0 \<and> k = Suc n \<or> r' = - 1 \<and> k < Suc n \<and> free_pages s' = {}"
        "\<forall>vb<MAXVA. lookup (mem s') root vb = map_pages (lookup (mem s2) root) (a + 4096) (pa + 4096) perm k vb"
      using IH(2) by (auto simp: mapped_post_def)
    have "lookup (mem s') root vb = map_pages (lookup (mem s) root) a pa perm (Suc k) vb" if "vb < MAXVA" for vb
      using map_pages_step [OF nw, of "lookup (mem s2) root" pa perm "lookup (mem s) root" vb k] 2(6) k(2) that
      by simp
    moreover have "grows root s s'"
      using grows_trans [OF 2(5)] IH(2) by (auto simp: mapped_post_def)
    ultimately have "mapped_post root a pa perm (Suc (Suc n)) s r' s'"
      using k(1) by (auto simp: mapped_post_def intro: exI [of _ "Suc k"])
    moreover have "mappages_loop root a (a + of_nat (4096 * Suc n)) pa perm s = Inr (r', s')"
      using 2(1-4) ne IH(1) unfolding fin [symmetric]
      by (simp add: mappages_loop.simps [of root a] Let_def PGSIZE_def del: of_nat_Suc of_nat_mult)
    ultimately show ?thesis by blast
  qed
qed

section \<open>vmunmap\<close>

text \<open>The map \<open>L\<close> with the \<open>n\<close> pages from that of \<open>a\<close> on cleared.\<close>

definition clear_pages :: "(u64 \<Rightarrow> u64) \<Rightarrow> u64 \<Rightarrow> nat \<Rightarrow> u64 \<Rightarrow> u64" where
  "clear_pages L a n vb =
    (if unat (page_no a) \<le> unat (page_no vb) \<and> unat (page_no vb) < unat (page_no a) + n
     then 0 else L vb)"

lemma clear_pages_0 [simp]: "clear_pages L a 0 = L"
  by (auto simp: clear_pages_def fun_eq_iff)

lemma clear_pages_step:
  assumes "unat a + 4096 < 2 ^ 64"
    and L1: "L1 vb = (if page_no vb = page_no a then 0 else L vb)"
  shows "clear_pages L1 (a + 4096) n vb = clear_pages L a (Suc n) vb"
proof (cases "page_no vb = page_no a")
  case True then show ?thesis using L1 by (simp add: clear_pages_def page_no_next [OF assms(1)])
next
  case False
  then have "unat (page_no vb) \<noteq> unat (page_no a)" using unat_inj by blast
  then have "Suc (unat (page_no a)) \<le> unat (page_no vb) \<longleftrightarrow> unat (page_no a) \<le> unat (page_no vb)" by auto
  then show ?thesis using L1 False by (simp add: clear_pages_def page_no_next [OF assms(1)])
qed

text \<open>Freeing a page that is neither free nor a table leaves the tree alone.\<close>

lemma kfree_tree:
  assumes ok: "pt_ok root s" and p: "valid_page (kernel_end s) p" "p \<notin> free_pages s" "p \<notin> tables (mem s) root"
  shows "kfree p s = Inr (kfreed p s)" and "pt_ok root (kfreed p s)"
    and "free_pages (kfreed p s) = insert p (free_pages s)"
    and "tables (mem (kfreed p s)) root = tables (mem s) root"
    and "k \<le> 2 \<Longrightarrow> vb < MAXVA \<Longrightarrow> path (mem (kfreed p s)) root k vb = path (mem s) root k vb"
    and "vb < MAXVA \<Longrightarrow> lookup (mem (kfreed p s)) root vb = lookup (mem s) root vb"
    and "PGROUNDDOWN a \<noteq> p \<Longrightarrow> mem (kfreed p s) a = mem s a"
proof -
  have kok: "kmem_ok s" and wf: "pt_wf (mem s) root" using ok by (simp_all add: pt_ok_def)
  note kf = kfree_page [OF kok p(1,2)]
  show "kfree p s = Inr (kfreed p s)" "free_pages (kfreed p s) = insert p (free_pages s)"
    using kf by simp_all
  have fr: "mem (kfreed p s) a = mem s a" if "PGROUNDDOWN a \<noteq> p" for a
    using kfreed_frame [OF valid_page_aligned [OF p(1)], of s] that by (simp add: same_but_page_def)
  then show "PGROUNDDOWN a \<noteq> p \<Longrightarrow> mem (kfreed p s) a = mem s a" .
  have al: "\<forall>t\<in>tables (mem s) root. page_aligned t" using wf by (simp add: pt_wf_def)
  have eq: "mem (kfreed p s) a = mem s a" if "PGROUNDDOWN a \<in> tables (mem s) root" for a
    using that p(3) by (intro fr) auto
  show t: "tables (mem (kfreed p s)) root = tables (mem s) root"
    by (rule tables_cong(1) [OF al eq])
  show "vb < MAXVA \<Longrightarrow> lookup (mem (kfreed p s)) root vb = lookup (mem s) root vb"
    by (rule tables_cong(3) [OF al eq])
  show "k \<le> 2 \<Longrightarrow> vb < MAXVA \<Longrightarrow> path (mem (kfreed p s)) root k vb = path (mem s) root k vb"
    by (rule path_cong [OF al eq])
  have "pt_wf (mem (kfreed p s)) root" using tables_cong(2) [OF al eq] wf by simp
  then show "pt_ok root (kfreed p s)" using ok kf p(3) by (auto simp: pt_ok_def t)
qed

text \<open>One iteration.\<close>

definition freed :: "bool \<Rightarrow> u64 \<Rightarrow> u64 set" where
  "freed do_free e = (if do_free then {PTE2PA e} else {})"

definition can_free :: "u64 \<Rightarrow> 'a kmem_st_scheme \<Rightarrow> u64 \<Rightarrow> bool" where
  "can_free root s p \<longleftrightarrow>
    valid_page (kernel_end s) p \<and> p \<notin> free_pages s \<and> p \<notin> tables (mem s) root"

lemma vmunmap_step:
  assumes ok: "pt_ok root s" and a: "a < MAXVA" "a < stop"
    and e: "lookup (mem s) root a = e" "e AND PTE_V \<noteq> 0" "PTE_FLAGS e \<noteq> PTE_V"
    and df: "do_free \<Longrightarrow> can_free root s (PTE2PA e)"
  obtains s2 where
    "vmunmap_loop root a stop do_free s = vmunmap_loop root (a + 4096) stop do_free s2"
    "pt_ok root s2" "tables (mem s2) root = tables (mem s) root" "kernel_end s2 = kernel_end s"
    "free_pages s2 = free_pages s \<union> freed do_free e"
    "\<forall>vb<MAXVA. lookup (mem s2) root vb = (if page_no vb = page_no a then 0 else lookup (mem s) root vb)"
    "\<forall>x. PGROUNDDOWN x \<notin> tables (mem s) root \<union> freed do_free e \<longrightarrow> mem s2 x = mem s x"
proof -
  have wf: "pt_wf (mem s) root" using ok by (simp add: pt_ok_def)
  have "e \<noteq> 0" using e(2) by auto
  then obtain t where t: "path (mem s) root 2 a = Some t"
    using e(1) by (auto simp: lookup_def split: option.splits)
  note sl = leaf_slot [OF wf a(1) t]
  have tt: "t \<in> tables (mem s) root" "page_aligned t"
    using path_in_tables [OF t _ a(1)] pt_wf_aligned [OF wf t _ a(1)] by simp_all
  define s1 where "s1 = (if do_free then kfreed (PTE2PA e) s else s)"
  have s1: "(if do_free then kfree (PTE2PA e) s else Inr s) = Inr s1" "pt_ok root s1"
    "tables (mem s1) root = tables (mem s) root" "kernel_end s1 = kernel_end s"
    "free_pages s1 = free_pages s \<union> freed do_free e" "path (mem s1) root 2 a = Some t"
    "\<forall>vb<MAXVA. lookup (mem s1) root vb = lookup (mem s) root vb"
    "\<forall>x. PGROUNDDOWN x \<notin> freed do_free e \<longrightarrow> mem s1 x = mem s x"
    using kfree_tree [of root s "PTE2PA e"] df ok t a(1)
    by (auto simp: s1_def freed_def can_free_def)
  let ?s2 = "s1\<lparr>mem := store64 (pte_addr t 0 a) 0 (mem s1)\<rparr>"
  note st = store_leaf_grows [OF s1(2,6) a(1) refl [of ?s2]]
  have w: "walk root a False s = Inr (pte_addr t 0 a, s)" using walk_lookup [OF wf a(1)] t by simp
  show thesis
  proof (rule that [of ?s2])
    show "vmunmap_loop root a stop do_free s = vmunmap_loop root (a + 4096) stop do_free ?s2"
      using w sl e a(2) s1(1)
      by (cases do_free) (simp_all add: vmunmap_loop.simps [of root a] PGSIZE_def Let_def)
    show "pt_ok root ?s2" using st(1) by (simp add: grows_def)
    show "tables (mem ?s2) root = tables (mem s) root"
      using store_leaf(1) [OF _ s1(6) a(1) refl] s1(2,3) by (simp add: pt_ok_def)
    show "kernel_end ?s2 = kernel_end s" using s1(4) by simp
    show "free_pages ?s2 = free_pages s \<union> freed do_free e" using st(2) s1(5) by simp
    show "\<forall>vb<MAXVA. lookup (mem ?s2) root vb = (if page_no vb = page_no a then 0 else lookup (mem s) root vb)"
      using st(3) s1(7) by simp
    show "\<forall>x. PGROUNDDOWN x \<notin> tables (mem s) root \<union> freed do_free e \<longrightarrow> mem ?s2 x = mem s x"
    proof (intro allI impI)
      fix x assume x: "PGROUNDDOWN x \<notin> tables (mem s) root \<union> freed do_free e"
      then have "PGROUNDDOWN x \<noteq> t" using tt(1) by auto
      then show "mem ?s2 x = mem s x" using store_slot_other [OF tt(2)] s1(8) x by simp
    qed
  qed
qed

text \<open>The physical pages that the \<open>n\<close> pages of addresses from \<open>a\<close> on are mapped to.\<close>

definition range_pages :: "(u64 \<Rightarrow> u64) \<Rightarrow> u64 \<Rightarrow> nat \<Rightarrow> u64 list" where
  "range_pages L a n = map (\<lambda>i. PTE2PA (L (a + of_nat (4096 * i)))) [0..<n]"

lemma range_pages_Suc: "range_pages L a (Suc n) = PTE2PA (L a) # range_pages L (a + 4096) n"
  by (simp add: range_pages_def map_upt_Suc algebra_simps del: upt_Suc)

definition all_leaves :: "(u64 \<Rightarrow> u64) \<Rightarrow> u64 \<Rightarrow> nat \<Rightarrow> bool" where
  "all_leaves L a n \<longleftrightarrow>
    (\<forall>i<n. L (a + of_nat (4096 * i)) AND PTE_V \<noteq> 0 \<and> PTE_FLAGS (L (a + of_nat (4096 * i))) \<noteq> PTE_V)"

lemma all_leaves_Suc:
  "all_leaves L a (Suc n) \<longleftrightarrow> L a AND PTE_V \<noteq> 0 \<and> PTE_FLAGS (L a) \<noteq> PTE_V \<and> all_leaves L (a + 4096) n"
  unfolding all_leaves_def All_less_Suc2 by (simp add: algebra_simps)

definition unmapped_post ::
    "u64 \<Rightarrow> u64 \<Rightarrow> nat \<Rightarrow> bool \<Rightarrow> 'a kmem_st_scheme \<Rightarrow> 'a kmem_st_scheme \<Rightarrow> bool" where
  "unmapped_post root a n do_free s s' \<longleftrightarrow>
    pt_ok root s' \<and> tables (mem s') root = tables (mem s) root \<and> kernel_end s' = kernel_end s \<and>
    free_pages s' = free_pages s \<union> (if do_free then set (range_pages (lookup (mem s) root) a n) else {}) \<and>
    (\<forall>vb<MAXVA. lookup (mem s') root vb = clear_pages (lookup (mem s) root) a n vb)"

lemma later_page:
  assumes "unat a + 4096 * Suc n \<le> 2 ^ 38" and "i < n"
  shows "a + 4096 + of_nat (4096 * i) < MAXVA" and "page_no (a + 4096 + of_nat (4096 * i)) \<noteq> page_no a"
proof -
  let ?b = "a + 4096 + of_nat (4096 * i)"
  have a1: "unat (a + 4096) = unat a + 4096" using assms(1) by (simp add: unat_add_no_wrap)
  have "unat ?b = unat a + 4096 + 4096 * i"
    using unat_page_nth [of "a + 4096" n i] assms a1 by simp
  then show "?b < MAXVA" "page_no ?b \<noteq> page_no a"
    using assms unat_page_no [of ?b] unat_page_no [of a] by (auto simp: below_MAXVA [symmetric])
qed

lemma vmunmap_loop_ok:
  assumes "pt_ok root s" and "unat a + 4096 * n \<le> 2 ^ 38" and "all_leaves (lookup (mem s) root) a n"
    and "do_free \<Longrightarrow> distinct (range_pages (lookup (mem s) root) a n)
      \<and> (\<forall>p\<in>set (range_pages (lookup (mem s) root) a n). can_free root s p)"
  shows "\<exists>s'. vmunmap_loop root a (a + of_nat (4096 * n)) do_free s = Inr s'
    \<and> unmapped_post root a n do_free s s'"
  using assms
proof (induction n arbitrary: a s)
  case 0
  then show ?case
    by (simp add: vmunmap_loop.simps [of root a] unmapped_post_def range_pages_def)
next
  case (Suc n)
  let ?L = "lookup (mem s) root" and ?e = "lookup (mem s) root a" and ?a = "a + 4096"
  let ?stop = "a + of_nat (4096 * Suc n)"
  have a: "a < MAXVA" using Suc.prems(2) by (simp add: below_MAXVA [symmetric])
  have a1: "unat ?a = unat a + 4096" using Suc.prems(2) by (simp add: unat_add_no_wrap)
  have stop: "a < ?stop"
    using unat_page_nth [of a "Suc n" "Suc n"] Suc.prems(2) by (simp add: word_less_nat_alt del: of_nat_Suc of_nat_mult)
  have lv: "?e AND PTE_V \<noteq> 0" "PTE_FLAGS ?e \<noteq> PTE_V" "all_leaves ?L ?a n"
    using Suc.prems(3) by (simp_all add: all_leaves_Suc)
  have df: "do_free \<Longrightarrow> can_free root s (PTE2PA ?e)" using Suc.prems(4) by (simp add: range_pages_Suc)
  obtain s2 where s2:
    "vmunmap_loop root a ?stop do_free s = vmunmap_loop root ?a ?stop do_free s2"
    "pt_ok root s2" "tables (mem s2) root = tables (mem s) root" "kernel_end s2 = kernel_end s"
    "free_pages s2 = free_pages s \<union> freed do_free ?e"
    "\<forall>vb<MAXVA. lookup (mem s2) root vb = (if page_no vb = page_no a then 0 else ?L vb)"
    by (rule vmunmap_step [OF Suc.prems(1) a stop refl lv(1,2), where do_free = do_free])
      (erule df, rule that)
  have L2: "lookup (mem s2) root (?a + of_nat (4096 * i)) = ?L (?a + of_nat (4096 * i))" if "i < n" for i
    using s2(6) [rule_format, OF later_page(1) [OF Suc.prems(2) that]] later_page(2) [OF Suc.prems(2) that]
    by (simp only: if_False)
  have rp: "range_pages (lookup (mem s2) root) ?a n = range_pages ?L ?a n"
    unfolding range_pages_def using L2 by (intro map_cong) auto
  have al: "all_leaves (lookup (mem s2) root) ?a n" using lv(3) unfolding all_leaves_def by (metis L2)
  have cf: "do_free \<Longrightarrow> distinct (range_pages (lookup (mem s2) root) ?a n)
      \<and> (\<forall>p\<in>set (range_pages (lookup (mem s2) root) ?a n). can_free root s2 p)"
    using Suc.prems(4) unfolding rp range_pages_Suc by (auto simp: can_free_def s2(3,4,5) freed_def)
  have b: "unat ?a + 4096 * n \<le> 2 ^ 38" using Suc.prems(2) a1 by simp
  obtain s' where s': "vmunmap_loop root ?a (?a + of_nat (4096 * n)) do_free s2 = Inr s'"
      "unmapped_post root ?a n do_free s2 s'"
    using Suc.IH [OF s2(2) b al cf] by blast
  have nw: "unat a + 4096 < 2 ^ 64" using Suc.prems(2) by simp
  have st: "?stop = ?a + of_nat (4096 * n)" by (simp add: algebra_simps)
  have "unmapped_post root a (Suc n) do_free s s'"
    unfolding unmapped_post_def
  proof (intro conjI allI impI)
    fix vb :: u64 assume vb: "vb < MAXVA"
    then have "lookup (mem s') root vb = clear_pages (lookup (mem s2) root) ?a n vb"
      using s'(2) by (simp add: unmapped_post_def)
    also have "\<dots> = clear_pages ?L a (Suc n) vb" using s2(6) vb by (intro clear_pages_step [OF nw]) simp
    finally show "lookup (mem s') root vb = clear_pages ?L a (Suc n) vb" .
  next
    show "free_pages s' = free_pages s \<union> (if do_free then set (range_pages ?L a (Suc n)) else {})"
      using s'(2) s2(5) by (auto simp: unmapped_post_def rp range_pages_Suc freed_def)
  qed (use s'(2) s2(3,4) in \<open>simp_all add: unmapped_post_def\<close>)
  moreover have "vmunmap_loop root a ?stop do_free s = Inr s'"
    unfolding s2(1) unfolding st by (rule s'(1))
  ultimately show ?case by blast
qed

section \<open>A machine with a root table and two free pages\<close>

definition tree_root :: u64 where "tree_root = 0x805ff000"

definition tree_boot :: kmem_st where
  "tree_boot = kfreed 0x805fe000 (kfreed 0x805fd000 (small_boot\<lparr>kernel_end := 0x805fd000\<rparr>))"

lemma zero_root:
  assumes "page_aligned root" and "root \<noteq> 0" and "\<And>a. PGROUNDDOWN a = root \<Longrightarrow> m a = 0"
  shows "tables m root = {root}" and "pt_wf m root" and "lookup m root va = 0"
proof -
  have z: "load64 m (pte_addr root l vb) = 0" for l vb
  proof -
    have "load64 m (pte_addr root l vb) = load64 (\<lambda>_. 0) (pte_addr root l vb)"
      using assms(3) by (intro load64_slot_cong [OF assms(1)])
    then show ?thesis by (simp add: load64_def word_rcat_def)
  qed
  have p1: "path m root (Suc k) vb = None" for k vb by (induction k) (simp_all add: z)
  have p: "path m root k vb = Some t \<longleftrightarrow> k = 0 \<and> t = root" for k vb t
    by (cases k) (auto simp: p1 simp del: path.simps(2))
  show t: "tables m root = {root}" by (auto simp: tables_def p MAXVA_def intro: exI [of _ 0])
  show "pt_wf m root" unfolding pt_wf_def t using assms(1,2) by (auto simp: p pre_0)
  show "lookup m root va = 0" using p1 [of 1 va] by (simp add: lookup_def numeral_2_eq_2 del: path.simps)
qed

lemma tree_boot_facts:
  "pt_ok tree_root tree_boot" "free_pages tree_boot = {0x805fd000, 0x805fe000}"
  "kernel_end tree_boot = 0x805fd000" "tables (mem tree_boot) tree_root = {tree_root}"
  "lookup (mem tree_boot) tree_root va = 0"
proof -
  let ?s0 = "small_boot\<lparr>kernel_end := 0x805fd000\<rparr>"
  let ?s1 = "kfreed 0x805fd000 ?s0"
  have "kmem_inv ?s0 []" by (simp add: kmem_inv_def small_boot_def)
  then have s0: "kmem_ok ?s0" "free_pages ?s0 = {}"
    using free_pages_eq by (force simp: kmem_ok_def kmem_ready_def small_boot_def)+
  have v: "valid_page 0x805fd000 0x805fd000" "valid_page 0x805fd000 0x805fe000"
    by (simp_all add: valid_page_def PGSIZE_def PHYSTOP_def)
  have s1: "kmem_ok ?s1" "free_pages ?s1 = {0x805fd000}"
    using kfree_page [OF s0(1), of "0x805fd000"] v s0(2) by simp_all
  have s2: "kmem_ok tree_boot" "free_pages tree_boot = {0x805fe000, 0x805fd000}"
    using kfree_page [OF s1(1), of "0x805fe000"] v s1(2) by (simp_all add: tree_boot_def)
  then show "free_pages tree_boot = {0x805fd000, 0x805fe000}" by auto
  show "kernel_end tree_boot = 0x805fd000" by (simp add: tree_boot_def)
  have z: "mem tree_boot a = 0" if "PGROUNDDOWN a = tree_root" for a
    using that kfreed_frame [OF valid_page_aligned [OF v(1)], of ?s0]
      kfreed_frame [OF valid_page_aligned [OF v(2)], of ?s1]
    by (simp add: tree_boot_def same_but_page_def tree_root_def small_boot_def)
  have r: "page_aligned tree_root" "tree_root \<noteq> 0"
    by (simp_all add: tree_root_def page_aligned_def)
  note zr = zero_root [OF r z]
  show "tables (mem tree_boot) tree_root = {tree_root}" "lookup (mem tree_boot) tree_root va = 0"
    using zr by simp_all
  then show "pt_ok tree_root tree_boot" using zr(2) s2 by (simp add: pt_ok_def tree_root_def)
qed

section \<open>A machine with one mapped page\<close>

text \<open>The root, one table per lower level, and a leaf that maps page 0 to a page of memory.\<close>

definition mapped_leaf :: u64 where
  "mapped_leaf = PA2PTE 0x805fc000 OR (PTE_R OR PTE_U OR PTE_V)"

definition mapped_mem2 :: bytemem where
  "mapped_mem2 = store64 (pte_addr 0x805fd000 1 0) (PA2PTE 0x805fe000 OR PTE_V) (zero_page 0x805fe000
     (store64 (pte_addr tree_root 2 0) (PA2PTE 0x805fd000 OR PTE_V) (zero_page 0x805fd000 (\<lambda>_. 0))))"

definition mapped_mem :: "u64 \<Rightarrow> bytemem" where
  "mapped_mem leaf = store64 (pte_addr 0x805fe000 0 0) leaf mapped_mem2"

definition mapped_boot :: kmem_st where
  "mapped_boot = small_boot\<lparr>kernel_end := 0x805fc000, mem := mapped_mem mapped_leaf\<rparr>"

lemma mapped_leaf_bits [simp]:
  "mapped_leaf AND PTE_V \<noteq> 0" "mapped_leaf AND PTE_U \<noteq> 0" "PTE_FLAGS mapped_leaf \<noteq> PTE_V"
  "PTE2PA mapped_leaf = 0x805fc000"
  by (simp_all add: mapped_leaf_def PA2PTE_def PTE2PA_def PTE_FLAGS_def PTE_V_def PTE_R_def PTE_U_def
      drop_bit_eq_div push_bit_eq_mult)

lemma mapped_mem_build:
  obtains m1 where "installs (\<lambda>_. 0) tree_root 0 0 tree_root 0x805fd000 m1"
    "installs m1 tree_root 1 0 0x805fd000 0x805fe000 mapped_mem2"
    "path mapped_mem2 tree_root 2 0 = Some 0x805fe000"
    "tables mapped_mem2 tree_root = {0x805fe000, 0x805fd000, tree_root}"
    "\<forall>va<MAXVA. lookup mapped_mem2 tree_root va = 0"
proof -
  let ?z = "\<lambda>_::u64. 0 :: u8"
  define m1 where "m1 = store64 (pte_addr tree_root 2 0) (PA2PTE 0x805fd000 OR PTE_V) (zero_page 0x805fd000 ?z)"
  have r: "page_aligned tree_root" "tree_root \<noteq> 0" by (simp_all add: tree_root_def page_aligned_def)
  have z: "tables ?z tree_root = {tree_root}" "pt_wf ?z tree_root" "lookup ?z tree_root va = 0" for va
    using zero_root [OF r] by simp_all
  have ne: "0x805fd000 \<noteq> tree_root" "0x805fe000 \<noteq> tree_root" by (simp_all add: tree_root_def)
  have v0: "(0::u64) < MAXVA" by (simp add: MAXVA_def)
  have zz: "load64 ?z p = 0" for p by (simp add: load64_def word_rcat_def)
  have I1: "installs ?z tree_root 0 0 tree_root 0x805fd000 m1"
    by (simp add: installs_def z zz m1_def MAXVA_def page_aligned_def ne)
  have t1: "tables m1 tree_root = {0x805fd000, tree_root}" using installs_tables [OF I1] z by simp
  have p1: "path m1 tree_root 1 0 = Some 0x805fd000" using installs_same(1) [OF I1 _ refl] by (simp add: MAXVA_def)
  have "load64 m1 (pte_addr 0x805fd000 1 0) = 0" by (rule installs_zero_below [OF I1])
  then have I2: "installs m1 tree_root 1 0 0x805fd000 0x805fe000 mapped_mem2"
    using installs_wf [OF I1] t1 p1
    by (simp add: installs_def mapped_mem2_def m1_def MAXVA_def page_aligned_def ne)
  have t2: "tables mapped_mem2 tree_root = {0x805fe000, 0x805fd000, tree_root}"
    using installs_tables [OF I2] t1 by simp
  have p2: "path mapped_mem2 tree_root 2 0 = Some 0x805fe000"
    using installs_same(1) [OF I2 v0 refl] by (simp only: Suc_1)
  show thesis
    by (rule that [OF I1 I2 p2 t2])
      (use installs_lookup [OF I2] installs_lookup [OF I1] z(3) in simp)
qed

lemma mapped_mem_facts:
  "pt_wf (mapped_mem leaf) tree_root"
  "tables (mapped_mem leaf) tree_root = {tree_root, 0x805fd000, 0x805fe000}"
  "va < MAXVA \<Longrightarrow> lookup (mapped_mem leaf) tree_root va = (if page_no va = 0 then leaf else 0)"
proof -
  obtain m1 where b: "installs (\<lambda>_. 0) tree_root 0 0 tree_root 0x805fd000 m1"
    "installs m1 tree_root 1 0 0x805fd000 0x805fe000 mapped_mem2"
    "path mapped_mem2 tree_root 2 0 = Some 0x805fe000"
    "tables mapped_mem2 tree_root = {0x805fe000, 0x805fd000, tree_root}"
    "\<forall>va<MAXVA. lookup mapped_mem2 tree_root va = 0"
    by (rule mapped_mem_build)
  have v0: "(0::u64) < MAXVA" by (simp add: MAXVA_def)
  note sl = store_leaf [OF installs_wf [OF b(2)] b(3) v0 mapped_mem_def [of leaf]]
  show "pt_wf (mapped_mem leaf) tree_root" by (rule sl(2))
  show "tables (mapped_mem leaf) tree_root = {tree_root, 0x805fd000, 0x805fe000}"
    using sl(1) b(4) by auto
  show "va < MAXVA \<Longrightarrow> lookup (mapped_mem leaf) tree_root va = (if page_no va = 0 then leaf else 0)"
    using sl(4) [of va] b(5) by (simp add: page_no_def)
qed

lemma mapped_boot_facts:
  "pt_ok tree_root mapped_boot" "kernel_end mapped_boot = 0x805fc000" "free_pages mapped_boot = {}"
  "tables (mem mapped_boot) tree_root = {tree_root, 0x805fd000, 0x805fe000}"
  "va < MAXVA \<Longrightarrow> lookup (mem mapped_boot) tree_root va = (if page_no va = 0 then mapped_leaf else 0)"
  "lookup (mem mapped_boot) tree_root 0 = mapped_leaf"
proof -
  have m: "mem mapped_boot = mapped_mem mapped_leaf" by (simp add: mapped_boot_def)
  show "kernel_end mapped_boot = 0x805fc000" by (simp add: mapped_boot_def)
  show "tables (mem mapped_boot) tree_root = {tree_root, 0x805fd000, 0x805fe000}"
    unfolding m by (rule mapped_mem_facts(2))
  show "va < MAXVA \<Longrightarrow>
    lookup (mem mapped_boot) tree_root va = (if page_no va = 0 then mapped_leaf else 0)"
    unfolding m by (rule mapped_mem_facts(3))
  have "(0::u64) < MAXVA" by (simp add: MAXVA_def)
  then show "lookup (mem mapped_boot) tree_root 0 = mapped_leaf"
    unfolding m using mapped_mem_facts(3) [of 0 mapped_leaf] by (simp add: page_no_def)
  have "kmem_inv mapped_boot []" by (simp add: kmem_inv_def mapped_boot_def small_boot_def)
  then have k: "kmem_ok mapped_boot" "free_pages mapped_boot = {}"
    using free_pages_eq by (force simp: kmem_ok_def kmem_ready_def mapped_boot_def small_boot_def)+
  show "free_pages mapped_boot = {}" by (rule k(2))
  show "pt_ok tree_root mapped_boot" using k mapped_mem_facts(1) by (simp add: pt_ok_def m)
qed

section \<open>Properties\<close>

text \<open>The number of pages that \<open>[va, va + sz)\<close> touches.\<close>

definition pages_touched :: "u64 \<Rightarrow> u64 \<Rightarrow> nat" where
  "pages_touched va sz = (unat va + unat sz - 1) div 4096 - unat va div 4096 + 1"

lemma page_no_down: "page_no (PGROUNDDOWN a) = page_no a"
  by (rule unat_inj) (simp add: unat_page_no unat_PGROUNDDOWN)

lemma map_pages_down: "map_pages L (PGROUNDDOWN a) = map_pages L a"
  by (simp add: map_pages_def page_no_down fun_eq_iff)

text \<open>
  C6: \<open>mappages\<close> on a range of unmapped pages either returns 0 and has set exactly the entries of
  the pages that the range touches, each to its physical page, permission and valid bits, or
  returns -1 because no page was left for a table, with a prefix of the range mapped. Every other
  address keeps its entry, the tables stay a tree apart from the free pages, and no memory outside
  the tables and the pages taken for them changes.
\<close>

theorem mappages_maps:
  assumes "pt_ok root s" and "sz \<noteq> 0" and "unat va + unat sz \<le> 2 ^ 38"
    and "\<forall>vb<MAXVA. unat va div 4096 \<le> unat (page_no vb)
      \<and> unat (page_no vb) < unat va div 4096 + pages_touched va sz \<longrightarrow> lookup (mem s) root vb AND PTE_V = 0"
  shows "\<exists>r s' k. mappages root va sz pa perm s = Inr (r, s') \<and> grows root s s'
    \<and> (r = 0 \<and> k = pages_touched va sz \<or> r = - 1 \<and> k < pages_touched va sz \<and> free_pages s' = {})
    \<and> (\<forall>vb<MAXVA. lookup (mem s') root vb = map_pages (lookup (mem s) root) va pa perm k vb)"
proof -
  have sz: "0 < unat sz" using assms(2) by (simp add: unat_gt_0)
  let ?a = "PGROUNDDOWN va" and ?f = "PGROUNDDOWN (va + sz - 1)"
  define n where "n = pages_touched va sz - 1"
  have n: "pages_touched va sz = Suc n" by (simp add: n_def pages_touched_def)
  have e: "va + sz - 1 = va + (sz - 1)" by simp
  have s1: "unat (sz - 1) = unat sz - 1" using assms(2) by (simp add: unat_minus_one)
  then have "unat (va + (sz - 1)) = unat va + unat (sz - 1)"
    using assms(3) by (intro unat_add_no_wrap) simp
  then have "unat (va + sz - 1) = unat va + unat sz - 1" unfolding e using s1 sz by simp
  then have uf: "unat ?f = 4096 * ((unat va + unat sz - 1) div 4096)" by (simp add: unat_PGROUNDDOWN)
  have ua: "unat ?a = 4096 * (unat va div 4096)" by (rule unat_PGROUNDDOWN)
  have le: "unat va div 4096 \<le> (unat va + unat sz - 1) div 4096" using sz by (intro div_le_mono) linarith
  then have sum: "unat ?a + 4096 * n = unat ?f"
    by (simp add: ua uf n_def pages_touched_def diff_mult_distrib2)
  have "unat ?f \<le> unat va + unat sz - 1" unfolding uf by simp
  then have b: "unat ?a + 4096 * n < 2 ^ 38" using sum assms(3) sz by linarith
  then have f: "?f = ?a + of_nat (4096 * n)"
    using unat_page_nth [of ?a n n] sum by (intro unat_inj) simp
  have inv: "lookup (mem s) root (?a + of_nat (4096 * i)) AND PTE_V = 0" if i: "i \<le> n" for i
  proof -
    have "unat (?a + of_nat (4096 * i)) = unat ?a + 4096 * i"
      using unat_page_nth [of ?a n i] b i by simp
    moreover from this have "unat (page_no (?a + of_nat (4096 * i))) = unat va div 4096 + i"
      by (simp add: unat_page_no ua)
    ultimately show ?thesis using assms(4) i b n by (simp add: below_MAXVA [symmetric])
  qed
  obtain r s' where "mappages_loop root ?a (?a + of_nat (4096 * n)) pa perm s = Inr (r, s')"
      "mapped_post root ?a pa perm (Suc n) s r s'"
    using mappages_loop_ok [OF assms(1) b inv] by blast
  then show ?thesis
    unfolding mappages_def Let_def f n mapped_post_def map_pages_down by auto
qed

lemma mappages_maps_witness:
  "\<exists>r s' k. mappages tree_root 0x1ffc 8 0x80200000 (PTE_R OR PTE_U) tree_boot = Inr (r, s')
    \<and> (r = 0 \<and> k = 2 \<or> r = - 1 \<and> k < 2 \<and> free_pages s' = {})
    \<and> (\<forall>vb<MAXVA. lookup (mem s') tree_root vb
        = map_pages (\<lambda>_. 0) 0x1ffc 0x80200000 (PTE_R OR PTE_U) k vb)"
proof -
  have p: "pages_touched 0x1ffc 8 = 2" by (simp add: pages_touched_def)
  have z: "lookup (mem tree_boot) tree_root = (\<lambda>_. 0)" using tree_boot_facts(5) by blast
  show ?thesis
    using mappages_maps [OF tree_boot_facts(1), of 8 "0x1ffc" "0x80200000" "PTE_R OR PTE_U"]
    unfolding p z by auto
qed

text \<open>
  \<open>mappages\<close> never overwrites a mapping: if the first page of the range has a valid entry, it
  panics with \<open>remap\<close>.
\<close>

theorem mappages_remap_panics:
  assumes "pt_ok root s" and "va < MAXVA" and "lookup (mem s) root va AND PTE_V \<noteq> 0"
  shows "mappages root va sz pa perm s = Inl (Panic ''remap'')"
proof -
  let ?a = "PGROUNDDOWN va"
  have wf: "pt_wf (mem s) root" using assms(1) by (simp add: pt_ok_def)
  have a: "?a < MAXVA" using PGROUNDDOWN_le [of va] assms(2) by (rule le_less_trans)
  have "pre 3 ?a = pre 3 va" by (simp add: pre_3 page_no_down)
  then have p: "pre 2 ?a = pre 2 va" "PX 0 ?a = PX 0 va"
    using pre_Suc_eq [of 2 ?a va] by (simp_all add: numeral_3_eq_3 numeral_2_eq_2)
  obtain t where t: "path (mem s) root 2 va = Some t"
    using assms(3) by (auto simp: lookup_def split: option.splits)
  then have ta: "path (mem s) root 2 ?a = Some t"
    using path_pre [of 2 ?a va "mem s" root] a assms(2) p(1) by simp
  have "pte_addr t 0 ?a = pte_addr t 0 va" using p(2) by (simp add: pte_addr_def)
  then show ?thesis
    using walk_existing [OF wf a ta, of True] leaf_slot [OF wf assms(2) t] assms(3)
    by (simp add: mappages_def mappages_loop.simps [of root ?a] Let_def)
qed

lemma mappages_remap_panics_witness:
  "mappages tree_root 0 0x1000 0x80300000 PTE_R mapped_boot = Inl (Panic ''remap'')"
  by (rule mappages_remap_panics [OF mapped_boot_facts(1)])
    (simp_all add: mapped_boot_facts mapped_leaf_bits MAXVA_def)

text \<open>
  C21: \<open>vmunmap\<close> on a range of leaf mappings clears exactly their entries and, with \<open>do_free\<close>, gives
  exactly the pages they mapped back to the allocator.
\<close>

theorem vmunmap_unmaps:
  assumes "pt_ok root s" and "va mod PGSIZE = 0" and "unat va + 4096 * unat npages \<le> 2 ^ 38"
    and "all_leaves (lookup (mem s) root) va (unat npages)"
    and "do_free \<longrightarrow> distinct (range_pages (lookup (mem s) root) va (unat npages))
      \<and> (\<forall>p\<in>set (range_pages (lookup (mem s) root) va (unat npages)). can_free root s p)"
  shows "\<exists>s'. vmunmap root va npages do_free s = Inr s' \<and> pt_ok root s'
    \<and> tables (mem s') root = tables (mem s) root
    \<and> free_pages s' = free_pages s
        \<union> (if do_free then set (range_pages (lookup (mem s) root) va (unat npages)) else {})
    \<and> (\<forall>vb<MAXVA. lookup (mem s') root vb = clear_pages (lookup (mem s) root) va (unat npages) vb)"
proof -
  have "npages * PGSIZE = of_nat (4096 * unat npages)" by (simp add: PGSIZE_def)
  then have "vmunmap root va npages do_free s
      = vmunmap_loop root va (va + of_nat (4096 * unat npages)) do_free s"
    using assms(2) by (simp only: vmunmap_def simp_thms if_False)
  then show ?thesis
    using vmunmap_loop_ok [OF assms(1,3,4), of do_free] assms(5)
    by (simp only: unmapped_post_def) blast
qed

lemma vmunmap_unmaps_witness:
  "\<exists>s'. vmunmap tree_root 0 1 True mapped_boot = Inr s' \<and> free_pages s' = {0x805fc000}
    \<and> lookup (mem s') tree_root 0 = 0"
proof -
  have r: "range_pages (lookup (mem mapped_boot) tree_root) 0 1 = [0x805fc000]"
    by (simp add: range_pages_def mapped_boot_facts mapped_leaf_bits)
  have l: "all_leaves (lookup (mem mapped_boot) tree_root) 0 1"
    by (simp add: all_leaves_def mapped_boot_facts mapped_leaf_bits)
  have c: "can_free tree_root mapped_boot 0x805fc000"
    by (simp add: can_free_def mapped_boot_facts valid_page_def PGSIZE_def PHYSTOP_def)
      (simp add: tree_root_def)
  have "clear_pages L 0 1 0 = 0" for L by (simp add: clear_pages_def)
  then show ?thesis
    using vmunmap_unmaps [OF mapped_boot_facts(1), of 0 1 True] r l c mapped_boot_facts(3)
    by (auto simp: MAXVA_def)
qed

section \<open>Translation\<close>

text \<open>
  \<open>walkaddr\<close> is the lookup of a user page: it returns the physical page of the leaf entry when that
  entry is valid and open to user mode, 0 otherwise and for every address from \<open>MAXVA\<close> on, and changes nothing.
\<close>

theorem walkaddr_lookup:
  assumes "pt_wf (mem s) root"
  shows "walkaddr root va s =
    Inr (if va < MAXVA \<and> lookup (mem s) root va AND PTE_V \<noteq> 0 \<and> lookup (mem s) root va AND PTE_U \<noteq> 0
         then PTE2PA (lookup (mem s) root va) else 0, s)"
proof (cases "va < MAXVA")
  case True
  then have nle: "\<not> MAXVA \<le> va" by simp
  show ?thesis
  proof (cases "path (mem s) root 2 va")
    case None
    then have "lookup (mem s) root va = 0" by (simp add: lookup_def)
    then show ?thesis using True nle None walk_lookup [OF assms True] by (simp add: walkaddr_def)
  next
    case (Some t)
    then show ?thesis
      using True nle walk_lookup [OF assms True] leaf_slot [OF assms True Some]
      by (simp add: walkaddr_def)
  qed
next
  case False
  then have "MAXVA \<le> va" by simp
  with False show ?thesis by (simp only: walkaddr_def if_True if_False simp_thms)
qed

lemma walkaddr_lookup_witness:
  "walkaddr tree_root 0 mapped_boot = Inr (0x805fc000, mapped_boot)
   \<and> walkaddr tree_root 0x1000 mapped_boot = Inr (0, mapped_boot)"
  using walkaddr_lookup [of mapped_boot tree_root 0] walkaddr_lookup [of mapped_boot tree_root "0x1000"]
    mapped_boot_facts(1)
  by (simp add: pt_ok_def mapped_boot_facts mapped_leaf_bits MAXVA_def page_no_def)

end
