(* ===== verification/Proc.thy ===== *)
theory Proc imports VmMap begin

text \<open>
  kernel/proc.c, first part: the process table, process ids, sleeping and waking, the scheduler
  and \<open>kill\<close>; from kernel/vm.c the copies to and from the memory of the running process. A
  context switch is a boundary: a routine that calls \<open>sched\<close> is modelled by the code up to the switch and the
  code after it.
\<close>

section \<open>State\<close>

datatype procstate = UNUSED | SLEEPING | RUNNABLE | RUNNING | ZOMBIE

text \<open>The two registers of \<open>struct context\<close> that the kernel sets itself.\<close>

record ctx =
  ctx_ra :: u64
  ctx_sp :: u64

text \<open>
  \<open>struct proc\<close> of libs/proc.h without its lock, which is \<open>ProcLock i\<close> of the core state. Processes are named by
  their index in the table, open files by their index in the file table.
\<close>

record proc =
  pstate :: procstate
  parent :: "nat option"
  pchan :: chan
  killed :: bool
  xstate :: int
  pid :: int
  kstack :: u64
  psz :: u64
  pagetable :: u64
  kpagetable :: u64
  trapframe :: u64
  pcontext :: ctx
  ofile :: "nat \<Rightarrow> nat option"
  cwd :: "eptr option"
  pname :: "u8 list"
  tmask :: u32

record proc_st = vm_st +
  procs :: "nat \<Rightarrow> proc"
  initproc :: "nat option"
  nextpid :: int

definition upd_proc :: "nat \<Rightarrow> (proc \<Rightarrow> proc) \<Rightarrow> 'a proc_st_scheme \<Rightarrow> 'a proc_st_scheme" where
  "upd_proc i f s = s\<lparr>procs := (procs s)(i := f (procs s i))\<rparr>"

text \<open>\<open>myproc()\<close> followed by an access to the process: a null pointer faults in the kernel.\<close>

definition curproc :: "'a proc_st_scheme \<Rightarrow> (nat \<times> 'a proc_st_scheme) kres" where
  "curproc s =
    kbind (myproc (core s)) (\<lambda>(p, c).
      case p of None \<Rightarrow> Inl (Panic ''kerneltrap'') | Some i \<Rightarrow> Inr (i, s\<lparr>core := c\<rparr>))"

section \<open>Process ids\<close>

definition procinit :: "'a proc_st_scheme \<Rightarrow> 'a proc_st_scheme" where
  "procinit s =
    (let s = s\<lparr>core := initlock PidLock (core s)\<rparr>;
         s = s\<lparr>core := fold (\<lambda>i. initlock (ProcLock i)) [0..<NPROC] (core s)\<rparr>
     in s\<lparr>core := (core s)\<lparr>cpus := (\<lambda>h. if h < NCPU then \<lparr>cproc = None, noff = 0, intena = False\<rparr>
            else cpus (core s) h)\<rparr>\<rparr>)"

definition allocpid :: "'a proc_st_scheme \<Rightarrow> (int \<times> 'a proc_st_scheme) kres" where
  "allocpid s =
    kbind (lock PidLock s) (\<lambda>s.
      let pid = nextpid s;
          s = s\<lparr>nextpid := nextpid s + 1\<rparr>
      in kbind (unlock PidLock s) (\<lambda>s. Inr (pid, s)))"

definition procnum :: "'a proc_st_scheme \<Rightarrow> u64" where
  "procnum s = of_nat (length (filter (\<lambda>i. pstate (procs s i) \<noteq> UNUSED) [0..<NPROC]))"

section \<open>Switching\<close>

text \<open>\<open>sched\<close> up to \<open>swtch\<close>: its checks, and the \<open>intena\<close> it keeps on the stack.\<close>

definition sched :: "'a proc_st_scheme \<Rightarrow> (bool \<times> 'a proc_st_scheme) kres" where
  "sched s =
    kbind (curproc s) (\<lambda>(p, s).
      if \<not> holding (ProcLock p) (core s) then Inl (Panic ''sched p->lock'')
      else if noff (mycpu (core s)) \<noteq> 1 then Inl (Panic ''sched locks'')
      else if pstate (procs s p) = RUNNING then Inl (Panic ''sched running'')
      else if intr_get (core s) then Inl (Panic ''sched interruptible'')
      else Inr (intena (mycpu (core s)), s))"

definition sched_return :: "bool \<Rightarrow> 'a proc_st_scheme \<Rightarrow> 'a proc_st_scheme" where
  "sched_return ie s = s\<lparr>core := set_mycpu ((mycpu (core s))\<lparr>intena := ie\<rparr>) (core s)\<rparr>"

text \<open>
  \<open>sleep(chan, lk)\<close> before and after the switch; \<open>p\<close> is the process.
\<close>

definition sleep_enter :: "chan \<Rightarrow> lockid \<Rightarrow> 'a proc_st_scheme \<Rightarrow> (bool \<times> 'a proc_st_scheme) kres" where
  "sleep_enter ch lk s =
    kbind (curproc s) (\<lambda>(p, s).
    kbind (if lk \<noteq> ProcLock p
           then kbind (lock (ProcLock p) s) (\<lambda>s. unlock lk s)
           else Inr s) (\<lambda>s.
      let s = upd_proc p (\<lambda>q. q\<lparr>pchan := ch\<rparr>) s;
          s = upd_proc p (\<lambda>q. q\<lparr>pstate := SLEEPING\<rparr>) s
      in sched s))"

definition sleep_leave :: "nat \<Rightarrow> bool \<Rightarrow> lockid \<Rightarrow> 'a proc_st_scheme \<Rightarrow> 'a proc_st_scheme kres" where
  "sleep_leave p ie lk s =
    (let s = sched_return ie s;
         s = upd_proc p (\<lambda>q. q\<lparr>pchan := ChNone\<rparr>) s
     in if lk \<noteq> ProcLock p
        then kbind (unlock (ProcLock p) s) (\<lambda>s. lock lk s)
        else Inr s)"

definition yield_enter :: "'a proc_st_scheme \<Rightarrow> (bool \<times> 'a proc_st_scheme) kres" where
  "yield_enter s =
    kbind (curproc s) (\<lambda>(p, s).
    kbind (lock (ProcLock p) s) (\<lambda>s.
      sched (upd_proc p (\<lambda>q. q\<lparr>pstate := RUNNABLE\<rparr>) s)))"

definition yield_leave :: "nat \<Rightarrow> bool \<Rightarrow> 'a proc_st_scheme \<Rightarrow> 'a proc_st_scheme kres" where
  "yield_leave p ie s = unlock (ProcLock p) (sched_return ie s)"

section \<open>Waking and killing\<close>

fun wakeup_loop :: "nat list \<Rightarrow> chan \<Rightarrow> 'a proc_st_scheme \<Rightarrow> 'a proc_st_scheme kres" where
  "wakeup_loop [] ch s = Inr s"
| "wakeup_loop (i # is) ch s =
    kbind (lock (ProcLock i) s) (\<lambda>s.
      let s = (if pstate (procs s i) = SLEEPING \<and> pchan (procs s i) = ch
               then upd_proc i (\<lambda>q. q\<lparr>pstate := RUNNABLE\<rparr>) s else s)
      in kbind (unlock (ProcLock i) s) (wakeup_loop is ch))"

definition wakeup :: "chan \<Rightarrow> 'a proc_st_scheme \<Rightarrow> 'a proc_st_scheme kres" where
  "wakeup ch s = wakeup_loop [0..<NPROC] ch s"

text \<open>\<open>wakeup1(p)\<close>: the channel that \<open>wait\<close> sleeps on is the process itself.\<close>

definition wakeup1 :: "nat \<Rightarrow> 'a proc_st_scheme \<Rightarrow> 'a proc_st_scheme kres" where
  "wakeup1 p s =
    (if \<not> holding (ProcLock p) (core s) then Inl (Panic ''wakeup1'')
     else if pchan (procs s p) = ChProc p \<and> pstate (procs s p) = SLEEPING
     then Inr (upd_proc p (\<lambda>q. q\<lparr>pstate := RUNNABLE\<rparr>) s)
     else Inr s)"

fun kill_loop :: "nat list \<Rightarrow> int \<Rightarrow> 'a proc_st_scheme \<Rightarrow> (int \<times> 'a proc_st_scheme) kres" where
  "kill_loop [] k s = Inr (- 1, s)"
| "kill_loop (i # is) k s =
    kbind (lock (ProcLock i) s) (\<lambda>s.
      if pid (procs s i) = k then
        let s = upd_proc i (\<lambda>q. q\<lparr>killed := True\<rparr>) s;
            s = (if pstate (procs s i) = SLEEPING
                 then upd_proc i (\<lambda>q. q\<lparr>pstate := RUNNABLE\<rparr>) s else s)
        in kbind (unlock (ProcLock i) s) (\<lambda>s. Inr (0, s))
      else kbind (unlock (ProcLock i) s) (kill_loop is k))"

definition kill :: "int \<Rightarrow> 'a proc_st_scheme \<Rightarrow> (int \<times> 'a proc_st_scheme) kres" where
  "kill k s = kill_loop [0..<NPROC] k s"

section \<open>The scheduler\<close>

text \<open>
  One iteration of the inner loop of \<open>scheduler\<close> for process \<open>i\<close>: \<open>True\<close> when it switches to the
  process. \<open>scheduler_return\<close> is the code after the switch back.
\<close>

definition set_proc_ptr :: "nat option \<Rightarrow> kcore \<Rightarrow> kcore" where
  "set_proc_ptr p c = set_mycpu ((mycpu c)\<lparr>cproc := p\<rparr>) c"

definition scheduler_try :: "nat \<Rightarrow> 'a proc_st_scheme \<Rightarrow> (bool \<times> 'a proc_st_scheme) kres" where
  "scheduler_try i s =
    kbind (lock (ProcLock i) s) (\<lambda>s.
      if pstate (procs s i) = RUNNABLE then
        let s = upd_proc i (\<lambda>q. q\<lparr>pstate := RUNNING\<rparr>) s;
            s = s\<lparr>core := set_proc_ptr (Some i) (core s)\<rparr>;
            s = s\<lparr>satp := (satp s)(hart (core s) := MAKE_SATP (kpagetable (procs s i)))\<rparr>
        in Inr (True, s)
      else kbind (unlock (ProcLock i) s) (\<lambda>s. Inr (False, s)))"

definition scheduler_return :: "nat \<Rightarrow> 'a proc_st_scheme \<Rightarrow> 'a proc_st_scheme kres" where
  "scheduler_return i s =
    (let s = s\<lparr>satp := (satp s)(hart (core s) := MAKE_SATP (kernel_pagetable s))\<rparr>;
         s = s\<lparr>core := set_proc_ptr None (core s)\<rparr>
     in unlock (ProcLock i) s)"

text \<open>
  The scan over the rest of the table: the process it switches to, if any. At the end of the
  table, and at the top of the outer loop, interrupts are turned on.
\<close>

fun scheduler_scan :: "nat list \<Rightarrow> 'a proc_st_scheme \<Rightarrow> (nat option \<times> 'a proc_st_scheme) kres" where
  "scheduler_scan [] s = Inr (None, s\<lparr>core := intr_on (core s)\<rparr>)"
| "scheduler_scan (i # is) s =
    kbind (scheduler_try i s) (\<lambda>(found, s).
      if found then Inr (Some i, s) else scheduler_scan is s)"

definition scheduler :: "'a proc_st_scheme \<Rightarrow> (nat option \<times> 'a proc_st_scheme) kres" where
  "scheduler s =
    (let s = s\<lparr>core := set_proc_ptr None (core s)\<rparr>;
         s = s\<lparr>core := intr_on (core s)\<rparr>
     in scheduler_scan [0..<NPROC] s)"

section \<open>Closed forms\<close>

lemma upd_proc_simps [simp]:
  "core (upd_proc i f s) = core s" "mem (upd_proc i f s) = mem s"
  "procs (upd_proc i f s) = (procs s)(i := f (procs s i))"
  by (simp_all add: upd_proc_def)

lemma core_update_upd_proc [simp]: "(upd_proc i f s)\<lparr>core := c\<rparr> = upd_proc i f (s\<lparr>core := c\<rparr>)"
  by (simp add: upd_proc_def)

lemma upd_proc_fix: "f (procs s i) = procs s i \<Longrightarrow> upd_proc i f s = s"
  by (simp add: upd_proc_def)

lemma upd_proc_cong: "f (procs s i) = g (procs s i) \<Longrightarrow> upd_proc i f s = upd_proc i g s"
  by (simp add: upd_proc_def)

lemma upd_proc_twice [simp]: "upd_proc i f (upd_proc i g s) = upd_proc i (\<lambda>q. f (g q)) s"
  by (simp add: upd_proc_def)

lemma curproc_eq [lock_simps]:
  "core_ok (core s) \<Longrightarrow> cproc (mycpu (core s)) = Some p \<Longrightarrow>
   curproc s = Inr (p, s\<lparr>core := settle (core s)\<rparr>)"
  by (simp add: curproc_def lock_simps)

lemma curproc_locked [lock_simps]:
  assumes "core s = acq l c" and "core_ok c" and "cproc (mycpu c) = Some p"
  shows "curproc s = Inr (p, s)"
proof -
  have "s\<lparr>core := core s\<rparr> = s" by simp
  moreover have "settle (core s) = core s" using assms by simp
  ultimately show ?thesis using curproc_eq [of s p] assms by simp
qed

text \<open>What \<open>wakeup\<close> does to one process.\<close>

definition woken :: "chan \<Rightarrow> proc \<Rightarrow> proc" where
  "woken ch q = (if pstate q = SLEEPING \<and> pchan q = ch then q\<lparr>pstate := RUNNABLE\<rparr> else q)"

lemma woken_fix: "\<not> (pstate q = SLEEPING \<and> pchan q = ch) \<Longrightarrow> woken ch q = q"
  by (auto simp: woken_def)

lemma wakeup_loop_eq:
  assumes "core_ok (core s)" and "\<forall>i\<in>set is. lockfree (ProcLock i) (core s)" and "distinct is"
  shows "wakeup_loop is ch s = Inr (s\<lparr>core := (if is = [] then core s else settle (core s)),
    procs := (\<lambda>i. if i \<in> set is then woken ch (procs s i) else procs s i)\<rparr>)"
  using assms
proof (induction "is" arbitrary: s)
  case (Cons i "is")
  let ?s = "upd_proc i (woken ch) (s\<lparr>core := settle (core s)\<rparr>)"
  have "(if pstate (procs s i) = SLEEPING \<and> pchan (procs s i) = ch
      then upd_proc i (\<lambda>q. q\<lparr>pstate := RUNNABLE\<rparr>) u else u) = upd_proc i (woken ch) u"
    if "procs u = procs s" for u :: "'a proc_st_scheme"
    using that by (auto simp: woken_def upd_proc_def)
  then have "wakeup_loop (i # is) ch s = wakeup_loop is ch ?s"
    using Cons.prems by (simp add: lock_simps)
  also have "\<dots> = Inr (?s\<lparr>core := (if is = [] then core ?s else settle (core ?s)),
      procs := (\<lambda>j. if j \<in> set is then woken ch (procs ?s j) else procs ?s j)\<rparr>)"
    by (rule Cons.IH) (use Cons.prems in simp_all)
  also have "\<dots> = Inr (s\<lparr>core := (if i # is = [] then core s else settle (core s)),
      procs := (\<lambda>j. if j \<in> set (i # is) then woken ch (procs s j) else procs s j)\<rparr>)"
    using Cons.prems(3) by (auto simp: upd_proc_def fun_eq_iff)
  finally show ?case .
qed simp

text \<open>
  \<open>wakeup\<close> makes every process that sleeps on the channel runnable, changes nothing
  else of the process table, and leaves locks and interrupts as they were.
\<close>

theorem wakeup_wakes:
  assumes "core_ok (core s)" and "\<forall>i<NPROC. lockfree (ProcLock i) (core s)"
  shows "wakeup ch s = Inr (s\<lparr>core := settle (core s),
    procs := (\<lambda>i. if i < NPROC \<and> pstate (procs s i) = SLEEPING \<and> pchan (procs s i) = ch
      then (procs s i)\<lparr>pstate := RUNNABLE\<rparr> else procs s i)\<rparr>)"
  using wakeup_loop_eq [of s "[0..<NPROC]" ch] assms
  by (simp add: wakeup_def NPROC_def woken_def if_if_eq_conj cong: if_cong)

lemma kill_loop_eq:
  assumes "core_ok (core s)" and "\<forall>i\<in>set is. lockfree (ProcLock i) (core s)"
  shows "kill_loop is k s = Inr (case find (\<lambda>i. pid (procs s i) = k) is of
      None \<Rightarrow> (- 1, s\<lparr>core := (if is = [] then core s else settle (core s))\<rparr>)
    | Some i \<Rightarrow> (0, upd_proc i (\<lambda>q. q\<lparr>killed := True,
        pstate := (if pstate q = SLEEPING then RUNNABLE else pstate q)\<rparr>) (s\<lparr>core := settle (core s)\<rparr>)))"
  using assms
proof (induction "is" arbitrary: s)
  case (Cons i "is")
  show ?case
  proof (cases "pid (procs s i) = k")
    case True
    then show ?thesis using Cons.prems by (auto simp: lock_simps upd_proc_def)
  next
    case False
    have "kill_loop (i # is) k s = kill_loop is k (s\<lparr>core := settle (core s)\<rparr>)"
      using Cons.prems False by (simp add: lock_simps)
    then show ?thesis using Cons.IH [of "s\<lparr>core := settle (core s)\<rparr>"] Cons.prems False
      by (simp split: option.splits)
  qed
qed simp

text \<open>
  \<open>kill\<close> marks the first process of the table that has the pid as killed, and if it was
  asleep makes it runnable; without such a process it returns -1 and changes no process.
\<close>

theorem kill_marks:
  assumes "core_ok (core s)" and "\<forall>i<NPROC. lockfree (ProcLock i) (core s)"
  shows "kill k s = Inr (case find (\<lambda>i. pid (procs s i) = k) [0..<NPROC] of
      None \<Rightarrow> (- 1, s\<lparr>core := settle (core s)\<rparr>)
    | Some i \<Rightarrow> (0, upd_proc i (\<lambda>q. q\<lparr>killed := True,
        pstate := (if pstate q = SLEEPING then RUNNABLE else pstate q)\<rparr>) (s\<lparr>core := settle (core s)\<rparr>)))"
  using kill_loop_eq [of s "[0..<NPROC]" k] assms by (simp add: kill_def NPROC_def)

section \<open>The sleep protocol\<close>

lemma sched_ok:
  assumes "core s = acq (ProcLock p) c" and "core_ok c" and "noff (mycpu c) = 0"
    and "cproc (mycpu c) = Some p" and "pstate (procs s p) \<noteq> RUNNING"
  shows "sched s = Inr (intena (mycpu (core s)), s)"
proof -
  have "curproc s = Inr (p, s)" using assms(1,2,4) by (rule curproc_locked)
  then show ?thesis using assms by (simp add: sched_def)
qed

lemma sleep_enter_eq:
  assumes "idle c" and "noff (mycpu c) = 0" and "cproc (mycpu c) = Some p" and "core s = acq lk c"
  shows "\<exists>ie. sleep_enter ch lk s = Inr (ie, upd_proc p (\<lambda>q. q\<lparr>pchan := ch, pstate := SLEEPING\<rparr>) (s\<lparr>core := acq (ProcLock p) c\<rparr>))"
proof -
  note i = idleD [OF assms(1)]
  let ?f = "\<lambda>q. q\<lparr>pchan := ch, pstate := SLEEPING\<rparr>"
  let ?s = "upd_proc p ?f (s\<lparr>core := acq (ProcLock p) c\<rparr>)"
  have cp: "curproc s = Inr (p, s)"
    using assms(4) i(1) assms(3) by (rule curproc_locked)
  have lk: "(if lk \<noteq> ProcLock p then kbind (lock (ProcLock p) s) (\<lambda>s. unlock lk s) else Inr s)
      = Inr (s\<lparr>core := acq (ProcLock p) c\<rparr>)"
  proof (cases "lk = ProcLock p")
    case True then show ?thesis using assms(4) by simp
  next
    case False
    then have "lockfree (ProcLock p) (core s)" using assms(4) i by simp
    then show ?thesis using False assms(4) i by (simp add: lock_simps)
  qed
  have "sched ?s = Inr (intena (mycpu (core ?s)), ?s)"
    by (rule sched_ok [of _ p c]) (use assms i in simp_all)
  then have "sleep_enter ch lk s = Inr (intena (mycpu (core ?s)), ?s)"
    using cp lk by (simp add: sleep_enter_def Let_def)
  then show ?thesis by blast
qed

text \<open>After the switch back: the lock is taken again, with the interrupts as they were.\<close>

lemma sched_return_acq:
  assumes "noff (mycpu c) = 0"
  shows "set_mycpu ((mycpu (acq l c))\<lparr>intena := ie\<rparr>) (acq l c) = acq l (c\<lparr>sie := (sie c)(hart c := ie)\<rparr>)"
  using assms
  by (cases "cpus c (hart c)") (auto simp: acq_def push_off_def core_defs Let_def intro!: kcore.equality)

lemma sleep_leave_eq:
  assumes "idle c" and "noff (mycpu c) = 0" and "cproc (mycpu c) = Some p" and "core s = acq (ProcLock p) c" and "lk \<noteq> ProcLock p"
  shows "\<exists>d. idle d \<and> noff (mycpu d) = 0 \<and> cproc (mycpu d) = Some p \<and>
    sleep_leave p ie lk s = Inr (upd_proc p (\<lambda>q. q\<lparr>pchan := ChNone\<rparr>) (s\<lparr>core := acq lk d\<rparr>))"
proof -
  define d where "d = c\<lparr>sie := (sie c)(hart c := ie)\<rparr>"
  have d: "idle d" "noff (mycpu d) = 0" "cproc (mycpu d) = Some p"
    using assms(1-3) by (simp_all add: d_def idle_def lockfree_def core_ok_def core_defs)
  have "sched_return ie s = s\<lparr>core := acq (ProcLock p) d\<rparr>"
    using sched_return_acq [OF assms(2), where l = "ProcLock p" and ie = ie] assms(4) by (simp add: sched_return_def d_def)
  then have "sleep_leave p ie lk s = Inr (upd_proc p (\<lambda>q. q\<lparr>pchan := ChNone\<rparr>) (s\<lparr>core := acq lk d\<rparr>))"
    using assms(5) idleD [OF d(1)] by (simp add: sleep_leave_def lock_simps Let_def)
  with d show ?thesis by blast
qed

text \<open>Back in the scheduler: the lock of the process is released and the hart is idle again.\<close>

lemma switch_away:
  assumes "idle c" and "core s = acq (ProcLock p) c"
  shows "\<exists>t. scheduler_return p s = Inr t \<and> idle (core t) \<and> cproc (mycpu (core t)) = None \<and> procs t = procs s"
proof -
  note i = idleD [OF assms(1)]
  let ?r = "s\<lparr>satp := (satp s)(hart (core s) := MAKE_SATP (kernel_pagetable s)), core := set_proc_ptr None (acq (ProcLock p) c)\<rparr>"
  have sp: "set_proc_ptr None (acq (ProcLock p) c) = acq (ProcLock p) (set_proc_ptr None c)"
    by (rule kcore.equality)
      (simp_all add: set_proc_ptr_def acq_def push_off_def core_defs Let_def fun_eq_iff)
  have ok: "core_ok (set_proc_ptr None c)"
    using i(1) by (simp add: set_proc_ptr_def core_ok_def core_defs)
  have lf: "lockfree l (set_proc_ptr None c)" for l
    using i(2) [of l] by (simp add: set_proc_ptr_def lockfree_def core_defs)
  have "scheduler_return p s = Inr (?r\<lparr>core := settle (set_proc_ptr None c)\<rparr>)"
    using sp ok lf assms(2) by (simp add: scheduler_return_def lock_simps)
  moreover have "cproc (mycpu (set_proc_ptr None c)) = None" by (simp add: set_proc_ptr_def core_defs)
  ultimately show ?thesis using ok lf by (simp add: idle_def)
qed

text \<open>
  A sleeping process hands the hart to the scheduler with exactly its own lock held, and the scheduler releases it.
\<close>

lemma sleep_hands_over:
  assumes "idle c" and "noff (mycpu c) = 0" and "cproc (mycpu c) = Some p"
    and "core s = acq lk c"
  shows "\<exists>ie s'. sleep_enter ch lk s = Inr (ie, s')
    \<and> core s' = acq (ProcLock p) c
    \<and> procs s' = (procs s)(p := (procs s p)\<lparr>pchan := ch, pstate := SLEEPING\<rparr>)
    \<and> (\<exists>s''. scheduler_return p s' = Inr s'' \<and> idle (core s'')
        \<and> cproc (mycpu (core s'')) = None \<and> procs s'' = procs s')"
proof -
  let ?s = "upd_proc p (\<lambda>q. q\<lparr>pchan := ch, pstate := SLEEPING\<rparr>) (s\<lparr>core := acq (ProcLock p) c\<rparr>)"
  obtain ie where se: "sleep_enter ch lk s = Inr (ie, ?s)" using sleep_enter_eq [OF assms] by blast
  have c: "core ?s = acq (ProcLock p) c" by simp
  show ?thesis
    by (rule exI [of _ ie], rule exI [of _ ?s]) (use se switch_away [OF assms(1) c] in simp)
qed

section \<open>The scheduler\<close>

lemma scheduler_scan_eq:
  assumes "core_ok (core s)" and "\<forall>i\<in>set is. lockfree (ProcLock i) (core s)"
  shows "case find (\<lambda>i. pstate (procs s i) = RUNNABLE) is of
      None \<Rightarrow> \<exists>s'. scheduler_scan is s = Inr (None, s') \<and> procs s' = procs s \<and> intr_get (core s')
    | Some i \<Rightarrow> \<exists>s'. scheduler_scan is s = Inr (Some i, s')
        \<and> procs s' = (procs s)(i := (procs s i)\<lparr>pstate := RUNNING\<rparr>)
        \<and> cproc (mycpu (core s')) = Some i \<and> holding (ProcLock i) (core s')
        \<and> satp s' (hart (core s')) = MAKE_SATP (kpagetable (procs s i))"
  using assms
proof (induction "is" arbitrary: s)
  case Nil then show ?case by (simp add: intr_on_def intr_get_def)
next
  case (Cons i "is")
  show ?case
  proof (cases "pstate (procs s i) = RUNNABLE")
    case True
    have "holding l (set_proc_ptr q c) = holding l c" for l q c
      by (simp add: holding_def set_proc_ptr_def)
    moreover have "hart (set_proc_ptr q c) = hart c" "cproc (mycpu (set_proc_ptr q c)) = q" for q c
      by (simp_all add: set_proc_ptr_def core_defs)
    ultimately show ?thesis using Cons.prems True
      by (simp add: scheduler_try_def lock_simps)
  next
    case False
    let ?s = "s\<lparr>core := settle (core s)\<rparr>"
    have "scheduler_scan (i # is) s = scheduler_scan is ?s"
      using Cons.prems False by (simp add: scheduler_try_def lock_simps)
    then show ?thesis using Cons.IH [of ?s] Cons.prems False
      by (auto split: option.splits simp: fun_upd_def simp del: scheduler_scan.simps)
  qed
qed

text \<open>
  With all locks free the scheduler switches to the first runnable process of the table: it
  is marked running, is the current process of this hart, its page table is installed and its lock
  is held; no other process changes. If none is runnable, the scan ends with interrupts on and the table unchanged.
\<close>


theorem scheduler_picks_first:
  assumes "core_ok (core s)" and "noff (mycpu (core s)) = 0" and "\<forall>i<NPROC. lockfree (ProcLock i) (core s)"
  shows "case find (\<lambda>i. pstate (procs s i) = RUNNABLE) [0..<NPROC] of
      None \<Rightarrow> \<exists>s'. scheduler s = Inr (None, s') \<and> procs s' = procs s \<and> intr_get (core s')
    | Some i \<Rightarrow> \<exists>s'. scheduler s = Inr (Some i, s')
        \<and> procs s' = (procs s)(i := (procs s i)\<lparr>pstate := RUNNING\<rparr>)
        \<and> cproc (mycpu (core s')) = Some i \<and> holding (ProcLock i) (core s')
        \<and> satp s' (hart (core s')) = MAKE_SATP (kpagetable (procs s i))"
proof -
  let ?s = "s\<lparr>core := intr_on (set_proc_ptr None (core s))\<rparr>"
  have "core_ok (core ?s)" using assms(1,2) by (simp add: core_ok_def set_proc_ptr_def core_defs)
  moreover have "\<forall>i\<in>set [0..<NPROC]. lockfree (ProcLock i) (core ?s)"
    using assms(3) by (simp add: lockfree_def set_proc_ptr_def)
  moreover have "scheduler s = scheduler_scan [0..<NPROC] ?s" by (simp add: scheduler_def)
  ultimately show ?thesis using scheduler_scan_eq [of ?s "[0..<NPROC]"]
    by (auto split: option.splits simp del: scheduler_scan.simps)
qed

section \<open>A machine with three processes\<close>

definition no_proc :: proc where
  "no_proc = \<lparr>pstate = UNUSED, parent = None, pchan = ChNone, killed = False, xstate = 0, pid = 0,
     kstack = 0, psz = 0, pagetable = 0, kpagetable = 0, trapframe = 0,
     pcontext = \<lparr>ctx_ra = 0, ctx_sp = 0\<rparr>, ofile = (\<lambda>_. None), cwd = None,
     pname = replicate 16 0, tmask = 0\<rparr>"

definition demo_core :: kcore where
  "demo_core = set_proc_ptr (Some 2) boot_core"

definition demo :: proc_st where
  "demo = \<lparr>core = demo_core, mem = (\<lambda>_. 0), freelist = 0, npage = 0, kernel_end = 0x80200000,
     kernel_pagetable = 0x80300000, satp = (\<lambda>_. 0), etext = 0x80100000, trampoline = 0x80101000,
     procs = (\<lambda>_. no_proc)(
       0 := no_proc\<lparr>pstate := SLEEPING, pid := 1, pchan := ChTicks\<rparr>,
       1 := no_proc\<lparr>pstate := RUNNABLE, pid := 2, kpagetable := 0x80400000\<rparr>,
       2 := no_proc\<lparr>pstate := RUNNING, pid := 3\<rparr>),
     initproc = Some 0, nextpid = 4\<rparr>"

lemma demo_core_facts [simp]:
  "core_ok demo_core" "lockfree l demo_core" "idle demo_core" "noff (mycpu demo_core) = 0"
  "cproc (mycpu demo_core) = Some 2" "core demo = demo_core"
  by (simp_all add: demo_core_def demo_def idle_def boot_core_def set_proc_ptr_def core_ok_def
      lockfree_def core_defs)

lemma wakeup_wakes_witness:
  "\<exists>s'. wakeup ChTicks demo = Inr s' \<and> pstate (procs s' 0) = RUNNABLE \<and> pstate (procs s' 2) = RUNNING"
  using wakeup_wakes [of demo ChTicks] by (simp add: demo_def no_proc_def NPROC_def)

lemma kill_marks_witness:
  "\<exists>s'. kill 1 demo = Inr (0, s') \<and> killed (procs s' 0) \<and> pstate (procs s' 0) = RUNNABLE"
proof -
  have "find (\<lambda>i. pid (procs demo i) = 1) [0..<NPROC] = Some 0"
    by (simp add: demo_def NPROC_def upt_conv_Cons)
  then show ?thesis using kill_marks [of demo 1] by (simp add: demo_def no_proc_def)
qed

lemma scheduler_picks_first_witness:
  "\<exists>s'. scheduler demo = Inr (Some 1, s') \<and> pstate (procs s' 1) = RUNNING"
proof -
  have "find (\<lambda>i. pstate (procs demo i) = RUNNABLE) [0..<NPROC] = Some 1"
    by (simp add: demo_def NPROC_def upt_conv_Cons)
  then show ?thesis using scheduler_picks_first [of demo] by auto
qed

end
