(* ===== verification/UserMem.thy ===== *)
theory UserMem imports Proc VmProps begin

text \<open>
  The second way to user memory (kernel/vm.c \<open>copyout2\<close>, \<open>copyin2\<close>, \<open>copyinstr2\<close>; kernel/proc.c
  \<open>either_copyout\<close>, \<open>either_copyin\<close>): the kernel's own page table of a process maps the user pages too, so the
  copies dereference user addresses directly and the processor translates them. The Sv39 translation
  of the hardware is written out; a translation that fails traps to \<open>kerneltrap\<close>, which panics.
\<close>

section \<open>Address translation\<close>

definition satp_root :: "u64 \<Rightarrow> u64" where
  "satp_root w = push_bit 12 (take_bit 44 w)"

text \<open>
  The walk of the processor from level \<open>l\<close>: a valid entry with a permission bit is a leaf, at
  any level, and keeps the low bits of the address; a valid entry without one is a pointer.
\<close>

primrec hw_walk :: "nat \<Rightarrow> u64 \<Rightarrow> u64 \<Rightarrow> bytemem \<Rightarrow> (u64 \<times> u64) option" where
  "hw_walk 0 t va m =
    (let e = load64 m (pte_addr t 0 va) in
     if e AND PTE_V = 0 \<or> is_table e then None
     else Some (e, PTE2PA e OR take_bit 12 va))"
| "hw_walk (Suc l) t va m =
    (let e = load64 m (pte_addr t (Suc l) va) in
     if e AND PTE_V = 0 then None
     else if is_table e then hw_walk l (PTE2PA e) va m
     else Some (e, (PTE2PA e AND NOT (mask (12 + 9 * Suc l))) OR take_bit (12 + 9 * Suc l) va))"

text \<open>Supervisor access without \<open>SUM\<close>: the leaf must not be a user page and must allow the access.\<close>

definition translate :: "bytemem \<Rightarrow> u64 \<Rightarrow> u64 \<Rightarrow> u64 \<Rightarrow> u64 option" where
  "translate m root perm va =
    (if va \<ge> MAXVA then None
     else case hw_walk 2 root va m of
       None \<Rightarrow> None
     | Some (e, pa) \<Rightarrow> if e AND PTE_U = 0 \<and> e AND perm \<noteq> 0 then Some pa else None)"

definition cur_root :: "'a vm_st_scheme \<Rightarrow> u64" where
  "cur_root s = satp_root (satp s (hart (core s)))"

text \<open>\<open>memmove\<close> to and from user addresses, byte by byte.\<close>

primrec vwrite :: "nat \<Rightarrow> u64 \<Rightarrow> (nat \<Rightarrow> u8) \<Rightarrow> 'a vm_st_scheme \<Rightarrow> 'a vm_st_scheme kres" where
  "vwrite 0 va src s = Inr s"
| "vwrite (Suc n) va src s =
    (case translate (mem s) (cur_root s) PTE_W va of
       None \<Rightarrow> Inl (Panic ''kerneltrap'')
     | Some pa \<Rightarrow> vwrite n (va + 1) (\<lambda>i. src (Suc i)) (s\<lparr>mem := (mem s)(pa := src 0)\<rparr>))"

primrec vread :: "nat \<Rightarrow> u64 \<Rightarrow> 'a vm_st_scheme \<Rightarrow> u8 list kres" where
  "vread 0 va s = Inr []"
| "vread (Suc n) va s =
    (case translate (mem s) (cur_root s) PTE_R va of
       None \<Rightarrow> Inl (Panic ''kerneltrap'')
     | Some pa \<Rightarrow> kbind (vread n (va + 1) s) (\<lambda>bs. Inr (mem s pa # bs)))"

lemma cur_root_simps [simp]:
  "cur_root (s\<lparr>mem := m\<rparr>) = cur_root s"
  "hart c = hart (core s) \<Longrightarrow> cur_root (s\<lparr>core := c\<rparr>) = cur_root s"
  by (simp_all add: cur_root_def)

section \<open>copyout2, copyin2, copyinstr2\<close>

text \<open>
  \<open>src i\<close> is the byte \<open>i\<close> of the kernel object that is copied out. The third argument
  of \<open>memmove\<close> is a 32-bit \<open>uint\<close>. \<open>copyin2\<close> returns the bytes it stores at \<open>dst\<close>.
\<close>

definition copyout2 :: "u64 \<Rightarrow> (nat \<Rightarrow> u8) \<Rightarrow> u64 \<Rightarrow> 'a proc_st_scheme \<Rightarrow> (int \<times> 'a proc_st_scheme) kres" where
  "copyout2 dstva src len s =
    kbind (curproc s) (\<lambda>(p, s).
      let sz = psz (procs s p) in
      if dstva + len > sz \<or> dstva \<ge> sz then Inr (- 1, s)
      else kbind (vwrite (unat (ucast len :: u32)) dstva src s) (\<lambda>s. Inr (0, s)))"

definition copyin2 :: "u64 \<Rightarrow> u64 \<Rightarrow> 'a proc_st_scheme \<Rightarrow> (int \<times> u8 list \<times> 'a proc_st_scheme) kres" where
  "copyin2 srcva len s =
    kbind (curproc s) (\<lambda>(p, s).
      let sz = psz (procs s p) in
      if srcva + len > sz \<or> srcva \<ge> sz then Inr (- 1, [], s)
      else kbind (vread (unat (ucast len :: u32)) srcva s) (\<lambda>bs. Inr (0, bs, s)))"

text \<open>
  The loop of \<open>copyinstr2\<close>: the bytes stored so far are returned in order, with the NUL when there was
  one.
\<close>

function copyinstr2_loop :: "u64 \<Rightarrow> u64 \<Rightarrow> u64 \<Rightarrow> 'a vm_st_scheme \<Rightarrow> (bool \<times> u8 list) kres" where
  "copyinstr2_loop srcva sz mx s =
    (if srcva < sz \<and> mx > 0 then
       (case translate (mem s) (cur_root s) PTE_R srcva of
          None \<Rightarrow> Inl (Panic ''kerneltrap'')
        | Some pa \<Rightarrow>
            if mem s pa = 0 then Inr (True, [0])
            else kbind (copyinstr2_loop (srcva + 1) sz (mx - 1) s) (\<lambda>(g, bs). Inr (g, mem s pa # bs)))
     else Inr (False, []))"
  by pat_completeness auto
termination
  by (relation "measure (\<lambda>(_, _, mx, _). unat mx)") (auto simp: unat_minus_one word_neq_0_conv unat_gt_0)

declare copyinstr2_loop.simps [simp del]

definition copyinstr2 :: "u64 \<Rightarrow> u64 \<Rightarrow> 'a proc_st_scheme \<Rightarrow> (int \<times> u8 list \<times> 'a proc_st_scheme) kres" where
  "copyinstr2 srcva mx s =
    kbind (curproc s) (\<lambda>(p, s).
    kbind (copyinstr2_loop srcva (psz (procs s p)) mx s) (\<lambda>(got_null, bs).
      Inr (if got_null then 0 else - 1, bs, s)))"

text \<open>A kernel destination or source is an address of the kernel's own memory.\<close>

definition either_copyout ::
    "bool \<Rightarrow> u64 \<Rightarrow> (nat \<Rightarrow> u8) \<Rightarrow> u64 \<Rightarrow> 'a proc_st_scheme \<Rightarrow> (int \<times> 'a proc_st_scheme) kres" where
  "either_copyout user_dst dst src len s =
    (if user_dst then copyout2 dst src len s
     else kbind (vwrite (unat (ucast len :: u32)) dst src s) (\<lambda>s. Inr (0, s)))"

definition either_copyin ::
    "bool \<Rightarrow> u64 \<Rightarrow> u64 \<Rightarrow> 'a proc_st_scheme \<Rightarrow> (int \<times> u8 list \<times> 'a proc_st_scheme) kres" where
  "either_copyin user_src src len s =
    (if user_src then copyin2 src len s
     else kbind (vread (unat (ucast len :: u32)) src s) (\<lambda>bs. Inr (0, bs, s)))"

section \<open>The hardware walk and the leaf lookup\<close>

text \<open>Entries above the leaves are pointers: the kernel maps no large pages.\<close>

definition pure_tree :: "bytemem \<Rightarrow> u64 \<Rightarrow> bool" where
  "pure_tree m root \<longleftrightarrow>
    (\<forall>k<2. \<forall>va<MAXVA. \<forall>t. path m root k va = Some t \<longrightarrow>
      load64 m (pte_addr t (2 - k) va) AND PTE_V \<noteq> 0 \<longrightarrow> is_table (load64 m (pte_addr t (2 - k) va)))"

lemma hw_walk_lookup:
  assumes "pure_tree m root" and "va < MAXVA"
  shows "hw_walk 2 root va m =
    (let e = lookup m root va in
     if e AND PTE_V = 0 \<or> is_table e then None else Some (e, PTE2PA e OR take_bit 12 va))"
proof -
  let ?e2 = "load64 m (pte_addr root 2 va)"
  have t2: "?e2 AND PTE_V \<noteq> 0 \<Longrightarrow> is_table ?e2"
    using assms unfolding pure_tree_def by (metis diff_zero path.simps(1) zero_less_numeral)
  show ?thesis
  proof (cases "?e2 AND PTE_V = 0")
    case True
    then have "path m root 2 va = None" by (simp add: numeral_2_eq_2)
    then show ?thesis using True by (simp add: lookup_def numeral_2_eq_2)
  next
    case False
    let ?t1 = "PTE2PA ?e2"
    let ?e1 = "load64 m (pte_addr ?t1 1 va)"
    have p1: "path m root 1 va = Some ?t1" using False by simp
    then have t1: "?e1 AND PTE_V \<noteq> 0 \<Longrightarrow> is_table ?e1"
      using assms unfolding pure_tree_def by (metis diff_add_inverse2 one_add_one one_less_numeral_iff semiring_norm(76))
    have p2: "path m root 2 va = (if ?e1 AND PTE_V \<noteq> 0 then Some (PTE2PA ?e1) else None)"
      using p1 by (simp add: numeral_2_eq_2)
    have h: "hw_walk 2 root va m = hw_walk 1 ?t1 va m"
      using False t2 by (simp add: numeral_2_eq_2)
    show ?thesis
    proof (cases "?e1 AND PTE_V = 0")
      case True then show ?thesis using h p2 by (simp add: lookup_def)
    next
      case False
      then have "hw_walk 1 ?t1 va m = hw_walk 0 (PTE2PA ?e1) va m" using t1 by simp
      then show ?thesis using h p2 False by (simp add: lookup_def Let_def)
    qed
  qed
qed

text \<open>The physical address of a mapped byte lies in the page of the leaf, at the same offset.\<close>

definition phys :: "bytemem \<Rightarrow> u64 \<Rightarrow> u64 \<Rightarrow> u64" where
  "phys m root va = PTE2PA (lookup m root va) OR take_bit 12 va"

lemma PGROUNDDOWN_bits: "bit (PGROUNDDOWN a) n \<longleftrightarrow> bit a n \<and> 12 \<le> n"
  unfolding PGROUNDDOWN_shift by (auto simp: bit_simps dest: bit_imp_le_length)

lemma phys_page: "PGROUNDDOWN (phys m root va) = PTE2PA (lookup m root va)"
proof (rule bit_word_eqI)
  fix n assume "n < LENGTH(64)"
  have "page_aligned (PTE2PA (lookup m root va))" by simp
  then show "bit (PGROUNDDOWN (phys m root va)) n = bit (PTE2PA (lookup m root va)) n"
    by (auto simp: PGROUNDDOWN_bits phys_def bit_or_iff bit_take_bit_iff page_aligned_iff_bits not_less)
qed

lemma phys_inj:
  assumes "phys m root va = phys m root vb"
    and "PTE2PA (lookup m root va) = PTE2PA (lookup m root vb) \<Longrightarrow> page_no va = page_no vb"
  shows "va = vb"
proof -
  have p: "PTE2PA (lookup m root va) = PTE2PA (lookup m root vb)"
    using assms(1) phys_page by metis
  have "bit va n = bit vb n" if n: "n < 12" for n
  proof -
    have "\<not> bit (PTE2PA e) n" for e
      using n page_aligned_PTE2PA [of e] unfolding page_aligned_iff_bits by blast
    moreover have "bit (phys m root va) n = bit (phys m root vb) n" using assms(1) by simp
    ultimately show ?thesis using n by (simp add: phys_def bit_or_iff bit_take_bit_iff)
  qed
  moreover have "bit va n = bit vb n" if n: "12 \<le> n" for n
  proof -
    have "page_no va = page_no vb" using assms(2) p by blast
    then have "bit (drop_bit 12 va) (n - 12) = bit (drop_bit 12 vb) (n - 12)" by (simp add: page_no_def)
    then show ?thesis using n by (simp add: bit_drop_bit_eq)
  qed
  ultimately show ?thesis by (intro bit_word_eqI) (metis not_less)
qed

section \<open>Byte loops\<close>

text \<open>Writes through \<open>n\<close> addresses whose translation the writes themselves do not disturb.\<close>

lemma vwrite_ok:
  assumes "inj_on f {..<n}"
    and "\<And>i m'. i < n \<Longrightarrow> (\<forall>a. a \<notin> f ` {..<n} \<longrightarrow> m' a = mem s a) \<Longrightarrow>
      translate m' (cur_root s) PTE_W (va + of_nat i) = Some (f i)"
  shows "\<exists>m'. vwrite n va src s = Inr (s\<lparr>mem := m'\<rparr>) \<and> (\<forall>i<n. m' (f i) = src i)
    \<and> (\<forall>a. a \<notin> f ` {..<n} \<longrightarrow> m' a = mem s a)"
  using assms
proof (induction n arbitrary: va src s f)
  case 0 then show ?case by (intro exI [of _ "mem s"]) simp
next
  case (Suc n)
  have img: "f ` {..<Suc n} = insert (f 0) ((\<lambda>i. f (Suc i)) ` {..<n})"
    by (simp add: lessThan_Suc_eq_insert_0 image_image)
  let ?s = "s\<lparr>mem := (mem s)(f 0 := src 0)\<rparr>"
  have root: "cur_root ?s = cur_root s" by (simp add: cur_root_def)
  have t0: "translate (mem s) (cur_root s) PTE_W va = Some (f 0)"
    using Suc.prems(2) [of 0 "mem s"] by simp
  have inj: "inj_on (\<lambda>i. f (Suc i)) {..<n}" using Suc.prems(1) by (auto simp: inj_on_def)
  have "translate m' (cur_root ?s) PTE_W (va + 1 + of_nat i) = Some (f (Suc i))"
    if "i < n" "\<forall>a. a \<notin> (\<lambda>i. f (Suc i)) ` {..<n} \<longrightarrow> m' a = mem ?s a" for i m'
  proof -
    have "\<forall>a. a \<notin> f ` {..<Suc n} \<longrightarrow> m' a = mem s a" using that(2) unfolding img by auto
    then show ?thesis using Suc.prems(2) [of "Suc i" m'] that(1) root by (simp add: algebra_simps)
  qed
  then obtain m' where m': "vwrite n (va + 1) (\<lambda>i. src (Suc i)) ?s = Inr (?s\<lparr>mem := m'\<rparr>)"
      "\<forall>i<n. m' (f (Suc i)) = src (Suc i)" "\<forall>a. a \<notin> (\<lambda>i. f (Suc i)) ` {..<n} \<longrightarrow> m' a = mem ?s a"
    using Suc.IH [OF inj, of ?s "va + 1" "\<lambda>i. src (Suc i)"] by blast
  have "f 0 \<notin> (\<lambda>i. f (Suc i)) ` {..<n}" using Suc.prems(1) by (auto simp: inj_on_def)
  then have "m' (f 0) = src 0" using m'(3) by simp
  then have "\<forall>i<Suc n. m' (f i) = src i" using m'(2) by (auto simp: less_Suc_eq_0_disj)
  moreover have "\<forall>a. a \<notin> f ` {..<Suc n} \<longrightarrow> m' a = mem s a" using m'(3) unfolding img by auto
  ultimately show ?case using t0 m'(1) by (intro exI [of _ m']) simp
qed

lemma vread_ok:
  "(\<And>i. i < n \<Longrightarrow> translate (mem s) (cur_root s) PTE_R (va + of_nat i) = Some (f i)) \<Longrightarrow>
   vread n va s = Inr (map (\<lambda>i. mem s (f i)) [0..<n])"
proof (induction n arbitrary: va f)
  case (Suc n)
  have "translate (mem s) (cur_root s) PTE_R (va + 1 + of_nat i) = Some (f (Suc i))" if "i < n" for i
    using Suc.prems [of "Suc i"] that by (simp add: algebra_simps)
  then have "vread n (va + 1) s = Inr (map (\<lambda>i. mem s (f (Suc i))) [0..<n])" by (rule Suc.IH)
  then show ?case using Suc.prems [of 0] by (simp add: map_upt_Suc del: upt_Suc)
qed simp

section \<open>Round trip\<close>

lemma readable_not_table: "e AND PTE_R \<noteq> 0 \<Longrightarrow> \<not> is_table e"
proof
  assume r: "e AND PTE_R \<noteq> 0" and "is_table e"
  then have z: "e AND (PTE_R OR PTE_W OR PTE_X) = 0" by (simp add: is_table_def)
  have "e AND PTE_R = (e AND (PTE_R OR PTE_W OR PTE_X)) AND PTE_R"
    by (rule bit_word_eqI) (auto simp: bit_and_iff bit_or_iff)
  then show False using r z by simp
qed

text \<open>
  The \<open>n\<close> bytes at \<open>va\<close> are mapped for the kernel to read and write, on pages that are not tables, and
  different pages of addresses have different physical pages.
\<close>

definition user_range :: "bytemem \<Rightarrow> u64 \<Rightarrow> u64 \<Rightarrow> nat \<Rightarrow> bool" where
  "user_range m root va n \<longleftrightarrow>
    (\<forall>i<n. let v = va + of_nat i; e = lookup m root v in
      v < MAXVA \<and> e AND PTE_V \<noteq> 0 \<and> e AND PTE_R \<noteq> 0 \<and> e AND PTE_W \<noteq> 0 \<and> e AND PTE_U = 0 \<and>
      PTE2PA e \<notin> tables m root) \<and>
    (\<forall>i<n. \<forall>j<n. PTE2PA (lookup m root (va + of_nat i)) = PTE2PA (lookup m root (va + of_nat j)) \<longrightarrow>
      page_no (va + of_nat i) = page_no (va + of_nat j))"

lemma user_rangeD:
  assumes "user_range m root va n" and "i < n"
  shows "va + of_nat i < MAXVA" "lookup m root (va + of_nat i) AND PTE_V \<noteq> 0"
    "lookup m root (va + of_nat i) AND PTE_R \<noteq> 0" "lookup m root (va + of_nat i) AND PTE_W \<noteq> 0"
    "lookup m root (va + of_nat i) AND PTE_U = 0" "PTE2PA (lookup m root (va + of_nat i)) \<notin> tables m root"
  using assms by (simp_all add: user_range_def Let_def)

lemma user_range_pages:
  assumes "user_range m root va n" and "i < n" and "j < n"
    and "PTE2PA (lookup m root (va + of_nat i)) = PTE2PA (lookup m root (va + of_nat j))"
  shows "page_no (va + of_nat i) = page_no (va + of_nat j)"
  using assms unfolding user_range_def by blast

definition phys_at :: "bytemem \<Rightarrow> u64 \<Rightarrow> u64 \<Rightarrow> nat \<Rightarrow> u64" where
  "phys_at m root va i = phys m root (va + of_nat i)"

lemma user_range_translate:
  assumes "pure_tree m root" and "user_range m root va n" and "i < n" and "perm = PTE_R \<or> perm = PTE_W"
  shows "translate m root perm (va + of_nat i) = Some (phys_at m root va i)"
proof -
  let ?v = "va + of_nat i"
  note u = user_rangeD [OF assms(2,3)]
  have "\<not> MAXVA \<le> ?v" using u(1) by simp
  then show ?thesis
    using u hw_walk_lookup [OF assms(1) u(1)] readable_not_table [OF u(3)] assms(4)
    by (auto simp: translate_def phys_at_def phys_def Let_def)
qed

lemma user_range_inj:
  assumes "user_range m root va n" and "n < 2 ^ 64"
  shows "inj_on (phys_at m root va) {..<n}"
proof (rule inj_onI)
  fix i j assume ij: "i \<in> {..<n}" "j \<in> {..<n}" and e: "phys_at m root va i = phys_at m root va j"
  then have lt: "i < n" "j < n" by simp_all
  have "va + of_nat i = va + of_nat j"
    by (rule phys_inj [OF e [unfolded phys_at_def]], rule user_range_pages [OF assms(1) lt])
  then have "unat (of_nat i :: u64) = unat (of_nat j :: u64)" by simp
  moreover have "unat (of_nat k :: u64) = k" if "k < n" for k
    by (rule unat_of_nat_small) (use that assms(2) in simp)
  ultimately show "i = j" using ij by simp
qed

text \<open>Writing user bytes disturbs neither the tables nor the leaf entries.\<close>

lemma user_range_stable:
  assumes wf: "pt_wf m root" and pure: "pure_tree m root" and ur: "user_range m root va n"
    and m': "\<forall>a. a \<notin> phys_at m root va ` {..<n} \<longrightarrow> m' a = m a"
  shows "pt_wf m' root" and "pure_tree m' root" and "user_range m' root va n"
    and "i < n \<Longrightarrow> phys_at m' root va i = phys_at m root va i"
    and "v < MAXVA \<Longrightarrow> lookup m' root v = lookup m root v"
proof -
  have al: "\<forall>t\<in>tables m root. page_aligned t" using wf by (simp add: pt_wf_def)
  have eq: "m' a = m a" if a: "PGROUNDDOWN a \<in> tables m root" for a
  proof -
    have "a \<noteq> phys_at m root va i" if "i < n" for i
      using user_rangeD(6) [OF ur that] a phys_page [of m root "va + of_nat i"]
      unfolding phys_at_def by metis
    then show ?thesis using m' by auto
  qed
  note tc = tables_cong [OF al eq]
  show "pt_wf m' root" using tc(2) wf by simp
  show L: "v < MAXVA \<Longrightarrow> lookup m' root v = lookup m root v" for v by (rule tc(3))
  have rd: "load64 m' (pte_addr t l v) = load64 m (pte_addr t l v)" if "t \<in> tables m root" for t l v
    using that al eq by (intro load64_slot_cong) auto
  have P: "path m' root k v = path m root k v" if "k \<le> 2" "v < MAXVA" for k v
    using path_cong [OF al eq that(2,1)] .
  show "pure_tree m' root"
    unfolding pure_tree_def
  proof (intro allI impI)
    fix k v t
    assume k: "k < 2" "v < MAXVA" "path m' root k v = Some t"
      and V: "load64 m' (pte_addr t (2 - k) v) AND PTE_V \<noteq> 0"
    then have t: "path m root k v = Some t" using P [of k v] by simp
    then have "t \<in> tables m root" using k by (intro path_in_tables) auto
    then show "is_table (load64 m' (pte_addr t (2 - k) v))"
      using pure k(1,2) t V rd unfolding pure_tree_def by metis
  qed
  have Li: "lookup m' root (va + of_nat i) = lookup m root (va + of_nat i)" if "i < n" for i
    by (rule L [OF user_rangeD(1) [OF ur that]])
  then show "phys_at m' root va i = phys_at m root va i" if "i < n"
    using that by (simp add: phys_at_def phys_def)
  show "user_range m' root va n"
  proof -
    have "user_range m' root va n = user_range m root va n"
      unfolding user_range_def Let_def by (simp add: tc(1) Li cong: imp_cong)
    then show ?thesis using ur by simp
  qed
qed

text \<open>
  C19: For a range inside the process whose pages are mapped for the kernel, \<open>copyout2\<close> returns 0 and
  \<open>copyin2\<close> on the same range then reads back the bytes that were written, through the
  translation of the hardware; no leaf entry of the address space changes.
\<close>

theorem copyout2_copyin2:
  assumes "core_ok (core s)" and "cproc (mycpu (core s)) = Some p"
    and "unat va + n \<le> unat (psz (procs s p))" and "0 < n" and "n < 2 ^ 32"
    and "pt_wf (mem s) (cur_root s)" and "pure_tree (mem s) (cur_root s)"
    and "user_range (mem s) (cur_root s) va n"
  shows "\<exists>s'. copyout2 va src (of_nat n) s = Inr (0, s')
    \<and> (\<exists>s''. copyin2 va (of_nat n) s' = Inr (0, map src [0..<n], s''))
    \<and> (\<forall>v<MAXVA. lookup (mem s') (cur_root s') v = lookup (mem s) (cur_root s) v)"
proof -
  let ?s = "s\<lparr>core := settle (core s)\<rparr>" and ?root = "cur_root s"
  let ?f = "phys_at (mem s) ?root va"
  have root: "cur_root ?s = ?root" by (simp add: cur_root_def)
  have n: "unat (ucast (of_nat n :: u64) :: u32) = n"
  proof -
    have "unat (of_nat n :: u64) = n" using assms(5) by (intro unat_of_nat_small) simp
    then show ?thesis using assms(5) by (simp add: unsigned_ucast_eq take_bit_nat_eq_self_iff)
  qed
  have sz: "unat (psz (procs s p)) < 2 ^ 64" using unsigned_less [of "psz (procs s p)"] by simp
  have "unat (of_nat n :: u64) = n" using assms(5) by (intro unat_of_nat_small) simp
  then have "unat (va + of_nat n) = unat va + n"
    using assms(3) sz by (subst unat_add_no_wrap) simp_all
  then have guard: "\<not> (va + of_nat n > psz (procs s p) \<or> va \<ge> psz (procs s p))"
    using assms(3,4) by (auto simp: word_less_nat_alt word_le_nat_alt)
  have cur: "curproc s = Inr (p, ?s)" using assms(1,2) by (rule curproc_eq)
  have inj: "inj_on ?f {..<n}" using assms(5,8) by (intro user_range_inj) simp_all
  obtain m' where w: "vwrite n va src ?s = Inr (?s\<lparr>mem := m'\<rparr>)" "\<forall>i<n. m' (?f i) = src i"
      "\<forall>a. a \<notin> ?f ` {..<n} \<longrightarrow> m' a = mem ?s a"
  proof -
    have "translate m' (cur_root ?s) PTE_W (va + of_nat i) = Some (?f i)"
      if "i < n" "\<forall>a. a \<notin> ?f ` {..<n} \<longrightarrow> m' a = mem ?s a" for i m'
    proof -
      have e: "\<forall>a. a \<notin> ?f ` {..<n} \<longrightarrow> m' a = mem s a" using that(2) by simp
      note st = user_range_stable [OF assms(6,7,8) e]
      show ?thesis using user_range_translate [OF st(2,3) that(1)] st(4) [OF that(1)] root by simp
    qed
    then show thesis using vwrite_ok [OF inj, of ?s va src] that by blast
  qed
  let ?s1 = "?s\<lparr>mem := m'\<rparr>"
  have out: "copyout2 va src (of_nat n) s = Inr (0, ?s1)"
    using cur guard w(1) n by (simp add: copyout2_def)
  have e: "\<forall>a. a \<notin> ?f ` {..<n} \<longrightarrow> m' a = mem s a" using w(3) by simp
  note st = user_range_stable [OF assms(6,7,8) e]
  let ?s2 = "?s1\<lparr>core := settle (core ?s1)\<rparr>"
  have r2: "cur_root ?s2 = ?root" by (simp add: cur_root_def)
  have "vread n va ?s2 = Inr (map (\<lambda>i. mem ?s2 (?f i)) [0..<n])"
    using user_range_translate [OF st(2,3)] st(4) by (intro vread_ok) (simp add: r2 del: settle_idem)
  also have "map (\<lambda>i. mem ?s2 (?f i)) [0..<n] = map src [0..<n]" using w(2) by simp
  finally have rd: "vread n va ?s2 = Inr (map src [0..<n])" .
  have cur1: "curproc ?s1 = Inr (p, ?s2)" using assms(1,2) by (intro curproc_eq) simp_all
  have inn: "copyin2 va (of_nat n) ?s1 = Inr (0, map src [0..<n], ?s2)"
    using cur1 guard rd n by (simp add: copyin2_def)
  have r1: "cur_root ?s1 = ?root" by (simp add: cur_root_def)
  have L: "\<forall>v<MAXVA. lookup (mem ?s1) (cur_root ?s1) v = lookup (mem s) ?root v"
    using st(5) by (simp add: r1)
  show ?thesis using out inn L by blast
qed

text \<open>
  The range check of \<open>copyout2\<close> is right exactly as long as \<open>dstva + len\<close> does not wrap: then a
  copy that is not rejected lies inside the process. A length near \<open>2^64\<close> passes the check.
\<close>

theorem copyout2_guard:
  fixes s :: "'a proc_st_scheme"
  assumes "core_ok (core s)" and "cproc (mycpu (core s)) = Some p"
    and "unat va + unat len < 2 ^ 64"
  shows "unat va + unat len \<le> unat (psz (procs s p)) \<and> va < psz (procs s p)
    \<longleftrightarrow> copyout2 va src len s \<noteq> Inr (- 1, s\<lparr>core := settle (core s)\<rparr>)"
proof -
  have a: "unat (va + len) = unat va + unat len" using assms(3) by (intro unat_add_no_wrap) simp
  have "kbind (vwrite k va src t) (\<lambda>s. Inr (0, s)) \<noteq> Inr (- 1 :: int, u)" for k u and t :: "'a proc_st_scheme"
    by (simp add: kbind_Inr_iff)
  then show ?thesis
    using a curproc_eq [OF assms(1,2)]
    by (simp add: copyout2_def word_less_nat_alt word_le_nat_alt not_less not_le Let_def)
qed

section \<open>A process with one page\<close>

lemma installs_pure:
  assumes I: "installs m root j va t p m'" and pure: "pure_tree m root"
  shows "pure_tree m' root"
  unfolding pure_tree_def
proof (intro allI impI)
  note i = installsD [OF I]
  fix k vb u
  assume k: "k < 2" "vb < MAXVA" "path m' root k vb = Some u"
    and V: "load64 m' (pte_addr u (2 - k) vb) AND PTE_V \<noteq> 0"
  have k2: "k \<le> 2" using k(1) by simp
  show "is_table (load64 m' (pte_addr u (2 - k) vb))"
  proof (cases "u = p")
    case True then show ?thesis using V installs_zero_below [OF I] by simp
  next
    case False
    then have u: "path m root k vb = Some u" using installs_cases [OF I k(3) k2 k(2)] by blast
    then have uz: "path (zero_page p m) root k vb = Some u"
      using zero_page_other(3) [OF i(1,9) k2 k(2)] by simp
    show ?thesis
    proof (cases "k = j \<and> pre (Suc j) vb = pre (Suc j) va")
      case True
      then have e: "pre j vb = pre j va" "PX (2 - j) vb = PX (2 - j) va"
        using pre_Suc_eq [OF i(4), of vb va] by auto
      have "j \<le> 3" using i(3) by simp
      then have "u = t" using path_pre [OF _ k(2) i(5) e(1)] i(2) u True by simp
      then have "pte_addr u (2 - k) vb = pte_addr t (2 - j) va" using True e(2) by (simp add: pte_addr_def)
      then have "load64 m' (pte_addr u (2 - k) vb) = PA2PTE p OR PTE_V" by (simp add: i(10))
      moreover have "(PA2PTE p OR PTE_V) AND (PTE_R OR PTE_W OR PTE_X)
          = PTE_FLAGS (PA2PTE p OR PTE_V) AND (PTE_R OR PTE_W OR PTE_X)"
        by (simp add: PTE_FLAGS_def PTE_R_def PTE_W_def PTE_X_def and.assoc)
      moreover have "PTE_FLAGS (PA2PTE p OR PTE_V) = PTE_V"
        by (rule PTE_FLAGS_PA2PTE) (simp add: PTE_V_def)
      moreover have "PTE_V AND (PTE_R OR PTE_W OR PTE_X) = 0"
        by (simp add: PTE_V_def PTE_R_def PTE_W_def PTE_X_def)
      ultimately show ?thesis using V by (simp add: is_table_def)
    next
      case False
      then have d: "k \<noteq> j \<or> pre (Suc j) vb \<noteq> pre (Suc j) va" by blast
      have "load64 m' (pte_addr u (2 - k) vb) = load64 (zero_page p m) (pte_addr u (2 - k) vb)"
        unfolding i(10) by (rule read_other [OF i(11,12,4,5) uz k2 k(2) d])
      also have "\<dots> = load64 m (pte_addr u (2 - k) vb)"
        using \<open>u \<noteq> p\<close> pt_wf_aligned [OF i(1) u k2 k(2)]
        by (intro load64_slot_cong) (auto simp: zero_page_def)
      finally show ?thesis using pure k(1,2) u V unfolding pure_tree_def by metis
    qed
  qed
qed

lemma mapped_mem_pure: "pure_tree (mapped_mem leaf) tree_root"
proof -
  obtain m1 where b: "installs (\<lambda>_. 0) tree_root 0 0 tree_root 0x805fd000 m1"
    "installs m1 tree_root 1 0 0x805fd000 0x805fe000 mapped_mem2"
    "path mapped_mem2 tree_root 2 0 = Some 0x805fe000"
    by (rule mapped_mem_build)
  have "load64 (\<lambda>_. 0) p = 0" for p by (simp add: load64_def word_rcat_def)
  then have "pure_tree (\<lambda>_. 0) tree_root" by (simp add: pure_tree_def)
  then have pure: "pure_tree mapped_mem2 tree_root" by (intro installs_pure [OF b(2)] installs_pure [OF b(1)])
  have wf: "pt_wf mapped_mem2 tree_root" by (rule installs_wf [OF b(2)])
  have v0: "(0::u64) < MAXVA" by (simp add: MAXVA_def)
  note sl = store_leaf [OF wf b(3) v0 mapped_mem_def [of leaf]]
  show ?thesis
    unfolding pure_tree_def
  proof (intro allI impI)
    fix k vb u
    assume k: "k < 2" "vb < MAXVA" "path (mapped_mem leaf) tree_root k vb = Some u"
      and V: "load64 (mapped_mem leaf) (pte_addr u (2 - k) vb) AND PTE_V \<noteq> 0"
    have k2: "k \<le> 2" using k(1) by simp
    have u: "path mapped_mem2 tree_root k vb = Some u" using sl(3) [OF k2 k(2)] k(3) by simp
    have "load64 (mapped_mem leaf) (pte_addr u (2 - k) vb) = load64 mapped_mem2 (pte_addr u (2 - k) vb)"
      using read_other [OF wf b(3) _ v0 u k2 k(2), of leaf] k(1) by (simp add: mapped_mem_def)
    then show "is_table (load64 (mapped_mem leaf) (pte_addr u (2 - k) vb))"
      using pure k(1,2) u V unfolding pure_tree_def by metis
  qed
qed

definition user_demo :: proc_st where
  "user_demo = demo\<lparr>mem := mapped_mem (PA2PTE 0x805fc000 OR (PTE_R OR PTE_W OR PTE_V)),
     satp := (\<lambda>_. MAKE_SATP tree_root), procs := (procs demo)(2 := no_proc\<lparr>psz := 4096\<rparr>)\<rparr>"

lemma user_demo_facts:
  "core user_demo = demo_core" "cur_root user_demo = tree_root" "psz (procs user_demo 2) = 4096"
  "user_range (mem user_demo) tree_root 0x10 2"
proof -
  show "core user_demo = demo_core" "psz (procs user_demo 2) = 4096"
    by (simp_all add: user_demo_def no_proc_def)
  show "cur_root user_demo = tree_root"
    by (simp add: user_demo_def cur_root_def satp_root_def MAKE_SATP_def SATP_SV39_def tree_root_def
        drop_bit_eq_div push_bit_eq_mult take_bit_eq_mod)
  let ?leaf = "PA2PTE 0x805fc000 OR (PTE_R OR PTE_W OR PTE_V)"
  have bits: "?leaf AND PTE_V \<noteq> 0" "?leaf AND PTE_R \<noteq> 0" "?leaf AND PTE_W \<noteq> 0" "?leaf AND PTE_U = 0"
    "PTE2PA ?leaf = 0x805fc000"
    by (simp_all add: PA2PTE_def PTE2PA_def PTE_V_def PTE_R_def PTE_W_def PTE_U_def
      drop_bit_eq_div push_bit_eq_mult)
  have L: "lookup (mem user_demo) tree_root 0x10 = ?leaf" "lookup (mem user_demo) tree_root 0x11 = ?leaf"
    using mapped_mem_facts(3) [of "0x10" ?leaf] mapped_mem_facts(3) [of "0x11" ?leaf]
    by (simp_all add: user_demo_def MAXVA_def page_no_def drop_bit_eq_div)
  have T: "0x805fc000 \<notin> tables (mem user_demo) tree_root"
    using mapped_mem_facts(2) [of ?leaf] by (simp add: user_demo_def) (simp add: tree_root_def)
  show "user_range (mem user_demo) tree_root 0x10 2"
    unfolding user_range_def Let_def numeral_2_eq_2 All_less_Suc
    by (simp add: L bits T MAXVA_def page_no_def drop_bit_eq_div)
qed

lemma copyout2_copyin2_witness:
  "\<exists>s' s''. copyout2 0x10 (\<lambda>i. of_nat i + 65) 2 user_demo = Inr (0, s')
    \<and> copyin2 0x10 2 s' = Inr (0, [65, 66], s'')"
proof -
  have m: "map (\<lambda>i. of_nat i + 65) [0..<2] = [65, 66 :: u8]" by (simp add: upt_rec)
  have wf: "pt_wf (mem user_demo) (cur_root user_demo)" "pure_tree (mem user_demo) (cur_root user_demo)"
    using user_demo_facts(2) mapped_mem_facts(1) mapped_mem_pure by (simp_all add: user_demo_def)
  have c: "core_ok (core user_demo)" "cproc (mycpu (core user_demo)) = Some 2"
    using user_demo_facts(1) by simp_all
  have ur: "user_range (mem user_demo) (cur_root user_demo) 0x10 2" using user_demo_facts by simp
  have r: "unat (0x10 :: u64) + 2 \<le> unat (psz (procs user_demo 2))" using user_demo_facts(3) by simp
  show ?thesis
    using copyout2_copyin2 [OF c r _ _ wf ur, of "\<lambda>i. of_nat i + 65"] unfolding m by auto
qed

lemma copyout2_guard_witness:
  "copyout2 4000 (\<lambda>_. 0) 97 user_demo = Inr (- 1, user_demo\<lparr>core := settle demo_core\<rparr>)"
  using copyout2_guard [of user_demo 2 4000 97 "\<lambda>_. 0"] user_demo_facts by simp

end
