(* ===== verification/Sleeplock.thy ===== *)
theory Sleeplock imports Proc begin

text \<open>
  kernel/sleeplock.c: locks that a process holds across a context switch. Such a lock names its holder by pid and is
  itself protected by a spin lock; a process that finds it taken sleeps, which is the outcome
  \<open>Sleeps\<close> here. The contract of a mutual exclusion lock is stated once, as a locale, for spin
  locks and sleep locks.
\<close>

section \<open>State and operations\<close>

record sleeplock =
  sl_locked :: bool
  sl_pid :: int

record slk_st = proc_st +
  slocks :: "slockid \<Rightarrow> sleeplock"

definition set_slock :: "slockid \<Rightarrow> sleeplock \<Rightarrow> 'a slk_st_scheme \<Rightarrow> 'a slk_st_scheme" where
  "set_slock k v s = s\<lparr>slocks := (slocks s)(k := v)\<rparr>"

definition initsleeplock :: "slockid \<Rightarrow> 'a slk_st_scheme \<Rightarrow> 'a slk_st_scheme" where
  "initsleeplock k s =
    set_slock k \<lparr>sl_locked = False, sl_pid = 0\<rparr> (s\<lparr>core := initlock (SleepLk k) (core s)\<rparr>)"

definition acquiresleep :: "slockid \<Rightarrow> 'a slk_st_scheme \<Rightarrow> 'a slk_st_scheme kres" where
  "acquiresleep k s =
    kbind (lock (SleepLk k) s) (\<lambda>s.
      if sl_locked (slocks s k) then Inl (Sleeps (ChSleepLock k))
      else
        let s = set_slock k ((slocks s k)\<lparr>sl_locked := True\<rparr>) s in
        kbind (curproc s) (\<lambda>(p, s).
          unlock (SleepLk k) (set_slock k ((slocks s k)\<lparr>sl_pid := pid (procs s p)\<rparr>) s)))"

definition releasesleep :: "slockid \<Rightarrow> 'a slk_st_scheme \<Rightarrow> 'a slk_st_scheme kres" where
  "releasesleep k s =
    kbind (lock (SleepLk k) s) (\<lambda>s.
      let s = set_slock k ((slocks s k)\<lparr>sl_locked := False\<rparr>) s;
          s = set_slock k ((slocks s k)\<lparr>sl_pid := 0\<rparr>) s
      in kbind (wakeup (ChSleepLock k) s) (unlock (SleepLk k)))"

definition holdingsleep :: "slockid \<Rightarrow> 'a slk_st_scheme \<Rightarrow> (bool \<times> 'a slk_st_scheme) kres" where
  "holdingsleep k s =
    kbind (lock (SleepLk k) s) (\<lambda>s.
    kbind (if sl_locked (slocks s k)
           then kbind (curproc s) (\<lambda>(p, s). Inr (sl_pid (slocks s k) = pid (procs s p), s))
           else Inr (False, s)) (\<lambda>(r, s).
    kbind (unlock (SleepLk k) s) (\<lambda>s. Inr (r, s))))"

section \<open>Closed forms\<close>

lemma sleeplock_full [simp]:
  "k\<lparr>sl_locked := a, sl_pid := b\<rparr> = \<lparr>sl_locked = a, sl_pid = b\<rparr>" for k :: sleeplock
  by (cases k) simp

lemma set_slock_simps [simp]:
  "core (set_slock k v s) = core s" "procs (set_slock k v s) = procs s"
  "mem (set_slock k v s) = mem s" "slocks (set_slock k v s) = (slocks s)(k := v)"
  "(set_slock k v s)\<lparr>core := c\<rparr> = set_slock k v (s\<lparr>core := c\<rparr>)"
  "(set_slock k v s)\<lparr>procs := q\<rparr> = set_slock k v (s\<lparr>procs := q\<rparr>)"
  "set_slock k v (set_slock k w s) = set_slock k v s"
  by (simp_all add: set_slock_def)

text \<open>Every process that sleeps on the channel is made runnable.\<close>

definition woken_tab :: "chan \<Rightarrow> (nat \<Rightarrow> proc) \<Rightarrow> nat \<Rightarrow> proc" where
  "woken_tab ch ps i = (if i < NPROC then woken ch (ps i) else ps i)"

definition wake :: "chan \<Rightarrow> 'a proc_st_scheme \<Rightarrow> 'a proc_st_scheme" where
  "wake ch s = s\<lparr>procs := woken_tab ch (procs s)\<rparr>"

lemma wake_simps [simp]:
  "core (wake ch s) = core s" "mem (wake ch s) = mem s"
  "(wake ch s)\<lparr>core := c\<rparr> = wake ch (s\<lparr>core := c\<rparr>)"
  "pid (procs (wake ch s) i) = pid (procs s i)" "psz (procs (wake ch s) i) = psz (procs s i)"
  "slocks (wake ch s') = slocks s'" "wake ch (set_slock k v s') = set_slock k v (wake ch s')"
  by (simp_all add: wake_def woken_tab_def woken_def set_slock_def)

lemma wakeup_eq [lock_simps]:
  "core_ok (core s) \<Longrightarrow> \<forall>i<NPROC. lockfree (ProcLock i) (core s) \<Longrightarrow>
   wakeup ch s = Inr (wake ch (s\<lparr>core := settle (core s)\<rparr>))"
  using wakeup_loop_eq [of s "[0..<NPROC]" ch]
  by (simp add: wakeup_def wake_def NPROC_def woken_tab_def [abs_def])

text \<open>A process runs, and no spin lock is held.\<close>

definition running :: "nat \<Rightarrow> 'a proc_st_scheme \<Rightarrow> bool" where
  "running p s \<longleftrightarrow> idle (core s) \<and> cproc (mycpu (core s)) = Some p"

lemma runningD:
  "running p s \<Longrightarrow> core_ok (core s)" "running p s \<Longrightarrow> lockfree l (core s)"
  "running p s \<Longrightarrow> cproc (mycpu (core s)) = Some p"
  by (simp_all add: running_def idle_def)

lemma running_settle [simp]: "running p s \<Longrightarrow> running p (s\<lparr>core := settle (core s)\<rparr>)"
  by (simp add: running_def)

lemma running_core: "core s' = settle (core s) \<Longrightarrow> running p s \<Longrightarrow> running p s'"
  by (simp add: running_def)

lemma curproc_running [lock_simps]: "running p s \<Longrightarrow> curproc s = Inr (p, s\<lparr>core := settle (core s)\<rparr>)"
  by (simp add: lock_simps runningD)

lemma acquiresleep_free [lock_simps]:
  assumes "running p s" and "\<not> sl_locked (slocks s k)"
  shows "acquiresleep k s = Inr (set_slock k \<lparr>sl_locked = True, sl_pid = pid (procs s p)\<rparr>
    (s\<lparr>core := settle (core s)\<rparr>))"
proof -
  note r = runningD [OF assms(1)]
  let ?s = "set_slock k ((slocks s k)\<lparr>sl_locked := True\<rparr>) (s\<lparr>core := acq (SleepLk k) (core s)\<rparr>)"
  have "curproc ?s = Inr (p, ?s)" by (rule curproc_locked [of _ "SleepLk k" "core s"]) (use r in simp_all)
  then show ?thesis using assms(2) r by (simp add: acquiresleep_def lock_simps)
qed

lemma acquiresleep_taken [lock_simps]:
  "running p s \<Longrightarrow> sl_locked (slocks s k) \<Longrightarrow> acquiresleep k s = Inl (Sleeps (ChSleepLock k))"
  by (simp add: acquiresleep_def lock_simps runningD)

lemma releasesleep_eq [lock_simps]:
  assumes "running p s"
  shows "releasesleep k s = Inr (set_slock k \<lparr>sl_locked = False, sl_pid = 0\<rparr>
    (wake (ChSleepLock k) (s\<lparr>core := settle (core s)\<rparr>)))"
  using runningD [OF assms] by (simp add: releasesleep_def lock_simps)

lemma holdingsleep_eq [lock_simps]:
  assumes "running p s"
  shows "holdingsleep k s = Inr (sl_locked (slocks s k) \<and> sl_pid (slocks s k) = pid (procs s p),
    s\<lparr>core := settle (core s)\<rparr>)"
proof -
  note r = runningD [OF assms]
  let ?s = "s\<lparr>core := acq (SleepLk k) (core s)\<rparr>"
  have "curproc ?s = Inr (p, ?s)" by (rule curproc_locked [of _ "SleepLk k" "core s"]) (use r in simp_all)
  then show ?thesis using r by (simp add: holdingsleep_def lock_simps)
qed

section \<open>The contract of a lock\<close>

text \<open>A section of code bracketed by a lock.\<close>

definition bracket :: "('s \<Rightarrow> 's kres) \<Rightarrow> ('s \<Rightarrow> 's kres) \<Rightarrow> ('s \<Rightarrow> 's kres) \<Rightarrow> 's \<Rightarrow> 's kres" where
  "bracket tk gv f s = kbind (tk s) (\<lambda>s. kbind (f s) gv)"

locale mutex =
  fixes ready :: "'s \<Rightarrow> bool" and free :: "'s \<Rightarrow> bool" and mine :: "'s \<Rightarrow> bool"
    and tk :: "'s \<Rightarrow> 's kres" and gv :: "'s \<Rightarrow> 's kres"
  assumes take_free: "ready s \<Longrightarrow> free s \<Longrightarrow> \<exists>s'. tk s = Inr s' \<and> ready s' \<and> mine s'"
    and take_busy: "ready s \<Longrightarrow> \<not> free s \<Longrightarrow> \<exists>e. tk s = Inl e"
    and give_mine: "ready s \<Longrightarrow> mine s \<Longrightarrow> \<exists>s'. gv s = Inr s' \<and> ready s' \<and> free s'"
    and exclusive: "ready s \<Longrightarrow> mine s \<Longrightarrow> \<not> free s"
begin

lemma take_iff_free: "ready s \<Longrightarrow> (\<exists>s'. tk s = Inr s') \<longleftrightarrow> free s"
  using take_free take_busy by (metis Inl_Inr_False)

text \<open>The lock cannot be taken twice, nor by anyone else while it is held.\<close>

lemma no_reentry: "ready s \<Longrightarrow> tk s = Inr s' \<Longrightarrow> \<exists>e. tk s' = Inl e"
  using take_iff_free take_free exclusive take_busy by (metis Inr_inject)

text \<open>A bracketed section that does not give the lock away ends with the lock free again.\<close>

lemma bracket_frees:
  assumes "ready s" and "free s"
    and "\<And>t. ready t \<Longrightarrow> mine t \<Longrightarrow> \<exists>t'. f t = Inr t' \<and> ready t' \<and> mine t'"
  shows "\<exists>s'. bracket tk gv f s = Inr s' \<and> ready s' \<and> free s'"
  using take_free [OF assms(1,2)] assms(3) give_mine by (fastforce simp: bracket_def)

end

interpretation spin: mutex core_ok "\<lambda>c. \<not> locked (locks c l)" "\<lambda>c. holding l c \<and> noff (mycpu c) > 0"
  "acquire l" "release l"
proof unfold_locales
  fix c
  have h: "holding l (push_off c) = holding l c" by (simp add: holding_def)
  show "\<exists>c'. acquire l c = Inr c' \<and> core_ok c' \<and> holding l c' \<and> noff (mycpu c') > 0"
    if "core_ok c" "\<not> locked (locks c l)"
    using that by (auto simp: acquire_def holding_def push_off_def core_defs core_ok_def Let_def)
  show "\<exists>e. acquire l c = Inl e" if "\<not> \<not> locked (locks c l)"
    using that by (simp add: acquire_def h Let_def)
  show "\<exists>c'. release l c = Inr c' \<and> core_ok c' \<and> \<not> locked (locks c' l)"
    if "core_ok c" "holding l c \<and> noff (mycpu c) > 0"
    using that by (auto simp: release_def holding_def pop_off_def core_defs core_ok_def Let_def)
  show "\<not> \<not> locked (locks c l)" if "holding l c \<and> noff (mycpu c) > 0"
    using that by (simp add: holding_def)
qed

interpretation slp: mutex "running p" "\<lambda>s. \<not> sl_locked (slocks s k)"
  "\<lambda>s. sl_locked (slocks s k) \<and> sl_pid (slocks s k) = pid (procs s p)" "acquiresleep k" "releasesleep k"
proof unfold_locales
  fix s :: "'a slk_st_scheme"
  show "\<exists>s'. acquiresleep k s = Inr s' \<and> running p s'
      \<and> sl_locked (slocks s' k) \<and> sl_pid (slocks s' k) = pid (procs s' p)"
    if "running p s" "\<not> sl_locked (slocks s k)"
    using that by (simp add: lock_simps running_def)
  show "\<exists>e. acquiresleep k s = Inl e" if "running p s" "\<not> \<not> sl_locked (slocks s k)"
    using that by (simp add: lock_simps)
  show "\<exists>s'. releasesleep k s = Inr s' \<and> running p s' \<and> \<not> sl_locked (slocks s' k)"
    if "running p s" using that by (simp add: lock_simps running_def)
qed simp

section \<open>Properties\<close>

text \<open>
  A sleep lock excludes: a process takes it exactly when it is free, and then every further
  \<open>acquiresleep\<close>, by this process or another, sleeps until \<open>releasesleep\<close>; \<open>holdingsleep\<close> tells the holder
  from the others.
\<close>

theorem sleeplock_excludes:
  fixes s :: "'a slk_st_scheme"
  assumes "running p s"
  shows "((\<exists>s'. acquiresleep k s = Inr s') \<longleftrightarrow> \<not> sl_locked (slocks s k))
    \<and> (\<forall>s'. acquiresleep k s = Inr s' \<longrightarrow>
         (\<exists>e. acquiresleep k s' = Inl e)
         \<and> (\<exists>t. holdingsleep k s' = Inr (True, t))
         \<and> (\<exists>t. releasesleep k s' = Inr t \<and> \<not> sl_locked (slocks t k)))"
proof (intro conjI allI impI)
  show "(\<exists>s'. acquiresleep k s = Inr s') \<longleftrightarrow> \<not> sl_locked (slocks s k)"
    by (rule slp.take_iff_free [OF assms])
  fix s' assume a: "acquiresleep k s = Inr s'"
  then show "\<exists>e. acquiresleep k s' = Inl e" by (rule slp.no_reentry [OF assms])
  have f: "\<not> sl_locked (slocks s k)" using a slp.take_iff_free [OF assms] by blast
  then have s': "s' = set_slock k \<lparr>sl_locked = True, sl_pid = pid (procs s p)\<rparr> (s\<lparr>core := settle (core s)\<rparr>)"
    using a assms by (simp add: lock_simps)
  have r: "running p s'" using assms by (simp add: s' running_def)
  show "\<exists>t. holdingsleep k s' = Inr (True, t)" using r by (simp add: lock_simps) (simp add: s')
  show "\<exists>t. releasesleep k s' = Inr t \<and> \<not> sl_locked (slocks t k)" using r by (simp add: lock_simps)
qed

definition slk_demo :: slk_st where
  "slk_demo = proc_st.extend demo \<lparr>slocks = (\<lambda>_. \<lparr>sl_locked = False, sl_pid = 0\<rparr>)\<rparr>"

lemma sleeplock_excludes_witness:
  "\<exists>s'. acquiresleep (EntSL Root) slk_demo = Inr s' \<and> (\<exists>e. acquiresleep (EntSL Root) s' = Inl e)"
proof -
  have "core slk_demo = demo_core" "\<not> sl_locked (slocks slk_demo k)" for k
    by (simp_all add: slk_demo_def proc_st.defs demo_def)
  then show ?thesis using sleeplock_excludes [of 2 slk_demo "EntSL Root"] by (auto simp: running_def)
qed

end
