(* ===== verification/Store.thy ===== *)
theory Store imports Prelude begin

text \<open>
  The contract of a store of cells that is read and written one cell at a time: what a read returns is the cell of an
  abstract map, a write changes that cell of the map and no other. The buffer cache provides it for the
  sectors of the disk, the FAT layer for the entries of the file allocation table.
\<close>

text \<open>A client's script: a list of writes, run from the left.\<close>

primrec put_all :: "('k \<Rightarrow> 'v \<Rightarrow> 's \<Rightarrow> 's kres) \<Rightarrow> ('k \<times> 'v) list \<Rightarrow> 's \<Rightarrow> 's kres" where
  "put_all put [] s = Inr s"
| "put_all put (kv # kvs) s = kbind (put (fst kv) (snd kv) s) (put_all put kvs)"

locale block_store =
  fixes ok :: "'s \<Rightarrow> bool" and key :: "'k \<Rightarrow> bool" and view :: "'s \<Rightarrow> 'k \<Rightarrow> 'v"
    and value_ok :: "'v \<Rightarrow> bool"
    and get :: "'k \<Rightarrow> 's \<Rightarrow> ('v \<times> 's) kres" and put :: "'k \<Rightarrow> 'v \<Rightarrow> 's \<Rightarrow> 's kres"
  assumes get_view: "ok s \<Longrightarrow> key k \<Longrightarrow>
      \<exists>s'. get k s = Inr (view s k, s') \<and> ok s' \<and> (\<forall>j. key j \<longrightarrow> view s' j = view s j)"
    and put_view: "ok s \<Longrightarrow> key k \<Longrightarrow> value_ok v \<Longrightarrow>
      \<exists>s'. put k v s = Inr s' \<and> ok s' \<and> view s' k = v \<and> (\<forall>j. key j \<longrightarrow> j \<noteq> k \<longrightarrow> view s' j = view s j)"
begin

lemma get_after_put:
  assumes "ok s" and "key k" and "value_ok v" and "put k v s = Inr s'"
  shows "\<exists>s''. get k s' = Inr (v, s'') \<and> ok s''"
  using put_view [OF assms(1-3)] get_view [OF _ assms(2)] assms(4) by (metis Inr_inject)

lemma get_after_other_put:
  assumes "ok s" and "key k" and "value_ok v" and "put k v s = Inr s'" and "key j" and "j \<noteq> k"
  shows "\<exists>s''. get j s' = Inr (view s j, s'') \<and> ok s''"
  using put_view [OF assms(1-3)] get_view [OF _ assms(5)] assms(4,5,6) by (metis Inr_inject)

lemma put_all_view:
  assumes "ok s" and "\<forall>kv\<in>set kvs. key (fst kv) \<and> value_ok (snd kv)"
  shows "\<exists>s'. put_all put kvs s = Inr s' \<and> ok s'
    \<and> (\<forall>j. key j \<longrightarrow> view s' j = (case map_of (rev kvs) j of None \<Rightarrow> view s j | Some v \<Rightarrow> v))"
  using assms
proof (induction kvs arbitrary: s)
  case (Cons kv kvs)
  obtain t where t: "put (fst kv) (snd kv) s = Inr t" "ok t" "view t (fst kv) = snd kv"
      "\<forall>j. key j \<longrightarrow> j \<noteq> fst kv \<longrightarrow> view t j = view s j"
    using put_view [of s "fst kv" "snd kv"] Cons.prems by auto
  obtain s' where s': "put_all put kvs t = Inr s'" "ok s'"
      "\<forall>j. key j \<longrightarrow> view s' j = (case map_of (rev kvs) j of None \<Rightarrow> view t j | Some v \<Rightarrow> v)"
    using Cons.IH [of t] t(2) Cons.prems by auto
  have "view s' j = (case map_of (rev (kv # kvs)) j of None \<Rightarrow> view s j | Some v \<Rightarrow> v)" if "key j" for j
    using s'(3) t(3,4) that by (cases "j = fst kv") (auto split: option.splits simp: map_add_def)
  then show ?case using s' t by simp
qed simp

text \<open>A script of writes, then a read: the last write of the cell wins, and the others do not disturb it.\<close>

lemma get_after_puts:
  assumes "ok s" and "\<forall>kv\<in>set kvs. key (fst kv) \<and> value_ok (snd kv)" and "key j"
  shows "\<exists>s' s''. put_all put kvs s = Inr s'
    \<and> get j s' = Inr (case map_of (rev kvs) j of None \<Rightarrow> view s j | Some v \<Rightarrow> v, s'')"
  using put_all_view [OF assms(1,2)] get_view [OF _ assms(3)] assms(3) by metis

end

end
