(* ===== verification/Bio.thy ===== *)
theory Bio imports Sleeplock Riscv Store begin

text \<open>
  kernel/bio.c and kernel/disk.c: the cache of disk sectors. The buffers are linked in a ring through \<open>bcache.head\<close>,
  most recently used first. The abstraction \<open>ring\<close> reads the links back as a list, on which
  \<open>bget\<close> and \<open>brelse\<close> are a search and a move to front; the theorem is that clients see the disk.
\<close>

section \<open>State\<close>

text \<open>
  \<open>struct buf\<close> of libs/buf.h. Its lock is the sleep lock \<open>BufSL i\<close>; its links are the maps
  \<open>bnext\<close> and \<open>bprev\<close> below, one per field of the struct, over the nodes of the ring. \<open>sectors\<close> is the storage device: one
  array of 512-byte sectors, whatever the device number.
\<close>

datatype bnode = Head | Buf nat

record buf =
  valid :: bool
  bdev :: u32
  sectorno :: u32
  refcnt :: u32
  bdata :: "u8 list"

record bio_st = slk_st +
  bufs :: "nat \<Rightarrow> buf"
  bnext :: "bnode \<Rightarrow> bnode"
  bprev :: "bnode \<Rightarrow> bnode"
  sectors :: "u32 \<Rightarrow> u8 list"

definition BSIZE :: nat where "BSIZE = 512"

definition set_buf :: "nat \<Rightarrow> buf \<Rightarrow> 'a bio_st_scheme \<Rightarrow> 'a bio_st_scheme" where
  "set_buf i b s = s\<lparr>bufs := (bufs s)(i := b)\<rparr>"

definition set_next :: "bnode \<Rightarrow> bnode \<Rightarrow> 'a bio_st_scheme \<Rightarrow> 'a bio_st_scheme" where
  "set_next a b s = s\<lparr>bnext := (bnext s)(a := b)\<rparr>"

definition set_prev :: "bnode \<Rightarrow> bnode \<Rightarrow> 'a bio_st_scheme \<Rightarrow> 'a bio_st_scheme" where
  "set_prev a b s = s\<lparr>bprev := (bprev s)(a := b)\<rparr>"

section \<open>Operations\<close>

definition binit_buf :: "nat \<Rightarrow> 'a bio_st_scheme \<Rightarrow> 'a bio_st_scheme" where
  "binit_buf i s =
    (let s = set_buf i ((bufs s i)\<lparr>refcnt := 0, sectorno := - 1, bdev := - 1\<rparr>) s;
         s = set_next (Buf i) (bnext s Head) s;
         s = set_prev (Buf i) Head s;
         s = initsleeplock (BufSL i) s;
         s = set_prev (bnext s Head) (Buf i) s
     in set_next Head (Buf i) s)"

definition binit :: "'a bio_st_scheme \<Rightarrow> 'a bio_st_scheme" where
  "binit s =
    (let s = s\<lparr>core := initlock BcacheLock (core s)\<rparr>;
         s = set_prev Head Head s;
         s = set_next Head Head s
     in fold binit_buf [0..<NBUF] s)"

text \<open>The two searches of \<open>bget\<close>; a chain of links that does not come back to \<open>head\<close> gives \<open>Deep\<close>.\<close>

fun find_cached :: "nat \<Rightarrow> bnode \<Rightarrow> u32 \<Rightarrow> u32 \<Rightarrow> 'a bio_st_scheme \<Rightarrow> nat option kres" where
  "find_cached fuel Head dev sec s = Inr None"
| "find_cached 0 (Buf i) dev sec s = Inl Deep"
| "find_cached (Suc fuel) (Buf i) dev sec s =
    (if bdev (bufs s i) = dev \<and> sectorno (bufs s i) = sec then Inr (Some i)
     else find_cached fuel (bnext s (Buf i)) dev sec s)"

fun find_unused :: "nat \<Rightarrow> bnode \<Rightarrow> 'a bio_st_scheme \<Rightarrow> nat option kres" where
  "find_unused fuel Head s = Inr None"
| "find_unused 0 (Buf i) s = Inl Deep"
| "find_unused (Suc fuel) (Buf i) s =
    (if refcnt (bufs s i) = 0 then Inr (Some i) else find_unused fuel (bprev s (Buf i)) s)"

definition bget :: "u32 \<Rightarrow> u32 \<Rightarrow> 'a bio_st_scheme \<Rightarrow> (nat \<times> 'a bio_st_scheme) kres" where
  "bget dev sec s =
    kbind (lock BcacheLock s) (\<lambda>s.
    kbind (find_cached NBUF (bnext s Head) dev sec s) (\<lambda>r.
      case r of
        Some b \<Rightarrow>
          let s = set_buf b ((bufs s b)\<lparr>refcnt := refcnt (bufs s b) + 1\<rparr>) s in
          kbind (unlock BcacheLock s) (\<lambda>s.
          kbind (acquiresleep (BufSL b) s) (\<lambda>s. Inr (b, s)))
      | None \<Rightarrow>
          kbind (find_unused NBUF (bprev s Head) s) (\<lambda>r.
            case r of
              Some b \<Rightarrow>
                let s = set_buf b ((bufs s b)\<lparr>bdev := dev, sectorno := sec, valid := False, refcnt := 1\<rparr>) s in
                kbind (unlock BcacheLock s) (\<lambda>s.
                kbind (acquiresleep (BufSL b) s) (\<lambda>s. Inr (b, s)))
            | None \<Rightarrow> Inl (Panic ''bget: no buffers''))))"

text \<open>disk.c: the drivers transfer one sector and look at the sector number only.\<close>

definition disk_read :: "nat \<Rightarrow> 'a bio_st_scheme \<Rightarrow> 'a bio_st_scheme" where
  "disk_read b s = set_buf b ((bufs s b)\<lparr>bdata := sectors s (sectorno (bufs s b))\<rparr>) s"

definition disk_write :: "nat \<Rightarrow> 'a bio_st_scheme \<Rightarrow> 'a bio_st_scheme" where
  "disk_write b s = s\<lparr>sectors := (sectors s)(sectorno (bufs s b) := bdata (bufs s b))\<rparr>"

definition bread :: "u32 \<Rightarrow> u32 \<Rightarrow> 'a bio_st_scheme \<Rightarrow> (nat \<times> 'a bio_st_scheme) kres" where
  "bread dev sec s =
    kbind (bget dev sec s) (\<lambda>(b, s).
      let s = (if \<not> valid (bufs s b)
               then let s = disk_read b s in set_buf b ((bufs s b)\<lparr>valid := True\<rparr>) s
               else s)
      in Inr (b, s))"

definition bwrite :: "nat \<Rightarrow> 'a bio_st_scheme \<Rightarrow> 'a bio_st_scheme kres" where
  "bwrite b s =
    kbind (holdingsleep (BufSL b) s) (\<lambda>(h, s).
      if \<not> h then Inl (Panic ''bwrite'') else Inr (disk_write b s))"

definition move_front :: "nat \<Rightarrow> 'a bio_st_scheme \<Rightarrow> 'a bio_st_scheme" where
  "move_front b s =
    (let s = set_prev (bnext s (Buf b)) (bprev s (Buf b)) s;
         s = set_next (bprev s (Buf b)) (bnext s (Buf b)) s;
         s = set_next (Buf b) (bnext s Head) s;
         s = set_prev (Buf b) Head s;
         s = set_prev (bnext s Head) (Buf b) s
     in set_next Head (Buf b) s)"

definition brelse :: "nat \<Rightarrow> 'a bio_st_scheme \<Rightarrow> 'a bio_st_scheme kres" where
  "brelse b s =
    kbind (holdingsleep (BufSL b) s) (\<lambda>(h, s).
      if \<not> h then Inl (Panic ''brelse'')
      else
        kbind (releasesleep (BufSL b) s) (\<lambda>s.
        kbind (lock BcacheLock s) (\<lambda>s.
          let s = set_buf b ((bufs s b)\<lparr>refcnt := refcnt (bufs s b) - 1\<rparr>) s;
              s = (if refcnt (bufs s b) = 0 then move_front b s else s)
          in unlock BcacheLock s)))"

definition bpin :: "nat \<Rightarrow> 'a bio_st_scheme \<Rightarrow> 'a bio_st_scheme kres" where
  "bpin b s =
    kbind (lock BcacheLock s) (\<lambda>s.
      unlock BcacheLock (set_buf b ((bufs s b)\<lparr>refcnt := refcnt (bufs s b) + 1\<rparr>) s))"

definition bunpin :: "nat \<Rightarrow> 'a bio_st_scheme \<Rightarrow> 'a bio_st_scheme kres" where
  "bunpin b s =
    kbind (lock BcacheLock s) (\<lambda>s.
      unlock BcacheLock (set_buf b ((bufs s b)\<lparr>refcnt := refcnt (bufs s b) - 1\<rparr>) s))"

section \<open>The ring\<close>

text \<open>\<open>chain nx pv a xs c\<close>: from \<open>a\<close> the links lead through \<open>xs\<close> to \<open>c\<close> and back.\<close>

primrec chain :: "('n \<Rightarrow> 'n) \<Rightarrow> ('n \<Rightarrow> 'n) \<Rightarrow> 'n \<Rightarrow> 'n list \<Rightarrow> 'n \<Rightarrow> bool" where
  "chain nx pv a [] c \<longleftrightarrow> nx a = c \<and> pv c = a"
| "chain nx pv a (x # xs) c \<longleftrightarrow> nx a = x \<and> pv x = a \<and> chain nx pv x xs c"

lemma chain_cong:
  "chain nx pv a xs c \<Longrightarrow> (\<And>x. x \<in> insert a (set xs) \<Longrightarrow> nx' x = nx x) \<Longrightarrow>
   (\<And>x. x \<in> insert c (set xs) \<Longrightarrow> pv' x = pv x) \<Longrightarrow> chain nx' pv' a xs c"
  by (induction xs arbitrary: a) auto

lemma chain_append:
  "chain nx pv a (xs @ y # ys) c \<longleftrightarrow> chain nx pv a xs y \<and> chain nx pv y ys c"
  by (induction xs arbitrary: a) auto

lemma chain_last: "chain nx pv a xs c \<Longrightarrow> pv c = last (a # xs)"
  by (induction xs arbitrary: a) auto

lemma chain_first: "chain nx pv a xs c \<Longrightarrow> nx a = hd (xs @ [c])"
  by (cases xs) auto

text \<open>Taking a node out, as the first two stores of \<open>brelse\<close> do.\<close>

lemma chain_unlink:
  assumes "chain nx pv a us b" and "chain nx pv b vs c"
    and "distinct (us @ b # vs)" and "a \<notin> set (us @ b # vs)" and "c \<notin> set (us @ b # vs)"
  shows "chain (nx(pv b := nx b)) (pv(nx b := pv b)) a (us @ vs) c"
  using assms
proof (induction us arbitrary: a)
  case Nil
  show ?case
  proof (cases vs)
    case Nil': Nil
    then show ?thesis using Nil.prems by simp
  next
    case (Cons v vs')
    have b: "pv b = a" "nx b = v" using Cons Nil.prems by simp_all
    have "chain (nx(a := v)) (pv(v := a)) v vs' c"
      by (rule chain_cong [of nx pv]) (use Cons Nil.prems in auto)
    then show ?thesis unfolding b append_Nil Cons chain.simps by (simp only: fun_upd_same simp_thms)
  qed
next
  case (Cons u us)
  have IH: "chain (nx(pv b := nx b)) (pv(nx b := pv b)) u (us @ vs) c"
    by (rule Cons.IH) (use Cons.prems in auto)
  have "pv b = last (u # us)" using chain_last [of nx pv u us b] Cons.prems(1) by simp
  then have "pv b \<in> set (u # us)" using last_in_set [of "u # us"] by (simp only: list.distinct not_False_eq_True)
  then have "pv b \<noteq> a" using Cons.prems(4) by auto
  moreover have "nx b \<noteq> u"
    using chain_first [OF Cons.prems(2)] Cons.prems(3,5) by (cases vs) auto
  ultimately have "(nx(pv b := nx b)) a = u" "(pv(nx b := pv b)) u = a"
    using Cons.prems(1) by auto
  with IH show ?case by (simp only: append_Cons chain.simps simp_thms)
qed

text \<open>Putting a node in front, as the other four do.\<close>

lemma chain_insert:
  assumes "chain nx pv a xs c" and "x \<notin> set xs" and "x \<noteq> a" and "x \<noteq> c"
    and "a \<notin> set xs" and "c \<notin> set xs" and "distinct xs"
  shows "chain (nx(x := nx a, a := x)) (pv(x := a, nx a := x)) a (x # xs) c"
proof -
  have na: "nx a = hd (xs @ [c])" using chain_first [OF assms(1)] .
  show ?thesis
  proof (cases xs)
    case Nil then show ?thesis using assms na by auto
  next
    case (Cons y ys)
    have "chain (nx(x := y, a := x)) (pv(x := a, y := x)) y ys c"
      by (rule chain_cong [of nx pv]) (use Cons assms in auto)
    then show ?thesis using Cons assms by auto
  qed
qed

definition ring :: "'a bio_st_scheme \<Rightarrow> nat list \<Rightarrow> bool" where
  "ring s xs \<longleftrightarrow> chain (bnext s) (bprev s) Head (map Buf xs) Head \<and> distinct xs \<and> set xs = {..<NBUF}"

text \<open>Both searches walk the list, from its two ends.\<close>

lemma find_cached_chain:
  "chain (bnext s) pv a (map Buf xs) Head \<Longrightarrow> length xs \<le> fuel \<Longrightarrow>
   find_cached fuel (bnext s a) dev sec s
     = Inr (find (\<lambda>i. bdev (bufs s i) = dev \<and> sectorno (bufs s i) = sec) xs)"
proof (induction xs arbitrary: a fuel)
  case (Cons x xs) then show ?case by (cases fuel) auto
qed simp

lemma find_unused_chain:
  "chain nx (bprev s) a (map Buf xs) c \<Longrightarrow> a = Head \<Longrightarrow> length xs \<le> fuel \<Longrightarrow>
   find_unused fuel (bprev s c) s = Inr (find (\<lambda>i. refcnt (bufs s i) = 0) (rev xs))"
proof (induction xs arbitrary: c fuel rule: rev_induct)
  case (snoc x xs)
  then obtain f where f: "fuel = Suc f" by (cases fuel) auto
  have "chain nx (bprev s) a (map Buf xs) (Buf x)" "bprev s c = Buf x"
    using snoc.prems(1) by (simp_all add: chain_append)
  then show ?case using snoc.IH [of "Buf x" f] snoc.prems f by simp
qed simp

lemma find_SomeD: "find P xs = Some x \<Longrightarrow> P x \<and> x \<in> set xs"
  by (induction xs) (auto split: if_splits)

lemma ring_length: "ring s xs \<Longrightarrow> length xs = NBUF"
  unfolding ring_def by (metis card_lessThan distinct_card)

lemma ring_searches:
  assumes "ring s xs"
  shows "find_cached NBUF (bnext s Head) dev sec s
      = Inr (find (\<lambda>i. bdev (bufs s i) = dev \<and> sectorno (bufs s i) = sec) xs)"
    and "find_unused NBUF (bprev s Head) s = Inr (find (\<lambda>i. refcnt (bufs s i) = 0) (rev xs))"
  using assms ring_length [OF assms] find_cached_chain [of s "bprev s" Head xs NBUF]
    find_unused_chain [of "bnext s" s Head xs Head NBUF]
  by (simp_all add: ring_def)

section \<open>Closed forms\<close>

lemma bio_simps [simp]:
  "core (set_buf i b s) = core s" "procs (set_buf i b s) = procs s" "mem (set_buf i b s) = mem s"
  "slocks (set_buf i b s) = slocks s" "bufs (set_buf i b s) = (bufs s)(i := b)"
  "bnext (set_buf i b s) = bnext s" "bprev (set_buf i b s) = bprev s" "sectors (set_buf i b s) = sectors s"
  "core (set_next x y s) = core s" "procs (set_next x y s) = procs s" "mem (set_next x y s) = mem s"
  "slocks (set_next x y s) = slocks s" "bufs (set_next x y s) = bufs s"
  "bnext (set_next x y s) = (bnext s)(x := y)" "bprev (set_next x y s) = bprev s"
  "sectors (set_next x y s) = sectors s"
  "core (set_prev x y s) = core s" "procs (set_prev x y s) = procs s" "mem (set_prev x y s) = mem s"
  "slocks (set_prev x y s) = slocks s" "bufs (set_prev x y s) = bufs s"
  "bnext (set_prev x y s) = bnext s" "bprev (set_prev x y s) = (bprev s)(x := y)"
  "sectors (set_prev x y s) = sectors s"
  "bufs (set_slock k v s) = bufs s" "bnext (set_slock k v s) = bnext s"
  "bprev (set_slock k v s) = bprev s" "sectors (set_slock k v s) = sectors s"
  "bufs (wake ch s) = bufs s" "bnext (wake ch s) = bnext s" "bprev (wake ch s) = bprev s"
  "sectors (wake ch s) = sectors s"
  by (simp_all add: set_buf_def set_next_def set_prev_def set_slock_def wake_def)

lemma bio_core_upd [simp]:
  "(set_buf i b s)\<lparr>core := c\<rparr> = set_buf i b (s\<lparr>core := c\<rparr>)"
  "(set_next x y s)\<lparr>core := c\<rparr> = set_next x y (s\<lparr>core := c\<rparr>)"
  "(set_prev x y s)\<lparr>core := c\<rparr> = set_prev x y (s\<lparr>core := c\<rparr>)"
  by (simp_all add: set_buf_def set_next_def set_prev_def)

lemma running_simps [simp]:
  "running p (set_buf i b s) = running p s" "running p (set_next x y s) = running p s"
  "running p (set_prev x y s) = running p s" "running p (set_slock k v s) = running p s"
  "running p (wake ch s) = running p s"
  by (simp_all add: running_def)

definition hit :: "u32 \<Rightarrow> u32 \<Rightarrow> 'a bio_st_scheme \<Rightarrow> nat \<Rightarrow> bool" where
  "hit dev sec s i \<longleftrightarrow> bdev (bufs s i) = dev \<and> sectorno (bufs s i) = sec"

definition idle_buf :: "'a bio_st_scheme \<Rightarrow> nat \<Rightarrow> bool" where
  "idle_buf s i \<longleftrightarrow> refcnt (bufs s i) = 0"

text \<open>What \<open>bget\<close> does to the buffer it picks.\<close>

definition picked :: "nat \<Rightarrow> nat \<Rightarrow> buf \<Rightarrow> 'a bio_st_scheme \<Rightarrow> 'a bio_st_scheme" where
  "picked p i b s = set_slock (BufSL i) \<lparr>sl_locked = True, sl_pid = pid (procs s p)\<rparr>
    (set_buf i b (s\<lparr>core := settle (core s)\<rparr>))"

lemma ring_core [simp]: "ring (s\<lparr>core := c\<rparr>) xs = ring s xs"
  by (simp add: ring_def)

lemma unlock_buf:
  "running p s \<Longrightarrow> unlock l (set_buf i b (s\<lparr>core := acq l (core s)\<rparr>)) = Inr (set_buf i b (s\<lparr>core := settle (core s)\<rparr>))"
  using unlock_acq [of "set_buf i b (s\<lparr>core := acq l (core s)\<rparr>)" l "core s"]
  by (simp add: runningD set_buf_def)

lemma acquiresleep_buf:
  assumes "running p s" and "\<not> sl_locked (slocks s (BufSL i))"
  shows "acquiresleep (BufSL i) (set_buf i b (s\<lparr>core := settle (core s)\<rparr>)) = Inr (picked p i b s)"
  using assms acquiresleep_free [of p "set_buf i b (s\<lparr>core := settle (core s)\<rparr>)" "BufSL i"]
  by (simp add: picked_def)

lemma bget_hit:
  assumes "running p s" and "ring s xs" and "find (hit dev sec s) xs = Some i"
    and "\<not> sl_locked (slocks s (BufSL i))"
  shows "bget dev sec s = Inr (i, picked p i ((bufs s i)\<lparr>refcnt := refcnt (bufs s i) + 1\<rparr>) s)"
proof -
  note r = runningD [OF assms(1)]
  have "find_cached NBUF (bnext s Head) dev sec (s\<lparr>core := c\<rparr>) = Inr (Some i)" for c
    using ring_searches(1) [of "s\<lparr>core := c\<rparr>" xs dev sec] assms(2,3) by (simp add: hit_def [abs_def])
  then show ?thesis
    using assms r by (simp add: bget_def lock_simps unlock_buf [OF assms(1)] acquiresleep_buf)
qed

lemma bget_miss:
  assumes "running p s" and "ring s xs" and "find (hit dev sec s) xs = None"
    and "find (idle_buf s) (rev xs) = Some i" and "\<not> sl_locked (slocks s (BufSL i))"
  shows "bget dev sec s = Inr (i, picked p i
    ((bufs s i)\<lparr>bdev := dev, sectorno := sec, valid := False, refcnt := 1\<rparr>) s)"
proof -
  note r = runningD [OF assms(1)]
  have "find_cached NBUF (bnext s Head) dev sec (s\<lparr>core := c\<rparr>) = Inr None"
    "find_unused NBUF (bprev s Head) (s\<lparr>core := c\<rparr>) = Inr (Some i)" for c
    using ring_searches [of "s\<lparr>core := c\<rparr>" xs] assms(2,3,4)
    by (simp_all add: hit_def [abs_def] idle_buf_def [abs_def])
  then show ?thesis
    using assms r by (simp add: bget_def lock_simps unlock_buf [OF assms(1)] acquiresleep_buf)
qed

lemma bget_none:
  assumes "running p s" and "ring s xs" and "find (hit dev sec s) xs = None"
    and "find (idle_buf s) (rev xs) = None"
  shows "bget dev sec s = Inl (Panic ''bget: no buffers'')"
proof -
  note r = runningD [OF assms(1)]
  have "find_cached NBUF (bnext s Head) dev sec (s\<lparr>core := c\<rparr>) = Inr None"
    "find_unused NBUF (bprev s Head) (s\<lparr>core := c\<rparr>) = Inr None" for c
    using ring_searches [of "s\<lparr>core := c\<rparr>" xs] assms(2,3,4)
    by (simp_all add: hit_def [abs_def] idle_buf_def [abs_def])
  then show ?thesis
    using assms r by (simp add: bget_def lock_simps)
qed

lemma move_front_simps [simp]:
  "core (move_front b s) = core s" "procs (move_front b s) = procs s" "mem (move_front b s) = mem s"
  "slocks (move_front b s) = slocks s" "bufs (move_front b s) = bufs s"
  "sectors (move_front b s) = sectors s" "(move_front b s)\<lparr>core := c\<rparr> = move_front b (s\<lparr>core := c\<rparr>)"
  "running p (move_front b s) = running p s"
  by (simp_all add: move_front_def Let_def)

lemma move_front_ring:
  assumes "ring s xs" and "b < NBUF"
  shows "ring (move_front b s) (b # remove1 b xs)"
proof -
  have d: "distinct xs" and m: "b \<in> set xs" using assms by (auto simp: ring_def)
  obtain us vs where xs: "xs = us @ b # vs" "b \<notin> set us" using split_list_first [OF m] by blast
  have r1: "remove1 b xs = us @ vs" using xs by (simp add: remove1_append)
  have c: "chain (bnext s) (bprev s) Head (map Buf us) (Buf b)"
    "chain (bnext s) (bprev s) (Buf b) (map Buf vs) Head"
    using assms(1) by (simp_all add: ring_def xs(1) chain_append)
  define nx where "nx = (bnext s)(bprev s (Buf b) := bnext s (Buf b))"
  define pv where "pv = (bprev s)(bnext s (Buf b) := bprev s (Buf b))"
  have nb: "bnext s (Buf b) \<noteq> Buf b"
    using chain_first [OF c(2)] d by (cases vs) (auto simp: xs(1))
  have "chain nx pv Head (map Buf us @ map Buf vs) Head"
    unfolding nx_def pv_def
    by (rule chain_unlink [OF c]) (use d in \<open>auto simp: xs(1) distinct_map inj_on_def\<close>)
  then have "chain (nx(Buf b := nx Head, Head := Buf b)) (pv(Buf b := Head, nx Head := Buf b)) Head
      (Buf b # map Buf us @ map Buf vs) Head"
    by (rule chain_insert) (use d in \<open>auto simp: xs(1) distinct_map inj_on_def\<close>)
  moreover have "bnext (move_front b s) = nx(Buf b := nx Head, Head := Buf b)"
    "bprev (move_front b s) = pv(Buf b := Head, nx Head := Buf b)"
    using nb by (simp_all add: move_front_def Let_def nx_def pv_def)
  ultimately have "chain (bnext (move_front b s)) (bprev (move_front b s)) Head (map Buf (b # us @ vs)) Head"
    by simp
  moreover have "distinct (b # us @ vs)" "set (b # us @ vs) = {..<NBUF}"
    using d assms(1) by (auto simp: ring_def xs(1))
  ultimately show ?thesis unfolding ring_def r1 by blast
qed

text \<open>What \<open>brelse\<close> does to a buffer with one user.\<close>

definition unpicked :: "nat \<Rightarrow> 'a bio_st_scheme \<Rightarrow> 'a bio_st_scheme" where
  "unpicked i s = move_front i (set_buf i ((bufs s i)\<lparr>refcnt := 0\<rparr>)
    (set_slock (BufSL i) \<lparr>sl_locked = False, sl_pid = 0\<rparr> (wake (ChSleepLock (BufSL i)) (s\<lparr>core := settle (core s)\<rparr>))))"

lemma brelse_held:
  assumes "running p s" and "sl_locked (slocks s (BufSL i))" and "sl_pid (slocks s (BufSL i)) = pid (procs s p)"
    and "refcnt (bufs s i) = 1"
  shows "brelse i s = Inr (unpicked i s)"
proof -
  note r = runningD [OF assms(1)]
  have "unlock BcacheLock (move_front i t) = Inr (move_front i (t\<lparr>core := settle (core s)\<rparr>))"
    if "core t = acq BcacheLock (settle (core s))" for t :: "'a bio_st_scheme"
    using unlock_acq [of "move_front i t" BcacheLock "settle (core s)"] that r by simp
  then show ?thesis
    using assms r by (simp add: brelse_def lock_simps unpicked_def Let_def
        releasesleep_eq [OF running_settle [OF assms(1)]])
qed

lemma bwrite_held:
  assumes "running p s" and "sl_locked (slocks s (BufSL i))" and "sl_pid (slocks s (BufSL i)) = pid (procs s p)"
  shows "bwrite i s = Inr (disk_write i (s\<lparr>core := settle (core s)\<rparr>))"
  using assms by (simp add: bwrite_def lock_simps)

section \<open>The cache is transparent\<close>

text \<open>
  \<open>held\<close>: this process has the buffer. \<open>buf_ok\<close>: a buffer is held or has no user, belongs to the
  device \<open>dv\<close> when it is valid, and is a copy of its sector while nobody has it.
\<close>

definition held :: "nat \<Rightarrow> nat \<Rightarrow> 'a bio_st_scheme \<Rightarrow> bool" where
  "held p i s \<longleftrightarrow> refcnt (bufs s i) = 1 \<and> sl_locked (slocks s (BufSL i))
    \<and> sl_pid (slocks s (BufSL i)) = pid (procs s p)"

definition buf_ok :: "nat \<Rightarrow> u32 \<Rightarrow> 'a bio_st_scheme \<Rightarrow> nat \<Rightarrow> bool" where
  "buf_ok p dv s i \<longleftrightarrow> (held p i s \<or> refcnt (bufs s i) = 0 \<and> \<not> sl_locked (slocks s (BufSL i)))
    \<and> (valid (bufs s i) \<longrightarrow> bdev (bufs s i) = dv)
    \<and> (valid (bufs s i) \<longrightarrow> refcnt (bufs s i) = 0 \<longrightarrow> bdata (bufs s i) = sectors s (sectorno (bufs s i)))"

definition cache_ok :: "nat \<Rightarrow> u32 \<Rightarrow> 'a bio_st_scheme \<Rightarrow> bool" where
  "cache_ok p dv s \<longleftrightarrow> running p s \<and> (\<exists>xs. ring s xs) \<and> (\<forall>i<NBUF. buf_ok p dv s i)
    \<and> (\<forall>i<NBUF. \<forall>j<NBUF. bdev (bufs s i) = dv \<longrightarrow> bdev (bufs s j) = dv \<longrightarrow>
         sectorno (bufs s i) = sectorno (bufs s j) \<longrightarrow> i = j)"

text \<open>The buffers in use, and the sectors they cache.\<close>

definition in_use :: "nat \<Rightarrow> 'a bio_st_scheme \<Rightarrow> nat set" where
  "in_use p s = {i. i < NBUF \<and> held p i s}"

lemma cache_okD:
  assumes "cache_ok p dv s"
  shows "running p s" and "\<exists>xs. ring s xs" and "i < NBUF \<Longrightarrow> buf_ok p dv s i"
    and "i < NBUF \<Longrightarrow> j < NBUF \<Longrightarrow> bdev (bufs s i) = dv \<Longrightarrow> bdev (bufs s j) = dv \<Longrightarrow>
      sectorno (bufs s i) = sectorno (bufs s j) \<Longrightarrow> i = j"
  using assms unfolding cache_ok_def by blast+

lemma picked_simps [simp]:
  "core (picked p i b s) = settle (core s)" "procs (picked p i b s) = procs s" "mem (picked p i b s) = mem s"
  "bufs (picked p i b s) = (bufs s)(i := b)" "sectors (picked p i b s) = sectors s"
  "slocks (picked p i b s) = (slocks s)(BufSL i := \<lparr>sl_locked = True, sl_pid = pid (procs s p)\<rparr>)"
  "ring (picked p i b s) xs = ring s xs" "running p s \<Longrightarrow> running p (picked q i b s)"
  by (simp_all add: picked_def ring_def running_def)

text \<open>\<open>bget\<close> gives a buffer that nobody had, and leaves the cache in order.\<close>

lemma bget_ok:
  assumes ok: "cache_ok p dv s" and "in_use p s \<noteq> {..<NBUF}"
    and free: "\<forall>i\<in>in_use p s. \<not> hit dv sec s i"
  obtains i b where "bget dv sec s = Inr (i, picked p i b s)" and "i < NBUF" and "i \<notin> in_use p s"
    and "refcnt b = 1" and "bdev b = dv" and "sectorno b = sec"
    and "valid b \<longrightarrow> bdata b = sectors s sec" and "cache_ok p dv (picked p i b s)"
proof -
  note d = cache_okD [OF ok]
  obtain xs where r: "ring s xs" using d(2) by blast
  then have sx: "set xs = {..<NBUF}" by (simp add: ring_def)
  have fr: "refcnt (bufs s i) = 0 \<and> \<not> sl_locked (slocks s (BufSL i))" if "i < NBUF" "i \<notin> in_use p s" for i
    using d(3) [OF that(1)] that by (auto simp: buf_ok_def in_use_def)
  have step: "cache_ok p dv (picked p i b s)"
    if "i < NBUF" "refcnt b = 1" "bdev b = dv" "sectorno b = sec"
      "\<forall>j<NBUF. j \<noteq> i \<longrightarrow> \<not> hit dv sec s j" for i b
    unfolding cache_ok_def
  proof (intro conjI allI impI)
    show "running p (picked p i b s)" "\<exists>xs. ring (picked p i b s) xs" using d(1,2) by simp_all
    show "buf_ok p dv (picked p i b s) j" if "j < NBUF" for j
      using d(3) [OF that] \<open>refcnt b = 1\<close> \<open>bdev b = dv\<close> by (auto simp: buf_ok_def held_def)
    fix j k assume jk: "j < NBUF" "k < NBUF" "bdev (bufs (picked p i b s) j) = dv"
      "bdev (bufs (picked p i b s) k) = dv" "sectorno (bufs (picked p i b s) j) = sectorno (bufs (picked p i b s) k)"
    show "j = k"
    proof (cases "j = i \<or> k = i")
      case True
      have h: "x = i" if "x < NBUF" "bdev (bufs (picked p i b s) x) = dv" "sectorno (bufs (picked p i b s) x) = sec" for x
        using that \<open>\<forall>j<NBUF. j \<noteq> i \<longrightarrow> \<not> hit dv sec s j\<close> by (cases "x = i") (simp_all add: hit_def)
      have "sectorno (bufs (picked p i b s) i) = sec" using \<open>sectorno b = sec\<close> by simp
      then have "sectorno (bufs (picked p i b s) j) = sec" "sectorno (bufs (picked p i b s) k) = sec"
        using True jk(5) by metis+
      then show ?thesis using h jk by blast
    next
      case False
      then show ?thesis using jk d(4) [of j k] by simp
    qed
  qed
  show ?thesis
  proof (cases "find (hit dv sec s) xs")
    case (Some i)
    then have i: "hit dv sec s i" "i < NBUF" using sx find_SomeD [OF Some] by auto
    then have nu: "i \<notin> in_use p s" using free by blast
    let ?b = "(bufs s i)\<lparr>refcnt := refcnt (bufs s i) + 1\<rparr>"
    have "\<forall>j<NBUF. j \<noteq> i \<longrightarrow> \<not> hit dv sec s j" using d(4) [OF _ i(2)] i(1) by (auto simp: hit_def)
    then have "cache_ok p dv (picked p i ?b s)"
      using step [of i ?b] i fr [OF i(2) nu] by (simp add: hit_def)
    then show ?thesis
      using that [of i ?b] bget_hit [OF d(1) r Some] fr [OF i(2) nu] i nu d(3) [OF i(2)]
      by (auto simp: hit_def buf_ok_def)
  next
    case None
    then have nh: "\<not> hit dv sec s j" if "j < NBUF" for j using that sx by (auto simp: find_None_iff)
    obtain k where "k < NBUF" "k \<notin> in_use p s" using assms(2) by (auto simp: in_use_def)
    then have "\<exists>i\<in>set (rev xs). idle_buf s i" using sx fr by (auto simp: idle_buf_def)
    then obtain i where i: "find (idle_buf s) (rev xs) = Some i"
      by (metis find_None_iff option.exhaust)
    then have l: "i < NBUF" "refcnt (bufs s i) = 0"
      using sx find_SomeD [OF i] by (auto simp: idle_buf_def)
    then have nu: "i \<notin> in_use p s" by (auto simp: in_use_def held_def)
    let ?b = "(bufs s i)\<lparr>bdev := dv, sectorno := sec, valid := False, refcnt := 1\<rparr>"
    have "cache_ok p dv (picked p i ?b s)" using step [of i ?b] l nh by simp
    then show ?thesis
      using that [of i ?b] bget_miss [OF d(1) r None i] fr [OF l(1) nu] l nu by simp
  qed
qed

lemma held_picked [simp]: "held p i (picked p i b s) = (refcnt b = 1)"
  by (simp add: held_def)

lemma held_other [simp]: "j \<noteq> i \<Longrightarrow> held p j (picked p i b s) = held p j s"
  by (simp add: held_def)

text \<open>The holder of a buffer may change its data.\<close>

lemma set_held_ok:
  assumes "cache_ok p dv s" and "held p i s" and "i < NBUF"
    and "refcnt b = 1" and "bdev b = dv" and "bdev (bufs s i) = dv" and "sectorno b = sectorno (bufs s i)"
  shows "cache_ok p dv (set_buf i b s)" and "in_use p (set_buf i b s) = in_use p s"
proof -
  have "held p j (set_buf i b s) = held p j s" for j using assms(2,4) by (simp add: held_def)
  then show "in_use p (set_buf i b s) = in_use p s" by (simp add: in_use_def)
  show "cache_ok p dv (set_buf i b s)" unfolding cache_ok_def
  proof (intro conjI allI impI)
    show "running p (set_buf i b s)" "\<exists>xs. ring (set_buf i b s) xs"
      using cache_okD(1,2) [OF assms(1)] by (simp_all add: ring_def)
    show "buf_ok p dv (set_buf i b s) j" if "j < NBUF" for j
      using cache_okD(3) [OF assms(1) that] assms(2,4,5) by (auto simp: buf_ok_def held_def)
    have bd: "bdev (bufs (set_buf i b s) x) = bdev (bufs s x)" "sectorno (bufs (set_buf i b s) x) = sectorno (bufs s x)" for x
      using assms(5-7) by simp_all
    show "j = k" if "j < NBUF" "k < NBUF" "bdev (bufs (set_buf i b s) j) = dv" "bdev (bufs (set_buf i b s) k) = dv"
      "sectorno (bufs (set_buf i b s) j) = sectorno (bufs (set_buf i b s) k)" for j k
      using that unfolding bd by (rule cache_okD(4) [OF assms(1)])
  qed
qed

text \<open>\<open>bread\<close> gives the sector.\<close>

lemma bread_ok:
  assumes ok: "cache_ok p dv s" and "in_use p s \<noteq> {..<NBUF}"
    and free: "\<forall>i\<in>in_use p s. \<not> hit dv sec s i"
  obtains i b where "bread dv sec s = Inr (i, picked p i b s)" and "i < NBUF" and "i \<notin> in_use p s"
    and "refcnt b = 1" and "bdev b = dv" and "sectorno b = sec" and "valid b" and "bdata b = sectors s sec"
    and "cache_ok p dv (picked p i b s)"
proof -
  obtain i b where b: "bget dv sec s = Inr (i, picked p i b s)" "i < NBUF" "i \<notin> in_use p s"
    "refcnt b = 1" "bdev b = dv" "sectorno b = sec" "valid b \<longrightarrow> bdata b = sectors s sec"
    "cache_ok p dv (picked p i b s)"
    using bget_ok [OF assms] by metis
  let ?b = "b\<lparr>bdata := sectors s sec, valid := True\<rparr>"
  have sb: "set_buf i c (picked p i d s) = picked p i c s" for c d
    by (simp add: picked_def set_buf_def set_slock_def)
  show ?thesis
  proof (cases "valid b")
    case True
    then show ?thesis using b that [of i b] by (simp add: bread_def Let_def)
  next
    case False
    have "cache_ok p dv (picked p i ?b s)"
      using set_held_ok(1) [OF b(8), of i ?b] b by (simp add: sb)
    then show ?thesis
      using b False that [of i ?b] by (simp add: bread_def disk_read_def Let_def sb)
  qed
qed

text \<open>\<open>bwrite\<close> makes the sector what the buffer holds.\<close>

lemma bwrite_ok:
  assumes "cache_ok p dv s" and "held p i s" and "i < NBUF" and "bdev (bufs s i) = dv"
  shows "bwrite i s = Inr (disk_write i (s\<lparr>core := settle (core s)\<rparr>))"
    and "cache_ok p dv (disk_write i (s\<lparr>core := settle (core s)\<rparr>))"
    and "held p j (disk_write i (s\<lparr>core := settle (core s)\<rparr>)) = held p j s"
proof -
  let ?t = "disk_write i (s\<lparr>core := settle (core s)\<rparr>)"
  show "bwrite i s = Inr ?t"
    using bwrite_held [of p s i] cache_okD(1) [OF assms(1)] assms(2) by (simp add: held_def)
  have h: "held p j ?t = held p j s" for j by (simp add: held_def disk_write_def)
  then show "held p j ?t = held p j s" .
  show "cache_ok p dv ?t" unfolding cache_ok_def
  proof (intro conjI allI impI)
    show "running p ?t" using running_settle [OF cache_okD(1) [OF assms(1)]]
      by (simp add: running_def disk_write_def)
    show "\<exists>xs. ring ?t xs" using cache_okD(2) [OF assms(1)] by (simp add: ring_def disk_write_def)
    show "buf_ok p dv ?t j" if j: "j < NBUF" for j
    proof (cases "j = i")
      case True
      then show ?thesis using cache_okD(3) [OF assms(1) j] assms(2,4) h by (simp add: buf_ok_def held_def disk_write_def)
    next
      case False
      then have "sectorno (bufs s j) \<noteq> sectorno (bufs s i)" if "bdev (bufs s j) = dv"
        using cache_okD(4) [OF assms(1) j assms(3) that assms(4)] by auto
      then show ?thesis using cache_okD(3) [OF assms(1) j] h
        by (auto simp: buf_ok_def disk_write_def)
    qed
    show "j = k" if "j < NBUF" "k < NBUF" "bdev (bufs ?t j) = dv" "bdev (bufs ?t k) = dv"
      "sectorno (bufs ?t j) = sectorno (bufs ?t k)" for j k
      using cache_okD(4) [OF assms(1) that(1,2)] that(3-5) by (simp add: disk_write_def)
  qed
qed

text \<open>\<open>brelse\<close> gives a clean buffer back.\<close>

lemma brelse_ok:
  assumes "cache_ok p dv s" and "held p i s" and "i < NBUF"
    and "valid (bufs s i) \<longrightarrow> bdata (bufs s i) = sectors s (sectorno (bufs s i))"
  shows "brelse i s = Inr (unpicked i s)" and "cache_ok p dv (unpicked i s)"
    and "in_use p (unpicked i s) = in_use p s - {i}"
proof -
  show "brelse i s = Inr (unpicked i s)"
    using brelse_held [of p s i] cache_okD(1) [OF assms(1)] assms(2) by (simp add: held_def)
  have h: "held p j (unpicked i s) = (j \<noteq> i \<and> held p j s)" for j
    by (simp add: held_def unpicked_def)
  then show "in_use p (unpicked i s) = in_use p s - {i}" by (auto simp: in_use_def)
  show "cache_ok p dv (unpicked i s)" unfolding cache_ok_def
  proof (intro conjI allI impI)
    show "running p (unpicked i s)" using running_settle [OF cache_okD(1) [OF assms(1)]]
      by (simp add: unpicked_def)
    obtain xs where "ring s xs" using cache_okD(2) [OF assms(1)] by blast
    then have "ring (set_buf i ((bufs s i)\<lparr>refcnt := 0\<rparr>) (set_slock (BufSL i) \<lparr>sl_locked = False, sl_pid = 0\<rparr>
        (wake (ChSleepLock (BufSL i)) (s\<lparr>core := settle (core s)\<rparr>)))) xs"
      by (simp add: ring_def)
    from move_front_ring [OF this assms(3)] show "\<exists>xs. ring (unpicked i s) xs"
      unfolding unpicked_def by blast
    have bd: "bdev (bufs (unpicked i s) x) = bdev (bufs s x)" "sectorno (bufs (unpicked i s) x) = sectorno (bufs s x)"
      "valid (bufs (unpicked i s) x) = valid (bufs s x)" "bdata (bufs (unpicked i s) x) = bdata (bufs s x)" for x
      by (simp_all add: unpicked_def)
    have o: "refcnt (bufs (unpicked i s) x) = (if x = i then 0 else refcnt (bufs s x))"
      "sl_locked (slocks (unpicked i s) (BufSL x)) = (x \<noteq> i \<and> sl_locked (slocks s (BufSL x)))"
      "sectors (unpicked i s) = sectors s" for x
      by (simp_all add: unpicked_def)
    show "buf_ok p dv (unpicked i s) j" if "j < NBUF" for j
      using cache_okD(3) [OF assms(1) that] assms(4) unfolding buf_ok_def h bd o by (cases "j = i") simp_all
    show "j = k" if "j < NBUF" "k < NBUF" "bdev (bufs (unpicked i s) j) = dv" "bdev (bufs (unpicked i s) k) = dv"
      "sectorno (bufs (unpicked i s) j) = sectorno (bufs (unpicked i s) k)" for j k
      using that unfolding bd by (rule cache_okD(4) [OF assms(1)])
  qed
qed

text \<open>
  What input and output may touch: the buffers and their locks, the disk, and the states of processes they
  wake. Everything else is as before.
\<close>

fun buf_lock :: "slockid \<Rightarrow> bool" where
  "buf_lock (BufSL i) = True"
| "buf_lock _ = False"

definition io_step :: "'a bio_st_scheme \<Rightarrow> 'a bio_st_scheme \<Rightarrow> bool" where
  "io_step s s' \<longleftrightarrow> (\<exists>c ps sl bf nx pv sec.
    s' = s\<lparr>core := c, procs := ps, slocks := sl, bufs := bf, bnext := nx, bprev := pv, sectors := sec\<rparr>
    \<and> settle c = settle (core s)
    \<and> (\<forall>i. ps i = procs s i \<or> ps i = (procs s i)\<lparr>pstate := RUNNABLE\<rparr>)
    \<and> (\<forall>k. \<not> buf_lock k \<longrightarrow> sl k = slocks s k))"

lemma io_stepI:
  "s' = s\<lparr>core := c, procs := ps, slocks := sl, bufs := bf, bnext := nx, bprev := pv, sectors := sec\<rparr> \<Longrightarrow>
   settle c = settle (core s) \<Longrightarrow>
   (\<And>i. ps i = procs s i \<or> ps i = (procs s i)\<lparr>pstate := RUNNABLE\<rparr>) \<Longrightarrow>
   (\<And>k. \<not> buf_lock k \<Longrightarrow> sl k = slocks s k) \<Longrightarrow> io_step s s'"
  unfolding io_step_def by blast

lemma io_stepI':
  "s' = s\<lparr>core := core s', procs := procs s', slocks := slocks s', bufs := bufs s', bnext := bnext s',
           bprev := bprev s', sectors := sectors s'\<rparr> \<Longrightarrow> settle (core s') = settle (core s) \<Longrightarrow>
   (\<And>i. procs s' i = procs s i \<or> procs s' i = (procs s i)\<lparr>pstate := RUNNABLE\<rparr>) \<Longrightarrow>
   (\<And>k. \<not> buf_lock k \<Longrightarrow> slocks s' k = slocks s k) \<Longrightarrow> io_step s s'"
  by (rule io_stepI)

lemma io_step_refl [simp]: "io_step s s"
  by (rule io_stepI') simp_all

lemma io_step_trans [trans]:
  assumes "io_step s t" and "io_step t u"
  shows "io_step s u"
proof -
  obtain c ps sl bf nx pv sec where t: "t = s\<lparr>core := c, procs := ps, slocks := sl, bufs := bf, bnext := nx,
      bprev := pv, sectors := sec\<rparr>" "settle c = settle (core s)"
      "\<forall>i. ps i = procs s i \<or> ps i = (procs s i)\<lparr>pstate := RUNNABLE\<rparr>" "\<forall>k. \<not> buf_lock k \<longrightarrow> sl k = slocks s k"
    using assms(1) unfolding io_step_def by blast
  obtain c' ps' sl' bf' nx' pv' sec' where u: "u = t\<lparr>core := c', procs := ps', slocks := sl', bufs := bf',
      bnext := nx', bprev := pv', sectors := sec'\<rparr>" "settle c' = settle (core t)"
      "\<forall>i. ps' i = procs t i \<or> ps' i = (procs t i)\<lparr>pstate := RUNNABLE\<rparr>" "\<forall>k. \<not> buf_lock k \<longrightarrow> sl' k = slocks t k"
    using assms(2) unfolding io_step_def by blast
  show ?thesis
  proof (rule io_stepI)
    show "u = s\<lparr>core := c', procs := ps', slocks := sl', bufs := bf', bnext := nx', bprev := pv', sectors := sec'\<rparr>"
      unfolding u(1) t(1) by simp
    show "settle c' = settle (core s)" using u(2) t by simp
    show "ps' i = procs s i \<or> ps' i = (procs s i)\<lparr>pstate := RUNNABLE\<rparr>" for i
      using u(3) [rule_format, of i] t(3) [rule_format, of i] t(1) by auto
    show "sl' k = slocks s k" if "\<not> buf_lock k" for k using u(4) t(4) t(1) that by simp
  qed
qed

lemma io_step_picked: "io_step s (picked p i b s)"
  by (rule io_stepI') (auto simp: picked_def set_slock_def set_buf_def)

lemma io_step_unpicked: "io_step s (unpicked i s)"
proof (rule io_stepI')
  show "procs (unpicked i s) j = procs s j \<or> procs (unpicked i s) j = (procs s j)\<lparr>pstate := RUNNABLE\<rparr>" for j
    by (simp add: unpicked_def) (simp add: wake_def woken_tab_def woken_def)
  show "slocks (unpicked i s) k = slocks s k" if "\<not> buf_lock k" for k
    using that by (auto simp: unpicked_def move_front_def set_slock_def set_buf_def set_next_def set_prev_def wake_def Let_def)
qed (simp_all add: unpicked_def move_front_def set_slock_def set_buf_def set_next_def set_prev_def wake_def Let_def)

lemma io_step_set_buf: "io_step s (set_buf i b s)"
  by (rule io_stepI') (simp_all add: set_buf_def)

lemma io_step_disk_write: "io_step s (disk_write i (s\<lparr>core := settle (core s)\<rparr>))"
  by (rule io_stepI') (simp_all add: disk_write_def)

lemmas io_step_parts = io_step_picked io_step_unpicked io_step_set_buf io_step_disk_write

lemma io_step_keeps:
  assumes "io_step s s'"
  shows "mem s' = mem s" and "kernel_pagetable s' = kernel_pagetable s" and "bio_st.more s' = bio_st.more s"
    and "pid (procs s' i) = pid (procs s i)" and "psz (procs s' i) = psz (procs s i)"
    and "\<not> buf_lock k \<Longrightarrow> slocks s' k = slocks s k"
proof -
  obtain c ps sl bf nx pv sec where t: "s' = s\<lparr>core := c, procs := ps, slocks := sl, bufs := bf, bnext := nx,
      bprev := pv, sectors := sec\<rparr>" "ps i = procs s i \<or> ps i = (procs s i)\<lparr>pstate := RUNNABLE\<rparr>"
      "\<forall>k. \<not> buf_lock k \<longrightarrow> sl k = slocks s k"
    using assms unfolding io_step_def by blast
  show "mem s' = mem s" "kernel_pagetable s' = kernel_pagetable s" "bio_st.more s' = bio_st.more s"
    unfolding t(1) by simp_all
  show "\<not> buf_lock k \<Longrightarrow> slocks s' k = slocks s k" using t(3) unfolding t(1) by simp
  show "pid (procs s' i) = pid (procs s i)" "psz (procs s' i) = psz (procs s i)"
    using t(2) unfolding t(1) by auto
qed

section \<open>One sector at a time\<close>

text \<open>The two patterns every client follows: \<open>bread\<close>, copy out, \<open>brelse\<close>; and \<open>bread\<close>, change, \<open>bwrite\<close>, \<open>brelse\<close>.\<close>

definition sector_read :: "u32 \<Rightarrow> u32 \<Rightarrow> 'a bio_st_scheme \<Rightarrow> (u8 list \<times> 'a bio_st_scheme) kres" where
  "sector_read dev sec s =
    kbind (bread dev sec s) (\<lambda>(b, s).
      let d = bdata (bufs s b) in kbind (brelse b s) (\<lambda>s. Inr (d, s)))"

definition sector_update :: "u32 \<Rightarrow> u32 \<Rightarrow> (u8 list \<Rightarrow> u8 list) \<Rightarrow> 'a bio_st_scheme \<Rightarrow> 'a bio_st_scheme kres" where
  "sector_update dev sec f s =
    kbind (bread dev sec s) (\<lambda>(b, s).
      let s = set_buf b ((bufs s b)\<lparr>bdata := f (bdata (bufs s b))\<rparr>) s in
      kbind (bwrite b s) (brelse b))"

definition quiet :: "nat \<Rightarrow> u32 \<Rightarrow> 'a bio_st_scheme \<Rightarrow> bool" where
  "quiet p dv s \<longleftrightarrow> cache_ok p dv s \<and> in_use p s = {}"

lemma NBUF_pos: "{} \<noteq> {..<NBUF}" by (simp add: NBUF_def set_eq_iff) (rule exI [of _ 0], simp)

lemma sector_read_ok:
  assumes "quiet p dv s"
  obtains s' where "sector_read dv sec s = Inr (sectors s sec, s')" and "quiet p dv s'"
    and "sectors s' = sectors s" and "io_step s s'"
proof -
  have q: "cache_ok p dv s" "in_use p s = {}" using assms by (simp_all add: quiet_def)
  obtain i b where b: "bread dv sec s = Inr (i, picked p i b s)" "i < NBUF" "refcnt b = 1" "bdev b = dv"
    "sectorno b = sec" "valid b" "bdata b = sectors s sec" "cache_ok p dv (picked p i b s)"
    using bread_ok [OF q(1), of sec] q(2) NBUF_pos by auto
  have h: "held p i (picked p i b s)" using b by simp
  have u: "in_use p (picked p i b s) = {i}"
    using q(2) b(2,3) by (auto simp: in_use_def) (metis held_other)
  note r = brelse_ok [OF b(8) h b(2)]
  have "io_step s (unpicked i (picked p i b s))" by (rule io_step_trans [OF io_step_parts(1,2)])
  moreover have "sectors (unpicked i (picked p i b s)) = sectors s" by (simp add: unpicked_def)
  ultimately show ?thesis
    using that [of "unpicked i (picked p i b s)"] b r u by (simp add: sector_read_def quiet_def)
qed

lemma sector_update_ok:
  assumes "quiet p dv s"
  obtains s' where "sector_update dv sec f s = Inr s'" and "quiet p dv s'"
    and "sectors s' = (sectors s)(sec := f (sectors s sec))" and "io_step s s'"
proof -
  have q: "cache_ok p dv s" "in_use p s = {}" using assms by (simp_all add: quiet_def)
  obtain i b where b: "bread dv sec s = Inr (i, picked p i b s)" "i < NBUF" "refcnt b = 1" "bdev b = dv"
    "sectorno b = sec" "valid b" "bdata b = sectors s sec" "cache_ok p dv (picked p i b s)"
    using bread_ok [OF q(1), of sec] q(2) NBUF_pos by auto
  let ?b = "b\<lparr>bdata := f (bdata b)\<rparr>"
  let ?t = "set_buf i ?b (picked p i b s)"
  let ?w = "disk_write i (?t\<lparr>core := settle (core ?t)\<rparr>)"
  have h: "held p i (picked p i b s)" using b by simp
  have t: "cache_ok p dv ?t" "held p i ?t"
    using set_held_ok(1) [OF b(8) h b(2), of ?b] b by (simp_all add: held_def)
  note w = bwrite_ok [OF t b(2)]
  have wb: "bufs ?w i = ?b" "sectors ?w = (sectors s)(sec := f (sectors s sec))"
    using b by (simp_all add: disk_write_def)
  have u: "in_use p ?w = {i}"
  proof -
    have "held p j ?w = (j = i)" if "j < NBUF" for j
      using w(3) [of j] b q(2) that by (cases "j = i") (auto simp: in_use_def held_def)
    then show ?thesis using b(2) by (auto simp: in_use_def)
  qed
  have "held p i ?w" using w(3) b t(2) by simp
  note r = brelse_ok [OF w(2) this b(2)]
  have "io_step s (unpicked i ?w)"
    using io_step_trans [OF io_step_trans [OF io_step_trans [OF io_step_parts(1) io_step_parts(3)] io_step_parts(4)]
        io_step_parts(2)] .
  moreover have "sectors (unpicked i ?w) = (sectors s)(sec := f (sectors s sec))"
    using wb(2) by (simp add: unpicked_def)
  ultimately show ?thesis
    using that [of "unpicked i ?w"] b w r u wb by (simp add: sector_update_def quiet_def Let_def)
qed

text \<open>The buffer cache is a store of sectors.\<close>

interpretation disk: block_store "quiet p dv" "\<lambda>_. True" sectors "\<lambda>_. True" "sector_read dv"
  "\<lambda>sec d. sector_update dv sec (\<lambda>_. d)"
proof unfold_locales
  fix s :: "'a bio_st_scheme" and k v assume q: "quiet p dv s"
  show "\<exists>s'. sector_read dv k s = Inr (sectors s k, s') \<and> quiet p dv s' \<and> (\<forall>j. True \<longrightarrow> sectors s' j = sectors s j)"
    using sector_read_ok [OF q] by metis
  show "\<exists>s'. sector_update dv k (\<lambda>_. v) s = Inr s' \<and> quiet p dv s' \<and> sectors s' k = v
      \<and> (\<forall>j. True \<longrightarrow> j \<noteq> k \<longrightarrow> sectors s' j = sectors s j)"
    using sector_update_ok [OF q, of k "\<lambda>_. v"] by (metis fun_upd_other fun_upd_same)
qed

section \<open>Start\<close>

lemma initlock_idle: "lockfree l c \<Longrightarrow> initlock l c = c"
  by (auto simp: initlock_def lockfree_def set_lock_def intro!: kcore.equality)

definition fresh :: "buf \<Rightarrow> buf" where
  "fresh b = b\<lparr>refcnt := 0, sectorno := - 1, bdev := - 1\<rparr>"

lemma binit_fold:
  assumes "bnext t Head = Head" and "bprev t Head = Head" and "idle (core t)"
  shows "let s' = fold binit_buf [0..<n] t in
    chain (bnext s') (bprev s') Head (map Buf (rev [0..<n])) Head \<and> core s' = core t \<and> procs s' = procs t
    \<and> sectors s' = sectors t \<and> mem s' = mem t
    \<and> bufs s' = (\<lambda>i. if i < n then fresh (bufs t i) else bufs t i)
    \<and> (\<forall>i<n. slocks s' (BufSL i) = \<lparr>sl_locked = False, sl_pid = 0\<rparr>)"
proof (induction n)
  case 0 then show ?case using assms by simp
next
  case (Suc n)
  let ?s = "fold binit_buf [0..<n] t"
  note IH = Suc.IH [unfolded Let_def]
  have il: "initlock (SleepLk (BufSL n)) (core ?s) = core ?s"
    using IH assms(3) idleD(2) initlock_idle by metis
  have "chain ((bnext ?s)(Buf n := bnext ?s Head, Head := Buf n)) ((bprev ?s)(Buf n := Head, bnext ?s Head := Buf n))
      Head (Buf n # map Buf (rev [0..<n])) Head"
    by (rule chain_insert) (use IH in \<open>auto simp: distinct_map inj_on_def\<close>)
  moreover have "bnext (binit_buf n ?s) = (bnext ?s)(Buf n := bnext ?s Head, Head := Buf n)"
    "bprev (binit_buf n ?s) = (bprev ?s)(Buf n := Head, bnext ?s Head := Buf n)"
    by (simp_all add: binit_buf_def initsleeplock_def Let_def)
  moreover have "core (binit_buf n ?s) = core ?s" "procs (binit_buf n ?s) = procs ?s"
    "sectors (binit_buf n ?s) = sectors ?s" "mem (binit_buf n ?s) = mem ?s"
    "slocks (binit_buf n ?s) = (slocks ?s)(BufSL n := \<lparr>sl_locked = False, sl_pid = 0\<rparr>)"
    "bufs (binit_buf n ?s) = (bufs ?s)(n := fresh (bufs ?s n))"
    using il by (simp_all add: binit_buf_def initsleeplock_def Let_def fresh_def)
  ultimately show ?case using IH by (auto simp: Let_def less_Suc_eq)
qed

lemma fresh_simps [simp]:
  "refcnt (fresh b) = 0" "sectorno (fresh b) = - 1" "bdev (fresh b) = - 1" "valid (fresh b) = valid b"
  by (simp_all add: fresh_def)

lemma binit_facts:
  assumes "idle (core s)"
  shows "ring (binit s) (rev [0..<NBUF])" and "core (binit s) = core s" and "procs (binit s) = procs s"
    and "sectors (binit s) = sectors s" and "i < NBUF \<Longrightarrow> bufs (binit s) i = fresh (bufs s i)"
    and "i < NBUF \<Longrightarrow> slocks (binit s) (BufSL i) = \<lparr>sl_locked = False, sl_pid = 0\<rparr>"
proof -
  have il: "initlock BcacheLock (core s) = core s" using assms idleD(2) initlock_idle by metis
  let ?t = "set_next Head Head (set_prev Head Head (s\<lparr>core := core s\<rparr>))"
  have b: "binit s = fold binit_buf [0..<NBUF] ?t" by (simp add: binit_def il)
  note f = binit_fold [of ?t NBUF, folded b, unfolded Let_def]
  show "ring (binit s) (rev [0..<NBUF])" "core (binit s) = core s" "procs (binit s) = procs s"
    "sectors (binit s) = sectors s" "i < NBUF \<Longrightarrow> bufs (binit s) i = fresh (bufs s i)"
    "i < NBUF \<Longrightarrow> slocks (binit s) (BufSL i) = \<lparr>sl_locked = False, sl_pid = 0\<rparr>"
    using f assms by (simp_all add: ring_def atLeast0LessThan)
qed

section \<open>Properties\<close>

text \<open>
  \<open>binit\<close> leaves the buffers in a ring, the last one first, and nobody has one; from there the
  cache is in order for whatever device is used with it, the device number -1 of unused buffers excepted.
\<close>

theorem binit_quiet:
  assumes "running p s" and "\<forall>i<NBUF. \<not> valid (bufs s i)" and "dv \<noteq> - 1"
  shows "ring (binit s) (rev [0..<NBUF]) \<and> quiet p dv (binit s)"
proof -
  have i: "idle (core s)" using assms(1) by (simp add: running_def)
  note f = binit_facts [OF i]
  have "\<not> held p i (binit s)" "buf_ok p dv (binit s) i" if "i < NBUF" for i
    using f(5,6) [OF that] assms(2) that by (simp_all add: held_def buf_ok_def)
  moreover have "running p (binit s)" using assms(1) f by (simp add: running_def)
  moreover have "bdev (bufs (binit s) i) \<noteq> dv" if "i < NBUF" for i using f(5) [OF that] assms(3) by simp
  ultimately show ?thesis using f(1) unfolding quiet_def cache_ok_def in_use_def by blast
qed

definition bio_demo :: bio_st where
  "bio_demo = slk_st.extend slk_demo
     \<lparr>bufs = (\<lambda>_. \<lparr>valid = False, bdev = 0, sectorno = 0, refcnt = 0, bdata = replicate 512 0\<rparr>),
      bnext = (\<lambda>_. Head), bprev = (\<lambda>_. Head), sectors = (\<lambda>sec. replicate 512 (ucast sec))\<rparr>"

lemma bio_demo_ready: "running 2 bio_demo" "\<not> valid (bufs bio_demo i)"
  by (simp_all add: bio_demo_def slk_demo_def running_def slk_st.defs proc_st.defs demo_def)

lemma binit_quiet_witness: "quiet 2 0 (binit bio_demo)"
  using binit_quiet [of 2 bio_demo 0] bio_demo_ready by simp

text \<open>
  \<open>bread\<close> returns a buffer with the contents of the sector, locked by the caller and taken by
  nobody else, whether the sector was cached or not, as long as one buffer is unused; it changes no
  sector and the buffers stay a cache.
\<close>

theorem bread_sector:
  assumes "cache_ok p dv s" and "in_use p s \<noteq> {..<NBUF}" and "\<forall>i\<in>in_use p s. \<not> hit dv sec s i"
  shows "\<exists>b s'. bread dv sec s = Inr (b, s') \<and> b < NBUF \<and> b \<notin> in_use p s \<and> held p b s'
    \<and> bdata (bufs s' b) = sectors s sec \<and> sectors s' = sectors s \<and> cache_ok p dv s'
    \<and> in_use p s' = insert b (in_use p s)"
proof -
  obtain i b where b: "bread dv sec s = Inr (i, picked p i b s)" "i < NBUF" "i \<notin> in_use p s" "refcnt b = 1"
    "bdata b = sectors s sec" "cache_ok p dv (picked p i b s)"
    using bread_ok [OF assms] by metis
  have "held p j (picked p i b s) = (j = i \<or> held p j s)" for j
    using b(4) by (cases "j = i") simp_all
  then have "in_use p (picked p i b s) = insert i (in_use p s)" using b(2) by (auto simp: in_use_def)
  then show ?thesis using b by (intro exI [of _ i] exI [of _ "picked p i b s"]) simp
qed

lemma bread_sector_witness:
  "\<exists>b s'. bread 0 7 (binit bio_demo) = Inr (b, s') \<and> bdata (bufs s' b) = replicate 512 7"
proof -
  have q: "quiet 2 0 (binit bio_demo)" using binit_quiet_witness .
  have "sectors (binit bio_demo) 7 = replicate 512 7"
    using binit_facts(4) [of bio_demo] bio_demo_ready by (simp add: running_def) (simp add: bio_demo_def slk_st.defs)
  then show ?thesis
    using bread_sector [of 2 0 "binit bio_demo" 7] q NBUF_pos by (auto simp: quiet_def)
qed

text \<open>
  \<open>brelse\<close> moves a buffer that nobody uses any more to the front of the ring, keeps the order of
  the others, and \<open>bget\<close> recycles from the other end, so the least recently released buffer goes first.
\<close>

theorem brelse_moves_front:
  assumes "cache_ok p dv s" and "ring s xs" and "held p b s" and "b < NBUF"
    and "valid (bufs s b) \<longrightarrow> bdata (bufs s b) = sectors s (sectorno (bufs s b))"
  shows "\<exists>s'. brelse b s = Inr s' \<and> cache_ok p dv s' \<and> ring s' (b # remove1 b xs)
    \<and> find_unused NBUF (bprev s' Head) s' = Inr (find (idle_buf s') (rev (b # remove1 b xs)))
    \<and> in_use p s' = in_use p s - {b} \<and> sectors s' = sectors s"
proof -
  note r = brelse_ok [OF assms(1,3,4,5)]
  have "ring (set_buf b ((bufs s b)\<lparr>refcnt := 0\<rparr>) (set_slock (BufSL b) \<lparr>sl_locked = False, sl_pid = 0\<rparr>
      (wake (ChSleepLock (BufSL b)) (s\<lparr>core := settle (core s)\<rparr>)))) xs"
    using assms(2) by (simp add: ring_def)
  then have rg: "ring (unpicked b s) (b # remove1 b xs)" unfolding unpicked_def by (rule move_front_ring [OF _ assms(4)])
  have "sectors (unpicked b s) = sectors s" by (simp add: unpicked_def)
  moreover have "find_unused NBUF (bprev (unpicked b s) Head) (unpicked b s)
      = Inr (find (idle_buf (unpicked b s)) (rev (b # remove1 b xs)))"
    using ring_searches(2) [OF rg] by (simp add: idle_buf_def [abs_def])
  ultimately show ?thesis using r rg by blast
qed

lemma brelse_moves_front_witness:
  "\<exists>b s' s''. bread 0 7 (binit bio_demo) = Inr (b, s') \<and> brelse b s' = Inr s''
     \<and> ring s'' (b # remove1 b (rev [0..<NBUF]))"
proof -
  have q: "quiet 2 0 (binit bio_demo)" using binit_quiet_witness .
  then have c: "cache_ok 2 0 (binit bio_demo)" "in_use 2 (binit bio_demo) = {}" by (simp_all add: quiet_def)
  have r: "ring (binit bio_demo) (rev [0..<NBUF])"
    using binit_facts(1) [of bio_demo] bio_demo_ready by (simp add: running_def)
  obtain b v where b: "bread 0 7 (binit bio_demo) = Inr (b, picked 2 b v (binit bio_demo))" "b < NBUF"
    "refcnt v = 1" "sectorno v = 7" "bdata v = sectors (binit bio_demo) 7" "cache_ok 2 0 (picked 2 b v (binit bio_demo))"
    by (rule bread_ok [OF c(1), of 7]) (use c(2) NBUF_pos in auto)
  then show ?thesis
    using brelse_moves_front [OF b(6), of "rev [0..<NBUF]" b] r by auto
qed

text \<open>
  C7: The cache is transparent: after any sequence of sector writes, each a \<open>bread\<close>, a change, a
  \<open>bwrite\<close> and a \<open>brelse\<close>, a \<open>bread\<close> gives the data last written to that sector, and what the disk held
  where nothing was written, however the 30 buffers were recycled in between.
\<close>

theorem disk_transparent:
  assumes "quiet p dv s"
  shows "\<exists>s' s''. put_all (\<lambda>sec d. sector_update dv sec (\<lambda>_. d)) ws s = Inr s'
    \<and> sector_read dv sec s' = Inr (case map_of (rev ws) sec of None \<Rightarrow> sectors s sec | Some d \<Rightarrow> d, s'')"
  by (rule disk.get_after_puts [OF assms]) simp_all

lemma disk_transparent_witness:
  "\<exists>s' s''. put_all (\<lambda>sec d. sector_update 0 sec (\<lambda>_. d)) [(3, [1]), (4, [2]), (3, [3])] (binit bio_demo) = Inr s'
    \<and> sector_read 0 3 s' = Inr ([3], s'')"
  using disk_transparent [OF binit_quiet_witness, of "[(3, [1]), (4, [2]), (3, [3])]" 3] by simp

end
