(* ===== verification/Virtio.thy ===== *)
theory Virtio imports Bio begin

text \<open>
  kernel/virtio_disk.c: the driver of the disk of the QEMU board. Driver and device share a table of descriptors, a ring of requests (\<open>avail\<close>)
  and a ring of answers (\<open>used\<close>). A request is a chain of three descriptors. The process that makes it sleeps until the
  interrupt handler has seen the answer; it may also have to wait for free descriptors.
\<close>

section \<open>State\<close>

definition NUM :: nat where "NUM = 8"

text \<open>
  What an address in a descriptor points at: nothing, the request header on the kernel stack of a process (at the physical address that \<open>kwalkaddr\<close> finds
  for it), the data of a buffer, or the status byte of \<open>info[i]\<close>.
\<close>

datatype dmaptr = NoAddr | Outhdr nat | BufData nat | StatusByte nat

record vring_desc =
  vd_addr :: dmaptr
  vd_len :: u32
  vd_flags :: u16
  vd_next :: u16

record blk_outhdr =
  oh_type :: u32
  oh_reserved :: u32
  oh_sector :: u64

record disk_info =
  vi_buf :: "nat option"
  vi_status :: u8

text \<open>
  \<open>struct disk\<close>: the two pages as the descriptors, the words \<open>avail[0]\<close>, \<open>avail[1]\<close>, \<dots> and the parts of \<open>struct UsedArea\<close>; then the book-keeping of the
  driver. \<open>bdisk\<close> is the field \<open>disk\<close> of \<open>struct buf\<close>, \<open>outhdrs\<close> the headers \<open>buf0\<close> on the stacks of
  the processes and \<open>buf0_at\<close> their virtual addresses. \<open>regs\<close> is what the
  registers of the device read, \<open>reg_writes\<close> what has been written to them, oldest first. The last two fields belong to the device: how far it has
  read the ring of requests, and the requests that it works on.
\<close>

record vdisk_st = bio_st +
  vdescs :: "nat \<Rightarrow> vring_desc"
  avail :: "nat \<Rightarrow> u16"
  used_flags :: u16
  used_id :: u16
  used_elems :: "nat \<Rightarrow> u32"
  vfree :: "nat \<Rightarrow> bool"
  used_idx :: u16
  vinfo :: "nat \<Rightarrow> disk_info"
  bdisk :: "nat \<Rightarrow> bool"
  outhdrs :: "nat \<Rightarrow> blk_outhdr"
  buf0_at :: "nat \<Rightarrow> u64"
  vpages :: u64
  regs :: "u32 \<Rightarrow> u32"
  reg_writes :: "(u32 \<times> u32) list"
  dev_seen :: u16
  dev_todo :: "nat list"

abbreviation (input) VRING_DESC_F_NEXT :: u16 where "VRING_DESC_F_NEXT \<equiv> 1"
abbreviation (input) VRING_DESC_F_WRITE :: u16 where "VRING_DESC_F_WRITE \<equiv> 2"
abbreviation (input) VIRTIO_BLK_T_IN :: u32 where "VIRTIO_BLK_T_IN \<equiv> 0"
abbreviation (input) VIRTIO_BLK_T_OUT :: u32 where "VIRTIO_BLK_T_OUT \<equiv> 1"

definition wr_reg :: "u32 \<Rightarrow> u32 \<Rightarrow> 'a vdisk_st_scheme \<Rightarrow> 'a vdisk_st_scheme" where
  "wr_reg r v s = s\<lparr>reg_writes := reg_writes s @ [(r, v)]\<rparr>"

definition upd_desc :: "nat \<Rightarrow> (vring_desc \<Rightarrow> vring_desc) \<Rightarrow> 'a vdisk_st_scheme \<Rightarrow> 'a vdisk_st_scheme" where
  "upd_desc i f s = s\<lparr>vdescs := (vdescs s)(i := f (vdescs s i))\<rparr>"

definition upd_info :: "nat \<Rightarrow> (disk_info \<Rightarrow> disk_info) \<Rightarrow> 'a vdisk_st_scheme \<Rightarrow> 'a vdisk_st_scheme" where
  "upd_info i f s = s\<lparr>vinfo := (vinfo s)(i := f (vinfo s i))\<rparr>"

definition set_bdisk :: "nat \<Rightarrow> bool \<Rightarrow> 'a vdisk_st_scheme \<Rightarrow> 'a vdisk_st_scheme" where
  "set_bdisk b v s = s\<lparr>bdisk := (bdisk s)(b := v)\<rparr>"

section \<open>Initialisation\<close>

text \<open>The feature bits that the driver turns off, and the pages after \<open>memset\<close>.\<close>

definition vdisk_features :: "u64 \<Rightarrow> u64" where
  "vdisk_features f = fold (\<lambda>n f. f AND NOT (push_bit n 1)) [5, 7, 11, 12, 27, 29, 28] f"

definition clear_queue :: "'a vdisk_st_scheme \<Rightarrow> 'a vdisk_st_scheme" where
  "clear_queue s =
    s\<lparr>vdescs := (\<lambda>_. \<lparr>vd_addr = NoAddr, vd_len = 0, vd_flags = 0, vd_next = 0\<rparr>),
      avail := (\<lambda>_. 0), used_flags := 0, used_id := 0, used_elems := (\<lambda>_. 0)\<rparr>"

definition virtio_disk_init :: "'a vdisk_st_scheme \<Rightarrow> 'a vdisk_st_scheme kres" where
  "virtio_disk_init s =
    (let s = s\<lparr>core := initlock VdiskLock (core s)\<rparr> in
     if regs s 0x000 \<noteq> 0x74726976 \<or> regs s 0x004 \<noteq> 1 \<or> regs s 0x008 \<noteq> 2 \<or> regs s 0x00c \<noteq> 0x554d4551
     then Inl (Panic ''could not find virtio disk'')
     else
       let status = 0 OR 1;
           s = wr_reg 0x070 status s;
           status = status OR 2;
           s = wr_reg 0x070 status s;
           s = wr_reg 0x020 (ucast (vdisk_features (ucast (regs s 0x010)))) s;
           status = status OR 8;
           s = wr_reg 0x070 status s;
           status = status OR 4;
           s = wr_reg 0x070 status s;
           s = wr_reg 0x028 4096 s;
           s = wr_reg 0x030 0 s;
           m = regs s 0x034
       in if m = 0 then Inl (Panic ''virtio disk has no queue 0'')
          else if m < of_nat NUM then Inl (Panic ''virtio disk max queue too short'')
          else
            let s = wr_reg 0x038 (of_nat NUM) s;
                s = clear_queue s;
                s = wr_reg 0x040 (ucast (drop_bit 12 (vpages s))) s
            in Inr (s\<lparr>vfree := (\<lambda>i. i < NUM \<or> vfree s i)\<rparr>))"

section \<open>Descriptors\<close>

text \<open>A descriptor, or \<open>None\<close> for -1.\<close>

definition alloc_desc :: "'a vdisk_st_scheme \<Rightarrow> nat option \<times> 'a vdisk_st_scheme" where
  "alloc_desc s =
    (case find (vfree s) [0..<NUM] of
       None \<Rightarrow> (None, s)
     | Some i \<Rightarrow> (Some i, s\<lparr>vfree := (vfree s)(i := False)\<rparr>))"

definition free_desc :: "nat \<Rightarrow> 'a vdisk_st_scheme \<Rightarrow> 'a vdisk_st_scheme kres" where
  "free_desc i s =
    (if i \<ge> NUM then Inl (Panic ''virtio_disk_intr 1'')
     else if vfree s i then Inl (Panic ''virtio_disk_intr 2'')
     else
       let s = upd_desc i (\<lambda>d. d\<lparr>vd_addr := NoAddr\<rparr>) s;
           s = s\<lparr>vfree := (vfree s)(i := True)\<rparr>
       in wakeup ChVdiskFree s)"

text \<open>What \<open>wakeup\<close> can change: processes and locks.\<close>

lemma wakeup_loop_only: "wakeup_loop is ch s = Inr t \<Longrightarrow> \<exists>c q. t = s\<lparr>core := c, procs := q\<rparr>"
proof (induction "is" arbitrary: s)
  case (Cons i "is")
  then obtain c c' s' where s': "s' = (if pstate (procs s i) = SLEEPING \<and> pchan (procs s i) = ch
      then upd_proc i (\<lambda>q. q\<lparr>pstate := RUNNABLE\<rparr>) (s\<lparr>core := c\<rparr>) else s\<lparr>core := c\<rparr>)"
      "wakeup_loop is ch (s'\<lparr>core := c'\<rparr>) = Inr t"
    by (auto simp: Let_def elim!: kbind_InrE on_core_InrE split: if_splits)
  from Cons.IH [OF s'(2)] obtain d q where t: "t = (s'\<lparr>core := c'\<rparr>)\<lparr>core := d, procs := q\<rparr>" by blast
  have "(s'\<lparr>core := c'\<rparr>)\<lparr>core := d, procs := q\<rparr> = s\<lparr>core := d, procs := q\<rparr>"
    by (simp add: s'(1) upd_proc_def)
  with t show ?case by blast
next
  case Nil
  have "s = s\<lparr>core := core s, procs := procs s\<rparr>" by simp
  with Nil show ?case by (metis wakeup_loop.simps(1) Inr_inject)
qed

lemma wakeup_only: "wakeup ch s = Inr t \<Longrightarrow> \<exists>c q. t = s\<lparr>core := c, procs := q\<rparr>"
  unfolding wakeup_def by (rule wakeup_loop_only)

text \<open>A chain ends, since every turn frees a descriptor that was taken.\<close>

function free_chain :: "nat \<Rightarrow> 'a vdisk_st_scheme \<Rightarrow> 'a vdisk_st_scheme kres" where
  "free_chain i s =
    kbind (free_desc i s) (\<lambda>s.
      if vd_flags (vdescs s i) AND VRING_DESC_F_NEXT \<noteq> 0 then free_chain (unat (vd_next (vdescs s i))) s else Inr s)"
  by pat_completeness auto

lemma free_desc_takes:
  assumes "free_desc i s = Inr t"
  shows "card {j. j < NUM \<and> \<not> vfree t j} < card {j. j < NUM \<and> \<not> vfree s j}"
proof -
  have i: "i < NUM" "\<not> vfree s i" using assms by (auto simp: free_desc_def split: if_splits)
  then have "\<exists>c q. t = (upd_desc i (\<lambda>d. d\<lparr>vd_addr := NoAddr\<rparr>) s)\<lparr>vfree := (vfree s)(i := True), core := c, procs := q\<rparr>"
    using wakeup_only [of ChVdiskFree _ t] assms by (fastforce simp: free_desc_def upd_desc_def Let_def split: if_splits)
  then have "vfree t = (vfree s)(i := True)" by (auto simp: upd_desc_def)
  then have "{j. j < NUM \<and> \<not> vfree t j} \<subset> {j. j < NUM \<and> \<not> vfree s j}" using i by auto
  then show ?thesis by (intro psubset_card_mono) auto
qed

termination free_chain
  by (relation "measure (\<lambda>(i, s). card {j. j < NUM \<and> \<not> vfree s j})") (auto dest: free_desc_takes)

declare free_chain.simps [simp del]

primrec free_all :: "nat list \<Rightarrow> 'a vdisk_st_scheme \<Rightarrow> 'a vdisk_st_scheme kres" where
  "free_all [] s = Inr s"
| "free_all (i # is) s = kbind (free_desc i s) (free_all is)"

text \<open>\<open>alloc3_desc\<close> with \<open>n\<close> descriptors left to allocate and those in \<open>got\<close> allocated; \<open>None\<close> for -1.\<close>

primrec alloc3_loop :: "nat \<Rightarrow> nat list \<Rightarrow> 'a vdisk_st_scheme \<Rightarrow> (nat list option \<times> 'a vdisk_st_scheme) kres" where
  "alloc3_loop 0 got s = Inr (Some got, s)"
| "alloc3_loop (Suc n) got s =
    (case alloc_desc s of
       (Some i, s) \<Rightarrow> alloc3_loop n (got @ [i]) s
     | (None, s) \<Rightarrow> kbind (free_all got s) (\<lambda>s. Inr (None, s)))"

definition alloc3_desc :: "'a vdisk_st_scheme \<Rightarrow> (nat list option \<times> 'a vdisk_st_scheme) kres" where
  "alloc3_desc s = alloc3_loop 3 [] s"

section \<open>Requests\<close>

text \<open>The three descriptors of a request of process \<open>p\<close>, and the record of the buffer for the interrupt handler.\<close>

definition virtio_chain :: "nat \<Rightarrow> nat \<Rightarrow> bool \<Rightarrow> nat \<Rightarrow> nat \<Rightarrow> nat \<Rightarrow> 'a vdisk_st_scheme \<Rightarrow> 'a vdisk_st_scheme" where
  "virtio_chain p b write i j k s =
    (let s = upd_desc i (\<lambda>d. d\<lparr>vd_addr := Outhdr p, vd_len := 16, vd_flags := VRING_DESC_F_NEXT, vd_next := of_nat j\<rparr>) s;
         s = upd_desc j (\<lambda>d. d\<lparr>vd_addr := BufData b, vd_len := of_nat BSIZE\<rparr>) s;
         s = upd_desc j (\<lambda>d. d\<lparr>vd_flags := (if write then 0 else VRING_DESC_F_WRITE)\<rparr>) s;
         s = upd_desc j (\<lambda>d. d\<lparr>vd_flags := vd_flags d OR VRING_DESC_F_NEXT, vd_next := of_nat k\<rparr>) s;
         s = upd_info i (\<lambda>v. v\<lparr>vi_status := 0\<rparr>) s;
         s = upd_desc k (\<lambda>d. d\<lparr>vd_addr := StatusByte i, vd_len := 1, vd_flags := VRING_DESC_F_WRITE, vd_next := 0\<rparr>) s;
         s = set_bdisk b True s
     in upd_info i (\<lambda>v. v\<lparr>vi_buf := Some b\<rparr>) s)"

text \<open>The header is written, and its physical address looked up in the page table of the process, which panics when the stack is not mapped.\<close>

definition virtio_fill :: "nat \<Rightarrow> nat \<Rightarrow> bool \<Rightarrow> u64 \<Rightarrow> nat \<Rightarrow> nat \<Rightarrow> nat \<Rightarrow> 'a vdisk_st_scheme \<Rightarrow> 'a vdisk_st_scheme kres" where
  "virtio_fill p b write sector i j k s =
    (let s = s\<lparr>outhdrs := (outhdrs s)(p :=
           \<lparr>oh_type = (if write then VIRTIO_BLK_T_OUT else VIRTIO_BLK_T_IN), oh_reserved = 0, oh_sector = sector\<rparr>)\<rparr>
     in kbind (kwalkaddr (kpagetable (procs s p)) (buf0_at s p) s) (\<lambda>(addr, s). Inr (virtio_chain p b write i j k s)))"

text \<open>The request goes into the ring, and the device is notified of queue 0.\<close>

definition virtio_submit :: "nat \<Rightarrow> 'a vdisk_st_scheme \<Rightarrow> 'a vdisk_st_scheme" where
  "virtio_submit i s =
    (let s = s\<lparr>avail := (avail s)(2 + unat (avail s 1 mod of_nat NUM) := of_nat i)\<rparr>;
         s = s\<lparr>avail := (avail s)(1 := avail s 1 + 1)\<rparr>
     in wr_reg 0x050 0 s)"

text \<open>
  What a process that sleeps in \<open>virtio_disk_rw\<close> waits for: free descriptors, for a request for a sector, or the end of the request with a head. With it the
  state of interrupts that \<open>sched\<close> keeps.
\<close>

datatype vwait = WantDesc u64 bool | WantBuf nat bool

type_synonym 'a vresult = "((vwait, unit) outcome \<times> 'a vdisk_st_scheme) kres"

definition virtio_wait :: "nat \<Rightarrow> nat \<Rightarrow> 'a vdisk_st_scheme \<Rightarrow> 'a vresult" where
  "virtio_wait b i s =
    (if bdisk s b
     then kbind (sleep_enter (ChBuf b) VdiskLock s) (\<lambda>(ie, s). Inr (Waiting (WantBuf i ie), s))
     else
       kbind (free_chain i (upd_info i (\<lambda>v. v\<lparr>vi_buf := None\<rparr>) s)) (\<lambda>s.
       kbind (unlock VdiskLock s) (\<lambda>s. Inr (Finished (), s))))"

definition virtio_alloc :: "nat \<Rightarrow> bool \<Rightarrow> u64 \<Rightarrow> 'a vdisk_st_scheme \<Rightarrow> 'a vresult" where
  "virtio_alloc b write sector s =
    kbind (alloc3_desc s) (\<lambda>(idx, s).
      case idx of
        None \<Rightarrow> kbind (sleep_enter ChVdiskFree VdiskLock s) (\<lambda>(ie, s). Inr (Waiting (WantDesc sector ie), s))
      | Some idx \<Rightarrow>
          kbind (curproc s) (\<lambda>(p, s).
            kbind (virtio_fill p b write sector (idx ! 0) (idx ! 1) (idx ! 2) s) (\<lambda>s.
              virtio_wait b (idx ! 0) (virtio_submit (idx ! 0) s))))"

definition virtio_disk_rw_run :: "nat \<Rightarrow> bool \<Rightarrow> 'a vdisk_st_scheme \<Rightarrow> 'a vresult" where
  "virtio_disk_rw_run b write s =
    (let sector = ucast (sectorno (bufs s b)) in kbind (lock VdiskLock s) (virtio_alloc b write sector))"

definition virtio_disk_rw_wake :: "nat \<Rightarrow> nat \<Rightarrow> bool \<Rightarrow> vwait \<Rightarrow> 'a vdisk_st_scheme \<Rightarrow> 'a vresult" where
  "virtio_disk_rw_wake p b write w s =
    (case w of
       WantDesc sector ie \<Rightarrow> kbind (sleep_leave p ie VdiskLock s) (virtio_alloc b write sector)
     | WantBuf i ie \<Rightarrow> kbind (sleep_leave p ie VdiskLock s) (virtio_wait b i))"

section \<open>The interrupt handler\<close>

definition virtio_intr_turn :: "'a vdisk_st_scheme \<Rightarrow> 'a vdisk_st_scheme kres" where
  "virtio_intr_turn s =
    (let i = unat (used_idx s); id = unat (used_elems s i)
     in if i \<ge> NUM \<or> id \<ge> NUM then Inl Wild
        else if vi_status (vinfo s id) \<noteq> 0 then Inl (Panic ''virtio_disk_intr status'')
        else
          case vi_buf (vinfo s id) of
            None \<Rightarrow> Inl Wild
          | Some b \<Rightarrow>
              kbind (wakeup (ChBuf b) (set_bdisk b False s)) (\<lambda>s.
                Inr (s\<lparr>used_idx := (used_idx s + 1) mod of_nat NUM\<rparr>)))"

definition unseen_count :: "'a vdisk_st_scheme \<Rightarrow> nat" where
  "unseen_count s = (unat (used_id s) + NUM - unat (used_idx s) mod NUM) mod NUM"

function virtio_intr_loop :: "'a vdisk_st_scheme \<Rightarrow> 'a vdisk_st_scheme kres" where
  "virtio_intr_loop s =
    (if used_idx s mod of_nat NUM \<noteq> used_id s mod of_nat NUM
     then kbind (virtio_intr_turn s) virtio_intr_loop
     else Inr s)"
  by pat_completeness auto

lemma slot_unat: "unat (x mod of_nat NUM :: u16) = unat x mod NUM"
  by (simp add: NUM_def unat_mod_distrib)

lemma slot_eq_iff: "(x :: u16) mod of_nat NUM = y mod of_nat NUM \<longleftrightarrow> unat x mod NUM = unat y mod NUM"
  by (metis slot_unat unat_inj)

lemma slot_Suc: "unat ((x + 1) mod of_nat NUM :: u16) = Suc (unat x) mod NUM"
proof -
  have "(unat x + 1) mod 65536 mod 8 = (unat x + 1) mod 8" by (rule mod_mod_cancel) simp
  then show ?thesis by (simp add: NUM_def unat_mod_distrib unat_word_ariths)
qed

lemma mod_dist:
  assumes "x < (8::nat)"
  shows "(b + 8 - x) mod 8 = (if x \<le> b mod 8 then b mod 8 - x else b mod 8 + 8 - x)"
proof -
  have "b + 8 - x = b mod 8 + 8 - x + 8 * (b div 8)" using assms by (simp add: mult.commute [of 8])
  then have "(b + 8 - x) mod 8 = (b mod 8 + 8 - x) mod 8" by (metis mod_mult_self2)
  also have "\<dots> = (if x \<le> b mod 8 then b mod 8 - x else b mod 8 + 8 - x)"
    using assms by (auto simp: le_mod_geq)
  finally show ?thesis .
qed

lemma unseen_count_Suc:
  assumes "used_idx t = (used_idx s + 1) mod of_nat NUM" and "used_id t = used_id s" and "used_idx s mod of_nat NUM \<noteq> used_id s mod of_nat NUM"
  shows "unseen_count s = Suc (unseen_count t)"
proof -
  have "(b + 8 - a mod 8) mod 8 = Suc ((b + 8 - Suc a mod 8 mod 8) mod 8)" if "a mod 8 \<noteq> b mod 8" for a b :: nat
  proof -
    have "(b + 8 - x) mod 8 = Suc ((b + 8 - Suc x mod 8) mod 8)" if "x < 8" "x \<noteq> b mod 8" for x
    proof (cases "x = 7")
      case True
      then show ?thesis using mod_dist [of 7 b] that by (simp add: mod_Suc)
    next
      case False
      then show ?thesis using mod_dist [of x b] mod_dist [of "Suc x" b] that by (simp split: if_splits) linarith+
    qed
    from this [of "a mod 8"] that show ?thesis by (simp add: mod_Suc_eq)
  qed
  moreover have "unat (used_idx s) mod 8 \<noteq> unat (used_id s) mod 8"
    using assms(3) by (simp only: slot_eq_iff) (simp add: NUM_def)
  ultimately show ?thesis using assms(1,2) by (simp only: unseen_count_def slot_Suc) (simp add: NUM_def)
qed

lemma virtio_intr_turn_idx:
  assumes "virtio_intr_turn s = Inr t"
  shows "used_idx t = (used_idx s + 1) mod of_nat NUM" "used_id t = used_id s"
  using assms by (auto simp: virtio_intr_turn_def Let_def set_bdisk_def split: if_splits option.splits elim!: kbind_InrE dest!: wakeup_only)

termination virtio_intr_loop
proof (relation "measure unseen_count")
  fix s t :: "'a vdisk_st_scheme"
  assume "used_idx s mod of_nat NUM \<noteq> used_id s mod of_nat NUM" and "virtio_intr_turn s = Inr t"
  then show "(t, s) \<in> measure unseen_count" using unseen_count_Suc [of t s] virtio_intr_turn_idx [of s t] by simp
qed simp

declare virtio_intr_loop.simps [simp del]

definition virtio_disk_intr :: "'a vdisk_st_scheme \<Rightarrow> 'a vdisk_st_scheme kres" where
  "virtio_disk_intr s =
    kbind (lock VdiskLock s) (\<lambda>s.
    kbind (virtio_intr_loop s) (\<lambda>s.
      unlock VdiskLock (wr_reg 0x064 (regs s 0x060 AND 3) s)))"

end
