(* ===== verification/VirtioProps.thy ===== *)
theory VirtioProps imports Virtio begin

text \<open>
  The driver of kernel/virtio_disk.c with several processes, the device and the interrupt handler at work: it implements a disk
  on which every request is one atomic read or write, and it panics only when the device reports an error or a kernel stack is not mapped.
\<close>

section \<open>Rings\<close>

definition ring_slots :: "(nat \<Rightarrow> 'a) \<Rightarrow> nat \<Rightarrow> nat \<Rightarrow> 'a list" where
  "ring_slots f i n = map (\<lambda>k. f ((i + k) mod NUM)) [0..<n]"

lemma length_ring_slots [simp]: "length (ring_slots f i n) = n"
  by (simp add: ring_slots_def)

lemma ring_slots_Suc: "ring_slots f i (Suc n) = f (i mod NUM) # ring_slots f (Suc i) n"
  by (simp add: ring_slots_def upt_conv_Cons map_Suc_upt [symmetric] del: upt_Suc)

lemma ring_slots_mod [simp]: "ring_slots f (i mod NUM) n = ring_slots f i n"
  by (simp add: ring_slots_def mod_add_left_eq)

lemma ring_slots_cong: "i mod NUM = j mod NUM \<Longrightarrow> ring_slots f i n = ring_slots f j n"
  by (metis ring_slots_mod)

lemma ring_slots_snoc:
  assumes "n < NUM" and "j mod NUM = (i + n) mod NUM"
  shows "ring_slots (f(j mod NUM := x)) i (Suc n) = ring_slots f i n @ [x]"
proof -
  have "(i + k) mod NUM \<noteq> (i + n) mod NUM" if "k < n" for k
  proof
    assume "(i + k) mod NUM = (i + n) mod NUM"
    then have "k mod NUM = n mod NUM" by (simp add: nat_mod_eq_iff)
    with that assms show False by simp
  qed
  then show ?thesis using assms(2) by (simp add: ring_slots_def)
qed

text \<open>The heads of the requests that the device has not fetched, and of the answers that the driver has not seen.\<close>

definition unfetched :: "'a vdisk_st_scheme \<Rightarrow> nat list" where
  "unfetched s = ring_slots (\<lambda>k. unat (avail s (2 + k))) (unat (dev_seen s)) (unat (avail s 1 - dev_seen s))"

definition unseen :: "'a vdisk_st_scheme \<Rightarrow> nat list" where
  "unseen s = ring_slots (\<lambda>k. unat (used_elems s k)) (unat (used_idx s)) (unseen_count s)"

section \<open>The device\<close>

text \<open>
  What the specification of virtio promises of a block device. A chain of descriptors is a request when it consists of a header, the 512 bytes of
  a buffer and a status byte, and the device may write what it has to.
\<close>

definition chain_ok :: "nat \<Rightarrow> 'a vdisk_st_scheme \<Rightarrow> bool" where
  "chain_ok h s =
    (let d0 = vdescs s h; i = unat (vd_next d0); d1 = vdescs s i; j = unat (vd_next d1); d2 = vdescs s j
     in h < NUM \<and> i < NUM \<and> j < NUM \<and> vd_len d0 = 16 \<and> vd_len d1 = 512 \<and> vd_len d2 = 1
       \<and> vd_flags d0 = VRING_DESC_F_NEXT \<and> vd_flags d2 = VRING_DESC_F_WRITE
       \<and> (case (vd_addr d0, vd_addr d1, vd_addr d2) of
            (Outhdr p, BufData b, StatusByte k) \<Rightarrow>
              oh_type (outhdrs s p) = VIRTIO_BLK_T_IN \<and> vd_flags d1 = VRING_DESC_F_NEXT OR VRING_DESC_F_WRITE
              \<or> oh_type (outhdrs s p) = VIRTIO_BLK_T_OUT \<and> vd_flags d1 = VRING_DESC_F_NEXT
          | _ \<Rightarrow> False))"

text \<open>
  The device serves a request: it copies the sector, or fails and transfers nothing; it stores the status, 0 for success, and puts the head of the chain into the
  ring of answers.
\<close>

definition dev_copy :: "nat \<Rightarrow> nat \<Rightarrow> 'a vdisk_st_scheme \<Rightarrow> 'a vdisk_st_scheme" where
  "dev_copy p b s =
    (let sec = ucast (oh_sector (outhdrs s p))
     in if oh_type (outhdrs s p) = VIRTIO_BLK_T_OUT then s\<lparr>sectors := (sectors s)(sec := bdata (bufs s b))\<rparr>
        else set_buf b ((bufs s b)\<lparr>bdata := sectors s sec\<rparr>) s)"

definition dev_answer :: "nat \<Rightarrow> 'a vdisk_st_scheme \<Rightarrow> 'a vdisk_st_scheme" where
  "dev_answer h s =
    s\<lparr>used_elems := (used_elems s)(unat (used_id s) mod NUM := of_nat h), used_id := used_id s + 1, dev_todo := remove1 h (dev_todo s)\<rparr>"

definition dev_serve :: "u8 \<Rightarrow> nat \<Rightarrow> 'a vdisk_st_scheme \<Rightarrow> 'a vdisk_st_scheme" where
  "dev_serve status h s =
    (let d0 = vdescs s h; d1 = vdescs s (unat (vd_next d0)); d2 = vdescs s (unat (vd_next d1))
     in case (vd_addr d0, vd_addr d1, vd_addr d2) of
          (Outhdr p, BufData b, StatusByte k) \<Rightarrow>
            dev_answer h (upd_info k (\<lambda>v. v\<lparr>vi_status := status\<rparr>) (if status = 0 then dev_copy p b s else s))
        | _ \<Rightarrow> s)"

definition dev_fetch :: "'a vdisk_st_scheme \<Rightarrow> 'a vdisk_st_scheme" where
  "dev_fetch s = s\<lparr>dev_todo := dev_todo s @ [unat (avail s (2 + unat (dev_seen s) mod NUM))], dev_seen := dev_seen s + 1\<rparr>"

text \<open>
  A device fetches requests in the order of the ring, and serves those that it has fetched in any order, with any status; of a chain that is no request nothing is said.
\<close>

definition virtio_device :: "('a vdisk_st_scheme \<Rightarrow> 'a vdisk_st_scheme \<Rightarrow> bool) \<Rightarrow> bool" where
  "virtio_device dev \<longleftrightarrow>
    (\<forall>s t. dev s t \<longrightarrow> dev_seen s \<noteq> avail s 1 \<and> t = dev_fetch s \<or> (\<exists>h\<in>set (dev_todo s). \<exists>status. chain_ok h s \<longrightarrow> t = dev_serve status h s))"

section \<open>The operations under the lock\<close>

lemma free_desc_eq:
  assumes "core s = acq VdiskLock c" and "idle c" and "i < NUM" and "\<not> vfree s i"
  shows "free_desc i s = Inr (s\<lparr>vdescs := (vdescs s)(i := (vdescs s i)\<lparr>vd_addr := NoAddr\<rparr>), vfree := (vfree s)(i := True),
    procs := woken_tab ChVdiskFree (procs s)\<rparr>)"
proof -
  let ?s = "(upd_desc i (\<lambda>d. d\<lparr>vd_addr := NoAddr\<rparr>) s)\<lparr>vfree := (vfree s)(i := True)\<rparr>"
  have "wakeup ChVdiskFree ?s = Inr (wake ChVdiskFree (?s\<lparr>core := settle (core ?s)\<rparr>))"
    by (rule wakeup_eq) (use assms idleD [OF assms(2)] in \<open>simp_all add: upd_desc_def\<close>)
  moreover have "settle (core ?s) = core ?s" using assms idleD [OF assms(2)] by (simp add: upd_desc_def)
  ultimately show ?thesis using assms by (simp add: free_desc_def upd_desc_def wake_def)
qed

lemma free_all_eq:
  assumes "core s = acq VdiskLock c" and "idle c" and "distinct is" and "\<forall>i\<in>set is. i < NUM \<and> \<not> vfree s i"
  shows "\<exists>ds q. free_all is s = Inr (s\<lparr>vdescs := ds, vfree := (\<lambda>x. x \<in> set is \<or> vfree s x), procs := q\<rparr>) \<and> (\<forall>x. x \<notin> set is \<longrightarrow> ds x = vdescs s x)"
  using assms
proof (induction "is" arbitrary: s)
  case Nil
  have "s = s\<lparr>vdescs := vdescs s, vfree := (\<lambda>x. vfree s x), procs := procs s\<rparr>" by simp
  then show ?case by (intro exI [of _ "vdescs s"] exI [of _ "procs s"]) simp
next
  case (Cons i "is")
  let ?t = "s\<lparr>vdescs := (vdescs s)(i := (vdescs s i)\<lparr>vd_addr := NoAddr\<rparr>), vfree := (vfree s)(i := True), procs := woken_tab ChVdiskFree (procs s)\<rparr>"
  obtain ds q where d: "free_all is ?t = Inr (?t\<lparr>vdescs := ds, vfree := (\<lambda>x. x \<in> set is \<or> vfree ?t x), procs := q\<rparr>)"
      "\<forall>x. x \<notin> set is \<longrightarrow> ds x = vdescs ?t x"
  proof -
    have "core ?t = acq VdiskLock c" "\<forall>j\<in>set is. j < NUM \<and> \<not> vfree ?t j" using Cons.prems by (auto split: if_splits)
    then show ?thesis using Cons.IH [of ?t] Cons.prems(2,3) that by auto
  qed
  have "(\<lambda>x. x \<in> set is \<or> vfree ?t x) = (\<lambda>x. x \<in> set (i # is) \<or> vfree s x)" by auto
  with d have "free_all (i # is) s = Inr (s\<lparr>vdescs := ds, vfree := (\<lambda>x. x \<in> set (i # is) \<or> vfree s x), procs := q\<rparr>)"
    using free_desc_eq [OF Cons.prems(1,2), of i] Cons.prems(4) by simp
  moreover have "\<forall>x. x \<notin> set (i # is) \<longrightarrow> ds x = vdescs s x" using d(2) by simp
  ultimately show ?case by blast
qed

lemma free_chain_eq:
  assumes "core s = acq VdiskLock c" and "idle c" and "distinct [h, i, j]" and "\<forall>x\<in>{h, i, j}. x < NUM \<and> \<not> vfree s x"
    and "vd_flags (vdescs s h) AND 1 \<noteq> 0" "unat (vd_next (vdescs s h)) = i"
    and "vd_flags (vdescs s i) AND 1 \<noteq> 0" "unat (vd_next (vdescs s i)) = j" and "vd_flags (vdescs s j) AND 1 = 0"
  shows "\<exists>ds q. free_chain h s = Inr (s\<lparr>vdescs := ds, vfree := (\<lambda>x. x \<in> {h, i, j} \<or> vfree s x), procs := q\<rparr>) \<and> (\<forall>x. x \<notin> {h, i, j} \<longrightarrow> ds x = vdescs s x)"
proof -
  define f where "f x t = t\<lparr>vdescs := (vdescs t)(x := (vdescs t x)\<lparr>vd_addr := NoAddr\<rparr>), vfree := (vfree t)(x := True),
    procs := woken_tab ChVdiskFree (procs t)\<rparr>" for x and t :: "'a vdisk_st_scheme"
  have f: "core (f x t) = core t" "vfree (f x t) = (vfree t)(x := True)" "vdescs (f x t) = (vdescs t)(x := (vdescs t x)\<lparr>vd_addr := NoAddr\<rparr>)"
    for x and t :: "'a vdisk_st_scheme"
    by (simp_all add: f_def)
  have "free_desc h s = Inr (f h s)" "free_desc i (f h s) = Inr (f i (f h s))" "free_desc j (f i (f h s)) = Inr (f j (f i (f h s)))"
    using assms by (simp_all add: free_desc_eq [of _ c] f_def)
  then have "free_chain h s = Inr (f j (f i (f h s)))"
    using assms by (simp add: free_chain.simps [of h] free_chain.simps [of i] free_chain.simps [of j] f(3))
  moreover have "vfree (f j (f i (f h s))) = (\<lambda>x. x \<in> {h, i, j} \<or> vfree s x)" by (auto simp: f(2) fun_eq_iff)
  moreover have "f j (f i (f h s)) = s\<lparr>vdescs := vdescs (f j (f i (f h s))), vfree := vfree (f j (f i (f h s))), procs := procs (f j (f i (f h s)))\<rparr>"
    by (simp add: f_def)
  moreover have "\<forall>x. x \<notin> {h, i, j} \<longrightarrow> vdescs (f j (f i (f h s))) x = vdescs s x" by (simp add: f(3))
  ultimately show ?thesis by metis
qed

lemma find_Some_nth: "find P [0..<n] = Some i \<Longrightarrow> P i \<and> i < n"
  by (auto simp: find_Some_iff)

lemma alloc_desc_cases:
  obtains (none) "alloc_desc s = (None, s)"
  | (some) i where "alloc_desc s = (Some i, s\<lparr>vfree := (vfree s)(i := False)\<rparr>)" and "i < NUM" and "vfree s i"
proof (cases "find (vfree s) [0..<NUM]")
  case None
  show ?thesis by (rule none) (simp add: alloc_desc_def None)
next
  case (Some i)
  show ?thesis by (rule some [of i]) (use find_Some_nth [OF Some] in \<open>simp_all add: alloc_desc_def Some\<close>)
qed

definition taken :: "nat set \<Rightarrow> 'a vdisk_st_scheme \<Rightarrow> 'a vdisk_st_scheme" where
  "taken X s = s\<lparr>vfree := (\<lambda>x. x \<notin> X \<and> vfree s x)\<rparr>"

lemma alloc3_none:
  assumes "core s = acq VdiskLock c" and "idle c" and "distinct is" and "\<forall>i\<in>set is. i < NUM \<and> vfree s i"
    and "t = taken (set is) s"
  shows "\<exists>ds q. kbind (free_all is t) (\<lambda>s. Inr (None :: nat list option, s)) = Inr (None, s\<lparr>vdescs := ds, procs := q\<rparr>) \<and> (\<forall>x. \<not> vfree s x \<longrightarrow> ds x = vdescs s x)"
proof -
  obtain ds q where d: "free_all is t = Inr (t\<lparr>vdescs := ds, vfree := (\<lambda>x. x \<in> set is \<or> vfree t x), procs := q\<rparr>)"
      "\<forall>x. x \<notin> set is \<longrightarrow> ds x = vdescs t x"
    using free_all_eq [of t c "is"] assms by (auto simp: taken_def)
  have "(\<lambda>x. x \<in> set is \<or> vfree t x) = vfree s" using assms(4,5) by (auto simp: taken_def)
  then have "t\<lparr>vdescs := ds, vfree := (\<lambda>x. x \<in> set is \<or> vfree t x), procs := q\<rparr> = s\<lparr>vdescs := ds, procs := q\<rparr>"
    by (simp add: assms(5) taken_def)
  with d assms(4,5) show ?thesis by (auto simp: taken_def)
qed

lemma alloc3_loop_cases:
  assumes "core s = acq VdiskLock c" and "idle c" and "distinct got" and "\<forall>x\<in>set got. x < NUM \<and> vfree s x"
  shows "(\<exists>js. alloc3_loop n got (taken (set got) s) = Inr (Some (got @ js), taken (set (got @ js)) s) \<and> length js = n \<and>
      distinct (got @ js) \<and> (\<forall>x\<in>set (got @ js). x < NUM \<and> vfree s x))
    \<or> (\<exists>ds q. alloc3_loop n got (taken (set got) s) = Inr (None, s\<lparr>vdescs := ds, procs := q\<rparr>) \<and> (\<forall>x. \<not> vfree s x \<longrightarrow> ds x = vdescs s x))"
  using assms(3,4)
proof (induction n arbitrary: got)
  case (Suc n)
  show ?case
  proof (cases "taken (set got) s" rule: alloc_desc_cases)
    case none
    then show ?thesis using alloc3_none [OF assms(1,2) Suc.prems refl] by simp
  next
    case (some i)
    have "(taken (set got) s)\<lparr>vfree := (vfree (taken (set got) s))(i := False)\<rparr> = taken (set (got @ [i])) s"
      by (auto simp: taken_def fun_eq_iff)
    then have "alloc3_loop (Suc n) got (taken (set got) s) = alloc3_loop n (got @ [i]) (taken (set (got @ [i])) s)"
      using some(1) by simp
    moreover have "distinct (got @ [i])" "\<forall>x\<in>set (got @ [i]). x < NUM \<and> vfree s x"
      using some(2,3) Suc.prems by (auto simp: taken_def)
    ultimately show ?thesis using Suc.IH [of "got @ [i]"] by (metis append_assoc append_Cons append_Nil length_Cons)
  qed
qed simp

lemma alloc3_cases:
  assumes "core s = acq VdiskLock c" and "idle c"
  obtains (some) i j k where "alloc3_desc s = Inr (Some [i, j, k], taken {i, j, k} s)" and "distinct [i, j, k]" and "\<forall>x\<in>{i, j, k}. x < NUM \<and> vfree s x"
  | (none) ds q where "alloc3_desc s = Inr (None, s\<lparr>vdescs := ds, procs := q\<rparr>)" and "\<forall>x. \<not> vfree s x \<longrightarrow> ds x = vdescs s x"
proof -
  have "taken (set []) s = s" by (simp add: taken_def)
  then have "(\<exists>js. alloc3_desc s = Inr (Some js, taken (set js) s) \<and> length js = 3 \<and> distinct js \<and> (\<forall>x\<in>set js. x < NUM \<and> vfree s x))
    \<or> (\<exists>ds q. alloc3_desc s = Inr (None, s\<lparr>vdescs := ds, procs := q\<rparr>) \<and> (\<forall>x. \<not> vfree s x \<longrightarrow> ds x = vdescs s x))"
    using alloc3_loop_cases [OF assms, of "[]" 3] by (simp add: alloc3_desc_def)
  then show thesis
  proof (elim disjE exE conjE)
    fix js
    assume js: "alloc3_desc s = Inr (Some js, taken (set js) s)" "length js = 3" "distinct js" "\<forall>x\<in>set js. x < NUM \<and> vfree s x"
    then obtain i j k where "js = [i, j, k]" by (auto simp: numeral_3_eq_3 length_Suc_conv)
    with js show thesis using some [of i j k] by simp
  qed (use none in blast)
qed

section \<open>A process in the driver\<close>

text \<open>The lookup of the header only reads the memory. It succeeds when the kernel stack is mapped.\<close>

lemma walk_loop_reads: "\<exists>a. \<forall>t :: 'a kmem_st_scheme. mem t = m \<longrightarrow> walk_loop n pt va False t = Inr (a, t)"
proof (induction n arbitrary: pt)
  case (Suc n)
  let ?e = "load64 m (pte_addr pt (Suc n) va)"
  show ?case using Suc [of "PTE2PA ?e"] by (cases "?e AND PTE_V = 0") (auto simp: Let_def)
qed auto

lemma kwalkaddr_reads:
  fixes s t :: "'a kmem_st_scheme"
  assumes "kwalkaddr kpt va s = Inr (a, u)" and "mem t = mem s"
  shows "kwalkaddr kpt va t = Inr (a, t)" and "u = s"
proof -
  obtain x where "\<forall>t :: 'a kmem_st_scheme. mem t = mem s \<longrightarrow> walk_loop 2 kpt va False t = Inr (x, t)"
    using walk_loop_reads by blast
  then have "walk_loop 2 kpt va False s = Inr (x, s)" "walk_loop 2 kpt va False t = Inr (x, t)" using assms(2) by auto
  then show "kwalkaddr kpt va t = Inr (a, t)" "u = s"
    using assms by (auto simp: kwalkaddr_def walk_def Let_def split: if_splits)
qed

definition header_mapped :: "nat \<Rightarrow> 'a vdisk_st_scheme \<Rightarrow> bool" where
  "header_mapped p s \<longleftrightarrow> (\<exists>a. kwalkaddr (kpagetable (procs s p)) (buf0_at s p) s = Inr (a, s))"

lemma header_mapped_cong:
  fixes s t :: "'a vdisk_st_scheme"
  assumes "mem t = mem s" and "kpagetable (procs t p) = kpagetable (procs s p)" and "buf0_at t p = buf0_at s p"
  shows "header_mapped p t \<longleftrightarrow> header_mapped p s"
proof
  show "header_mapped p s" if "header_mapped p t"
    using that kwalkaddr_reads(1) [OF _ assms(1) [symmetric]] unfolding header_mapped_def assms(2,3) by blast
  show "header_mapped p t" if "header_mapped p s"
    using that kwalkaddr_reads(1) [OF _ assms(1)] unfolding header_mapped_def assms(2,3) by blast
qed

text \<open>The request of process \<open>p\<close> on the descriptors \<open>i\<close>, \<open>j\<close> and \<open>k\<close>, and the state with it in the ring.\<close>

definition submitted :: "nat \<Rightarrow> nat \<Rightarrow> bool \<Rightarrow> u64 \<Rightarrow> nat \<Rightarrow> nat \<Rightarrow> nat \<Rightarrow> 'a vdisk_st_scheme \<Rightarrow> 'a vdisk_st_scheme" where
  "submitted p b w sec i j k s =
    virtio_submit i (virtio_chain p b w i j k ((taken {i, j, k} s)\<lparr>outhdrs := (outhdrs s)(p :=
      \<lparr>oh_type = (if w then VIRTIO_BLK_T_OUT else VIRTIO_BLK_T_IN), oh_reserved = 0, oh_sector = sec\<rparr>)\<rparr>))"

lemma fill_cases:
  obtains (mapped) t where "virtio_fill p b w sec i j k (taken {i, j, k} s) = Inr t" and "virtio_submit i t = submitted p b w sec i j k s"
  | (unmapped) e where "virtio_fill p b w sec i j k (taken {i, j, k} s) = Inl e" and "\<not> header_mapped p s"
proof -
  let ?s = "(taken {i, j, k} s)\<lparr>outhdrs := (outhdrs s)(p :=
      \<lparr>oh_type = (if w then VIRTIO_BLK_T_OUT else VIRTIO_BLK_T_IN), oh_reserved = 0, oh_sector = sec\<rparr>)\<rparr>"
  have m: "mem ?s = mem s" "procs ?s = procs s" "buf0_at ?s = buf0_at s" by (simp_all add: taken_def)
  have o: "outhdrs (taken {i, j, k} s) = outhdrs s" by (simp add: taken_def)
  show thesis
  proof (cases "kwalkaddr (kpagetable (procs s p)) (buf0_at s p) ?s")
    case (Inl e)
    have "\<not> header_mapped p ?s" using Inl m by (simp add: header_mapped_def)
    moreover have "virtio_fill p b w sec i j k (taken {i, j, k} s) = Inl e" using Inl m by (simp add: virtio_fill_def Let_def o)
    ultimately show thesis using unmapped header_mapped_cong [of ?s s p] m by simp
  next
    case (Inr r)
    then obtain a where "kwalkaddr (kpagetable (procs s p)) (buf0_at s p) ?s = Inr (a, ?s)"
      using kwalkaddr_reads(2) [of _ _ ?s _ _ ?s] by (cases r) auto
    then have "virtio_fill p b w sec i j k (taken {i, j, k} s) = Inr (virtio_chain p b w i j k ?s)"
      using m by (simp add: virtio_fill_def Let_def o)
    then show thesis by (rule mapped) (simp add: submitted_def)
  qed
qed

lemmas virtio_defs = virtio_submit_def virtio_chain_def upd_desc_def upd_info_def set_bdisk_def wr_reg_def taken_def Let_def

lemma disk_info_full [simp]: "v\<lparr>vi_status := a, vi_buf := b\<rparr> = \<lparr>vi_buf = b, vi_status = a\<rparr>" for v :: disk_info
  by (cases v) simp

lemma submitted_simps [simp]:
  "core (submitted p b w sec i j k s) = core s" "procs (submitted p b w sec i j k s) = procs s"
  "bufs (submitted p b w sec i j k s) = bufs s" "sectors (submitted p b w sec i j k s) = sectors s"
  "bdisk (submitted p b w sec i j k s) = (bdisk s)(b := True)"
  "used_idx (submitted p b w sec i j k s) = used_idx s" "used_id (submitted p b w sec i j k s) = used_id s"
  "used_elems (submitted p b w sec i j k s) = used_elems s"
  "dev_seen (submitted p b w sec i j k s) = dev_seen s" "dev_todo (submitted p b w sec i j k s) = dev_todo s"
  "vfree (submitted p b w sec i j k s) = (\<lambda>x. x \<notin> {i, j, k} \<and> vfree s x)"
  "avail (submitted p b w sec i j k s) = (avail s)(2 + unat (avail s 1 mod of_nat NUM) := of_nat i, 1 := avail s 1 + 1)"
  "outhdrs (submitted p b w sec i j k s) = (outhdrs s)(p := \<lparr>oh_type = (if w then 1 else 0), oh_reserved = 0, oh_sector = sec\<rparr>)"
  "vinfo (submitted p b w sec i j k s) = (vinfo s)(i := \<lparr>vi_buf = Some b, vi_status = 0\<rparr>)"
  by (simp_all add: submitted_def virtio_defs)

lemma submitted_descs:
  assumes "distinct [i, j, k]"
  shows "vdescs (submitted p b w sec i j k s) = (vdescs s)(
    i := \<lparr>vd_addr = Outhdr p, vd_len = 16, vd_flags = 1, vd_next = of_nat j\<rparr>,
    j := \<lparr>vd_addr = BufData b, vd_len = 512, vd_flags = (if w then 1 else 3), vd_next = of_nat k\<rparr>,
    k := \<lparr>vd_addr = StatusByte i, vd_len = 1, vd_flags = 2, vd_next = 0\<rparr>)"
  using assms by (auto simp: submitted_def virtio_defs BSIZE_def fun_eq_iff intro!: vring_desc.equality)

lemma submitted_acq: "submitted p b w sec i j k (s\<lparr>core := c\<rparr>) = (submitted p b w sec i j k s)\<lparr>core := c\<rparr>"
  by (simp add: submitted_def virtio_defs)

text \<open>A process on its hart with the lock of the driver.\<close>

definition in_driver :: "nat \<Rightarrow> 'a vdisk_st_scheme \<Rightarrow> bool" where
  "in_driver p s \<longleftrightarrow> (\<exists>c. core s = acq VdiskLock c \<and> idle c \<and> noff (mycpu c) = 0 \<and> cproc (mycpu c) = Some p)"

lemma virtio_sleep:
  assumes "in_driver p s"
  shows "\<exists>ie c q. sleep_enter ch VdiskLock s = Inr (ie, s\<lparr>core := c, procs := q\<rparr>)"
proof -
  obtain c where c: "core s = acq VdiskLock c" "idle c" "noff (mycpu c) = 0" "cproc (mycpu c) = Some p"
    using assms by (auto simp: in_driver_def)
  show ?thesis using sleep_enter_eq [OF c(2,3,4,1), of ch] by (auto simp: upd_proc_def)
qed

lemma virtio_wait_sleeps:
  assumes "in_driver p s" and "bdisk s b"
  shows "\<exists>ie c q. virtio_wait b i s = Inr (Waiting (WantBuf i ie), s\<lparr>core := c, procs := q\<rparr>)"
proof -
  obtain ie c q where "sleep_enter (ChBuf b) VdiskLock s = Inr (ie, s\<lparr>core := c, procs := q\<rparr>)"
    using virtio_sleep [OF assms(1)] by blast
  then have "virtio_wait b i s = Inr (Waiting (WantBuf i ie), s\<lparr>core := c, procs := q\<rparr>)" using assms(2) by (simp add: virtio_wait_def)
  then show ?thesis by blast
qed

lemma virtio_alloc_cases:
  assumes "in_driver p s"
  obtains (some) i j k ie c q where
      "virtio_alloc b w sec s = Inr (Waiting (WantBuf i ie), (submitted p b w sec i j k s)\<lparr>core := c, procs := q\<rparr>)"
      and "distinct [i, j, k]" and "\<forall>x\<in>{i, j, k}. x < NUM \<and> vfree s x"
  | (none) ds ie c q where
      "virtio_alloc b w sec s = Inr (Waiting (WantDesc sec ie), s\<lparr>vdescs := ds, core := c, procs := q\<rparr>)"
      and "\<forall>x. \<not> vfree s x \<longrightarrow> ds x = vdescs s x"
  | (unmapped) e where "virtio_alloc b w sec s = Inl e" and "\<not> header_mapped p s"
proof -
  obtain c where c: "core s = acq VdiskLock c" "idle c" "noff (mycpu c) = 0" "cproc (mycpu c) = Some p"
    using assms by (auto simp: in_driver_def)
  show thesis
  proof (cases rule: alloc3_cases [OF c(1,2)])
    case 1: (1 i j k)
    let ?t = "submitted p b w sec i j k s"
    have "curproc (taken {i, j, k} s) = Inr (p, taken {i, j, k} s)"
      by (rule curproc_locked [of _ VdiskLock c]) (use c idleD [OF c(2)] in \<open>simp_all add: taken_def\<close>)
    then have v: "virtio_alloc b w sec s = kbind (virtio_fill p b w sec i j k (taken {i, j, k} s)) (\<lambda>s. virtio_wait b i (virtio_submit i s))"
      using 1(1) by (simp add: virtio_alloc_def Let_def)
    show thesis
    proof (cases rule: fill_cases [of p b w sec i j k s])
      case (mapped f)
      then have "virtio_alloc b w sec s = virtio_wait b i ?t" using v by simp
      moreover have "in_driver p ?t" using assms by (simp add: in_driver_def)
      moreover from this obtain ie d q where "virtio_wait b i ?t = Inr (Waiting (WantBuf i ie), ?t\<lparr>core := d, procs := q\<rparr>)"
        using virtio_wait_sleeps [of p ?t b i] by auto
      ultimately have "virtio_alloc b w sec s = Inr (Waiting (WantBuf i ie), ?t\<lparr>core := d, procs := q\<rparr>)" by simp
      from some [OF this 1(2,3)] show thesis .
    next
      case (unmapped e)
      with v show thesis by (intro that(3)) simp_all
    qed
  next
    case 2: (2 ds q)
    let ?t = "s\<lparr>vdescs := ds, procs := q\<rparr>"
    have "in_driver p ?t" using assms by (simp add: in_driver_def)
    from virtio_sleep [OF this, of ChVdiskFree] obtain ie d r
      where "sleep_enter ChVdiskFree VdiskLock ?t = Inr (ie, ?t\<lparr>core := d, procs := r\<rparr>)" by blast
    then have "virtio_alloc b w sec s = Inr (Waiting (WantDesc sec ie), s\<lparr>vdescs := ds, core := d, procs := r\<rparr>)"
      using 2(1) by (simp add: virtio_alloc_def)
    from none [OF this 2(2)] show thesis .
  qed
qed

lemma virtio_wait_ends:
  assumes "in_driver p s" and "\<not> bdisk s b" and "distinct [h, i, j]" and "\<forall>x\<in>{h, i, j}. x < NUM \<and> \<not> vfree s x"
    and "vd_flags (vdescs s h) AND 1 \<noteq> 0" "unat (vd_next (vdescs s h)) = i"
    and "vd_flags (vdescs s i) AND 1 \<noteq> 0" "unat (vd_next (vdescs s i)) = j" and "vd_flags (vdescs s j) AND 1 = 0"
  shows "\<exists>ds c q. virtio_wait b h s = Inr (Finished (), s\<lparr>vinfo := (vinfo s)(h := (vinfo s h)\<lparr>vi_buf := None\<rparr>), vdescs := ds,
      vfree := (\<lambda>x. x \<in> {h, i, j} \<or> vfree s x), core := c, procs := q\<rparr>) \<and> (\<forall>x. x \<notin> {h, i, j} \<longrightarrow> ds x = vdescs s x)"
proof -
  obtain c where c: "core s = acq VdiskLock c" "idle c" "noff (mycpu c) = 0" "cproc (mycpu c) = Some p"
    using assms(1) by (auto simp: in_driver_def)
  let ?t = "upd_info h (\<lambda>v. v\<lparr>vi_buf := None\<rparr>) s"
  have t: "core ?t = acq VdiskLock c" "vfree ?t = vfree s" "vdescs ?t = vdescs s" by (simp_all add: upd_info_def c)
  obtain ds q where d: "free_chain h ?t = Inr (?t\<lparr>vdescs := ds, vfree := (\<lambda>x. x \<in> {h, i, j} \<or> vfree ?t x), procs := q\<rparr>)"
      "\<forall>x. x \<notin> {h, i, j} \<longrightarrow> ds x = vdescs ?t x"
    using free_chain_eq [OF t(1) c(2) assms(3)] assms(4-9) unfolding t(2,3) by blast
  then have "virtio_wait b h s = Inr (Finished (), s\<lparr>vinfo := (vinfo s)(h := (vinfo s h)\<lparr>vi_buf := None\<rparr>), vdescs := ds,
      vfree := (\<lambda>x. x \<in> {h, i, j} \<or> vfree s x), core := settle c, procs := q\<rparr>)"
    using assms(2) c idleD [OF c(2)] by (simp add: virtio_wait_def lock_simps upd_info_def)
  with d(2) show ?thesis unfolding t(3) by (intro exI conjI) assumption+
qed

section \<open>The interrupt handler\<close>

text \<open>The answers in \<open>unseen\<close> are good: each is the head of a request; and none of them reports an error.\<close>

definition answers_ok :: "'a vdisk_st_scheme \<Rightarrow> bool" where
  "answers_ok s \<longleftrightarrow> unat (used_idx s) < NUM \<and> (\<forall>h\<in>set (unseen s). h < NUM \<and> vi_buf (vinfo s h) \<noteq> None)"

definition no_error :: "'a vdisk_st_scheme \<Rightarrow> bool" where
  "no_error s \<longleftrightarrow> (\<forall>h\<in>set (unseen s). vi_status (vinfo s h) = 0)"

definition done_bufs :: "'a vdisk_st_scheme \<Rightarrow> nat list" where
  "done_bufs s = map (\<lambda>h. the (vi_buf (vinfo s h))) (unseen s)"

lemma unseen_Cons:
  assumes "used_idx s mod of_nat NUM \<noteq> used_id s mod of_nat NUM" and "used_idx t = (used_idx s + 1) mod of_nat NUM" and "used_id t = used_id s"
    and "used_elems t = used_elems s"
  shows "unseen s = unat (used_elems s (unat (used_idx s) mod NUM)) # unseen t"
proof -
  have "unseen_count s = Suc (unseen_count t)" by (rule unseen_count_Suc [OF assms(2,3,1)])
  moreover have "unat (used_idx t) = Suc (unat (used_idx s)) mod NUM" by (simp only: assms(2) slot_Suc)
  ultimately show ?thesis by (simp add: unseen_def ring_slots_Suc assms(4))
qed

lemma unseen_Nil: "used_idx s mod of_nat NUM = used_id s mod of_nat NUM \<Longrightarrow> unseen s = []"
  by (simp only: slot_eq_iff) (simp add: unseen_def unseen_count_def ring_slots_def NUM_def mod_dist)

lemma virtio_intr_loop_eq:
  assumes "core s = acq VdiskLock c" and "idle c" and "answers_ok s" and "no_error s"
  shows "\<exists>u. virtio_intr_loop s = Inr (s\<lparr>bdisk := (\<lambda>b. bdisk s b \<and> b \<notin> set (done_bufs s)), used_idx := u,
      procs := fold (\<lambda>b. woken_tab (ChBuf b)) (done_bufs s) (procs s)\<rparr>)
    \<and> unat u < NUM \<and> u mod of_nat NUM = used_id s mod of_nat NUM"
  using assms
proof (induction s rule: virtio_intr_loop.induct)
  case (1 s)
  show ?case
  proof (cases "used_idx s mod of_nat NUM = used_id s mod of_nat NUM")
    case True
    have "s = s\<lparr>bdisk := (\<lambda>b. bdisk s b \<and> b \<notin> set []), used_idx := used_idx s, procs := fold (\<lambda>b. woken_tab (ChBuf b)) [] (procs s)\<rparr>" by simp
    with True show ?thesis using "1.prems"(3)
      by (intro exI [of _ "used_idx s"]) (simp add: virtio_intr_loop.simps [of s] unseen_Nil done_bufs_def answers_ok_def)
  next
    case False
    let ?h = "unat (used_elems s (unat (used_idx s)))"
    define b where "b = the (vi_buf (vinfo s ?h))"
    define t where "t = s\<lparr>bdisk := (bdisk s)(b := False), procs := woken_tab (ChBuf b) (procs s), used_idx := (used_idx s + 1) mod of_nat NUM\<rparr>"
    have u: "unseen s = ?h # unseen t"
      using unseen_Cons [OF False, of t] "1.prems"(3) by (simp add: t_def answers_ok_def)
    have h: "unat (used_idx s) < NUM" "?h < NUM" "vi_status (vinfo s ?h) = 0" "vi_buf (vinfo s ?h) = Some b"
      using "1.prems"(3,4) u by (auto simp: answers_ok_def no_error_def b_def)
    let ?s = "set_bdisk b False s"
    have "wakeup (ChBuf b) ?s = Inr (wake (ChBuf b) (?s\<lparr>core := settle (core ?s)\<rparr>))"
      by (rule wakeup_eq) (use "1.prems"(1) idleD [OF "1.prems"(2)] in \<open>simp_all add: set_bdisk_def\<close>)
    moreover have "settle (core ?s) = core ?s" using "1.prems"(1) idleD [OF "1.prems"(2)] by (simp add: set_bdisk_def)
    ultimately have turn: "virtio_intr_turn s = Inr t"
      using h by (simp add: virtio_intr_turn_def t_def wake_def set_bdisk_def Let_def)
    have "answers_ok t" using "1.prems"(3) u by (auto simp: answers_ok_def t_def slot_unat NUM_def unat_mod_distrib)
    moreover have "no_error t" using "1.prems"(4) u by (simp add: no_error_def) (simp add: t_def)
    ultimately obtain v where v: "virtio_intr_loop t = Inr (t\<lparr>bdisk := (\<lambda>b. bdisk t b \<and> b \<notin> set (done_bufs t)), used_idx := v,
        procs := fold (\<lambda>b. woken_tab (ChBuf b)) (done_bufs t) (procs t)\<rparr>)" "unat v < NUM" "v mod of_nat NUM = used_id t mod of_nat NUM"
      using "1.IH" [OF False turn] "1.prems"(1,2) by (auto simp: t_def)
    have d: "done_bufs s = b # done_bufs t" using u by (simp add: done_bufs_def b_def) (simp add: t_def)
    have "(\<lambda>b. bdisk t b \<and> b \<notin> set (done_bufs t)) = (\<lambda>b. bdisk s b \<and> b \<notin> set (done_bufs s))" unfolding d by (auto simp: t_def)
    moreover have "fold (\<lambda>b. woken_tab (ChBuf b)) (done_bufs t) (procs t) = fold (\<lambda>b. woken_tab (ChBuf b)) (done_bufs s) (procs s)"
      unfolding d by (simp add: t_def)
    ultimately have "virtio_intr_loop s = Inr (s\<lparr>bdisk := (\<lambda>b. bdisk s b \<and> b \<notin> set (done_bufs s)), used_idx := v,
        procs := fold (\<lambda>b. woken_tab (ChBuf b)) (done_bufs s) (procs s)\<rparr>)"
      using v(1) False turn by (simp add: virtio_intr_loop.simps [of s]) (simp add: t_def)
    with v(2,3) show ?thesis by (auto simp: t_def)
  qed
qed

text \<open>An answer that reports an error makes the loop panic.\<close>

lemma virtio_intr_loop_panics:
  assumes "core s = acq VdiskLock c" and "idle c" and "answers_ok s" and "\<not> no_error s"
  shows "virtio_intr_loop s = Inl (Panic ''virtio_disk_intr status'')"
  using assms
proof (induction s rule: virtio_intr_loop.induct)
  case (1 s)
  have ne: "used_idx s mod of_nat NUM \<noteq> used_id s mod of_nat NUM"
    using "1.prems"(4) unseen_Nil by (fastforce simp: no_error_def)
  let ?h = "unat (used_elems s (unat (used_idx s)))"
  define b where "b = the (vi_buf (vinfo s ?h))"
  define t where "t = s\<lparr>bdisk := (bdisk s)(b := False), procs := woken_tab (ChBuf b) (procs s), used_idx := (used_idx s + 1) mod of_nat NUM\<rparr>"
  have u: "unseen s = ?h # unseen t"
    using unseen_Cons [OF ne, of t] "1.prems"(3) by (simp add: t_def answers_ok_def)
  have h: "unat (used_idx s) < NUM" "?h < NUM" "vi_buf (vinfo s ?h) = Some b"
    using "1.prems"(3) u by (auto simp: answers_ok_def b_def)
  show ?case
  proof (cases "vi_status (vinfo s ?h) = 0")
    case False
    then have "virtio_intr_turn s = Inl (Panic ''virtio_disk_intr status'')"
      using h by (simp add: virtio_intr_turn_def Let_def)
    then show ?thesis using ne by (simp add: virtio_intr_loop.simps [of s])
  next
    case True
    let ?s = "set_bdisk b False s"
    have "wakeup (ChBuf b) ?s = Inr (wake (ChBuf b) (?s\<lparr>core := settle (core ?s)\<rparr>))"
      by (rule wakeup_eq) (use "1.prems"(1) idleD [OF "1.prems"(2)] in \<open>simp_all add: set_bdisk_def\<close>)
    moreover have "settle (core ?s) = core ?s" using "1.prems"(1) idleD [OF "1.prems"(2)] by (simp add: set_bdisk_def)
    ultimately have turn: "virtio_intr_turn s = Inr t"
      using h True by (simp add: virtio_intr_turn_def t_def wake_def set_bdisk_def Let_def)
    have "answers_ok t" using "1.prems"(3) u by (auto simp: answers_ok_def t_def slot_unat NUM_def unat_mod_distrib)
    moreover have "\<not> no_error t" using "1.prems"(4) u True by (simp add: no_error_def) (simp add: t_def)
    ultimately have "virtio_intr_loop t = Inl (Panic ''virtio_disk_intr status'')"
      using "1.IH" [OF ne turn] "1.prems"(1,2) by (simp add: t_def)
    then show ?thesis using ne turn by (simp add: virtio_intr_loop.simps [of s])
  qed
qed

lemma virtio_disk_intr_panics:
  assumes "idle (core s)" and "answers_ok s" and "\<not> no_error s"
  shows "virtio_disk_intr s = Inl (Panic ''virtio_disk_intr status'')"
proof -
  let ?s = "s\<lparr>core := acq VdiskLock (core s)\<rparr>"
  have "answers_ok ?s" "\<not> no_error ?s" using assms(2,3) by (simp_all add: answers_ok_def no_error_def unseen_def unseen_count_def)
  with virtio_intr_loop_panics [of ?s "core s"] assms(1)
  have "virtio_intr_loop ?s = Inl (Panic ''virtio_disk_intr status'')" by simp
  then show ?thesis using idleD [OF assms(1)] by (simp add: virtio_disk_intr_def lock_simps)
qed

lemma virtio_disk_intr_eq:
  assumes "idle (core s)" and "answers_ok s" and "no_error s"
  shows "\<exists>u c r. virtio_disk_intr s = Inr (s\<lparr>bdisk := (\<lambda>b. bdisk s b \<and> b \<notin> set (done_bufs s)), used_idx := u,
      procs := fold (\<lambda>b. woken_tab (ChBuf b)) (done_bufs s) (procs s), core := c, reg_writes := r\<rparr>)
    \<and> unat u < NUM \<and> u mod of_nat NUM = used_id s mod of_nat NUM"
proof -
  note i = idleD [OF assms(1)]
  let ?s = "s\<lparr>core := acq VdiskLock (core s)\<rparr>"
  have "answers_ok ?s" "no_error ?s" "done_bufs ?s = done_bufs s"
    using assms(2,3) by (simp_all add: answers_ok_def no_error_def done_bufs_def unseen_def unseen_count_def)
  with virtio_intr_loop_eq [of ?s "core s"] assms(1) obtain u where
    "virtio_intr_loop ?s = Inr (?s\<lparr>bdisk := (\<lambda>b. bdisk s b \<and> b \<notin> set (done_bufs s)), used_idx := u,
      procs := fold (\<lambda>b. woken_tab (ChBuf b)) (done_bufs s) (procs s)\<rparr>)" "unat u < NUM" "u mod of_nat NUM = used_id s mod of_nat NUM"
    by auto
  moreover from this have "virtio_disk_intr s = Inr (s\<lparr>bdisk := (\<lambda>b. bdisk s b \<and> b \<notin> set (done_bufs s)), used_idx := u,
      procs := fold (\<lambda>b. woken_tab (ChBuf b)) (done_bufs s) (procs s), core := settle (core s), reg_writes := reg_writes s @ [(0x064, regs s 0x060 AND 3)]\<rparr>)"
    using i by (simp add: virtio_disk_intr_def lock_simps wr_reg_def)
  ultimately show ?thesis by blast
qed

section \<open>Everything at work\<close>

text \<open>
  A process in \<open>virtio_disk_rw\<close>: its buffer, whether it writes, and what it waits for. A configuration is the state with the
  requests of the processes.
\<close>

datatype vreq = VReq nat bool vwait

type_synonym 'a vconf = "'a vdisk_st_scheme \<times> (nat \<Rightarrow> vreq option)"

definition vnext :: "nat \<Rightarrow> bool \<Rightarrow> (vwait, unit) outcome \<Rightarrow> vreq option" where
  "vnext b w r = (case r of Finished _ \<Rightarrow> None | Waiting k \<Rightarrow> Some (VReq b w k))"

definition uses_buf :: "(nat \<Rightarrow> vreq option) \<Rightarrow> nat \<Rightarrow> nat \<Rightarrow> bool" where
  "uses_buf W p b \<longleftrightarrow> (\<exists>w k. W p = Some (VReq b w k))"

definition on_hart :: "nat \<Rightarrow> kcore \<Rightarrow> bool" where
  "on_hart p c \<longleftrightarrow> idle c \<and> noff (mycpu c) = 0 \<and> cproc (mycpu c) = Some p"

text \<open>
  A step: a process with the sleep lock of a buffer enters the driver, or goes on after \<open>sched\<close>; the handler runs; the device works; or the rest of the
  kernel does something, which leaves the buffers of the requests alone.
\<close>

inductive vstep :: "('a vdisk_st_scheme \<Rightarrow> 'a vdisk_st_scheme \<Rightarrow> bool) \<Rightarrow> 'a vconf \<Rightarrow> 'a vconf \<Rightarrow> bool" for dev where
  call: "W p = None \<Longrightarrow> on_hart p c \<Longrightarrow> \<forall>q. \<not> uses_buf W q b \<Longrightarrow> virtio_disk_rw_run b w (s\<lparr>core := c\<rparr>) = Inr (r, t) \<Longrightarrow>
    vstep dev (s, W) (t, W(p := vnext b w r))"
| resume: "W p = Some (VReq b w k) \<Longrightarrow> on_hart p c \<Longrightarrow> virtio_disk_rw_wake p b w k (s\<lparr>core := acq (ProcLock p) c\<rparr>) = Inr (r, t) \<Longrightarrow>
    vstep dev (s, W) (t, W(p := vnext b w r))"
| intr: "idle c \<Longrightarrow> virtio_disk_intr (s\<lparr>core := c\<rparr>) = Inr t \<Longrightarrow> vstep dev (s, W) (t, W)"
| device: "dev s t \<Longrightarrow> vstep dev (s, W) (t, W)"
| others: "vstep dev (s, W) (s\<lparr>procs := q, mem := m, bufs := (\<lambda>b. if \<exists>p. uses_buf W p b then bufs s b else f b)\<rparr>, W)"

inductive_cases vstepE: "vstep dev (s, W) c'"

section \<open>The invariant\<close>

definition in_flight :: "(nat \<Rightarrow> vreq option) \<Rightarrow> nat \<Rightarrow> nat \<Rightarrow> nat \<Rightarrow> bool \<Rightarrow> bool" where
  "in_flight W h p b w \<longleftrightarrow> (\<exists>ie. W p = Some (VReq b w (WantBuf h ie)))"

text \<open>The request of process \<open>p\<close> on the descriptors \<open>h\<close>, \<open>i\<close> and \<open>j\<close>.\<close>

definition chain_at :: "'a vdisk_st_scheme \<Rightarrow> nat \<Rightarrow> nat \<Rightarrow> bool \<Rightarrow> nat \<Rightarrow> nat \<Rightarrow> nat \<Rightarrow> bool" where
  "chain_at s p b w h i j \<longleftrightarrow> distinct [h, i, j] \<and> (\<forall>x\<in>{h, i, j}. x < NUM \<and> \<not> vfree s x)
    \<and> vdescs s h = \<lparr>vd_addr = Outhdr p, vd_len = 16, vd_flags = 1, vd_next = of_nat i\<rparr>
    \<and> vdescs s i = \<lparr>vd_addr = BufData b, vd_len = 512, vd_flags = (if w then 1 else 3), vd_next = of_nat j\<rparr>
    \<and> vdescs s j = \<lparr>vd_addr = StatusByte h, vd_len = 1, vd_flags = 2, vd_next = 0\<rparr>
    \<and> vi_buf (vinfo s h) = Some b
    \<and> outhdrs s p = \<lparr>oh_type = (if w then 1 else 0), oh_reserved = 0, oh_sector = ucast (sectorno (bufs s b))\<rparr>"

definition chain_of :: "'a vdisk_st_scheme \<Rightarrow> nat \<Rightarrow> nat set" where
  "chain_of s h = (let i = unat (vd_next (vdescs s h)) in {h, i, unat (vd_next (vdescs s i))})"

definition work :: "'a vdisk_st_scheme \<Rightarrow> nat list" where
  "work s = unfetched s @ dev_todo s @ unseen s"

definition vinv :: "'a vconf \<Rightarrow> bool" where
  "vinv c \<longleftrightarrow> (case c of (s, W) \<Rightarrow>
      (\<forall>h p b w. in_flight W h p b w \<longrightarrow> (\<exists>i j. chain_at s p b w h i j))
    \<and> (\<forall>h p b w h' p' b' w'. in_flight W h p b w \<longrightarrow> in_flight W h' p' b' w' \<longrightarrow> p \<noteq> p' \<longrightarrow> chain_of s h \<inter> chain_of s h' = {})
    \<and> (\<forall>p q b. uses_buf W p b \<longrightarrow> uses_buf W q b \<longrightarrow> p = q)
    \<and> (\<forall>p b w sec ie. W p = Some (VReq b w (WantDesc sec ie)) \<longrightarrow> sec = ucast (sectorno (bufs s b)))
    \<and> distinct (work s)
    \<and> (\<forall>h. h \<in> set (work s) \<longleftrightarrow> (\<exists>p b w. in_flight W h p b w \<and> bdisk s b))
    \<and> unat (used_idx s) < NUM
    \<and> (\<forall>h p b w. in_flight W h p b w \<longrightarrow> vi_status (vinfo s h) \<noteq> 0 \<longrightarrow> h \<in> set (unseen s)))"

lemma vinvI:
  assumes "\<And>h p b w. in_flight W h p b w \<Longrightarrow> \<exists>i j. chain_at s p b w h i j"
    and "\<And>h p b w h' p' b' w'. in_flight W h p b w \<Longrightarrow> in_flight W h' p' b' w' \<Longrightarrow> p \<noteq> p' \<Longrightarrow> chain_of s h \<inter> chain_of s h' = {}"
    and "\<And>p q b. uses_buf W p b \<Longrightarrow> uses_buf W q b \<Longrightarrow> p = q"
    and "\<And>p b w sec ie. W p = Some (VReq b w (WantDesc sec ie)) \<Longrightarrow> sec = ucast (sectorno (bufs s b))"
    and "distinct (work s)" and "\<And>h. h \<in> set (work s) \<longleftrightarrow> (\<exists>p b w. in_flight W h p b w \<and> bdisk s b)" and "unat (used_idx s) < NUM"
    and "\<And>h p b w. in_flight W h p b w \<Longrightarrow> vi_status (vinfo s h) \<noteq> 0 \<Longrightarrow> h \<in> set (unseen s)"
  shows "vinv (s, W)"
  unfolding vinv_def prod.case using assms by (intro conjI allI impI) metis+

lemma vinvD:
  assumes "vinv (s, W)"
  shows "in_flight W h p b w \<Longrightarrow> \<exists>i j. chain_at s p b w h i j"
    and "in_flight W h p b w \<Longrightarrow> in_flight W h' p' b' w' \<Longrightarrow> p \<noteq> p' \<Longrightarrow> chain_of s h \<inter> chain_of s h' = {}"
    and "uses_buf W p b \<Longrightarrow> uses_buf W q b \<Longrightarrow> p = q"
    and "W p = Some (VReq b w (WantDesc sec ie)) \<Longrightarrow> sec = ucast (sectorno (bufs s b))"
    and "distinct (work s)" and "h \<in> set (work s) \<longleftrightarrow> (\<exists>p b w. in_flight W h p b w \<and> bdisk s b)" and "unat (used_idx s) < NUM"
    and "in_flight W h p b w \<Longrightarrow> vi_status (vinfo s h) \<noteq> 0 \<Longrightarrow> h \<in> set (unseen s)"
  using assms unfolding vinv_def prod.case by metis+

lemma of_nat_slot: "x < NUM \<Longrightarrow> unat (of_nat x :: u16) = x"
  by (simp add: NUM_def unat_of_nat)

lemma chain_of_at: "chain_at s p b w h i j \<Longrightarrow> chain_of s h = {h, i, j}"
  by (simp add: chain_at_def chain_of_def of_nat_slot)

lemma in_flight_uses: "in_flight W h p b w \<Longrightarrow> uses_buf W p b"
  by (auto simp: in_flight_def uses_buf_def)

lemma in_flight_same: "in_flight W h p b w \<Longrightarrow> in_flight W h' p b' w' \<Longrightarrow> h' = h \<and> b' = b \<and> w' = w"
  by (auto simp: in_flight_def)

text \<open>The head determines the request.\<close>

lemma in_flight_head:
  assumes "vinv (s, W)" and "in_flight W h p b w" and "in_flight W h p' b' w'"
  shows "p' = p \<and> b' = b \<and> w' = w"
proof (cases "p = p'")
  case True then show ?thesis using assms(2,3) in_flight_same by blast
next
  case False
  have "h \<in> chain_of s h" by (simp add: chain_of_def Let_def)
  with vinvD(2) [OF assms False] show ?thesis by blast
qed

lemma work_flight:
  assumes "vinv (s, W)" and "h \<in> set (work s)"
  obtains p b w i j where "in_flight W h p b w" and "bdisk s b" and "chain_at s p b w h i j"
proof -
  obtain p b w where f: "in_flight W h p b w" "bdisk s b" using iffD1 [OF vinvD(6) [OF assms(1)] assms(2)] by blast
  moreover obtain i j where "chain_at s p b w h i j" using vinvD(1) [OF assms(1) f(1)] by blast
  ultimately show thesis by (rule that)
qed

text \<open>There is room in the rings: two descriptors of a chain are no heads.\<close>

lemma work_small:
  assumes "vinv (s, W)" and "h \<in> set (work s)"
  shows "length (work s) \<le> NUM - 2"
proof -
  obtain p b w i j where f: "in_flight W h p b w" "bdisk s b" "chain_at s p b w h i j" by (rule work_flight [OF assms])
  have "x < NUM \<and> x \<noteq> i \<and> x \<noteq> j" if x: "x \<in> set (work s)" for x
  proof -
    obtain p' b' w' i' j' where g: "in_flight W x p' b' w'" "bdisk s b'" "chain_at s p' b' w' x i' j'"
      by (rule work_flight [OF assms(1) x])
    show ?thesis
    proof (cases "p = p'")
      case True
      then have "x = h" using f(1) g(1) in_flight_same by blast
      then show ?thesis using f(3) by (auto simp: chain_at_def)
    next
      case False
      then have "{h, i, j} \<inter> {x, i', j'} = {}"
        using vinvD(2) [OF assms(1) f(1) g(1)] chain_of_at [OF f(3)] chain_of_at [OF g(3)] by simp
      then show ?thesis using g(3) by (auto simp: chain_at_def)
    qed
  qed
  then have "set (work s) \<subseteq> {..<NUM} - {i, j}" by auto
  then have "card (set (work s)) \<le> card ({..<NUM} - {i, j})" by (intro card_mono) auto
  also have "\<dots> = NUM - 2"
  proof -
    have "{i, j} \<subseteq> {..<NUM}" "i \<noteq> j" using f(3) by (auto simp: chain_at_def)
    then show ?thesis by (simp add: card_Diff_subset)
  qed
  finally show ?thesis using vinvD(5) [OF assms(1)] by (simp add: distinct_card)
qed

lemma free_not_work: "vinv (s, W) \<Longrightarrow> vfree s x \<Longrightarrow> x \<notin> set (work s)"
  by (meson chain_at_def insertI1 work_flight)

section \<open>Steps that keep the requests\<close>

text \<open>Two states that differ in what the invariant does not speak about.\<close>

definition same_disk :: "'a vdisk_st_scheme \<Rightarrow> 'a vdisk_st_scheme \<Rightarrow> bool" where
  "same_disk s t \<longleftrightarrow> vfree t = vfree s \<and> (\<forall>x. vi_buf (vinfo t x) = vi_buf (vinfo s x)) \<and> outhdrs t = outhdrs s \<and> (\<forall>x. \<not> vfree s x \<longrightarrow> vdescs t x = vdescs s x)"

lemma chain_at_same:
  assumes "same_disk s t" and "sectorno (bufs t b) = sectorno (bufs s b)"
  shows "chain_at s p b w h i j \<Longrightarrow> chain_at t p b w h i j"
  using assms by (simp add: chain_at_def same_disk_def)

lemma vinv_same:
  assumes "vinv (s, W)" and "same_disk s t" and "\<And>p b. uses_buf W p b \<Longrightarrow> sectorno (bufs t b) = sectorno (bufs s b)"
    and "distinct (work t)" and "\<And>h. h \<in> set (work t) \<longleftrightarrow> (\<exists>p b w. in_flight W h p b w \<and> bdisk t b)" and "unat (used_idx t) < NUM"
    and "\<And>h p b w. in_flight W h p b w \<Longrightarrow> vi_status (vinfo t h) \<noteq> 0 \<Longrightarrow> h \<in> set (unseen t)"
  shows "vinv (t, W)"
proof (rule vinvI)
  show c: "\<exists>i j. chain_at t p b w h i j" if "in_flight W h p b w" for h p b w
    using vinvD(1) [OF assms(1) that] chain_at_same [OF assms(2) assms(3)] in_flight_uses [OF that] by blast
  show "chain_of t h \<inter> chain_of t h' = {}" if "in_flight W h p b w" "in_flight W h' p' b' w'" "p \<noteq> p'" for h p b w h' p' b' w'
  proof -
    have "chain_of t g = chain_of s g" if fl: "in_flight W g q d v" for g q d v
    proof -
      obtain i j where "chain_at s q d v g i j" using vinvD(1) [OF assms(1) fl] by blast
      moreover from this have "chain_at t q d v g i j" using chain_at_same [OF assms(2) assms(3)] in_flight_uses [OF fl] by blast
      ultimately show ?thesis by (simp add: chain_of_at)
    qed
    then show ?thesis using vinvD(2) [OF assms(1) that] that by simp
  qed
  show "sec = ucast (sectorno (bufs t b))" if "W p = Some (VReq b w (WantDesc sec ie))" for p b w sec ie
  proof -
    have "uses_buf W p b" using that by (auto simp: uses_buf_def)
    then show ?thesis using vinvD(4) [OF assms(1) that] assms(3) by simp
  qed
qed (use vinvD(3) [OF assms(1)] assms(4-7) in blast)+

lemma unat_minus_1_Suc: "x \<noteq> 0 \<Longrightarrow> unat (x :: u16) = Suc (unat (x - 1))"
  using unat_sub_le [of 1 x] by (simp add: word_le_nat_alt unat_gt_0 Suc_le_eq)

lemma unfetched_fetch:
  assumes "dev_seen s \<noteq> avail s 1"
  shows "unfetched s = unat (avail s (2 + unat (dev_seen s) mod NUM)) # unfetched (dev_fetch s)"
proof -
  have "unat (avail s 1 - dev_seen s) = Suc (unat (avail s 1 - (dev_seen s + 1)))"
    using assms unat_minus_1_Suc [of "avail s 1 - dev_seen s"] by (simp add: algebra_simps)
  moreover have "ring_slots f (unat (dev_seen s + 1)) n = ring_slots f (Suc (unat (dev_seen s))) n" for f :: "nat \<Rightarrow> nat" and n
    by (rule ring_slots_cong) (use slot_Suc [of "dev_seen s"] slot_unat [of "dev_seen s + 1"] in simp)
  ultimately show ?thesis by (simp add: unfetched_def dev_fetch_def ring_slots_Suc)
qed

lemma work_fetch: "dev_seen s \<noteq> avail s 1 \<Longrightarrow>
    distinct (work (dev_fetch s)) = distinct (work s) \<and> set (work (dev_fetch s)) = set (work s)"
  using unfetched_fetch [of s] by (auto simp: work_def dev_fetch_def unseen_def unseen_count_def)

section \<open>The disk that is implemented\<close>

text \<open>
  The specification: every request of a process is asked for, performed in one step, and then returned from. Reading and writing are
  \<open>disk_read\<close> and \<open>disk_write\<close> of the buffer cache.
\<close>

datatype areq = Asked nat bool | Performed nat

type_synonym aconf = "(u32 \<Rightarrow> u8 list) \<times> (nat \<Rightarrow> buf) \<times> (nat \<Rightarrow> areq option)"

primrec areq_buf :: "areq \<Rightarrow> nat" where
  "areq_buf (Asked b w) = b"
| "areq_buf (Performed b) = b"

inductive astep :: "aconf \<Rightarrow> aconf \<Rightarrow> bool" where
  ask: "R p = None \<Longrightarrow> \<forall>q r. R q = Some r \<longrightarrow> areq_buf r \<noteq> b \<Longrightarrow> astep (d, B, R) (d, B, R(p \<mapsto> Asked b w))"
| perform_read: "R p = Some (Asked b False) \<Longrightarrow> astep (d, B, R) (d, B(b := (B b)\<lparr>bdata := d (sectorno (B b))\<rparr>), R(p \<mapsto> Performed b))"
| perform_write: "R p = Some (Asked b True) \<Longrightarrow> astep (d, B, R) (d(sectorno (B b) := bdata (B b)), B, R(p \<mapsto> Performed b))"
| return: "R p = Some (Performed b) \<Longrightarrow> astep (d, B, R) (d, B, R(p := None))"
| others: "\<forall>q r. R q = Some r \<longrightarrow> B' (areq_buf r) = B (areq_buf r) \<Longrightarrow> astep (d, B, R) (d, B', R)"

text \<open>A request that has failed stays asked for.\<close>

definition areq_of :: "'a vdisk_st_scheme \<Rightarrow> vreq \<Rightarrow> areq" where
  "areq_of s v = (case v of VReq b w (WantDesc _ _) \<Rightarrow> Asked b w
     | VReq b w (WantBuf h _) \<Rightarrow> 
         if h \<in> set (unfetched s) \<union> set (dev_todo s) \<or> vi_status (vinfo s h) \<noteq> 0 then Asked b w else Performed b)"

definition vabs :: "'a vconf \<Rightarrow> aconf" where
  "vabs c = (case c of (s, W) \<Rightarrow> (sectors s, bufs s, \<lambda>p. map_option (areq_of s) (W p)))"

text \<open>A step that the specification makes, or does not notice.\<close>

definition simulated :: "'a vconf \<Rightarrow> 'a vconf \<Rightarrow> bool" where
  "simulated c c' \<longleftrightarrow> vinv c' \<and> (vabs c' = vabs c \<or> astep (vabs c) (vabs c'))"

lemma areq_buf_of [simp]: "areq_buf (areq_of s (VReq b w k)) = b"
  by (simp add: areq_of_def split: vwait.split)

lemma vabs_same:
  assumes "sectors t = sectors s" and "bufs t = bufs s" and "set (unfetched t) \<union> set (dev_todo t) = set (unfetched s) \<union> set (dev_todo s)"
    and "\<And>x. vi_status (vinfo t x) = vi_status (vinfo s x)"
  shows "vabs (t, W) = vabs (s, W)"
proof -
  have "areq_of t = areq_of s" using assms(3,4) by (simp add: areq_of_def fun_eq_iff split: vreq.split vwait.split)
  with assms show ?thesis by (simp add: vabs_def)
qed

text \<open>The fields that neither the invariant nor the specification sees.\<close>

lemma work_core_procs [simp]:
  "unfetched (s\<lparr>core := c, procs := q\<rparr>) = unfetched s" "unseen (s\<lparr>core := c, procs := q\<rparr>) = unseen s" "work (s\<lparr>core := c, procs := q\<rparr>) = work s"
  by (simp_all add: work_def unfetched_def unseen_def unseen_count_def)

lemma vinv_core_procs:
  assumes "vinv (s, W)"
  shows "vinv (s\<lparr>core := c, procs := q\<rparr>, W)"
proof (rule vinv_same [OF assms])
  show "h \<in> set (work (s\<lparr>core := c, procs := q\<rparr>)) \<longleftrightarrow> (\<exists>p b w. in_flight W h p b w \<and> bdisk (s\<lparr>core := c, procs := q\<rparr>) b)" for h
    using vinvD(6) [OF assms, of h] by simp
qed (use vinvD(5,7,8) [OF assms] in \<open>simp_all add: same_disk_def\<close>)

lemma vabs_core_procs: "vabs (s\<lparr>core := c, procs := q\<rparr>, W) = vabs (s, W)"
  by (rule vabs_same) simp_all

section \<open>The device keeps the invariant\<close>

lemma fetch_simulated:
  assumes "vinv (s, W)" and "dev_seen s \<noteq> avail s 1"
  shows "simulated (s, W) (dev_fetch s, W)"
proof -
  let ?t = "dev_fetch s"
  note f = unfetched_fetch [OF assms(2)] and w = work_fetch [OF assms(2)]
  have t: "bufs ?t = bufs s" "sectors ?t = sectors s" "used_idx ?t = used_idx s" "bdisk ?t = bdisk s" "vinfo ?t = vinfo s" "unseen ?t = unseen s"
      "dev_todo ?t = dev_todo s @ [unat (avail s (2 + unat (dev_seen s) mod NUM))]" "same_disk s ?t"
    by (simp_all add: dev_fetch_def same_disk_def unseen_def unseen_count_def)
  have "vinv (?t, W)"
    by (rule vinv_same [OF assms(1) t(8)]) (use w vinvD(5-8) [OF assms(1)] t in auto)
  moreover have "vabs (?t, W) = vabs (s, W)"
    by (rule vabs_same) (use t f in auto)
  ultimately show ?thesis by (simp add: simulated_def)
qed

lemma chain_at_ok: "chain_at s p b w h i j \<Longrightarrow> chain_ok h s"
  by (simp add: chain_at_def chain_ok_def Let_def of_nat_slot)

lemma dev_serve_eq:
  assumes "chain_at s p b w h i j"
  shows "dev_serve status h s =
    dev_answer h ((if status \<noteq> 0 then s else if w then disk_write b s else disk_read b s)\<lparr>vinfo := (vinfo s)(h := (vinfo s h)\<lparr>vi_status := status\<rparr>)\<rparr>)"
proof -
  have "ucast (ucast (sectorno (bufs s b)) :: u64) = sectorno (bufs s b)"
    by (rule bit_word_eqI) (simp add: bit_simps)
  then show ?thesis using assms
    by (simp add: dev_serve_def chain_at_def of_nat_slot Let_def dev_copy_def disk_write_def disk_read_def set_buf_def upd_info_def)
qed

lemma unseen_answer:
  assumes "unseen_count s < NUM - 1" and "h < NUM" and "used_elems t = used_elems s" "used_id t = used_id s" "used_idx t = used_idx s"
  shows "unseen (dev_answer h t) = unseen s @ [h]"
proof -
  let ?x = "unat (used_idx s) mod NUM"
  have "unat (used_id s + 1) mod NUM = Suc (unat (used_id s)) mod NUM"
    using slot_Suc [of "used_id s"] slot_unat [of "used_id s + 1"] by simp
  moreover have "(b + 8 - x) mod 8 = Suc ((a + 8 - x) mod 8) mod 8" if "b mod 8 = Suc a mod 8" "x < 8" for a b x :: nat
  proof -
    have "(b + 8 - x) mod 8 = (b + (8 - x)) mod 8" using that(2) by simp
    also have "\<dots> = (Suc a + (8 - x)) mod 8" using that(1) by (metis mod_add_left_eq)
    finally show ?thesis using that(2) by (simp add: mod_Suc_eq)
  qed
  ultimately have "unseen_count (dev_answer h t) = Suc (unseen_count s) mod NUM"
    using assms(4,5) by (simp add: unseen_count_def dev_answer_def NUM_def)
  then have n: "unseen_count (dev_answer h t) = Suc (unseen_count s)" using assms(1) by simp
  have "unat (used_id s) mod NUM = (unat (used_idx s) + unseen_count s) mod NUM"
  proof -
    have "(a + (b + 8 - a mod 8) mod 8) mod 8 = b mod 8" for a b :: nat
    proof -
      have "(a + (b + 8 - a mod 8) mod 8) mod 8 = (a mod 8 + (b + 8 - a mod 8)) mod 8" by (metis mod_add_left_eq mod_add_right_eq)
      also have "a mod 8 + (b + 8 - a mod 8) = b + 8" using mod_less_divisor [of 8 a] by linarith
      finally show ?thesis by simp
    qed
    then show ?thesis by (simp add: unseen_count_def NUM_def)
  qed
  moreover have "(\<lambda>k. unat (((used_elems s)(unat (used_id s) mod NUM := of_nat h)) k)) = (\<lambda>k. unat (used_elems s k))(unat (used_id s) mod NUM := h)"
    using assms(2) by (simp add: fun_eq_iff NUM_def unat_of_nat)
  moreover have "unseen_count s < NUM" using assms(1) by simp
  ultimately show ?thesis using n assms(3-5)
    by (simp add: unseen_def ring_slots_snoc) (simp add: dev_answer_def ring_slots_snoc)
qed

lemma serve_simulated:
  assumes "vinv (s, W)" and "h \<in> set (dev_todo s)" and "chain_ok h s \<longrightarrow> t = dev_serve status h s"
  shows "simulated (s, W) (t, W)"
proof -
  have hw: "h \<in> set (work s)" using assms(2) by (simp add: work_def)
  obtain p b w i j where f: "in_flight W h p b w" "bdisk s b" "chain_at s p b w h i j" by (rule work_flight [OF assms(1) hw])
  let ?u = "if status \<noteq> 0 then s else if w then disk_write b s else disk_read b s"
  have t: "t = dev_answer h (?u\<lparr>vinfo := (vinfo s)(h := (vinfo s h)\<lparr>vi_status := status\<rparr>)\<rparr>)" using assms(3) chain_at_ok [OF f(3)] dev_serve_eq [OF f(3)] by simp
  have h: "h < NUM" using f(3) by (simp add: chain_at_def)
  have "length (work s) \<le> NUM - 2" "length (dev_todo s) \<noteq> 0" using work_small [OF assms(1) hw] assms(2) by auto
  then have "unseen_count s < NUM - 1" by (simp add: work_def unseen_def NUM_def)
  then have un: "unseen t = unseen s @ [h]"
    unfolding t by (rule unseen_answer) (simp_all add: h disk_write_def disk_read_def set_buf_def)
  have tt: "unfetched t = unfetched s" "dev_todo t = remove1 h (dev_todo s)" "used_idx t = used_idx s" "bdisk t = bdisk s" "same_disk s t"
      "bufs t = bufs ?u" "sectors t = sectors ?u" "vinfo t = (vinfo s)(h := (vinfo s h)\<lparr>vi_status := status\<rparr>)"
    by (simp_all add: t dev_answer_def disk_write_def disk_read_def set_buf_def unfetched_def same_disk_def)
  have d: "distinct (work s)" using vinvD(5) [OF assms(1)] .
  have wk: "distinct (work t)" "set (work t) = set (work s)"
    using d assms(2) by (auto simp: work_def un tt set_remove1_eq)
  have sn: "sectorno (bufs t c) = sectorno (bufs s c)" for c
    by (simp add: tt(6) disk_write_def disk_read_def set_buf_def)
  have inv: "vinv (t, W)"
  proof (rule vinv_same [OF assms(1) tt(5)])
    show "g \<in> set (unseen t)" if "in_flight W g q c v" "vi_status (vinfo t g) \<noteq> 0" for g q c v
      using vinvD(8) [OF assms(1) that(1)] that(2) by (cases "g = h") (simp_all add: un tt(8))
  qed (use wk vinvD(5-7) [OF assms(1)] tt(3,4) sn in auto)
  obtain ie where Wp: "W p = Some (VReq b w (WantBuf h ie))" using f(1) by (auto simp: in_flight_def)
  have set: "set (unfetched t) \<union> set (dev_todo t) = set (unfetched s) \<union> set (dev_todo s) - {h}"
    using d tt(1,2) assms(2) by (auto simp: work_def set_remove1_eq)
  have R: "map_option (areq_of t) (W q) = (if q = p then Some (if status \<noteq> 0 then Asked b w else Performed b) else map_option (areq_of s) (W q))" for q
  proof (cases "q = p")
    case True then show ?thesis using set by (simp add: Wp areq_of_def tt(8))
  next
    case False
    have "areq_of t v = areq_of s v" if "W q = Some v" for v
    proof -
      have "g \<noteq> h" if "v = VReq c d (WantBuf g e)" for c d g e
        using in_flight_head [OF assms(1) f(1)] \<open>W q = Some v\<close> that False by (auto simp: in_flight_def)
      then show ?thesis using set by (auto simp: areq_of_def tt(8) split: vreq.split vwait.split)
    qed
    with False show ?thesis by (cases "W q") simp_all
  qed
  have p: "map_option (areq_of s) (W p) = Some (Asked b w)" using Wp assms(2) by (simp add: areq_of_def)
  show ?thesis
  proof (cases "status = 0")
    case True
    then have "(\<lambda>q. map_option (areq_of t) (W q)) = (\<lambda>q. map_option (areq_of s) (W q))(p \<mapsto> Performed b)"
      by (auto simp: R)
    then have "astep (vabs (s, W)) (vabs (t, W))"
      unfolding vabs_def prod.case tt(6,7) using p True
      by (cases w) (auto simp: disk_write_def disk_read_def set_buf_def intro: perform_read perform_write)
    with inv show ?thesis by (simp add: simulated_def)
  next
    case False
    then have "(\<lambda>q. map_option (areq_of t) (W q)) = (\<lambda>q. map_option (areq_of s) (W q))" using p by (auto simp: R)
    then have "vabs (t, W) = vabs (s, W)" using False by (simp add: vabs_def tt(6,7))
    with inv show ?thesis by (simp add: simulated_def)
  qed
qed

section \<open>The handler keeps the invariant\<close>

lemma vinv_answers:
  assumes "vinv (s, W)"
  shows "answers_ok s"
proof -
  have "h < NUM \<and> vi_buf (vinfo s h) \<noteq> None" if "h \<in> set (unseen s)" for h
  proof -
    have "h \<in> set (work s)" using that by (simp add: work_def)
    then obtain p b w i j where "in_flight W h p b w" "bdisk s b" "chain_at s p b w h i j" by (rule work_flight [OF assms])
    then show ?thesis by (simp add: chain_at_def)
  qed
  then show ?thesis using vinvD(7) [OF assms] by (auto simp: answers_ok_def)
qed

lemma done_bufs_iff:
  assumes "vinv (s, W)" and "in_flight W h p b w"
  shows "b \<in> set (done_bufs s) \<longleftrightarrow> h \<in> set (unseen s)"
proof
  obtain i j where "chain_at s p b w h i j" using vinvD(1) [OF assms] by blast
  then have v: "vi_buf (vinfo s h) = Some b" by (simp add: chain_at_def)
  show "b \<in> set (done_bufs s)" if "h \<in> set (unseen s)" using that v by (force simp: done_bufs_def)
  show "h \<in> set (unseen s)" if b: "b \<in> set (done_bufs s)"
  proof -
    obtain g where g: "g \<in> set (unseen s)" "the (vi_buf (vinfo s g)) = b" using b by (auto simp: done_bufs_def)
    then have "g \<in> set (work s)" by (simp add: work_def)
    then obtain q c d i j where f: "in_flight W g q c d" "bdisk s c" "chain_at s q c d g i j" by (rule work_flight [OF assms(1)])
    then have "c = b" using g(2) by (simp add: chain_at_def)
    then have "q = p" using vinvD(3) [OF assms(1)] in_flight_uses f(1) assms(2) by blast
    then have "g = h" using in_flight_same f(1) assms(2) by blast
    with g show ?thesis by simp
  qed
qed

lemma intr_panics:
  assumes "vinv (s, W)" and "idle c" and "\<not> no_error s"
  shows "virtio_disk_intr (s\<lparr>core := c\<rparr>) = Inl (Panic ''virtio_disk_intr status'')"
  by (rule virtio_disk_intr_panics)
    (use vinv_answers [OF assms(1)] assms(2,3) in \<open>simp_all add: answers_ok_def no_error_def unseen_def unseen_count_def\<close>)

lemma intr_simulated:
  assumes "vinv (s, W)" and "idle c" and "no_error s"
  shows "\<exists>t. virtio_disk_intr (s\<lparr>core := c\<rparr>) = Inr t \<and> simulated (s, W) (t, W) \<and> unseen t = [] \<and>
    procs t = fold (\<lambda>b. woken_tab (ChBuf b)) (done_bufs s) (procs s) \<and> bdisk t = (\<lambda>b. bdisk s b \<and> b \<notin> set (done_bufs s))"
proof -
  let ?s = "s\<lparr>core := c\<rparr>"
  have ss: "answers_ok ?s" "done_bufs ?s = done_bufs s" "no_error ?s"
    using vinv_answers [OF assms(1)] assms(3) by (simp_all add: answers_ok_def done_bufs_def no_error_def unseen_def unseen_count_def)
  obtain u d r where v: "virtio_disk_intr ?s = Inr (?s\<lparr>bdisk := (\<lambda>b. bdisk s b \<and> b \<notin> set (done_bufs s)), used_idx := u,
      procs := fold (\<lambda>b. woken_tab (ChBuf b)) (done_bufs s) (procs s), core := d, reg_writes := r\<rparr>)"
      "unat u < NUM" "u mod of_nat NUM = used_id s mod of_nat NUM"
    using virtio_disk_intr_eq [of ?s] ss assms(2) by auto
  define t where "t = ?s\<lparr>bdisk := (\<lambda>b. bdisk s b \<and> b \<notin> set (done_bufs s)), used_idx := u,
      procs := fold (\<lambda>b. woken_tab (ChBuf b)) (done_bufs s) (procs s), core := d, reg_writes := r\<rparr>"
  have t: "unfetched t = unfetched s" "dev_todo t = dev_todo s" "bufs t = bufs s" "sectors t = sectors s" "used_idx t = u" "same_disk s t"
      "bdisk t = (\<lambda>b. bdisk s b \<and> b \<notin> set (done_bufs s))" "procs t = fold (\<lambda>b. woken_tab (ChBuf b)) (done_bufs s) (procs s)"
      "vinfo t = vinfo s"
    by (simp_all add: t_def unfetched_def same_disk_def)
  have un: "unseen t = []" by (rule unseen_Nil) (simp add: t_def v(3))
  have d: "distinct (work s)" using vinvD(5) [OF assms(1)] .
  have "vinv (t, W)"
  proof (rule vinv_same [OF assms(1) t(6)])
    show "distinct (work t)" using d by (auto simp: work_def t un)
    fix h
    have "h \<in> set (work t) \<longleftrightarrow> h \<in> set (work s) \<and> h \<notin> set (unseen s)"
      using d by (auto simp: work_def t un)
    also have "\<dots> \<longleftrightarrow> (\<exists>p b w. in_flight W h p b w \<and> bdisk s b) \<and> h \<notin> set (unseen s)" by (simp add: vinvD(6) [OF assms(1)])
    also have "\<dots> \<longleftrightarrow> (\<exists>p b w. in_flight W h p b w \<and> bdisk s b \<and> b \<notin> set (done_bufs s))"
      using done_bufs_iff [OF assms(1)] by blast
    finally show "h \<in> set (work t) \<longleftrightarrow> (\<exists>p b w. in_flight W h p b w \<and> bdisk t b)" by (simp add: t)
  next
    show "h \<in> set (unseen t)" if "in_flight W h p b w" "vi_status (vinfo t h) \<noteq> 0" for h p b w
      using vinvD(8) [OF assms(1) that(1)] that(2) assms(3) by (auto simp: t(9) no_error_def)
  qed (use t v(2) in simp_all)
  moreover have "vabs (t, W) = vabs (s, W)" by (rule vabs_same) (simp_all add: t)
  ultimately have "simulated (s, W) (t, W)" by (simp add: simulated_def)
  then show ?thesis using v(1) un t(7,8) unfolding t_def [symmetric] by blast
qed

section \<open>Processes keep the invariant\<close>

text \<open>A process that asks, and waits for descriptors. The descriptors that it could not keep may have changed.\<close>

lemma flight_upd_desc: "(\<forall>h b w. \<not> in_flight W h p b w) \<Longrightarrow> in_flight (W(p := Some (VReq b w (WantDesc sec ie)))) = in_flight W"
  by (auto simp: in_flight_def fun_eq_iff)

lemma uses_upd [simp]:
  "uses_buf (W(p := Some (VReq b w k))) q c \<longleftrightarrow> (if q = p then c = b else uses_buf W q c)"
  "uses_buf (W(p := None)) q c \<longleftrightarrow> q \<noteq> p \<and> uses_buf W q c"
  by (auto simp: uses_buf_def)

lemma vinv_requests:
  assumes "vinv (s, W)" and "in_flight W' = in_flight W" and "\<And>p q b. uses_buf W' p b \<Longrightarrow> uses_buf W' q b \<Longrightarrow> p = q"
    and "\<And>p b w sec ie. W' p = Some (VReq b w (WantDesc sec ie)) \<Longrightarrow> sec = ucast (sectorno (bufs s b))"
  shows "vinv (s, W')"
  by (rule vinvI) (use vinvD [OF assms(1)] assms(2-4) in \<open>simp_all\<close>)

lemma ask_vinv:
  assumes "vinv (s, W)" and "\<forall>h b w. \<not> in_flight W h p b w" and "\<forall>q. q \<noteq> p \<longrightarrow> \<not> uses_buf W q b"
    and "\<forall>x. \<not> vfree s x \<longrightarrow> ds x = vdescs s x" and "sec = ucast (sectorno (bufs s b))"
  shows "vinv (s\<lparr>vdescs := ds\<rparr>, W(p := Some (VReq b w (WantDesc sec ie))))"
proof (rule vinv_requests [OF _ flight_upd_desc [OF assms(2)]])
  have w: "work (s\<lparr>vdescs := ds\<rparr>) = work s" by (simp add: work_def unfetched_def unseen_def unseen_count_def)
  show i: "vinv (s\<lparr>vdescs := ds\<rparr>, W)"
  proof (rule vinv_same [OF assms(1)])
    show "h \<in> set (work (s\<lparr>vdescs := ds\<rparr>)) \<longleftrightarrow> (\<exists>p b w. in_flight W h p b w \<and> bdisk (s\<lparr>vdescs := ds\<rparr>) b)" for h
      using vinvD(6) [OF assms(1), of h] w by simp
  qed (use vinvD(5,7,8) [OF assms(1)] assms(4) w in \<open>simp_all add: same_disk_def unseen_def unseen_count_def\<close>)
  show "q = r" if "uses_buf (W(p := Some (VReq b w (WantDesc sec ie)))) q c" "uses_buf (W(p := Some (VReq b w (WantDesc sec ie)))) r c" for q r c
    using that assms(3) vinvD(3) [OF assms(1)] by (auto split: if_splits)
  show "sec' = ucast (sectorno (bufs (s\<lparr>vdescs := ds\<rparr>) b'))"
    if "(W(p := Some (VReq b w (WantDesc sec ie)))) q = Some (VReq b' w' (WantDesc sec' ie'))" for q b' w' sec' ie'
    using that vinvD(4) [OF i] assms(5) by (auto split: if_splits)
qed

text \<open>A request goes into the ring.\<close>

lemma unfetched_submit:
  assumes "vinv (s, W)" and "vfree s i" and "i < NUM" and "t = submitted p b w sec i j k s"
  shows "unfetched t = unfetched s @ [i]"
proof -
  let ?n = "unat (avail s 1 - dev_seen s)"
  have n: "?n < NUM - 1"
  proof (cases "work s")
    case Nil then show ?thesis by (simp add: work_def unfetched_def ring_slots_def NUM_def)
  next
    case (Cons h hs)
    then have "length (work s) \<le> NUM - 2" using work_small [OF assms(1), of h] by simp
    then show ?thesis by (simp add: work_def unfetched_def NUM_def)
  qed
  have "avail s 1 + 1 - dev_seen s = (avail s 1 - dev_seen s) + 1" by simp
  moreover have "unat ((avail s 1 - dev_seen s) + 1) = Suc ?n"
    using unat_add_no_wrap [of "avail s 1 - dev_seen s" 1] n by (simp add: NUM_def)
  ultimately have c: "unat (avail s 1 + 1 - dev_seen s) = Suc ?n" by (simp only:)
  have "unat (avail s 1) = (unat (dev_seen s) + ?n) mod 65536"
    using unat_word_ariths(1) [of "dev_seen s" "avail s 1 - dev_seen s"] by simp
  then have m: "unat (avail s 1) mod NUM = (unat (dev_seen s) + ?n) mod NUM" by (simp add: NUM_def mod_mod_cancel)
  have f: "(\<lambda>x. unat (avail t (2 + x))) = (\<lambda>x. unat (avail s (2 + x)))(unat (avail s 1) mod NUM := i)"
    using assms(3) by (simp add: assms(4) fun_eq_iff of_nat_slot slot_unat [simplified])
  have d: "dev_seen t = dev_seen s" "unat (avail t 1 - dev_seen s) = Suc ?n" using c by (simp_all add: assms(4))
  show ?thesis unfolding unfetched_def d f by (rule ring_slots_snoc) (use n m in simp_all)
qed

lemma submit_simulated:
  fixes ie :: bool
  assumes "vinv (s, W)" and "W p = Some (VReq b w (WantDesc sec e))" and "distinct [i, j, k]" and "\<forall>x\<in>{i, j, k}. x < NUM \<and> vfree s x"
  defines "t \<equiv> submitted p b w sec i j k s" and "W' \<equiv> W(p := Some (VReq b w (WantBuf i ie)))"
  shows "vinv (t, W')" and "vabs (t, W') = vabs (s, W)"
proof -
  have i: "vfree s i" "i < NUM" using assms(4) by auto
  have uf: "unfetched t = unfetched s @ [i]" by (rule unfetched_submit [OF assms(1) i]) (simp add: t_def)
  have un: "unseen t = unseen s" by (simp add: unseen_def unseen_count_def t_def)
  have dt: "dev_todo t = dev_todo s" by (simp add: t_def)
  have iw: "i \<notin> set (work s)" using free_not_work [OF assms(1) i(1)] .
  have wk: "distinct (work t)" "set (work t) = insert i (set (work s))"
    using vinvD(5) [OF assms(1)] iw dt by (auto simp: work_def uf un)
  have sec: "sec = ucast (sectorno (bufs s b))" using vinvD(4) [OF assms(1,2)] .
  have ub: "uses_buf W p b" using assms(2) by (simp add: uses_buf_def)
  have fl: "in_flight W' h q c v \<longleftrightarrow> q = p \<and> h = i \<and> c = b \<and> v = w \<or> q \<noteq> p \<and> in_flight W h q c v" for h q c v
    by (auto simp: in_flight_def W'_def)
  have np: "q \<noteq> p" if "in_flight W h q c v" for h q c v using that assms(2) by (auto simp: in_flight_def)
  have new: "chain_at t p b w i j k"
    using assms(3,4) sec by (simp add: chain_at_def t_def submitted_descs)
  have old: "chain_at t q c v h x y" if "chain_at s q c v h x y" "q \<noteq> p" for q c v h x y
  proof -
    have "h \<notin> {i, j, k}" "x \<notin> {i, j, k}" "y \<notin> {i, j, k}" using that(1) assms(4) by (auto simp: chain_at_def)
    then show ?thesis using that unfolding chain_at_def t_def submitted_descs [OF assms(3)] submitted_simps by simp
  qed
  show "vinv (t, W')"
  proof (rule vinvI)
    fix h q c v assume "in_flight W' h q c v"
    then consider "q = p" "h = i" "c = b" "v = w" | "q \<noteq> p" "in_flight W h q c v" using fl by blast
    then show "\<exists>x y. chain_at t q c v h x y"
    proof cases
      case 1 then show ?thesis using new by blast
    next
      case 2 then show ?thesis using old vinvD(1) [OF assms(1) 2(2)] by blast
    qed
  next
    fix h q c v h' q' c' v' assume f: "in_flight W' h q c v" "in_flight W' h' q' c' v'" "q \<noteq> q'"
    have o: "chain_of t g = chain_of s g \<and> chain_of s g \<inter> {i, j, k} = {}" if g: "in_flight W g r d u" for g r d u
    proof -
      obtain x y where c: "chain_at s r d u g x y" using vinvD(1) [OF assms(1) g] by blast
      from chain_of_at [OF old [OF c np [OF g]]] chain_of_at [OF c] c assms(4) show ?thesis by (auto simp: chain_at_def)
    qed
    have n: "chain_of t i = {i, j, k}" using chain_of_at [OF new] .
    show "chain_of t h \<inter> chain_of t h' = {}"
      using f fl o n vinvD(2) [OF assms(1), of h q c v h' q' c' v'] by (metis inf_commute)
  next
    fix q r c assume "uses_buf W' q c" "uses_buf W' r c"
    then show "q = r" using vinvD(3) [OF assms(1)] ub by (auto simp: W'_def split: if_splits)
  next
    fix q c v z x assume "W' q = Some (VReq c v (WantDesc z x))"
    then show "z = ucast (sectorno (bufs t c))" using vinvD(4) [OF assms(1)] by (auto simp: W'_def t_def split: if_splits)
  next
    fix h
    have ne: "c \<noteq> b \<and> q \<noteq> p" if "in_flight W h q c v" for q c v
      using vinvD(3) [OF assms(1)] in_flight_uses [OF that] ub np [OF that] by blast
    have bd: "bdisk t c \<longleftrightarrow> c = b \<or> bdisk s c" for c by (auto simp: t_def)
    show "h \<in> set (work t) \<longleftrightarrow> (\<exists>q c v. in_flight W' h q c v \<and> bdisk t c)"
      unfolding wk(2) insert_iff vinvD(6) [OF assms(1)] fl bd using ne by blast
  next
    fix h q c v assume h: "in_flight W' h q c v" "vi_status (vinfo t h) \<noteq> 0"
    then have "h \<noteq> i" by (auto simp: t_def)
    then show "h \<in> set (unseen t)" using vinvD(8) [OF assms(1), of h q c v] h fl by (simp add: un) (simp add: t_def)
  qed (use wk(1) vinvD(7) [OF assms(1)] in \<open>simp_all add: t_def\<close>)
  have "map_option (areq_of t) (W' q) = map_option (areq_of s) (W q)" for q
  proof (cases "q = p")
    case True then show ?thesis using assms(2) by (simp add: W'_def areq_of_def uf)
  next
    case False
    have "areq_of t v = areq_of s v" if v: "W q = Some v" for v
    proof -
      have "g \<noteq> i" if "v = VReq c d (WantBuf g e)" for c d g e
      proof -
        have "in_flight W g q c d" using v that by (auto simp: in_flight_def)
        then obtain x y where "chain_at s q c d g x y" using vinvD(1) [OF assms(1)] by blast
        then show ?thesis using i by (auto simp: chain_at_def)
      qed
      then show ?thesis by (auto simp: areq_of_def uf dt split: vreq.split vwait.split) (simp_all add: t_def)
    qed
    with False show ?thesis by (cases "W q") (simp_all add: W'_def)
  qed
  then show "vabs (t, W') = vabs (s, W)" by (simp add: vabs_def t_def)
qed

text \<open>A request that has been answered ends.\<close>

lemma finish_simulated:
  assumes "vinv (s, W)" and "W p = Some (VReq b w (WantBuf h e))" and "\<not> bdisk s b" and "chain_at s p b w h i j"
    and "\<forall>x. x \<notin> {h, i, j} \<longrightarrow> ds x = vdescs s x"
  defines "t \<equiv> s\<lparr>vinfo := (vinfo s)(h := (vinfo s h)\<lparr>vi_buf := None\<rparr>), vdescs := ds, vfree := (\<lambda>x. x \<in> {h, i, j} \<or> vfree s x)\<rparr>"
  shows "simulated (s, W) (t, W(p := None))"
proof -
  let ?W = "W(p := None)"
  have f: "in_flight W h p b w" using assms(2) by (simp add: in_flight_def)
  have t: "unfetched t = unfetched s" "dev_todo t = dev_todo s" "unseen t = unseen s" "bufs t = bufs s" "sectors t = sectors s"
      "used_idx t = used_idx s" "bdisk t = bdisk s" "\<And>x. vi_status (vinfo t x) = vi_status (vinfo s x)"
    by (simp_all add: t_def unfetched_def unseen_def unseen_count_def)
  then have wk: "work t = work s" by (simp add: work_def)
  have fl: "in_flight ?W g q c v \<longleftrightarrow> q \<noteq> p \<and> in_flight W g q c v" for g q c v by (auto simp: in_flight_def)
  have hw: "h \<notin> set (work s)"
  proof
    assume "h \<in> set (work s)"
    then obtain q c v x y where "in_flight W h q c v" "bdisk s c" "chain_at s q c v h x y" by (rule work_flight [OF assms(1)])
    then show False using in_flight_head [OF assms(1) f] assms(3) by blast
  qed
  have old: "chain_at t q c v g x y" if g: "in_flight W g q c v" "q \<noteq> p" "chain_at s q c v g x y" for q c v g x y
  proof -
    have "{g, x, y} \<inter> {h, i, j} = {}"
      using vinvD(2) [OF assms(1) g(1) f g(2)] chain_of_at [OF g(3)] chain_of_at [OF assms(4)] by simp
    then show ?thesis using g(3) assms(5) by (auto simp: chain_at_def t_def)
  qed
  have inv: "vinv (t, ?W)"
  proof (rule vinvI)
    fix g q c v assume "in_flight ?W g q c v"
    then have g: "q \<noteq> p" "in_flight W g q c v" using fl by blast+
    then show "\<exists>x y. chain_at t q c v g x y" using old [OF g(2,1)] vinvD(1) [OF assms(1) g(2)] by blast
  next
    fix g q c v g' q' c' v' assume d: "in_flight ?W g q c v" "in_flight ?W g' q' c' v'" "q \<noteq> q'"
    have "chain_of t a = chain_of s a" if a: "in_flight W a r d u" "r \<noteq> p" for a r d u
    proof -
      obtain x y where c: "chain_at s r d u a x y" using vinvD(1) [OF assms(1) a(1)] by blast
      from chain_of_at [OF old [OF a c]] chain_of_at [OF c] show ?thesis by simp
    qed
    then show "chain_of t g \<inter> chain_of t g' = {}"
      using d fl vinvD(2) [OF assms(1), of g q c v g' q' c' v'] by metis
  next
    fix g
    show "g \<in> set (work t) \<longleftrightarrow> (\<exists>q c v. in_flight ?W g q c v \<and> bdisk t c)"
    proof -
      have "q \<noteq> p" if "in_flight W g q c v" "bdisk s c" for q c v using in_flight_same [OF f] that assms(3) by blast
      then show ?thesis unfolding wk fl t vinvD(6) [OF assms(1)] by blast
    qed
  next
    fix q c v z x assume "?W q = Some (VReq c v (WantDesc z x))"
    then show "z = ucast (sectorno (bufs t c))" using vinvD(4) [OF assms(1)] t by (auto split: if_splits)
  next
    show "g \<in> set (unseen t)" if "in_flight ?W g q c v" "vi_status (vinfo t g) \<noteq> 0" for g q c v
      using vinvD(8) [OF assms(1)] that fl unfolding t by blast
  qed (use vinvD(3,5,7) [OF assms(1)] t wk in \<open>auto split: if_splits\<close>)
  have "areq_of t = areq_of s" using t by (simp add: areq_of_def fun_eq_iff split: vreq.split vwait.split)
  then have R: "(\<lambda>q. map_option (areq_of t) (?W q)) = (\<lambda>q. map_option (areq_of s) (W q))(p := None)" by auto
  have "vi_status (vinfo s h) = 0" using vinvD(8) [OF assms(1) f] hw by (auto simp: work_def)
  then have "map_option (areq_of s) (W p) = Some (Performed b)" using assms(2) hw by (simp add: areq_of_def work_def)
  then have "astep (vabs (s, W)) (vabs (t, ?W))"
    unfolding vabs_def prod.case t R by (rule return)
  with inv show ?thesis by (simp add: simulated_def)
qed

text \<open>The steps of a process.\<close>

lemma run_waits:
  assumes "on_hart p d" and "header_mapped p s"
  shows "\<exists>r t. virtio_disk_rw_run b w (s\<lparr>core := d\<rparr>) = Inr (Waiting r, t)"
proof -
  let ?s = "s\<lparr>core := acq VdiskLock d\<rparr>"
  have d: "idle d" "noff (mycpu d) = 0" "cproc (mycpu d) = Some p" using assms(1) by (simp_all add: on_hart_def)
  have m: "header_mapped p ?s" using header_mapped_cong [of ?s s p] assms(2) by simp
  have "in_driver p ?s" using d by (auto simp: in_driver_def)
  then have "\<exists>r t. virtio_alloc b w (ucast (sectorno (bufs s b))) ?s = Inr (Waiting r, t)"
    by (cases rule: virtio_alloc_cases [of p ?s b w "ucast (sectorno (bufs s b))"]) (use m in blast)+
  then show ?thesis using idleD [OF d(1)] by (auto simp: virtio_disk_rw_run_def lock_simps)
qed

lemma ask_abs:
  assumes "W p = None" and "\<forall>q. \<not> uses_buf W q b"
  shows "astep (vabs (s, W)) (vabs (s, W(p := Some (VReq b w (WantDesc sec ie)))))"
proof -
  let ?R = "\<lambda>q. map_option (areq_of s) (W q)"
  have "areq_buf r \<noteq> b" if r: "?R q = Some r" for q r
  proof -
    obtain v where "W q = Some v" "r = areq_of s v" using r by auto
    then show ?thesis using assms(2) by (cases v) (auto simp: uses_buf_def)
  qed
  then have "astep (sectors s, bufs s, ?R) (sectors s, bufs s, ?R(p \<mapsto> Asked b w))" using assms(1) by (intro ask) auto
  moreover have "(\<lambda>q. map_option (areq_of s) ((W(p := Some (VReq b w (WantDesc sec ie)))) q)) = ?R(p \<mapsto> Asked b w)"
    by (simp add: areq_of_def fun_eq_iff)
  ultimately show ?thesis by (simp add: vabs_def)
qed

lemma vabs_ask_again:
  assumes "W p = Some (VReq b w (WantDesc sec e))"
  shows "vabs (s, W(p := Some (VReq b w (WantDesc sec' ie)))) = vabs (s, W)"
  using assms by (auto simp: vabs_def areq_of_def fun_eq_iff)

text \<open>What \<open>virtio_alloc\<close> does for a process that has asked.\<close>

lemma alloc_simulated:
  assumes "vinv (s, W)" and "W p = Some (VReq b w (WantDesc sec e))" and "in_driver p (s\<lparr>core := c, procs := q\<rparr>)"
    and "virtio_alloc b w sec (s\<lparr>core := c, procs := q\<rparr>) = Inr (r, t)"
  shows "vinv (t, W(p := vnext b w r)) \<and> vabs (t, W(p := vnext b w r)) = vabs (s, W)"
proof -
  let ?s = "s\<lparr>core := c, procs := q\<rparr>"
  note inv = vinv_core_procs [OF assms(1), of q c]
  have nf: "\<forall>h b w. \<not> in_flight W h p b w" using assms(2) by (simp add: in_flight_def)
  have ub: "\<forall>q. q \<noteq> p \<longrightarrow> \<not> uses_buf W q b"
    using vinvD(3) [OF assms(1)] assms(2) by (auto simp: uses_buf_def)
  show ?thesis
  proof (cases rule: virtio_alloc_cases [OF assms(3), of b w sec])
    case 1: (1 i j k ie d q')
    note st = submit_simulated [OF inv assms(2) 1(2), of ie]
    have f: "\<forall>x\<in>{i, j, k}. x < NUM \<and> vfree ?s x" using 1(3) by simp
    have "vinv ((submitted p b w sec i j k ?s)\<lparr>core := d, procs := q'\<rparr>, W(p := vnext b w (Waiting (WantBuf i ie))))"
      using vinv_core_procs [OF st(1) [OF f]] by (simp add: vnext_def)
    moreover have "vabs ((submitted p b w sec i j k ?s)\<lparr>core := d, procs := q'\<rparr>, W(p := vnext b w (Waiting (WantBuf i ie)))) = vabs (s, W)"
      using st(2) [OF f] by (simp add: vnext_def vabs_core_procs)
    ultimately show ?thesis using 1(1) assms(4) by simp
  next
    case 2: (2 ds ie d q')
    let ?W = "W(p := Some (VReq b w (WantDesc sec ie)))"
    have "vinv (?s\<lparr>vdescs := ds\<rparr>, ?W)"
      by (rule ask_vinv [OF inv nf ub]) (use 2(2) vinvD(4) [OF assms(1,2)] in simp_all)
    from vinv_core_procs [OF this, of q' d] have "vinv (?s\<lparr>vdescs := ds, core := d, procs := q'\<rparr>, ?W)" by simp
    moreover have "vabs (?s\<lparr>vdescs := ds, core := d, procs := q'\<rparr>, ?W) = vabs (s, ?W)"
      by (rule vabs_same) (simp_all add: unfetched_def)
    ultimately show ?thesis using 2(1) assms(4) vabs_ask_again [where W = W and p = p and b = b and w = w and sec = sec and e = e and s = s and sec' = sec and ie = ie, OF assms(2)] by (auto simp: vnext_def)
  next
    case 3: (3 e)
    then show ?thesis using assms(4) by simp
  qed
qed

lemma call_simulated:
  assumes "vinv (s, W)" and "W p = None" and "on_hart p c" and "\<forall>q. \<not> uses_buf W q b"
    and "virtio_disk_rw_run b w (s\<lparr>core := c\<rparr>) = Inr (r, t)"
  shows "simulated (s, W) (t, W(p := vnext b w r))"
proof -
  let ?sec = "ucast (sectorno (bufs s b)) :: u64"
  let ?W = "W(p := Some (VReq b w (WantDesc ?sec False)))"
  have inv: "vinv (s, ?W)"
    using ask_vinv [OF assms(1), of p b "vdescs s" ?sec w False] assms(2,4) by (simp add: in_flight_def)
  have c: "idle c" "noff (mycpu c) = 0" "cproc (mycpu c) = Some p" using assms(3) by (simp_all add: on_hart_def)
  have d: "in_driver p (s\<lparr>core := acq VdiskLock c, procs := procs s\<rparr>)" using c by (auto simp: in_driver_def)
  have "s\<lparr>core := acq VdiskLock c, procs := procs s\<rparr> = s\<lparr>core := acq VdiskLock c\<rparr>" by simp
  then have "virtio_alloc b w ?sec (s\<lparr>core := acq VdiskLock c, procs := procs s\<rparr>) = Inr (r, t)"
    using assms(5) idleD [OF c(1)] by (simp add: virtio_disk_rw_run_def lock_simps)
  from alloc_simulated [OF inv _ d this, of False]
  have t: "vinv (t, ?W(p := vnext b w r))" "vabs (t, ?W(p := vnext b w r)) = vabs (s, ?W)"
    by auto
  have "astep (vabs (s, W)) (vabs (t, ?W(p := vnext b w r)))" unfolding t(2) by (rule ask_abs [OF assms(2,4)])
  then show ?thesis using t(1) by (auto simp: simulated_def)
qed

text \<open>A process goes on: it comes to what it was waiting for.\<close>

lemma resume_leaves:
  assumes "on_hart p c"
  obtains d q where "sleep_leave p ie VdiskLock (s\<lparr>core := acq (ProcLock p) c\<rparr>) = Inr (s\<lparr>core := d, procs := q\<rparr>)"
    and "in_driver p (s\<lparr>core := d, procs := q\<rparr>)" and "kpagetable (q p) = kpagetable (procs s p)"
proof -
  let ?s = "s\<lparr>core := acq (ProcLock p) c\<rparr>"
  obtain d where d: "idle d" "noff (mycpu d) = 0" "cproc (mycpu d) = Some p"
      "sleep_leave p ie VdiskLock ?s = Inr (upd_proc p (\<lambda>q. q\<lparr>pchan := ChNone\<rparr>) (?s\<lparr>core := acq VdiskLock d\<rparr>))"
    using sleep_leave_eq [of c p ?s VdiskLock ie] assms by (auto simp: on_hart_def)
  let ?q = "(procs s)(p := (procs s p)\<lparr>pchan := ChNone\<rparr>)"
  have "sleep_leave p ie VdiskLock ?s = Inr (s\<lparr>core := acq VdiskLock d, procs := ?q\<rparr>)" using d(4) by (simp add: upd_proc_def)
  moreover have "in_driver p (s\<lparr>core := acq VdiskLock d, procs := ?q\<rparr>)" using d(1-3) by (auto simp: in_driver_def)
  ultimately show thesis by (rule that) simp
qed

lemma resume_wants:
  assumes "on_hart p c" and "header_mapped p s"
  shows "\<exists>r t. virtio_disk_rw_wake p b w (WantDesc sec ie) (s\<lparr>core := acq (ProcLock p) c\<rparr>) = Inr (r, t)"
proof -
  obtain d q where d: "sleep_leave p ie VdiskLock (s\<lparr>core := acq (ProcLock p) c\<rparr>) = Inr (s\<lparr>core := d, procs := q\<rparr>)"
      "in_driver p (s\<lparr>core := d, procs := q\<rparr>)" "kpagetable (q p) = kpagetable (procs s p)"
    by (rule resume_leaves [OF assms(1)])
  have "header_mapped p (s\<lparr>core := d, procs := q\<rparr>)"
    using header_mapped_cong [of "s\<lparr>core := d, procs := q\<rparr>" s p] d(3) assms(2) by simp
  then show ?thesis using d(1)
    by (cases rule: virtio_alloc_cases [OF d(2), of b w sec]) (simp_all add: virtio_disk_rw_wake_def)
qed

lemma resume_waits:
  assumes "vinv (s, W)" and "W p = Some (VReq b w (WantBuf h ie))" and "on_hart p c"
  shows "\<exists>r t. virtio_disk_rw_wake p b w (WantBuf h ie) (s\<lparr>core := acq (ProcLock p) c\<rparr>) = Inr (r, t)
    \<and> (\<not> bdisk s b \<longrightarrow> r = Finished ()) \<and> simulated (s, W) (t, W(p := vnext b w r))"
proof -
  let ?i = "\<lambda>d q. s\<lparr>core := d, procs := q\<rparr>"
  obtain d q where d: "sleep_leave p ie VdiskLock (s\<lparr>core := acq (ProcLock p) c\<rparr>) = Inr (?i d q)" "in_driver p (?i d q)"
    by (rule resume_leaves [OF assms(3)])
  note W = assms(2)
  note inv = vinv_core_procs [OF assms(1), of q d]
  show ?thesis
  proof (cases "bdisk s b")
    case True
    obtain ie' d' q' where v: "virtio_wait b h (?i d q) = Inr (Waiting (WantBuf h ie'), (?i d q)\<lparr>core := d', procs := q'\<rparr>)"
      using virtio_wait_sleeps [OF d(2), of b h] True by auto
    let ?W = "W(p := Some (VReq b w (WantBuf h ie')))"
    have "vinv ((?i d q)\<lparr>core := d', procs := q'\<rparr>, ?W)"
    proof (rule vinv_requests [OF vinv_core_procs [OF inv]])
      show "in_flight ?W = in_flight W" using W by (auto simp: in_flight_def fun_eq_iff)
      have "uses_buf W p b" using W by (simp add: uses_buf_def)
      then show "x = y" if "uses_buf ?W x a" "uses_buf ?W y a" for x y a
        using that vinvD(3) [OF assms(1)] by (auto split: if_splits)
    qed (use vinvD(4) [OF assms(1)] in \<open>auto split: if_splits\<close>)
    moreover have "vabs ((?i d q)\<lparr>core := d', procs := q'\<rparr>, ?W) = vabs (s, ?W)" by (rule vabs_same) simp_all
    moreover have "vabs (s, ?W) = vabs (s, W)" using W by (auto simp: vabs_def areq_of_def fun_eq_iff)
    ultimately show ?thesis using d(1) v True by (auto simp: virtio_disk_rw_wake_def simulated_def vnext_def)
  next
    case False
    have f: "in_flight W h p b w" using W by (simp add: in_flight_def)
    then obtain i j where ch: "chain_at (?i d q) p b w h i j" using vinvD(1) [OF inv] by blast
    have "\<exists>ds c' q'. virtio_wait b h (?i d q) = Inr (Finished (), (?i d q)\<lparr>vinfo := (vinfo s)(h := (vinfo s h)\<lparr>vi_buf := None\<rparr>), vdescs := ds,
        vfree := (\<lambda>x. x \<in> {h, i, j} \<or> vfree s x), core := c', procs := q'\<rparr>) \<and> (\<forall>x. x \<notin> {h, i, j} \<longrightarrow> ds x = vdescs s x)"
      using virtio_wait_ends [OF d(2), of b h i j] ch False by (auto simp: chain_at_def of_nat_slot)
    then obtain ds c' q' where v: "virtio_wait b h (?i d q) = Inr (Finished (), (?i d q)\<lparr>vinfo := (vinfo s)(h := (vinfo s h)\<lparr>vi_buf := None\<rparr>), vdescs := ds,
        vfree := (\<lambda>x. x \<in> {h, i, j} \<or> vfree s x), core := c', procs := q'\<rparr>)" "\<forall>x. x \<notin> {h, i, j} \<longrightarrow> ds x = vdescs s x"
      by blast
    define t where "t = (?i d q)\<lparr>vinfo := (vinfo s)(h := (vinfo s h)\<lparr>vi_buf := None\<rparr>), vdescs := ds, vfree := (\<lambda>x. x \<in> {h, i, j} \<or> vfree s x)\<rparr>"
    have "simulated (?i d q, W) (t, W(p := None))"
      using finish_simulated [OF inv W _ ch, of ds] False v(2) by (simp add: t_def)
    then have "simulated (s, W) (t\<lparr>core := c', procs := q'\<rparr>, W(p := None))"
      by (auto simp: simulated_def vabs_core_procs intro: vinv_core_procs)
    moreover have "virtio_wait b h (?i d q) = Inr (Finished (), t\<lparr>core := c', procs := q'\<rparr>)" using v(1) by (simp add: t_def)
    ultimately show ?thesis using d(1) by (auto simp: virtio_disk_rw_wake_def vnext_def)
  qed
qed

lemma resume_simulated:
  assumes "vinv (s, W)" and "W p = Some (VReq b w k)" and "on_hart p c"
    and "virtio_disk_rw_wake p b w k (s\<lparr>core := acq (ProcLock p) c\<rparr>) = Inr (r, t)"
  shows "simulated (s, W) (t, W(p := vnext b w r))"
proof (cases k)
  case (WantDesc sec e)
  obtain d q where d: "sleep_leave p e VdiskLock (s\<lparr>core := acq (ProcLock p) c\<rparr>) = Inr (s\<lparr>core := d, procs := q\<rparr>)"
      "in_driver p (s\<lparr>core := d, procs := q\<rparr>)"
    by (rule resume_leaves [OF assms(3)])
  have "virtio_alloc b w sec (s\<lparr>core := d, procs := q\<rparr>) = Inr (r, t)"
    using assms(4) d(1) WantDesc by (simp add: virtio_disk_rw_wake_def)
  with alloc_simulated [OF assms(1) _ d(2)] assms(2) WantDesc show ?thesis by (auto simp: simulated_def)
next
  case (WantBuf h e)
  then show ?thesis using resume_waits [OF assms(1) _ assms(3)] assms(2,4) by fastforce
qed

text \<open>The rest of the kernel.\<close>

lemma others_simulated:
  assumes "vinv (s, W)" and "t = s\<lparr>procs := q, mem := m, bufs := (\<lambda>b. if \<exists>p. uses_buf W p b then bufs s b else f b)\<rparr>"
  shows "simulated (s, W) (t, W)"
proof -
  have w: "unfetched t = unfetched s" "dev_todo t = dev_todo s" "work t = work s"
    by (simp_all add: assms(2) work_def unfetched_def unseen_def unseen_count_def)
  have "vinv (t, W)"
  proof (rule vinv_same [OF assms(1)])
    show "h \<in> set (work t) \<longleftrightarrow> (\<exists>p b w. in_flight W h p b w \<and> bdisk t b)" for h
      using vinvD(6) [OF assms(1), of h] w(3) by (simp add: assms(2))
    show "sectorno (bufs t b) = sectorno (bufs s b)" if "uses_buf W p b" for p b using that by (auto simp: assms(2))
  qed (use vinvD(5,7,8) [OF assms(1)] w in \<open>simp_all add: assms(2) same_disk_def unseen_def unseen_count_def\<close>)
  moreover have "astep (vabs (s, W)) (vabs (t, W))"
  proof -
    have "areq_of t = areq_of s" using w by (simp add: areq_of_def assms(2) fun_eq_iff split: vreq.split vwait.split)
    moreover have "bufs t (areq_buf (areq_of s v)) = bufs s (areq_buf (areq_of s v))" if "W p = Some v" for p v
      using that by (cases v) (auto simp: assms(2) uses_buf_def)
    ultimately show ?thesis unfolding vabs_def prod.case by (auto simp: assms(2) intro!: astep.others)
  qed
  ultimately show ?thesis by (simp add: simulated_def)
qed

lemma vstep_simulated:
  assumes "virtio_device dev" and "vinv c" and "vstep dev c c'"
  shows "simulated c c'"
  using assms(3,2)
proof (cases rule: vstep.cases)
  case (call W p c b w s r t)
  then show ?thesis using call_simulated [of s W p c b w r t] assms(2) by simp
next
  case (resume W p b w k c s r t)
  then show ?thesis using resume_simulated [of s W p b w k c r t] assms(2) by simp
next
  case (intr c s t W)
  then show ?thesis using intr_simulated [of s W c] intr_panics [of s W c] assms(2) by (cases "no_error s") auto
next
  case (device s t W)
  then show ?thesis using assms(1,2) fetch_simulated serve_simulated unfolding virtio_device_def by blast
next
  case (others s W q m f)
  then show ?thesis using others_simulated assms(2) by blast
qed

section \<open>Reachable configurations\<close>

text \<open>
  What can be reached from the end of \<open>virtio_disk_init\<close>, when the static variables of the driver were 0 and the device was reset.
\<close>

definition vreach :: "('a vdisk_st_scheme \<Rightarrow> 'a vdisk_st_scheme \<Rightarrow> bool) \<Rightarrow> 'a vdisk_st_scheme \<Rightarrow> 'a vconf \<Rightarrow> bool" where
  "vreach dev s0 c \<longleftrightarrow> (\<exists>s. virtio_disk_init s0 = Inr s \<and> used_idx s0 = 0 \<and> dev_seen s0 = 0 \<and> dev_todo s0 = [] \<and>
    rtranclp (vstep dev) (s, \<lambda>_. None) c)"

lemma init_vinv:
  assumes "virtio_disk_init s0 = Inr s" and "used_idx s0 = 0" and "dev_seen s0 = 0" and "dev_todo s0 = []"
  shows "vinv (s, \<lambda>_. None)"
proof -
  have s: "avail s 1 = 0" "used_id s = 0" "used_idx s = 0" "dev_seen s = 0" "dev_todo s = []"
    using assms by (auto simp: virtio_disk_init_def wr_reg_def clear_queue_def Let_def split: if_splits)
  then have "work s = []"
    by (simp add: work_def unfetched_def unseen_def unseen_count_def ring_slots_def NUM_def)
  then show ?thesis using s(3) by (intro vinvI) (simp_all add: in_flight_def uses_buf_def NUM_def)
qed

lemma vreach_vinv:
  assumes "virtio_device dev" and "vreach dev s0 c"
  shows "vinv c"
proof -
  obtain s where s: "virtio_disk_init s0 = Inr s" "used_idx s0 = 0" "dev_seen s0 = 0" "dev_todo s0 = []"
      "rtranclp (vstep dev) (s, \<lambda>_. None) c"
    using assms(2) by (auto simp: vreach_def)
  from s(5) show ?thesis
  proof (induction rule: rtranclp_induct)
    case base show ?case using init_vinv [OF s(1-4)] .
  next
    case (step y z) then show ?case using vstep_simulated [OF assms(1)] by (auto simp: simulated_def)
  qed
qed

text \<open>The handler wakes the processes whose buffers are done.\<close>

lemma woken_tab_keeps: "pstate (ps p) = SLEEPING \<and> pchan (ps p) = ch \<or> pstate (woken_tab c ps p) \<noteq> SLEEPING \<or> pchan (woken_tab c ps p) \<noteq> ch"
  by (auto simp: woken_tab_def woken_def)

lemma fold_woken_keeps:
  "\<not> (pstate (ps p) = SLEEPING \<and> pchan (ps p) = ch) \<Longrightarrow>
   \<not> (pstate (fold (\<lambda>b. woken_tab (ChBuf b)) bs ps p) = SLEEPING \<and> pchan (fold (\<lambda>b. woken_tab (ChBuf b)) bs ps p) = ch)"
proof (induction bs arbitrary: ps)
  case (Cons b bs)
  then show ?case using woken_tab_keeps [of ps p ch "ChBuf b"] by (auto intro!: Cons.IH)
qed simp

lemma fold_woken:
  "b \<in> set bs \<Longrightarrow> p < NPROC \<Longrightarrow>
   \<not> (pstate (fold (\<lambda>b. woken_tab (ChBuf b)) bs ps p) = SLEEPING \<and> pchan (fold (\<lambda>b. woken_tab (ChBuf b)) bs ps p) = ChBuf b)"
proof (induction bs arbitrary: ps)
  case (Cons c bs)
  show ?case
  proof (cases "c = b")
    case True
    have "\<not> (pstate (woken_tab (ChBuf b) ps p) = SLEEPING \<and> pchan (woken_tab (ChBuf b) ps p) = ChBuf b)"
      using Cons.prems(2) by (auto simp: woken_tab_def woken_def)
    with True show ?thesis using fold_woken_keeps [of "woken_tab (ChBuf b) ps" p "ChBuf b" bs] by simp
  next
    case False with Cons show ?thesis by simp
  qed
qed simp

text \<open>
  C10: The driver implements the disk of the buffer cache. However the processes in \<open>virtio_disk_rw\<close>, the interrupt handler and a device that behaves as virtio promises take
  their turns, every step is invisible or a step of the specification: a request on a buffer is asked for once, performed in one atomic step that
  is \<open>disk_read\<close> or \<open>disk_write\<close> of that buffer, and only then does the process return; nothing else touches the sectors or the buffers in use. A request
  that the device fails stays asked for.
\<close>

theorem virtio_refines_disk:
  assumes "virtio_device dev" and "vreach dev s0 c" and "vstep dev c c'"
  shows "vabs c' = vabs c \<or> astep (vabs c) (vabs c')"
  using vstep_simulated [OF assms(1) vreach_vinv [OF assms(1,2)] assms(3)] by (simp add: simulated_def)

text \<open>A process that sleeps in the driver can go on; and one whose request has been served is awake after the handler and leaves.\<close>

lemma process_goes_on:
  assumes "vinv (s, W)" and "W p = Some (VReq b w k)" and "on_hart p d" and "header_mapped p s \<or> (\<exists>h ie. k = WantBuf h ie)"
  shows "\<exists>r t. virtio_disk_rw_wake p b w k (s\<lparr>core := acq (ProcLock p) d\<rparr>) = Inr (r, t)"
proof (cases k)
  case (WantDesc sec ie) then show ?thesis using resume_wants [OF assms(3)] assms(4) by auto
next
  case (WantBuf h ie) then show ?thesis using resume_waits [OF assms(1) _ assms(3), of b w h ie] assms(2) by blast
qed

lemma served_leaves:
  assumes "vinv (s, W)" and "idle c" and "on_hart p d" and "no_error s"
  shows "\<exists>u. virtio_disk_intr (s\<lparr>core := c\<rparr>) = Inr u \<and>
    (\<forall>b w h ie. W p = Some (VReq b w (WantBuf h ie)) \<and> h \<in> set (unseen s) \<longrightarrow>
      (p < NPROC \<longrightarrow> \<not> (pstate (procs u p) = SLEEPING \<and> pchan (procs u p) = ChBuf b)) \<and>
      (\<exists>t. virtio_disk_rw_wake p b w (WantBuf h ie) (u\<lparr>core := acq (ProcLock p) d\<rparr>) = Inr (Finished (), t)))"
proof -
  obtain u where u: "virtio_disk_intr (s\<lparr>core := c\<rparr>) = Inr u" "simulated (s, W) (u, W)"
      "procs u = fold (\<lambda>b. woken_tab (ChBuf b)) (done_bufs s) (procs s)" "bdisk u = (\<lambda>b. bdisk s b \<and> b \<notin> set (done_bufs s))"
    using intr_simulated [OF assms(1,2,4)] by blast
  have iu: "vinv (u, W)" using u(2) by (simp add: simulated_def)
  have "(p < NPROC \<longrightarrow> \<not> (pstate (procs u p) = SLEEPING \<and> pchan (procs u p) = ChBuf b)) \<and>
      (\<exists>t. virtio_disk_rw_wake p b w (WantBuf h ie) (u\<lparr>core := acq (ProcLock p) d\<rparr>) = Inr (Finished (), t))"
    if k: "W p = Some (VReq b w (WantBuf h ie))" "h \<in> set (unseen s)" for b w h ie
  proof -
    have "in_flight W h p b w" using k(1) by (simp add: in_flight_def)
    then have b: "b \<in> set (done_bufs s)" using done_bufs_iff [OF assms(1)] k(2) by blast
    then have "\<not> bdisk u b" using u(4) by simp
    then have "\<exists>t. virtio_disk_rw_wake p b w (WantBuf h ie) (u\<lparr>core := acq (ProcLock p) d\<rparr>) = Inr (Finished (), t)"
      using resume_waits [OF iu k(1) assms(3)] by blast
    moreover have "p < NPROC \<longrightarrow> \<not> (pstate (procs u p) = SLEEPING \<and> pchan (procs u p) = ChBuf b)"
      unfolding u(3) using fold_woken b by blast
    ultimately show ?thesis by blast
  qed
  with u(1) show ?thesis by blast
qed

text \<open>
  C11: When the driver panics, and that it loses no request. In every reachable configuration the handler panics with its message exactly when the device has reported an
  error that the driver has not seen, and returns otherwise. A process with a buffer of its own can enter the driver, and one that sleeps there for descriptors can go on,
  without a panic as long as the header on its kernel stack is mapped; a process that sleeps for the end of its request goes on in any case. A process whose request has
  been served when the handler runs is awake after it, and leaves the driver when it goes on.
\<close>

theorem virtio_safe:
  assumes "virtio_device dev" and "vreach dev s0 (s, W)" and "idle c" and "on_hart p d"
  shows "(case W p of
      None \<Rightarrow> \<forall>b w. header_mapped p s \<and> (\<forall>q. \<not> uses_buf W q b) \<longrightarrow> (\<exists>r t. virtio_disk_rw_run b w (s\<lparr>core := d\<rparr>) = Inr (Waiting r, t))
    | Some (VReq b w k) \<Rightarrow>
        header_mapped p s \<or> (\<exists>h ie. k = WantBuf h ie) \<longrightarrow>
          (\<exists>r t. virtio_disk_rw_wake p b w k (s\<lparr>core := acq (ProcLock p) d\<rparr>) = Inr (r, t)))
   \<and> (if \<exists>h\<in>set (unseen s). vi_status (vinfo s h) \<noteq> 0
      then virtio_disk_intr (s\<lparr>core := c\<rparr>) = Inl (Panic ''virtio_disk_intr status'')
      else \<exists>u. virtio_disk_intr (s\<lparr>core := c\<rparr>) = Inr u \<and>
        (\<forall>b w h ie. W p = Some (VReq b w (WantBuf h ie)) \<and> h \<in> set (unseen s) \<longrightarrow>
           (p < NPROC \<longrightarrow> \<not> (pstate (procs u p) = SLEEPING \<and> pchan (procs u p) = ChBuf b)) \<and>
           (\<exists>t. virtio_disk_rw_wake p b w (WantBuf h ie) (u\<lparr>core := acq (ProcLock p) d\<rparr>) = Inr (Finished (), t))))"
proof (intro conjI)
  note inv = vreach_vinv [OF assms(1,2)]
  show "case W p of
      None \<Rightarrow> \<forall>b w. header_mapped p s \<and> (\<forall>q. \<not> uses_buf W q b) \<longrightarrow> (\<exists>r t. virtio_disk_rw_run b w (s\<lparr>core := d\<rparr>) = Inr (Waiting r, t))
    | Some (VReq b w k) \<Rightarrow>
        header_mapped p s \<or> (\<exists>h ie. k = WantBuf h ie) \<longrightarrow>
          (\<exists>r t. virtio_disk_rw_wake p b w k (s\<lparr>core := acq (ProcLock p) d\<rparr>) = Inr (r, t))"
    using run_waits [OF assms(4), of s] process_goes_on [OF inv _ assms(4)] by (auto split: option.split vreq.split)
  show "if \<exists>h\<in>set (unseen s). vi_status (vinfo s h) \<noteq> 0
      then virtio_disk_intr (s\<lparr>core := c\<rparr>) = Inl (Panic ''virtio_disk_intr status'')
      else \<exists>u. virtio_disk_intr (s\<lparr>core := c\<rparr>) = Inr u \<and>
        (\<forall>b w h ie. W p = Some (VReq b w (WantBuf h ie)) \<and> h \<in> set (unseen s) \<longrightarrow>
           (p < NPROC \<longrightarrow> \<not> (pstate (procs u p) = SLEEPING \<and> pchan (procs u p) = ChBuf b)) \<and>
           (\<exists>t. virtio_disk_rw_wake p b w (WantBuf h ie) (u\<lparr>core := acq (ProcLock p) d\<rparr>) = Inr (Finished (), t)))"
  proof (cases "no_error s")
    case False
    then show ?thesis using intr_panics [OF inv assms(3)] by (auto simp: no_error_def)
  next
    case True
    then have "\<not> (\<exists>h\<in>set (unseen s). vi_status (vinfo s h) \<noteq> 0)" by (simp add: no_error_def)
    then show ?thesis using served_leaves [OF inv assms(3,4) True] by (simp only: if_False)
  qed
qed

section \<open>A device and a boot\<close>

text \<open>
  A device of 2048 sectors that serves what it has fetched before it fetches more, and reports an error for sectors that it does not have.
\<close>

definition sector_status :: "nat \<Rightarrow> vdisk_st \<Rightarrow> u8" where
  "sector_status h s = (case vd_addr (vdescs s h) of Outhdr p \<Rightarrow> if oh_sector (outhdrs s p) < 2048 then 0 else 1 | _ \<Rightarrow> 1)"


definition eager_device :: "vdisk_st \<Rightarrow> vdisk_st \<Rightarrow> bool" where
  "eager_device s t \<longleftrightarrow>
    (case dev_todo s of
       [] \<Rightarrow> dev_seen s \<noteq> avail s 1 \<and> t = dev_fetch s
     | h # _ \<Rightarrow> t = dev_serve (sector_status h s) h s)"

lemma eager_device_ok: "virtio_device eager_device"
  by (auto simp: virtio_device_def eager_device_def split: list.splits)

text \<open>The kernel page table of process 2 is one page, all of whose entries point to it; so its stack is mapped.\<close>

definition vdisk_mem :: bytemem where
  "vdisk_mem a = [0x01, 0x80, 0x08, 0x20, 0, 0, 0, 0] ! (unat a mod 8)"

definition vdisk_boot :: vdisk_st where
  "vdisk_boot = bio_st.extend (bio_demo\<lparr>mem := vdisk_mem, procs := (procs bio_demo)(2 := (procs bio_demo 2)\<lparr>kpagetable := 0x80220000\<rparr>)\<rparr>)
    \<lparr>vdescs = (\<lambda>_. \<lparr>vd_addr = NoAddr, vd_len = 7, vd_flags = 7, vd_next = 7\<rparr>), avail = (\<lambda>_. 7), used_flags = 7, used_id = 7, used_elems = (\<lambda>_. 7),
     vfree = (\<lambda>_. False), used_idx = 0, vinfo = (\<lambda>_. \<lparr>vi_buf = None, vi_status = 0\<rparr>), bdisk = (\<lambda>_. False),
     outhdrs = (\<lambda>_. \<lparr>oh_type = 0, oh_reserved = 0, oh_sector = 0\<rparr>), buf0_at = (\<lambda>_. 0x3ec0000fc0), vpages = 0x80210000,
     regs = (\<lambda>r. if r = 0x000 then 0x74726976 else if r = 0x004 then 1 else if r = 0x008 then 2 else if r = 0x00c then 0x554d4551 else 0x400),
     reg_writes = [], dev_seen = 0, dev_todo = []\<rparr>"

definition vdisk_start :: vdisk_st where
  "vdisk_start = (case virtio_disk_init vdisk_boot of Inr s \<Rightarrow> s | Inl _ \<Rightarrow> vdisk_boot)"

lemma vdisk_start_reach: "vreach eager_device vdisk_boot (vdisk_start, \<lambda>_. None)"
proof -
  have "\<exists>s. virtio_disk_init vdisk_boot = Inr s"
    by (simp add: virtio_disk_init_def vdisk_boot_def bio_st.defs wr_reg_def clear_queue_def NUM_def Let_def)
  then have "virtio_disk_init vdisk_boot = Inr vdisk_start" by (auto simp: vdisk_start_def)
  moreover have "used_idx vdisk_boot = 0" "dev_seen vdisk_boot = 0" "dev_todo vdisk_boot = []" by (simp_all add: vdisk_boot_def bio_st.defs)
  ultimately show ?thesis by (auto simp: vreach_def)
qed

lemma mod8_add: "unat (p + c :: u64) mod 8 = (unat p + unat c) mod 8"
  by (simp add: unat_word_ariths mod_mod_cancel)

lemma vdisk_pte:
  assumes "unat p mod 8 = 0"
  shows "load64 vdisk_mem p = 0x20088001"
proof -
  have "unat (p + c) mod 8 = unat c mod 8" for c using mod8_add [of p c] assms by (metis add_0 mod_add_left_eq)
  then show ?thesis using assms by (simp add: load64_def vdisk_mem_def word_rcat_def)
qed

lemma vdisk_pte_addr: "load64 vdisk_mem (pte_addr 0x80220000 level va) = 0x20088001"
proof (rule vdisk_pte)
  have "unat (8 * PX level va) mod 8 = 0" by (simp add: unat_word_ariths mod_mod_cancel)
  then have "(2149711872 + unat (8 * PX level va)) mod 8 = 0" by presburger
  then show "unat (pte_addr 0x80220000 level va) mod 8 = 0"
    using mod8_add [of "0x80220000" "8 * PX level va"] by (simp add: pte_addr_def)
qed

lemma vdisk_walk:
  assumes "mem t = vdisk_mem"
  shows "walk_loop n 0x80220000 va False t = Inr (pte_addr 0x80220000 0 va, t)"
proof (induction n)
  case (Suc n)
  have "PTE2PA 0x20088001 = 0x80220000" "0x20088001 AND PTE_V \<noteq> 0" by (simp_all add: PTE2PA_def PTE_V_def)
  then show ?case using Suc assms by (simp add: vdisk_pte_addr)
qed simp

lemma pte_not_null: "pte_addr 0x80220000 0 0x3ec0000fc0 \<noteq> 0"
  by (simp add: pte_addr_def PX_def PXSHIFT_def PXMASK_def PGSHIFT_def)

lemma vdisk_start_mapped: "header_mapped 2 vdisk_start"
proof -
  have start: "mem vdisk_start = vdisk_mem" "kpagetable (procs vdisk_start 2) = 0x80220000" "buf0_at vdisk_start 2 = 0x3ec0000fc0"
    by (simp_all add: vdisk_start_def virtio_disk_init_def vdisk_boot_def bio_st.defs wr_reg_def clear_queue_def NUM_def Let_def)
  show ?thesis
    unfolding header_mapped_def start
    by (simp add: kwalkaddr_def walk_def MAXVA_def Let_def start vdisk_walk [OF start(1)] vdisk_pte_addr pte_not_null PTE_V_def)
qed

lemma demo_on_hart: "on_hart 2 demo_core"
  by (simp add: on_hart_def)

lemma virtio_refines_disk_witness:
  "\<exists>c'. vstep eager_device (vdisk_start, \<lambda>_. None) c' \<and> astep (vabs (vdisk_start, \<lambda>_. None)) (vabs c')"
proof -
  obtain r t where t: "virtio_disk_rw_run 0 True (vdisk_start\<lparr>core := demo_core\<rparr>) = Inr (r, t)"
    using run_waits [OF demo_on_hart vdisk_start_mapped] by blast
  let ?c = "(t, (\<lambda>_. None)(2 := vnext 0 True r))"
  have st: "vstep eager_device (vdisk_start, \<lambda>_. None) ?c"
    by (rule vstep.call [OF _ demo_on_hart _ t]) (simp_all add: uses_buf_def)
  have "\<exists>k. r = Waiting k" using run_waits [OF demo_on_hart vdisk_start_mapped, of 0 True] t by auto
  then have "vabs ?c \<noteq> vabs (vdisk_start, \<lambda>_. None)" by (auto simp: vabs_def vnext_def dest: fun_cong [of _ _ 2])
  with virtio_refines_disk [OF eager_device_ok vdisk_start_reach st] st show ?thesis by blast
qed

lemma virtio_safe_witness:
  "\<exists>u r t. virtio_disk_intr (vdisk_start\<lparr>core := demo_core\<rparr>) = Inr u \<and> virtio_disk_rw_run 0 True (vdisk_start\<lparr>core := demo_core\<rparr>) = Inr (Waiting r, t)"
proof -
  have "unseen vdisk_start = []"
    by (simp add: vdisk_start_def virtio_disk_init_def vdisk_boot_def bio_st.defs wr_reg_def clear_queue_def NUM_def Let_def
        unseen_def unseen_count_def ring_slots_def)
  then show ?thesis
    using virtio_safe [OF eager_device_ok vdisk_start_reach demo_core_facts(3) demo_on_hart] vdisk_start_mapped by (auto simp: uses_buf_def)
qed

end
