(* ===== verification/FpioaTable.thy ===== *)
theory FpioaTable imports Prelude begin

text \<open>
  The pins of the K210 (kernel/fpioa.c, libs/fpioa.h): the cells that configure a pin, and the table of the configuration that belongs to each of the 256
  functions a pin can be given. The table is kept in pieces of eight entries.
\<close>

section \<open>Configuration cells\<close>

text \<open>The fields that both structures have: \<open>fpioa_assign_t\<close>, an entry of the table, and \<open>fpioa_io_config_t\<close>, the register of a pin.\<close>

record pin_cfg =
  ch_sel :: u8
  ds :: "4 word"
  oe_en :: "1 word"
  oe_inv :: "1 word"
  do_sel :: "1 word"
  do_inv :: "1 word"
  pu :: "1 word"
  pd :: "1 word"
  resv0 :: "1 word"
  sl :: "1 word"
  ie_en :: "1 word"
  ie_inv :: "1 word"
  di_inv :: "1 word"
  st :: "1 word"

record fpioa_assign = pin_cfg +
  tie_en :: "1 word"
  tie_val :: "1 word"
  tab_resv1 :: "5 word"
  tab_pad_di :: "1 word"

record fpioa_io_config = pin_cfg +
  resv1 :: "7 word"
  pad_di :: "1 word"

section \<open>The table\<close>

text \<open>An entry lists its fields in the order of the structure.\<close>

definition function_config_0 :: "fpioa_assign list" where
  "function_config_0 =
    [fpioa_assign.make 0 0 0 0 0 0 0 0 0 0 1 0 0 1 0 0 0 0,
     fpioa_assign.make 1 0 0 0 0 0 0 0 0 0 1 0 0 1 0 0 0 0,
     fpioa_assign.make 2 0 0 0 0 0 0 0 0 0 1 0 0 1 0 0 0 0,
     fpioa_assign.make 3 15 1 0 0 0 0 0 0 0 0 0 0 0 0 0 0 0,
     fpioa_assign.make 4 15 1 1 0 0 0 0 0 0 1 1 0 1 0 0 0 0,
     fpioa_assign.make 5 15 1 1 0 0 0 0 0 0 1 1 0 1 0 0 0 0,
     fpioa_assign.make 6 15 1 1 0 0 0 0 0 0 1 1 0 1 0 0 0 0,
     fpioa_assign.make 7 15 1 1 0 0 0 0 0 0 1 1 0 1 0 0 0 0]"

definition function_config_1 :: "fpioa_assign list" where
  "function_config_1 =
    [fpioa_assign.make 8 15 1 1 0 0 0 0 0 0 1 1 0 1 0 0 0 0,
     fpioa_assign.make 9 15 1 1 0 0 0 0 0 0 1 1 0 1 0 0 0 0,
     fpioa_assign.make 10 15 1 1 0 0 0 0 0 0 1 1 0 1 0 0 0 0,
     fpioa_assign.make 11 15 1 1 0 0 0 0 0 0 1 1 0 1 0 0 0 0,
     fpioa_assign.make 12 15 1 0 0 0 0 0 0 0 0 0 0 0 0 0 0 0,
     fpioa_assign.make 13 15 1 0 0 0 0 0 0 0 0 0 0 0 0 0 0 0,
     fpioa_assign.make 14 15 1 0 0 0 0 0 0 0 0 0 0 0 0 0 0 0,
     fpioa_assign.make 15 15 1 0 0 0 0 0 0 0 0 0 0 0 0 0 0 0]"

definition function_config_2 :: "fpioa_assign list" where
  "function_config_2 =
    [fpioa_assign.make 16 0 0 0 0 0 0 0 0 0 1 0 0 1 1 1 0 0,
     fpioa_assign.make 17 15 1 0 0 0 0 0 0 0 0 0 0 0 0 0 0 0,
     fpioa_assign.make 18 0 0 0 0 0 0 0 0 0 1 0 0 1 0 0 0 0,
     fpioa_assign.make 19 15 1 0 0 0 0 0 0 0 0 0 0 0 0 0 0 0,
     fpioa_assign.make 20 0 0 0 0 0 0 0 0 0 1 0 0 1 0 0 0 0,
     fpioa_assign.make 21 0 0 0 0 0 0 0 0 0 1 0 0 1 0 0 0 0,
     fpioa_assign.make 22 15 1 0 0 0 0 0 0 0 0 0 0 0 0 0 0 0,
     fpioa_assign.make 23 15 1 0 0 0 0 0 0 0 0 0 0 0 0 0 0 0]"

definition function_config_3 :: "fpioa_assign list" where
  "function_config_3 =
    [fpioa_assign.make 24 15 1 0 0 0 0 0 0 0 1 0 0 1 0 0 0 0,
     fpioa_assign.make 25 15 1 0 0 0 0 0 0 0 1 0 0 1 0 0 0 0,
     fpioa_assign.make 26 15 1 0 0 0 0 0 0 0 1 0 0 1 0 0 0 0,
     fpioa_assign.make 27 15 1 0 0 0 0 0 0 0 1 0 0 1 0 0 0 0,
     fpioa_assign.make 28 15 1 0 0 0 0 0 0 0 1 0 0 1 0 0 0 0,
     fpioa_assign.make 29 15 1 0 0 0 0 0 0 0 1 0 0 1 0 0 0 0,
     fpioa_assign.make 30 15 1 0 0 0 0 0 0 0 1 0 0 1 0 0 0 0,
     fpioa_assign.make 31 15 1 0 0 0 0 0 0 0 1 0 0 1 0 0 0 0]"

definition function_config_4 :: "fpioa_assign list" where
  "function_config_4 =
    [fpioa_assign.make 32 15 1 0 0 0 0 0 0 0 1 0 0 1 0 0 0 0,
     fpioa_assign.make 33 15 1 0 0 0 0 0 0 0 1 0 0 1 0 0 0 0,
     fpioa_assign.make 34 15 1 0 0 0 0 0 0 0 1 0 0 1 0 0 0 0,
     fpioa_assign.make 35 15 1 0 0 0 0 0 0 0 1 0 0 1 0 0 0 0,
     fpioa_assign.make 36 15 1 0 0 0 0 0 0 0 1 0 0 1 0 0 0 0,
     fpioa_assign.make 37 15 1 0 0 0 0 0 0 0 1 0 0 1 0 0 0 0,
     fpioa_assign.make 38 15 1 0 0 0 0 0 0 0 1 0 0 1 0 0 0 0,
     fpioa_assign.make 39 15 1 0 0 0 0 0 0 0 1 0 0 1 0 0 0 0]"

definition function_config_5 :: "fpioa_assign list" where
  "function_config_5 =
    [fpioa_assign.make 40 15 1 0 0 0 0 0 0 0 1 0 0 1 0 0 0 0,
     fpioa_assign.make 41 15 1 0 0 0 0 0 0 0 1 0 0 1 0 0 0 0,
     fpioa_assign.make 42 15 1 0 0 0 0 0 0 0 1 0 0 1 0 0 0 0,
     fpioa_assign.make 43 15 1 0 0 0 0 0 0 0 1 0 0 1 0 0 0 0,
     fpioa_assign.make 44 15 1 0 0 0 0 0 0 0 1 0 0 1 0 0 0 0,
     fpioa_assign.make 45 15 1 0 0 0 0 0 0 0 1 0 0 1 0 0 0 0,
     fpioa_assign.make 46 15 1 0 0 0 0 0 0 0 1 0 0 1 0 0 0 0,
     fpioa_assign.make 47 15 1 0 0 0 0 0 0 0 1 0 0 1 0 0 0 0]"

definition function_config_6 :: "fpioa_assign list" where
  "function_config_6 =
    [fpioa_assign.make 48 15 1 0 0 0 0 0 0 0 1 0 0 1 0 0 0 0,
     fpioa_assign.make 49 15 1 0 0 0 0 0 0 0 1 0 0 1 0 0 0 0,
     fpioa_assign.make 50 15 1 0 0 0 0 0 0 0 1 0 0 1 0 0 0 0,
     fpioa_assign.make 51 15 1 0 0 0 0 0 0 0 1 0 0 1 0 0 0 0,
     fpioa_assign.make 52 15 1 0 0 0 0 0 0 0 1 0 0 1 0 0 0 0,
     fpioa_assign.make 53 15 1 0 0 0 0 0 0 0 1 0 0 1 0 0 0 0,
     fpioa_assign.make 54 15 1 0 0 0 0 0 0 0 1 0 0 1 0 0 0 0,
     fpioa_assign.make 55 15 1 0 0 0 0 0 0 0 1 0 0 1 0 0 0 0]"

definition function_config_7 :: "fpioa_assign list" where
  "function_config_7 =
    [fpioa_assign.make 56 15 1 0 0 0 0 0 0 0 1 0 0 1 0 0 0 0,
     fpioa_assign.make 57 15 1 0 0 0 0 0 0 0 1 0 0 1 0 0 0 0,
     fpioa_assign.make 58 15 1 0 0 0 0 0 0 0 1 0 0 1 0 0 0 0,
     fpioa_assign.make 59 15 1 0 0 0 0 0 0 0 1 0 0 1 0 0 0 0,
     fpioa_assign.make 60 15 1 0 0 0 0 0 0 0 1 0 0 1 0 0 0 0,
     fpioa_assign.make 61 15 1 0 0 0 0 0 0 0 1 0 0 1 0 0 0 0,
     fpioa_assign.make 62 15 1 0 0 0 0 0 0 0 1 0 0 1 0 0 0 0,
     fpioa_assign.make 63 15 1 0 0 0 0 0 0 0 1 0 0 1 0 0 0 0]"

definition function_config_8 :: "fpioa_assign list" where
  "function_config_8 =
    [fpioa_assign.make 64 0 0 0 0 0 0 0 0 0 1 0 0 1 0 0 0 0,
     fpioa_assign.make 65 15 1 0 0 0 0 0 0 0 0 0 0 0 0 0 0 0,
     fpioa_assign.make 66 0 0 0 0 0 0 0 0 0 1 0 0 1 0 0 0 0,
     fpioa_assign.make 67 15 1 0 0 0 0 0 0 0 0 0 0 0 0 0 0 0,
     fpioa_assign.make 68 0 0 0 0 0 0 0 0 0 1 0 0 1 0 0 0 0,
     fpioa_assign.make 69 15 1 0 0 0 0 0 0 0 0 0 0 0 0 0 0 0,
     fpioa_assign.make 70 15 1 1 0 0 0 0 0 0 1 1 0 1 0 0 0 0,
     fpioa_assign.make 71 15 1 1 0 0 0 0 0 0 1 1 0 1 0 0 0 0]"

definition function_config_9 :: "fpioa_assign list" where
  "function_config_9 =
    [fpioa_assign.make 72 15 1 1 0 0 0 0 0 0 1 1 0 1 0 0 0 0,
     fpioa_assign.make 73 15 1 1 0 0 0 0 0 0 1 1 0 1 0 0 0 0,
     fpioa_assign.make 74 15 1 1 0 0 0 0 0 0 1 1 0 1 0 0 0 0,
     fpioa_assign.make 75 15 1 1 0 0 0 0 0 0 1 1 0 1 0 0 0 0,
     fpioa_assign.make 76 15 1 1 0 0 0 0 0 0 1 1 0 1 0 0 0 0,
     fpioa_assign.make 77 15 1 1 0 0 0 0 0 0 1 1 0 1 0 0 0 0,
     fpioa_assign.make 78 15 1 0 0 0 0 0 0 0 0 0 0 0 0 0 0 0,
     fpioa_assign.make 79 15 1 0 0 0 0 0 0 0 0 0 0 0 0 0 0 0]"

definition function_config_10 :: "fpioa_assign list" where
  "function_config_10 =
    [fpioa_assign.make 80 15 1 0 0 0 0 0 0 0 0 0 0 0 0 0 0 0,
     fpioa_assign.make 81 15 1 0 0 0 0 0 0 0 0 0 0 0 0 0 0 0,
     fpioa_assign.make 82 0 0 0 0 0 0 0 0 0 1 0 0 1 1 1 0 0,
     fpioa_assign.make 83 15 1 0 0 0 0 0 0 0 0 0 0 0 0 0 0 0,
     fpioa_assign.make 84 15 1 1 0 0 0 0 0 0 1 1 0 1 0 0 0 0,
     fpioa_assign.make 85 0 0 0 0 0 0 0 0 0 1 0 0 1 0 0 0 0,
     fpioa_assign.make 86 0 0 0 0 0 0 0 0 0 1 0 0 1 0 0 0 0,
     fpioa_assign.make 87 15 1 0 0 0 0 0 0 0 0 0 0 0 0 0 0 0]"

definition function_config_11 :: "fpioa_assign list" where
  "function_config_11 =
    [fpioa_assign.make 88 15 1 0 0 0 0 0 0 0 0 0 0 0 0 0 0 0,
     fpioa_assign.make 89 15 1 0 0 0 0 0 0 0 0 0 0 0 0 0 0 0,
     fpioa_assign.make 90 0 0 0 0 0 0 0 0 0 1 0 0 1 0 0 0 0,
     fpioa_assign.make 91 0 0 0 0 0 0 0 0 0 1 0 0 1 0 0 0 0,
     fpioa_assign.make 92 0 0 0 0 0 0 0 0 0 1 0 0 1 0 0 0 0,
     fpioa_assign.make 93 0 0 0 0 0 0 0 0 0 1 0 0 1 0 0 0 0,
     fpioa_assign.make 94 15 1 0 0 0 0 0 0 0 0 0 0 0 0 0 0 0,
     fpioa_assign.make 95 15 1 0 0 0 0 0 0 0 0 0 0 0 0 0 0 0]"

definition function_config_12 :: "fpioa_assign list" where
  "function_config_12 =
    [fpioa_assign.make 96 15 1 0 0 0 0 0 0 0 0 0 0 0 0 0 0 0,
     fpioa_assign.make 97 15 1 0 0 0 0 0 0 0 0 0 0 0 0 0 0 0,
     fpioa_assign.make 98 15 1 0 0 0 0 0 0 0 0 0 0 0 0 0 0 0,
     fpioa_assign.make 99 15 1 0 0 0 0 0 0 0 0 0 0 0 0 0 0 0,
     fpioa_assign.make 100 15 1 0 0 0 0 0 0 0 0 0 0 0 0 0 0 0,
     fpioa_assign.make 101 0 0 0 0 0 0 0 0 0 1 0 0 1 0 0 0 0,
     fpioa_assign.make 102 0 0 0 0 0 0 0 0 0 1 0 0 1 0 0 0 0,
     fpioa_assign.make 103 0 0 0 0 0 0 0 0 0 1 0 0 1 0 0 0 0]"

definition function_config_13 :: "fpioa_assign list" where
  "function_config_13 =
    [fpioa_assign.make 104 0 0 0 0 0 0 0 0 0 1 0 0 1 0 0 0 0,
     fpioa_assign.make 105 15 1 0 0 0 0 0 0 0 0 0 0 0 0 0 0 0,
     fpioa_assign.make 106 15 1 0 0 0 0 0 0 0 0 0 0 0 0 0 0 0,
     fpioa_assign.make 107 15 1 0 0 0 0 0 0 0 0 0 0 0 0 0 0 0,
     fpioa_assign.make 108 15 1 0 0 0 0 0 0 0 0 0 0 0 0 0 0 0,
     fpioa_assign.make 109 15 1 0 0 0 0 0 0 0 0 0 0 0 0 0 0 0,
     fpioa_assign.make 110 15 1 0 0 0 0 0 0 0 0 0 0 0 0 0 0 0,
     fpioa_assign.make 111 15 1 0 0 0 0 0 0 0 0 0 0 0 0 0 0 0]"

definition function_config_14 :: "fpioa_assign list" where
  "function_config_14 =
    [fpioa_assign.make 112 0 0 0 0 0 0 0 0 0 1 0 0 1 0 0 0 0,
     fpioa_assign.make 113 0 0 0 0 0 0 0 0 0 1 0 0 1 0 0 0 0,
     fpioa_assign.make 114 0 0 0 0 0 0 0 0 0 1 0 0 1 0 0 0 0,
     fpioa_assign.make 115 0 0 0 0 0 0 0 0 0 1 0 0 1 0 0 0 0,
     fpioa_assign.make 116 15 1 0 0 0 0 0 0 0 0 0 0 0 0 0 0 0,
     fpioa_assign.make 117 15 1 0 0 0 0 0 0 0 0 0 0 0 0 0 0 0,
     fpioa_assign.make 118 15 1 0 0 0 0 0 0 0 0 0 0 0 0 0 0 0,
     fpioa_assign.make 119 15 1 0 0 0 0 0 0 0 0 0 0 0 0 0 0 0]"

definition function_config_15 :: "fpioa_assign list" where
  "function_config_15 =
    [fpioa_assign.make 120 0 0 0 0 0 0 0 0 0 0 0 0 0 0 0 0 0,
     fpioa_assign.make 121 0 0 0 0 0 0 0 0 0 0 0 0 0 0 0 0 0,
     fpioa_assign.make 122 0 0 0 0 0 0 0 0 0 0 0 0 0 0 0 0 0,
     fpioa_assign.make 123 0 0 0 0 0 0 0 0 0 0 0 0 0 0 0 0 0,
     fpioa_assign.make 124 0 0 0 0 0 0 0 0 0 0 0 0 0 0 0 0 0,
     fpioa_assign.make 125 0 0 0 0 0 0 0 0 0 0 0 0 0 0 0 0 0,
     fpioa_assign.make 126 0 1 0 0 0 1 0 0 1 1 0 0 1 0 0 0 0,
     fpioa_assign.make 127 0 1 0 0 0 1 0 0 1 1 0 0 1 0 0 0 0]"

definition function_config_16 :: "fpioa_assign list" where
  "function_config_16 =
    [fpioa_assign.make 128 0 1 0 0 0 1 0 0 1 1 0 0 1 0 0 0 0,
     fpioa_assign.make 129 0 1 0 0 0 1 0 0 1 1 0 0 1 0 0 0 0,
     fpioa_assign.make 130 0 1 0 0 0 1 0 0 1 1 0 0 1 0 0 0 0,
     fpioa_assign.make 131 0 1 0 0 0 1 0 0 1 1 0 0 1 0 0 0 0,
     fpioa_assign.make 132 15 1 0 0 0 0 0 0 0 0 0 0 0 0 0 0 0,
     fpioa_assign.make 133 15 1 0 0 0 0 0 0 0 0 0 0 0 0 0 0 0,
     fpioa_assign.make 134 15 1 0 0 0 0 0 0 0 0 0 0 0 0 0 0 0,
     fpioa_assign.make 135 0 0 0 0 0 0 0 0 0 1 0 0 1 0 0 0 0]"

definition function_config_17 :: "fpioa_assign list" where
  "function_config_17 =
    [fpioa_assign.make 136 0 0 0 0 0 0 0 0 0 1 0 0 1 0 0 0 0,
     fpioa_assign.make 137 0 0 0 0 0 0 0 0 0 1 0 0 1 0 0 0 0,
     fpioa_assign.make 138 0 0 0 0 0 0 0 0 0 1 0 0 1 0 0 0 0,
     fpioa_assign.make 139 0 0 0 0 0 0 0 0 0 1 0 0 1 0 0 0 0,
     fpioa_assign.make 140 0 0 0 0 0 0 0 0 0 1 0 0 1 0 0 0 0,
     fpioa_assign.make 141 0 0 0 0 0 0 0 0 0 1 0 0 1 0 0 0 0,
     fpioa_assign.make 142 0 0 0 0 0 0 0 0 0 1 0 0 1 0 0 0 0,
     fpioa_assign.make 143 0 0 0 0 0 0 0 0 0 1 0 0 1 0 0 0 0]"

definition function_config_18 :: "fpioa_assign list" where
  "function_config_18 =
    [fpioa_assign.make 144 0 0 0 0 0 0 0 0 0 1 0 0 1 0 0 0 0,
     fpioa_assign.make 145 0 0 0 0 0 0 0 0 0 1 0 0 1 0 0 0 0,
     fpioa_assign.make 146 0 1 1 0 0 1 0 0 1 1 0 0 1 0 0 0 0,
     fpioa_assign.make 147 0 1 1 0 0 1 0 0 1 1 0 0 1 0 0 0 0,
     fpioa_assign.make 148 0 0 0 0 0 0 0 0 0 1 0 0 1 0 0 0 0,
     fpioa_assign.make 149 0 0 0 0 0 0 0 0 0 1 0 0 1 0 0 0 0,
     fpioa_assign.make 150 0 0 0 0 0 0 0 0 0 1 0 0 1 0 0 0 0,
     fpioa_assign.make 151 0 0 0 0 0 0 0 0 0 1 0 0 1 0 0 0 0]"

definition function_config_19 :: "fpioa_assign list" where
  "function_config_19 =
    [fpioa_assign.make 152 0 0 0 0 0 0 0 0 0 1 0 0 1 0 0 0 0,
     fpioa_assign.make 153 15 1 0 0 0 0 0 0 0 0 0 0 0 0 0 0 0,
     fpioa_assign.make 154 15 1 0 0 0 0 0 0 0 0 0 0 0 0 0 0 0,
     fpioa_assign.make 155 15 1 0 0 0 0 0 0 0 0 0 0 0 0 0 0 0,
     fpioa_assign.make 156 15 1 0 0 0 0 0 0 0 0 0 0 0 0 0 0 0,
     fpioa_assign.make 157 15 1 0 0 0 0 0 0 0 0 0 0 0 0 0 0 0,
     fpioa_assign.make 158 15 1 0 0 0 0 0 0 0 0 0 0 0 0 0 0 0,
     fpioa_assign.make 159 15 1 0 0 0 0 0 0 0 0 0 0 0 0 0 0 0]"

definition function_config_20 :: "fpioa_assign list" where
  "function_config_20 =
    [fpioa_assign.make 160 15 1 0 0 0 0 0 0 0 0 0 0 0 0 0 0 0,
     fpioa_assign.make 161 15 1 0 0 0 0 0 0 0 0 0 0 0 0 0 0 0,
     fpioa_assign.make 162 0 0 0 0 0 0 0 0 0 1 0 0 1 0 0 0 0,
     fpioa_assign.make 163 0 0 0 0 0 0 0 0 0 1 0 0 1 0 0 0 0,
     fpioa_assign.make 164 0 0 0 0 0 0 0 0 0 1 0 0 1 0 0 0 0,
     fpioa_assign.make 165 0 0 0 0 0 0 0 0 0 1 0 0 1 0 0 0 0,
     fpioa_assign.make 166 0 0 0 0 0 0 0 0 0 1 0 0 1 0 0 0 0,
     fpioa_assign.make 167 15 1 0 0 0 0 0 0 0 0 0 0 0 0 0 0 0]"

definition function_config_21 :: "fpioa_assign list" where
  "function_config_21 =
    [fpioa_assign.make 168 15 1 0 0 0 0 0 0 0 0 0 0 0 0 0 0 0,
     fpioa_assign.make 169 15 1 0 0 0 0 0 0 0 0 0 0 0 0 0 0 0,
     fpioa_assign.make 170 15 1 0 0 0 0 0 0 0 0 0 0 0 0 0 0 0,
     fpioa_assign.make 171 15 1 0 0 0 0 0 0 0 0 0 0 0 0 0 0 0,
     fpioa_assign.make 172 15 1 0 0 0 0 0 0 0 0 0 0 0 0 0 0 0,
     fpioa_assign.make 173 15 1 0 0 0 0 0 0 0 0 0 0 0 0 0 0 0,
     fpioa_assign.make 174 15 1 0 0 0 0 0 0 0 0 0 0 0 0 0 0 0,
     fpioa_assign.make 175 15 1 0 0 0 0 0 0 0 0 0 0 0 0 0 0 0]"

definition function_config_22 :: "fpioa_assign list" where
  "function_config_22 =
    [fpioa_assign.make 176 0 0 0 0 0 0 0 0 0 1 0 0 1 0 0 0 0,
     fpioa_assign.make 177 0 0 0 0 0 0 0 0 0 1 0 0 1 0 0 0 0,
     fpioa_assign.make 178 0 0 0 0 0 0 0 0 0 1 0 0 1 0 0 0 0,
     fpioa_assign.make 179 0 0 0 0 0 0 0 0 0 1 0 0 1 0 0 0 0,
     fpioa_assign.make 180 0 0 0 0 0 0 0 0 0 1 0 0 1 0 0 0 0,
     fpioa_assign.make 181 15 1 0 0 0 0 0 0 0 0 0 0 0 0 0 0 0,
     fpioa_assign.make 182 15 1 0 0 0 0 0 0 0 0 0 0 0 0 0 0 0,
     fpioa_assign.make 183 15 1 0 0 0 0 0 0 0 0 0 0 0 0 0 0 0]"

definition function_config_23 :: "fpioa_assign list" where
  "function_config_23 =
    [fpioa_assign.make 184 15 1 0 0 0 0 0 0 0 0 0 0 0 0 0 0 0,
     fpioa_assign.make 185 15 1 0 0 0 0 0 0 0 0 0 0 0 0 0 0 0,
     fpioa_assign.make 186 15 1 0 0 0 0 0 0 0 0 0 0 0 0 0 0 0,
     fpioa_assign.make 187 15 1 0 0 0 0 0 0 0 0 0 0 0 0 0 0 0,
     fpioa_assign.make 188 15 1 0 0 0 0 0 0 0 0 0 0 0 0 0 0 0,
     fpioa_assign.make 189 15 1 0 0 0 0 0 0 0 0 0 0 0 0 0 0 0,
     fpioa_assign.make 190 15 1 0 0 0 0 0 0 0 0 0 0 0 0 0 0 0,
     fpioa_assign.make 191 15 1 0 0 0 0 0 0 0 0 0 0 0 0 0 0 0]"

definition function_config_24 :: "fpioa_assign list" where
  "function_config_24 =
    [fpioa_assign.make 192 15 1 0 0 0 0 0 0 0 0 0 0 0 0 0 0 0,
     fpioa_assign.make 193 15 1 0 0 0 0 0 0 0 0 0 0 0 0 0 0 0,
     fpioa_assign.make 194 15 1 0 0 0 0 0 0 0 0 0 0 0 0 0 0 0,
     fpioa_assign.make 195 15 1 0 0 0 0 0 0 0 0 0 0 0 0 0 0 0,
     fpioa_assign.make 196 15 1 0 0 0 0 0 0 0 0 0 0 0 0 0 0 0,
     fpioa_assign.make 197 15 1 0 0 0 0 0 0 0 0 0 0 0 0 0 0 0,
     fpioa_assign.make 198 15 1 0 0 0 0 0 0 0 0 0 0 0 0 0 0 0,
     fpioa_assign.make 199 15 1 0 0 0 0 0 0 0 0 0 0 0 0 0 0 0]"

definition function_config_25 :: "fpioa_assign list" where
  "function_config_25 =
    [fpioa_assign.make 200 15 1 0 0 0 0 0 0 0 0 0 0 0 0 0 0 0,
     fpioa_assign.make 201 15 1 0 0 0 0 0 0 0 0 0 0 0 0 0 0 0,
     fpioa_assign.make 202 15 1 0 0 0 0 0 0 0 0 0 0 0 0 0 0 0,
     fpioa_assign.make 203 15 1 0 0 0 0 0 0 0 0 0 0 0 0 0 0 0,
     fpioa_assign.make 204 15 1 0 0 0 0 0 0 0 0 0 0 0 0 0 0 0,
     fpioa_assign.make 205 15 1 0 0 0 0 0 0 0 0 0 0 0 0 0 0 0,
     fpioa_assign.make 206 15 1 0 0 0 0 0 0 0 0 0 0 0 0 0 0 0,
     fpioa_assign.make 207 15 1 0 0 0 0 0 0 0 0 0 0 0 0 0 0 0]"

definition function_config_26 :: "fpioa_assign list" where
  "function_config_26 =
    [fpioa_assign.make 208 15 1 0 0 0 0 0 0 0 0 0 0 0 0 0 0 0,
     fpioa_assign.make 209 15 1 0 0 0 0 0 0 0 0 0 0 0 0 0 0 0,
     fpioa_assign.make 210 15 1 0 0 0 0 0 0 0 0 0 0 0 0 0 0 0,
     fpioa_assign.make 211 15 1 0 0 0 0 0 0 0 0 0 0 0 0 0 0 0,
     fpioa_assign.make 212 15 1 0 0 0 0 0 0 0 0 0 0 0 0 0 0 0,
     fpioa_assign.make 213 0 0 0 0 0 0 0 0 0 1 0 0 1 0 0 0 0,
     fpioa_assign.make 214 0 0 0 0 0 0 0 0 0 1 0 0 1 0 0 0 0,
     fpioa_assign.make 215 0 0 0 0 0 0 0 0 0 1 0 0 1 0 0 0 0]"

definition function_config_27 :: "fpioa_assign list" where
  "function_config_27 =
    [fpioa_assign.make 216 0 0 0 0 0 0 0 0 0 1 0 0 1 0 0 0 0,
     fpioa_assign.make 217 0 0 0 0 0 1 0 0 0 1 0 0 1 0 0 0 0,
     fpioa_assign.make 218 15 1 0 0 0 1 0 0 1 1 0 0 1 0 0 0 0,
     fpioa_assign.make 219 0 0 0 0 0 0 0 0 0 1 0 0 1 0 0 0 0,
     fpioa_assign.make 220 0 0 0 0 0 0 0 0 0 1 0 0 1 0 0 0 0,
     fpioa_assign.make 221 0 0 0 0 0 0 0 0 0 1 0 0 1 0 0 0 0,
     fpioa_assign.make 222 0 0 0 0 0 0 0 0 0 0 0 0 0 0 0 0 0,
     fpioa_assign.make 223 0 0 0 0 0 0 0 0 0 1 0 0 1 0 0 0 0]"

definition function_config_28 :: "fpioa_assign list" where
  "function_config_28 =
    [fpioa_assign.make 224 15 1 0 0 0 0 0 0 0 0 0 0 0 0 0 0 0,
     fpioa_assign.make 225 15 1 0 0 0 0 0 0 0 0 0 0 0 0 0 0 0,
     fpioa_assign.make 226 15 1 0 0 0 0 0 0 0 0 0 0 0 0 0 0 0,
     fpioa_assign.make 227 15 1 0 0 0 0 0 0 0 0 0 0 0 0 0 0 0,
     fpioa_assign.make 228 15 1 0 0 0 0 0 0 0 0 0 0 0 0 0 0 0,
     fpioa_assign.make 229 15 1 0 0 0 0 0 0 0 0 0 0 0 0 0 0 0,
     fpioa_assign.make 230 15 1 0 0 0 0 0 0 0 0 0 0 0 0 0 0 0,
     fpioa_assign.make 231 15 1 0 0 0 0 0 0 0 0 0 0 0 0 0 0 0]"

definition function_config_29 :: "fpioa_assign list" where
  "function_config_29 =
    [fpioa_assign.make 232 15 1 0 0 0 0 0 0 0 0 0 0 0 0 0 0 0,
     fpioa_assign.make 233 15 1 0 0 0 0 0 0 0 0 0 0 0 0 0 0 0,
     fpioa_assign.make 234 15 1 0 0 0 0 0 0 0 0 0 0 0 0 0 0 0,
     fpioa_assign.make 235 15 1 0 0 0 0 0 0 0 0 0 0 0 0 0 0 0,
     fpioa_assign.make 236 15 1 0 0 0 0 0 0 0 0 0 0 0 0 0 0 0,
     fpioa_assign.make 237 15 1 0 0 0 0 0 0 0 0 0 0 0 0 0 0 0,
     fpioa_assign.make 238 15 1 0 0 0 0 0 0 0 0 0 0 0 0 0 0 0,
     fpioa_assign.make 239 15 1 0 0 0 0 0 0 0 0 0 0 0 0 0 0 0]"

definition function_config_30 :: "fpioa_assign list" where
  "function_config_30 =
    [fpioa_assign.make 240 15 1 0 0 0 0 0 0 0 0 0 0 0 0 0 0 0,
     fpioa_assign.make 241 15 1 0 0 0 0 0 0 0 0 0 0 0 0 0 0 0,
     fpioa_assign.make 242 15 1 0 0 0 0 0 0 0 0 0 0 0 0 0 0 0,
     fpioa_assign.make 243 15 1 0 0 0 0 0 0 0 0 0 0 0 0 0 0 0,
     fpioa_assign.make 244 15 1 0 0 0 0 0 0 0 0 0 0 0 0 0 0 0,
     fpioa_assign.make 245 15 1 0 0 0 0 0 0 0 0 0 0 0 0 0 0 0,
     fpioa_assign.make 246 15 1 0 0 0 0 0 0 0 0 0 0 0 0 0 0 0,
     fpioa_assign.make 247 15 1 0 0 0 0 0 0 0 0 0 0 0 0 0 0 0]"

definition function_config_31 :: "fpioa_assign list" where
  "function_config_31 =
    [fpioa_assign.make 248 15 1 0 0 0 0 0 0 0 0 0 0 0 0 0 0 0,
     fpioa_assign.make 249 15 1 0 0 0 0 0 0 0 0 0 0 0 0 0 0 0,
     fpioa_assign.make 250 15 1 0 0 0 0 0 0 0 0 0 0 0 0 0 0 0,
     fpioa_assign.make 251 15 1 0 0 0 0 0 0 0 0 0 0 0 0 0 0 0,
     fpioa_assign.make 252 15 1 0 0 0 0 0 0 0 0 0 0 0 0 0 0 0,
     fpioa_assign.make 253 15 1 0 0 0 0 0 0 0 0 0 0 0 0 0 0 0,
     fpioa_assign.make 254 15 1 0 0 0 0 0 0 0 0 0 0 0 0 0 0 0,
     fpioa_assign.make 255 15 1 0 0 0 0 0 0 0 0 0 0 0 0 0 0 0]"

definition function_config :: "fpioa_assign list" where
  "function_config = concat
    [function_config_0, function_config_1, function_config_2, function_config_3, function_config_4, function_config_5,
     function_config_6, function_config_7, function_config_8, function_config_9, function_config_10, function_config_11,
     function_config_12, function_config_13, function_config_14, function_config_15, function_config_16, function_config_17,
     function_config_18, function_config_19, function_config_20, function_config_21, function_config_22, function_config_23,
     function_config_24, function_config_25, function_config_26, function_config_27, function_config_28, function_config_29,
     function_config_30, function_config_31]"

lemmas function_config_pieces =
  function_config_0_def function_config_1_def function_config_2_def function_config_3_def function_config_4_def
  function_config_5_def function_config_6_def function_config_7_def function_config_8_def function_config_9_def
  function_config_10_def function_config_11_def function_config_12_def function_config_13_def function_config_14_def
  function_config_15_def function_config_16_def function_config_17_def function_config_18_def function_config_19_def
  function_config_20_def function_config_21_def function_config_22_def function_config_23_def function_config_24_def
  function_config_25_def function_config_26_def function_config_27_def function_config_28_def function_config_29_def
  function_config_30_def function_config_31_def

text \<open>Entry \<open>f\<close> of the table selects channel \<open>f\<close>.\<close>

lemma function_config_channels: "map ch_sel function_config = map of_nat [0..<256]"
  by (simp add: function_config_def function_config_pieces fpioa_assign.make_def upt_rec)

lemma length_function_config [simp]: "length function_config = 256"
proof -
  have "length (map ch_sel function_config) = 256" by (simp only: function_config_channels) simp
  then show ?thesis by simp
qed

lemma function_config_channel: "f < 256 \<Longrightarrow> ch_sel (function_config ! f) = of_nat f"
proof -
  assume f: "f < 256"
  have "ch_sel (function_config ! f) = map ch_sel function_config ! f" using f by simp
  also have "\<dots> = of_nat f" using f by (simp only: function_config_channels) simp
  finally show "ch_sel (function_config ! f) = of_nat f" .
qed

end
