(* ===== verification/Pins.thy ===== *)
theory Pins imports FpioaTable begin

text \<open>
  The pins of the K210 at work: the bit routines of kernel/utils.c, the assignment of functions to pins (kernel/fpioa.c) and the general purpose pins
  (kernel/gpiohs.c). A pin is set up in two steps: a function is assigned to it, which takes the function from the pin that had it, and a general purpose pin
  then gets its direction and level.
\<close>

section \<open>Bits (kernel/utils.c)\<close>

text \<open>The routines get the address of a register; here they get what it holds and give what is stored there.\<close>

definition set_bit :: "u32 \<Rightarrow> u32 \<Rightarrow> u32 \<Rightarrow> u32" where
  "set_bit m value bits = (let org = bits AND NOT m in org OR (value AND m))"

text \<open>A shift of a 32-bit number on this machine uses the low five bits of the distance (in C a distance of 32 or more has no meaning).\<close>

definition shl32 :: "u32 \<Rightarrow> u64 \<Rightarrow> u32" where
  "shl32 x n = push_bit (unat (n mod 32)) x"

definition shr32 :: "u32 \<Rightarrow> u64 \<Rightarrow> u32" where
  "shr32 x n = drop_bit (unat (n mod 32)) x"

definition set_bit_offset :: "u32 \<Rightarrow> u64 \<Rightarrow> u32 \<Rightarrow> u32 \<Rightarrow> u32" where
  "set_bit_offset m offset value = set_bit (shl32 m offset) (shl32 value offset)"

definition set_gpio_bit :: "u64 \<Rightarrow> u32 \<Rightarrow> u32 \<Rightarrow> u32" where
  "set_gpio_bit = set_bit_offset 1"

definition get_bit :: "u32 \<Rightarrow> u64 \<Rightarrow> u32 \<Rightarrow> u32" where
  "get_bit m offset bits = shr32 (bits AND shl32 m offset) offset"

definition get_gpio_bit :: "u64 \<Rightarrow> u32 \<Rightarrow> u32" where
  "get_gpio_bit = get_bit 1"

section \<open>State\<close>

text \<open>The registers of the pins, and of the general purpose ones those that the kernel uses.\<close>

record pins =
  fpioa :: "nat \<Rightarrow> fpioa_io_config"
  input_en :: u32
  output_en :: u32
  output_val :: u32

section \<open>Functions of pins (kernel/fpioa.c)\<close>

definition FPIOA_NUM_IO :: nat where "FPIOA_NUM_IO = 48"
definition FUNC_MAX :: u32 where "FUNC_MAX = 256"
definition FUNC_SPI0_D0 :: u32 where "FUNC_SPI0_D0 = 4"
definition FUNC_SPI0_D1 :: u32 where "FUNC_SPI0_D1 = 5"
definition FUNC_SPI0_SS3 :: u32 where "FUNC_SPI0_SS3 = 15"
definition FUNC_SPI0_SCLK :: u32 where "FUNC_SPI0_SCLK = 17"
definition FUNC_GPIOHS0 :: u32 where "FUNC_GPIOHS0 = 24"
definition FUNC_GPIOHS7 :: u32 where "FUNC_GPIOHS7 = 31"
definition FUNC_RESV0 :: u32 where "FUNC_RESV0 = 120"

datatype fpioa_pull = FPIOA_PULL_NONE | FPIOA_PULL_DOWN | FPIOA_PULL_UP | FPIOA_PULL_MAX

definition fpioa_set_io_pull :: "int \<Rightarrow> fpioa_pull \<Rightarrow> 'a pins_scheme \<Rightarrow> int \<times> 'a pins_scheme" where
  "fpioa_set_io_pull number pull s =
    (if number < 0 \<or> number \<ge> int FPIOA_NUM_IO \<or> pull = FPIOA_PULL_MAX then (- 1, s)
     else
       let cfg = fpioa s (nat number);
           cfg = (case pull of
                    FPIOA_PULL_NONE \<Rightarrow> cfg\<lparr>pu := 0, pd := 0\<rparr>
                  | FPIOA_PULL_DOWN \<Rightarrow> cfg\<lparr>pu := 0, pd := 1\<rparr>
                  | FPIOA_PULL_UP \<Rightarrow> cfg\<lparr>pu := 1, pd := 0\<rparr>
                  | FPIOA_PULL_MAX \<Rightarrow> cfg)
       in (0, s\<lparr>fpioa := (fpioa s)(nat number := cfg)\<rparr>))"

text \<open>The register of a pin with function \<open>f\<close>: the compound literal, whose other fields are 0.\<close>

definition io_config :: "u32 \<Rightarrow> fpioa_io_config" where
  "io_config f =
    (let a = function_config ! unat f in
     \<lparr>ch_sel = ch_sel a, ds = ds a, oe_en = oe_en a, oe_inv = oe_inv a, do_sel = do_sel a, do_inv = do_inv a, pu = pu a, pd = pd a, resv0 = 0,
      sl = sl a, ie_en = ie_en a, ie_inv = ie_inv a, di_inv = di_inv a, st = st a, resv1 = 0, pad_di = 0\<rparr>)"

definition fpioa_set_function_raw :: "int \<Rightarrow> u32 \<Rightarrow> 'a pins_scheme \<Rightarrow> int \<times> 'a pins_scheme" where
  "fpioa_set_function_raw number f s =
    (if number < 0 \<or> number \<ge> int FPIOA_NUM_IO \<or> f \<ge> FUNC_MAX then (- 1, s)
     else (0, s\<lparr>fpioa := (fpioa s)(nat number := io_config f)\<rparr>))"

text \<open>One turn of the loop that compares all pins.\<close>

definition evict :: "int \<Rightarrow> u32 \<Rightarrow> nat \<Rightarrow> 'a pins_scheme \<Rightarrow> 'a pins_scheme" where
  "evict number f index s =
    (if ucast (ch_sel (fpioa s index)) = f \<and> int index \<noteq> number then snd (fpioa_set_function_raw (int index) FUNC_RESV0 s) else s)"

definition fpioa_set_function :: "int \<Rightarrow> u32 \<Rightarrow> 'a pins_scheme \<Rightarrow> int \<times> 'a pins_scheme" where
  "fpioa_set_function number f s =
    (if number < 0 \<or> number \<ge> int FPIOA_NUM_IO \<or> f \<ge> FUNC_MAX then (- 1, s)
     else if f = FUNC_RESV0 then (0, snd (fpioa_set_function_raw number FUNC_RESV0 s))
     else (0, snd (fpioa_set_function_raw number f (fold (evict number f) [0..<FPIOA_NUM_IO] s))))"

definition fpioa_get_io_by_function :: "u32 \<Rightarrow> 'a pins_scheme \<Rightarrow> int" where
  "fpioa_get_io_by_function f s =
    (case find (\<lambda>index. ucast (ch_sel (fpioa s index)) = f) [0..<FPIOA_NUM_IO] of None \<Rightarrow> - 1 | Some i \<Rightarrow> int i)"

definition fpioa_pin_init :: "'a pins_scheme \<Rightarrow> 'a pins_scheme" where
  "fpioa_pin_init s =
    (let s = snd (fpioa_set_function 27 FUNC_SPI0_SCLK s);
         s = snd (fpioa_set_function 28 FUNC_SPI0_D0 s);
         s = snd (fpioa_set_function 26 FUNC_SPI0_D1 s);
         s = snd (fpioa_set_function 32 FUNC_GPIOHS7 s)
     in snd (fpioa_set_function 29 FUNC_SPI0_SS3 s))"

section \<open>General purpose pins (kernel/gpiohs.c)\<close>

datatype gpio_drive_mode = GPIO_DM_INPUT | GPIO_DM_INPUT_PULL_DOWN | GPIO_DM_INPUT_PULL_UP | GPIO_DM_OUTPUT

text \<open>The first \<open>switch\<close>: the pull of a mode, and whether it drives the pin.\<close>

fun mode_pull :: "gpio_drive_mode \<Rightarrow> fpioa_pull \<times> bool" where
  "mode_pull GPIO_DM_INPUT = (FPIOA_PULL_NONE, False)"
| "mode_pull GPIO_DM_INPUT_PULL_DOWN = (FPIOA_PULL_DOWN, False)"
| "mode_pull GPIO_DM_INPUT_PULL_UP = (FPIOA_PULL_UP, False)"
| "mode_pull GPIO_DM_OUTPUT = (FPIOA_PULL_DOWN, True)"

definition gpiohs_set_drive_mode :: "u8 \<Rightarrow> gpio_drive_mode \<Rightarrow> 'a pins_scheme \<Rightarrow> 'a pins_scheme" where
  "gpiohs_set_drive_mode pin mode s =
    (let io_number = fpioa_get_io_by_function (FUNC_GPIOHS0 + ucast pin) s;
         (pull, dir) = mode_pull mode;
         s = snd (fpioa_set_io_pull io_number pull s)
     in if dir
        then let s = s\<lparr>input_en := set_gpio_bit (ucast pin) 0 (input_en s)\<rparr> in s\<lparr>output_en := set_gpio_bit (ucast pin) 1 (output_en s)\<rparr>
        else let s = s\<lparr>output_en := set_gpio_bit (ucast pin) 0 (output_en s)\<rparr> in s\<lparr>input_en := set_gpio_bit (ucast pin) 1 (input_en s)\<rparr>)"

definition gpiohs_set_pin :: "u8 \<Rightarrow> u32 \<Rightarrow> 'a pins_scheme \<Rightarrow> 'a pins_scheme" where
  "gpiohs_set_pin pin val s = s\<lparr>output_val := set_gpio_bit (ucast pin) val (output_val s)\<rparr>"

section \<open>Bits\<close>

lemma bit_shl32: "n < 32 \<Longrightarrow> bit (shl32 v n) i \<longleftrightarrow> i < 32 \<and> unat n \<le> i \<and> bit v (i - unat n)"
proof -
  assume "n < 32"
  then have "n mod 32 = n" by (intro unat_inj) (simp add: unat_mod word_less_nat_alt)
  then show "bit (shl32 v n) i \<longleftrightarrow> i < 32 \<and> unat n \<le> i \<and> bit v (i - unat n)" by (auto simp: shl32_def bit_simps)
qed

text \<open>\<open>set_gpio_bit\<close> sets one bit to the lowest bit of the value.\<close>

lemma bit_set_gpio: "n < 32 \<Longrightarrow> bit (set_gpio_bit n v w) i \<longleftrightarrow> (if i = unat n then bit v 0 else bit w i)"
  by (auto simp: set_gpio_bit_def set_bit_offset_def set_bit_def bit_shl32 bit_simps word_less_nat_alt dest: bit_imp_le_length)

section \<open>The functions of the pins\<close>

text \<open>The channel that a pin is connected to.\<close>

definition pin_function :: "nat \<Rightarrow> 'a pins_scheme \<Rightarrow> u32" where
  "pin_function i s = ucast (ch_sel (fpioa s i))"

lemma io_config_channel: "f < FUNC_MAX \<Longrightarrow> ucast (ch_sel (io_config f)) = f"
proof -
  assume "f < FUNC_MAX"
  then have f: "unat f < 256" by (simp add: FUNC_MAX_def word_less_nat_alt)
  have "unat (ucast (of_nat (unat f) :: u8) :: u32) = unat (of_nat (unat f) :: u8)" by (rule unat_ucast_up) simp
  also have "\<dots> = unat f" by (rule unat_of_nat_small) (use f in simp)
  finally have "unat (ucast (of_nat (unat f) :: u8) :: u32) = unat f" .
  then have "ucast (of_nat (unat f) :: u8) = f" by (rule unat_inj)
  then show "ucast (ch_sel (io_config f)) = f" using f by (simp add: io_config_def Let_def function_config_channel)
qed

lemma evict_eq:
  "i < FPIOA_NUM_IO \<Longrightarrow>
    evict number f i s = s\<lparr>fpioa := (fpioa s)(i := if pin_function i s = f \<and> int i \<noteq> number then io_config FUNC_RESV0 else fpioa s i)\<rparr>"
  by (simp add: evict_def fpioa_set_function_raw_def pin_function_def FUNC_RESV0_def FUNC_MAX_def)

lemma evict_fold:
  "distinct is \<Longrightarrow> set is \<subseteq> {..<FPIOA_NUM_IO} \<Longrightarrow>
    fold (evict number f) is s =
      s\<lparr>fpioa := (\<lambda>i. if i \<in> set is \<and> pin_function i s = f \<and> int i \<noteq> number then io_config FUNC_RESV0 else fpioa s i)\<rparr>"
proof (induction "is" arbitrary: s)
  case (Cons k ks)
  let ?s = "evict number f k s"
  have k: "k < FPIOA_NUM_IO" "k \<notin> set ks" using Cons.prems by auto
  have "fold (evict number f) (k # ks) s =
      ?s\<lparr>fpioa := (\<lambda>i. if i \<in> set ks \<and> pin_function i ?s = f \<and> int i \<noteq> number then io_config FUNC_RESV0 else fpioa ?s i)\<rparr>"
    using Cons by simp
  also have "\<dots> = s\<lparr>fpioa := (\<lambda>i. if i \<in> set (k # ks) \<and> pin_function i s = f \<and> int i \<noteq> number then io_config FUNC_RESV0 else fpioa s i)\<rparr>"
    using k by (auto simp: evict_eq pin_function_def fun_eq_iff intro!: pins.fold_congs)
  finally show ?case .
qed simp

text \<open>What assigning a function does: the pin gets it, and no other pin keeps it.\<close>

lemma set_function_eq:
  assumes "n < FPIOA_NUM_IO" and "f < FUNC_MAX"
  shows "fpioa_set_function (int n) f s =
    (0, s\<lparr>fpioa := (\<lambda>i. if i = n then io_config f
       else if i < FPIOA_NUM_IO \<and> f \<noteq> FUNC_RESV0 \<and> pin_function i s = f then io_config FUNC_RESV0 else fpioa s i)\<rparr>)"
proof -
  have "fold (evict (int n) f) [0..<FPIOA_NUM_IO] s =
      s\<lparr>fpioa := (\<lambda>i. if i < FPIOA_NUM_IO \<and> pin_function i s = f \<and> i \<noteq> n then io_config FUNC_RESV0 else fpioa s i)\<rparr>"
    by (subst evict_fold) (auto intro!: pins.fold_congs)
  then show ?thesis using assms
    by (auto simp: fpioa_set_function_def fpioa_set_function_raw_def fun_eq_iff not_le intro!: pins.fold_congs)
qed

lemma get_io_unique:
  assumes "n < FPIOA_NUM_IO" and "pin_function n s = f" and "\<And>i. i < FPIOA_NUM_IO \<Longrightarrow> pin_function i s = f \<Longrightarrow> i = n"
  shows "fpioa_get_io_by_function f s = int n"
proof (cases "find (\<lambda>i. pin_function i s = f) [0..<FPIOA_NUM_IO]")
  case None
  then have False using assms(1,2) by (auto simp: find_None_iff)
  then show ?thesis ..
next
  case (Some i)
  then have "i < FPIOA_NUM_IO" "pin_function i s = f" by (auto simp: find_Some_iff)
  then have "i = n" by (rule assms(3))
  with Some show ?thesis by (simp add: fpioa_get_io_by_function_def pin_function_def)
qed

text \<open>No function but the reserved one is assigned twice.\<close>

definition functions_apart :: "'a pins_scheme \<Rightarrow> bool" where
  "functions_apart s \<longleftrightarrow>
    (\<forall>i<FPIOA_NUM_IO. \<forall>j<FPIOA_NUM_IO. pin_function i s = pin_function j s \<longrightarrow> pin_function i s = FUNC_RESV0 \<or> i = j)"

text \<open>C35: Assigning a function to a pin gives the function to that pin and takes it from every other pin, so that the search for it finds the pin; all
  other pins stay as they are, and no function is on two pins. A number that is no pin or no function changes nothing.\<close>

theorem fpioa_assigns:
  "if n < FPIOA_NUM_IO \<and> f < FUNC_MAX
   then \<exists>t. fpioa_set_function (int n) f s = (0, t)
     \<and> pin_function n t = f
     \<and> (f = FUNC_RESV0 \<or> fpioa_get_io_by_function f t = int n)
     \<and> (\<forall>i. i = n \<or> fpioa t i = (if i < FPIOA_NUM_IO \<and> f \<noteq> FUNC_RESV0 \<and> pin_function i s = f then io_config FUNC_RESV0 else fpioa s i))
     \<and> (functions_apart s \<longrightarrow> functions_apart t)
     \<and> t\<lparr>fpioa := fpioa s\<rparr> = s
   else fpioa_set_function (int n) f s = (- 1, s)"
proof (cases "n < FPIOA_NUM_IO \<and> f < FUNC_MAX")
  case True
  define t where "t = s\<lparr>fpioa := (\<lambda>i. if i = n then io_config f
       else if i < FPIOA_NUM_IO \<and> f \<noteq> FUNC_RESV0 \<and> pin_function i s = f then io_config FUNC_RESV0 else fpioa s i)\<rparr>"
  have set: "fpioa_set_function (int n) f s = (0, t)" using True by (simp add: set_function_eq t_def)
  have r: "FUNC_RESV0 < FUNC_MAX" by (simp add: FUNC_RESV0_def FUNC_MAX_def)
  have pin: "pin_function i t = (if i = n then f else if i < FPIOA_NUM_IO \<and> f \<noteq> FUNC_RESV0 \<and> pin_function i s = f then FUNC_RESV0 else pin_function i s)" for i
    using True r by (simp add: pin_function_def t_def io_config_channel)
  have get: "f = FUNC_RESV0 \<or> fpioa_get_io_by_function f t = int n"
    using True by (auto simp: pin intro!: get_io_unique split: if_splits)
  have "functions_apart s \<Longrightarrow> functions_apart t"
    unfolding functions_apart_def pin by auto
  moreover have "pin_function n t = f" by (simp add: pin)
  moreover have "\<forall>i. i = n \<or> fpioa t i = (if i < FPIOA_NUM_IO \<and> f \<noteq> FUNC_RESV0 \<and> pin_function i s = f then io_config FUNC_RESV0 else fpioa s i)"
    by (simp add: t_def)
  moreover have "t\<lparr>fpioa := fpioa s\<rparr> = s" by (simp add: t_def)
  ultimately show ?thesis unfolding if_P [OF True] using set get by blast
next
  case False
  then show ?thesis by (auto simp: fpioa_set_function_def)
qed

lemma fpioa_assigns_witness:
  "\<exists>t. fpioa_set_function 5 FUNC_GPIOHS7 \<lparr>fpioa = (\<lambda>i. io_config FUNC_RESV0), input_en = 0, output_en = 0, output_val = 0\<rparr> = (0, t) \<and> functions_apart t
    \<and> fpioa_get_io_by_function FUNC_GPIOHS7 t = 5"
proof -
  let ?s = "\<lparr>fpioa = (\<lambda>i. io_config FUNC_RESV0), input_en = 0, output_en = 0, output_val = 0\<rparr>"
  have "functions_apart ?s"
    by (simp add: functions_apart_def pin_function_def io_config_channel FUNC_RESV0_def FUNC_MAX_def)
  then show ?thesis
    using fpioa_assigns [of 5 FUNC_GPIOHS7 ?s] by (auto simp: FPIOA_NUM_IO_def FUNC_GPIOHS7_def FUNC_MAX_def FUNC_RESV0_def)
qed

section \<open>The pins of the memory card\<close>

text \<open>Pin \<open>n\<close>, and no other, has function \<open>f\<close>.\<close>

definition only_pin :: "nat \<Rightarrow> u32 \<Rightarrow> 'a pins_scheme \<Rightarrow> bool" where
  "only_pin n f s \<longleftrightarrow>
    n < FPIOA_NUM_IO \<and> f < FUNC_MAX \<and> f \<noteq> FUNC_RESV0 \<and> pin_function n s = f \<and> (\<forall>i<FPIOA_NUM_IO. pin_function i s = f \<longrightarrow> i = n)"

lemma only_pin_get: "only_pin n f s \<Longrightarrow> fpioa_get_io_by_function f s = int n"
  by (auto simp: only_pin_def intro: get_io_unique)

lemma pin_function_set:
  assumes "n < FPIOA_NUM_IO" and "f < FUNC_MAX"
  shows "pin_function i (snd (fpioa_set_function (int n) f s)) =
    (if i = n then f else if i < FPIOA_NUM_IO \<and> f \<noteq> FUNC_RESV0 \<and> pin_function i s = f then FUNC_RESV0 else pin_function i s)"
  using assms by (simp add: set_function_eq pin_function_def io_config_channel) (simp add: FUNC_RESV0_def FUNC_MAX_def io_config_channel)

lemma only_pin_set:
  "0 \<le> k \<Longrightarrow> k < int FPIOA_NUM_IO \<Longrightarrow> n = nat k \<Longrightarrow> f < FUNC_MAX \<Longrightarrow> f \<noteq> FUNC_RESV0 \<Longrightarrow> only_pin n f (snd (fpioa_set_function k f s))"
proof -
  assume "0 \<le> k" "k < int FPIOA_NUM_IO" "n = nat k" "f < FUNC_MAX" "f \<noteq> FUNC_RESV0"
  moreover from this have "nat k < FPIOA_NUM_IO" "int (nat k) = k" by auto
  ultimately show "only_pin n f (snd (fpioa_set_function k f s))"
    using pin_function_set [of "nat k" f _ s] unfolding only_pin_def by (metis (full_types))
qed

lemma only_pin_keep:
  assumes "only_pin n f s" and "0 \<le> k" "k < int FPIOA_NUM_IO" "g < FUNC_MAX" "k \<noteq> int n" "g \<noteq> f"
  shows "only_pin n f (snd (fpioa_set_function k g s))"
proof -
  have "nat k < FPIOA_NUM_IO" "int (nat k) = k" "nat k \<noteq> n" using assms by auto
  then show ?thesis
    using assms(1,4,6) pin_function_set [of "nat k" g _ s] unfolding only_pin_def by (metis (full_types))
qed

lemmas func_defs = FUNC_SPI0_SCLK_def FUNC_SPI0_D0_def FUNC_SPI0_D1_def FUNC_GPIOHS7_def FUNC_SPI0_SS3_def FUNC_GPIOHS0_def FUNC_RESV0_def FUNC_MAX_def
  FPIOA_NUM_IO_def

lemma pin_init_only:
  "only_pin 27 FUNC_SPI0_SCLK (fpioa_pin_init s)" "only_pin 28 FUNC_SPI0_D0 (fpioa_pin_init s)" "only_pin 26 FUNC_SPI0_D1 (fpioa_pin_init s)"
  "only_pin 32 FUNC_GPIOHS7 (fpioa_pin_init s)" "only_pin 29 FUNC_SPI0_SS3 (fpioa_pin_init s)"
  by (simp_all add: fpioa_pin_init_def Let_def func_defs only_pin_set only_pin_keep)

text \<open>What the boot and the card driver do with the pins, up to a level of the chip select.\<close>

definition card_ready :: "u32 \<Rightarrow> 'a pins_scheme \<Rightarrow> 'a pins_scheme" where
  "card_ready v s = gpiohs_set_pin 7 v (gpiohs_set_drive_mode 7 GPIO_DM_OUTPUT (fpioa_pin_init s))"

text \<open>The pins of the memory card, whatever they were before: after \<open>fpioa_pin_init\<close> and \<open>sd_lowlevel_init\<close> each of the five functions of the card
  is on its pin, the chip select is an output with a pull down, and driving it sets exactly its bit.\<close>

theorem card_pins:
  "map (\<lambda>f. fpioa_get_io_by_function f (card_ready v s)) [FUNC_SPI0_SCLK, FUNC_SPI0_D0, FUNC_SPI0_D1, FUNC_GPIOHS7, FUNC_SPI0_SS3] = [27, 28, 26, 32, 29]
   \<and> fpioa (card_ready v s) 32 = (fpioa (fpioa_pin_init s) 32)\<lparr>pu := 0, pd := 1\<rparr>
   \<and> (\<forall>i. bit (output_en (card_ready v s)) i = (i = 7 \<or> bit (output_en s) i))
   \<and> (\<forall>i. bit (input_en (card_ready v s)) i = (i \<noteq> 7 \<and> bit (input_en s) i))
   \<and> (\<forall>i. bit (output_val (card_ready v s)) i = (if i = 7 then bit v 0 else bit (output_val s) i))"
proof -
  let ?t = "fpioa_pin_init s"
  have pin: "fpioa (card_ready v s) = (fpioa ?t)(32 := (fpioa ?t 32)\<lparr>pu := 0, pd := 1\<rparr>)"
    using only_pin_get [OF pin_init_only(4), of s]
    by (simp add: card_ready_def gpiohs_set_drive_mode_def gpiohs_set_pin_def fpioa_set_io_pull_def Let_def func_defs)
  then have "pin_function i (card_ready v s) = pin_function i ?t" for i
    by (simp add: pin_function_def)
  then have only: "only_pin n f (card_ready v s) \<longleftrightarrow> only_pin n f ?t" for n f by (simp add: only_pin_def)
  have raw: "input_en (snd (fpioa_set_function k f s)) = input_en s" "output_en (snd (fpioa_set_function k f s)) = output_en s"
    "output_val (snd (fpioa_set_function k f s)) = output_val s" if "0 \<le> k" "k < int FPIOA_NUM_IO" "f < FUNC_MAX" for k f and s :: "'a pins_scheme"
    using that set_function_eq [of "nat k" f s] by auto
  have regs: "input_en ?t = input_en s" "output_en ?t = output_en s" "output_val ?t = output_val s"
    by (simp_all add: fpioa_pin_init_def Let_def raw func_defs)
  have ends: "output_en (card_ready v s) = set_gpio_bit 7 1 (output_en s)" "input_en (card_ready v s) = set_gpio_bit 7 0 (input_en s)"
    "output_val (card_ready v s) = set_gpio_bit 7 v (output_val s)"
    by (simp_all add: card_ready_def gpiohs_set_drive_mode_def gpiohs_set_pin_def fpioa_set_io_pull_def Let_def regs)
  have "fpioa_get_io_by_function FUNC_SPI0_SCLK (card_ready v s) = 27" "fpioa_get_io_by_function FUNC_SPI0_D0 (card_ready v s) = 28"
    "fpioa_get_io_by_function FUNC_SPI0_D1 (card_ready v s) = 26" "fpioa_get_io_by_function FUNC_GPIOHS7 (card_ready v s) = 32"
    "fpioa_get_io_by_function FUNC_SPI0_SS3 (card_ready v s) = 29"
    using only_pin_get [of 27 FUNC_SPI0_SCLK "card_ready v s"] only_pin_get [of 28 FUNC_SPI0_D0 "card_ready v s"]
      only_pin_get [of 26 FUNC_SPI0_D1 "card_ready v s"] only_pin_get [of 32 FUNC_GPIOHS7 "card_ready v s"]
      only_pin_get [of 29 FUNC_SPI0_SS3 "card_ready v s"] pin_init_only [of s]
    by (simp_all add: only)
  then show ?thesis by (simp add: pin ends bit_set_gpio)
qed

end
