(* ===== verification/Sdcard.thy ===== *)
theory Sdcard imports Bio Pins begin

text \<open>
  kernel/sdcard.c: the driver of the memory card of the K210 board, which speaks the protocol of such cards over a serial bus. The card is a parameter:
  what it answers may depend on all that has happened on the bus.
\<close>

section \<open>The bus\<close>

text \<open>
  What happens on the bus: the chip select pin of the card goes high or low, a byte goes out, or a byte comes in. These are what \<open>gpiohs_set_pin\<close> and the
  transfers of kernel/spi.c do; the transfers by direct memory access move the same bytes.
\<close>

datatype bus = Cs bool | Out u8 | In u8

type_synonym sdcard = "bus list \<Rightarrow> u8"

text \<open>
  \<open>bus_log\<close> is the history of the bus, oldest first, \<open>card\<close> the card: the next byte that it sends. \<open>said\<close> are the calls of \<open>printf\<close> with their
  arguments, \<open>board\<close> the registers of the pins.
\<close>

record sd_st = bio_st +
  card :: sdcard
  bus_log :: "bus list"
  is_standard_sd :: bool
  said :: "(string \<times> u64 list) list"
  board :: pins

definition on_bus :: "bus list \<Rightarrow> 'a sd_st_scheme \<Rightarrow> 'a sd_st_scheme" where
  "on_bus es s = s\<lparr>bus_log := bus_log s @ es\<rparr>"

definition say :: "string \<Rightarrow> u64 list \<Rightarrow> 'a sd_st_scheme \<Rightarrow> 'a sd_st_scheme" where
  "say fmt args s = s\<lparr>said := said s @ [(fmt, args)]\<rparr>"

text \<open>The chip select pin is made an output; the argument is not used.\<close>

definition sd_lowlevel_init :: "u8 \<Rightarrow> 'a sd_st_scheme \<Rightarrow> 'a sd_st_scheme" where
  "sd_lowlevel_init spi_index s = s\<lparr>board := gpiohs_set_drive_mode 7 GPIO_DM_OUTPUT (board s)\<rparr>"

definition SD_CS_HIGH :: "'a sd_st_scheme \<Rightarrow> 'a sd_st_scheme" where
  "SD_CS_HIGH = on_bus [Cs True]"

definition SD_CS_LOW :: "'a sd_st_scheme \<Rightarrow> 'a sd_st_scheme" where
  "SD_CS_LOW = on_bus [Cs False]"

definition sd_write_data :: "u8 list \<Rightarrow> 'a sd_st_scheme \<Rightarrow> 'a sd_st_scheme" where
  "sd_write_data bs = on_bus (map Out bs)"

primrec sd_read_data :: "nat \<Rightarrow> 'a sd_st_scheme \<Rightarrow> u8 list \<times> 'a sd_st_scheme" where
  "sd_read_data 0 s = ([], s)"
| "sd_read_data (Suc n) s =
    (let x = card s (bus_log s); (xs, s) = sd_read_data n (on_bus [In x] s) in (x # xs, s))"

section \<open>Commands\<close>

definition sd_send_cmd :: "u8 \<Rightarrow> u32 \<Rightarrow> u8 \<Rightarrow> 'a sd_st_scheme \<Rightarrow> 'a sd_st_scheme" where
  "sd_send_cmd cmd arg crc s =
    sd_write_data [cmd OR 0x40, ucast (drop_bit 24 arg), ucast (drop_bit 16 arg), ucast (drop_bit 8 arg), ucast arg, crc] (SD_CS_LOW s)"

definition sd_end_cmd :: "'a sd_st_scheme \<Rightarrow> 'a sd_st_scheme" where
  "sd_end_cmd s = sd_write_data [0xFF] (SD_CS_HIGH s)"

definition SD_CMD0 :: u8 where "SD_CMD0 = 0"
definition SD_CMD8 :: u8 where "SD_CMD8 = 8"
definition SD_CMD58 :: u8 where "SD_CMD58 = 58"
definition SD_CMD55 :: u8 where "SD_CMD55 = 55"
definition SD_ACMD41 :: u8 where "SD_ACMD41 = 41"
definition SD_CMD16 :: u8 where "SD_CMD16 = 16"
definition SD_CMD17 :: u8 where "SD_CMD17 = 17"
definition SD_CMD24 :: u8 where "SD_CMD24 = 24"
definition SD_CMD13 :: u8 where "SD_CMD13 = 13"

text \<open>Read bytes, at most \<open>n\<close> of them, up to the first that satisfies \<open>P\<close>: the byte, or \<open>None\<close> on a timeout.\<close>

primrec sd_await :: "(u8 \<Rightarrow> bool) \<Rightarrow> nat \<Rightarrow> 'a sd_st_scheme \<Rightarrow> u8 option \<times> 'a sd_st_scheme" where
  "sd_await P 0 s = (None, s)"
| "sd_await P (Suc n) s =
    (let (xs, s) = sd_read_data 1 s in if P (hd xs) then (Some (hd xs), s) else sd_await P n s)"

definition sd_get_response_R1 :: "'a sd_st_scheme \<Rightarrow> u8 \<times> 'a sd_st_scheme" where
  "sd_get_response_R1 s = (let (r, s) = sd_await (\<lambda>x. x \<noteq> 0xff) 0xff s in (case r of Some x \<Rightarrow> x | None \<Rightarrow> 0xff, s))"

definition sd_get_response_R3_rest :: "'a sd_st_scheme \<Rightarrow> u8 list \<times> 'a sd_st_scheme" where
  "sd_get_response_R3_rest = sd_read_data 4"

definition sd_get_response_R7_rest :: "'a sd_st_scheme \<Rightarrow> u8 list \<times> 'a sd_st_scheme" where
  "sd_get_response_R7_rest = sd_read_data 4"

text \<open>A command whose answer is one byte.\<close>

definition sd_command :: "u8 \<Rightarrow> u32 \<Rightarrow> u8 \<Rightarrow> 'a sd_st_scheme \<Rightarrow> u8 \<times> 'a sd_st_scheme" where
  "sd_command cmd arg crc s = (let (r, s) = sd_get_response_R1 (sd_send_cmd cmd arg crc s) in (r, sd_end_cmd s))"

text \<open>A command whose answer has four more bytes.\<close>

definition sd_command4 :: "u8 \<Rightarrow> u32 \<Rightarrow> u8 \<Rightarrow> 'a sd_st_scheme \<Rightarrow> (u8 \<times> u8 list) \<times> 'a sd_st_scheme" where
  "sd_command4 cmd arg crc s =
    (let (r, s) = sd_get_response_R1 (sd_send_cmd cmd arg crc s); (frame, s) = sd_get_response_R3_rest s in ((r, frame), sd_end_cmd s))"

section \<open>Initialisation\<close>

text \<open>The routines return 0 or 0xff. A loop \<open>while (--timeout)\<close> has one turn less than its bound says.\<close>

primrec switch_loop :: "nat \<Rightarrow> 'a sd_st_scheme \<Rightarrow> bool \<times> 'a sd_st_scheme" where
  "switch_loop 0 s = (False, s)"
| "switch_loop (Suc n) s = (let (r, s) = sd_command SD_CMD0 0 0x95 s in if r = 0x01 then (True, s) else switch_loop n s)"

definition switch_to_SPI_mode :: "'a sd_st_scheme \<Rightarrow> u8 \<times> 'a sd_st_scheme" where
  "switch_to_SPI_mode s =
    (let (ok, s) = switch_loop (0xff - 1) s in if ok then (0, s) else (0xff, say ''SD_CMD0 failed'' [] s))"

definition verify_operation_condition :: "'a sd_st_scheme \<Rightarrow> u8 \<times> 'a sd_st_scheme" where
  "verify_operation_condition s =
    (let ((r, frame), s) = sd_command4 SD_CMD8 0x01aa 0x87 s
     in if r = 0x09 then (0xff, say ''invalid CRC for CMD8'' [] s)
        else if r = 0x01 \<and> frame ! 2 AND 0x0f = 0x01 \<and> frame ! 3 = 0xaa then (0, s)
        else (0xff, say ''verify_operation_condition() fail!'' [] s))"

primrec read_OCR_loop :: "nat \<Rightarrow> u8 \<Rightarrow> 'a sd_st_scheme \<Rightarrow> u8 \<times> 'a sd_st_scheme" where
  "read_OCR_loop 0 res s = (0xff, say ''result = %d'' [ucast res] (say ''read_OCR() timeout!'' [] s))"
| "read_OCR_loop (Suc n) res s =
    (let ((r, ocr), s) = sd_command4 SD_CMD58 0 0 s
     in if r = 0x01 \<and> ocr ! 1 AND 0x1f \<noteq> 0 \<and> ocr ! 2 AND 0x80 \<noteq> 0 then (0, s) else read_OCR_loop n r s)"

definition read_OCR :: "'a sd_st_scheme \<Rightarrow> u8 \<times> 'a sd_st_scheme" where
  "read_OCR s = read_OCR_loop (0xff - 1) 0 s"

primrec SDXC_loop :: "nat \<Rightarrow> u8 \<Rightarrow> 'a sd_st_scheme \<Rightarrow> u8 \<times> 'a sd_st_scheme" where
  "SDXC_loop 0 res s = (0xff, say ''result = %d'' [ucast res] (say ''set_SDXC_capacity() timeout!'' [] s))"
| "SDXC_loop (Suc n) res s =
    (let (r, s) = sd_command SD_CMD55 0 0 s
     in if r \<noteq> 0x01 then (0xff, say ''SD_CMD55 fail! result = %d'' [ucast r] s)
        else let (r, s) = sd_command SD_ACMD41 0x40000000 0 s in if r = 0 then (0, s) else SDXC_loop n r s)"

definition set_SDXC_capacity :: "'a sd_st_scheme \<Rightarrow> u8 \<times> 'a sd_st_scheme" where
  "set_SDXC_capacity s = SDXC_loop (0xfff - 1) 0xff s"

primrec block_size_loop :: "nat \<Rightarrow> 'a sd_st_scheme \<Rightarrow> bool \<times> 'a sd_st_scheme" where
  "block_size_loop 0 s = (False, s)"
| "block_size_loop (Suc n) s = (let (r, s) = sd_command SD_CMD16 (of_nat BSIZE) 0 s in if r = 0 then (True, s) else block_size_loop n s)"

primrec check_loop :: "nat \<Rightarrow> u8 \<Rightarrow> 'a sd_st_scheme \<Rightarrow> u8 \<times> 'a sd_st_scheme" where
  "check_loop 0 res s = (0xff, say ''result = %d'' [ucast res] (say ''check_OCR() timeout!'' [] s))"
| "check_loop (Suc n) res s =
    (let ((r, ocr), s) = sd_command4 SD_CMD58 0 0 s
     in if r \<noteq> 0 then check_loop n r s
        else if ocr ! 0 AND 0x40 \<noteq> 0 then
          let s = say ''SDHC/SDXC detected'' [] s
          in if 512 \<noteq> BSIZE then (0xff, say ''BSIZE != 512'' [] s) else (0, s\<lparr>is_standard_sd := False\<rparr>)
        else
          let s = say ''SDSC detected, setting block size'' [] s; (ok, s) = block_size_loop (0xff - 1) s
          in if ok then (0, s\<lparr>is_standard_sd := True\<rparr>) else (0xff, say ''check_OCR(): fail to set block size'' [] s))"

definition check_block_size :: "'a sd_st_scheme \<Rightarrow> u8 \<times> 'a sd_st_scheme" where
  "check_block_size s = check_loop 0xff 0xff s"

text \<open>The steps of \<open>sd_init\<close>, each of which ends it unless it returns 0.\<close>

fun sd_steps :: "('a sd_st_scheme \<Rightarrow> u8 \<times> 'a sd_st_scheme) list \<Rightarrow> 'a sd_st_scheme \<Rightarrow> u8 \<times> 'a sd_st_scheme" where
  "sd_steps [] s = (0, s)"
| "sd_steps (f # fs) s = (let (r, s) = f s in if r \<noteq> 0 then (0xff, s) else sd_steps fs s)"

definition sd_init :: "'a sd_st_scheme \<Rightarrow> u8 \<times> 'a sd_st_scheme" where
  "sd_init s =
    sd_steps [switch_to_SPI_mode, verify_operation_condition, read_OCR, set_SDXC_capacity, check_block_size]
      (sd_write_data (replicate 10 0xff) (SD_CS_LOW (sd_lowlevel_init 0 s)))"

definition sdcard_init :: "'a sd_st_scheme \<Rightarrow> 'a sd_st_scheme kres" where
  "sdcard_init s =
    (let (r, s) = sd_init s; s = initsleeplock CardSL s
     in if r \<noteq> 0 then Inl (Panic ''sdcard_init failed'') else Inr s)"

section \<open>Sectors\<close>

definition sd_address :: "'a sd_st_scheme \<Rightarrow> u32 \<Rightarrow> u32" where
  "sd_address s sec = (if is_standard_sd s then push_bit 9 sec else sec)"

definition sdcard_read_sector :: "u32 \<Rightarrow> 'a sd_st_scheme \<Rightarrow> (u8 list \<times> 'a sd_st_scheme) kres" where
  "sdcard_read_sector sec s =
    (let address = sd_address s sec in
     kbind (acquiresleep CardSL s) (\<lambda>s.
       let (r, s) = sd_get_response_R1 (sd_send_cmd SD_CMD17 address 0 s)
       in if r \<noteq> 0 then kbind (releasesleep CardSL s) (\<lambda>s. Inl (Panic ''sdcard: fail to read''))
          else
            let (token, s) = sd_await (\<lambda>x. x = 0xfe) (0xffffff - 1) s
            in if token = None then Inl (Panic ''sdcard: timeout waiting for reading'')
               else
                 let (bs, s) = sd_read_data BSIZE s;
                     (crc, s) = sd_read_data 2 s
                 in kbind (releasesleep CardSL (sd_end_cmd s)) (\<lambda>s. Inr (bs, s))))"

text \<open>The end of \<open>sdcard_write_sector\<close>: the card is asked for its status.\<close>

definition sd_check_status :: "'a sd_st_scheme \<Rightarrow> 'a sd_st_scheme kres" where
  "sd_check_status s =
    (let (r, s) = sd_get_response_R1 (sd_send_cmd SD_CMD13 0 0 s);
         (e, s) = sd_read_data 1 s;
         s = sd_end_cmd s
     in if r \<noteq> 0 \<or> hd e \<noteq> 0
        then kbind (releasesleep CardSL s) (\<lambda>s. Inl (Panic ''sdcard: an error occurs when writing''))
        else releasesleep CardSL s)"

definition sdcard_write_sector :: "u8 list \<Rightarrow> u32 \<Rightarrow> 'a sd_st_scheme \<Rightarrow> 'a sd_st_scheme kres" where
  "sdcard_write_sector bs sec s =
    (let address = sd_address s sec in
     kbind (acquiresleep CardSL s) (\<lambda>s.
       let (r, s) = sd_get_response_R1 (sd_send_cmd SD_CMD24 address 0 s)
       in if r \<noteq> 0 then kbind (releasesleep CardSL s) (\<lambda>s. Inl (Panic ''sdcard: fail to write''))
          else
            let s = sd_write_data [0xfe] s;
                s = sd_write_data (take BSIZE bs) s;
                s = sd_write_data [0xff, 0xff] s;
                (token, s) = sd_await (\<lambda>x. x AND 0x1f = 0x05) (0xfff - 1) s
            in if token = None
               then kbind (releasesleep CardSL s) (\<lambda>s. Inl (Panic ''sdcard: invalid response token''))
               else
                 let (done, s) = sd_await (\<lambda>x. x \<noteq> 0) (0xffffff - 1) s
                 in if done = None
                    then kbind (releasesleep CardSL s) (\<lambda>s. Inl (Panic ''sdcard: timeout waiting for response''))
                    else sd_check_status (sd_end_cmd s)))"

text \<open>kernel/disk.c on this board.\<close>

definition card_disk_read :: "nat \<Rightarrow> 'a sd_st_scheme \<Rightarrow> 'a sd_st_scheme kres" where
  "card_disk_read b s =
    kbind (sdcard_read_sector (sectorno (bufs s b)) s) (\<lambda>(bs, s). Inr (set_buf b ((bufs s b)\<lparr>bdata := bs\<rparr>) s))"

definition card_disk_write :: "nat \<Rightarrow> 'a sd_st_scheme \<Rightarrow> 'a sd_st_scheme kres" where
  "card_disk_write b s = sdcard_write_sector (bdata (bufs s b)) (sectorno (bufs s b)) s"

end
