(* ===== verification/Sysctl.thy ===== *)
theory Sysctl imports Prelude begin

text \<open>
  kernel/sysctl.c: the clocks of the K210 and the requests that drive its channels of direct memory access. A clock has a bit of its own, and the
  devices on a peripheral bus need the clock of that bus as well.
\<close>

section \<open>State\<close>

text \<open>The registers that the kernel uses, as words; their bit fields are named by their lowest bit and their width (libs/sysctl.h).\<close>

record sysctl =
  git_id :: u32
  clk_freq :: u32
  pll0 :: u32
  pll1 :: u32
  pll2 :: u32
  clk_en_cent :: u32
  clk_en_peri :: u32
  dma_sel0 :: u32
  dma_sel1 :: u32

definition get_field :: "nat \<Rightarrow> nat \<Rightarrow> u32 \<Rightarrow> u32" where
  "get_field pos width w = take_bit width (drop_bit pos w)"

definition set_field :: "nat \<Rightarrow> nat \<Rightarrow> u32 \<Rightarrow> u32 \<Rightarrow> u32" where
  "set_field pos width v w = (w AND NOT (push_bit pos (mask width))) OR push_bit pos (take_bit width v)"

definition sysctl_get_git_id :: "'a sysctl_scheme \<Rightarrow> u32" where
  "sysctl_get_git_id s = git_id s"

definition sysctl_get_freq :: "'a sysctl_scheme \<Rightarrow> u32" where
  "sysctl_get_freq s = clk_freq s"

section \<open>Clocks\<close>

datatype sysctl_clock =
    SYSCTL_CLOCK_PLL0 | SYSCTL_CLOCK_PLL1 | SYSCTL_CLOCK_PLL2 | SYSCTL_CLOCK_CPU | SYSCTL_CLOCK_SRAM0
  | SYSCTL_CLOCK_SRAM1 | SYSCTL_CLOCK_APB0 | SYSCTL_CLOCK_APB1 | SYSCTL_CLOCK_APB2 | SYSCTL_CLOCK_ROM
  | SYSCTL_CLOCK_DMA | SYSCTL_CLOCK_AI | SYSCTL_CLOCK_DVP | SYSCTL_CLOCK_FFT | SYSCTL_CLOCK_GPIO
  | SYSCTL_CLOCK_SPI0 | SYSCTL_CLOCK_SPI1 | SYSCTL_CLOCK_SPI2 | SYSCTL_CLOCK_SPI3 | SYSCTL_CLOCK_I2S0
  | SYSCTL_CLOCK_I2S1 | SYSCTL_CLOCK_I2S2 | SYSCTL_CLOCK_I2C0 | SYSCTL_CLOCK_I2C1 | SYSCTL_CLOCK_I2C2
  | SYSCTL_CLOCK_UART1 | SYSCTL_CLOCK_UART2 | SYSCTL_CLOCK_UART3 | SYSCTL_CLOCK_AES | SYSCTL_CLOCK_FPIOA
  | SYSCTL_CLOCK_TIMER0 | SYSCTL_CLOCK_TIMER1 | SYSCTL_CLOCK_TIMER2 | SYSCTL_CLOCK_WDT0 | SYSCTL_CLOCK_WDT1
  | SYSCTL_CLOCK_SHA | SYSCTL_CLOCK_OTP | SYSCTL_CLOCK_RTC | SYSCTL_CLOCK_ACLK | SYSCTL_CLOCK_HCLK
  | SYSCTL_CLOCK_IN0 | SYSCTL_CLOCK_MAX

datatype clk_reg = PLL0 | PLL1 | PLL2 | CLK_EN_CENT | CLK_EN_PERI

fun set_clk :: "clk_reg \<Rightarrow> nat \<Rightarrow> u8 \<Rightarrow> 'a sysctl_scheme \<Rightarrow> 'a sysctl_scheme" where
  "set_clk PLL0 n en s = s\<lparr>pll0 := set_field n 1 (ucast en) (pll0 s)\<rparr>"
| "set_clk PLL1 n en s = s\<lparr>pll1 := set_field n 1 (ucast en) (pll1 s)\<rparr>"
| "set_clk PLL2 n en s = s\<lparr>pll2 := set_field n 1 (ucast en) (pll2 s)\<rparr>"
| "set_clk CLK_EN_CENT n en s = s\<lparr>clk_en_cent := set_field n 1 (ucast en) (clk_en_cent s)\<rparr>"
| "set_clk CLK_EN_PERI n en s = s\<lparr>clk_en_peri := set_field n 1 (ucast en) (clk_en_peri s)\<rparr>"

text \<open>The two \<open>switch\<close> statements: the bits \<open>apb0_clk_en\<close> (3), \<open>apb1_clk_en\<close> (4) and \<open>apb2_clk_en\<close> (5) of the buses, and the bit of each device.\<close>

fun clock_bus :: "sysctl_clock \<Rightarrow> (clk_reg \<times> nat) option" where
  "clock_bus SYSCTL_CLOCK_GPIO = Some (CLK_EN_CENT, 3)"
| "clock_bus SYSCTL_CLOCK_SPI2 = Some (CLK_EN_CENT, 3)"
| "clock_bus SYSCTL_CLOCK_I2S0 = Some (CLK_EN_CENT, 3)"
| "clock_bus SYSCTL_CLOCK_I2S1 = Some (CLK_EN_CENT, 3)"
| "clock_bus SYSCTL_CLOCK_I2S2 = Some (CLK_EN_CENT, 3)"
| "clock_bus SYSCTL_CLOCK_I2C0 = Some (CLK_EN_CENT, 3)"
| "clock_bus SYSCTL_CLOCK_I2C1 = Some (CLK_EN_CENT, 3)"
| "clock_bus SYSCTL_CLOCK_I2C2 = Some (CLK_EN_CENT, 3)"
| "clock_bus SYSCTL_CLOCK_UART1 = Some (CLK_EN_CENT, 3)"
| "clock_bus SYSCTL_CLOCK_UART2 = Some (CLK_EN_CENT, 3)"
| "clock_bus SYSCTL_CLOCK_UART3 = Some (CLK_EN_CENT, 3)"
| "clock_bus SYSCTL_CLOCK_FPIOA = Some (CLK_EN_CENT, 3)"
| "clock_bus SYSCTL_CLOCK_TIMER0 = Some (CLK_EN_CENT, 3)"
| "clock_bus SYSCTL_CLOCK_TIMER1 = Some (CLK_EN_CENT, 3)"
| "clock_bus SYSCTL_CLOCK_TIMER2 = Some (CLK_EN_CENT, 3)"
| "clock_bus SYSCTL_CLOCK_SHA = Some (CLK_EN_CENT, 3)"
| "clock_bus SYSCTL_CLOCK_AES = Some (CLK_EN_CENT, 4)"
| "clock_bus SYSCTL_CLOCK_WDT0 = Some (CLK_EN_CENT, 4)"
| "clock_bus SYSCTL_CLOCK_WDT1 = Some (CLK_EN_CENT, 4)"
| "clock_bus SYSCTL_CLOCK_OTP = Some (CLK_EN_CENT, 4)"
| "clock_bus SYSCTL_CLOCK_RTC = Some (CLK_EN_CENT, 4)"
| "clock_bus SYSCTL_CLOCK_SPI0 = Some (CLK_EN_CENT, 5)"
| "clock_bus SYSCTL_CLOCK_SPI1 = Some (CLK_EN_CENT, 5)"
| "clock_bus _ = None"

fun clock_device :: "sysctl_clock \<Rightarrow> (clk_reg \<times> nat) option" where
  "clock_device SYSCTL_CLOCK_PLL0 = Some (PLL0, 25)"
| "clock_device SYSCTL_CLOCK_PLL1 = Some (PLL1, 25)"
| "clock_device SYSCTL_CLOCK_PLL2 = Some (PLL2, 25)"
| "clock_device SYSCTL_CLOCK_CPU = Some (CLK_EN_CENT, 0)"
| "clock_device SYSCTL_CLOCK_SRAM0 = Some (CLK_EN_CENT, 1)"
| "clock_device SYSCTL_CLOCK_SRAM1 = Some (CLK_EN_CENT, 2)"
| "clock_device SYSCTL_CLOCK_APB0 = Some (CLK_EN_CENT, 3)"
| "clock_device SYSCTL_CLOCK_APB1 = Some (CLK_EN_CENT, 4)"
| "clock_device SYSCTL_CLOCK_APB2 = Some (CLK_EN_CENT, 5)"
| "clock_device SYSCTL_CLOCK_ROM = Some (CLK_EN_PERI, 0)"
| "clock_device SYSCTL_CLOCK_DMA = Some (CLK_EN_PERI, 1)"
| "clock_device SYSCTL_CLOCK_AI = Some (CLK_EN_PERI, 2)"
| "clock_device SYSCTL_CLOCK_DVP = Some (CLK_EN_PERI, 3)"
| "clock_device SYSCTL_CLOCK_FFT = Some (CLK_EN_PERI, 4)"
| "clock_device SYSCTL_CLOCK_SPI3 = Some (CLK_EN_PERI, 9)"
| "clock_device SYSCTL_CLOCK_GPIO = Some (CLK_EN_PERI, 5)"
| "clock_device SYSCTL_CLOCK_SPI2 = Some (CLK_EN_PERI, 8)"
| "clock_device SYSCTL_CLOCK_I2S0 = Some (CLK_EN_PERI, 10)"
| "clock_device SYSCTL_CLOCK_I2S1 = Some (CLK_EN_PERI, 11)"
| "clock_device SYSCTL_CLOCK_I2S2 = Some (CLK_EN_PERI, 12)"
| "clock_device SYSCTL_CLOCK_I2C0 = Some (CLK_EN_PERI, 13)"
| "clock_device SYSCTL_CLOCK_I2C1 = Some (CLK_EN_PERI, 14)"
| "clock_device SYSCTL_CLOCK_I2C2 = Some (CLK_EN_PERI, 15)"
| "clock_device SYSCTL_CLOCK_UART1 = Some (CLK_EN_PERI, 16)"
| "clock_device SYSCTL_CLOCK_UART2 = Some (CLK_EN_PERI, 17)"
| "clock_device SYSCTL_CLOCK_UART3 = Some (CLK_EN_PERI, 18)"
| "clock_device SYSCTL_CLOCK_FPIOA = Some (CLK_EN_PERI, 20)"
| "clock_device SYSCTL_CLOCK_TIMER0 = Some (CLK_EN_PERI, 21)"
| "clock_device SYSCTL_CLOCK_TIMER1 = Some (CLK_EN_PERI, 22)"
| "clock_device SYSCTL_CLOCK_TIMER2 = Some (CLK_EN_PERI, 23)"
| "clock_device SYSCTL_CLOCK_SHA = Some (CLK_EN_PERI, 26)"
| "clock_device SYSCTL_CLOCK_AES = Some (CLK_EN_PERI, 19)"
| "clock_device SYSCTL_CLOCK_WDT0 = Some (CLK_EN_PERI, 24)"
| "clock_device SYSCTL_CLOCK_WDT1 = Some (CLK_EN_PERI, 25)"
| "clock_device SYSCTL_CLOCK_OTP = Some (CLK_EN_PERI, 27)"
| "clock_device SYSCTL_CLOCK_RTC = Some (CLK_EN_PERI, 29)"
| "clock_device SYSCTL_CLOCK_SPI0 = Some (CLK_EN_PERI, 6)"
| "clock_device SYSCTL_CLOCK_SPI1 = Some (CLK_EN_PERI, 7)"
| "clock_device _ = None"

definition clock_switch :: "(clk_reg \<times> nat) option \<Rightarrow> u8 \<Rightarrow> 'a sysctl_scheme \<Rightarrow> 'a sysctl_scheme" where
  "clock_switch c en s = (case c of None \<Rightarrow> s | Some (r, n) \<Rightarrow> set_clk r n en s)"

definition sysctl_clock_bus_en :: "sysctl_clock \<Rightarrow> u8 \<Rightarrow> 'a sysctl_scheme \<Rightarrow> 'a sysctl_scheme" where
  "sysctl_clock_bus_en clock en s = (if en \<noteq> 0 then clock_switch (clock_bus clock) en s else s)"

definition sysctl_clock_device_en :: "sysctl_clock \<Rightarrow> u8 \<Rightarrow> 'a sysctl_scheme \<Rightarrow> 'a sysctl_scheme" where
  "sysctl_clock_device_en clock en s = clock_switch (clock_device clock) en s"

definition sysctl_clock_enable :: "sysctl_clock \<Rightarrow> 'a sysctl_scheme \<Rightarrow> int \<times> 'a sysctl_scheme" where
  "sysctl_clock_enable clock s =
    (if clock = SYSCTL_CLOCK_MAX then (- 1, s) else (0, sysctl_clock_device_en clock 1 (sysctl_clock_bus_en clock 1 s)))"

section \<open>Requests\<close>

text \<open>The channel and the request are numbers; a channel that is none of the six gives -1.\<close>

definition sysctl_dma_select :: "int \<Rightarrow> u32 \<Rightarrow> 'a sysctl_scheme \<Rightarrow> int \<times> 'a sysctl_scheme" where
  "sysctl_dma_select channel select s =
    (if channel < 0 \<or> channel > 5 then (- 1, s)
     else if channel = 5 then (0, s\<lparr>dma_sel1 := set_field 0 6 select (dma_sel1 s)\<rparr>)
     else (0, s\<lparr>dma_sel0 := set_field (6 * nat channel) 6 select (dma_sel0 s)\<rparr>))"

text \<open>The request that a channel serves.\<close>

definition dma_request :: "nat \<Rightarrow> 'a sysctl_scheme \<Rightarrow> u32" where
  "dma_request c s = (if c = 5 then get_field 0 6 (dma_sel1 s) else get_field (6 * c) 6 (dma_sel0 s))"

section \<open>What the registers hold afterwards\<close>

lemma bit_set_field:
  "bit (set_field pos width v w) i \<longleftrightarrow> i < 32 \<and> (if pos \<le> i \<and> i < pos + width then bit v (i - pos) else bit w i)"
  by (auto simp: set_field_def bit_simps)

lemma bit_get_field: "bit (get_field pos width w) i \<longleftrightarrow> i < width \<and> bit w (pos + i)"
  by (auto simp: get_field_def bit_simps)

lemma get_set_field:
  assumes "pos + width \<le> 32"
  shows "get_field pos width (set_field pos width v w) = take_bit width v"
  by (rule bit_word_eqI) (use assms in \<open>auto simp: bit_get_field bit_set_field bit_simps\<close>)

lemma get_set_other:
  assumes "pos + width \<le> pos' \<or> pos' + width' \<le> pos"
  shows "get_field pos' width' (set_field pos width v w) = get_field pos' width' w"
  by (rule bit_word_eqI) (use assms in \<open>auto simp: bit_get_field bit_set_field dest: bit_imp_le_length\<close>)

text \<open>Whether a clock bit is on.\<close>

fun clk_on :: "clk_reg \<Rightarrow> nat \<Rightarrow> 'a sysctl_scheme \<Rightarrow> bool" where
  "clk_on PLL0 n s = bit (pll0 s) n"
| "clk_on PLL1 n s = bit (pll1 s) n"
| "clk_on PLL2 n s = bit (pll2 s) n"
| "clk_on CLK_EN_CENT n s = bit (clk_en_cent s) n"
| "clk_on CLK_EN_PERI n s = bit (clk_en_peri s) n"

lemma clk_on_set: "m < 32 \<Longrightarrow> clk_on r n (set_clk q m 1 s) \<longleftrightarrow> clk_on r n s \<or> (r = q \<and> n = m)"
  by (cases r; cases q) (auto simp: bit_set_field bit_simps dest: bit_imp_le_length)

lemma clock_bus_small: "clock_bus c = Some (r, n) \<Longrightarrow> n < 32"
  by (cases c) auto

lemma clock_device_small: "clock_device c = Some (r, n) \<Longrightarrow> n < 32"
  by (cases c) auto

lemma clock_switch_on:
  assumes "\<And>q m. x = Some (q, m) \<Longrightarrow> m < 32"
  shows "clk_on r n (clock_switch x 1 s) \<longleftrightarrow> clk_on r n s \<or> x = Some (r, n)"
proof (cases x)
  case (Some c)
  then obtain q m where x: "x = Some (q, m)" by (cases c) simp
  with assms have "m < 32" by simp
  then show ?thesis unfolding x by (auto simp: clock_switch_def clk_on_set)
qed (simp add: clock_switch_def)

text \<open>Enabling a clock turns on its bit and that of its bus, and turns nothing off.\<close>

lemma clock_enable_on:
  assumes "c \<noteq> SYSCTL_CLOCK_MAX"
  shows "\<exists>t. sysctl_clock_enable c s = (0, t)
    \<and> (\<forall>r n. clk_on r n t \<longleftrightarrow> clk_on r n s \<or> clock_bus c = Some (r, n) \<or> clock_device c = Some (r, n))"
  using assms clock_bus_small [of c] clock_device_small [of c]
  by (simp add: sysctl_clock_enable_def sysctl_clock_bus_en_def sysctl_clock_device_en_def clock_switch_on)

text \<open>A channel gets its request, and the other channels keep theirs.\<close>

lemma dma_select_request:
  assumes "c < 6" and "d < 6"
  shows "dma_request d (snd (sysctl_dma_select (int c) v s)) = (if d = c then take_bit 6 v else dma_request d s)"
proof -
  have "c = 5 \<or> d = 5 \<or> d = c \<or> 6 * c + 6 \<le> 6 * d \<or> 6 * d + 6 \<le> 6 * c" by arith
  then show ?thesis using assms
    by (auto simp: dma_request_def sysctl_dma_select_def get_set_field get_set_other)
qed

lemma dma_select_error: "channel < 0 \<or> 5 < channel \<Longrightarrow> sysctl_dma_select channel v s = (- 1, s)"
  by (auto simp: sysctl_dma_select_def)

end
