(* ===== verification/Spi.thy ===== *)
theory Spi imports Sdcard Sysctl begin

text \<open>
  kernel/spi.c without direct memory access: the controller of the serial bus that the memory card is on. The driver only sees registers. What reading one
  of them gives is up to the controller, which is a parameter: it may depend on every access to a register before. The chip select pin of the card is
  one of the general purpose pins.
\<close>

section \<open>State\<close>

text \<open>The registers of \<open>spi_t\<close> that the driver uses; of the data register \<open>dr\<close> it only uses the first word.\<close>

datatype spi_reg =
    CTRLR0 | CTRLR1 | SSIENR | SER | BAUDR | TXFLR | RXFLR | SR | IMR | DMACR | DMATDLR | DMARDLR | DR | SPI_CTRLR0 | ENDIAN

text \<open>The registers of the controller of direct memory access (\<open>dmac_t\<close>), some of them for each channel.\<close>

datatype dma_reg =
    DmacId | Compver | DmacCfg | Chen | ComIntclear | ComIntstatusEn | ComIntsignalEn | DmacReset
  | Sar nat | Dar nat | BlockTs nat | ChCtl nat | ChCfg nat | AxiId nat | IntstatusEn nat | Intstatus nat | Intclear nat

text \<open>
  Accesses to the registers of serial device \<open>n\<close>, stores to the output register of the general purpose pins, and accesses to the registers of
  direct memory access.
\<close>

datatype hw_ev = SpiRd nat spi_reg u32 | SpiWr nat spi_reg u32 | PinOut u32 | DmaRd dma_reg u64 | DmaWr dma_reg u64

type_synonym spi_ctl = "hw_ev list \<Rightarrow> nat \<Rightarrow> spi_reg \<Rightarrow> u32"
type_synonym dma_ctl = "hw_ev list \<Rightarrow> dma_reg \<Rightarrow> u64"

text \<open>
  \<open>hw_log\<close> is the history, oldest first, \<open>spi\<close> and \<open>dma\<close> are the controllers, \<open>send_junk\<close> what the uninitialised variable \<open>v_send_data\<close> of
  \<open>spi_send_data_normal\<close> holds.
\<close>

record spi_st = sd_st +
  clocks :: sysctl
  hw_log :: "hw_ev list"
  spi :: spi_ctl
  dma :: dma_ctl
  send_junk :: u32

definition log_ev :: "hw_ev \<Rightarrow> 'a spi_st_scheme \<Rightarrow> 'a spi_st_scheme" where
  "log_ev e s = s\<lparr>hw_log := hw_log s @ [e]\<rparr>"

definition spi_wr :: "nat \<Rightarrow> spi_reg \<Rightarrow> u32 \<Rightarrow> 'a spi_st_scheme \<Rightarrow> 'a spi_st_scheme" where
  "spi_wr n r v = log_ev (SpiWr n r v)"

definition spi_rd :: "nat \<Rightarrow> spi_reg \<Rightarrow> 'a spi_st_scheme \<Rightarrow> u32 \<times> 'a spi_st_scheme" where
  "spi_rd n r s = (let v = spi s (hw_log s) n r in (v, log_ev (SpiRd n r v) s))"

section \<open>Set-up\<close>

definition dfs_offset :: "nat \<Rightarrow> nat" where
  "dfs_offset n = (if n = 0 \<or> n = 1 then 16 else 0)"

definition frf_offset :: "nat \<Rightarrow> nat" where
  "frf_offset n = (if n = 0 \<or> n = 1 then 21 else if n = 2 then 0 else 22)"

definition work_mode_offset :: "nat \<Rightarrow> nat" where
  "work_mode_offset n = (if n = 0 \<or> n = 1 then 6 else if n = 2 then 0 else 8)"

definition tmod_offset :: "nat \<Rightarrow> nat" where
  "tmod_offset n = (if n = 0 \<or> n = 1 \<or> n = 2 then 8 else 10)"

definition spi_init :: "nat \<Rightarrow> u32 \<Rightarrow> u32 \<Rightarrow> u64 \<Rightarrow> u32 \<Rightarrow> 'a spi_st_scheme \<Rightarrow> 'a spi_st_scheme" where
  "spi_init n work_mode frame_format data_bit_length endian s =
    (let (baud, s) = spi_rd n BAUDR s;
         s = (if baud = 0 then spi_wr n BAUDR 0x14 s else s);
         s = spi_wr n IMR 0 s;
         s = spi_wr n DMACR 0 s;
         s = spi_wr n DMATDLR 0x10 s;
         s = spi_wr n DMARDLR 0 s;
         s = spi_wr n SER 0 s;
         s = spi_wr n SSIENR 0 s;
         s = spi_wr n CTRLR0 (push_bit (work_mode_offset n) work_mode OR push_bit (frf_offset n) frame_format
               OR ucast (push_bit (dfs_offset n) (data_bit_length - 1))) s;
         s = spi_wr n SPI_CTRLR0 0 s
     in spi_wr n ENDIAN endian s)"

definition SPI_TMOD_TRANS :: u32 where "SPI_TMOD_TRANS = 1"
definition SPI_TMOD_RECV :: u32 where "SPI_TMOD_RECV = 2"
definition SPI_TMOD_EEROM :: u32 where "SPI_TMOD_EEROM = 3"

definition spi_set_tmod :: "nat \<Rightarrow> u32 \<Rightarrow> 'a spi_st_scheme \<Rightarrow> 'a spi_st_scheme" where
  "spi_set_tmod n tmod s =
    (let (v, s) = spi_rd n CTRLR0 s in spi_wr n CTRLR0 (set_bit (push_bit (tmod_offset n) 3) (push_bit (tmod_offset n) tmod) v) s)"

datatype spi_width = SPI_TRANS_CHAR | SPI_TRANS_SHORT | SPI_TRANS_INT

fun width_bytes :: "spi_width \<Rightarrow> u64" where
  "width_bytes SPI_TRANS_CHAR = 1"
| "width_bytes SPI_TRANS_SHORT = 2"
| "width_bytes SPI_TRANS_INT = 4"

definition spi_get_frame_size :: "u64 \<Rightarrow> spi_width" where
  "spi_get_frame_size data_bit_length =
    (if data_bit_length < 8 then SPI_TRANS_CHAR else if data_bit_length < 16 then SPI_TRANS_SHORT else SPI_TRANS_INT)"

text \<open>The width of the frames that the controller is set to.\<close>

definition frame_width :: "nat \<Rightarrow> 'a spi_st_scheme \<Rightarrow> spi_width \<times> 'a spi_st_scheme" where
  "frame_width n s =
    (let (v, s) = spi_rd n CTRLR0 s in (spi_get_frame_size (ucast (drop_bit (dfs_offset n) v AND 0x1F)), s))"

section \<open>Sending\<close>

definition load32 :: "bytemem \<Rightarrow> u64 \<Rightarrow> u32" where
  "load32 m p = word_rcat [m (p + 3), m (p + 2), m (p + 1), m p]"

text \<open>
  The frame at position \<open>i\<close> of a buffer: \<open>i\<close> counts frames, or bytes if the buffer is not aligned to the width of a frame (\<open>mis\<close>). A
  misaligned half word is moved into the low half of \<open>v_send_data\<close>.
\<close>

fun frame_at :: "spi_width \<Rightarrow> bool \<Rightarrow> u32 \<Rightarrow> u64 \<Rightarrow> u32 \<Rightarrow> bytemem \<Rightarrow> u32" where
  "frame_at SPI_TRANS_CHAR mis junk p i m = ucast (m (p + ucast i))"
| "frame_at SPI_TRANS_SHORT mis junk p i m =
    (if mis then (junk AND 0xFFFF0000) OR ucast (load16 m (p + ucast i)) else ucast (load16 m (p + 2 * ucast i)))"
| "frame_at SPI_TRANS_INT mis junk p i m = (if mis then load32 m (p + ucast i) else load32 m (p + 4 * ucast i))"

fun frame_step :: "spi_width \<Rightarrow> bool \<Rightarrow> u32" where
  "frame_step SPI_TRANS_CHAR mis = 1"
| "frame_step SPI_TRANS_SHORT mis = (if mis then 2 else 1)"
| "frame_step SPI_TRANS_INT mis = (if mis then 4 else 1)"

text \<open>Store \<open>k\<close> frames to the data register.\<close>

primrec put_frames :: "nat \<Rightarrow> nat \<Rightarrow> spi_width \<Rightarrow> bool \<Rightarrow> u64 \<Rightarrow> u32 \<Rightarrow> 'a spi_st_scheme \<Rightarrow> u32 \<times> 'a spi_st_scheme" where
  "put_frames 0 n w mis p i s = (i, s)"
| "put_frames (Suc k) n w mis p i s =
    put_frames k n w mis p (i + frame_step w mis) (spi_wr n DR (frame_at w mis (send_junk s) p i (mem s)) s)"

text \<open>
  The loops poll registers and may not end, so they have fuel. One turn of the sending loop asks how much room the queue has and stores that many bytes, rounded
  down to whole frames.
\<close>

primrec send_loop :: "nat \<Rightarrow> nat \<Rightarrow> spi_width \<Rightarrow> bool \<Rightarrow> u64 \<Rightarrow> u64 \<Rightarrow> u32 \<Rightarrow> 'a spi_st_scheme \<Rightarrow> 'a spi_st_scheme kres" where
  "send_loop 0 n w mis p tx_len i s = Inl Deep"
| "send_loop (Suc fuel) n w mis p tx_len i s =
    (if tx_len = 0 then Inr s
     else
       let (level, s) = spi_rd n TXFLR s;
           fifo_len = ucast (32 - level);
           fifo_len = (if fifo_len < tx_len then fifo_len else tx_len);
           fifo_len = fifo_len div width_bytes w * width_bytes w;
           (i, s) = put_frames (unat (fifo_len div width_bytes w)) n w mis p i s
       in send_loop fuel n w mis p (tx_len - fifo_len) i s)"

text \<open>\<open>while ((sr & 0x05) != 0x04)\<close>: until the queue is empty and the controller is not busy.\<close>

primrec wait_sent :: "nat \<Rightarrow> nat \<Rightarrow> 'a spi_st_scheme \<Rightarrow> 'a spi_st_scheme kres" where
  "wait_sent 0 n s = Inl Deep"
| "wait_sent (Suc fuel) n s = (let (v, s) = spi_rd n SR s in if v AND 0x05 \<noteq> 0x04 then wait_sent fuel n s else Inr s)"

definition spi_send_data_normal :: "nat \<Rightarrow> nat \<Rightarrow> nat \<Rightarrow> u64 \<Rightarrow> u64 \<Rightarrow> 'a spi_st_scheme \<Rightarrow> 'a spi_st_scheme kres" where
  "spi_send_data_normal fuel n chip_select tx_buff tx_len s =
    (let s = spi_set_tmod n SPI_TMOD_TRANS s;
         (w, s) = frame_width n s;
         mis = (tx_buff mod width_bytes w \<noteq> 0);
         s = spi_wr n SSIENR 1 s;
         s = spi_wr n SER (push_bit chip_select 1) s
     in kbind (send_loop fuel n w mis tx_buff tx_len 0 s) (\<lambda>s.
        kbind (wait_sent fuel n s) (\<lambda>s.
          Inr (spi_wr n SSIENR 0 (spi_wr n SER 0 s)))))"

text \<open>The result of \<open>kalloc\<close> is not checked: with no memory left the bytes go to address 0.\<close>

definition spi_send_data_standard :: "nat \<Rightarrow> nat \<Rightarrow> nat \<Rightarrow> u64 \<Rightarrow> u64 \<Rightarrow> u64 \<Rightarrow> u64 \<Rightarrow> 'a spi_st_scheme \<Rightarrow> 'a spi_st_scheme kres" where
  "spi_send_data_standard fuel n chip_select cmd_buff cmd_len tx_buff tx_len s =
    kbind (kalloc s) (\<lambda>(v_buf, s).
      if v_buf = 0 \<and> (cmd_len \<noteq> 0 \<or> tx_len \<noteq> 0) then Inl Wild
      else
        let s = s\<lparr>mem := mm_fwd (mem s) v_buf cmd_buff (unat cmd_len)\<rparr>;
            s = s\<lparr>mem := mm_fwd (mem s) (v_buf + cmd_len) tx_buff (unat tx_len)\<rparr>
        in kbind (spi_send_data_normal fuel n chip_select v_buf (cmd_len + tx_len) s) (kfree v_buf))"

section \<open>Receiving\<close>

text \<open>The loop over the command: it selects the card after every batch.\<close>

primrec cmd_loop :: "nat \<Rightarrow> nat \<Rightarrow> spi_width \<Rightarrow> nat \<Rightarrow> u64 \<Rightarrow> u64 \<Rightarrow> u32 \<Rightarrow> 'a spi_st_scheme \<Rightarrow> 'a spi_st_scheme kres" where
  "cmd_loop 0 n w chip_select p v_cmd_len i s = Inl Deep"
| "cmd_loop (Suc fuel) n w chip_select p v_cmd_len i s =
    (if v_cmd_len = 0 then Inr s
     else
       let (level, s) = spi_rd n TXFLR s;
           fifo_len = ucast (32 - level);
           fifo_len = (if fifo_len < v_cmd_len then fifo_len else v_cmd_len);
           (i, s) = put_frames (unat fifo_len) n w False p i s;
           s = spi_wr n SER (push_bit chip_select 1) s
       in cmd_loop fuel n w chip_select p (v_cmd_len - fifo_len) i s)"

definition store32 :: "u64 \<Rightarrow> u32 \<Rightarrow> bytemem \<Rightarrow> bytemem" where
  "store32 p v m = m(p := ucast v, p + 1 := ucast (drop_bit 8 v), p + 2 := ucast (drop_bit 16 v), p + 3 := ucast (drop_bit 24 v))"

fun put_at :: "spi_width \<Rightarrow> u64 \<Rightarrow> u32 \<Rightarrow> u32 \<Rightarrow> bytemem \<Rightarrow> bytemem" where
  "put_at SPI_TRANS_CHAR p i v m = m(p + ucast i := ucast v)"
| "put_at SPI_TRANS_SHORT p i v m = store16 (p + 2 * ucast i) (ucast v) m"
| "put_at SPI_TRANS_INT p i v m = store32 (p + 4 * ucast i) v m"

text \<open>Take \<open>k\<close> frames from the data register.\<close>

primrec take_frames :: "nat \<Rightarrow> nat \<Rightarrow> spi_width \<Rightarrow> u64 \<Rightarrow> u32 \<Rightarrow> 'a spi_st_scheme \<Rightarrow> u32 \<times> 'a spi_st_scheme" where
  "take_frames 0 n w p i s = (i, s)"
| "take_frames (Suc k) n w p i s =
    (let (v, s) = spi_rd n DR s in take_frames k n w p (i + 1) (s\<lparr>mem := put_at w p i v (mem s)\<rparr>))"

primrec receive_loop :: "nat \<Rightarrow> nat \<Rightarrow> spi_width \<Rightarrow> u64 \<Rightarrow> u32 \<Rightarrow> u32 \<Rightarrow> 'a spi_st_scheme \<Rightarrow> 'a spi_st_scheme kres" where
  "receive_loop 0 n w p v_rx_len i s = Inl Deep"
| "receive_loop (Suc fuel) n w p v_rx_len i s =
    (if v_rx_len = 0 then Inr s
     else
       let (level, s) = spi_rd n RXFLR s;
           fifo_len = (if level < v_rx_len then level else v_rx_len);
           (i, s) = take_frames (unat fifo_len) n w p i s
       in receive_loop fuel n w p (v_rx_len - fifo_len) i s)"

definition spi_receive_data_standard :: "nat \<Rightarrow> nat \<Rightarrow> nat \<Rightarrow> u64 \<Rightarrow> u64 \<Rightarrow> u64 \<Rightarrow> u64 \<Rightarrow> 'a spi_st_scheme \<Rightarrow> 'a spi_st_scheme kres" where
  "spi_receive_data_standard fuel n chip_select cmd_buff cmd_len rx_buff rx_len s =
    (let s = spi_set_tmod n (if cmd_len = 0 then SPI_TMOD_RECV else SPI_TMOD_EEROM) s;
         (w, s) = frame_width n s;
         v_cmd_len = cmd_len div width_bytes w;
         v_rx_len = ucast (rx_len div width_bytes w);
         s = spi_wr n CTRLR1 (v_rx_len - 1) s;
         s = spi_wr n SSIENR 1 s
     in kbind (cmd_loop fuel n w chip_select cmd_buff v_cmd_len 0 s) (\<lambda>s.
          let s = (if cmd_len = 0 then spi_wr n SER (push_bit chip_select 1) (spi_wr n DR 0xFFFFFFFF s) else s)
          in kbind (receive_loop fuel n w rx_buff v_rx_len 0 s) (\<lambda>s.
            Inr (spi_wr n SSIENR 0 (spi_wr n SER 0 s)))))"

section \<open>What the card driver calls\<close>

text \<open>\<open>sd_write_data\<close>, \<open>sd_read_data\<close>, \<open>SD_CS_HIGH\<close> and \<open>SD_CS_LOW\<close> of kernel/sdcard.c on the registers.\<close>

definition wire_write :: "nat \<Rightarrow> u64 \<Rightarrow> u32 \<Rightarrow> 'a spi_st_scheme \<Rightarrow> 'a spi_st_scheme kres" where
  "wire_write fuel data_buff len s = spi_send_data_standard fuel 0 3 0 0 data_buff (ucast len) (spi_init 0 0 0 8 0 s)"

definition wire_read :: "nat \<Rightarrow> u64 \<Rightarrow> u32 \<Rightarrow> 'a spi_st_scheme \<Rightarrow> 'a spi_st_scheme kres" where
  "wire_read fuel data_buff len s = spi_receive_data_standard fuel 0 3 0 0 data_buff (ucast len) (spi_init 0 0 0 8 0 s)"

definition wire_pin :: "u32 \<Rightarrow> 'a spi_st_scheme \<Rightarrow> 'a spi_st_scheme" where
  "wire_pin level s =
    (let b = gpiohs_set_pin 7 level (board s) in log_ev (PinOut (output_val b)) (s\<lparr>board := b\<rparr>))"

end
