(* ===== verification/Dmac.thy ===== *)
theory Dmac imports Spi begin

text \<open>
  kernel/dmac.c, and the part of kernel/spi.c that uses it: the controller of direct memory access, which moves the sectors of the memory card. Its registers are
  a parameter, like those of the serial bus. A process that waits for a transfer sleeps; the interrupt handler wakes it.
\<close>

section \<open>Registers\<close>

definition dma_rd :: "dma_reg \<Rightarrow> 'a spi_st_scheme \<Rightarrow> u64 \<times> 'a spi_st_scheme" where
  "dma_rd r s = (let v = dma s (hw_log s) r in (v, log_ev (DmaRd r v) s))"

definition dma_wr :: "dma_reg \<Rightarrow> u64 \<Rightarrow> 'a spi_st_scheme \<Rightarrow> 'a spi_st_scheme" where
  "dma_wr r v = log_ev (DmaWr r v)"

text \<open>A bit field of a register, by its lowest bit and its width; and a register that is loaded, changed and stored.\<close>

definition put_field :: "nat \<Rightarrow> nat \<Rightarrow> u64 \<Rightarrow> u64 \<Rightarrow> u64" where
  "put_field pos width v w = (w AND NOT (push_bit pos (mask width))) OR push_bit pos (take_bit width v)"

definition dma_change :: "dma_reg \<Rightarrow> (u64 \<Rightarrow> u64) \<Rightarrow> 'a spi_st_scheme \<Rightarrow> 'a spi_st_scheme" where
  "dma_change r f s = (let (v, s) = dma_rd r s in dma_wr r (f v) s)"

definition is_memory :: "u64 \<Rightarrow> bool" where
  "is_memory address \<longleftrightarrow>
    (0x80000000 \<le> address \<and> address < 0x80000000 + 6 * 1024 * 1024)
    \<or> (0x40000000 \<le> address \<and> address < 0x40000000 + 8 * 1024 * 1024) \<or> address = 0x50450040"

definition dmac_read_id :: "'a spi_st_scheme \<Rightarrow> u64 \<times> 'a spi_st_scheme" where
  "dmac_read_id = dma_rd DmacId"

definition dmac_read_version :: "'a spi_st_scheme \<Rightarrow> u64 \<times> 'a spi_st_scheme" where
  "dmac_read_version = dma_rd Compver"

definition dmac_read_channel_id :: "nat \<Rightarrow> 'a spi_st_scheme \<Rightarrow> u64 \<times> 'a spi_st_scheme" where
  "dmac_read_channel_id ch = dma_rd (AxiId ch)"

definition dmac_enable :: "'a spi_st_scheme \<Rightarrow> 'a spi_st_scheme" where
  "dmac_enable = dma_change DmacCfg (\<lambda>v. put_field 1 1 1 (put_field 0 1 1 v))"

definition dmac_disable :: "'a spi_st_scheme \<Rightarrow> 'a spi_st_scheme" where
  "dmac_disable = dma_change DmacCfg (\<lambda>v. put_field 1 1 0 (put_field 0 1 0 v))"

text \<open>Bit \<open>n\<close> of \<open>chen\<close> switches a channel, bit \<open>8 + n\<close> allows it. A number that is no channel stores the register as it is.\<close>

definition dmac_channel_enable :: "nat \<Rightarrow> 'a spi_st_scheme \<Rightarrow> 'a spi_st_scheme" where
  "dmac_channel_enable ch = dma_change Chen (\<lambda>v. if ch < 6 then put_field (8 + ch) 1 1 (put_field ch 1 1 v) else v)"

definition dmac_channel_disable :: "nat \<Rightarrow> 'a spi_st_scheme \<Rightarrow> 'a spi_st_scheme" where
  "dmac_channel_disable ch = dma_change Chen (\<lambda>v. if ch < 6 then put_field (8 + ch) 1 1 (put_field ch 1 0 v) else v)"

text \<open>The five errors of the common interrupt registers.\<close>

definition common_bits :: "u64 \<Rightarrow> u64" where
  "common_bits v = put_field 8 1 1 (put_field 3 1 1 (put_field 2 1 1 (put_field 1 1 1 (put_field 0 1 1 v))))"

definition dmac_enable_common_interrupt_status :: "'a spi_st_scheme \<Rightarrow> 'a spi_st_scheme" where
  "dmac_enable_common_interrupt_status = dma_change ComIntstatusEn common_bits"

definition dmac_enable_common_interrupt_signal :: "'a spi_st_scheme \<Rightarrow> 'a spi_st_scheme" where
  "dmac_enable_common_interrupt_signal = dma_change ComIntsignalEn common_bits"

definition dmac_enable_channel_interrupt :: "nat \<Rightarrow> 'a spi_st_scheme \<Rightarrow> 'a spi_st_scheme" where
  "dmac_enable_channel_interrupt ch s = dma_wr (IntstatusEn ch) 0x2 (dma_wr (Intclear ch) 0xFFFFFFFF s)"

definition dmac_disable_channel_interrupt :: "nat \<Rightarrow> 'a spi_st_scheme \<Rightarrow> 'a spi_st_scheme" where
  "dmac_disable_channel_interrupt ch = dma_wr (IntstatusEn ch) 0"

definition dmac_chanel_interrupt_clear :: "nat \<Rightarrow> 'a spi_st_scheme \<Rightarrow> 'a spi_st_scheme" where
  "dmac_chanel_interrupt_clear ch = dma_wr (Intclear ch) 0xFFFFFFFF"

definition DMAC_ADDR_INCREMENT :: u64 where "DMAC_ADDR_INCREMENT = 0"
definition DMAC_ADDR_NOCHANGE :: u64 where "DMAC_ADDR_NOCHANGE = 1"
definition DMAC_MSIZE_1 :: u64 where "DMAC_MSIZE_1 = 0"
definition DMAC_MSIZE_4 :: u64 where "DMAC_MSIZE_4 = 1"
definition DMAC_TRANS_WIDTH_32 :: u64 where "DMAC_TRANS_WIDTH_32 = 2"

text \<open>From memory or from a device, to memory or to a device.\<close>

definition flow_control :: "u64 \<Rightarrow> u64 \<Rightarrow> u64" where
  "flow_control src dest =
    (if \<not> is_memory src \<and> \<not> is_memory dest then 3 else if is_memory src \<and> \<not> is_memory dest then 1
     else if \<not> is_memory src \<and> is_memory dest then 2 else 0)"

definition dmac_set_channel_param :: "nat \<Rightarrow> u64 \<Rightarrow> u64 \<Rightarrow> u64 \<Rightarrow> u64 \<Rightarrow> u64 \<Rightarrow> u64 \<Rightarrow> u32 \<Rightarrow> 'a spi_st_scheme \<Rightarrow> 'a spi_st_scheme" where
  "dmac_set_channel_param ch src dest src_inc dest_inc burst_size trans_width blockSize s =
    (let s = dma_change (ChCfg ch) (\<lambda>v.
           let v = put_field 32 3 (flow_control src dest) v;
               v = put_field 35 1 (if is_memory src then 1 else 0) v;
               v = put_field 36 1 (if is_memory dest then 1 else 0) v;
               v = put_field 39 4 (of_nat ch) v;
               v = put_field 44 4 (of_nat ch) v;
               v = put_field 0 2 0 v
           in put_field 2 2 0 v) s;
         s = dma_wr (Sar ch) src s;
         s = dma_wr (Dar ch) dest s;
         s = dma_change (ChCtl ch) (\<lambda>v.
           let v = put_field 0 1 0 v;
               v = put_field 2 1 1 v;
               v = put_field 4 1 src_inc v;
               v = put_field 6 1 dest_inc v;
               v = put_field 8 3 trans_width v;
               v = put_field 11 3 trans_width v;
               v = put_field 14 4 burst_size v
           in put_field 18 4 burst_size v) s
     in dma_wr (BlockTs ch) (ucast (blockSize - 1)) s)"

text \<open>
  The loops of \<open>dmac_init\<close> poll the reset bit and then the configuration register. The mask \<open>~0xf\<close> leaves two of the six channels out, and
  without the bits that allow a change the store changes none.
\<close>

primrec reset_loop :: "nat \<Rightarrow> u64 \<Rightarrow> 'a spi_st_scheme \<Rightarrow> 'a spi_st_scheme kres" where
  "reset_loop 0 v s = Inl Deep"
| "reset_loop (Suc fuel) v s = (if bit v 0 then let (v, s) = dma_rd DmacReset s in reset_loop fuel v s else Inr s)"

primrec idle_loop :: "nat \<Rightarrow> 'a spi_st_scheme \<Rightarrow> 'a spi_st_scheme kres" where
  "idle_loop 0 s = Inl Deep"
| "idle_loop (Suc fuel) s = (let (v, s) = dma_rd DmacCfg s in if v \<noteq> 0 then idle_loop fuel s else Inr s)"

definition dmac_init :: "nat \<Rightarrow> 'a spi_st_scheme \<Rightarrow> 'a spi_st_scheme kres" where
  "dmac_init fuel s =
    (let s = s\<lparr>clocks := snd (sysctl_clock_enable SYSCTL_CLOCK_DMA (clocks s))\<rparr>;
         (v, s) = dma_rd DmacReset s;
         v = put_field 0 1 1 v;
         s = dma_wr DmacReset v s
     in kbind (reset_loop fuel v s) (\<lambda>s.
        let s = dma_change ComIntclear common_bits s;
            s = dmac_disable s
        in kbind (idle_loop fuel s) (\<lambda>s.
           Inr (dmac_enable (dma_change Chen (\<lambda>v. v AND NOT 0xF) s)))))"

section \<open>Waiting\<close>

definition dmac_is_done :: "nat \<Rightarrow> 'a spi_st_scheme \<Rightarrow> bool \<times> 'a spi_st_scheme" where
  "dmac_is_done ch s = (let (v, s) = dma_rd (Intstatus ch) s in (v AND 0x2 \<noteq> 0, s))"

definition dmac_is_idle :: "nat \<Rightarrow> 'a spi_st_scheme \<Rightarrow> bool \<times> 'a spi_st_scheme" where
  "dmac_is_idle ch s = (let (v, s) = dma_rd Chen s in (drop_bit ch v AND 1 = 0, s))"

text \<open>
  The body of the loop of \<open>dmac_wait_idle\<close>, up to the switch; the check of the loop is before it, without a lock. \<open>dmac_wait_done\<close> is the same
  routine.
\<close>

definition dmac_wait_sleep :: "'a spi_st_scheme \<Rightarrow> (bool \<times> 'a spi_st_scheme) kres" where
  "dmac_wait_sleep s =
    kbind (curproc s) (\<lambda>(p, s). kbind (lock (ProcLock p) s) (\<lambda>s. sleep_enter ChDma (ProcLock p) s))"

definition dmac_wait_idle_run :: "nat \<Rightarrow> 'a spi_st_scheme \<Rightarrow> ((bool, unit) outcome \<times> 'a spi_st_scheme) kres" where
  "dmac_wait_idle_run ch s =
    (let (idle, s) = dmac_is_idle ch s
     in if idle then Inr (Finished (), s) else kbind (dmac_wait_sleep s) (\<lambda>(ie, s). Inr (Waiting ie, s)))"

definition dmac_wait_idle_wake :: "nat \<Rightarrow> bool \<Rightarrow> nat \<Rightarrow> 'a spi_st_scheme \<Rightarrow> ((bool, unit) outcome \<times> 'a spi_st_scheme) kres" where
  "dmac_wait_idle_wake p ie ch s =
    kbind (sleep_leave p ie (ProcLock p) s) (\<lambda>s. kbind (unlock (ProcLock p) s) (dmac_wait_idle_run ch))"

definition dmac_intr :: "nat \<Rightarrow> 'a spi_st_scheme \<Rightarrow> 'a spi_st_scheme kres" where
  "dmac_intr ch s = wakeup ChDma (dmac_chanel_interrupt_clear ch s)"

section \<open>Transfers (kernel/spi.c)\<close>

text \<open>
  What follows waits in the middle of a routine. While it waits, other processes run and the controller moves data, so what \<open>dmac_wait_idle\<close> does to the
  state is a parameter, \<open>wt\<close>.
\<close>

type_synonym 'a dma_wait = "nat \<Rightarrow> 'a spi_st_scheme \<Rightarrow> 'a spi_st_scheme kres"

definition dmac_set_single_mode :: "'a dma_wait \<Rightarrow> nat \<Rightarrow> u64 \<Rightarrow> u64 \<Rightarrow> u64 \<Rightarrow> u64 \<Rightarrow> u64 \<Rightarrow> u64 \<Rightarrow> u64 \<Rightarrow> 'a spi_st_scheme \<Rightarrow> 'a spi_st_scheme kres" where
  "dmac_set_single_mode wt ch src dest src_inc dest_inc burst_size trans_width block_size s =
    (let s = dmac_chanel_interrupt_clear ch s;
         s = dmac_channel_disable ch s
     in kbind (wt ch s) (\<lambda>s.
        let s = dmac_set_channel_param ch src dest src_inc dest_inc burst_size trans_width (ucast block_size) s;
            s = dmac_enable s;
            s = dmac_enable_channel_interrupt ch s
        in Inr (dmac_channel_enable ch s)))"

text \<open>The address of the data register of a device, and its requests.\<close>

definition spi_dr :: "nat \<Rightarrow> u64" where
  "spi_dr n = VIRT_OFFSET + (if n = 0 then 0x52000000 else if n = 1 then 0x53000000 else if n = 2 then 0x50240000 else 0x54000000) + 0x60"

definition SSI0_RX_REQ :: u32 where "SSI0_RX_REQ = 0"
definition SSI0_TX_REQ :: u32 where "SSI0_TX_REQ = 1"

definition select_request :: "int \<Rightarrow> u32 \<Rightarrow> 'a spi_st_scheme \<Rightarrow> 'a spi_st_scheme" where
  "select_request ch r s = s\<lparr>clocks := snd (sysctl_dma_select ch r (clocks s))\<rparr>"

definition spi_get_frame_format :: "nat \<Rightarrow> 'a spi_st_scheme \<Rightarrow> u32 \<times> 'a spi_st_scheme" where
  "spi_get_frame_format n s = (let (v, s) = spi_rd n CTRLR0 s in (drop_bit (frf_offset n) v AND 0x3, s))"

text \<open>Frames to words of 32 bits, from frame \<open>i\<close> on, and back: the loops that copy.\<close>

primrec widen :: "nat \<Rightarrow> spi_width \<Rightarrow> u64 \<Rightarrow> u64 \<Rightarrow> u32 \<Rightarrow> bytemem \<Rightarrow> bytemem" where
  "widen 0 w p q i m = m"
| "widen (Suc k) w p q i m = widen k w p q (i + 1) (store32 (q + 4 * ucast i) (frame_at w False 0 p i m) m)"

primrec narrow :: "nat \<Rightarrow> spi_width \<Rightarrow> u64 \<Rightarrow> u64 \<Rightarrow> u32 \<Rightarrow> bytemem \<Rightarrow> bytemem" where
  "narrow 0 w p q i m = m"
| "narrow (Suc k) w p q i m = narrow k w p q (i + 1) (put_at w p i (load32 m (q + 4 * ucast i)) m)"

text \<open>\<open>spi_send_data_normal_dma\<close>, of which \<open>send_dma_words\<close> is the part behind the choice of the buffer.\<close>

definition send_dma_words :: "'a dma_wait \<Rightarrow> nat \<Rightarrow> nat \<Rightarrow> nat \<Rightarrow> u64 \<Rightarrow> u64 \<Rightarrow> 'a spi_st_scheme \<Rightarrow> 'a spi_st_scheme kres" where
  "send_dma_words wt ch n chip_select buf tx_len s =
    (let s = spi_wr n DMACR 0x2 s;
         s = spi_wr n SSIENR 1 s;
         s = select_request (int ch) (SSI0_TX_REQ + of_nat n * 2) s
     in kbind (dmac_set_single_mode wt ch buf (spi_dr n) DMAC_ADDR_INCREMENT DMAC_ADDR_NOCHANGE DMAC_MSIZE_4 DMAC_TRANS_WIDTH_32 tx_len s) (\<lambda>s.
        wt ch (spi_wr n SER (push_bit chip_select 1) s)))"

definition send_dma_end :: "nat \<Rightarrow> nat \<Rightarrow> 'a spi_st_scheme \<Rightarrow> 'a spi_st_scheme kres" where
  "send_dma_end fuel n s = kbind (wait_sent fuel n s) (\<lambda>s. Inr (spi_wr n SSIENR 0 (spi_wr n SER 0 s)))"

definition spi_send_data_normal_dma :: "'a dma_wait \<Rightarrow> nat \<Rightarrow> nat \<Rightarrow> nat \<Rightarrow> nat \<Rightarrow> u64 \<Rightarrow> u64 \<Rightarrow> spi_width \<Rightarrow> 'a spi_st_scheme \<Rightarrow> 'a spi_st_scheme kres" where
  "spi_send_data_normal_dma wt fuel ch n chip_select tx_buff tx_len w s =
    (let s = spi_set_tmod n SPI_TMOD_TRANS s in
     if w = SPI_TRANS_INT then kbind (send_dma_words wt ch n chip_select tx_buff tx_len s) (send_dma_end fuel n)
     else
       kbind (kalloc s) (\<lambda>(buf, s).
         if buf = 0 \<and> tx_len \<noteq> 0 then Inl Wild
         else
           let s = s\<lparr>mem := widen (unat tx_len) w tx_buff buf 0 (mem s)\<rparr>
           in kbind (send_dma_words wt ch n chip_select buf tx_len s) (\<lambda>s. kbind (kfree buf s) (send_dma_end fuel n))))"

definition spi_send_data_standard_dma ::
  "'a dma_wait \<Rightarrow> nat \<Rightarrow> nat \<Rightarrow> nat \<Rightarrow> nat \<Rightarrow> u64 \<Rightarrow> u64 \<Rightarrow> u64 \<Rightarrow> u64 \<Rightarrow> 'a spi_st_scheme \<Rightarrow> 'a spi_st_scheme kres" where
  "spi_send_data_standard_dma wt fuel ch n chip_select cmd_buff cmd_len tx_buff tx_len s =
    (let (w, s) = frame_width n s in
     kbind (kalloc s) (\<lambda>(buf, s).
       if buf = 0 \<and> (cmd_len \<noteq> 0 \<or> tx_len \<noteq> 0) then Inl Wild
       else
         let k = cmd_len div width_bytes w;
             s = s\<lparr>mem := widen (unat k) w cmd_buff buf 0 (mem s)\<rparr>;
             s = s\<lparr>mem := widen (unat (tx_len div width_bytes w)) w tx_buff (buf + 4 * k) 0 (mem s)\<rparr>
         in kbind (spi_send_data_normal_dma wt fuel ch n chip_select buf ((cmd_len + tx_len) div width_bytes w) SPI_TRANS_INT s) (kfree buf)))"

text \<open>The channel for the command may be -1, when there is none.\<close>

definition spi_receive_data_normal_dma ::
  "'a dma_wait \<Rightarrow> int \<Rightarrow> nat \<Rightarrow> nat \<Rightarrow> nat \<Rightarrow> u64 \<Rightarrow> u64 \<Rightarrow> u64 \<Rightarrow> u64 \<Rightarrow> 'a spi_st_scheme \<Rightarrow> 'a spi_st_scheme kres" where
  "spi_receive_data_normal_dma wt sch rch n chip_select cmd_buff cmd_len rx_buff rx_len s =
    (let s = spi_set_tmod n (if cmd_len = 0 then SPI_TMOD_RECV else SPI_TMOD_EEROM) s;
         s = spi_wr n CTRLR1 (ucast (rx_len - 1)) s;
         s = spi_wr n DMACR 0x3 s;
         s = spi_wr n SSIENR 1 s;
         s = (if cmd_len \<noteq> 0 then select_request sch (SSI0_TX_REQ + of_nat n * 2) s else s);
         s = select_request (int rch) (SSI0_RX_REQ + of_nat n * 2) s
     in kbind (dmac_set_single_mode wt rch (spi_dr n) rx_buff DMAC_ADDR_NOCHANGE DMAC_ADDR_INCREMENT DMAC_MSIZE_1 DMAC_TRANS_WIDTH_32 rx_len s) (\<lambda>s.
        kbind (if cmd_len \<noteq> 0
               then dmac_set_single_mode wt (nat sch) cmd_buff (spi_dr n) DMAC_ADDR_INCREMENT DMAC_ADDR_NOCHANGE DMAC_MSIZE_4 DMAC_TRANS_WIDTH_32 cmd_len s
               else let (f, s) = spi_get_frame_format n s in Inr (if f = 0 then spi_wr n DR 0xFFFFFFFF s else s)) (\<lambda>s.
        let s = spi_wr n SER (push_bit chip_select 1) s
        in kbind (if cmd_len \<noteq> 0 then wt (nat sch) s else Inr s) (\<lambda>s.
           kbind (wt rch s) (\<lambda>s.
             Inr (spi_wr n SSIENR 0 (spi_wr n SER 0 s)))))))"

definition spi_receive_data_standard_dma ::
  "'a dma_wait \<Rightarrow> int \<Rightarrow> nat \<Rightarrow> nat \<Rightarrow> nat \<Rightarrow> u64 \<Rightarrow> u64 \<Rightarrow> u64 \<Rightarrow> u64 \<Rightarrow> 'a spi_st_scheme \<Rightarrow> 'a spi_st_scheme kres" where
  "spi_receive_data_standard_dma wt sch rch n chip_select cmd_buff cmd_len rx_buff rx_len s =
    (let (w, s) = frame_width n s in
     kbind (kalloc s) (\<lambda>(write_cmd, s).
       if write_cmd = 0 \<and> (cmd_len \<noteq> 0 \<or> rx_len \<noteq> 0) then Inl Wild
       else
         let v_cmd_len = cmd_len div width_bytes w;
             s = s\<lparr>mem := widen (unat v_cmd_len) w cmd_buff write_cmd 0 (mem s)\<rparr>;
             read_buf = write_cmd + 4 * v_cmd_len;
             v_recv_len = rx_len div width_bytes w
         in kbind (spi_receive_data_normal_dma wt sch rch n chip_select write_cmd v_cmd_len read_buf v_recv_len s) (\<lambda>s.
            kfree write_cmd (s\<lparr>mem := narrow (unat v_recv_len) w rx_buff read_buf 0 (mem s)\<rparr>))))"

text \<open>\<open>sd_write_data_dma\<close> and \<open>sd_read_data_dma\<close> of kernel/sdcard.c.\<close>

definition wire_write_dma :: "'a dma_wait \<Rightarrow> nat \<Rightarrow> u64 \<Rightarrow> u32 \<Rightarrow> 'a spi_st_scheme \<Rightarrow> 'a spi_st_scheme kres" where
  "wire_write_dma wt fuel data_buff len s = spi_send_data_standard_dma wt fuel 0 0 3 0 0 data_buff (ucast len) (spi_init 0 0 0 8 0 s)"

definition wire_read_dma :: "'a dma_wait \<Rightarrow> u64 \<Rightarrow> u32 \<Rightarrow> 'a spi_st_scheme \<Rightarrow> 'a spi_st_scheme kres" where
  "wire_read_dma wt data_buff len s = spi_receive_data_standard_dma wt (- 1) 0 0 3 0 0 data_buff (ucast len) (spi_init 0 0 0 8 0 s)"

end
