(* ===== verification/SdcardProps.thy ===== *)
theory SdcardProps imports Sdcard begin

text \<open>
  The driver of kernel/sdcard.c with a card that follows the protocol: sectors are stored, as the locale \<open>block_store\<close> says; and with no card at all.
\<close>

section \<open>Answers\<close>

text \<open>The card answers with these bytes when they are read after the history \<open>l\<close>.\<close>

primrec reply :: "sdcard \<Rightarrow> bus list \<Rightarrow> u8 list \<Rightarrow> bool" where
  "reply c l [] \<longleftrightarrow> True"
| "reply c l (x # xs) \<longleftrightarrow> c l = x \<and> reply c (l @ [In x]) xs"

lemma reply_append [simp]: "reply c l (xs @ ys) \<longleftrightarrow> reply c l xs \<and> reply c (l @ map In xs) ys"
  by (induction xs arbitrary: l) auto

lemma on_bus_simps [simp]:
  "on_bus es (on_bus xs s) = on_bus (xs @ es) s" "on_bus [] s = s"
  "card (on_bus es s) = card s" "bus_log (on_bus es s) = bus_log s @ es" "is_standard_sd (on_bus es s) = is_standard_sd s"
  "core (on_bus es s) = core s" "slocks (on_bus es s) = slocks s" "procs (on_bus es s) = procs s"
  by (simp_all add: on_bus_def)

lemma running_on_bus [simp]: "running p (on_bus es s) = running p s"
  by (simp add: running_def)

lemma card_wake [simp]:
  "card (wake ch s) = card s" "bus_log (wake ch s) = bus_log s" "is_standard_sd (wake ch s) = is_standard_sd s"
  "card (set_slock k v s) = card s" "bus_log (set_slock k v s) = bus_log s" "is_standard_sd (set_slock k v s) = is_standard_sd s"
  by (simp_all add: wake_def set_slock_def)

lemma read_reply: "reply (card s) (bus_log s) bs \<Longrightarrow> sd_read_data (length bs) s = (bs, on_bus (map In bs) s)"
  by (induction bs arbitrary: s) auto

lemma await_reply:
  "reply (card s) (bus_log s) (xs @ [x]) \<Longrightarrow> \<forall>y\<in>set xs. \<not> P y \<Longrightarrow> P x \<Longrightarrow> length xs < n \<Longrightarrow>
   sd_await P n s = (Some x, on_bus (map In (xs @ [x])) s)"
proof (induction n arbitrary: s xs)
  case (Suc n)
  show ?case
  proof (cases xs)
    case Nil
    then show ?thesis using Suc.prems by simp
  next
    case (Cons y ys)
    then show ?thesis using Suc.IH [of "on_bus [In y] s" ys] Suc.prems by simp
  qed
qed simp

lemma await_none:
  "(\<And>l. \<not> P (card s l)) \<Longrightarrow> \<exists>es. sd_await P n s = (None, on_bus es s)"
proof (induction n arbitrary: s)
  case (Suc n)
  show ?case using Suc.IH [of "on_bus [In (card s (bus_log s))] s"] Suc.prems by (auto simp: Let_def)
next
  case 0 show ?case by (auto intro!: exI [of _ "[]"])
qed

text \<open>The bytes of a command, and of its end.\<close>

definition cmd_bytes :: "u8 \<Rightarrow> u32 \<Rightarrow> u8 \<Rightarrow> u8 list" where
  "cmd_bytes cmd arg crc = [cmd OR 0x40, ucast (drop_bit 24 arg), ucast (drop_bit 16 arg), ucast (drop_bit 8 arg), ucast arg, crc]"

definition cmd_events :: "u8 \<Rightarrow> u32 \<Rightarrow> bus list" where
  "cmd_events cmd arg = Cs False # map Out (cmd_bytes cmd arg 0)"

definition end_events :: "bus list" where
  "end_events = [Cs True, Out 0xff]"

lemma send_cmd_events: "sd_send_cmd cmd arg 0 s = on_bus (cmd_events cmd arg) s"
  by (simp add: sd_send_cmd_def sd_write_data_def SD_CS_LOW_def cmd_events_def cmd_bytes_def)

lemma end_cmd_events: "sd_end_cmd s = on_bus end_events s"
  by (simp add: sd_end_cmd_def sd_write_data_def SD_CS_HIGH_def end_events_def)

lemma R1_reply:
  assumes "reply (card s) (bus_log s) (replicate k 0xff @ [r])" and "r \<noteq> 0xff" and "k < 255"
  shows "sd_get_response_R1 s = (r, on_bus (map In (replicate k 0xff @ [r])) s)"
  using await_reply [OF assms(1), of "\<lambda>x. x \<noteq> 0xff" 255] assms(2,3) by (simp add: sd_get_response_R1_def)

section \<open>A card\<close>

text \<open>
  The protocol, as the specification of such cards states it for single blocks. \<open>ready\<close> are the histories after which the card waits for a command, \<open>stored\<close> is
  what its sectors hold then. The answer to a command comes within 255 bytes; before the data of a read the card may send other bytes than the
  token 0xfe; after the data of a write it answers with xxx00101, and with zeros as long as it is busy.
\<close>

definition read_answer :: "u8 list \<Rightarrow> nat \<Rightarrow> u8 list \<Rightarrow> u8 list \<Rightarrow> u8 list" where
  "read_answer d k pause crc = replicate k 0xff @ [0] @ pause @ [0xfe] @ d @ crc"

definition read_dialog :: "sdcard \<Rightarrow> bus list \<Rightarrow> u32 \<Rightarrow> u8 list \<Rightarrow> bus list \<Rightarrow> bool" where
  "read_dialog c l a d l' \<longleftrightarrow> length d = 512 \<and>
    (\<exists>k pause crc. k < 255 \<and> 0xfe \<notin> set pause \<and> length pause < 0xfffffe \<and> length crc = 2 \<and>
      reply c (l @ cmd_events 17 a) (read_answer d k pause crc) \<and>
      l' = l @ cmd_events 17 a @ map In (read_answer d k pause crc) @ end_events)"

definition sent :: "bus list \<Rightarrow> u32 \<Rightarrow> nat \<Rightarrow> u8 list \<Rightarrow> bus list" where
  "sent l a k d = l @ cmd_events 24 a @ map In (replicate k 0xff @ [0]) @ map Out ([0xfe] @ d @ [0xff, 0xff])"

definition write_dialog :: "sdcard \<Rightarrow> bus list \<Rightarrow> u32 \<Rightarrow> u8 list \<Rightarrow> bus list \<Rightarrow> bool" where
  "write_dialog c l a d l' \<longleftrightarrow>
    (\<exists>k pause r n x. k < 255 \<and> (\<forall>y\<in>set pause. y AND 0x1f \<noteq> 0x05) \<and> length pause < 0xffe \<and> r AND 0x1f = 0x05 \<and> n < 0xfffffe \<and> x \<noteq> 0 \<and>
      reply c (l @ cmd_events 24 a) (replicate k 0xff @ [0]) \<and> reply c (sent l a k d) (pause @ [r] @ replicate n 0 @ [x]) \<and>
      l' = sent l a k d @ map In (pause @ [r] @ replicate n 0 @ [x]) @ end_events)"

definition status_dialog :: "sdcard \<Rightarrow> bus list \<Rightarrow> bus list \<Rightarrow> bool" where
  "status_dialog c l l' \<longleftrightarrow>
    (\<exists>k. k < 255 \<and> reply c (l @ cmd_events 13 0) (replicate k 0xff @ [0, 0]) \<and>
      l' = l @ cmd_events 13 0 @ map In (replicate k 0xff @ [0, 0]) @ end_events)"

text \<open>
  The address of a sector: a byte address for cards of the standard kind, the number of the sector otherwise. Those of a card with \<open>cap\<close> sectors are the numbers below
  \<open>cap\<close>; cards of the standard kind have at most \<open>2^23\<close>, so that there is an address for each.
\<close>

definition card_key :: "bool \<Rightarrow> nat \<Rightarrow> u32 \<Rightarrow> bool" where
  "card_key std cap n \<longleftrightarrow> unat n < cap \<and> (std \<longrightarrow> unat n < 2 ^ 23)"

definition card_addr :: "bool \<Rightarrow> u32 \<Rightarrow> u32" where
  "card_addr std n = (if std then push_bit 9 n else n)"

text \<open>
  A card of one of the two kinds with \<open>cap\<close> sectors, which reports no error for them. What it does with an address that is not the address of one of its sectors is left
  open; the specification has it answer with an error.
\<close>

definition sd_card :: "sdcard \<Rightarrow> bool \<Rightarrow> nat \<Rightarrow> (bus list \<Rightarrow> bool) \<Rightarrow> (bus list \<Rightarrow> u32 \<Rightarrow> u8 list) \<Rightarrow> bool" where
  "sd_card c std cap ready stored \<longleftrightarrow>
    (\<forall>l n. ready l \<longrightarrow> card_key std cap n \<longrightarrow> (\<exists>l'. read_dialog c l (card_addr std n) (stored l n) l' \<and> ready l' \<and> stored l' = stored l))
  \<and> (\<forall>l n d. ready l \<longrightarrow> card_key std cap n \<longrightarrow> length d = 512 \<longrightarrow>
      (\<exists>l'. write_dialog c l (card_addr std n) d l' \<and> ready l' \<and> stored l' = (stored l)(n := d)))
  \<and> (\<forall>l. ready l \<longrightarrow> (\<exists>l'. status_dialog c l l' \<and> ready l' \<and> stored l' = stored l))"

text \<open>A process may use the card: the driver's lock is free, the card waits for a command, and is of the kind that the driver has found.\<close>

definition sd_ok :: "nat \<Rightarrow> bool \<Rightarrow> nat \<Rightarrow> (bus list \<Rightarrow> bool) \<Rightarrow> (bus list \<Rightarrow> u32 \<Rightarrow> u8 list) \<Rightarrow> 'a sd_st_scheme \<Rightarrow> bool" where
  "sd_ok p std cap ready stored s \<longleftrightarrow> running p s \<and> \<not> sl_locked (slocks s CardSL) \<and> sd_card (card s) std cap ready stored \<and> ready (bus_log s) \<and> is_standard_sd s = std"

text \<open>What the sectors of the card hold.\<close>

definition card_view :: "(bus list \<Rightarrow> u32 \<Rightarrow> u8 list) \<Rightarrow> 'a sd_st_scheme \<Rightarrow> u32 \<Rightarrow> u8 list" where
  "card_view stored s = stored (bus_log s)"

lemma sd_address_addr: "sd_ok p std cap ready stored s \<Longrightarrow> sd_address s n = card_addr std n"
  by (simp add: sd_ok_def sd_address_def card_addr_def)

section \<open>Reading and writing\<close>

text \<open>The lock around a use of the card.\<close>

lemma take_card:
  assumes "sd_ok p std cap ready stored s"
  shows "\<exists>t. acquiresleep CardSL s = Inr t \<and> running p t \<and> card t = card s \<and> bus_log t = bus_log s \<and> is_standard_sd t = std"
proof -
  have "running p s" "\<not> sl_locked (slocks s CardSL)" "is_standard_sd s = std" using assms by (simp_all add: sd_ok_def)
  then show ?thesis by (simp add: acquiresleep_free running_def)
qed

lemma give_card:
  assumes "running p t" and "sd_card (card t) std cap ready stored" and "ready (bus_log t)" and "is_standard_sd t = std"
  shows "\<exists>t'. releasesleep CardSL t = Inr t' \<and> sd_ok p std cap ready stored t' \<and> bus_log t' = bus_log t"
  using assms by (simp add: releasesleep_eq [OF assms(1)] sd_ok_def running_def)

lemma sd_read_ok:
  assumes "sd_ok p std cap ready stored s" and key: "card_key std cap n"
  shows "\<exists>s'. sdcard_read_sector n s = Inr (stored (bus_log s) n, s') \<and> sd_ok p std cap ready stored s' \<and> stored (bus_log s') = stored (bus_log s)"
proof -
  let ?l = "bus_log s" and ?a = "card_addr std n"
  obtain t where t: "acquiresleep CardSL s = Inr t" "running p t" "card t = card s" "bus_log t = ?l" "is_standard_sd t = std"
    using take_card [OF assms(1)] by blast
  have c: "sd_card (card s) std cap ready stored" "ready ?l" using assms(1) by (simp_all add: sd_ok_def)
  then obtain l' where l': "read_dialog (card s) ?l ?a (stored ?l n) l'" "ready l'" "stored l' = stored ?l"
    unfolding sd_card_def using key by blast
  define d where "d = stored ?l n"
  obtain k pause crc where r: "length d = 512" "k < 255" "0xfe \<notin> set pause" "length pause < 0xfffffe" "length crc = 2"
      "reply (card s) (?l @ cmd_events 17 ?a) (read_answer d k pause crc)"
      "l' = ?l @ cmd_events 17 ?a @ map In (read_answer d k pause crc) @ end_events"
    using l'(1) unfolding d_def [symmetric] read_dialog_def by blast
  let ?t1 = "on_bus (cmd_events 17 ?a) t"
  let ?t2 = "on_bus (map In (replicate k 0xff @ [0])) ?t1"
  let ?t3 = "on_bus (map In (pause @ [0xfe])) ?t2"
  let ?t4 = "on_bus (map In d) ?t3"
  let ?t5 = "on_bus (map In crc) ?t4"
  note rep = r(6) [unfolded read_answer_def]
  have 1: "sd_send_cmd SD_CMD17 ?a 0 t = ?t1" by (simp add: send_cmd_events SD_CMD17_def)
  have 2: "sd_get_response_R1 ?t1 = (0, ?t2)"
    by (rule R1_reply) (use rep r(2) t in simp_all)
  have 3: "sd_await (\<lambda>x. x = 0xfe) (0xffffff - 1) ?t2 = (Some 0xfe, ?t3)"
    by (rule await_reply) (use rep r(3,4) t in auto)
  have 4: "sd_read_data BSIZE ?t3 = (d, ?t4)"
    using read_reply [of ?t3 d] rep r(1) t by (simp add: BSIZE_def)
  have 5: "sd_read_data 2 ?t4 = (crc, ?t5)"
    using read_reply [of ?t4 crc] rep r(5) t by simp
  have log: "bus_log (sd_end_cmd ?t5) = l'" using t(4) by (simp add: end_cmd_events r(7) read_answer_def)
  obtain s' where s': "releasesleep CardSL (sd_end_cmd ?t5) = Inr s'" "sd_ok p std cap ready stored s'" "bus_log s' = l'"
    using give_card [of p "sd_end_cmd ?t5" std cap ready stored] c(1) t(2,3,5) l'(2) log by (auto simp: end_cmd_events)
  have "sdcard_read_sector n s = Inr (d, s')"
    using t(1) 1 2 3 4 5 s'(1) by (simp add: sdcard_read_sector_def sd_address_addr [OF assms(1)] Let_def del: on_bus_simps(1))
  then show ?thesis using s'(2,3) l'(3) by (auto simp: d_def)
qed

lemma sd_check_ok:
  assumes "running p t" and "sd_card (card t) std cap ready stored" and "ready (bus_log t)" and "is_standard_sd t = std"
  shows "\<exists>s'. sd_check_status t = Inr s' \<and> sd_ok p std cap ready stored s' \<and> stored (bus_log s') = stored (bus_log t)"
proof -
  let ?l = "bus_log t"
  obtain l' where l': "status_dialog (card t) ?l l'" "ready l'" "stored l' = stored ?l"
    using assms(2,3) unfolding sd_card_def by blast
  obtain k where r: "k < 255" "reply (card t) (?l @ cmd_events 13 0) (replicate k 0xff @ [0, 0])"
      "l' = ?l @ cmd_events 13 0 @ map In (replicate k 0xff @ [0, 0]) @ end_events"
    using l'(1) unfolding status_dialog_def by blast
  let ?t1 = "on_bus (cmd_events 13 0) t"
  let ?t2 = "on_bus (map In (replicate k 0xff @ [0])) ?t1"
  let ?t3 = "on_bus (map In [0]) ?t2"
  have 1: "sd_send_cmd SD_CMD13 0 0 t = ?t1" by (simp add: send_cmd_events SD_CMD13_def)
  have 2: "sd_get_response_R1 ?t1 = (0, ?t2)"
    by (rule R1_reply) (use r in simp_all)
  have 3: "sd_read_data 1 ?t2 = ([0], ?t3)"
    using read_reply [of ?t2 "[0]"] r(2) by simp
  have log: "bus_log (sd_end_cmd ?t3) = l'" by (simp add: end_cmd_events r(3))
  obtain s' where s': "releasesleep CardSL (sd_end_cmd ?t3) = Inr s'" "sd_ok p std cap ready stored s'" "bus_log s' = l'"
    using give_card [of p "sd_end_cmd ?t3" std cap ready stored] assms l'(2) log by (auto simp: end_cmd_events)
  have "sd_check_status t = Inr s'"
    using 1 2 3 s'(1) by (simp add: sd_check_status_def Let_def del: on_bus_simps(1) sd_read_data.simps One_nat_def)
  then show ?thesis using s'(2,3) l'(3) by auto
qed

lemma sd_write_ok:
  assumes "sd_ok p std cap ready stored s" and "length d = 512" and key: "card_key std cap n"
  shows "\<exists>s'. sdcard_write_sector d n s = Inr s' \<and> sd_ok p std cap ready stored s' \<and> stored (bus_log s') = (stored (bus_log s))(n := d)"
proof -
  let ?l = "bus_log s" and ?a = "card_addr std n"
  obtain t where t: "acquiresleep CardSL s = Inr t" "running p t" "card t = card s" "bus_log t = ?l" "is_standard_sd t = std"
    using take_card [OF assms(1)] by blast
  have c: "sd_card (card s) std cap ready stored" "ready ?l" using assms(1) by (simp_all add: sd_ok_def)
  then obtain l' where l': "write_dialog (card s) ?l ?a d l'" "ready l'" "stored l' = (stored ?l)(n := d)"
    using assms(2) key unfolding sd_card_def by blast
  obtain k pause r n' x where r: "k < 255" "\<forall>y\<in>set pause. y AND 0x1f \<noteq> 0x05" "length pause < 0xffe" "r AND 0x1f = 0x05" "n' < 0xfffffe" "x \<noteq> 0"
      "reply (card s) (?l @ cmd_events 24 ?a) (replicate k 0xff @ [0])" "reply (card s) (sent ?l ?a k d) (pause @ [r] @ replicate n' 0 @ [x])"
      "l' = sent ?l ?a k d @ map In (pause @ [r] @ replicate n' 0 @ [x]) @ end_events"
    using l'(1) unfolding write_dialog_def by blast
  let ?t1 = "on_bus (cmd_events 24 ?a) t"
  let ?t2 = "on_bus (map In (replicate k 0xff @ [0])) ?t1"
  define t3 where "t3 = sd_write_data [0xff, 0xff] (sd_write_data (take BSIZE d) (sd_write_data [0xfe] ?t2))"
  have t3: "t3 = on_bus (map Out ([0xfe] @ d @ [0xff, 0xff])) ?t2" using assms(2) by (simp add: t3_def sd_write_data_def BSIZE_def)
  have log3: "bus_log t3 = sent ?l ?a k d" "card t3 = card s" using t by (simp_all add: t3 sent_def)
  let ?t4 = "on_bus (map In (pause @ [r])) t3"
  let ?t5 = "on_bus (map In (replicate n' 0 @ [x])) ?t4"
  have 1: "sd_send_cmd SD_CMD24 ?a 0 t = ?t1" by (simp add: send_cmd_events SD_CMD24_def)
  have 2: "sd_get_response_R1 ?t1 = (0, ?t2)"
    by (rule R1_reply) (use r(1,7) t in simp_all)
  have 4: "sd_await (\<lambda>x. x AND 0x1f = 0x05) (0xfff - 1) t3 = (Some r, ?t4)"
    by (rule await_reply) (use r log3 in auto)
  have 5: "sd_await (\<lambda>x. x \<noteq> 0) (0xffffff - 1) ?t4 = (Some x, ?t5)"
    by (rule await_reply) (use r log3 in auto)
  let ?t6 = "sd_end_cmd ?t5"
  have log: "bus_log ?t6 = l'" using log3 by (simp add: end_cmd_events r(9))
  obtain s' where s': "sd_check_status ?t6 = Inr s'" "sd_ok p std cap ready stored s'" "stored (bus_log s') = stored l'"
    using sd_check_ok [of p ?t6 std cap ready stored] c(1) t(2,5) log3(2) l'(2) log by (auto simp: end_cmd_events t3)
  have "sdcard_write_sector d n s = Inr s'"
    using t(1) 1 2 4 5 s'(1) by (simp add: sdcard_write_sector_def sd_address_addr [OF assms(1)] Let_def t3_def del: on_bus_simps(1))
  then show ?thesis using s'(2,3) l'(3) by auto
qed

text \<open>The driver with a card is a store of sectors.\<close>

interpretation sdc: block_store "sd_ok p std cap ready stored" "card_key std cap" "card_view stored" "\<lambda>d. length d = 512"
  sdcard_read_sector "\<lambda>n d. sdcard_write_sector d n"
proof unfold_locales
  fix s :: "'a sd_st_scheme" and n d assume ok: "sd_ok p std cap ready stored s" and n: "card_key std cap n"
  show "\<exists>s'. sdcard_read_sector n s = Inr (card_view stored s n, s') \<and> sd_ok p std cap ready stored s' \<and>
      (\<forall>j. card_key std cap j \<longrightarrow> card_view stored s' j = card_view stored s j)"
    using sd_read_ok [OF ok n] by (auto simp: card_view_def)
  show "\<exists>s'. sdcard_write_sector d n s = Inr s' \<and> sd_ok p std cap ready stored s' \<and> card_view stored s' n = d \<and>
      (\<forall>j. card_key std cap j \<longrightarrow> j \<noteq> n \<longrightarrow> card_view stored s' j = card_view stored s j)" if d: "length d = 512"
    using sd_write_ok [OF ok d n] by (fastforce simp: card_view_def)
qed

text \<open>
  C12: With any card that follows the protocol, addressed by bytes or by sectors, after any sequence of writes to sectors that it has, a read of one of them returns
  the data of the last write to that sector, or what the card held there before, and no timeout strikes. Of sectors beyond the end of the card nothing is said.
\<close>

theorem sdcard_stores:
  assumes "sd_ok p std cap ready stored s" and "\<forall>w\<in>set ws. card_key std cap (fst w) \<and> length (snd w) = 512" and "card_key std cap n"
  shows "\<exists>s' s''. put_all (\<lambda>n d. sdcard_write_sector d n) ws s = Inr s'
    \<and> sdcard_read_sector n s' = Inr (case map_of (rev ws) n of None \<Rightarrow> stored (bus_log s) n | Some d \<Rightarrow> d, s'')"
  by (rule sdc.get_after_puts [OF assms, unfolded card_view_def])

section \<open>No card\<close>

lemma R1_dead:
  assumes "card s = (\<lambda>_. 0xff)"
  shows "\<exists>es. sd_get_response_R1 s = (0xff, on_bus es s)"
  using await_none [of "\<lambda>x. x \<noteq> 0xff" s 255] assms by (auto simp: sd_get_response_R1_def)

lemma switch_dead: "card s = (\<lambda>_. 0xff) \<Longrightarrow> \<exists>es. switch_loop n s = (False, on_bus es s)"
proof (induction n arbitrary: s)
  case (Suc n)
  let ?s = "sd_send_cmd SD_CMD0 0 0x95 s"
  have b: "\<exists>es. ?s = on_bus es s" by (auto simp: sd_send_cmd_def sd_write_data_def SD_CS_LOW_def)
  then have "card ?s = (\<lambda>_. 0xff)" using Suc.prems by auto
  then obtain es where e: "sd_get_response_R1 ?s = (0xff, on_bus es ?s)" using R1_dead by blast
  let ?t = "sd_end_cmd (on_bus es ?s)"
  obtain xs where t: "?t = on_bus xs s" using b by (auto simp: end_cmd_events)
  then have "card ?t = (\<lambda>_. 0xff)" using Suc.prems by simp
  then obtain fs where "switch_loop n ?t = (False, on_bus fs ?t)" using Suc.IH by blast
  then have "switch_loop (Suc n) s = (False, on_bus (xs @ fs) s)" using e t by (simp add: sd_command_def)
  then show ?case by blast
qed (auto intro!: exI [of _ "[]"])

text \<open>
  C39: Without a card, when the bus only ever reads 0xff, every operation ends: \<open>sdcard_init\<close> panics after its timeouts, and reading or writing a sector
  panics with the lock given back.
\<close>

theorem sdcard_absent:
  assumes "card s = (\<lambda>_. 0xff)" and "running p s" and "\<not> sl_locked (slocks s CardSL)"
  shows "sdcard_init s = Inl (Panic ''sdcard_init failed'')
    \<and> sdcard_read_sector n s = Inl (Panic ''sdcard: fail to read'') \<and> sdcard_write_sector d n s = Inl (Panic ''sdcard: fail to write'')"
proof -
  let ?s = "sd_write_data (replicate 10 0xff) (SD_CS_LOW (sd_lowlevel_init 0 s))"
  have "card ?s = (\<lambda>_. 0xff)" using assms(1) by (simp add: sd_write_data_def SD_CS_LOW_def sd_lowlevel_init_def)
  then obtain es where "switch_loop (0xff - 1) ?s = (False, on_bus es ?s)" using switch_dead by blast
  then have init: "sdcard_init s = Inl (Panic ''sdcard_init failed'')"
    by (simp add: sdcard_init_def sd_init_def switch_to_SPI_mode_def Let_def)
  obtain t where t: "acquiresleep CardSL s = Inr t" "running p t" "card t = card s"
    using assms(2,3) by (simp add: acquiresleep_free running_def)
  have "\<exists>es t'. sd_get_response_R1 (sd_send_cmd cmd a 0 t) = (0xff, on_bus es t) \<and> releasesleep CardSL (on_bus es t) = Inr t'" for cmd a
    using R1_dead [of "on_bus (cmd_events cmd a) t"] assms(1) t(2,3) by (fastforce simp: send_cmd_events releasesleep_eq [of p])
  note dead = this
  obtain es t' where d17: "sd_get_response_R1 (sd_send_cmd SD_CMD17 (sd_address s n) 0 t) = (0xff, on_bus es t)" "releasesleep CardSL (on_bus es t) = Inr t'"
    using dead by blast
  obtain fs t'' where d24: "sd_get_response_R1 (sd_send_cmd SD_CMD24 (sd_address s n) 0 t) = (0xff, on_bus fs t)" "releasesleep CardSL (on_bus fs t) = Inr t''"
    using dead by blast
  show ?thesis using init t(1) d17 d24 by (simp add: sdcard_read_sector_def sdcard_write_sector_def)
qed

section \<open>A card to try\<close>

text \<open>
  A card of the standard kind with 2048 sectors that answers at once. An address that is not that of a sector is answered with the bit of an address error, or of a
  parameter error when it is beyond the end. \<open>frame\<close> is what the card has received since its pin went low, \<open>out\<close> what it is going to send.
\<close>

record mini_card =
  blocks :: "u32 \<Rightarrow> u8 list"
  frame :: "u8 list"
  out :: "u8 list"

definition frame_addr :: "u8 list \<Rightarrow> u32" where
  "frame_addr b = push_bit 24 (ucast (b ! 1)) OR push_bit 16 (ucast (b ! 2)) OR push_bit 8 (ucast (b ! 3)) OR ucast (b ! 4)"

definition addr_error :: "u32 \<Rightarrow> u8" where
  "addr_error a = (if take_bit 9 a \<noteq> 0 then 0x20 else if drop_bit 9 a < 2048 then 0 else 0x40)"

definition card_byte :: "mini_card \<Rightarrow> mini_card" where
  "card_byte m =
    (let b = frame m; a = frame_addr b; e = addr_error a in
     if length b = 6 then
       m\<lparr>out :=
         (if hd b = 0x51 then (if e = 0 then [0, 0xfe] @ blocks m (drop_bit 9 a) @ [0, 0] else [e]) else if hd b = 0x58 then [e] else [0, 0])\<rparr>
     else if length b = 521 \<and> hd b = 0x58 \<and> e = 0 then
       m\<lparr>blocks := (blocks m)(drop_bit 9 a := take 512 (drop 7 b)), out := [0x05, 0xff]\<rparr>
     else m)"

fun card_step :: "mini_card \<Rightarrow> bus \<Rightarrow> mini_card" where
  "card_step m (Cs b) = m\<lparr>frame := [], out := []\<rparr>"
| "card_step m (Out x) = card_byte (m\<lparr>frame := frame m @ [x]\<rparr>)"
| "card_step m (In x) = m\<lparr>out := tl (out m)\<rparr>"

definition after :: "bus list \<Rightarrow> mini_card" where
  "after l = foldl card_step \<lparr>blocks = (\<lambda>_. replicate 512 0), frame = [], out = []\<rparr> l"

definition mini :: sdcard where
  "mini l = (case out (after l) of [] \<Rightarrow> 0xff | x # _ \<Rightarrow> x)"

definition mini_ready :: "bus list \<Rightarrow> bool" where
  "mini_ready l \<longleftrightarrow> (\<forall>a. length (blocks (after l) a) = 512)"

definition mini_stored :: "bus list \<Rightarrow> u32 \<Rightarrow> u8 list" where
  "mini_stored l n = blocks (after l) n"

lemma after_append: "after (l @ es) = foldl card_step (after l) es"
  by (simp add: after_def)

lemma mini_ins: "foldl card_step m (map In bs) = m\<lparr>out := drop (length bs) (out m)\<rparr>"
  by (induction bs arbitrary: m) (simp_all add: drop_Suc)

lemma mini_reply: "out (after l) = bs @ rest \<Longrightarrow> reply mini l bs"
proof (induction bs arbitrary: l)
  case (Cons x bs)
  then show ?case by (simp add: mini_def after_append)
qed simp

lemma mini_cmd:
  "foldl card_step m (cmd_events cmd a) = card_byte (m\<lparr>frame := cmd_bytes cmd a 0, out := []\<rparr>)"
  by (simp add: cmd_events_def cmd_bytes_def card_byte_def Let_def)

lemma mini_end: "foldl card_step m end_events = m\<lparr>frame := [0xff], out := []\<rparr>"
  by (simp add: end_events_def card_byte_def)

text \<open>Data that does not complete the frame.\<close>

lemma mini_outs:
  "6 \<le> length (frame m) \<Longrightarrow> length (frame m) + length bs < 521 \<Longrightarrow> foldl card_step m (map Out bs) = m\<lparr>frame := frame m @ bs\<rparr>"
proof (induction bs arbitrary: m)
  case (Cons x bs)
  then show ?case by (simp add: card_byte_def Let_def)
qed simp

lemma frame_addr_cmd: "frame_addr (cmd_bytes cmd a crc @ bs) = a"
proof (rule bit_word_eqI)
  fix i assume i: "i < LENGTH(32)"
  then have "i < 8 \<or> 8 \<le> i \<and> i < 16 \<or> 16 \<le> i \<and> i < 24 \<or> 24 \<le> i \<and> i < 32" by auto
  then show "bit (frame_addr (cmd_bytes cmd a crc @ bs)) i = bit a i"
    by (elim disjE) (auto simp: frame_addr_def cmd_bytes_def bit_simps)
qed

text \<open>The address of a sector of the card.\<close>

lemma mini_addr:
  assumes "card_key True 2048 n"
  shows "drop_bit 9 (card_addr True n) = n" and "addr_error (card_addr True n) = 0"
proof -
  have n: "unat n < 2048" using assms by (simp add: card_key_def)
  then have "unat (push_bit 9 n) = unat n * 512" by (simp add: push_bit_eq_mult unat_word_ariths)
  then have "unat (drop_bit 9 (push_bit 9 n)) = unat n" by (simp add: drop_bit_eq_div unat_div)
  then show d: "drop_bit 9 (card_addr True n) = n" by (simp add: card_addr_def unat_inj)
  have "take_bit 9 (push_bit 9 n) = 0" by (rule bit_word_eqI) (simp add: bit_simps)
  then show "addr_error (card_addr True n) = 0"
    using n d by (simp add: addr_error_def card_addr_def word_less_nat_alt)
qed

lemma mini_read:
  assumes "mini_ready l" and key: "card_key True 2048 n"
  shows "\<exists>l'. read_dialog mini l (card_addr True n) (mini_stored l n) l' \<and> mini_ready l' \<and> mini_stored l' = mini_stored l"
proof -
  let ?a = "card_addr True n"
  let ?ans = "read_answer (mini_stored l n) 0 [] [0, 0]"
  let ?l = "l @ cmd_events 17 ?a"
  have o: "after ?l = (after l)\<lparr>frame := cmd_bytes 17 ?a 0, out := ?ans\<rparr>"
    using frame_addr_cmd [of 17 ?a 0 "[]"] mini_addr [OF key]
    by (simp add: after_append mini_cmd card_byte_def Let_def read_answer_def mini_stored_def) (simp add: cmd_bytes_def)
  have r: "reply mini ?l ?ans" by (rule mini_reply [of _ _ "[]"]) (simp add: o)
  let ?l' = "l @ cmd_events 17 ?a @ map In ?ans @ end_events"
  have b: "blocks (after ?l') = blocks (after l)"
    using o by (simp add: after_append mini_ins mini_end)
  have "read_dialog mini l ?a (mini_stored l n) ?l'"
    unfolding read_dialog_def using assms(1) r
    by (intro conjI exI [of _ 0] exI [of _ "[]"] exI [of _ "[0, 0]"]) (simp_all add: mini_ready_def mini_stored_def)
  moreover have "mini_ready ?l'" "mini_stored ?l' = mini_stored l" using assms(1) b by (simp_all add: mini_ready_def mini_stored_def fun_eq_iff)
  ultimately show ?thesis by blast
qed

lemma mini_write:
  assumes "mini_ready l" and "length d = 512" and key: "card_key True 2048 n"
  shows "\<exists>l'. write_dialog mini l (card_addr True n) d l' \<and> mini_ready l' \<and> mini_stored l' = (mini_stored l)(n := d)"
proof -
  let ?a = "card_addr True n"
  let ?l = "l @ cmd_events 24 ?a"
  let ?b = "cmd_bytes 24 ?a 0"
  have o: "after ?l = (after l)\<lparr>frame := ?b, out := [0]\<rparr>"
    using frame_addr_cmd [of 24 ?a 0 "[]"] mini_addr [OF key]
    by (simp add: after_append mini_cmd card_byte_def Let_def) (simp add: cmd_bytes_def)
  have r: "reply mini ?l (replicate 0 0xff @ [0])" by (rule mini_reply [of _ _ "[]"]) (simp add: o)
  let ?m = "(after l)\<lparr>frame := ?b, out := []\<rparr>"
  have lb: "length ?b = 6" "hd (?b @ bs) = 0x58" for bs by (simp_all add: cmd_bytes_def)
  have "foldl card_step ?m (map Out ([0xfe] @ d @ [0xff])) = ?m\<lparr>frame := ?b @ [0xfe] @ d @ [0xff]\<rparr>"
    using mini_outs [of ?m "[0xfe] @ d @ [0xff]"] assms(2) lb(1) by simp
  then have "foldl card_step ?m (map Out ([0xfe] @ d @ [0xff, 0xff])) = card_byte (?m\<lparr>frame := ?b @ [0xfe] @ d @ [0xff, 0xff]\<rparr>)"
    by simp
  also have "\<dots> = ?m\<lparr>frame := ?b @ [0xfe] @ d @ [0xff, 0xff], blocks := (blocks (after l))(n := d), out := [0x05, 0xff]\<rparr>"
    using assms(2) lb frame_addr_cmd [of 24 ?a 0 "[0xfe] @ d @ [0xff, 0xff]"] mini_addr [OF key] by (simp add: card_byte_def Let_def)
  finally have s: "after (sent l ?a 0 d) = ?m\<lparr>frame := ?b @ [0xfe] @ d @ [0xff, 0xff], blocks := (blocks (after l))(n := d), out := [0x05, 0xff]\<rparr>"
    using o by (simp add: sent_def after_append mini_ins)
  let ?ans = "[] @ [0x05] @ replicate 0 0 @ [0xff] :: u8 list"
  have r1: "reply mini (sent l ?a 0 d) ?ans" by (rule mini_reply [of _ _ "[]"]) (simp add: s)
  let ?l' = "sent l ?a 0 d @ map In ?ans @ end_events"
  have b: "blocks (after ?l') = (blocks (after l))(n := d)"
    using s by (simp add: after_append [of "sent l ?a 0 d"] mini_ins mini_end)
  have "write_dialog mini l ?a d ?l'"
    unfolding write_dialog_def using r r1
    by (intro exI [of _ 0] exI [of _ "[]"] exI [of _ "0x05"] exI [of _ "0xff"]) simp
  moreover have "mini_ready ?l'" using assms(1,2) b by (simp add: mini_ready_def)
  moreover have "mini_stored ?l' = (mini_stored l)(n := d)" using b by (auto simp: mini_stored_def fun_eq_iff)
  ultimately show ?thesis by blast
qed

lemma mini_status:
  assumes "mini_ready l"
  shows "\<exists>l'. status_dialog mini l l' \<and> mini_ready l' \<and> mini_stored l' = mini_stored l"
proof -
  let ?l = "l @ cmd_events 13 0"
  have o: "after ?l = (after l)\<lparr>frame := cmd_bytes 13 0 0, out := [0, 0]\<rparr>"
    by (simp add: after_append mini_cmd card_byte_def Let_def) (simp add: cmd_bytes_def)
  have r: "reply mini ?l (replicate 0 0xff @ [0, 0])" by (rule mini_reply [of _ _ "[]"]) (simp add: o)
  let ?l' = "l @ cmd_events 13 0 @ map In (replicate 0 0xff @ [0, 0]) @ end_events"
  have b: "blocks (after ?l') = blocks (after l)" using o by (simp add: after_append mini_ins mini_end)
  have "status_dialog mini l ?l'" unfolding status_dialog_def using r by (intro exI [of _ 0]) simp
  moreover have "mini_ready ?l'" "mini_stored ?l' = mini_stored l" using assms b by (simp_all add: mini_ready_def mini_stored_def fun_eq_iff)
  ultimately show ?thesis by blast
qed

lemma mini_sd_card: "sd_card mini True 2048 mini_ready mini_stored"
  unfolding sd_card_def using mini_read mini_write mini_status by blast

definition sd_demo :: sd_st where
  "sd_demo = bio_st.extend bio_demo \<lparr>card = mini, bus_log = [], is_standard_sd = True, said = [],
    board = \<lparr>fpioa = (\<lambda>i. io_config FUNC_RESV0), input_en = 0, output_en = 0, output_val = 0\<rparr>\<rparr>"

lemma sd_demo_ok: "sd_ok 2 True 2048 mini_ready mini_stored sd_demo"
  using mini_sd_card
  by (simp add: sd_ok_def sd_demo_def running_def bio_demo_def slk_demo_def bio_st.defs slk_st.defs proc_st.defs mini_ready_def after_def)

lemma sdcard_stores_witness:
  "\<exists>s' s''. put_all (\<lambda>n d. sdcard_write_sector d n) [(7, replicate 512 3), (8, replicate 512 4)] sd_demo = Inr s' \<and>
    sdcard_read_sector 7 s' = Inr (replicate 512 3, s'')"
  using sdcard_stores [OF sd_demo_ok, of "[(7, replicate 512 3), (8, replicate 512 4)]" 7] by (simp add: card_key_def)

lemma sdcard_absent_witness: "sdcard_init (sd_demo\<lparr>card := \<lambda>_. 0xff\<rparr>) = Inl (Panic ''sdcard_init failed'')"
  using sdcard_absent [of "sd_demo\<lparr>card := \<lambda>_. 0xff\<rparr>" 2 0 "[]"] sd_demo_ok by (simp add: sd_ok_def running_def)

end
