(* ===== verification/SpiProps.thy ===== *)
theory SpiProps imports Spi SdcardProps begin

text \<open>
  What the accesses to the controller of kernel/spi.c put on the bus. \<open>wire_of\<close> reads a history of register accesses as the manual of the controller
  does; \<open>spi_ctl_ok\<close> is what the manual promises of the registers. Then sending and receiving through the registers are the operations on the
  bus that kernel/sdcard.c is modelled with.
\<close>

section \<open>A history as seen from the bus\<close>

text \<open>
  The controller of the card (device 0): its control register, the number of frames to receive, whether it is on and a slave is selected, whether a transfer has been
  started, for how many frames (\<open>w_asked\<close>) and how many of them are still to be received, for how many frames the queues have room and frames, as far as the driver has
  been told, the frames stored of which the driver has not been told that they have been sent (\<open>w_pend\<close>), how many frames were lost in the queues, and what has
  certainly been on the bus.
\<close>

record wire =
  w_ctrl :: "u32 option"
  w_frames :: u32
  w_on :: bool
  w_sel :: bool
  w_kick :: bool
  w_asked :: nat
  w_due :: nat
  w_room :: nat
  w_avail :: nat
  w_pend :: "u8 list"
  w_lost :: nat
  w_bus :: "bus list"

text \<open>The transfer mode, when the controller is on and its frames are bytes.\<close>

definition w_mode :: "wire \<Rightarrow> u32 \<Rightarrow> bool" where
  "w_mode w m \<longleftrightarrow> w_on w \<and> (\<exists>c. w_ctrl w = Some c \<and> drop_bit 16 c AND 0x1F = 7 \<and> drop_bit 8 c AND 3 = m)"

text \<open>
  A store to the data register: a frame to send, which waits in the queue, or in receive mode the start of the transfer. A frame for which there is no room is lost.
  Loading the data register takes a frame that has come in. When the status register says that the queue is empty and the controller is not busy, the frames that were
  waiting have been sent. Turning the controller on or off empties the queues: a frame that was still waiting is lost, and so is one that was asked for and not taken. While
  the controller is on, its control registers cannot be changed.
\<close>

definition wire_put :: "u32 \<Rightarrow> wire \<Rightarrow> wire" where
  "wire_put v w =
    (if w_room w = 0 then w
     else if w_mode w 1 then w\<lparr>w_room := w_room w - 1, w_pend := w_pend w @ [ucast v]\<rparr>
     else if w_mode w 2 \<and> \<not> w_kick w
     then w\<lparr>w_room := w_room w - 1, w_kick := True, w_asked := Suc (unat (w_frames w)), w_due := Suc (unat (w_frames w))\<rparr>
     else w)"

definition wire_get :: "u32 \<Rightarrow> wire \<Rightarrow> wire" where
  "wire_get v w =
    (if w_mode w 2 \<and> 0 < w_avail w
     then w\<lparr>w_avail := w_avail w - 1, w_due := w_due w - 1, w_bus := w_bus w @ [In (ucast v)]\<rparr> else w)"

definition wire_status :: "u32 \<Rightarrow> wire \<Rightarrow> wire" where
  "wire_status v w = (if v AND 5 = 4 \<and> w_sel w then w\<lparr>w_pend := [], w_bus := w_bus w @ map Out (w_pend w)\<rparr> else w)"

fun wire_step :: "wire \<Rightarrow> hw_ev \<Rightarrow> wire" where
  "wire_step w (SpiWr n r v) =
    (if n \<noteq> 0 then w
     else case r of
       CTRLR0 \<Rightarrow> if w_on w then w else w\<lparr>w_ctrl := Some v\<rparr>
     | CTRLR1 \<Rightarrow> if w_on w then w else w\<lparr>w_frames := v\<rparr>
     | SSIENR \<Rightarrow> w\<lparr>w_on := (v \<noteq> 0), w_kick := False, w_asked := 0, w_due := 0, w_room := 32, w_avail := 0, w_pend := [],
         w_lost := w_lost w + w_due w + length (w_pend w)\<rparr>
     | SER \<Rightarrow> w\<lparr>w_sel := (v \<noteq> 0)\<rparr>
     | DR \<Rightarrow> wire_put v w
     | _ \<Rightarrow> w)"
| "wire_step w (SpiRd n r v) =
    (if n \<noteq> 0 then w
     else case r of
       TXFLR \<Rightarrow> w\<lparr>w_room := 32 - unat v\<rparr>
     | RXFLR \<Rightarrow> w\<lparr>w_avail := unat v\<rparr>
     | SR \<Rightarrow> wire_status v w
     | DR \<Rightarrow> wire_get v w
     | _ \<Rightarrow> w)"
| "wire_step w (PinOut v) = w\<lparr>w_bus := w_bus w @ [Cs (bit v 7)]\<rparr>"
| "wire_step w (DmaRd r d) = w"
| "wire_step w (DmaWr r d) = w"

definition wire_of :: "hw_ev list \<Rightarrow> wire" where
  "wire_of = foldl wire_step
    \<lparr>w_ctrl = None, w_frames = 0, w_on = False, w_sel = False, w_kick = False, w_asked = 0, w_due = 0, w_room = 32, w_avail = 0,
      w_pend = [], w_lost = 0, w_bus = []\<rparr>"

text \<open>The state as kernel/sdcard.c sees it: with the bus.\<close>

definition wire_view :: "'a spi_st_scheme \<Rightarrow> 'a spi_st_scheme" where
  "wire_view s = s\<lparr>bus_log := w_bus (wire_of (hw_log s))\<rparr>"

section \<open>The promises of the controller\<close>

text \<open>The history after \<open>k\<close> loads of a register.\<close>

primrec polled :: "spi_ctl \<Rightarrow> spi_reg \<Rightarrow> nat \<Rightarrow> hw_ev list \<Rightarrow> hw_ev list" where
  "polled ctl r 0 l = l"
| "polled ctl r (Suc k) l = polled ctl r k (l @ [SpiRd 0 r (ctl l 0 r)])"

text \<open>A driver that keeps loading a register sees a value that satisfies \<open>P\<close>.\<close>

definition in_time :: "spi_ctl \<Rightarrow> spi_reg \<Rightarrow> (u32 \<Rightarrow> bool) \<Rightarrow> hw_ev list \<Rightarrow> bool" where
  "in_time ctl r P l \<longleftrightarrow> (\<exists>k. P (ctl (polled ctl r k l) 0 r))"

text \<open>
  The control register holds what was stored in it. The queue of frames to send holds at most 32 and is drained while a slave is selected, and so in the end the
  controller is idle. No more frames come in than were asked for. When at most 32 were asked for, so many that the queue of frames received has room for all of them, they
  do come in, and they are those that the card sends, in order. Of longer transfers nothing is promised: then frames that the driver does not take in time are lost.
\<close>

definition spi_ctl_ok :: "spi_ctl \<Rightarrow> sdcard \<Rightarrow> bool" where
  "spi_ctl_ok ctl c \<longleftrightarrow>
    (\<forall>l. let w = wire_of l in
      (\<forall>v. w_ctrl w = Some v \<longrightarrow> ctl l 0 CTRLR0 = v)
      \<and> ctl l 0 TXFLR \<le> 32 \<and> unat (ctl l 0 RXFLR) \<le> w_due w
      \<and> (w_mode w 1 \<and> w_sel w \<longrightarrow> in_time ctl TXFLR (\<lambda>v. v < 32) l \<and> in_time ctl SR (\<lambda>v. v AND 5 = 4) l)
      \<and> (w_mode w 2 \<and> w_asked w \<le> 32 \<and> w_sel w \<and> 0 < w_due w \<longrightarrow> in_time ctl RXFLR (\<lambda>v. 0 < v) l)
      \<and> (w_mode w 2 \<and> w_asked w \<le> 32 \<and> 0 < w_avail w \<longrightarrow> ucast (ctl l 0 DR) = c (w_bus w)))"

lemma ctl_okD:
  assumes "spi_ctl_ok ctl c"
  shows "w_ctrl (wire_of l) = Some v \<Longrightarrow> ctl l 0 CTRLR0 = v"
    and "ctl l 0 TXFLR \<le> 32" and "unat (ctl l 0 RXFLR) \<le> w_due (wire_of l)"
    and "w_mode (wire_of l) 1 \<Longrightarrow> w_sel (wire_of l) \<Longrightarrow> in_time ctl TXFLR (\<lambda>v. v < 32) l"
    and "w_mode (wire_of l) 1 \<Longrightarrow> w_sel (wire_of l) \<Longrightarrow> in_time ctl SR (\<lambda>v. v AND 5 = 4) l"
    and "w_mode (wire_of l) 2 \<Longrightarrow> w_asked (wire_of l) \<le> 32 \<Longrightarrow> w_sel (wire_of l) \<Longrightarrow> 0 < w_due (wire_of l) \<Longrightarrow> in_time ctl RXFLR (\<lambda>v. 0 < v) l"
    and "w_mode (wire_of l) 2 \<Longrightarrow> w_asked (wire_of l) \<le> 32 \<Longrightarrow> 0 < w_avail (wire_of l) \<Longrightarrow> ucast (ctl l 0 DR) = c (w_bus (wire_of l))"
  using assms unfolding spi_ctl_ok_def Let_def by blast+

lemma in_time_step:
  "in_time ctl r P l \<Longrightarrow> P (ctl l 0 r) \<or> in_time ctl r P (l @ [SpiRd 0 r (ctl l 0 r)])"
proof -
  assume "in_time ctl r P l"
  then obtain k where k: "P (ctl (polled ctl r k l) 0 r)" by (auto simp: in_time_def)
  show ?thesis
  proof (cases k)
    case (Suc j)
    then show ?thesis using k by (auto simp: in_time_def)
  qed (use k in simp)
qed

text \<open>A loop that polls: induction on the number of loads that are needed.\<close>

lemma in_time_induct [consumes 1, case_names now later]:
  assumes "in_time ctl r P l"
    and now: "\<And>l. P (ctl l 0 r) \<Longrightarrow> Q l"
    and later: "\<And>l. \<not> P (ctl l 0 r) \<Longrightarrow> in_time ctl r P (l @ [SpiRd 0 r (ctl l 0 r)]) \<Longrightarrow> Q (l @ [SpiRd 0 r (ctl l 0 r)]) \<Longrightarrow> Q l"
  shows "Q l"
proof -
  obtain k where "P (ctl (polled ctl r k l) 0 r)" using assms(1) by (auto simp: in_time_def)
  then show ?thesis
  proof (induction k arbitrary: l)
    case (Suc k)
    show ?case
    proof (cases "P (ctl l 0 r)")
      case False
      let ?l = "l @ [SpiRd 0 r (ctl l 0 r)]"
      have "P (ctl (polled ctl r k ?l) 0 r)" using Suc.prems by simp
      then have "in_time ctl r P ?l" "Q ?l" using Suc.IH [of ?l] unfolding in_time_def by blast+
      then show ?thesis using False later by blast
    qed (rule now)
  qed (use now in simp)
qed

text \<open>One more turn.\<close>

lemma more_fuel: "(\<And>f. N \<le> f \<Longrightarrow> P (Suc f)) \<Longrightarrow> \<forall>fuel\<ge>Suc N. P fuel"
  by (metis Suc_le_D Suc_le_mono)

section \<open>Accesses\<close>

abbreviation wire :: "'a spi_st_scheme \<Rightarrow> wire" where
  "wire s \<equiv> wire_of (hw_log s)"

lemma wire_of_snoc [simp]: "wire_of (l @ [e]) = wire_step (wire_of l) e"
  by (simp add: wire_of_def)

lemma log_ev_simps [simp]:
  "hw_log (log_ev e s) = hw_log s @ [e]" "mem (log_ev e s) = mem s" "spi (log_ev e s) = spi s" "card (log_ev e s) = card s"
  "core (log_ev e s) = core s" "send_junk (log_ev e s) = send_junk s" "board (log_ev e s) = board s"
  by (simp_all add: log_ev_def)

text \<open>Two states that only differ in the history, and in the history and the memory.\<close>

definition same_but_log :: "'a spi_st_scheme \<Rightarrow> 'a spi_st_scheme \<Rightarrow> bool" where
  "same_but_log s t \<longleftrightarrow> t = s\<lparr>hw_log := hw_log t\<rparr>"

lemma same_but_log_refl [simp]: "same_but_log s s" by (simp add: same_but_log_def)

lemma same_but_log_trans [trans]: "same_but_log s t \<Longrightarrow> same_but_log t u \<Longrightarrow> same_but_log s u"
  by (cases s; cases t; cases u) (simp add: same_but_log_def)

lemma same_but_log_ev [simp]: "same_but_log s (log_ev e t) \<longleftrightarrow> same_but_log s t"
  by (cases s; cases t) (simp add: same_but_log_def log_ev_def)

lemma same_but_logD:
  "same_but_log s t \<Longrightarrow> mem t = mem s \<and> spi t = spi s \<and> card t = card s \<and> core t = core s \<and> send_junk t = send_junk s"
  by (cases s; cases t) (simp add: same_but_log_def)

section \<open>Set-up\<close>

lemma spi_acc [simp]:
  "wire (spi_wr n r v s) = wire_step (wire s) (SpiWr n r v)"
  "same_but_log s (spi_wr n r v t) \<longleftrightarrow> same_but_log s t"
  "spi_rd n r s = (spi s (hw_log s) n r, log_ev (SpiRd n r (spi s (hw_log s) n r)) s)"
  by (simp_all add: spi_wr_def spi_rd_def Let_def)

lemma spi_wr_fields [simp]:
  "mem (spi_wr n r v s) = mem s" "spi (spi_wr n r v s) = spi s" "card (spi_wr n r v s) = card s" "core (spi_wr n r v s) = core s"
  "send_junk (spi_wr n r v s) = send_junk s"
  by (simp_all add: spi_wr_def)

text \<open>The wire of a controller that is off, with control word \<open>c\<close>.\<close>

definition wire_off :: "u32 \<Rightarrow> wire \<Rightarrow> wire" where
  "wire_off c w = w\<lparr>w_ctrl := Some c, w_on := False, w_sel := False, w_kick := False, w_asked := 0, w_due := 0, w_room := 32, w_avail := 0, w_pend := [],
    w_lost := w_lost w + w_due w + length (w_pend w)\<rparr>"

lemma spi_init_ok:
  "wire (spi_init 0 0 0 8 0 s) = wire_off 0x70000 (wire s)" "same_but_log s (spi_init 0 0 0 8 0 s)"
  by (simp_all add: spi_init_def Let_def wire_off_def work_mode_offset_def frf_offset_def dfs_offset_def push_bit_eq_mult)

lemma set_tmod_ok:
  assumes "spi_ctl_ok (spi s) (card s)" and "wire s = wire_off 0x70000 w" and "m = 1 \<or> m = 2"
  shows "wire (spi_set_tmod 0 m s) = wire_off (0x70000 + 0x100 * m) w" and "same_but_log s (spi_set_tmod 0 m s)"
proof -
  have "spi s (hw_log s) 0 CTRLR0 = 0x70000"
    by (rule ctl_okD(1) [OF assms(1)]) (simp add: assms(2) wire_off_def)
  then show "wire (spi_set_tmod 0 m s) = wire_off (0x70000 + 0x100 * m) w" "same_but_log s (spi_set_tmod 0 m s)"
    using assms(2,3)
    by (auto simp: spi_set_tmod_def Let_def wire_off_def tmod_offset_def set_bit_def push_bit_eq_mult)
qed

lemma frame_width_ok:
  assumes "spi_ctl_ok (spi s) (card s)" and "wire s = wire_off c w" and "drop_bit 16 c AND 0x1F = 7"
  shows "fst (frame_width 0 s) = SPI_TRANS_CHAR" and "wire (snd (frame_width 0 s)) = wire_off c w" and "same_but_log s (snd (frame_width 0 s))"
proof -
  have "spi s (hw_log s) 0 CTRLR0 = c"
    by (rule ctl_okD(1) [OF assms(1)]) (simp add: assms(2) wire_off_def)
  then show "fst (frame_width 0 s) = SPI_TRANS_CHAR" "wire (snd (frame_width 0 s)) = wire_off c w" "same_but_log s (snd (frame_width 0 s))"
    using assms(2,3) by (simp_all add: frame_width_def Let_def dfs_offset_def spi_get_frame_size_def)
qed

section \<open>Sending\<close>

lemma wire_put_send:
  "w_mode w 1 \<Longrightarrow> 0 < w_room w \<Longrightarrow> wire_put v w = w\<lparr>w_room := w_room w - 1, w_pend := w_pend w @ [ucast v]\<rparr>"
  by (simp add: wire_put_def)

lemma w_mode_upd [simp]:
  "w_mode (w\<lparr>w_room := a\<rparr>) m = w_mode w m" "w_mode (w\<lparr>w_bus := b\<rparr>) m = w_mode w m" "w_mode (w\<lparr>w_avail := a\<rparr>) m = w_mode w m"
  "w_mode (w\<lparr>w_due := a\<rparr>) m = w_mode w m" "w_mode (w\<lparr>w_sel := x\<rparr>) m = w_mode w m" "w_mode (w\<lparr>w_kick := x\<rparr>) m = w_mode w m"
  "w_mode (w\<lparr>w_pend := q\<rparr>) m = w_mode w m" "w_mode (w\<lparr>w_asked := a\<rparr>) m = w_mode w m"
  by (simp_all add: w_mode_def)

lemma u32_of_nat: "k < 2 ^ 32 \<Longrightarrow> (ucast (of_nat k :: u32) :: u64) = of_nat k"
  by (rule unat_inj) (simp add: unat_ucast_up unat_of_nat_small)

lemma ucast_u8_u32 [simp]: "ucast (ucast (b :: u8) :: u32) = b"
  by (rule bit_word_eqI) (simp add: bit_simps)

lemma ucast_u32_u64 [simp]: "ucast (ucast (x :: u32) :: u64) = x"
  by (rule bit_word_eqI) (simp add: bit_simps)

lemma put_frames_bytes:
  assumes "w_mode (wire s) 1" and "k \<le> w_room (wire s)" and "pos + k < 2 ^ 32"
  shows "\<exists>t. put_frames k 0 SPI_TRANS_CHAR mis p (of_nat pos) s = (of_nat (pos + k), t) \<and> same_but_log s t
    \<and> wire t = (wire s)\<lparr>w_room := w_room (wire s) - k, w_pend := w_pend (wire s) @ bytes_at (mem s) (p + of_nat pos) k\<rparr>"
  using assms
proof (induction k arbitrary: pos s)
  case 0
  then show ?case by (simp add: bytes_at_def)
next
  case (Suc k)
  let ?b = "mem s (p + of_nat pos)"
  let ?s = "spi_wr 0 DR (ucast ?b) s"
  have w: "wire ?s = (wire s)\<lparr>w_room := w_room (wire s) - 1, w_pend := w_pend (wire s) @ [?b]\<rparr>"
    using Suc.prems by (simp add: wire_put_send)
  have "w_mode (wire ?s) 1" "k \<le> w_room (wire ?s)" "Suc pos + k < 2 ^ 32" using Suc.prems unfolding w by auto
  from Suc.IH [OF this] obtain t where t: "put_frames k 0 SPI_TRANS_CHAR mis p (of_nat (Suc pos)) ?s = (of_nat (Suc pos + k), t)"
      "same_but_log ?s t"
      "wire t = (wire ?s)\<lparr>w_room := w_room (wire ?s) - k, w_pend := w_pend (wire ?s) @ bytes_at (mem ?s) (p + of_nat (Suc pos)) k\<rparr>"
    by blast
  have "same_but_log s t" using t(2) same_but_log_trans [of s ?s t] by simp
  moreover have "put_frames (Suc k) 0 SPI_TRANS_CHAR mis p (of_nat pos) s = (of_nat (pos + Suc k), t)"
    using t(1) Suc.prems(3) by (simp add: u32_of_nat add.commute)
  moreover have "wire t = (wire s)\<lparr>w_room := w_room (wire s) - Suc k,
      w_pend := w_pend (wire s) @ bytes_at (mem s) (p + of_nat pos) (Suc k)\<rparr>"
    using t(3) unfolding w by (simp add: bytes_at_Suc of_nat_Suc_shift add.assoc add.commute [of 1] del: of_nat_Suc)
  ultimately show ?case by blast
qed

text \<open>What the loops of the driver need of the controller, and a step that only adds to the history.\<close>

lemma same_but_log_ok: "same_but_log s t \<Longrightarrow> spi_ctl_ok (spi s) (card s) \<Longrightarrow> spi_ctl_ok (spi t) (card t)"
  by (simp add: same_but_logD)

text \<open>One turn of the loop: the room that the controller reports is used, if the bytes do not end before.\<close>

lemma send_turn:
  assumes ok: "spi_ctl_ok (spi s) (card s)" and mode: "w_mode (wire s) 1"
    and m: "0 < m" "pos + m < 2 ^ 32" and v: "v = spi s (hw_log s) 0 TXFLR" and k: "k = min (32 - unat v) m"
  shows "\<exists>t. same_but_log s t
    \<and> wire t = (wire s)\<lparr>w_room := 32 - unat v - k, w_pend := w_pend (wire s) @ bytes_at (mem s) (p + of_nat pos) k\<rparr>
    \<and> (k = 0 \<longrightarrow> hw_log t = hw_log s @ [SpiRd 0 TXFLR v])
    \<and> (\<forall>fuel. send_loop (Suc fuel) 0 SPI_TRANS_CHAR mis p (of_nat m) (of_nat pos) s
      = send_loop fuel 0 SPI_TRANS_CHAR mis p (of_nat (m - k)) (of_nat (pos + k)) t)"
proof -
  let ?s = "log_ev (SpiRd 0 TXFLR v) s"
  have v32: "v \<le> 32" using ctl_okD(2) [OF ok] v by simp
  then have u: "unat (32 - v) = 32 - unat v" by (simp add: unat_sub)
  have mu: "unat (of_nat m :: u64) = m" using m by (intro unat_of_nat_small) simp
  have fu: "unat (ucast (32 - v) :: u64) = 32 - unat v" by (simp add: unat_ucast_up u)
  define n :: u64 where "n = (if ucast (32 - v) < (of_nat m :: u64) then ucast (32 - v) else of_nat m)"
  have n: "unat n = k" by (auto simp: n_def k fu mu word_less_nat_alt)
  then have nk: "n = of_nat k" by (metis of_nat_unat ucast_id)
  obtain t where t: "put_frames k 0 SPI_TRANS_CHAR mis p (of_nat pos) ?s = (of_nat (pos + k), t)" "same_but_log ?s t"
      "wire t = (wire ?s)\<lparr>w_room := w_room (wire ?s) - k, w_pend := w_pend (wire ?s) @ bytes_at (mem ?s) (p + of_nat pos) k\<rparr>"
    using put_frames_bytes [of ?s k pos mis p] that mode m(2) k by (simp add: min_def split: if_splits) blast+
  have z: "k = 0 \<longrightarrow> hw_log t = hw_log s @ [SpiRd 0 TXFLR v]" using t(1) by auto
  have ne: "(of_nat m :: u64) \<noteq> 0" using mu m(1) by auto
  have le: "k \<le> m" by (simp add: k)
  have "send_loop (Suc fuel) 0 SPI_TRANS_CHAR mis p (of_nat m) (of_nat pos) s
      = send_loop fuel 0 SPI_TRANS_CHAR mis p (of_nat m - n) (of_nat (pos + k)) t" for fuel
    using t(1) ne n by (simp add: Let_def v [symmetric] n_def [symmetric])
  moreover have "of_nat m - n = (of_nat (m - k) :: u64)" using le by (simp add: nk of_nat_diff)
  ultimately show ?thesis
    using t(2,3) z same_but_log_trans [of s ?s t] by (intro exI [of _ t]) auto
qed

lemma bytes_at_add: "bytes_at m p (a + b) = bytes_at m p a @ bytes_at m (p + of_nat a) b"
  by (rule nth_equalityI) (auto simp: nth_append of_nat_diff algebra_simps)

text \<open>The loop, from position \<open>pos\<close> on, returns and puts \<open>m\<close> bytes in the queue.\<close>

definition sends :: "u64 \<Rightarrow> bool \<Rightarrow> nat \<Rightarrow> nat \<Rightarrow> 'a spi_st_scheme \<Rightarrow> bool" where
  "sends p mis m pos s \<longleftrightarrow>
    (\<exists>N t. (\<forall>fuel\<ge>N. send_loop fuel 0 SPI_TRANS_CHAR mis p (of_nat m) (of_nat pos) s = Inr t) \<and> same_but_log s t
      \<and> w_bus (wire t) = w_bus (wire s) \<and> w_pend (wire t) = w_pend (wire s) @ bytes_at (mem s) (p + of_nat pos) m
      \<and> w_mode (wire t) 1 \<and> w_sel (wire t))"

lemma sends_turn:
  assumes "same_but_log s t" "k \<le> m"
    and w: "wire t = (wire s)\<lparr>w_room := r, w_pend := w_pend (wire s) @ bytes_at (mem s) (p + of_nat pos) k\<rparr>"
    and turn: "\<forall>fuel. send_loop (Suc fuel) 0 SPI_TRANS_CHAR mis p (of_nat m) (of_nat pos) s
      = send_loop fuel 0 SPI_TRANS_CHAR mis p (of_nat (m - k)) (of_nat (pos + k)) t"
    and rest: "sends p mis (m - k) (pos + k) t"
  shows "sends p mis m pos s"
proof -
  obtain N u where u: "\<And>fuel. N \<le> fuel \<Longrightarrow> send_loop fuel 0 SPI_TRANS_CHAR mis p (of_nat (m - k)) (of_nat (pos + k)) t = Inr u"
      "same_but_log t u" "w_bus (wire u) = w_bus (wire t)" "w_pend (wire u) = w_pend (wire t) @ bytes_at (mem t) (p + of_nat (pos + k)) (m - k)"
      "w_mode (wire u) 1" "w_sel (wire u)"
    using rest unfolding sends_def by blast
  have "\<forall>fuel\<ge>Suc N. send_loop fuel 0 SPI_TRANS_CHAR mis p (of_nat m) (of_nat pos) s = Inr u"
    by (rule more_fuel) (use turn u(1) in simp)
  moreover have "bytes_at (mem s) (p + of_nat pos) m = bytes_at (mem s) (p + of_nat pos) k @ bytes_at (mem t) (p + of_nat (pos + k)) (m - k)"
    using bytes_at_add [of "mem s" "p + of_nat pos" k "m - k"] assms(2) same_but_logD [OF assms(1)] by (simp add: add.assoc)
  ultimately show ?thesis
    unfolding sends_def using u(2-6) w same_but_log_trans [OF assms(1) u(2)] by (intro exI [of _ "Suc N"] exI [of _ u]) simp
qed

lemma send_loop_ok:
  "spi_ctl_ok (spi s) (card s) \<Longrightarrow> w_mode (wire s) 1 \<Longrightarrow> w_sel (wire s) \<Longrightarrow> pos + m < 2 ^ 32 \<Longrightarrow> sends p mis m pos s"
proof (induction m arbitrary: pos s rule: less_induct)
  case (less m)
  show ?case
  proof (cases "m = 0")
    case True
    then have "\<forall>fuel\<ge>1. send_loop fuel 0 SPI_TRANS_CHAR mis p (of_nat m) (of_nat pos) s = Inr s"
      by (auto simp: Suc_le_eq gr0_conv_Suc)
    then show ?thesis
      unfolding sends_def using less.prems True by (intro exI [of _ 1] exI [of _ s]) (auto simp: bytes_at_def)
  next
    case False
    have "in_time (spi s) TXFLR (\<lambda>v. v < 32) (hw_log s)" using less.prems by (intro ctl_okD(4))
    then have "\<forall>t :: 'a spi_st_scheme. hw_log t = hw_log s \<longrightarrow> spi t = spi s \<longrightarrow> spi_ctl_ok (spi s) (card t) \<longrightarrow> w_mode (wire t) 1 \<longrightarrow> w_sel (wire t) \<longrightarrow>
        sends p mis m pos t"
    proof (rule in_time_induct [where Q = "\<lambda>l. \<forall>t :: 'a spi_st_scheme. hw_log t = l \<longrightarrow> spi t = spi s \<longrightarrow> spi_ctl_ok (spi s) (card t) \<longrightarrow>
        w_mode (wire t) 1 \<longrightarrow> w_sel (wire t) \<longrightarrow> sends p mis m pos t"]; intro allI impI)
      fix l and t :: "'a spi_st_scheme"
      assume v: "spi s l 0 TXFLR < 32"
        and t: "hw_log t = l" "spi t = spi s" "spi_ctl_ok (spi s) (card t)" "w_mode (wire t) 1" "w_sel (wire t)"
      define k where "k = min (32 - unat (spi s l 0 TXFLR)) m"
      have k: "0 < k" "k \<le> m" using v False by (auto simp: k_def word_less_nat_alt)
      obtain u where u: "same_but_log t u"
          "wire u = (wire t)\<lparr>w_room := 32 - unat (spi s l 0 TXFLR) - k, w_pend := w_pend (wire t) @ bytes_at (mem t) (p + of_nat pos) k\<rparr>"
          "\<forall>fuel. send_loop (Suc fuel) 0 SPI_TRANS_CHAR mis p (of_nat m) (of_nat pos) t
            = send_loop fuel 0 SPI_TRANS_CHAR mis p (of_nat (m - k)) (of_nat (pos + k)) u"
        using send_turn [of t m pos _ k p mis] False less.prems(4) t k_def by auto
      have "sends p mis (m - k) (pos + k) u"
        using less.IH [of "m - k" u "pos + k"] k False less.prems(4) t u(2) same_but_logD [OF u(1)] by simp
      then show "sends p mis m pos t" by (rule sends_turn [OF u(1) k(2) u(2,3)])
    next
      fix l and t :: "'a spi_st_scheme"
      let ?l = "l @ [SpiRd 0 TXFLR (spi s l 0 TXFLR)]"
      assume v: "\<not> spi s l 0 TXFLR < 32"
        and IH: "\<forall>t :: 'a spi_st_scheme. hw_log t = ?l \<longrightarrow> spi t = spi s \<longrightarrow> spi_ctl_ok (spi s) (card t) \<longrightarrow> w_mode (wire t) 1 \<longrightarrow> w_sel (wire t) \<longrightarrow>
          sends p mis m pos t"
        and t: "hw_log t = l" "spi t = spi s" "spi_ctl_ok (spi s) (card t)" "w_mode (wire t) 1" "w_sel (wire t)"
      have "unat (spi s l 0 TXFLR) = 32" using v ctl_okD(2) [OF t(3), of l] by (simp add: word_less_nat_alt word_le_nat_alt)
      then have "0 = min (32 - unat (spi s l 0 TXFLR)) m" by simp
      from send_turn [OF _ t(4) _ less.prems(4) _ this, of p mis] obtain u where u: "same_but_log t u"
          "wire u = (wire t)\<lparr>w_room := 32 - unat (spi s l 0 TXFLR) - 0, w_pend := w_pend (wire t) @ bytes_at (mem t) (p + of_nat pos) 0\<rparr>"
          "hw_log u = ?l"
          "\<forall>fuel. send_loop (Suc fuel) 0 SPI_TRANS_CHAR mis p (of_nat m) (of_nat pos) t
            = send_loop fuel 0 SPI_TRANS_CHAR mis p (of_nat (m - 0)) (of_nat (pos + 0)) u"
        using False t by auto
      have "sends p mis (m - 0) (pos + 0) u" using IH u(2,3) t same_but_logD [OF u(1)] by simp
      then show "sends p mis m pos t" by (rule sends_turn [OF u(1) le0 u(2,4)])
    qed
    then show ?thesis using less.prems by blast
  qed
qed

text \<open>Everything that waits in the queue has been sent.\<close>

definition flushed :: "wire \<Rightarrow> wire" where
  "flushed w = w\<lparr>w_pend := [], w_bus := w_bus w @ map Out (w_pend w)\<rparr>"

lemma wait_sent_ok:
  assumes "spi_ctl_ok (spi s) (card s)" and "w_mode (wire s) 1" and "w_sel (wire s)"
  shows "\<exists>N t. (\<forall>fuel\<ge>N. wait_sent fuel 0 s = Inr t) \<and> same_but_log s t \<and> wire t = flushed (wire s)"
proof -
  have "in_time (spi s) SR (\<lambda>v. v AND 5 = 4) (hw_log s)" using assms by (intro ctl_okD(5))
  then have "\<forall>t :: 'a spi_st_scheme. hw_log t = hw_log s \<longrightarrow> spi t = spi s \<longrightarrow> w_sel (wire t) \<longrightarrow>
      (\<exists>N u. (\<forall>fuel\<ge>N. wait_sent fuel 0 t = Inr u) \<and> same_but_log t u \<and> wire u = flushed (wire t))"
  proof (rule in_time_induct [where Q = "\<lambda>l. \<forall>t :: 'a spi_st_scheme. hw_log t = l \<longrightarrow> spi t = spi s \<longrightarrow> w_sel (wire t) \<longrightarrow>
      (\<exists>N u. (\<forall>fuel\<ge>N. wait_sent fuel 0 t = Inr u) \<and> same_but_log t u \<and> wire u = flushed (wire t))"]; intro allI impI)
    fix l and t :: "'a spi_st_scheme"
    assume "spi s l 0 SR AND 5 = 4" "hw_log t = l" "spi t = spi s" "w_sel (wire t)"
    then show "\<exists>N u. (\<forall>fuel\<ge>N. wait_sent fuel 0 t = Inr u) \<and> same_but_log t u \<and> wire u = flushed (wire t)"
      by (intro exI [of _ 1] exI [of _ "log_ev (SpiRd 0 SR (spi s l 0 SR)) t"]) (auto simp: Suc_le_eq gr0_conv_Suc wire_status_def flushed_def)
  next
    fix l and t :: "'a spi_st_scheme"
    let ?t = "log_ev (SpiRd 0 SR (spi s l 0 SR)) t"
    assume v: "spi s l 0 SR AND 5 \<noteq> 4"
      and IH: "\<forall>t :: 'a spi_st_scheme. hw_log t = l @ [SpiRd 0 SR (spi s l 0 SR)] \<longrightarrow> spi t = spi s \<longrightarrow> w_sel (wire t) \<longrightarrow>
        (\<exists>N u. (\<forall>fuel\<ge>N. wait_sent fuel 0 t = Inr u) \<and> same_but_log t u \<and> wire u = flushed (wire t))"
      and t: "hw_log t = l" "spi t = spi s" "w_sel (wire t)"
    have w: "wire ?t = wire t" using v by (simp add: wire_status_def)
    have "hw_log ?t = l @ [SpiRd 0 SR (spi s l 0 SR)]" "spi ?t = spi s" "w_sel (wire ?t)" using t unfolding w by simp_all
    with IH obtain N u where u: "\<forall>fuel\<ge>N. wait_sent fuel 0 ?t = Inr u" "same_but_log ?t u" "wire u = flushed (wire ?t)" by blast
    have "\<forall>fuel\<ge>Suc N. wait_sent fuel 0 t = Inr u"
      by (rule more_fuel) (use u(1) v t in simp)
    moreover have "same_but_log t u" "wire u = flushed (wire t)" using u(2) u(3) [unfolded w] same_but_log_trans [of t ?t u] by simp_all
    ultimately show "\<exists>N u. (\<forall>fuel\<ge>N. wait_sent fuel 0 t = Inr u) \<and> same_but_log t u \<and> wire u = flushed (wire t)" by blast
  qed
  then show ?thesis using assms(3) by blast
qed

text \<open>\<open>spi_send_data_normal\<close> on a controller that has been set up.\<close>

lemma send_normal_ok:
  assumes ok: "spi_ctl_ok (spi s) (card s)" and w: "wire s = wire_off 0x70000 w0" and m: "m < 2 ^ 32"
  shows "\<exists>N t. (\<forall>fuel\<ge>N. spi_send_data_normal fuel 0 3 p (of_nat m) s = Inr t) \<and> same_but_log s t
    \<and> w_bus (wire t) = w_bus (wire s) @ map Out (bytes_at (mem s) p m)"
proof -
  let ?a = "spi_set_tmod 0 SPI_TMOD_TRANS s"
  obtain b where b: "frame_width 0 ?a = (SPI_TRANS_CHAR, b)" "wire b = wire_off 0x70100 w0" "same_but_log s b"
  proof -
    have a: "wire ?a = wire_off 0x70100 w0" "same_but_log s ?a"
      using set_tmod_ok [OF ok w, of 1] by (simp_all add: SPI_TMOD_TRANS_def)
    from frame_width_ok [OF same_but_log_ok [OF a(2) ok] a(1)]
    show thesis using that [of "snd (frame_width 0 ?a)"] same_but_log_trans [OF a(2)] by (cases "frame_width 0 ?a") simp
  qed
  let ?c = "spi_wr 0 SER (push_bit 3 1) (spi_wr 0 SSIENR 1 b)"
  have c: "same_but_log s ?c" "w_mode (wire ?c) 1" "w_sel (wire ?c)" "w_bus (wire ?c) = w_bus (wire s)" "w_pend (wire ?c) = []"
    using b(2,3) w by (simp_all add: wire_off_def w_mode_def push_bit_eq_mult)
  obtain N d where d: "\<forall>fuel\<ge>N. send_loop fuel 0 SPI_TRANS_CHAR False p (of_nat m) 0 ?c = Inr d" "same_but_log ?c d"
      "w_bus (wire d) = w_bus (wire ?c)" "w_pend (wire d) = w_pend (wire ?c) @ bytes_at (mem ?c) p m" "w_mode (wire d) 1" "w_sel (wire d)"
    using send_loop_ok [OF same_but_log_ok [OF c(1) ok] c(2,3), of 0 m p False] m unfolding sends_def by auto
  have sd: "same_but_log s d" using same_but_log_trans [OF c(1) d(2)] .
  obtain M e where e: "\<forall>fuel\<ge>M. wait_sent fuel 0 d = Inr e" "same_but_log d e" "wire e = flushed (wire d)"
    using wait_sent_ok [OF same_but_log_ok [OF sd ok] d(5,6)] by blast
  have se: "same_but_log s e" using same_but_log_trans [OF sd e(2)] .
  let ?t = "spi_wr 0 SSIENR 0 (spi_wr 0 SER 0 e)"
  have "spi_send_data_normal fuel 0 3 p (of_nat m) s = Inr ?t" if "max N M \<le> fuel" for fuel
    using that b(1) d(1) e(1) by (simp add: spi_send_data_normal_def Let_def)
  moreover have "w_bus (wire ?t) = w_bus (wire s) @ map Out (bytes_at (mem s) p m)"
    using e(3) d(3,4) c(4,5) same_but_logD [OF c(1)] by (simp add: flushed_def)
  ultimately show ?thesis using se by (intro exI [of _ "max N M"] exI [of _ ?t]) simp
qed

lemma same_but_log_kmem:
  "same_but_log s t \<Longrightarrow> kmem_ok t = kmem_ok s \<and> free_pages t = free_pages s \<and> kernel_end t = kernel_end s"
  by (cases s; cases t) (simp add: same_but_log_def kmem_ok_def kmem_ready_def kmem_inv_def free_pages_def)

lemma kalloced_log [simp]:
  "hw_log (kalloced p s) = hw_log s" "spi (kalloced p s) = spi s" "card (kalloced p s) = card s"
  "hw_log (kfreed p s) = hw_log s" "spi (kfreed p s) = spi s" "card (kfreed p s) = card s"
  by (simp_all add: kalloced_def kfreed_def)

text \<open>The copy to the new page.\<close>

lemma copy_to_page:
  assumes p: "page_aligned p" and n: "n \<le> 4096" and away: "\<And>i. i < n \<Longrightarrow> PGROUNDDOWN (buf + of_nat i) \<noteq> p"
  shows "bytes_at (mm_fwd m p buf n) p n = bytes_at m buf n" and "PGROUNDDOWN a \<noteq> p \<Longrightarrow> mm_fwd m p buf n a = m a"
proof -
  have "p + of_nat i \<noteq> buf + of_nat j" if "i < j" "j < n" for i j
    using away [OF that(2)] PGROUNDDOWN_offset [OF p, of i] that n by force
  then have eq: "mm_fwd m p buf n a = (if unat (a - p) < n then m (buf + (a - p)) else m a)" for a
    using n by (intro mm_fwd_eq) simp_all
  show "bytes_at (mm_fwd m p buf n) p n = bytes_at m buf n"
    by (rule nth_equalityI) (use n in \<open>auto simp: eq unat_of_nat_small\<close>)
  show "PGROUNDDOWN a \<noteq> p \<Longrightarrow> mm_fwd m p buf n a = m a"
    using in_page_iff [OF p, of a] n by (auto simp: eq)
qed

text \<open>C13: Sending through the registers is sending on the bus: when there is a free page, \<open>sd_write_data\<close> returns whatever the controller does within its
  promises, the bus carries the bytes of the buffer in order and nothing else, the page is given back and no memory outside of the free pages changes.\<close>

theorem wire_write_sends:
  assumes ok: "spi_ctl_ok (spi s) (card s)" and k: "kmem_ok s" "free_pages s \<noteq> {}" and n: "n \<le> 4096"
    and away: "\<And>i. i < n \<Longrightarrow> PGROUNDDOWN (buf + of_nat i) \<notin> free_pages s"
  shows "\<exists>N t. (\<forall>fuel\<ge>N. wire_write fuel buf (of_nat n) s = Inr t)
    \<and> bus_log (wire_view t) = bus_log (sd_write_data (bytes_at (mem s) buf n) (wire_view s))
    \<and> kmem_ok t \<and> free_pages t = free_pages s \<and> (\<forall>a. PGROUNDDOWN a \<notin> free_pages s \<longrightarrow> mem t a = mem s a)"
proof -
  let ?s = "spi_init 0 0 0 8 0 s"
  note init = spi_init_ok [of s] same_but_log_kmem [OF spi_init_ok(2), of s] same_but_logD [OF spi_init_ok(2), of s]
  obtain p where p: "kalloc ?s = Inr (p, kalloced p ?s)" "kmem_ok (kalloced p ?s)" "p \<in> free_pages s" "p \<noteq> 0"
      "valid_page (kernel_end s) p" "free_pages (kalloced p ?s) = free_pages s - {p}"
    using kalloc_page [of ?s] k init by auto
  have al: "page_aligned p" using p(5) valid_page_aligned by blast
  let ?a = "kalloced p ?s"
  have src: "mem ?a (buf + of_nat i) = mem s (buf + of_nat i)" if "i < n" for i
    using kalloced_frame [OF al, of ?s] away [OF that] p(3) init by (auto simp: same_but_page_def)
  let ?m = "mm_fwd (mem ?a) p buf n"
  have cp: "bytes_at ?m p n = bytes_at (mem s) buf n" "\<And>a. PGROUNDDOWN a \<noteq> p \<Longrightarrow> ?m a = mem ?a a"
    using copy_to_page [OF al n, where buf = buf and m = "mem ?a"] away p(3) src bytes_at_cong [of n "mem ?a" buf "mem s"] by auto
  let ?b = "?a\<lparr>mem := ?m\<rparr>"
  have b: "kmem_ok ?b" "free_pages ?b = free_pages s - {p}"
    using kmem_frame [OF p(2), of ?m] cp(2) p(6) by auto
  have "wire ?b = wire_off 0x70000 (wire s)" "spi_ctl_ok (spi ?b) (card ?b)" using init ok by simp_all
  from send_normal_ok [OF this(2,1), of n p] n obtain N t where t: "\<forall>fuel\<ge>N. spi_send_data_normal fuel 0 3 p (of_nat n) ?b = Inr t"
      "same_but_log ?b t" "w_bus (wire t) = w_bus (wire ?b) @ map Out (bytes_at (mem ?b) p n)"
    by auto
  note tk = same_but_log_kmem [OF t(2)] same_but_logD [OF t(2)]
  have f: "kfree p t = Inr (kfreed p t)" "kmem_ok (kfreed p t)" "free_pages (kfreed p t) = free_pages s"
    using kfree_page [of t p] tk b p(3,5) init by auto
  have un: "unat (of_nat n :: u32) = n" "unat (ucast (of_nat n :: u32) :: u64) = n" "(ucast (of_nat n :: u32) :: u64) = of_nat n"
    using n by (simp_all add: unat_ucast_up unat_of_nat_small u32_of_nat)
  have "wire_write fuel buf (of_nat n) s = Inr (kfreed p t)" if "N \<le> fuel" for fuel
    using t(1) that p(1,4) f(1) un by (simp add: wire_write_def spi_send_data_standard_def Let_def)
  moreover have "w_bus (wire (kfreed p t)) = w_bus (wire s) @ map Out (bytes_at (mem s) buf n)"
    using t(3) cp(1) init by (simp add: wire_off_def)
  moreover have "mem (kfreed p t) a = mem s a" if "PGROUNDDOWN a \<notin> free_pages s" for a
  proof -
    have "PGROUNDDOWN a \<noteq> p" using that p(3) by auto
    then show ?thesis
      using kfreed_frame [OF al, of t] cp(2) [of a] kalloced_frame [OF al, of ?s] tk init by (simp add: same_but_page_def)
  qed
  ultimately show ?thesis using f
    by (intro exI [of _ N] exI [of _ "kfreed p t"]) (simp add: wire_view_def sd_write_data_def on_bus_def)
qed

section \<open>Receiving\<close>

text \<open>The next \<open>k\<close> bytes that the card sends, and storing bytes.\<close>

primrec incoming :: "sdcard \<Rightarrow> bus list \<Rightarrow> nat \<Rightarrow> u8 list" where
  "incoming c l 0 = []"
| "incoming c l (Suc k) = c l # incoming c (l @ [In (c l)]) k"

lemma length_incoming [simp]: "length (incoming c l k) = k"
  by (induction k arbitrary: l) simp_all

lemma incoming_add: "incoming c l (a + b) = incoming c l a @ incoming c (l @ map In (incoming c l a)) b"
  by (induction a arbitrary: l) simp_all

lemma sd_read_incoming:
  "sd_read_data k s = (incoming (card s) (bus_log s) k, on_bus (map In (incoming (card s) (bus_log s) k)) s)"
  by (induction k arbitrary: s) (simp_all add: Let_def)

primrec put_bytes :: "u64 \<Rightarrow> u8 list \<Rightarrow> bytemem \<Rightarrow> bytemem" where
  "put_bytes p [] m = m"
| "put_bytes p (b # bs) m = put_bytes (p + 1) bs (m(p := b))"

lemma put_bytes_append: "put_bytes p (xs @ ys) m = put_bytes (p + of_nat (length xs)) ys (put_bytes p xs m)"
  by (induction xs arbitrary: p m) (simp_all add: algebra_simps)

lemma put_bytes_outside: "outside p (length bs) a \<Longrightarrow> put_bytes p bs m a = m a"
  by (induction bs arbitrary: p m) (simp_all add: outside_Suc)

lemma bytes_at_put_bytes: "length bs < 2 ^ 64 \<Longrightarrow> bytes_at (put_bytes p bs m) p (length bs) = bs"
proof (induction bs arbitrary: p m)
  case (Cons b bs)
  have "outside (p + 1) (length bs) p" using Cons.prems by (intro outside_self) simp
  then show ?case using Cons by (simp add: bytes_at_Suc put_bytes_outside)
qed (simp add: bytes_at_def)

definition same_but_data :: "'a spi_st_scheme \<Rightarrow> 'a spi_st_scheme \<Rightarrow> bool" where
  "same_but_data s t \<longleftrightarrow> t = s\<lparr>hw_log := hw_log t, mem := mem t\<rparr>"

lemma same_but_data_trans [trans]: "same_but_data s t \<Longrightarrow> same_but_data t u \<Longrightarrow> same_but_data s u"
  by (cases s; cases t; cases u) (simp add: same_but_data_def)

lemma same_but_data_log: "same_but_log s t \<Longrightarrow> same_but_data s t"
  by (cases s; cases t) (simp add: same_but_data_def same_but_log_def)

lemma same_but_data_ev [simp]:
  "same_but_data s s" "same_but_data s (log_ev e t) \<longleftrightarrow> same_but_data s t" "same_but_data s (t\<lparr>mem := m\<rparr>) \<longleftrightarrow> same_but_data s t"
  "same_but_data s (spi_wr n r v t) \<longleftrightarrow> same_but_data s t"
  by (cases s; cases t; simp add: same_but_data_def log_ev_def spi_wr_def)+

lemma same_but_dataD: "same_but_data s t \<Longrightarrow> spi t = spi s \<and> card t = card s"
  by (cases s; cases t) (simp add: same_but_data_def)

lemma same_but_data_ok: "same_but_data s t \<Longrightarrow> spi_ctl_ok (spi s) (card s) \<Longrightarrow> spi_ctl_ok (spi t) (card t)"
  by (simp add: same_but_dataD)

lemma take_frames_bytes:
  assumes "spi_ctl_ok (spi s) (card s)" and "w_mode (wire s) 2" and "w_asked (wire s) \<le> 32" and "k \<le> w_avail (wire s)" and "pos + k < 2 ^ 32"
  shows "\<exists>t. take_frames k 0 SPI_TRANS_CHAR p (of_nat pos) s = (of_nat (pos + k), t) \<and> same_but_data s t
    \<and> wire t = (wire s)\<lparr>w_avail := w_avail (wire s) - k, w_due := w_due (wire s) - k,
        w_bus := w_bus (wire s) @ map In (incoming (card s) (w_bus (wire s)) k)\<rparr>
    \<and> mem t = put_bytes (p + of_nat pos) (incoming (card s) (w_bus (wire s)) k) (mem s)"
  using assms
proof (induction k arbitrary: pos s)
  case 0
  then show ?case by simp
next
  case (Suc k)
  let ?c = "card s" and ?l = "w_bus (wire s)"
  let ?v = "spi s (hw_log s) 0 DR"
  have v: "ucast ?v = ?c ?l" using Suc.prems by (intro ctl_okD(7)) simp_all
  let ?s = "log_ev (SpiRd 0 DR ?v) s"
  let ?t = "?s\<lparr>mem := put_at SPI_TRANS_CHAR p (of_nat pos) ?v (mem ?s)\<rparr>"
  have w: "wire ?t = (wire s)\<lparr>w_avail := w_avail (wire s) - 1, w_due := w_due (wire s) - 1, w_bus := ?l @ [In (?c ?l)]\<rparr>"
    using Suc.prems by (simp add: wire_get_def v)
  have m: "mem ?t = (mem s)(p + of_nat pos := ?c ?l)" using Suc.prems by (simp add: u32_of_nat v)
  have "spi_ctl_ok (spi ?t) (card ?t)" "w_mode (wire ?t) 2" "w_asked (wire ?t) \<le> 32" "k \<le> w_avail (wire ?t)" "Suc pos + k < 2 ^ 32"
    using Suc.prems unfolding w by auto
  from Suc.IH [OF this] obtain u where u: "take_frames k 0 SPI_TRANS_CHAR p (of_nat (Suc pos)) ?t = (of_nat (Suc pos + k), u)"
      "same_but_data ?t u"
      "wire u = (wire ?t)\<lparr>w_avail := w_avail (wire ?t) - k, w_due := w_due (wire ?t) - k,
        w_bus := w_bus (wire ?t) @ map In (incoming (card ?t) (w_bus (wire ?t)) k)\<rparr>"
      "mem u = put_bytes (p + of_nat (Suc pos)) (incoming (card ?t) (w_bus (wire ?t)) k) (mem ?t)"
    by blast
  have "take_frames (Suc k) 0 SPI_TRANS_CHAR p (of_nat pos) s = (of_nat (pos + Suc k), u)"
    using u(1) by (simp add: Let_def add.commute [of 1])
  moreover have "same_but_data s u" using u(2) same_but_data_trans [of s ?t u] by simp
  moreover have "wire u = (wire s)\<lparr>w_avail := w_avail (wire s) - Suc k, w_due := w_due (wire s) - Suc k,
        w_bus := ?l @ map In (incoming ?c ?l (Suc k))\<rparr>"
    using u(3) unfolding w by simp
  moreover have "mem u = put_bytes (p + of_nat pos) (incoming ?c ?l (Suc k)) (mem s)"
    using u(4) unfolding w m by (simp add: add.assoc add.commute [of 1])
  ultimately show ?case by blast
qed

definition receives :: "u64 \<Rightarrow> nat \<Rightarrow> nat \<Rightarrow> 'a spi_st_scheme \<Rightarrow> bool" where
  "receives p m pos s \<longleftrightarrow>
    (\<exists>N t. (\<forall>fuel\<ge>N. receive_loop fuel 0 SPI_TRANS_CHAR p (of_nat m) (of_nat pos) s = Inr t) \<and> same_but_data s t
      \<and> w_bus (wire t) = w_bus (wire s) @ map In (incoming (card s) (w_bus (wire s)) m)
      \<and> w_due (wire t) = 0 \<and> w_pend (wire t) = w_pend (wire s) \<and> w_lost (wire t) = w_lost (wire s)
      \<and> mem t = put_bytes (p + of_nat pos) (incoming (card s) (w_bus (wire s)) m) (mem s))"

text \<open>One turn: what has come in is taken.\<close>

lemma receive_turn:
  assumes ok: "spi_ctl_ok (spi s) (card s)" and mode: "w_mode (wire s) 2" "w_asked (wire s) \<le> 32" and due: "w_due (wire s) = m"
    and m: "0 < m" "pos + m < 2 ^ 32" and k: "k = unat (spi s (hw_log s) 0 RXFLR)"
  shows "\<exists>t. same_but_data s t \<and> k \<le> m
    \<and> wire t = (wire s)\<lparr>w_avail := 0, w_due := m - k, w_bus := w_bus (wire s) @ map In (incoming (card s) (w_bus (wire s)) k)\<rparr>
    \<and> mem t = put_bytes (p + of_nat pos) (incoming (card s) (w_bus (wire s)) k) (mem s)
    \<and> (k = 0 \<longrightarrow> hw_log t = hw_log s @ [SpiRd 0 RXFLR (spi s (hw_log s) 0 RXFLR)])
    \<and> (\<forall>fuel. receive_loop (Suc fuel) 0 SPI_TRANS_CHAR p (of_nat m) (of_nat pos) s
      = receive_loop fuel 0 SPI_TRANS_CHAR p (of_nat (m - k)) (of_nat (pos + k)) t)"
proof -
  let ?v = "spi s (hw_log s) 0 RXFLR"
  let ?s = "log_ev (SpiRd 0 RXFLR ?v) s"
  have km: "k \<le> m" using ctl_okD(3) [OF ok, of "hw_log s"] due k by simp
  have mu: "unat (of_nat m :: u32) = m" using m by (intro unat_of_nat_small) simp
  have w: "wire ?s = (wire s)\<lparr>w_avail := k\<rparr>" by (simp add: k)
  have "spi_ctl_ok (spi ?s) (card ?s)" "w_mode (wire ?s) 2" "w_asked (wire ?s) \<le> 32" "k \<le> w_avail (wire ?s)" "pos + k < 2 ^ 32"
    using ok mode km m unfolding w by simp_all
  from take_frames_bytes [OF this, of p] obtain t where t:
      "take_frames k 0 SPI_TRANS_CHAR p (of_nat pos) ?s = (of_nat (pos + k), t)" "same_but_data ?s t"
      "wire t = (wire ?s)\<lparr>w_avail := w_avail (wire ?s) - k, w_due := w_due (wire ?s) - k,
        w_bus := w_bus (wire ?s) @ map In (incoming (card ?s) (w_bus (wire ?s)) k)\<rparr>"
      "mem t = put_bytes (p + of_nat pos) (incoming (card ?s) (w_bus (wire ?s)) k) (mem ?s)"
    by blast
  define n where "n = (if ?v < of_nat m then ?v else of_nat m)"
  have n: "unat n = k" using km by (auto simp: n_def k mu word_less_nat_alt)
  then have nk: "n = of_nat k" by (metis of_nat_unat ucast_id)
  have ne: "(of_nat m :: u32) \<noteq> 0" using mu m(1) by auto
  have "receive_loop (Suc fuel) 0 SPI_TRANS_CHAR p (of_nat m) (of_nat pos) s
      = receive_loop fuel 0 SPI_TRANS_CHAR p (of_nat m - n) (of_nat (pos + k)) t" for fuel
    using t(1) ne n by (simp add: Let_def n_def [symmetric])
  moreover have "of_nat m - n = (of_nat (m - k) :: u32)" using km by (simp add: nk of_nat_diff)
  moreover have "k = 0 \<longrightarrow> hw_log t = hw_log s @ [SpiRd 0 RXFLR ?v]" using t(1) by auto
  moreover have "same_but_data s t" using t(2) same_but_data_trans [of s ?s t] by simp
  ultimately show ?thesis using t(3,4) km due unfolding w by (intro exI [of _ t]) simp
qed

lemma receives_turn:
  assumes "same_but_data s t" "k \<le> m"
    and w: "w_bus (wire t) = w_bus (wire s) @ map In (incoming (card s) (w_bus (wire s)) k)"
      "w_pend (wire t) = w_pend (wire s)" "w_lost (wire t) = w_lost (wire s)"
    and mem: "mem t = put_bytes (p + of_nat pos) (incoming (card s) (w_bus (wire s)) k) (mem s)"
    and turn: "\<forall>fuel. receive_loop (Suc fuel) 0 SPI_TRANS_CHAR p (of_nat m) (of_nat pos) s
      = receive_loop fuel 0 SPI_TRANS_CHAR p (of_nat (m - k)) (of_nat (pos + k)) t"
    and rest: "receives p (m - k) (pos + k) t"
  shows "receives p m pos s"
proof -
  let ?l = "w_bus (wire s)"
  obtain N u where u: "\<And>fuel. N \<le> fuel \<Longrightarrow> receive_loop fuel 0 SPI_TRANS_CHAR p (of_nat (m - k)) (of_nat (pos + k)) t = Inr u"
      "same_but_data t u" "w_bus (wire u) = w_bus (wire t) @ map In (incoming (card t) (w_bus (wire t)) (m - k))"
      "w_due (wire u) = 0" "w_pend (wire u) = w_pend (wire t)" "w_lost (wire u) = w_lost (wire t)"
      "mem u = put_bytes (p + of_nat (pos + k)) (incoming (card t) (w_bus (wire t)) (m - k)) (mem t)"
    using rest unfolding receives_def by blast
  have "\<forall>fuel\<ge>Suc N. receive_loop fuel 0 SPI_TRANS_CHAR p (of_nat m) (of_nat pos) s = Inr u"
    by (rule more_fuel) (use turn u(1) in simp)
  moreover have inc: "incoming (card s) ?l m = incoming (card s) ?l k @ incoming (card t) (w_bus (wire t)) (m - k)"
    using incoming_add [of "card s" ?l k "m - k"] assms(2) same_but_dataD [OF assms(1)] w(1) by simp
  moreover have "mem u = put_bytes (p + of_nat pos) (incoming (card s) ?l m) (mem s)"
    using u(7) mem by (simp add: inc put_bytes_append add.assoc)
  ultimately show ?thesis
    unfolding receives_def using u(3-6) w same_but_data_trans [OF assms(1) u(2)] by (intro exI [of _ "Suc N"] exI [of _ u]) simp
qed

lemma receive_loop_ok:
  "spi_ctl_ok (spi s) (card s) \<Longrightarrow> w_mode (wire s) 2 \<Longrightarrow> w_asked (wire s) \<le> 32 \<Longrightarrow> w_sel (wire s) \<Longrightarrow> w_due (wire s) = m \<Longrightarrow> pos + m < 2 ^ 32 \<Longrightarrow> receives p m pos s"
proof (induction m arbitrary: pos s rule: less_induct)
  case (less m)
  show ?case
  proof (cases "m = 0")
    case True
    then have "\<forall>fuel\<ge>1. receive_loop fuel 0 SPI_TRANS_CHAR p (of_nat m) (of_nat pos) s = Inr s"
      by (auto simp: Suc_le_eq gr0_conv_Suc)
    then show ?thesis
      unfolding receives_def using True less.prems(5) by (intro exI [of _ 1] exI [of _ s]) auto
  next
    case False
    have "in_time (spi s) RXFLR (\<lambda>v. 0 < v) (hw_log s)" using less.prems False by (intro ctl_okD(6)) simp_all
    then have "\<forall>t :: 'a spi_st_scheme. hw_log t = hw_log s \<longrightarrow> spi t = spi s \<longrightarrow> spi_ctl_ok (spi s) (card t) \<longrightarrow> w_mode (wire t) 2 \<longrightarrow> w_asked (wire t) \<le> 32 \<longrightarrow>
        w_sel (wire t) \<longrightarrow> w_due (wire t) = m \<longrightarrow> receives p m pos t"
    proof (rule in_time_induct [where Q = "\<lambda>l. \<forall>t :: 'a spi_st_scheme. hw_log t = l \<longrightarrow> spi t = spi s \<longrightarrow> spi_ctl_ok (spi s) (card t) \<longrightarrow>
        w_mode (wire t) 2 \<longrightarrow> w_asked (wire t) \<le> 32 \<longrightarrow> w_sel (wire t) \<longrightarrow> w_due (wire t) = m \<longrightarrow> receives p m pos t"]; intro allI impI)
      fix l and t :: "'a spi_st_scheme"
      assume v: "0 < spi s l 0 RXFLR"
        and t: "hw_log t = l" "spi t = spi s" "spi_ctl_ok (spi s) (card t)" "w_mode (wire t) 2" "w_asked (wire t) \<le> 32" "w_sel (wire t)" "w_due (wire t) = m"
      define k where "k = unat (spi t (hw_log t) 0 RXFLR)"
      have k: "0 < k" using v t by (simp add: k_def word_less_nat_alt)
      obtain u where u: "same_but_data t u" "k \<le> m"
          "wire u = (wire t)\<lparr>w_avail := 0, w_due := m - k, w_bus := w_bus (wire t) @ map In (incoming (card t) (w_bus (wire t)) k)\<rparr>"
          "mem u = put_bytes (p + of_nat pos) (incoming (card t) (w_bus (wire t)) k) (mem t)"
          "\<forall>fuel. receive_loop (Suc fuel) 0 SPI_TRANS_CHAR p (of_nat m) (of_nat pos) t
            = receive_loop fuel 0 SPI_TRANS_CHAR p (of_nat (m - k)) (of_nat (pos + k)) u"
        using receive_turn [of t m pos k p] False less.prems(6) t k_def by auto
      have "receives p (m - k) (pos + k) u"
        using less.IH [of "m - k" u "pos + k"] k u(2) False less.prems(6) t u(3) same_but_dataD [OF u(1)] by simp
      moreover have "w_bus (wire u) = w_bus (wire t) @ map In (incoming (card t) (w_bus (wire t)) k)" "w_pend (wire u) = w_pend (wire t)"
          "w_lost (wire u) = w_lost (wire t)"
        using u(3) by simp_all
      ultimately show "receives p m pos t" using receives_turn [OF u(1,2) _ _ _ u(4,5)] by blast
    next
      fix l and t :: "'a spi_st_scheme"
      let ?l = "l @ [SpiRd 0 RXFLR (spi s l 0 RXFLR)]"
      assume v: "\<not> 0 < spi s l 0 RXFLR"
        and IH: "\<forall>t :: 'a spi_st_scheme. hw_log t = ?l \<longrightarrow> spi t = spi s \<longrightarrow> spi_ctl_ok (spi s) (card t) \<longrightarrow> w_mode (wire t) 2 \<longrightarrow> w_asked (wire t) \<le> 32 \<longrightarrow>
          w_sel (wire t) \<longrightarrow> w_due (wire t) = m \<longrightarrow> receives p m pos t"
        and t: "hw_log t = l" "spi t = spi s" "spi_ctl_ok (spi s) (card t)" "w_mode (wire t) 2" "w_asked (wire t) \<le> 32" "w_sel (wire t)" "w_due (wire t) = m"
      have z: "0 = unat (spi t (hw_log t) 0 RXFLR)" using v t by (simp add: word_less_nat_alt)
      obtain u where u: "same_but_data t u" "hw_log u = ?l"
          "wire u = (wire t)\<lparr>w_avail := 0, w_due := m - 0, w_bus := w_bus (wire t) @ map In (incoming (card t) (w_bus (wire t)) 0)\<rparr>"
          "mem u = put_bytes (p + of_nat pos) (incoming (card t) (w_bus (wire t)) 0) (mem t)"
          "\<forall>fuel. receive_loop (Suc fuel) 0 SPI_TRANS_CHAR p (of_nat m) (of_nat pos) t
            = receive_loop fuel 0 SPI_TRANS_CHAR p (of_nat (m - 0)) (of_nat (pos + 0)) u"
        using receive_turn [of t m pos 0 p] z False less.prems(6) t by auto
      have "receives p (m - 0) (pos + 0) u" using IH u(2,3) t same_but_dataD [OF u(1)] by simp
      moreover have "w_bus (wire u) = w_bus (wire t) @ map In (incoming (card t) (w_bus (wire t)) 0)" "w_pend (wire u) = w_pend (wire t)"
          "w_lost (wire u) = w_lost (wire t)"
        using u(3) by simp_all
      ultimately show "receives p m pos t" using receives_turn [OF u(1) le0 _ _ _ u(4,5)] by blast
    qed
    then show ?thesis using less.prems by blast
  qed
qed

lemma cmd_loop_none: "0 < fuel \<Longrightarrow> cmd_loop fuel n w cs p 0 i s = Inr s"
  by (cases fuel) simp_all

text \<open>C14: Receiving through the registers is receiving from the bus, for at most 32 bytes, which the queue of the controller has room for (the driver receives answers of one to
  four bytes this way): \<open>sd_read_data\<close> returns whatever the controller does within its promises, the buffer holds the bytes that the card sends next, the bus
  has carried exactly these, after the set-up no frame is lost, and the rest of the memory is as before.\<close>

theorem wire_read_receives:
  assumes ok: "spi_ctl_ok (spi s) (card s)" and n: "0 < n" "n \<le> 32"
  shows "\<exists>N t. (\<forall>fuel\<ge>N. wire_read fuel buf (of_nat n) s = Inr t)
    \<and> bytes_at (mem t) buf n = fst (sd_read_data n (wire_view s))
    \<and> bus_log (wire_view t) = bus_log (snd (sd_read_data n (wire_view s))) \<and> w_lost (wire t) = w_lost (wire (spi_init 0 0 0 8 0 s))
    \<and> (\<forall>a. outside buf n a \<longrightarrow> mem t a = mem s a) \<and> same_but_data s t"
proof -
  let ?s = "spi_init 0 0 0 8 0 s"
  note init = spi_init_ok [of s] same_but_logD [OF spi_init_ok(2), of s]
  have oki: "spi_ctl_ok (spi ?s) (card ?s)" using ok init by simp
  let ?a = "spi_set_tmod 0 SPI_TMOD_RECV ?s"
  have a: "wire ?a = wire_off 0x70200 (wire s)" "same_but_log ?s ?a"
    using set_tmod_ok [OF oki init(1), of 2] by (simp_all add: SPI_TMOD_RECV_def)
  obtain b where b: "frame_width 0 ?a = (SPI_TRANS_CHAR, b)" "wire b = wire_off 0x70200 (wire s)" "same_but_log s b"
  proof -
    from frame_width_ok [OF same_but_log_ok [OF a(2) oki] a(1)]
    show thesis
      using that [of "snd (frame_width 0 ?a)"] same_but_log_trans [OF init(2) same_but_log_trans [OF a(2)]]
      by (cases "frame_width 0 ?a") simp
  qed
  let ?c = "spi_wr 0 SER (push_bit 3 1) (spi_wr 0 DR 0xFFFFFFFF (spi_wr 0 SSIENR 1 (spi_wr 0 CTRLR1 (of_nat n - 1) b)))"
  have un: "unat (of_nat n :: u32) = n" "(ucast (of_nat n :: u32) :: u64) = of_nat n"
    using n by (simp_all add: unat_of_nat_small u32_of_nat)
  have "1 \<le> (of_nat n :: u32)" unfolding word_le_nat_alt un using n(1) by simp
  then have "unat ((of_nat n :: u32) - 1) = n - 1" by (simp only: unat_sub_le un) simp
  then have due: "Suc (unat ((of_nat n :: u32) - 1)) = n" using n(1) by simp
  have c: "same_but_log s ?c" "w_mode (wire ?c) 2" "w_sel (wire ?c)" "w_bus (wire ?c) = w_bus (wire s)" "w_due (wire ?c) = n" "w_asked (wire ?c) \<le> 32"
      "w_pend (wire ?c) = []" "w_lost (wire ?c) = w_lost (wire ?s)"
    using b(2,3) due n(2) init(1) by (simp_all add: wire_off_def w_mode_def wire_put_def push_bit_eq_mult)
  obtain N d where d: "\<forall>fuel\<ge>N. receive_loop fuel 0 SPI_TRANS_CHAR buf (of_nat n) 0 ?c = Inr d" "same_but_data ?c d"
      "w_bus (wire d) = w_bus (wire ?c) @ map In (incoming (card ?c) (w_bus (wire ?c)) n)"
      "mem d = put_bytes buf (incoming (card ?c) (w_bus (wire ?c)) n) (mem ?c)"
      "w_due (wire d) = 0" "w_pend (wire d) = w_pend (wire ?c)" "w_lost (wire d) = w_lost (wire ?c)"
    using receive_loop_ok [OF same_but_log_ok [OF c(1) ok] c(2,6,3,5), of 0 buf] n unfolding receives_def by auto
  let ?t = "spi_wr 0 SSIENR 0 (spi_wr 0 SER 0 d)"
  let ?bs = "incoming (card s) (w_bus (wire s)) n"
  have "wire_read fuel buf (of_nat n) s = Inr ?t" if "max N 1 \<le> fuel" for fuel
  proof -
    have "0 < fuel" "N \<le> fuel" using that by simp_all
    then show ?thesis
      using b(1) d(1) by (simp add: wire_read_def spi_receive_data_standard_def Let_def cmd_loop_none)
  qed
  moreover have "w_lost (wire ?t) = w_lost (wire ?s)" using d(5-7) c(7,8) by simp
  moreover have "mem ?t = put_bytes buf ?bs (mem s)" "w_bus (wire ?t) = w_bus (wire s) @ map In ?bs"
    using d(3,4) c(4) same_but_logD [OF c(1)] by simp_all
  moreover have "same_but_data s ?t" using same_but_data_trans [OF same_but_data_log [OF c(1)] d(2)] by simp
  moreover have "bytes_at (put_bytes buf ?bs (mem s)) buf n = ?bs"
    using bytes_at_put_bytes [of ?bs buf "mem s"] n by simp
  ultimately show ?thesis
    by (intro exI [of _ "max N 1"] exI [of _ ?t])
      (simp add: sd_read_incoming wire_view_def on_bus_def put_bytes_outside del: spi_acc)
qed

text \<open>The chip select pin.\<close>

lemma wire_pin_cs: "bus_log (wire_view (wire_pin v s)) = bus_log (on_bus [Cs (bit v 0)] (wire_view s))"
  by (simp add: wire_pin_def Let_def wire_view_def on_bus_def gpiohs_set_pin_def bit_set_gpio log_ev_def)

lemma wire_pin_levels:
  "bus_log (wire_view (wire_pin 1 s)) = bus_log (SD_CS_HIGH (wire_view s))"
  "bus_log (wire_view (wire_pin 0 s)) = bus_log (SD_CS_LOW (wire_view s))"
  by (simp_all add: wire_pin_cs SD_CS_HIGH_def SD_CS_LOW_def)

text \<open>With frames of 32 bits, a length that is no multiple of four is never used up: the sending loop goes on for ever.\<close>

lemma send_rest_hangs: "0 < len \<Longrightarrow> len < 4 \<Longrightarrow> send_loop fuel n SPI_TRANS_INT mis p len i s = Inl Deep"
proof (induction fuel arbitrary: s)
  case (Suc fuel)
  have "(if x < len then x else len) div 4 = 0" for x :: u64
    using Suc.prems by (intro unat_inj) (auto simp: unat_div word_less_nat_alt)
  then show ?case using Suc by (simp add: Let_def)
qed simp

section \<open>An example\<close>

text \<open>
  A controller that keeps the promises but is in no hurry: when a level or the status is asked for, the first answer is that nothing has moved, and the second
  that everything has been sent, or that one frame has come in.
\<close>

fun asked :: "spi_reg \<Rightarrow> hw_ev list \<Rightarrow> bool" where
  "asked r l = (case rev l of SpiRd n q v # _ \<Rightarrow> q = r | _ \<Rightarrow> False)"

definition slow_ctl :: "sdcard \<Rightarrow> spi_ctl" where
  "slow_ctl c l n r =
    (let w = wire_of l in
     case r of
       CTRLR0 \<Rightarrow> (case w_ctrl w of None \<Rightarrow> 0 | Some v \<Rightarrow> v)
     | TXFLR \<Rightarrow> if asked TXFLR l then 0 else 32
     | SR \<Rightarrow> if asked SR l then 4 else 1
     | RXFLR \<Rightarrow> if asked RXFLR l \<and> 0 < w_due w then 1 else 0
     | DR \<Rightarrow> ucast (c (w_bus w))
     | _ \<Rightarrow> 0)"

lemma slow_ctl_ok: "spi_ctl_ok (slow_ctl c) c"
proof -
  have poll: "in_time (slow_ctl c) r P l" if "P (slow_ctl c (l @ [SpiRd 0 r v]) 0 r)" "v = slow_ctl c l 0 r" for r P l v
    using that unfolding in_time_def by (intro exI [of _ 1]) simp
  show ?thesis unfolding spi_ctl_ok_def Let_def
  proof (intro allI conjI impI)
    fix l
    show "in_time (slow_ctl c) TXFLR (\<lambda>v. v < 32) l" by (rule poll [OF _ refl]) (simp add: slow_ctl_def)
    show "in_time (slow_ctl c) SR (\<lambda>v. v AND 5 = 4) l" by (rule poll [OF _ refl]) (simp add: slow_ctl_def)
    show "in_time (slow_ctl c) RXFLR (\<lambda>v. 0 < v) l" if "w_mode (wire_of l) 2 \<and> w_asked (wire_of l) \<le> 32 \<and> w_sel (wire_of l) \<and> 0 < w_due (wire_of l)"
      by (rule poll [OF _ refl]) (use that in \<open>simp add: slow_ctl_def\<close>)
  qed (simp_all add: slow_ctl_def)
qed

text \<open>A machine with one free page, no card in the slot and a buffer of six bytes at address 0.\<close>

definition spi_demo :: spi_st where
  "spi_demo = sd_st.extend (sd_demo\<lparr>core := boot_core, card := \<lambda>_. 0xff, mem := (\<lambda>a. if a < 6 then ucast a else 0), freelist := 0x80200000, npage := 1,
      kernel_end := 0x80200000\<rparr>)
    \<lparr>clocks = \<lparr>git_id = 0, clk_freq = 0, pll0 = 0, pll1 = 0, pll2 = 0, clk_en_cent = 0, clk_en_peri = 0, dma_sel0 = 0, dma_sel1 = 0\<rparr>,
     hw_log = [], spi = slow_ctl (\<lambda>_. 0xff), dma = (\<lambda>_ _. 0), send_junk = 0\<rparr>"

lemma spi_demo_ok: "spi_ctl_ok (spi spi_demo) (card spi_demo)" "kmem_ok spi_demo" "free_pages spi_demo = {0x80200000}"
proof -
  have f: "core spi_demo = boot_core" "mem spi_demo = (\<lambda>a. if a < 6 then ucast a else 0)" "freelist spi_demo = 0x80200000"
    "npage spi_demo = 1" "kernel_end spi_demo = 0x80200000" "spi spi_demo = slow_ctl (\<lambda>_. 0xff)" "card spi_demo = (\<lambda>_. 0xff)"
    by (simp_all add: spi_demo_def sd_st.defs)
  show "spi_ctl_ok (spi spi_demo) (card spi_demo)" unfolding f by (rule slow_ctl_ok)
  have "load64 (mem spi_demo) 0x80200000 = 0"
    by (simp add: load64_def f word_rcat_def)
  then have inv: "kmem_inv spi_demo [0x80200000]"
    by (simp add: kmem_inv_def f valid_page_def PGSIZE_def PHYSTOP_def)
  then show "kmem_ok spi_demo" by (auto simp: kmem_ok_def kmem_ready_def f)
  show "free_pages spi_demo = {0x80200000}" using free_pages_eq [OF inv] by simp
qed

lemma wire_write_sends_witness:
  "\<exists>N t. (\<forall>fuel\<ge>N. wire_write fuel 0 6 spi_demo = Inr t) \<and> bus_log (wire_view t) = map Out [0, 1, 2, 3, 4, 5]"
proof -
  have away: "PGROUNDDOWN (0 + of_nat i) \<notin> free_pages spi_demo" if "i < 6" for i
    using PGROUNDDOWN_offset [of 0] that by (simp add: spi_demo_ok page_aligned_def)
  have "bytes_at (mem spi_demo) 0 6 = [0, 1, 2, 3, 4, 5]" "hw_log spi_demo = []"
    by (simp_all add: spi_demo_def sd_st.defs bytes_at_def upt_rec)
  then show ?thesis
    using wire_write_sends [OF spi_demo_ok(1,2), where n = 6 and buf = 0] away spi_demo_ok(3)
    by (auto simp: sd_write_data_def on_bus_def wire_view_def wire_of_def)
qed

lemma wire_read_receives_witness:
  "\<exists>N t. (\<forall>fuel\<ge>N. wire_read fuel 0x1000 3 spi_demo = Inr t) \<and> bytes_at (mem t) 0x1000 3 = [0xff, 0xff, 0xff]"
proof -
  have c: "card (wire_view spi_demo) = (\<lambda>_. 0xff)" by (simp add: wire_view_def spi_demo_def sd_st.defs)
  then have "fst (sd_read_data 3 (wire_view spi_demo)) = [0xff, 0xff, 0xff]"
    by (simp add: sd_read_incoming numeral_3_eq_3)
  then show ?thesis using wire_read_receives [OF spi_demo_ok(1), where n = 3 and buf = "0x1000"] by auto
qed

end
