(* ===== verification/DmacProps.thy ===== *)
theory DmacProps imports Dmac SpiProps begin

text \<open>
  What direct memory access does for the card driver. A history of stores to the registers is read as what a channel is programmed to do; the routines of kernel/spi.c set
  the controllers up for exactly the bytes that they are asked to move, and convert between bytes and the words of the controller. Waiting for a transfer has a gap in which
  the wakeup is lost.
\<close>

section \<open>Waiting\<close>

text \<open>
  \<open>dmac_wait_idle\<close> asks the controller whether the channel is idle before it takes the lock under which it goes to sleep, and the handler takes no lock that would
  keep it out of the gap.
\<close>

lemma dma_acc [simp]:
  "dma_rd r s = (dma s (hw_log s) r, log_ev (DmaRd r (dma s (hw_log s) r)) s)"
  "dma_wr r v s = log_ev (DmaWr r v) s"
  by (simp_all add: dma_rd_def dma_wr_def Let_def)

lemma log_ev_procs [simp]: "procs (log_ev e s) = procs s"
  by (simp add: log_ev_def)

text \<open>The handler clears the interrupt and wakes the processes that sleep on the channel, and no others.\<close>

lemma dmac_intr_eq:
  assumes "core_ok (core s)" and "\<And>i. lockfree (ProcLock i) (core s)"
  shows "dmac_intr ch s = Inr ((log_ev (DmaWr (Intclear ch) 0xFFFFFFFF) s)\<lparr>core := settle (core s),
    procs := (\<lambda>i. if i < NPROC then woken ChDma (procs s i) else procs s i)\<rparr>)"
  using wakeup_loop_eq [of "log_ev (DmaWr (Intclear ch) 0xFFFFFFFF) s" "[0..<NPROC]" ChDma] assms
  by (simp add: dmac_intr_def dmac_chanel_interrupt_clear_def wakeup_def NPROC_def cong: if_cong)

lemma dmac_wait_sleep_eq:
  assumes "idle (core s)" and "noff (mycpu (core s)) = 0" and "cproc (mycpu (core s)) = Some p"
  shows "\<exists>ie. dmac_wait_sleep s =
    Inr (ie, upd_proc p (\<lambda>q. q\<lparr>pchan := ChDma, pstate := SLEEPING\<rparr>) (s\<lparr>core := acq (ProcLock p) (settle (core s))\<rparr>))"
proof -
  note i = idleD [OF assms(1)]
  let ?s = "s\<lparr>core := acq (ProcLock p) (settle (core s))\<rparr>"
  have "dmac_wait_sleep s = sleep_enter ChDma (ProcLock p) ?s"
    using i assms(3) by (simp add: dmac_wait_sleep_def lock_simps)
  then show ?thesis
    using sleep_enter_eq [of "settle (core s)" p ?s "ProcLock p" ChDma] assms by simp
qed

text \<open>C34: \<open>dmac_wait_idle\<close> can lose its wakeup. When the channel is busy at the check, and the transfer ends and its interrupt is served before the process is asleep, the
  handler wakes nobody, and the process goes to sleep on the channel although nothing will wake it. When the process is asleep before the interrupt, the same handler makes it
  runnable.\<close>

theorem dma_wakeup_lost:
  assumes c: "idle (core s)" "noff (mycpu (core s)) = 0" "cproc (mycpu (core s)) = Some p" and p: "p < NPROC" "pstate (procs s p) = RUNNING"
    and busy: "bit (dma s (hw_log s) Chen) ch"
  shows "\<exists>s1. dmac_is_idle ch s = (False, s1)
    \<and> (\<exists>s2 ie s3. dmac_intr ch s1 = Inr s2 \<and> dmac_wait_sleep s2 = Inr (ie, s3) \<and> pstate (procs s3 p) = SLEEPING \<and> pchan (procs s3 p) = ChDma)
    \<and> (\<exists>ie s2 s3 s4. dmac_wait_sleep s1 = Inr (ie, s2) \<and> scheduler_return p s2 = Inr s3 \<and> dmac_intr ch s3 = Inr s4
        \<and> pstate (procs s4 p) = RUNNABLE)"
proof -
  let ?s = "log_ev (DmaRd Chen (dma s (hw_log s) Chen)) s"
  note i = idleD [OF c(1)]
  have idle: "dmac_is_idle ch s = (False, ?s)"
    using busy by (simp add: dmac_is_idle_def Let_def and_one_eq bit_iff_odd_drop_bit odd_iff_mod_2_eq_one)
  let ?t = "(log_ev (DmaWr (Intclear ch) 0xFFFFFFFF) ?s)\<lparr>core := settle (core s), procs := (\<lambda>i. if i < NPROC then woken ChDma (procs s i) else procs s i)\<rparr>"
  have early: "dmac_intr ch ?s = Inr ?t"
    using dmac_intr_eq [of ?s ch] i by (simp cong: if_cong)
  obtain ie where sl: "dmac_wait_sleep ?t =
      Inr (ie, upd_proc p (\<lambda>q. q\<lparr>pchan := ChDma, pstate := SLEEPING\<rparr>) (?t\<lparr>core := acq (ProcLock p) (settle (core ?t))\<rparr>))"
    (is "_ = Inr (ie, ?x)") using dmac_wait_sleep_eq [of ?t p] c by auto
  obtain je where sj: "dmac_wait_sleep ?s =
      Inr (je, upd_proc p (\<lambda>q. q\<lparr>pchan := ChDma, pstate := SLEEPING\<rparr>) (?s\<lparr>core := acq (ProcLock p) (settle (core ?s))\<rparr>))"
    (is "_ = Inr (je, ?u)") using dmac_wait_sleep_eq [of ?s p] c by auto
  have "core ?u = acq (ProcLock p) (settle (core s))" by simp
  with c(1) obtain v where v: "scheduler_return p ?u = Inr v" "idle (core v)" "procs v = procs ?u"
    using switch_away [of "settle (core s)" ?u p] by auto
  obtain w where w: "dmac_intr ch v = Inr w" "procs w p = woken ChDma (procs v p)"
    using dmac_intr_eq [of v ch] idleD [OF v(2)] p(1) by simp
  have "pstate (procs ?x p) = SLEEPING \<and> pchan (procs ?x p) = ChDma" by simp
  with early sl have lost: "\<exists>s2 ie s3. dmac_intr ch ?s = Inr s2 \<and> dmac_wait_sleep s2 = Inr (ie, s3) \<and> pstate (procs s3 p) = SLEEPING \<and> pchan (procs s3 p) = ChDma"
    by blast
  have "pstate (procs w p) = RUNNABLE" using w(2) v(3) by (simp add: woken_def)
  with sj v(1) w(1) have "\<exists>ie s2 s3 s4. dmac_wait_sleep ?s = Inr (ie, s2) \<and> scheduler_return p s2 = Inr s3 \<and> dmac_intr ch s3 = Inr s4
      \<and> pstate (procs s4 p) = RUNNABLE"
    by blast
  with idle lost show ?thesis by blast
qed

lemma dma_wakeup_lost_witness:
  "\<exists>s :: spi_st. idle (core s) \<and> pstate (procs s 2) = RUNNING \<and> (\<exists>s1 s2 ie s3. dmac_is_idle 0 s = (False, s1) \<and> dmac_intr 0 s1 = Inr s2
    \<and> dmac_wait_sleep s2 = Inr (ie, s3) \<and> pstate (procs s3 2) = SLEEPING)"
proof -
  let ?s = "spi_demo\<lparr>core := demo_core, procs := \<lambda>_. no_proc\<lparr>pstate := RUNNING\<rparr>, dma := \<lambda>_ _. 1\<rparr>"
  show ?thesis
    using dma_wakeup_lost [of ?s 2 0] by (intro exI [of _ ?s]) (auto simp: NPROC_def)
qed

section \<open>What a channel is programmed to do\<close>

text \<open>The registers of a channel as a history of stores leaves them, whether the channel and the controller are on, and what device 0 of the serial bus asks for.\<close>

record xfer =
  x_sar :: u64
  x_dar :: u64
  x_ctl :: u64
  x_cfg :: u64
  x_ts :: u64
  x_on :: bool
  x_dma :: bool
  x_ask :: u32

fun chan_step :: "nat \<Rightarrow> xfer \<Rightarrow> hw_ev \<Rightarrow> xfer" where
  "chan_step ch x (DmaWr r v) =
    (case r of
       Sar c \<Rightarrow> if c = ch then x\<lparr>x_sar := v\<rparr> else x
     | Dar c \<Rightarrow> if c = ch then x\<lparr>x_dar := v\<rparr> else x
     | ChCtl c \<Rightarrow> if c = ch then x\<lparr>x_ctl := v\<rparr> else x
     | ChCfg c \<Rightarrow> if c = ch then x\<lparr>x_cfg := v\<rparr> else x
     | BlockTs c \<Rightarrow> if c = ch then x\<lparr>x_ts := v\<rparr> else x
     | Chen \<Rightarrow> if bit v (8 + ch) then x\<lparr>x_on := bit v ch\<rparr> else x
     | DmacCfg \<Rightarrow> x\<lparr>x_dma := bit v 0\<rparr>
     | _ \<Rightarrow> x)"
| "chan_step ch x (SpiWr n r v) = (if n = 0 \<and> r = DMACR then x\<lparr>x_ask := v\<rparr> else x)"
| "chan_step ch x e = x"

definition chan_of :: "nat \<Rightarrow> hw_ev list \<Rightarrow> xfer" where
  "chan_of ch = foldl (chan_step ch)
    \<lparr>x_sar = 0, x_dar = 0, x_ctl = 0, x_cfg = 0, x_ts = 0, x_on = False, x_dma = False, x_ask = 0\<rparr>"

lemma chan_of_append [simp]: "chan_of ch (l @ es) = foldl (chan_step ch) (chan_of ch l) es"
  by (simp add: chan_of_def)

lemma wire_of_append: "wire_of (l @ es) = foldl wire_step (wire_of l) es"
  by (simp add: wire_of_def)

text \<open>Bit fields.\<close>

definition field :: "nat \<Rightarrow> nat \<Rightarrow> u64 \<Rightarrow> u64" where
  "field pos width w = take_bit width (drop_bit pos w)"

lemma bit_put_field:
  "bit (put_field pos width v w) i \<longleftrightarrow> i < 64 \<and> (if pos \<le> i \<and> i < pos + width then bit v (i - pos) else bit w i)"
  by (auto simp: put_field_def bit_simps)

lemma field_put:
  "pos + width \<le> 64 \<Longrightarrow> field pos width (put_field pos width v w) = take_bit width v"
  by (rule bit_word_eqI) (auto simp: field_def bit_put_field bit_simps)

lemma field_put_other:
  "pos + width \<le> pos' \<or> pos' + width' \<le> pos \<Longrightarrow> field pos' width' (put_field pos width v w) = field pos' width' w"
  by (rule bit_word_eqI) (auto simp: field_def bit_put_field bit_simps dest: bit_imp_le_length)

text \<open>
  A channel that is on and moves \<open>n\<close> words of 32 bits from a device to memory, or from memory to a device: the flow, the handshake of the device's end with its
  request, which address moves on, and both widths.
\<close>

definition from_device :: "nat \<Rightarrow> u64 \<Rightarrow> u64 \<Rightarrow> nat \<Rightarrow> xfer \<Rightarrow> bool" where
  "from_device ch dev a n x \<longleftrightarrow>
    x_on x \<and> x_dma x \<and> x_sar x = dev \<and> x_dar x = a \<and> Suc (unat (x_ts x)) = n
    \<and> field 32 3 (x_cfg x) = 2 \<and> field 35 1 (x_cfg x) = 0 \<and> field 39 4 (x_cfg x) = of_nat ch
    \<and> field 4 1 (x_ctl x) = 1 \<and> field 6 1 (x_ctl x) = 0 \<and> field 8 3 (x_ctl x) = 2 \<and> field 11 3 (x_ctl x) = 2"

definition to_device :: "nat \<Rightarrow> u64 \<Rightarrow> u64 \<Rightarrow> nat \<Rightarrow> xfer \<Rightarrow> bool" where
  "to_device ch dev a n x \<longleftrightarrow>
    x_on x \<and> x_dma x \<and> x_sar x = a \<and> x_dar x = dev \<and> Suc (unat (x_ts x)) = n
    \<and> field 32 3 (x_cfg x) = 1 \<and> field 36 1 (x_cfg x) = 0 \<and> field 44 4 (x_cfg x) = of_nat ch
    \<and> field 4 1 (x_ctl x) = 0 \<and> field 6 1 (x_ctl x) = 1 \<and> field 8 3 (x_ctl x) = 2 \<and> field 11 3 (x_ctl x) = 2"

text \<open>States that differ in the history and in the clocks, where the requests of the channels are kept.\<close>

definition same_but_hw :: "'a spi_st_scheme \<Rightarrow> 'a spi_st_scheme \<Rightarrow> bool" where
  "same_but_hw s t \<longleftrightarrow> t = s\<lparr>hw_log := hw_log t, clocks := clocks t\<rparr>"

lemma same_but_hw_simps [simp]:
  "same_but_hw s s" "same_but_hw s (log_ev e t) \<longleftrightarrow> same_but_hw s t" "same_but_hw s (spi_wr n r v t) \<longleftrightarrow> same_but_hw s t"
  "same_but_hw s (t\<lparr>clocks := c\<rparr>) \<longleftrightarrow> same_but_hw s t"
  by (cases s; cases t; simp add: same_but_hw_def log_ev_def spi_wr_def)+

lemma same_but_hw_trans [trans]: "same_but_hw s t \<Longrightarrow> same_but_hw t u \<Longrightarrow> same_but_hw s u"
  by (cases s; cases t; cases u) (simp add: same_but_hw_def)

lemma same_but_log_hw: "same_but_log s t \<Longrightarrow> same_but_hw s t"
  by (cases s; cases t) (simp add: same_but_hw_def same_but_log_def)

lemma same_but_hwD:
  "same_but_hw s t \<Longrightarrow> mem t = mem s \<and> spi t = spi s \<and> card t = card s \<and> core t = core s \<and> dma t = dma s \<and> kernel_end t = kernel_end s
    \<and> kmem_ok t = kmem_ok s \<and> free_pages t = free_pages s"
  by (cases s; cases t) (simp add: same_but_hw_def kmem_ok_def kmem_ready_def kmem_inv_def free_pages_def)

section \<open>Starting a transfer\<close>

text \<open>
  What the controller and the wait have to do for it: a channel that has been switched off reads as idle, and \<open>dmac_wait_idle\<close> on an idle channel returns after
  one look at the register, as its code does.
\<close>

definition dma_off_idle :: "dma_ctl \<Rightarrow> bool" where
  "dma_off_idle d \<longleftrightarrow> (\<forall>l ch. \<not> x_on (chan_of ch l) \<longrightarrow> \<not> bit (d l Chen) ch)"

definition returns_if_idle :: "'a dma_wait \<Rightarrow> bool" where
  "returns_if_idle wt \<longleftrightarrow> (\<forall>ch s. \<not> bit (dma s (hw_log s) Chen) ch \<longrightarrow> wt ch s = Inr (log_ev (DmaRd Chen (dma s (hw_log s) Chen)) s))"

lemma dmac_wait_idle_returns:
  "\<not> bit (dma s (hw_log s) Chen) ch \<Longrightarrow> dmac_wait_idle_run ch s = Inr (Finished (), log_ev (DmaRd Chen (dma s (hw_log s) Chen)) s)"
  by (simp add: dmac_wait_idle_run_def dmac_is_idle_def Let_def and_one_eq bit_iff_odd_drop_bit even_iff_mod_2_eq_zero)

lemma log_ev_dma [simp]: "dma (log_ev e s) = dma s" "clocks (log_ev e s) = clocks s"
  by (simp_all add: log_ev_def)

lemma bit_channel [simp]:
  "ch < 6 \<Longrightarrow> bit (put_field (8 + ch) (Suc 0) 1 w) (8 + ch)"
  "ch < 6 \<Longrightarrow> bit (put_field (8 + ch) (Suc 0) 1 (put_field ch (Suc 0) v w)) ch = bit v 0"
  "bit (put_field (Suc 0) (Suc 0) 1 (put_field 0 (Suc 0) 1 w)) 0"
  by (simp_all add: bit_put_field)

lemmas dmac_defs = dmac_channel_enable_def dmac_enable_channel_interrupt_def dmac_enable_def dmac_set_channel_param_def dma_change_def
  dmac_channel_disable_def dmac_chanel_interrupt_clear_def

lemma single_mode_ok:
  assumes d: "dma_off_idle (dma s)" and wt: "returns_if_idle wt" and ch: "ch < 6"
  shows "\<exists>t. dmac_set_single_mode wt ch src dest si di bs tw n s = Inr t \<and> same_but_hw s t \<and> clocks t = clocks s \<and> wire t = wire s
    \<and> (let x = chan_of ch (hw_log t) in
        x_on x \<and> x_dma x \<and> x_sar x = src \<and> x_dar x = dest \<and> x_ts x = ucast (ucast n - 1 :: u32) \<and> x_ask x = x_ask (chan_of ch (hw_log s))
        \<and> field 32 3 (x_cfg x) = flow_control src dest
        \<and> field 35 1 (x_cfg x) = (if is_memory src then 1 else 0) \<and> field 36 1 (x_cfg x) = (if is_memory dest then 1 else 0)
        \<and> field 39 4 (x_cfg x) = of_nat ch \<and> field 44 4 (x_cfg x) = of_nat ch
        \<and> field 4 1 (x_ctl x) = take_bit 1 si \<and> field 6 1 (x_ctl x) = take_bit 1 di
        \<and> field 8 3 (x_ctl x) = take_bit 3 tw \<and> field 11 3 (x_ctl x) = take_bit 3 tw)"
proof -
  let ?a = "dmac_channel_disable ch (dmac_chanel_interrupt_clear ch s)"
  have off: "\<not> x_on (chan_of ch (hw_log ?a))"
    using ch by (simp add: dmac_defs Let_def)
  have a: "dma ?a = dma s" by (simp add: dmac_defs Let_def)
  with d off have "\<not> bit (dma ?a (hw_log ?a) Chen) ch" by (simp add: dma_off_idle_def)
  with wt have w: "wt ch ?a = Inr (log_ev (DmaRd Chen (dma ?a (hw_log ?a) Chen)) ?a)" (is "_ = Inr ?b") by (simp add: returns_if_idle_def)
  have c: "take_bit 4 (of_nat ch :: u64) = of_nat ch"
    using ch by (simp add: take_bit_eq_mod unat_arith_simps unat_of_nat)
  have f: "take_bit 3 (flow_control src dest) = flow_control src dest"
    by (simp add: flow_control_def)
  let ?t = "dmac_channel_enable ch (dmac_enable_channel_interrupt ch (dmac_enable (dmac_set_channel_param ch src dest si di bs tw (ucast n) ?b)))"
  have "dmac_set_single_mode wt ch src dest si di bs tw n s = Inr ?t"
    by (simp add: dmac_set_single_mode_def Let_def w)
  moreover have "same_but_hw s ?t \<and> clocks ?t = clocks s \<and> wire ?t = wire s"
    by (simp add: dmac_defs Let_def wire_of_append)
  moreover have "let x = chan_of ch (hw_log ?t) in
      x_on x \<and> x_dma x \<and> x_sar x = src \<and> x_dar x = dest \<and> x_ts x = ucast (ucast n - 1 :: u32) \<and> x_ask x = x_ask (chan_of ch (hw_log s))
      \<and> field 32 3 (x_cfg x) = flow_control src dest
      \<and> field 35 1 (x_cfg x) = (if is_memory src then 1 else 0) \<and> field 36 1 (x_cfg x) = (if is_memory dest then 1 else 0)
      \<and> field 39 4 (x_cfg x) = of_nat ch \<and> field 44 4 (x_cfg x) = of_nat ch
      \<and> field 4 1 (x_ctl x) = take_bit 1 si \<and> field 6 1 (x_ctl x) = take_bit 1 di
      \<and> field 8 3 (x_ctl x) = take_bit 3 tw \<and> field 11 3 (x_ctl x) = take_bit 3 tw"
    by (simp add: dmac_defs Let_def ch field_put field_put_other c f)
  ultimately show ?thesis by blast
qed

section \<open>Receiving\<close>

lemma narrow_bytes:
  assumes sep: "\<And>i j d. i < N \<Longrightarrow> j < N \<Longrightarrow> d < 4 \<Longrightarrow> p + of_nat i \<noteq> q + 4 * of_nat j + d" and N: "pos + k \<le> N" "N < 2 ^ 32"
  shows "narrow k SPI_TRANS_CHAR p q (of_nat pos) m =
    put_bytes (p + of_nat pos) (map (\<lambda>j. ucast (load32 m (q + 4 * of_nat j))) [pos..<pos + k]) m"
  using N(1)
proof (induction k arbitrary: pos m)
  case (Suc k)
  let ?m = "m(p + of_nat pos := ucast (load32 m (q + 4 * of_nat pos)))"
  have same: "load32 ?m (q + 4 * of_nat j) = load32 m (q + 4 * of_nat j)" if "j < N" for j
    using sep [of pos j 0] sep [of pos j 1] sep [of pos j 2] sep [of pos j 3] Suc.prems that by (auto simp: load32_def)
  have u: "(ucast (of_nat pos :: u32) :: u64) = of_nat pos" using Suc.prems N(2) by (intro u32_of_nat) simp
  have "narrow (Suc k) SPI_TRANS_CHAR p q (of_nat pos) m = narrow k SPI_TRANS_CHAR p q (of_nat (Suc pos)) ?m"
    by (simp add: u add.commute)
  also have "\<dots> = put_bytes (p + of_nat (Suc pos)) (map (\<lambda>j. ucast (load32 ?m (q + 4 * of_nat j))) [Suc pos..<Suc pos + k]) ?m"
    using Suc.prems by (intro Suc.IH) simp
  also have "map (\<lambda>j. ucast (load32 ?m (q + 4 * of_nat j))) [Suc pos..<Suc pos + k] = map (\<lambda>j. ucast (load32 m (q + 4 * of_nat j)) :: u8) [Suc pos..<Suc pos + k]"
  proof (rule map_cong [OF refl])
    fix j assume "j \<in> set [Suc pos..<Suc pos + k]"
    then have "j < N" using Suc.prems by auto
    from same [OF this] show "(ucast (load32 ?m (q + 4 * of_nat j)) :: u8) = ucast (load32 m (q + 4 * of_nat j))" by (rule arg_cong)
  qed
  finally have "narrow (Suc k) SPI_TRANS_CHAR p q (of_nat pos) m =
    put_bytes (p + of_nat (Suc pos)) (map (\<lambda>j. ucast (load32 m (q + 4 * of_nat j))) [Suc pos..<Suc pos + k]) ?m" .
  moreover have "p + of_nat (Suc pos) = p + of_nat pos + 1" by simp
  moreover have "[pos..<pos + Suc k] = pos # [Suc pos..<Suc pos + k]" by (simp add: upt_conv_Cons)
  ultimately show ?case by (simp only: list.map put_bytes.simps)
qed simp

text \<open>
  The controllers are set to move \<open>n\<close> frames from the card to memory at \<open>a\<close>: the channel has been programmed and is on, the serial device asks for it to be
  served and is the one that is served, and \<open>n\<close> frames are due.
\<close>

definition recv_ready :: "u64 \<Rightarrow> nat \<Rightarrow> 'a spi_st_scheme \<Rightarrow> bool" where
  "recv_ready a n s \<longleftrightarrow>
    from_device 0 (spi_dr 0) a n (chan_of 0 (hw_log s)) \<and> bit (x_ask (chan_of 0 (hw_log s))) 0 \<and> dma_request 0 (clocks s) = SSI0_RX_REQ
    \<and> w_mode (wire s) 2 \<and> w_sel (wire s) \<and> w_due (wire s) = n"

lemma page_is_memory: "valid_page ke p \<Longrightarrow> 0x80000000 \<le> ke \<Longrightarrow> is_memory p"
  by (auto simp: valid_page_def is_memory_def PHYSTOP_def)

lemma spi_dr_device [simp]: "\<not> is_memory (spi_dr 0)"
  by (simp add: is_memory_def spi_dr_def VIRT_OFFSET_def)

lemma select_request_simps [simp]:
  "hw_log (select_request ch r s) = hw_log s" "same_but_hw s (select_request ch r t) \<longleftrightarrow> same_but_hw s t" "dma (select_request ch r s) = dma s"
  "clocks (select_request ch r s) = snd (sysctl_dma_select ch r (clocks s))"
  by (simp_all add: select_request_def)

text \<open>The registers up to the wait for the transfer.\<close>

lemma receive_starts:
  assumes ok: "spi_ctl_ok (spi s) (card s)" "dma_off_idle (dma s)" "returns_if_idle wt" and w: "wire s = wire_off 0x70000 w0"
    and p: "is_memory p" and n: "0 < n" "n < 2 ^ 32"
  shows "\<exists>u. spi_receive_data_normal_dma wt (- 1) 0 0 3 q 0 p (of_nat n) s = kbind (wt 0 u) (\<lambda>v. Inr (spi_wr 0 SSIENR 0 (spi_wr 0 SER 0 v)))
    \<and> same_but_hw s u \<and> recv_ready p n u \<and> w_bus (wire u) = w_bus (wire s)"
proof -
  let ?a = "spi_set_tmod 0 SPI_TMOD_RECV s"
  have a: "wire ?a = wire_off 0x70200 w0" "same_but_log s ?a"
    using set_tmod_ok [OF ok(1) w, of 2] by (simp_all add: SPI_TMOD_RECV_def)
  let ?b = "select_request (int 0) (SSI0_RX_REQ + of_nat 0 * 2) (spi_wr 0 SSIENR 1 (spi_wr 0 DMACR 3 (spi_wr 0 CTRLR1 (ucast (of_nat n - 1 :: u64)) ?a)))"
  have b: "same_but_hw s ?b" using same_but_log_hw [OF a(2)] by simp
  have un: "unat (of_nat n :: u64) = n" "unat (of_nat n :: u32) = n" using n by (simp_all add: unat_of_nat_small)
  have cut: "ucast (of_nat n :: u64) = (of_nat n :: u32)" by (rule unat_inj) (use n in \<open>simp add: unsigned_ucast_eq un take_bit_nat_eq_self\<close>)
  have d: "dma_off_idle (dma ?b)" using ok(2) same_but_hwD [OF b] by simp
  have "1 \<le> (of_nat n :: u32)" unfolding word_le_nat_alt un using n(1) by simp
  then have "unat ((of_nat n :: u32) - 1) = n - 1" by (simp only: unat_sub_le un) simp
  then have ts: "Suc (unat (ucast ((of_nat n :: u32) - 1) :: u64)) = n" using n(1) by (simp add: unat_ucast_up)
  obtain c where c: "dmac_set_single_mode wt 0 (spi_dr 0) p DMAC_ADDR_NOCHANGE DMAC_ADDR_INCREMENT DMAC_MSIZE_1 DMAC_TRANS_WIDTH_32 (of_nat n) ?b = Inr c"
      "same_but_hw ?b c" "clocks c = clocks ?b" "wire c = wire ?b" and x: "from_device 0 (spi_dr 0) p n (chan_of 0 (hw_log c))"
      "x_ask (chan_of 0 (hw_log c)) = x_ask (chan_of 0 (hw_log ?b))"
    using single_mode_ok [OF d ok(3), of 0 "spi_dr 0" p DMAC_ADDR_NOCHANGE DMAC_ADDR_INCREMENT DMAC_MSIZE_1 DMAC_TRANS_WIDTH_32 "of_nat n"] p
    by (auto simp: Let_def cut ts from_device_def flow_control_def DMAC_ADDR_NOCHANGE_def DMAC_ADDR_INCREMENT_def DMAC_TRANS_WIDTH_32_def)
  have "1 \<le> (of_nat n :: u64)" unfolding word_le_nat_alt un using n(1) by simp
  then have "unat ((of_nat n :: u64) - 1) = n - 1" by (simp only: unat_sub_le un) simp
  then have due: "Suc (unat (ucast ((of_nat n :: u64) - 1) :: u32)) = n"
    using n by (simp add: unsigned_ucast_eq take_bit_nat_eq_self)
  have sc: "same_but_hw s c" using same_but_hw_trans [OF b c(2)] .
  have wc: "wire c = (wire_off 0x70200 w0)\<lparr>w_frames := ucast ((of_nat n :: u64) - 1), w_on := True\<rparr>"
    unfolding c(4) by (simp add: a(1) wire_off_def)
  have "spi_ctl_ok (spi c) (card c)" using ok(1) same_but_hwD [OF sc] by simp
  then have ctrl: "spi c (hw_log c) 0 CTRLR0 = 0x70200"
    by (rule ctl_okD(1)) (simp add: wc wire_off_def)
  let ?u = "spi_wr 0 SER (push_bit 3 1) (spi_wr 0 DR 0xFFFFFFFF (log_ev (SpiRd 0 CTRLR0 0x70200) c))"
  have "spi_receive_data_normal_dma wt (- 1) 0 0 3 q 0 p (of_nat n) s = kbind (wt 0 ?u) (\<lambda>v. Inr (spi_wr 0 SSIENR 0 (spi_wr 0 SER 0 v)))"
    using c(1) by (simp add: spi_receive_data_normal_dma_def Let_def spi_get_frame_format_def frf_offset_def ctrl)
  moreover have "same_but_hw s ?u" using sc by simp
  moreover have "recv_ready p n ?u"
  proof -
    have "w_mode (wire ?u) 2" "w_sel (wire ?u)" "w_due (wire ?u) = n"
      using due by (simp_all add: wc wire_off_def wire_put_def w_mode_def push_bit_eq_mult)
    moreover have "chan_of 0 (hw_log ?u) = chan_of 0 (hw_log c)" "clocks ?u = clocks c" by (simp_all add: spi_wr_def)
    moreover have "x_ask (chan_of 0 (hw_log c)) = 3" using x(2) by (simp add: spi_wr_def)
    moreover have "dma_request 0 (clocks c) = SSI0_RX_REQ"
      using c(3) dma_select_request [of 0 0 SSI0_RX_REQ] by (simp add: SSI0_RX_REQ_def)
    ultimately show ?thesis using x(1) by (simp add: recv_ready_def)
  qed
  moreover have "w_bus (wire ?u) = w_bus (wire s)"
    by (simp add: wc w wire_off_def wire_put_def w_mode_def)
  ultimately show ?thesis by blast
qed

text \<open>The page of a buffer of words, and a buffer of bytes elsewhere.\<close>

lemma words_apart:
  assumes q: "page_aligned q" and away: "\<And>i. i < n \<Longrightarrow> PGROUNDDOWN (p + of_nat i) \<noteq> q" and n: "n \<le> 1024" and ij: "i < n" "j < n" "d < 4"
  shows "p + of_nat i \<noteq> q + 4 * of_nat j + d"
proof -
  have "unat d < 4" using ij(3) by (simp add: word_less_nat_alt)
  then have "4 * j + unat d < 4096" using ij(2) n by simp
  then have "PGROUNDDOWN (q + of_nat (4 * j + unat d)) = q" using PGROUNDDOWN_offset [OF q] by blast
  then show ?thesis using away [OF ij(1)] by (auto simp: add.assoc)
qed

text \<open>The end of the routine: the words go to the buffer as bytes, and the page is given back.\<close>

lemma receive_ends:
  assumes v: "kmem_ok v" "valid_page (kernel_end v) p" "p \<notin> free_pages v" "\<And>i. i < n \<Longrightarrow> PGROUNDDOWN (buf + of_nat i) \<notin> free_pages v"
    and ne: "\<And>i. i < n \<Longrightarrow> PGROUNDDOWN (buf + of_nat i) \<noteq> p" and n: "n \<le> 1024"
  shows "\<exists>t. kfree p (v\<lparr>mem := narrow n SPI_TRANS_CHAR buf p 0 (mem v)\<rparr>) = Inr t \<and> hw_log t = hw_log v
    \<and> bytes_at (mem t) buf n = map (\<lambda>i. ucast (load32 (mem v) (p + 4 * of_nat i))) [0..<n]
    \<and> kmem_ok t \<and> free_pages t = insert p (free_pages v) \<and> (\<forall>a. PGROUNDDOWN a \<noteq> p \<and> outside buf n a \<longrightarrow> mem t a = mem v a)"
proof -
  let ?bs = "map (\<lambda>i. ucast (load32 (mem v) (p + 4 * of_nat i))) [0..<n] :: u8 list"
  let ?w = "v\<lparr>mem := put_bytes buf ?bs (mem v)\<rparr>"
  have al: "page_aligned p" using v(2) valid_page_aligned by blast
  have nb: "narrow n SPI_TRANS_CHAR buf p 0 (mem v) = put_bytes buf ?bs (mem v)"
    using narrow_bytes [where N = n and k = n and pos = 0 and m = "mem v", OF words_apart [OF al ne n]] n by simp
  have out: "outside buf n a" if "PGROUNDDOWN a \<in> free_pages v" for a
    using v(4) that by (auto simp: outside_def)
  have w: "kmem_ok ?w" "free_pages ?w = free_pages v"
    using kmem_frame [OF v(1), of "put_bytes buf ?bs (mem v)"] out by (simp_all add: put_bytes_outside)
  have f: "kfree p ?w = Inr (kfreed p ?w)" "kmem_ok (kfreed p ?w)" "free_pages (kfreed p ?w) = insert p (free_pages v)"
    using kfree_page [of ?w p] w v(2,3) by simp_all
  have "mem (kfreed p ?w) a = mem ?w a" if "PGROUNDDOWN a \<noteq> p" for a
    using kfreed_frame [OF al, of ?w] that by (simp add: same_but_page_def)
  moreover from this have "bytes_at (mem (kfreed p ?w)) buf n = bytes_at (put_bytes buf ?bs (mem v)) buf n"
    using ne by (intro bytes_at_cong) simp
  moreover have "bytes_at (put_bytes buf ?bs (mem v)) buf n = ?bs"
    using bytes_at_put_bytes [of ?bs buf "mem v"] n by simp
  ultimately show ?thesis using f
    by (intro exI [of _ "kfreed p ?w"]) (simp add: nb put_bytes_outside)
qed

text \<open>What both directions begin with: the controller is set up and a page is taken.\<close>

lemma page_for_dma:
  assumes "spi_ctl_ok (spi s) (card s)" and k: "kmem_ok s" "free_pages s \<noteq> {}"
  obtains b p where "frame_width 0 (spi_init 0 0 0 8 0 s) = (SPI_TRANS_CHAR, b)" "kalloc b = Inr (p, kalloced p b)" "p \<in> free_pages s" "p \<noteq> 0"
    "valid_page (kernel_end s) p" "page_aligned p" "wire (kalloced p b) = wire_off 0x70000 (wire s)" "same_but_log s b"
    "kmem_ok (kalloced p b)" "free_pages (kalloced p b) = free_pages s - {p}"
    "spi (kalloced p b) = spi s" "dma (kalloced p b) = dma s" "card (kalloced p b) = card s" "kernel_end (kalloced p b) = kernel_end s"
    "same_but_page p (mem s) (mem (kalloced p b))"
proof -
  let ?s = "spi_init 0 0 0 8 0 s"
  note init = spi_init_ok [of s] same_but_logD [OF spi_init_ok(2), of s]
  have "spi_ctl_ok (spi ?s) (card ?s)" using assms(1) init by simp
  from frame_width_ok [OF this init(1)]
  obtain b where b: "frame_width 0 ?s = (SPI_TRANS_CHAR, b)" "wire b = wire_off 0x70000 (wire s)" "same_but_log ?s b"
    by (cases "frame_width 0 ?s") auto
  have sb: "same_but_log s b" using same_but_log_trans [OF init(2) b(3)] .
  note sbD = same_but_hwD [OF same_but_log_hw [OF sb]]
  obtain p where p: "kalloc b = Inr (p, kalloced p b)" "kmem_ok (kalloced p b)" "p \<in> free_pages s" "p \<noteq> 0"
      "valid_page (kernel_end s) p" "free_pages (kalloced p b) = free_pages s - {p}"
    using kalloc_page [of b] k sbD by auto
  have al: "page_aligned p" using p(5) valid_page_aligned by blast
  have "same_but_page p (mem s) (mem (kalloced p b))" using kalloced_frame [OF al, of b] sbD by simp
  moreover have "spi (kalloced p b) = spi s" "dma (kalloced p b) = dma s" "card (kalloced p b) = card s" "kernel_end (kalloced p b) = kernel_end s"
    using sbD by (simp_all add: kalloced_def)
  moreover have "wire (kalloced p b) = wire_off 0x70000 (wire s)" using b(2) by simp
  ultimately show thesis using that [of b p] b(1) sb p al by blast
qed

text \<open>C15: \<open>sd_read_data_dma\<close>. Before it waits for the transfer it has taken a free page, the serial bus has not moved, and both controllers are set to move exactly \<open>n\<close>
  frames of the card to that page. Whatever state the wait ends in, as long as the page and the buffer are not free, the routine returns, the buffer holds the low bytes
  of the words that are in the page then, the page is given back, and no other memory changes.\<close>

theorem wire_read_dma_receives:
  assumes ok: "spi_ctl_ok (spi s) (card s)" "dma_off_idle (dma s)" "returns_if_idle wt"
    and k: "kmem_ok s" "free_pages s \<noteq> {}" "0x80000000 \<le> kernel_end s" and n: "0 < n" "n \<le> 1024"
    and away: "\<forall>i<n. PGROUNDDOWN (buf + of_nat i) \<notin> free_pages s"
  shows "\<exists>p u. p \<in> free_pages s \<and> recv_ready p n u \<and> bus_log (wire_view u) = bus_log (wire_view s)
    \<and> spi u = spi s \<and> dma u = dma s \<and> card u = card s \<and> kernel_end u = kernel_end s \<and> kmem_ok u \<and> free_pages u = free_pages s - {p} \<and> (\<forall>a. PGROUNDDOWN a \<noteq> p \<longrightarrow> mem u a = mem s a)
    \<and> (\<forall>v. wt 0 u = Inr v \<and> kmem_ok v \<and> kernel_end v = kernel_end s \<and> p \<notin> free_pages v \<and> (\<forall>i<n. PGROUNDDOWN (buf + of_nat i) \<notin> free_pages v) \<longrightarrow>
        (\<exists>t. wire_read_dma wt buf (of_nat n) s = Inr t \<and> bytes_at (mem t) buf n = map (\<lambda>i. ucast (load32 (mem v) (p + 4 * of_nat i))) [0..<n]
          \<and> bus_log (wire_view t) = bus_log (wire_view v) \<and> kmem_ok t \<and> free_pages t = insert p (free_pages v)
          \<and> (\<forall>a. PGROUNDDOWN a \<noteq> p \<and> outside buf n a \<longrightarrow> mem t a = mem v a)))"
proof -
  obtain b p where b: "frame_width 0 (spi_init 0 0 0 8 0 s) = (SPI_TRANS_CHAR, b)" "kalloc b = Inr (p, kalloced p b)" "p \<in> free_pages s" "p \<noteq> 0"
      "valid_page (kernel_end s) p" "wire (kalloced p b) = wire_off 0x70000 (wire s)"
    and bk: "kmem_ok (kalloced p b)" "free_pages (kalloced p b) = free_pages s - {p}"
      "spi (kalloced p b) = spi s" "dma (kalloced p b) = dma s" "card (kalloced p b) = card s" "kernel_end (kalloced p b) = kernel_end s"
      "same_but_page p (mem s) (mem (kalloced p b))"
    using page_for_dma [OF ok(1) k(1,2)] by metis
  let ?a = "kalloced p b"
  have a: "spi_ctl_ok (spi ?a) (card ?a)" "dma_off_idle (dma ?a)" using ok(1,2) bk by simp_all
  have n32: "n < 2 ^ 32" using n by simp
  have un: "unat (of_nat n :: u64) = n" "(ucast (of_nat n :: u32) :: u64) = of_nat n" using n by (simp_all add: unat_of_nat_small u32_of_nat)
  have "\<exists>u. spi_receive_data_normal_dma wt (- 1) 0 0 3 p 0 p (of_nat n) ?a = kbind (wt 0 u) (\<lambda>v. Inr (spi_wr 0 SSIENR 0 (spi_wr 0 SER 0 v)))
      \<and> same_but_hw ?a u \<and> recv_ready p n u \<and> w_bus (wire u) = w_bus (wire ?a)"
    by (rule receive_starts [OF a ok(3) b(6) page_is_memory [OF b(5) k(3)] n(1) n32])
  then obtain u where u: "spi_receive_data_normal_dma wt (- 1) 0 0 3 p 0 p (of_nat n) ?a = kbind (wt 0 u) (\<lambda>v. Inr (spi_wr 0 SSIENR 0 (spi_wr 0 SER 0 v)))"
      "same_but_hw ?a u" "recv_ready p n u" "w_bus (wire u) = w_bus (wire ?a)"
    by blast
  note uD = same_but_hwD [OF u(2)]
  have after: "\<exists>t. wire_read_dma wt buf (of_nat n) s = Inr t \<and> bytes_at (mem t) buf n = map (\<lambda>i. ucast (load32 (mem v) (p + 4 * of_nat i))) [0..<n]
      \<and> bus_log (wire_view t) = bus_log (wire_view v) \<and> kmem_ok t \<and> free_pages t = insert p (free_pages v)
      \<and> (\<forall>a. PGROUNDDOWN a \<noteq> p \<and> outside buf n a \<longrightarrow> mem t a = mem v a)"
    if v: "wt 0 u = Inr v" "kmem_ok v" "kernel_end v = kernel_end s" "p \<notin> free_pages v" "\<forall>i<n. PGROUNDDOWN (buf + of_nat i) \<notin> free_pages v" for v
  proof -
    let ?v = "spi_wr 0 SSIENR 0 (spi_wr 0 SER 0 v)"
    have ne: "PGROUNDDOWN (buf + of_nat i) \<noteq> p" if "i < n" for i using away that b(3) by auto
    have vk: "kmem_ok ?v" "free_pages ?v = free_pages v" "kernel_end ?v = kernel_end s"
      using same_but_log_kmem [of v ?v] v(2,3) by simp_all
    obtain t where t: "kfree p (?v\<lparr>mem := narrow n SPI_TRANS_CHAR buf p 0 (mem ?v)\<rparr>) = Inr t" "hw_log t = hw_log ?v"
        "bytes_at (mem t) buf n = map (\<lambda>i. ucast (load32 (mem ?v) (p + 4 * of_nat i))) [0..<n]"
        "kmem_ok t" "free_pages t = insert p (free_pages ?v)" "\<forall>a. PGROUNDDOWN a \<noteq> p \<and> outside buf n a \<longrightarrow> mem t a = mem ?v a"
      using receive_ends [of ?v p n buf] vk b(5) v(4,5) ne n(2) by auto
    have "wire_read_dma wt buf (of_nat n) s = Inr t"
      using b(1,2,4) u(1) v(1) t(1) by (simp add: wire_read_dma_def spi_receive_data_standard_dma_def Let_def un)
    then show ?thesis using t vk by (intro exI [of _ t]) (simp add: wire_view_def)
  qed
  have "mem u a = mem s a" if "PGROUNDDOWN a \<noteq> p" for a
    using bk(7) that uD by (simp add: same_but_page_def)
  then show ?thesis
    using u(3,4) b(3,6) bk uD after by (intro exI [of _ p] exI [of _ u]) (simp add: wire_view_def wire_off_def)
qed

text \<open>A controller that says which channels are on, and a wait in which the card answers with ones.\<close>

definition dma_demo :: dma_ctl where
  "dma_demo l r = (if r = Chen \<and> x_on (chan_of 0 l) then 1 else 0)"

definition wait_demo :: "'a dma_wait" where
  "wait_demo ch s =
    (let (idle, s) = dmac_is_idle ch s; x = chan_of ch (hw_log s)
     in Inr (if idle then s else s\<lparr>mem := put_bytes (x_dar x) (concat (replicate (Suc (unat (x_ts x))) [0xff, 0, 0, 0])) (mem s)\<rparr>))"

lemma dma_demo_ok: "dma_off_idle dma_demo" "returns_if_idle wait_demo"
proof -
  show "dma_off_idle dma_demo" by (auto simp: dma_off_idle_def dma_demo_def bit_1_iff intro!: gr0I)
  show "returns_if_idle wait_demo"
    by (simp add: returns_if_idle_def wait_demo_def dmac_is_idle_def Let_def and_one_eq bit_iff_odd_drop_bit even_iff_mod_2_eq_zero)
qed

lemma wire_read_dma_receives_witness:
  "\<exists>t. wire_read_dma wait_demo 0x1000 3 (spi_demo\<lparr>dma := dma_demo\<rparr>) = Inr t \<and> bytes_at (mem t) 0x1000 3 = [0xff, 0xff, 0xff]"
proof -
  let ?s = "spi_demo\<lparr>dma := dma_demo\<rparr>" and ?p = "0x80200000 :: u64"
  have "kmem_ok ?s = kmem_ok spi_demo" "free_pages ?s = free_pages spi_demo"
    by (simp_all add: kmem_ok_def kmem_ready_def kmem_inv_def free_pages_def)
  then have s: "spi_ctl_ok (spi ?s) (card ?s)" "kmem_ok ?s" "free_pages ?s = {?p}" "kernel_end ?s = ?p"
    using spi_demo_ok by (simp_all add: spi_demo_def sd_st.defs)
  have away: "PGROUNDDOWN (0x1000 + of_nat i) \<noteq> ?p" if "i < 3" for i
    using PGROUNDDOWN_offset [of "0x1000" i] that by (simp add: page_aligned_def)
  have d: "dma_off_idle (dma ?s)" "free_pages ?s \<noteq> {}" "0x80000000 \<le> kernel_end ?s" using dma_demo_ok(1) s(3,4) by simp_all
  have b: "\<forall>i<3. PGROUNDDOWN (0x1000 + of_nat i) \<notin> free_pages ?s" using away s(3) by simp
  have "0 < (3 :: nat)" "(3 :: nat) \<le> 1024" by simp_all
  from wire_read_dma_receives [OF s(1) d(1) dma_demo_ok(2) s(2) d(2,3) this b]
  obtain q and u :: spi_st where q: "q \<in> free_pages ?s" and u: "recv_ready q 3 u" "dma u = dma ?s" "kernel_end u = kernel_end ?s" "kmem_ok u" "free_pages u = free_pages ?s - {q}"
    and run: "\<forall>v. wait_demo 0 u = Inr v \<and> kmem_ok v \<and> kernel_end v = kernel_end ?s \<and> q \<notin> free_pages v
      \<and> (\<forall>i<3. PGROUNDDOWN (0x1000 + of_nat i) \<notin> free_pages v) \<longrightarrow>
      (\<exists>t. wire_read_dma wait_demo 0x1000 (of_nat 3) ?s = Inr t \<and> bytes_at (mem t) 0x1000 3 = map (\<lambda>i. ucast (load32 (mem v) (q + 4 * of_nat i))) [0..<3]
        \<and> bus_log (wire_view t) = bus_log (wire_view v) \<and> kmem_ok t \<and> free_pages t = insert q (free_pages v)
        \<and> (\<forall>a. PGROUNDDOWN a \<noteq> q \<and> outside 0x1000 3 a \<longrightarrow> mem t a = mem v a))"
    by (elim exE conjE) (rule that)
  have qp: "q = ?p" using q s(3) by simp
  have r: "replicate 3 x = [x, x, x]" "replicate 2 x = [x, x]" for x :: "u8 list" by (simp_all add: numeral_3_eq_3 numeral_2_eq_2)
  have ones: "ucast (word_rcat [0, 0, 0, 0xff :: u8] :: u32) = (0xff :: u8)" by (simp add: word_rcat_def)
  let ?m = "put_bytes ?p (concat (replicate 3 [0xff, 0, 0, 0])) (mem u)"
  let ?v = "(log_ev (DmaRd Chen 1) u)\<lparr>mem := ?m\<rparr>"
  have "wait_demo 0 u = Inr ?v"
    using u(1,2) by (simp add: qp wait_demo_def dmac_is_idle_def Let_def dma_demo_def recv_ready_def from_device_def r)
  moreover have "kmem_ok ?v \<and> free_pages ?v = {} \<and> kernel_end ?v = ?p"
    using same_but_log_kmem [of u "log_ev (DmaRd Chen 1) u"] kmem_frame [of "log_ev (DmaRd Chen 1) u" ?m] u(3-5) s(3,4) qp by simp
  moreover have "map (\<lambda>i. ucast (load32 ?m (?p + 4 * of_nat i))) [0..<3] = [0xff, 0xff, 0xff :: u8]"
    by (simp add: r upt_rec load32_def ones)
  ultimately show ?thesis using run [THEN spec, of ?v] s(4) qp by auto
qed

section \<open>Sending\<close>

lemma bit_load32:
  assumes "n < 32"
  shows "bit (load32 m p) n = bit (m (p + of_nat (n div 8))) (n mod 8)"
proof -
  let ?ws = "map (\<lambda>i. m (p + of_nat i)) [0..<4]"
  have load: "load32 m p = word_of_int (horner_sum uint 256 ?ws)"
    by (simp add: load32_def word_rcat_def upt_rec)
  have "bit (horner_sum uint 256 ?ws) n \<longleftrightarrow> n div 8 < 4 \<and> bit (?ws ! (n div 8)) (n mod 8)"
    using bit_horner_sum_uint_exp_iff [of ?ws n] by simp
  moreover from assms have "n div 8 < 4" by simp
  ultimately show ?thesis using assms by (simp add: load bit_word_of_int_iff)
qed

lemma load32_store32: "load32 (store32 a v m) a = v"
proof (rule bit_word_eqI)
  fix n assume "n < LENGTH(32)"
  then have n: "n < 32" "n div 8 = 0 \<or> n div 8 = 1 \<or> n div 8 = 2 \<or> n div 8 = 3" by auto
  have "bit v n = bit v (8 * (n div 8) + n mod 8)" by simp
  with n show "bit (load32 (store32 a v m) a) n \<longleftrightarrow> bit v n"
    by (elim disjE) (auto simp: bit_load32 store32_def bit_ucast_iff bit_drop_bit_eq simp del: div_mult_mod_eq mult_div_mod_eq)
qed

text \<open>Words of a page that do not overlap.\<close>

lemma words_disjoint:
  assumes "i < 1024" "j < 1024" "i \<noteq> j" and "d < 4" "e < 4"
  shows "(q :: u64) + 4 * of_nat i + of_nat d \<noteq> q + 4 * of_nat j + of_nat e"
proof
  assume "q + 4 * of_nat i + of_nat d = q + 4 * of_nat j + of_nat e"
  then have "of_nat (4 * i + d) = (of_nat (4 * j + e) :: u64)" by (simp add: add.assoc)
  then have "unat (of_nat (4 * i + d) :: u64) = unat (of_nat (4 * j + e) :: u64)" by simp
  then have "4 * i + d = 4 * j + e" using assms by (simp add: unat_of_nat_small del: of_nat_add of_nat_mult)
  then show False using assms(3-5) by presburger
qed

lemma load32_other:
  assumes "i < 1024" "j < 1024" "i \<noteq> j"
  shows "load32 (store32 (q + 4 * of_nat i) v m) (q + 4 * of_nat j) = load32 m (q + 4 * of_nat j)"
proof -
  have "store32 (q + 4 * of_nat i) v m (q + 4 * of_nat j + of_nat e) = m (q + 4 * of_nat j + of_nat e)" if "e < 4" for e
    using words_disjoint [OF assms _ that, of 0 q] words_disjoint [OF assms _ that, of 1 q]
      words_disjoint [OF assms _ that, of 2 q] words_disjoint [OF assms _ that, of 3 q] by (auto simp: store32_def)
  from this [of 0] this [of 1] this [of 2] this [of 3] show ?thesis by (simp add: load32_def)
qed

text \<open>The loop that widens: the words are the bytes, and only the page of the words changes.\<close>

lemma widen_words:
  assumes q: "page_aligned q" and away: "\<And>i. i < N \<Longrightarrow> PGROUNDDOWN (p + of_nat i) \<noteq> q" and N: "pos + k \<le> N" "N \<le> 1024"
  shows "(\<forall>j<pos + k. load32 (widen k SPI_TRANS_CHAR p q (of_nat pos) m) (q + 4 * of_nat j) = (if j < pos then load32 m (q + 4 * of_nat j) else ucast (m (p + of_nat j))))
    \<and> same_but_page q m (widen k SPI_TRANS_CHAR p q (of_nat pos) m)"
  using N(1)
proof (induction k arbitrary: pos m)
  case 0
  then show ?case by (simp add: same_but_page_def)
next
  case (Suc k)
  have u: "(ucast (of_nat pos :: u32) :: u64) = of_nat pos" using Suc.prems N(2) by (intro u32_of_nat) simp
  let ?m = "store32 (q + 4 * of_nat pos) (ucast (m (p + of_nat pos))) m"
  let ?w = "widen k SPI_TRANS_CHAR p q (of_nat (Suc pos)) ?m"
  have w: "widen (Suc k) SPI_TRANS_CHAR p q (of_nat pos) m = ?w" by (simp add: u add.commute)
  have pg: "same_but_page q m ?m"
  proof -
    have "PGROUNDDOWN (q + of_nat (4 * pos + d)) = q" if "d < 4" for d
      using PGROUNDDOWN_offset [OF q, of "4 * pos + d"] Suc.prems N(2) that by simp
    from this [of 0] this [of 1] this [of 2] this [of 3] show ?thesis
      by (auto simp: same_but_page_def store32_def add_ac)
  qed
  have src: "?m (p + of_nat j) = m (p + of_nat j)" if "j < N" for j
    using pg away [OF that] by (simp add: same_but_page_def)
  from Suc.IH [of "Suc pos" ?m] Suc.prems have IH: "same_but_page q ?m ?w"
    "\<And>j. j < Suc pos + k \<Longrightarrow> load32 ?w (q + 4 * of_nat j) = (if j < Suc pos then load32 ?m (q + 4 * of_nat j) else ucast (?m (p + of_nat j)))"
    by auto
  have "load32 ?w (q + 4 * of_nat j) = (if j < pos then load32 m (q + 4 * of_nat j) else ucast (m (p + of_nat j)))" if "j < pos + Suc k" for j
  proof -
    have j: "j < 1024" "pos < 1024" "j < N" using that Suc.prems N(2) by simp_all
    consider "j < pos" | "j = pos" | "Suc pos \<le> j" by linarith
    then show ?thesis
    proof cases
      case 1 then show ?thesis using IH(2) [of j] load32_other [of pos j q] j that by simp
    next
      case 2 then show ?thesis using IH(2) [of j] load32_store32 by simp
    next
      case 3 then show ?thesis using IH(2) [of j] src [OF j(3)] that by simp
    qed
  qed
  moreover have "same_but_page q m ?w" using pg IH(1) by (simp add: same_but_page_def)
  ultimately show ?case unfolding w by blast
qed

text \<open>The controllers are set to move \<open>n\<close> words from memory at \<open>a\<close> to the queue of frames to send.\<close>

definition send_ready :: "u64 \<Rightarrow> nat \<Rightarrow> 'a spi_st_scheme \<Rightarrow> bool" where
  "send_ready a n s \<longleftrightarrow>
    to_device 0 (spi_dr 0) a n (chan_of 0 (hw_log s)) \<and> bit (x_ask (chan_of 0 (hw_log s))) 1 \<and> dma_request 0 (clocks s) = SSI0_TX_REQ
    \<and> w_mode (wire s) 1 \<and> w_sel (wire s) \<and> w_room (wire s) = 32 \<and> w_pend (wire s) = []"

lemma send_starts:
  assumes ok: "spi_ctl_ok (spi s) (card s)" "dma_off_idle (dma s)" "returns_if_idle wt" and w: "wire s = wire_off 0x70000 w0"
    and p: "is_memory p" and n: "0 < n" "n < 2 ^ 32"
  shows "\<exists>u. send_dma_words wt 0 0 3 p (of_nat n) (spi_set_tmod 0 SPI_TMOD_TRANS s) = wt 0 u
    \<and> same_but_hw s u \<and> send_ready p n u \<and> w_bus (wire u) = w_bus (wire s)"
proof -
  let ?a = "spi_set_tmod 0 SPI_TMOD_TRANS s"
  have a: "wire ?a = wire_off 0x70100 w0" "same_but_log s ?a"
    using set_tmod_ok [OF ok(1) w, of 1] by (simp_all add: SPI_TMOD_TRANS_def)
  let ?b = "select_request (int 0) (SSI0_TX_REQ + of_nat 0 * 2) (spi_wr 0 SSIENR 1 (spi_wr 0 DMACR 2 ?a))"
  have b: "same_but_hw s ?b" using same_but_log_hw [OF a(2)] by simp
  have un: "unat (of_nat n :: u64) = n" "unat (of_nat n :: u32) = n" using n by (simp_all add: unat_of_nat_small)
  have cut: "ucast (of_nat n :: u64) = (of_nat n :: u32)" by (rule unat_inj) (use n in \<open>simp add: unsigned_ucast_eq un take_bit_nat_eq_self\<close>)
  have d: "dma_off_idle (dma ?b)" using ok(2) same_but_hwD [OF b] by simp
  have "1 \<le> (of_nat n :: u32)" unfolding word_le_nat_alt un using n(1) by simp
  then have "unat ((of_nat n :: u32) - 1) = n - 1" by (simp only: unat_sub_le un) simp
  then have ts: "Suc (unat (ucast ((of_nat n :: u32) - 1) :: u64)) = n" using n(1) by (simp add: unat_ucast_up)
  obtain c where c: "dmac_set_single_mode wt 0 p (spi_dr 0) DMAC_ADDR_INCREMENT DMAC_ADDR_NOCHANGE DMAC_MSIZE_4 DMAC_TRANS_WIDTH_32 (of_nat n) ?b = Inr c"
      "same_but_hw ?b c" "clocks c = clocks ?b" "wire c = wire ?b" and x: "to_device 0 (spi_dr 0) p n (chan_of 0 (hw_log c))"
      "x_ask (chan_of 0 (hw_log c)) = x_ask (chan_of 0 (hw_log ?b))"
    using single_mode_ok [OF d ok(3), of 0 p "spi_dr 0" DMAC_ADDR_INCREMENT DMAC_ADDR_NOCHANGE DMAC_MSIZE_4 DMAC_TRANS_WIDTH_32 "of_nat n"] p
    by (auto simp: Let_def cut ts to_device_def flow_control_def DMAC_ADDR_NOCHANGE_def DMAC_ADDR_INCREMENT_def DMAC_TRANS_WIDTH_32_def)
  let ?u = "spi_wr 0 SER (push_bit 3 1) c"
  have "send_dma_words wt 0 0 3 p (of_nat n) ?a = wt 0 ?u"
    using c(1) by (simp add: send_dma_words_def Let_def)
  moreover have "same_but_hw s ?u" using same_but_hw_trans [OF b c(2)] by simp
  moreover have "send_ready p n ?u"
  proof -
    have "w_mode (wire ?u) 1" "w_sel (wire ?u)" "w_room (wire ?u) = 32" "w_pend (wire ?u) = []" by (simp_all add: c(4) a(1) wire_off_def w_mode_def push_bit_eq_mult)
    moreover have "chan_of 0 (hw_log ?u) = chan_of 0 (hw_log c)" "clocks ?u = clocks c" by (simp_all add: spi_wr_def)
    moreover have "x_ask (chan_of 0 (hw_log c)) = 2" using x(2) by (simp add: spi_wr_def)
    moreover have "dma_request 0 (clocks c) = SSI0_TX_REQ"
      using c(3) dma_select_request [of 0 0 SSI0_TX_REQ] by (simp add: SSI0_TX_REQ_def)
    ultimately show ?thesis using x(1) by (simp add: send_ready_def)
  qed
  moreover have "w_bus (wire ?u) = w_bus (wire s)" by (simp add: c(4) a(1) w wire_off_def)
  ultimately show ?thesis by blast
qed

text \<open>C16: \<open>sd_write_data_dma\<close>. Before it waits for the transfer it has taken a free page, the words in it are the bytes of the buffer, the serial bus has not moved, and
  both controllers are set to move exactly these words to the queue of the serial device, which is empty. Whatever state the wait ends in, as long as the page is not free
  and the serial device still sends, the routine then returns, and all that was left in the queue has been sent before it turns the device off: when the bytes of the
  buffer have all come to the queue, whether they were sent during the wait or not, the bus has carried them in order and nothing else, as \<open>sd_write_data\<close> sends them. The
  page is given back and no other memory changes.\<close>

theorem wire_write_dma_sends:
  assumes ok: "spi_ctl_ok (spi s) (card s)" "dma_off_idle (dma s)" "returns_if_idle wt"
    and k: "kmem_ok s" "free_pages s \<noteq> {}" "0x80000000 \<le> kernel_end s" and n: "0 < n" "n \<le> 1024"
    and away: "\<forall>i<n. PGROUNDDOWN (buf + of_nat i) \<notin> free_pages s"
  shows "\<exists>p u. p \<in> free_pages s \<and> send_ready p n u \<and> bus_log (wire_view u) = bus_log (wire_view s)
    \<and> map (\<lambda>i. ucast (load32 (mem u) (p + 4 * of_nat i))) [0..<n] = bytes_at (mem s) buf n
    \<and> spi u = spi s \<and> dma u = dma s \<and> card u = card s \<and> kernel_end u = kernel_end s \<and> kmem_ok u
    \<and> free_pages u = free_pages s - {p} \<and> (\<forall>a. PGROUNDDOWN a \<noteq> p \<longrightarrow> mem u a = mem s a)
    \<and> (\<forall>v. wt 0 u = Inr v \<and> kmem_ok v \<and> kernel_end v = kernel_end s \<and> p \<notin> free_pages v
          \<and> spi_ctl_ok (spi v) (card v) \<and> w_mode (wire v) 1 \<and> w_sel (wire v) \<longrightarrow>
        (\<exists>N t. (\<forall>fuel\<ge>N. wire_write_dma wt fuel buf (of_nat n) s = Inr t) 
          \<and> bus_log (wire_view t) = bus_log (wire_view v) @ map Out (w_pend (wire v))
          \<and> (bus_log (wire_view v) @ map Out (w_pend (wire v)) = bus_log (wire_view u) @ map Out (bytes_at (mem s) buf n) \<longrightarrow>
              bus_log (wire_view t) = bus_log (sd_write_data (bytes_at (mem s) buf n) (wire_view s)))
          \<and> kmem_ok t \<and> free_pages t = insert p (free_pages v) \<and> (\<forall>a. PGROUNDDOWN a \<noteq> p \<longrightarrow> mem t a = mem v a)))"
proof -
  obtain b p where b: "frame_width 0 (spi_init 0 0 0 8 0 s) = (SPI_TRANS_CHAR, b)" "kalloc b = Inr (p, kalloced p b)" "p \<in> free_pages s" "p \<noteq> 0"
      "valid_page (kernel_end s) p" "wire (kalloced p b) = wire_off 0x70000 (wire s)" "page_aligned p"
    and bk: "kmem_ok (kalloced p b)" "free_pages (kalloced p b) = free_pages s - {p}"
      "spi (kalloced p b) = spi s" "dma (kalloced p b) = dma s" "card (kalloced p b) = card s" "kernel_end (kalloced p b) = kernel_end s"
      "same_but_page p (mem s) (mem (kalloced p b))"
    using page_for_dma [OF ok(1) k(1,2)] by metis
  let ?m = "widen n SPI_TRANS_CHAR buf p 0 (mem (kalloced p b))"
  let ?a = "(kalloced p b)\<lparr>mem := ?m\<rparr>"
  have ne: "PGROUNDDOWN (buf + of_nat i) \<noteq> p" if "i < n" for i using away that b(3) by auto
  have wd: "\<And>j. j < n \<Longrightarrow> load32 ?m (p + 4 * of_nat j) = ucast (mem (kalloced p b) (buf + of_nat j))" "same_but_page p (mem (kalloced p b)) ?m"
    using widen_words [OF b(7) ne, of n 0 n] n(2) by auto
  have src: "mem (kalloced p b) (buf + of_nat i) = mem s (buf + of_nat i)" if "i < n" for i
    using bk(7) ne [OF that] by (simp add: same_but_page_def)
  have words: "map (\<lambda>i. ucast (load32 ?m (p + 4 * of_nat i))) [0..<n] = bytes_at (mem s) buf n"
    by (rule nth_equalityI) (simp_all add: wd(1) src)
  have ak: "kmem_ok ?a" "free_pages ?a = free_pages s - {p}"
    using kmem_frame [OF bk(1), of ?m] wd(2) bk(2) by (auto simp: same_but_page_def)
  have a: "spi_ctl_ok (spi ?a) (card ?a)" "dma_off_idle (dma ?a)" "wire ?a = wire_off 0x70000 (wire s)" using ok(1,2) bk b(6) by simp_all
  have un: "unat (of_nat n :: u64) = n" "(ucast (of_nat n :: u32) :: u64) = of_nat n" using n by (simp_all add: unat_of_nat_small u32_of_nat)
  obtain u where u: "send_dma_words wt 0 0 3 p (of_nat n) (spi_set_tmod 0 SPI_TMOD_TRANS ?a) = wt 0 u"
      "same_but_hw ?a u" "send_ready p n u" "w_bus (wire u) = w_bus (wire ?a)"
    using send_starts [OF a(1,2) ok(3) a(3) page_is_memory [OF b(5) k(3)] n(1)] n(2) by auto
  note uD = same_but_hwD [OF u(2)]
  have after: "\<exists>N t. (\<forall>fuel\<ge>N. wire_write_dma wt fuel buf (of_nat n) s = Inr t)
      \<and> bus_log (wire_view t) = bus_log (wire_view v) @ map Out (w_pend (wire v))
      \<and> (bus_log (wire_view v) @ map Out (w_pend (wire v)) = bus_log (wire_view u) @ map Out (bytes_at (mem s) buf n) \<longrightarrow>
          bus_log (wire_view t) = bus_log (sd_write_data (bytes_at (mem s) buf n) (wire_view s)))
      \<and> kmem_ok t \<and> free_pages t = insert p (free_pages v) \<and> (\<forall>a. PGROUNDDOWN a \<noteq> p \<longrightarrow> mem t a = mem v a)"
    if v: "wt 0 u = Inr v" "kmem_ok v" "kernel_end v = kernel_end s" "p \<notin> free_pages v" "spi_ctl_ok (spi v) (card v)" "w_mode (wire v) 1" "w_sel (wire v)" for v
  proof -
    obtain N e where e: "\<forall>fuel\<ge>N. wait_sent fuel 0 v = Inr e" "same_but_log v e" "wire e = flushed (wire v)"
      using wait_sent_ok [OF v(5-7)] by blast
    let ?e = "spi_wr 0 SSIENR 0 (spi_wr 0 SER 0 e)"
    have ek: "kmem_ok ?e" "free_pages ?e = free_pages v" "kernel_end ?e = kernel_end s" "mem ?e = mem v"
      using same_but_log_kmem [of v ?e] same_but_logD [of v ?e] e(2) v(2,3) by simp_all
    have f: "kfree p ?e = Inr (kfreed p ?e)" "kmem_ok (kfreed p ?e)" "free_pages (kfreed p ?e) = insert p (free_pages v)"
      using kfree_page [of ?e p] ek v(4) b(5) by simp_all
    have "wire_write_dma wt fuel buf (of_nat n) s = Inr (kfreed p ?e)" if "N \<le> fuel" for fuel
      using b(1,2,4) u(1) v(1) e(1) that f(1)
      by (simp add: wire_write_dma_def spi_send_data_standard_dma_def spi_send_data_normal_dma_def send_dma_end_def Let_def un)
    moreover have "mem (kfreed p ?e) a = mem v a" if "PGROUNDDOWN a \<noteq> p" for a
      using kfreed_frame [OF b(7), of ?e] that ek(4) by (simp add: same_but_page_def)
    moreover have "bus_log (wire_view u) = bus_log (wire_view s)" using u(4) a(3) by (simp add: wire_view_def wire_off_def)
    moreover have "bus_log (wire_view (kfreed p ?e)) = bus_log (wire_view v) @ map Out (w_pend (wire v))"
      using e(3) by (simp add: wire_view_def flushed_def)
    ultimately show ?thesis using f(2,3) by (intro exI [of _ N] exI [of _ "kfreed p ?e"]) (simp add: sd_write_data_def on_bus_def)
  qed
  have "mem u a = mem s a" if "PGROUNDDOWN a \<noteq> p" for a
    using bk(7) wd(2) that uD by (simp add: same_but_page_def)
  then show ?thesis
    using u(3,4) b(3) a(3) ak bk words uD after by (intro exI [of _ p] exI [of _ u]) (simp add: wire_view_def wire_off_def)
qed

text \<open>A wait in which the words go to the queue.\<close>

definition wait_send_demo :: "'a dma_wait" where
  "wait_send_demo ch s =
    (let (idle, s) = dmac_is_idle ch s; x = chan_of ch (hw_log s)
     in Inr (if idle then s else fold (\<lambda>i. spi_wr 0 DR (load32 (mem s) (x_sar x + 4 * of_nat i))) [0..<Suc (unat (x_ts x))] s))"

lemma wait_send_demo_ok: "returns_if_idle wait_send_demo"
  by (simp add: returns_if_idle_def wait_send_demo_def dmac_is_idle_def Let_def and_one_eq bit_iff_odd_drop_bit even_iff_mod_2_eq_zero)

lemma wire_write_dma_sends_witness:
  "\<exists>N t. (\<forall>fuel\<ge>N. wire_write_dma wait_send_demo fuel 0 3 (spi_demo\<lparr>dma := dma_demo\<rparr>) = Inr t) \<and> bus_log (wire_view t) = map Out [0, 1, 2]"
proof -
  let ?s = "spi_demo\<lparr>dma := dma_demo\<rparr>" and ?p = "0x80200000 :: u64"
  have "kmem_ok ?s = kmem_ok spi_demo" "free_pages ?s = free_pages spi_demo"
    by (simp_all add: kmem_ok_def kmem_ready_def kmem_inv_def free_pages_def)
  then have s: "spi_ctl_ok (spi ?s) (card ?s)" "kmem_ok ?s" "free_pages ?s = {?p}" "kernel_end ?s = ?p"
    using spi_demo_ok by (simp_all add: spi_demo_def sd_st.defs)
  have d: "dma_off_idle (dma ?s)" "free_pages ?s \<noteq> {}" "0x80000000 \<le> kernel_end ?s" using dma_demo_ok(1) s(3,4) by simp_all
  have away: "PGROUNDDOWN (0 + of_nat i) \<noteq> ?p" if "i < 3" for i
    using PGROUNDDOWN_offset [of 0 i] that by (simp add: page_aligned_def)
  have b: "\<forall>i<3. PGROUNDDOWN (0 + of_nat i) \<notin> free_pages ?s" using away s(3) by simp
  have "0 < (3 :: nat)" "(3 :: nat) \<le> 1024" by simp_all
  from wire_write_dma_sends [OF s(1) d(1) wait_send_demo_ok s(2) d(2,3) this b]
  obtain q and u :: spi_st where q: "q \<in> free_pages ?s"
    and u: "send_ready q 3 u" "bus_log (wire_view u) = bus_log (wire_view ?s)" "spi u = spi ?s" "dma u = dma ?s" "card u = card ?s"
      "kernel_end u = kernel_end ?s" "kmem_ok u" "free_pages u = free_pages ?s - {q}"
    and words: "map (\<lambda>i. ucast (load32 (mem u) (q + 4 * of_nat i))) [0..<3] = bytes_at (mem ?s) 0 3"
    and run: "\<forall>v. wait_send_demo 0 u = Inr v \<and> kmem_ok v \<and> kernel_end v = kernel_end ?s \<and> q \<notin> free_pages v
        \<and> spi_ctl_ok (spi v) (card v) \<and> w_mode (wire v) 1 \<and> w_sel (wire v) \<longrightarrow>
      (\<exists>N t. (\<forall>fuel\<ge>N. wire_write_dma wait_send_demo fuel 0 (of_nat 3) ?s = Inr t)
        \<and> bus_log (wire_view t) = bus_log (wire_view v) @ map Out (w_pend (wire v))
        \<and> (bus_log (wire_view v) @ map Out (w_pend (wire v)) = bus_log (wire_view u) @ map Out (bytes_at (mem ?s) 0 3) \<longrightarrow>
            bus_log (wire_view t) = bus_log (sd_write_data (bytes_at (mem ?s) 0 3) (wire_view ?s)))
        \<and> kmem_ok t \<and> free_pages t = insert q (free_pages v) \<and> (\<forall>a. PGROUNDDOWN a \<noteq> q \<longrightarrow> mem t a = mem v a))"
    by (elim exE conjE) (rule that)
  have w0: "w_bus (wire u) = []" using u(2) by (simp add: wire_view_def wire_of_def spi_demo_def sd_st.defs)
  have "bytes_at (mem ?s) 0 3 = [0, 1, 2]" by (simp add: spi_demo_def sd_st.defs bytes_at_def upt_rec)
  with words have words3: "ucast (load32 (mem u) q) = (0 :: u8)" "ucast (load32 (mem u) (q + 4)) = (1 :: u8)" "ucast (load32 (mem u) (q + 8)) = (2 :: u8)"
    by (simp_all add: upt_rec)
  let ?v = "fold (\<lambda>i. spi_wr 0 DR (load32 (mem u) (q + 4 * of_nat i))) [0, 1, 2] (log_ev (DmaRd Chen 1) u)"
  have "Suc (unat (x_ts (chan_of 0 (hw_log u)))) = 3" using u(1) by (simp add: send_ready_def to_device_def)
  then have "[0..<Suc (unat (x_ts (chan_of 0 (hw_log u))))] = [0, 1, 2]" by (simp only:) (simp add: upt_rec)
  then have "wait_send_demo 0 u = Inr ?v"
    using u(1,4) by (simp add: wait_send_demo_def dmac_is_idle_def Let_def dma_demo_def send_ready_def to_device_def del: upt_Suc)
  moreover have "kmem_ok ?v \<and> kernel_end ?v = ?p \<and> free_pages ?v = {}"
    using same_but_log_kmem [of u ?v] u(6-8) q s(3,4) by simp
  moreover have "spi_ctl_ok (spi ?v) (card ?v)" using s(1) u(3,5) by simp
  moreover have "w_mode (wire ?v) 1 \<and> w_sel (wire ?v) \<and> bus_log (wire_view ?v) = [] \<and> w_pend (wire ?v) = [0, 1, 2]"
    using u(1) w0 words3 by (simp add: send_ready_def wire_put_send wire_view_def)
  ultimately show ?thesis using run [THEN spec, of ?v] s(4) by auto
qed

end
