(* ===== verification/FatTable.thy ===== *)
theory FatTable imports Bio UserMem begin

text \<open>
  kernel/fat32.c, first part: the state of the file system, the boot sector, and the file allocation table. The
  table is read and written one entry at a time through the buffer cache; it provides the contract of \<open>Store\<close> again,
  with clusters as keys.
\<close>

section \<open>State\<close>

text \<open>The static \<open>fat\<close>, with the fields of its \<open>bpb\<close>.\<close>

record fatinfo =
  first_data_sec :: u32
  data_sec_cnt :: u32
  data_clus_cnt :: u32
  byts_per_clus :: u32
  byts_per_sec :: u16
  sec_per_clus :: u8
  rsvd_sec_cnt :: u16
  fat_cnt :: u8
  hidd_sec :: u32
  tot_sec :: u32
  fat_sz :: u32
  root_clus :: u32

text \<open>
  \<open>struct dirent\<close> of libs/fat32.h; its lock is the sleep lock \<open>EntSL e\<close> and its links are the maps \<open>ent_next\<close> and
  \<open>ent_prev\<close>.
\<close>

record dirent =
  filename :: "u8 list"
  attribute :: u8
  first_clus :: u32
  file_size :: u32
  cur_clus :: u32
  clus_cnt :: u32
  edev :: u8
  dirty :: u8
  evalid :: u16
  eref :: u32
  eoff :: u32
  eparent :: "eptr option"

record fat_st = bio_st +
  fat :: fatinfo
  dirents :: "eptr \<Rightarrow> dirent"
  ent_next :: "eptr \<Rightarrow> eptr"
  ent_prev :: "eptr \<Rightarrow> eptr"

definition ATTR_READ_ONLY :: u8 where "ATTR_READ_ONLY = 0x01"
definition ATTR_SYSTEM :: u8 where "ATTR_SYSTEM = 0x04"
definition ATTR_DIRECTORY :: u8 where "ATTR_DIRECTORY = 0x10"
definition ATTR_ARCHIVE :: u8 where "ATTR_ARCHIVE = 0x20"
definition ATTR_LONG_NAME :: u8 where "ATTR_LONG_NAME = 0x0F"
definition LAST_LONG_ENTRY :: u8 where "LAST_LONG_ENTRY = 0x40"
definition FAT32_EOC :: u32 where "FAT32_EOC = 0x0ffffff8"
definition EMPTY_ENTRY :: u8 where "EMPTY_ENTRY = 0xe5"
definition END_OF_ENTRY :: u8 where "END_OF_ENTRY = 0x00"
definition CHAR_LONG_NAME :: nat where "CHAR_LONG_NAME = 13"
definition CHAR_SHORT_NAME :: nat where "CHAR_SHORT_NAME = 11"
definition FAT32_MAX_FILENAME :: nat where "FAT32_MAX_FILENAME = 255"
definition ENTRY_CACHE_NUM :: nat where "ENTRY_CACHE_NUM = 50"

definition upd_ent :: "eptr \<Rightarrow> (dirent \<Rightarrow> dirent) \<Rightarrow> 'a fat_st_scheme \<Rightarrow> 'a fat_st_scheme" where
  "upd_ent e f s = s\<lparr>dirents := (dirents s)(e := f (dirents s e))\<rparr>"

definition set_enext :: "eptr \<Rightarrow> eptr \<Rightarrow> 'a fat_st_scheme \<Rightarrow> 'a fat_st_scheme" where
  "set_enext a b s = s\<lparr>ent_next := (ent_next s)(a := b)\<rparr>"

definition set_eprev :: "eptr \<Rightarrow> eptr \<Rightarrow> 'a fat_st_scheme \<Rightarrow> 'a fat_st_scheme" where
  "set_eprev a b s = s\<lparr>ent_prev := (ent_prev s)(a := b)\<rparr>"

section \<open>Little-endian fields of a sector\<close>

definition get16 :: "u8 list \<Rightarrow> nat \<Rightarrow> u16" where
  "get16 d i = word_rcat [d ! (i + 1), d ! i]"

definition get32 :: "u8 list \<Rightarrow> nat \<Rightarrow> u32" where
  "get32 d i = word_rcat [d ! (i + 3), d ! (i + 2), d ! (i + 1), d ! i]"

definition le32 :: "u32 \<Rightarrow> u8 list" where
  "le32 v = [ucast v, ucast (drop_bit 8 v), ucast (drop_bit 16 v), ucast (drop_bit 24 v)]"

text \<open>\<open>bs\<close> stored at \<open>i\<close> in an array.\<close>

definition splice :: "nat \<Rightarrow> u8 list \<Rightarrow> u8 list \<Rightarrow> u8 list" where
  "splice i bs d = take i d @ bs @ drop (i + length bs) d"

definition put32 :: "nat \<Rightarrow> u32 \<Rightarrow> u8 list \<Rightarrow> u8 list" where
  "put32 i v d = splice i (le32 v) d"

section \<open>The boot sector\<close>

definition dirent0 :: dirent where
  "dirent0 = \<lparr>filename = replicate (FAT32_MAX_FILENAME + 1) 0, attribute = 0, first_clus = 0, file_size = 0,
     cur_clus = 0, clus_cnt = 0, edev = 0, dirty = 0, evalid = 0, eref = 0, eoff = 0, eparent = None\<rparr>"

definition ecache_init :: "nat \<Rightarrow> 'a fat_st_scheme \<Rightarrow> 'a fat_st_scheme" where
  "ecache_init i s =
    (let s = upd_ent (Ent i) (\<lambda>d. d\<lparr>edev := 0, evalid := 0, eref := 0, dirty := 0, eparent := None\<rparr>) s;
         s = set_enext (Ent i) (ent_next s Root) s;
         s = set_eprev (Ent i) Root s;
         s = initsleeplock (EntSL (Ent i)) s;
         s = set_eprev (ent_next s Root) (Ent i) s
     in set_enext Root (Ent i) s)"

definition read_bpb :: "u8 list \<Rightarrow> fatinfo" where
  "read_bpb d =
    (let bps = get16 d 11; spc = d ! 13; rsvd = get16 d 14; cnt = d ! 16; tot = get32 d 32; sz = get32 d 36;
         first = ucast rsvd + ucast cnt * sz; secs = tot - first
     in \<lparr>first_data_sec = first, data_sec_cnt = secs, data_clus_cnt = secs div ucast spc,
         byts_per_clus = ucast spc * ucast bps, byts_per_sec = bps, sec_per_clus = spc, rsvd_sec_cnt = rsvd,
         fat_cnt = cnt, hidd_sec = get32 d 28, tot_sec = tot, fat_sz = sz, root_clus = get32 d 44\<rparr>)"

definition fat32_init :: "'a fat_st_scheme \<Rightarrow> (int \<times> 'a fat_st_scheme) kres" where
  "fat32_init s =
    kbind (bread 0 0 s) (\<lambda>(b, s).
      let d = bdata (bufs s b) in
      if take 5 (drop 82 d) \<noteq> [0x46, 0x41, 0x54, 0x33, 0x32] then Inl (Panic ''not FAT32 volume'')
      else
        let s = s\<lparr>fat := read_bpb d\<rparr> in
        kbind (brelse b s) (\<lambda>s.
          if byts_per_sec (fat s) \<noteq> 512 then Inl (Panic ''byts_per_sec != BSIZE'')
          else
            let s = s\<lparr>core := initlock EcacheLock (core s)\<rparr>;
                s = upd_ent Root (\<lambda>_. dirent0) s;
                s = initsleeplock (EntSL Root) s;
                s = upd_ent Root (\<lambda>d. d\<lparr>attribute := ATTR_DIRECTORY OR ATTR_SYSTEM,
                      first_clus := root_clus (fat s), cur_clus := root_clus (fat s), evalid := 1\<rparr>) s;
                s = set_eprev Root Root s;
                s = set_enext Root Root s
            in Inr (0, fold ecache_init [0..<ENTRY_CACHE_NUM] s)))"

section \<open>The file allocation table\<close>

definition first_sec_of_clus :: "u32 \<Rightarrow> fatinfo \<Rightarrow> u32" where
  "first_sec_of_clus cluster f = (cluster - 2) * ucast (sec_per_clus f) + first_data_sec f"

definition fat_sec_of_clus :: "u32 \<Rightarrow> u8 \<Rightarrow> fatinfo \<Rightarrow> u32" where
  "fat_sec_of_clus cluster fat_num f =
    ucast (rsvd_sec_cnt f) + push_bit 2 cluster div ucast (byts_per_sec f) + fat_sz f * (ucast fat_num - 1)"

definition fat_offset_of_clus :: "u32 \<Rightarrow> fatinfo \<Rightarrow> u32" where
  "fat_offset_of_clus cluster f = push_bit 2 cluster mod ucast (byts_per_sec f)"

definition read_fat :: "u32 \<Rightarrow> 'a fat_st_scheme \<Rightarrow> (u32 \<times> 'a fat_st_scheme) kres" where
  "read_fat cluster s =
    (if cluster \<ge> FAT32_EOC then Inr (cluster, s)
     else if cluster > data_clus_cnt (fat s) + 1 then Inr (0, s)
     else
       kbind (bread 0 (fat_sec_of_clus cluster 1 (fat s)) s) (\<lambda>(b, s).
         let next_clus = get32 (bdata (bufs s b)) (unat (fat_offset_of_clus cluster (fat s))) in
         kbind (brelse b s) (\<lambda>s. Inr (next_clus, s))))"

definition write_fat :: "u32 \<Rightarrow> u32 \<Rightarrow> 'a fat_st_scheme \<Rightarrow> (int \<times> 'a fat_st_scheme) kres" where
  "write_fat cluster content s =
    (if cluster > data_clus_cnt (fat s) + 1 then Inr (- 1, s)
     else
       kbind (bread 0 (fat_sec_of_clus cluster 1 (fat s)) s) (\<lambda>(b, s).
         let i = unat (fat_offset_of_clus cluster (fat s));
             s = set_buf b ((bufs s b)\<lparr>bdata := put32 i content (bdata (bufs s b))\<rparr>) s
         in kbind (bwrite b s) (\<lambda>s.
            kbind (brelse b s) (\<lambda>s. Inr (0, s)))))"

fun zero_loop :: "nat \<Rightarrow> u32 \<Rightarrow> 'a bio_st_scheme \<Rightarrow> 'a bio_st_scheme kres" where
  "zero_loop 0 sec s = Inr s"
| "zero_loop (Suc n) sec s =
    kbind (bread 0 sec s) (\<lambda>(b, s).
      let s = set_buf b ((bufs s b)\<lparr>bdata := replicate BSIZE 0\<rparr>) s in
      kbind (bwrite b s) (\<lambda>s. kbind (brelse b s) (zero_loop n (sec + 1))))"

definition zero_clus :: "u32 \<Rightarrow> 'a fat_st_scheme \<Rightarrow> 'a fat_st_scheme kres" where
  "zero_clus cluster s = zero_loop (unat (sec_per_clus (fat s))) (first_sec_of_clus cluster (fat s)) s"

text \<open>\<open>i\<close> is the sector of the table and \<open>sec\<close> its place on the disk; \<open>ents\<close> entries fit in a sector.\<close>

fun alloc_loop :: "nat \<Rightarrow> nat \<Rightarrow> u32 \<Rightarrow> u32 \<Rightarrow> u32 \<Rightarrow> 'a fat_st_scheme \<Rightarrow> (u32 \<times> 'a fat_st_scheme) kres" where
  "alloc_loop ents 0 i sec dev s = Inl (Panic ''no clusters'')"
| "alloc_loop ents (Suc n) i sec dev s =
    kbind (bread dev sec s) (\<lambda>(b, s).
      case find (\<lambda>j. get32 (bdata (bufs s b)) (4 * j) = 0) [0..<ents] of
        Some j \<Rightarrow>
          let s = set_buf b ((bufs s b)\<lparr>bdata := put32 (4 * j) (FAT32_EOC + 7) (bdata (bufs s b))\<rparr>) s in
          kbind (bwrite b s) (\<lambda>s.
          kbind (brelse b s) (\<lambda>s.
            let clus = i * of_nat ents + of_nat j in
            kbind (zero_clus clus s) (\<lambda>s. Inr (clus, s))))
      | None \<Rightarrow> kbind (brelse b s) (alloc_loop ents n (i + 1) (sec + 1) dev))"

definition alloc_clus :: "u8 \<Rightarrow> 'a fat_st_scheme \<Rightarrow> (u32 \<times> 'a fat_st_scheme) kres" where
  "alloc_clus dev s =
    alloc_loop (unat (byts_per_sec (fat s)) div 4) (unat (fat_sz (fat s))) 0 (ucast (rsvd_sec_cnt (fat s))) (ucast dev) s"

definition free_clus :: "u32 \<Rightarrow> 'a fat_st_scheme \<Rightarrow> 'a fat_st_scheme kres" where
  "free_clus cluster s = kbind (write_fat cluster 0 s) (\<lambda>(_, s). Inr s)"

section \<open>Fields of a sector\<close>

lemma length_le32 [simp]: "length (le32 v) = 4"
  by (simp add: le32_def)

lemma get32_le32: "get32 (le32 v) 0 = v"
proof (rule bit_word_eqI)
  fix n assume n: "n < LENGTH(32)"
  have h: "bit (horner_sum uint 256 (le32 v)) n \<longleftrightarrow> n div 8 < 4 \<and> bit (le32 v ! (n div 8)) (n mod 8)"
    using bit_horner_sum_uint_exp_iff [of "le32 v" n] by simp
  have g: "get32 (le32 v) 0 = word_of_int (horner_sum uint 256 (le32 v))"
    by (simp add: get32_def word_rcat_def le32_def)
  have "bit (le32 v ! k) r = bit v (8 * k + r)" if "k < 4" "r < 8" for k r
  proof -
    have "k \<in> {0, 1, 2, 3}" using that(1) by auto
    then show ?thesis using that(2) by (auto simp: le32_def bit_ucast_iff bit_drop_bit_eq)
  qed
  from this [of "n div 8" "n mod 8"] have "bit (le32 v ! (n div 8)) (n mod 8) = bit v n"
    using n by (simp add: less_mult_imp_div_less)
  moreover have "n div 8 < 4" using n by auto
  ultimately show "bit (get32 (le32 v) 0) n = bit v n"
    using n h by (simp add: g bit_word_of_int_iff)
qed

lemma length_splice [simp]: "i + length bs \<le> length d \<Longrightarrow> length (splice i bs d) = length d"
  by (simp add: splice_def)

lemma nth_splice:
  "i + length bs \<le> length d \<Longrightarrow> k < length d \<Longrightarrow>
   splice i bs d ! k = (if i \<le> k \<and> k < i + length bs then bs ! (k - i) else d ! k)"
  by (auto simp: splice_def nth_append)

lemma take_drop_splice:
  "i + length bs \<le> length d \<Longrightarrow> take (length bs) (drop i (splice i bs d)) = bs"
  by (simp add: splice_def)

lemma length_put32 [simp]: "i + 4 \<le> length d \<Longrightarrow> length (put32 i v d) = length d"
  by (simp add: put32_def)

lemma get32_cong:
  "(\<And>k. k < 4 \<Longrightarrow> d ! (i + k) = d' ! (j + k)) \<Longrightarrow> get32 d i = get32 d' j"
proof -
  assume h: "\<And>k. k < 4 \<Longrightarrow> d ! (i + k) = d' ! (j + k)"
  show ?thesis using h [of 0] h [of 1] h [of 2] h [of 3] by (simp add: get32_def)
qed

lemma get32_put32 [simp]:
  assumes "i + 4 \<le> length d"
  shows "get32 (put32 i v d) i = v"
proof -
  have "get32 (put32 i v d) i = get32 (le32 v) 0"
    by (rule get32_cong) (use assms in \<open>simp add: put32_def nth_splice\<close>)
  then show ?thesis by (simp add: get32_le32)
qed

lemma get32_put32_other:
  assumes "i + 4 \<le> length d" and "j + 4 \<le> length d" and "j + 4 \<le> i \<or> i + 4 \<le> j"
  shows "get32 (put32 i v d) j = get32 d j"
  by (rule get32_cong) (use assms in \<open>auto simp: put32_def nth_splice\<close>)

section \<open>Geometry\<close>

text \<open>
  What a sane boot sector gives: sectors of 512 bytes, a table with an entry for every data cluster, the data area
  behind the tables, and everything inside the volume.
\<close>

definition geom :: "fatinfo \<Rightarrow> bool" where
  "geom f \<longleftrightarrow> byts_per_sec f = 512 \<and> sec_per_clus f \<noteq> 0 \<and> fat_cnt f \<noteq> 0
    \<and> byts_per_clus f = ucast (sec_per_clus f) * 512
    \<and> unat (data_clus_cnt f) + 2 \<le> 128 * unat (fat_sz f)
    \<and> unat (data_clus_cnt f) + 2 < unat FAT32_EOC
    \<and> unat (rsvd_sec_cnt f) + unat (fat_cnt f) * unat (fat_sz f) \<le> unat (first_data_sec f)
    \<and> unat (first_data_sec f) + unat (data_clus_cnt f) * unat (sec_per_clus f) < 2 ^ 32"

text \<open>The clusters that have an entry.\<close>

definition entry :: "fatinfo \<Rightarrow> u32 \<Rightarrow> bool" where
  "entry f c \<longleftrightarrow> c \<le> data_clus_cnt f + 1"

lemma geomD:
  assumes "geom f" and "entry f c"
  shows "unat c < unat (data_clus_cnt f) + 2" and "c < FAT32_EOC" and "4 * unat c < 2 ^ 32"
proof -
  have "unat (data_clus_cnt f + 1) = unat (data_clus_cnt f) + 1"
    using assms(1) by (intro unat_add_no_wrap [THEN trans]) (simp_all add: geom_def FAT32_EOC_def)
  then show a: "unat c < unat (data_clus_cnt f) + 2"
    using assms(2) by (simp add: entry_def word_le_nat_alt)
  then show "c < FAT32_EOC" using assms(1) by (simp add: geom_def word_less_nat_alt)
  show "4 * unat c < 2 ^ 32" using a assms(1) by (simp add: geom_def FAT32_EOC_def)
qed

lemma unat_push2: "4 * unat (c::u32) < 2 ^ 32 \<Longrightarrow> unat (push_bit 2 c) = 4 * unat c"
  by (simp add: push_bit_eq_mult unat_word_ariths)

lemma entry_pos:
  assumes "geom f" and "entry f c"
  shows "unat (fat_sec_of_clus c 1 f) = unat (rsvd_sec_cnt f) + unat c div 128"
    and "unat (fat_offset_of_clus c f) = 4 * (unat c mod 128)"
proof -
  note g = geomD [OF assms]
  have b: "unat (ucast (byts_per_sec f) :: u32) = 512" using assms(1) by (simp add: geom_def)
  have p: "unat (push_bit 2 c) = 4 * unat c" by (rule unat_push2 [OF g(3)])
  have d: "unat (push_bit 2 c div ucast (byts_per_sec f)) = unat c div 128"
    unfolding unat_div b p by simp
  show "unat (fat_offset_of_clus c f) = 4 * (unat c mod 128)"
    unfolding fat_offset_of_clus_def unat_mod b p using mult_mod_right [of 4 "unat c" 128] by simp
  have r: "unat (ucast (rsvd_sec_cnt f) :: u32) = unat (rsvd_sec_cnt f)" by (rule unat_ucast_up) simp
  have "unat c div 128 < unat (fat_sz f)"
    by (rule less_mult_imp_div_less) (use g(1) assms(1) in \<open>simp add: geom_def mult.commute\<close>)
  moreover have "1 \<le> unat (fat_cnt f)" using assms(1) by (simp add: geom_def unat_gt_0 Suc_le_eq)
  moreover from this have "unat (fat_sz f) \<le> unat (fat_cnt f) * unat (fat_sz f)" by simp
  moreover have "unat (rsvd_sec_cnt f) + unat (fat_cnt f) * unat (fat_sz f) \<le> unat (first_data_sec f)"
    using assms(1) by (simp add: geom_def)
  moreover have "unat (first_data_sec f) < 2 ^ 32" using unsigned_less [of "first_data_sec f"] by simp
  ultimately have "unat (rsvd_sec_cnt f) + unat c div 128 < 2 ^ 32" by linarith
  then show "unat (fat_sec_of_clus c 1 f) = unat (rsvd_sec_cnt f) + unat c div 128"
    unfolding fat_sec_of_clus_def using r d by (simp add: unat_add_no_wrap)
qed

section \<open>One entry at a time\<close>

lemma io_step_fat:
  assumes "io_step s s'"
  shows "fat s' = fat s" and "dirents s' = dirents s" and "ent_next s' = ent_next s" and "ent_prev s' = ent_prev s"
proof -
  obtain c ps sl bf nx pv sec where t: "s' = s\<lparr>core := c, procs := ps, slocks := sl, bufs := bf, bnext := nx,
      bprev := pv, sectors := sec\<rparr>"
    using assms unfolding io_step_def by blast
  show "fat s' = fat s" "dirents s' = dirents s" "ent_next s' = ent_next s" "ent_prev s' = ent_prev s"
    unfolding t by simp_all
qed

lemma bread_then:
  assumes "quiet p dv s"
  obtains b t where "bread dv sec s = Inr (b, t)" and "bdata (bufs t b) = sectors s sec"
    and "sector_read dv sec s = kbind (brelse b t) (\<lambda>s'. Inr (sectors s sec, s'))"
    and "\<forall>f. sector_update dv sec f s
      = kbind (bwrite b (set_buf b ((bufs t b)\<lparr>bdata := f (sectors s sec)\<rparr>) t)) (brelse b)"
    and "fat_st.more (t :: 'a fat_st_scheme) = fat_st.more s" and "fat t = fat s"
proof -
  have q: "cache_ok p dv s" "in_use p s = {}" using assms by (simp_all add: quiet_def)
  obtain b v where b: "bread dv sec s = Inr (b, picked p b v s)" "bdata v = sectors s sec"
    by (rule bread_ok [OF q(1), of sec]) (use q(2) NBUF_pos in auto)
  have "fat (picked p b v s) = fat s" "fat_st.more (picked p b v s) = fat_st.more s"
    by (simp_all add: picked_def set_slock_def set_buf_def)
  then show ?thesis
    using that [of b "picked p b v s"] b by (simp add: sector_read_def sector_update_def Let_def)
qed

definition fat_ok :: "nat \<Rightarrow> 'a fat_st_scheme \<Rightarrow> bool" where
  "fat_ok p s \<longleftrightarrow> quiet p 0 s \<and> geom (fat s) \<and> (\<forall>sec. length (sectors s sec) = BSIZE)"

definition fat_entry :: "'a fat_st_scheme \<Rightarrow> u32 \<Rightarrow> u32" where
  "fat_entry s c = get32 (sectors s (fat_sec_of_clus c 1 (fat s))) (unat (fat_offset_of_clus c (fat s)))"

lemma fat_okD:
  assumes "fat_ok p s"
  shows "quiet p 0 s" and "geom (fat s)" and "length (sectors s sec) = BSIZE"
  using assms by (simp_all add: fat_ok_def)

lemma read_fat_ok:
  assumes "fat_ok p s" and "entry (fat s) c"
  obtains s' where "read_fat c s = Inr (fat_entry s c, s')" and "fat_ok p s'" and "sectors s' = sectors s"
    and "io_step s s'"
proof -
  note g = geomD [OF fat_okD(2) [OF assms(1)] assms(2)]
  obtain s' where s': "sector_read 0 (fat_sec_of_clus c 1 (fat s)) s
      = Inr (sectors s (fat_sec_of_clus c 1 (fat s)), s')" "quiet p 0 s'" "sectors s' = sectors s" "io_step s s'"
    by (rule sector_read_ok [OF fat_okD(1) [OF assms(1)]])
  obtain b t where b: "bread 0 (fat_sec_of_clus c 1 (fat s)) s = Inr (b, t)"
    "bdata (bufs t b) = sectors s (fat_sec_of_clus c 1 (fat s))"
    "sector_read 0 (fat_sec_of_clus c 1 (fat s)) s
      = kbind (brelse b t) (\<lambda>s'. Inr (sectors s (fat_sec_of_clus c 1 (fat s)), s'))"
    "fat t = fat s"
    by (rule bread_then [OF fat_okD(1) [OF assms(1)]]) (rule that)
  have "brelse b t = Inr s'" using b(3) s'(1) by (cases "brelse b t") simp_all
  moreover have "\<not> FAT32_EOC \<le> c" "\<not> data_clus_cnt (fat s) + 1 < c"
    using g(2) assms(2) by (simp_all add: entry_def not_le)
  ultimately have "read_fat c s = Inr (fat_entry s c, s')"
    using b by (simp add: read_fat_def fat_entry_def)
  moreover have "fat_ok p s'" using s' assms(1) io_step_fat(1) [OF s'(4)] by (simp add: fat_ok_def)
  ultimately show ?thesis using that s' by blast
qed

lemma write_fat_ok:
  assumes "fat_ok p s" and "entry (fat s) c"
  obtains s' where "write_fat c v s = Inr (0, s')" and "fat_ok p s'" and "io_step s s'"
    and "sectors s' = (sectors s)(fat_sec_of_clus c 1 (fat s)
      := put32 (unat (fat_offset_of_clus c (fat s))) v (sectors s (fat_sec_of_clus c 1 (fat s))))"
proof -
  let ?sec = "fat_sec_of_clus c 1 (fat s)"
  let ?f = "put32 (unat (fat_offset_of_clus c (fat s))) v"
  obtain s' where s': "sector_update 0 ?sec ?f s = Inr s'" "quiet p 0 s'"
      "sectors s' = (sectors s)(?sec := ?f (sectors s ?sec))" "io_step s s'"
    by (rule sector_update_ok [OF fat_okD(1) [OF assms(1)]])
  obtain b t where b: "bread 0 ?sec s = Inr (b, t)" "bdata (bufs t b) = sectors s ?sec" "fat t = fat s"
    "\<forall>f. sector_update 0 ?sec f s = kbind (bwrite b (set_buf b ((bufs t b)\<lparr>bdata := f (sectors s ?sec)\<rparr>) t)) (brelse b)"
    by (rule bread_then [OF fat_okD(1) [OF assms(1)], of ?sec]) (rule that)
  have "kbind (bwrite b (set_buf b ((bufs t b)\<lparr>bdata := ?f (sectors s ?sec)\<rparr>) t)) (brelse b) = Inr s'"
    using b(4) [rule_format, of ?f] s'(1) by simp
  then have "kbind (bwrite b (set_buf b ((bufs t b)\<lparr>bdata := ?f (sectors s ?sec)\<rparr>) t))
      (\<lambda>s. kbind (brelse b s) (\<lambda>s. Inr (0 :: int, s))) = Inr (0, s')"
    by (simp add: kbind_assoc [symmetric])
  then have "write_fat c v s = Inr (0, s')"
    using assms(2) b(1-3) by (simp add: write_fat_def entry_def not_less Let_def)
  moreover have "unat (fat_offset_of_clus c (fat s)) + 4 \<le> 512"
    using entry_pos(2) [OF fat_okD(2) [OF assms(1)] assms(2)] by simp
  then have "fat_ok p s'"
    using s' assms(1) io_step_fat(1) [OF s'(4)] by (simp add: fat_ok_def BSIZE_def)
  ultimately show ?thesis using that s' by blast
qed

lemma fat_entry_put:
  assumes "fat_ok p s" and "entry (fat s) c" and "entry (fat s) d" and "fat s' = fat s"
    and "sectors s' = (sectors s)(fat_sec_of_clus c 1 (fat s)
      := put32 (unat (fat_offset_of_clus c (fat s))) v (sectors s (fat_sec_of_clus c 1 (fat s))))"
  shows "fat_entry s' d = (if d = c then v else fat_entry s d)"
proof -
  note pc = entry_pos [OF fat_okD(2) [OF assms(1)] assms(2)]
    and pd = entry_pos [OF fat_okD(2) [OF assms(1)] assms(3)]
  have len: "unat (fat_offset_of_clus x (fat s)) + 4 \<le> length (sectors s sec)"
    if "entry (fat s) x" for x sec
    using entry_pos(2) [OF fat_okD(2) [OF assms(1)] that] fat_okD(3) [OF assms(1), of sec]
    by (simp add: BSIZE_def)
  show ?thesis
  proof (cases "d = c")
    case True
    then show ?thesis using len [OF assms(2)] by (simp add: fat_entry_def assms(4,5))
  next
    case False
    then have ne: "unat d \<noteq> unat c" by (simp add: word_unat_eq_iff)
    show ?thesis
    proof (cases "fat_sec_of_clus d 1 (fat s) = fat_sec_of_clus c 1 (fat s)")
      case True
      then have "unat d div 128 = unat c div 128" using pc(1) pd(1) by simp
      then have m: "unat d mod 128 \<noteq> unat c mod 128" using ne by (metis mult_div_mod_eq)
      then have "4 * (unat d mod 128) + 4 \<le> 4 * (unat c mod 128) \<or> 4 * (unat c mod 128) + 4 \<le> 4 * (unat d mod 128)"
        by linarith
      then show ?thesis
        using get32_put32_other [OF len [OF assms(2)] len [OF assms(3)]] True False
        by (simp add: fat_entry_def assms(4,5) pc(2) pd(2))
    qed (simp add: fat_entry_def assms(4,5) False)
  qed
qed

lemma put_fat_ok:
  assumes "fat_ok p s" and "entry (fat s) c"
  obtains s' where "write_fat c v s = Inr (0, s')" and "fat_ok p s'" and "io_step s s'"
    and "\<forall>d. entry (fat s) d \<longrightarrow> fat_entry s' d = (if d = c then v else fat_entry s d)"
proof -
  obtain s' where s': "write_fat c v s = Inr (0, s')" "fat_ok p s'" "io_step s s'"
    "sectors s' = (sectors s)(fat_sec_of_clus c 1 (fat s)
      := put32 (unat (fat_offset_of_clus c (fat s))) v (sectors s (fat_sec_of_clus c 1 (fat s))))"
    by (rule write_fat_ok [OF assms])
  show ?thesis
    using that [OF s'(1-3)] fat_entry_put [OF assms _ io_step_fat(1) [OF s'(3)] s'(4)] by blast
qed

text \<open>The table is a store of entries, one per cluster of the geometry \<open>f\<close>.\<close>

interpretation fat_store: block_store "\<lambda>s. fat_ok p s \<and> fat s = f" "entry f" fat_entry "\<lambda>_. True" read_fat
  "\<lambda>c v s. kbind (write_fat c v s) (\<lambda>(_, s). Inr s)"
proof unfold_locales
  fix s :: "'a fat_st_scheme" and c v
  assume s: "fat_ok p s \<and> fat s = f" and c: "entry f c"
  then have a: "fat_ok p s" "entry (fat s) c" by simp_all
  show "\<exists>s'. read_fat c s = Inr (fat_entry s c, s') \<and> (fat_ok p s' \<and> fat s' = f)
      \<and> (\<forall>d. entry f d \<longrightarrow> fat_entry s' d = fat_entry s d)"
    using read_fat_ok [OF a] io_step_fat(1) s by (metis fat_entry_def)
  show "\<exists>s'. kbind (write_fat c v s) (\<lambda>(_, s). Inr s) = Inr s' \<and> (fat_ok p s' \<and> fat s' = f) \<and> fat_entry s' c = v
      \<and> (\<forall>d. entry f d \<longrightarrow> d \<noteq> c \<longrightarrow> fat_entry s' d = fat_entry s d)"
  proof -
    obtain s' where "write_fat c v s = Inr (0, s')" "fat_ok p s'" "io_step s s'"
      "\<forall>d. entry (fat s) d \<longrightarrow> fat_entry s' d = (if d = c then v else fat_entry s d)"
      by (rule put_fat_ok [OF a])
    then show ?thesis using s c io_step_fat(1) by auto
  qed
qed

end
