(* ===== verification/FatAlloc.thy ===== *)
theory FatAlloc imports FatTable begin

text \<open>
  Data clusters: where they lie on the disk, that allocation takes the first free one, marks it as the end
  of a chain and zeroes it, and disturbs nothing else.
\<close>

section \<open>Where clusters lie\<close>

definition data_clus :: "fatinfo \<Rightarrow> u32 \<Rightarrow> bool" where
  "data_clus f c \<longleftrightarrow> 2 \<le> c \<and> entry f c"

definition clus_sec :: "fatinfo \<Rightarrow> u32 \<Rightarrow> nat \<Rightarrow> u32" where
  "clus_sec f c i = first_sec_of_clus c f + of_nat i"

lemma clus_sec_pos:
  assumes "geom f" and "data_clus f c" and "i < unat (sec_per_clus f)"
  shows "unat (clus_sec f c i) = unat (first_data_sec f) + (unat c - 2) * unat (sec_per_clus f) + i"
    and "unat (clus_sec f c i) < 2 ^ 32"
proof -
  let ?n = "unat (sec_per_clus f)"
  have e: "entry f c" "2 \<le> c" using assms(2) by (simp_all add: data_clus_def)
  have c: "unat c < unat (data_clus_cnt f) + 2" by (rule geomD(1) [OF assms(1) e(1)])
  have c2: "unat (c - 2) = unat c - 2" using e(2) by (simp add: unat_sub)
  have "2 \<le> unat c" using e(2) by (simp add: word_le_nat_alt)
  then have "(unat c - 2) * ?n + ?n \<le> unat (data_clus_cnt f) * ?n"
    using c mult_le_mono1 [of "unat c - 2 + 1" "unat (data_clus_cnt f)" ?n] by (simp add: algebra_simps)
  then have le: "unat (first_data_sec f) + ((unat c - 2) * ?n + i) < 2 ^ 32"
    using assms(1,3) by (simp add: geom_def)
  have n: "unat (ucast (sec_per_clus f) :: u32) = ?n" by (rule unat_ucast_up) simp
  have m: "unat ((c - 2) * ucast (sec_per_clus f)) = (unat c - 2) * ?n"
    using le by (simp add: unat_word_ariths(2) c2 n)
  have i: "unat (of_nat i :: u32) = i" using le by (simp add: unat_of_nat_small)
  have a: "unat ((c - 2) * ucast (sec_per_clus f) + first_data_sec f) = (unat c - 2) * ?n + unat (first_data_sec f)"
    using le by (subst unat_add_no_wrap) (simp_all add: m)
  show "unat (clus_sec f c i) = unat (first_data_sec f) + (unat c - 2) * ?n + i"
    unfolding clus_sec_def first_sec_of_clus_def using le by (subst unat_add_no_wrap) (simp_all add: a i)
  then show "unat (clus_sec f c i) < 2 ^ 32" using le by simp
qed

lemma clus_sec_inj:
  assumes "geom f" and "data_clus f c" and "data_clus f d" and "i < unat (sec_per_clus f)" and "j < unat (sec_per_clus f)"
    and "clus_sec f c i = clus_sec f d j"
  shows "c = d \<and> i = j"
proof -
  let ?n = "unat (sec_per_clus f)"
  have "(unat c - 2) * ?n + i = (unat d - 2) * ?n + j"
    using clus_sec_pos(1) [OF assms(1,2,4)] clus_sec_pos(1) [OF assms(1,3,5)] assms(6) by simp
  then have "((unat c - 2) * ?n + i) div ?n = ((unat d - 2) * ?n + j) div ?n"
    "((unat c - 2) * ?n + i) mod ?n = ((unat d - 2) * ?n + j) mod ?n" by simp_all
  then have "unat c - 2 = unat d - 2" "i = j" using assms(4,5) by simp_all
  moreover have "2 \<le> unat c" "2 \<le> unat d" using assms(2,3) by (simp_all add: data_clus_def word_le_nat_alt)
  ultimately have "unat c = unat d" by linarith
  then show ?thesis using \<open>i = j\<close> by (simp add: word_unat_eq_iff)
qed

text \<open>The table lies below the data.\<close>

lemma clus_sec_not_fat:
  assumes "geom f" and "data_clus f c" and "i < unat (sec_per_clus f)" and "entry f d"
  shows "clus_sec f c i \<noteq> fat_sec_of_clus d 1 f"
proof -
  have "unat d div 128 < unat (fat_sz f)"
    by (rule less_mult_imp_div_less) (use geomD(1) [OF assms(1,4)] assms(1) in \<open>simp add: geom_def mult.commute\<close>)
  moreover have "1 \<le> unat (fat_cnt f)" using assms(1) by (simp add: geom_def unat_gt_0 Suc_le_eq)
  moreover from this have "unat (fat_sz f) \<le> unat (fat_cnt f) * unat (fat_sz f)" by simp
  moreover have "unat (rsvd_sec_cnt f) + unat (fat_cnt f) * unat (fat_sz f) \<le> unat (first_data_sec f)"
    using assms(1) by (simp add: geom_def)
  moreover have "unat (fat_sec_of_clus d 1 f) = unat (rsvd_sec_cnt f) + unat d div 128"
    by (rule entry_pos(1) [OF assms(1,4)])
  ultimately have "unat (fat_sec_of_clus d 1 f) < unat (clus_sec f c i)"
    using clus_sec_pos(1) [OF assms(1-3)] by linarith
  then show ?thesis by (metis less_irrefl)
qed

section \<open>Zeroing\<close>

lemma if_or: "(if P then a else if Q then a else b) = (if Q \<or> P then a else b)"
  by simp

lemma zero_loop_ok:
  assumes "quiet p 0 s"
  shows "\<exists>s'. zero_loop n sec s = Inr s' \<and> quiet p 0 s' \<and> io_step s s'
    \<and> sectors s' = (\<lambda>x. if \<exists>i<n. x = sec + of_nat i then replicate BSIZE 0 else sectors s x)"
  using assms
proof (induction n arbitrary: sec s)
  case (Suc n)
  obtain t where t: "sector_update 0 sec (\<lambda>_. replicate BSIZE 0) s = Inr t" "quiet p 0 t"
    "sectors t = (sectors s)(sec := replicate BSIZE 0)" "io_step s t"
    by (rule sector_update_ok [OF Suc.prems])
  obtain s' where s': "zero_loop n (sec + 1) t = Inr s'" "quiet p 0 s'" "io_step t s'"
    "sectors s' = (\<lambda>x. if \<exists>i<n. x = sec + 1 + of_nat i then replicate BSIZE 0 else sectors t x)"
    using Suc.IH [OF t(2), of "sec + 1"] by blast
  have "zero_loop (Suc n) sec s = kbind (sector_update 0 sec (\<lambda>_. replicate BSIZE 0) s) (zero_loop n (sec + 1))"
    by (simp add: sector_update_def Let_def kbind_assoc split_def)
  then have "zero_loop (Suc n) sec s = Inr s'" using t(1) s'(1) by simp
  moreover have "sectors s' = (\<lambda>x. if \<exists>i<Suc n. x = sec + of_nat i then replicate BSIZE 0 else sectors s x)"
  proof
    fix x
    have e: "(\<exists>i<Suc n. x = sec + of_nat i) \<longleftrightarrow> x = sec \<or> (\<exists>i<n. x = sec + 1 + of_nat i)"
      by (auto simp: less_Suc_eq_0_disj algebra_simps)
    show "sectors s' x = (if \<exists>i<Suc n. x = sec + of_nat i then replicate BSIZE 0 else sectors s x)"
      unfolding s'(4) t(3) fun_upd_apply e by (rule if_or)
  qed
  ultimately show ?case using s'(2) io_step_trans [OF t(4) s'(3)] by blast
qed simp

lemma zero_clus_ok:
  assumes "fat_ok p s" and "data_clus (fat s) c"
  obtains s' where "zero_clus c s = Inr s'" and "fat_ok p s'" and "io_step s s'"
    and "sectors s' = (\<lambda>x. if \<exists>i<unat (sec_per_clus (fat s)). x = clus_sec (fat s) c i then replicate BSIZE 0 else sectors s x)"
proof -
  obtain s' where s': "zero_loop (unat (sec_per_clus (fat s))) (first_sec_of_clus c (fat s)) s = Inr s'"
    "quiet p 0 s'" "io_step s s'"
    "sectors s' = (\<lambda>x. if \<exists>i<unat (sec_per_clus (fat s)). x = clus_sec (fat s) c i then replicate BSIZE 0 else sectors s x)"
    using zero_loop_ok [OF fat_okD(1) [OF assms(1)]] unfolding clus_sec_def by blast
  have "fat_ok p s'" using s'(2,4) io_step_fat(1) [OF s'(3)] assms(1) by (simp add: fat_ok_def)
  then show ?thesis using that s' by (simp add: zero_clus_def)
qed

lemma fat_entry_zeroed:
  assumes "fat_ok p s" and "data_clus (fat s) c" and "entry (fat s) d" and "fat s' = fat s"
    and "sectors s' = (\<lambda>x. if \<exists>i<unat (sec_per_clus (fat s)). x = clus_sec (fat s) c i then replicate BSIZE 0 else sectors s x)"
  shows "fat_entry s' d = fat_entry s d"
proof -
  have "\<not> (\<exists>i<unat (sec_per_clus (fat s)). fat_sec_of_clus d 1 (fat s) = clus_sec (fat s) c i)"
    using clus_sec_not_fat [OF fat_okD(2) [OF assms(1)] assms(2) _ assms(3)] by metis
  then have "sectors s' (fat_sec_of_clus d 1 (fat s)) = sectors s (fat_sec_of_clus d 1 (fat s))"
    unfolding assms(5) by (rule if_not_P)
  then show ?thesis by (simp add: fat_entry_def assms(4))
qed

section \<open>Allocation\<close>

text \<open>The contents of a data cluster.\<close>

definition cluster_data :: "'a fat_st_scheme \<Rightarrow> u32 \<Rightarrow> u8 list" where
  "cluster_data s c = concat (map (\<lambda>i. sectors s (clus_sec (fat s) c i)) [0..<unat (sec_per_clus (fat s))])"

text \<open>Entry \<open>k\<close> of the table, counted from its start.\<close>

lemma fat_entry_nth:
  assumes "geom (fat s)" and "entry (fat s) c" and "unat c = 128 * i + j" and "j < 128"
  shows "fat_entry s c = get32 (sectors s (ucast (rsvd_sec_cnt (fat s)) + of_nat i)) (4 * j)"
proof -
  note e = entry_pos [OF assms(1,2)]
  have "unat c div 128 = i" "unat c mod 128 = j" using assms(3,4) by simp_all
  moreover have "fat_sec_of_clus c 1 (fat s) = of_nat (unat (fat_sec_of_clus c 1 (fat s)))" by simp
  moreover have "(of_nat (unat (rsvd_sec_cnt (fat s)) + i) :: u32) = ucast (rsvd_sec_cnt (fat s)) + of_nat i"
    by (simp add: of_nat_unat)
  ultimately show ?thesis unfolding fat_entry_def e(2) using e(1) by metis
qed

text \<open>What allocating the cluster \<open>c\<close> does to the disk.\<close>

definition allocated :: "nat \<Rightarrow> u32 \<Rightarrow> 'a fat_st_scheme \<Rightarrow> 'a fat_st_scheme \<Rightarrow> bool" where
  "allocated p c s s' \<longleftrightarrow> fat_ok p s' \<and> io_step s s'
    \<and> (\<forall>d. entry (fat s) d \<longrightarrow> fat_entry s' d = (if d = c then FAT32_EOC + 7 else fat_entry s d))
    \<and> (\<forall>i<unat (sec_per_clus (fat s)). sectors s' (clus_sec (fat s) c i) = replicate BSIZE 0)
    \<and> (\<forall>d i. data_clus (fat s) d \<longrightarrow> d \<noteq> c \<longrightarrow> i < unat (sec_per_clus (fat s)) \<longrightarrow>
         sectors s' (clus_sec (fat s) d i) = sectors s (clus_sec (fat s) d i))"

lemma mark_and_zero:
  assumes "fat_ok p s" and "data_clus (fat s) c"
    and "sector_update 0 (fat_sec_of_clus c 1 (fat s)) (put32 (unat (fat_offset_of_clus c (fat s))) (FAT32_EOC + 7)) s = Inr t"
  obtains s' where "zero_clus c t = Inr s'" and "allocated p c s s'"
proof -
  have e: "entry (fat s) c" using assms(2) by (simp add: data_clus_def)
  let ?sec = "fat_sec_of_clus c 1 (fat s)"
  let ?f = "put32 (unat (fat_offset_of_clus c (fat s))) (FAT32_EOC + 7)"
  have t: "quiet p 0 t" "sectors t = (sectors s)(?sec := ?f (sectors s ?sec))" "io_step s t"
    using sector_update_ok [OF fat_okD(1) [OF assms(1)], of ?sec ?f] assms(3) by (metis Inr_inject)+
  have ft: "fat t = fat s" by (rule io_step_fat(1) [OF t(3)])
  have "unat (fat_offset_of_clus c (fat s)) + 4 \<le> 512"
    using entry_pos(2) [OF fat_okD(2) [OF assms(1)] e] by simp
  then have ok: "fat_ok p t" using t ft assms(1) by (simp add: fat_ok_def BSIZE_def)
  obtain s' where z: "zero_clus c t = Inr s'" "fat_ok p s'" "io_step t s'"
    "sectors s' = (\<lambda>x. if \<exists>i<unat (sec_per_clus (fat t)). x = clus_sec (fat t) c i then replicate BSIZE 0 else sectors t x)"
    by (rule zero_clus_ok [OF ok]) (use assms(2) ft in auto)
  have fs: "fat s' = fat t" by (rule io_step_fat(1) [OF z(3)])
  have "fat_entry s' d = (if d = c then FAT32_EOC + 7 else fat_entry s d)" if "entry (fat s) d" for d
    using fat_entry_zeroed [OF ok _ _ fs z(4), of d] fat_entry_put [OF assms(1) e that ft t(2)] assms(2) that ft
    by simp
  moreover have "sectors s' (clus_sec (fat s) d i) = sectors s (clus_sec (fat s) d i)"
    if d: "data_clus (fat s) d" "d \<noteq> c" "i < unat (sec_per_clus (fat s))" for d i
  proof -
    have "\<not> (\<exists>j<unat (sec_per_clus (fat t)). clus_sec (fat s) d i = clus_sec (fat t) c j)"
      using clus_sec_inj [OF fat_okD(2) [OF assms(1)] d(1) assms(2) d(3)] d(2) ft by auto
    then have "sectors s' (clus_sec (fat s) d i) = sectors t (clus_sec (fat s) d i)"
      unfolding z(4) by (rule if_not_P)
    also have "\<dots> = sectors s (clus_sec (fat s) d i)"
      using clus_sec_not_fat [OF fat_okD(2) [OF assms(1)] d(1,3) e] by (simp add: t(2))
    finally show ?thesis .
  qed
  moreover have "sectors s' (clus_sec (fat s) c i) = replicate BSIZE 0" if "i < unat (sec_per_clus (fat s))" for i
    using that ft by (auto simp: z(4))
  ultimately have "allocated p c s s'"
    using z(2) io_step_trans [OF t(3) z(3)] unfolding allocated_def by blast
  then show ?thesis using that z(1) by blast
qed

lemma find_upt_Some: "j < n \<Longrightarrow> P j \<Longrightarrow> (\<And>k. k < j \<Longrightarrow> \<not> P k) \<Longrightarrow> find P [0..<n] = Some j"
  by (auto simp: find_Some_iff intro!: exI [of _ j])

lemma find_upt_None: "(\<And>k. k < n \<Longrightarrow> \<not> P k) \<Longrightarrow> find P [0..<n] = None"
  by (simp add: find_None_iff)

lemma alloc_loop_ok:
  assumes "fat_ok p s" and "i + n = unat (fat_sz (fat s))" and "data_clus (fat s) c" and "fat_entry s c = 0"
    and "128 * i \<le> unat c" and "\<And>d. unat d < unat c \<Longrightarrow> fat_entry s d \<noteq> 0"
  shows "\<exists>s'. alloc_loop 128 n (of_nat i) (ucast (rsvd_sec_cnt (fat s)) + of_nat i) 0 s = Inr (c, s')
    \<and> allocated p c s s'"
  using assms
proof (induction n arbitrary: i s)
  case 0
  then show ?case using geomD(1) [OF fat_okD(2) [OF 0(1)], of c] 0 fat_okD(2) [OF 0(1)]
    by (simp add: data_clus_def geom_def)
next
  case (Suc n)
  let ?sec = "ucast (rsvd_sec_cnt (fat s)) + of_nat i :: u32"
  have g: "geom (fat s)" and e: "entry (fat s) c"
    using fat_okD(2) [OF Suc.prems(1)] Suc.prems(3) by (simp_all add: data_clus_def)
  have here: "get32 (sectors s ?sec) (4 * j) \<noteq> 0" if "j < 128" "128 * i + j < unat c" for j
  proof -
    define d where "d = (of_nat (128 * i + j) :: u32)"
    have ud: "unat d = 128 * i + j"
      unfolding d_def by (rule unat_of_nat_small) (use that(2) unsigned_less [of c, where ?'a = nat] in simp)
    have "entry (fat s) d" using e that(2) ud by (simp add: entry_def word_le_nat_alt)
    then show ?thesis using fat_entry_nth [OF g _ ud that(1)] Suc.prems(6) [of d] that(2) ud by simp
  qed
  obtain b t where b: "bread 0 ?sec s = Inr (b, t)" "bdata (bufs t b) = sectors s ?sec"
    "sector_read 0 ?sec s = kbind (brelse b t) (\<lambda>s'. Inr (sectors s ?sec, s'))"
    "\<forall>f. sector_update 0 ?sec f s = kbind (bwrite b (set_buf b ((bufs t b)\<lparr>bdata := f (sectors s ?sec)\<rparr>) t)) (brelse b)"
    by (rule bread_then [OF fat_okD(1) [OF Suc.prems(1)], of ?sec]) (rule that)
  show ?case
  proof (cases "unat c < 128 * i + 128")
    case True
    define j where "j = unat c - 128 * i"
    have j: "unat c = 128 * i + j" "j < 128" using True Suc.prems(5) by (simp_all add: j_def)
    have m: "unat c div 128 = i" "unat c mod 128 = j" using j by simp_all
    have fc: "fat_sec_of_clus c 1 (fat s) = ?sec"
    proof -
      have "fat_sec_of_clus c 1 (fat s) = of_nat (unat (fat_sec_of_clus c 1 (fat s)))" by simp
      then show ?thesis unfolding entry_pos(1) [OF g e] m by (simp add: of_nat_unat)
    qed
    have fo: "unat (fat_offset_of_clus c (fat s)) = 4 * j" using entry_pos(2) [OF g e] m by simp
    have "get32 (sectors s ?sec) (4 * j) = 0" using fat_entry_nth [OF g e j] Suc.prems(4) by simp
    then have f: "find (\<lambda>j. get32 (bdata (bufs t b)) (4 * j) = 0) [0..<128] = Some j"
      unfolding b(2) by (intro find_upt_Some) (use j here in auto)
    obtain u where u: "sector_update 0 ?sec (put32 (4 * j) (FAT32_EOC + 7)) s = Inr u"
      using sector_update_ok [OF fat_okD(1) [OF Suc.prems(1)]] by metis
    obtain s' where z: "zero_clus c u = Inr s'" "allocated p c s s'"
      by (rule mark_and_zero [OF Suc.prems(1,3)]) (use u in \<open>simp_all add: fc fo\<close>)
    have "(of_nat i * of_nat 128 + of_nat j :: u32) = of_nat (unat c)" by (simp add: j(1))
    then have cl: "(of_nat i * of_nat 128 + of_nat j :: u32) = c" by simp
    have "kbind (bwrite b (set_buf b ((bufs t b)\<lparr>bdata := put32 (4 * j) (FAT32_EOC + 7) (sectors s ?sec)\<rparr>) t))
        (\<lambda>s. kbind (brelse b s) (\<lambda>s. kbind (zero_clus c s) (\<lambda>s. Inr (c, s)))) = Inr (c, s')"
      using trans [OF b(4) [rule_format, symmetric] u] z(1) by (simp add: kbind_assoc [symmetric])
    then show ?thesis using z(2) b f cl by (simp add: Let_def)
  next
    case False
    obtain s1 where s1: "sector_read 0 ?sec s = Inr (sectors s ?sec, s1)" "quiet p 0 s1" "sectors s1 = sectors s" "io_step s s1"
      by (rule sector_read_ok [OF fat_okD(1) [OF Suc.prems(1)]])
    have r: "brelse b t = Inr s1" using b(3) s1(1) by (cases "brelse b t") simp_all
    have f: "find (\<lambda>j. get32 (bdata (bufs t b)) (4 * j) = 0) [0..<128] = None"
      unfolding b(2) by (intro find_upt_None) (use False here in auto)
    have fs: "fat s1 = fat s" by (rule io_step_fat(1) [OF s1(4)])
    have ok: "fat_ok p s1" using s1 fs Suc.prems(1) by (simp add: fat_ok_def)
    have fe: "fat_entry s1 d = fat_entry s d" for d by (simp add: fat_entry_def fs s1(3))
    obtain s' where s': "alloc_loop 128 n (of_nat (Suc i)) (ucast (rsvd_sec_cnt (fat s1)) + of_nat (Suc i)) 0 s1 = Inr (c, s')"
      "allocated p c s1 s'"
      using Suc.IH [OF ok, of "Suc i"] Suc.prems False by (auto simp: fs fe)
    have "allocated p c s s'"
      using s'(2) io_step_trans [OF s1(4)] unfolding allocated_def by (simp add: fs fe s1(3))
    moreover have "alloc_loop 128 n (of_nat i + 1) (?sec + 1) 0 s1 = Inr (c, s')"
      using s'(1) by (simp add: fs algebra_simps)
    ultimately show ?thesis using b f r by simp
  qed
qed

lemma alloc_clus_ok:
  assumes "fat_ok p s" and "data_clus (fat s) c" and "fat_entry s c = 0"
    and "\<And>d. unat d < unat c \<Longrightarrow> fat_entry s d \<noteq> 0"
  obtains s' where "alloc_clus 0 s = Inr (c, s')" and "allocated p c s s'"
proof -
  have "unat (byts_per_sec (fat s)) div 4 = 128" using fat_okD(2) [OF assms(1)] by (simp add: geom_def)
  then show ?thesis
    using that alloc_loop_ok [OF assms(1) _ assms(2,3), of 0 "unat (fat_sz (fat s))"] assms(4)
    by (auto simp: alloc_clus_def)
qed

end
