(* ===== verification/FatData.thy ===== *)
theory FatData imports FatAlloc begin

text \<open>
  kernel/fat32.c, the data of files: \<open>rw_clus\<close>, the walk along the chain of a file (\<open>reloc_clus\<close>), \<open>eread\<close>,
  \<open>ewrite\<close>, \<open>etrunc\<close>. A file is the concatenation of the clusters of its chain.
\<close>

section \<open>Reading and writing inside a cluster\<close>

text \<open>
  Where \<open>rw_clus\<close> copies to or from: a user address, a kernel address, or an object of the
  kernel (a local variable of the caller) given by its bytes. What is read into an object is returned
  as a list.
\<close>

datatype loc = UserAddr u64 | KernAddr u64 | Obj "u8 list"

text \<open>\<open>either_copyin(dst, user, data + tot, m)\<close> and \<open>either_copyout(user, data + tot, src, m)\<close>.\<close>

fun copy_in :: "loc \<Rightarrow> nat \<Rightarrow> nat \<Rightarrow> 'a proc_st_scheme \<Rightarrow> (int \<times> u8 list \<times> 'a proc_st_scheme) kres" where
  "copy_in (UserAddr a) tot m s = either_copyin True (a + of_nat tot) (of_nat m) s"
| "copy_in (KernAddr a) tot m s = either_copyin False (a + of_nat tot) (of_nat m) s"
| "copy_in (Obj bs) tot m s = Inr (0, take m (drop tot bs), s)"

fun copy_out :: "loc \<Rightarrow> nat \<Rightarrow> u8 list \<Rightarrow> 'a proc_st_scheme \<Rightarrow> (int \<times> 'a proc_st_scheme) kres" where
  "copy_out (UserAddr a) tot bs s = either_copyout True (a + of_nat tot) (\<lambda>i. bs ! i) (of_nat (length bs)) s"
| "copy_out (KernAddr a) tot bs s = either_copyout False (a + of_nat tot) (\<lambda>i. bs ! i) (of_nat (length bs)) s"
| "copy_out (Obj _) tot bs s = Inr (0, s)"

text \<open>
  The bytes of one step: from \<open>off % BSIZE\<close> to the end of the sector, or less at the end. The loop moves \<open>off\<close>,
  \<open>data\<close> and \<open>sec\<close> along with \<open>tot\<close>.
\<close>

definition chunk :: "u32 \<Rightarrow> u32 \<Rightarrow> u32" where
  "chunk off rest = (if rest < 512 - off mod 512 then rest else 512 - off mod 512)"

lemma chunk_pos: "0 < rest \<Longrightarrow> 0 < chunk off rest"
  and chunk_le: "chunk off rest \<le> rest"
proof -
  have "off mod 512 < (512 :: u32)" by (rule word_mod_less_divisor) simp
  then have "0 < 512 - off mod 512" by (simp add: word_less_nat_alt unat_sub_if')
  then show "0 < rest \<Longrightarrow> 0 < chunk off rest" by (simp add: chunk_def)
  show "chunk off rest \<le> rest" by (simp add: chunk_def not_less)
qed

lemma chunk_decr: "tot < n \<Longrightarrow> unat (n - (tot + chunk off (n - tot))) < unat (n - tot)"
proof -
  assume "tot < n"
  then have "0 < n - tot" by (simp add: word_less_nat_alt unat_sub_if')
  then have "0 < chunk off (n - tot)" "chunk off (n - tot) \<le> n - tot" by (simp_all add: chunk_pos chunk_le)
  moreover have "n - (tot + chunk off (n - tot)) = (n - tot) - chunk off (n - tot)" by (simp add: algebra_simps)
  ultimately show ?thesis by (simp only: unat_sub) (simp add: word_less_nat_alt word_le_nat_alt)
qed

function rw_loop :: "bool \<Rightarrow> loc \<Rightarrow> u32 \<Rightarrow> u32 \<Rightarrow> u32 \<Rightarrow> u32 \<Rightarrow> 'a bio_st_scheme \<Rightarrow> (u32 \<times> u8 list \<times> 'a bio_st_scheme) kres" where
  "rw_loop write data sec off tot n s =
    (if tot < n then
       kbind (bread 0 sec s) (\<lambda>(bp, s).
         let m = chunk off (n - tot);
             i = unat (off mod 512)
         in if write then
              kbind (copy_in data (unat tot) (unat m) s) (\<lambda>(bad, bs, s).
              kbind (if bad \<noteq> - 1
                     then bwrite bp (set_buf bp ((bufs s bp)\<lparr>bdata := splice i bs (bdata (bufs s bp))\<rparr>) s)
                     else Inr s) (\<lambda>s.
              kbind (brelse bp s) (\<lambda>s.
                if bad = - 1 then Inr (tot, [], s)
                else rw_loop write data (sec + 1) (off + m) (tot + m) n s)))
            else
              let bs = take (unat m) (drop i (bdata (bufs s bp))) in
              kbind (copy_out data (unat tot) bs s) (\<lambda>(bad, s).
              kbind (brelse bp s) (\<lambda>s.
                if bad = - 1 then Inr (tot, [], s)
                else kbind (rw_loop write data (sec + 1) (off + m) (tot + m) n s) (\<lambda>(t, bs', s).
                  Inr (t, bs @ bs', s)))))
     else Inr (tot, [], s))"
  by pat_completeness auto
termination
  by (relation "measure (\<lambda>(_, _, _, _, tot, n, _). unat (n - tot))") (simp_all add: chunk_decr)

declare rw_loop.simps [simp del]

definition rw_clus :: "u32 \<Rightarrow> bool \<Rightarrow> loc \<Rightarrow> u32 \<Rightarrow> u32 \<Rightarrow> 'a fat_st_scheme \<Rightarrow> (u32 \<times> u8 list \<times> 'a fat_st_scheme) kres" where
  "rw_clus cluster write data off n s =
    (if off + n > byts_per_clus (fat s) then Inl (Panic ''offset out of range'')
     else
       let bps = ucast (byts_per_sec (fat s)) in
       rw_loop write data (first_sec_of_clus cluster (fat s) + off div bps) (off mod bps) 0 n s)"

section \<open>The chain of a file\<close>

text \<open>
  The two loops of \<open>reloc_clus\<close>, which count \<open>clus_cnt\<close> up to the wanted number: the first argument is how far it
  still is. The next cluster is an \<open>int\<close> in the first loop, so an entry with the top bit set is not
  recognised as the end of the chain there; \<open>False\<close> is the exit that returns -1.
\<close>

primrec reloc_forward :: "nat \<Rightarrow> eptr \<Rightarrow> bool \<Rightarrow> 'a fat_st_scheme \<Rightarrow> (bool \<times> 'a fat_st_scheme) kres" where
  "reloc_forward 0 e alloc s = Inr (True, s)"
| "reloc_forward (Suc k) e alloc s =
    kbind (read_fat (cur_clus (dirents s e)) s) (\<lambda>(clus, s).
      let step = (\<lambda>clus. upd_ent e (\<lambda>d. d\<lparr>cur_clus := clus, clus_cnt := clus_cnt d + 1\<rparr>)) in
      if sint clus \<ge> sint FAT32_EOC then
        if alloc then
          kbind (alloc_clus (edev (dirents s e)) s) (\<lambda>(clus, s).
          kbind (write_fat (cur_clus (dirents s e)) clus s) (\<lambda>(_, s).
            reloc_forward k e alloc (step clus s)))
        else Inr (False, upd_ent e (\<lambda>d. d\<lparr>cur_clus := first_clus d, clus_cnt := 0\<rparr>) s)
      else reloc_forward k e alloc (step clus s))"

primrec reloc_again :: "nat \<Rightarrow> eptr \<Rightarrow> 'a fat_st_scheme \<Rightarrow> 'a fat_st_scheme kres" where
  "reloc_again 0 e s = Inr s"
| "reloc_again (Suc k) e s =
    kbind (read_fat (cur_clus (dirents s e)) s) (\<lambda>(clus, s).
      let s = upd_ent e (\<lambda>d. d\<lparr>cur_clus := clus\<rparr>) s in
      if clus \<ge> FAT32_EOC then Inl (Panic ''reloc_clus'')
      else reloc_again k e (upd_ent e (\<lambda>d. d\<lparr>clus_cnt := clus_cnt d + 1\<rparr>) s))"

definition reloc_clus :: "eptr \<Rightarrow> u32 \<Rightarrow> bool \<Rightarrow> 'a fat_st_scheme \<Rightarrow> (u32 \<times> 'a fat_st_scheme) kres" where
  "reloc_clus e off alloc s =
    (let clus_num = off div byts_per_clus (fat s) in
     kbind (reloc_forward (unat clus_num - unat (clus_cnt (dirents s e))) e alloc s) (\<lambda>(found, s).
       if \<not> found then Inr (- 1, s)
       else
         kbind (if clus_num < clus_cnt (dirents s e)
                then reloc_again (unat clus_num) e (upd_ent e (\<lambda>d. d\<lparr>cur_clus := first_clus d, clus_cnt := 0\<rparr>) s)
                else Inr s) (\<lambda>s.
           Inr (off mod byts_per_clus (fat s), s))))"

section \<open>Whole files\<close>

text \<open>The bytes of one step of \<open>eread\<close> and \<open>ewrite\<close>: to the end of the cluster, or less.\<close>

definition clus_chunk :: "u32 \<Rightarrow> u32 \<Rightarrow> u32 \<Rightarrow> u32" where
  "clus_chunk bpc off rest = (if rest < bpc - off mod bpc then rest else bpc - off mod bpc)"

definition loc_at :: "loc \<Rightarrow> nat \<Rightarrow> loc" where
  "loc_at l n = (case l of UserAddr a \<Rightarrow> UserAddr (a + of_nat n) | KernAddr a \<Rightarrow> KernAddr (a + of_nat n)
     | Obj bs \<Rightarrow> Obj (drop n bs))"

text \<open>
  The loops move forward by at least one byte a step while clusters are not empty, so \<open>n\<close> steps are enough: the first argument.
\<close>

fun eread_loop :: "nat \<Rightarrow> eptr \<Rightarrow> loc \<Rightarrow> u32 \<Rightarrow> u32 \<Rightarrow> u32 \<Rightarrow> 'a fat_st_scheme \<Rightarrow> (u32 \<times> u8 list \<times> 'a fat_st_scheme) kres" where
  "eread_loop fuel e dst off tot n s =
    (if cur_clus (dirents s e) < FAT32_EOC \<and> tot < n then
       case fuel of 0 \<Rightarrow> Inl Deep | Suc fuel \<Rightarrow>
       kbind (reloc_clus e off False s) (\<lambda>(_, s).
         let bpc = byts_per_clus (fat s);
             m = clus_chunk bpc off (n - tot)
         in kbind (rw_clus (cur_clus (dirents s e)) False (loc_at dst (unat tot)) (off mod bpc) m s) (\<lambda>(r, bs, s).
              if r \<noteq> m then Inr (tot, bs, s)
              else kbind (eread_loop fuel e dst (off + m) (tot + m) n s) (\<lambda>(t, bs', s). Inr (t, bs @ bs', s))))
     else Inr (tot, [], s))"

definition eread :: "eptr \<Rightarrow> loc \<Rightarrow> u32 \<Rightarrow> u32 \<Rightarrow> 'a fat_st_scheme \<Rightarrow> (u32 \<times> u8 list \<times> 'a fat_st_scheme) kres" where
  "eread e dst off n s =
    (if off > file_size (dirents s e) \<or> off + n < off \<or> attribute (dirents s e) AND ATTR_DIRECTORY \<noteq> 0
     then Inr (0, [], s)
     else
       let n = (if off + n > file_size (dirents s e) then file_size (dirents s e) - off else n)
       in eread_loop (unat n) e dst off 0 n s)"

fun ewrite_loop :: "nat \<Rightarrow> eptr \<Rightarrow> loc \<Rightarrow> u32 \<Rightarrow> u32 \<Rightarrow> u32 \<Rightarrow> 'a fat_st_scheme \<Rightarrow> (u32 \<times> u32 \<times> 'a fat_st_scheme) kres" where
  "ewrite_loop fuel e src off tot n s =
    (if tot < n then
       case fuel of 0 \<Rightarrow> Inl Deep | Suc fuel \<Rightarrow>
       kbind (reloc_clus e off True s) (\<lambda>(_, s).
         let bpc = byts_per_clus (fat s);
             m = clus_chunk bpc off (n - tot)
         in kbind (rw_clus (cur_clus (dirents s e)) True (loc_at src (unat tot)) (off mod bpc) m s) (\<lambda>(r, _, s).
              if r \<noteq> m then Inr (tot, off, s)
              else ewrite_loop fuel e src (off + m) (tot + m) n s))
     else Inr (tot, off, s))"

definition ewrite :: "eptr \<Rightarrow> loc \<Rightarrow> u32 \<Rightarrow> u32 \<Rightarrow> 'a fat_st_scheme \<Rightarrow> (int \<times> 'a fat_st_scheme) kres" where
  "ewrite e src off n s =
    (if off > file_size (dirents s e) \<or> off + n < off \<or> (ucast off :: u64) + ucast n > 0xffffffff
       \<or> attribute (dirents s e) AND ATTR_READ_ONLY \<noteq> 0
     then Inr (- 1, s)
     else
       kbind (if first_clus (dirents s e) = 0
              then kbind (alloc_clus (edev (dirents s e)) s) (\<lambda>(clus, s).
                Inr (upd_ent e (\<lambda>d. d\<lparr>cur_clus := clus, first_clus := clus, clus_cnt := 0, dirty := 1\<rparr>) s))
              else Inr s) (\<lambda>s.
       kbind (ewrite_loop (unat n) e src off 0 n s) (\<lambda>(tot, off, s).
         let s = (if n > 0 \<and> off > file_size (dirents s e)
                  then upd_ent e (\<lambda>d. d\<lparr>file_size := off, dirty := 1\<rparr>) s else s)
         in Inr (sint tot, s))))"

text \<open>
  \<open>etrunc\<close> frees the chain. Every step frees a cluster that has an entry, except the last, so one step more than there are
  entries is enough.
\<close>

fun etrunc_loop :: "nat \<Rightarrow> u32 \<Rightarrow> 'a fat_st_scheme \<Rightarrow> 'a fat_st_scheme kres" where
  "etrunc_loop fuel clus s =
    (if clus \<ge> 2 \<and> clus < FAT32_EOC then
       case fuel of 0 \<Rightarrow> Inl Deep | Suc fuel \<Rightarrow>
       kbind (read_fat clus s) (\<lambda>(next, s).
       kbind (free_clus clus s) (etrunc_loop fuel next))
     else Inr s)"

definition etrunc :: "eptr \<Rightarrow> 'a fat_st_scheme \<Rightarrow> 'a fat_st_scheme kres" where
  "etrunc e s =
    kbind (etrunc_loop (unat (data_clus_cnt (fat s)) + 3) (first_clus (dirents s e)) s) (\<lambda>s.
      Inr (upd_ent e (\<lambda>d. d\<lparr>file_size := 0, first_clus := 0, dirty := 1\<rparr>) s))"

declare eread_loop.simps [simp del] ewrite_loop.simps [simp del] etrunc_loop.simps [simp del]

section \<open>Clusters as byte arrays\<close>

lemma concat_chunks:
  assumes "\<And>i. i < n \<Longrightarrow> length (g i) = w"
  shows "length (concat (map g [0..<n])) = n * w"
    and "q < n \<Longrightarrow> r < w \<Longrightarrow> concat (map g [0..<n]) ! (q * w + r) = g q ! r"
proof -
  have l: "length (concat (map g [0..<m])) = m * w" if "m \<le> n" for m
    using that assms by (induction m) auto
  then show "length (concat (map g [0..<n])) = n * w" by simp
  assume q: "q < n" and r: "r < w"
  have "[0..<n] = [0..<q] @ q # [Suc q..<n]"
    using q upt_add_eq_append [of 0 q "n - q"] upt_conv_Cons [OF q] by simp
  then have "concat (map g [0..<n]) = concat (map g [0..<q]) @ g q @ concat (map g [Suc q..<n])" by simp
  then show "concat (map g [0..<n]) ! (q * w + r) = g q ! r"
    using l [of q] q r assms [OF q] by (simp add: nth_append)
qed

lemma concat_piece:
  assumes "\<And>i. i < n \<Longrightarrow> length (g i) = w" and "x < n * w" and "m \<le> w - x mod w"
  shows "take m (drop x (concat (map g [0..<n]))) = take m (drop (x mod w) (g (x div w)))"
proof (rule nth_equalityI)
  have w: "0 < w" using assms(2) by (cases w) auto
  have L: "length (concat (map g [0..<n])) = n * w" by (rule concat_chunks(1)) (rule assms(1))
  have q: "x div w < n" using assms(2) by (simp add: less_mult_imp_div_less)
  have lq: "length (g (x div w)) = w" by (rule assms(1) [OF q])
  have "x div w * w + w \<le> n * w" using mult_le_mono1 [of "Suc (x div w)" n w] q by simp
  then have xm: "x + m \<le> n * w" using assms(3) div_mult_mod_eq [of x w] mod_less_divisor [OF w, of x] by linarith
  show "length (take m (drop x (concat (map g [0..<n])))) = length (take m (drop (x mod w) (g (x div w))))"
    using L lq xm assms(3) by simp
  fix k assume "k < length (take m (drop x (concat (map g [0..<n]))))"
  then have k: "k < m" by simp
  then have r: "x mod w + k < w" using assms(3) by linarith
  have "concat (map g [0..<n]) ! (x div w * w + (x mod w + k)) = g (x div w) ! (x mod w + k)"
    by (rule concat_chunks(2)) (use assms(1) q r in auto)
  moreover have "x div w * w + (x mod w + k) = x + k" using div_mult_mod_eq [of x w] by linarith
  ultimately show "take m (drop x (concat (map g [0..<n]))) ! k = take m (drop (x mod w) (g (x div w))) ! k"
    using L lq xm k r by simp
qed

lemma concat_splice:
  assumes "\<And>i. i < n \<Longrightarrow> length (g i) = w" and "q < n" and "r + length bs \<le> w"
    and "\<And>i. i < n \<Longrightarrow> h i = (if i = q then splice r bs (g i) else g i)"
  shows "concat (map h [0..<n]) = splice (q * w + r) bs (concat (map g [0..<n]))"
proof (rule nth_equalityI)
  have L: "length (concat (map g [0..<n])) = n * w" by (rule concat_chunks(1)) (rule assms(1))
  have hl: "length (h i) = w" if "i < n" for i using assms(1,3) that by (simp add: assms(4))
  have H: "length (concat (map h [0..<n])) = n * w" by (rule concat_chunks(1)) (rule hl)
  have "q * w + w \<le> n * w" using mult_le_mono1 [of "Suc q" n w] assms(2) by simp
  then have le: "q * w + r + length bs \<le> n * w" using assms(3) by simp
  show "length (concat (map h [0..<n])) = length (splice (q * w + r) bs (concat (map g [0..<n])))"
    using L H le by simp
  fix k assume "k < length (concat (map h [0..<n]))"
  then have k: "k < n * w" using H by simp
  then have w: "0 < w" by (cases w) auto
  have i: "k div w < n" "k mod w < w" using k w by (simp_all add: less_mult_imp_div_less)
  have km: "k div w * w + k mod w = k" by simp
  have gk: "concat (map g [0..<n]) ! k = g (k div w) ! (k mod w)"
    using concat_chunks(2) [OF assms(1) i] by simp
  have hk: "concat (map h [0..<n]) ! k = h (k div w) ! (k mod w)"
    using concat_chunks(2) [OF hl i] by simp
  show "concat (map h [0..<n]) ! k = splice (q * w + r) bs (concat (map g [0..<n])) ! k"
  proof (cases "k div w = q")
    case True
    have "q * w + r \<le> k \<longleftrightarrow> r \<le> k mod w" "k < q * w + r + length bs \<longleftrightarrow> k mod w < r + length bs"
      "k - (q * w + r) = k mod w - r"
      using km [unfolded True] by linarith+
    then show ?thesis
      using True i assms(1) [OF i(1)] assms(3,4) le L k gk hk by (simp add: nth_splice)
  next
    case False
    have "\<not> (q * w + r \<le> k \<and> k < q * w + r + length bs)"
    proof
      assume c: "q * w + r \<le> k \<and> k < q * w + r + length bs"
      then have "q * w \<le> k" "k < q * w + w" using assms(3) by linarith+
      then have "q \<le> k div w" "k div w < Suc q"
        using div_le_mono [of "q * w" k w] w by (simp_all add: less_mult_imp_div_less)
      then show False using False by simp
    qed
    then show ?thesis using False i assms(4) le L k gk hk by (auto simp: nth_splice)
  qed
qed

lemma cluster_data_props:
  assumes "fat_ok p s"
  shows "length (cluster_data s c) = unat (sec_per_clus (fat s)) * 512"
    and "k < unat (sec_per_clus (fat s)) * 512 \<Longrightarrow>
      cluster_data s c ! k = sectors s (clus_sec (fat s) c (k div 512)) ! (k mod 512)"
proof -
  have l: "length (sectors s (clus_sec (fat s) c i)) = 512" for i
    using fat_okD(3) [OF assms] by (simp add: BSIZE_def)
  show "length (cluster_data s c) = unat (sec_per_clus (fat s)) * 512"
    unfolding cluster_data_def by (rule concat_chunks) (rule l)
  assume k: "k < unat (sec_per_clus (fat s)) * 512"
  have "cluster_data s c ! (k div 512 * 512 + k mod 512) = sectors s (clus_sec (fat s) c (k div 512)) ! (k mod 512)"
    unfolding cluster_data_def by (rule concat_chunks) (use l k in \<open>auto intro: less_mult_imp_div_less\<close>)
  then show "cluster_data s c ! k = sectors s (clus_sec (fat s) c (k div 512)) ! (k mod 512)" by simp
qed

text \<open>A range inside one sector.\<close>

lemma cluster_data_piece:
  assumes "fat_ok p s" and "x < unat (sec_per_clus (fat s)) * 512" and "m \<le> 512 - x mod 512"
  shows "take m (drop x (cluster_data s c)) = take m (drop (x mod 512) (sectors s (clus_sec (fat s) c (x div 512))))"
  unfolding cluster_data_def
  by (rule concat_piece) (use assms(2,3) fat_okD(3) [OF assms(1)] in \<open>simp_all add: BSIZE_def\<close>)

lemma rw_step_arith:
  fixes off tot n :: u32
  assumes "tot < n" and "unat off mod 512 = x mod 512"
  defines "m \<equiv> chunk off (n - tot)"
  shows "unat m = min (unat (n - tot)) (512 - x mod 512)" and "tot + m \<le> n" and "unat (tot + m) = unat tot + unat m"
    and "unat (n - (tot + m)) = unat (n - tot) - unat m" and "0 < unat m" and "unat (off mod 512) = x mod 512"
    and "tot + m < n \<Longrightarrow> x mod 512 + unat m = 512"
    and "tot + m < n \<Longrightarrow> unat (off + m) mod 512 = 0"
proof -
  show o: "unat (off mod 512) = x mod 512" using assms(2) by (simp add: unat_mod)
  have le: "off mod 512 \<le> 512"
    by (simp add: word_le_nat_alt unat_mod)
  have s: "unat (512 - off mod 512) = 512 - x mod 512" using le o by (simp add: unat_sub)
  have lt: "unat tot < unat n" using assms(1) by (simp add: word_less_nat_alt)
  have nt: "unat (n - tot) = unat n - unat tot" using assms(1) by (intro unat_sub) simp
  show m: "unat m = min (unat (n - tot)) (512 - x mod 512)"
    using s by (auto simp: m_def chunk_def word_less_nat_alt not_less)
  have b: "unat n < 2 ^ 32" using unsigned_less [of n, where ?'a = nat] by simp
  have mle: "unat m \<le> unat n - unat tot" using m nt by simp
  show t: "unat (tot + m) = unat tot + unat m"
    by (rule unat_add_no_wrap) (use mle lt b in simp)
  show tl: "tot + m \<le> n" unfolding word_le_nat_alt t using mle lt by simp
  show "unat (n - (tot + m)) = unat (n - tot) - unat m"
    using t tl nt by (simp add: unat_sub)
  show "0 < unat m" using m nt lt by simp
  assume c: "tot + m < n"
  then have "unat m < unat (n - tot)" using t nt by (simp add: word_less_nat_alt)
  then have mm: "unat m = 512 - x mod 512" using m by simp
  show e: "x mod 512 + unat m = 512" using mm mod_less_divisor [of 512 x] by simp
  have "unat (off + m) = (unat off + unat m) mod 2 ^ 32" by (simp add: unat_word_ariths)
  then have "unat (off + m) mod 512 = (unat off + unat m) mod 512" by (simp add: mod_mod_cancel)
  also have "\<dots> = (x mod 512 + unat m) mod 512" using assms(2) by (metis mod_add_left_eq)
  finally show "unat (off + m) mod 512 = 0" using e by simp
qed

lemma clus_sec_Suc: "clus_sec f c i + 1 = clus_sec f c (Suc i)"
  by (simp add: clus_sec_def algebra_simps)

lemma rw_read_ok:
  assumes "fat_ok p s" and "tot \<le> n" and "x + unat (n - tot) \<le> unat (sec_per_clus (fat s)) * 512"
    and "unat off mod 512 = x mod 512" and "tot < n \<longrightarrow> sec = clus_sec (fat s) c (x div 512)"
  shows "\<exists>s'. rw_loop False (Obj z) sec off tot n s = Inr (n, take (unat (n - tot)) (drop x (cluster_data s c)), s')
    \<and> fat_ok p s' \<and> sectors s' = sectors s \<and> io_step s s'"
  using assms
proof (induction "unat (n - tot)" arbitrary: s sec off tot x rule: less_induct)
  case less
  show ?case
  proof (cases "tot < n")
    case False
    then have "tot = n" using less.prems(2) by simp
    then show ?thesis using less.prems(1) by (intro exI [of _ s]) (simp add: rw_loop.simps)
  next
    case True
    define m where "m = chunk off (n - tot)"
    note a = rw_step_arith [OF True less.prems(4), folded m_def]
    have sec: "sec = clus_sec (fat s) c (x div 512)" using less.prems(5) True by simp
    obtain b t where b: "bread 0 sec s = Inr (b, t)" "bdata (bufs t b) = sectors s sec"
      "sector_read 0 sec s = kbind (brelse b t) (\<lambda>s'. Inr (sectors s sec, s'))"
      by (rule bread_then [OF fat_okD(1) [OF less.prems(1)], of sec]) (rule that)
    obtain s1 where s1: "sector_read 0 sec s = Inr (sectors s sec, s1)" "quiet p 0 s1" "sectors s1 = sectors s" "io_step s s1"
      by (rule sector_read_ok [OF fat_okD(1) [OF less.prems(1)]])
    have r: "brelse b t = Inr s1" using b(3) s1(1) by (cases "brelse b t") simp_all
    have fs: "fat s1 = fat s" by (rule io_step_fat(1) [OF s1(4)])
    have ok: "fat_ok p s1" using s1 fs less.prems(1) by (simp add: fat_ok_def)
    have cd: "cluster_data s1 c = cluster_data s c" by (simp add: cluster_data_def fs s1(3))
    have x: "x < unat (sec_per_clus (fat s)) * 512" using less.prems(3) a(1,5) by simp
    have piece: "take (unat m) (drop (unat (off mod 512)) (sectors s sec)) = take (unat m) (drop x (cluster_data s c))"
      unfolding a(6) sec by (rule cluster_data_piece [OF less.prems(1) x, symmetric]) (use a(1) in simp)
    have ml: "unat m \<le> unat (n - tot)" using a(1) by simp
    have nx: "(x + unat m) mod 512 = 0 \<and> (x + unat m) div 512 = Suc (x div 512)" if "tot + m < n"
    proof -
      have "x + unat m = 512 * Suc (x div 512)" using a(7) [OF that] mult_div_mod_eq [of 512 x] unfolding mult_Suc_right by linarith
      then show ?thesis by simp
    qed
    have IH: "\<exists>s'. rw_loop False (Obj z) (sec + 1) (off + m) (tot + m) n s1
        = Inr (n, take (unat (n - (tot + m))) (drop (x + unat m) (cluster_data s1 c)), s')
      \<and> fat_ok p s' \<and> sectors s' = sectors s1 \<and> io_step s1 s'"
    proof (cases "tot + m < n")
      case c: True
      show ?thesis
      proof (rule less.hyps)
        show "unat (n - (tot + m)) < unat (n - tot)" using a(4,5) ml by simp
        show "fat_ok p s1" by (rule ok)
        show "tot + m \<le> n" by (rule a(2))
        show "x + unat m + unat (n - (tot + m)) \<le> unat (sec_per_clus (fat s1)) * 512"
          using less.prems(3) a(4) ml fs by simp
        show "unat (off + m) mod 512 = (x + unat m) mod 512" using a(8) [OF c] nx [OF c] by simp
        show "tot + m < n \<longrightarrow> sec + 1 = clus_sec (fat s1) c ((x + unat m) div 512)"
          using nx [OF c] sec clus_sec_Suc by (simp add: fs)
      qed
    next
      case False
      then have "tot + m = n" using a(2) by simp
      then show ?thesis using ok by (intro exI [of _ s1]) (simp add: rw_loop.simps)
    qed
    obtain s' where s': "rw_loop False (Obj z) (sec + 1) (off + m) (tot + m) n s1
        = Inr (n, take (unat (n - (tot + m))) (drop (x + unat m) (cluster_data s c)), s')"
      "fat_ok p s'" "sectors s' = sectors s" "io_step s1 s'"
      using IH unfolding cd s1(3) by blast
    have tk: "take (unat (n - tot)) (drop x (cluster_data s c))
        = take (unat m) (drop x (cluster_data s c)) @ take (unat (n - (tot + m))) (drop (x + unat m) (cluster_data s c))"
      using take_add [of "unat m" "unat (n - (tot + m))" "drop x (cluster_data s c)"] a(4) ml
      by (simp add: add.commute)
    have "rw_loop False (Obj z) sec off tot n s = Inr (n, take (unat (n - tot)) (drop x (cluster_data s c)), s')"
      using True b(1,2) r s'(1) by (subst rw_loop.simps) (simp add: Let_def m_def [symmetric] piece tk)
    then show ?thesis using s' io_step_trans [OF s1(4) s'(4)] by blast
  qed
qed

lemma splice_splice:
  "x + length a + length b \<le> length d \<Longrightarrow> splice (x + length a) b (splice x a d) = splice x (a @ b) d"
  by (rule nth_equalityI) (auto simp: nth_splice nth_append)

lemma cluster_data_update:
  assumes "fat_ok p s" and "data_clus (fat s) c" and "fat s' = fat s" and "x < unat (sec_per_clus (fat s)) * 512"
    and "length bs \<le> 512 - x mod 512"
    and "sectors s' = (sectors s)(clus_sec (fat s) c (x div 512)
      := splice (x mod 512) bs (sectors s (clus_sec (fat s) c (x div 512))))"
  shows "cluster_data s' c = splice x bs (cluster_data s c)"
proof -
  let ?n = "unat (sec_per_clus (fat s))"
  have q: "x div 512 < ?n" using assms(4) by (simp add: less_mult_imp_div_less)
  have "cluster_data s' c = splice (x div 512 * 512 + x mod 512) bs (cluster_data s c)"
    unfolding cluster_data_def assms(3)
  proof (rule concat_splice [OF _ q])
    show "length (sectors s (clus_sec (fat s) c i)) = 512" for i
      using fat_okD(3) [OF assms(1)] by (simp add: BSIZE_def)
    show "x mod 512 + length bs \<le> 512" using assms(5) mod_less_divisor [of 512 x] by linarith
    show "sectors s' (clus_sec (fat s) c i) = (if i = x div 512 then splice (x mod 512) bs (sectors s (clus_sec (fat s) c i))
        else sectors s (clus_sec (fat s) c i))" if "i < ?n" for i
      using clus_sec_inj [OF fat_okD(2) [OF assms(1)] assms(2,2) that q] by (auto simp: assms(6))
  qed
  then show ?thesis by simp
qed

lemma rw_write_ok:
  assumes "fat_ok p s" and "data_clus (fat s) c" and "length bs = unat n" and "tot \<le> n"
    and "x + unat (n - tot) \<le> unat (sec_per_clus (fat s)) * 512"
    and "unat off mod 512 = x mod 512" and "tot < n \<longrightarrow> sec = clus_sec (fat s) c (x div 512)"
  shows "\<exists>s' r. rw_loop True (Obj bs) sec off tot n s = Inr (n, r, s')
    \<and> fat_ok p s' \<and> io_step s s' \<and> cluster_data s' c = splice x (drop (unat tot) bs) (cluster_data s c)
    \<and> (\<forall>y. (\<forall>i<unat (sec_per_clus (fat s)). y \<noteq> clus_sec (fat s) c i) \<longrightarrow> sectors s' y = sectors s y)"
  using assms
proof (induction "unat (n - tot)" arbitrary: s sec off tot x rule: less_induct)
  case less
  show ?case
  proof (cases "tot < n")
    case False
    then have "tot = n" using less.prems(4) by simp
    moreover have "splice x [] (cluster_data s c) = cluster_data s c" by (simp add: splice_def)
    ultimately show ?thesis using less.prems(1,3) by (intro exI [of _ s]) (simp add: rw_loop.simps)
  next
    case True
    define m where "m = chunk off (n - tot)"
    note a = rw_step_arith [OF True less.prems(6), folded m_def]
    define b1 where "b1 = take (unat m) (drop (unat tot) bs)"
    have sec: "sec = clus_sec (fat s) c (x div 512)" using less.prems(7) True by simp
    have x: "x < unat (sec_per_clus (fat s)) * 512" using less.prems(5) a(1,5) by simp
    have ml: "unat m \<le> unat (n - tot)" using a(1) by simp
    have nt: "unat (n - tot) = unat n - unat tot" using True by (intro unat_sub) simp
    have lb: "length b1 = unat m" using less.prems(3) ml nt by (simp add: b1_def)
    obtain b t where b: "bread 0 sec s = Inr (b, t)" "bdata (bufs t b) = sectors s sec"
      "\<forall>f. sector_update 0 sec f s = kbind (bwrite b (set_buf b ((bufs t b)\<lparr>bdata := f (sectors s sec)\<rparr>) t)) (brelse b)"
      by (rule bread_then [OF fat_okD(1) [OF less.prems(1)], of sec]) (rule that)
    obtain s1 where s1: "sector_update 0 sec (splice (x mod 512) b1) s = Inr s1" "quiet p 0 s1"
      "sectors s1 = (sectors s)(sec := splice (x mod 512) b1 (sectors s sec))" "io_step s s1"
      by (rule sector_update_ok [OF fat_okD(1) [OF less.prems(1)]])
    have r: "kbind (bwrite b (set_buf b ((bufs t b)\<lparr>bdata := splice (x mod 512) b1 (sectors s sec)\<rparr>) t)) (brelse b) = Inr s1"
      using trans [OF b(3) [rule_format, symmetric] s1(1)] .
    have fs: "fat s1 = fat s" by (rule io_step_fat(1) [OF s1(4)])
    have lb5: "length b1 \<le> 512 - x mod 512" using lb a(1) by simp
    have "x mod 512 + length b1 \<le> 512" using lb5 mod_less_divisor [of 512 x] by linarith
    then have ok: "fat_ok p s1" using s1 fs less.prems(1) by (simp add: fat_ok_def BSIZE_def)
    have up: "cluster_data s1 c = splice x b1 (cluster_data s c)"
      by (rule cluster_data_update [OF less.prems(1,2) fs x lb5 s1(3) [unfolded sec]])
    have nx: "(x + unat m) mod 512 = 0 \<and> (x + unat m) div 512 = Suc (x div 512)" if "tot + m < n"
    proof -
      have "x + unat m = 512 * Suc (x div 512)"
        using a(7) [OF that] mult_div_mod_eq [of 512 x] unfolding mult_Suc_right by linarith
      then show ?thesis by simp
    qed
    have IH: "\<exists>s' r. rw_loop True (Obj bs) (sec + 1) (off + m) (tot + m) n s1 = Inr (n, r, s')
      \<and> fat_ok p s' \<and> io_step s1 s' \<and> cluster_data s' c = splice (x + unat m) (drop (unat (tot + m)) bs) (cluster_data s1 c)
      \<and> (\<forall>y. (\<forall>i<unat (sec_per_clus (fat s1)). y \<noteq> clus_sec (fat s1) c i) \<longrightarrow> sectors s' y = sectors s1 y)"
    proof (cases "tot + m < n")
      case c: True
      show ?thesis
      proof (rule less.hyps)
        show "unat (n - (tot + m)) < unat (n - tot)" using a(4,5) ml by simp
        show "fat_ok p s1" by (rule ok)
        show "data_clus (fat s1) c" "length bs = unat n" using less.prems fs by simp_all
        show "tot + m \<le> n" by (rule a(2))
        show "x + unat m + unat (n - (tot + m)) \<le> unat (sec_per_clus (fat s1)) * 512"
          using less.prems(5) a(4) ml fs by simp
        show "unat (off + m) mod 512 = (x + unat m) mod 512" using a(8) [OF c] nx [OF c] by simp
        show "tot + m < n \<longrightarrow> sec + 1 = clus_sec (fat s1) c ((x + unat m) div 512)"
          using nx [OF c] sec clus_sec_Suc by (simp add: fs)
      qed
    next
      case False
      then have e: "tot + m = n" using a(2) by simp
      have "splice (x + unat m) [] (cluster_data s1 c) = cluster_data s1 c" by (simp add: splice_def)
      then show ?thesis using ok e less.prems(3) by (intro exI [of _ s1]) (simp add: rw_loop.simps)
    qed
    obtain s' r where s': "rw_loop True (Obj bs) (sec + 1) (off + m) (tot + m) n s1 = Inr (n, r, s')"
      "fat_ok p s'" "io_step s1 s'" "cluster_data s' c = splice (x + unat m) (drop (unat (tot + m)) bs) (cluster_data s1 c)"
      "\<forall>y. (\<forall>i<unat (sec_per_clus (fat s)). y \<noteq> clus_sec (fat s) c i) \<longrightarrow> sectors s' y = sectors s1 y"
      using IH fs by auto
    have dd: "b1 @ drop (unat (tot + m)) bs = drop (unat tot) bs"
      unfolding b1_def a(3) by (metis append_take_drop_id drop_drop add.commute)
    have "x + length b1 + length (drop (unat (tot + m)) bs) \<le> length (cluster_data s c)"
      using less.prems(3,5) a(3) lb ml nt cluster_data_props(1) [OF less.prems(1), of c] by simp
    then have "cluster_data s' c = splice x (drop (unat tot) bs) (cluster_data s c)"
      using splice_splice [of x b1 "drop (unat (tot + m)) bs" "cluster_data s c"] s'(4) up lb dd by simp
    moreover have "x div 512 < unat (sec_per_clus (fat s))" using x by (simp add: less_mult_imp_div_less)
    then have "\<forall>y. (\<forall>i<unat (sec_per_clus (fat s)). y \<noteq> clus_sec (fat s) c i) \<longrightarrow> sectors s' y = sectors s y"
      using s'(5) sec by (auto simp: s1(3))
    moreover have "kbind (bwrite b (set_buf b ((bufs t b)\<lparr>bdata := splice (x mod 512) b1 (sectors s sec)\<rparr>) t))
        (\<lambda>s. kbind (brelse b s) (\<lambda>s. rw_loop True (Obj bs) (sec + 1) (off + m) (tot + m) n s)) = Inr (n, r, s')"
      using r s'(1) by (simp add: kbind_assoc [symmetric])
    then have "rw_loop True (Obj bs) sec off tot n s = Inr (n, r, s')"
      using True b(1,2) a(6) by (subst rw_loop.simps) (simp add: Let_def m_def [symmetric] b1_def [symmetric])
    ultimately show ?thesis using s'(2) io_step_trans [OF s1(4) s'(3)] by blast
  qed
qed

text \<open>\<open>rw_clus\<close> on a kernel object: the cluster is an array of bytes.\<close>

lemma rw_clus_start:
  assumes "fat_ok p s" and "unat off + unat n \<le> unat (sec_per_clus (fat s)) * 512"
  shows "rw_clus c w data off n s = rw_loop w data (clus_sec (fat s) c (unat off div 512)) (off mod 512) 0 n s"
proof -
  have g: "geom (fat s)" by (rule fat_okD(2) [OF assms(1)])
  have sp: "unat (ucast (sec_per_clus (fat s)) :: u32) = unat (sec_per_clus (fat s))" by (rule unat_ucast_up) simp
  have "unat (sec_per_clus (fat s)) < 256" using unsigned_less [of "sec_per_clus (fat s)", where ?'a = nat] by simp
  then have bpc: "unat (byts_per_clus (fat s)) = unat (sec_per_clus (fat s)) * 512"
    using g sp by (simp add: geom_def unat_word_ariths)
  have "unat (off + n) = unat off + unat n"
    by (rule unat_add_no_wrap) (use assms(2) \<open>unat (sec_per_clus (fat s)) < 256\<close> in simp)
  then have "\<not> off + n > byts_per_clus (fat s)" using bpc assms(2) by (simp add: word_less_nat_alt)
  moreover have "unat off div 512 < 2 ^ 32"
    by (rule le_less_trans [OF div_le_dividend]) (use unsigned_less [of off, where ?'a = nat] in simp)
  then have "unat (of_nat (unat off div 512) :: u32) = unat off div 512" by (simp add: unat_of_nat_small)
  then have "(off div 512 :: u32) = of_nat (unat off div 512)" by (intro unat_inj) (simp add: unat_div)
  moreover have "(ucast (512 :: u16) :: u32) = 512" by simp
  ultimately show ?thesis using g by (simp add: rw_clus_def clus_sec_def geom_def)
qed

lemma rw_clus_read:
  assumes "fat_ok p s" and "unat off + unat n \<le> unat (sec_per_clus (fat s)) * 512"
  obtains s' where "rw_clus c False (Obj z) off n s = Inr (n, take (unat n) (drop (unat off) (cluster_data s c)), s')"
    and "fat_ok p s'" and "sectors s' = sectors s" and "io_step s s'"
proof -
  have "\<exists>s'. rw_loop False (Obj z) (clus_sec (fat s) c (unat off div 512)) (off mod 512) 0 n s
      = Inr (n, take (unat (n - 0)) (drop (unat off) (cluster_data s c)), s')
    \<and> fat_ok p s' \<and> sectors s' = sectors s \<and> io_step s s'"
    by (rule rw_read_ok) (use assms in \<open>simp_all add: unat_mod\<close>)
  then show ?thesis using that rw_clus_start [OF assms] by auto
qed

lemma rw_clus_write:
  assumes "fat_ok p s" and "unat off + unat n \<le> unat (sec_per_clus (fat s)) * 512" and "data_clus (fat s) c"
    and "length bs = unat n"
  obtains s' r where "rw_clus c True (Obj bs) off n s = Inr (n, r, s')"
    and "fat_ok p s'" and "io_step s s'" and "cluster_data s' c = splice (unat off) bs (cluster_data s c)"
    and "\<And>y. (\<forall>i<unat (sec_per_clus (fat s)). y \<noteq> clus_sec (fat s) c i) \<Longrightarrow> sectors s' y = sectors s y"
proof -
  have "\<exists>s' r. rw_loop True (Obj bs) (clus_sec (fat s) c (unat off div 512)) (off mod 512) 0 n s = Inr (n, r, s')
    \<and> fat_ok p s' \<and> io_step s s' \<and> cluster_data s' c = splice (unat off) (drop (unat (0 :: u32)) bs) (cluster_data s c)
    \<and> (\<forall>y. (\<forall>i<unat (sec_per_clus (fat s)). y \<noteq> clus_sec (fat s) c i) \<longrightarrow> sectors s' y = sectors s y)"
    by (rule rw_write_ok) (use assms in \<open>simp_all add: unat_mod\<close>)
  then show ?thesis using that rw_clus_start [OF assms(1,2)] by auto
qed

text \<open>A write to a cluster leaves the table and the other clusters alone.\<close>

lemma write_elsewhere:
  assumes "fat_ok p s" and "data_clus (fat s) c" and "fat s' = fat s"
    and "\<And>y. (\<forall>i<unat (sec_per_clus (fat s)). y \<noteq> clus_sec (fat s) c i) \<Longrightarrow> sectors s' y = sectors s y"
  shows "entry (fat s) d \<Longrightarrow> fat_entry s' d = fat_entry s d"
    and "data_clus (fat s) d \<Longrightarrow> d \<noteq> c \<Longrightarrow> cluster_data s' d = cluster_data s d"
proof -
  note g = fat_okD(2) [OF assms(1)]
  show "fat_entry s' d = fat_entry s d" if "entry (fat s) d"
  proof -
    have "sectors s' (fat_sec_of_clus d 1 (fat s)) = sectors s (fat_sec_of_clus d 1 (fat s))"
      by (rule assms(4)) (use clus_sec_not_fat [OF g assms(2) _ that] in metis)
    then show ?thesis by (simp add: fat_entry_def assms(3))
  qed
  show "cluster_data s' d = cluster_data s d" if d: "data_clus (fat s) d" "d \<noteq> c"
  proof -
    have "sectors s' (clus_sec (fat s) d i) = sectors s (clus_sec (fat s) d i)"
      if "i < unat (sec_per_clus (fat s))" for i
      by (rule assms(4)) (use clus_sec_inj [OF g d(1) assms(2) that] d(2) in metis)
    then have "map (\<lambda>i. sectors s' (clus_sec (fat s) d i)) [0..<unat (sec_per_clus (fat s))]
        = map (\<lambda>i. sectors s (clus_sec (fat s) d i)) [0..<unat (sec_per_clus (fat s))]" by simp
    then show ?thesis unfolding cluster_data_def assms(3) by (rule arg_cong)
  qed
qed

section \<open>Chains\<close>

text \<open>The end marks that both comparisons with \<open>FAT32_EOC\<close>, signed and unsigned, recognise.\<close>

definition eoc :: "u32 \<Rightarrow> bool" where
  "eoc c \<longleftrightarrow> FAT32_EOC \<le> c \<and> c \<le> 0x0fffffff"

primrec fchain :: "'a fat_st_scheme \<Rightarrow> u32 \<Rightarrow> u32 list \<Rightarrow> bool" where
  "fchain s c [] \<longleftrightarrow> eoc c"
| "fchain s c (x # xs) \<longleftrightarrow> c = x \<and> data_clus (fat s) x \<and> fchain s (fat_entry s x) xs"

lemma data_clus_lt:
  "geom f \<Longrightarrow> data_clus f c \<Longrightarrow> c < FAT32_EOC \<and> 2 \<le> c"
  using geomD(2) by (simp add: data_clus_def)

lemma fchain_unique:
  "geom (fat s) \<Longrightarrow> fchain s c xs \<Longrightarrow> fchain s c ys \<Longrightarrow> xs = ys"
proof (induction xs arbitrary: c ys)
  case Nil then show ?case using data_clus_lt by (cases ys) (fastforce simp: eoc_def)+
next
  case (Cons x xs) then show ?case using data_clus_lt by (cases ys) (fastforce simp: eoc_def)+
qed

lemma fchain_suffix: "fchain s c (xs @ y # ys) \<Longrightarrow> fchain s y (y # ys)"
  by (induction xs arbitrary: c) auto

lemma fchain_distinct:
  assumes "geom (fat s)" and "fchain s c xs"
  shows "distinct xs"
proof (rule ccontr)
  assume "\<not> distinct xs"
  then obtain us y vs ws where "xs = us @ [y] @ vs @ [y] @ ws" using not_distinct_decomp by blast
  then have "fchain s y (y # vs @ y # ws)" "fchain s y (y # ws)"
    using fchain_suffix [of s c us y "vs @ y # ws"] fchain_suffix [of s c "us @ y # vs" y ws] assms(2) by simp_all
  then have "y # vs @ y # ws = y # ws" by (rule fchain_unique [OF assms(1)])
  then show False by simp
qed

lemma fchain_data: "fchain s c xs \<Longrightarrow> x \<in> set xs \<Longrightarrow> data_clus (fat s) x"
  by (induction xs arbitrary: c) auto

lemma fchain_cong:
  "fchain s c xs \<Longrightarrow> fat s' = fat s \<Longrightarrow> (\<And>x. x \<in> set xs \<Longrightarrow> fat_entry s' x = fat_entry s x) \<Longrightarrow> fchain s' c xs"
  by (induction xs arbitrary: c) auto

lemma fchain_length:
  assumes "geom (fat s)" and "fchain s c xs"
  shows "length xs \<le> unat (data_clus_cnt (fat s))"
proof -
  have "unat ` set xs \<subseteq> {2..<unat (data_clus_cnt (fat s)) + 2}"
  proof
    fix k assume "k \<in> unat ` set xs"
    then obtain x where x: "x \<in> set xs" "k = unat x" by blast
    have "data_clus (fat s) x" by (rule fchain_data [OF assms(2) x(1)])
    then show "k \<in> {2..<unat (data_clus_cnt (fat s)) + 2}"
      using geomD(1) [OF assms(1), of x] by (simp add: data_clus_def x(2) word_le_nat_alt)
  qed
  then have "card (unat ` set xs) \<le> card {2..<unat (data_clus_cnt (fat s)) + 2}" by (intro card_mono) auto
  moreover have "card (unat ` set xs) = length xs"
    using distinct_card [OF fchain_distinct [OF assms]] by (subst card_image) (auto simp: inj_on_def word_unat_eq_iff)
  ultimately show ?thesis by simp
qed

lemma etrunc_loop_ok:
  assumes "fat_ok p s" and "fchain s c xs" and "length xs < fuel"
  shows "\<exists>s'. etrunc_loop fuel c s = Inr s' \<and> fat_ok p s' \<and> io_step s s'
    \<and> (\<forall>d. entry (fat s) d \<longrightarrow> fat_entry s' d = (if d \<in> set xs then 0 else fat_entry s d))"
  using assms
proof (induction xs arbitrary: c s fuel)
  case Nil
  then have "\<not> c < FAT32_EOC" by (simp add: eoc_def not_less)
  then show ?case using Nil.prems(1) by (intro exI [of _ s]) (simp add: etrunc_loop.simps)
next
  case (Cons x xs)
  then obtain f where f: "fuel = Suc f" by (cases fuel) auto
  have x: "c = x" "data_clus (fat s) x" "fchain s (fat_entry s x) xs" using Cons.prems(2) by simp_all
  note g = fat_okD(2) [OF Cons.prems(1)]
  have e: "entry (fat s) x" using x(2) by (simp add: data_clus_def)
  have nx: "x \<notin> set xs" using fchain_distinct [OF g Cons.prems(2)] by simp
  obtain s1 where s1: "read_fat x s = Inr (fat_entry s x, s1)" "fat_ok p s1" "sectors s1 = sectors s" "io_step s s1"
    by (rule read_fat_ok [OF Cons.prems(1) e])
  have f1: "fat s1 = fat s" by (rule io_step_fat(1) [OF s1(4)])
  have fe1: "fat_entry s1 d = fat_entry s d" for d by (simp add: fat_entry_def f1 s1(3))
  obtain s2 where s2: "write_fat x 0 s1 = Inr (0, s2)" "fat_ok p s2" "io_step s1 s2"
    "\<forall>d. entry (fat s1) d \<longrightarrow> fat_entry s2 d = (if d = x then 0 else fat_entry s1 d)"
    by (rule put_fat_ok [OF s1(2)]) (use e f1 in auto)
  have f2: "fat s2 = fat s" using io_step_fat(1) [OF s2(3)] f1 by simp
  have "fchain s2 (fat_entry s x) xs"
    by (rule fchain_cong [OF x(3) f2])
      (use s2(4) fe1 f1 nx fchain_data [OF x(3)] in \<open>auto simp: data_clus_def\<close>)
  then obtain s' where s': "etrunc_loop f (fat_entry s x) s2 = Inr s'" "fat_ok p s'" "io_step s2 s'"
    "\<forall>d. entry (fat s2) d \<longrightarrow> fat_entry s' d = (if d \<in> set xs then 0 else fat_entry s2 d)"
    using Cons.IH [OF s2(2), of "fat_entry s x" f] Cons.prems(3) f by auto
  have "etrunc_loop fuel c s = Inr s'"
    using data_clus_lt [OF g x(2)] s1(1) s2(1) s'(1)
    by (subst etrunc_loop.simps) (simp add: f x(1) free_clus_def)
  moreover have "\<forall>d. entry (fat s) d \<longrightarrow> fat_entry s' d = (if d \<in> set (x # xs) then 0 else fat_entry s d)"
    using s'(4) s2(4) nx by (simp add: f1 f2 fe1)
  ultimately show ?case
    using s'(2) io_step_trans [OF io_step_trans [OF s1(4) s2(3)] s'(3)] by blast
qed

end
