(* ===== verification/FatFile.thy ===== *)
theory FatFile imports FatData begin

text \<open>
  Files as byte sequences: \<open>reloc_clus\<close> finds the cluster of an offset, \<open>eread\<close> reads the bytes of the
  chain, \<open>ewrite\<close> replaces them, \<open>etrunc\<close> frees the chain.
\<close>

section \<open>Changes of the entry\<close>

lemma upd_ent_simps [simp]:
  "fat (upd_ent e f s) = fat s" "sectors (upd_ent e f s) = sectors s" "core (upd_ent e f s) = core s"
  "dirents (upd_ent e f s) = (dirents s)(e := f (dirents s e))" "mem (upd_ent e f s) = mem s"
  "procs (upd_ent e f s) = procs s" "slocks (upd_ent e f s) = slocks s"
  "ent_next (upd_ent e f s) = ent_next s" "ent_prev (upd_ent e f s) = ent_prev s"
  "quiet p dv (upd_ent e f s) = quiet p dv s" "fat_ok p (upd_ent e f s) = fat_ok p s"
  "fat_entry (upd_ent e f s) = fat_entry s" "cluster_data (upd_ent e f s) = cluster_data s"
  by (simp_all add: upd_ent_def quiet_def cache_ok_def ring_def running_def buf_ok_def held_def in_use_def fat_ok_def
      fat_entry_def [abs_def] cluster_data_def [abs_def])

lemma fchain_upd [simp]: "fchain (upd_ent e f s) c xs = fchain s c xs"
  by (induction xs arbitrary: c) simp_all

lemma upd_ent_upd [simp]: "upd_ent e f (upd_ent e g s) = upd_ent e (\<lambda>d. f (g d)) s"
  by (simp add: upd_ent_def)

lemma upd_ent_id: "f (dirents s e) = dirents s e \<Longrightarrow> upd_ent e f s = s"
  by (simp add: upd_ent_def fun_upd_idem)

lemma upd_ent_cong: "f (dirents s e) = g (dirents s e) \<Longrightarrow> upd_ent e f s = upd_ent e g s"
  by (simp add: upd_ent_def)

lemma io_step_upd_ent: "io_step s t \<Longrightarrow> io_step (upd_ent e f s) (upd_ent e f t)"
proof -
  assume "io_step s t"
  then obtain c ps sl bf nx pv sec where t: "t = s\<lparr>core := c, procs := ps, slocks := sl, bufs := bf, bnext := nx,
      bprev := pv, sectors := sec\<rparr>" "settle c = settle (core s)"
      "\<forall>i. ps i = procs s i \<or> ps i = (procs s i)\<lparr>pstate := RUNNABLE\<rparr>" "\<forall>k. \<not> buf_lock k \<longrightarrow> sl k = slocks s k"
    unfolding io_step_def by blast
  show ?thesis
    by (rule io_stepI [where c = c and ps = ps and sl = sl and bf = bf and nx = nx and pv = pv and sec = sec]) (use t in \<open>simp_all add: upd_ent_def\<close>)
qed

lemma io_step_same_ent: "io_step s t \<Longrightarrow> upd_ent e (\<lambda>_. g (dirents t e)) t = upd_ent e g t"
  by (rule upd_ent_cong) simp

section \<open>Finding the cluster\<close>

lemma fchain_nth:
  "fchain s c xs \<Longrightarrow> Suc i < length xs \<Longrightarrow> fat_entry s (xs ! i) = xs ! Suc i"
proof (induction xs arbitrary: c i)
  case (Cons x xs)
  then show ?case by (cases i; cases xs) auto
qed simp

lemma fchain_hd: "fchain s c xs \<Longrightarrow> xs \<noteq> [] \<Longrightarrow> c = hd xs"
  by (cases xs) auto

lemma sint_small:
  fixes c :: u32
  assumes "c < FAT32_EOC + 8"
  shows "sint c = uint c"
proof -
  have "uint c < 2 ^ 31" using assms by (simp add: FAT32_EOC_def word_less_def)
  moreover have "- (2 ^ 31) \<le> uint c" by (rule order_trans [of _ 0]) simp_all
  ultimately show ?thesis unfolding sint_uint by (intro signed_take_bit_int_eq_self) simp_all
qed

lemma not_eoc:
  assumes "geom f" and "data_clus f c"
  shows "\<not> sint FAT32_EOC \<le> sint c" and "\<not> FAT32_EOC \<le> c"
proof -
  have c: "c < FAT32_EOC" using data_clus_lt [OF assms] by simp
  then have "c < FAT32_EOC + 8" "uint c < uint FAT32_EOC" by (simp_all add: FAT32_EOC_def word_less_def)
  moreover have "sint FAT32_EOC = uint FAT32_EOC" by (rule sint_small) (simp add: FAT32_EOC_def)
  ultimately show "\<not> sint FAT32_EOC \<le> sint c" using sint_small [of c] by simp
  show "\<not> FAT32_EOC \<le> c" using c by simp
qed

definition at_clus :: "u32 \<Rightarrow> u32 \<Rightarrow> dirent \<Rightarrow> dirent" where
  "at_clus c i d = d\<lparr>cur_clus := c, clus_cnt := i\<rparr>"

lemma reloc_forward_ok:
  assumes "fat_ok p s" and "fchain s c xs" and "i + k < length xs"
    and "cur_clus (dirents s e) = xs ! i" and "clus_cnt (dirents s e) = of_nat i"
  shows "\<exists>s'. reloc_forward k e alloc s = Inr (True, s') \<and> fat_ok p s' \<and> sectors s' = sectors s
    \<and> io_step (upd_ent e (at_clus (xs ! (i + k)) (of_nat (i + k))) s) s'"
  using assms
proof (induction k arbitrary: i s)
  case 0
  have "at_clus (xs ! i) (of_nat i) (dirents s e) = dirents s e"
    using 0(4,5) by (cases "dirents s e") (simp add: at_clus_def)
  then show ?case using 0(1) by (intro exI [of _ s]) (simp add: upd_ent_id)
next
  case (Suc k)
  have x: "xs ! i \<in> set xs" "xs ! Suc i \<in> set xs" using Suc.prems(3) by simp_all
  have d: "data_clus (fat s) (xs ! i)" "data_clus (fat s) (xs ! Suc i)"
    using fchain_data [OF Suc.prems(2)] x by blast+
  then have e: "entry (fat s) (xs ! i)" by (simp add: data_clus_def)
  obtain s1 where s1: "read_fat (xs ! i) s = Inr (fat_entry s (xs ! i), s1)" "fat_ok p s1" "sectors s1 = sectors s"
    "io_step s s1"
    by (rule read_fat_ok [OF Suc.prems(1) e])
  have nx: "fat_entry s (xs ! i) = xs ! Suc i" by (rule fchain_nth [OF Suc.prems(2)]) (use Suc.prems(3) in simp)
  note f1 = io_step_fat [OF s1(4)]
  let ?s = "upd_ent e (\<lambda>d. d\<lparr>cur_clus := xs ! Suc i, clus_cnt := clus_cnt d + 1\<rparr>) s1"
  have fe: "fat_entry s1 = fat_entry s" by (simp add: fat_entry_def [abs_def] f1 s1(3))
  have "fchain ?s c xs" by (rule fchain_cong [OF Suc.prems(2)]) (simp_all add: f1 fe)
  then obtain s' where s': "reloc_forward k e alloc ?s = Inr (True, s')" "fat_ok p s'" "sectors s' = sectors ?s"
    "io_step (upd_ent e (at_clus (xs ! (Suc i + k)) (of_nat (Suc i + k))) ?s) s'"
    using Suc.IH [of ?s "Suc i"] Suc.prems(3-5) s1(2) by (auto simp: f1)
  have "reloc_forward (Suc k) e alloc s = Inr (True, s')"
    using s1(1) nx s'(1) not_eoc(1) [OF fat_okD(2) [OF Suc.prems(1)] d(2)] Suc.prems(4) by (simp add: Let_def)
  moreover have "io_step (upd_ent e (at_clus (xs ! (i + Suc k)) (of_nat (i + Suc k))) s) s'"
    using io_step_trans [OF io_step_upd_ent [OF s1(4)]] s'(4) by (simp add: at_clus_def [abs_def])
  ultimately show ?case using s'(2,3) s1(3) by auto
qed

lemma reloc_again_ok:
  assumes "fat_ok p s" and "fchain s c xs" and "i + k < length xs"
    and "cur_clus (dirents s e) = xs ! i" and "clus_cnt (dirents s e) = of_nat i"
  shows "\<exists>s'. reloc_again k e s = Inr s' \<and> fat_ok p s' \<and> sectors s' = sectors s
    \<and> io_step (upd_ent e (at_clus (xs ! (i + k)) (of_nat (i + k))) s) s'"
  using assms
proof (induction k arbitrary: i s)
  case 0
  have "at_clus (xs ! i) (of_nat i) (dirents s e) = dirents s e"
    using 0(4,5) by (cases "dirents s e") (simp add: at_clus_def)
  then show ?case using 0(1) by (intro exI [of _ s]) (simp add: upd_ent_id)
next
  case (Suc k)
  have x: "xs ! i \<in> set xs" "xs ! Suc i \<in> set xs" using Suc.prems(3) by simp_all
  have d: "data_clus (fat s) (xs ! i)" "data_clus (fat s) (xs ! Suc i)"
    using fchain_data [OF Suc.prems(2)] x by blast+
  then have e: "entry (fat s) (xs ! i)" by (simp add: data_clus_def)
  obtain s1 where s1: "read_fat (xs ! i) s = Inr (fat_entry s (xs ! i), s1)" "fat_ok p s1" "sectors s1 = sectors s"
    "io_step s s1"
    by (rule read_fat_ok [OF Suc.prems(1) e])
  have nx: "fat_entry s (xs ! i) = xs ! Suc i" by (rule fchain_nth [OF Suc.prems(2)]) (use Suc.prems(3) in simp)
  note f1 = io_step_fat [OF s1(4)]
  let ?s = "upd_ent e (\<lambda>d. d\<lparr>cur_clus := xs ! Suc i, clus_cnt := clus_cnt d + 1\<rparr>) s1"
  have fe: "fat_entry s1 = fat_entry s" by (simp add: fat_entry_def [abs_def] f1 s1(3))
  have "fchain ?s c xs" by (rule fchain_cong [OF Suc.prems(2)]) (simp_all add: f1 fe)
  then obtain s' where s': "reloc_again k e ?s = Inr s'" "fat_ok p s'" "sectors s' = sectors ?s"
    "io_step (upd_ent e (at_clus (xs ! (Suc i + k)) (of_nat (Suc i + k))) ?s) s'"
    using Suc.IH [of ?s "Suc i"] Suc.prems(3-5) s1(2) by (auto simp: f1)
  have "reloc_again (Suc k) e s = Inr s'"
    using s1(1) nx s'(1) not_eoc(2) [OF fat_okD(2) [OF Suc.prems(1)] d(2)] Suc.prems(4) by (simp add: Let_def)
  moreover have "io_step (upd_ent e (at_clus (xs ! (i + Suc k)) (of_nat (i + Suc k))) s) s'"
    using io_step_trans [OF io_step_upd_ent [OF s1(4)]] s'(4) by (simp add: at_clus_def [abs_def])
  ultimately show ?case using s'(2,3) s1(3) by auto
qed

definition on_chain :: "'a fat_st_scheme \<Rightarrow> eptr \<Rightarrow> u32 list \<Rightarrow> bool" where
  "on_chain s e xs \<longleftrightarrow> fchain s (first_clus (dirents s e)) xs
    \<and> unat (clus_cnt (dirents s e)) < length xs \<and> cur_clus (dirents s e) = xs ! unat (clus_cnt (dirents s e))"

lemma geom_bpc:
  assumes "geom f"
  shows "unat (byts_per_clus f) = unat (sec_per_clus f) * 512" and "0 < byts_per_clus f"
    and "unat (byts_per_clus f) < 2 ^ 17"
proof -
  have sp: "unat (ucast (sec_per_clus f) :: u32) = unat (sec_per_clus f)" by (rule unat_ucast_up) simp
  have l: "unat (sec_per_clus f) < 256" using unsigned_less [of "sec_per_clus f", where ?'a = nat] by simp
  then show b: "unat (byts_per_clus f) = unat (sec_per_clus f) * 512"
    using assms sp by (simp add: geom_def unat_word_ariths)
  have "0 < unat (sec_per_clus f)" using assms by (simp add: geom_def unat_gt_0)
  then show "0 < byts_per_clus f" using b by (simp add: word_less_nat_alt)
  show "unat (byts_per_clus f) < 2 ^ 17" using b l by simp
qed

lemma reloc_clus_ok:
  assumes "fat_ok p s" and "on_chain s e xs" and "unat off div unat (byts_per_clus (fat s)) < length xs"
  defines "q \<equiv> off div byts_per_clus (fat s)"
  shows "\<exists>s'. reloc_clus e off alloc s = Inr (off mod byts_per_clus (fat s), s') \<and> fat_ok p s' \<and> sectors s' = sectors s
    \<and> io_step (upd_ent e (at_clus (xs ! unat q) q) s) s'"
proof -
  let ?d = "dirents s e"
  have ch: "fchain s (first_clus ?d) xs" and i: "unat (clus_cnt ?d) < length xs"
    and cur: "cur_clus ?d = xs ! unat (clus_cnt ?d)" using assms(2) by (simp_all add: on_chain_def)
  have uq: "unat q = unat off div unat (byts_per_clus (fat s))" by (simp add: q_def unat_div)
  have ql: "unat q < length xs" using uq assms(3) by simp
  let ?k = "unat q - unat (clus_cnt ?d)"
  have "unat (clus_cnt ?d) + ?k < length xs" using i ql by auto
  then obtain s1 where s1: "reloc_forward ?k e alloc s = Inr (True, s1)" "fat_ok p s1" "sectors s1 = sectors s"
    "io_step (upd_ent e (at_clus (xs ! (unat (clus_cnt ?d) + ?k)) (of_nat (unat (clus_cnt ?d) + ?k))) s) s1"
    using reloc_forward_ok [OF assms(1) ch _ cur] by auto
  note f1 = io_step_fat [OF s1(4), simplified]
  show ?thesis
  proof (cases "q < clus_cnt ?d")
    case False
    then have k: "unat (clus_cnt ?d) + ?k = unat q" by (simp add: word_less_nat_alt)
    have "clus_cnt (dirents s1 e) = q" using f1(2) k by (simp add: at_clus_def)
    then have "reloc_clus e off alloc s = Inr (off mod byts_per_clus (fat s), s1)"
      using s1(1) f1(1) by (simp add: reloc_clus_def Let_def q_def [symmetric])
    moreover have "of_nat (unat (clus_cnt ?d) + ?k) = q" unfolding k by simp
    ultimately show ?thesis using s1 k by auto
  next
    case True
    then have "?k = 0" by (simp add: word_less_nat_alt)
    then have st: "io_step (upd_ent e (at_clus (cur_clus ?d) (clus_cnt ?d)) s) s1" using s1(4) cur by simp
    let ?s = "upd_ent e (\<lambda>d. d\<lparr>cur_clus := first_clus d, clus_cnt := 0\<rparr>) s1"
    have d1: "first_clus (dirents s1 e) = first_clus ?d" "clus_cnt (dirents s1 e) = clus_cnt ?d"
      using f1(2) \<open>?k = 0\<close> by (simp_all add: at_clus_def)
    have fe: "fat_entry s1 = fat_entry s" by (simp add: fat_entry_def [abs_def] f1(1) s1(3))
    have "fchain ?s (first_clus ?d) xs" by (rule fchain_cong [OF ch]) (simp_all add: f1(1) fe)
    moreover have ne: "xs \<noteq> []" using ql by auto
    moreover have "first_clus ?d = xs ! 0" using fchain_hd [OF ch ne] ne by (simp add: hd_conv_nth)
    ultimately obtain s2 where s2: "reloc_again (unat q) e ?s = Inr s2" "fat_ok p s2" "sectors s2 = sectors ?s"
      "io_step (upd_ent e (at_clus (xs ! (0 + unat q)) (of_nat (0 + unat q))) ?s) s2"
      using reloc_again_ok [of p ?s "first_clus ?d" xs 0 "unat q" e] s1(2) ql d1 by auto
    have "reloc_clus e off alloc s = Inr (off mod byts_per_clus (fat s), s2)"
      using s1(1) s2(1) True d1(2) io_step_fat(1) [OF s2(4)] f1(1)
      by (simp add: reloc_clus_def Let_def q_def [symmetric])
    moreover have "io_step (upd_ent e (at_clus (xs ! unat q) q) s) s2"
    proof -
      have "io_step (upd_ent e (at_clus (xs ! unat q) q) (upd_ent e (at_clus (cur_clus ?d) (clus_cnt ?d)) s))
          (upd_ent e (at_clus (xs ! unat q) q) s1)" by (rule io_step_upd_ent [OF st])
      then show ?thesis using s2(4) io_step_trans by (fastforce simp: at_clus_def [abs_def])
    qed
    ultimately show ?thesis using s2(2,3) s1(3) by auto
  qed
qed

section \<open>Reading\<close>

definition file_bytes :: "'a fat_st_scheme \<Rightarrow> u32 list \<Rightarrow> u8 list" where
  "file_bytes s xs = concat (map (cluster_data s) xs)"

lemma file_bytes_nth: "file_bytes s xs = concat (map (\<lambda>i. cluster_data s (xs ! i)) [0..<length xs])"
proof -
  have "map (cluster_data s) xs = map (\<lambda>i. cluster_data s (xs ! i)) [0..<length xs]"
    by (rule nth_equalityI) simp_all
  then show ?thesis by (simp add: file_bytes_def)
qed

definition ent_step :: "eptr \<Rightarrow> 'a fat_st_scheme \<Rightarrow> 'a fat_st_scheme \<Rightarrow> bool" where
  "ent_step e s s' \<longleftrightarrow> (\<exists>c i. io_step (upd_ent e (at_clus c i) s) s')"

lemma ent_step_refl: "ent_step e s s"
proof -
  have "upd_ent e (at_clus (cur_clus (dirents s e)) (clus_cnt (dirents s e))) s = s"
    by (rule upd_ent_id) (simp add: at_clus_def)
  then show ?thesis unfolding ent_step_def by (metis io_step_refl)
qed

lemma ent_step_trans:
  assumes "ent_step e s t" and "ent_step e t u"
  shows "ent_step e s u"
proof -
  obtain c i where a: "io_step (upd_ent e (at_clus c i) s) t" using assms(1) by (auto simp: ent_step_def)
  obtain c' i' where b: "io_step (upd_ent e (at_clus c' i') t) u" using assms(2) by (auto simp: ent_step_def)
  have "io_step (upd_ent e (at_clus c' i') (upd_ent e (at_clus c i) s)) u"
    by (rule io_step_trans [OF io_step_upd_ent [OF a] b])
  then show ?thesis unfolding ent_step_def by (auto simp: at_clus_def [abs_def])
qed

lemma ent_step_io: "io_step s t \<Longrightarrow> ent_step e s t"
  using ent_step_refl [of e s] io_step_trans unfolding ent_step_def by blast

lemma ent_step_keeps:
  assumes "ent_step e s s'"
  shows "fat s' = fat s" and "j \<noteq> e \<Longrightarrow> dirents s' j = dirents s j" and "first_clus (dirents s' e) = first_clus (dirents s e)"
    and "file_size (dirents s' e) = file_size (dirents s e)" and "attribute (dirents s' e) = attribute (dirents s e)"
    and "edev (dirents s' e) = edev (dirents s e)"
proof -
  obtain c i where a: "io_step (upd_ent e (at_clus c i) s) s'" using assms by (auto simp: ent_step_def)
  note f = io_step_fat [OF a]
  show "fat s' = fat s" "j \<noteq> e \<Longrightarrow> dirents s' j = dirents s j" "first_clus (dirents s' e) = first_clus (dirents s e)"
    "file_size (dirents s' e) = file_size (dirents s e)" "attribute (dirents s' e) = attribute (dirents s e)"
    "edev (dirents s' e) = edev (dirents s e)"
    using f by (simp_all add: at_clus_def)
qed

text \<open>\<open>reloc_clus\<close> inside the chain, as a step of a file operation.\<close>

lemma reloc_step:
  assumes "fat_ok p s" and "on_chain s e xs" and "unat off div unat (byts_per_clus (fat s)) < length xs"
  obtains s' where "reloc_clus e off alloc s = Inr (off mod byts_per_clus (fat s), s')" and "fat_ok p s'"
    and "sectors s' = sectors s" and "ent_step e s s'" and "on_chain s' e xs"
    and "cur_clus (dirents s' e) = xs ! (unat off div unat (byts_per_clus (fat s)))"
proof -
  let ?q = "off div byts_per_clus (fat s)"
  obtain s' where s': "reloc_clus e off alloc s = Inr (off mod byts_per_clus (fat s), s')" "fat_ok p s'"
    "sectors s' = sectors s" "io_step (upd_ent e (at_clus (xs ! unat ?q) ?q) s) s'"
    using reloc_clus_ok [OF assms, of alloc] by blast
  note f = io_step_fat [OF s'(4), simplified]
  have uq: "unat ?q = unat off div unat (byts_per_clus (fat s))" by (simp add: unat_div)
  have "fchain s' (first_clus (dirents s e)) xs"
    by (rule fchain_cong [of s]) (use assms(2) f s'(3) in \<open>simp_all add: on_chain_def fat_entry_def\<close>)
  then have "on_chain s' e xs" using f(2) assms(3) uq by (simp add: on_chain_def at_clus_def)
  moreover have "cur_clus (dirents s' e) = xs ! (unat off div unat (byts_per_clus (fat s)))"
    using f(2) uq by (simp add: at_clus_def)
  ultimately show ?thesis using that s' by (auto simp: ent_step_def)
qed

lemma clus_chunk_arith:
  fixes off tot n bpc :: u32
  assumes "tot < n" and "0 < bpc" and "unat off + unat (n - tot) < 2 ^ 32"
  defines "m \<equiv> clus_chunk bpc off (n - tot)"
  shows "unat m = min (unat (n - tot)) (unat bpc - unat off mod unat bpc)" and "tot + m \<le> n"
    and "unat (tot + m) = unat tot + unat m" and "unat (n - (tot + m)) = unat (n - tot) - unat m"
    and "0 < unat m" and "unat (off + m) = unat off + unat m" and "unat (off mod bpc) = unat off mod unat bpc"
proof -
  show o: "unat (off mod bpc) = unat off mod unat bpc" by (simp add: unat_mod)
  have b: "0 < unat bpc" using assms(2) by (simp add: word_less_nat_alt)
  have "off mod bpc \<le> bpc" unfolding word_le_nat_alt o using mod_less_divisor [OF b, of "unat off"] by simp
  then have s: "unat (bpc - off mod bpc) = unat bpc - unat off mod unat bpc" using o by (simp add: unat_sub)
  have lt: "unat tot < unat n" using assms(1) by (simp add: word_less_nat_alt)
  have nt: "unat (n - tot) = unat n - unat tot" using assms(1) by (intro unat_sub) simp
  show m: "unat m = min (unat (n - tot)) (unat bpc - unat off mod unat bpc)"
    using s by (auto simp: m_def clus_chunk_def word_less_nat_alt not_less)
  have bn: "unat n < 2 ^ 32" using unsigned_less [of n, where ?'a = nat] by simp
  have mle: "unat m \<le> unat n - unat tot" using m nt by simp
  show t: "unat (tot + m) = unat tot + unat m"
    by (rule unat_add_no_wrap) (use mle lt bn in simp)
  show tl: "tot + m \<le> n" unfolding word_le_nat_alt t using mle lt by simp
  show "unat (n - (tot + m)) = unat (n - tot) - unat m" using t tl nt by (simp add: unat_sub)
  show "0 < unat m" using m nt lt mod_less_divisor [OF b, of "unat off"] by simp
  show "unat (off + m) = unat off + unat m"
    by (rule unat_add_no_wrap) (use assms(3) mle nt in simp)
qed

lemma eread_loop_ok:
  assumes "fat_ok p s" and "on_chain s e xs" and "tot \<le> n" and "unat (n - tot) \<le> fuel"
    and "unat off + unat (n - tot) \<le> length xs * unat (byts_per_clus (fat s))"
    and "unat off + unat (n - tot) < 2 ^ 32"
  shows "\<exists>s'. eread_loop fuel e (Obj z) off tot n s
      = Inr (n, take (unat (n - tot)) (drop (unat off) (file_bytes s xs)), s')
    \<and> fat_ok p s' \<and> sectors s' = sectors s \<and> ent_step e s s' \<and> on_chain s' e xs"
  using assms
proof (induction fuel arbitrary: s off tot)
  case 0
  then have "tot = n" by (simp add: unat_eq_zero)
  then show ?case using 0 ent_step_refl by (intro exI [of _ s]) (simp add: eread_loop.simps)
next
  case (Suc fuel)
  let ?b = "byts_per_clus (fat s)"
  show ?case
  proof (cases "tot < n")
    case False
    then have "tot = n" using Suc.prems(3) by simp
    then show ?thesis using Suc.prems ent_step_refl by (intro exI [of _ s]) (simp add: eread_loop.simps)
  next
    case True
    note g = fat_okD(2) [OF Suc.prems(1)] and gb = geom_bpc [OF fat_okD(2) [OF Suc.prems(1)]]
    define m where "m = clus_chunk ?b off (n - tot)"
    note a = clus_chunk_arith [OF True gb(2) Suc.prems(6), folded m_def]
    let ?q = "unat off div unat ?b"
    have b0: "0 < unat ?b" using gb(2) by (simp add: word_less_nat_alt)
    have ml: "unat m \<le> unat (n - tot)" using a(1) by simp
    have ol: "unat off < length xs * unat ?b" using Suc.prems(5) ml a(5) by linarith
    then have q: "?q < length xs" by (simp add: less_mult_imp_div_less)
    obtain s1 where s1: "reloc_clus e off False s = Inr (off mod ?b, s1)" "fat_ok p s1" "sectors s1 = sectors s"
      "ent_step e s s1" "on_chain s1 e xs" "cur_clus (dirents s1 e) = xs ! ?q"
      by (rule reloc_step [OF Suc.prems(1,2) q])
    have f1: "fat s1 = fat s" by (rule ent_step_keeps(1) [OF s1(4)])
    have cd1: "cluster_data s1 = cluster_data s" by (simp add: cluster_data_def [abs_def] f1 s1(3))
    have fit: "unat (off mod ?b) + unat m \<le> unat (sec_per_clus (fat s1)) * 512"
      using a(1,7) gb(1) mod_less_divisor [OF b0, of "unat off"] f1 by simp
    obtain s2 where s2: "rw_clus (xs ! ?q) False (loc_at (Obj z) (unat tot)) (off mod ?b) m s1
        = Inr (m, take (unat m) (drop (unat (off mod ?b)) (cluster_data s1 (xs ! ?q))), s2)"
      "fat_ok p s2" "sectors s2 = sectors s1" "io_step s1 s2"
      using rw_clus_read [OF s1(2) fit, of "xs ! ?q" "drop (unat tot) z"] by (auto simp: loc_at_def)
    note f2 = io_step_fat [OF s2(4)]
    have cd2: "cluster_data s2 = cluster_data s" using cd1 by (simp add: cluster_data_def [abs_def] f1 f2(1) s2(3) s1(3))
    have oc2: "on_chain s2 e xs"
    proof -
      have "fchain s2 (first_clus (dirents s1 e)) xs"
        by (rule fchain_cong [of s1]) (use s1(5) f2(1) s2(3) in \<open>simp_all add: on_chain_def fat_entry_def\<close>)
      then show ?thesis using s1(5) f2(2) by (simp add: on_chain_def)
    qed
    have piece: "take (unat m) (drop (unat (off mod ?b)) (cluster_data s1 (xs ! ?q)))
        = take (unat m) (drop (unat off) (file_bytes s xs))"
      unfolding file_bytes_nth a(7) cd1
      by (rule concat_piece [symmetric]) (use cluster_data_props(1) [OF Suc.prems(1)] gb(1) ol a(1) in auto)
    have "unat (n - (tot + m)) \<le> fuel" using a(4,5) ml Suc.prems(4) by linarith
    moreover have "unat (off + m) + unat (n - (tot + m)) \<le> length xs * unat (byts_per_clus (fat s2))"
      "unat (off + m) + unat (n - (tot + m)) < 2 ^ 32"
      using a(4,6) ml Suc.prems(5,6) f1 f2(1) by simp_all
    ultimately obtain s' where s': "eread_loop fuel e (Obj z) (off + m) (tot + m) n s2
        = Inr (n, take (unat (n - (tot + m))) (drop (unat (off + m)) (file_bytes s2 xs)), s')"
      "fat_ok p s'" "sectors s' = sectors s2" "ent_step e s2 s'" "on_chain s' e xs"
      using Suc.IH [OF s2(2) oc2 a(2)] by blast
    have fb: "file_bytes s2 xs = file_bytes s xs" by (simp add: file_bytes_def cd2)
    have tk: "take (unat (n - tot)) (drop (unat off) (file_bytes s xs))
        = take (unat m) (drop (unat off) (file_bytes s xs))
          @ take (unat (n - (tot + m))) (drop (unat (off + m)) (file_bytes s xs))"
      using take_add [of "unat m" "unat (n - (tot + m))" "drop (unat off) (file_bytes s xs)"] a(4,6) ml
      by (simp add: add.commute)
    have "cur_clus (dirents s e) \<in> set xs" using Suc.prems(2) by (simp add: on_chain_def)
    then have "cur_clus (dirents s e) < FAT32_EOC"
      using Suc.prems(2) fchain_data data_clus_lt [OF g] unfolding on_chain_def by metis
    then have "eread_loop (Suc fuel) e (Obj z) off tot n s
        = Inr (n, take (unat (n - tot)) (drop (unat off) (file_bytes s xs)), s')"
      using True s1(1,6) s2(1) s'(1)
      by (subst eread_loop.simps) (simp add: Let_def f1 m_def [symmetric] piece fb tk)
    moreover have "ent_step e s s'"
      by (rule ent_step_trans [OF s1(4) ent_step_trans [OF ent_step_io [OF s2(4)] s'(4)]])
    ultimately show ?thesis using s' s1(3) s2(3) by auto
  qed
qed

section \<open>Writing\<close>

lemma file_bytes_update:
  assumes "distinct xs" and "\<And>c. length (cluster_data s c) = w" and "q < length xs" and "r + length bs \<le> w"
    and "cluster_data s' (xs ! q) = splice r bs (cluster_data s (xs ! q))"
    and "\<And>c. c \<in> set xs \<Longrightarrow> c \<noteq> xs ! q \<Longrightarrow> cluster_data s' c = cluster_data s c"
  shows "file_bytes s' xs = splice (q * w + r) bs (file_bytes s xs)"
  unfolding file_bytes_nth
proof (rule concat_splice)
  show "cluster_data s' (xs ! i) = (if i = q then splice r bs (cluster_data s (xs ! i)) else cluster_data s (xs ! i))"
    if "i < length xs" for i
    using assms(1,3,5,6) that by (auto simp: nth_eq_iff_index_eq)
qed (use assms in auto)

lemma length_file_bytes:
  assumes "fat_ok p s"
  shows "length (file_bytes s xs) = length xs * unat (byts_per_clus (fat s))"
  unfolding file_bytes_nth
  by (rule concat_chunks(1)) (use cluster_data_props(1) [OF assms] geom_bpc(1) [OF fat_okD(2) [OF assms]] in simp)

text \<open>Only the first \<open>n\<close> bytes of the object matter.\<close>

lemma rw_loop_take:
  fixes s :: "'a bio_st_scheme"
  shows "tot \<le> n \<Longrightarrow> rw_loop w (Obj bs) sec off tot n s = rw_loop w (Obj (take (unat n) bs)) sec off tot n s"
proof (induction "unat (n - tot)" arbitrary: sec off tot s rule: less_induct)
  case less
  show ?case
  proof (cases "tot < n")
    case False
    then show ?thesis by (simp add: rw_loop.simps)
  next
    case True
    let ?m = "chunk off (n - tot)"
    note a = rw_step_arith(2,3) [OF True refl, of off]
    have IH: "rw_loop w (Obj bs) sec' off' (tot + ?m) n t = rw_loop w (Obj (take (unat n) bs)) sec' off' (tot + ?m) n t"
      for sec' off' and t :: "'a bio_st_scheme"
      by (rule less.hyps) (use chunk_decr [OF True] a in auto)
    have "unat tot + unat ?m \<le> unat n" using a by (simp add: word_le_nat_alt)
    then have ci: "copy_in (Obj (take (unat n) bs)) (unat tot) (unat ?m) t = copy_in (Obj bs) (unat tot) (unat ?m) t" for t
      by (simp add: take_drop min_def add.commute)
    show ?thesis
      unfolding rw_loop.simps [of w "Obj bs" sec off tot n s] rw_loop.simps [of w "Obj (take (unat n) bs)" sec off tot n s]
        Let_def IH ci copy_out.simps ..
  qed
qed

lemma rw_clus_take: "rw_clus c w (Obj bs) off n s = rw_clus c w (Obj (take (unat n) bs)) off n s"
  by (simp add: rw_clus_def Let_def rw_loop_take [of 0 n w bs])

lemma ewrite_loop_ok:
  assumes "fat_ok p s" and "on_chain s e xs" and "tot \<le> n" and "unat (n - tot) \<le> fuel"
    and "unat off + unat (n - tot) \<le> length xs * unat (byts_per_clus (fat s))"
    and "unat off + unat (n - tot) < 2 ^ 32" and "length bs = unat n"
  shows "\<exists>s'. ewrite_loop fuel e (Obj bs) off tot n s = Inr (n, off + (n - tot), s')
    \<and> fat_ok p s' \<and> ent_step e s s' \<and> on_chain s' e xs
    \<and> file_bytes s' xs = splice (unat off) (drop (unat tot) bs) (file_bytes s xs)
    \<and> (\<forall>d. entry (fat s) d \<longrightarrow> fat_entry s' d = fat_entry s d)
    \<and> (\<forall>d. data_clus (fat s) d \<longrightarrow> d \<notin> set xs \<longrightarrow> cluster_data s' d = cluster_data s d)"
  using assms
proof (induction fuel arbitrary: s off tot)
  case 0
  then have "tot = n" by (simp add: unat_eq_zero)
  then show ?case using 0 ent_step_refl by (intro exI [of _ s]) (simp add: ewrite_loop.simps splice_def)
next
  case (Suc fuel)
  let ?b = "byts_per_clus (fat s)"
  show ?case
  proof (cases "tot < n")
    case False
    then have "tot = n" using Suc.prems(3) by simp
    then show ?thesis using Suc.prems ent_step_refl
      by (intro exI [of _ s]) (simp add: ewrite_loop.simps splice_def)
  next
    case True
    note gb = geom_bpc [OF fat_okD(2) [OF Suc.prems(1)]]
    define m where "m = clus_chunk ?b off (n - tot)"
    note a = clus_chunk_arith [OF True gb(2) Suc.prems(6), folded m_def]
    let ?q = "unat off div unat ?b"
    let ?bs = "take (unat m) (drop (unat tot) bs)"
    have b0: "0 < unat ?b" using gb(2) by (simp add: word_less_nat_alt)
    have ml: "unat m \<le> unat (n - tot)" using a(1) by simp
    have nt: "unat (n - tot) = unat n - unat tot" using True by (intro unat_sub) simp
    have lb: "length ?bs = unat m" using Suc.prems(7) ml nt by simp
    have ol: "unat off < length xs * unat ?b" using Suc.prems(5) ml a(5) by linarith
    then have q: "?q < length xs" by (simp add: less_mult_imp_div_less)
    obtain s1 where s1: "reloc_clus e off True s = Inr (off mod ?b, s1)" "fat_ok p s1" "sectors s1 = sectors s"
      "ent_step e s s1" "on_chain s1 e xs" "cur_clus (dirents s1 e) = xs ! ?q"
      by (rule reloc_step [OF Suc.prems(1,2) q])
    have f1: "fat s1 = fat s" by (rule ent_step_keeps(1) [OF s1(4)])
    have cd1: "cluster_data s1 = cluster_data s" and fe1: "fat_entry s1 = fat_entry s"
      by (simp_all add: cluster_data_def [abs_def] fat_entry_def [abs_def] f1 s1(3))
    have fit: "unat (off mod ?b) + unat m \<le> unat (sec_per_clus (fat s1)) * 512"
      using a(1,7) gb(1) mod_less_divisor [OF b0, of "unat off"] f1 by simp
    have ch: "fchain s1 (first_clus (dirents s1 e)) xs" using s1(5) by (simp add: on_chain_def)
    have dq: "data_clus (fat s1) (xs ! ?q)" by (rule fchain_data [OF ch]) (use q in simp)
    have lo: "loc_at (Obj bs) (unat tot) = Obj (drop (unat tot) bs)" by (simp add: loc_at_def)
    obtain s2 r where s2: "rw_clus (xs ! ?q) True (Obj ?bs) (off mod ?b) m s1 = Inr (m, r, s2)"
      "fat_ok p s2" "io_step s1 s2"
      "cluster_data s2 (xs ! ?q) = splice (unat (off mod ?b)) ?bs (cluster_data s1 (xs ! ?q))"
      "\<And>y. (\<forall>i<unat (sec_per_clus (fat s1)). y \<noteq> clus_sec (fat s1) (xs ! ?q) i) \<Longrightarrow> sectors s2 y = sectors s1 y"
      by (rule rw_clus_write [OF s1(2) fit dq lb]) blast
    note f2 = io_step_fat [OF s2(3)]
    note w = write_elsewhere [OF s1(2) dq f2(1) s2(5), unfolded f1 fe1 cd1]
    have oc2: "on_chain s2 e xs"
    proof -
      have "fchain s2 (first_clus (dirents s1 e)) xs"
        by (rule fchain_cong [OF ch f2(1)]) (use w(1) fchain_data [OF ch] f1 fe1 in \<open>simp add: data_clus_def\<close>)
      then show ?thesis using s1(5) f2(2) by (simp add: on_chain_def)
    qed
    have fb2: "file_bytes s2 xs = splice (unat off) ?bs (file_bytes s xs)"
    proof -
      have "file_bytes s2 xs = splice (?q * unat ?b + unat (off mod ?b)) ?bs (file_bytes s xs)"
        by (rule file_bytes_update [where w = "unat ?b"])
          (use fchain_distinct [OF fat_okD(2) [OF s1(2)] ch] cluster_data_props(1) [OF Suc.prems(1)] gb(1) q fit lb f1
            s2(4) cd1 w(2) fchain_data [OF ch] in auto)
      then show ?thesis using a(7) by simp
    qed
    have "unat (n - (tot + m)) \<le> fuel" using a(4,5) ml Suc.prems(4) by linarith
    moreover have "unat (off + m) + unat (n - (tot + m)) \<le> length xs * unat (byts_per_clus (fat s2))"
      "unat (off + m) + unat (n - (tot + m)) < 2 ^ 32"
      using a(4,6) ml Suc.prems(5,6) f1 f2(1) by simp_all
    ultimately obtain s' where s': "ewrite_loop fuel e (Obj bs) (off + m) (tot + m) n s2
        = Inr (n, off + m + (n - (tot + m)), s')"
      "fat_ok p s'" "ent_step e s2 s'" "on_chain s' e xs"
      "file_bytes s' xs = splice (unat (off + m)) (drop (unat (tot + m)) bs) (file_bytes s2 xs)"
      "\<forall>d. entry (fat s2) d \<longrightarrow> fat_entry s' d = fat_entry s2 d"
      "\<forall>d. data_clus (fat s2) d \<longrightarrow> d \<notin> set xs \<longrightarrow> cluster_data s' d = cluster_data s2 d"
      using Suc.IH [OF s2(2) oc2 a(2) _ _ _ Suc.prems(7)] by blast
    have dd: "?bs @ drop (unat (tot + m)) bs = drop (unat tot) bs"
      unfolding a(3) by (metis append_take_drop_id drop_drop add.commute)
    have "unat off + length ?bs + length (drop (unat (tot + m)) bs) \<le> length (file_bytes s xs)"
      using Suc.prems(5,7) a(3) lb ml nt length_file_bytes [OF Suc.prems(1), of xs] by simp
    then have "file_bytes s' xs = splice (unat off) (drop (unat tot) bs) (file_bytes s xs)"
      using splice_splice [of "unat off" ?bs "drop (unat (tot + m)) bs" "file_bytes s xs"] s'(5) fb2 lb dd a(6) by simp
    moreover have "rw_clus (xs ! ?q) True (Obj (drop (unat tot) bs)) (off mod ?b) m s1 = Inr (m, r, s2)"
      using s2(1) by (subst rw_clus_take)
    moreover have "off + m + (n - (tot + m)) = off + (n - tot)" by (simp add: algebra_simps)
    moreover have "ent_step e s s'"
      by (rule ent_step_trans [OF s1(4) ent_step_trans [OF ent_step_io [OF s2(3)] s'(3)]])
    moreover have "\<forall>d. entry (fat s) d \<longrightarrow> fat_entry s' d = fat_entry s d"
      using s'(6) w(1) f1 f2(1) by auto
    moreover have "\<forall>d. data_clus (fat s) d \<longrightarrow> d \<notin> set xs \<longrightarrow> cluster_data s' d = cluster_data s d"
      using s'(7) w(2) f1 f2(1) q by (metis nth_mem)
    ultimately show ?thesis
      using True s1(1,6) s'(1,2,4)
      by (subst ewrite_loop.simps) (simp add: Let_def f1 m_def [symmetric] lo)
  qed
qed

section \<open>A small volume\<close>

text \<open>One reserved sector, one sector of table, eight clusters of a sector; the chain 3, 5; cluster 4 is free.\<close>

definition fat_sec1 :: "u8 list" where
  "fat_sec1 = put32 0 0x0ffffff8 (put32 4 0x0fffffff (put32 8 0x0fffffff (put32 12 5 (put32 20 0x0fffffff
     (replicate 512 0)))))"

definition fat_demo_info :: fatinfo where
  "fat_demo_info = \<lparr>first_data_sec = 2, data_sec_cnt = 8, data_clus_cnt = 8, byts_per_clus = 512, byts_per_sec = 512,
     sec_per_clus = 1, rsvd_sec_cnt = 1, fat_cnt = 1, hidd_sec = 0, tot_sec = 10, fat_sz = 1, root_clus = 2\<rparr>"

definition fat_demo0 :: fat_st where
  "fat_demo0 = (bio_st.extend bio_demo
     \<lparr>fat = fat_demo_info, dirents = (\<lambda>_. dirent0\<lparr>first_clus := 3, cur_clus := 3, file_size := 700\<rparr>),
      ent_next = id, ent_prev = id\<rparr>)\<lparr>sectors := (\<lambda>sec. if sec = 1 then fat_sec1 else replicate 512 0)\<rparr>"

definition fat_demo :: fat_st where
  "fat_demo = binit fat_demo0"

lemma binit_keeps_fat: "fat (binit s) = fat s" "dirents (binit s) = dirents s"
proof -
  have b: "fat (binit_buf i t) = fat t" "dirents (binit_buf i t) = dirents t" for i and t :: "'a fat_st_scheme"
    by (simp_all add: binit_buf_def Let_def set_buf_def set_next_def set_prev_def initsleeplock_def set_slock_def)
  have "fat (fold binit_buf is t) = fat t" "dirents (fold binit_buf is t) = dirents t" for "is" and t :: "'a fat_st_scheme"
    by (induction "is" arbitrary: t) (simp_all add: b)
  then show "fat (binit s) = fat s" "dirents (binit s) = dirents s"
    by (simp_all add: binit_def Let_def set_next_def set_prev_def)
qed

lemma fat_demo_simps:
  "fat fat_demo = fat_demo_info" "sectors fat_demo = (\<lambda>sec. if sec = 1 then fat_sec1 else replicate 512 0)"
  "dirents fat_demo e = dirent0\<lparr>first_clus := 3, cur_clus := 3, file_size := 700\<rparr>"
proof -
  have i: "idle (core fat_demo0)"
    using bio_demo_ready(1) by (simp add: fat_demo0_def bio_st.defs running_def)
  show "sectors fat_demo = (\<lambda>sec. if sec = 1 then fat_sec1 else replicate 512 0)"
    using binit_facts(4) [OF i] by (simp add: fat_demo_def) (simp add: fat_demo0_def)
qed (simp_all add: fat_demo_def binit_keeps_fat, simp_all add: fat_demo0_def bio_st.defs)

lemma length_fat_sec1 [simp]: "length fat_sec1 = 512"
  by (simp add: fat_sec1_def)

lemma fat_demo_ok: "fat_ok 2 fat_demo"
proof -
  have "running 2 fat_demo0" "\<forall>i<NBUF. \<not> valid (bufs fat_demo0 i)"
    using bio_demo_ready by (simp_all add: fat_demo0_def bio_st.defs running_def)
  then have "quiet 2 0 fat_demo" using binit_quiet [of 2 fat_demo0 0] by (simp add: fat_demo_def)
  moreover have "geom fat_demo_info" by (simp add: geom_def fat_demo_info_def FAT32_EOC_def)
  ultimately show ?thesis by (simp add: fat_ok_def fat_demo_simps BSIZE_def)
qed

lemma fat_demo_entry:
  "entry fat_demo_info c \<Longrightarrow> fat_entry fat_demo c = get32 fat_sec1 (4 * unat c)"
proof -
  assume e: "entry fat_demo_info c"
  have g: "geom fat_demo_info" using fat_okD(2) [OF fat_demo_ok] by (simp add: fat_demo_simps)
  have "unat c < 10" using geomD(1) [OF g e] by (simp add: fat_demo_info_def)
  then have "fat_entry fat_demo c = get32 (sectors fat_demo (ucast (rsvd_sec_cnt (fat fat_demo)) + of_nat 0)) (4 * unat c)"
    by (intro fat_entry_nth) (use g e in \<open>simp_all add: fat_demo_simps\<close>)
  then show ?thesis by (simp add: fat_demo_simps fat_demo_info_def)
qed

lemma fat_sec1_get:
  "get32 fat_sec1 0 \<noteq> 0" "get32 fat_sec1 4 \<noteq> 0" "get32 fat_sec1 8 \<noteq> 0" "get32 fat_sec1 12 = 5" "get32 fat_sec1 16 = 0"
  "get32 fat_sec1 20 = 0x0fffffff"
  by (simp_all add: fat_sec1_def get32_put32_other) (simp add: get32_def word_rcat_def)

lemma fat_demo_chain: "fchain fat_demo 3 [3, 5]" "on_chain fat_demo e [3, 5]"
proof -
  have "entry fat_demo_info 3" "entry fat_demo_info 5" by (simp_all add: entry_def fat_demo_info_def)
  then show "fchain fat_demo 3 [3, 5]"
    by (simp add: data_clus_def fat_demo_entry fat_demo_simps fat_sec1_get eoc_def FAT32_EOC_def)
  then show "on_chain fat_demo e [3, 5]" by (simp add: on_chain_def fat_demo_simps dirent0_def)
qed

section \<open>Properties\<close>

lemma concat_replicate_replicate: "concat (replicate k (replicate m x)) = replicate (k * m) x"
  by (induction k) (simp_all add: replicate_add)

text \<open>
  C30: The file allocation table is a map from clusters to entries: after any sequence of \<open>write_fat\<close>,
  \<open>read_fat\<close> gives what was last written to the cluster, and the old entry where nothing was written.
\<close>

theorem fat_table_map:
  assumes "fat_ok p s" and "\<forall>kv\<in>set ws. entry (fat s) (fst kv)" and "entry (fat s) c"
  shows "\<exists>s' s''. put_all (\<lambda>c v s. kbind (write_fat c v s) (\<lambda>(_, s). Inr s)) ws s = Inr s'
    \<and> read_fat c s' = Inr (case map_of (rev ws) c of None \<Rightarrow> fat_entry s c | Some v \<Rightarrow> v, s'')"
  by (rule fat_store.get_after_puts [where f = "fat s"]) (use assms in auto)

lemma fat_table_map_witness:
  "\<exists>s' s''. put_all (\<lambda>c v s. kbind (write_fat c v s) (\<lambda>(_, s). Inr s)) [(4, 7), (7, 0x0fffffff), (4, 6)] fat_demo = Inr s'
    \<and> read_fat 4 s' = Inr (6, s'')"
  using fat_table_map [OF fat_demo_ok, of "[(4, 7), (7, 0x0fffffff), (4, 6)]" 4]
  by (simp add: fat_demo_simps entry_def fat_demo_info_def)

text \<open>
  C20: \<open>alloc_clus\<close> returns the first free cluster, marks it as the end of a chain and fills it with zeroes; every
  other entry of the table and every other cluster is as before.
\<close>

theorem alloc_clus_first_free:
  assumes "fat_ok p s" and "data_clus (fat s) c" and "fat_entry s c = 0" and "\<forall>d. unat d < unat c \<longrightarrow> fat_entry s d \<noteq> 0"
  shows "\<exists>s'. alloc_clus 0 s = Inr (c, s') \<and> fat_ok p s'
    \<and> (\<forall>d. entry (fat s) d \<longrightarrow> fat_entry s' d = (if d = c then FAT32_EOC + 7 else fat_entry s d))
    \<and> cluster_data s' c = replicate (unat (byts_per_clus (fat s))) 0
    \<and> (\<forall>d. data_clus (fat s) d \<longrightarrow> d \<noteq> c \<longrightarrow> cluster_data s' d = cluster_data s d)"
proof -
  obtain s' where s': "alloc_clus 0 s = Inr (c, s')" "allocated p c s s'"
    by (rule alloc_clus_ok [OF assms(1-3)]) (use assms(4) in auto)
  have f: "fat s' = fat s" using s'(2) io_step_fat(1) by (auto simp: allocated_def)
  have "map (\<lambda>i. sectors s' (clus_sec (fat s) c i)) [0..<unat (sec_per_clus (fat s))]
      = map (\<lambda>i. replicate BSIZE 0) [0..<unat (sec_per_clus (fat s))]"
    using s'(2) by (simp add: allocated_def)
  then have "cluster_data s' c = concat (replicate (unat (sec_per_clus (fat s))) (replicate 512 0))"
    by (simp add: cluster_data_def f BSIZE_def map_replicate_const)
  also have "\<dots> = replicate (unat (byts_per_clus (fat s))) 0"
    unfolding geom_bpc(1) [OF fat_okD(2) [OF assms(1)]]
    by (rule concat_replicate_replicate)
  finally have "cluster_data s' c = replicate (unat (byts_per_clus (fat s))) 0" .
  moreover have "cluster_data s' d = cluster_data s d" if "data_clus (fat s) d" "d \<noteq> c" for d
  proof -
    have "map (\<lambda>i. sectors s' (clus_sec (fat s) d i)) [0..<unat (sec_per_clus (fat s))]
        = map (\<lambda>i. sectors s (clus_sec (fat s) d i)) [0..<unat (sec_per_clus (fat s))]"
      using s'(2) that by (simp add: allocated_def)
    then show ?thesis unfolding cluster_data_def f by (rule arg_cong)
  qed
  ultimately show ?thesis using s' by (auto simp: allocated_def)
qed

lemma alloc_clus_first_free_witness:
  "\<exists>s'. alloc_clus 0 fat_demo = Inr (4, s') \<and> cluster_data s' 4 = replicate 512 0"
proof -
  have e: "entry fat_demo_info d" if "unat d \<le> 4" for d :: u32
    using that by (simp add: entry_def fat_demo_info_def word_le_nat_alt)
  have "fat_entry fat_demo d \<noteq> 0" if "unat d < unat (4 :: u32)" for d
  proof -
    have "unat d \<in> {0, 1, 2, 3}" using that by auto
    then show ?thesis using fat_demo_entry [OF e, of d] that fat_sec1_get by auto
  qed
  moreover have "fat_entry fat_demo 4 = 0" using fat_demo_entry [OF e, of 4] fat_sec1_get(5) by simp
  moreover have "data_clus (fat fat_demo) 4" using e [of 4] by (simp add: data_clus_def fat_demo_simps)
  ultimately show ?thesis
    using alloc_clus_first_free [OF fat_demo_ok, of 4] by (auto simp: fat_demo_simps fat_demo_info_def)
qed

text \<open>The bytes of a file: its chain, cut at its size.\<close>

definition contents :: "'a fat_st_scheme \<Rightarrow> eptr \<Rightarrow> u32 list \<Rightarrow> u8 list" where
  "contents s e xs = take (unat (file_size (dirents s e))) (file_bytes s xs)"

definition fits :: "'a fat_st_scheme \<Rightarrow> eptr \<Rightarrow> u32 list \<Rightarrow> bool" where
  "fits s e xs \<longleftrightarrow> unat (file_size (dirents s e)) \<le> length xs * unat (byts_per_clus (fat s))"

lemma eread_ok:
  assumes "fat_ok p s" and "on_chain s e xs" and "fits s e xs" and "attribute (dirents s e) AND ATTR_DIRECTORY = 0"
    and "off \<le> file_size (dirents s e)" and "unat off + unat n < 2 ^ 32"
  shows "\<exists>r s'. eread e (Obj z) off n s = Inr (r, take (unat n) (drop (unat off) (contents s e xs)), s')
    \<and> unat r = min (unat n) (unat (file_size (dirents s e)) - unat off) \<and> fat_ok p s' \<and> sectors s' = sectors s \<and> on_chain s' e xs"
proof -
  let ?sz = "file_size (dirents s e)"
  let ?n = "if off + n > ?sz then ?sz - off else n"
  have on: "unat (off + n) = unat off + unat n" by (rule unat_add_no_wrap) (use assms(6) in simp)
  have ol: "unat off \<le> unat ?sz" using assms(5) by (simp add: word_le_nat_alt)
  have so: "unat (?sz - off) = unat ?sz - unat off" using assms(5) by (simp add: unat_sub)
  have un: "unat ?n = min (unat n) (unat ?sz - unat off)"
    using on so ol by (auto simp: word_less_nat_alt)
  have sz: "unat ?sz < 2 ^ 32" using unsigned_less [of ?sz, where ?'a = nat] by simp
  have "unat off + unat (?n - 0) \<le> length xs * unat (byts_per_clus (fat s))"
    using un ol assms(3) unfolding fits_def by simp
  moreover have "unat off + unat (?n - 0) < 2 ^ 32" using un ol sz by simp
  ultimately obtain s' where s': "eread_loop (unat ?n) e (Obj z) off 0 ?n s
      = Inr (?n, take (unat (?n - 0)) (drop (unat off) (file_bytes s xs)), s')"
      "fat_ok p s'" "sectors s' = sectors s" "on_chain s' e xs"
    using eread_loop_ok [OF assms(1,2), of 0 ?n "unat ?n" off z] by auto
  have "\<not> off > ?sz" "\<not> off + n < off" using ol on by (simp_all add: word_less_nat_alt)
  then have "eread e (Obj z) off n s = Inr (?n, take (unat ?n) (drop (unat off) (file_bytes s xs)), s')"
    using s'(1) assms(4) by (simp add: eread_def Let_def)
  moreover have "take (unat ?n) (drop (unat off) (file_bytes s xs)) = take (unat n) (drop (unat off) (contents s e xs))"
    unfolding un contents_def by (simp add: drop_take)
  ultimately show ?thesis using s' un by auto
qed

text \<open>
  C22: \<open>eread\<close> on a file returns the bytes of its contents from the offset on, as many as are asked for or as
  there are, whatever cluster the entry's cursor was at; it changes no sector.
\<close>

theorem eread_contents:
  assumes "fat_ok p s" and "on_chain s e xs" and "fits s e xs" and "attribute (dirents s e) AND ATTR_DIRECTORY = 0"
    and "off \<le> file_size (dirents s e)" and "unat off + unat n < 2 ^ 32"
  shows "\<exists>r s'. eread e (Obj z) off n s = Inr (r, take (unat n) (drop (unat off) (contents s e xs)), s')
    \<and> unat r = min (unat n) (unat (file_size (dirents s e)) - unat off) \<and> fat_ok p s' \<and> sectors s' = sectors s \<and> on_chain s' e xs"
  by (rule eread_ok [OF assms])

lemma eread_contents_witness:
  "\<exists>r s'. eread Root (Obj []) 500 300 fat_demo = Inr (r, replicate 200 0, s') \<and> unat r = 200"
proof -
  have "cluster_data fat_demo c = replicate 512 0" if "c = 3 \<or> c = 5" for c
    using that by (auto simp: cluster_data_def fat_demo_simps fat_demo_info_def clus_sec_def first_sec_of_clus_def)
  then have "contents fat_demo Root [3, 5] = replicate 700 0"
    by (simp add: contents_def file_bytes_def fat_demo_simps replicate_add [symmetric])
  moreover have "fits fat_demo Root [3, 5]" by (simp add: fits_def fat_demo_simps fat_demo_info_def)
  ultimately show ?thesis
    using eread_contents [OF fat_demo_ok fat_demo_chain(2), of Root 500 300 "[]"]
    by (auto simp: fat_demo_simps dirent0_def)
qed

lemma ewrite_ok:
  assumes "fat_ok p s" and "on_chain s e xs" and "fits s e xs" and "attribute (dirents s e) AND ATTR_READ_ONLY = 0"
    and "off \<le> file_size (dirents s e)" and "unat off + unat n \<le> length xs * unat (byts_per_clus (fat s))"
    and "unat off + unat n < 2 ^ 32" and "length bs = unat n"
  shows "\<exists>s'. ewrite e (Obj bs) off n s = Inr (sint n, s') \<and> fat_ok p s' \<and> on_chain s' e xs \<and> fits s' e xs
    \<and> contents s' e xs = take (unat off) (contents s e xs) @ bs @ drop (unat off + unat n) (contents s e xs)
    \<and> attribute (dirents s' e) = attribute (dirents s e)
    \<and> (\<forall>d. entry (fat s) d \<longrightarrow> fat_entry s' d = fat_entry s d)
    \<and> (\<forall>d. data_clus (fat s) d \<longrightarrow> d \<notin> set xs \<longrightarrow> cluster_data s' d = cluster_data s d)"
proof -
  let ?sz = "file_size (dirents s e)"
  have on: "unat (off + n) = unat off + unat n" by (rule unat_add_no_wrap) (use assms(7) in simp)
  have ol: "unat off \<le> unat ?sz" using assms(5) by (simp add: word_le_nat_alt)
  have ch: "fchain s (first_clus (dirents s e)) xs" "xs \<noteq> []" using assms(2) by (auto simp: on_chain_def)
  have f0: "first_clus (dirents s e) \<noteq> 0"
    using fchain_hd [OF ch] fchain_data [OF ch(1), of "hd xs"] ch(2) by (auto simp: data_clus_def)
  have big: "\<not> (ucast off :: u64) + ucast n > 0xffffffff"
  proof -
    have u: "unat (ucast x :: u64) = unat x" for x :: u32 by (rule unat_ucast_up) simp
    have "unat ((ucast off :: u64) + ucast n) = unat off + unat n"
      by (subst unat_add_no_wrap) (use assms(7) in \<open>simp_all add: u\<close>)
    then show ?thesis using assms(7) by (simp add: word_less_nat_alt)
  qed
  obtain t where t: "ewrite_loop (unat n) e (Obj bs) off 0 n s = Inr (n, off + (n - 0), t)" "fat_ok p t" "ent_step e s t"
    "on_chain t e xs" "file_bytes t xs = splice (unat off) (drop (unat (0 :: u32)) bs) (file_bytes s xs)"
    "\<forall>d. entry (fat s) d \<longrightarrow> fat_entry t d = fat_entry s d"
    "\<forall>d. data_clus (fat s) d \<longrightarrow> d \<notin> set xs \<longrightarrow> cluster_data t d = cluster_data s d"
    using ewrite_loop_ok [OF assms(1,2), of 0 n "unat n" off bs] assms(6-8) by auto
  note k = ent_step_keeps [OF t(3)]
  define s' where "s' = (if n > 0 \<and> off + n > ?sz then upd_ent e (\<lambda>d. d\<lparr>file_size := off + n, dirty := 1\<rparr>) t else t)"
  have "ewrite e (Obj bs) off n s = Inr (sint n, s')"
    using t(1) ol on f0 big assms(4) k(4)
    by (simp add: ewrite_def s'_def Let_def word_less_nat_alt)
  moreover have ok: "fat_ok p s'" "on_chain s' e xs" using t(2,4) by (simp_all add: s'_def on_chain_def)
  moreover have sz: "unat (file_size (dirents s' e)) = max (unat ?sz) (unat off + unat n)"
    using k(4) on ol by (auto simp: s'_def word_less_nat_alt)
  have fs: "fat s' = fat s" using k(1) by (simp add: s'_def)
  then have "fits s' e xs" using assms(3,6) sz unfolding fits_def by simp
  moreover have cd: "cluster_data s' = cluster_data t" "fat_entry s' = fat_entry t" by (simp_all add: s'_def)
  have "contents s' e xs = take (unat off) (contents s e xs) @ bs @ drop (unat off + unat n) (contents s e xs)"
  proof -
    have "file_bytes s' xs = splice (unat off) bs (file_bytes s xs)" using t(5) cd by (simp add: file_bytes_def)
    moreover have "length (file_bytes s xs) = length xs * unat (byts_per_clus (fat s))"
      by (rule length_file_bytes [OF assms(1)])
    ultimately show ?thesis
      unfolding contents_def sz splice_def using assms(3,6,8) ol unfolding fits_def
      by (auto simp: min_def max_def drop_take)
  qed
  moreover have "attribute (dirents s' e) = attribute (dirents s e)" using k(5) by (simp add: s'_def)
  ultimately show ?thesis using t(6,7) cd by auto
qed

text \<open>
  C2: \<open>ewrite\<close> inside the clusters a file has replaces the bytes at the offset, keeps the bytes before and after
  them, and lets the file grow to the end of the write; no entry of the table and no cluster of another file
  changes.
\<close>

theorem ewrite_contents:
  assumes "fat_ok p s" and "on_chain s e xs" and "fits s e xs" and "attribute (dirents s e) AND ATTR_READ_ONLY = 0"
    and "off \<le> file_size (dirents s e)" and "unat off + unat n \<le> length xs * unat (byts_per_clus (fat s))"
    and "unat off + unat n < 2 ^ 32" and "length bs = unat n"
  shows "\<exists>s'. ewrite e (Obj bs) off n s = Inr (sint n, s') \<and> fat_ok p s' \<and> on_chain s' e xs \<and> fits s' e xs
    \<and> contents s' e xs = take (unat off) (contents s e xs) @ bs @ drop (unat off + unat n) (contents s e xs)
    \<and> attribute (dirents s' e) = attribute (dirents s e)
    \<and> (\<forall>d. entry (fat s) d \<longrightarrow> fat_entry s' d = fat_entry s d)
    \<and> (\<forall>d. data_clus (fat s) d \<longrightarrow> d \<notin> set xs \<longrightarrow> cluster_data s' d = cluster_data s d)"
  by (rule ewrite_ok [OF assms])

lemma ewrite_contents_witness:
  "\<exists>s'. ewrite Root (Obj [7, 8, 9]) 510 3 fat_demo = Inr (3, s') \<and> contents s' Root [3, 5] ! 511 = 8"
proof -
  have f: "fits fat_demo Root [3, 5]" by (simp add: fits_def fat_demo_simps fat_demo_info_def)
  have "length (contents fat_demo Root [3, 5]) = 700"
    using length_file_bytes [OF fat_demo_ok, of "[3, 5]"] by (simp add: contents_def fat_demo_simps fat_demo_info_def)
  then show ?thesis
    using ewrite_contents [OF fat_demo_ok fat_demo_chain(2) f, of 510 3 "[7, 8, 9]"]
    by (auto simp: fat_demo_simps dirent0_def fat_demo_info_def nth_append)
qed

text \<open>
  A write is read back: the bytes \<open>ewrite\<close> put at an offset are what \<open>eread\<close> returns from there.
\<close>

theorem ewrite_eread:
  assumes "fat_ok p s" and "on_chain s e xs" and "fits s e xs"
    and "attribute (dirents s e) AND ATTR_READ_ONLY = 0" and "attribute (dirents s e) AND ATTR_DIRECTORY = 0"
    and "off \<le> file_size (dirents s e)" and "unat off + unat n \<le> length xs * unat (byts_per_clus (fat s))"
    and "unat off + unat n < 2 ^ 32" and "length bs = unat n"
  shows "\<exists>s' r s''. ewrite e (Obj bs) off n s = Inr (sint n, s') \<and> eread e (Obj z) off n s' = Inr (r, bs, s'')"
proof -
  obtain s' where s': "ewrite e (Obj bs) off n s = Inr (sint n, s')" "fat_ok p s'" "on_chain s' e xs" "fits s' e xs"
    "contents s' e xs = take (unat off) (contents s e xs) @ bs @ drop (unat off + unat n) (contents s e xs)"
    "attribute (dirents s' e) = attribute (dirents s e)"
    using ewrite_ok [OF assms(1-4,6-9)] by blast
  have "length (contents t e xs) = unat (file_size (dirents t e))" if "fits t e xs" "fat_ok p t" for t :: "'a fat_st_scheme"
    using that length_file_bytes [OF that(2), of xs] unfolding contents_def fits_def by simp
  then have l: "length (contents s e xs) = unat (file_size (dirents s e))"
    "length (contents s' e xs) = unat (file_size (dirents s' e))" using assms(1,3) s'(2,4) by blast+
  have ol: "unat off \<le> length (contents s e xs)" using assms(6) l(1) by (simp add: word_le_nat_alt)
  then have "unat off \<le> unat (file_size (dirents s' e))" unfolding l(2) [symmetric] s'(5) by simp
  then have "off \<le> file_size (dirents s' e)" by (simp add: word_le_nat_alt)
  then obtain r s'' where "eread e (Obj z) off n s' = Inr (r, take (unat n) (drop (unat off) (contents s' e xs)), s'')"
    using eread_ok [OF s'(2,3,4) _ _ assms(8)] s'(6) assms(5) by metis
  moreover have "take (unat n) (drop (unat off) (contents s' e xs)) = bs"
    unfolding s'(5) using ol assms(9) by simp
  ultimately show ?thesis using s'(1) by auto
qed

lemma ewrite_eread_witness:
  "\<exists>s' r s''. ewrite Root (Obj [7, 8, 9]) 510 3 fat_demo = Inr (3, s') \<and> eread Root (Obj []) 510 3 s' = Inr (r, [7, 8, 9], s'')"
proof -
  have f: "fits fat_demo Root [3, 5]" by (simp add: fits_def fat_demo_simps fat_demo_info_def)
  then show ?thesis
    using ewrite_eread [OF fat_demo_ok fat_demo_chain(2) f, of 510 3 "[7, 8, 9]" "[]"]
    by (auto simp: fat_demo_simps dirent0_def fat_demo_info_def)
qed

text \<open>
  C18: \<open>etrunc\<close> returns, has freed exactly the clusters of the file's chain, and leaves it empty; the rest of the
  table is as before.
\<close>

theorem etrunc_frees:
  assumes "fat_ok p s" and "fchain s (first_clus (dirents s e)) xs"
  shows "\<exists>s'. etrunc e s = Inr s' \<and> fat_ok p s' \<and> first_clus (dirents s' e) = 0 \<and> file_size (dirents s' e) = 0
    \<and> (\<forall>d. entry (fat s) d \<longrightarrow> fat_entry s' d = (if d \<in> set xs then 0 else fat_entry s d))"
proof -
  have "length xs < unat (data_clus_cnt (fat s)) + 3"
    using fchain_length [OF fat_okD(2) [OF assms(1)] assms(2)] by simp
  then obtain t where "etrunc_loop (unat (data_clus_cnt (fat s)) + 3) (first_clus (dirents s e)) s = Inr t" "fat_ok p t"
    "\<forall>d. entry (fat s) d \<longrightarrow> fat_entry t d = (if d \<in> set xs then 0 else fat_entry s d)"
    using etrunc_loop_ok [OF assms] by blast
  then show ?thesis by (simp add: etrunc_def)
qed

lemma etrunc_frees_witness:
  "\<exists>s'. etrunc Root fat_demo = Inr s' \<and> fat_entry s' 3 = 0 \<and> fat_entry s' 5 = 0 \<and> fat_entry s' 2 = 0x0fffffff"
proof -
  have "fchain fat_demo (first_clus (dirents fat_demo Root)) [3, 5]"
    using fat_demo_chain(1) by (simp add: fat_demo_simps)
  moreover have "entry fat_demo_info 2" "entry fat_demo_info 3" "entry fat_demo_info 5"
    by (simp_all add: entry_def fat_demo_info_def)
  moreover have "get32 fat_sec1 8 = 0x0fffffff" by (simp add: fat_sec1_def get32_put32_other)
  ultimately show ?thesis using etrunc_frees [OF fat_demo_ok, of Root "[3, 5]"] fat_demo_entry [of 2]
    by (auto simp: fat_demo_simps)
qed

end
