(* ===== verification/FatName.thy ===== *)
theory FatName imports FatTable begin

text \<open>
  kernel/fat32.c, names: checking and trimming a name, the 8.3 short name, the checksum, the entries of a directory
  on disk (one short entry behind long entries of 13 characters each), and the elements of a path.
  A C string is the list of its bytes before the NUL; an array of characters is the list of its bytes.
\<close>

section \<open>Strings in arrays\<close>

text \<open>\<open>strncmp(a, b, n) == 0\<close> on two strings (the theorem \<open>strncmp_zero_iff\<close> of KString).\<close>

definition str_eq :: "nat \<Rightarrow> u8 list \<Rightarrow> u8 list \<Rightarrow> bool" where
  "str_eq n a b \<longleftrightarrow> take n (cstr a) = take n (cstr b)"

text \<open>\<open>strncpy\<close> into an array: the string, padded with NUL to \<open>n\<close> bytes; the rest of the array stays.\<close>

definition str_ncpy :: "nat \<Rightarrow> u8 list \<Rightarrow> u8 list \<Rightarrow> u8 list" where
  "str_ncpy n src dst = (let s = take n (cstr src) in s @ replicate (n - length s) 0 @ drop n dst)"

section \<open>formatname\<close>

definition illegal_chars :: "u8 list" where
  "illegal_chars = [0x22, 0x2a, 0x2f, 0x3a, 0x3c, 0x3e, 0x3f, 0x5c, 0x7c]"

text \<open>\<open>c < 0x20\<close> compares a \<open>char\<close>, which is unsigned on RISC-V.\<close>

definition illegal_char :: "u8 \<Rightarrow> bool" where
  "illegal_char c \<longleftrightarrow> c < 0x20 \<or> c \<in> set illegal_chars"

text \<open>The second loop cuts the spaces at the end; a name of spaces only keeps them, as it has no other character.\<close>

definition trim_end :: "u8 list \<Rightarrow> u8 list" where
  "trim_end s = (if \<forall>c\<in>set s. c = 0x20 then s else rev (dropWhile (\<lambda>c. c = 0x20) (rev s)))"

definition formatname :: "u8 list \<Rightarrow> u8 list option" where
  "formatname name =
    (let s = dropWhile (\<lambda>c. c = 0x20 \<or> c = 0x2e) name in
     if \<exists>c\<in>set s. illegal_char c then None else Some (trim_end s))"

section \<open>Short names\<close>

definition illegal_short :: "u8 list" where
  "illegal_short = [0x2b, 0x2c, 0x3b, 0x3d, 0x5b, 0x5d]"

definition short_char :: "u8 \<Rightarrow> u8" where
  "short_char c = (if 0x61 \<le> c \<and> c \<le> 0x7a then c - 0x20 else if c \<in> set illegal_short then 0x5f else c)"

text \<open>The last dot of the name, or its start when there is none: \<open>p - name\<close>.\<close>

definition last_dot :: "u8 list \<Rightarrow> nat" where
  "last_dot s = (case find (\<lambda>j. s ! j = 0x2e) (rev [0..<length s]) of None \<Rightarrow> 0 | Some j \<Rightarrow> j)"

text \<open>
  The main loop. \<open>k\<close> is the position of the character read next (\<open>name\<close> in the code), \<open>p\<close> the dot that is still
  waited for, \<open>out\<close> what \<open>shortname\<close> holds so far. Every turn moves \<open>k\<close> forward, the jump behind the dot too.
\<close>

function short_loop :: "u8 list \<Rightarrow> nat \<Rightarrow> nat option \<Rightarrow> u8 list \<Rightarrow> u8 list" where
  "short_loop s k p out =
    (if length out < CHAR_SHORT_NAME \<and> k < length s then
       let c = s ! k in
       case p of
         Some d \<Rightarrow>
           if length out = 8 then
             if d + 1 < k + 1 then out
             else short_loop s (d + 1) None out
           else if c = 0x20 then short_loop s (k + 1) p out
           else if c = 0x2e then
             if d < k + 1 then short_loop s (k + 1) None (out @ replicate (8 - length out) 0x20)
             else short_loop s (k + 1) p out
           else short_loop s (k + 1) p (out @ [short_char c])
       | None \<Rightarrow>
           if c = 0x20 then short_loop s (k + 1) p out
           else if c = 0x2e then short_loop s (k + 1) None (out @ replicate (8 - length out) 0x20)
           else short_loop s (k + 1) p (out @ [short_char c])
     else out)"
  by pat_completeness auto
termination
  by (relation "measure (\<lambda>(s, k, _). length s - k)") auto

declare short_loop.simps [simp del]

definition generate_shortname :: "u8 list \<Rightarrow> u8 list" where
  "generate_shortname s =
    (let out = short_loop s 0 (Some (last_dot s)) []
     in out @ replicate (CHAR_SHORT_NAME - length out) 0x20)"

definition cal_checksum :: "u8 list \<Rightarrow> u8" where
  "cal_checksum shortname =
    foldl (\<lambda>sum c. (if sum AND 1 \<noteq> 0 then 0x80 else 0) + drop_bit 1 sum + c) 0 (take CHAR_SHORT_NAME shortname)"

section \<open>Entries on disk\<close>

text \<open>
  The 32 bytes of \<open>short_name_entry_t\<close> and \<open>long_name_entry_t\<close>. Fields the code does not use are zero in what \<open>emake\<close>
  writes.
\<close>

definition le16 :: "u16 \<Rightarrow> u8 list" where
  "le16 v = [ucast v, ucast (drop_bit 8 v)]"

definition short_entry :: "u8 list \<Rightarrow> u8 \<Rightarrow> u32 \<Rightarrow> u32 \<Rightarrow> u8 list" where
  "short_entry name attr clus sz =
    str_ncpy CHAR_SHORT_NAME name (replicate CHAR_SHORT_NAME 0) @ [attr] @ replicate 8 0
    @ le16 (ucast (drop_bit 16 clus)) @ replicate 4 0 @ le16 (ucast clus) @ le32 sz"

text \<open>The 13 wide characters of a long entry: the characters of the name, a NUL if there is room, then \<open>0xffff\<close>.\<close>

fun wide_chars :: "nat \<Rightarrow> u8 list \<Rightarrow> bool \<Rightarrow> u8 list" where
  "wide_chars 0 p e = []"
| "wide_chars (Suc n) p True = [0xff, 0xff] @ wide_chars n p True"
| "wide_chars (Suc n) [] False = [0, 0] @ wide_chars n [] True"
| "wide_chars (Suc n) (c # p) False = [c, 0] @ wide_chars n p False"

definition long_entry :: "u8 \<Rightarrow> u8 \<Rightarrow> u8 list \<Rightarrow> u8 list" where
  "long_entry order checksum part =
    (let w = wide_chars CHAR_LONG_NAME part False
     in [order] @ take 10 w @ [ATTR_LONG_NAME, 0, checksum] @ take 12 (drop 10 w) @ [0, 0] @ drop 22 w)"

text \<open>How many long entries a name of \<open>n\<close> characters takes, and the entry number \<open>i\<close> (from 1).\<close>

definition long_count :: "nat \<Rightarrow> nat" where
  "long_count n = (n + CHAR_LONG_NAME - 1) div CHAR_LONG_NAME"

definition name_entry :: "u8 list \<Rightarrow> nat \<Rightarrow> u8 list" where
  "name_entry name i =
    long_entry (of_nat i OR (if i = long_count (length name) then LAST_LONG_ENTRY else 0))
      (cal_checksum (generate_shortname name)) (drop ((i - 1) * CHAR_LONG_NAME) name)"

text \<open>The two dot entries have no long name.\<close>

definition dot_name :: "u32 \<Rightarrow> u8 list" where
  "dot_name off = (if off = 0 then [0x2e] else [0x2e, 0x2e]) @ replicate (if off = 0 then 10 else 9) 0x20"

text \<open>
  Reading back: \<open>snstr\<close> on the wide characters \<open>ws\<close> into the array at \<open>pos\<close>; it writes one NUL less than there is
  room for. The twentieth long entry reaches four bytes behind the end of the 256 bytes of \<open>filename\<close>: one is
  \<open>attribute\<close>, which \<open>read_entry_info\<close> sets afterwards, and three are padding, so \<open>put_arr\<close> drops what is written there.
\<close>

definition put_arr :: "nat \<Rightarrow> u8 list \<Rightarrow> u8 list \<Rightarrow> u8 list" where
  "put_arr pos bs a = take (length a) (splice pos bs a)"

fun snstr_arr :: "u8 list \<Rightarrow> nat \<Rightarrow> u16 list \<Rightarrow> u8 list" where
  "snstr_arr a pos [] = a"
| "snstr_arr a pos (w # ws) =
    (if w \<noteq> 0 then snstr_arr (a[pos := ucast (w AND 0xff)]) (pos + 1) ws
     else put_arr pos (replicate (length ws) 0) a)"

definition wchars :: "u8 list \<Rightarrow> nat \<Rightarrow> nat \<Rightarrow> u16 list" where
  "wchars d i n = map (\<lambda>k. get16 d (i + 2 * k)) [0..<n]"

definition short_to_name :: "u8 list \<Rightarrow> u8 list" where
  "short_to_name d =
    takeWhile (\<lambda>c. c \<noteq> 0x20) (take 8 d) @ (if d ! 8 \<noteq> 0x20 then [0x2e] else [])
    @ takeWhile (\<lambda>c. c \<noteq> 0x20) (take 3 (drop 8 d))"

definition read_entry_name :: "u8 list \<Rightarrow> nat \<Rightarrow> u8 list \<Rightarrow> u8 list" where
  "read_entry_name a pos d =
    (if d ! 11 = ATTR_LONG_NAME then
       let a = snstr_arr a pos (wchars d 1 5);
           a = snstr_arr a (pos + 5) (wchars d 14 6)
       in snstr_arr a (pos + 11) (wchars d 28 2)
     else
       put_arr pos (short_to_name d) (put_arr pos (replicate (CHAR_SHORT_NAME + 2) 0) a))"

definition read_entry_info :: "u8 list \<Rightarrow> dirent \<Rightarrow> dirent" where
  "read_entry_info d e =
    (let clus = push_bit 16 (ucast (get16 d 20)) OR ucast (get16 d 26)
     in e\<lparr>attribute := d ! 11, first_clus := clus, file_size := get32 d 28, cur_clus := clus, clus_cnt := 0\<rparr>)"

section \<open>Paths\<close>

text \<open>\<open>skipelem\<close>: the first element of the path, at most 255 characters of it, and the rest.\<close>

definition skipelem :: "u8 list \<Rightarrow> (u8 list \<times> u8 list) option" where
  "skipelem str =
    (let s = dropWhile (\<lambda>c. c = 0x2f) str in
     if s = [] then None
     else
       let elem = takeWhile (\<lambda>c. c \<noteq> 0x2f) s;
           rest = dropWhile (\<lambda>c. c \<noteq> 0x2f) s
       in Some (take FAT32_MAX_FILENAME elem, dropWhile (\<lambda>c. c = 0x2f) rest))"

section \<open>Checked names\<close>

lemma takeWhile_eq_Nil_iff': "takeWhile P xs = [] \<longleftrightarrow> xs = [] \<or> \<not> P (hd xs)"
  by (cases xs) auto

lemma trim_end_props:
  assumes "s = [] \<or> hd s \<noteq> 0x20"
  shows "set (trim_end s) \<subseteq> set s" and "trim_end s = [] \<longleftrightarrow> s = []" and "s \<noteq> [] \<Longrightarrow> hd (trim_end s) = hd s"
    and "trim_end s \<noteq> [] \<Longrightarrow> last (trim_end s) \<noteq> 0x20" and "trim_end (trim_end s) = trim_end s"
proof -
  have t: "trim_end s = rev (dropWhile (\<lambda>c. c = 0x20) (rev s))"
    using assms by (cases s) (auto simp: trim_end_def)
  define k where "k = takeWhile (\<lambda>c. c = 0x20) (rev s)"
  have s: "s = trim_end s @ rev k" unfolding t k_def
    by (metis rev_append rev_rev_ident takeWhile_dropWhile_id)
  show "set (trim_end s) \<subseteq> set s" by (subst (2) s) auto
  show e: "trim_end s = [] \<longleftrightarrow> s = []"
  proof
    assume "trim_end s = []"
    then have "\<forall>c\<in>set s. c = 0x20" unfolding t by simp
    then show "s = []" using assms by (cases s) auto
  qed (simp add: trim_end_def)
  show h: "s \<noteq> [] \<Longrightarrow> hd (trim_end s) = hd s" using e by (subst (2) s) simp
  show l: "last (trim_end s) \<noteq> 0x20" if "trim_end s \<noteq> []"
    using that hd_dropWhile [of "\<lambda>c. c = 0x20" "rev s"] unfolding t by (simp add: last_rev)
  have "dropWhile (\<lambda>c. c = 0x20) (rev (trim_end s)) = rev (trim_end s)"
    using l by (cases "trim_end s = []") (simp_all add: dropWhile_eq_self_iff hd_rev)
  then show "trim_end (trim_end s) = trim_end s" unfolding trim_end_def [of "trim_end s"] by simp
qed

lemma formatname_ok:
  assumes "formatname name = Some m"
  shows "\<forall>c\<in>set m. \<not> illegal_char c" and "m \<noteq> [] \<Longrightarrow> hd m \<noteq> 0x20 \<and> hd m \<noteq> 0x2e \<and> last m \<noteq> 0x20"
    and "formatname m = Some m"
proof -
  define s where "s = dropWhile (\<lambda>c. c = 0x20 \<or> c = 0x2e) name"
  have a: "\<forall>c\<in>set s. \<not> illegal_char c" "m = trim_end s"
    using assms by (auto simp: formatname_def s_def Let_def split: if_splits)
  have h: "s = [] \<or> hd s \<noteq> 0x20" "s \<noteq> [] \<Longrightarrow> hd s \<noteq> 0x20 \<and> hd s \<noteq> 0x2e"
    using hd_dropWhile [of "\<lambda>c. c = 0x20 \<or> c = 0x2e" name] by (auto simp: s_def)
  note t = trim_end_props [OF h(1), folded a(2)]
  show l: "\<forall>c\<in>set m. \<not> illegal_char c" using t(1) a(1) by blast
  show b: "m \<noteq> [] \<Longrightarrow> hd m \<noteq> 0x20 \<and> hd m \<noteq> 0x2e \<and> last m \<noteq> 0x20" using t h(2) by auto
  have "dropWhile (\<lambda>c. c = 0x20 \<or> c = 0x2e) m = m"
    using b by (cases "m = []") (simp_all add: dropWhile_eq_self_iff)
  then show "formatname m = Some m" using l t(5) by (auto simp: formatname_def Let_def)
qed

section \<open>Short names fit\<close>

lemma short_loop_length: "length out \<le> CHAR_SHORT_NAME \<Longrightarrow> length (short_loop s k p out) \<le> CHAR_SHORT_NAME"
proof (induction s k p out rule: short_loop.induct)
  case (1 s k p out)
  then show ?case
    by (subst short_loop.simps) (auto simp: Let_def CHAR_SHORT_NAME_def split: option.splits)
qed

section \<open>Long names\<close>

lemma length_put_arr [simp]: "length (put_arr pos bs a) = length a"
  by (auto simp: put_arr_def splice_def min_def)

lemma nth_put_arr:
  "j < length a \<Longrightarrow> put_arr pos bs a ! j = (if pos \<le> j \<and> j < pos + length bs then bs ! (j - pos) else a ! j)"
  by (auto simp: put_arr_def splice_def nth_append min_def)

lemma length_snstr_arr [simp]: "length (snstr_arr a pos ws) = length a"
  by (induction a pos ws rule: snstr_arr.induct) auto

text \<open>What \<open>snstr\<close> writes: the characters up to the first NUL, and NULs up to, but not including, the last place.\<close>

definition nchars :: "u16 list \<Rightarrow> nat" where
  "nchars ws = length (takeWhile (\<lambda>w. w \<noteq> 0) ws)"

lemma nth_snstr_arr:
  "j < length a \<Longrightarrow> snstr_arr a pos ws ! j =
    (if pos \<le> j \<and> j < pos + nchars ws then ucast (ws ! (j - pos) AND 0xff)
     else if pos + nchars ws \<le> j \<and> j < pos + length ws - 1 then 0 else a ! j)"
proof (induction a pos ws rule: snstr_arr.induct)
  case (2 a pos w ws)
  show ?case
  proof (cases "w = 0")
    case True
    then show ?thesis using 2(2) by (auto simp: nth_put_arr nchars_def)
  next
    case False
    have "nchars (w # ws) = Suc (nchars ws)" using False by (simp add: nchars_def)
    then show ?thesis
      using 2(1) [OF False] 2(2) False
      by (auto simp: nth_Cons' nth_list_update)
  qed
qed (auto simp: nchars_def)

text \<open>The wide characters of an entry, in order.\<close>

lemma length_wide_chars [simp]: "length (wide_chars n p e) = 2 * n"
  by (induction n p e rule: wide_chars.induct) auto

definition wide_at :: "u8 list \<Rightarrow> nat \<Rightarrow> u16" where
  "wide_at p k = (if k < length p then ucast (p ! k) else if k = length p then 0 else 0xffff)"

lemma get16_cong: "d ! i = d' ! j \<Longrightarrow> d ! (i + 1) = d' ! (j + 1) \<Longrightarrow> get16 d i = get16 d' j"
  by (simp add: get16_def)

lemma get16_lo: "get16 (c # 0 # r) 0 = ucast c"
  by (simp add: get16_def word_rcat_def flip: word_unat_eq_iff)

lemma get16_wide:
  "k < n \<Longrightarrow> get16 (wide_chars n p e) (2 * k) = (if e then 0xffff else wide_at p k)"
proof (induction n p e arbitrary: k rule: wide_chars.induct)
  case (2 n p)
  then show ?case by (cases k) (simp_all add: get16_def word_rcat_def)
next
  case (3 n)
  then show ?case by (cases k) (simp_all add: get16_def word_rcat_def wide_at_def)
next
  case (4 n c p)
  then show ?case by (cases k) (simp_all add: get16_def word_rcat_def wide_at_def)
qed simp

lemma long_entry_wchars:
  defines "d o' c part \<equiv> long_entry o' c part"
  shows "d o' c part ! 11 = ATTR_LONG_NAME" and "d o' c part ! 0 = o'" and "length (d o' c part) = 32"
    and "wchars (d o' c part) 1 5 = map (wide_at part) [0..<5]"
    and "wchars (d o' c part) 14 6 = map (wide_at part) [5..<11]"
    and "wchars (d o' c part) 28 2 = map (wide_at part) [11..<13]"
proof -
  let ?w = "wide_chars 13 part False"
  have d: "d o' c part = [o'] @ take 10 ?w @ [ATTR_LONG_NAME, 0, c] @ take 12 (drop 10 ?w) @ [0, 0] @ drop 22 ?w"
    by (simp add: d_def long_entry_def CHAR_LONG_NAME_def Let_def)
  show "d o' c part ! 11 = ATTR_LONG_NAME" "d o' c part ! 0 = o'" "length (d o' c part) = 32"
    by (simp_all add: d nth_append)
  have g: "get16 (d o' c part) (i + 2 * j) = wide_at part (k + j)"
    if "k + j < 13" "\<And>x. x < 2 * n \<Longrightarrow> d o' c part ! (i + x) = ?w ! (2 * k + x)" "j < n" for i j k n
  proof -
    have "get16 (d o' c part) (i + 2 * j) = get16 ?w (2 * (k + j))"
      by (rule get16_cong) (use that(2) [of "2 * j"] that(2) [of "2 * j + 1"] that(3) in \<open>simp_all add: algebra_simps\<close>)
    then show ?thesis using get16_wide [OF that(1), of part False] by simp
  qed
  have w1: "d o' c part ! (1 + x) = ?w ! (2 * 0 + x)" if "x < 2 * 5" for x
    using that by (simp add: d nth_append)
  have w2: "d o' c part ! (14 + x) = ?w ! (2 * 5 + x)" if "x < 2 * 6" for x
    using that by (simp add: d nth_append)
  have w3: "d o' c part ! (28 + x) = ?w ! (2 * 11 + x)" if "x < 2 * 2" for x
    using that by (simp add: d nth_append)
  show "wchars (d o' c part) 1 5 = map (wide_at part) [0..<5]"
    by (rule nth_equalityI) (use g [where n = 5, OF _ w1] in \<open>simp_all add: wchars_def del: upt_rec_numeral\<close>)
  show "wchars (d o' c part) 14 6 = map (wide_at part) [5..<11]"
    by (rule nth_equalityI) (use g [where n = 6, OF _ w2] in \<open>simp_all add: wchars_def del: upt_rec_numeral\<close>)
  show "wchars (d o' c part) 28 2 = map (wide_at part) [11..<13]"
    by (rule nth_equalityI) (use g [where n = 2, OF _ w3] in \<open>simp_all add: wchars_def del: upt_rec_numeral\<close>)
qed

lemma nchars_le: "nchars ws \<le> length ws"
  by (simp add: nchars_def length_takeWhile_le)

lemma nchars_gt:
  assumes "k < length ws" and "\<And>i. i \<le> k \<Longrightarrow> ws ! i \<noteq> 0"
  shows "k < nchars ws"
proof (rule ccontr)
  assume "\<not> k < nchars ws"
  then have "nchars ws < length ws" "nchars ws \<le> k" using assms(1) by simp_all
  then show False using nth_length_takeWhile [of "\<lambda>w. w \<noteq> 0" ws] assms(2) by (simp add: nchars_def)
qed

lemma low_byte: "ucast (ucast (c :: u8) AND (0xff :: u16)) = c"
proof -
  have m: "(0xff :: u16) = mask 8" by (simp add: mask_eq_exp_minus_1)
  show ?thesis unfolding m take_bit_eq_mask [symmetric] by (rule bit_word_eqI) (auto simp: bit_simps)
qed

lemma nchars_eq: "k < length ws \<Longrightarrow> ws ! k = 0 \<Longrightarrow> (\<And>i. i < k \<Longrightarrow> ws ! i \<noteq> 0) \<Longrightarrow> nchars ws = k"
  unfolding nchars_def by (subst takeWhile_eq_take_P_nth [of k]) auto

text \<open>One segment of a long entry: characters \<open>m\<close> to \<open>n\<close> of \<open>part\<close>.\<close>

lemma snstr_segment:
  fixes pos m n :: nat
  assumes "0 \<notin> set part" and "j < length a"
  defines "a' \<equiv> snstr_arr a (pos + m) (map (wide_at part) [m..<n])"
  shows "j < pos + m \<or> pos + n \<le> j \<Longrightarrow> m \<le> n \<Longrightarrow> a' ! j = a ! j"
    and "j = pos + k \<Longrightarrow> m \<le> k \<Longrightarrow> k < n \<Longrightarrow> k < length part \<Longrightarrow> a' ! j = part ! k"
    and "j = pos + k \<Longrightarrow> m \<le> k \<Longrightarrow> k < n \<Longrightarrow> k = length part \<Longrightarrow> a ! j = 0 \<Longrightarrow> a' ! j = 0"
proof -
  let ?ws = "map (wide_at part) [m..<n]"
  note s = nth_snstr_arr [OF assms(2), of "pos + m" ?ws, folded a'_def]
  have nz: "wide_at part i \<noteq> 0" if "i < length part" for i
  proof -
    have "part ! i \<noteq> 0" using assms(1) that by (metis nth_mem)
    then have "unat (ucast (part ! i) :: u16) \<noteq> 0" by (simp add: unat_ucast_up unat_eq_zero)
    then show ?thesis using that by (auto simp: wide_at_def)
  qed
  show "a' ! j = a ! j" if "j < pos + m \<or> pos + n \<le> j" "m \<le> n"
    using s that nchars_le [of ?ws] by auto
  show "a' ! j = part ! k" if k: "j = pos + k" "m \<le> k" "k < n" "k < length part"
  proof -
    have "k - m < nchars ?ws" by (rule nchars_gt) (use k nz in auto)
    moreover have "ucast (wide_at part k AND 0xff) = part ! k"
      using k(4) low_byte [of "part ! k"] by (simp add: wide_at_def)
    ultimately show ?thesis using s k by auto
  qed
  show "a' ! j = 0" if k: "j = pos + k" "m \<le> k" "k < n" "k = length part" "a ! j = 0"
  proof -
    have "nchars ?ws = k - m" by (rule nchars_eq) (use k nz in \<open>auto simp: wide_at_def [of part "length part"]\<close>)
    then show ?thesis using s k by auto
  qed
qed

text \<open>One long entry.\<close>

lemma read_long:
  fixes pos :: nat and o' c :: u8
  assumes "0 \<notin> set part" and "j < length a"
  defines "a' \<equiv> read_entry_name a pos (long_entry o' c part)"
  shows "j < pos \<or> pos + 13 \<le> j \<Longrightarrow> a' ! j = a ! j"
    and "j = pos + k \<Longrightarrow> k < 13 \<Longrightarrow> k < length part \<Longrightarrow> a' ! j = part ! k"
    and "j = pos + k \<Longrightarrow> k < 13 \<Longrightarrow> k = length part \<Longrightarrow> a ! j = 0 \<Longrightarrow> a' ! j = 0"
    and "length a' = length a"
proof -
  define a1 where "a1 = snstr_arr a pos (map (wide_at part) [0..<5])"
  define a2 where "a2 = snstr_arr a1 (pos + 5) (map (wide_at part) [5..<11])"
  have a': "a' = snstr_arr a2 (pos + 11) (map (wide_at part) [11..<13])"
    unfolding a'_def read_entry_name_def Let_def long_entry_wchars a1_def a2_def by simp
  show "length a' = length a" by (simp add: a' a1_def a2_def)
  have l: "j < length a1" "j < length a2" using assms(2) by (simp_all add: a1_def a2_def)
  note s1 = snstr_segment [OF assms(1,2), where pos = pos and m = 0 and n = 5, unfolded add_0_right, folded a1_def]
    and s2 = snstr_segment [OF assms(1) l(1), where pos = pos and m = 5 and n = 11, folded a2_def]
    and s3 = snstr_segment [OF assms(1) l(2), where pos = pos and m = 11 and n = 13, folded a']
  show "a' ! j = a ! j" if "j < pos \<or> pos + 13 \<le> j" using that s1(1) s2(1) s3(1) by fastforce
  show "a' ! j = part ! k" if k: "j = pos + k" "k < 13" "k < length part"
  proof -
    consider "k < 5" | "5 \<le> k" "k < 11" | "11 \<le> k" by linarith
    then show ?thesis using s1(1) s1(2) [OF k(1)] s2(1) s2(2) [OF k(1)] s3(1) s3(2) [OF k(1)] k by cases auto
  qed
  show "a' ! j = 0" if k: "j = pos + k" "k < 13" "k = length part" "a ! j = 0"
  proof -
    consider "k < 5" | "5 \<le> k" "k < 11" | "11 \<le> k" by linarith
    then show ?thesis using s1(1) s1(3) [OF k(1)] s2(1) s2(3) [OF k(1)] s3(1) s3(3) [OF k(1)] k by cases auto
  qed
qed

text \<open>All long entries of a name, in the order they lie in the directory: the last part of the name first.\<close>

definition read_name_entries :: "u8 list \<Rightarrow> nat \<Rightarrow> u8 list \<Rightarrow> u8 list" where
  "read_name_entries name n a =
    fold (\<lambda>i a. read_entry_name a ((i - 1) * CHAR_LONG_NAME) (name_entry name i)) (rev [1..<Suc n]) a"

lemma read_name_entries_Suc:
  "read_name_entries name (Suc n) a
    = read_name_entries name n (read_entry_name a (n * CHAR_LONG_NAME) (name_entry name (Suc n)))"
  by (simp add: read_name_entries_def)

lemma read_name_entries_nth:
  assumes "0 \<notin> set name" and "j < length a"
  shows "(n * 13 \<le> j \<longrightarrow> read_name_entries name n a ! j = a ! j)
    \<and> (j < n * 13 \<longrightarrow> j < length name \<longrightarrow> read_name_entries name n a ! j = name ! j)
    \<and> (j < n * 13 \<longrightarrow> j = length name \<longrightarrow> a ! j = 0 \<longrightarrow> read_name_entries name n a ! j = 0)"
  using assms(2)
proof (induction n arbitrary: a)
  case (Suc n)
  let ?p = "drop (n * 13) name"
  let ?a = "read_entry_name a (n * 13) (name_entry name (Suc n))"
  have z: "0 \<notin> set ?p" using assms(1) by (auto dest: in_set_dropD)
  note r = read_long [OF z Suc.prems, where pos = "n * 13"
      and o' = "of_nat (Suc n) OR (if Suc n = long_count (length name) then LAST_LONG_ENTRY else 0)"
      and c = "cal_checksum (generate_shortname name)"]
  have e: "name_entry name (Suc n) = long_entry (of_nat (Suc n) OR (if Suc n = long_count (length name) then LAST_LONG_ENTRY else 0))
      (cal_checksum (generate_shortname name)) ?p"
    by (simp add: name_entry_def CHAR_LONG_NAME_def)
  note r = r [folded e]
  have l: "j < length ?a" using Suc.prems r(4) by simp
  have R: "read_name_entries name (Suc n) a = read_name_entries name n ?a"
    using read_name_entries_Suc [of name n a] by (simp add: CHAR_LONG_NAME_def)
  note IH = Suc.IH [OF l]
  show ?case unfolding R
  proof (intro conjI impI)
    show "read_name_entries name n ?a ! j = a ! j" if "Suc n * 13 \<le> j"
      using IH r(1) that by simp
    show "read_name_entries name n ?a ! j = name ! j" if "j < Suc n * 13" "j < length name"
    proof (cases "j < n * 13")
      case True then show ?thesis using IH that by blast
    next
      case False
      then have "?a ! j = ?p ! (j - n * 13)" using that by (intro r(2)) auto
      then show ?thesis using IH False that by simp
    qed
    show "read_name_entries name n ?a ! j = 0" if "j < Suc n * 13" "j = length name" "a ! j = 0"
    proof (cases "j < n * 13")
      case True then show ?thesis using IH that r(1) by simp
    next
      case False
      then have "?a ! j = 0" using that by (intro r(3) [of "j - n * 13"]) auto
      then show ?thesis using IH False by simp
    qed
  qed
qed (simp add: read_name_entries_def)

text \<open>Read into a cleared array, the entries give the name.\<close>

lemma read_back:
  assumes "name \<noteq> []" and "0 \<notin> set name" and "length name \<le> 255"
  shows "cstr (read_name_entries name (long_count (length name)) (replicate 256 0)) = name"
proof -
  let ?n = "long_count (length name)"
  let ?r = "read_name_entries name ?n (replicate 256 0)"
  have c: "length name \<le> ?n * 13" by (simp add: long_count_def CHAR_LONG_NAME_def)
  have len: "length ?r = 256"
  proof -
    have "length (read_entry_name a pos d) = length a" for a pos d
      by (simp add: read_entry_name_def Let_def)
    then have "length (read_name_entries name n a) = length a" for n a
      by (induction n arbitrary: a) (simp_all add: read_name_entries_Suc, simp add: read_name_entries_def)
    then show ?thesis by simp
  qed
  note r = read_name_entries_nth [OF assms(2), of _ "replicate 256 0" ?n]
  have r1: "?r ! j = name ! j" if "j < length name" for j
    using r [of j] that assms(3) c by simp
  have r2: "?r ! length name = 0"
    using r [of "length name"] assms(3) c by (cases "length name < ?n * 13") simp_all
  have "cstr ?r = take (length name) ?r" unfolding cstr_def
  proof (rule takeWhile_eq_take_P_nth)
    show "?r ! i \<noteq> 0" if "i < length name" for i using r1 [OF that] assms(2) that by (metis nth_mem)
  qed (use r2 in simp)
  also have "\<dots> = name" by (rule nth_equalityI) (use len assms(3) r1 in simp_all)
  finally show ?thesis .
qed

section \<open>Elements of a path\<close>

text \<open>The reference: the path split at its slashes, without the empty pieces.\<close>

primrec splits :: "u8 list \<Rightarrow> u8 list list" where
  "splits [] = [[]]"
| "splits (c # cs) = (if c = 0x2f then [] # splits cs else (c # hd (splits cs)) # tl (splits cs))"

definition elems :: "u8 list \<Rightarrow> u8 list list" where
  "elems p = filter (\<lambda>e. e \<noteq> []) (splits p)"

lemma splits_word: "splits p = takeWhile (\<lambda>c. c \<noteq> 0x2f) p
    # (case dropWhile (\<lambda>c. c \<noteq> 0x2f) p of [] \<Rightarrow> [] | _ # r \<Rightarrow> splits r)"
  by (induction p) auto

lemma elems_slashes: "elems (dropWhile (\<lambda>c. c = 0x2f) p) = elems p"
  by (induction p) (auto simp: elems_def)

lemma skipelem_elems:
  "skipelem p = None \<longleftrightarrow> elems p = []"
  "skipelem p = Some (n, r) \<Longrightarrow> \<exists>e. elems p = e # elems r \<and> n = take 255 e"
proof -
  define s where "s = dropWhile (\<lambda>c. c = 0x2f) p"
  have es: "elems p = elems s" unfolding s_def by (rule elems_slashes [symmetric])
  have hd: "s \<noteq> [] \<Longrightarrow> hd s \<noteq> 0x2f" using hd_dropWhile [of "\<lambda>c. c = 0x2f" p] by (simp add: s_def)
  have ne: "elems s = takeWhile (\<lambda>c. c \<noteq> 0x2f) s # elems (dropWhile (\<lambda>c. c = 0x2f) (dropWhile (\<lambda>c. c \<noteq> 0x2f) s))"
    if "s \<noteq> []"
  proof -
    have t: "takeWhile (\<lambda>c. c \<noteq> 0x2f) s \<noteq> []" using hd [OF that] that by (cases s) auto
    show ?thesis
    proof (cases "dropWhile (\<lambda>c. c \<noteq> 0x2f) s")
      case Nil
      have "splits s = [takeWhile (\<lambda>c. c \<noteq> 0x2f) s]" by (subst splits_word) (simp only: Nil list.case)
      then show ?thesis unfolding Nil elems_def using t by simp
    next
      case (Cons c r)
      then have "c = 0x2f" using hd_dropWhile [of "\<lambda>c. c \<noteq> 0x2f" s] by simp
      then show ?thesis using t Cons elems_slashes [of r] by (simp add: elems_def splits_word [of s])
    qed
  qed
  show "skipelem p = None \<longleftrightarrow> elems p = []"
    using ne es by (cases "s = []") (simp_all add: skipelem_def Let_def s_def [symmetric] elems_def)
  assume "skipelem p = Some (n, r)"
  then show "\<exists>e. elems p = e # elems r \<and> n = take 255 e"
    using ne es by (auto simp: skipelem_def Let_def s_def [symmetric] FAT32_MAX_FILENAME_def split: if_splits)
qed

lemma skipelem_shorter: "skipelem p = Some (n, r) \<Longrightarrow> length r < length p"
proof -
  assume a: "skipelem p = Some (n, r)"
  define s where "s = dropWhile (\<lambda>c. c = 0x2f) p"
  have s: "s \<noteq> []" "r = dropWhile (\<lambda>c. c = 0x2f) (dropWhile (\<lambda>c. c \<noteq> 0x2f) s)"
    using a by (auto simp: skipelem_def Let_def s_def [symmetric] split: if_splits)
  have "hd s \<noteq> 0x2f" using hd_dropWhile [of "\<lambda>c. c = 0x2f" p] s(1) by (simp add: s_def)
  then obtain c t where c: "s = c # t" "c \<noteq> 0x2f" using s(1) by (cases s) auto
  have "length r \<le> length (dropWhile (\<lambda>c. c \<noteq> 0x2f) t)" using s(2) c by (simp add: length_dropWhile_le)
  also have "\<dots> \<le> length t" by (rule length_dropWhile_le)
  also have "\<dots> < length s" using c by simp
  also have "\<dots> \<le> length p" unfolding s_def by (rule length_dropWhile_le)
  finally show ?thesis .
qed

section \<open>Properties\<close>

text \<open>
  A long name survives the disk: the long entries that \<open>emake\<close> builds for a name of 1 to 255 characters, read back
  by \<open>read_entry_name\<close> in the order they lie in the directory into a cleared array, give the name.
\<close>

theorem long_name_roundtrip:
  assumes "name \<noteq> []" and "0 \<notin> set name" and "length name \<le> 255"
  shows "cstr (read_name_entries name (long_count (length name)) (replicate 256 0)) = name"
  by (rule read_back [OF assms])

lemma long_name_roundtrip_witness:
  "cstr (read_name_entries (replicate 30 0x61) (long_count 30) (replicate 256 0)) = replicate 30 0x61"
  using long_name_roundtrip [of "replicate 30 0x61"] by simp

text \<open>
  What \<open>formatname\<close> accepts has no illegal character, starts with neither a space nor a dot, ends in no space, and is
  accepted again unchanged.
\<close>

theorem formatname_normal:
  assumes "formatname name = Some m"
  shows "(\<forall>c\<in>set m. \<not> illegal_char c) \<and> (m \<noteq> [] \<longrightarrow> hd m \<noteq> 0x20 \<and> hd m \<noteq> 0x2e \<and> last m \<noteq> 0x20)
    \<and> formatname m = Some m"
  using formatname_ok [OF assms] by blast

lemma formatname_normal_witness: "formatname [0x61, 0x62] = Some [0x61, 0x62]"
proof -
  have "formatname [0x20, 0x2e, 0x61, 0x62, 0x20] = Some [0x61, 0x62]"
    by (simp add: formatname_def trim_end_def illegal_char_def illegal_chars_def)
  then show ?thesis using formatname_normal by blast
qed

text \<open>A name of dots and spaces only becomes the empty name, which is accepted.\<close>

lemma formatname_dots: "set name \<subseteq> {0x20, 0x2e} \<Longrightarrow> formatname name = Some []"
proof -
  assume "set name \<subseteq> {0x20, 0x2e}"
  then have "dropWhile (\<lambda>c. c = 0x20 \<or> c = 0x2e) name = []" by (induction name) auto
  then show "formatname name = Some []" by (simp only: formatname_def Let_def) (simp add: trim_end_def)
qed

text \<open>The short name always fills its 11 characters and never runs over them, whatever the name is.\<close>

theorem shortname_length: "length (generate_shortname name) = CHAR_SHORT_NAME"
  using short_loop_length [of "[]" name 0 "Some (last_dot name)"] by (simp add: generate_shortname_def Let_def)

text \<open>The short entry of a file gives back its attribute, first cluster and size.\<close>

theorem short_entry_roundtrip:
  "read_entry_info (short_entry name attr clus sz) e
    = e\<lparr>attribute := attr, first_clus := clus, file_size := sz, cur_clus := clus, clus_cnt := 0\<rparr>"
proof -
  let ?n = "str_ncpy CHAR_SHORT_NAME name (replicate CHAR_SHORT_NAME 0)"
  have l: "length ?n = 11" by (simp add: str_ncpy_def Let_def CHAR_SHORT_NAME_def)
  have l16: "length (le16 v) = 2" for v by (simp add: le16_def)
  have g16: "get16 (le16 v) 0 = v" for v
  proof (rule bit_word_eqI)
    fix n assume n: "n < LENGTH(16)"
    have h: "bit (horner_sum uint 256 (le16 v)) n \<longleftrightarrow> n div 8 < 2 \<and> bit (le16 v ! (n div 8)) (n mod 8)"
      using bit_horner_sum_uint_exp_iff [of "le16 v" n] l16 by simp
    have g: "get16 (le16 v) 0 = word_of_int (horner_sum uint 256 (le16 v))"
      by (simp add: get16_def word_rcat_def le16_def)
    have "bit (le16 v ! k) r = bit v (8 * k + r)" if "k < 2" "r < 8" for k r
    proof -
      have "k \<in> {0, 1}" using that(1) by auto
      then show ?thesis using that(2) by (auto simp: le16_def bit_ucast_iff bit_drop_bit_eq)
    qed
    from this [of "n div 8" "n mod 8"] show "bit (get16 (le16 v) 0) n = bit v n"
      using n h by (simp add: g bit_word_of_int_iff less_mult_imp_div_less)
  qed
  let ?d = "short_entry name attr clus sz"
  have "?d ! 11 = attr" by (simp add: short_entry_def nth_append l)
  moreover have "get16 ?d 20 = get16 (le16 (ucast (drop_bit 16 clus))) 0" "get16 ?d 26 = get16 (le16 (ucast clus)) 0"
    by (rule get16_cong; simp add: short_entry_def nth_append l le16_def)+
  moreover have "get32 ?d 28 = get32 (le32 sz) 0"
    by (rule get32_cong) (auto simp: short_entry_def nth_append l le16_def)
  moreover have "(push_bit 16 (ucast (ucast (drop_bit 16 clus) :: u16)) OR ucast (ucast clus :: u16)) = clus"
    by (rule bit_word_eqI) (auto simp: bit_simps)
  ultimately show ?thesis by (simp add: read_entry_info_def Let_def g16 get32_le32)
qed

text \<open>
  Taking elements off a path with \<open>skipelem\<close> goes through the pieces between slashes, without the empty ones and
  cut to 255 characters: it ends exactly when there is none left.
\<close>

theorem skipelem_splits:
  "(skipelem p = None \<longleftrightarrow> elems p = [])
    \<and> (\<forall>n r. skipelem p = Some (n, r) \<longrightarrow> (\<exists>e. elems p = e # elems r \<and> n = take 255 e))"
  using skipelem_elems by blast

lemma skipelem_splits_witness: "elems [0x2f, 0x61, 0x2f, 0x2f, 0x62, 0x63] = [[0x61], [0x62, 0x63]]"
proof -
  have "skipelem [0x2f, 0x61, 0x2f, 0x2f, 0x62, 0x63] = Some ([0x61], [0x62, 0x63])"
    "skipelem [0x62, 0x63] = Some ([0x62, 0x63], [])" "skipelem [] = None"
    by (simp_all add: skipelem_def FAT32_MAX_FILENAME_def)
  then show ?thesis
    using skipelem_splits [of "[0x2f, 0x61, 0x2f, 0x2f, 0x62, 0x63]"] by (simp add: elems_def)
qed

end
