(* ===== verification/FatDir.thy ===== *)
theory FatDir imports FatFile FatName begin

text \<open>
  kernel/fat32.c, directories: the cache of entries with its reference counts and recency ring, finding, making,
  updating and removing the entries of a directory, and the walk along a path.
\<close>

section \<open>References and locks\<close>

text \<open>
  \<open>None\<close> is the null pointer. Address 0 is the first page of the running process, which the kernel's page table of a
  process maps too: what an access through the null pointer does is not modelled.
\<close>

definition edup :: "eptr option \<Rightarrow> 'a fat_st_scheme \<Rightarrow> (eptr option \<times> 'a fat_st_scheme) kres" where
  "edup ep s =
    (case ep of
       None \<Rightarrow> Inr (None, s)
     | Some e \<Rightarrow>
         kbind (lock EcacheLock s) (\<lambda>s.
         kbind (unlock EcacheLock (upd_ent e (\<lambda>d. d\<lparr>eref := eref d + 1\<rparr>) s)) (\<lambda>s. Inr (Some e, s))))"

definition elock :: "eptr option \<Rightarrow> 'a fat_st_scheme \<Rightarrow> 'a fat_st_scheme kres" where
  "elock ep s =
    (case ep of
       None \<Rightarrow> Inl (Panic ''elock'')
     | Some e \<Rightarrow> if sint (eref (dirents s e)) < 1 then Inl (Panic ''elock'') else acquiresleep (EntSL e) s)"

definition eunlock :: "eptr option \<Rightarrow> 'a fat_st_scheme \<Rightarrow> 'a fat_st_scheme kres" where
  "eunlock ep s =
    (case ep of
       None \<Rightarrow> Inl (Panic ''eunlock'')
     | Some e \<Rightarrow>
         kbind (holdingsleep (EntSL e) s) (\<lambda>(h, s).
           if \<not> h \<or> sint (eref (dirents s e)) < 1 then Inl (Panic ''eunlock'') else releasesleep (EntSL e) s))"

section \<open>The cache of entries\<close>

text \<open>The two searches of \<open>eget\<close> around the ring from \<open>root\<close>.\<close>

fun eget_cached :: "nat \<Rightarrow> eptr \<Rightarrow> eptr \<Rightarrow> u8 list \<Rightarrow> 'a fat_st_scheme \<Rightarrow> nat option kres" where
  "eget_cached fuel Root dp name s = Inr None"
| "eget_cached 0 (Ent i) dp name s = Inl Deep"
| "eget_cached (Suc fuel) (Ent i) dp name s =
    (let d = dirents s (Ent i) in
     if evalid d = 1 \<and> eparent d = Some dp \<and> str_eq FAT32_MAX_FILENAME (filename d) name then Inr (Some i)
     else eget_cached fuel (ent_next s (Ent i)) dp name s)"

fun eget_unused :: "nat \<Rightarrow> eptr \<Rightarrow> 'a fat_st_scheme \<Rightarrow> nat option kres" where
  "eget_unused fuel Root s = Inr None"
| "eget_unused 0 (Ent i) s = Inl Deep"
| "eget_unused (Suc fuel) (Ent i) s =
    (if eref (dirents s (Ent i)) = 0 then Inr (Some i) else eget_unused fuel (ent_prev s (Ent i)) s)"

definition eget :: "eptr \<Rightarrow> u8 list option \<Rightarrow> 'a fat_st_scheme \<Rightarrow> (eptr \<times> 'a fat_st_scheme) kres" where
  "eget dp name s =
    kbind (lock EcacheLock s) (\<lambda>s.
    kbind (case name of None \<Rightarrow> Inr None
           | Some nm \<Rightarrow> eget_cached ENTRY_CACHE_NUM (ent_next s Root) dp nm s) (\<lambda>r.
      case r of
        Some i \<Rightarrow>
          let was = eref (dirents s (Ent i));
              s = upd_ent (Ent i) (\<lambda>d. d\<lparr>eref := eref d + 1\<rparr>) s;
              s = (if was = 0 then
                     case eparent (dirents s (Ent i)) of None \<Rightarrow> s
                     | Some q \<Rightarrow> upd_ent q (\<lambda>d. d\<lparr>eref := eref d + 1\<rparr>) s
                   else s)
          in kbind (unlock EcacheLock s) (\<lambda>s. Inr (Ent i, s))
      | None \<Rightarrow>
          kbind (eget_unused ENTRY_CACHE_NUM (ent_prev s Root) s) (\<lambda>r.
            case r of
              Some i \<Rightarrow>
                let s = upd_ent (Ent i) (\<lambda>d. d\<lparr>eref := 1, edev := edev (dirents s dp), eoff := 0, evalid := 0, dirty := 0\<rparr>) s
                in kbind (unlock EcacheLock s) (\<lambda>s. Inr (Ent i, s))
            | None \<Rightarrow> Inl (Panic ''eget: insufficient ecache''))))"

section \<open>Writing entries\<close>

text \<open>One entry of 32 bytes of the directory \<open>dp\<close>: \<open>reloc_clus\<close>, then \<open>rw_clus\<close>.\<close>

definition put_slot :: "eptr \<Rightarrow> u32 \<Rightarrow> u8 list \<Rightarrow> 'a fat_st_scheme \<Rightarrow> 'a fat_st_scheme kres" where
  "put_slot dp off de s =
    kbind (reloc_clus dp off True s) (\<lambda>(off, s).
    kbind (rw_clus (cur_clus (dirents s dp)) True (Obj de) off 32 s) (\<lambda>(_, _, s). Inr s))"

primrec put_slots :: "eptr \<Rightarrow> u32 \<Rightarrow> u8 list list \<Rightarrow> 'a fat_st_scheme \<Rightarrow> (u32 \<times> 'a fat_st_scheme) kres" where
  "put_slots dp off [] s = Inr (off, s)"
| "put_slots dp off (de # des) s = kbind (put_slot dp off de s) (put_slots dp (off + 32) des)"

definition emake :: "eptr \<Rightarrow> eptr \<Rightarrow> u32 \<Rightarrow> 'a fat_st_scheme \<Rightarrow> 'a fat_st_scheme kres" where
  "emake dp ep off s =
    (if attribute (dirents s dp) AND ATTR_DIRECTORY = 0 then Inl (Panic ''emake: not dir'')
     else if off mod 32 \<noteq> 0 then Inl (Panic ''emake: not aligned'')
     else
       let d = dirents s ep in
       if off \<le> 32 then put_slot dp off (short_entry (dot_name off) ATTR_DIRECTORY (first_clus d) 0) s
       else
         let name = cstr (filename d) in
         kbind (put_slots dp off (map (name_entry name) (rev [1..<Suc (long_count (length name))])) s) (\<lambda>(off, s).
           let d = dirents s ep in
           put_slot dp off (short_entry (generate_shortname name) (attribute d) (first_clus d) (file_size d)) s))"

text \<open>The three fields \<open>eupdate\<close> changes in the short entry.\<close>

definition patch_entry :: "u32 \<Rightarrow> u32 \<Rightarrow> u8 list \<Rightarrow> u8 list" where
  "patch_entry clus sz de =
    splice 28 (le32 sz) (splice 26 (le16 (ucast clus)) (splice 20 (le16 (ucast (drop_bit 16 clus))) de))"

text \<open>The first byte of the first entry: how many long entries there are.\<close>

definition entry_count :: "u8 list \<Rightarrow> u32" where
  "entry_count bs = (case bs of [] \<Rightarrow> 0 | b # _ \<Rightarrow> ucast b) AND NOT (ucast LAST_LONG_ENTRY)"

definition eupdate :: "eptr \<Rightarrow> 'a fat_st_scheme \<Rightarrow> 'a fat_st_scheme kres" where
  "eupdate e s =
    (if dirty (dirents s e) = 0 \<or> evalid (dirents s e) \<noteq> 1 then Inr s
     else case eparent (dirents s e) of
       None \<Rightarrow> Inl Wild
     | Some dp \<Rightarrow>
         kbind (reloc_clus dp (eoff (dirents s e)) False s) (\<lambda>(off, s).
         kbind (rw_clus (cur_clus (dirents s dp)) False (Obj []) off 1 s) (\<lambda>(_, bs, s).
         kbind (reloc_clus dp (eoff (dirents s e) + push_bit 5 (entry_count bs)) False s) (\<lambda>(off, s).
         kbind (rw_clus (cur_clus (dirents s dp)) False (Obj []) off 32 s) (\<lambda>(_, de, s).
         kbind (rw_clus (cur_clus (dirents s dp)) True
                  (Obj (patch_entry (first_clus (dirents s e)) (file_size (dirents s e)) de)) off 32 s) (\<lambda>(_, _, s).
           Inr (upd_ent e (\<lambda>d. d\<lparr>dirty := 0\<rparr>) s)))))))"

primrec eremove_loop :: "nat \<Rightarrow> eptr \<Rightarrow> u32 \<Rightarrow> u32 \<Rightarrow> 'a fat_st_scheme \<Rightarrow> 'a fat_st_scheme kres" where
  "eremove_loop 0 dp off off2 s = Inr s"
| "eremove_loop (Suc n) dp off off2 s =
    kbind (rw_clus (cur_clus (dirents s dp)) True (Obj [EMPTY_ENTRY]) off2 1 s) (\<lambda>(_, _, s).
    kbind (reloc_clus dp (off + 32) False s) (\<lambda>(off2, s). eremove_loop n dp (off + 32) off2 s))"

definition eremove :: "eptr \<Rightarrow> 'a fat_st_scheme \<Rightarrow> 'a fat_st_scheme kres" where
  "eremove e s =
    (if evalid (dirents s e) \<noteq> 1 then Inr s
     else case eparent (dirents s e) of
       None \<Rightarrow> Inl Wild
     | Some dp \<Rightarrow>
         let off = eoff (dirents s e) in
         kbind (reloc_clus dp off False s) (\<lambda>(off2, s).
         kbind (rw_clus (cur_clus (dirents s dp)) False (Obj []) off2 1 s) (\<lambda>(_, bs, s).
         kbind (eremove_loop (Suc (unat (entry_count bs))) dp off off2 s) (\<lambda>s.
           Inr (upd_ent e (\<lambda>d. d\<lparr>evalid := - 1\<rparr>) s)))))"

section \<open>Giving a reference back\<close>

text \<open>A chain of parents is not longer than the cache: the fuel of \<open>eput\<close>.\<close>

definition emove_front :: "eptr \<Rightarrow> 'a fat_st_scheme \<Rightarrow> 'a fat_st_scheme" where
  "emove_front e s =
    (let s = set_eprev (ent_next s e) (ent_prev s e) s;
         s = set_enext (ent_prev s e) (ent_next s e) s;
         s = set_enext e (ent_next s Root) s;
         s = set_eprev e Root s;
         s = set_eprev (ent_next s Root) e s
     in set_enext Root e s)"

fun eput_loop :: "nat \<Rightarrow> eptr option \<Rightarrow> 'a fat_st_scheme \<Rightarrow> 'a fat_st_scheme kres" where
  "eput_loop fuel None s = Inl Wild"
| "eput_loop fuel (Some e) s =
    kbind (lock EcacheLock s) (\<lambda>s.
      if e \<noteq> Root \<and> evalid (dirents s e) \<noteq> 0 \<and> eref (dirents s e) = 1 then
        kbind (acquiresleep (EntSL e) s) (\<lambda>s.
        kbind (unlock EcacheLock (emove_front e s)) (\<lambda>s.
        kbind (if evalid (dirents s e) = - 1 then etrunc e s
               else kbind (elock (eparent (dirents s e)) s) (\<lambda>s.
                    kbind (eupdate e s) (\<lambda>s. eunlock (eparent (dirents s e)) s))) (\<lambda>s.
        kbind (releasesleep (EntSL e) s) (\<lambda>s.
          let dp = eparent (dirents s e) in
          kbind (lock EcacheLock s) (\<lambda>s.
          kbind (unlock EcacheLock (upd_ent e (\<lambda>d. d\<lparr>eref := eref d - 1\<rparr>) s)) (\<lambda>s.
            if eref (dirents s e) = 0 then
              case fuel of 0 \<Rightarrow> Inl Deep | Suc fuel \<Rightarrow> eput_loop fuel dp s
            else Inr s))))))
      else unlock EcacheLock (upd_ent e (\<lambda>d. d\<lparr>eref := eref d - 1\<rparr>) s))"

definition eput :: "eptr option \<Rightarrow> 'a fat_st_scheme \<Rightarrow> 'a fat_st_scheme kres" where
  "eput e s = eput_loop ENTRY_CACHE_NUM e s"

section \<open>Reading a directory\<close>

text \<open>
  A FAT directory has at most 65536 entries of 32 bytes: the fuel of the two loops that scan one. The loop ends
  earlier with -1 at the end of the chain.
\<close>

definition DIR_ENTRIES :: nat where "DIR_ENTRIES = 65536"

text \<open>
  \<open>count\<close> is the pointer of the code: \<open>Some v\<close> while it is not null, then \<open>v\<close> is what it points to; a store
  through the null pointer is \<open>Wild\<close>. The number of a long entry comes from the disk and is not checked: a number
  outside of 1 to 20 writes outside of \<open>filename\<close>.
\<close>

fun enext_loop :: "nat \<Rightarrow> eptr \<Rightarrow> eptr \<Rightarrow> u32 \<Rightarrow> nat \<Rightarrow> nat \<Rightarrow> bool \<Rightarrow> 'a fat_st_scheme \<Rightarrow> (int \<times> nat \<times> 'a fat_st_scheme) kres" where
  "enext_loop 0 dp ep off cnt count null s = Inl Deep"
| "enext_loop (Suc fuel) dp ep off cnt count null s =
    kbind (reloc_clus dp off False s) (\<lambda>(off2, s).
      if off2 = - 1 then Inr (- 1, count, s)
      else
        kbind (rw_clus (cur_clus (dirents s dp)) False (Obj []) off2 32 s) (\<lambda>(r, de, s).
          if r \<noteq> 32 \<or> de ! 0 = END_OF_ENTRY then Inr (- 1, count, s)
          else if de ! 0 = EMPTY_ENTRY then enext_loop fuel dp ep (off + 32) (cnt + 1) count null s
          else if cnt > 0 then
            if null then Inl Wild else Inr (0, cnt, s)
          else if de ! 11 = ATTR_LONG_NAME then
            let lcnt = unat (de ! 0 AND NOT LAST_LONG_ENTRY); is_last = de ! 0 AND LAST_LONG_ENTRY \<noteq> 0 in
            if is_last \<and> null then Inl Wild
            else if lcnt = 0 \<or> lcnt > 20 then Inl Wild
            else
              let s = upd_ent ep (\<lambda>d. d\<lparr>filename := read_entry_name (filename d) ((lcnt - 1) * CHAR_LONG_NAME) de\<rparr>) s
              in enext_loop fuel dp ep (off + 32) cnt (if is_last then lcnt + 1 else count) (null \<or> is_last) s
          else
            let s = (if null then s else upd_ent ep (\<lambda>d. d\<lparr>filename := read_entry_name (filename d) 0 de\<rparr>) s)
            in Inr (1, if null then count else 1, upd_ent ep (read_entry_info de) s)))"

definition enext :: "eptr \<Rightarrow> eptr \<Rightarrow> u32 \<Rightarrow> nat \<Rightarrow> 'a fat_st_scheme \<Rightarrow> (int \<times> nat \<times> 'a fat_st_scheme) kres" where
  "enext dp ep off count s =
    (if attribute (dirents s dp) AND ATTR_DIRECTORY = 0 then Inl (Panic ''enext not dir'')
     else if evalid (dirents s ep) \<noteq> 0 then Inl (Panic ''enext ep valid'')
     else if off mod 32 \<noteq> 0 then Inl (Panic ''enext not align'')
     else if evalid (dirents s dp) \<noteq> 1 then Inr (- 1, count, s)
     else enext_loop DIR_ENTRIES dp ep off 0 count False
            (upd_ent ep (\<lambda>d. d\<lparr>filename := replicate (FAT32_MAX_FILENAME + 1) 0\<rparr>) s))"

text \<open>
  The loop of \<open>dirlookup\<close>. The condition assigns the truth of the comparison to \<open>type\<close>, so \<open>type\<close> is 1 in every turn.
  \<open>poff\<close> is \<open>None\<close> for the null pointer; the offset found is returned.
\<close>

primrec dirlookup_loop :: "nat \<Rightarrow> eptr \<Rightarrow> eptr \<Rightarrow> u8 list \<Rightarrow> nat \<Rightarrow> u32 \<Rightarrow> nat \<Rightarrow> bool \<Rightarrow> u32 option \<Rightarrow> 'a fat_st_scheme
    \<Rightarrow> (eptr option \<times> u32 option \<times> 'a fat_st_scheme) kres" where
  "dirlookup_loop 0 dp ep fname entcnt off count wants found s = Inl Deep"
| "dirlookup_loop (Suc fuel) dp ep fname entcnt off count wants found s =
    kbind (enext dp ep off count s) (\<lambda>(r, count, s).
      let type = (if r \<noteq> - 1 then 1 else 0) in
      if type \<noteq> (0::int) then
        if type = 0 then
          let hit = wants \<and> count \<ge> entcnt in
          dirlookup_loop fuel dp ep fname entcnt (off + push_bit 5 (of_nat count)) count (wants \<and> \<not> hit)
            (if hit then Some off else found) s
        else if str_eq FAT32_MAX_FILENAME fname (filename (dirents s ep)) then
          kbind (edup (Some dp) s) (\<lambda>(q, s).
            Inr (Some ep, found, upd_ent ep (\<lambda>d. d\<lparr>eparent := q, eoff := off, evalid := 1\<rparr>) s))
        else dirlookup_loop fuel dp ep fname entcnt (off + push_bit 5 (of_nat count)) count wants found s
      else
        kbind (eput (Some ep) s) (\<lambda>s. Inr (None, if wants then Some off else found, s)))"

definition dirlookup :: "eptr \<Rightarrow> u8 list \<Rightarrow> bool \<Rightarrow> 'a fat_st_scheme \<Rightarrow> (eptr option \<times> u32 option \<times> 'a fat_st_scheme) kres" where
  "dirlookup dp fname wants s =
    (if attribute (dirents s dp) AND ATTR_DIRECTORY = 0 then Inl (Panic ''dirlookup not DIR'')
     else if str_eq FAT32_MAX_FILENAME fname [0x2e] then kbind (edup (Some dp) s) (\<lambda>(q, s). Inr (q, None, s))
     else if str_eq FAT32_MAX_FILENAME fname [0x2e, 0x2e] then
       if dp = Root then kbind (edup (Some Root) s) (\<lambda>(q, s). Inr (q, None, s))
       else kbind (edup (eparent (dirents s dp)) s) (\<lambda>(q, s). Inr (q, None, s))
     else if evalid (dirents s dp) \<noteq> 1 then Inr (None, None, s)
     else
       kbind (eget dp (Some fname) s) (\<lambda>(ep, s).
         if evalid (dirents s ep) = 1 then Inr (Some ep, None, s)
         else
           let entcnt = long_count (length (cstr fname)) + 1 in
           kbind (reloc_clus dp 0 False s) (\<lambda>(_, s).
             dirlookup_loop (Suc DIR_ENTRIES) dp ep fname entcnt 0 0 wants None s)))"

definition ealloc :: "eptr \<Rightarrow> u8 list \<Rightarrow> u8 \<Rightarrow> 'a fat_st_scheme \<Rightarrow> (eptr option \<times> 'a fat_st_scheme) kres" where
  "ealloc dp name attr s =
    (if attribute (dirents s dp) AND ATTR_DIRECTORY = 0 then Inl (Panic ''ealloc not dir'')
     else if evalid (dirents s dp) \<noteq> 1 then Inr (None, s)
     else case formatname (cstr name) of
       None \<Rightarrow> Inr (None, s)
     | Some name \<Rightarrow>
         kbind (dirlookup dp name True s) (\<lambda>(found, off, s).
           case found of
             Some ep \<Rightarrow> Inr (Some ep, s)
           | None \<Rightarrow>
               let off = (case off of None \<Rightarrow> 0 | Some off \<Rightarrow> off) in
               kbind (eget dp (Some name) s) (\<lambda>(ep, s).
               kbind (elock (Some ep) s) (\<lambda>s.
               kbind (edup (Some dp) (upd_ent ep (\<lambda>d. d\<lparr>attribute := attr, file_size := 0, first_clus := 0\<rparr>) s)) (\<lambda>(q, s).
                 let s = upd_ent ep (\<lambda>d. d\<lparr>eparent := q, eoff := off, clus_cnt := 0, cur_clus := 0, dirty := 0,
                       filename := take 255 (str_ncpy FAT32_MAX_FILENAME name (filename d)) @ [0]\<rparr>) s in
                 kbind (if attr = ATTR_DIRECTORY then
                          kbind (alloc_clus (edev (dirents s dp)) (upd_ent ep (\<lambda>d. d\<lparr>attribute := attribute d OR ATTR_DIRECTORY\<rparr>) s)) (\<lambda>(clus, s).
                            let s = upd_ent ep (\<lambda>d. d\<lparr>cur_clus := clus, first_clus := clus\<rparr>) s in
                            kbind (emake ep ep 0 s) (emake ep dp 32))
                        else Inr (upd_ent ep (\<lambda>d. d\<lparr>attribute := attribute d OR ATTR_ARCHIVE\<rparr>) s)) (\<lambda>s.
                 kbind (emake dp ep off s) (\<lambda>s.
                 kbind (eunlock (Some ep) (upd_ent ep (\<lambda>d. d\<lparr>evalid := 1\<rparr>) s)) (\<lambda>s.
                   Inr (Some ep, s)))))))))"

section \<open>Paths\<close>

text \<open>
  The loop of \<open>lookup_path\<close> from the entry \<open>ep\<close> on. The result has the element that was taken off last in \<open>name\<close>. Every
  turn shortens the path.
\<close>

function lookup_loop :: "u8 list \<Rightarrow> bool \<Rightarrow> u8 list \<Rightarrow> eptr option \<Rightarrow> 'a fat_st_scheme \<Rightarrow> (eptr option \<times> u8 list \<times> 'a fat_st_scheme) kres" where
  "lookup_loop str par name ep s =
    (case skipelem str of
       None \<Rightarrow> if par then kbind (eput ep s) (\<lambda>s. Inr (None, name, s)) else Inr (ep, name, s)
     | Some (name, rest) \<Rightarrow>
         kbind (elock ep s) (\<lambda>s.
           if attribute (dirents s (the ep)) AND ATTR_DIRECTORY = 0 then
             kbind (eunlock ep s) (\<lambda>s. kbind (eput ep s) (\<lambda>s. Inr (None, name, s)))
           else if par \<and> rest = [] then
             kbind (eunlock ep s) (\<lambda>s. Inr (ep, name, s))
           else
             kbind (dirlookup (the ep) name False s) (\<lambda>(nxt, _, s).
             kbind (eunlock ep s) (\<lambda>s.
             kbind (eput ep s) (\<lambda>s.
               if nxt = None then Inr (None, name, s) else lookup_loop rest par name nxt s)))))"
  by pat_completeness auto
termination
  by (relation "measure (\<lambda>(str, _). length str)") (auto simp: skipelem_shorter)

declare lookup_loop.simps [simp del]

definition lookup_path :: "u8 list \<Rightarrow> bool \<Rightarrow> u8 list \<Rightarrow> 'a fat_st_scheme \<Rightarrow> (eptr option \<times> u8 list \<times> 'a fat_st_scheme) kres" where
  "lookup_path str par name s =
    (if str \<noteq> [] \<and> hd str = 0x2f then kbind (edup (Some Root) s) (\<lambda>(ep, s). lookup_loop str par name ep s)
     else if str \<noteq> [] then
       kbind (curproc s) (\<lambda>(p, s).
       kbind (edup (cwd (procs s p)) s) (\<lambda>(ep, s). lookup_loop str par name ep s))
     else Inr (None, name, s))"

definition ename :: "u8 list \<Rightarrow> 'a fat_st_scheme \<Rightarrow> (eptr option \<times> 'a fat_st_scheme) kres" where
  "ename str s = kbind (lookup_path str False [] s) (\<lambda>(e, _, s). Inr (e, s))"

definition enameparent :: "u8 list \<Rightarrow> u8 list \<Rightarrow> 'a fat_st_scheme \<Rightarrow> (eptr option \<times> u8 list \<times> 'a fat_st_scheme) kres" where
  "enameparent str name s = lookup_path str True name s"

section \<open>Locks that are free\<close>

lemma entry_frame [simp]: "dirents (set_slock k v s) = dirents s" "slocks (upd_ent e g s) = slocks s"
  for s :: "'a fat_st_scheme"
  by (simp_all add: set_slock_def upd_ent_def)

lemma elock_free:
  assumes "running p s" and "\<not> sl_locked (slocks s (EntSL e))" and "1 \<le> sint (eref (dirents s e))"
  shows "elock (Some e) s = Inr (set_slock (EntSL e) \<lparr>sl_locked = True, sl_pid = pid (procs s p)\<rparr> (s\<lparr>core := settle (core s)\<rparr>))"
  using assms by (simp add: elock_def lock_simps)

lemma eunlock_held:
  assumes "running p s" and "slocks s (EntSL e) = \<lparr>sl_locked = True, sl_pid = pid (procs s p)\<rparr>" and "1 \<le> sint (eref (dirents s e))"
  shows "eunlock (Some e) s = Inr (set_slock (EntSL e) \<lparr>sl_locked = False, sl_pid = 0\<rparr> (wake (ChSleepLock (EntSL e)) (s\<lparr>core := settle (core s)\<rparr>)))"
  using assms releasesleep_eq [OF running_settle [OF assms(1)]] by (simp add: eunlock_def lock_simps)

lemma upd_ent_core [simp]: "(upd_ent e f s)\<lparr>core := c\<rparr> = upd_ent e f (s\<lparr>core := c\<rparr>)"
  by (simp add: upd_ent_def)

lemma edup_ok [lock_simps]:
  assumes "running p s"
  shows "edup (Some e) s = Inr (Some e, upd_ent e (\<lambda>d. d\<lparr>eref := eref d + 1\<rparr>) (s\<lparr>core := settle (core s)\<rparr>))"
  using runningD [OF assms] by (simp add: edup_def lock_simps)

lemma eput_shared [lock_simps]:
  assumes "running p s" and "eref (dirents s e) \<noteq> 1 \<or> e = Root \<or> evalid (dirents s e) = 0"
  shows "eput (Some e) s = Inr (upd_ent e (\<lambda>d. d\<lparr>eref := eref d - 1\<rparr>) (s\<lparr>core := settle (core s)\<rparr>))"
  using runningD [OF assms(1)] assms(2) by (auto simp: eput_def ENTRY_CACHE_NUM_def lock_simps)

section \<open>Status\<close>

record stat =
  st_name :: "u8 list"
  st_dev :: int
  st_type :: int
  st_size :: u64

definition estat :: "eptr \<Rightarrow> stat \<Rightarrow> 'a fat_st_scheme \<Rightarrow> stat" where
  "estat e st s =
    (let d = dirents s e in
     st\<lparr>st_name := str_ncpy 32 (filename d) (st_name st),
        st_type := (if attribute d AND ATTR_DIRECTORY \<noteq> 0 then 1 else 2),
        st_dev := uint (edev d), st_size := ucast (file_size d)\<rparr>)"

end
