(* ===== verification/DirScan.thy ===== *)
theory DirScan imports FatDir begin

text \<open>
  Directories as abstract listings, reading: the bytes of a directory are the slots of a list of records, and the
  loops of FatDir that read slots are shown to search that list.
\<close>

section \<open>Scanning\<close>

text \<open>
  What no operation on files changes: the shape of the cache of entries, the locks of entries, the numbers of processes.
  What a scan of the directory \<open>dp\<close> into the entry \<open>ep\<close> leaves alone: the disk, every other entry, and of \<open>dp\<close>
  everything but the cursor.
\<close>

definition frame :: "'a fat_st_scheme \<Rightarrow> 'a fat_st_scheme \<Rightarrow> bool" where
  "frame s t \<longleftrightarrow> fat t = fat s \<and> ent_next t = ent_next s \<and> ent_prev t = ent_prev s
    \<and> (\<forall>k. \<not> buf_lock k \<longrightarrow> slocks t k = slocks s k) \<and> (\<forall>i. pid (procs t i) = pid (procs s i))"

lemma frameD:
  assumes "frame s t"
  shows "fat t = fat s" and "ent_next t = ent_next s" and "ent_prev t = ent_prev s"
    and "slocks t (EntSL e) = slocks s (EntSL e)" and "pid (procs t i) = pid (procs s i)"
  using assms by (simp_all add: frame_def)

lemma ent_step_frame: "ent_step e s t \<Longrightarrow> frame s t"
proof -
  assume "ent_step e s t"
  then obtain c i where a: "io_step (upd_ent e (at_clus c i) s) t" by (auto simp: ent_step_def)
  show ?thesis using io_step_fat [OF a] io_step_keeps(4,6) [OF a] by (simp add: frame_def)
qed

definition same_ref :: "dirent \<Rightarrow> dirent \<Rightarrow> bool" where
  "same_ref d e \<longleftrightarrow> edev e = edev d \<and> dirty e = dirty d \<and> evalid e = evalid d \<and> eref e = eref d \<and> eoff e = eoff d
    \<and> eparent e = eparent d"

definition scan :: "nat \<Rightarrow> eptr \<Rightarrow> eptr \<Rightarrow> u32 list \<Rightarrow> 'a fat_st_scheme \<Rightarrow> 'a fat_st_scheme \<Rightarrow> bool" where
  "scan p dp ep xs s t \<longleftrightarrow> fat_ok p t \<and> on_chain t dp xs \<and> frame s t \<and> sectors t = sectors s
    \<and> (\<forall>j. j \<noteq> dp \<longrightarrow> j \<noteq> ep \<longrightarrow> dirents t j = dirents s j)
    \<and> at_clus 0 0 (dirents t dp) = at_clus 0 0 (dirents s dp) \<and> same_ref (dirents s ep) (dirents t ep)"

lemma at_clus_eqD:
  assumes "at_clus 0 0 d = at_clus 0 0 d'"
  shows "same_ref d d'" and "attribute d = attribute d'" and "filename d = filename d'"
    and "first_clus d = first_clus d'" and "file_size d = file_size d'"
  using assms by (cases d; cases d'; simp add: at_clus_def same_ref_def)+

lemma scanD:
  assumes "scan p dp ep xs s t"
  shows "fat_ok p t" and "on_chain t dp xs" and "fat t = fat s" and "sectors t = sectors s"
    and "file_bytes t ys = file_bytes s ys" and "attribute (dirents t dp) = attribute (dirents s dp)"
    and "same_ref (dirents s dp) (dirents t dp)" and "same_ref (dirents s ep) (dirents t ep)"
    and "j \<noteq> dp \<Longrightarrow> j \<noteq> ep \<Longrightarrow> dirents t j = dirents s j"
    and "frame s t"
proof -
  show f: "frame s t" using assms by (simp add: scan_def)
  show "fat_ok p t" "on_chain t dp xs" "fat t = fat s" "sectors t = sectors s" "file_bytes t ys = file_bytes s ys"
    "attribute (dirents t dp) = attribute (dirents s dp)" "same_ref (dirents s dp) (dirents t dp)"
    "same_ref (dirents s ep) (dirents t ep)" "j \<noteq> dp \<Longrightarrow> j \<noteq> ep \<Longrightarrow> dirents t j = dirents s j"
    using assms frameD(1) [OF f] at_clus_eqD [of "dirents s dp" "dirents t dp"]
    by (simp_all add: scan_def file_bytes_def cluster_data_def [abs_def])
qed

lemma scan_trans [trans]: "scan p dp ep xs s t \<Longrightarrow> scan p dp ep xs t u \<Longrightarrow> scan p dp ep xs s u"
  by (simp add: scan_def same_ref_def frame_def)

lemma ent_step_scan:
  assumes "ent_step dp s t" and "fat_ok p t" and "on_chain t dp xs" and "sectors t = sectors s" and "dp \<noteq> ep"
  shows "scan p dp ep xs s t"
proof -
  obtain c i where a: "io_step (upd_ent dp (at_clus c i) s) t" using assms(1) by (auto simp: ent_step_def)
  note f = io_step_fat [OF a]
  show ?thesis using assms f ent_step_frame [OF assms(1)] by (simp add: scan_def same_ref_def at_clus_def)
qed

lemma scan_refl:
  assumes "fat_ok p s" and "on_chain s dp xs" and "dp \<noteq> ep"
  shows "scan p dp ep xs s s"
  by (rule ent_step_scan [OF ent_step_refl assms(1,2) refl assms(3)])

lemma scan_upd_ent:
  assumes "scan p dp ep xs s t" and "dp \<noteq> ep" and "same_ref (dirents t ep) (f (dirents t ep))"
  shows "scan p dp ep xs s (upd_ent ep f t)"
  using assms by (simp add: scan_def same_ref_def on_chain_def frame_def)

section \<open>Slots\<close>

lemma slot_below: "x < b \<Longrightarrow> b mod 32 = 0 \<Longrightarrow> x mod 32 = 0 \<Longrightarrow> x + 32 \<le> (b::nat)"
  by presburger

lemma slot_fits:
  fixes off :: u32
  assumes "geom f" and "off mod 32 = 0"
  shows "unat (off mod byts_per_clus f) + 32 \<le> unat (sec_per_clus f) * 512"
    and "off mod byts_per_clus f \<noteq> - 1"
proof -
  note g = geom_bpc [OF assms(1)]
  let ?b = "unat (byts_per_clus f)"
  have b0: "0 < ?b" using g(2) by (simp add: word_less_nat_alt)
  have "unat off mod 32 = 0" using assms(2) unat_mod [of off 32] by simp
  then have m: "unat off mod ?b mod 32 = 0" using g(1) by (simp add: mod_mod_cancel)
  have "unat off mod ?b < ?b" by (rule mod_less_divisor [OF b0])
  moreover have "?b mod 32 = 0" using g(1) by simp
  ultimately have le: "unat off mod ?b + 32 \<le> ?b" using m by (rule slot_below)
  then show "unat (off mod byts_per_clus f) + 32 \<le> unat (sec_per_clus f) * 512" using g(1) by (simp add: unat_mod)
  then have "unat (off mod byts_per_clus f) < 2 ^ 17" using g(1,3) by simp
  then show "off mod byts_per_clus f \<noteq> - 1" by (auto simp: unsigned_minus_1_eq_mask mask_eq_exp_minus_1)
qed

lemma get_slot:
  assumes "fat_ok p s" and "on_chain s dp xs" and "dp \<noteq> ep" and "off mod 32 = 0"
    and "drop (unat off) (file_bytes s xs) = de @ r" and "length de = 32"
  obtains o2 s1 t where "reloc_clus dp off False s = Inr (o2, s1)" and "o2 \<noteq> - 1"
    and "rw_clus (cur_clus (dirents s1 dp)) False (Obj []) o2 32 s1 = Inr (32, de, t)" and "scan p dp ep xs s t"
    and "dirents t ep = dirents s ep"
proof -
  let ?b = "unat (byts_per_clus (fat s))" and ?q = "unat off div unat (byts_per_clus (fat s))"
  note g = fat_okD(2) [OF assms(1)]
  note gb = geom_bpc [OF g] and sf = slot_fits [OF g assms(4)]
  have lf: "length (file_bytes s xs) = length xs * ?b" by (rule length_file_bytes [OF assms(1)])
  have "length (drop (unat off) (file_bytes s xs)) \<ge> 32" unfolding assms(5) using assms(6) by simp
  then have ol: "unat off < length xs * ?b" using lf by simp
  then have q: "?q < length xs" by (simp add: less_mult_imp_div_less)
  obtain s1 where s1: "reloc_clus dp off False s = Inr (off mod byts_per_clus (fat s), s1)" "fat_ok p s1"
    "sectors s1 = sectors s" "ent_step dp s s1" "on_chain s1 dp xs" "cur_clus (dirents s1 dp) = xs ! ?q"
    by (rule reloc_step [OF assms(1,2) q])
  have f1: "fat s1 = fat s" by (rule ent_step_keeps(1) [OF s1(4)])
  have cd1: "cluster_data s1 = cluster_data s" by (simp add: cluster_data_def [abs_def] f1 s1(3))
  have fit: "unat (off mod byts_per_clus (fat s)) + unat (32 :: u32) \<le> unat (sec_per_clus (fat s1)) * 512"
    using sf(1) f1 by simp
  obtain t where t: "rw_clus (xs ! ?q) False (Obj []) (off mod byts_per_clus (fat s)) 32 s1
      = Inr (32, take 32 (drop (unat (off mod byts_per_clus (fat s))) (cluster_data s1 (xs ! ?q))), t)"
    "fat_ok p t" "sectors t = sectors s1" "io_step s1 t"
    using rw_clus_read [OF s1(2) fit, of "xs ! ?q" "[]"] by auto
  note f2 = io_step_fat [OF t(4)]
  have m: "unat (off mod byts_per_clus (fat s)) = unat off mod ?b" by (simp add: unat_mod)
  have "take 32 (drop (unat off mod ?b) (cluster_data s1 (xs ! ?q))) = take 32 (drop (unat off) (file_bytes s xs))"
    unfolding file_bytes_nth cd1
    by (rule concat_piece [symmetric]) (use cluster_data_props(1) [OF assms(1)] gb(1) ol sf(1) m in auto)
  then have piece: "take 32 (drop (unat off mod ?b) (cluster_data s1 (xs ! ?q))) = de" unfolding assms(5) using assms(6) by simp
  have oc: "on_chain t dp xs"
  proof -
    have "fchain t (first_clus (dirents s1 dp)) xs"
      by (rule fchain_cong [of s1]) (use s1(5) f2(1) t(3) in \<open>simp_all add: on_chain_def fat_entry_def\<close>)
    then show ?thesis using s1(5) f2(2) by (simp add: on_chain_def)
  qed
  show ?thesis
  proof (rule that [OF s1(1) sf(2)])
    show "rw_clus (cur_clus (dirents s1 dp)) False (Obj []) (off mod byts_per_clus (fat s)) 32 s1 = Inr (32, de, t)"
      using t(1) piece m s1(6) by simp
    have st: "ent_step dp s t" by (rule ent_step_trans [OF s1(4) ent_step_io [OF t(4)]])
    show "scan p dp ep xs s t" by (rule ent_step_scan [OF st t(2) oc _ assms(3)]) (simp add: t(3) s1(3))
    show "dirents t ep = dirents s ep" by (rule ent_step_keeps(2) [OF st]) (use assms(3) in simp)
  qed
qed

text \<open>Behind the last cluster: \<open>reloc_clus\<close> answers -1 and puts the cursor back to the first cluster.\<close>

lemma fchain_last: "fchain s c xs \<Longrightarrow> xs \<noteq> [] \<Longrightarrow> eoc (fat_entry s (last xs))"
  by (induction xs arbitrary: c) auto

lemma eoc_found: "eoc c \<Longrightarrow> sint FAT32_EOC \<le> sint c"
proof -
  assume e: "eoc c"
  then have "c < FAT32_EOC + 8" unfolding eoc_def by (simp add: FAT32_EOC_def word_less_nat_alt word_le_nat_alt)
  then have "sint c = uint c" by (rule sint_small)
  moreover have "sint FAT32_EOC = uint FAT32_EOC" by (rule sint_small) (simp add: FAT32_EOC_def)
  ultimately show ?thesis using e by (simp add: eoc_def word_le_def)
qed

lemma reloc_forward_end:
  assumes "fat_ok p s" and "fchain s (first_clus (dirents s e)) xs" and "i + k = length xs" and "i < length xs"
    and "cur_clus (dirents s e) = xs ! i" and "clus_cnt (dirents s e) = of_nat i"
  shows "\<exists>s'. reloc_forward k e False s = Inr (False, s') \<and> fat_ok p s' \<and> sectors s' = sectors s \<and> ent_step e s s'
    \<and> cur_clus (dirents s' e) = first_clus (dirents s e) \<and> clus_cnt (dirents s' e) = 0"
  using assms
proof (induction k arbitrary: i s)
  case (Suc k)
  have d: "data_clus (fat s) (xs ! i)" using fchain_data [OF Suc.prems(2)] Suc.prems(4) by simp
  then have e: "entry (fat s) (xs ! i)" by (simp add: data_clus_def)
  obtain s1 where s1: "read_fat (xs ! i) s = Inr (fat_entry s (xs ! i), s1)" "fat_ok p s1" "sectors s1 = sectors s"
    "io_step s s1"
    by (rule read_fat_ok [OF Suc.prems(1) e])
  note f1 = io_step_fat [OF s1(4)]
  show ?case
  proof (cases "k = 0")
    case True
    have ne: "xs \<noteq> []" using Suc.prems(4) by auto
    have "i = length xs - 1" using True Suc.prems(3) by simp
    then have "xs ! i = last xs" using ne by (simp add: last_conv_nth)
    then have "sint FAT32_EOC \<le> sint (fat_entry s (xs ! i))" using fchain_last [OF Suc.prems(2) ne] eoc_found by simp
    moreover have "ent_step e s (upd_ent e (\<lambda>d. d\<lparr>cur_clus := first_clus d, clus_cnt := 0\<rparr>) s1)"
    proof -
      have "upd_ent e (\<lambda>d. d\<lparr>cur_clus := first_clus d, clus_cnt := 0\<rparr>) s1 = upd_ent e (at_clus (first_clus (dirents s e)) 0) s1"
        by (rule upd_ent_cong) (simp add: at_clus_def f1)
      then show ?thesis using io_step_upd_ent [OF s1(4)] unfolding ent_step_def by metis
    qed
    ultimately show ?thesis using s1 Suc.prems(5) f1 by (simp add: Let_def)
  next
    case False
    then have x: "Suc i < length xs" using Suc.prems(3) by simp
    have d2: "data_clus (fat s) (xs ! Suc i)" using fchain_data [OF Suc.prems(2)] x by simp
    have nx: "fat_entry s (xs ! i) = xs ! Suc i" by (rule fchain_nth [OF Suc.prems(2) x])
    let ?s = "upd_ent e (\<lambda>d. d\<lparr>cur_clus := xs ! Suc i, clus_cnt := clus_cnt d + 1\<rparr>) s1"
    have fe: "fat_entry s1 = fat_entry s" by (simp add: fat_entry_def [abs_def] f1 s1(3))
    have "fchain ?s (first_clus (dirents ?s e)) xs" by (rule fchain_cong [of s]) (use Suc.prems(2) in \<open>simp_all add: f1 fe\<close>)
    then obtain s' where s': "reloc_forward k e False ?s = Inr (False, s')" "fat_ok p s'" "sectors s' = sectors ?s"
      "ent_step e ?s s'" "cur_clus (dirents s' e) = first_clus (dirents ?s e)" "clus_cnt (dirents s' e) = 0"
      using Suc.IH [of ?s "Suc i"] Suc.prems(3-6) x s1(2) by (auto simp: f1)
    have "reloc_forward (Suc k) e False s = Inr (False, s')"
      using s1(1) nx s'(1) not_eoc(1) [OF fat_okD(2) [OF Suc.prems(1)] d2] Suc.prems(5) by (simp add: Let_def)
    moreover have "ent_step e s ?s"
    proof -
      have "?s = upd_ent e (at_clus (xs ! Suc i) (clus_cnt (dirents s e) + 1)) s1"
        by (rule upd_ent_cong) (simp add: at_clus_def f1)
      then show ?thesis using io_step_upd_ent [OF s1(4)] unfolding ent_step_def by metis
    qed
    ultimately show ?thesis using s' s1(3) ent_step_trans by (auto simp: f1)
  qed
qed simp

lemma reloc_end:
  assumes "fat_ok p s" and "on_chain s dp xs" and "unat off = length (file_bytes s xs)"
  obtains t where "reloc_clus dp off False s = Inr (- 1, t)" and "fat_ok p t" and "sectors t = sectors s"
    and "ent_step dp s t" and "on_chain t dp xs"
proof -
  let ?b = "unat (byts_per_clus (fat s))" and ?d = "dirents s dp"
  have "0 < ?b" using geom_bpc(2) [OF fat_okD(2) [OF assms(1)]] by (simp add: word_less_nat_alt)
  then have q: "unat (off div byts_per_clus (fat s)) = length xs"
    using assms(3) length_file_bytes [OF assms(1), of xs] by (simp add: unat_div)
  have oc: "fchain s (first_clus ?d) xs" "unat (clus_cnt ?d) < length xs" "cur_clus ?d = xs ! unat (clus_cnt ?d)"
    using assms(2) by (simp_all add: on_chain_def)
  obtain t where t: "reloc_forward (length xs - unat (clus_cnt ?d)) dp False s = Inr (False, t)" "fat_ok p t"
    "sectors t = sectors s" "ent_step dp s t" "cur_clus (dirents t dp) = first_clus ?d" "clus_cnt (dirents t dp) = 0"
    using reloc_forward_end [OF assms(1) oc(1) _ oc(2,3), of "length xs - unat (clus_cnt ?d)"] oc(2) by auto
  have fs: "fat t = fat s" by (rule ent_step_keeps(1) [OF t(4)])
  have "fchain t (first_clus ?d) xs"
    by (rule fchain_cong [OF oc(1) fs]) (simp add: fat_entry_def fs t(3))
  moreover have "xs \<noteq> []" using oc(2) by auto
  ultimately have oct: "on_chain t dp xs"
    using t(5,6) ent_step_keeps(3) [OF t(4)] fchain_hd [of t "first_clus ?d" xs] by (simp add: on_chain_def hd_conv_nth)
  show ?thesis by (rule that [OF _ t(2-4) oct]) (use t(1) q in \<open>simp add: reloc_clus_def Let_def\<close>)
qed

lemma get_end:
  assumes "fat_ok p s" and "on_chain s dp xs" and "dp \<noteq> ep" and "unat off = length (file_bytes s xs)"
  obtains t where "reloc_clus dp off False s = Inr (- 1, t)" and "scan p dp ep xs s t" and "dirents t ep = dirents s ep"
proof -
  obtain t where t: "reloc_clus dp off False s = Inr (- 1, t)" "fat_ok p t" "sectors t = sectors s" "ent_step dp s t" "on_chain t dp xs"
    by (rule reloc_end [OF assms(1,2,4)])
  show ?thesis
    by (rule that [OF t(1) ent_step_scan [OF t(4,2,5,3) assms(3)] ent_step_keeps(2) [OF t(4)]]) (use assms(3) in simp)
qed

section \<open>Records\<close>

text \<open>
  A directory lists named files (long entries and a short one, as \<open>emake\<close> writes them), plain short entries (the dot
  entries, and what other systems write without a long name), and slots that were freed.
\<close>

datatype drec = Named "u8 list" u8 u32 u32 | Plain "u8 list" | Hole "u8 list"

fun rec_slots :: "drec \<Rightarrow> u8 list list" where
  "rec_slots (Named name attr clus sz) =
    map (name_entry name) (rev [1..<Suc (long_count (length name))]) @ [short_entry (generate_shortname name) attr clus sz]"
| "rec_slots (Plain de) = [de]"
| "rec_slots (Hole de) = [de]"

fun rec_name :: "drec \<Rightarrow> u8 list" where
  "rec_name (Named name attr clus sz) = name"
| "rec_name (Plain de) = short_to_name de"
| "rec_name (Hole de) = []"

fun is_hole :: "drec \<Rightarrow> bool" where
  "is_hole (Hole de) = True"
| "is_hole _ = False"

text \<open>The attribute, first cluster and size of a record, stored in an entry.\<close>

fun rec_info :: "drec \<Rightarrow> dirent \<Rightarrow> dirent" where
  "rec_info (Named name attr clus sz) d =
    d\<lparr>attribute := attr, first_clus := clus, file_size := sz, cur_clus := clus, clus_cnt := 0\<rparr>"
| "rec_info (Plain de) d = read_entry_info de d"
| "rec_info (Hole de) d = d"

text \<open>
  A name whose first byte is 0xe5 is not among them: its short entry starts with the mark of a freed slot.
\<close>

fun rec_ok :: "drec \<Rightarrow> bool" where
  "rec_ok (Named name attr clus sz) \<longleftrightarrow> name \<noteq> [] \<and> 0 \<notin> set name \<and> length name \<le> 255
    \<and> hd name \<noteq> 0x20 \<and> hd name \<noteq> 0x2e \<and> hd name \<noteq> EMPTY_ENTRY \<and> attr \<noteq> ATTR_LONG_NAME"
| "rec_ok (Plain de) \<longleftrightarrow> length de = 32 \<and> 0 \<notin> set (take 11 de) \<and> de ! 0 \<noteq> EMPTY_ENTRY \<and> de ! 11 \<noteq> ATTR_LONG_NAME
    \<and> short_to_name de \<noteq> []"
| "rec_ok (Hole de) \<longleftrightarrow> length de = 32 \<and> de ! 0 = EMPTY_ENTRY"

definition dir_slots :: "drec list \<Rightarrow> u8 list list" where
  "dir_slots rs = concat (map rec_slots rs)"

text \<open>The reference: the first record of that name, and where it starts.\<close>

fun dir_find :: "u8 list \<Rightarrow> nat \<Rightarrow> drec list \<Rightarrow> (nat \<times> drec) option" where
  "dir_find name off [] = None"
| "dir_find name off (r # rs) =
    (if \<not> is_hole r \<and> rec_name r = name then Some (off, r) else dir_find name (off + 32 * length (rec_slots r)) rs)"

subsection \<open>What a slot says\<close>

lemma long_count_bound: "length name \<le> 255 \<Longrightarrow> long_count (length name) \<le> 20"
  by (simp add: long_count_def CHAR_LONG_NAME_def)

lemma long_count_pos: "name \<noteq> [] \<Longrightarrow> 0 < long_count (length name)"
  by (cases name) (simp_all add: long_count_def CHAR_LONG_NAME_def div_greater_zero_iff)

lemma order_bits:
  fixes b :: bool
  assumes "0 < i" and "i \<le> 20"
  defines "w \<equiv> (of_nat i OR (if b then LAST_LONG_ENTRY else 0) :: u8)"
  shows "w \<noteq> END_OF_ENTRY" and "w \<noteq> EMPTY_ENTRY" and "unat (w AND NOT LAST_LONG_ENTRY) = i"
    and "w AND LAST_LONG_ENTRY \<noteq> 0 \<longleftrightarrow> b"
proof -
  let ?P = "\<lambda>i. (of_nat i OR (if b then LAST_LONG_ENTRY else 0) :: u8) \<noteq> END_OF_ENTRY
    \<and> (of_nat i OR (if b then LAST_LONG_ENTRY else 0) :: u8) \<noteq> EMPTY_ENTRY
    \<and> unat ((of_nat i OR (if b then LAST_LONG_ENTRY else 0)) AND NOT LAST_LONG_ENTRY) = i
    \<and> ((of_nat i OR (if b then LAST_LONG_ENTRY else 0)) AND LAST_LONG_ENTRY \<noteq> 0 \<longleftrightarrow> b)"
  have "list_all ?P [1..<21]"
    unfolding LAST_LONG_ENTRY_def END_OF_ENTRY_def EMPTY_ENTRY_def by (cases b) (simp_all add: upt_rec)
  moreover have "i \<in> set [1..<21]" using assms(1,2) by simp
  ultimately have "?P i" unfolding list_all_iff by blast
  then show "w \<noteq> END_OF_ENTRY" "w \<noteq> EMPTY_ENTRY" "unat (w AND NOT LAST_LONG_ENTRY) = i" "w AND LAST_LONG_ENTRY \<noteq> 0 \<longleftrightarrow> b"
    unfolding w_def by blast+
qed

lemma name_entry_bytes:
  assumes "0 < i" and "i \<le> 20"
  shows "length (name_entry name i) = 32" and "name_entry name i ! 11 = ATTR_LONG_NAME"
    and "name_entry name i ! 0 \<noteq> END_OF_ENTRY" and "name_entry name i ! 0 \<noteq> EMPTY_ENTRY"
    and "unat (name_entry name i ! 0 AND NOT LAST_LONG_ENTRY) = i"
    and "name_entry name i ! 0 AND LAST_LONG_ENTRY \<noteq> 0 \<longleftrightarrow> i = long_count (length name)"
  unfolding name_entry_def long_entry_wchars(1,2) using order_bits [OF assms]
  by (simp_all add: long_entry_wchars(3))

text \<open>The first byte of a short name: what the loop has put out stays, and the first character is put out.\<close>

lemma short_loop_keeps: "\<exists>r. short_loop s k p out = out @ r"
proof (induction s k p out rule: short_loop.induct)
  case (1 s k p out)
  show ?case
  proof (cases "length out < CHAR_SHORT_NAME \<and> k < length s")
    case True
    note IH = 1 [OF True refl]
    show ?thesis
    proof (cases p)
      case None
      then show ?thesis using True IH by (subst short_loop.simps) (simp add: Let_def, blast)
    next
      case (Some d)
      then show ?thesis using True IH by (subst short_loop.simps) (simp add: Let_def, blast)
    qed
  qed (subst short_loop.simps, auto)
qed

lemma short_char_cases: "c \<noteq> 0 \<Longrightarrow> c \<noteq> EMPTY_ENTRY \<Longrightarrow> short_char c \<noteq> 0 \<and> short_char c \<noteq> EMPTY_ENTRY"
proof (cases "0x61 \<le> c \<and> c \<le> 0x7a")
  case True
  then have "unat (c - 0x20) = unat c - 0x20" by (subst unat_sub) (auto simp: word_le_nat_alt)
  then have "unat (c - 0x20) \<noteq> 0" "unat (c - 0x20) \<noteq> 0xe5" using True by (auto simp: word_le_nat_alt)
  then have "c - 0x20 \<noteq> 0" "c - 0x20 \<noteq> 0xe5" by auto
  then show ?thesis using True by (simp add: short_char_def EMPTY_ENTRY_def)
qed (auto simp: short_char_def EMPTY_ENTRY_def)

lemma short_first:
  assumes "name \<noteq> []" and "hd name \<noteq> 0x20" and "hd name \<noteq> 0x2e"
  shows "\<exists>r. generate_shortname name = short_char (hd name) # r"
proof -
  obtain c s where n: "name = c # s" using assms(1) by (cases name) auto
  have "short_loop name 0 (Some (last_dot name)) [] = short_loop name 1 (Some (last_dot name)) [short_char c]"
    using assms by (subst short_loop.simps) (simp add: n CHAR_SHORT_NAME_def)
  then show ?thesis using short_loop_keeps [of name 1 "Some (last_dot name)" "[short_char c]"]
    by (auto simp: generate_shortname_def Let_def n)
qed

lemma short_entry_bytes:
  assumes "rec_ok (Named name attr clus sz)"
  defines "de \<equiv> short_entry (generate_shortname name) attr clus sz"
  shows "length de = 32" and "de ! 11 = attr" and "de ! 0 \<noteq> END_OF_ENTRY" and "de ! 0 \<noteq> EMPTY_ENTRY"
proof -
  let ?n = "str_ncpy CHAR_SHORT_NAME (generate_shortname name) (replicate CHAR_SHORT_NAME 0)"
  have l: "length ?n = 11" by (simp add: str_ncpy_def Let_def CHAR_SHORT_NAME_def)
  have l16: "length (le16 v) = 2" for v by (simp add: le16_def)
  show "length de = 32" "de ! 11 = attr" by (simp_all add: de_def short_entry_def nth_append l l16)
  obtain r where r: "generate_shortname name = short_char (hd name) # r" using short_first [of name] assms(1) by auto
  have "hd name \<noteq> 0" using assms(1) by (cases name) auto
  then have c: "short_char (hd name) \<noteq> 0" "short_char (hd name) \<noteq> EMPTY_ENTRY" using short_char_cases assms(1) by auto
  then have "?n ! 0 = short_char (hd name)" by (simp add: r str_ncpy_def cstr_def Let_def CHAR_SHORT_NAME_def)
  moreover have "de ! 0 = ?n ! 0" by (simp add: de_def short_entry_def nth_append l)
  ultimately show "de ! 0 \<noteq> END_OF_ENTRY" "de ! 0 \<noteq> EMPTY_ENTRY" using c by (simp_all add: END_OF_ENTRY_def)
qed

section \<open>Reading one record\<close>

lemma same_ref_simps [simp]:
  "same_ref d d" "same_ref d (d\<lparr>filename := nm\<rparr>)" "same_ref d (read_entry_info de d)"
  by (simp_all add: same_ref_def read_entry_info_def Let_def)

lemma next_slot: "unat (off :: u32) + 32 < 2 ^ 32 \<Longrightarrow> off mod 32 = 0 \<Longrightarrow> unat (off + 32) = unat off + 32 \<and> (off + 32) mod 32 = 0"
proof -
  assume a: "unat off + 32 < 2 ^ 32" "off mod 32 = 0"
  have u: "unat (off + 32) = unat off + 32" by (subst unat_add_no_wrap) (use a in simp_all)
  have "unat off mod 32 = 0" using a(2) unat_mod [of off 32] by simp
  then have "unat ((off + 32) mod 32) = 0" by (simp add: unat_mod u)
  then show ?thesis using u by (simp add: unat_eq_zero)
qed

lemma enext_longs:
  assumes "fat_ok p s" and "on_chain s dp xs" and "dp \<noteq> ep" and "off mod 32 = 0"
    and "drop (unat off) (file_bytes s xs) = concat (map (name_entry name) (rev [1..<Suc m])) @ sd @ r"
    and "unat off + 32 * m < 2 ^ 32" and "m < fuel" and "m \<le> n" and "n \<le> 20" and "null \<longleftrightarrow> m < n" and "0 < n"
    and "n = long_count (length name)"
    and "length sd = 32" and "sd ! 11 \<noteq> ATTR_LONG_NAME" and "sd ! 0 \<noteq> END_OF_ENTRY" and "sd ! 0 \<noteq> EMPTY_ENTRY"
  shows "\<exists>t. enext_loop fuel dp ep off 0 count null s = Inr (1, if m = n then n + 1 else count, t) \<and> scan p dp ep xs s t
    \<and> dirents t ep = read_entry_info sd ((dirents s ep)\<lparr>filename := read_name_entries name m (filename (dirents s ep))\<rparr>)"
  using assms(1-8,10)
proof (induction m arbitrary: s off fuel count null)
  case 0
  obtain f where f: "fuel = Suc f" using 0(7) by (cases fuel) auto
  have d: "drop (unat off) (file_bytes s xs) = sd @ r" using 0(5) by simp
  obtain o2 s1 t where t: "reloc_clus dp off False s = Inr (o2, s1)" "o2 \<noteq> - 1"
    "rw_clus (cur_clus (dirents s1 dp)) False (Obj []) o2 32 s1 = Inr (32, sd, t)" "scan p dp ep xs s t"
    "dirents t ep = dirents s ep"
    using get_slot [OF 0(1-4) d assms(13)] by metis
  have "null" "n \<noteq> 0" using 0(9) assms(11) by auto
  then show ?case
    using t(1-3,5) assms(14-16) scan_upd_ent [OF t(4) 0(3), of "read_entry_info sd"]
    by (simp add: f read_name_entries_def)
next
  case (Suc m)
  obtain f where f: "fuel = Suc f" "m < f" using Suc.prems(7) by (cases fuel) auto
  define de where "de = name_entry name (Suc m)"
  have b: "0 < Suc m" "Suc m \<le> 20" using Suc.prems(8) assms(9) by simp_all
  note nb = name_entry_bytes [OF b, of name, folded de_def assms(12)]
  have d: "drop (unat off) (file_bytes s xs) = de @ concat (map (name_entry name) (rev [1..<Suc m])) @ sd @ r"
    using Suc.prems(5) by (simp add: de_def)
  obtain o2 s1 t where t: "reloc_clus dp off False s = Inr (o2, s1)" "o2 \<noteq> - 1"
    "rw_clus (cur_clus (dirents s1 dp)) False (Obj []) o2 32 s1 = Inr (32, de, t)" "scan p dp ep xs s t"
    "dirents t ep = dirents s ep"
    using get_slot [OF Suc.prems(1-4) d nb(1)] by metis
  define g :: "dirent \<Rightarrow> dirent" where "g = (\<lambda>d. d\<lparr>filename := read_entry_name (filename d) (m * CHAR_LONG_NAME) de\<rparr>)"
  let ?s = "upd_ent ep g t"
  have sc: "scan p dp ep xs s ?s" by (rule scan_upd_ent [OF t(4) Suc.prems(3)]) (simp add: g_def)
  note n = next_slot [OF _ Suc.prems(4)]
  have o: "unat off + 32 < 2 ^ 32" using Suc.prems(6) by simp
  have d2: "drop (unat (off + 32)) (file_bytes ?s xs) = concat (map (name_entry name) (rev [1..<Suc m])) @ sd @ r"
  proof -
    have "drop (unat off + 32) (file_bytes s xs) = drop 32 (drop (unat off) (file_bytes s xs))" by (simp add: add.commute)
    then show ?thesis unfolding scanD(5) [OF sc] using n [OF o] nb(1) unfolding d by simp
  qed
  obtain u where u: "enext_loop f dp ep (off + 32) 0 (if Suc m = n then n + 1 else count) True ?s
      = Inr (1, if m = n then n + 1 else if Suc m = n then n + 1 else count, u)" "scan p dp ep xs ?s u"
    "dirents u ep = read_entry_info sd ((dirents ?s ep)\<lparr>filename := read_name_entries name m (filename (dirents ?s ep))\<rparr>)"
    using Suc.IH [OF scanD(1,2) [OF sc] Suc.prems(3) _ d2 _ f(2), of True "if Suc m = n then n + 1 else count"]
      n [OF o] Suc.prems(6,8) by auto
  have "enext_loop fuel dp ep off 0 count null s = Inr (1, if Suc m = n then n + 1 else count, u)"
    using t(1-3) nb(2-6) u(1) b(2) Suc.prems(8,9) by (auto simp: f g_def Let_def)
  moreover have "dirents u ep = read_entry_info sd ((dirents s ep)\<lparr>filename := read_name_entries name (Suc m) (filename (dirents s ep))\<rparr>)"
    using u(3) t(5) by (simp add: g_def read_name_entries_Suc de_def)
  ultimately show ?case using scan_trans [OF sc u(2)] by auto
qed

subsection \<open>One call of \<open>enext_loop\<close>\<close>

lemma rec_slot_length: "rec_ok r \<Longrightarrow> de \<in> set (rec_slots r) \<Longrightarrow> length de = 32"
  using long_count_bound name_entry_bytes(1) short_entry_bytes(1) by (cases r) fastforce+

lemma rec_head:
  assumes "rec_ok r" and "\<not> is_hole r"
  obtains de des where "rec_slots r = de # des" and "length de = 32" and "de ! 0 \<noteq> END_OF_ENTRY" and "de ! 0 \<noteq> EMPTY_ENTRY"
proof (cases r)
  case (Named name attr clus sz)
  let ?n = "long_count (length name)"
  have n: "0 < ?n" "?n \<le> 20" using assms(1) long_count_pos [of name] long_count_bound [of name] by (simp_all add: Named)
  have "rec_slots r = name_entry name ?n # map (name_entry name) (rev [1..<?n]) @ [short_entry (generate_shortname name) attr clus sz]"
    using n(1) by (simp add: Named)
  then show ?thesis using that name_entry_bytes(1,3,4) [OF n] by blast
next
  case (Plain de)
  have "de ! 0 \<in> set (take 11 de)" using assms(1) by (auto simp: Plain in_set_conv_nth intro!: exI [of _ 0])
  then have "de ! 0 \<noteq> 0" using assms(1) by (auto simp: Plain)
  then show ?thesis using that assms(1) by (simp add: Plain END_OF_ENTRY_def)
qed (use assms(2) in simp)

definition cleared :: "u8 list" where
  "cleared = replicate (FAT32_MAX_FILENAME + 1) 0"

lemma put_cleared:
  assumes "0 \<notin> set bs" and "length bs \<le> 255"
  shows "cstr (put_arr 0 bs cleared) = bs"
proof -
  have "put_arr 0 bs cleared = bs @ replicate (256 - length bs) 0"
    using assms(2) by (simp add: put_arr_def splice_def cleared_def FAT32_MAX_FILENAME_def)
  moreover have "takeWhile (\<lambda>c. c \<noteq> 0) (replicate (256 - length bs) 0) = []" by (simp add: takeWhile_eq_Nil_iff')
  ultimately show ?thesis using assms(1) by (simp add: cstr_def takeWhile_append)
qed

lemma short_to_name_ok:
  assumes "0 \<notin> set (take 11 de)"
  shows "0 \<notin> set (short_to_name de)" and "length (short_to_name de) \<le> 255"
proof -
  have "take 11 de = take 8 de @ take 3 (drop 8 de)" using take_add [of 8 3 de] by simp
  then show "0 \<notin> set (short_to_name de)" using assms unfolding short_to_name_def by (auto dest: set_takeWhileD)
  have "length (takeWhile (\<lambda>c. c \<noteq> 0x20) (take n bs)) \<le> n" for n and bs :: "u8 list"
    by (rule order_trans [OF length_takeWhile_le]) simp
  from this [of 8 de] this [of 3 "drop 8 de"] show "length (short_to_name de) \<le> 255" by (simp add: short_to_name_def)
qed

lemma read_plain:
  assumes "rec_ok (Plain de)"
  shows "cstr (read_entry_name cleared 0 de) = short_to_name de"
proof -
  have "put_arr 0 (replicate 13 0) cleared = cleared"
    by (simp add: put_arr_def splice_def cleared_def FAT32_MAX_FILENAME_def replicate_add [symmetric])
  then have "read_entry_name cleared 0 de = put_arr 0 (short_to_name de) cleared"
    using assms by (simp add: read_entry_name_def CHAR_SHORT_NAME_def)
  then show ?thesis using put_cleared [of "short_to_name de"] short_to_name_ok [of de] assms by simp
qed

lemma enext_record:
  assumes "fat_ok p s" and "on_chain s dp xs" and "dp \<noteq> ep" and "off mod 32 = 0"
    and "drop (unat off) (file_bytes s xs) = concat (rec_slots r) @ r'" and "unat off + 32 * length (rec_slots r) < 2 ^ 32"
    and "length (rec_slots r) < fuel" and "rec_ok r" and "\<not> is_hole r" and "filename (dirents s ep) = cleared"
  obtains t nm where "enext_loop fuel dp ep off 0 count False s = Inr (1, length (rec_slots r), t)" and "scan p dp ep xs s t"
    and "cstr nm = rec_name r" and "dirents t ep = rec_info r ((dirents s ep)\<lparr>filename := nm\<rparr>)"
proof (cases r)
  case (Named name attr clus sz)
  let ?n = "long_count (length name)" and ?de = "short_entry (generate_shortname name) attr clus sz"
  have n: "0 < ?n" "?n \<le> 20" using assms(8) long_count_pos [of name] long_count_bound [of name] by (simp_all add: Named)
  note se = short_entry_bytes [OF assms(8) [unfolded Named]]
  obtain t where t: "enext_loop fuel dp ep off 0 count False s = Inr (1, ?n + 1, t)" "scan p dp ep xs s t"
    "dirents t ep = read_entry_info ?de ((dirents s ep)\<lparr>filename := read_name_entries name ?n (filename (dirents s ep))\<rparr>)"
    using enext_longs [OF assms(1-4), of name ?n ?de r' fuel ?n False count] assms(5-9) n se by (auto simp: Named)
  moreover have "cstr (read_name_entries name ?n cleared) = name"
    using read_back [of name] assms(8) by (simp add: Named cleared_def FAT32_MAX_FILENAME_def)
  ultimately show ?thesis using that assms(10) by (simp add: Named short_entry_roundtrip)
next
  case (Plain de)
  obtain f where f: "fuel = Suc f" using assms(7) by (cases fuel) auto
  obtain de' des where h: "rec_slots r = de' # des" "length de' = 32" "de' ! 0 \<noteq> END_OF_ENTRY" "de' ! 0 \<noteq> EMPTY_ENTRY"
    by (rule rec_head [OF assms(8,9)])
  have d: "drop (unat off) (file_bytes s xs) = de @ r'" "length de = 32" using assms(5,8) by (simp_all add: Plain)
  obtain o2 s1 t where t: "reloc_clus dp off False s = Inr (o2, s1)" "o2 \<noteq> - 1"
    "rw_clus (cur_clus (dirents s1 dp)) False (Obj []) o2 32 s1 = Inr (32, de, t)" "scan p dp ep xs s t"
    "dirents t ep = dirents s ep"
    using get_slot [OF assms(1-4) d] by metis
  define g :: "dirent \<Rightarrow> dirent" where "g = (\<lambda>d. read_entry_info de (d\<lparr>filename := read_entry_name (filename d) 0 de\<rparr>))"
  have "enext_loop fuel dp ep off 0 count False s = Inr (1, 1, upd_ent ep g t)"
    using t(1-3) h assms(8) by (simp add: f Plain Let_def g_def)
  moreover have "scan p dp ep xs s (upd_ent ep g t)"
    by (rule scan_upd_ent [OF t(4) assms(3)]) (simp add: g_def same_ref_def read_entry_info_def Let_def)
  ultimately show ?thesis
    using that [of "upd_ent ep g t" "read_entry_name cleared 0 de"] read_plain [of de] assms(8,10) t(5) by (simp add: Plain g_def)
qed (use assms(9) in simp)

text \<open>What lies behind the records: nothing, or a slot that starts with 0.\<close>

definition dir_tail :: "u8 list \<Rightarrow> bool" where
  "dir_tail r \<longleftrightarrow> r = [] \<or> (32 \<le> length r \<and> r ! 0 = END_OF_ENTRY)"

lemma enext_end:
  assumes "fat_ok p s" and "on_chain s dp xs" and "dp \<noteq> ep" and "off mod 32 = 0"
    and "drop (unat off) (file_bytes s xs) = r" and "dir_tail r" and "unat off \<le> length (file_bytes s xs)" and "0 < fuel"
  obtains t where "enext_loop fuel dp ep off cnt count null s = Inr (- 1, count, t)" and "scan p dp ep xs s t"
    and "dirents t ep = dirents s ep"
proof -
  obtain f where f: "fuel = Suc f" using assms(8) by (cases fuel) auto
  show ?thesis
  proof (cases "r = []")
    case True
    then have "unat off = length (file_bytes s xs)" using assms(5,7) by simp
    then obtain t where "reloc_clus dp off False s = Inr (- 1, t)" "scan p dp ep xs s t" "dirents t ep = dirents s ep"
      using get_end [OF assms(1-3)] by metis
    then show ?thesis using that by (simp add: f)
  next
    case False
    then have l: "32 \<le> length r" "r ! 0 = END_OF_ENTRY" using assms(6) by (auto simp: dir_tail_def)
    have d: "drop (unat off) (file_bytes s xs) = take 32 r @ drop 32 r" "length (take 32 r) = 32" using assms(5) l(1) by simp_all
    obtain o2 s1 t where "reloc_clus dp off False s = Inr (o2, s1)" "o2 \<noteq> - 1"
      "rw_clus (cur_clus (dirents s1 dp)) False (Obj []) o2 32 s1 = Inr (32, take 32 r, t)" "scan p dp ep xs s t"
      "dirents t ep = dirents s ep"
      using get_slot [OF assms(1-4) d] by metis
    then show ?thesis using that l(2) by (simp add: f)
  qed
qed

lemma enext_stop:
  assumes "fat_ok p s" and "on_chain s dp xs" and "dp \<noteq> ep" and "off mod 32 = 0"
    and "drop (unat off) (file_bytes s xs) = concat (rec_slots r) @ r'" and "rec_ok r" and "\<not> is_hole r" and "0 < cnt" and "0 < fuel"
  obtains t where "enext_loop fuel dp ep off cnt count False s = Inr (0, cnt, t)" and "scan p dp ep xs s t"
    and "dirents t ep = dirents s ep"
proof -
  obtain f where f: "fuel = Suc f" using assms(9) by (cases fuel) auto
  obtain de des where h: "rec_slots r = de # des" "length de = 32" "de ! 0 \<noteq> END_OF_ENTRY" "de ! 0 \<noteq> EMPTY_ENTRY"
    by (rule rec_head [OF assms(6,7)])
  have d: "drop (unat off) (file_bytes s xs) = de @ concat des @ r'" using assms(5) by (simp add: h)
  obtain o2 s1 t where "reloc_clus dp off False s = Inr (o2, s1)" "o2 \<noteq> - 1"
    "rw_clus (cur_clus (dirents s1 dp)) False (Obj []) o2 32 s1 = Inr (32, de, t)" "scan p dp ep xs s t"
    "dirents t ep = dirents s ep"
    using get_slot [OF assms(1-4) d h(2)] by metis
  then show ?thesis using that h assms(8) by (simp add: f)
qed

text \<open>A run of holes is counted; a record or the end of the directory stops the count.\<close>

lemma enext_holes:
  assumes "fat_ok p s" and "on_chain s dp xs" and "dp \<noteq> ep" and "off mod 32 = 0"
    and "drop (unat off) (file_bytes s xs) = concat hs @ r" and "\<forall>de\<in>set hs. length de = 32 \<and> de ! 0 = EMPTY_ENTRY"
    and "unat off + 32 * length hs < 2 ^ 32" and "length hs < fuel"
  obtains t off' where "enext_loop fuel dp ep off cnt count null s
      = enext_loop (fuel - length hs) dp ep off' (cnt + length hs) count null t"
    and "scan p dp ep xs s t" and "dirents t ep = dirents s ep" and "unat off' = unat off + 32 * length hs" and "off' mod 32 = 0"
    and "drop (unat off') (file_bytes t xs) = r"
  using assms
proof (induction hs arbitrary: s off fuel cnt thesis)
  case Nil
  show ?case by (rule Nil(1) [OF _ scan_refl [OF Nil(2-4)]]) (use Nil in simp_all)
next
  case (Cons de hs)
  obtain f where f: "fuel = Suc f" using Cons.prems(9) by (cases fuel) auto
  have de: "length de = 32" "de ! 0 = EMPTY_ENTRY" using Cons.prems(7) by simp_all
  have d: "drop (unat off) (file_bytes s xs) = de @ concat hs @ r" using Cons.prems(6) by simp
  obtain o2 s1 t where t: "reloc_clus dp off False s = Inr (o2, s1)" "o2 \<noteq> - 1"
    "rw_clus (cur_clus (dirents s1 dp)) False (Obj []) o2 32 s1 = Inr (32, de, t)" "scan p dp ep xs s t"
    "dirents t ep = dirents s ep"
    using get_slot [OF Cons.prems(2-5) d de(1)] by metis
  have o: "unat off + 32 < 2 ^ 32" using Cons.prems(8) by simp
  note n = next_slot [OF o Cons.prems(5)]
  have d2: "drop (unat (off + 32)) (file_bytes t xs) = concat hs @ r"
  proof -
    have "drop (unat off + 32) (file_bytes s xs) = drop 32 (drop (unat off) (file_bytes s xs))" by (simp add: add.commute)
    then show ?thesis unfolding scanD(5) [OF t(4)] using n de(1) unfolding d by simp
  qed
  have b: "unat (off + 32) + 32 * length hs < 2 ^ 32" "length hs < f" using n Cons.prems(8,9) f by simp_all
  obtain u off' where u: "enext_loop f dp ep (off + 32) (cnt + 1) count null t
      = enext_loop (f - length hs) dp ep off' (cnt + 1 + length hs) count null u"
    "scan p dp ep xs t u" "dirents u ep = dirents t ep" "unat off' = unat (off + 32) + 32 * length hs" "off' mod 32 = 0"
    "drop (unat off') (file_bytes u xs) = r"
    using Cons.IH [OF _ scanD(1,2) [OF t(4)] Cons.prems(4) _ d2 _ b] n Cons.prems(7) by (metis list.set_intros(2))
  show ?case
  proof (rule Cons.prems(1) [OF _ scan_trans [OF t(4) u(2)]])
    show "enext_loop fuel dp ep off cnt count null s
        = enext_loop (fuel - length (de # hs)) dp ep off' (cnt + length (de # hs)) count null u"
      using t(1-3) de(2) u(1) by (simp add: f EMPTY_ENTRY_def END_OF_ENTRY_def)
  qed (use u t(5) n in simp_all)
qed

section \<open>Searching a directory\<close>

subsection \<open>References\<close>

definition settled :: "'a fat_st_scheme \<Rightarrow> 'a fat_st_scheme" where
  "settled s = s\<lparr>core := settle (core s)\<rparr>"

lemma settled_simps [simp]:
  "fat (settled s) = fat s" "sectors (settled s) = sectors s" "dirents (settled s) = dirents s"
  "ent_next (settled s) = ent_next s" "ent_prev (settled s) = ent_prev s"
  "fat_entry (settled s) = fat_entry s" "cluster_data (settled s) = cluster_data s"
  "file_bytes (settled s) xs = file_bytes s xs"
  by (simp_all add: settled_def fat_entry_def [abs_def] cluster_data_def [abs_def] file_bytes_def)

lemma fchain_settled [simp]: "fchain (settled s) c xs = fchain s c xs"
  by (induction xs arbitrary: c) simp_all

lemma on_chain_settled [simp]: "on_chain (settled s) e xs = on_chain s e xs"
  by (simp add: on_chain_def)

lemma fat_ok_running: "fat_ok p s \<Longrightarrow> running p s"
  by (simp add: fat_ok_def quiet_def cache_ok_def)

lemma fat_ok_settled [simp]: "fat_ok p s \<Longrightarrow> fat_ok p (settled s)"
  by (simp add: settled_def fat_ok_def quiet_def cache_ok_def ring_def running_def buf_ok_def held_def in_use_def)

lemma edup_settled:
  assumes "fat_ok p s"
  shows "edup (Some e) s = Inr (Some e, settled (upd_ent e (\<lambda>d. d\<lparr>eref := eref d + 1\<rparr>) s))"
  using edup_ok [OF fat_ok_running [OF assms]] by (simp add: settled_def)

lemma eput_invalid:
  assumes "fat_ok p s" and "evalid (dirents s e) = 0"
  shows "eput (Some e) s = Inr (settled (upd_ent e (\<lambda>d. d\<lparr>eref := eref d - 1\<rparr>) s))"
  using eput_shared [OF fat_ok_running [OF assms(1)], of e] assms(2) by (simp add: settled_def)

subsection \<open>The loop of \<open>dirlookup\<close>\<close>

lemma dir_slots_simps [simp]: "dir_slots [] = []" "dir_slots (r # rs) = rec_slots r @ dir_slots rs"
  by (simp_all add: dir_slots_def)

text \<open>Where the search gives up: behind the last record that is not a hole.\<close>

fun dir_end :: "nat \<Rightarrow> drec list \<Rightarrow> nat" where
  "dir_end off [] = off"
| "dir_end off (r # rs) = (if list_all is_hole (r # rs) then off else dir_end (off + 32 * length (rec_slots r)) rs)"

lemma dir_split_holes:
  obtains hs rs' where "rs = map Hole hs @ rs'" and "rs' = [] \<or> \<not> is_hole (hd rs')"
proof (induction rs arbitrary: thesis)
  case Nil
  show ?case by (rule Nil [of "[]" "[]"]) simp_all
next
  case (Cons r rs)
  show ?case
  proof (cases r)
    case (Hole de)
    obtain hs rs' where "rs = map Hole hs @ rs'" "rs' = [] \<or> \<not> is_hole (hd rs')" using Cons.IH by blast
    then show ?thesis using Cons.prems [of "de # hs" rs'] Hole by simp
  qed (use Cons.prems [of "[]" "r # rs"] in simp_all)
qed

lemma holes_simps:
  "dir_slots (map Hole hs @ rs) = hs @ dir_slots rs"
  "dir_find name off (map Hole hs @ rs) = dir_find name (off + 32 * length hs) rs"
  "list_all is_hole (map Hole hs)"
  by (induction hs arbitrary: off) (simp_all add: algebra_simps)

lemma dir_end_holes: "rs \<noteq> [] \<Longrightarrow> \<not> is_hole (hd rs) \<Longrightarrow> dir_end off (map Hole hs @ rs) = dir_end (off + 32 * length hs) rs"
  by (cases rs; induction hs arbitrary: off) (simp_all add: algebra_simps)

lemma str_eq_names:
  assumes "0 \<notin> set name" and "length name \<le> 255" and "0 \<notin> set a" and "length a \<le> 255" and "cstr b = a"
  shows "str_eq FAT32_MAX_FILENAME name b \<longleftrightarrow> a = name"
proof -
  have "cstr name = name" unfolding cstr_def by (rule takeWhile_eq_all_conv [THEN iffD2]) (use assms(1) in auto)
  then show ?thesis using assms by (auto simp: str_eq_def FAT32_MAX_FILENAME_def)
qed

lemma rec_name_ok: "rec_ok r \<Longrightarrow> 0 \<notin> set (rec_name r) \<and> length (rec_name r) \<le> 255"
proof (cases r)
  case (Plain de)
  assume "rec_ok r"
  then show ?thesis using short_to_name_ok [of de] by (simp add: Plain)
qed simp_all

text \<open>The directory \<open>dp\<close> from the offset \<open>off\<close> on holds the records \<open>rs\<close>, and \<open>ep\<close> is a free entry to read into.\<close>

definition dir_at :: "nat \<Rightarrow> eptr \<Rightarrow> eptr \<Rightarrow> u32 list \<Rightarrow> 'a fat_st_scheme \<Rightarrow> u32 \<Rightarrow> drec list \<Rightarrow> bool" where
  "dir_at p dp ep xs s off rs \<longleftrightarrow> fat_ok p s \<and> on_chain s dp xs \<and> dp \<noteq> ep \<and> off mod 32 = 0
    \<and> attribute (dirents s dp) AND ATTR_DIRECTORY \<noteq> 0 \<and> evalid (dirents s dp) = 1 \<and> evalid (dirents s ep) = 0
    \<and> (\<exists>r. drop (unat off) (file_bytes s xs) = concat (dir_slots rs) @ r \<and> dir_tail r)
    \<and> unat off \<le> length (file_bytes s xs) \<and> list_all rec_ok rs
    \<and> unat off + 32 * length (dir_slots rs) < 2 ^ 32 \<and> length (dir_slots rs) < DIR_ENTRIES"

lemma dir_atD:
  assumes "dir_at p dp ep xs s off rs"
  shows "fat_ok p s" and "on_chain s dp xs" and "dp \<noteq> ep" and "off mod 32 = 0"
    and "attribute (dirents s dp) AND ATTR_DIRECTORY \<noteq> 0" and "evalid (dirents s dp) = 1" and "evalid (dirents s ep) = 0"
    and "\<exists>r. drop (unat off) (file_bytes s xs) = concat (dir_slots rs) @ r \<and> dir_tail r"
    and "unat off \<le> length (file_bytes s xs)" and "list_all rec_ok rs"
    and "unat off + 32 * length (dir_slots rs) < 2 ^ 32" and "length (dir_slots rs) < DIR_ENTRIES"
  using assms by (simp_all add: dir_at_def)

lemma slots_bytes: "list_all rec_ok rs \<Longrightarrow> length (concat (dir_slots rs)) = 32 * length (dir_slots rs)"
proof (induction rs)
  case (Cons r rs)
  have "length (concat ds) = 32 * length ds" if "\<forall>de\<in>set ds. length de = 32" for ds :: "u8 list list"
    using that by (induction ds) auto
  then show ?case using Cons rec_slot_length [of r] by simp
qed simp

text \<open>Past the first records, after a scan.\<close>

lemma dir_at_step:
  assumes "dir_at p dp ep xs s off (as @ rs)" and "scan p dp ep xs s t"
  shows "dir_at p dp ep xs t (off + push_bit 5 (of_nat (length (dir_slots as)))) rs"
    and "unat (off + push_bit 5 (of_nat (length (dir_slots as)))) = unat off + 32 * length (dir_slots as)"
proof -
  note d = dir_atD [OF assms(1)] and sc = scanD [OF assms(2)]
  let ?n = "length (dir_slots as)"
  have ds: "dir_slots (as @ rs) = dir_slots as @ dir_slots rs" by (simp add: dir_slots_def)
  have n: "unat off + 32 * ?n < 2 ^ 32" using d(11) by (simp add: ds)
  have "unat (push_bit 5 (of_nat ?n) :: u32) = 32 * ?n"
    using n by (simp add: push_bit_eq_mult unat_word_ariths unat_of_nat mult.commute)
  then show u: "unat (off + push_bit 5 (of_nat ?n)) = unat off + 32 * ?n"
    by (subst unat_add_no_wrap) (use n in simp_all)
  obtain r where r: "drop (unat off) (file_bytes s xs) = concat (dir_slots (as @ rs)) @ r" "dir_tail r" using d(8) by blast
  have l: "length (concat (dir_slots as)) = 32 * ?n" by (rule slots_bytes) (use d(10) in simp)
  have dr: "drop (unat off + 32 * ?n) (file_bytes s xs) = concat (dir_slots rs) @ r"
  proof -
    have "drop (unat off + 32 * ?n) (file_bytes s xs) = drop (32 * ?n) (drop (unat off) (file_bytes s xs))" by (simp add: add.commute)
    then show ?thesis unfolding r(1) using l by (simp add: ds)
  qed
  have "length (drop (unat off) (file_bytes s xs)) \<ge> 32 * ?n" unfolding r(1) by (simp add: ds l)
  then have le: "unat off + 32 * ?n \<le> length (file_bytes s xs)" using d(9) by simp
  have "unat off mod 32 = 0" using d(4) unat_mod [of off 32] by simp
  then have "unat ((off + push_bit 5 (of_nat ?n)) mod 32) = 0" by (simp add: unat_mod u)
  then have m: "(off + push_bit 5 (of_nat ?n)) mod 32 = 0" by (simp add: unat_eq_zero)
  show "dir_at p dp ep xs t (off + push_bit 5 (of_nat ?n)) rs"
    unfolding dir_at_def u sc(5) dr using sc d r(2) le m by (auto simp: ds same_ref_def)
qed

lemma enext_start:
  assumes "dir_at p dp ep xs s off rs"
  defines "s0 \<equiv> upd_ent ep (\<lambda>d. d\<lparr>filename := cleared\<rparr>) s"
  shows "enext dp ep off count s = enext_loop DIR_ENTRIES dp ep off 0 count False s0"
    and "scan p dp ep xs s s0" and "fat_ok p s0" and "on_chain s0 dp xs" and "file_bytes s0 xs = file_bytes s xs"
    and "dirents s0 ep = (dirents s ep)\<lparr>filename := cleared\<rparr>"
proof -
  note d = dir_atD [OF assms(1)]
  show "enext dp ep off count s = enext_loop DIR_ENTRIES dp ep off 0 count False s0"
    using d(4-7) by (simp add: enext_def s0_def cleared_def)
  show sc: "scan p dp ep xs s s0"
    unfolding s0_def by (rule scan_upd_ent [OF scan_refl [OF d(1-3)] d(3)]) simp
  show "fat_ok p s0" "on_chain s0 dp xs" "file_bytes s0 xs = file_bytes s xs" using scanD [OF sc] by blast+
  show "dirents s0 ep = (dirents s ep)\<lparr>filename := cleared\<rparr>" by (simp add: s0_def)
qed

text \<open>The three answers of \<open>enext\<close>.\<close>

lemma enext_found:
  assumes "dir_at p dp ep xs s off (r # rs)" and "\<not> is_hole r"
  obtains t nm where "enext dp ep off count s = Inr (1, length (rec_slots r), t)" and "scan p dp ep xs s t"
    and "cstr nm = rec_name r" and "dirents t ep = rec_info r ((dirents s ep)\<lparr>filename := nm\<rparr>)"
proof -
  note d = dir_atD [OF assms(1)] and st = enext_start [OF assms(1)]
  obtain r' where r': "drop (unat off) (file_bytes s xs) = concat (rec_slots r) @ r'" using d(8) by auto
  show ?thesis
    by (rule enext_record [OF st(3,4) d(3,4), of r r' DIR_ENTRIES count])
      (use st d(10-12) r' assms(2) that scan_trans [OF st(2)] in auto)
qed

lemma hole_slots:
  assumes "list_all rec_ok (map Hole hs @ rs)"
  shows "\<forall>de\<in>set hs. length de = 32 \<and> de ! 0 = EMPTY_ENTRY"
  using assms by (induction hs) auto

lemma enext_skips:
  assumes "dir_at p dp ep xs s off (map Hole hs @ r # rs)" and "\<not> is_hole r" and "hs \<noteq> []"
  obtains t where "enext dp ep off count s = Inr (0, length hs, t)" and "scan p dp ep xs s t"
    and "dirents t ep = (dirents s ep)\<lparr>filename := cleared\<rparr>"
proof -
  note d = dir_atD [OF assms(1), unfolded holes_simps] and st = enext_start [OF assms(1)]
  obtain r' where r': "drop (unat off) (file_bytes s xs) = concat hs @ concat (rec_slots r) @ r'"
    using d(8) by auto
  have b: "unat off + 32 * length hs < 2 ^ 32" "length hs < DIR_ENTRIES" using d(11,12) by simp_all
  obtain t off' where t: "enext_loop DIR_ENTRIES dp ep off 0 count False (upd_ent ep (\<lambda>d. d\<lparr>filename := cleared\<rparr>) s)
      = enext_loop (DIR_ENTRIES - length hs) dp ep off' (0 + length hs) count False t"
    "scan p dp ep xs (upd_ent ep (\<lambda>d. d\<lparr>filename := cleared\<rparr>) s) t"
    "dirents t ep = dirents (upd_ent ep (\<lambda>d. d\<lparr>filename := cleared\<rparr>) s) ep" "off' mod 32 = 0"
    "drop (unat off') (file_bytes t xs) = concat (rec_slots r) @ r'"
    using enext_holes [OF st(3,4) d(3,4) r' [folded st(5)] hole_slots [OF d(10)] b] by metis
  have rk: "rec_ok r" using d(10) by simp
  obtain u where "enext_loop (DIR_ENTRIES - length hs) dp ep off' (length hs) count False t = Inr (0, length hs, u)"
    "scan p dp ep xs t u" "dirents u ep = dirents t ep"
    using enext_stop [OF scanD(1,2) [OF t(2)] d(3) t(4,5) rk assms(2), of "length hs" "DIR_ENTRIES - length hs" count] assms(3) b(2)
    by auto
  then show ?thesis using that [of u] st(1,6) t(1,3) scan_trans [OF st(2) scan_trans [OF t(2)]] by simp
qed

lemma enext_ends:
  assumes "dir_at p dp ep xs s off (map Hole hs)"
  obtains t where "enext dp ep off count s = Inr (- 1, count, t)" and "scan p dp ep xs s t"
    and "dirents t ep = (dirents s ep)\<lparr>filename := cleared\<rparr>"
proof -
  have a: "dir_at p dp ep xs s off (map Hole hs @ [])" using assms by simp
  note d = dir_atD [OF a, unfolded holes_simps] and st = enext_start [OF a]
  obtain r' where r': "drop (unat off) (file_bytes s xs) = concat hs @ r'" "dir_tail r'" using d(8) by auto
  have b: "unat off + 32 * length hs < 2 ^ 32" "length hs < DIR_ENTRIES" using d(11,12) by simp_all
  obtain t off' where t: "enext_loop DIR_ENTRIES dp ep off 0 count False (upd_ent ep (\<lambda>d. d\<lparr>filename := cleared\<rparr>) s)
      = enext_loop (DIR_ENTRIES - length hs) dp ep off' (0 + length hs) count False t"
    "scan p dp ep xs (upd_ent ep (\<lambda>d. d\<lparr>filename := cleared\<rparr>) s) t"
    "dirents t ep = dirents (upd_ent ep (\<lambda>d. d\<lparr>filename := cleared\<rparr>) s) ep" "unat off' = unat off + 32 * length hs" "off' mod 32 = 0"
    "drop (unat off') (file_bytes t xs) = r'"
    using enext_holes [OF st(3,4) d(3,4) r'(1) [folded st(5)] hole_slots [OF d(10)] b] by metis
  have l: "unat off' \<le> length (file_bytes t xs)"
  proof -
    have "length (concat hs) = 32 * length hs" using slots_bytes [of "map Hole hs"] d(10) holes_simps(1) [of hs "[]"] by simp
    then have "32 * length hs \<le> length (drop (unat off) (file_bytes s xs))" unfolding r'(1) by simp
    then show ?thesis using t(4) d(9) scanD(5) [OF t(2)] st(5) by simp
  qed
  obtain u where "enext_loop (DIR_ENTRIES - length hs) dp ep off' (length hs) count False t = Inr (- 1, count, u)"
    "scan p dp ep xs t u" "dirents u ep = dirents t ep"
    using enext_end [OF scanD(1,2) [OF t(2)] d(3) t(5,6) r'(2) l, of "DIR_ENTRIES - length hs" "length hs" count False] b(2)
    by auto
  then show ?thesis using that [of u] st(1,6) t(1,3) scan_trans [OF st(2) scan_trans [OF t(2)]] by simp
qed

lemma rec_info_scan:
  assumes "same_ref d e"
  shows "(rec_info r e)\<lparr>filename := nm\<rparr> = (if is_hole r then e else rec_info r d)\<lparr>filename := nm\<rparr>"
  using assms by (cases r; cases d; cases e) (simp_all add: same_ref_def read_entry_info_def Let_def)

definition look_found :: "nat \<Rightarrow> eptr \<Rightarrow> eptr \<Rightarrow> u32 list \<Rightarrow> u8 list \<Rightarrow> nat \<Rightarrow> drec \<Rightarrow> 'a fat_st_scheme \<Rightarrow> 'a fat_st_scheme \<Rightarrow> bool" where
  "look_found p dp ep xs name k r s t \<longleftrightarrow> (\<exists>u nm. scan p dp ep xs s u \<and> cstr nm = name
    \<and> dirents u ep = (rec_info r (dirents s ep))\<lparr>filename := nm\<rparr>
    \<and> t = upd_ent ep (\<lambda>d. d\<lparr>eparent := Some dp, eoff := of_nat k, evalid := 1\<rparr>)
          (settled (upd_ent dp (\<lambda>d. d\<lparr>eref := eref d + 1\<rparr>) u)))"

definition look_failed :: "nat \<Rightarrow> eptr \<Rightarrow> eptr \<Rightarrow> u32 list \<Rightarrow> 'a fat_st_scheme \<Rightarrow> 'a fat_st_scheme \<Rightarrow> bool" where
  "look_failed p dp ep xs s t \<longleftrightarrow> (\<exists>u. scan p dp ep xs s u \<and> t = settled (upd_ent ep (\<lambda>d. d\<lparr>eref := eref d - 1\<rparr>) u))"

text \<open>The answer \<open>res\<close> is the one the reference search in \<open>rs\<close> gives.\<close>

definition looked :: "nat \<Rightarrow> eptr \<Rightarrow> eptr \<Rightarrow> u32 list \<Rightarrow> u8 list \<Rightarrow> bool \<Rightarrow> nat \<Rightarrow> drec list \<Rightarrow> 'a fat_st_scheme
    \<Rightarrow> (eptr option \<times> u32 option \<times> 'a fat_st_scheme) kres \<Rightarrow> bool" where
  "looked p dp ep xs name wants off rs s res \<longleftrightarrow>
    (case dir_find name off rs of
       Some (k, r) \<Rightarrow> \<exists>t. res = Inr (Some ep, None, t) \<and> look_found p dp ep xs name k r s t
     | None \<Rightarrow> \<exists>t. res = Inr (None, if wants then Some (of_nat (dir_end off rs)) else None, t) \<and> look_failed p dp ep xs s t)"

lemma dir_find_not_hole: "dir_find name off rs = Some (k, r) \<Longrightarrow> \<not> is_hole r"
  by (induction name off rs rule: dir_find.induct) (auto split: if_splits)

lemma looked_step:
  assumes "scan p dp ep xs s t" and "looked p dp ep xs name wants off' rs' t res"
    and "dir_find name off rs = dir_find name off' rs'" and "dir_end off rs = dir_end off' rs'"
  shows "looked p dp ep xs name wants off rs s res"
proof -
  have f: "look_failed p dp ep xs t u \<Longrightarrow> look_failed p dp ep xs s u" for u
    using scan_trans [OF assms(1)] unfolding look_failed_def by blast
  have g: "look_found p dp ep xs name k r s u" if "\<not> is_hole r" "look_found p dp ep xs name k r t u" for k r u
  proof -
    have "(rec_info r (dirents t ep))\<lparr>filename := nm\<rparr> = (rec_info r (dirents s ep))\<lparr>filename := nm\<rparr>" for nm
      using rec_info_scan [OF scanD(8) [OF assms(1)], where r = r and nm = nm] that(1) by simp
    then show ?thesis using scan_trans [OF assms(1)] that(2) unfolding look_found_def by auto
  qed
  show ?thesis
  proof (cases "dir_find name off' rs'")
    case None
    then show ?thesis using assms(2) f unfolding looked_def assms(3,4) by auto
  next
    case (Some kr)
    obtain k r where kr: "kr = (k, r)" by (cases kr)
    have "\<not> is_hole r" by (rule dir_find_not_hole [of name off' rs' k]) (simp add: Some kr)
    then show ?thesis using assms(2) g Some unfolding looked_def assms(3,4) kr by auto
  qed
qed

lemma dirlookup_loop_ok:
  assumes "dir_at p dp ep xs s off rs" and "length rs < fuel" and "name \<noteq> []" and "0 \<notin> set name" and "length name \<le> 255"
  shows "looked p dp ep xs name wants (unat off) rs s (dirlookup_loop fuel dp ep name entcnt off count wants None s)"
  using assms(1,2)
proof (induction fuel arbitrary: s off rs count)
  case (Suc fuel)
  have clr: "cstr cleared = []" by (simp add: cleared_def cstr_def FAT32_MAX_FILENAME_def)
  obtain hs rs' where h: "rs = map Hole hs @ rs'" "rs' = [] \<or> \<not> is_hole (hd rs')" by (rule dir_split_holes)
  show ?case
  proof (cases rs')
    case Nil
    then have rs: "rs = map Hole hs" using h(1) by simp
    obtain t where t: "enext dp ep off count s = Inr (- 1, count, t)" "scan p dp ep xs s t"
      "dirents t ep = (dirents s ep)\<lparr>filename := cleared\<rparr>"
      by (rule enext_ends [OF Suc.prems(1) [unfolded rs]])
    have "evalid (dirents t ep) = 0" using t(3) dir_atD(7) [OF Suc.prems(1)] by simp
    note ep = eput_invalid [OF scanD(1) [OF t(2)] this]
    have f: "dir_find name (unat off) rs = None" using holes_simps(2) [of name "unat off" hs "[]"] by (simp add: rs)
    have e: "dir_end (unat off) rs = unat off"
      using holes_simps(3) [of hs] unfolding rs by (cases hs) simp_all
    show ?thesis unfolding looked_def f e using t(1,2) ep by (auto simp: look_failed_def)
  next
    case (Cons r rs'')
    then have nh: "\<not> is_hole r" using h(2) by simp
    note d = dir_atD [OF Suc.prems(1)]
    show ?thesis
    proof (cases "hs = []")
      case False
      obtain t where t: "enext dp ep off count s = Inr (0, length hs, t)" "scan p dp ep xs s t"
        "dirents t ep = (dirents s ep)\<lparr>filename := cleared\<rparr>"
        by (rule enext_skips [OF Suc.prems(1) [unfolded h(1) Cons] nh False])
      have ne: "\<not> str_eq FAT32_MAX_FILENAME name (filename (dirents t ep))"
        using str_eq_names [OF assms(4,5), of "[]" cleared] clr assms(3) t(3) by simp
      let ?off = "off + push_bit 5 (of_nat (length hs))"
      have hl: "length (dir_slots (map Hole hs)) = length hs" using holes_simps(1) [of hs "[]"] by simp
      note st = dir_at_step [OF Suc.prems(1) [unfolded h(1)] t(2), unfolded hl]
      have l: "length rs' < fuel" using Suc.prems(2) False h(1) by (cases hs) simp_all
      have "dirlookup_loop (Suc fuel) dp ep name entcnt off count wants None s
          = dirlookup_loop fuel dp ep name entcnt ?off (length hs) wants None t"
        using t(1) ne by (simp add: Let_def)
      moreover have "dir_find name (unat off) rs = dir_find name (unat ?off) rs'"
        unfolding h(1) st(2) by (rule holes_simps(2))
      moreover have "dir_end (unat off) rs = dir_end (unat ?off) rs'"
        unfolding h(1) st(2) by (rule dir_end_holes) (use Cons nh in simp_all)
      ultimately show ?thesis
        using looked_step [OF t(2) Suc.IH [OF st(1) l, of "length hs"]] by simp
    next
      case True
      then have rs: "rs = r # rs''" using h(1) Cons by simp
      obtain t nm where t: "enext dp ep off count s = Inr (1, length (rec_slots r), t)" "scan p dp ep xs s t"
        "cstr nm = rec_name r" "dirents t ep = rec_info r ((dirents s ep)\<lparr>filename := nm\<rparr>)"
        by (rule enext_found [OF Suc.prems(1) [unfolded rs] nh])
      have rk: "rec_ok r" using d(10) by (simp add: rs)
      have fn: "filename (dirents t ep) = nm" using t(4) nh by (cases r) (simp_all add: read_entry_info_def Let_def)
      have eq: "str_eq FAT32_MAX_FILENAME name (filename (dirents t ep)) \<longleftrightarrow> rec_name r = name"
        unfolding fn by (rule str_eq_names [OF assms(4,5) _ _ t(3)]) (use rec_name_ok [OF rk] in auto)
      show ?thesis
      proof (cases "rec_name r = name")
        case True
        have "dirents t ep = (rec_info r (dirents s ep))\<lparr>filename := nm\<rparr>"
          using t(4) nh by (cases r; cases "dirents s ep") (simp_all add: read_entry_info_def Let_def)
        then have "look_found p dp ep xs name (unat off) r s (upd_ent ep (\<lambda>d. d\<lparr>eparent := Some dp, eoff := off, evalid := 1\<rparr>)
            (settled (upd_ent dp (\<lambda>d. d\<lparr>eref := eref d + 1\<rparr>) t)))"
          unfolding look_found_def using t(2,3) True by (intro exI [of _ t] exI [of _ nm]) simp
        moreover have "dirlookup_loop (Suc fuel) dp ep name entcnt off count wants None s
            = Inr (Some ep, None, upd_ent ep (\<lambda>d. d\<lparr>eparent := Some dp, eoff := off, evalid := 1\<rparr>)
                (settled (upd_ent dp (\<lambda>d. d\<lparr>eref := eref d + 1\<rparr>) t)))"
          using t(1) eq True edup_settled [OF scanD(1) [OF t(2)], of dp] by (simp add: Let_def)
        moreover have "dir_find name (unat off) rs = Some (unat off, r)" using nh True by (simp add: rs)
        ultimately show ?thesis by (simp add: looked_def)
      next
        case False
        let ?off = "off + push_bit 5 (of_nat (length (rec_slots r)))"
        note st = dir_at_step [of p dp ep xs s off "[r]" rs'' t, simplified]
        have st': "dir_at p dp ep xs t ?off rs''" "unat ?off = unat off + 32 * length (rec_slots r)"
          using st Suc.prems(1) t(2) by (simp_all add: rs)
        have l: "length rs'' < fuel" using Suc.prems(2) by (simp add: rs)
        have "dirlookup_loop (Suc fuel) dp ep name entcnt off count wants None s
            = dirlookup_loop fuel dp ep name entcnt ?off (length (rec_slots r)) wants None t"
          using t(1) eq False by (simp add: Let_def)
        moreover have "dir_find name (unat off) rs = dir_find name (unat ?off) rs''"
          unfolding st'(2) using False by (simp add: rs)
        moreover have "dir_end (unat off) rs = dir_end (unat ?off) rs''"
          unfolding st'(2) using nh by (simp add: rs)
        ultimately show ?thesis
          using looked_step [OF t(2) Suc.IH [OF st'(1) l, of "length (rec_slots r)"]] by simp
      qed
    qed
  qed
qed simp

end
