(* ===== verification/DirProps.thy ===== *)
theory DirProps imports DirScan begin

text \<open>
  Directories as abstract listings, writing: \<open>emake\<close> puts a record into the listing, \<open>eremove\<close> makes holes of one,
  and \<open>dirlookup\<close> and \<open>ealloc\<close> as a whole search and extend it.
\<close>

section \<open>Writing a directory\<close>

text \<open>
  What writing inside the chain of \<open>dp\<close> leaves alone: of the entries everything but the cursor of \<open>dp\<close>, the table, and
  the clusters of other files.
\<close>

definition wrote :: "nat \<Rightarrow> eptr \<Rightarrow> u32 list \<Rightarrow> 'a fat_st_scheme \<Rightarrow> 'a fat_st_scheme \<Rightarrow> bool" where
  "wrote p dp xs s t \<longleftrightarrow> fat_ok p t \<and> on_chain t dp xs \<and> ent_step dp s t
    \<and> (\<forall>d. entry (fat s) d \<longrightarrow> fat_entry t d = fat_entry s d)
    \<and> (\<forall>d. data_clus (fat s) d \<longrightarrow> d \<notin> set xs \<longrightarrow> cluster_data t d = cluster_data s d)"

lemma wroteD:
  assumes "wrote p dp xs s t"
  shows "fat_ok p t" and "on_chain t dp xs" and "ent_step dp s t" and "fat t = fat s"
    and "j \<noteq> dp \<Longrightarrow> dirents t j = dirents s j" and "at_clus 0 0 (dirents t dp) = at_clus 0 0 (dirents s dp)"
    and "frame s t"
proof -
  show "fat_ok p t" "on_chain t dp xs" "ent_step dp s t" using assms by (simp_all add: wrote_def)
  then show "frame s t" using ent_step_frame by blast
  show "fat t = fat s" "j \<noteq> dp \<Longrightarrow> dirents t j = dirents s j" using \<open>ent_step dp s t\<close> ent_step_keeps(1,2) by blast+
  obtain c i where a: "io_step (upd_ent dp (at_clus c i) s) t" using assms by (auto simp: wrote_def ent_step_def)
  then show "at_clus 0 0 (dirents t dp) = at_clus 0 0 (dirents s dp)" using io_step_fat(2) [OF a] by (simp add: at_clus_def)
qed

lemma wrote_refl: "fat_ok p s \<Longrightarrow> on_chain s dp xs \<Longrightarrow> wrote p dp xs s s"
  by (simp add: wrote_def ent_step_refl)

lemma wrote_trans [trans]: "wrote p dp xs s t \<Longrightarrow> wrote p dp xs t u \<Longrightarrow> wrote p dp xs s u"
  using ent_step_trans wroteD(4) [of p dp xs s t] by (auto simp: wrote_def)

lemma io_wrote:
  assumes "ent_step dp s t" and "fat_ok p t" and "on_chain t dp xs" and "sectors t = sectors s"
  shows "wrote p dp xs s t" and "file_bytes t ys = file_bytes s ys"
proof -
  have "fat t = fat s" by (rule ent_step_keeps(1) [OF assms(1)])
  then have "fat_entry t = fat_entry s" "cluster_data t = cluster_data s"
    by (simp_all add: fat_entry_def [abs_def] cluster_data_def [abs_def] assms(4))
  then show "wrote p dp xs s t" "file_bytes t ys = file_bytes s ys" using assms by (simp_all add: wrote_def file_bytes_def)
qed

text \<open>A write at the cursor.\<close>

lemma write_here:
  assumes "fat_ok p s" and "on_chain s dp xs" and "unat n = length bs"
    and "unat off div unat (byts_per_clus (fat s)) < length xs"
    and "unat off mod unat (byts_per_clus (fat s)) + length bs \<le> unat (byts_per_clus (fat s))"
    and "cur_clus (dirents s dp) = xs ! (unat off div unat (byts_per_clus (fat s)))"
  obtains t r where "rw_clus (cur_clus (dirents s dp)) True (Obj bs) (off mod byts_per_clus (fat s)) n s = Inr (n, r, t)"
    and "wrote p dp xs s t" and "file_bytes t xs = splice (unat off) bs (file_bytes s xs)"
proof -
  let ?b = "unat (byts_per_clus (fat s))" and ?q = "unat off div unat (byts_per_clus (fat s))"
  note gb = geom_bpc [OF fat_okD(2) [OF assms(1)]]
  have m: "unat (off mod byts_per_clus (fat s)) = unat off mod ?b" by (simp add: unat_mod)
  have fit: "unat (off mod byts_per_clus (fat s)) + unat n \<le> unat (sec_per_clus (fat s)) * 512"
    using assms(3,5) gb(1) m by simp
  have ch: "fchain s (first_clus (dirents s dp)) xs" using assms(2) by (simp add: on_chain_def)
  have dq: "data_clus (fat s) (xs ! ?q)" by (rule fchain_data [OF ch]) (use assms(4) in simp)
  obtain t r where t: "rw_clus (xs ! ?q) True (Obj bs) (off mod byts_per_clus (fat s)) n s = Inr (n, r, t)"
    "fat_ok p t" "io_step s t"
    "cluster_data t (xs ! ?q) = splice (unat (off mod byts_per_clus (fat s))) bs (cluster_data s (xs ! ?q))"
    "\<And>y. (\<forall>i<unat (sec_per_clus (fat s)). y \<noteq> clus_sec (fat s) (xs ! ?q) i) \<Longrightarrow> sectors t y = sectors s y"
    by (rule rw_clus_write [OF assms(1) fit dq]) (use assms(3) in auto)
  note f2 = io_step_fat [OF t(3)]
  note w = write_elsewhere [OF assms(1) dq f2(1) t(5)]
  have oc: "on_chain t dp xs"
  proof -
    have "fchain t (first_clus (dirents s dp)) xs"
      by (rule fchain_cong [OF ch f2(1)]) (use w(1) fchain_data [OF ch] in \<open>simp add: data_clus_def\<close>)
    then show ?thesis using assms(2) f2(2) by (simp add: on_chain_def)
  qed
  have "file_bytes t xs = splice (?q * ?b + unat (off mod byts_per_clus (fat s))) bs (file_bytes s xs)"
    by (rule file_bytes_update [where w = ?b])
      (use fchain_distinct [OF fat_okD(2) [OF assms(1)] ch] cluster_data_props(1) [OF assms(1)] gb(1) assms(4,5) m
        t(4) w(2) fchain_data [OF ch] in auto)
  then have fb: "file_bytes t xs = splice (unat off) bs (file_bytes s xs)" unfolding m by simp
  have wr: "wrote p dp xs s t"
    unfolding wrote_def
  proof (intro conjI allI impI)
    show "ent_step dp s t" by (rule ent_step_io [OF t(3)])
    show "cluster_data t d = cluster_data s d" if "data_clus (fat s) d" "d \<notin> set xs" for d
      by (rule w(2) [OF _ that(1)]) (use that(2) assms(4) in auto)
  qed (use t(2) oc w(1) in blast)+
  show ?thesis by (rule that [OF _ wr fb]) (use t(1) assms(6) in simp)
qed

lemma read_here:
  assumes "fat_ok p s" and "on_chain s dp xs"
    and "unat off div unat (byts_per_clus (fat s)) < length xs"
    and "unat off mod unat (byts_per_clus (fat s)) + unat n \<le> unat (byts_per_clus (fat s))"
    and "cur_clus (dirents s dp) = xs ! (unat off div unat (byts_per_clus (fat s)))"
  obtains t where "rw_clus (cur_clus (dirents s dp)) False (Obj z) (off mod byts_per_clus (fat s)) n s
      = Inr (n, take (unat n) (drop (unat off) (file_bytes s xs)), t)"
    and "wrote p dp xs s t" and "file_bytes t xs = file_bytes s xs" and "cur_clus (dirents t dp) = cur_clus (dirents s dp)"
proof -
  let ?b = "unat (byts_per_clus (fat s))" and ?q = "unat off div unat (byts_per_clus (fat s))"
  note gb = geom_bpc [OF fat_okD(2) [OF assms(1)]]
  have b0: "0 < ?b" using gb(2) by (simp add: word_less_nat_alt)
  have m: "unat (off mod byts_per_clus (fat s)) = unat off mod ?b" by (simp add: unat_mod)
  have fit: "unat (off mod byts_per_clus (fat s)) + unat n \<le> unat (sec_per_clus (fat s)) * 512"
    using assms(4) gb(1) m by simp
  obtain t where t: "rw_clus (xs ! ?q) False (Obj z) (off mod byts_per_clus (fat s)) n s
      = Inr (n, take (unat n) (drop (unat (off mod byts_per_clus (fat s))) (cluster_data s (xs ! ?q))), t)"
    "fat_ok p t" "sectors t = sectors s" "io_step s t"
    by (rule rw_clus_read [OF assms(1) fit])
  note f2 = io_step_fat [OF t(4)]
  have ol: "unat off < length xs * ?b"
    using assms(3) b0 by (simp add: div_less_iff_less_mult)
  have piece: "take (unat n) (drop (unat off mod ?b) (cluster_data s (xs ! ?q))) = take (unat n) (drop (unat off) (file_bytes s xs))"
    unfolding file_bytes_nth
    by (rule concat_piece [symmetric]) (use cluster_data_props(1) [OF assms(1)] gb(1) ol assms(4) in auto)
  have oc: "on_chain t dp xs"
  proof -
    have "fchain t (first_clus (dirents s dp)) xs"
      by (rule fchain_cong [of s]) (use assms(2) f2(1) t(3) in \<open>simp_all add: on_chain_def fat_entry_def\<close>)
    then show ?thesis using assms(2) f2(2) by (simp add: on_chain_def)
  qed
  note w = io_wrote [OF ent_step_io [OF t(4)] t(2) oc t(3)]
  show ?thesis by (rule that [OF _ w]) (use t(1) assms(5) piece f2(2) m in simp_all)
qed

text \<open>A move of the cursor, up to the end of the directory.\<close>

lemma move_cursor:
  assumes "fat_ok p s" and "on_chain s dp xs" and "unat off \<le> length (file_bytes s xs)"
  obtains o2 t where "reloc_clus dp off False s = Inr (o2, t)" and "wrote p dp xs s t" and "sectors t = sectors s"
    and "file_bytes t xs = file_bytes s xs" and "unat off < length (file_bytes s xs) \<longrightarrow> o2 = off mod byts_per_clus (fat s)
      \<and> cur_clus (dirents t dp) = xs ! (unat off div unat (byts_per_clus (fat s)))"
proof (cases "unat off < length (file_bytes s xs)")
  case True
  then have "unat off div unat (byts_per_clus (fat s)) < length xs"
    using length_file_bytes [OF assms(1), of xs] by (simp add: less_mult_imp_div_less)
  then obtain t where t: "reloc_clus dp off False s = Inr (off mod byts_per_clus (fat s), t)" "fat_ok p t"
    "sectors t = sectors s" "ent_step dp s t" "on_chain t dp xs"
    "cur_clus (dirents t dp) = xs ! (unat off div unat (byts_per_clus (fat s)))"
    by (rule reloc_step [OF assms(1,2)])
  show ?thesis by (rule that [OF t(1) io_wrote(1) [OF t(4,2,5,3)] t(3) io_wrote(2) [OF t(4,2,5,3)]]) (use t(6) in simp)
next
  case False
  obtain t where t: "reloc_clus dp off False s = Inr (- 1, t)" "fat_ok p t" "sectors t = sectors s" "ent_step dp s t" "on_chain t dp xs"
    by (rule reloc_end [OF assms(1,2)]) (use False assms(3) in simp)
  show ?thesis by (rule that [OF t(1) io_wrote(1) [OF t(4,2,5,3)] t(3) io_wrote(2) [OF t(4,2,5,3)]]) (use False in simp)
qed

lemma put_slot_ok:
  assumes "fat_ok p s" and "on_chain s dp xs" and "off mod 32 = 0" and "length de = 32"
    and "unat off + 32 \<le> length (file_bytes s xs)"
  obtains t where "put_slot dp off de s = Inr t" and "wrote p dp xs s t" and "file_bytes t xs = splice (unat off) de (file_bytes s xs)"
proof -
  note g = fat_okD(2) [OF assms(1)]
  have "unat off < length xs * unat (byts_per_clus (fat s))" using length_file_bytes [OF assms(1), of xs] assms(5) by linarith
  then have q: "unat off div unat (byts_per_clus (fat s)) < length xs" by (simp add: less_mult_imp_div_less)
  obtain s1 where s1: "reloc_clus dp off True s = Inr (off mod byts_per_clus (fat s), s1)" "fat_ok p s1" "sectors s1 = sectors s"
    "ent_step dp s s1" "on_chain s1 dp xs" "cur_clus (dirents s1 dp) = xs ! (unat off div unat (byts_per_clus (fat s)))"
    by (rule reloc_step [OF assms(1,2) q])
  note w1 = io_wrote [OF s1(4,2,5,3)]
  have f1: "fat s1 = fat s" by (rule ent_step_keeps(1) [OF s1(4)])
  have c: "unat (32 :: u32) = length de"
    "unat off mod unat (byts_per_clus (fat s1)) + length de \<le> unat (byts_per_clus (fat s1))"
    using slot_fits(1) [OF g assms(3)] geom_bpc(1) [OF g] assms(4) by (simp_all add: unat_mod f1)
  obtain t r where t: "rw_clus (cur_clus (dirents s1 dp)) True (Obj de) (off mod byts_per_clus (fat s1)) 32 s1 = Inr (32, r, t)"
    "wrote p dp xs s1 t" "file_bytes t xs = splice (unat off) de (file_bytes s1 xs)"
    by (rule write_here [OF s1(2,5) c(1) q [folded f1] c(2) s1(6) [folded f1]])
  show ?thesis
    by (rule that [OF _ wrote_trans [OF w1(1) t(2)]]) (use t(1,3) s1(1) w1(2) in \<open>simp_all add: put_slot_def f1\<close>)
qed

lemma put_slots_ok:
  assumes "fat_ok p s" and "on_chain s dp xs" and "off mod 32 = 0" and "\<forall>de\<in>set des. length de = 32"
    and "unat off + 32 * length des \<le> length (file_bytes s xs)" and "unat off + 32 * length des < 2 ^ 32"
  shows "\<exists>t off'. put_slots dp off des s = Inr (off', t) \<and> wrote p dp xs s t
    \<and> file_bytes t xs = splice (unat off) (concat des) (file_bytes s xs)
    \<and> unat off' = unat off + 32 * length des \<and> off' mod 32 = 0"
  using assms
proof (induction des arbitrary: s off)
  case Nil
  then show ?case using wrote_refl [OF Nil(1,2)] by (simp add: splice_def)
next
  case (Cons de des)
  have de: "length de = 32" "unat off + 32 \<le> length (file_bytes s xs)" using Cons.prems(4,5) by simp_all
  obtain t where t: "put_slot dp off de s = Inr t" "wrote p dp xs s t" "file_bytes t xs = splice (unat off) de (file_bytes s xs)"
    by (rule put_slot_ok [OF Cons.prems(1-3) de])
  have o: "unat off + 32 < 2 ^ 32" using Cons.prems(6) by simp
  note n = next_slot [OF o Cons.prems(3)]
  have c: "(off + 32) mod 32 = 0" "\<forall>de\<in>set des. length de = 32"
    "unat (off + 32) + 32 * length des \<le> length (file_bytes t xs)" "unat (off + 32) + 32 * length des < 2 ^ 32"
    using n Cons.prems(4-6) de t(3) by simp_all
  obtain u off' where u: "put_slots dp (off + 32) des t = Inr (off', u)" "wrote p dp xs t u"
    "file_bytes u xs = splice (unat (off + 32)) (concat des) (file_bytes t xs)"
    "unat off' = unat (off + 32) + 32 * length des" "off' mod 32 = 0"
    using Cons.IH [OF wroteD(1,2) [OF t(2)] c] by metis
  have "length (concat ds) = 32 * length ds" if "\<forall>d\<in>set ds. length d = 32" for ds :: "u8 list list"
    using that by (induction ds) auto
  then have cl: "length (concat des) = 32 * length des" using Cons.prems(4) by simp
  have "file_bytes u xs = splice (unat off) (concat (de # des)) (file_bytes s xs)"
    using splice_splice [of "unat off" de "concat des" "file_bytes s xs"] u(3) t(3) n de(1) Cons.prems(5) cl by simp
  then show ?case using wrote_trans [OF t(2) u(2)] t(1) u n by auto
qed

subsection \<open>\<open>emake\<close>\<close>

lemma emake_record:
  assumes "fat_ok p s" and "on_chain s dp xs" and "dp \<noteq> ep" and "attribute (dirents s dp) AND ATTR_DIRECTORY \<noteq> 0"
    and "off mod 32 = 0" and "32 < off" and "cstr (filename (dirents s ep)) = name"
    and "r = Named name (attribute (dirents s ep)) (first_clus (dirents s ep)) (file_size (dirents s ep))" and "rec_ok r"
    and "unat off + 32 * length (rec_slots r) \<le> length (file_bytes s xs)" and "unat off + 32 * length (rec_slots r) < 2 ^ 32"
  shows "\<exists>t. emake dp ep off s = Inr t \<and> wrote p dp xs s t
    \<and> file_bytes t xs = splice (unat off) (concat (rec_slots r)) (file_bytes s xs)"
proof -
  let ?ls = "map (name_entry name) (rev [1..<Suc (long_count (length name))])"
  let ?de = "short_entry (generate_shortname name) (attribute (dirents s ep)) (first_clus (dirents s ep)) (file_size (dirents s ep))"
  have rs: "rec_slots r = ?ls @ [?de]" using assms(8) by simp
  have "length de = 32" if "de \<in> set (?ls @ [?de])" for de by (rule rec_slot_length [OF assms(9)]) (use that rs in simp)
  then have l: "\<forall>de\<in>set ?ls. length de = 32" "length ?de = 32" by (simp_all only: set_append Un_iff list.set insert_iff) blast+
  have b: "unat off + 32 * length ?ls \<le> length (file_bytes s xs)" "unat off + 32 * length ?ls < 2 ^ 32"
    using assms(10,11) unfolding rs by simp_all
  obtain t off' where t: "put_slots dp off ?ls s = Inr (off', t)" "wrote p dp xs s t"
    "file_bytes t xs = splice (unat off) (concat ?ls) (file_bytes s xs)" "unat off' = unat off + 32 * length ?ls" "off' mod 32 = 0"
    using put_slots_ok [OF assms(1,2,5) l(1) b] by metis
  have cl: "length (concat ?ls) = 32 * length ?ls"
  proof -
    have "length (concat ds) = 32 * length ds" if "\<forall>d\<in>set ds. length d = 32" for ds :: "u8 list list"
      using that by (induction ds) auto
    then show ?thesis using l(1) by blast
  qed
  have lt: "length (file_bytes t xs) = length (file_bytes s xs)"
    unfolding t(3) by (rule length_splice) (use b(1) cl in simp)
  have b': "unat off' + 32 \<le> length (file_bytes t xs)" using assms(10) unfolding rs lt t(4) by simp
  obtain u where u: "put_slot dp off' ?de t = Inr u" "wrote p dp xs t u" "file_bytes u xs = splice (unat off') ?de (file_bytes t xs)"
    by (rule put_slot_ok [OF wroteD(1,2) [OF t(2)] t(5) l(2) b'])
  have ep: "dirents t ep = dirents s ep" by (rule wroteD(5) [OF t(2)]) (use assms(3) in simp)
  have "unat off + length (concat ?ls) + length ?de \<le> length (file_bytes s xs)"
    using assms(10) cl l(2) unfolding rs by simp
  then have "file_bytes u xs = splice (unat off) (concat (rec_slots r)) (file_bytes s xs)"
    using splice_splice [of "unat off" "concat ?ls" ?de "file_bytes s xs"] u(3) t(3,4) cl by (simp only: rs) simp
  moreover have "emake dp ep off s = Inr u"
    using assms(4,5,7) assms(6) [THEN not_le [THEN iffD2]] t(1) u(1) ep by (simp add: emake_def Let_def del: upt_Suc)
  ultimately show ?thesis using wrote_trans [OF t(2) u(2)] by blast
qed

text \<open>At the first two slots \<open>emake\<close> writes a dot entry, whatever the name of the entry is.\<close>

lemma emake_dot:
  assumes "fat_ok p s" and "on_chain s dp xs" and "attribute (dirents s dp) AND ATTR_DIRECTORY \<noteq> 0"
    and "off mod 32 = 0" and "off \<le> 32" and "unat off + 32 \<le> length (file_bytes s xs)"
  shows "\<exists>t. emake dp ep off s = Inr t \<and> wrote p dp xs s t
    \<and> file_bytes t xs = splice (unat off) (short_entry (dot_name off) ATTR_DIRECTORY (first_clus (dirents s ep)) 0) (file_bytes s xs)"
proof -
  have l: "length (short_entry nm a c z) = 32" for nm a c z
    by (simp add: short_entry_def str_ncpy_def Let_def CHAR_SHORT_NAME_def le16_def)
  obtain t where "put_slot dp off (short_entry (dot_name off) ATTR_DIRECTORY (first_clus (dirents s ep)) 0) s = Inr t"
    "wrote p dp xs s t"
    "file_bytes t xs = splice (unat off) (short_entry (dot_name off) ATTR_DIRECTORY (first_clus (dirents s ep)) 0) (file_bytes s xs)"
    by (rule put_slot_ok [OF assms(1,2,4) l assms(6)])
  then show ?thesis using assms(3-5) by (simp add: emake_def Let_def)
qed

section \<open>Listings\<close>

text \<open>All clusters of the directory: the records, and zeros behind them.\<close>

definition dir_has :: "'a fat_st_scheme \<Rightarrow> u32 list \<Rightarrow> drec list \<Rightarrow> bool" where
  "dir_has s xs rs \<longleftrightarrow> list_all rec_ok rs \<and> length (dir_slots rs) < DIR_ENTRIES
    \<and> (\<exists>k. file_bytes s xs = concat (dir_slots rs) @ replicate k 0)"

text \<open>A new record goes behind the last one that is not a hole, over the holes there.\<close>

definition dir_add :: "drec \<Rightarrow> drec list \<Rightarrow> drec list" where
  "dir_add r rs = rev (dropWhile is_hole (rev rs)) @ r # drop (length (rec_slots r)) (rev (takeWhile is_hole (rev rs)))"

text \<open>The slots of a record become holes.\<close>

definition holes_of :: "drec \<Rightarrow> drec list" where
  "holes_of r = map (\<lambda>de. Hole (de[0 := EMPTY_ENTRY])) (rec_slots r)"

lemma dir_tail_zeros: "k mod 32 = 0 \<Longrightarrow> dir_tail (replicate k 0)"
proof -
  assume "k mod 32 = 0"
  then have "k = 0 \<or> 32 \<le> k" by presburger
  then show ?thesis by (auto simp: dir_tail_def END_OF_ENTRY_def)
qed

lemma file_bytes_mod:
  assumes "fat_ok p s"
  shows "length (file_bytes s xs) mod 32 = 0"
proof -
  have "length (file_bytes s xs) = length xs * unat (sec_per_clus (fat s)) * 16 * 32"
    using length_file_bytes [OF assms, of xs] geom_bpc(1) [OF fat_okD(2) [OF assms]] by simp
  then show ?thesis by (simp only: mod_mult_self2_is_0)
qed

lemma dir_hasD:
  assumes "dir_has s xs rs" and "fat_ok p s"
  obtains k where "file_bytes s xs = concat (dir_slots rs) @ replicate k 0" and "k mod 32 = 0" and "list_all rec_ok rs"
    and "length (dir_slots rs) < DIR_ENTRIES" and "length (file_bytes s xs) = 32 * length (dir_slots rs) + k"
proof -
  obtain k where k: "file_bytes s xs = concat (dir_slots rs) @ replicate k 0" and r: "list_all rec_ok rs"
    "length (dir_slots rs) < DIR_ENTRIES" using assms(1) by (auto simp: dir_has_def)
  have l: "length (file_bytes s xs) = 32 * length (dir_slots rs) + k" using k slots_bytes [OF r(1)] by simp
  have m: "k mod 32 = 0" using file_bytes_mod [OF assms(2), of xs] unfolding l by (simp only: mod_mult_self4)
  show ?thesis by (rule that [OF k m r l])
qed

lemma dir_has_at:
  assumes "dir_has s xs rs" and "fat_ok p s" and "on_chain s dp xs" and "dp \<noteq> ep"
    and "attribute (dirents s dp) AND ATTR_DIRECTORY \<noteq> 0" and "evalid (dirents s dp) = 1" and "evalid (dirents s ep) = 0"
  shows "dir_at p dp ep xs s 0 rs"
proof -
  obtain k where "file_bytes s xs = concat (dir_slots rs) @ replicate k 0" "k mod 32 = 0" "list_all rec_ok rs"
    "length (dir_slots rs) < DIR_ENTRIES"
    by (rule dir_hasD [OF assms(1,2)])
  then show ?thesis using assms(2-7) dir_tail_zeros by (auto simp: dir_at_def DIR_ENTRIES_def)
qed

lemma dir_slots_append [simp]: "dir_slots (as @ bs) = dir_slots as @ dir_slots bs"
  by (simp add: dir_slots_def)

lemma dir_find_append:
  "dir_find name off (as @ bs) =
    (case dir_find name off as of None \<Rightarrow> dir_find name (off + 32 * length (dir_slots as)) bs | Some x \<Rightarrow> Some x)"
  by (induction as arbitrary: off) (simp_all add: algebra_simps cong: option.case_cong)

lemma dir_find_holes: "list_all is_hole hs \<Longrightarrow> dir_find name off hs = None"
  by (induction hs arbitrary: off) auto

lemma dir_end_append:
  "dir_end off (as @ bs) = (if list_all is_hole bs then dir_end off as else dir_end (off + 32 * length (dir_slots as)) bs)"
  by (induction as arbitrary: off) (cases bs, auto simp: algebra_simps)

text \<open>A listing, cut behind its last record.\<close>

lemma dir_cut:
  obtains as hs where "rs = as @ map Hole hs" and "as = [] \<or> \<not> is_hole (last as)" and "dir_end 0 rs = 32 * length (dir_slots as)"
    and "\<And>r. dir_add r rs = as @ r # map Hole (drop (length (rec_slots r)) hs)"
proof -
  obtain hs' ys where h: "rev rs = map Hole hs' @ ys" "ys = [] \<or> \<not> is_hole (hd ys)" by (rule dir_split_holes)
  have rs: "rs = rev ys @ map Hole (rev hs')" using arg_cong [OF h(1), of rev] by (simp add: rev_map)
  have tw: "takeWhile is_hole (rev rs) = map Hole hs'" "dropWhile is_hole (rev rs) = ys"
    unfolding h(1) using h(2) by (cases ys; simp add: takeWhile_append dropWhile_append)+
  have "dir_end 0 rs = dir_end 0 (rev ys)" unfolding rs by (simp add: dir_end_append holes_simps(3) [of "rev hs'"] del: map_map)
  moreover have "dir_end 0 (rev ys) = 32 * length (dir_slots (rev ys))"
    using h(2) by (cases ys) (simp_all add: dir_end_append)
  ultimately show ?thesis
    using that [of "rev ys" "rev hs'"] rs h(2) tw by (simp add: dir_add_def rev_map drop_map last_rev)
qed

lemma dir_find_add:
  assumes "\<not> is_hole r"
  shows "dir_find (rec_name r) 0 rs = None \<Longrightarrow> dir_find (rec_name r) 0 (dir_add r rs) = Some (dir_end 0 rs, r)"
    and "name \<noteq> rec_name r \<Longrightarrow> dir_find name 0 (dir_add r rs) = dir_find name 0 rs"
proof -
  obtain as hs where c: "rs = as @ map Hole hs" "dir_end 0 rs = 32 * length (dir_slots as)"
    "dir_add r rs = as @ r # map Hole (drop (length (rec_slots r)) hs)"
    by (rule dir_cut [of rs]) blast
  show "dir_find (rec_name r) 0 rs = None \<Longrightarrow> dir_find (rec_name r) 0 (dir_add r rs) = Some (dir_end 0 rs, r)"
    unfolding c(2,3) using assms by (auto simp: c(1) dir_find_append split: option.splits)
  show "name \<noteq> rec_name r \<Longrightarrow> dir_find name 0 (dir_add r rs) = dir_find name 0 rs"
    unfolding c(3) by (simp add: c(1) dir_find_append dir_find_holes holes_simps(3) split: option.splits)
qed

lemma drop_slots:
  assumes "\<forall>de\<in>set ds. length de = 32"
  shows "drop (32 * m) (concat ds) = concat (drop m ds)" and "length (concat ds) = 32 * length ds"
proof -
  show "drop (32 * m) (concat ds) = concat (drop m ds)"
    using assms
  proof (induction ds arbitrary: m)
    case (Cons d ds)
    then show ?case by (cases m) simp_all
  qed simp
  show "length (concat ds) = 32 * length ds" using assms by (induction ds) auto
qed

lemma dir_has_add:
  assumes "dir_has s xs rs" and "fat_ok p s" and "rec_ok r" and "length (dir_slots (dir_add r rs)) < DIR_ENTRIES"
    and "file_bytes t xs = splice (dir_end 0 rs) (concat (rec_slots r)) (file_bytes s xs)"
    and "dir_end 0 rs + 32 * length (rec_slots r) \<le> length (file_bytes s xs)"
  shows "dir_has t xs (dir_add r rs)"
proof -
  obtain k where k: "file_bytes s xs = concat (dir_slots rs) @ replicate k 0" "list_all rec_ok rs"
    by (rule dir_hasD [OF assms(1,2)])
  obtain as hs where c: "rs = as @ map Hole hs" "dir_end 0 rs = 32 * length (dir_slots as)"
    "dir_add r rs = as @ r # map Hole (drop (length (rec_slots r)) hs)"
    by (rule dir_cut [of rs]) blast
  let ?A = "concat (dir_slots as)" and ?B = "concat (rec_slots r)"
  have ok: "list_all rec_ok as" "list_all rec_ok (map Hole hs)" using k(2) by (simp_all add: c(1))
  have lA: "length ?A = 32 * length (dir_slots as)" by (rule slots_bytes [OF ok(1)])
  have lh: "\<forall>de\<in>set hs. length de = 32" using hole_slots [of hs "[]"] ok(2) by simp
  have lB: "length ?B = 32 * length (rec_slots r)" by (rule drop_slots(2)) (use rec_slot_length [OF assms(3)] in blast)
  have fb: "file_bytes s xs = ?A @ concat hs @ replicate k 0"
    using k(1) holes_simps(1) [of hs "[]"] by (simp add: c(1))
  have "file_bytes t xs = ?A @ ?B @ drop (length ?B) (concat hs @ replicate k 0)"
    unfolding assms(5) fb c(2) splice_def using lA by simp
  moreover have "drop (length ?B) (concat hs @ replicate k 0)
      = concat (drop (length (rec_slots r)) hs) @ replicate (k - (length ?B - length (concat hs))) 0"
    unfolding drop_append using drop_slots(1) [OF lh, of "length (rec_slots r)"] lB by simp
  ultimately have "\<exists>k. file_bytes t xs = concat (dir_slots (dir_add r rs)) @ replicate k 0"
    using holes_simps(1) [of "drop (length (rec_slots r)) hs" "[]"] by (auto simp: c(3))
  moreover have "list_all rec_ok (dir_add r rs)"
    using ok assms(3) by (auto simp: c(3) list_all_iff dest: in_set_dropD)
  ultimately show ?thesis using assms(4) by (simp add: dir_has_def)
qed

section \<open>The cache of entries\<close>

lemma fat_ok_locks [simp]:
  "fat_ok p (set_slock (EntSL e) v s) = fat_ok p s"
  by (simp add: fat_ok_def quiet_def cache_ok_def ring_def running_def buf_ok_def held_def in_use_def set_slock_def)

lemma fat_ok_wake: "fat_ok p s \<Longrightarrow> fat_ok p (wake ch s)"
proof -
  have "pid (woken_tab ch ps i) = pid (ps i)" for ps i by (simp add: woken_tab_def woken_def)
  then show "fat_ok p s \<Longrightarrow> fat_ok p (wake ch s)"
    by (simp add: fat_ok_def quiet_def cache_ok_def ring_def running_def buf_ok_def held_def in_use_def wake_def)
qed

lemma lock_frame [simp]:
  "fat (set_slock k v s) = fat s" "sectors (set_slock k v s) = sectors s" "file_bytes (set_slock k v s) xs = file_bytes s xs"
  "fat_entry (set_slock k v s) = fat_entry s" "cluster_data (set_slock k v s) = cluster_data s"
  "ent_next (set_slock k v s) = ent_next s" "ent_prev (set_slock k v s) = ent_prev s"
  "fat (wake ch s) = fat s" "sectors (wake ch s) = sectors s" "file_bytes (wake ch s) xs = file_bytes s xs"
  "fat_entry (wake ch s) = fat_entry s" "cluster_data (wake ch s) = cluster_data s" "dirents (wake ch s) = dirents s"
  "file_bytes (upd_ent e f s) xs = file_bytes s xs" "slocks (settled s) = slocks s" "slocks (wake ch s) = slocks s"
  "procs (settled s) = procs s" "slocks (set_slock k v s) = (slocks s)(k := v)" "procs (set_slock k v s) = procs s"
  for s :: "'a fat_st_scheme"
  by (simp_all add: set_slock_def wake_def file_bytes_def fat_entry_def [abs_def] cluster_data_def [abs_def] settled_def)

lemma chain_frame [simp]:
  "fchain (set_slock k v s) c xs = fchain s c xs" "fchain (wake ch s) c xs = fchain s c xs"
  "on_chain (set_slock k v s) e xs = on_chain s e xs" "on_chain (wake ch s) e xs = on_chain s e xs"
proof -
  show f: "fchain (set_slock k v s) c xs = fchain s c xs" "fchain (wake ch s) c xs = fchain s c xs" for c
    by (induction xs arbitrary: c) simp_all
  show "on_chain (set_slock k v s) e xs = on_chain s e xs" "on_chain (wake ch s) e xs = on_chain s e xs"
    by (simp_all add: on_chain_def f)
qed

lemma dir_has_cong: "file_bytes t xs = file_bytes s xs \<Longrightarrow> dir_has t xs rs = dir_has s xs rs"
  by (simp add: dir_has_def)

text \<open>The two searches of \<open>eget\<close> see the links, and of each entry what decides a hit and what decides that it is free.\<close>

lemma eget_cached_cong:
  assumes "eget_cached fuel e dp name s = Inr None" and "ent_next t = ent_next s"
    and "\<forall>i. evalid (dirents t (Ent i)) = evalid (dirents s (Ent i)) \<and> eparent (dirents t (Ent i)) = eparent (dirents s (Ent i))
      \<and> filename (dirents t (Ent i)) = filename (dirents s (Ent i)) \<or> evalid (dirents t (Ent i)) = 0"
  shows "eget_cached fuel e dp name t = Inr None"
  using assms(1)
proof (induction fuel arbitrary: e)
  case 0
  then show ?case by (cases e) simp_all
next
  case (Suc fuel)
  show ?case
  proof (cases e)
    case (Ent i)
    let ?hit = "\<lambda>d. evalid d = 1 \<and> eparent d = Some dp \<and> str_eq FAT32_MAX_FILENAME (filename d) name"
    have h: "\<not> ?hit (dirents s (Ent i))" "eget_cached fuel (ent_next s (Ent i)) dp name s = Inr None"
      using Suc.prems by (auto simp: Ent Let_def split: if_splits)
    then have "\<not> ?hit (dirents t (Ent i))" using assms(3) [rule_format, of i] by auto
    then show ?thesis using Suc.IH [OF h(2)] assms(2) by (auto simp: Ent Let_def)
  qed simp
qed

lemma eget_unused_cong:
  assumes "eget_unused fuel e s = Inr (Some k)" and "ent_prev t = ent_prev s"
    and "\<forall>i. i \<noteq> k \<longrightarrow> eref (dirents t (Ent i)) = eref (dirents s (Ent i))" and "eref (dirents t (Ent k)) = 0"
  shows "eget_unused fuel e t = Inr (Some k)"
  using assms(1)
proof (induction fuel arbitrary: e)
  case 0
  then show ?case by (cases e) simp_all
next
  case (Suc fuel)
  show ?case
  proof (cases e)
    case (Ent i)
    show ?thesis
    proof (cases "i = k")
      case False
      then have "eref (dirents s (Ent i)) \<noteq> 0" using Suc.prems by (auto simp: Ent split: if_splits)
      then show ?thesis using Suc False assms(2,3) by (auto simp: Ent)
    qed (use assms(4) Ent in simp)
  qed (use Suc.prems in simp)
qed

lemma eget_unused_free: "eget_unused fuel e s = Inr (Some k) \<Longrightarrow> eref (dirents s (Ent k)) = 0"
proof (induction fuel arbitrary: e)
  case 0
  then show ?case by (cases e) simp_all
next
  case (Suc fuel)
  then show ?case by (cases e) (auto split: if_splits)
qed

text \<open>The name \<open>nm\<close> in \<open>dp\<close> is not in the cache, and \<open>Ent k\<close> is the entry that is given away next.\<close>

definition cache_miss :: "eptr \<Rightarrow> u8 list \<Rightarrow> nat \<Rightarrow> 'a fat_st_scheme \<Rightarrow> bool" where
  "cache_miss dp nm k s \<longleftrightarrow> eget_cached ENTRY_CACHE_NUM (ent_next s Root) dp nm s = Inr None
    \<and> eget_unused ENTRY_CACHE_NUM (ent_prev s Root) s = Inr (Some k)"

lemma cache_miss_cong:
  assumes "cache_miss dp nm k s" and "ent_next t = ent_next s" and "ent_prev t = ent_prev s"
    and "\<forall>i. i \<noteq> k \<longrightarrow> evalid (dirents t (Ent i)) = evalid (dirents s (Ent i)) \<and> eparent (dirents t (Ent i)) = eparent (dirents s (Ent i))
      \<and> filename (dirents t (Ent i)) = filename (dirents s (Ent i)) \<and> eref (dirents t (Ent i)) = eref (dirents s (Ent i))"
    and "evalid (dirents t (Ent k)) = 0" and "eref (dirents t (Ent k)) = 0"
  shows "cache_miss dp nm k t"
proof -
  have "eget_cached ENTRY_CACHE_NUM (ent_next t Root) dp nm t = Inr None"
    unfolding assms(2) by (rule eget_cached_cong) (use assms in \<open>auto simp: cache_miss_def\<close>)
  moreover have "eget_unused ENTRY_CACHE_NUM (ent_prev t Root) t = Inr (Some k)"
    unfolding assms(3) by (rule eget_unused_cong) (use assms in \<open>auto simp: cache_miss_def\<close>)
  ultimately show ?thesis by (simp add: cache_miss_def)
qed

text \<open>The entry as \<open>eget\<close> hands it out.\<close>

definition handed_out :: "eptr \<Rightarrow> nat \<Rightarrow> 'a fat_st_scheme \<Rightarrow> 'a fat_st_scheme" where
  "handed_out dp k s = settled (upd_ent (Ent k) (\<lambda>d. d\<lparr>eref := 1, edev := edev (dirents s dp), eoff := 0, evalid := 0, dirty := 0\<rparr>) s)"

lemma eget_miss:
  assumes "fat_ok p s" and "cache_miss dp nm k s"
  shows "eget dp (Some nm) s = Inr (Ent k, handed_out dp k s)"
proof -
  note r = runningD [OF fat_ok_running [OF assms(1)]]
  let ?s = "s\<lparr>core := acq EcacheLock (core s)\<rparr>"
  have c: "eget_cached ENTRY_CACHE_NUM (ent_next s Root) dp nm ?s = Inr None"
    by (rule eget_cached_cong) (use assms(2) in \<open>auto simp: cache_miss_def\<close>)
  have u: "eget_unused ENTRY_CACHE_NUM (ent_prev s Root) ?s = Inr (Some k)"
    by (rule eget_unused_cong) (use assms(2) eget_unused_free in \<open>auto simp: cache_miss_def\<close>)
  show ?thesis using r c u by (simp add: eget_def lock_simps handed_out_def settled_def upd_ent_def)
qed

section \<open>\<open>dirlookup\<close>\<close>

text \<open>An entry in memory that says what the record says.\<close>

definition matches :: "drec \<Rightarrow> dirent \<Rightarrow> bool" where
  "matches r d \<longleftrightarrow> cstr (filename d) = rec_name r \<and> rec_info r d = d"

definition plain_name :: "u8 list \<Rightarrow> bool" where
  "plain_name name \<longleftrightarrow> name \<noteq> [] \<and> 0 \<notin> set name \<and> length name \<le> 255 \<and> name \<noteq> [0x2e] \<and> name \<noteq> [0x2e, 0x2e]"

text \<open>After a search that found nothing, the entry it read into is free again.\<close>

definition gave_up :: "nat \<Rightarrow> eptr \<Rightarrow> nat \<Rightarrow> u32 list \<Rightarrow> 'a fat_st_scheme \<Rightarrow> 'a fat_st_scheme \<Rightarrow> bool" where
  "gave_up p dp k xs s t \<longleftrightarrow> fat_ok p t \<and> on_chain t dp xs \<and> frame s t \<and> sectors t = sectors s
    \<and> (\<forall>j. j \<noteq> dp \<longrightarrow> j \<noteq> Ent k \<longrightarrow> dirents t j = dirents s j)
    \<and> at_clus 0 0 (dirents t dp) = at_clus 0 0 (dirents s dp)
    \<and> evalid (dirents t (Ent k)) = 0 \<and> eref (dirents t (Ent k)) = 0"

definition looked_up :: "nat \<Rightarrow> eptr \<Rightarrow> nat \<Rightarrow> u32 list \<Rightarrow> nat \<Rightarrow> drec \<Rightarrow> 'a fat_st_scheme \<Rightarrow> 'a fat_st_scheme \<Rightarrow> bool" where
  "looked_up p dp k xs off r s t \<longleftrightarrow> fat_ok p t \<and> on_chain t dp xs \<and> sectors t = sectors s \<and> fat t = fat s
    \<and> eref (dirents t dp) = eref (dirents s dp) + 1
    \<and> (let d = dirents t (Ent k) in matches r d \<and> eparent d = Some dp \<and> eoff d = of_nat off \<and> evalid d = 1 \<and> eref d = 1)"

lemma handed_out_simps [simp]:
  "fat (handed_out dp k s) = fat s" "sectors (handed_out dp k s) = sectors s" "fat_ok p s \<Longrightarrow> fat_ok p (handed_out dp k s)"
  "file_bytes (handed_out dp k s) xs = file_bytes s xs" "dp \<noteq> Ent k \<Longrightarrow> on_chain (handed_out dp k s) dp xs = on_chain s dp xs"
  "frame s (handed_out dp k s)" "fchain (handed_out dp k s) c xs = fchain s c xs"
  by (simp_all add: handed_out_def frame_def on_chain_def)

lemma handed_out_ent:
  "dirents (handed_out dp k s) (Ent k)
    = (dirents s (Ent k))\<lparr>eref := 1, edev := edev (dirents s dp), eoff := 0, evalid := 0, dirty := 0\<rparr>"
  "j \<noteq> Ent k \<Longrightarrow> dirents (handed_out dp k s) j = dirents s j"
  by (simp_all add: handed_out_def)

lemma slots_ge: "list_all rec_ok rs \<Longrightarrow> length rs \<le> length (dir_slots rs)"
proof (induction rs)
  case (Cons r rs)
  then show ?case by (cases r) simp_all
qed simp

lemma rec_info_simps [simp]:
  "evalid (rec_info r d) = evalid d" "eref (rec_info r d) = eref d" "eparent (rec_info r d) = eparent d"
  "eoff (rec_info r d) = eoff d" "filename (rec_info r d) = filename d"
  by (cases r; simp add: read_entry_info_def Let_def)+

lemma rec_info_again:
  "rec_info r ((rec_info r d)\<lparr>filename := nm, eparent := q, eoff := k, evalid := v\<rparr>)
    = (rec_info r d)\<lparr>filename := nm, eparent := q, eoff := k, evalid := v\<rparr>"
  by (cases r; cases d) (simp_all add: read_entry_info_def Let_def)

lemma frame_trans [trans]: "frame s t \<Longrightarrow> frame t u \<Longrightarrow> frame s u"
  by (simp add: frame_def)

lemma dir_find_name: "dir_find name off rs = Some (k, r) \<Longrightarrow> rec_name r = name"
  by (induction name off rs rule: dir_find.induct) (auto split: if_splits)

lemma dirlookup_ok:
  assumes "fat_ok p s" and "on_chain s dp xs" and "dir_has s xs rs"
    and "attribute (dirents s dp) AND ATTR_DIRECTORY \<noteq> 0" and "evalid (dirents s dp) = 1"
    and "plain_name name" and "cache_miss dp name k s" and "dp \<noteq> Ent k"
  shows "case dir_find name 0 rs of
      Some (off, r) \<Rightarrow> \<exists>t. dirlookup dp name wants s = Inr (Some (Ent k), None, t) \<and> looked_up p dp k xs off r s t
    | None \<Rightarrow> \<exists>t. dirlookup dp name wants s = Inr (None, if wants then Some (of_nat (dir_end 0 rs)) else None, t)
        \<and> gave_up p dp k xs s t"
proof -
  have nm: "name \<noteq> []" "0 \<notin> set name" "length name \<le> 255" using assms(6) by (simp_all add: plain_name_def)
  have dots: "\<not> str_eq FAT32_MAX_FILENAME name [0x2e]" "\<not> str_eq FAT32_MAX_FILENAME name [0x2e, 0x2e]"
    using str_eq_names [OF nm(2,3), of "[0x2e]" "[0x2e]"] str_eq_names [OF nm(2,3), of "[0x2e, 0x2e]" "[0x2e, 0x2e]"] assms(6)
    by (auto simp: plain_name_def cstr_def)
  let ?s1 = "handed_out dp k s"
  note g = eget_miss [OF assms(1,7)]
  have s1: "fat_ok p ?s1" "on_chain ?s1 dp xs" using assms(1,2,8) by simp_all
  obtain o2 s2 where s2: "reloc_clus dp 0 False ?s1 = Inr (o2, s2)" "wrote p dp xs ?s1 s2" "sectors s2 = sectors ?s1"
    "file_bytes s2 xs = file_bytes ?s1 xs"
    by (rule move_cursor [OF s1, of 0]) auto
  note w = wroteD [OF s2(2)]
  have dp2: "same_ref (dirents s dp) (dirents s2 dp)" "attribute (dirents s2 dp) = attribute (dirents s dp)"
    using at_clus_eqD(1,2) [OF w(6) [symmetric]] handed_out_ent(2) [OF assms(8), where dp = dp and s = s] by simp_all
  have ep2: "dirents s2 (Ent k) = dirents ?s1 (Ent k)" by (rule w(5)) (use assms(8) in simp)
  have dh: "dir_has s2 xs rs" using assms(3) s2(4) by (simp add: dir_has_def)
  have at: "dir_at p dp (Ent k) xs s2 0 rs"
    by (rule dir_has_at [OF dh w(1,2) assms(8)]) (use dp2 assms(4,5) ep2 in \<open>simp_all add: same_ref_def handed_out_ent\<close>)
  have fuel: "length rs < Suc DIR_ENTRIES" using slots_ge [of rs] assms(3) by (simp add: dir_has_def)
  have call: "dirlookup dp name wants s
      = dirlookup_loop (Suc DIR_ENTRIES) dp (Ent k) name (long_count (length (cstr name)) + 1) 0 0 wants None s2"
    using assms(4,5) dots g s2(1) by (simp add: dirlookup_def handed_out_ent Let_def del: dirlookup_loop.simps)
  note l = dirlookup_loop_ok [OF at fuel nm, of wants "long_count (length (cstr name)) + 1" 0, folded call, simplified]
  show ?thesis
  proof (cases "dir_find name 0 rs")
    case None
    then obtain u where u: "dirlookup dp name wants s = Inr (None, if wants then Some (of_nat (dir_end 0 rs)) else None,
        settled (upd_ent (Ent k) (\<lambda>d. d\<lparr>eref := eref d - 1\<rparr>) u))" "scan p dp (Ent k) xs s2 u"
      using l by (auto simp: looked_def look_failed_def)
    note sc = scanD [OF u(2)]
    have "gave_up p dp k xs s (settled (upd_ent (Ent k) (\<lambda>d. d\<lparr>eref := eref d - 1\<rparr>) u))"
      unfolding gave_up_def
    proof (intro conjI allI impI)
      show "frame s (settled (upd_ent (Ent k) (\<lambda>d. d\<lparr>eref := eref d - 1\<rparr>) u))"
        using frame_trans [OF handed_out_simps(6) frame_trans [OF w(7) sc(10)]] by (simp add: frame_def)
      show "dirents (settled (upd_ent (Ent k) (\<lambda>d. d\<lparr>eref := eref d - 1\<rparr>) u)) j = dirents s j" if "j \<noteq> dp" "j \<noteq> Ent k" for j
        using that sc(9) w(5) handed_out_ent(2) by simp
      show "at_clus 0 0 (dirents (settled (upd_ent (Ent k) (\<lambda>d. d\<lparr>eref := eref d - 1\<rparr>) u)) dp) = at_clus 0 0 (dirents s dp)"
        using u(2) w(6) assms(8) by (simp add: scan_def handed_out_ent)
    qed (use sc ep2 assms(8) s2(3) in \<open>simp_all add: same_ref_def handed_out_ent on_chain_def\<close>)
    then show ?thesis using None u(1) by auto
  next
    case (Some x)
    then obtain off r where x: "dir_find name 0 rs = Some (off, r)" by (cases x) auto
    then have nh: "\<not> is_hole r" by (rule dir_find_not_hole)
    note rn = dir_find_name [OF x]
    obtain u nm where u: "scan p dp (Ent k) xs s2 u" "cstr nm = name"
      "dirents u (Ent k) = (rec_info r (dirents s2 (Ent k)))\<lparr>filename := nm\<rparr>"
      and r: "dirlookup dp name wants s = Inr (Some (Ent k), None, upd_ent (Ent k) (\<lambda>d. d\<lparr>eparent := Some dp, eoff := of_nat off, evalid := 1\<rparr>)
          (settled (upd_ent dp (\<lambda>d. d\<lparr>eref := eref d + 1\<rparr>) u)))"
      using l x by (auto simp: looked_def look_found_def)
    note sc = scanD [OF u(1)]
    let ?d = "(rec_info r (dirents s2 (Ent k)))\<lparr>filename := nm, eparent := Some dp, eoff := of_nat off, evalid := 1\<rparr>"
    have "matches r ?d" using u(2) rn rec_info_again [where r = r and d = "dirents s2 (Ent k)"] by (simp add: matches_def)
    then have "looked_up p dp k xs off r s (upd_ent (Ent k) (\<lambda>d. d\<lparr>eparent := Some dp, eoff := of_nat off, evalid := 1\<rparr>)
          (settled (upd_ent dp (\<lambda>d. d\<lparr>eref := eref d + 1\<rparr>) u)))"
      unfolding looked_up_def Let_def using sc assms(8) u(3) s2(3) w(4) dp2(1) ep2
      by (simp add: same_ref_def handed_out_ent on_chain_def)
    then show ?thesis using x r by auto
  qed
qed

section \<open>\<open>ealloc\<close>\<close>

lemma dir_end_facts:
  assumes "length (dir_slots rs) < DIR_ENTRIES"
  shows "dir_end 0 rs \<le> 32 * length (dir_slots rs)" and "unat (of_nat (dir_end 0 rs) :: u32) = dir_end 0 rs"
    and "(of_nat (dir_end 0 rs) :: u32) mod 32 = 0"
proof -
  obtain as hs where c: "rs = as @ map Hole hs" "dir_end 0 rs = 32 * length (dir_slots as)"
    by (rule dir_cut [of rs]) blast
  show le: "dir_end 0 rs \<le> 32 * length (dir_slots rs)" unfolding c(2) by (simp add: c(1))
  show u: "unat (of_nat (dir_end 0 rs) :: u32) = dir_end 0 rs"
    by (rule unat_of_nat_small) (use le assms in \<open>simp add: DIR_ENTRIES_def\<close>)
  have m: "dir_end 0 rs mod 32 = 0" unfolding c(2) by simp
  have "unat ((of_nat (dir_end 0 rs) :: u32) mod 32) = 0" unfolding unat_mod u using m by simp
  then show "(of_nat (dir_end 0 rs) :: u32) mod 32 = 0" by (simp add: unat_eq_zero)
qed

lemma dir_add_room: "dir_end 0 rs + 32 * length (rec_slots r) \<le> 32 * length (dir_slots (dir_add r rs))"
proof -
  obtain as hs where "dir_end 0 rs = 32 * length (dir_slots as)"
    "dir_add r rs = as @ r # map Hole (drop (length (rec_slots r)) hs)"
    by (rule dir_cut [of rs]) blast
  then show ?thesis by simp
qed

lemma gave_up_miss:
  assumes "gave_up p dp k xs s t" and "cache_miss dp nm k s"
  shows "cache_miss dp nm k t"
proof (rule cache_miss_cong [OF assms(2)])
  note g = assms(1) [unfolded gave_up_def]
  show "ent_next t = ent_next s" "ent_prev t = ent_prev s" "evalid (dirents t (Ent k)) = 0" "eref (dirents t (Ent k)) = 0"
    using g by (simp_all add: frame_def)
  have dp: "same_ref (dirents t dp) (dirents s dp)" "filename (dirents t dp) = filename (dirents s dp)"
    using at_clus_eqD(1,3) [of "dirents t dp" "dirents s dp"] g by blast+
  show "\<forall>i. i \<noteq> k \<longrightarrow> evalid (dirents t (Ent i)) = evalid (dirents s (Ent i)) \<and> eparent (dirents t (Ent i)) = eparent (dirents s (Ent i))
      \<and> filename (dirents t (Ent i)) = filename (dirents s (Ent i)) \<and> eref (dirents t (Ent i)) = eref (dirents s (Ent i))"
  proof (intro allI impI)
    fix i assume i: "i \<noteq> k"
    show "evalid (dirents t (Ent i)) = evalid (dirents s (Ent i)) \<and> eparent (dirents t (Ent i)) = eparent (dirents s (Ent i))
      \<and> filename (dirents t (Ent i)) = filename (dirents s (Ent i)) \<and> eref (dirents t (Ent i)) = eref (dirents s (Ent i))"
    proof (cases "Ent i = dp")
      case True
      then show ?thesis using dp by (simp add: same_ref_def)
    next
      case False
      then have "dirents t (Ent i) = dirents s (Ent i)" using g i by simp
      then show ?thesis by simp
    qed
  qed
qed

lemma stored_name:
  assumes "0 \<notin> set nm" and "length nm \<le> 255"
  shows "cstr (take 255 (str_ncpy FAT32_MAX_FILENAME nm a) @ [0]) = nm"
proof -
  have c: "cstr nm = nm" unfolding cstr_def by (rule takeWhile_eq_all_conv [THEN iffD2]) (use assms(1) in auto)
  have "replicate (255 - length nm) 0 @ [0] = replicate (256 - length nm) (0::u8)"
    using assms(2) replicate_append_same [of "255 - length nm" "0::u8"] by (simp add: Suc_diff_le flip: replicate_Suc)
  then have "take 255 (str_ncpy FAT32_MAX_FILENAME nm a) @ [0] = nm @ replicate (256 - length nm) 0"
    using assms(2) c by (simp add: str_ncpy_def Let_def FAT32_MAX_FILENAME_def)
  moreover have "takeWhile (\<lambda>c. c \<noteq> 0) (replicate (256 - length nm) (0::u8)) = []" by (simp add: takeWhile_eq_Nil_iff')
  ultimately show ?thesis using assms(1) by (simp add: cstr_def takeWhile_append)
qed

definition created :: "nat \<Rightarrow> eptr \<Rightarrow> nat \<Rightarrow> u32 list \<Rightarrow> drec \<Rightarrow> drec list \<Rightarrow> 'a fat_st_scheme \<Rightarrow> 'a fat_st_scheme \<Rightarrow> bool" where
  "created p dp k xs r rs s t \<longleftrightarrow> fat_ok p t \<and> on_chain t dp xs \<and> fat t = fat s \<and> dir_has t xs (dir_add r rs)
    \<and> (\<forall>d. entry (fat s) d \<longrightarrow> fat_entry t d = fat_entry s d)
    \<and> (\<forall>d. data_clus (fat s) d \<longrightarrow> d \<notin> set xs \<longrightarrow> cluster_data t d = cluster_data s d)
    \<and> eref (dirents t dp) = eref (dirents s dp) + 1
    \<and> (let d = dirents t (Ent k) in matches r d \<and> eparent d = Some dp \<and> eoff d = of_nat (dir_end 0 rs) \<and> evalid d = 1 \<and> eref d = 1)"

lemma ealloc_ok:
  assumes "fat_ok p s" and "on_chain s dp xs" and "dir_has s xs rs"
    and "attribute (dirents s dp) AND ATTR_DIRECTORY \<noteq> 0" and "evalid (dirents s dp) = 1"
    and "formatname (cstr name) = Some nm" and "nm \<noteq> []" and "length nm \<le> 255" and "hd nm \<noteq> EMPTY_ENTRY"
    and "cache_miss dp nm k s" and "dp \<noteq> Ent k" and "\<not> sl_locked (slocks s (EntSL (Ent k)))"
    and "dir_find nm 0 rs = None" and "attr \<noteq> ATTR_DIRECTORY" and "r = Named nm (attr OR ATTR_ARCHIVE) 0 0"
    and "32 < dir_end 0 rs" and "dir_end 0 rs + 32 * length (rec_slots r) \<le> length (file_bytes s xs)"
    and "length (dir_slots (dir_add r rs)) < DIR_ENTRIES"
  shows "\<exists>t. ealloc dp name attr s = Inr (Some (Ent k), t) \<and> created p dp k xs r rs s t"
proof -
  have fo: "0 \<notin> set nm" "hd nm \<noteq> 0x20" "hd nm \<noteq> 0x2e"
    using formatname_ok(1,2) [OF assms(6)] assms(7) by (auto simp: illegal_char_def)
  have pn: "plain_name nm" using fo assms(7,8) by (auto simp: plain_name_def)
  have "attr OR ATTR_ARCHIVE \<noteq> ATTR_LONG_NAME"
  proof
    assume "attr OR ATTR_ARCHIVE = ATTR_LONG_NAME"
    then have "bit (attr OR ATTR_ARCHIVE) 5 = bit ATTR_LONG_NAME 5" by simp
    then show False by (simp add: bit_or_iff ATTR_ARCHIVE_def ATTR_LONG_NAME_def)
  qed
  then have ro: "rec_ok r" using fo assms(7-9,15) by simp
  have ds: "length (dir_slots rs) < DIR_ENTRIES" using assms(3) by (simp add: dir_has_def)
  note de = dir_end_facts [OF ds]
  let ?off = "of_nat (dir_end 0 rs) :: u32"
  obtain t1 where t1: "dirlookup dp nm True s = Inr (None, Some ?off, t1)" "gave_up p dp k xs s t1"
    using dirlookup_ok [OF assms(1-5) pn assms(10,11), of True] assms(13) by auto
  note g = t1(2) [unfolded gave_up_def]
  have fb1: "file_bytes t1 xs = file_bytes s xs"
    using g frameD(1) [of s t1] by (simp add: file_bytes_def cluster_data_def [abs_def])
  let ?s2 = "handed_out dp k t1"
  have eg: "eget dp (Some nm) t1 = Inr (Ent k, ?s2)"
    by (rule eget_miss [OF _ gave_up_miss [OF t1(2) assms(10)]]) (use g in blast)
  let ?v = "\<lparr>sl_locked = True, sl_pid = pid (procs ?s2 p)\<rparr>"
  let ?s3 = "set_slock (EntSL (Ent k)) ?v (settled ?s2)"
  have ok2: "fat_ok p ?s2" using g by simp
  have el: "elock (Some (Ent k)) ?s2 = Inr ?s3"
    unfolding settled_def
    by (rule elock_free [OF fat_ok_running [OF ok2]])
      (use assms(12) g frameD(4) [of s t1 "Ent k"] in \<open>simp_all add: handed_out_def\<close>)
  let ?a4 = "upd_ent (Ent k) (\<lambda>d. d\<lparr>attribute := attr, file_size := 0, first_clus := 0\<rparr>) ?s3"
  let ?s4 = "settled (upd_ent dp (\<lambda>d. d\<lparr>eref := eref d + 1\<rparr>) ?a4)"
  have ed: "edup (Some dp) ?a4 = Inr (Some dp, ?s4)" by (rule edup_settled [where p = p]) (use ok2 in simp)
  define s6 where "s6 = upd_ent (Ent k) (\<lambda>d. d\<lparr>attribute := attribute d OR ATTR_ARCHIVE\<rparr>)
    (upd_ent (Ent k) (\<lambda>d. d\<lparr>eparent := Some dp, eoff := ?off, clus_cnt := 0, cur_clus := 0, dirty := 0,
       filename := take 255 (str_ncpy FAT32_MAX_FILENAME nm (filename d)) @ [0]\<rparr>) ?s4)"
  have f6: "fat_ok p s6" "on_chain s6 dp xs" "file_bytes s6 xs = file_bytes s xs" "fat s6 = fat s" "sectors s6 = sectors s"
    "dirents s6 dp = (dirents t1 dp)\<lparr>eref := eref (dirents t1 dp) + 1\<rparr>" "slocks s6 (EntSL (Ent k)) = ?v"
    "pid (procs s6 p) = pid (procs ?s2 p)"
    using g assms(2,11) frameD(1) [of s t1] fb1 by (simp_all add: s6_def on_chain_def handed_out_ent)
  let ?d6 = "dirents s6 (Ent k)"
  have d6: "cstr (filename ?d6) = nm" "attribute ?d6 = attr OR ATTR_ARCHIVE" "first_clus ?d6 = 0" "file_size ?d6 = 0" "cur_clus ?d6 = 0"
    "clus_cnt ?d6 = 0" "evalid ?d6 = 0" "eref ?d6 = 1" "eparent ?d6 = Some dp" "eoff ?d6 = ?off"
    using stored_name [OF fo(1) assms(8)] assms(11) by (simp_all add: s6_def handed_out_ent)
  have r6: "r = Named nm (attribute ?d6) (first_clus ?d6) (file_size ?d6)" using assms(15) d6 by simp
  have at1: "attribute (dirents t1 dp) = attribute (dirents s dp)" "eref (dirents t1 dp) = eref (dirents s dp)"
    using at_clus_eqD(1,2) [of "dirents t1 dp" "dirents s dp"] g by (auto simp: same_ref_def)
  have em: "\<exists>t. emake dp (Ent k) ?off s6 = Inr t \<and> wrote p dp xs s6 t
    \<and> file_bytes t xs = splice (unat ?off) (concat (rec_slots r)) (file_bytes s6 xs)"
  proof (rule emake_record [OF f6(1,2) assms(11) _ de(3) _ d6(1) r6 ro])
    show "attribute (dirents s6 dp) AND ATTR_DIRECTORY \<noteq> 0" using assms(4) at1 f6(6) by simp
    show "32 < ?off" using assms(16) de(2) by (simp add: word_less_nat_alt)
    show "unat ?off + 32 * length (rec_slots r) \<le> length (file_bytes s6 xs)" unfolding de(2) f6(3) by (rule assms(17))
    show "unat ?off + 32 * length (rec_slots r) < 2 ^ 32"
      using dir_add_room [of rs r] assms(18) unfolding de(2) by (simp add: DIR_ENTRIES_def)
  qed
  then obtain t7 where t7: "emake dp (Ent k) ?off s6 = Inr t7" "wrote p dp xs s6 t7"
    "file_bytes t7 xs = splice (dir_end 0 rs) (concat (rec_slots r)) (file_bytes s xs)"
    unfolding de(2) f6(3) by blast
  note w7 = wroteD [OF t7(2)]
  have d7: "dirents t7 (Ent k) = ?d6" by (rule w7(5)) (use assms(11) in simp)
  let ?t8 = "upd_ent (Ent k) (\<lambda>d. d\<lparr>evalid := 1\<rparr>) t7"
  let ?t = "set_slock (EntSL (Ent k)) \<lparr>sl_locked = False, sl_pid = 0\<rparr> (wake (ChSleepLock (EntSL (Ent k))) (settled ?t8))"
  have eu: "eunlock (Some (Ent k)) ?t8 = Inr ?t"
    unfolding settled_def
    by (rule eunlock_held [where p = p]) (use w7(1) frameD(4,5) [OF w7(7)] f6(7,8) d7 d6 fat_ok_running [OF w7(1)] in \<open>auto simp: upd_ent_def running_def\<close>)
  have "ealloc dp name attr s = Inr (Some (Ent k), ?t)"
    using assms(4-6,14) t1(1) eg el ed t7(1) eu by (simp add: ealloc_def Let_def s6_def)
  moreover have "created p dp k xs r rs s ?t"
  proof -
    have fe: "fat_entry s6 = fat_entry s" "cluster_data s6 = cluster_data s"
      by (simp_all add: fat_entry_def [abs_def] cluster_data_def [abs_def] f6(4,5))
    have "dir_has t7 xs (dir_add r rs)" by (rule dir_has_add [OF assms(3,1) ro assms(18) t7(3) assms(17)])
    then have "dir_has ?t xs (dir_add r rs)" by (simp add: dir_has_def)
    moreover have "matches r (dirents ?t (Ent k))" using d6 assms(15) by (simp add: matches_def d7)
    moreover have "eref (dirents ?t dp) = eref (dirents s dp) + 1"
      using at_clus_eqD(1) [OF w7(6)] f6(6) at1(2) assms(11) by (simp add: same_ref_def)
    ultimately show ?thesis
      using t7(2) w7 d6 d7 f6(4) fe assms(11) unfolding created_def wrote_def Let_def
      by (simp add: fat_ok_wake on_chain_def)
  qed
  ultimately show ?thesis by blast
qed

section \<open>\<open>eremove\<close>\<close>

lemma splice_head:
  assumes "drop i fb = de @ r" and "de \<noteq> []"
  shows "splice i [b] fb = splice i (de[0 := b]) fb"
proof -
  obtain x xs where de: "de = x # xs" using assms(2) by (cases de) auto
  have "drop (Suc i) fb = xs @ r" using assms(1) de by (metis append_Cons drop_Suc tl_drop list.sel(3))
  moreover have "drop (i + length de) fb = r"
  proof -
    have "drop (i + length de) fb = drop (length de) (drop i fb)" by (simp add: add.commute)
    then show ?thesis unfolding assms(1) by simp
  qed
  ultimately show ?thesis by (simp add: splice_def de)
qed

lemma drop_splice:
  assumes "i + length bs \<le> j" and "i + length bs \<le> length fb"
  shows "drop j (splice i bs fb) = drop j fb"
proof -
  have "drop (j - (i + length bs)) (drop (i + length bs) fb) = drop j fb" using assms(1) by simp
  then show ?thesis using assms by (simp add: splice_def min_def)
qed

lemma eremove_loop_ok:
  assumes "fat_ok p s" and "on_chain s dp xs" and "off mod 32 = 0" and "\<forall>de\<in>set des. length de = 32"
    and "drop (unat off) (file_bytes s xs) = concat des @ r" and "unat off + 32 * length des < 2 ^ 32"
    and "des \<noteq> [] \<longrightarrow> off2 = off mod byts_per_clus (fat s)
      \<and> cur_clus (dirents s dp) = xs ! (unat off div unat (byts_per_clus (fat s)))"
    and "unat off \<le> length (file_bytes s xs)"
  shows "\<exists>t. eremove_loop (length des) dp off off2 s = Inr t \<and> wrote p dp xs s t
    \<and> file_bytes t xs = splice (unat off) (concat (map (\<lambda>de. de[0 := EMPTY_ENTRY]) des)) (file_bytes s xs)"
  using assms
proof (induction des arbitrary: s off off2)
  case Nil
  show ?case using wrote_refl [OF Nil(1,2)] by (simp add: splice_def)
next
  case (Cons de des)
  note g = fat_okD(2) [OF Cons.prems(1)]
  let ?b = "unat (byts_per_clus (fat s))" and ?fb = "file_bytes s xs"
  have de: "length de = 32" using Cons.prems(4) by simp
  have d: "drop (unat off) ?fb = de @ concat des @ r" using Cons.prems(5) by simp
  have "length (drop (unat off) ?fb) \<ge> 32" unfolding d using de by simp
  then have le: "unat off + 32 \<le> length ?fb" by simp
  then have "unat off < length xs * ?b" using length_file_bytes [OF Cons.prems(1), of xs] by linarith
  then have q: "unat off div ?b < length xs" by (simp add: less_mult_imp_div_less)
  have c: "unat (1 :: u32) = length [EMPTY_ENTRY]" "unat off mod ?b + length [EMPTY_ENTRY] \<le> ?b"
    using slot_fits(1) [OF g Cons.prems(3)] geom_bpc(1) [OF g] by (simp_all add: unat_mod)
  have cur: "off2 = off mod byts_per_clus (fat s)" "cur_clus (dirents s dp) = xs ! (unat off div ?b)" using Cons.prems(7) by simp_all
  obtain t1 r1 where t1: "rw_clus (cur_clus (dirents s dp)) True (Obj [EMPTY_ENTRY]) (off mod byts_per_clus (fat s)) 1 s = Inr (1, r1, t1)"
    "wrote p dp xs s t1" "file_bytes t1 xs = splice (unat off) [EMPTY_ENTRY] ?fb"
    by (rule write_here [OF Cons.prems(1,2) c(1) q c(2) cur(2)])
  have fb1: "file_bytes t1 xs = splice (unat off) (de[0 := EMPTY_ENTRY]) ?fb"
    unfolding t1(3) by (rule splice_head [OF d]) (use de in auto)
  have l1: "length (file_bytes t1 xs) = length ?fb" unfolding fb1 using de le by simp
  have o: "unat off + 32 < 2 ^ 32" using Cons.prems(6) by simp
  note n = next_slot [OF o Cons.prems(3)]
  have le1: "unat (off + 32) \<le> length (file_bytes t1 xs)" using n le l1 by simp
  obtain o2 t2 where t2: "reloc_clus dp (off + 32) False t1 = Inr (o2, t2)" "wrote p dp xs t1 t2"
    "sectors t2 = sectors t1" "file_bytes t2 xs = file_bytes t1 xs" "unat (off + 32) < length (file_bytes t1 xs) \<longrightarrow> o2 = (off + 32) mod byts_per_clus (fat t1)
      \<and> cur_clus (dirents t2 dp) = xs ! (unat (off + 32) div unat (byts_per_clus (fat t1)))"
    by (rule move_cursor [OF wroteD(1,2) [OF t1(2)] le1])
  have d2: "drop (unat (off + 32)) (file_bytes t2 xs) = concat des @ r"
  proof -
    have "drop (unat off + 32) (file_bytes t2 xs) = drop (unat off + 32) ?fb"
      unfolding t2(4) fb1 by (rule drop_splice) (use de le in simp_all)
    also have "\<dots> = drop 32 (drop (unat off) ?fb)" by (simp add: add.commute)
    finally show ?thesis unfolding d using n de by simp
  qed
  have c2: "(off + 32) mod 32 = 0" "\<forall>de\<in>set des. length de = 32" "unat (off + 32) + 32 * length des < 2 ^ 32"
    "unat (off + 32) \<le> length (file_bytes t2 xs)"
    using n Cons.prems(4,6) le1 t2(4) by simp_all
  have c3: "des \<noteq> [] \<longrightarrow> o2 = (off + 32) mod byts_per_clus (fat t2)
      \<and> cur_clus (dirents t2 dp) = xs ! (unat (off + 32) div unat (byts_per_clus (fat t2)))"
  proof
    assume "des \<noteq> []"
    then have "0 < length (concat des)" using c2(2) by (cases des) auto
    then have "0 < length (drop (unat (off + 32)) (file_bytes t2 xs))" unfolding d2 by simp
    then show "o2 = (off + 32) mod byts_per_clus (fat t2)
      \<and> cur_clus (dirents t2 dp) = xs ! (unat (off + 32) div unat (byts_per_clus (fat t2)))"
      using t2(4,5) wroteD(4) [OF t2(2)] by simp
  qed
  obtain u where u: "eremove_loop (length des) dp (off + 32) o2 t2 = Inr u" "wrote p dp xs t2 u"
    "file_bytes u xs = splice (unat (off + 32)) (concat (map (\<lambda>de. de[0 := EMPTY_ENTRY]) des)) (file_bytes t2 xs)"
    using Cons.IH [OF wroteD(1,2) [OF t2(2)] c2(1,2) d2 c2(3) c3 c2(4)] by metis
  have cl: "length (concat (map (\<lambda>de. de[0 := EMPTY_ENTRY]) des)) = 32 * length des"
    using drop_slots(2) [of "map (\<lambda>de. de[0 := EMPTY_ENTRY]) des"] c2(2) by simp
  have "32 * length des \<le> length (drop (unat (off + 32)) (file_bytes t2 xs))"
    unfolding d2 using drop_slots(2) [OF c2(2)] by simp
  then have "unat off + length (de[0 := EMPTY_ENTRY]) + length (concat (map (\<lambda>de. de[0 := EMPTY_ENTRY]) des)) \<le> length ?fb"
    using cl de t2(4) l1 n le by simp
  then have "file_bytes u xs = splice (unat off) (concat (map (\<lambda>de. de[0 := EMPTY_ENTRY]) (de # des))) ?fb"
    using splice_splice [of "unat off" "de[0 := EMPTY_ENTRY]" "concat (map (\<lambda>de. de[0 := EMPTY_ENTRY]) des)" ?fb]
      u(3) t2(4) fb1 n de by simp
  moreover have "eremove_loop (length (de # des)) dp off off2 s = Inr u" using t1(1) t2(1) u(1) cur(1) by simp
  ultimately show ?case using wrote_trans [OF wrote_trans [OF t1(2) t2(2)] u(2)] by blast
qed

lemma entry_count_order:
  fixes b :: bool
  assumes "0 < i" and "i \<le> 20"
  shows "unat (entry_count ((of_nat i OR (if b then LAST_LONG_ENTRY else 0)) # r)) = i"
proof -
  have "list_all (\<lambda>i. unat (entry_count ((of_nat i OR (if b then LAST_LONG_ENTRY else 0)) # r)) = i) [1..<21]"
    unfolding LAST_LONG_ENTRY_def entry_count_def by (cases b) (simp_all add: upt_rec)
  moreover have "i \<in> set [1..<21]" using assms by simp
  ultimately show ?thesis unfolding list_all_iff by blast
qed

lemma holes_of_facts:
  assumes "rec_ok r"
  shows "list_all rec_ok (holes_of r)" and "list_all is_hole (holes_of r)"
    and "dir_slots (holes_of r) = map (\<lambda>de. de[0 := EMPTY_ENTRY]) (rec_slots r)"
proof -
  have "length de = 32" if "de \<in> set (rec_slots r)" for de using rec_slot_length [OF assms that] .
  then show "list_all rec_ok (holes_of r)" by (auto simp: holes_of_def list_all_iff)
  show "list_all is_hole (holes_of r)" by (auto simp: holes_of_def list_all_iff)
  have "dir_slots (map (\<lambda>de. Hole (f de)) ds) = map f ds" for f and ds :: "u8 list list" by (induction ds) simp_all
  then show "dir_slots (holes_of r) = map (\<lambda>de. de[0 := EMPTY_ENTRY]) (rec_slots r)" by (simp add: holes_of_def)
qed

lemma eremove_ok:
  assumes "fat_ok p s" and "on_chain s dp xs" and "dir_has s xs (as @ r # bs)" and "r = Named nm a c z" and "dp \<noteq> e"
    and "evalid (dirents s e) = 1" and "eparent (dirents s e) = Some dp" and "eoff (dirents s e) = of_nat (32 * length (dir_slots as))"
  shows "\<exists>t. eremove e s = Inr (upd_ent e (\<lambda>d. d\<lparr>evalid := - 1\<rparr>) t) \<and> wrote p dp xs s t \<and> dir_has t xs (as @ holes_of r @ bs)"
proof -
  obtain k where k: "file_bytes s xs = concat (dir_slots (as @ r # bs)) @ replicate k 0" "list_all rec_ok (as @ r # bs)"
    "length (dir_slots (as @ r # bs)) < DIR_ENTRIES" "length (file_bytes s xs) = 32 * length (dir_slots (as @ r # bs)) + k"
    by (rule dir_hasD [OF assms(3,1)])
  have rk: "rec_ok r" "list_all rec_ok as" "list_all rec_ok bs" using k(2) by simp_all
  let ?off = "of_nat (32 * length (dir_slots as)) :: u32" and ?n = "long_count (length nm)"
  have n: "0 < ?n" "?n \<le> 20" using rk(1) long_count_pos [of nm] long_count_bound [of nm] by (simp_all add: assms(4))
  have len: "length (rec_slots r) = Suc ?n" by (simp add: assms(4))
  have uo: "unat ?off = 32 * length (dir_slots as)"
    by (rule unat_of_nat_small) (use k(3) in \<open>simp add: DIR_ENTRIES_def\<close>)
  have om: "?off mod 32 = 0"
  proof -
    have "unat (?off mod 32) = 0" unfolding unat_mod uo by simp
    then show ?thesis by (simp add: unat_eq_zero)
  qed
  have lA: "length (concat (dir_slots as)) = 32 * length (dir_slots as)" by (rule slots_bytes [OF rk(2)])
  have d: "drop (unat ?off) (file_bytes s xs) = concat (rec_slots r) @ concat (dir_slots bs) @ replicate k 0"
    unfolding uo k(1) using lA by simp
  have le: "unat ?off \<le> length (file_bytes s xs)" "unat ?off < length (file_bytes s xs)" unfolding uo k(4) by (simp_all add: len)
  obtain o2 s1 where s1: "reloc_clus dp ?off False s = Inr (o2, s1)" "wrote p dp xs s s1" "sectors s1 = sectors s"
    "file_bytes s1 xs = file_bytes s xs" "o2 = ?off mod byts_per_clus (fat s)"
    "cur_clus (dirents s1 dp) = xs ! (unat ?off div unat (byts_per_clus (fat s)))"
    by (rule move_cursor [OF assms(1,2) le(1)]) (use le(2) in blast)
  note w1 = wroteD [OF s1(2)]
  obtain b des where sl: "rec_slots r = name_entry nm ?n # des" "name_entry nm ?n ! 0 = b" "length (name_entry nm ?n) = 32"
    using n name_entry_bytes(1) [OF n] by (simp add: assms(4))
  have q: "unat ?off div unat (byts_per_clus (fat s1)) < length xs"
    "unat ?off mod unat (byts_per_clus (fat s1)) + unat (1 :: u32) \<le> unat (byts_per_clus (fat s1))"
  proof -
    note g = fat_okD(2) [OF w1(1)]
    have "unat ?off < length xs * unat (byts_per_clus (fat s1))" using le(2) length_file_bytes [OF w1(1), of xs] s1(4) by simp
    then show "unat ?off div unat (byts_per_clus (fat s1)) < length xs" by (simp add: less_mult_imp_div_less)
    show "unat ?off mod unat (byts_per_clus (fat s1)) + unat (1 :: u32) \<le> unat (byts_per_clus (fat s1))"
      using slot_fits(1) [OF g om] geom_bpc(1) [OF g] by (simp add: unat_mod)
  qed
  obtain s2 where s2: "rw_clus (cur_clus (dirents s1 dp)) False (Obj []) (?off mod byts_per_clus (fat s1)) 1 s1
      = Inr (1, take (unat (1 :: u32)) (drop (unat ?off) (file_bytes s1 xs)), s2)"
    "wrote p dp xs s1 s2" "file_bytes s2 xs = file_bytes s1 xs" "cur_clus (dirents s2 dp) = cur_clus (dirents s1 dp)"
    by (rule read_here [OF w1(1,2) q s1(6) [folded w1(4)]])
  note w2 = wroteD [OF s2(2)]
  have first: "take (unat (1 :: u32)) (drop (unat ?off) (file_bytes s1 xs)) = [b]"
    unfolding s1(4) d sl(1) using sl(2,3) by (cases "name_entry nm ?n") simp_all
  have cnt: "Suc (unat (entry_count [b])) = length (rec_slots r)"
    unfolding len sl(2) [symmetric] name_entry_def long_entry_wchars(2) using entry_count_order [OF n, of True "[]"] by simp
  have l32: "\<forall>de\<in>set (rec_slots r). length de = 32" using rec_slot_length [OF rk(1)] by blast
  have d2: "drop (unat ?off) (file_bytes s2 xs) = concat (rec_slots r) @ concat (dir_slots bs) @ replicate k 0"
    using d s1(4) s2(3) by simp
  have bd: "unat ?off + 32 * length (rec_slots r) < 2 ^ 32" unfolding uo using k(3) by (simp add: DIR_ENTRIES_def)
  have cc: "rec_slots r \<noteq> [] \<longrightarrow> o2 = ?off mod byts_per_clus (fat s2)
      \<and> cur_clus (dirents s2 dp) = xs ! (unat ?off div unat (byts_per_clus (fat s2)))"
    using s1(5,6) s2(4) w1(4) w2(4) by simp
  obtain t where t: "eremove_loop (length (rec_slots r)) dp ?off o2 s2 = Inr t" "wrote p dp xs s2 t"
    "file_bytes t xs = splice (unat ?off) (concat (map (\<lambda>de. de[0 := EMPTY_ENTRY]) (rec_slots r))) (file_bytes s2 xs)"
    using eremove_loop_ok [OF w2(1,2) om l32 d2 bd cc] le(1) s1(4) s2(3) by auto
  have "eremove e s = Inr (upd_ent e (\<lambda>d. d\<lparr>evalid := - 1\<rparr>) t)"
    using assms(6-8) s1(1,5) s2(1) first cnt t(1) w1(4) by (simp add: eremove_def Let_def del: eremove_loop.simps)
  moreover have "dir_has t xs (as @ holes_of r @ bs)"
  proof -
    note h = holes_of_facts [OF rk(1)]
    let ?H = "map (\<lambda>de. de[0 := EMPTY_ENTRY]) (rec_slots r)"
    have lH: "length (concat ?H) = 32 * length (rec_slots r)" using drop_slots(2) [of ?H] l32 by simp
    have lR: "length (concat (rec_slots r)) = 32 * length (rec_slots r)" by (rule drop_slots(2) [OF l32])
    have fb: "file_bytes s2 xs = concat (dir_slots as) @ concat (rec_slots r) @ concat (dir_slots bs) @ replicate k 0"
      using k(1) s1(4) s2(3) by simp
    have "file_bytes t xs = concat (dir_slots as) @ concat ?H @ concat (dir_slots bs) @ replicate k 0"
      unfolding t(3) fb uo splice_def using lA lH lR by simp
    then show ?thesis using rk h k(3) by (auto simp: dir_has_def)
  qed
  ultimately show ?thesis using wrote_trans [OF wrote_trans [OF s1(2) s2(2)] t(2)] by blast
qed

section \<open>A small directory\<close>

text \<open>The volume of \<open>fat_demo\<close>, with a directory in the clusters 3 and 5 and the ring of \<open>fat32_init\<close>.\<close>

definition dir_demo0 :: "drec list \<Rightarrow> fat_st" where
  "dir_demo0 rs = fat_demo0\<lparr>sectors := (\<lambda>sec. if sec = 1 then fat_sec1
       else if sec = 3 then concat (dir_slots rs) @ replicate (512 - 32 * length (dir_slots rs)) 0 else replicate 512 0),
     dirents := (\<lambda>e. if e = Root then dirent0\<lparr>attribute := ATTR_DIRECTORY, first_clus := 3, cur_clus := 3, evalid := 1, eref := 1\<rparr>
       else dirent0),
     ent_next := (\<lambda>e. case e of Root \<Rightarrow> Ent (ENTRY_CACHE_NUM - 1) | Ent i \<Rightarrow> if i = 0 then Root else Ent (i - 1)),
     ent_prev := (\<lambda>e. case e of Root \<Rightarrow> Ent 0 | Ent i \<Rightarrow> if Suc i < ENTRY_CACHE_NUM then Ent (Suc i) else Root)\<rparr>"

definition dir_demo :: "drec list \<Rightarrow> fat_st" where
  "dir_demo rs = binit (dir_demo0 rs)"

definition dot_recs :: "drec list" where
  "dot_recs = [Plain (short_entry (dot_name 0) ATTR_DIRECTORY 3 0), Plain (short_entry (dot_name 32) ATTR_DIRECTORY 2 0)]"

lemma binit_keeps_ents:
  fixes s :: "'a fat_st_scheme"
  shows "ent_next (binit s) = ent_next s" and "ent_prev (binit s) = ent_prev s" and "slocks (binit s) (EntSL e) = slocks s (EntSL e)"
proof -
  have b: "ent_next (binit_buf i t) = ent_next t" "ent_prev (binit_buf i t) = ent_prev t"
    "slocks (binit_buf i t) (EntSL e) = slocks t (EntSL e)" for i and t :: "'a fat_st_scheme"
    by (simp_all add: binit_buf_def Let_def set_buf_def set_next_def set_prev_def initsleeplock_def set_slock_def)
  have "ent_next (fold binit_buf is t) = ent_next t" "ent_prev (fold binit_buf is t) = ent_prev t"
    "slocks (fold binit_buf is t) (EntSL e) = slocks t (EntSL e)" for "is" and t :: "'a fat_st_scheme"
    by (induction "is" arbitrary: t) (simp_all add: b)
  then show "ent_next (binit s) = ent_next s" "ent_prev (binit s) = ent_prev s" "slocks (binit s) (EntSL e) = slocks s (EntSL e)"
    by (simp_all add: binit_def Let_def set_next_def set_prev_def)
qed

lemma dir_demo_simps:
  "fat (dir_demo rs) = fat_demo_info" "sectors (dir_demo rs) = sectors (dir_demo0 rs)" "dirents (dir_demo rs) = dirents (dir_demo0 rs)"
  "ent_next (dir_demo rs) = ent_next (dir_demo0 rs)" "ent_prev (dir_demo rs) = ent_prev (dir_demo0 rs)"
  "\<not> sl_locked (slocks (dir_demo rs) (EntSL e))"
proof -
  have i: "idle (core (dir_demo0 rs))"
    using bio_demo_ready(1) by (simp add: dir_demo0_def fat_demo0_def bio_st.defs running_def)
  show "sectors (dir_demo rs) = sectors (dir_demo0 rs)" using binit_facts(4) [OF i] by (simp add: dir_demo_def)
  show "\<not> sl_locked (slocks (dir_demo rs) (EntSL e))"
    by (simp add: dir_demo_def binit_keeps_ents)
      (simp add: dir_demo0_def fat_demo0_def bio_st.defs bio_demo_def slk_st.defs slk_demo_def proc_st.defs)
qed (simp_all add: dir_demo_def binit_keeps_fat binit_keeps_ents, simp_all add: dir_demo0_def fat_demo0_def bio_st.defs)

lemma dir_demo_ok:
  assumes "list_all rec_ok rs" and "length (dir_slots rs) \<le> 16"
  shows "fat_ok 2 (dir_demo rs)" and "on_chain (dir_demo rs) Root [3, 5]" and "dir_has (dir_demo rs) [3, 5] rs"
    and "length (file_bytes (dir_demo rs) [3, 5]) = 1024"
proof -
  have lb: "length (concat (dir_slots rs)) = 32 * length (dir_slots rs)" by (rule slots_bytes [OF assms(1)])
  have "running 2 (dir_demo0 rs)" "\<forall>i<NBUF. \<not> valid (bufs (dir_demo0 rs) i)" "\<forall>i<NBUF. bdev (bufs (dir_demo0 rs) i) = bdev (bufs fat_demo0 i)"
    using bio_demo_ready by (simp_all add: dir_demo0_def fat_demo0_def bio_st.defs running_def)
  then have "quiet 2 0 (dir_demo rs)" using binit_quiet [of 2 "dir_demo0 rs" 0] by (simp add: dir_demo_def)
  moreover have "geom fat_demo_info" by (simp add: geom_def fat_demo_info_def FAT32_EOC_def)
  ultimately show ok: "fat_ok 2 (dir_demo rs)"
    using assms(2) lb by (simp add: fat_ok_def dir_demo_simps) (simp add: dir_demo0_def BSIZE_def)
  have fe: "fat_entry (dir_demo rs) c = fat_entry fat_demo c" if "c = 3 \<or> c = 5" for c
    using that by (auto simp: fat_entry_def dir_demo_simps fat_demo_simps fat_sec_of_clus_def fat_demo_info_def dir_demo0_def)
  have "fchain (dir_demo rs) 3 [3, 5]"
    using fat_demo_chain(1) by (simp add: fe dir_demo_simps fat_demo_simps)
  then show "on_chain (dir_demo rs) Root [3, 5]" by (simp add: on_chain_def dir_demo_simps) (simp add: dir_demo0_def dirent0_def)
  have "cluster_data (dir_demo rs) 3 = concat (dir_slots rs) @ replicate (512 - 32 * length (dir_slots rs)) 0"
    "cluster_data (dir_demo rs) 5 = replicate 512 0"
    by (simp_all add: cluster_data_def dir_demo_simps fat_demo_info_def clus_sec_def first_sec_of_clus_def)
      (simp_all add: dir_demo0_def)
  then have fb: "file_bytes (dir_demo rs) [3, 5] = concat (dir_slots rs) @ replicate (512 - 32 * length (dir_slots rs) + 512) 0"
    by (simp add: file_bytes_def replicate_add)
  then show "dir_has (dir_demo rs) [3, 5] rs"
    using assms by (auto simp: dir_has_def DIR_ENTRIES_def)
  show "length (file_bytes (dir_demo rs) [3, 5]) = 1024" unfolding fb using lb assms(2) by simp
qed

lemma dir_demo_miss: "cache_miss Root nm 0 (dir_demo rs)"
proof -
  have v: "evalid (dirents (dir_demo rs) (Ent i)) = 0" "eref (dirents (dir_demo rs) (Ent i)) = 0" for i
    by (simp_all add: dir_demo_simps) (simp_all add: dir_demo0_def dirent0_def)
  have n: "ent_next (dir_demo rs) (Ent i) = (if i = 0 then Root else Ent (i - 1))" "ent_next (dir_demo rs) Root = Ent (ENTRY_CACHE_NUM - 1)"
    "ent_prev (dir_demo rs) Root = Ent 0" for i
    by (simp_all add: dir_demo_simps) (simp_all add: dir_demo0_def)
  have "eget_cached fuel (Ent i) Root nm (dir_demo rs) = Inr None" if "i < fuel" for i fuel
    using that
  proof (induction i arbitrary: fuel)
    case 0
    then show ?case by (cases fuel) (simp_all add: v n Let_def)
  next
    case (Suc i)
    then show ?case by (cases fuel) (simp_all add: v n Let_def)
  qed
  then show ?thesis using v by (simp add: cache_miss_def n ENTRY_CACHE_NUM_def numeral_eq_Suc)
qed

lemma dot_recs_ok: "list_all rec_ok dot_recs" "dir_slots dot_recs = map (\<lambda>r. hd (rec_slots r)) dot_recs" "dir_end 0 dot_recs = 64"
  by (simp_all add: dot_recs_def short_entry_def dot_name_def str_ncpy_def cstr_def CHAR_SHORT_NAME_def le16_def le32_def
      ATTR_DIRECTORY_def ATTR_LONG_NAME_def EMPTY_ENTRY_def short_to_name_def nth_append)

section \<open>Properties\<close>

lemma matchesD: "matches (Named nm a c z) d \<Longrightarrow> cstr (filename d) = nm \<and> attribute d = a \<and> first_clus d = c \<and> file_size d = z"
  by (cases d) (simp add: matches_def)

lemma dir_find_absent: "\<forall>r\<in>set rs. is_hole r \<or> rec_name r \<noteq> name \<Longrightarrow> dir_find name off rs = None"
  by (induction rs arbitrary: off) auto

lemma dir_find_removed:
  assumes "rec_ok r" and "\<not> is_hole r"
  shows "other \<noteq> rec_name r \<Longrightarrow> dir_find other off (as @ holes_of r @ bs) = dir_find other off (as @ r # bs)"
  using holes_of_facts(2,3) [OF assms(1)] by (simp add: dir_find_append dir_find_holes cong: option.case_cong)

text \<open>
  C4: \<open>dirlookup\<close> refines the search of an abstract listing. In a directory whose clusters hold the slots of a list of
  records, with zeros behind them, and for a name the cache of entries does not have, it finds the first record of that
  name, hands out the entry next in turn filled with the attribute, cluster, size and position of the record, and counts one reference
  to the directory. When there is none it says so, offers the place behind the last record, and frees the entry again. It writes no sector.
\<close>

theorem dirlookup_finds:
  assumes "fat_ok p s" and "on_chain s dp xs" and "dir_has s xs rs"
    and "attribute (dirents s dp) AND ATTR_DIRECTORY \<noteq> 0" and "evalid (dirents s dp) = 1"
    and "plain_name name" and "cache_miss dp name k s" and "dp \<noteq> Ent k"
  shows "case dir_find name 0 rs of
      Some (off, r) \<Rightarrow> \<exists>t. dirlookup dp name wants s = Inr (Some (Ent k), None, t) \<and> looked_up p dp k xs off r s t
    | None \<Rightarrow> \<exists>t. dirlookup dp name wants s = Inr (None, if wants then Some (of_nat (dir_end 0 rs)) else None, t)
        \<and> gave_up p dp k xs s t"
  by (rule dirlookup_ok [OF assms])

lemma demo_names: "plain_name [0x61]" "formatname [0x61] = Some [0x61]" "cstr [0x61] = [0x61]"
  by (simp_all add: plain_name_def formatname_def trim_end_def illegal_char_def illegal_chars_def cstr_def)

lemma demo_dirs:
  assumes "r = Named [0x61] a c z" and "a \<noteq> ATTR_LONG_NAME"
  shows "rec_ok r" and "length (rec_slots r) = 2" and "list_all rec_ok (dot_recs @ [r])" and "length (dir_slots (dot_recs @ [r])) = 4"
    and "dir_find [0x61] 0 dot_recs = None" and "dir_find [0x61] 0 (dot_recs @ [r]) = Some (64, r)" and "dir_add r dot_recs = dot_recs @ [r]"
proof -
  show ro: "rec_ok r" using assms by (simp add: EMPTY_ENTRY_def)
  show l: "length (rec_slots r) = 2" by (simp add: assms(1) long_count_def CHAR_LONG_NAME_def)
  show "list_all rec_ok (dot_recs @ [r])" using dot_recs_ok(1) ro by simp
  show "length (dir_slots (dot_recs @ [r])) = 4" using l by (simp add: dot_recs_def)
  have n: "rec_name r = [0x61]" "\<not> is_hole r" by (simp_all add: assms(1))
  have "short_to_name (short_entry (dot_name 0) ATTR_DIRECTORY 3 0) = [0x2e]"
    "short_to_name (short_entry (dot_name 32) ATTR_DIRECTORY 2 0) = [0x2e, 0x2e]"
    by (simp_all add: short_to_name_def short_entry_def dot_name_def str_ncpy_def cstr_def CHAR_SHORT_NAME_def nth_append)
  then show "dir_find [0x61] 0 dot_recs = None" "dir_find [0x61] 0 (dot_recs @ [r]) = Some (64, r)"
    using n by (simp_all add: dot_recs_def)
  show "dir_add r dot_recs = dot_recs @ [r]" by (simp add: dir_add_def dot_recs_def)
qed

lemma demo_root: "attribute (dirents (dir_demo rs) Root) AND ATTR_DIRECTORY \<noteq> 0" "evalid (dirents (dir_demo rs) Root) = 1"
  by (simp_all add: dir_demo_simps) (simp_all add: dir_demo0_def ATTR_DIRECTORY_def)

lemma dirlookup_finds_witness:
  "\<exists>t. dirlookup Root [0x61] False (dir_demo (dot_recs @ [Named [0x61] 0x20 5 7])) = Inr (Some (Ent 0), None, t)
    \<and> first_clus (dirents t (Ent 0)) = 5 \<and> file_size (dirents t (Ent 0)) = 7"
proof -
  let ?r = "Named [0x61] 0x20 5 7"
  note d = demo_dirs [of ?r, OF refl]
  have a: "(0x20 :: u8) \<noteq> ATTR_LONG_NAME" by (simp add: ATTR_LONG_NAME_def)
  note k = dir_demo_ok [of "dot_recs @ [?r]"]
  show ?thesis
    using dirlookup_finds [of 2 "dir_demo (dot_recs @ [?r])" Root "[3, 5]" "dot_recs @ [?r]" "[0x61]" 0 False]
      k d a demo_root demo_names(1) dir_demo_miss by (auto simp: looked_up_def Let_def dest: matchesD)
qed

text \<open>
  C3: A file that was created is found again. \<open>ealloc\<close> of a legal new name in a directory with room in its clusters hands out an entry for the empty
  file and adds its record to the listing, without touching the table or the clusters of other files; every other name is
  found as before; and whenever the name is looked up later in these bytes, from whatever state of the cache that does
  not have it, \<open>dirlookup\<close> finds that record.
\<close>

theorem create_then_lookup:
  fixes s :: "'a fat_st_scheme"
  assumes "fat_ok p s" and "on_chain s dp xs" and "dir_has s xs rs"
    and "attribute (dirents s dp) AND ATTR_DIRECTORY \<noteq> 0" and "evalid (dirents s dp) = 1"
    and "formatname (cstr name) = Some nm" and "nm \<noteq> []" and "length nm \<le> 255" and "hd nm \<noteq> EMPTY_ENTRY"
    and "cache_miss dp nm k s" and "dp \<noteq> Ent k" and "\<not> sl_locked (slocks s (EntSL (Ent k)))"
    and "dir_find nm 0 rs = None" and "attr \<noteq> ATTR_DIRECTORY" and "r = Named nm (attr OR ATTR_ARCHIVE) 0 0"
    and "32 < dir_end 0 rs" and "dir_end 0 rs + 32 * length (rec_slots r) \<le> length (file_bytes s xs)"
    and "length (dir_slots (dir_add r rs)) < DIR_ENTRIES"
  shows "\<exists>t. ealloc dp name attr s = Inr (Some (Ent k), t) \<and> created p dp k xs r rs s t
    \<and> (\<forall>other. other \<noteq> nm \<longrightarrow> dir_find other 0 (dir_add r rs) = dir_find other 0 rs)
    \<and> (\<forall>(u :: 'a fat_st_scheme) j wants. fat_ok p u \<longrightarrow> on_chain u dp xs \<longrightarrow> file_bytes u xs = file_bytes t xs
         \<longrightarrow> attribute (dirents u dp) AND ATTR_DIRECTORY \<noteq> 0 \<longrightarrow> evalid (dirents u dp) = 1 \<longrightarrow> cache_miss dp nm j u \<longrightarrow> dp \<noteq> Ent j
         \<longrightarrow> (\<exists>v. dirlookup dp nm wants u = Inr (Some (Ent j), None, v) \<and> looked_up p dp j xs (dir_end 0 rs) r u v))"
proof -
  obtain t where t: "ealloc dp name attr s = Inr (Some (Ent k), t)" "created p dp k xs r rs s t"
    using ealloc_ok [OF assms] by blast
  have r: "rec_name r = nm" "\<not> is_hole r" by (simp_all add: assms(15))
  have dh: "dir_has t xs (dir_add r rs)" using t(2) by (simp add: created_def)
  have pn: "plain_name nm"
    using formatname_ok(1,2) [OF assms(6)] assms(7,8) by (auto simp: plain_name_def illegal_char_def)
  note f = dir_find_add(1) [OF r(2), unfolded r(1), OF assms(13)]
  have lk: "\<exists>v. dirlookup dp nm wants u = Inr (Some (Ent j), None, v) \<and> looked_up p dp j xs (dir_end 0 rs) r u v"
    if "fat_ok p u" "on_chain u dp xs" "file_bytes u xs = file_bytes t xs"
      "attribute (dirents u dp) AND ATTR_DIRECTORY \<noteq> 0" "evalid (dirents u dp) = 1" "cache_miss dp nm j u" "dp \<noteq> Ent j" for u :: "'a fat_st_scheme" and j wants
  proof -
    have "dir_has u xs (dir_add r rs)" using dh that(3) by (simp add: dir_has_def)
    from dirlookup_ok [OF that(1,2) this that(4,5) pn that(6,7), of wants] show ?thesis by (simp add: f)
  qed
  have later: "\<forall>(u :: 'a fat_st_scheme) j wants. fat_ok p u \<longrightarrow> on_chain u dp xs \<longrightarrow> file_bytes u xs = file_bytes t xs
         \<longrightarrow> attribute (dirents u dp) AND ATTR_DIRECTORY \<noteq> 0 \<longrightarrow> evalid (dirents u dp) = 1 \<longrightarrow> cache_miss dp nm j u \<longrightarrow> dp \<noteq> Ent j
         \<longrightarrow> (\<exists>v. dirlookup dp nm wants u = Inr (Some (Ent j), None, v) \<and> looked_up p dp j xs (dir_end 0 rs) r u v)"
    by (intro allI impI, rule lk)
  have others: "\<forall>other. other \<noteq> nm \<longrightarrow> dir_find other 0 (dir_add r rs) = dir_find other 0 rs"
    using dir_find_add(2) [OF r(2)] unfolding r(1) by (intro allI impI)
  show ?thesis by (intro exI [of _ t] conjI t others later)
qed

lemma create_then_lookup_witness:
  "\<exists>t. ealloc Root [0x61] 0 (dir_demo dot_recs) = Inr (Some (Ent 0), t) \<and> dir_has t [3, 5] (dot_recs @ [Named [0x61] ATTR_ARCHIVE 0 0])
    \<and> eoff (dirents t (Ent 0)) = 64"
proof -
  let ?r = "Named [0x61] ATTR_ARCHIVE 0 0"
  note d = demo_dirs [of ?r, OF refl]
  have a: "ATTR_ARCHIVE \<noteq> ATTR_LONG_NAME" "(0 :: u8) \<noteq> ATTR_DIRECTORY" by (simp_all add: ATTR_LONG_NAME_def ATTR_ARCHIVE_def ATTR_DIRECTORY_def)
  have k: "list_all rec_ok dot_recs" "length (dir_slots dot_recs) \<le> 16" using dot_recs_ok(1,2) by (simp_all add: dot_recs_def)
  note k = dir_demo_ok [OF this]
  show ?thesis
    using create_then_lookup [of 2 "dir_demo dot_recs" Root "[3, 5]" dot_recs "[0x61]" "[0x61]" 0 0 ?r]
      k d a demo_root demo_names dir_demo_miss [of "[0x61]" dot_recs] dot_recs_ok(3)
    by (auto simp: created_def Let_def dir_demo_simps(6) EMPTY_ENTRY_def DIR_ENTRIES_def)
qed

text \<open>
  C5: A file that was removed is not found any more. \<open>eremove\<close> makes holes of exactly the slots of the file's record: its name is gone from the
  listing, every other name is found as before, and the table and the clusters of other files are untouched (the file's own clusters are
  freed later, when its last reference is given back).
\<close>

theorem remove_forgets:
  assumes "fat_ok p s" and "on_chain s dp xs" and "dir_has s xs (as @ r # bs)" and "r = Named nm a c z" and "dp \<noteq> e"
    and "evalid (dirents s e) = 1" and "eparent (dirents s e) = Some dp" and "eoff (dirents s e) = of_nat (32 * length (dir_slots as))"
    and "\<forall>q\<in>set (as @ bs). is_hole q \<or> rec_name q \<noteq> nm"
  shows "\<exists>t. eremove e s = Inr t \<and> fat_ok p t \<and> on_chain t dp xs \<and> evalid (dirents t e) = - 1
    \<and> dir_has t xs (as @ holes_of r @ bs) \<and> dir_find nm 0 (as @ holes_of r @ bs) = None
    \<and> (\<forall>other. other \<noteq> nm \<longrightarrow> dir_find other 0 (as @ holes_of r @ bs) = dir_find other 0 (as @ r # bs))
    \<and> (\<forall>d. entry (fat s) d \<longrightarrow> fat_entry t d = fat_entry s d)
    \<and> (\<forall>d. data_clus (fat s) d \<longrightarrow> d \<notin> set xs \<longrightarrow> cluster_data t d = cluster_data s d)"
proof -
  obtain t where t: "eremove e s = Inr (upd_ent e (\<lambda>d. d\<lparr>evalid := - 1\<rparr>) t)" "wrote p dp xs s t" "dir_has t xs (as @ holes_of r @ bs)"
    using eremove_ok [OF assms(1-8)] by blast
  have rk: "rec_ok r" using assms(3) by (simp add: dir_has_def)
  have n: "rec_name r = nm" "\<not> is_hole r" by (simp_all add: assms(4))
  have f: "dir_find nm off as = None" "dir_find nm off bs = None" for off using dir_find_absent assms(9) by simp_all
  have "dir_find nm 0 (as @ holes_of r @ bs) = None"
    using f holes_of_facts(2) [OF rk] by (simp add: dir_find_append dir_find_holes)
  moreover have "dir_has (upd_ent e (\<lambda>d. d\<lparr>evalid := - 1\<rparr>) t) xs (as @ holes_of r @ bs)" using t(3) by (simp add: dir_has_def)
  ultimately show ?thesis
    using t(1,2) wroteD [OF t(2)] dir_find_removed [OF rk n(2)] n(1) assms(5) by (auto simp: wrote_def on_chain_def)
qed

lemma remove_forgets_witness:
  "\<exists>t. eremove (Ent 0) (upd_ent (Ent 0) (\<lambda>d. d\<lparr>evalid := 1, eparent := Some Root, eoff := 64\<rparr>)
      (dir_demo (dot_recs @ [Named [0x61] 0x20 5 7]))) = Inr t
    \<and> dir_has t [3, 5] (dot_recs @ holes_of (Named [0x61] 0x20 5 7)) \<and> evalid (dirents t (Ent 0)) = - 1"
proof -
  let ?r = "Named [0x61] 0x20 5 7" and ?f = "\<lambda>d. d\<lparr>evalid := 1, eparent := Some Root, eoff := 64\<rparr>"
  note d = demo_dirs [of ?r, OF refl]
  have a: "(0x20 :: u8) \<noteq> ATTR_LONG_NAME" by (simp add: ATTR_LONG_NAME_def)
  note k = dir_demo_ok [of "dot_recs @ [?r]"]
  have "\<forall>q\<in>set dot_recs. is_hole q \<or> rec_name q \<noteq> [0x61]"
    by (simp add: dot_recs_def short_to_name_def short_entry_def dot_name_def str_ncpy_def cstr_def CHAR_SHORT_NAME_def nth_append)
  moreover have "length (dir_slots dot_recs) = 2" by (simp add: dot_recs_def)
  moreover have "dir_has (upd_ent (Ent 0) ?f (dir_demo (dot_recs @ [?r]))) [3, 5] (dot_recs @ [?r])" using k d a by (simp add: dir_has_def)
  moreover have "on_chain (upd_ent (Ent 0) ?f (dir_demo (dot_recs @ [?r]))) Root [3, 5]" using k d a by (simp add: on_chain_def)
  ultimately show ?thesis
    using remove_forgets [where p = 2 and s = "upd_ent (Ent 0) ?f (dir_demo (dot_recs @ [?r]))" and dp = Root and xs = "[3, 5]"
        and as = dot_recs and r = ?r and bs = "[]" and nm = "[0x61]" and e = "Ent 0"]
      k d a by auto
qed

text \<open>
  The first slot of a directory that has no dot entries yet, as the root: \<open>emake\<close> writes a dot entry instead of the file,
  and the name is not found afterwards.
\<close>

theorem emake_first_lost:
  fixes ep :: eptr
  assumes "fat_ok p s" and "on_chain s dp xs" and "dir_has s xs []" and "attribute (dirents s dp) AND ATTR_DIRECTORY \<noteq> 0"
    and "xs \<noteq> []" and "plain_name name"
  defines "r \<equiv> Plain (short_entry (dot_name 0) ATTR_DIRECTORY (first_clus (dirents s ep)) 0)"
  shows "\<exists>t. emake dp ep 0 s = Inr t \<and> dir_has t xs [r] \<and> dir_find name 0 [r] = None"
proof -
  have b: "512 \<le> unat (byts_per_clus (fat s))"
    using geom_bpc(1,2) [OF fat_okD(2) [OF assms(1)]] by (simp add: word_less_nat_alt)
  obtain x ys where xs: "xs = x # ys" using assms(5) by (cases xs) auto
  have l: "32 \<le> length (file_bytes s xs)" using length_file_bytes [OF assms(1), of xs] b by (simp add: xs)
  obtain t where t: "emake dp ep 0 s = Inr t" "wrote p dp xs s t"
    "file_bytes t xs = splice (unat (0 :: u32)) (short_entry (dot_name 0) ATTR_DIRECTORY (first_clus (dirents s ep)) 0) (file_bytes s xs)"
    using emake_dot [OF assms(1,2,4), of 0 ep] l by auto
  have sn: "short_to_name (short_entry (dot_name 0) ATTR_DIRECTORY c 0) = [0x2e]" for c
    by (simp add: short_to_name_def short_entry_def dot_name_def str_ncpy_def cstr_def CHAR_SHORT_NAME_def nth_append)
  have ro: "rec_ok r" unfolding r_def
    by (simp add: sn) (simp add: short_entry_def dot_name_def str_ncpy_def cstr_def CHAR_SHORT_NAME_def le16_def le32_def
      ATTR_DIRECTORY_def ATTR_LONG_NAME_def EMPTY_ENTRY_def nth_append)
  have "dir_has t xs (dir_add r [])"
    by (rule dir_has_add [OF assms(3,1) ro]) (use t(3) l in \<open>simp_all add: r_def dir_add_def DIR_ENTRIES_def\<close>)
  moreover have "dir_add r [] = [r]" by (simp add: dir_add_def)
  moreover have "dir_find name 0 [r] = None" using assms(6) by (auto simp: r_def sn plain_name_def)
  ultimately show ?thesis using t(1) by auto
qed

text \<open>The first letter of a short entry without long entries is taken for their number: \<open>F\<close> for six.\<close>

lemma entry_count_short: "entry_count (0x46 # r) = 6"
  by (simp add: entry_count_def LAST_LONG_ENTRY_def)

text \<open>A name that starts with 0xe5: its short entry looks like a freed slot.\<close>

lemma short_name_e5: "short_entry (generate_shortname (EMPTY_ENTRY # name)) attr clus sz ! 0 = EMPTY_ENTRY"
proof -
  obtain r where "generate_shortname (EMPTY_ENTRY # name) = short_char EMPTY_ENTRY # r"
    using short_first [of "EMPTY_ENTRY # name"] by (auto simp: EMPTY_ENTRY_def)
  moreover have "short_char EMPTY_ENTRY = EMPTY_ENTRY" by (simp add: short_char_def EMPTY_ENTRY_def illegal_short_def)
  ultimately show ?thesis
    by (simp add: short_entry_def str_ncpy_def cstr_def Let_def CHAR_SHORT_NAME_def EMPTY_ENTRY_def)
qed

end
