(* ===== verification/Console.thy ===== *)
theory Console imports FatDir begin

text \<open>
  kernel/printf.c and kernel/console.c: formatted output, and the line discipline of the console between the input
  interrupt and \<open>consoleread\<close>. \<open>console_out\<close> is what went out through \<open>sbi_console_putchar\<close>, in order.
\<close>

section \<open>State\<close>

text \<open>
  The indices count for ever; the place of index \<open>i\<close> in the buffer is \<open>i mod INPUT_BUF\<close>. Characters between \<open>cr\<close>
  and \<open>cw\<close> can be read, those between \<open>cw\<close> and \<open>ce\<close> are the line that is being edited.
\<close>

record consbuf =
  cbuf :: "nat \<Rightarrow> u8"
  cr :: u32
  cw :: u32
  ce :: u32

record cons_st = fat_st +
  cons :: consbuf
  console_out :: "u8 list"
  pr_locking :: bool

definition INPUT_BUF :: u32 where "INPUT_BUF = 128"
definition BACKSPACE :: u32 where "BACKSPACE = 0x100"

section \<open>Output\<close>

definition sbi_console_putchar :: "u32 \<Rightarrow> 'a cons_st_scheme \<Rightarrow> 'a cons_st_scheme" where
  "sbi_console_putchar c s = s\<lparr>console_out := console_out s @ [ucast c]\<rparr>"

definition consputc :: "u32 \<Rightarrow> 'a cons_st_scheme \<Rightarrow> 'a cons_st_scheme" where
  "consputc c s =
    (if c = BACKSPACE
     then sbi_console_putchar 8 (sbi_console_putchar 0x20 (sbi_console_putchar 8 s))
     else sbi_console_putchar c s)"

definition printstring :: "u8 list \<Rightarrow> 'a cons_st_scheme \<Rightarrow> 'a cons_st_scheme" where
  "printstring bs s = fold (\<lambda>b. consputc (ucast b)) (cstr bs) s"

definition digits :: "u8 list" where
  "digits = map (\<lambda>c. of_nat (of_char c)) ''0123456789abcdef''"

text \<open>The loop of \<open>printint\<close>: the digits of \<open>x\<close> in the order of \<open>buf\<close>, the least significant first.\<close>

function printint_loop :: "u32 \<Rightarrow> u32 \<Rightarrow> u8 list" where
  "printint_loop x base =
    digits ! unat (x mod base) # (if x div base \<noteq> 0 \<and> base > 1 then printint_loop (x div base) base else [])"
  by pat_completeness auto
termination
proof (relation "measure (\<lambda>(x, _). unat x)", goal_cases)
  case (2 x base)
  then have "unat x \<noteq> 0" "1 < unat base"
    by (auto simp: word_less_nat_alt unat_eq_0 intro: ccontr)
  then have "unat x div unat base < unat x" by simp
  then show ?case by (simp add: unat_div)
qed simp

declare printint_loop.simps [simp del]

definition printint_buf :: "u32 \<Rightarrow> u32 \<Rightarrow> bool \<Rightarrow> u8 list" where
  "printint_buf xx base sign =
    (let neg = sign \<and> sint xx < 0;
         x = (if neg then - xx else xx)
     in printint_loop x base @ (if neg then [0x2d] else []))"

definition printint :: "u32 \<Rightarrow> u32 \<Rightarrow> bool \<Rightarrow> 'a cons_st_scheme \<Rightarrow> 'a cons_st_scheme" where
  "printint xx base sign s = fold (\<lambda>b. consputc (ucast b)) (rev (printint_buf xx base sign)) s"

primrec printptr_loop :: "nat \<Rightarrow> u64 \<Rightarrow> 'a cons_st_scheme \<Rightarrow> 'a cons_st_scheme" where
  "printptr_loop 0 x s = s"
| "printptr_loop (Suc n) x s =
    printptr_loop n (push_bit 4 x) (consputc (ucast (digits ! unat (drop_bit 60 x))) s)"

definition printptr :: "u64 \<Rightarrow> 'a cons_st_scheme \<Rightarrow> 'a cons_st_scheme" where
  "printptr x s = printptr_loop 16 x (consputc 0x78 (consputc 0x30 s))"

text \<open>The arguments of \<open>printf\<close>; \<open>AStr None\<close> is the null pointer. Reading an argument that is not there is not modelled.\<close>

datatype printarg = AInt u32 | APtr u64 | AStr "u8 list option"

definition null_text :: "u8 list" where
  "null_text = map (\<lambda>c. of_nat (of_char c)) ''(null)''"

fun printf_loop :: "u8 list \<Rightarrow> printarg list \<Rightarrow> 'a cons_st_scheme \<Rightarrow> 'a cons_st_scheme kres" where
  "printf_loop [] ap s = Inr s"
| "printf_loop (c # fmt) ap s =
    (if c = 0 then Inr s
     else if c \<noteq> 0x25 then printf_loop fmt ap (consputc (ucast c) s)
     else case fmt of
       [] \<Rightarrow> Inr s
     | c # fmt \<Rightarrow>
         if c = 0 then Inr s
         else if c = 0x64 then
           (case ap of AInt x # ap \<Rightarrow> printf_loop fmt ap (printint x 10 True s) | _ \<Rightarrow> Inl Wild)
         else if c = 0x78 then
           (case ap of AInt x # ap \<Rightarrow> printf_loop fmt ap (printint x 16 True s) | _ \<Rightarrow> Inl Wild)
         else if c = 0x70 then
           (case ap of APtr x # ap \<Rightarrow> printf_loop fmt ap (printptr x s) | _ \<Rightarrow> Inl Wild)
         else if c = 0x73 then
           (case ap of
              AStr str # ap \<Rightarrow>
                printf_loop fmt ap (printstring (case str of None \<Rightarrow> null_text | Some bs \<Rightarrow> bs) s)
            | _ \<Rightarrow> Inl Wild)
         else if c = 0x25 then printf_loop fmt ap (consputc 0x25 s)
         else printf_loop fmt ap (consputc (ucast c) (consputc 0x25 s)))"

definition printf :: "u8 list \<Rightarrow> printarg list \<Rightarrow> 'a cons_st_scheme \<Rightarrow> 'a cons_st_scheme kres" where
  "printf fmt ap s =
    (let locking = pr_locking s in
     kbind (if locking then lock PrLock s else Inr s) (\<lambda>s.
     kbind (printf_loop fmt ap s) (\<lambda>s.
       if locking then unlock PrLock s else Inr s)))"

definition printfinit :: "'a cons_st_scheme \<Rightarrow> 'a cons_st_scheme" where
  "printfinit s = s\<lparr>core := initlock PrLock (core s), pr_locking := True\<rparr>"

definition ascii :: "string \<Rightarrow> u8 list" where
  "ascii cs = map (\<lambda>c. of_nat (of_char c)) cs"

definition state_name :: "procstate \<Rightarrow> u8 list" where
  "state_name st = ascii (case st of UNUSED \<Rightarrow> ''unused'' | SLEEPING \<Rightarrow> ''sleep '' | RUNNABLE \<Rightarrow> ''runble''
    | RUNNING \<Rightarrow> ''run   '' | ZOMBIE \<Rightarrow> ''zombie'')"

fun procdump_loop :: "nat list \<Rightarrow> 'a cons_st_scheme \<Rightarrow> 'a cons_st_scheme kres" where
  "procdump_loop [] s = Inr s"
| "procdump_loop (i # is) s =
    (let p = procs s i in
     if pstate p = UNUSED then procdump_loop is s
     else
       kbind (printf (ascii ''%d'' @ [9] @ ascii ''%s'' @ [9] @ ascii ''%s'' @ [9] @ ascii ''%d'')
                [AInt (of_int (pid p)), AStr (Some (state_name (pstate p))), AStr (Some (pname p)), AInt (ucast (psz p))] s) (\<lambda>s.
       kbind (printf [10] [] s) (procdump_loop is)))"

definition procdump :: "'a cons_st_scheme \<Rightarrow> 'a cons_st_scheme kres" where
  "procdump s =
    kbind (printf ([10] @ ascii ''PID'' @ [9] @ ascii ''STATE'' @ [9] @ ascii ''NAME'' @ [9] @ ascii ''MEM'' @ [10]) [] s)
      (procdump_loop [0..<NPROC])"

section \<open>Reading and writing the console\<close>

primrec consolewrite_loop :: "nat \<Rightarrow> bool \<Rightarrow> u64 \<Rightarrow> nat \<Rightarrow> 'a cons_st_scheme \<Rightarrow> (nat \<times> 'a cons_st_scheme) kres" where
  "consolewrite_loop 0 user_src src i s = Inr (i, s)"
| "consolewrite_loop (Suc k) user_src src i s =
    kbind (either_copyin user_src (src + of_nat i) 1 s) (\<lambda>(e, bs, s).
      if e = - 1 then Inr (i, s)
      else consolewrite_loop k user_src src (Suc i) (sbi_console_putchar (ucast (hd bs)) s))"

definition consolewrite :: "bool \<Rightarrow> u64 \<Rightarrow> int \<Rightarrow> 'a cons_st_scheme \<Rightarrow> (int \<times> 'a cons_st_scheme) kres" where
  "consolewrite user_src src n s =
    kbind (lock ConsLock s) (\<lambda>s.
    kbind (consolewrite_loop (nat n) user_src src 0 s) (\<lambda>(i, s).
    kbind (unlock ConsLock s) (\<lambda>s. Inr (int i, s))))"

definition upd_cons :: "(consbuf \<Rightarrow> consbuf) \<Rightarrow> 'a cons_st_scheme \<Rightarrow> 'a cons_st_scheme" where
  "upd_cons f s = s\<lparr>cons := f (cons s)\<rparr>"

text \<open>
  The loop of \<open>consoleread\<close> with \<open>n\<close> characters still to read. A process that waits holds \<open>n\<close>, the destination and the
  interrupt flag that \<open>sched\<close> keeps; \<open>consoleread_wake\<close> is the code after the switch.
\<close>

primrec consoleread_loop :: "nat \<Rightarrow> bool \<Rightarrow> int \<Rightarrow> u64 \<Rightarrow> 'a cons_st_scheme
    \<Rightarrow> ((nat \<times> u64 \<times> bool, int) outcome \<times> 'a cons_st_scheme) kres" where
  "consoleread_loop 0 user_dst target dst s =
    kbind (unlock ConsLock s) (\<lambda>s. Inr (Finished target, s))"
| "consoleread_loop (Suc n) user_dst target dst s =
    (if cr (cons s) = cw (cons s) then
       kbind (curproc s) (\<lambda>(p, s).
         if killed (procs s p) then kbind (unlock ConsLock s) (\<lambda>s. Inr (Finished (- 1), s))
         else kbind (sleep_enter ChCons ConsLock s) (\<lambda>(ie, s). Inr (Waiting (Suc n, dst, ie), s)))
     else
       let c = cbuf (cons s) (unat (cr (cons s) mod INPUT_BUF));
           s = upd_cons (\<lambda>b. b\<lparr>cr := cr b + 1\<rparr>) s;
           leave = (\<lambda>n s. kbind (unlock ConsLock s) (\<lambda>s. Inr (Finished (target - int n), s)))
       in if c = 4 then
            leave (Suc n) (if int (Suc n) < target then upd_cons (\<lambda>b. b\<lparr>cr := cr b - 1\<rparr>) s else s)
          else
            kbind (either_copyout user_dst dst (\<lambda>_. c) 1 s) (\<lambda>(e, s).
              if e = - 1 then leave (Suc n) s
              else if c = 10 then leave n s
              else consoleread_loop n user_dst target (dst + 1) s))"

definition consoleread_run :: "bool \<Rightarrow> u64 \<Rightarrow> int \<Rightarrow> 'a cons_st_scheme
    \<Rightarrow> ((nat \<times> u64 \<times> bool, int) outcome \<times> 'a cons_st_scheme) kres" where
  "consoleread_run user_dst dst n s =
    kbind (lock ConsLock s) (\<lambda>s.
      if n > 0 then consoleread_loop (nat n) user_dst n dst s
      else kbind (unlock ConsLock s) (\<lambda>s. Inr (Finished 0, s)))"

definition consoleread_wake :: "nat \<Rightarrow> bool \<Rightarrow> bool \<Rightarrow> int \<Rightarrow> nat \<Rightarrow> u64 \<Rightarrow> 'a cons_st_scheme
    \<Rightarrow> ((nat \<times> u64 \<times> bool, int) outcome \<times> 'a cons_st_scheme) kres" where
  "consoleread_wake p ie user_dst target n dst s =
    kbind (sleep_leave p ie ConsLock s) (consoleread_loop n user_dst target dst)"

text \<open>A caller that is not resumed sees the sleep as an outcome.\<close>

definition no_wait :: "chan \<Rightarrow> (('w, 'b) outcome \<times> 's) kres \<Rightarrow> ('b \<times> 's) kres" where
  "no_wait ch r = kbind r (\<lambda>(x, s). case x of Finished y \<Rightarrow> Inr (y, s) | Waiting _ \<Rightarrow> Inl (Sleeps ch))"

definition consoleread :: "bool \<Rightarrow> u64 \<Rightarrow> int \<Rightarrow> 'a cons_st_scheme \<Rightarrow> (int \<times> 'a cons_st_scheme) kres" where
  "consoleread user_dst dst n s = no_wait ChCons (consoleread_run user_dst dst n s)"

section \<open>Input\<close>

text \<open>The loop of control-U.\<close>

function kill_line :: "'a cons_st_scheme \<Rightarrow> 'a cons_st_scheme" where
  "kill_line s =
    (if ce (cons s) \<noteq> cw (cons s) \<and> cbuf (cons s) (unat ((ce (cons s) - 1) mod INPUT_BUF)) \<noteq> 10
     then kill_line (consputc BACKSPACE (upd_cons (\<lambda>b. b\<lparr>ce := ce b - 1\<rparr>) s))
     else s)"
  by pat_completeness auto

lemma cons_consputc [simp]: "cons (consputc c s) = cons s"
  by (simp add: consputc_def sbi_console_putchar_def)

lemma cons_upd_cons [simp]: "cons (upd_cons f s) = f (cons s)"
  by (simp add: upd_cons_def)

termination kill_line
proof (relation "measure (\<lambda>s. unat (ce (cons s) - cw (cons s)))", goal_cases)
  case (2 s)
  then have "ce (cons s) - cw (cons s) \<noteq> 0" by simp
  then have "unat (ce (cons s) - cw (cons s) - 1) < unat (ce (cons s) - cw (cons s))"
    by (metis unat_gt_0 unat_minus_one diff_less zero_less_one)
  then show ?case by (simp add: algebra_simps)
qed simp

declare kill_line.simps [simp del]

text \<open>The argument says which of the two boards the kernel is built for.\<close>

definition consoleintr :: "bool \<Rightarrow> u32 \<Rightarrow> 'a cons_st_scheme \<Rightarrow> 'a cons_st_scheme kres" where
  "consoleintr qemu c s =
    kbind (lock ConsLock s) (\<lambda>s.
    kbind
      (if c = 0x10 then procdump s
       else if c = 0x15 then Inr (kill_line s)
       else if c = 8 \<or> c = 0x7f then
         if ce (cons s) \<noteq> cw (cons s)
         then Inr (consputc BACKSPACE (upd_cons (\<lambda>b. b\<lparr>ce := ce b - 1\<rparr>) s)) else Inr s
       else if c \<noteq> 0 \<and> ce (cons s) - cr (cons s) < INPUT_BUF then
         if \<not> qemu \<and> c = 13 then Inr s
         else
           let c = (if c = 13 then 10 else c);
               s = consputc c s;
               s = upd_cons (\<lambda>b. b\<lparr>cbuf := (cbuf b)(unat (ce b mod INPUT_BUF) := ucast c), ce := ce b + 1\<rparr>) s
           in if c = 10 \<or> c = 4 \<or> ce (cons s) = cr (cons s) + INPUT_BUF
              then wakeup ChCons (upd_cons (\<lambda>b. b\<lparr>cw := ce b\<rparr>) s)
              else Inr s
       else Inr s)
      (unlock ConsLock))"

end
