(* ===== verification/Pipe.thy ===== *)
theory Pipe imports Console begin

text \<open>
  kernel/pipe.c: pipes. A pipe lives at the start of a page of its own; \<open>pipes\<close> is the heap of pipes by the address of
  that page. A reader or writer that has to wait goes to sleep in the middle of its loop, and the model of each
  routine returns what it needs to go on.
\<close>

section \<open>State\<close>

definition PIPESIZE :: u32 where "PIPESIZE = 512"

record pipe =
  pdata :: "nat \<Rightarrow> u8"
  nread :: u32
  nwrite :: u32
  readopen :: bool
  writeopen :: bool

record pipe_st = cons_st +
  pipes :: "u64 \<Rightarrow> pipe"

definition upd_pipe :: "u64 \<Rightarrow> (pipe \<Rightarrow> pipe) \<Rightarrow> 'a pipe_st_scheme \<Rightarrow> 'a pipe_st_scheme" where
  "upd_pipe pi f s = s\<lparr>pipes := (pipes s)(pi := f (pipes s pi))\<rparr>"

section \<open>The ring buffer\<close>

text \<open>\<open>pi->data[pi->nwrite++ % PIPESIZE] = ch\<close> and \<open>ch = pi->data[pi->nread++ % PIPESIZE]\<close>.\<close>

definition pipe_put :: "u8 \<Rightarrow> pipe \<Rightarrow> pipe" where
  "pipe_put ch q = q\<lparr>pdata := (pdata q)(unat (nwrite q mod PIPESIZE) := ch), nwrite := nwrite q + 1\<rparr>"

definition pipe_get :: "pipe \<Rightarrow> u8 \<times> pipe" where
  "pipe_get q = (pdata q (unat (nread q mod PIPESIZE)), q\<lparr>nread := nread q + 1\<rparr>)"

section \<open>Operations\<close>

definition pipeclose :: "u64 \<Rightarrow> bool \<Rightarrow> 'a pipe_st_scheme \<Rightarrow> 'a pipe_st_scheme kres" where
  "pipeclose pi writable s =
    kbind (lock (PipeLock pi) s) (\<lambda>s.
    kbind (if writable then wakeup (ChPipeRead pi) (upd_pipe pi (\<lambda>q. q\<lparr>writeopen := False\<rparr>) s)
           else wakeup (ChPipeWrite pi) (upd_pipe pi (\<lambda>q. q\<lparr>readopen := False\<rparr>) s)) (\<lambda>s.
      if \<not> readopen (pipes s pi) \<and> \<not> writeopen (pipes s pi)
      then kbind (unlock (PipeLock pi) s) (kfree pi)
      else unlock (PipeLock pi) s))"

text \<open>After the loops of \<open>pipewrite\<close> and \<open>piperead\<close>.\<close>

definition pipe_leave :: "chan \<Rightarrow> u64 \<Rightarrow> nat \<Rightarrow> 'a pipe_st_scheme \<Rightarrow> (('w, int) outcome \<times> 'a pipe_st_scheme) kres" where
  "pipe_leave ch pi i s =
    kbind (wakeup ch s) (\<lambda>s. kbind (unlock (PipeLock pi) s) (\<lambda>s. Inr (Finished (int i), s)))"

text \<open>The loop of \<open>pipewrite\<close> with \<open>k\<close> bytes left; \<open>pr\<close> is the process.\<close>

primrec pipewrite_loop :: "nat \<Rightarrow> u64 \<Rightarrow> nat \<Rightarrow> u64 \<Rightarrow> nat \<Rightarrow> 'a pipe_st_scheme
    \<Rightarrow> ((nat \<times> nat \<times> bool, int) outcome \<times> 'a pipe_st_scheme) kres" where
  "pipewrite_loop 0 pi pr addr i s = pipe_leave (ChPipeRead pi) pi i s"
| "pipewrite_loop (Suc k) pi pr addr i s =
    (if nwrite (pipes s pi) = nread (pipes s pi) + PIPESIZE then
       if \<not> readopen (pipes s pi) \<or> killed (procs s pr)
       then kbind (unlock (PipeLock pi) s) (\<lambda>s. Inr (Finished (- 1), s))
       else
         kbind (wakeup (ChPipeRead pi) s) (\<lambda>s.
         kbind (sleep_enter (ChPipeWrite pi) (PipeLock pi) s) (\<lambda>(ie, s). Inr (Waiting (Suc k, i, ie), s)))
     else
       kbind (copyin2 (addr + of_nat i) 1 s) (\<lambda>(e, bs, s).
         if e = - 1 then pipe_leave (ChPipeRead pi) pi i s
         else pipewrite_loop k pi pr addr (Suc i) (upd_pipe pi (pipe_put (hd bs)) s)))"

definition pipewrite_run :: "u64 \<Rightarrow> u64 \<Rightarrow> int \<Rightarrow> 'a pipe_st_scheme
    \<Rightarrow> ((nat \<times> nat \<times> bool, int) outcome \<times> 'a pipe_st_scheme) kres" where
  "pipewrite_run pi addr n s =
    kbind (curproc s) (\<lambda>(pr, s).
    kbind (lock (PipeLock pi) s) (pipewrite_loop (nat n) pi pr addr 0))"

definition pipewrite_wake :: "nat \<Rightarrow> bool \<Rightarrow> nat \<Rightarrow> u64 \<Rightarrow> u64 \<Rightarrow> nat \<Rightarrow> 'a pipe_st_scheme
    \<Rightarrow> ((nat \<times> nat \<times> bool, int) outcome \<times> 'a pipe_st_scheme) kres" where
  "pipewrite_wake pr ie k pi addr i s =
    kbind (sleep_leave pr ie (PipeLock pi) s) (pipewrite_loop k pi pr addr i)"

definition pipewrite :: "u64 \<Rightarrow> u64 \<Rightarrow> int \<Rightarrow> 'a pipe_st_scheme \<Rightarrow> (int \<times> 'a pipe_st_scheme) kres" where
  "pipewrite pi addr n s = no_wait (ChPipeWrite pi) (pipewrite_run pi addr n s)"

primrec piperead_copy :: "nat \<Rightarrow> u64 \<Rightarrow> u64 \<Rightarrow> nat \<Rightarrow> 'a pipe_st_scheme
    \<Rightarrow> ((bool, int) outcome \<times> 'a pipe_st_scheme) kres" where
  "piperead_copy 0 pi addr i s = pipe_leave (ChPipeWrite pi) pi i s"
| "piperead_copy (Suc k) pi addr i s =
    (if nread (pipes s pi) = nwrite (pipes s pi) then pipe_leave (ChPipeWrite pi) pi i s
     else
       let (ch, q) = pipe_get (pipes s pi);
           s = upd_pipe pi (\<lambda>_. q) s
       in kbind (copyout2 (addr + of_nat i) (\<lambda>_. ch) 1 s) (\<lambda>(e, s).
            if e = - 1 then pipe_leave (ChPipeWrite pi) pi i s
            else piperead_copy k pi addr (Suc i) s))"

definition piperead_wait :: "nat \<Rightarrow> u64 \<Rightarrow> u64 \<Rightarrow> int \<Rightarrow> 'a pipe_st_scheme
    \<Rightarrow> ((bool, int) outcome \<times> 'a pipe_st_scheme) kres" where
  "piperead_wait pr pi addr n s =
    (if nread (pipes s pi) = nwrite (pipes s pi) \<and> writeopen (pipes s pi) then
       if killed (procs s pr) then kbind (unlock (PipeLock pi) s) (\<lambda>s. Inr (Finished (- 1), s))
       else kbind (sleep_enter (ChPipeRead pi) (PipeLock pi) s) (\<lambda>(ie, s). Inr (Waiting ie, s))
     else piperead_copy (nat n) pi addr 0 s)"

definition piperead_run :: "u64 \<Rightarrow> u64 \<Rightarrow> int \<Rightarrow> 'a pipe_st_scheme
    \<Rightarrow> ((bool, int) outcome \<times> 'a pipe_st_scheme) kres" where
  "piperead_run pi addr n s =
    kbind (curproc s) (\<lambda>(pr, s).
    kbind (lock (PipeLock pi) s) (piperead_wait pr pi addr n))"

definition piperead_wake :: "nat \<Rightarrow> bool \<Rightarrow> u64 \<Rightarrow> u64 \<Rightarrow> int \<Rightarrow> 'a pipe_st_scheme
    \<Rightarrow> ((bool, int) outcome \<times> 'a pipe_st_scheme) kres" where
  "piperead_wake pr ie pi addr n s =
    kbind (sleep_leave pr ie (PipeLock pi) s) (piperead_wait pr pi addr n)"

definition piperead :: "u64 \<Rightarrow> u64 \<Rightarrow> int \<Rightarrow> 'a pipe_st_scheme \<Rightarrow> (int \<times> 'a pipe_st_scheme) kres" where
  "piperead pi addr n s = no_wait (ChPipeRead pi) (piperead_run pi addr n s)"

end
