(* ===== verification/Fifo.thy ===== *)
theory Fifo imports Prelude begin

text \<open>
  The contract of a bounded queue in a ring buffer, stated once for the pipe and the console: what was put in comes out, in order. A client
  that knows the contract needs neither the indices nor their wrap-around.
\<close>

locale fifo =
  fixes items :: "'q \<Rightarrow> 'v list"
    and cap :: nat
    and valid :: "'q \<Rightarrow> bool"
    and put :: "'v \<Rightarrow> 'q \<Rightarrow> 'q"
    and get :: "'q \<Rightarrow> 'v \<times> 'q"
  assumes put_valid: "valid q \<Longrightarrow> length (items q) < cap \<Longrightarrow> valid (put v q)"
    and put_items: "valid q \<Longrightarrow> length (items q) < cap \<Longrightarrow> items (put v q) = items q @ [v]"
    and get_valid: "valid q \<Longrightarrow> items q \<noteq> [] \<Longrightarrow> valid (snd (get q))"
    and get_items: "valid q \<Longrightarrow> items q \<noteq> [] \<Longrightarrow> items q = fst (get q) # items (snd (get q))"
begin

text \<open>Putting a list, and getting \<open>n\<close> items.\<close>

primrec puts :: "'v list \<Rightarrow> 'q \<Rightarrow> 'q" where
  "puts [] q = q"
| "puts (v # vs) q = puts vs (put v q)"

primrec gets :: "nat \<Rightarrow> 'q \<Rightarrow> 'v list \<times> 'q" where
  "gets 0 q = ([], q)"
| "gets (Suc n) q = (let (v, q) = get q; (vs, q) = gets n q in (v # vs, q))"

lemma puts_items:
  "valid q \<Longrightarrow> length (items q) + length vs \<le> cap \<Longrightarrow> valid (puts vs q) \<and> items (puts vs q) = items q @ vs"
  by (induction vs arbitrary: q) (simp_all add: put_valid put_items)

lemma gets_items:
  "valid q \<Longrightarrow> n \<le> length (items q) \<Longrightarrow>
    fst (gets n q) = take n (items q) \<and> valid (snd (gets n q)) \<and> items (snd (gets n q)) = drop n (items q)"
proof (induction n arbitrary: q)
  case (Suc n)
  then have ne: "items q \<noteq> []" by auto
  note g = get_items [OF Suc.prems(1) ne]
  have "n \<le> length (items (snd (get q)))" using Suc.prems(2) by (subst (asm) g) simp
  with Suc.IH [OF get_valid [OF Suc.prems(1) ne]]
  have "fst (gets n (snd (get q))) = take n (items (snd (get q))) \<and> valid (snd (gets n (snd (get q))))
    \<and> items (snd (gets n (snd (get q)))) = drop n (items (snd (get q)))" .
  then show ?case by (subst (1 2) g) (simp add: split_beta Let_def)
qed simp

lemma gets_puts:
  assumes "valid q" and "items q = []" and "length vs \<le> cap"
  shows "fst (gets (length vs) (puts vs q)) = vs \<and> items (snd (gets (length vs) (puts vs q))) = []"
  using puts_items [of q vs] gets_items [of "puts vs q" "length vs"] assms by simp

end

section \<open>Ring buffers\<close>

text \<open>
  The items between two indices that count modulo \<open>2 ^ 32\<close>, in an array of \<open>N\<close> places. The wrap-around does no harm when \<open>N\<close> divides
  \<open>2 ^ 32\<close>.
\<close>

definition ring_items :: "nat \<Rightarrow> (nat \<Rightarrow> 'v) \<Rightarrow> u32 \<Rightarrow> u32 \<Rightarrow> 'v list" where
  "ring_items N d r w = map (\<lambda>i. d (unat (r + of_nat i) mod N)) [0..<unat (w - r)]"

lemma ring_index:
  assumes "N dvd 2 ^ 32"
  shows "unat ((r::u32) + of_nat i) mod N = (unat r + i) mod N"
proof -
  have "unat (r + of_nat i) = (unat r + i) mod 2 ^ 32"
    by (simp add: unat_word_ariths unat_of_nat mod_simps)
  then show ?thesis using assms by (simp add: mod_mod_cancel)
qed

lemma length_ring_items [simp]: "length (ring_items N d r w) = unat (w - r)"
  by (simp add: ring_items_def)

lemma ring_put:
  assumes N: "N dvd 2 ^ 32" "N < 2 ^ 32" and room: "unat (w - r) < N"
  shows "ring_items N (d(unat w mod N := v)) r (w + 1) = ring_items N d r w @ [v]"
    and "unat (w + 1 - r) = Suc (unat (w - r))"
proof -
  let ?n = "unat (w - r)"
  have "unat (w - r + 1) = unat (w - r) + unat (1::u32)"
    using N(2) room by (intro unat_add_no_wrap) simp
  then show n: "unat (w + 1 - r) = Suc ?n" by (simp add: algebra_simps)
  have w: "unat w mod N = (unat r + ?n) mod N"
    using ring_index [OF N(1), of r ?n] by simp
  have "(unat r + i) mod N \<noteq> (unat r + ?n) mod N" if "i < ?n" for i
  proof
    assume "(unat r + i) mod N = (unat r + ?n) mod N"
    then have "(unat r + ?n) mod N = (unat r + i) mod N" by (rule sym)
    then have "N dvd (unat r + ?n) - (unat r + i)"
      using that mod_eq_dvd_iff_nat [of "unat r + i" "unat r + ?n" N] by linarith
    then have "N dvd ?n - i" by simp
    then show False using that room by (auto dest: dvd_imp_le)
  qed
  then show "ring_items N (d(unat w mod N := v)) r (w + 1) = ring_items N d r w @ [v]"
    unfolding ring_items_def n ring_index [OF N(1)] w by (simp cong: map_cong)
qed

lemma ring_get:
  assumes "r \<noteq> w"
  shows "ring_items N d r w = d (unat r mod N) # ring_items N d (r + 1) w"
    and "unat (w - r) = Suc (unat (w - (r + 1)))"
proof -
  have "w - r \<noteq> 0" using assms by simp
  then have n: "unat (w - r) = Suc (unat (w - r - 1))" by (simp add: unat_minus_one unat_gt_0)
  then show n': "unat (w - r) = Suc (unat (w - (r + 1)))" by (simp add: algebra_simps)
  show "ring_items N d r w = d (unat r mod N) # ring_items N d (r + 1) w"
    unfolding ring_items_def n' upt_rec [of 0 "Suc _"] by (simp add: map_Suc_upt [symmetric] algebra_simps del: upt_Suc)
qed

text \<open>An index between the two ends cuts the items, and stepping the end back drops the last.\<close>

lemma ring_split:
  assumes "unat (w - r) \<le> unat (e - r)"
  shows "ring_items N d r w = take (unat (w - r)) (ring_items N d r e)"
    and "ring_items N d w e = drop (unat (w - r)) (ring_items N d r e)"
    and "unat (e - w) = unat (e - r) - unat (w - r)"
proof -
  have "unat (e - r - (w - r)) = unat (e - r) - unat (w - r)"
    using assms by (intro unat_sub_le) (simp add: word_le_nat_alt)
  then show n: "unat (e - w) = unat (e - r) - unat (w - r)" by simp
  show "ring_items N d r w = take (unat (w - r)) (ring_items N d r e)"
    using assms by (simp add: ring_items_def take_map min_def)
  have "w + of_nat i = r + of_nat (unat (w - r) + i)" for i by (simp add: algebra_simps)
  then show "ring_items N d w e = drop (unat (w - r)) (ring_items N d r e)"
    using assms unfolding ring_items_def n
    by (intro nth_equalityI) simp_all
qed

lemma ring_back:
  assumes "e \<noteq> r"
  shows "ring_items N d r (e - 1) = butlast (ring_items N d r e)" and "unat (e - r) = Suc (unat (e - 1 - r))"
    and "last (ring_items N d r e) = d (unat (e - 1) mod N)"
proof -
  have "e - r \<noteq> 0" using assms by simp
  then have "unat (e - r) = Suc (unat (e - r - 1))" by (simp add: unat_minus_one unat_gt_0)
  then show n: "unat (e - r) = Suc (unat (e - 1 - r))" by (simp add: algebra_simps)
  show "ring_items N d r (e - 1) = butlast (ring_items N d r e)" unfolding ring_items_def n by simp
  have "r + of_nat (unat (e - 1 - r)) = e - 1" by simp
  then show "last (ring_items N d r e) = d (unat (e - 1) mod N)" unfolding ring_items_def n by simp
qed

end
