(* ===== verification/PipeProps.thy ===== *)
theory PipeProps imports Pipe Fifo begin

text \<open>
  A pipe is a queue of bytes: what \<open>pipewrite\<close> takes from the memory of one process is what \<open>piperead\<close> stores into the memory of
  another, in order, whatever the indices are.
\<close>

section \<open>One byte of user memory\<close>

text \<open>The \<open>n\<close> bytes at \<open>addr\<close> belong to the running process \<open>p\<close>, and the kernel can read and write them.\<close>

definition user_ok :: "nat \<Rightarrow> u64 \<Rightarrow> nat \<Rightarrow> 'a proc_st_scheme \<Rightarrow> bool" where
  "user_ok p addr n s \<longleftrightarrow>
    core_ok (core s) \<and> cproc (mycpu (core s)) = Some p \<and> unat addr + n \<le> unat (psz (procs s p)) \<and> n < 2 ^ 32 \<and>
    pt_wf (mem s) (cur_root s) \<and> pure_tree (mem s) (cur_root s) \<and> user_range (mem s) (cur_root s) addr n"

definition user_byte :: "'a vm_st_scheme \<Rightarrow> u64 \<Rightarrow> nat \<Rightarrow> u8" where
  "user_byte s addr i = mem s (phys_at (mem s) (cur_root s) addr i)"

lemma user_okD:
  assumes "user_ok p addr n s"
  shows "core_ok (core s)" "cproc (mycpu (core s)) = Some p" "unat addr + n \<le> unat (psz (procs s p))" "n < 2 ^ 32"
    "pt_wf (mem s) (cur_root s)" "pure_tree (mem s) (cur_root s)" "user_range (mem s) (cur_root s) addr n"
  using assms by (simp_all add: user_ok_def)

lemma user_guard:
  assumes "user_ok p addr n s" and "i < n"
  shows "\<not> (addr + of_nat i + 1 > psz (procs s p) \<or> addr + of_nat i \<ge> psz (procs s p))"
proof -
  note u = user_okD [OF assms(1)]
  have sz: "unat (psz (procs s p)) < 2 ^ 64" using unsigned_less [of "psz (procs s p)"] by simp
  have a: "unat (addr + of_nat k) = unat addr + k" if "k \<le> n" for k
  proof -
    have "unat (of_nat k :: u64) = k" using that u(4) by (intro unat_of_nat_small) simp
    then show ?thesis using that u(3) sz by (subst unat_add_no_wrap) simp_all
  qed
  have e: "addr + of_nat i + 1 = addr + of_nat (Suc i)" by simp
  have "unat (addr + of_nat i) = unat addr + i" "unat (addr + of_nat (Suc i)) = unat addr + Suc i"
    using assms(2) by (intro a, simp)+
  then show ?thesis using assms(2) u(3) unfolding e word_less_nat_alt word_le_nat_alt by linarith
qed

lemma copyin2_byte:
  assumes "user_ok p addr n s" and "i < n"
  shows "copyin2 (addr + of_nat i) 1 s = Inr (0, [user_byte s addr i], s\<lparr>core := settle (core s)\<rparr>)"
proof -
  note u = user_okD [OF assms(1)]
  let ?s = "s\<lparr>core := settle (core s)\<rparr>"
  have "translate (mem ?s) (cur_root ?s) PTE_R (addr + of_nat i) = Some (phys_at (mem s) (cur_root s) addr i)"
    using user_range_translate [OF u(6,7) assms(2)] by (simp add: cur_root_def)
  then have "vread (unat (ucast (1::u64) :: u32)) (addr + of_nat i) ?s = Inr [user_byte s addr i]"
    by (simp add: user_byte_def)
  then show ?thesis
    using curproc_eq [OF u(1,2)] user_guard [OF assms] by (simp add: copyin2_def)
qed

lemma copyout2_byte:
  assumes "user_ok p addr n s" and "i < n"
  shows "copyout2 (addr + of_nat i) (\<lambda>_. ch) 1 s =
    Inr (0, s\<lparr>core := settle (core s), mem := (mem s)(phys_at (mem s) (cur_root s) addr i := ch)\<rparr>)"
proof -
  note u = user_okD [OF assms(1)]
  let ?s = "s\<lparr>core := settle (core s)\<rparr>"
  have "translate (mem ?s) (cur_root ?s) PTE_W (addr + of_nat i) = Some (phys_at (mem s) (cur_root s) addr i)"
    using user_range_translate [OF u(6,7) assms(2)] by (simp add: cur_root_def)
  then have "vwrite (unat (ucast (1::u64) :: u32)) (addr + of_nat i) (\<lambda>_. ch) ?s =
      Inr (?s\<lparr>mem := (mem s)(phys_at (mem s) (cur_root s) addr i := ch)\<rparr>)"
    by simp
  then show ?thesis
    using curproc_eq [OF u(1,2)] user_guard [OF assms] by (simp add: copyout2_def)
qed

section \<open>The ring buffer\<close>

definition pipe_items :: "pipe \<Rightarrow> u8 list" where
  "pipe_items q = ring_items 512 (pdata q) (nread q) (nwrite q)"

definition pipe_valid :: "pipe \<Rightarrow> bool" where
  "pipe_valid q \<longleftrightarrow> unat (nwrite q - nread q) \<le> 512"

lemma pipe_index: "unat ((x::u32) mod PIPESIZE) = unat x mod 512"
  by (simp add: PIPESIZE_def unat_mod)

interpretation pq: fifo pipe_items 512 pipe_valid pipe_put pipe_get
proof (unfold_locales, goal_cases)
  case (1 q v)
  then show ?case using ring_put(2) [of 512 "nwrite q" "nread q"]
    by (simp add: pipe_valid_def pipe_items_def pipe_put_def)
next
  case (2 q v)
  then show ?case using ring_put(1) [of 512 "nwrite q" "nread q" "pdata q" v]
    by (simp add: pipe_items_def pipe_put_def pipe_index)
next
  case (3 q)
  then have "nread q \<noteq> nwrite q" by (auto simp: pipe_items_def ring_items_def)
  then show ?case using 3(1) ring_get(2) [of "nread q" "nwrite q"] by (simp add: pipe_valid_def pipe_get_def)
next
  case (4 q)
  then have "nread q \<noteq> nwrite q" by (auto simp: pipe_items_def ring_items_def)
  then show ?case using ring_get(1) [of "nread q" "nwrite q" 512 "pdata q"]
    by (simp add: pipe_items_def pipe_get_def pipe_index)
qed

text \<open>The two tests of the loops.\<close>

lemma pipe_full_iff: "pipe_valid q \<Longrightarrow> nwrite q = nread q + PIPESIZE \<longleftrightarrow> length (pipe_items q) = 512"
  unfolding pipe_items_def length_ring_items word_diff_eq_iff [of "nwrite q" "nread q" PIPESIZE, symmetric]
  by (simp add: PIPESIZE_def word_unat_eq_iff)

lemma pipe_empty_iff: "nread q = nwrite q \<longleftrightarrow> pipe_items q = []"
  by (cases "nread q = nwrite q") (simp_all add: pipe_items_def ring_get(1), simp add: ring_items_def)

section \<open>Writing\<close>

lemma upd_pipe_simps [simp]:
  "core (upd_pipe pi f s) = core s" "mem (upd_pipe pi f s) = mem s" "procs (upd_pipe pi f s) = procs s"
  "cur_root (upd_pipe pi f s) = cur_root s" "pipes (upd_pipe pi f s) = (pipes s)(pi := f (pipes s pi))"
  "upd_pipe pi f (upd_pipe pi g s) = upd_pipe pi (\<lambda>q. f (g q)) s"
  by (simp_all add: upd_pipe_def cur_root_def)

lemma user_byte_frame [simp]:
  "user_byte (upd_pipe pi f s) = user_byte s" "user_byte (s\<lparr>core := c\<rparr>) = user_byte s" if "hart c = hart (core s)"
  using that by (simp_all add: user_byte_def cur_root_def upd_pipe_def fun_eq_iff)

lemma pipewrite_loop_ok:
  assumes "core s = acq (PipeLock pi) c" and "core_ok c" and "user_ok p addr n s" and "i + k \<le> n"
    and "pipe_valid (pipes s pi)" and "length (pipe_items (pipes s pi)) + k \<le> 512"
  shows "pipewrite_loop k pi p addr i s =
    pipe_leave (ChPipeRead pi) pi (i + k) (upd_pipe pi (pq.puts (map (user_byte s addr) [i..<i + k])) s)"
  using assms
proof (induction k arbitrary: i s)
  case 0
  then show ?case by (simp add: upd_pipe_def)
next
  case (Suc k)
  let ?q = "pipe_put (user_byte s addr i) (pipes s pi)" and ?s = "upd_pipe pi (pipe_put (user_byte s addr i)) s"
  have i: "i < n" using Suc.prems(4) by simp
  have "s\<lparr>core := settle (core s)\<rparr> = s" using Suc.prems(1,2) by simp
  then have "copyin2 (addr + of_nat i) 1 s = Inr (0, [user_byte s addr i], s)"
    using copyin2_byte [OF Suc.prems(3) i] by simp
  moreover have "nwrite (pipes s pi) \<noteq> nread (pipes s pi) + PIPESIZE"
    using Suc.prems(6) pipe_full_iff [OF Suc.prems(5)] by simp
  ultimately have "pipewrite_loop (Suc k) pi p addr i s = pipewrite_loop k pi p addr (Suc i) ?s"
    by simp
  also have "\<dots> = pipe_leave (ChPipeRead pi) pi (Suc i + k)
      (upd_pipe pi (pq.puts (map (user_byte ?s addr) [Suc i..<Suc i + k])) ?s)"
  proof (rule Suc.IH)
    show "user_ok p addr n ?s" using Suc.prems(3) by (simp add: user_ok_def)
    show "pipe_valid (pipes ?s pi)" "length (pipe_items (pipes ?s pi)) + k \<le> 512"
      using Suc.prems(5,6) pq.put_valid [of "pipes s pi"] pq.put_items [of "pipes s pi"] by simp_all
  qed (use Suc.prems in simp_all)
  moreover have "user_byte ?s = user_byte s" by (simp add: user_byte_def fun_eq_iff)
  moreover have "[i..<i + Suc k] = i # [Suc i..<Suc i + k]" by (simp add: upt_conv_Cons)
  ultimately show ?case by (simp del: pipewrite_loop.simps upt_Suc)
qed

lemma pipe_leave_ok:
  assumes "core s = acq (PipeLock pi) c" and "core_ok c" and "lockfree (PipeLock pi) c" and "\<forall>i<NPROC. lockfree (ProcLock i) c"
  shows "pipe_leave ch pi i s = Inr (Finished (int i), wake ch (s\<lparr>core := settle c\<rparr>))"
proof -
  have "wakeup ch s = Inr (wake ch (s\<lparr>core := settle (core s)\<rparr>))"
    using assms by (intro wakeup_eq) simp_all
  also have "s\<lparr>core := settle (core s)\<rparr> = s" using assms(1,2) by simp
  finally show ?thesis using assms by (simp add: pipe_leave_def lock_simps)
qed

text \<open>
  C23: When the pipe has room, \<open>pipewrite\<close> takes the \<open>n\<close> bytes at \<open>addr\<close> from the memory of the process and appends them to the
  queue, in order; it makes the waiting readers runnable and changes nothing else but the interrupt bookkeeping.
\<close>

theorem pipewrite_appends:
  assumes "running p s" and "user_ok p addr n s" and "pipe_valid (pipes s pi)" and "length (pipe_items (pipes s pi)) + n \<le> 512"
  shows "\<exists>s'. pipewrite pi addr (int n) s = Inr (int n, s')
    \<and> pipe_items (pipes s' pi) = pipe_items (pipes s pi) @ map (user_byte s addr) [0..<n] \<and> pipe_valid (pipes s' pi)
    \<and> mem s' = mem s \<and> procs s' = woken_tab (ChPipeRead pi) (procs s) \<and> core s' = settle (core s)"
proof -
  note r = runningD [OF assms(1)]
  let ?c = "settle (core s)"
  let ?s = "s\<lparr>core := acq (PipeLock pi) ?c\<rparr>"
  let ?bs = "map (user_byte s addr) [0..<n]"
  let ?s' = "wake (ChPipeRead pi) ((upd_pipe pi (pq.puts ?bs) ?s)\<lparr>core := settle ?c\<rparr>)"
  have "user_ok p addr n ?s" using assms(2) r by (simp add: user_ok_def cur_root_def)
  then have "pipewrite_loop n pi p addr 0 ?s =
      pipe_leave (ChPipeRead pi) pi (0 + n) (upd_pipe pi (pq.puts (map (user_byte ?s addr) [0..<0 + n])) ?s)"
    using assms(3,4) r by (intro pipewrite_loop_ok [where c = ?c and n = n]) simp_all
  also have "user_byte ?s = user_byte s" by simp
  also have "pipe_leave (ChPipeRead pi) pi (0 + n) (upd_pipe pi (pq.puts (map (user_byte s addr) [0..<0 + n])) ?s)
      = Inr (Finished (int n), ?s')"
    using r by (subst pipe_leave_ok [of _ _ ?c]) simp_all
  finally have "pipewrite pi addr (int n) s = Inr (int n, ?s')"
    using r by (simp add: pipewrite_def no_wait_def pipewrite_run_def lock_simps)
  moreover have "pipe_items (pipes ?s' pi) = pipe_items (pipes s pi) @ ?bs \<and> pipe_valid (pipes ?s' pi)"
    using pq.puts_items [of "pipes s pi" ?bs] assms(3,4) by (simp add: wake_def)
  ultimately show ?thesis by (intro exI [of _ ?s']) (simp add: wake_def)
qed

section \<open>Reading\<close>

text \<open>Storing one byte keeps the rest of the range as it is.\<close>

lemma user_ok_store:
  fixes ch :: u8
  assumes "user_ok p addr n s" and "i < n"
  defines "s1 \<equiv> s\<lparr>mem := (mem s)(phys_at (mem s) (cur_root s) addr i := ch)\<rparr>"
  shows "user_ok p addr n s1" and "j < n \<Longrightarrow> phys_at (mem s1) (cur_root s1) addr j = phys_at (mem s) (cur_root s) addr j"
proof -
  note u = user_okD [OF assms(1)]
  have "\<forall>a. a \<notin> phys_at (mem s) (cur_root s) addr ` {..<n} \<longrightarrow> mem s1 a = mem s a"
    using assms(2) by (auto simp: s1_def)
  note st = user_range_stable [OF u(5-7) this]
  have r: "cur_root s1 = cur_root s" by (simp add: s1_def)
  show "user_ok p addr n s1" using st(1-3) u r by (simp add: user_ok_def) (simp add: s1_def)
  show "j < n \<Longrightarrow> phys_at (mem s1) (cur_root s1) addr j = phys_at (mem s) (cur_root s) addr j"
    using st(4) r by simp
qed

lemma upd_pipe_const: "upd_pipe pi (\<lambda>_. pipes s pi) s = s"
  by (simp add: upd_pipe_def)

lemma piperead_copy_ok:
  assumes "core s = acq (PipeLock pi) c" and "core_ok c" and "user_ok p addr n s" and "i + k \<le> n" and "pipe_valid (pipes s pi)"
    and "t = min k (length (pipe_items (pipes s pi)))" and "f = phys_at (mem s) (cur_root s) addr"
  shows "\<exists>m'. piperead_copy k pi addr i s =
      pipe_leave (ChPipeWrite pi) pi (i + t) (upd_pipe pi (\<lambda>_. snd (pq.gets t (pipes s pi))) (s\<lparr>mem := m'\<rparr>))
    \<and> (\<forall>j<t. m' (f (i + j)) = pipe_items (pipes s pi) ! j) \<and> (\<forall>a. a \<notin> f ` {i..<i + t} \<longrightarrow> m' a = mem s a)"
  using assms
proof (induction k arbitrary: i s t f)
  case 0
  then show ?case by (intro exI [of _ "mem s"]) (simp add: upd_pipe_const)
next
  case (Suc k)
  let ?items = "pipe_items (pipes s pi)" and ?f = "phys_at (mem s) (cur_root s) addr"
  show ?case
  proof (cases "?items = []")
    case True
    then show ?thesis using Suc.prems(6,7)
      by (intro exI [of _ "mem s"]) (simp add: pipe_empty_iff upd_pipe_const)
  next
    case False
    have i: "i < n" using Suc.prems(4) by simp
    let ?ch = "fst (pipe_get (pipes s pi))" and ?q = "snd (pipe_get (pipes s pi))"
    let ?m = "(mem s)(?f i := ?ch)"
    let ?s = "upd_pipe pi (\<lambda>_. ?q) (s\<lparr>mem := ?m\<rparr>)"
    have items: "?items = ?ch # pipe_items ?q" by (rule pq.get_items [OF Suc.prems(5) False])
    have valid: "pipe_valid ?q" by (rule pq.get_valid [OF Suc.prems(5) False])
    have c: "core s = settle (core s)" using Suc.prems(1,2) by simp
    have uq: "user_ok p addr n (upd_pipe pi (\<lambda>_. ?q) s)" using Suc.prems(3) by (simp add: user_ok_def)
    have "copyout2 (addr + of_nat i) (\<lambda>_. ?ch) 1 (upd_pipe pi (\<lambda>_. ?q) s) = Inr (0, ?s)"
      using copyout2_byte [OF uq i, of ?ch] c [symmetric] by (simp add: upd_pipe_def cur_root_def)
    then have "piperead_copy (Suc k) pi addr i s = piperead_copy k pi addr (Suc i) ?s"
      using False by (simp add: pipe_empty_iff split_beta Let_def)
    moreover obtain m' where m':
      "piperead_copy k pi addr (Suc i) ?s = pipe_leave (ChPipeWrite pi) pi (Suc i + min k (length (pipe_items ?q)))
        (upd_pipe pi (\<lambda>_. snd (pq.gets (min k (length (pipe_items ?q))) ?q)) (?s\<lparr>mem := m'\<rparr>))"
      "\<forall>j<min k (length (pipe_items ?q)). m' (phys_at (mem ?s) (cur_root ?s) addr (Suc i + j)) = pipe_items ?q ! j"
      "\<forall>a. a \<notin> phys_at (mem ?s) (cur_root ?s) addr ` {Suc i..<Suc i + min k (length (pipe_items ?q))} \<longrightarrow> m' a = mem ?s a"
    proof -
      have "user_ok p addr n ?s"
        using user_ok_store(1) [OF Suc.prems(3) i, of ?ch] by (simp add: user_ok_def)
      moreover have q: "pipes ?s pi = ?q" by simp
      moreover have "core ?s = acq (PipeLock pi) c" "Suc i + k \<le> n" using Suc.prems(1,4) by simp_all
      ultimately show thesis
        using Suc.IH [of ?s "Suc i", OF _ Suc.prems(2) _ _ _ refl refl] valid that unfolding q by blast
    qed
    let ?t = "min k (length (pipe_items ?q))"
    have f: "phys_at (mem ?s) (cur_root ?s) addr j = ?f j" if "j < n" for j
      using user_ok_store(2) [OF Suc.prems(3) i that, of ?ch] by simp
    have n: "Suc i + ?t \<le> n" using Suc.prems(4) by simp
    have inj: "inj_on ?f {..<n}"
      using user_okD(4,7) [OF Suc.prems(3)] by (intro user_range_inj) simp_all
    have img: "phys_at (mem ?s) (cur_root ?s) addr ` {Suc i..<Suc i + ?t} = ?f ` {Suc i..<Suc i + ?t}"
      using f n by (intro image_cong) simp_all
    have "?f i \<notin> ?f ` {Suc i..<Suc i + ?t}"
    proof -
      have "i \<in> {..<n}" and "{Suc i..<Suc i + ?t} \<subseteq> {..<n}" using i n by auto
      from inj_on_image_mem_iff [OF inj this] show ?thesis by simp
    qed
    then have m'_i: "m' (?f i) = ?ch" using m'(3) unfolding img by simp
    have "m' (?f (i + j)) = ?items ! j" if "j < Suc ?t" for j
    proof (cases j)
      case 0
      then show ?thesis using m'_i items by (metis add.right_neutral nth_Cons_0)
    next
      case (Suc j')
      then have j': "j' < ?t" using that by simp
      have "Suc i + j' < n" using j' n by linarith
      then have "m' (?f (Suc i + j')) = pipe_items ?q ! j'"
        using m'(2) [rule_format, OF j'] f by metis
      then show ?thesis using items Suc by (metis add_Suc_right add_Suc nth_Cons_Suc)
    qed
    moreover have "m' a = mem s a" if a: "a \<notin> ?f ` {i..<i + Suc ?t}" for a
    proof -
      have "a \<noteq> ?f i" "a \<notin> ?f ` {Suc i..<Suc i + ?t}" using a by auto
      then show ?thesis using m'(3) unfolding img by simp
    qed
    moreover have "min (Suc k) (length ?items) = Suc ?t" by (subst items) simp
    ultimately show ?thesis unfolding Suc.prems(6,7)
      using m'(1) by (intro exI [of _ m']) (simp add: split_beta Let_def upd_pipe_def)
  qed
qed

text \<open>
  C24: When the pipe is not empty, or its write end is closed, \<open>piperead\<close> stores the oldest bytes of the queue at \<open>addr\<close>, in
  order, as many as were asked for or as there are, and takes them off the queue; it returns their number.
\<close>

theorem piperead_takes:
  assumes "running p s" and "user_ok p addr n s" and "pipe_valid (pipes s pi)"
    and "pipe_items (pipes s pi) \<noteq> [] \<or> \<not> writeopen (pipes s pi)"
  defines "t \<equiv> min n (length (pipe_items (pipes s pi)))"
  shows "\<exists>s'. piperead pi addr (int n) s = Inr (int t, s')
    \<and> map (user_byte s' addr) [0..<t] = take t (pipe_items (pipes s pi))
    \<and> pipe_items (pipes s' pi) = drop t (pipe_items (pipes s pi)) \<and> pipe_valid (pipes s' pi)
    \<and> procs s' = woken_tab (ChPipeWrite pi) (procs s) \<and> core s' = settle (core s)"
proof -
  note r = runningD [OF assms(1)]
  let ?c = "settle (core s)" and ?items = "pipe_items (pipes s pi)"
  let ?s = "s\<lparr>core := acq (PipeLock pi) ?c\<rparr>"
  let ?f = "phys_at (mem s) (cur_root s) addr"
  have ok: "user_ok p addr n ?s" using assms(2) r by (simp add: user_ok_def cur_root_def)
  have t: "t \<le> n" "t \<le> length ?items" by (simp_all add: t_def)
  have "core ?s = acq (PipeLock pi) ?c" "core_ok ?c" "pipe_valid (pipes ?s pi)" using assms(3) r by simp_all
  then obtain m' where m': "piperead_copy n pi addr 0 ?s = pipe_leave (ChPipeWrite pi) pi (0 + t)
        (upd_pipe pi (\<lambda>_. snd (pq.gets t (pipes ?s pi))) (?s\<lparr>mem := m'\<rparr>))"
      "\<forall>j<t. m' (?f (0 + j)) = ?items ! j" "\<forall>a. a \<notin> ?f ` {0..<0 + t} \<longrightarrow> m' a = mem ?s a"
  proof -
    have "cur_root ?s = cur_root s" by (simp add: cur_root_def)
    moreover have "0 + n \<le> n" by simp
    moreover have "t = min n (length (pipe_items (pipes ?s pi)))" by (simp add: t_def)
    ultimately show thesis
      using piperead_copy_ok [of ?s pi ?c p addr n 0 n t ?f] \<open>core ?s = _\<close> \<open>core_ok ?c\<close> \<open>pipe_valid (pipes ?s pi)\<close> ok that
      by fastforce
  qed
  let ?s' = "wake (ChPipeWrite pi) ((upd_pipe pi (\<lambda>_. snd (pq.gets t (pipes s pi))) (?s\<lparr>mem := m'\<rparr>))\<lparr>core := settle ?c\<rparr>)"
  have "piperead_copy n pi addr 0 ?s = Inr (Finished (int t), ?s')"
    unfolding m'(1) using r by (subst pipe_leave_ok [where c = ?c]) simp_all
  moreover have "\<not> (nread (pipes s pi) = nwrite (pipes s pi) \<and> writeopen (pipes s pi))"
    using assms(4) by (auto simp: pipe_empty_iff)
  ultimately have "piperead pi addr (int n) s = Inr (int t, ?s')"
    using r by (auto simp: piperead_def no_wait_def piperead_run_def piperead_wait_def lock_simps)
  moreover have "map (user_byte ?s' addr) [0..<t] = take t ?items"
  proof (rule nth_equalityI)
    fix j assume "j < length (map (user_byte ?s' addr) [0..<t])"
    then have j: "j < t" by simp
    have "?f ` {0..<0 + t} \<subseteq> ?f ` {..<n}" using t(1) by (intro image_mono) auto
    moreover have "\<forall>a. a \<notin> ?f ` {0..<0 + t} \<longrightarrow> m' a = mem s a" using m'(3) by simp
    ultimately have "\<forall>a. a \<notin> ?f ` {..<n} \<longrightarrow> m' a = mem s a" by blast
    note st = user_range_stable(4) [OF user_okD(5-7) [OF assms(2)] this]
    have "user_byte ?s' addr j = m' (phys_at m' (cur_root s) addr j)"
      by (simp add: user_byte_def wake_def upd_pipe_def cur_root_def)
    also have "\<dots> = ?items ! j" using st [of j] j t m'(2) by simp
    finally show "map (user_byte ?s' addr) [0..<t] ! j = take t ?items ! j" using j by simp
  qed (use t in simp)
  moreover have "pipe_items (pipes ?s' pi) = drop t ?items \<and> pipe_valid (pipes ?s' pi)"
    using pq.gets_items [OF assms(3) t(2)] by (simp add: wake_def)
  ultimately show ?thesis by (intro exI [of _ ?s']) (simp add: wake_def)
qed

section \<open>A pipe\<close>

definition pipe_demo :: pipe_st where
  "pipe_demo =
    (cons_st.extend
      (fat_st.extend fat_demo
        \<lparr>cons = \<lparr>cbuf = (\<lambda>_. 0), cr = 0, cw = 0, ce = 0\<rparr>, console_out = [], pr_locking = True\<rparr>)
      \<lparr>pipes = (\<lambda>_. \<lparr>pdata = (\<lambda>_. 7), nread = - 1, nwrite = 1, readopen = True, writeopen = True\<rparr>)\<rparr>)
    \<lparr>mem := mem user_demo, satp := satp user_demo, procs := procs user_demo\<rparr>"

lemma pipe_demo_simps:
  "core pipe_demo = core fat_demo" "mem pipe_demo = mem user_demo" "procs pipe_demo = procs user_demo"
  "pipes pipe_demo = (\<lambda>_. \<lparr>pdata = (\<lambda>_. 7), nread = - 1, nwrite = 1, readopen = True, writeopen = True\<rparr>)"
  "cur_root pipe_demo = tree_root"
proof -
  show r: "core pipe_demo = core fat_demo" "mem pipe_demo = mem user_demo" "procs pipe_demo = procs user_demo"
    "pipes pipe_demo = (\<lambda>_. \<lparr>pdata = (\<lambda>_. 7), nread = - 1, nwrite = 1, readopen = True, writeopen = True\<rparr>)"
    by (simp_all add: pipe_demo_def fat_st.defs cons_st.defs)
  have "satp pipe_demo i = satp user_demo j" for i j
    by (simp add: pipe_demo_def fat_st.defs cons_st.defs user_demo_def)
  then show "cur_root pipe_demo = tree_root" using user_demo_facts(2) by (metis cur_root_def)
qed

lemma pipe_demo_ok: "running 2 pipe_demo" "user_ok 2 0x10 2 pipe_demo"
proof -
  have "running 2 fat_demo" using fat_demo_ok by (simp add: fat_ok_def quiet_def cache_ok_def)
  then show r: "running 2 pipe_demo" by (simp add: running_def pipe_demo_simps)
  have "pt_wf (mem user_demo) tree_root" "pure_tree (mem user_demo) tree_root"
    using mapped_mem_facts(1) mapped_mem_pure by (simp_all add: user_demo_def)
  then show "user_ok 2 0x10 2 pipe_demo"
    using runningD [OF r] user_demo_facts by (simp add: user_ok_def pipe_demo_simps)
qed

lemma pipe_demo_items: "pipe_items (pipes pipe_demo pi) = [7, 7]" "pipe_valid (pipes pipe_demo pi)"
  by (simp_all add: pipe_demo_simps pipe_items_def pipe_valid_def ring_items_def upt_rec)

lemma pipewrite_appends_witness:
  "\<exists>s'. pipewrite 0x80700000 0x10 2 pipe_demo = Inr (2, s') \<and> length (pipe_items (pipes s' 0x80700000)) = 4"
  using pipewrite_appends [OF pipe_demo_ok, where pi = "0x80700000"] pipe_demo_items by auto

lemma piperead_takes_witness:
  "\<exists>s'. piperead 0x80700000 0x10 2 pipe_demo = Inr (2, s') \<and> map (user_byte s' 0x10) [0..<2] = [7, 7]"
  using piperead_takes [OF pipe_demo_ok, where pi = "0x80700000"] pipe_demo_items by (auto simp: numeral_2_eq_2)

end
