(* ===== verification/ConsoleProps.thy ===== *)
theory ConsoleProps imports Console Fifo begin

text \<open>
  The console is a line editor: the interrupt handler refines an editor on two lists, the text that can be read and the line that
  is being typed.
\<close>

section \<open>The ring buffer of the console\<close>

definition cons_items :: "consbuf \<Rightarrow> u8 list" where
  "cons_items b = ring_items 128 (cbuf b) (cr b) (ce b)"

definition cons_valid :: "consbuf \<Rightarrow> bool" where
  "cons_valid b \<longleftrightarrow> unat (ce b - cr b) \<le> 128"

definition cons_put :: "u8 \<Rightarrow> consbuf \<Rightarrow> consbuf" where
  "cons_put c b = b\<lparr>cbuf := (cbuf b)(unat (ce b mod INPUT_BUF) := c), ce := ce b + 1\<rparr>"

definition cons_get :: "consbuf \<Rightarrow> u8 \<times> consbuf" where
  "cons_get b = (cbuf b (unat (cr b mod INPUT_BUF)), b\<lparr>cr := cr b + 1\<rparr>)"

lemma cons_index: "unat ((x::u32) mod INPUT_BUF) = unat x mod 128"
  by (simp add: INPUT_BUF_def unat_mod)

interpretation cq: fifo cons_items 128 cons_valid cons_put cons_get
proof (unfold_locales, goal_cases)
  case (1 b c)
  then show ?case using ring_put(2) [of 128 "ce b" "cr b"] by (simp add: cons_valid_def cons_items_def cons_put_def)
next
  case (2 b c)
  then show ?case using ring_put(1) [of 128 "ce b" "cr b" "cbuf b" c]
    by (simp add: cons_items_def cons_put_def cons_index)
next
  case (3 b)
  then have "cr b \<noteq> ce b" by (auto simp: cons_items_def ring_items_def)
  then show ?case using 3(1) ring_get(2) [of "cr b" "ce b"] by (simp add: cons_valid_def cons_get_def)
next
  case (4 b)
  then have "cr b \<noteq> ce b" by (auto simp: cons_items_def ring_items_def)
  then show ?case using ring_get(1) [of "cr b" "ce b" 128 "cbuf b"] by (simp add: cons_items_def cons_get_def cons_index)
qed

section \<open>The editor\<close>

text \<open>What can be read, and the line that is being typed.\<close>

definition typed :: "consbuf \<Rightarrow> u8 list \<times> u8 list" where
  "typed b = (ring_items 128 (cbuf b) (cr b) (cw b), ring_items 128 (cbuf b) (cw b) (ce b))"

definition edit_ok :: "consbuf \<Rightarrow> bool" where
  "edit_ok b \<longleftrightarrow> cons_valid b \<and> unat (cw b - cr b) \<le> unat (ce b - cr b) \<and> 10 \<notin> set (snd (typed b))"

definition edit :: "bool \<Rightarrow> u32 \<Rightarrow> u8 list \<times> u8 list \<Rightarrow> u8 list \<times> u8 list" where
  "edit qemu c = (\<lambda>(ready, line).
    if c = 0x15 then (ready, [])
    else if c = 8 \<or> c = 0x7f then (ready, butlast line)
    else if c \<noteq> 0 \<and> length ready + length line < 128 \<and> (qemu \<or> c \<noteq> 13) then
      let c = (if c = 13 then 10 else c); line = line @ [ucast c] in
      if c = 10 \<or> c = 4 \<or> length ready + length line = 128 then (ready @ line, []) else (ready, line)
    else (ready, line))"

lemma typed_split:
  assumes "unat (cw b - cr b) \<le> unat (ce b - cr b)"
  shows "typed b = (take (unat (cw b - cr b)) (cons_items b), drop (unat (cw b - cr b)) (cons_items b))"
    and "cons_items b = fst (typed b) @ snd (typed b)"
  using ring_split(1,2) [OF assms, of 128 "cbuf b"] by (simp_all add: typed_def cons_items_def)

text \<open>The four things that happen to the buffer.\<close>

lemma edit_back:
  assumes "edit_ok b" and "ce b \<noteq> cw b"
  defines "b1 \<equiv> b\<lparr>ce := ce b - 1\<rparr>"
  shows "typed b1 = (fst (typed b), butlast (snd (typed b)))" and "edit_ok b1"
proof -
  have e: "unat (ce b - cw b) = unat (ce b - cr b) - unat (cw b - cr b)"
    using assms(1) by (intro ring_split(3)) (simp add: edit_ok_def)
  have pos: "unat (ce b - cw b) > 0" using assms(2) by (simp add: unat_gt_0)
  then have "ce b \<noteq> cr b" using e by (auto simp: unat_eq_0)
  note prev = ring_back(2) [OF this]
  show t: "typed b1 = (fst (typed b), butlast (snd (typed b)))"
    using ring_back(1) [OF assms(2), of 128 "cbuf b"] by (simp add: typed_def b1_def)
  have "unat (cw b - cr b) \<le> unat (ce b - 1 - cr b)" using e pos prev by linarith
  then show "edit_ok b1"
    using assms(1) prev t by (auto simp: edit_ok_def cons_valid_def b1_def dest: in_set_butlastD)
qed

lemma edit_put:
  assumes "edit_ok b" and "length (cons_items b) < 128"
  shows "typed (cons_put c b) = (fst (typed b), snd (typed b) @ [c])"
    and "unat (cw (cons_put c b) - cr (cons_put c b)) \<le> unat (ce (cons_put c b) - cr (cons_put c b))"
    and "cons_valid (cons_put c b)"
proof -
  have v: "cons_valid b" and le: "unat (cw b - cr b) \<le> unat (ce b - cr b)" using assms(1) by (simp_all add: edit_ok_def)
  have len: "unat (ce b - cr b) < 128" using assms(2) by (simp add: cons_items_def)
  have w: "unat (cw (cons_put c b) - cr (cons_put c b)) = unat (cw b - cr b)" by (simp add: cons_put_def)
  have e: "unat (ce (cons_put c b) - cr (cons_put c b)) = Suc (unat (ce b - cr b))"
    using ring_put(2) [of 128 "ce b" "cr b"] len by (simp add: cons_put_def)
  show le': "unat (cw (cons_put c b) - cr (cons_put c b)) \<le> unat (ce (cons_put c b) - cr (cons_put c b))"
    using le w e by simp
  show "cons_valid (cons_put c b)" by (rule cq.put_valid [OF v assms(2)])
  have "length (cons_items b) = unat (ce b - cr b)" by (simp add: cons_items_def)
  then show "typed (cons_put c b) = (fst (typed b), snd (typed b) @ [c])"
    unfolding typed_split(1) [OF le'] typed_split(1) [OF le] w cq.put_items [OF v assms(2)] using le by simp
qed

lemma edit_commit:
  assumes "cons_valid b" and "unat (cw b - cr b) \<le> unat (ce b - cr b)"
  shows "typed (b\<lparr>cw := ce b\<rparr>) = (fst (typed b) @ snd (typed b), [])" and "edit_ok (b\<lparr>cw := ce b\<rparr>)"
proof -
  show t: "typed (b\<lparr>cw := ce b\<rparr>) = (fst (typed b) @ snd (typed b), [])"
    using typed_split(2) [OF assms(2)] by (simp add: typed_def cons_items_def ring_items_def)
  show "edit_ok (b\<lparr>cw := ce b\<rparr>)" using assms(1) t by (simp add: edit_ok_def cons_valid_def)
qed

section \<open>The interrupt handler\<close>

lemma cons_out_frame [simp]:
  "core (consputc c s) = core s" "core (upd_cons f s) = core s" "mem (consputc c s) = mem s" "mem (upd_cons f s) = mem s"
  "procs (consputc c s) = procs s" "procs (upd_cons f s) = procs s"
  "cons (s\<lparr>core := k\<rparr>) = cons s"
  by (simp_all add: consputc_def sbi_console_putchar_def upd_cons_def)

lemma kill_line_ok:
  fixes s :: "'a cons_st_scheme"
  shows "edit_ok (cons s) \<Longrightarrow> typed (cons (kill_line s)) = (fst (typed (cons s)), []) \<and> edit_ok (cons (kill_line s))
    \<and> core (kill_line s) = core s \<and> mem (kill_line s) = mem s \<and> procs (kill_line s) = procs s"
proof (induction s rule: kill_line.induct)
  case (1 s)
  let ?b = "cons s" and ?s = "consputc BACKSPACE (upd_cons (\<lambda>b. b\<lparr>ce := ce b - 1\<rparr>) s)"
  show ?case
  proof (cases "ce ?b = cw ?b")
    case True
    then show ?thesis using 1(2) unfolding kill_line.simps [of s] by (simp add: typed_def ring_items_def)
  next
    case False
    have line: "snd (typed ?b) \<noteq> []" using ring_back(2) [OF False] by (auto simp: typed_def dest!: arg_cong [of _ _ length])
    have "last (snd (typed ?b)) = cbuf ?b (unat ((ce ?b - 1) mod INPUT_BUF))"
      using ring_back(3) [OF False, of 128 "cbuf ?b"] by (simp add: typed_def cons_index)
    moreover have "last (snd (typed ?b)) \<noteq> 10" using last_in_set [OF line] 1(2) by (auto simp: edit_ok_def)
    ultimately have go: "ce ?b \<noteq> cw ?b \<and> cbuf ?b (unat ((ce ?b - 1) mod INPUT_BUF)) \<noteq> 10" using False by simp
    have k: "kill_line s = kill_line ?s" unfolding kill_line.simps [of s] using go by simp
    have b: "cons ?s = ?b\<lparr>ce := ce ?b - 1\<rparr>" by simp
    show ?thesis using 1(1) [OF go] edit_back [OF 1(2) False] unfolding k b by simp
  qed
qed

text \<open>What is claimed of one character.\<close>

definition edits :: "bool \<Rightarrow> u32 \<Rightarrow> 'a cons_st_scheme \<Rightarrow> bool" where
  "edits qemu c s \<longleftrightarrow> (\<exists>s'. consoleintr qemu c s = Inr s' \<and> typed (cons s') = edit qemu c (typed (cons s)) \<and> edit_ok (cons s')
    \<and> core s' = settle (core s) \<and> mem s' = mem s \<and> (procs s' = procs s \<or> procs s' = woken_tab ChCons (procs s)))"

text \<open>The handler runs under its lock.\<close>

lemma cons_lock: "running p s \<Longrightarrow> on_core (acquire ConsLock) s = Inr (s\<lparr>core := acq ConsLock (core s)\<rparr>)"
  by (intro lock_free runningD(2))

lemma cons_unlock:
  "running p s \<Longrightarrow> core t = acq ConsLock (core s) \<Longrightarrow> on_core (release ConsLock) t = Inr (t\<lparr>core := settle (core s)\<rparr>)"
  by (intro unlock_acq) (simp_all add: runningD)

lemma cons_length:
  assumes "edit_ok b"
  shows "length (cons_items b) = length (fst (typed b)) + length (snd (typed b))"
    and "ce b - cr b < INPUT_BUF \<longleftrightarrow> length (fst (typed b)) + length (snd (typed b)) < 128"
proof -
  show len: "length (cons_items b) = length (fst (typed b)) + length (snd (typed b))"
    using typed_split(2) [of b] assms by (simp add: edit_ok_def)
  then show "ce b - cr b < INPUT_BUF \<longleftrightarrow> length (fst (typed b)) + length (snd (typed b)) < 128"
    by (simp add: cons_items_def INPUT_BUF_def word_less_nat_alt)
qed

lemma edits_kill:
  assumes "running p s" and "edit_ok (cons s)"
  shows "edits qemu 0x15 s"
proof -
  let ?s = "s\<lparr>core := acq ConsLock (core s)\<rparr>"
  have "edit_ok (cons ?s)" using assms(2) by simp
  note k = kill_line_ok [OF this]
  have "consoleintr qemu 0x15 s = Inr ((kill_line ?s)\<lparr>core := settle (core s)\<rparr>)"
    using k cons_unlock [OF assms(1), of "kill_line ?s"] cons_lock [OF assms(1)] by (simp add: consoleintr_def)
  then show ?thesis using k by (simp add: edits_def edit_def split: prod.splits)
qed

lemma edits_erase:
  assumes "running p s" and "edit_ok (cons s)" and "c = 8 \<or> c = 0x7f"
  shows "edits qemu c s"
proof -
  let ?s = "s\<lparr>core := acq ConsLock (core s)\<rparr>" and ?b = "cons s"
  have c: "c \<noteq> 0x10" "c \<noteq> 0x15" using assms(3) by auto
  show ?thesis
  proof (cases "ce ?b = cw ?b")
    case True
    then have "snd (typed ?b) = []" by (simp add: typed_def ring_items_def)
    moreover have "consoleintr qemu c s = Inr (?s\<lparr>core := settle (core s)\<rparr>)"
      using assms(3) c True cons_unlock [OF assms(1), of ?s] cons_lock [OF assms(1)] by (simp add: consoleintr_def)
    ultimately show ?thesis using assms(2,3) c by (auto simp: edits_def edit_def split: prod.splits)
  next
    case False
    let ?t = "consputc BACKSPACE (upd_cons (\<lambda>b. b\<lparr>ce := ce b - 1\<rparr>) ?s)"
    have "consoleintr qemu c s = Inr (?t\<lparr>core := settle (core s)\<rparr>)"
      using assms(3) c False cons_unlock [OF assms(1), of ?t] cons_lock [OF assms(1)] by (simp add: consoleintr_def)
    then show ?thesis
      using assms(3) c edit_back [OF assms(2) False] by (simp add: edits_def edit_def split: prod.splits)
  qed
qed

lemma edits_ignore:
  assumes "running p s" and "edit_ok (cons s)" and "c \<noteq> 0x10" and "c \<noteq> 0x15" and "\<not> (c = 8 \<or> c = 0x7f)"
    and "\<not> (c \<noteq> 0 \<and> length (fst (typed (cons s))) + length (snd (typed (cons s))) < 128 \<and> (qemu \<or> c \<noteq> 13))"
  shows "edits qemu c s"
proof -
  let ?s = "s\<lparr>core := acq ConsLock (core s)\<rparr>"
  have "consoleintr qemu c s = Inr (?s\<lparr>core := settle (core s)\<rparr>)"
    using assms(3-6) cons_unlock [OF assms(1), of ?s] cons_lock [OF assms(1)] cons_length(2) [OF assms(2)]
    by (auto simp: consoleintr_def)
  moreover have "edit qemu c (typed (cons s)) = typed (cons s)"
    using assms(4-6) by (auto simp: edit_def split: prod.splits)
  ultimately show ?thesis using assms(2) by (simp add: edits_def)
qed

text \<open>A character that is appended, on the buffer: whether it ends the line, and what the editor says.\<close>

lemma edit_add:
  fixes c :: u32
  assumes "edit_ok b" and "length (cons_items b) < 128" and "c < 256" and "c \<noteq> 0x15" and "\<not> (c = 8 \<or> c = 0x7f)" and "c \<noteq> 0"
    and "qemu \<or> c \<noteq> 13"
  defines "d \<equiv> if c = 13 then 10 else c"
  defines "b1 \<equiv> cons_put (ucast d) b"
  shows "if d = 10 \<or> d = 4 \<or> ce b1 = cr b1 + INPUT_BUF
         then typed (b1\<lparr>cw := ce b1\<rparr>) = edit qemu c (typed b) \<and> edit_ok (b1\<lparr>cw := ce b1\<rparr>)
         else typed b1 = edit qemu c (typed b) \<and> edit_ok b1"
proof -
  obtain ready line where t: "typed b = (ready, line)" by (cases "typed b")
  have len: "length ready + length line < 128" using cons_length(1) [OF assms(1)] assms(2) t by simp
  note put = edit_put [OF assms(1,2), of "ucast d", folded b1_def, unfolded t fst_conv snd_conv]
  have "length (cons_items b1) = Suc (length ready + length line)" using typed_split(2) [OF put(2)] put(1) by simp
  then have full: "ce b1 = cr b1 + INPUT_BUF \<longleftrightarrow> Suc (length ready + length line) = 128"
    unfolding word_diff_eq_iff [symmetric] by (simp add: cons_items_def INPUT_BUF_def word_unat_eq_iff)
  have e: "edit qemu c (typed b) =
      (if d = 10 \<or> d = 4 \<or> Suc (length ready + length line) = 128 then (ready @ line @ [ucast d], []) else (ready, line @ [ucast d]))"
    using assms(4-7) len t unfolding edit_def d_def by (simp add: Let_def)
  have "edit_ok b1" if "d \<noteq> 10"
  proof -
    have "unat d < 256" using assms(3) unfolding d_def by (simp add: word_less_nat_alt)
    then have "unat (ucast d :: u8) = unat d" by (simp add: unsigned_ucast_eq take_bit_nat_eq_self_iff)
    moreover have "unat d \<noteq> 10" using that by (simp add: word_unat_eq_iff)
    ultimately have "(ucast d :: u8) \<noteq> 10" by (auto simp: word_unat_eq_iff)
    then show ?thesis using assms(1) put t by (simp add: edit_ok_def)
  qed
  then show ?thesis using edit_commit [OF put(3,2)] put(1) unfolding e full by auto
qed

lemma edits_add:
  assumes "running p s" and "edit_ok (cons s)" and "c < 256" and "c \<noteq> 0x10" and "c \<noteq> 0x15" and "\<not> (c = 8 \<or> c = 0x7f)" and "c \<noteq> 0"
    and "length (fst (typed (cons s))) + length (snd (typed (cons s))) < 128" and "qemu \<or> c \<noteq> 13"
  shows "edits qemu c s"
proof -
  let ?s = "s\<lparr>core := acq ConsLock (core s)\<rparr>" and ?d = "if c = 13 then 10 else c"
  let ?b1 = "cons_put (ucast ?d) (cons s)" and ?t = "upd_cons (cons_put (ucast ?d)) (consputc ?d ?s)"
  note len = cons_length [OF assms(2)]
  have "length (cons_items (cons s)) < 128" using len(1) assms(8) by simp
  note add = edit_add [OF assms(2) this assms(3,5-7,9)]
  have step: "consoleintr qemu c s = kbind (if ?d = 10 \<or> ?d = 4 \<or> ce ?b1 = cr ?b1 + INPUT_BUF
      then wakeup ChCons (upd_cons (\<lambda>b. b\<lparr>cw := ce b\<rparr>) ?t) else Inr ?t) (on_core (release ConsLock))"
    using assms(4-9) cons_lock [OF assms(1)] len(2) by (auto simp: consoleintr_def Let_def cons_put_def [abs_def])
  show ?thesis
  proof (cases "?d = 10 \<or> ?d = 4 \<or> ce ?b1 = cr ?b1 + INPUT_BUF")
    case True
    let ?u = "upd_cons (\<lambda>b. b\<lparr>cw := ce b\<rparr>) ?t"
    note r = runningD [OF assms(1)]
    have "wakeup ChCons ?u = Inr (wake ChCons (?u\<lparr>core := settle (core ?u)\<rparr>))" using r by (intro wakeup_eq) simp_all
    moreover have "?u\<lparr>core := settle (core ?u)\<rparr> = ?u" using r by simp
    ultimately have "consoleintr qemu c s = Inr ((wake ChCons ?u)\<lparr>core := settle (core s)\<rparr>)"
      using step True cons_unlock [OF assms(1), of "wake ChCons ?u"] by simp
    then show ?thesis using add True by (simp add: edits_def wake_def)
  next
    case False
    have "consoleintr qemu c s = Inr (?t\<lparr>core := settle (core s)\<rparr>)"
      using step False cons_unlock [OF assms(1), of ?t] by simp
    then show ?thesis using add False by (simp add: edits_def)
  qed
qed

text \<open>
  C25: For every character that is typed (but control-P, which prints the processes), the interrupt handler does to the text that can be read and to
  the line being typed what the editor does: erase, kill the line, ignore, append, or end the line. It keeps the buffer's invariant, and
  makes readers runnable only.
\<close>

theorem consoleintr_edits:
  assumes "running p s" and "edit_ok (cons s)" and "c < 256" and "c \<noteq> 0x10"
  shows "\<exists>s'. consoleintr qemu c s = Inr s' \<and> typed (cons s') = edit qemu c (typed (cons s)) \<and> edit_ok (cons s')
    \<and> core s' = settle (core s) \<and> mem s' = mem s \<and> (procs s' = procs s \<or> procs s' = woken_tab ChCons (procs s))"
proof -
  have "edits qemu c s" if "c \<noteq> 0x15" "\<not> (c = 8 \<or> c = 0x7f)"
    using edits_ignore [OF assms(1,2,4) that, of qemu] edits_add [OF assms that, of qemu] by satx
  then have "edits qemu c s"
    using edits_kill [OF assms(1,2), of qemu] edits_erase [OF assms(1,2), of c qemu] by (cases "c = 0x15") auto
  then show ?thesis by (simp add: edits_def)
qed

definition cons_demo :: cons_st where
  "cons_demo = fat_st.extend fat_demo
     \<lparr>cons = \<lparr>cbuf = (\<lambda>i. of_nat i + 65), cr = - 1, cw = 0, ce = 2\<rparr>, console_out = [], pr_locking = True\<rparr>"

lemma cons_demo_ok: "running 2 cons_demo" "edit_ok (cons cons_demo)" "typed (cons cons_demo) = ([192], [65, 66])"
proof -
  have "running 2 fat_demo" using fat_demo_ok by (simp add: fat_ok_def quiet_def cache_ok_def)
  then show "running 2 cons_demo" by (simp add: running_def cons_demo_def fat_st.defs)
  show t: "typed (cons cons_demo) = ([192], [65, 66])"
    by (simp add: typed_def cons_demo_def fat_st.defs ring_items_def upt_rec unat_minus_1)
  show "edit_ok (cons cons_demo)"
    using t by (simp add: edit_ok_def cons_valid_def) (simp add: cons_demo_def fat_st.defs)
qed

lemma consoleintr_edits_witness:
  "\<exists>s'. consoleintr False 8 cons_demo = Inr s' \<and> typed (cons s') = ([192], [65])"
  using consoleintr_edits [OF cons_demo_ok(1,2), of 8 False] cons_demo_ok(3) by (auto simp: edit_def)

end
