(* ===== verification/File.thy ===== *)
theory File imports Pipe begin

text \<open>
  kernel/file.c, \<open>pipealloc\<close> of kernel/pipe.c and \<open>consoleinit\<close> of kernel/console.c: the table of open files with its
  reference counts, and reading and writing through a file whatever is behind it.
\<close>

section \<open>State\<close>

datatype fdtype = FD_NONE | FD_PIPE | FD_ENTRY | FD_DEVICE

record open_file =
  ftype :: fdtype
  fref :: int
  readable :: bool
  writable :: bool
  fpipe :: u64
  fep :: "eptr option"
  foff :: u32
  fmajor :: int

text \<open>
  The device table: \<open>consoleread\<close> and \<open>consolewrite\<close> are the only functions that are ever put into it. \<open>stack_junk\<close> is
  what a routine's uninitialised local variables hold, about which nothing is known.
\<close>

datatype devread = Consoleread
datatype devwrite = Consolewrite

record file_st = pipe_st +
  ftable :: "nat \<Rightarrow> open_file"
  dread :: "int \<Rightarrow> devread option"
  dwrite :: "int \<Rightarrow> devwrite option"
  stack_junk :: "u8 list"

definition upd_file :: "nat \<Rightarrow> (open_file \<Rightarrow> open_file) \<Rightarrow> 'a file_st_scheme \<Rightarrow> 'a file_st_scheme" where
  "upd_file f g s = s\<lparr>ftable := (ftable s)(f := g (ftable s f))\<rparr>"

definition file0 :: open_file where
  "file0 = \<lparr>ftype = FD_NONE, fref = 0, readable = False, writable = False, fpipe = 0, fep = None, foff = 0, fmajor = 0\<rparr>"

definition CONSOLE :: int where "CONSOLE = 1"

definition consoleinit :: "'a file_st_scheme \<Rightarrow> 'a file_st_scheme" where
  "consoleinit s =
    (let s = s\<lparr>core := initlock ConsLock (core s)\<rparr>;
         s = upd_cons (\<lambda>b. b\<lparr>cr := 0, cw := 0, ce := 0\<rparr>) s
     in s\<lparr>dread := (dread s)(CONSOLE := Some Consoleread), dwrite := (dwrite s)(CONSOLE := Some Consolewrite)\<rparr>)"

section \<open>The file table\<close>

definition fileinit :: "'a file_st_scheme \<Rightarrow> 'a file_st_scheme" where
  "fileinit s =
    fold (\<lambda>f. upd_file f (\<lambda>_. file0)) [0..<NFILE] (s\<lparr>core := initlock FtableLock (core s)\<rparr>)"

definition filealloc :: "'a file_st_scheme \<Rightarrow> (nat option \<times> 'a file_st_scheme) kres" where
  "filealloc s =
    kbind (lock FtableLock s) (\<lambda>s.
      case find (\<lambda>f. fref (ftable s f) = 0) [0..<NFILE] of
        Some f \<Rightarrow>
          kbind (unlock FtableLock (upd_file f (\<lambda>x. x\<lparr>fref := 1\<rparr>) s)) (\<lambda>s. Inr (Some f, s))
      | None \<Rightarrow> kbind (unlock FtableLock s) (\<lambda>s. Inr (None, s)))"

definition filedup :: "nat \<Rightarrow> 'a file_st_scheme \<Rightarrow> (nat \<times> 'a file_st_scheme) kres" where
  "filedup f s =
    kbind (lock FtableLock s) (\<lambda>s.
      if fref (ftable s f) < 1 then Inl (Panic ''filedup'')
      else kbind (unlock FtableLock (upd_file f (\<lambda>x. x\<lparr>fref := fref x + 1\<rparr>) s)) (\<lambda>s. Inr (f, s)))"

definition fileclose :: "nat \<Rightarrow> 'a file_st_scheme \<Rightarrow> 'a file_st_scheme kres" where
  "fileclose f s =
    kbind (lock FtableLock s) (\<lambda>s.
      if fref (ftable s f) < 1 then Inl (Panic ''fileclose'')
      else
        let s = upd_file f (\<lambda>x. x\<lparr>fref := fref x - 1\<rparr>) s in
        if fref (ftable s f) > 0 then unlock FtableLock s
        else
          let ff = ftable s f;
              s = upd_file f (\<lambda>x. x\<lparr>fref := 0, ftype := FD_NONE\<rparr>) s
          in kbind (unlock FtableLock s) (\<lambda>s.
               case ftype ff of
                 FD_PIPE \<Rightarrow> pipeclose (fpipe ff) (writable ff) s
               | FD_ENTRY \<Rightarrow> eput (fep ff) s
               | _ \<Rightarrow> Inr s))"

section \<open>Status, reading and writing\<close>

definition le64 :: "u64 \<Rightarrow> u8 list" where
  "le64 w = le32 (ucast w) @ le32 (ucast (drop_bit 32 w))"

text \<open>
  The 56 bytes of \<open>struct stat\<close>: the name at 0, then \<open>dev\<close> at 36, \<open>type\<close> at 40 and \<open>size\<close> at 48. The bytes between are
  what the stack held.
\<close>

definition stat_bytes :: "u8 list \<Rightarrow> stat \<Rightarrow> u8 list" where
  "stat_bytes junk st =
    splice 48 (le64 (st_size st)) (splice 40 (le16 (of_int (st_type st)))
      (splice 36 (le32 (of_int (st_dev st))) (splice 0 (st_name st) (take 56 junk))))"

definition junk_stat :: "u8 list \<Rightarrow> stat" where
  "junk_stat junk = \<lparr>st_name = take 33 junk, st_dev = 0, st_type = 0, st_size = 0\<rparr>"

definition copyout_stat :: "u64 \<Rightarrow> eptr \<Rightarrow> 'a file_st_scheme \<Rightarrow> (int \<times> 'a file_st_scheme) kres" where
  "copyout_stat addr e s =
    (let st = estat e (junk_stat (stack_junk s)) s
     in copyout2 addr (\<lambda>i. stat_bytes (stack_junk s) st ! i) 56 s)"

definition filestat :: "nat \<Rightarrow> u64 \<Rightarrow> 'a file_st_scheme \<Rightarrow> (int \<times> 'a file_st_scheme) kres" where
  "filestat f addr s =
    (if ftype (ftable s f) = FD_ENTRY then
       let ep = fep (ftable s f) in
       kbind (elock ep s) (\<lambda>s.
         let st = estat (the ep) (junk_stat (stack_junk s)) s in
         kbind (eunlock ep s) (\<lambda>s.
         kbind (copyout2 addr (\<lambda>i. stat_bytes (stack_junk s) st ! i) 56 s) (\<lambda>(e, s).
           Inr (if e < 0 then - 1 else 0, s))))
     else Inr (- 1, s))"

text \<open>\<open>int n\<close> becomes the \<open>uint\<close> argument of \<open>eread\<close> and \<open>ewrite\<close>, and their \<open>uint\<close> results an \<open>int\<close>.\<close>

definition fileread :: "nat \<Rightarrow> u64 \<Rightarrow> int \<Rightarrow> 'a file_st_scheme \<Rightarrow> (int \<times> 'a file_st_scheme) kres" where
  "fileread f addr n s =
    (if \<not> readable (ftable s f) then Inr (- 1, s)
     else case ftype (ftable s f) of
       FD_PIPE \<Rightarrow> piperead (fpipe (ftable s f)) addr n s
     | FD_DEVICE \<Rightarrow>
         let major = fmajor (ftable s f) in
         if major < 0 \<or> major \<ge> int NDEV then Inr (- 1, s)
         else (case dread s major of
                 None \<Rightarrow> Inr (- 1, s)
               | Some Consoleread \<Rightarrow> consoleread True addr n s)
     | FD_ENTRY \<Rightarrow>
         let ep = fep (ftable s f) in
         kbind (elock ep s) (\<lambda>s.
         kbind (eread (the ep) (UserAddr addr) (foff (ftable s f)) (of_int n) s) (\<lambda>(r, _, s).
           let s = (if sint r > 0 then upd_file f (\<lambda>x. x\<lparr>foff := foff x + r\<rparr>) s else s)
           in kbind (eunlock ep s) (\<lambda>s. Inr (sint r, s))))
     | FD_NONE \<Rightarrow> Inl (Panic ''fileread''))"

definition filewrite :: "nat \<Rightarrow> u64 \<Rightarrow> int \<Rightarrow> 'a file_st_scheme \<Rightarrow> (int \<times> 'a file_st_scheme) kres" where
  "filewrite f addr n s =
    (if \<not> writable (ftable s f) then Inr (- 1, s)
     else case ftype (ftable s f) of
       FD_PIPE \<Rightarrow> pipewrite (fpipe (ftable s f)) addr n s
     | FD_DEVICE \<Rightarrow>
         let major = fmajor (ftable s f) in
         if major < 0 \<or> major \<ge> int NDEV then Inr (- 1, s)
         else (case dwrite s major of
                 None \<Rightarrow> Inr (- 1, s)
               | Some Consolewrite \<Rightarrow> consolewrite True addr n s)
     | FD_ENTRY \<Rightarrow>
         let ep = fep (ftable s f) in
         kbind (elock ep s) (\<lambda>s.
         kbind (ewrite (the ep) (UserAddr addr) (foff (ftable s f)) (of_int n) s) (\<lambda>(r, s).
           let ret = (if r = n then n else - 1);
               s = (if r = n then upd_file f (\<lambda>x. x\<lparr>foff := foff x + of_int n\<rparr>) s else s)
           in kbind (eunlock ep s) (\<lambda>s. Inr (ret, s))))
     | FD_NONE \<Rightarrow> Inl (Panic ''filewrite''))"

section \<open>Directories\<close>

text \<open>
  A routine that has a \<open>struct dirent\<close> of its own on the stack uses the entry \<open>stack_ent\<close>, which is not in the cache. Its
  fields are what the stack held.
\<close>

definition stack_ent :: eptr where "stack_ent = Ent ENTRY_CACHE_NUM"

text \<open>The loop that skips empty slots; the offset moves with it.\<close>

primrec dirnext_loop :: "nat \<Rightarrow> nat \<Rightarrow> eptr \<Rightarrow> nat \<Rightarrow> 'a file_st_scheme \<Rightarrow> (int \<times> nat \<times> 'a file_st_scheme) kres" where
  "dirnext_loop 0 f ep count s = Inl Deep"
| "dirnext_loop (Suc fuel) f ep count s =
    kbind (enext ep stack_ent (foff (ftable s f)) count s) (\<lambda>(ret, count, s).
      if ret = 0 then
        dirnext_loop fuel f ep count (upd_file f (\<lambda>x. x\<lparr>foff := foff x + of_nat (count * 32)\<rparr>) s)
      else Inr (ret, count, s))"

definition dirnext :: "nat \<Rightarrow> u64 \<Rightarrow> 'a file_st_scheme \<Rightarrow> (int \<times> 'a file_st_scheme) kres" where
  "dirnext f addr s =
    (if \<not> readable (ftable s f) then Inr (- 1, s)
     else case fep (ftable s f) of
       None \<Rightarrow> Inl Wild
     | Some ep \<Rightarrow>
         if attribute (dirents s ep) AND ATTR_DIRECTORY = 0 then Inr (- 1, s)
         else
           kbind (elock (Some ep) s) (\<lambda>s.
           kbind (dirnext_loop (Suc DIR_ENTRIES) f ep 0 s) (\<lambda>(ret, count, s).
           kbind (eunlock (Some ep) s) (\<lambda>s.
             if ret = - 1 then Inr (0, s)
             else
               let s = upd_file f (\<lambda>x. x\<lparr>foff := foff x + of_nat (count * 32)\<rparr>) s in
               kbind (copyout_stat addr stack_ent s) (\<lambda>(e, s). Inr (if e < 0 then - 1 else 1, s))))))"

section \<open>Making a pipe\<close>

definition close_opt :: "nat option \<Rightarrow> 'a file_st_scheme \<Rightarrow> 'a file_st_scheme kres" where
  "close_opt f s = (case f of None \<Rightarrow> Inr s | Some f \<Rightarrow> fileclose f s)"

text \<open>\<open>Some (f0, f1)\<close> on success. At the label \<open>bad\<close> there is no page to free.\<close>

definition pipealloc :: "'a file_st_scheme \<Rightarrow> ((nat \<times> nat) option \<times> 'a file_st_scheme) kres" where
  "pipealloc s =
    (let bad = (\<lambda>f0 f1 s. kbind (close_opt f0 s) (\<lambda>s. kbind (close_opt f1 s) (\<lambda>s. Inr (None, s)))) in
     kbind (filealloc s) (\<lambda>(f0, s).
       case f0 of None \<Rightarrow> bad None None s
       | Some f0 \<Rightarrow>
         kbind (filealloc s) (\<lambda>(f1, s).
           case f1 of None \<Rightarrow> bad (Some f0) None s
           | Some f1 \<Rightarrow>
             kbind (kalloc s) (\<lambda>(pi, s).
               if pi = 0 then bad (Some f0) (Some f1) s
               else
                 let s = upd_pipe pi (\<lambda>q. q\<lparr>readopen := True, writeopen := True, nwrite := 0, nread := 0\<rparr>) s;
                     s = s\<lparr>core := initlock (PipeLock pi) (core s)\<rparr>;
                     s = upd_file f0 (\<lambda>x. x\<lparr>ftype := FD_PIPE, readable := True, writable := False, fpipe := pi\<rparr>) s;
                     s = upd_file f1 (\<lambda>x. x\<lparr>ftype := FD_PIPE, readable := False, writable := True, fpipe := pi\<rparr>) s
                 in Inr (Some (f0, f1), s)))))"

end
