(* ===== verification/ProcLife.thy ===== *)
theory ProcLife imports File begin

text \<open>
  kernel/proc.c, second part: the life of a process. Making one with its two page tables and its trapframe, growing it,
  \<open>fork\<close>, \<open>exit\<close> and \<open>wait\<close>, and freeing it.
\<close>

section \<open>State\<close>

text \<open>
  \<open>initcode\<close> and \<open>forkret_addr\<close> are the addresses of the array \<open>initcode\<close> and of \<open>forkret\<close>; \<open>first\<close> is the static variable of
  \<open>forkret\<close>.
\<close>

record life_st = file_st +
  initcode :: u64
  forkret_addr :: u64
  first :: bool

text \<open>The fields of \<open>struct trapframe\<close> (libs/trap.h) that the kernel uses, by their offset in the trapframe page.\<close>

definition TF_kernel_satp :: u64 where "TF_kernel_satp = 0"
definition TF_kernel_sp :: u64 where "TF_kernel_sp = 8"
definition TF_kernel_trap :: u64 where "TF_kernel_trap = 16"
definition TF_epc :: u64 where "TF_epc = 24"
definition TF_kernel_hartid :: u64 where "TF_kernel_hartid = 32"
definition TF_sp :: u64 where "TF_sp = 48"
definition TF_a0 :: u64 where "TF_a0 = 112"
definition TF_a1 :: u64 where "TF_a1 = 120"
definition TF_a7 :: u64 where "TF_a7 = 168"

definition tf_set :: "nat \<Rightarrow> u64 \<Rightarrow> u64 \<Rightarrow> 'a proc_st_scheme \<Rightarrow> 'a proc_st_scheme" where
  "tf_set p off v s = s\<lparr>mem := store64 (trapframe (procs s p) + off) v (mem s)\<rparr>"

definition tf_get :: "nat \<Rightarrow> u64 \<Rightarrow> 'a proc_st_scheme \<Rightarrow> u64" where
  "tf_get p off s = load64 (mem s) (trapframe (procs s p) + off)"

text \<open>
  \<open>safestrcpy\<close> into an array: at most \<open>n - 1\<close> characters; the loop steps over the NUL that it copies before it stores
  the last one.
\<close>

definition str_safecpy :: "nat \<Rightarrow> u8 list \<Rightarrow> u8 list \<Rightarrow> u8 list" where
  "str_safecpy n src dst =
    (let t = take (n - 1) (cstr src);
         w = (if length (cstr src) < n - 1 then t @ [0, 0] else t @ [0])
     in w @ drop (length w) dst)"

section \<open>Page tables of a process\<close>

definition proc_pagetable :: "nat \<Rightarrow> 'a proc_st_scheme \<Rightarrow> (u64 \<times> 'a proc_st_scheme) kres" where
  "proc_pagetable p s =
    kbind (uvmcreate s) (\<lambda>(pt, s).
      if pt = 0 then Inr (0, s)
      else
        kbind (mappages pt TRAMPOLINE PGSIZE (trampoline s) (PTE_R OR PTE_X) s) (\<lambda>(r, s).
          if r < 0 then kbind (uvmfree pt 0 s) (\<lambda>s. Inr (0, s))
          else
            kbind (mappages pt TRAPFRAME PGSIZE (trapframe (procs s p)) (PTE_R OR PTE_W) s) (\<lambda>(r, s).
              if r < 0 then
                kbind (vmunmap pt TRAMPOLINE 1 False s) (\<lambda>s. kbind (uvmfree pt 0 s) (\<lambda>s. Inr (0, s)))
              else Inr (pt, s))))"

definition proc_freepagetable :: "u64 \<Rightarrow> u64 \<Rightarrow> 'a proc_st_scheme \<Rightarrow> 'a proc_st_scheme kres" where
  "proc_freepagetable pt sz s =
    kbind (vmunmap pt TRAMPOLINE 1 False s) (\<lambda>s.
    kbind (vmunmap pt TRAPFRAME 1 False s) (uvmfree pt sz))"

section \<open>Making and freeing processes\<close>

definition proc_unused :: "proc \<Rightarrow> proc" where
  "proc_unused q = q\<lparr>pagetable := 0, psz := 0, pid := 0, parent := None, pname := (pname q)[0 := 0], pchan := ChNone,
     killed := False, xstate := 0, pstate := UNUSED\<rparr>"

definition freeproc :: "nat \<Rightarrow> 'a proc_st_scheme \<Rightarrow> 'a proc_st_scheme kres" where
  "freeproc p s =
    kbind (if trapframe (procs s p) \<noteq> 0 then kfree (trapframe (procs s p)) s else Inr s) (\<lambda>s.
      let s = upd_proc p (\<lambda>q. q\<lparr>trapframe := 0\<rparr>) s in
      kbind (if kpagetable (procs s p) \<noteq> 0 then kvmfree (kpagetable (procs s p)) True s else Inr s) (\<lambda>s.
        let s = upd_proc p (\<lambda>q. q\<lparr>kpagetable := 0\<rparr>) s in
        kbind (if pagetable (procs s p) \<noteq> 0 then proc_freepagetable (pagetable (procs s p)) (psz (procs s p)) s
               else Inr s) (\<lambda>s. Inr (upd_proc p proc_unused s))))"

primrec alloc_scan :: "nat list \<Rightarrow> 'a proc_st_scheme \<Rightarrow> (nat option \<times> 'a proc_st_scheme) kres" where
  "alloc_scan [] s = Inr (None, s)"
| "alloc_scan (i # is) s =
    kbind (lock (ProcLock i) s) (\<lambda>s.
      if pstate (procs s i) = UNUSED then Inr (Some i, s)
      else kbind (unlock (ProcLock i) s) (alloc_scan is))"

text \<open>The part of \<open>allocproc\<close> from the label \<open>found\<close> on.\<close>

definition alloc_found :: "nat \<Rightarrow> 'a life_st_scheme \<Rightarrow> (nat option \<times> 'a life_st_scheme) kres" where
  "alloc_found p s =
    kbind (allocpid s) (\<lambda>(n, s).
    kbind (kalloc (upd_proc p (\<lambda>q. q\<lparr>pid := n\<rparr>) s)) (\<lambda>(tf, s).
      let s = upd_proc p (\<lambda>q. q\<lparr>trapframe := tf\<rparr>) s;
          fail = (\<lambda>s. kbind (freeproc p s) (\<lambda>s. kbind (unlock (ProcLock p) s) (\<lambda>s. Inr (None, s))))
      in if tf = 0 then kbind (unlock (ProcLock p) s) (\<lambda>s. Inr (None, s))
         else
           kbind (proc_pagetable p s) (\<lambda>(pt, s).
             let s = upd_proc p (\<lambda>q. q\<lparr>pagetable := pt\<rparr>) s in
             if pt = 0 then fail s
             else
               kbind (proc_kpagetable s) (\<lambda>(kpt, s).
                 let s = upd_proc p (\<lambda>q. q\<lparr>kpagetable := kpt\<rparr>) s in
                 if kpt = 0 then fail s
                 else
                   Inr (Some p, upd_proc p (\<lambda>q. q\<lparr>kstack := VKSTACK,
                     pcontext := \<lparr>ctx_ra = forkret_addr s, ctx_sp = VKSTACK + PGSIZE\<rparr>\<rparr>) s)))))"

definition allocproc :: "'a life_st_scheme \<Rightarrow> (nat option \<times> 'a life_st_scheme) kres" where
  "allocproc s =
    kbind (alloc_scan [0..<NPROC] s) (\<lambda>(r, s).
      case r of None \<Rightarrow> Inr (None, s) | Some p \<Rightarrow> alloc_found p s)"

definition INITCODE_SIZE :: u32 where "INITCODE_SIZE = 52"

definition userinit :: "'a life_st_scheme \<Rightarrow> 'a life_st_scheme kres" where
  "userinit s =
    kbind (allocproc s) (\<lambda>(p, s).
      let s = s\<lparr>initproc := p\<rparr> in
      case p of
        None \<Rightarrow> Inl Wild
      | Some p \<Rightarrow>
          kbind (uvminit (pagetable (procs s p)) (kpagetable (procs s p)) (initcode s) INITCODE_SIZE s) (\<lambda>s.
            let s = upd_proc p (\<lambda>q. q\<lparr>psz := PGSIZE\<rparr>) s;
                s = tf_set p TF_epc 0 s;
                s = tf_set p TF_sp PGSIZE s;
                s = upd_proc p (\<lambda>q. q\<lparr>pname := str_safecpy 16 (ascii ''initcode'') (pname q),
                      pstate := RUNNABLE, tmask := 0\<rparr>) s
            in unlock (ProcLock p) s))"

text \<open>\<open>sz\<close> is a \<open>uint\<close>, so the sizes are computed modulo \<open>2 ^ 32\<close>.\<close>

definition growproc :: "u32 \<Rightarrow> 'a proc_st_scheme \<Rightarrow> (int \<times> 'a proc_st_scheme) kres" where
  "growproc n s =
    kbind (curproc s) (\<lambda>(p, s).
      let sz = (ucast (psz (procs s p)) :: u32);
          pt = pagetable (procs s p); kpt = kpagetable (procs s p)
      in if sint n > 0 then
           kbind (uvmalloc pt kpt (ucast sz) (ucast (sz + n)) s) (\<lambda>(r, s).
             let sz = (ucast r :: u32) in
             if sz = 0 then Inr (- 1, s) else Inr (0, upd_proc p (\<lambda>q. q\<lparr>psz := ucast sz\<rparr>) s))
         else if sint n < 0 then
           kbind (uvmdealloc pt kpt (ucast sz) (ucast (sz + n)) s) (\<lambda>(r, s).
             Inr (0, upd_proc p (\<lambda>q. q\<lparr>psz := ucast (ucast r :: u32)\<rparr>) s))
         else Inr (0, upd_proc p (\<lambda>q. q\<lparr>psz := ucast sz\<rparr>) s))"

section \<open>fork\<close>

primrec dup_files :: "nat list \<Rightarrow> nat \<Rightarrow> nat \<Rightarrow> 'a file_st_scheme \<Rightarrow> 'a file_st_scheme kres" where
  "dup_files [] p np s = Inr s"
| "dup_files (fd # fds) p np s =
    (case ofile (procs s p) fd of
       None \<Rightarrow> dup_files fds p np s
     | Some f \<Rightarrow>
         kbind (filedup f s) (\<lambda>(f, s).
           dup_files fds p np (upd_proc np (\<lambda>q. q\<lparr>ofile := (ofile q)(fd := Some f)\<rparr>) s)))"

definition fork :: "'a life_st_scheme \<Rightarrow> (int \<times> 'a life_st_scheme) kres" where
  "fork s =
    kbind (curproc s) (\<lambda>(p, s).
    kbind (allocproc s) (\<lambda>(np, s).
      case np of
        None \<Rightarrow> Inr (- 1, s)
      | Some np \<Rightarrow>
          kbind (uvmcopy (pagetable (procs s p)) (pagetable (procs s np)) (kpagetable (procs s np)) (psz (procs s p)) s) (\<lambda>(r, s).
            if r < 0 then
              kbind (freeproc np s) (\<lambda>s. kbind (unlock (ProcLock np) s) (\<lambda>s. Inr (- 1, s)))
            else
              let s = upd_proc np (\<lambda>q. q\<lparr>psz := psz (procs s p), parent := Some p, tmask := tmask (procs s p)\<rparr>) s;
                  s = s\<lparr>mem := memmove (mem s) (trapframe (procs s np)) (trapframe (procs s p)) 288\<rparr>;
                  s = tf_set np TF_a0 0 s
              in kbind (dup_files [0..<NOFILE] p np s) (\<lambda>s.
                 kbind (edup (cwd (procs s p)) s) (\<lambda>(c, s).
                   let s = upd_proc np (\<lambda>q. q\<lparr>cwd := c, pname := str_safecpy 16 (pname (procs s p)) (pname q)\<rparr>) s;
                       n = pid (procs s np);
                       s = upd_proc np (\<lambda>q. q\<lparr>pstate := RUNNABLE\<rparr>) s
                   in kbind (unlock (ProcLock np) s) (\<lambda>s. Inr (n, s)))))))"

section \<open>exit and wait\<close>

primrec reparent_loop :: "nat list \<Rightarrow> nat \<Rightarrow> 'a proc_st_scheme \<Rightarrow> 'a proc_st_scheme kres" where
  "reparent_loop [] p s = Inr s"
| "reparent_loop (i # is) p s =
    (if parent (procs s i) = Some p then
       kbind (lock (ProcLock i) s) (\<lambda>s.
       kbind (unlock (ProcLock i) (upd_proc i (\<lambda>q. q\<lparr>parent := initproc s\<rparr>) s)) (reparent_loop is p))
     else reparent_loop is p s)"

definition reparent :: "nat \<Rightarrow> 'a proc_st_scheme \<Rightarrow> 'a proc_st_scheme kres" where
  "reparent p s = reparent_loop [0..<NPROC] p s"

primrec close_files :: "nat list \<Rightarrow> nat \<Rightarrow> 'a file_st_scheme \<Rightarrow> 'a file_st_scheme kres" where
  "close_files [] p s = Inr s"
| "close_files (fd # fds) p s =
    (case ofile (procs s p) fd of
       None \<Rightarrow> close_files fds p s
     | Some f \<Rightarrow>
         kbind (fileclose f s) (\<lambda>s.
           close_files fds p (upd_proc p (\<lambda>q. q\<lparr>ofile := (ofile q)(fd := None)\<rparr>) s)))"

text \<open>The last part of \<open>exit\<close>, from \<open>reparent\<close> on, with the locks of the parent and of the process held, up to the switch.\<close>

definition exit_last :: "nat \<Rightarrow> nat \<Rightarrow> int \<Rightarrow> 'a proc_st_scheme \<Rightarrow> (bool \<times> 'a proc_st_scheme) kres" where
  "exit_last p par status s =
    kbind (reparent p s) (\<lambda>s.
    kbind (wakeup1 par s) (\<lambda>s.
    kbind (unlock (ProcLock par) (upd_proc p (\<lambda>q. q\<lparr>xstate := status, pstate := ZOMBIE\<rparr>) s)) sched))"

text \<open>\<open>exit\<close> up to the switch, from which it never comes back.\<close>

definition exit :: "int \<Rightarrow> 'a file_st_scheme \<Rightarrow> (bool \<times> 'a file_st_scheme) kres" where
  "exit status s =
    kbind (curproc s) (\<lambda>(p, s).
      if Some p = initproc s then Inl (Panic ''init exiting'')
      else
        kbind (close_files [0..<NOFILE] p s) (\<lambda>s.
        kbind (eput (cwd (procs s p)) s) (\<lambda>s.
          let s = upd_proc p (\<lambda>q. q\<lparr>cwd := None\<rparr>) s in
          case initproc s of
            None \<Rightarrow> Inl Wild
          | Some ip \<Rightarrow>
              kbind (lock (ProcLock ip) s) (\<lambda>s.
              kbind (wakeup1 ip s) (\<lambda>s.
              kbind (unlock (ProcLock ip) s) (\<lambda>s.
              kbind (lock (ProcLock p) s) (\<lambda>s.
                let par = parent (procs s p) in
                kbind (unlock (ProcLock p) s) (\<lambda>s.
                  case par of
                    None \<Rightarrow> Inl Wild
                  | Some par \<Rightarrow>
                      kbind (lock (ProcLock par) s) (\<lambda>s.
                      kbind (lock (ProcLock p) s) (exit_last p par status))))))))))"

text \<open>
  One scan of \<open>wait\<close> over the table: the result it returns, with both locks released, or whether there is a child.
\<close>

primrec wait_scan :: "nat list \<Rightarrow> nat \<Rightarrow> u64 \<Rightarrow> bool \<Rightarrow> 'a proc_st_scheme \<Rightarrow> ((int + bool) \<times> 'a proc_st_scheme) kres" where
  "wait_scan [] p addr havekids s = Inr (Inr havekids, s)"
| "wait_scan (i # is) p addr havekids s =
    (if parent (procs s i) = Some p then
       kbind (lock (ProcLock i) s) (\<lambda>s.
         if pstate (procs s i) = ZOMBIE then
           let n = pid (procs s i);
               bs = le32 (of_int (xstate (procs s i)));
               leave = (\<lambda>r s. kbind (unlock (ProcLock i) s) (\<lambda>s. kbind (unlock (ProcLock p) s) (\<lambda>s. Inr (Inl r, s))))
           in kbind (if addr \<noteq> 0 then copyout2 addr (\<lambda>j. bs ! j) 4 s else Inr (0, s)) (\<lambda>(e, s).
                if e < 0 then leave (- 1) s
                else kbind (freeproc i s) (leave n))
         else kbind (unlock (ProcLock i) s) (wait_scan is p addr True))
     else wait_scan is p addr havekids s)"

definition wait_turn :: "nat \<Rightarrow> u64 \<Rightarrow> 'a proc_st_scheme \<Rightarrow> ((bool, int) outcome \<times> 'a proc_st_scheme) kres" where
  "wait_turn p addr s =
    kbind (wait_scan [0..<NPROC] p addr False s) (\<lambda>(r, s).
      case r of
        Inl n \<Rightarrow> Inr (Finished n, s)
      | Inr havekids \<Rightarrow>
          if \<not> havekids \<or> killed (procs s p)
          then kbind (unlock (ProcLock p) s) (\<lambda>s. Inr (Finished (- 1), s))
          else kbind (sleep_enter (ChProc p) (ProcLock p) s) (\<lambda>(ie, s). Inr (Waiting ie, s)))"

definition wait_run :: "u64 \<Rightarrow> 'a proc_st_scheme \<Rightarrow> ((bool, int) outcome \<times> 'a proc_st_scheme) kres" where
  "wait_run addr s =
    kbind (curproc s) (\<lambda>(p, s). kbind (lock (ProcLock p) s) (wait_turn p addr))"

definition wait_wake :: "nat \<Rightarrow> bool \<Rightarrow> u64 \<Rightarrow> 'a proc_st_scheme \<Rightarrow> ((bool, int) outcome \<times> 'a proc_st_scheme) kres" where
  "wait_wake p ie addr s = kbind (sleep_leave p ie (ProcLock p) s) (wait_turn p addr)"

definition wait :: "u64 \<Rightarrow> 'a proc_st_scheme \<Rightarrow> (int \<times> 'a proc_st_scheme) kres" where
  "wait addr s = kbind (curproc s) (\<lambda>(p, s). no_wait (ChProc p) (wait_run addr s))"

section \<open>The first run of a process\<close>

text \<open>\<open>forkret\<close> up to \<open>usertrapret\<close>.\<close>

definition forkret :: "'a life_st_scheme \<Rightarrow> 'a life_st_scheme kres" where
  "forkret s =
    kbind (curproc s) (\<lambda>(p, s).
    kbind (unlock (ProcLock p) s) (\<lambda>s.
      if first s then
        kbind (fat32_init (s\<lparr>first := False\<rparr>)) (\<lambda>(_, s).
        kbind (curproc s) (\<lambda>(p, s).
        kbind (ename [0x2f] s) (\<lambda>(e, s). Inr (upd_proc p (\<lambda>q. q\<lparr>cwd := e\<rparr>) s))))
      else Inr s))"

end
