(* ===== verification/Exec.thy ===== *)
theory Exec imports ProcLife begin

text \<open>
  kernel/exec.c: replacing the image of a process by a program from an ELF file. The new page tables are built beside the old
  ones; every error frees what was built and leaves the process as it was.
\<close>

section \<open>ELF headers (libs/elf.h)\<close>

text \<open>The fields that \<open>exec\<close> reads, by their offsets in the 64 bytes of the header and the 56 bytes of a program header.\<close>

record elfhdr =
  magic :: u32
  elf_entry :: u64
  phoff :: u64
  phnum :: u16

record proghdr =
  ph_type :: u32
  ph_off :: u64
  vaddr :: u64
  filesz :: u64
  memsz :: u64

definition ELF_MAGIC :: u32 where "ELF_MAGIC = 0x464C457F"
definition ELF_PROG_LOAD :: u32 where "ELF_PROG_LOAD = 1"
definition ELFHDR_SIZE :: u32 where "ELFHDR_SIZE = 64"
definition PROGHDR_SIZE :: u32 where "PROGHDR_SIZE = 56"

definition get64 :: "u8 list \<Rightarrow> nat \<Rightarrow> u64" where
  "get64 bs i = ucast (get32 bs i) OR push_bit 32 (ucast (get32 bs (i + 4)))"

definition read_elfhdr :: "u8 list \<Rightarrow> elfhdr" where
  "read_elfhdr bs = \<lparr>magic = get32 bs 0, elf_entry = get64 bs 24, phoff = get64 bs 32, phnum = get16 bs 56\<rparr>"

definition read_proghdr :: "u8 list \<Rightarrow> proghdr" where
  "read_proghdr bs =
    \<lparr>ph_type = get32 bs 0, ph_off = get64 bs 8, vaddr = get64 bs 16, filesz = get64 bs 32, memsz = get64 bs 40\<rparr>"

section \<open>Loading segments\<close>

text \<open>\<open>ustack_at\<close> is where the local array \<open>ustack\<close> of \<open>exec\<close> lies in physical memory.\<close>

record exec_st = life_st +
  ustack_at :: u64

text \<open>The loop of \<open>loadseg\<close>: the fuel is enough for every size up to \<open>2 ^ 32 - PGSIZE\<close>; above, \<open>i\<close> would wrap.\<close>

primrec loadseg_loop :: "nat \<Rightarrow> u64 \<Rightarrow> u64 \<Rightarrow> eptr \<Rightarrow> u32 \<Rightarrow> u32 \<Rightarrow> u32 \<Rightarrow> 'a fat_st_scheme \<Rightarrow> (int \<times> 'a fat_st_scheme) kres" where
  "loadseg_loop 0 pt va e off sz i s = Inl Deep"
| "loadseg_loop (Suc fuel) pt va e off sz i s =
    (if i < sz then
       kbind (walkaddr pt (va + ucast i) s) (\<lambda>(pa, s).
         if pa = 0 then Inl (Panic ''loadseg: address should exist'')
         else
           let n = (if sz - i < ucast PGSIZE then sz - i else ucast PGSIZE) in
           kbind (eread e (KernAddr pa) (off + i) n s) (\<lambda>(r, _, s).
             if r \<noteq> n then Inr (- 1, s) else loadseg_loop fuel pt va e off sz (i + ucast PGSIZE) s))
     else Inr (0, s))"

definition loadseg :: "u64 \<Rightarrow> u64 \<Rightarrow> eptr \<Rightarrow> u32 \<Rightarrow> u32 \<Rightarrow> 'a fat_st_scheme \<Rightarrow> (int \<times> 'a fat_st_scheme) kres" where
  "loadseg pt va e off sz s =
    (if va mod PGSIZE \<noteq> 0 then Inl (Panic ''loadseg: va must be page aligned'')
     else loadseg_loop (unat sz div 4096 + 2) pt va e off sz 0 s)"

text \<open>
  The loop over the program headers, \<open>k\<close> of them left at \<open>off\<close>: whether all was well, and the size reached, which the
  error label needs.
\<close>

primrec load_segments :: "nat \<Rightarrow> u64 \<Rightarrow> u64 \<Rightarrow> eptr \<Rightarrow> u32 \<Rightarrow> u64 \<Rightarrow> 'a fat_st_scheme \<Rightarrow> (bool \<times> u64 \<times> 'a fat_st_scheme) kres" where
  "load_segments 0 pt kpt e off sz s = Inr (True, sz, s)"
| "load_segments (Suc k) pt kpt e off sz s =
    kbind (eread e (Obj []) off PROGHDR_SIZE s) (\<lambda>(r, bs, s).
      if r \<noteq> PROGHDR_SIZE then Inr (False, sz, s)
      else
        let ph = read_proghdr bs in
        if ph_type ph \<noteq> ELF_PROG_LOAD then load_segments k pt kpt e (off + PROGHDR_SIZE) sz s
        else if memsz ph < filesz ph then Inr (False, sz, s)
        else if vaddr ph + memsz ph < vaddr ph then Inr (False, sz, s)
        else
          kbind (uvmalloc pt kpt sz (vaddr ph + memsz ph) s) (\<lambda>(sz1, s).
            if sz1 = 0 then Inr (False, sz, s)
            else if vaddr ph mod PGSIZE \<noteq> 0 then Inr (False, sz1, s)
            else
              kbind (loadseg pt (vaddr ph) e (ucast (ph_off ph)) (ucast (filesz ph)) s) (\<lambda>(r, s).
                if r < 0 then Inr (False, sz1, s)
                else load_segments k pt kpt e (off + PROGHDR_SIZE) sz1 s)))"

section \<open>The arguments\<close>

text \<open>
  \<open>argv\<close> are the addresses of the strings before the null pointer. The loop pushes them and fills \<open>ustack\<close>; the result is
  the stack pointer.
\<close>

fun push_args :: "u64 list \<Rightarrow> u64 \<Rightarrow> u64 \<Rightarrow> u64 \<Rightarrow> nat \<Rightarrow> 'a exec_st_scheme \<Rightarrow> (u64 option \<times> 'a exec_st_scheme) kres" where
  "push_args [] pt stackbase sp argc s =
    Inr (Some sp, s\<lparr>mem := store64 (ustack_at s + of_nat (8 * argc)) 0 (mem s)\<rparr>)"
| "push_args (a # as) pt stackbase sp argc s =
    (if argc \<ge> MAXARG then Inr (None, s)
     else case strlen (mem s) a of
       None \<Rightarrow> Inl Wild
     | Some len \<Rightarrow>
         let sp = sp - of_nat (len + 1);
             sp = sp - sp mod 16
         in if sp < stackbase then Inr (None, s)
            else
              kbind (copyout pt sp a (of_nat (len + 1)) s) (\<lambda>(r, s).
                if r < 0 then Inr (None, s)
                else push_args as pt stackbase sp (Suc argc)
                  (s\<lparr>mem := store64 (ustack_at s + of_nat (8 * argc)) sp (mem s)\<rparr>)))"

definition push_argv :: "u64 list \<Rightarrow> u64 \<Rightarrow> u64 \<Rightarrow> 'a exec_st_scheme \<Rightarrow> (u64 option \<times> 'a exec_st_scheme) kres" where
  "push_argv argv pt sz s =
    (let stackbase = sz - PGSIZE in
     kbind (push_args argv pt stackbase sz 0 s) (\<lambda>(r, s).
       case r of
         None \<Rightarrow> Inr (None, s)
       | Some sp \<Rightarrow>
           let argc = length argv;
               sp = sp - of_nat ((argc + 1) * 8);
               sp = sp - sp mod 16
           in if sp < stackbase then Inr (None, s)
              else
                kbind (copyout pt sp (ustack_at s) (of_nat ((argc + 1) * 8)) s) (\<lambda>(r, s).
                  Inr (if r < 0 then None else Some sp, s))))"

text \<open>The part of the path behind the last slash.\<close>

definition last_elem :: "u8 list \<Rightarrow> u8 list" where
  "last_elem str = rev (takeWhile (\<lambda>c. c \<noteq> 0x2f) (rev str))"

section \<open>exec\<close>

text \<open>The label \<open>bad\<close>.\<close>

definition exec_bad :: "u64 \<Rightarrow> u64 \<Rightarrow> u64 \<Rightarrow> eptr option \<Rightarrow> 'a fat_st_scheme \<Rightarrow> (int \<times> 'a fat_st_scheme) kres" where
  "exec_bad pt kpt sz ep s =
    kbind (if pt \<noteq> 0 then proc_freepagetable pt sz s else Inr s) (\<lambda>s.
    kbind (if kpt \<noteq> 0 then kvmfree kpt False s else Inr s) (\<lambda>s.
    kbind (case ep of None \<Rightarrow> Inr s | Some e \<Rightarrow> kbind (eunlock (Some e) s) (eput (Some e))) (\<lambda>s.
      Inr (- 1, s))))"

text \<open>From the comment \<open>arguments to user main\<close> to the end: the process gets the new image.\<close>

definition exec_commit :: "nat \<Rightarrow> u8 list \<Rightarrow> u64 \<Rightarrow> u64 \<Rightarrow> u64 \<Rightarrow> u64 \<Rightarrow> u64 \<Rightarrow> u64 \<Rightarrow> 'a proc_st_scheme \<Rightarrow> 'a proc_st_scheme kres" where
  "exec_commit p str pt kpt sz oldsz sp pc s =
    (let s = tf_set p TF_a1 sp s;
         s = upd_proc p (\<lambda>q. q\<lparr>pname := str_safecpy 16 (last_elem str) (pname q)\<rparr>) s;
         oldpt = pagetable (procs s p);
         oldkpt = kpagetable (procs s p);
         s = upd_proc p (\<lambda>q. q\<lparr>pagetable := pt, kpagetable := kpt, psz := sz\<rparr>) s;
         s = tf_set p TF_epc pc s;
         s = tf_set p TF_sp sp s
     in kbind (proc_freepagetable oldpt oldsz s) (\<lambda>s.
          kvmfree oldkpt False (s\<lparr>satp := (satp s)(hart (core s) := MAKE_SATP (kpagetable (procs s p)))\<rparr>)))"

text \<open>From the stack on, after the file has been closed.\<close>

definition exec_stack :: "u8 list \<Rightarrow> u64 list \<Rightarrow> u64 \<Rightarrow> u64 \<Rightarrow> u64 \<Rightarrow> u64 \<Rightarrow> 'a exec_st_scheme \<Rightarrow> (int \<times> 'a exec_st_scheme) kres" where
  "exec_stack str argv pt kpt sz pc s =
    kbind (curproc s) (\<lambda>(p, s).
      let oldsz = psz (procs s p);
          sz = PGROUNDUP sz
      in kbind (uvmalloc pt kpt sz (sz + 2 * PGSIZE) s) (\<lambda>(sz1, s).
           if sz1 = 0 then exec_bad pt kpt sz None s
           else
             let sz = sz1 in
             kbind (uvmclear pt (sz - 2 * PGSIZE) s) (\<lambda>s.
             kbind (push_argv argv pt sz s) (\<lambda>(r, s).
               case r of
                 None \<Rightarrow> exec_bad pt kpt sz None s
               | Some sp \<Rightarrow>
                   kbind (exec_commit p str pt kpt sz oldsz sp pc s) (\<lambda>s. Inr (int (length argv), s))))))"

definition exec :: "u8 list \<Rightarrow> u64 list \<Rightarrow> 'a exec_st_scheme \<Rightarrow> (int \<times> 'a exec_st_scheme) kres" where
  "exec str argv s =
    kbind (curproc s) (\<lambda>(p, s).
    kbind (kalloc s) (\<lambda>(kpt, s).
      if kpt = 0 then Inr (- 1, s)
      else
        let s = s\<lparr>mem := memmove (mem s) kpt (kpagetable (procs s p)) 4096\<rparr>;
            s = s\<lparr>mem := fold (\<lambda>i. store64 (kpt + of_nat (8 * i)) 0) [0..<unat (PX 2 MAXUVA)] (mem s)\<rparr>
        in kbind (ename str s) (\<lambda>(ep, s).
             case ep of
               None \<Rightarrow> exec_bad 0 kpt 0 None s
             | Some e \<Rightarrow>
                 kbind (elock (Some e) s) (\<lambda>s.
                 kbind (eread e (Obj []) 0 ELFHDR_SIZE s) (\<lambda>(r, bs, s).
                   if r \<noteq> ELFHDR_SIZE then exec_bad 0 kpt 0 (Some e) s
                   else if magic (read_elfhdr bs) \<noteq> ELF_MAGIC then exec_bad 0 kpt 0 (Some e) s
                   else
                     kbind (proc_pagetable p s) (\<lambda>(pt, s).
                       if pt = 0 then exec_bad 0 kpt 0 (Some e) s
                       else
                         let elf = read_elfhdr bs in
                         kbind (load_segments (unat (phnum elf)) pt kpt e (ucast (phoff elf)) 0 s) (\<lambda>(ok, sz, s).
                           if \<not> ok then exec_bad pt kpt sz (Some e) s
                           else
                             kbind (eunlock (Some e) s) (\<lambda>s.
                             kbind (eput (Some e) s) (\<lambda>s.
                               exec_stack str argv pt kpt sz (elf_entry elf) s)))))))))"

end
