(* ===== verification/Sysarg.thy ===== *)
theory Sysarg imports Exec begin

text \<open>
  kernel/timer.c, and from kernel/syscall.c the access of system calls to their arguments: registers of the trapframe and, through
  them, words and strings of user memory.
\<close>

section \<open>State\<close>

text \<open>
  \<open>ticks\<close> counts timer interrupts. \<open>time\<close> is the time counter of the hart, and \<open>next_timeout\<close> what the kernel last asked the
  SBI to interrupt at.
\<close>

record sys_st = exec_st +
  ticks :: u32
  time :: u64
  next_timeout :: u64

section \<open>The timer (timer.c)\<close>

definition INTERVAL :: u64 where "INTERVAL = 390000000 div 200"

definition timerinit :: "'a sys_st_scheme \<Rightarrow> 'a sys_st_scheme" where
  "timerinit s = s\<lparr>core := initlock TicksLock (core s)\<rparr>"

definition set_next_timeout :: "'a sys_st_scheme \<Rightarrow> 'a sys_st_scheme" where
  "set_next_timeout s = s\<lparr>next_timeout := time s + INTERVAL\<rparr>"

definition timer_tick :: "'a sys_st_scheme \<Rightarrow> 'a sys_st_scheme kres" where
  "timer_tick s =
    kbind (lock TicksLock s) (\<lambda>s.
    kbind (wakeup ChTicks (s\<lparr>ticks := ticks s + 1\<rparr>)) (\<lambda>s.
    kbind (unlock TicksLock s) (\<lambda>s. Inr (set_next_timeout s))))"

section \<open>User memory\<close>

text \<open>The word that \<open>fetchaddr\<close> stores at \<open>ip\<close> is returned.\<close>

definition fetchaddr :: "u64 \<Rightarrow> 'a proc_st_scheme \<Rightarrow> (int \<times> u64 \<times> 'a proc_st_scheme) kres" where
  "fetchaddr addr s =
    kbind (curproc s) (\<lambda>(p, s).
      let sz = psz (procs s p) in
      if addr \<ge> sz \<or> addr + 8 > sz then Inr (- 1, 0, s)
      else
        kbind (copyin2 addr 8 s) (\<lambda>(e, bs, s).
          if e \<noteq> 0 then Inr (- 1, 0, s) else Inr (0, get64 bs 0, s)))"

text \<open>The bytes that \<open>fetchstr\<close> stores at \<open>buf\<close> are returned, with the NUL when there was one.\<close>

definition fetchstr :: "u64 \<Rightarrow> nat \<Rightarrow> 'a proc_st_scheme \<Rightarrow> (int \<times> u8 list \<times> 'a proc_st_scheme) kres" where
  "fetchstr addr mx s =
    kbind (copyinstr2 addr (of_nat mx) s) (\<lambda>(err, bs, s).
      if err < 0 then Inr (err, bs, s) else Inr (int (length (cstr bs)), bs, s))"

section \<open>Arguments\<close>

definition argraw :: "int \<Rightarrow> 'a proc_st_scheme \<Rightarrow> (u64 \<times> 'a proc_st_scheme) kres" where
  "argraw n s =
    kbind (curproc s) (\<lambda>(p, s).
      if n = 0 then Inr (tf_get p TF_a0 s, s)
      else if n = 1 then Inr (tf_get p TF_a1 s, s)
      else if n = 2 then Inr (tf_get p 128 s, s)
      else if n = 3 then Inr (tf_get p 136 s, s)
      else if n = 4 then Inr (tf_get p 144 s, s)
      else if n = 5 then Inr (tf_get p 152 s, s)
      else Inl (Panic ''argraw''))"

text \<open>\<open>argint\<close> and \<open>argaddr\<close> always return 0; the models return what they store.\<close>

definition argint :: "int \<Rightarrow> 'a proc_st_scheme \<Rightarrow> (u32 \<times> 'a proc_st_scheme) kres" where
  "argint n s = kbind (argraw n s) (\<lambda>(a, s). Inr (ucast a, s))"

definition argaddr :: "int \<Rightarrow> 'a proc_st_scheme \<Rightarrow> (u64 \<times> 'a proc_st_scheme) kres" where
  "argaddr n s = argraw n s"

definition argstr :: "int \<Rightarrow> nat \<Rightarrow> 'a proc_st_scheme \<Rightarrow> (int \<times> u8 list \<times> 'a proc_st_scheme) kres" where
  "argstr n mx s = kbind (argaddr n s) (\<lambda>(addr, s). fetchstr addr mx s)"

text \<open>An \<open>int\<close> result becomes the \<open>uint64\<close> of a system call.\<close>

definition ret :: "(int \<times> 's) kres \<Rightarrow> (u64 \<times> 's) kres" where
  "ret r = kbind r (\<lambda>(i, s). Inr (of_int i, s))"

end
