(* ===== verification/Sysproc.thy ===== *)
theory Sysproc imports Sysarg begin

text \<open>kernel/sysproc.c: the system calls on processes, and \<open>sys_test_proc\<close> and \<open>sys_sysinfo\<close> of kernel/syscall.c.\<close>

definition FAT32_MAX_PATH :: nat where "FAT32_MAX_PATH = 260"

definition store_bytes :: "u64 \<Rightarrow> u8 list \<Rightarrow> bytemem \<Rightarrow> bytemem" where
  "store_bytes a bs m = fold (\<lambda>i m. m(a + of_nat i := bs ! i)) [0..<length bs] m"

section \<open>exec\<close>

text \<open>The loop of \<open>sys_exec\<close>: the pages that hold the arguments so far, and whether all went well.\<close>

function fetch_args :: "nat \<Rightarrow> u64 \<Rightarrow> u64 list \<Rightarrow> 'a exec_st_scheme \<Rightarrow> (bool \<times> u64 list \<times> 'a exec_st_scheme) kres" where
  "fetch_args i uargv argv s =
    (if i \<ge> MAXARG then Inr (False, argv, s)
     else
       kbind (fetchaddr (uargv + 8 * of_nat i) s) (\<lambda>(e, uarg, s).
         if e < 0 then Inr (False, argv, s)
         else if uarg = 0 then Inr (True, argv, s)
         else
           kbind (kalloc s) (\<lambda>(pg, s).
             if pg = 0 then Inr (False, argv, s)
             else
               let argv = argv @ [pg] in
               kbind (fetchstr uarg 4096 s) (\<lambda>(e, bs, s).
                 let s = s\<lparr>mem := store_bytes pg bs (mem s)\<rparr> in
                 if e < 0 then Inr (False, argv, s) else fetch_args (Suc i) uargv argv s))))"
  by pat_completeness auto
termination by (relation "measure (\<lambda>(i, _). MAXARG - i)") auto

declare fetch_args.simps [simp del]

primrec free_args :: "u64 list \<Rightarrow> 'a kmem_st_scheme \<Rightarrow> 'a kmem_st_scheme kres" where
  "free_args [] s = Inr s"
| "free_args (a # as) s = kbind (kfree a s) (free_args as)"

definition sys_exec :: "'a exec_st_scheme \<Rightarrow> (u64 \<times> 'a exec_st_scheme) kres" where
  "sys_exec s =
    kbind (argstr 0 FAT32_MAX_PATH s) (\<lambda>(len, str, s).
      if len < 0 then Inr (- 1, s)
      else
        kbind (argaddr 1 s) (\<lambda>(uargv, s).
        kbind (fetch_args 0 uargv [] s) (\<lambda>(ok, argv, s).
          if \<not> ok then kbind (free_args argv s) (\<lambda>s. Inr (- 1, s))
          else
            kbind (exec (cstr str) argv s) (\<lambda>(r, s).
            kbind (free_args argv s) (\<lambda>s. Inr (of_int r, s))))))"

section \<open>Processes\<close>

text \<open>\<open>exit\<close> does not return.\<close>

definition sys_exit :: "'a file_st_scheme \<Rightarrow> (u64 \<times> 'a file_st_scheme) kres" where
  "sys_exit s = kbind (argint 0 s) (\<lambda>(n, s). kbind (exit (sint n) s) (\<lambda>_. Inl Exits))"

definition sys_getpid :: "'a proc_st_scheme \<Rightarrow> (u64 \<times> 'a proc_st_scheme) kres" where
  "sys_getpid s = kbind (curproc s) (\<lambda>(p, s). Inr (of_int (pid (procs s p)), s))"

definition sys_fork :: "'a life_st_scheme \<Rightarrow> (u64 \<times> 'a life_st_scheme) kres" where
  "sys_fork s = ret (fork s)"

definition sys_wait :: "'a proc_st_scheme \<Rightarrow> (u64 \<times> 'a proc_st_scheme) kres" where
  "sys_wait s = kbind (argaddr 0 s) (\<lambda>(a, s). ret (wait a s))"

text \<open>\<open>addr\<close> is an \<open>int\<close>, and comes back sign-extended.\<close>

definition sys_sbrk :: "'a proc_st_scheme \<Rightarrow> (u64 \<times> 'a proc_st_scheme) kres" where
  "sys_sbrk s =
    kbind (argint 0 s) (\<lambda>(n, s).
    kbind (curproc s) (\<lambda>(p, s).
      let addr = (ucast (psz (procs s p)) :: u32) in
      kbind (growproc n s) (\<lambda>(r, s). Inr (if r < 0 then - 1 else scast addr, s))))"

definition sys_kill :: "'a proc_st_scheme \<Rightarrow> (u64 \<times> 'a proc_st_scheme) kres" where
  "sys_kill s = kbind (argint 0 s) (\<lambda>(n, s). ret (kill (sint n) s))"

definition sys_trace :: "'a proc_st_scheme \<Rightarrow> (u64 \<times> 'a proc_st_scheme) kres" where
  "sys_trace s =
    kbind (argint 0 s) (\<lambda>(n, s).
    kbind (curproc s) (\<lambda>(p, s). Inr (0, upd_proc p (\<lambda>q. q\<lparr>tmask := n\<rparr>) s)))"

section \<open>Time\<close>

text \<open>
  The loop of \<open>sys_sleep\<close>. The comparison of the \<open>uint\<close> difference with the \<open>int\<close> \<open>n\<close> is on unsigned numbers.
\<close>

definition sleep_turn :: "u32 \<Rightarrow> u32 \<Rightarrow> 'a sys_st_scheme \<Rightarrow> ((bool, int) outcome \<times> 'a sys_st_scheme) kres" where
  "sleep_turn ticks0 n s =
    (if ticks s - ticks0 < n then
       kbind (curproc s) (\<lambda>(p, s).
         if killed (procs s p) then kbind (unlock TicksLock s) (\<lambda>s. Inr (Finished (- 1), s))
         else kbind (sleep_enter ChTicks TicksLock s) (\<lambda>(ie, s). Inr (Waiting ie, s)))
     else kbind (unlock TicksLock s) (\<lambda>s. Inr (Finished 0, s)))"

definition sleep_run :: "u32 \<Rightarrow> 'a sys_st_scheme \<Rightarrow> ((bool, int) outcome \<times> 'a sys_st_scheme) kres" where
  "sleep_run n s = kbind (lock TicksLock s) (\<lambda>s. sleep_turn (ticks s) n s)"

definition sleep_wake :: "nat \<Rightarrow> bool \<Rightarrow> u32 \<Rightarrow> u32 \<Rightarrow> 'a sys_st_scheme \<Rightarrow> ((bool, int) outcome \<times> 'a sys_st_scheme) kres" where
  "sleep_wake p ie ticks0 n s = kbind (sleep_leave p ie TicksLock s) (sleep_turn ticks0 n)"

definition sys_sleep :: "'a sys_st_scheme \<Rightarrow> (u64 \<times> 'a sys_st_scheme) kres" where
  "sys_sleep s = kbind (argint 0 s) (\<lambda>(n, s). ret (no_wait ChTicks (sleep_run n s)))"

definition sys_uptime :: "'a sys_st_scheme \<Rightarrow> (u64 \<times> 'a sys_st_scheme) kres" where
  "sys_uptime s =
    kbind (lock TicksLock s) (\<lambda>s.
      let xticks = ticks s in
      kbind (unlock TicksLock s) (\<lambda>s. Inr (ucast xticks, s)))"

section \<open>Information\<close>

definition sys_test_proc :: "'a cons_st_scheme \<Rightarrow> (u64 \<times> 'a cons_st_scheme) kres" where
  "sys_test_proc s =
    kbind (argint 0 s) (\<lambda>(n, s).
    kbind (curproc s) (\<lambda>(p, s).
    kbind (printf (ascii ''hello world from proc %d, hart %d, arg %d'' @ [10])
             [AInt (of_int (pid (procs s p))), AInt (of_nat (hart (core s))), AInt n] s) (\<lambda>s.
      Inr (0, s))))"

definition sys_sysinfo :: "'a file_st_scheme \<Rightarrow> (u64 \<times> 'a file_st_scheme) kres" where
  "sys_sysinfo s =
    kbind (argaddr 0 s) (\<lambda>(addr, s).
      let bs = le64 (freemem_amount s) @ le64 (procnum s) in
      kbind (copyout2 addr (\<lambda>i. bs ! i) 16 s) (\<lambda>(e, s). Inr (if e < 0 then - 1 else 0, s)))"

end
