(* ===== verification/Fcntl.thy ===== *)
theory Fcntl imports Prelude begin

text \<open>libs/fcntl.h: the modes of \<open>open\<close>, which the kernel and the shell share.\<close>

definition O_RDONLY :: u32 where "O_RDONLY = 0x000"
definition O_WRONLY :: u32 where "O_WRONLY = 0x001"
definition O_RDWR :: u32 where "O_RDWR = 0x002"
definition O_APPEND :: u32 where "O_APPEND = 0x004"
definition O_CREATE :: u32 where "O_CREATE = 0x200"
definition O_TRUNC :: u32 where "O_TRUNC = 0x400"

end
