(* ===== verification/Sysfile.thy ===== *)
theory Sysfile imports Sysproc Fcntl begin

text \<open>
  kernel/sysfile.c: the system calls on files. Each checks its arguments and then works on the open files of the process, the file
  table and the file system.
\<close>

section \<open>Descriptors\<close>


definition T_DIR :: int where "T_DIR = 1"
definition T_FILE :: int where "T_FILE = 2"

text \<open>\<open>Some (fd, f)\<close> when the code returns 0.\<close>

definition argfd :: "int \<Rightarrow> 'a proc_st_scheme \<Rightarrow> ((nat \<times> nat) option \<times> 'a proc_st_scheme) kres" where
  "argfd n s =
    kbind (argint n s) (\<lambda>(w, s).
      if sint w < 0 \<or> sint w \<ge> int NOFILE then Inr (None, s)
      else
        kbind (curproc s) (\<lambda>(p, s).
          case ofile (procs s p) (unat w) of
            None \<Rightarrow> Inr (None, s)
          | Some f \<Rightarrow> Inr (Some (unat w, f), s)))"

definition fdalloc :: "nat \<Rightarrow> 'a proc_st_scheme \<Rightarrow> (nat option \<times> 'a proc_st_scheme) kres" where
  "fdalloc f s =
    kbind (curproc s) (\<lambda>(p, s).
      case find (\<lambda>fd. ofile (procs s p) fd = None) [0..<NOFILE] of
        Some fd \<Rightarrow> Inr (Some fd, upd_proc p (\<lambda>q. q\<lparr>ofile := (ofile q)(fd := Some f)\<rparr>) s)
      | None \<Rightarrow> Inr (None, s))"

definition set_ofile :: "nat \<Rightarrow> nat \<Rightarrow> nat option \<Rightarrow> 'a proc_st_scheme \<Rightarrow> 'a proc_st_scheme" where
  "set_ofile p fd f s = upd_proc p (\<lambda>q. q\<lparr>ofile := (ofile q)(fd := f)\<rparr>) s"

definition sys_dup :: "'a file_st_scheme \<Rightarrow> (u64 \<times> 'a file_st_scheme) kres" where
  "sys_dup s =
    kbind (argfd 0 s) (\<lambda>(r, s).
      case r of None \<Rightarrow> Inr (- 1, s)
      | Some (_, f) \<Rightarrow>
          kbind (fdalloc f s) (\<lambda>(fd, s).
            case fd of None \<Rightarrow> Inr (- 1, s)
            | Some fd \<Rightarrow> kbind (filedup f s) (\<lambda>(_, s). Inr (of_nat fd, s))))"

definition sys_read :: "'a file_st_scheme \<Rightarrow> (u64 \<times> 'a file_st_scheme) kres" where
  "sys_read s =
    kbind (argfd 0 s) (\<lambda>(r, s).
      case r of None \<Rightarrow> Inr (- 1, s)
      | Some (_, f) \<Rightarrow>
          kbind (argint 2 s) (\<lambda>(n, s). kbind (argaddr 1 s) (\<lambda>(p, s). ret (fileread f p (sint n) s))))"

definition sys_write :: "'a file_st_scheme \<Rightarrow> (u64 \<times> 'a file_st_scheme) kres" where
  "sys_write s =
    kbind (argfd 0 s) (\<lambda>(r, s).
      case r of None \<Rightarrow> Inr (- 1, s)
      | Some (_, f) \<Rightarrow>
          kbind (argint 2 s) (\<lambda>(n, s). kbind (argaddr 1 s) (\<lambda>(p, s). ret (filewrite f p (sint n) s))))"

definition sys_close :: "'a file_st_scheme \<Rightarrow> (u64 \<times> 'a file_st_scheme) kres" where
  "sys_close s =
    kbind (argfd 0 s) (\<lambda>(r, s).
      case r of None \<Rightarrow> Inr (- 1, s)
      | Some (fd, f) \<Rightarrow>
          kbind (curproc s) (\<lambda>(p, s).
          kbind (fileclose f (set_ofile p fd None s)) (\<lambda>s. Inr (0, s))))"

definition sys_fstat :: "'a file_st_scheme \<Rightarrow> (u64 \<times> 'a file_st_scheme) kres" where
  "sys_fstat s =
    kbind (argfd 0 s) (\<lambda>(r, s).
      case r of None \<Rightarrow> Inr (- 1, s)
      | Some (_, f) \<Rightarrow> kbind (argaddr 1 s) (\<lambda>(st, s). ret (filestat f st s)))"

definition sys_readdir :: "'a file_st_scheme \<Rightarrow> (u64 \<times> 'a file_st_scheme) kres" where
  "sys_readdir s =
    kbind (argfd 0 s) (\<lambda>(r, s).
      case r of None \<Rightarrow> Inr (- 1, s)
      | Some (_, f) \<Rightarrow> kbind (argaddr 1 s) (\<lambda>(p, s). ret (dirnext f p s)))"

section \<open>Creating and opening\<close>

text \<open>\<open>mode & O_RDONLY\<close> is 0 whatever \<open>mode\<close> is.\<close>

definition create :: "u8 list \<Rightarrow> int \<Rightarrow> u32 \<Rightarrow> 'a file_st_scheme \<Rightarrow> (eptr option \<times> 'a file_st_scheme) kres" where
  "create str type mode s =
    kbind (enameparent str [] s) (\<lambda>(dp, name, s).
      case dp of None \<Rightarrow> Inr (None, s)
      | Some d \<Rightarrow>
          let attr = (if type = T_DIR then ATTR_DIRECTORY
                      else if mode AND O_RDONLY \<noteq> 0 then ATTR_READ_ONLY else 0)
          in kbind (elock dp s) (\<lambda>s.
             kbind (ealloc d name attr s) (\<lambda>(ep, s).
               case ep of
                 None \<Rightarrow> kbind (eunlock dp s) (\<lambda>s. kbind (eput dp s) (\<lambda>s. Inr (None, s)))
               | Some e \<Rightarrow>
                   let isdir = attribute (dirents s e) AND ATTR_DIRECTORY \<noteq> 0 in
                   if type = T_DIR \<and> \<not> isdir \<or> type = T_FILE \<and> isdir then
                     kbind (eunlock dp s) (\<lambda>s. kbind (eput ep s) (\<lambda>s. kbind (eput dp s) (\<lambda>s. Inr (None, s))))
                   else
                     kbind (eunlock dp s) (\<lambda>s. kbind (eput dp s) (\<lambda>s.
                     kbind (elock ep s) (\<lambda>s. Inr (ep, s)))))))"

text \<open>The locked entry that \<open>sys_open\<close> opens, or nothing.\<close>

definition open_entry :: "u8 list \<Rightarrow> u32 \<Rightarrow> 'a file_st_scheme \<Rightarrow> (eptr option \<times> 'a file_st_scheme) kres" where
  "open_entry str omode s =
    (if omode AND O_CREATE \<noteq> 0 then create str T_FILE omode s
     else
       kbind (ename str s) (\<lambda>(ep, s).
         case ep of None \<Rightarrow> Inr (None, s)
         | Some e \<Rightarrow>
             kbind (elock ep s) (\<lambda>s.
               if attribute (dirents s e) AND ATTR_DIRECTORY \<noteq> 0 \<and> omode \<noteq> O_RDONLY
               then kbind (eunlock ep s) (\<lambda>s. kbind (eput ep s) (\<lambda>s. Inr (None, s)))
               else Inr (ep, s))))"

text \<open>\<open>filealloc\<close> and \<open>fdalloc\<close>, as \<open>sys_open\<close> and \<open>sys_dev\<close> use them; a file without a descriptor is closed again.\<close>

definition new_fd :: "'a file_st_scheme \<Rightarrow> ((nat \<times> nat) option \<times> 'a file_st_scheme) kres" where
  "new_fd s =
    kbind (filealloc s) (\<lambda>(f, s).
      case f of None \<Rightarrow> Inr (None, s)
      | Some f \<Rightarrow>
          kbind (fdalloc f s) (\<lambda>(fd, s).
            case fd of None \<Rightarrow> kbind (fileclose f s) (\<lambda>s. Inr (None, s))
            | Some fd \<Rightarrow> Inr (Some (f, fd), s)))"

definition open_mode :: "u32 \<Rightarrow> open_file \<Rightarrow> open_file" where
  "open_mode omode x =
    x\<lparr>readable := (omode AND O_WRONLY = 0), writable := (omode AND O_WRONLY \<noteq> 0 \<or> omode AND O_RDWR \<noteq> 0)\<rparr>"

definition sys_open :: "'a file_st_scheme \<Rightarrow> (u64 \<times> 'a file_st_scheme) kres" where
  "sys_open s =
    kbind (argstr 0 FAT32_MAX_PATH s) (\<lambda>(len, bs, s).
      if len < 0 then Inr (- 1, s)
      else
        kbind (argint 1 s) (\<lambda>(omode, s).
        kbind (open_entry (cstr bs) omode s) (\<lambda>(ep, s).
          case ep of None \<Rightarrow> Inr (- 1, s)
          | Some e \<Rightarrow>
              kbind (new_fd s) (\<lambda>(r, s).
                case r of
                  None \<Rightarrow> kbind (eunlock ep s) (\<lambda>s. kbind (eput ep s) (\<lambda>s. Inr (- 1, s)))
                | Some (f, fd) \<Rightarrow>
                    kbind (if attribute (dirents s e) AND ATTR_DIRECTORY = 0 \<and> omode AND O_TRUNC \<noteq> 0
                           then etrunc e s else Inr s) (\<lambda>s.
                      let off = (if omode AND O_APPEND \<noteq> 0 then file_size (dirents s e) else 0);
                          s = upd_file f (\<lambda>x. open_mode omode (x\<lparr>ftype := FD_ENTRY, foff := off, fep := ep\<rparr>)) s
                      in kbind (eunlock ep s) (\<lambda>s. Inr (of_nat fd, s)))))))"

definition sys_dev :: "'a file_st_scheme \<Rightarrow> (u64 \<times> 'a file_st_scheme) kres" where
  "sys_dev s =
    kbind (argint 0 s) (\<lambda>(omode, s).
    kbind (argint 1 s) (\<lambda>(major, s).
    kbind (argint 2 s) (\<lambda>(minor, s).
      if omode AND O_CREATE \<noteq> 0 then Inl (Panic ''dev file on FAT'')
      else if sint major < 0 \<or> sint major \<ge> int NDEV then Inr (- 1, s)
      else
        kbind (new_fd s) (\<lambda>(r, s).
          case r of None \<Rightarrow> Inr (- 1, s)
          | Some (f, fd) \<Rightarrow>
              Inr (of_nat fd, upd_file f (\<lambda>x. open_mode omode
                (x\<lparr>ftype := FD_DEVICE, foff := 0, fep := None, fmajor := sint major\<rparr>)) s)))))"

definition sys_mkdir :: "'a file_st_scheme \<Rightarrow> (u64 \<times> 'a file_st_scheme) kres" where
  "sys_mkdir s =
    kbind (argstr 0 FAT32_MAX_PATH s) (\<lambda>(len, bs, s).
      if len < 0 then Inr (- 1, s)
      else
        kbind (create (cstr bs) T_DIR 0 s) (\<lambda>(ep, s).
          case ep of None \<Rightarrow> Inr (- 1, s)
          | Some e \<Rightarrow> kbind (eunlock ep s) (\<lambda>s. kbind (eput ep s) (\<lambda>s. Inr (0, s)))))"

definition sys_chdir :: "'a file_st_scheme \<Rightarrow> (u64 \<times> 'a file_st_scheme) kres" where
  "sys_chdir s =
    kbind (curproc s) (\<lambda>(p, s).
    kbind (argstr 0 FAT32_MAX_PATH s) (\<lambda>(len, bs, s).
      if len < 0 then Inr (- 1, s)
      else
        kbind (ename (cstr bs) s) (\<lambda>(ep, s).
          case ep of None \<Rightarrow> Inr (- 1, s)
          | Some e \<Rightarrow>
              kbind (elock ep s) (\<lambda>s.
                if attribute (dirents s e) AND ATTR_DIRECTORY = 0
                then kbind (eunlock ep s) (\<lambda>s. kbind (eput ep s) (\<lambda>s. Inr (- 1, s)))
                else
                  kbind (eunlock ep s) (\<lambda>s.
                  kbind (eput (cwd (procs s p)) s) (\<lambda>s.
                    Inr (0, upd_proc p (\<lambda>q. q\<lparr>cwd := ep\<rparr>) s)))))))"

section \<open>Pipes\<close>

text \<open>The two error paths of \<open>sys_pipe\<close> close both files.\<close>

definition close_both :: "nat \<Rightarrow> nat \<Rightarrow> 'a file_st_scheme \<Rightarrow> (u64 \<times> 'a file_st_scheme) kres" where
  "close_both rfl wfl s = kbind (fileclose rfl s) (\<lambda>s. kbind (fileclose wfl s) (\<lambda>s. Inr (- 1, s)))"

definition copyout_int :: "u64 \<Rightarrow> int \<Rightarrow> 'a proc_st_scheme \<Rightarrow> (int \<times> 'a proc_st_scheme) kres" where
  "copyout_int addr v s = copyout2 addr (\<lambda>i. le32 (of_int v) ! i) 4 s"

definition sys_pipe :: "'a file_st_scheme \<Rightarrow> (u64 \<times> 'a file_st_scheme) kres" where
  "sys_pipe s =
    kbind (curproc s) (\<lambda>(p, s).
    kbind (argaddr 0 s) (\<lambda>(fdarray, s).
    kbind (pipealloc s) (\<lambda>(r, s).
      case r of None \<Rightarrow> Inr (- 1, s)
      | Some (rfl, wfl) \<Rightarrow>
          kbind (fdalloc rfl s) (\<lambda>(fd0, s).
            case fd0 of None \<Rightarrow> close_both rfl wfl s
            | Some fd0 \<Rightarrow>
                kbind (fdalloc wfl s) (\<lambda>(fd1, s).
                  case fd1 of None \<Rightarrow> close_both rfl wfl (set_ofile p fd0 None s)
                  | Some fd1 \<Rightarrow>
                      let undo = (\<lambda>s. close_both rfl wfl (set_ofile p fd1 None (set_ofile p fd0 None s))) in
                      kbind (copyout_int fdarray (int fd0) s) (\<lambda>(e, s).
                        if e < 0 then undo s
                        else
                          kbind (copyout_int (fdarray + 4) (int fd1) s) (\<lambda>(e, s).
                            if e < 0 then undo s else Inr (0, s))))))))"

section \<open>The working directory\<close>

text \<open>
  The loop of \<open>sys_getcwd\<close>: \<open>pos\<close> is \<open>s - path\<close>, \<open>acc\<close> what is at \<open>s\<close>. Every turn moves \<open>s\<close> down.
\<close>

function getcwd_loop :: "nat \<Rightarrow> u8 list \<Rightarrow> eptr \<Rightarrow> 'a fat_st_scheme \<Rightarrow> u8 list option" where
  "getcwd_loop pos acc de s =
    (case eparent (dirents s de) of
       None \<Rightarrow> Some acc
     | Some up \<Rightarrow>
         let name = cstr (filename (dirents s de)) in
         if pos \<le> length name then None
         else getcwd_loop (pos - length name - 1) (0x2f # name @ acc) up s)"
  by pat_completeness auto
termination by (relation "measure (\<lambda>(pos, _). pos)") auto

declare getcwd_loop.simps [simp del]

definition sys_getcwd :: "'a file_st_scheme \<Rightarrow> (u64 \<times> 'a file_st_scheme) kres" where
  "sys_getcwd s =
    kbind (argaddr 0 s) (\<lambda>(addr, s).
    kbind (curproc s) (\<lambda>(p, s).
      case cwd (procs s p) of
        None \<Rightarrow> Inl Wild
      | Some de \<Rightarrow>
          (case (if eparent (dirents s de) = None then Some [0x2f] else getcwd_loop (FAT32_MAX_PATH - 1) [] de s) of
             None \<Rightarrow> Inr (- 1, s)
           | Some str \<Rightarrow>
               kbind (copyout2 addr (\<lambda>i. (str @ [0]) ! i) (of_nat (length str + 1)) s) (\<lambda>(e, s).
                 Inr (if e < 0 then - 1 else 0, s)))))"

section \<open>Removing and renaming\<close>

definition isdirempty :: "eptr \<Rightarrow> 'a file_st_scheme \<Rightarrow> (bool \<times> 'a file_st_scheme) kres" where
  "isdirempty dp s =
    kbind (enext dp stack_ent (2 * 32) 0 (upd_ent stack_ent (\<lambda>d. d\<lparr>evalid := 0\<rparr>) s)) (\<lambda>(r, _, s).
      Inr (r = - 1, s))"

text \<open>The test of \<open>sys_remove\<close> on the end of the path, behind which slashes do not count.\<close>

definition ends_in_dot :: "u8 list \<Rightarrow> bool" where
  "ends_in_dot str =
    (case dropWhile (\<lambda>c. c = 0x2f) (rev str) of
       [] \<Rightarrow> False
     | c # before \<Rightarrow> c = 0x2e \<and> (before = [] \<or> hd before = 0x2f))"

definition sys_remove :: "'a file_st_scheme \<Rightarrow> (u64 \<times> 'a file_st_scheme) kres" where
  "sys_remove s =
    kbind (argstr 0 FAT32_MAX_PATH s) (\<lambda>(len, bs, s).
      if len \<le> 0 then Inr (- 1, s)
      else if ends_in_dot (cstr bs) then Inr (- 1, s)
      else
        kbind (ename (cstr bs) s) (\<lambda>(ep, s).
          case ep of None \<Rightarrow> Inr (- 1, s)
          | Some e \<Rightarrow>
              kbind (elock ep s) (\<lambda>s.
              kbind (if attribute (dirents s e) AND ATTR_DIRECTORY \<noteq> 0 then isdirempty e s else Inr (True, s)) (\<lambda>(ok, s).
                if \<not> ok then kbind (eunlock ep s) (\<lambda>s. kbind (eput ep s) (\<lambda>s. Inr (- 1, s)))
                else
                  kbind (elock (eparent (dirents s e)) s) (\<lambda>s.
                  kbind (eremove e s) (\<lambda>s.
                  kbind (eunlock (eparent (dirents s e)) s) (\<lambda>s.
                  kbind (eunlock ep s) (\<lambda>s.
                  kbind (eput ep s) (\<lambda>s. Inr (0, s))))))))))"

text \<open>The parents of \<open>ep\<close>, itself included; a chain of parents is not longer than the cache.\<close>

primrec under :: "nat \<Rightarrow> eptr option \<Rightarrow> eptr \<Rightarrow> 'a fat_st_scheme \<Rightarrow> bool kres" where
  "under 0 ep src s = (if ep = None then Inr False else Inl Deep)"
| "under (Suc fuel) ep src s =
    (case ep of None \<Rightarrow> Inr False
     | Some e \<Rightarrow> if e = src then Inr True else under fuel (eparent (dirents s e)) src s)"

text \<open>The label \<open>fail\<close>.\<close>

definition put_opt :: "eptr option \<Rightarrow> 'a fat_st_scheme \<Rightarrow> 'a fat_st_scheme kres" where
  "put_opt e s = (if e = None then Inr s else eput e s)"

definition rename_fail :: "bool \<Rightarrow> eptr option \<Rightarrow> eptr option \<Rightarrow> eptr option \<Rightarrow> 'a fat_st_scheme \<Rightarrow> (u64 \<times> 'a fat_st_scheme) kres" where
  "rename_fail srclock src dst pdst s =
    kbind (if srclock then eunlock src s else Inr s) (\<lambda>s.
    kbind (put_opt dst s) (\<lambda>s. kbind (put_opt pdst s) (\<lambda>s. kbind (put_opt src s) (\<lambda>s. Inr (- 1, s)))))"

text \<open>
  The 255 bytes that \<open>memmove\<close> takes from the name: the string, its NUL, and what lies behind it.
\<close>

definition name_array :: "u8 list \<Rightarrow> u8 list \<Rightarrow> u8 list" where
  "name_array name junk = take FAT32_MAX_FILENAME (name @ [0] @ junk @ replicate FAT32_MAX_FILENAME 0)"

text \<open>From the removal of an old target on: the entry of \<open>src\<close> is made in \<open>pdst\<close> at \<open>off\<close> and removed where it was.\<close>

definition rename_move :: "eptr \<Rightarrow> eptr option \<Rightarrow> eptr \<Rightarrow> u8 list \<Rightarrow> u32 \<Rightarrow> 'a file_st_scheme \<Rightarrow> (u64 \<times> 'a file_st_scheme) kres" where
  "rename_move src dst pdst name off s =
    kbind (case dst of None \<Rightarrow> Inr s | Some d \<Rightarrow> kbind (eremove d s) (eunlock dst)) (\<lambda>s.
      let s = upd_ent src (\<lambda>d. d\<lparr>filename := name_array name (stack_junk s) @ drop FAT32_MAX_FILENAME (filename d)\<rparr>) s in
      kbind (emake pdst src off s) (\<lambda>s.
      kbind (if eparent (dirents s src) \<noteq> Some pdst
             then kbind (eunlock (Some pdst) s) (\<lambda>s. elock (eparent (dirents s src)) s) else Inr s) (\<lambda>s.
      kbind (eremove src s) (\<lambda>s.
      kbind (eunlock (eparent (dirents s src)) s) (\<lambda>s.
        let psrc = eparent (dirents s src) in
        kbind (edup (Some pdst) s) (\<lambda>(q, s).
          let s = upd_ent src (\<lambda>d. d\<lparr>eparent := q, eoff := off, evalid := 1\<rparr>) s in
          kbind (eunlock (Some src) s) (\<lambda>s.
          kbind (eput psrc s) (\<lambda>s.
          kbind (put_opt dst s) (\<lambda>s.
          kbind (eput (Some pdst) s) (\<lambda>s.
          kbind (eput (Some src) s) (\<lambda>s. Inr (0, s))))))))))))"

text \<open>From the two \<open>elock\<close> on. \<open>off\<close> is not initialised when \<open>dirlookup\<close> does not set it.\<close>

definition rename_locked :: "eptr \<Rightarrow> eptr \<Rightarrow> u8 list \<Rightarrow> 'a file_st_scheme \<Rightarrow> (u64 \<times> 'a file_st_scheme) kres" where
  "rename_locked src pdst name s =
    kbind (elock (Some src) s) (\<lambda>s.
    kbind (elock (Some pdst) s) (\<lambda>s.
    kbind (dirlookup pdst name True s) (\<lambda>(dst, off, s).
      let off = (case off of Some off \<Rightarrow> off | None \<Rightarrow> get32 (stack_junk s) 0);
          fail = rename_fail True (Some src) dst (Some pdst)
      in case dst of
           None \<Rightarrow> rename_move src None pdst name off s
         | Some d \<Rightarrow>
             kbind (eunlock (Some pdst) s) (\<lambda>s.
               if src = d then fail s
               else if attribute (dirents s src) AND attribute (dirents s d) AND ATTR_DIRECTORY \<noteq> 0 then
                 kbind (elock dst s) (\<lambda>s.
                 kbind (isdirempty d s) (\<lambda>(empty, s).
                   if \<not> empty then kbind (eunlock dst s) fail
                   else kbind (elock (Some pdst) s) (rename_move src dst pdst name off)))
               else fail s))))"

definition sys_rename :: "'a file_st_scheme \<Rightarrow> (u64 \<times> 'a file_st_scheme) kres" where
  "sys_rename s =
    kbind (argstr 0 FAT32_MAX_PATH s) (\<lambda>(len, old, s).
      if len < 0 then Inr (- 1, s)
      else
        kbind (argstr 1 FAT32_MAX_PATH s) (\<lambda>(len, new, s).
          if len < 0 then Inr (- 1, s)
          else
            kbind (ename (cstr old) s) (\<lambda>(src, s).
              case src of None \<Rightarrow> rename_fail False None None None s
              | Some sp \<Rightarrow>
                  kbind (enameparent (cstr new) (cstr old) s) (\<lambda>(pdst, old, s).
                    case pdst of None \<Rightarrow> rename_fail False src None None s
                    | Some dp \<Rightarrow>
                        (case formatname old of
                           None \<Rightarrow> rename_fail False src None pdst s
                         | Some name \<Rightarrow>
                             kbind (under (Suc ENTRY_CACHE_NUM) pdst sp s) (\<lambda>inside.
                               if inside then rename_fail False src None pdst s
                               else rename_locked sp dp name s))))))"

end
