(* ===== verification/FileProps.thy ===== *)
theory FileProps imports Sysfile ProcLife PipeProps begin

text \<open>
  Reference counts: the contract of a counted reference, as a locale, for the table of open files and for the cache of directory entries; and
  the invariant that the count of an open file is the number of descriptors that refer to it.
\<close>

section \<open>Counted references\<close>

text \<open>
  \<open>dup\<close> adds a reference to an object that has one, and \<open>drop\<close> takes one off that is not the last. \<open>ready\<close> is what both need of the state, and
  keep.
\<close>

locale refcount =
  fixes refs :: "'s \<Rightarrow> 'o \<Rightarrow> int"
    and ready :: "'s \<Rightarrow> bool"
    and many :: int
    and dup :: "'o \<Rightarrow> 's \<Rightarrow> 's kres"
    and drop_ref :: "'o \<Rightarrow> 's \<Rightarrow> 's kres"
  assumes dup_ok: "ready s \<Longrightarrow> 1 \<le> refs s x \<Longrightarrow> refs s x < many \<Longrightarrow>
      \<exists>s'. dup x s = Inr s' \<and> ready s' \<and> refs s' = (refs s)(x := refs s x + 1)"
    and drop_ok: "ready s \<Longrightarrow> 1 < refs s x \<Longrightarrow> refs s x \<le> many \<Longrightarrow>
      \<exists>s'. drop_ref x s = Inr s' \<and> ready s' \<and> refs s' = (refs s)(x := refs s x - 1)"
begin

primrec repeat :: "nat \<Rightarrow> ('s \<Rightarrow> 's kres) \<Rightarrow> 's \<Rightarrow> 's kres" where
  "repeat 0 f s = Inr s"
| "repeat (Suc n) f s = kbind (f s) (repeat n f)"

lemma dups: "ready s \<Longrightarrow> 1 \<le> refs s x \<Longrightarrow> refs s x + int n \<le> many \<Longrightarrow>
    \<exists>s'. repeat n (dup x) s = Inr s' \<and> ready s' \<and> refs s' = (refs s)(x := refs s x + int n)"
proof (induction n arbitrary: s)
  case (Suc n)
  then obtain s1 where s1: "dup x s = Inr s1" "ready s1" "refs s1 = (refs s)(x := refs s x + 1)"
    using dup_ok [of s x] by auto
  then have "1 \<le> refs s1 x" "refs s1 x + int n \<le> many" using Suc.prems by auto
  from Suc.IH [OF s1(2) this] obtain s2 where "repeat n (dup x) s1 = Inr s2" "ready s2" "refs s2 = (refs s1)(x := refs s1 x + int n)"
    by blast
  with s1 show ?case by (auto simp: algebra_simps)
qed simp

lemma drops: "ready s \<Longrightarrow> int n < refs s x \<Longrightarrow> refs s x \<le> many \<Longrightarrow>
    \<exists>s'. repeat n (drop_ref x) s = Inr s' \<and> ready s' \<and> refs s' = (refs s)(x := refs s x - int n)"
proof (induction n arbitrary: s)
  case (Suc n)
  then obtain s1 where s1: "drop_ref x s = Inr s1" "ready s1" "refs s1 = (refs s)(x := refs s x - 1)"
    using drop_ok [of s x] by auto
  then have "int n < refs s1 x" "refs s1 x \<le> many" using Suc.prems by auto
  from Suc.IH [OF s1(2) this] obtain s2 where "repeat n (drop_ref x) s1 = Inr s2" "ready s2" "refs s2 = (refs s1)(x := refs s1 x - int n)"
    by blast
  with s1 show ?case by (auto simp: algebra_simps)
qed simp

text \<open>References that are given back leave the counts as they were.\<close>

lemma dups_drops:
  assumes "ready s" and "1 \<le> refs s x" and "refs s x + int n \<le> many"
  shows "\<exists>s'. kbind (repeat n (dup x) s) (repeat n (drop_ref x)) = Inr s' \<and> ready s' \<and> refs s' = refs s"
proof -
  obtain s1 where s1: "repeat n (dup x) s = Inr s1" "ready s1" "refs s1 = (refs s)(x := refs s x + int n)"
    using dups [OF assms] by blast
  moreover obtain s2 where "repeat n (drop_ref x) s1 = Inr s2" "ready s2" "refs s2 = (refs s1)(x := refs s1 x - int n)"
    using drops [of s1 n x] s1 assms by auto
  ultimately show ?thesis by auto
qed

end

section \<open>Open files\<close>

lemma upd_file_simps [simp]:
  "core (upd_file f g s) = core s" "procs (upd_file f g s) = procs s" "mem (upd_file f g s) = mem s"
  "ftable (upd_file f g s) = (ftable s)(f := g (ftable s f))"
  by (simp_all add: upd_file_def)

lemma upd_file_core [simp]: "(upd_file f g s)\<lparr>core := c\<rparr> = upd_file f g (s\<lparr>core := c\<rparr>)"
  by (simp add: upd_file_def)

lemma running_upd_file [simp]: "running p (upd_file f g s) = running p s"
  by (simp add: running_def)

lemma filedup_eq:
  assumes "core_ok (core s)" and "lockfree FtableLock (core s)" and "1 \<le> fref (ftable s f)"
  shows "filedup f s = Inr (f, upd_file f (\<lambda>x. x\<lparr>fref := fref x + 1\<rparr>) (s\<lparr>core := settle (core s)\<rparr>))"
  using assms by (simp add: filedup_def lock_simps)

lemma filedup_ok [lock_simps]:
  assumes "running p s" and "1 \<le> fref (ftable s f)"
  shows "filedup f s = Inr (f, upd_file f (\<lambda>x. x\<lparr>fref := fref x + 1\<rparr>) (s\<lparr>core := settle (core s)\<rparr>))"
  by (rule filedup_eq [OF runningD(1,2) [OF assms(1)] assms(2)])

lemma fileclose_shared [lock_simps]:
  assumes "running p s" and "1 < fref (ftable s f)"
  shows "fileclose f s = Inr (upd_file f (\<lambda>x. x\<lparr>fref := fref x - 1\<rparr>) (s\<lparr>core := settle (core s)\<rparr>))"
  using assms runningD [OF assms(1)] by (simp add: fileclose_def lock_simps)

lemma fileclose_device:
  assumes "running p s" and "fref (ftable s f) = 1" and "ftype (ftable s f) = FD_DEVICE"
  shows "fileclose f s = Inr (upd_file f (\<lambda>x. x\<lparr>fref := 0, ftype := FD_NONE\<rparr>) (s\<lparr>core := settle (core s)\<rparr>))"
proof -
  have "upd_file f g (upd_file f h t) = upd_file f (\<lambda>x. g (h x)) t" for g h and t :: "'a file_st_scheme"
    by (simp add: upd_file_def)
  then show ?thesis using assms runningD [OF assms(1)] by (simp add: fileclose_def lock_simps)
qed

definition file_refs :: "'a file_st_scheme \<Rightarrow> nat \<Rightarrow> int" where
  "file_refs s f = fref (ftable s f)"

text \<open>The counts of the model do not wrap; those of the code are 32-bit.\<close>

interpretation fr: refcount file_refs "running p" "2 ^ 31 - 1" "\<lambda>f s. kbind (filedup f s) (\<lambda>(_, s). Inr s)" fileclose for p
proof (unfold_locales, goal_cases)
  case (1 s f)
  then show ?case by (auto simp: file_refs_def [abs_def] lock_simps)
next
  case (2 s f)
  then show ?case by (auto simp: file_refs_def [abs_def] lock_simps)
qed

section \<open>Cached entries\<close>

definition entry_refs :: "'a fat_st_scheme \<Rightarrow> eptr \<Rightarrow> int" where
  "entry_refs s e = sint (eref (dirents s e))"

lemma running_upd_ent [simp]: "running p (upd_ent e f s) = running p s"
  by (simp add: running_def)

lemma sint_inc: "sint (w::u32) < 2 ^ 31 - 1 \<Longrightarrow> sint (w + 1) = sint w + 1"
  using sint_ge [of w] by (simp add: signed_word_eqI sint_word_ariths signed_take_bit_int_eq_self)

lemma sint_dec: "- (2 ^ 31) < sint (w::u32) \<Longrightarrow> sint (w - 1) = sint w - 1"
  using sint_lt [of w] by (simp add: sint_word_ariths signed_take_bit_int_eq_self)

interpretation er: refcount entry_refs "running p" "2 ^ 31 - 1" "\<lambda>e s. kbind (edup (Some e) s) (\<lambda>(_, s). Inr s)" "\<lambda>e. eput (Some e)" for p
proof (unfold_locales, goal_cases)
  case (1 s e)
  then show ?case by (auto simp: entry_refs_def [abs_def] lock_simps sint_inc)
next
  case (2 s e)
  then have "eref (dirents s e) \<noteq> 1" by (auto simp: entry_refs_def)
  then show ?case using 2 by (auto simp: entry_refs_def [abs_def] lock_simps sint_dec)
qed

section \<open>Descriptors are counted\<close>

text \<open>The descriptors, of any process, that refer to the file \<open>f\<close>.\<close>

definition fds_of :: "'a proc_st_scheme \<Rightarrow> nat \<Rightarrow> (nat \<times> nat) set" where
  "fds_of s f = {(q, fd). q < NPROC \<and> fd < NOFILE \<and> ofile (procs s q) fd = Some f}"

definition counted :: "'a file_st_scheme \<Rightarrow> bool" where
  "counted s \<longleftrightarrow> (\<forall>f. fref (ftable s f) = int (card (fds_of s f)))"

lemma finite_fds_of [simp]: "finite (fds_of s f)"
proof -
  have "fds_of s f \<subseteq> {..<NPROC} \<times> {..<NOFILE}" by (auto simp: fds_of_def)
  then show ?thesis by (rule finite_subset) simp
qed

lemma counted_pos:
  assumes "counted s" and "q < NPROC" and "fd < NOFILE" and "ofile (procs s q) fd = Some f"
  shows "1 \<le> fref (ftable s f)"
proof -
  have "(q, fd) \<in> fds_of s f" using assms(2-4) by (simp add: fds_of_def)
  then have "0 < card (fds_of s f)" by (auto simp: card_gt_0_iff)
  then show ?thesis using assms(1) by (simp add: counted_def)
qed

text \<open>Taking and giving back a descriptor, with the count.\<close>

lemma counted_add:
  assumes "counted s" and "q < NPROC" and "fd < NOFILE" and "ofile (procs s q) fd = None"
    and "ftable s' = (ftable s)(f := (ftable s f)\<lparr>fref := fref (ftable s f) + 1\<rparr>)"
    and "\<And>r. ofile (procs s' r) = (if r = q then (ofile (procs s r))(fd := Some f) else ofile (procs s r))"
  shows "counted s'"
  unfolding counted_def
proof
  fix g
  have "fds_of s' g = (if g = f then insert (q, fd) (fds_of s g) else fds_of s g)"
    using assms(2-4,6) by (auto simp: fds_of_def split: if_splits)
  moreover have "card (insert (q, fd) (fds_of s f)) = Suc (card (fds_of s f))"
    using assms(4) by (intro card_insert_disjoint finite_fds_of) (simp add: fds_of_def)
  ultimately show "fref (ftable s' g) = int (card (fds_of s' g))"
    using assms(1,5) by (simp add: counted_def)
qed

lemma counted_remove:
  assumes "counted s" and "q < NPROC" and "fd < NOFILE" and "ofile (procs s q) fd = Some f"
    and "ftable s' = (ftable s)(f := (ftable s f)\<lparr>fref := fref (ftable s f) - 1\<rparr>)"
    and "\<And>r. ofile (procs s' r) = (if r = q then (ofile (procs s r))(fd := None) else ofile (procs s r))"
  shows "counted s'"
  unfolding counted_def
proof
  fix g
  have "fds_of s' g = fds_of s g - {(q, fd)}"
    using assms(2-4,6) by (auto simp: fds_of_def split: if_splits)
  moreover have "(q, fd) \<in> fds_of s g \<longleftrightarrow> g = f" using assms(2-4) by (auto simp: fds_of_def)
  moreover have "0 < card (fds_of s f)" using counted_pos [OF assms(1-4)] assms(1) by (simp add: counted_def)
  ultimately show "fref (ftable s' g) = int (card (fds_of s' g))"
    using assms(1,5) by (simp add: counted_def card_Diff_singleton_if of_nat_diff del: card_gt_0_iff)
qed

section \<open>System calls\<close>

lemma uint_of_sint: "0 \<le> sint (w::u32) \<Longrightarrow> uint w = sint w"
proof -
  assume "0 \<le> sint w"
  then have "\<not> bit (uint w) 31" by (simp add: sint_uint flip: not_less)
  moreover have "take_bit (Suc 31) (uint w) = uint w" using uint_lt2p [of w] by (simp add: take_bit_int_eq_self)
  ultimately show ?thesis using take_bit_Suc_from_most [of 31 "uint w"] by (simp add: sint_uint signed_take_bit_eq_if_positive)
qed

text \<open>The running process is found again after its first look-up.\<close>

lemma curproc_settled [lock_simps]:
  "running p s \<Longrightarrow> curproc (s\<lparr>core := settle (core s)\<rparr>) = Inr (p, s\<lparr>core := settle (core s)\<rparr>)"
  using curproc_running [OF running_settle, of p s] by simp

lemma argint_ok [lock_simps]:
  "running p s \<Longrightarrow> argint 0 s = Inr (ucast (tf_get p TF_a0 s), s\<lparr>core := settle (core s)\<rparr>)"
  by (simp add: argint_def argraw_def lock_simps tf_get_def)

text \<open>The file behind the first argument.\<close>

definition arg_file :: "nat \<Rightarrow> 'a proc_st_scheme \<Rightarrow> (nat \<times> nat) option" where
  "arg_file p s =
    (let w = (ucast (tf_get p TF_a0 s) :: u32) in
     if sint w < 0 \<or> sint w \<ge> int NOFILE then None
     else case ofile (procs s p) (unat w) of None \<Rightarrow> None | Some f \<Rightarrow> Some (unat w, f))"

lemma arg_file_range:
  assumes "arg_file p s = Some (fd, f)"
  shows "fd < NOFILE" and "ofile (procs s p) fd = Some f"
proof -
  let ?w = "ucast (tf_get p TF_a0 s) :: u32"
  have w: "0 \<le> sint ?w" "sint ?w < int NOFILE" "fd = unat ?w" "ofile (procs s p) fd = Some f"
    using assms by (auto simp: arg_file_def Let_def split: if_splits option.splits)
  then have "uint ?w = sint ?w" by (intro uint_of_sint)
  moreover have "int (unat ?w) = uint ?w" by simp
  ultimately have "int (unat ?w) < int NOFILE" using w(2) by linarith
  then show "fd < NOFILE" unfolding w(3) by linarith
  show "ofile (procs s p) fd = Some f" by (rule w(4))
qed

lemma argfd_ok [lock_simps]:
  assumes "running p s"
  shows "argfd 0 s = Inr (arg_file p s, s\<lparr>core := settle (core s)\<rparr>)"
  using assms by (auto simp: argfd_def arg_file_def lock_simps tf_get_def Let_def split: option.splits)

lemma fdalloc_ok [lock_simps]:
  assumes "running p s"
  shows "fdalloc f s =
    (case find (\<lambda>fd. ofile (procs s p) fd = None) [0..<NOFILE] of
       Some fd \<Rightarrow> Inr (Some fd, upd_proc p (\<lambda>q. q\<lparr>ofile := (ofile q)(fd := Some f)\<rparr>) (s\<lparr>core := settle (core s)\<rparr>))
     | None \<Rightarrow> Inr (None, s\<lparr>core := settle (core s)\<rparr>))"
  using assms by (simp add: fdalloc_def lock_simps)

lemma fdalloc_settled [lock_simps]:
  assumes "running p s"
  shows "fdalloc f (s\<lparr>core := settle (core s)\<rparr>) = fdalloc f s"
  using assms by (simp add: lock_simps fdalloc_ok [OF running_settle] cong: option.case_cong)

lemma running_upd_proc [simp]: "running p (upd_proc q g s) = running p s"
  by (simp add: running_def)

text \<open>
  \<open>sys_dup\<close> gives the file behind its argument the lowest free descriptor, or fails with -1 and no change when the argument is no open descriptor or
  there is no free one; in every case the count of each file is still the number of its descriptors.
\<close>

theorem sys_dup_counts:
  assumes "running p s" and "p < NPROC" and "counted s"
  shows "\<exists>r s'. sys_dup s = Inr (r, s') \<and> counted s' \<and>
    (case arg_file p s of
       None \<Rightarrow> r = - 1 \<and> procs s' = procs s
     | Some (_, f) \<Rightarrow>
         (case find (\<lambda>fd. ofile (procs s p) fd = None) [0..<NOFILE] of
            None \<Rightarrow> r = - 1 \<and> procs s' = procs s
          | Some fd \<Rightarrow> r = of_nat fd \<and> ofile (procs s' p) = (ofile (procs s p))(fd := Some f)))"
proof -
  let ?s = "s\<lparr>core := settle (core s)\<rparr>"
  have same: "counted ?s" using assms(3) by (simp add: counted_def fds_of_def)
  show ?thesis
  proof (cases "arg_file p s")
    case None
    then show ?thesis using assms same by (simp add: sys_dup_def lock_simps)
  next
    case (Some a)
    then obtain fd0 f where a: "arg_file p s = Some (fd0, f)" by (cases a) simp
    note rng = arg_file_range [OF a]
    have pos: "1 \<le> fref (ftable s f)" using counted_pos [OF assms(3,2) rng] .
    show ?thesis
    proof (cases "find (\<lambda>fd. ofile (procs s p) fd = None) [0..<NOFILE]")
      case None
      then show ?thesis using assms same a by (simp add: sys_dup_def lock_simps)
    next
      case (Some fd)
      then have fd: "fd < NOFILE" "ofile (procs s p) fd = None" by (auto simp: find_Some_iff)
      let ?t = "upd_file f (\<lambda>x. x\<lparr>fref := fref x + 1\<rparr>) (upd_proc p (\<lambda>q. q\<lparr>ofile := (ofile q)(fd := Some f)\<rparr>) ?s)"
      have r: "running p (upd_proc p (\<lambda>q. q\<lparr>ofile := (ofile q)(fd := Some f)\<rparr>) ?s)" using assms(1) by simp
      have "ftable (upd_proc p g u) = ftable u" for g and u :: "'a file_st_scheme" by (simp add: upd_proc_def)
      note ft = this
      have "sys_dup s = Inr (of_nat fd, ?t)"
        using assms(1) a Some pos by (simp add: sys_dup_def lock_simps ft filedup_ok [OF r])
      moreover have "counted ?t"
        by (rule counted_add [OF assms(3,2) fd, of _ f]) (simp_all add: ft)
      ultimately show ?thesis using a Some by simp
    qed
  qed
qed

section \<open>fork and close\<close>

lemma ftable_upd_proc [simp]: "ftable (upd_proc p g s) = ftable s" for s :: "'a file_st_scheme"
  by (simp add: upd_proc_def)

text \<open>The loop of \<open>fork\<close> over the descriptors \<open>fds\<close>, which runs with the lock of the child held.\<close>

lemma dup_files_counts:
  assumes "core_ok (core s)" and "lockfree FtableLock (core s)" and "counted s"
    and "p < NPROC" and "np < NPROC" and "p \<noteq> np" and "distinct fds" and "set fds \<subseteq> {..<NOFILE}"
    and "\<And>fd. fd \<in> set fds \<Longrightarrow> ofile (procs s np) fd = None"
  shows "\<exists>s'. dup_files fds p np s = Inr s' \<and> counted s' \<and>
    (\<forall>q. ofile (procs s' q) =
      (if q = np then (\<lambda>fd. if fd \<in> set fds then ofile (procs s p) fd else ofile (procs s np) fd) else ofile (procs s q)))"
  using assms
proof (induction fds arbitrary: s)
  case Nil
  then show ?case by simp
next
  case (Cons fd fds)
  show ?case
  proof (cases "ofile (procs s p) fd")
    case None
    then obtain s' where "dup_files fds p np s = Inr s'" "counted s'"
      "\<forall>q. ofile (procs s' q) =
        (if q = np then (\<lambda>fd. if fd \<in> set fds then ofile (procs s p) fd else ofile (procs s np) fd) else ofile (procs s q))"
      using Cons.IH [of s] Cons.prems by auto
    then show ?thesis using None Cons.prems by (auto simp: fun_eq_iff)
  next
    case (Some f)
    let ?t = "upd_proc np (\<lambda>q. q\<lparr>ofile := (ofile q)(fd := Some f)\<rparr>) (upd_file f (\<lambda>x. x\<lparr>fref := fref x + 1\<rparr>) (s\<lparr>core := settle (core s)\<rparr>))"
    have o: "ofile (procs ?t q) = (if q = np then (ofile (procs s q))(fd := Some f) else ofile (procs s q))" for q by simp
    have fd: "fd < NOFILE" "ofile (procs s np) fd = None" using Cons.prems by auto
    have "dup_files (fd # fds) p np s = dup_files fds p np ?t"
      using Some filedup_eq [OF Cons.prems(1,2) counted_pos [OF Cons.prems(3,4) fd(1) Some]] by simp
    moreover have "counted ?t"
      by (rule counted_add [OF Cons.prems(3,5) fd, of _ f]) simp_all
    moreover from this have "\<exists>s'. dup_files fds p np ?t = Inr s' \<and> counted s' \<and> (\<forall>q. ofile (procs s' q) =
        (if q = np then (\<lambda>g. if g \<in> set fds then ofile (procs ?t p) g else ofile (procs ?t np) g) else ofile (procs ?t q)))"
      using Cons.prems by (intro Cons.IH) auto
    ultimately show ?thesis using Some Cons.prems(6,7) unfolding o by (auto simp: fun_eq_iff)
  qed
qed

text \<open>
  C29: The child that \<open>fork\<close> makes has the descriptors of its parent: the loop of \<open>fork\<close> never finds a file whose count is 0, copies every
  descriptor, and counts each copy, also when several descriptors refer to the same file.
\<close>

theorem fork_shares_files:
  assumes "core_ok (core s)" and "lockfree FtableLock (core s)" and "counted s"
    and "p < NPROC" and "np < NPROC" and "p \<noteq> np" and "ofile (procs s np) = (\<lambda>_. None)"
  shows "\<exists>s'. dup_files [0..<NOFILE] p np s = Inr s' \<and> counted s' \<and>
    map (ofile (procs s' np)) [0..<NOFILE] = map (ofile (procs s p)) [0..<NOFILE] \<and>
    ofile (procs s' p) = ofile (procs s p)"
proof -
  have "\<exists>s'. dup_files [0..<NOFILE] p np s = Inr s' \<and> counted s' \<and>
    (\<forall>q. ofile (procs s' q) =
      (if q = np then (\<lambda>fd. if fd \<in> set [0..<NOFILE] then ofile (procs s p) fd else ofile (procs s np) fd) else ofile (procs s q)))"
    using assms by (intro dup_files_counts) auto
  then show ?thesis using assms(6) by auto
qed

text \<open>
  C31: \<open>sys_close\<close> on an open descriptor whose file has another one, or is a device, frees the descriptor and takes it off the count; on anything that is no open
  descriptor it fails with -1 and changes nothing. Every file is still counted.
\<close>

theorem sys_close_counts:
  assumes "running p s" and "p < NPROC" and "counted s"
    and "case arg_file p s of None \<Rightarrow> True | Some (_, f) \<Rightarrow> 1 < fref (ftable s f) \<or> ftype (ftable s f) = FD_DEVICE"
  shows "\<exists>r s'. sys_close s = Inr (r, s') \<and> counted s' \<and>
    (case arg_file p s of
       None \<Rightarrow> r = - 1 \<and> procs s' = procs s \<and> ftable s' = ftable s
     | Some (fd, f) \<Rightarrow> r = 0 \<and> ofile (procs s' p) = (ofile (procs s p))(fd := None) \<and>
         fref (ftable s' f) = fref (ftable s f) - 1)"
proof (cases "arg_file p s")
  case None
  have "counted (s\<lparr>core := settle (core s)\<rparr>)" using assms(3) by (simp add: counted_def fds_of_def)
  with None show ?thesis using assms by (simp add: sys_close_def lock_simps)
next
  case (Some a)
  then obtain fd f where a: "arg_file p s = Some (fd, f)" by (cases a) simp
  note rng = arg_file_range [OF a]
  have pos: "1 \<le> fref (ftable s f)" by (rule counted_pos [OF assms(3,2) rng])
  let ?u = "set_ofile p fd None (s\<lparr>core := settle (core s)\<rparr>)"
  have r: "running p ?u" using assms(1) by (simp add: set_ofile_def)
  have "\<exists>s'. fileclose f ?u = Inr s' \<and> counted s' \<and> procs s' = procs ?u \<and> fref (ftable s' f) = fref (ftable s f) - 1"
    (is "\<exists>s'. _ = _ \<and> ?P s'")
  proof (cases "1 < fref (ftable s f)")
    case True
    let ?t = "upd_file f (\<lambda>x. x\<lparr>fref := fref x - 1\<rparr>) ?u"
    have "counted ?t" by (rule counted_remove [OF assms(3,2) rng]) (simp_all add: set_ofile_def)
    then show ?thesis using True fileclose_shared [OF r, of f] by (simp add: set_ofile_def)
  next
    case False
    then have one: "fref (ftable s f) = 1" and dev: "ftype (ftable s f) = FD_DEVICE" using pos a assms(4) by auto
    let ?t = "upd_file f (\<lambda>x. x\<lparr>fref := 0, ftype := FD_NONE\<rparr>) ?u"
    let ?v = "upd_file f (\<lambda>x. x\<lparr>fref := fref x - 1\<rparr>) ?u"
    have "counted ?v" by (rule counted_remove [OF assms(3,2) rng]) (simp_all add: set_ofile_def)
    moreover have "fref (ftable ?t g) = fref (ftable ?v g)" "fds_of ?t g = fds_of ?v g" for g
      using one by (simp_all add: fds_of_def set_ofile_def)
    ultimately have "counted ?t" unfolding counted_def by metis
    moreover have "fileclose f ?u = Inr ?t"
      using one dev fileclose_device [OF r, of f] by (simp add: set_ofile_def)
    ultimately show ?thesis using one by (simp add: set_ofile_def)
  qed
  then obtain s' where "fileclose f ?u = Inr s'" "?P s'" by blast
  then show ?thesis using a assms(1) by (simp add: sys_close_def lock_simps set_ofile_def)
qed

section \<open>Two descriptors of a console\<close>

definition file_demo :: file_st where
  "file_demo =
    (pipe_st.extend pipe_demo
      \<lparr>ftable = (\<lambda>f. if f = 0 then file0\<lparr>ftype := FD_DEVICE, fref := 2\<rparr> else file0),
        dread = (\<lambda>_. None), dwrite = (\<lambda>_. None), stack_junk = []\<rparr>)
    \<lparr>mem := (\<lambda>_. 0), procs := (\<lambda>q. if q = 2 then no_proc\<lparr>ofile := (\<lambda>_. None)(0 := Some 0, 2 := Some 0)\<rparr> else no_proc)\<rparr>"

lemma file_demo_simps:
  "core file_demo = core pipe_demo" "mem file_demo = (\<lambda>_. 0)"
  "procs file_demo = (\<lambda>q. if q = 2 then no_proc\<lparr>ofile := (\<lambda>_. None)(0 := Some 0, 2 := Some 0)\<rparr> else no_proc)"
  "ftable file_demo = (\<lambda>f. if f = 0 then file0\<lparr>ftype := FD_DEVICE, fref := 2\<rparr> else file0)"
  by (simp_all add: file_demo_def pipe_st.defs)

lemma file_demo_ok: "running 2 file_demo" "counted file_demo" "2 < NPROC" "arg_file 2 file_demo = Some (0, 0)"
proof -
  show "running 2 file_demo" using pipe_demo_ok(1) by (simp add: running_def file_demo_simps)
  show n: "2 < NPROC" by (simp add: NPROC_def)
  have "fds_of file_demo f = (if f = 0 then {(2, 0), (2, 2)} else {})" for f
    using n by (auto simp: fds_of_def file_demo_simps no_proc_def NOFILE_def split: if_splits)
  then show "counted file_demo" by (simp add: counted_def file_demo_simps file0_def)
  have "tf_get 2 TF_a0 file_demo = 0"
    unfolding tf_get_def file_demo_simps load64_def by (simp add: word_rcat_def)
  then show "arg_file 2 file_demo = Some (0, 0)"
    by (simp add: arg_file_def file_demo_simps NOFILE_def no_proc_def)
qed

lemma sys_dup_counts_witness:
  "\<exists>s'. sys_dup file_demo = Inr (1, s') \<and> counted s' \<and> ofile (procs s' 2) 1 = Some 0"
  using sys_dup_counts [OF file_demo_ok(1,3,2)] file_demo_ok(4)
  by (auto simp: file_demo_simps NOFILE_def no_proc_def upt_rec)

lemma fork_shares_files_witness:
  "\<exists>s'. dup_files [0..<NOFILE] 2 3 file_demo = Inr s' \<and> counted s' \<and> ofile (procs s' 3) 2 = Some 0"
proof -
  have "2 < NPROC" "3 < NPROC" "(2::nat) \<noteq> 3" "ofile (procs file_demo 3) = (\<lambda>_. None)"
    by (simp_all add: NPROC_def file_demo_simps no_proc_def)
  from fork_shares_files [OF runningD(1,2) [OF file_demo_ok(1)] file_demo_ok(2) this]
  obtain s' where s': "dup_files [0..<NOFILE] 2 3 file_demo = Inr s'" "counted s'"
    "map (ofile (procs s' 3)) [0..<NOFILE] = map (ofile (procs file_demo 2)) [0..<NOFILE]" by blast
  then have "ofile (procs s' 3) 2 = ofile (procs file_demo 2) 2" by (simp add: NOFILE_def)
  with s' show ?thesis by (simp add: file_demo_simps no_proc_def)
qed

lemma sys_close_counts_witness:
  "\<exists>s'. sys_close file_demo = Inr (0, s') \<and> counted s' \<and> ofile (procs s' 2) 0 = None"
proof -
  have "case arg_file 2 file_demo of None \<Rightarrow> True
      | Some (_, f) \<Rightarrow> 1 < fref (ftable file_demo f) \<or> ftype (ftable file_demo f) = FD_DEVICE"
    by (simp add: file_demo_ok(4) file_demo_simps file0_def)
  from sys_close_counts [OF file_demo_ok(1,3,2) this] show ?thesis by (auto simp: file_demo_ok(4))
qed

section \<open>Errors of reads and writes\<close>

lemma file_frame [simp]:
  "ftable (set_slock k v s) = ftable s" "ftable (wake ch s) = ftable s" "ftable (upd_ent e g s) = ftable s"
  "dirents (upd_file f h s) = dirents s" "slocks (upd_file f h s) = slocks s"
  for s :: "'a file_st_scheme"
  by (simp_all add: set_slock_def wake_def upd_ent_def upd_file_def)

text \<open>
  Writing -1 bytes to a file whose offset is not 0 fails with -1, and yet takes the offset back by one: \<open>ewrite\<close> reports the error with
  the number that was asked for.
\<close>

theorem filewrite_minus_one:
  assumes "running p s" and "ftype (ftable s f) = FD_ENTRY" and "writable (ftable s f)" and "fep (ftable s f) = Some e"
    and "\<not> sl_locked (slocks s (EntSL e))" and "1 \<le> sint (eref (dirents s e))" and "foff (ftable s f) \<noteq> 0"
  shows "\<exists>s'. filewrite f addr (- 1) s = Inr (- 1, s') \<and> foff (ftable s' f) = foff (ftable s f) - 1"
proof -
  let ?t = "set_slock (EntSL e) \<lparr>sl_locked = True, sl_pid = pid (procs s p)\<rparr> (s\<lparr>core := settle (core s)\<rparr>)"
  let ?u = "upd_file f (\<lambda>x. x\<lparr>foff := foff x - 1\<rparr>) ?t"
  have "foff (ftable s f) + - 1 < foff (ftable s f)"
    using assms(7) by (simp add: word_less_nat_alt unat_minus_one unat_gt_0)
  then have w: "ewrite e (UserAddr addr) (foff (ftable s f)) (- 1) ?t = Inr (- 1, ?t)" by (simp add: ewrite_def)
  have r: "running p ?u" using assms(1) by (simp add: running_def)
  have "slocks ?u (EntSL e) = \<lparr>sl_locked = True, sl_pid = pid (procs ?u p)\<rparr>" "1 \<le> sint (eref (dirents ?u e))"
    using assms(6) by simp_all
  from eunlock_held [OF r this] obtain s' where "eunlock (Some e) ?u = Inr s'" "ftable s' = ftable ?u" by simp
  then show ?thesis
    using assms(2-4) elock_free [OF assms(1,5,6)] w by (simp add: filewrite_def)
qed

text \<open>\<open>readdir\<close> panics when the stack happens to hold a number other than 0 where the entry's \<open>valid\<close> is.\<close>

lemma dirnext_junk_panics:
  assumes "running p s" and "readable (ftable s f)" and "fep (ftable s f) = Some e"
    and "attribute (dirents s e) AND ATTR_DIRECTORY \<noteq> 0" and "\<not> sl_locked (slocks s (EntSL e))" and "1 \<le> sint (eref (dirents s e))"
    and "evalid (dirents s stack_ent) \<noteq> 0"
  shows "dirnext f addr s = Inl (Panic ''enext ep valid'')"
  using assms(2-4,7) elock_free [OF assms(1,5,6)]
  by (simp add: dirnext_def enext_def)

lemma filewrite_minus_one_witness:
  "\<exists>s'. filewrite 1 0 (- 1) (upd_file 1 (\<lambda>x. x\<lparr>ftype := FD_ENTRY, writable := True, fep := Some Root, foff := 5\<rparr>)
      (upd_ent Root (\<lambda>d. d\<lparr>eref := 1\<rparr>) (set_slock (EntSL Root) \<lparr>sl_locked = False, sl_pid = 0\<rparr> file_demo))) = Inr (- 1, s') \<and> foff (ftable s' 1) = 4"
proof -
  let ?s = "upd_file 1 (\<lambda>x. x\<lparr>ftype := FD_ENTRY, writable := True, fep := Some Root, foff := 5\<rparr>) (upd_ent Root (\<lambda>d. d\<lparr>eref := 1\<rparr>)
      (set_slock (EntSL Root) \<lparr>sl_locked = False, sl_pid = 0\<rparr> file_demo))"
  have "running 2 ?s" using file_demo_ok(1) by (simp add: running_def)
  then show ?thesis using filewrite_minus_one [of 2 ?s 1 Root 0] by simp
qed

end
