(* ===== verification/WaitProps.thy ===== *)
theory WaitProps imports ProcLife begin

text \<open>
  How \<open>exit\<close> and \<open>wait\<close> of kernel/proc.c meet: the last part of \<open>exit\<close>, which makes the process a zombie and wakes its parent, and one turn of
  \<open>wait\<close>, which finds a zombie, gives up or goes to sleep.
\<close>

section \<open>exit\<close>

text \<open>A process of the table when \<open>p\<close>, whose parent is \<open>par\<close>, has exited.\<close>

definition after_exit :: "nat \<Rightarrow> nat \<Rightarrow> nat option \<Rightarrow> int \<Rightarrow> nat \<Rightarrow> proc \<Rightarrow> proc" where
  "after_exit p par ip status i q =
    (if i = p then q\<lparr>xstate := status, pstate := ZOMBIE\<rparr>
     else if i = par then woken (ChProc par) q
     else if i < NPROC \<and> parent q = Some p then q\<lparr>parent := ip\<rparr> else q)"

lemma procs_cong: "(\<And>i. f i = g i) \<Longrightarrow> s\<lparr>procs := f\<rparr> = s\<lparr>procs := g\<rparr>"
  by (rule arg_cong [of f g "\<lambda>x. s\<lparr>procs := x\<rparr>"]) auto

lemma initproc_upd_proc: "initproc (upd_proc i f s) = initproc s"
  by (simp add: upd_proc_def)

lemma set_procs_upd: "(upd_proc i f s)\<lparr>procs := g\<rparr> = s\<lparr>procs := g\<rparr>"
  by (simp add: upd_proc_def)

lemma wakeup1_eq: "holding (ProcLock p) (core s) \<Longrightarrow> wakeup1 p s = Inr (upd_proc p (woken (ChProc p)) s)"
  by (auto simp: wakeup1_def woken_def upd_proc_def)

lemma reparent_loop_eq:
  assumes "core s = acq l c" and "core_ok c" and "\<And>i. i \<in> set is \<Longrightarrow> parent (procs s i) = Some p \<Longrightarrow> lockfree (ProcLock i) (core s)"
    and "distinct is"
  shows "reparent_loop is p s =
    Inr (s\<lparr>procs := (\<lambda>i. if i \<in> set is \<and> parent (procs s i) = Some p then (procs s i)\<lparr>parent := initproc s\<rparr> else procs s i)\<rparr>)"
  using assms
proof (induction "is" arbitrary: s)
  case (Cons i "is")
  show ?case
  proof (cases "parent (procs s i) = Some p")
    case False
    then show ?thesis using Cons by (simp add: fun_eq_iff)
  next
    case True
    let ?t = "upd_proc i (\<lambda>q. q\<lparr>parent := initproc s\<rparr>) s"
    have "lockfree (ProcLock i) (core s)" "core_ok (core s)" "settle (core s) = core s" using Cons.prems True by auto
    then have "reparent_loop (i # is) p s = reparent_loop is p ?t"
      using True by (simp add: lock_simps upd_proc_def)
    also have "\<dots> = Inr (?t\<lparr>procs := (\<lambda>j. if j \<in> set is \<and> parent (procs ?t j) = Some p then (procs ?t j)\<lparr>parent := initproc ?t\<rparr> else procs ?t j)\<rparr>)"
      by (rule Cons.IH) (use Cons.prems in \<open>auto split: if_splits\<close>)
    also have "?t\<lparr>procs := (\<lambda>j. if j \<in> set is \<and> parent (procs ?t j) = Some p then (procs ?t j)\<lparr>parent := initproc ?t\<rparr> else procs ?t j)\<rparr> =
        s\<lparr>procs := (\<lambda>j. if j \<in> set (i # is) \<and> parent (procs s j) = Some p then (procs s j)\<lparr>parent := initproc s\<rparr> else procs s j)\<rparr>"
      unfolding set_procs_upd by (rule procs_cong) (use Cons.prems(4) True in \<open>auto simp: initproc_upd_proc\<close>)
    finally show ?thesis .
  qed
qed simp

text \<open>
  C37: The last part of \<open>exit\<close>, in which a process holds its own lock and that of its parent, reaches the context switch with its own lock
  alone and finds nothing to panic about. The process is a zombie with its status, its children have \<open>init\<close> for a parent, a parent that sleeps in
  \<open>wait\<close> is runnable, so that the wakeup is not lost, and no other process has changed.
\<close>

theorem exit_wakes_parent:
  assumes "idle c" and "noff (mycpu c) = 0" and "cproc (mycpu c) = Some p" and "core s = acq (ProcLock p) (acq (ProcLock par) c)"
    and "par \<noteq> p" and "parent (procs s par) \<noteq> Some p" and "parent (procs s p) \<noteq> Some p"
  shows "\<exists>ie s'. exit_last p par status s = Inr (ie, s') \<and> core s' = acq (ProcLock p) c \<and>
    procs s' = (\<lambda>i. after_exit p par (initproc s) status i (procs s i))"
proof -
  note i = idleD [OF assms(1)]
  let ?t = "s\<lparr>procs := (\<lambda>i. if i < NPROC \<and> parent (procs s i) = Some p then (procs s i)\<lparr>parent := initproc s\<rparr> else procs s i)\<rparr>"
  define t where "t = ?t"
  have t: "core t = core s" "\<And>j. procs t j = (if j < NPROC \<and> parent (procs s j) = Some p then (procs s j)\<lparr>parent := initproc s\<rparr> else procs s j)"
    by (simp_all add: t_def)
  have "reparent p s = Inr t"
    unfolding t_def reparent_def using i assms(4-7)
    by (subst reparent_loop_eq [OF assms(4)]) auto
  moreover have "wakeup1 par t = Inr (upd_proc par (woken (ChProc par)) t)"
    by (rule wakeup1_eq) (simp add: t(1) assms(4))
  moreover have "release (ProcLock par) (core s) = Inr (acq (ProcLock p) c)"
    using release_outer [OF i(1) i(2)] assms(4,5) by simp
  ultimately have "exit_last p par status s =
      sched (upd_proc p (\<lambda>q. q\<lparr>xstate := status, pstate := ZOMBIE\<rparr>) (upd_proc par (woken (ChProc par)) (t\<lparr>core := acq (ProcLock p) c\<rparr>)))"
    (is "_ = sched ?u")
    by (simp add: exit_last_def on_core_def t(1))
  also have "\<dots> = Inr (intena (mycpu (core ?u)), ?u)"
    by (rule sched_ok [of _ p c]) (use assms i in simp_all)
  finally show ?thesis
    using assms(5-7) by (auto simp: after_exit_def t(2) fun_eq_iff)
qed

section \<open>wait\<close>

text \<open>The zombie child that a turn of \<open>wait\<close> finds first.\<close>

definition zombie_child :: "nat \<Rightarrow> 'a proc_st_scheme \<Rightarrow> nat \<Rightarrow> bool" where
  "zombie_child p s i \<longleftrightarrow> parent (procs s i) = Some p \<and> pstate (procs s i) = ZOMBIE"

lemma wait_scan_eq:
  assumes "core s = acq (ProcLock p) c" and "idle c" and "parent (procs s p) \<noteq> Some p"
  shows "wait_scan is p 0 h s =
    (case find (zombie_child p s) is of
       Some i \<Rightarrow>
         kbind (freeproc i (s\<lparr>core := acq (ProcLock i) (core s)\<rparr>)) (\<lambda>t.
         kbind (unlock (ProcLock i) t) (\<lambda>t. kbind (unlock (ProcLock p) t) (\<lambda>t. Inr (Inl (pid (procs s i)), t))))
     | None \<Rightarrow> Inr (Inr (h \<or> (\<exists>i\<in>set is. parent (procs s i) = Some p)), s))"
proof (induction "is" arbitrary: h)
  case (Cons i "is")
  note c = idleD [OF assms(2)]
  show ?case
  proof (cases "parent (procs s i) = Some p")
    case False
    then show ?thesis using Cons by (simp add: zombie_child_def split: option.split)
  next
    case True
    then have "lockfree (ProcLock i) (core s)" "core_ok (core s)" "settle (core s) = core s" using assms c by auto
    then show ?thesis using True Cons [of True] by (auto simp: zombie_child_def lock_simps Let_def split: option.split)
  qed
qed simp

text \<open>
  C38: A turn of \<open>wait\<close> without an address for the status, entered with the lock of the process, has one of three outcomes. With a zombie child it frees the first one of the
  table and returns its pid. Without a child, or when the process has been killed, it returns -1 with every lock released and the table unchanged. Otherwise it reaches
  the context switch asleep on the process itself, with its own lock alone; so no child can exit between the scan and the sleep.
\<close>

theorem wait_outcome:
  assumes "idle c" and "noff (mycpu c) = 0" and "cproc (mycpu c) = Some p" and "core s = acq (ProcLock p) c" and "parent (procs s p) \<noteq> Some p"
  shows "case find (zombie_child p s) [0..<NPROC] of
    Some i \<Rightarrow>
      wait_turn p 0 s =
        kbind (freeproc i (s\<lparr>core := acq (ProcLock i) (core s)\<rparr>)) (\<lambda>t.
        kbind (unlock (ProcLock i) t) (\<lambda>t. kbind (unlock (ProcLock p) t) (\<lambda>t. Inr (Finished (pid (procs s i)), t))))
  | None \<Rightarrow>
      if (\<forall>i<NPROC. parent (procs s i) \<noteq> Some p) \<or> killed (procs s p)
      then wait_turn p 0 s = Inr (Finished (- 1), s\<lparr>core := settle c\<rparr>)
      else \<exists>ie s'. wait_turn p 0 s = Inr (Waiting ie, s') \<and> core s' = acq (ProcLock p) c \<and>
        procs s' = (procs s)(p := (procs s p)\<lparr>pchan := ChProc p, pstate := SLEEPING\<rparr>)"
proof -
  note c = idleD [OF assms(1)]
  let ?t = "upd_proc p (\<lambda>q. q\<lparr>pchan := ChProc p, pstate := SLEEPING\<rparr>) s"
  have "sched ?t = Inr (intena (mycpu (core ?t)), ?t)"
    by (rule sched_ok [of _ p c]) (use assms c in simp_all)
  moreover have "curproc s = Inr (p, s)" using curproc_locked [OF assms(4) c(1) assms(3)] .
  ultimately have "sleep_enter (ChProc p) (ProcLock p) s = Inr (intena (mycpu (core ?t)), ?t)"
    by (simp add: sleep_enter_def)
  then show ?thesis
    using wait_scan_eq [OF assms(4,1,5), of "[0..<NPROC]" False] assms(4) c
    by (auto simp: wait_turn_def lock_simps kbind_assoc split: option.split)
qed

section \<open>A family\<close>

text \<open>Process 2 has the parent 0, which waits for its children, and the child 1.\<close>

definition family :: proc_st where
  "family = demo\<lparr>procs := (\<lambda>_. no_proc)(
     0 := no_proc\<lparr>pstate := SLEEPING, pid := 1, pchan := ChProc 0\<rparr>,
     1 := no_proc\<lparr>pstate := RUNNABLE, pid := 2, parent := Some 2\<rparr>,
     2 := no_proc\<lparr>pstate := RUNNING, pid := 3, parent := Some 0\<rparr>)\<rparr>"

lemma exit_wakes_parent_witness:
  "\<exists>ie s'. exit_last 2 0 7 (family\<lparr>core := acq (ProcLock 2) (acq (ProcLock 0) demo_core)\<rparr>) = Inr (ie, s') \<and>
    pstate (procs s' 2) = ZOMBIE \<and> xstate (procs s' 2) = 7 \<and> pstate (procs s' 0) = RUNNABLE \<and> parent (procs s' 1) = Some 0"
  using exit_wakes_parent [of demo_core 2 "family\<lparr>core := acq (ProcLock 2) (acq (ProcLock 0) demo_core)\<rparr>" 0 7]
  by (auto simp: family_def demo_def no_proc_def after_exit_def woken_def NPROC_def)

lemma wait_outcome_witness:
  "\<exists>ie s'. wait_turn 2 0 (family\<lparr>core := acq (ProcLock 2) demo_core\<rparr>) = Inr (Waiting ie, s') \<and> pstate (procs s' 2) = SLEEPING"
proof -
  define s where "s = family\<lparr>core := acq (ProcLock 2) demo_core\<rparr>"
  have "find (zombie_child 2 s) [0..<NPROC] = None"
    by (auto simp: find_None_iff zombie_child_def s_def family_def no_proc_def)
  moreover have "1 < NPROC \<and> parent (procs s 1) = Some 2" and "\<not> killed (procs s 2)" and "parent (procs s 2) \<noteq> Some 2"
    by (simp_all add: s_def family_def no_proc_def NPROC_def)
  moreover have "core s = acq (ProcLock 2) demo_core" by (simp add: s_def)
  ultimately have "\<exists>ie s'. wait_turn 2 0 s = Inr (Waiting ie, s') \<and> pstate (procs s' 2) = SLEEPING"
    using wait_outcome [of demo_core 2 s] by (auto split: if_splits)
  then show ?thesis by (simp only: s_def)
qed

end
