(* ===== verification/Syscall.thy ===== *)
theory Syscall imports Sysfile begin

text \<open>kernel/syscall.c: the numbers of the system calls (libs/sysnum.h), the table, and the dispatcher.\<close>

section \<open>The table\<close>

definition SYS_fork :: u32 where "SYS_fork = 220"
definition SYS_exit :: u32 where "SYS_exit = 93"
definition SYS_wait :: u32 where "SYS_wait = 260"
definition SYS_pipe :: u32 where "SYS_pipe = 59"
definition SYS_read :: u32 where "SYS_read = 63"
definition SYS_kill :: u32 where "SYS_kill = 6"
definition SYS_exec :: u32 where "SYS_exec = 7"
definition SYS_fstat :: u32 where "SYS_fstat = 80"
definition SYS_chdir :: u32 where "SYS_chdir = 49"
definition SYS_dup :: u32 where "SYS_dup = 23"
definition SYS_getpid :: u32 where "SYS_getpid = 172"
definition SYS_sbrk :: u32 where "SYS_sbrk = 214"
definition SYS_sleep :: u32 where "SYS_sleep = 13"
definition SYS_uptime :: u32 where "SYS_uptime = 169"
definition SYS_open :: u32 where "SYS_open = 56"
definition SYS_write :: u32 where "SYS_write = 64"
definition SYS_remove :: u32 where "SYS_remove = 21"
definition SYS_trace :: u32 where "SYS_trace = 18"
definition SYS_sysinfo :: u32 where "SYS_sysinfo = 19"
definition SYS_mkdir :: u32 where "SYS_mkdir = 34"
definition SYS_close :: u32 where "SYS_close = 57"
definition SYS_test_proc :: u32 where "SYS_test_proc = 22"
definition SYS_dev :: u32 where "SYS_dev = 25"
definition SYS_readdir :: u32 where "SYS_readdir = 24"
definition SYS_getcwd :: u32 where "SYS_getcwd = 17"
definition SYS_rename :: u32 where "SYS_rename = 26"

lemmas sysnums = SYS_fork_def SYS_exit_def SYS_wait_def SYS_pipe_def SYS_read_def SYS_kill_def SYS_exec_def SYS_fstat_def
  SYS_chdir_def SYS_dup_def SYS_getpid_def SYS_sbrk_def SYS_sleep_def SYS_uptime_def SYS_open_def SYS_write_def
  SYS_remove_def SYS_trace_def SYS_sysinfo_def SYS_mkdir_def SYS_close_def SYS_test_proc_def SYS_dev_def SYS_readdir_def
  SYS_getcwd_def SYS_rename_def

text \<open>\<open>syscalls\<close> and \<open>sysnames\<close> have the same keys; the other slots up to the largest number are null.\<close>

definition syscalls :: "(u32 \<times> string \<times> ('a sys_st_scheme \<Rightarrow> (u64 \<times> 'a sys_st_scheme) kres)) list" where
  "syscalls =
    [(SYS_fork, ''fork'', sys_fork), (SYS_exit, ''exit'', sys_exit), (SYS_wait, ''wait'', sys_wait),
     (SYS_pipe, ''pipe'', sys_pipe), (SYS_read, ''read'', sys_read), (SYS_kill, ''kill'', sys_kill),
     (SYS_exec, ''exec'', sys_exec), (SYS_fstat, ''fstat'', sys_fstat), (SYS_chdir, ''chdir'', sys_chdir),
     (SYS_dup, ''dup'', sys_dup), (SYS_getpid, ''getpid'', sys_getpid), (SYS_sbrk, ''sbrk'', sys_sbrk),
     (SYS_sleep, ''sleep'', sys_sleep), (SYS_uptime, ''uptime'', sys_uptime), (SYS_open, ''open'', sys_open),
     (SYS_write, ''write'', sys_write), (SYS_mkdir, ''mkdir'', sys_mkdir), (SYS_close, ''close'', sys_close),
     (SYS_test_proc, ''test_proc'', sys_test_proc), (SYS_dev, ''dev'', sys_dev), (SYS_readdir, ''readdir'', sys_readdir),
     (SYS_getcwd, ''getcwd'', sys_getcwd), (SYS_remove, ''remove'', sys_remove), (SYS_trace, ''trace'', sys_trace),
     (SYS_sysinfo, ''sysinfo'', sys_sysinfo), (SYS_rename, ''rename'', sys_rename)]"

section \<open>The dispatcher\<close>

text \<open>
  \<open>1 << num\<close> is not defined by C for \<open>num\<close> from 32 on; the shift of a 32-bit word on RISC-V takes \<open>num\<close> modulo 32.
\<close>

definition traced :: "u32 \<Rightarrow> u32 \<Rightarrow> bool" where
  "traced tm num \<longleftrightarrow> tm AND push_bit (unat num mod 32) 1 \<noteq> 0"

definition syscall :: "'a sys_st_scheme \<Rightarrow> 'a sys_st_scheme kres" where
  "syscall s =
    kbind (curproc s) (\<lambda>(p, s).
      let num = (ucast (tf_get p TF_a7 s) :: u32) in
      case (if sint num > 0 then map_of syscalls num else None) of
        Some (name, call) \<Rightarrow>
          kbind (call s) (\<lambda>(r, s).
            let s = tf_set p TF_a0 r s in
            if traced (tmask (procs s p)) num then
              printf (ascii ''pid %d: %s -> %d'' @ [10])
                [AInt (of_int (pid (procs s p))), AStr (Some (ascii name)), AInt (ucast (tf_get p TF_a0 s))] s
            else Inr s)
      | None \<Rightarrow>
          kbind (printf (ascii ''pid %d %s: unknown sys call %d'' @ [10])
                   [AInt (of_int (pid (procs s p))), AStr (Some (pname (procs s p))), AInt num] s) (\<lambda>s.
            Inr (tf_set p TF_a0 (- 1) s)))"

end
