(* ===== verification/Trap.thy ===== *)
theory Trap imports Syscall begin

text \<open>
  kernel/trap.c, the interrupt controller of kernel/plic.c, and the boot sequence of kernel/main.c: how the kernel is entered from user
  code and from itself, and how it goes back.
\<close>

section \<open>State\<close>

text \<open>
  The trap registers of the hart, the addresses that the linker gives to the entry points, what the interrupt controller will say when
  asked and what it was told, the character that the console has (-1 for none), and how often the firmware was asked to let interrupts of the machine
  through again. \<open>spp\<close> and \<open>spie\<close> are bits of \<open>sstatus\<close>; its bit
  \<open>SIE\<close> is the core's \<open>sie\<close>.
\<close>

record trap_st = sys_st +
  sepc :: u64
  scause :: u64
  stval :: u64
  stvec :: u64
  sip :: u64
  sie_csr :: u64
  spp :: bool
  spie :: bool
  kernelvec :: u64
  uservec :: u64
  userret :: u64
  usertrap_addr :: u64
  irq_claim :: u32
  irq_done :: "u32 list"
  getchar_next :: u32
  mie_asked :: nat

definition UART_IRQ :: "bool \<Rightarrow> u32" where "UART_IRQ qemu = (if qemu then 10 else 33)"
definition DISK_IRQ :: "bool \<Rightarrow> u32" where "DISK_IRQ qemu = (if qemu then 1 else 27)"

section \<open>Devices\<close>

definition plic_claim :: "'a trap_st_scheme \<Rightarrow> u32" where
  "plic_claim s = irq_claim s"

definition plic_complete :: "u32 \<Rightarrow> 'a trap_st_scheme \<Rightarrow> 'a trap_st_scheme" where
  "plic_complete irq s = s\<lparr>irq_done := irq_done s @ [irq]\<rparr>"

text \<open>The call of the firmware with which the K210 lets the next external interrupt through.\<close>

definition sbi_set_mie :: "'a trap_st_scheme \<Rightarrow> 'a trap_st_scheme" where
  "sbi_set_mie s = s\<lparr>mie_asked := Suc (mie_asked s)\<rparr>"

definition external_intr :: "bool \<Rightarrow> 'a trap_st_scheme \<Rightarrow> bool" where
  "external_intr qemu s \<longleftrightarrow>
    (if qemu then scause s AND 0x8000000000000000 \<noteq> 0 \<and> scause s AND 0xff = 9
     else scause s = 0x8000000000000001 \<and> stval s = 9)"

text \<open>\<open>disk_intr\<close> belongs to the driver of the board: it is an argument.\<close>

definition devintr :: "bool \<Rightarrow> ('a trap_st_scheme \<Rightarrow> 'a trap_st_scheme kres) \<Rightarrow> 'a trap_st_scheme \<Rightarrow> (nat \<times> 'a trap_st_scheme) kres" where
  "devintr qemu disk_intr s =
    (if external_intr qemu s then
       let irq = plic_claim s in
       kbind
         (if irq = UART_IRQ qemu then
            if getchar_next s \<noteq> - 1 then consoleintr qemu (getchar_next s) s else Inr s
          else if irq = DISK_IRQ qemu then disk_intr s
          else if irq \<noteq> 0 then printf (ascii ''unexpected interrupt irq = %d'' @ [10]) [AInt irq] s
          else Inr s) (\<lambda>s.
         let s = (if irq \<noteq> 0 then plic_complete irq s else s);
             s = (if qemu then s else sbi_set_mie (s\<lparr>sip := sip s AND NOT 2\<rparr>))
         in Inr (1, s))
     else if scause s = 0x8000000000000005 then kbind (timer_tick s) (\<lambda>s. Inr (2, s))
     else Inr (0, s))"

section \<open>To and from user code\<close>

definition trapinithart :: "'a trap_st_scheme \<Rightarrow> 'a trap_st_scheme" where
  "trapinithart s =
    (let s = s\<lparr>stvec := kernelvec s\<rparr>;
         s = s\<lparr>core := intr_on (core s)\<rparr>;
         s = s\<lparr>sie_csr := sie_csr s OR push_bit 9 1 OR push_bit 1 1 OR push_bit 5 1\<rparr>
     in set_next_timeout s)"

text \<open>\<open>usertrapret\<close> up to its jump into the trampoline: the address it jumps to and its two arguments.\<close>

definition usertrapret :: "'a trap_st_scheme \<Rightarrow> ((u64 \<times> u64 \<times> u64) \<times> 'a trap_st_scheme) kres" where
  "usertrapret s =
    kbind (curproc s) (\<lambda>(p, s).
      let s = s\<lparr>core := intr_off (core s)\<rparr>;
          s = s\<lparr>stvec := TRAMPOLINE + (uservec s - trampoline s)\<rparr>;
          s = tf_set p TF_kernel_satp (satp s (hart (core s))) s;
          s = tf_set p TF_kernel_sp (kstack (procs s p) + PGSIZE) s;
          s = tf_set p TF_kernel_trap (usertrap_addr s) s;
          s = tf_set p TF_kernel_hartid (of_nat (hart (core s))) s;
          s = s\<lparr>spp := False, spie := True\<rparr>;
          s = s\<lparr>sepc := tf_get p TF_epc s\<rparr>
      in Inr ((TRAMPOLINE + (userret s - trampoline s), TRAPFRAME, MAKE_SATP (pagetable (procs s p))), s))"

text \<open>
  \<open>usertrap\<close>, up to the jump back to user code or to the switch of \<open>yield\<close>; then \<open>usertrap_wake\<close> is the rest.
\<close>

definition usertrap_end :: "nat \<Rightarrow> nat \<Rightarrow> 'a trap_st_scheme \<Rightarrow> ((bool, u64 \<times> u64 \<times> u64) outcome \<times> 'a trap_st_scheme) kres" where
  "usertrap_end which_dev p s =
    (if killed (procs s p) then kbind (exit (- 1) s) (\<lambda>_. Inl Exits)
     else if which_dev = 2 then kbind (yield_enter s) (\<lambda>(ie, s). Inr (Waiting ie, s))
     else kbind (usertrapret s) (\<lambda>(r, s). Inr (Finished r, s)))"

definition usertrap_wake :: "nat \<Rightarrow> bool \<Rightarrow> 'a trap_st_scheme \<Rightarrow> ((u64 \<times> u64 \<times> u64) \<times> 'a trap_st_scheme) kres" where
  "usertrap_wake p ie s = kbind (yield_leave p ie s) usertrapret"

definition usertrap :: "bool \<Rightarrow> ('a trap_st_scheme \<Rightarrow> 'a trap_st_scheme kres) \<Rightarrow> 'a trap_st_scheme
    \<Rightarrow> ((bool, u64 \<times> u64 \<times> u64) outcome \<times> 'a trap_st_scheme) kres" where
  "usertrap qemu disk_intr s =
    (if spp s then Inl (Panic ''usertrap: not from user mode'')
     else
       kbind (curproc (s\<lparr>stvec := kernelvec s\<rparr>)) (\<lambda>(p, s).
         let s = tf_set p TF_epc (sepc s) s in
         if scause s = 8 then
           if killed (procs s p) then kbind (exit (- 1) s) (\<lambda>_. Inl Exits)
           else
             let s = tf_set p TF_epc (tf_get p TF_epc s + 4) s;
                 s = s\<lparr>core := intr_on (core s)\<rparr>
             in kbind (syscall s) (usertrap_end 0 p)
         else
           kbind (devintr qemu disk_intr s) (\<lambda>(which_dev, s).
             if which_dev \<noteq> 0 then usertrap_end which_dev p s
             else
               kbind (printf ([10] @ ascii ''usertrap(): unexpected scause %p pid=%d %s'' @ [10])
                        [APtr (scause s), AInt (of_int (pid (procs s p))), AStr (Some (pname (procs s p)))] s) (\<lambda>s.
               kbind (printf (ascii ''            sepc=%p stval=%p'' @ [10]) [APtr (sepc s), APtr (stval s)] s) (\<lambda>s.
                 usertrap_end 0 p (upd_proc p (\<lambda>q. q\<lparr>killed := True\<rparr>) s))))))"

section \<open>Traps in the kernel\<close>

text \<open>The end of \<open>kerneltrap\<close>: the registers that \<open>yield\<close> may have changed.\<close>

definition kerneltrap_end :: "u64 \<Rightarrow> bool \<Rightarrow> bool \<Rightarrow> 'a trap_st_scheme \<Rightarrow> 'a trap_st_scheme" where
  "kerneltrap_end pc sp_bit pie s =
    (let s = s\<lparr>sepc := pc\<rparr>; s = s\<lparr>spp := sp_bit, spie := pie\<rparr> in s\<lparr>core := intr_off (core s)\<rparr>)"

definition kerneltrap_wake :: "u64 \<Rightarrow> bool \<Rightarrow> bool \<Rightarrow> nat \<Rightarrow> bool \<Rightarrow> 'a trap_st_scheme \<Rightarrow> 'a trap_st_scheme kres" where
  "kerneltrap_wake pc sp_bit pie p ie s =
    kbind (yield_leave p ie s) (\<lambda>s. Inr (kerneltrap_end pc sp_bit pie s))"

text \<open>What is printed before the panic on a trap that no device explains.\<close>

definition kerneltrap_report :: "u64 \<Rightarrow> 'a trap_st_scheme \<Rightarrow> 'a trap_st_scheme kres" where
  "kerneltrap_report cause s =
    kbind (printf ([10] @ ascii ''scause %p'' @ [10]) [APtr cause] s) (\<lambda>s.
    kbind (printf (ascii ''sepc=%p stval=%p hart=%d'' @ [10]) [APtr (sepc s), APtr (stval s), AInt (of_nat (hart (core s)))] s) (\<lambda>s.
    kbind (myproc (core s)) (\<lambda>(p, c).
      case p of None \<Rightarrow> Inr (s\<lparr>core := c\<rparr>)
      | Some p \<Rightarrow>
          printf (ascii ''pid: %d, name: %s'' @ [10]) [AInt (of_int (pid (procs s p))), AStr (Some (pname (procs s p)))] (s\<lparr>core := c\<rparr>))))"

definition kerneltrap :: "bool \<Rightarrow> ('a trap_st_scheme \<Rightarrow> 'a trap_st_scheme kres) \<Rightarrow> 'a trap_st_scheme
    \<Rightarrow> ((bool, unit) outcome \<times> 'a trap_st_scheme) kres" where
  "kerneltrap qemu disk_intr s =
    (let pc = sepc s; sp_bit = spp s; pie = spie s; cause = scause s in
     if \<not> sp_bit then Inl (Panic ''kerneltrap: not from supervisor mode'')
     else if intr_get (core s) then Inl (Panic ''kerneltrap: interrupts enabled'')
     else
       kbind (devintr qemu disk_intr s) (\<lambda>(which_dev, s).
         if which_dev = 0 then kbind (kerneltrap_report cause s) (\<lambda>_. Inl (Panic ''kerneltrap''))
         else
           kbind (if which_dev = 2 then
                    kbind (myproc (core s)) (\<lambda>(p, c).
                      case p of None \<Rightarrow> Inr (False, s\<lparr>core := c\<rparr>)
                      | Some p \<Rightarrow>
                          kbind (curproc (s\<lparr>core := c\<rparr>)) (\<lambda>(p, s). Inr (pstate (procs s p) = RUNNING, s)))
                  else Inr (False, s)) (\<lambda>(preempt, s).
             if preempt then kbind (yield_enter s) (\<lambda>(ie, s). Inr (Waiting ie, s))
             else Inr (Finished (), kerneltrap_end pc sp_bit pie s))))"

section \<open>Booting (main.c)\<close>

text \<open>
  What hart 0 does before it enters the scheduler. The set-up of the devices between \<open>procinit\<close> and \<open>binit\<close> (interrupt controller, pins,
  direct memory access and disk) is an argument, and so are the lines of the logo.
\<close>

definition boot :: "bool \<Rightarrow> u8 list list \<Rightarrow> ('a trap_st_scheme \<Rightarrow> 'a trap_st_scheme kres) \<Rightarrow> 'a trap_st_scheme \<Rightarrow> 'a trap_st_scheme kres" where
  "boot qemu logo devices_init s =
    (let s = consoleinit s; s = printfinit s in
     kbind (foldl (\<lambda>r l. kbind r (printf l [])) (Inr s) logo) (\<lambda>s.
     kbind (kinit s) (\<lambda>s.
     kbind (kvminit qemu s) (\<lambda>s.
       let s = kvminithart s;
           s = timerinit s;
           s = trapinithart s;
           s = procinit s
       in kbind (devices_init s) (\<lambda>s.
            let s = binit s; s = fileinit s in
            kbind (userinit s) (\<lambda>s.
              printf (ascii ''hart 0 init done'' @ [10]) [] s))))))"

text \<open>What hart 1 does when hart 0 has set \<open>started\<close>.\<close>

definition boot_hart1 :: "('a trap_st_scheme \<Rightarrow> 'a trap_st_scheme) \<Rightarrow> 'a trap_st_scheme \<Rightarrow> 'a trap_st_scheme kres" where
  "boot_hart1 plicinithart s =
    (let s = kvminithart s;
         s = trapinithart s;
         s = plicinithart s
     in printf (ascii ''hart 1 init done'' @ [10]) [] s)"

end
