(* ===== verification/TrapProps.thy ===== *)
theory TrapProps imports Trap FileProps begin

text \<open>The path of a system call through the kernel: trap, dispatch, return to user mode.\<close>

section \<open>The trap frame\<close>

lemma aligned8_add: "aligned8 a \<Longrightarrow> aligned8 b \<Longrightarrow> aligned8 (a + b)"
proof -
  assume a: "aligned8 a" "aligned8 b"
  have "unat (a + b) mod 8 = (unat a + unat b) mod 8"
    by (simp add: unat_word_ariths mod_mod_cancel)
  with a show ?thesis by (simp add: aligned8_def mod_add_eq [symmetric])
qed

lemma tf_set_simps [simp]:
  "core (tf_set p k v s) = core s" "procs (tf_set p k v s) = procs s"
  "(tf_set p k v s)\<lparr>core := c\<rparr> = tf_set p k v (s\<lparr>core := c\<rparr>)"
  "tf_get p k (s\<lparr>core := c\<rparr>) = tf_get p k s"
  by (simp_all add: tf_set_def tf_get_def)

lemma tf_get_set:
  assumes "aligned8 (trapframe (procs s p))" and "aligned8 j" and "aligned8 k"
  shows "tf_get p j (tf_set p k v s) = (if j = k then v else tf_get p j s)"
proof -
  have "aligned8 (trapframe (procs s p) + j)" "aligned8 (trapframe (procs s p) + k)"
    using assms by (simp_all add: aligned8_add)
  then show ?thesis by (simp add: tf_get_def tf_set_def load64_store64_other)
qed

lemma tf_aligned [simp]:
  "aligned8 TF_kernel_satp" "aligned8 TF_kernel_sp" "aligned8 TF_kernel_trap" "aligned8 TF_epc" "aligned8 TF_kernel_hartid"
  "aligned8 TF_a0" "aligned8 TF_a7"
  by (simp_all add: aligned8_def TF_kernel_satp_def TF_kernel_sp_def TF_kernel_trap_def TF_epc_def TF_kernel_hartid_def
      TF_a0_def TF_a7_def)

lemma running_tf_set [simp]: "running p (tf_set q k v s) = running p s"
  by (simp add: running_def)

lemma tf_set_trap [simp]:
  "spp (tf_set p k v s) = spp s" "spie (tf_set p k v s) = spie s" "sepc (tf_set p k v s) = sepc s"
  "scause (tf_set p k v s) = scause s" "stvec (tf_set p k v s) = stvec s" "uservec (tf_set p k v s) = uservec s"
  "userret (tf_set p k v s) = userret s" "trampoline (tf_set p k v s) = trampoline s"
  "usertrap_addr (tf_set p k v s) = usertrap_addr s" "satp (tf_set p k v s) = satp s"
  for s :: "'a trap_st_scheme"
  by (simp_all add: tf_set_def)

section \<open>Back to user mode\<close>

text \<open>What the return needs and leaves.\<close>

lemma usertrapret_ok:
  assumes "running p s" and "aligned8 (trapframe (procs s p))"
  shows "\<exists>s'. usertrapret s = Inr ((TRAMPOLINE + (userret s - trampoline s), TRAPFRAME, MAKE_SATP (pagetable (procs s p))), s')
    \<and> sepc s' = tf_get p TF_epc s \<and> \<not> spp s' \<and> spie s' \<and> \<not> intr_get (core s')
    \<and> stvec s' = TRAMPOLINE + (uservec s - trampoline s) \<and> procs s' = procs s
    \<and> tf_get p TF_kernel_satp s' = satp s (hart (core s)) \<and> tf_get p TF_kernel_sp s' = kstack (procs s p) + PGSIZE
    \<and> (\<forall>k. aligned8 k \<longrightarrow> k > TF_kernel_hartid \<or> k = TF_epc \<longrightarrow> tf_get p k s' = tf_get p k s)"
proof -
  let ?t = "s\<lparr>core := intr_off (settle (core s)), stvec := TRAMPOLINE + (uservec s - trampoline s)\<rparr>"
  let ?u = "tf_set p TF_kernel_hartid (of_nat (hart (core s))) (tf_set p TF_kernel_trap (usertrap_addr s)
      (tf_set p TF_kernel_sp (kstack (procs s p) + PGSIZE) (tf_set p TF_kernel_satp (satp s (hart (core s))) ?t)))"
  have get: "tf_get p k ?u =
      (if k = TF_kernel_hartid then of_nat (hart (core s)) else if k = TF_kernel_trap then usertrap_addr s
       else if k = TF_kernel_sp then kstack (procs s p) + PGSIZE else if k = TF_kernel_satp then satp s (hart (core s))
       else tf_get p k s)" if "aligned8 k" for k
    using that assms(2) by (simp add: tf_get_set) (simp add: tf_get_def)
  have "usertrapret s = Inr ((TRAMPOLINE + (userret s - trampoline s), TRAPFRAME, MAKE_SATP (pagetable (procs s p))),
      ?u\<lparr>spp := False, spie := True, sepc := tf_get p TF_epc ?u\<rparr>)"
    using assms(1) by (simp add: usertrapret_def lock_simps Let_def tf_get_def tf_set_def)
  moreover have "tf_get p k (?u\<lparr>spp := False, spie := True, sepc := x\<rparr>) = tf_get p k ?u" for k x
    by (simp add: tf_get_def)
  moreover have "\<not> intr_get (core ?u)" by (simp add: intr_get_def intr_off_def)
  moreover have "TF_kernel_hartid < k \<or> k = TF_epc \<Longrightarrow> tf_get p k ?u = tf_get p k s" if "aligned8 k" for k
    unfolding get [OF that]
    by (auto simp: TF_kernel_satp_def TF_kernel_sp_def TF_kernel_trap_def TF_epc_def TF_kernel_hartid_def)
  moreover have "tf_get p TF_kernel_satp ?u = satp s (hart (core s))" "tf_get p TF_kernel_sp ?u = kstack (procs s p) + PGSIZE"
    by (simp_all add: get) (simp_all add: TF_kernel_satp_def TF_kernel_sp_def TF_kernel_trap_def TF_kernel_hartid_def)
  ultimately show ?thesis by simp
qed

section \<open>A system call from user mode\<close>

lemma syscall_calls:
  assumes "running p s" and "(ucast (tf_get p TF_a7 s) :: u32) = num" and "0 < sint num" and "map_of syscalls num = Some (name, call)"
    and "call (s\<lparr>core := settle (core s)\<rparr>) = Inr (r, s')" and "procs s' = procs s" and "\<not> traced (tmask (procs s p)) num"
  shows "syscall s = Inr (tf_set p TF_a0 r s')"
  using assms by (simp add: syscall_def lock_simps Let_def)

lemma syscall_getpid:
  assumes "running p s" and "(ucast (tf_get p TF_a7 s) :: u32) = SYS_getpid" and "\<not> traced (tmask (procs s p)) SYS_getpid"
  shows "syscall s = Inr (tf_set p TF_a0 (of_int (pid (procs s p))) (s\<lparr>core := settle (core s)\<rparr>))"
proof (rule syscall_calls [OF assms(1,2)])
  show "0 < sint SYS_getpid" by (simp add: SYS_getpid_def)
  show "map_of syscalls SYS_getpid = Some (''getpid'', sys_getpid)" by (simp add: syscalls_def sysnums)
  show "sys_getpid (s\<lparr>core := settle (core s)\<rparr>) = Inr (of_int (pid (procs s p)), s\<lparr>core := settle (core s)\<rparr>)"
    using curproc_running [OF running_settle, OF assms(1)] by (simp add: sys_getpid_def)
qed (use assms(3) in simp_all)

lemma running_intr_on:
  assumes "running p s" and "noff (mycpu (core s)) = 0"
  shows "running p (s\<lparr>core := intr_on (settle (core s))\<rparr>)"
  using assms by (auto simp: running_def idle_def core_ok_def lockfree_def core_defs settle_def)

text \<open>
  C8: A system call from user mode goes through the whole of the kernel and comes back: \<open>usertrap\<close> with the number of \<open>getpid\<close> returns to the
  trampoline with the process's page table, with interrupts off and set to come on in user mode, at the instruction behind the \<open>ecall\<close>; \<open>a0\<close> holds
  the process id and every other register of the user is as it was.
\<close>

theorem usertrap_getpid:
  assumes "running p s" and "noff (mycpu (core s)) = 0" and "aligned8 (trapframe (procs s p))"
    and "\<not> spp s" and "scause s = 8" and "\<not> killed (procs s p)"
    and "(ucast (tf_get p TF_a7 s) :: u32) = SYS_getpid" and "\<not> traced (tmask (procs s p)) SYS_getpid"
  shows "\<exists>s'. usertrap qemu disk_intr s =
      Inr (Finished (TRAMPOLINE + (userret s - trampoline s), TRAPFRAME, MAKE_SATP (pagetable (procs s p))), s')
    \<and> sepc s' = sepc s + 4 \<and> \<not> spp s' \<and> spie s' \<and> \<not> intr_get (core s')
    \<and> stvec s' = TRAMPOLINE + (uservec s - trampoline s) \<and> procs s' = procs s
    \<and> tf_get p TF_a0 s' = of_int (pid (procs s p))
    \<and> (\<forall>k. aligned8 k \<longrightarrow> k > TF_kernel_hartid \<longrightarrow> k \<noteq> TF_a0 \<longrightarrow> tf_get p k s' = tf_get p k s)"
proof -
  let ?t = "tf_set p TF_epc (sepc s + 4) (tf_set p TF_epc (sepc s)
      (s\<lparr>stvec := kernelvec s, core := intr_on (settle (core s))\<rparr>))"
  let ?u = "tf_set p TF_a0 (of_int (pid (procs s p))) (?t\<lparr>core := settle (core ?t)\<rparr>)"
  have "running p (s\<lparr>stvec := kernelvec s\<rparr>)" using assms(1) by (simp add: running_def)
  from curproc_running [OF this]
  have c: "curproc (s\<lparr>stvec := kernelvec s\<rparr>) = Inr (p, s\<lparr>stvec := kernelvec s, core := settle (core s)\<rparr>)" by simp
  have rt: "running p ?t" using running_intr_on [OF assms(1,2)] by (simp add: running_def)
  have get: "tf_get p k ?t = (if k = TF_epc then sepc s + 4 else tf_get p k s)" if "aligned8 k" for k
    using that assms(3) by (simp add: tf_get_set) (simp add: tf_get_def)
  have a7: "TF_a7 \<noteq> TF_epc" by (simp add: TF_a7_def TF_epc_def)
  have "(ucast (tf_get p TF_a7 ?t) :: u32) = SYS_getpid"
    using assms(7) get [OF tf_aligned(7)] by (simp add: TF_a7_def [symmetric] a7)
  from syscall_getpid [OF rt this] have "syscall ?t = Inr ?u" using assms(8) by simp
  moreover have "tf_get p TF_epc (tf_set p TF_epc (sepc s) (s\<lparr>stvec := kernelvec s, core := settle (core s)\<rparr>)) = sepc s"
    using assms(3) by (simp add: tf_get_set)
  ultimately have "usertrap qemu disk_intr s = usertrap_end 0 p ?u"
    using assms(4-6) c by (simp add: usertrap_def Let_def)
  also have "\<dots> = kbind (usertrapret ?u) (\<lambda>(r, s). Inr (Finished r, s))"
    using assms(6) by (simp add: usertrap_end_def)
  finally have e: "usertrap qemu disk_intr s = kbind (usertrapret ?u) (\<lambda>(r, s). Inr (Finished r, s))" .
  have gu: "tf_get p k ?u = (if k = TF_a0 then of_int (pid (procs s p)) else tf_get p k ?t)" if "aligned8 k" for k
    using that assms(3) by (simp add: tf_get_set)
  have "running p ?u" "aligned8 (trapframe (procs ?u p))"
    using running_settle [OF rt] assms(3) by simp_all
  from usertrapret_ok [OF this] obtain s' where s':
    "usertrapret ?u = Inr ((TRAMPOLINE + (userret s - trampoline s), TRAPFRAME, MAKE_SATP (pagetable (procs s p))), s')"
    "sepc s' = tf_get p TF_epc ?u" "\<not> spp s'" "spie s'" "\<not> intr_get (core s')"
    "stvec s' = TRAMPOLINE + (uservec s - trampoline s)" "procs s' = procs s"
    "\<And>k. aligned8 k \<Longrightarrow> k > TF_kernel_hartid \<or> k = TF_epc \<Longrightarrow> tf_get p k s' = tf_get p k ?u"
    by auto
  have offs: "TF_epc \<noteq> TF_a0" "TF_kernel_hartid < TF_a0" "\<not> TF_kernel_hartid < TF_epc"
    by (simp_all add: TF_epc_def TF_a0_def TF_kernel_hartid_def)
  have "tf_get p k s' = tf_get p k s" if "aligned8 k" "k > TF_kernel_hartid" "k \<noteq> TF_a0" for k
    using that s'(8) [of k] gu [of k] get [of k] offs by auto
  moreover have "tf_get p TF_a0 s' = of_int (pid (procs s p))" using s'(8) [of TF_a0] gu [of TF_a0] offs by simp
  moreover have "sepc s' = sepc s + 4" using s'(2) gu [of TF_epc] get [of TF_epc] offs by simp
  ultimately show ?thesis using e s'(1,3-7) by auto
qed

section \<open>A process that asks for its id\<close>

definition trap_demo :: trap_st where
  "trap_demo =
    (sys_st.extend
      (exec_st.extend
        (life_st.extend
          (file_st.extend file_demo \<lparr>initcode = 0x80202800, forkret_addr = 0x80202400, first = False\<rparr>)
          \<lparr>ustack_at = 0x80300000\<rparr>)
        \<lparr>ticks = 0, time = 0, next_timeout = 0\<rparr>)
      \<lparr>sepc = 0x100, scause = 8, stval = 0, stvec = 0, sip = 0, sie_csr = 0, spp = False, spie = True, kernelvec = 0x80203000,
        uservec = 0x80201000, userret = 0x80201090, usertrap_addr = 0x80202000, irq_claim = 0, irq_done = [], getchar_next = - 1, mie_asked = 0\<rparr>)
    \<lparr>core := demo_core, trampoline := 0x80201000, mem := store64 (0x80400000 + TF_a7) 172 (\<lambda>_. 0),
     procs := (\<lambda>q. no_proc\<lparr>pid := 7, trapframe := 0x80400000\<rparr>)\<rparr>"

lemma usertrap_getpid_witness:
  "\<exists>s'. usertrap True Inr trap_demo =
      Inr (Finished (TRAMPOLINE + 0x90, TRAPFRAME, MAKE_SATP (pagetable (procs trap_demo 2))), s')
    \<and> sepc s' = 0x104 \<and> tf_get 2 TF_a0 s' = 7"
proof -
  have s: "core trap_demo = demo_core" "procs trap_demo = (\<lambda>q. no_proc\<lparr>pid := 7, trapframe := 0x80400000\<rparr>)"
    "scause trap_demo = 8" "sepc trap_demo = 0x100" "\<not> spp trap_demo" "userret trap_demo = 0x80201090" "trampoline trap_demo = 0x80201000"
    "tf_get 2 TF_a7 trap_demo = 172"
    by (simp_all add: trap_demo_def file_st.defs life_st.defs exec_st.defs sys_st.defs tf_get_def)
  have "running 2 trap_demo" by (simp add: running_def s)
  moreover have "noff (mycpu (core trap_demo)) = 0" by (simp add: s demo_core_def boot_core_def set_proc_ptr_def core_defs)
  moreover have "aligned8 (trapframe (procs trap_demo 2))" by (simp add: s aligned8_def)
  moreover have "\<not> killed (procs trap_demo 2)" "\<not> traced (tmask (procs trap_demo 2)) SYS_getpid"
    by (simp_all add: s no_proc_def traced_def)
  moreover have "(ucast (tf_get 2 TF_a7 trap_demo) :: u32) = SYS_getpid" by (simp add: s SYS_getpid_def)
  ultimately show ?thesis using usertrap_getpid [of 2 trap_demo True Inr] s by auto
qed

end
