(* ===== verification/Grep.thy ===== *)
theory Grep imports Prelude begin

text \<open>
  user/grep.c: the matcher of regular expressions with \<open>^\<close>, \<open>.\<close>, \<open>*\<close> and \<open>$\<close>, and the loop that feeds it the lines of a
  file through a buffer. A C string is the list of its bytes before the NUL.
\<close>

section \<open>The matcher\<close>

fun matchhere :: "u8 list \<Rightarrow> u8 list \<Rightarrow> bool" and matchstar :: "u8 \<Rightarrow> u8 list \<Rightarrow> u8 list \<Rightarrow> bool" where
  "matchhere [] str = True"
| "matchhere (c # re) str =
    (if re \<noteq> [] \<and> hd re = 0x2a then matchstar c (tl re) str
     else if c = 0x24 \<and> re = [] then str = []
     else if str \<noteq> [] \<and> (c = 0x2e \<or> c = hd str) then matchhere re (tl str)
     else False)"
| "matchstar c re str =
    (if matchhere re str then True
     else case str of [] \<Rightarrow> False | t # str \<Rightarrow> if t = c \<or> c = 0x2e then matchstar c re str else False)"

declare matchhere.simps(2) [simp del] matchstar.simps [simp del]

primrec match_from :: "u8 list \<Rightarrow> u8 list \<Rightarrow> bool" where
  "match_from re [] = matchhere re []"
| "match_from re (t # str) = (if matchhere re (t # str) then True else match_from re str)"

definition match :: "u8 list \<Rightarrow> u8 list \<Rightarrow> bool" where
  "match re str = (if re \<noteq> [] \<and> hd re = 0x5e then matchhere (tl re) str else match_from re str)"

section \<open>The lines of a file\<close>

text \<open>The size of \<open>buf\<close>, less the byte for the NUL.\<close>

definition BUF :: nat where "BUF = 1023"

text \<open>
  The inner loop: what is written for the lines that are whole in the buffer, and what is left of it. \<open>strchr\<close> stops at a NUL.
\<close>

function grep_lines :: "u8 list \<Rightarrow> u8 list \<Rightarrow> u8 list \<times> u8 list" where
  "grep_lines pattern p =
    (let line = takeWhile (\<lambda>c. c \<noteq> 10 \<and> c \<noteq> 0) p; q = drop (length line) p in
     if q \<noteq> [] \<and> hd q = 10 then
       let (out, rest) = grep_lines pattern (tl q)
       in ((if match pattern line then line @ [10] else []) @ out, rest)
     else ([], p))"
  by pat_completeness auto
termination
proof (relation "measure (\<lambda>(_, p). length p)", goal_cases)
  case (2 pattern p line q)
  then have "length q \<noteq> 0" and "length q \<le> length p" by simp_all
  then have "length (tl q) < length p" unfolding length_tl by arith
  then show ?case by simp
qed simp

declare grep_lines.simps [simp del]

text \<open>
  The outer loop. \<open>m\<close> is what is in the buffer, \<open>input\<close> what is still to be read, and \<open>sizes i\<close> how much the \<open>i\<close>-th \<open>read\<close> gives at most. The
  loop ends when \<open>read\<close> gives nothing, which is at the end of the file or when the buffer is full.
\<close>

function grep_loop :: "u8 list \<Rightarrow> (nat \<Rightarrow> nat) \<Rightarrow> nat \<Rightarrow> u8 list \<Rightarrow> u8 list \<Rightarrow> u8 list" where
  "grep_loop pattern sizes i m input =
    (let n = min (sizes i) (BUF - length m); r = take n input in
     if r = [] then []
     else
       let (out, rest) = grep_lines pattern (m @ r)
       in out @ grep_loop pattern sizes (Suc i) rest (drop n input))"
  by pat_completeness auto
termination
  by (relation "measure (\<lambda>(_, _, _, _, input). length input)") (auto simp: Let_def)

declare grep_loop.simps [simp del]

definition grep :: "u8 list \<Rightarrow> (nat \<Rightarrow> nat) \<Rightarrow> u8 list \<Rightarrow> u8 list" where
  "grep pattern sizes input = grep_loop pattern sizes 0 [] input"

section \<open>What a pattern means\<close>

text \<open>A pattern is a sequence of items, and a flag that says whether it must reach the end of the text.\<close>

datatype item = One u8 | Many u8

fun items :: "u8 list \<Rightarrow> item list \<times> bool" where
  "items [] = ([], False)"
| "items (c # re) =
    (if re \<noteq> [] \<and> hd re = 0x2a then (Many c # fst (items (tl re)), snd (items (tl re)))
     else if c = 0x24 \<and> re = [] then ([], True)
     else (One c # fst (items re), snd (items re)))"

declare items.simps(2) [simp del]

definition fits :: "u8 \<Rightarrow> u8 \<Rightarrow> bool" where
  "fits c t \<longleftrightarrow> c = 0x2e \<or> c = t"

primrec lang :: "item list \<Rightarrow> u8 list set" where
  "lang [] = {[]}"
| "lang (x # xs) =
    (case x of
       One c \<Rightarrow> {t # v | t v. fits c t \<and> v \<in> lang xs}
     | Many c \<Rightarrow> {u @ v | u v. (\<forall>t\<in>set u. fits c t) \<and> v \<in> lang xs})"

definition accepts :: "u8 list \<Rightarrow> u8 list \<Rightarrow> bool" where
  "accepts re str \<longleftrightarrow> (\<exists>u v. str = u @ v \<and> u \<in> lang (fst (items re)) \<and> (snd (items re) \<longrightarrow> v = []))"

lemma accepts_many:
  assumes "re \<noteq> []" "hd re = 0x2a"
  shows "accepts (c # re) str \<longleftrightarrow> (\<exists>u w. str = u @ w \<and> (\<forall>t\<in>set u. fits c t) \<and> accepts (tl re) w)"
    (is "_ \<longleftrightarrow> ?R")
proof
  assume "accepts (c # re) str"
  then obtain u v where "str = u @ v" and "u \<in> lang (Many c # fst (items (tl re)))" and e: "snd (items (tl re)) \<longrightarrow> v = []"
    using assms by (auto simp: accepts_def items.simps(2))
  then obtain x y where "str = x @ y @ v" "\<forall>t\<in>set x. fits c t" "y \<in> lang (fst (items (tl re)))" by auto
  with e show ?R unfolding accepts_def by blast
next
  assume ?R
  then obtain x y v where "str = x @ y @ v" "\<forall>t\<in>set x. fits c t" "y \<in> lang (fst (items (tl re)))" "snd (items (tl re)) \<longrightarrow> v = []"
    unfolding accepts_def by blast
  then have "str = (x @ y) @ v \<and> x @ y \<in> lang (fst (items (c # re))) \<and> (snd (items (c # re)) \<longrightarrow> v = [])"
    using assms by (auto simp: items.simps(2))
  then show "accepts (c # re) str" unfolding accepts_def by blast
qed

lemma accepts_one:
  assumes "\<not> (re \<noteq> [] \<and> hd re = 0x2a)" "\<not> (c = 0x24 \<and> re = [])"
  shows "accepts (c # re) str \<longleftrightarrow> str \<noteq> [] \<and> fits c (hd str) \<and> accepts re (tl str)"
proof -
  have "items (c # re) = (One c # fst (items re), snd (items re))" using assms by (auto simp: items.simps(2))
  then have "accepts (c # re) str \<longleftrightarrow>
      (\<exists>w v. str = w @ v \<and> (\<exists>t u. w = t # u \<and> fits c t \<and> u \<in> lang (fst (items re))) \<and> (snd (items re) \<longrightarrow> v = []))"
    unfolding accepts_def by simp
  also have "\<dots> \<longleftrightarrow>
      (\<exists>t u v. str = t # u @ v \<and> fits c t \<and> u \<in> lang (fst (items re)) \<and> (snd (items re) \<longrightarrow> v = []))"
    by (metis append_Cons)
  also have "\<dots> \<longleftrightarrow> str \<noteq> [] \<and> fits c (hd str) \<and> accepts re (tl str)"
    unfolding accepts_def by (cases str) auto
  finally show ?thesis .
qed

lemma accepts_end: "accepts [0x24] str \<longleftrightarrow> str = []"
  by (simp add: accepts_def items.simps(2))

lemma match_accepts:
  "matchhere re str \<longleftrightarrow> accepts re str"
  "matchstar c re str \<longleftrightarrow> (\<exists>u w. str = u @ w \<and> (\<forall>t\<in>set u. fits c t) \<and> accepts re w)"
proof (induction re str and c re str rule: matchhere_matchstar.induct)
  case (1 str)
  then show ?case by (simp add: accepts_def)
next
  case (2 c re str)
  show ?case
  proof (cases "re \<noteq> [] \<and> hd re = 0x2a")
    case True
    then show ?thesis using 2(1) accepts_many [of re c str] by (simp add: matchhere.simps(2))
  next
    case False
    show ?thesis
    proof (cases "c = 0x24 \<and> re = []")
      case True
      then show ?thesis by (simp add: matchhere.simps(2) accepts_end)
    next
      case no_end: False
      have "matchhere (c # re) str \<longleftrightarrow> str \<noteq> [] \<and> fits c (hd str) \<and> matchhere re (tl str)"
        using False no_end by (auto simp: matchhere.simps(2) fits_def)
      then show ?thesis using 2(2) [OF False no_end] accepts_one [OF False no_end] by (auto simp: fits_def)
    qed
  qed
next
  case (3 c re str)
  show ?case
  proof (cases "accepts re str")
    case True
    then show ?thesis using 3(1) by (subst matchstar.simps) (auto intro: exI [of _ "[]"])
  next
    case False
    show ?thesis
    proof (cases str)
      case Nil
      then show ?thesis using 3(1) False by (subst matchstar.simps) auto
    next
      case (Cons t ts)
      have "(\<exists>u w. str = u @ w \<and> (\<forall>t\<in>set u. fits c t) \<and> accepts re w) \<longleftrightarrow>
          fits c t \<and> (\<exists>u w. ts = u @ w \<and> (\<forall>t\<in>set u. fits c t) \<and> accepts re w)"
        (is "?L \<longleftrightarrow> _ \<and> ?M")
      proof
        assume ?L
        then obtain u w where u: "str = u @ w" "\<forall>t\<in>set u. fits c t" "accepts re w" by blast
        with False obtain x xs where "u = x # xs" by (cases u) auto
        with u Cons show "fits c t \<and> ?M" by auto
      next
        assume "fits c t \<and> ?M"
        then obtain u w where "fits c t" "ts = u @ w" "\<forall>t\<in>set u. fits c t" "accepts re w" by blast
        then have "str = (t # u) @ w \<and> (\<forall>t\<in>set (t # u). fits c t) \<and> accepts re w" using Cons by simp
        then show ?L by blast
      qed
      moreover have "matchstar c re str \<longleftrightarrow> (t = c \<or> c = 0x2e) \<and> matchstar c re ts"
        using 3(1) False Cons by (subst matchstar.simps) simp
      ultimately show ?thesis using 3(1,2) False Cons by (auto simp: fits_def)
    qed
  qed
qed

lemma ex_prefix:
  "(\<exists>u v. x # xs = u @ v \<and> P v) \<longleftrightarrow> P (x # xs) \<or> (\<exists>u v. xs = u @ v \<and> P v)"
  unfolding Cons_eq_append_conv by blast

text \<open>
  C26: \<open>match\<close> decides what the pattern means: some part of the text is in the language of the pattern's items. The part is at the
  start of the text for \<open>^\<close>, and \<open>accepts\<close> has it reach the end for \<open>$\<close>.
\<close>

theorem match_correct:
  "match re str \<longleftrightarrow>
    (if re \<noteq> [] \<and> hd re = 0x5e then accepts (tl re) str
     else \<exists>before after. str = before @ after \<and> accepts re after)"
proof -
  have "match_from re str \<longleftrightarrow> (\<exists>before after. str = before @ after \<and> accepts re after)"
  proof (induction str)
    case Nil
    then show ?case by (simp add: match_accepts)
  next
    case (Cons t str)
    have "(\<exists>before after. t # str = before @ after \<and> accepts re after)
        \<longleftrightarrow> accepts re (t # str) \<or> (\<exists>before after. str = before @ after \<and> accepts re after)"
      by (subst ex_prefix) simp
    then show ?case by (simp add: match_accepts Cons.IH)
  qed
  then show ?thesis by (auto simp: match_def match_accepts)
qed

section \<open>What grep prints\<close>

text \<open>The pieces of a text between newlines; the last piece is not a whole line.\<close>

primrec split_lines :: "u8 list \<Rightarrow> u8 list list" where
  "split_lines [] = [[]]"
| "split_lines (c # cs) =
    (if c = 10 then [] # split_lines cs else (c # hd (split_lines cs)) # tl (split_lines cs))"

definition matching :: "u8 list \<Rightarrow> u8 list list \<Rightarrow> u8 list" where
  "matching pattern ls = concat (map (\<lambda>l. if match pattern l then l @ [10] else []) ls)"

lemma matching_simps [simp]:
  "matching pattern [] = []"
  "matching pattern (l # ls) = (if match pattern l then l @ [10] else []) @ matching pattern ls"
  "matching pattern (ks @ ls) = matching pattern ks @ matching pattern ls"
  by (simp_all add: matching_def)

lemma split_ne [simp]: "split_lines cs \<noteq> []"
  by (cases cs) simp_all

lemma split_no_newline: "10 \<notin> set a \<Longrightarrow> split_lines (a @ cs) = (a @ hd (split_lines cs)) # tl (split_lines cs)"
  by (induction a) simp_all

lemma split_append:
  "split_lines (a @ cs) = butlast (split_lines a) @ (last (split_lines a) @ hd (split_lines cs)) # tl (split_lines cs)"
proof (induction a)
  case (Cons c a)
  then show ?case by (cases "split_lines a") auto
qed simp

lemma last_no_newline: "10 \<notin> set (last (split_lines a))"
proof (induction a)
  case (Cons c a)
  then show ?case by (cases "split_lines a") (auto split: if_splits)
qed simp

lemma split_carry: "split_lines (a @ cs) = butlast (split_lines a) @ split_lines (last (split_lines a) @ cs)"
  unfolding split_append [of a] split_no_newline [OF last_no_newline] ..

lemma set_last_split: "set (last (split_lines a)) \<subseteq> set a"
proof (induction a)
  case (Cons c a)
  then show ?case by (cases "split_lines a") (auto split: if_splits)
qed simp

lemma grep_lines_eq:
  "0 \<notin> set p \<Longrightarrow> grep_lines pattern p = (matching pattern (butlast (split_lines p)), last (split_lines p))"
proof (induction pattern p rule: grep_lines.induct)
  case (1 pattern p)
  let ?line = "takeWhile (\<lambda>c. c \<noteq> 10 \<and> c \<noteq> 0) p"
  let ?q = "drop (length ?line) p"
  have p: "p = ?line @ ?q" by (metis takeWhile_dropWhile_id dropWhile_eq_drop)
  have line: "10 \<notin> set ?line" by (auto dest: set_takeWhileD)
  have s: "split_lines p = (?line @ hd (split_lines ?q)) # tl (split_lines ?q)"
    using split_no_newline [OF line, of ?q] by (rule trans [OF arg_cong [OF p]])
  show ?case
  proof (cases "?q \<noteq> [] \<and> hd ?q = 10")
    case True
    then obtain q where q: "?q = 10 # q" by (cases ?q) auto
    have "set (10 # q) \<subseteq> set p" unfolding q [symmetric] by (rule set_drop_subset)
    then have "0 \<notin> set q" using 1(2) by auto
    then have IH: "grep_lines pattern q = (matching pattern (butlast (split_lines q)), last (split_lines q))"
      using 1(1) [OF refl refl True] q by simp
    have "split_lines p = ?line # split_lines q"
      using s q by simp
    then show ?thesis unfolding grep_lines.simps [of pattern p] Let_def if_P [OF True]
      using IH q by simp
  next
    case False
    have "?q = []"
    proof (rule ccontr)
      assume ne: "?q \<noteq> []"
      then have "dropWhile (\<lambda>c. c \<noteq> 10 \<and> c \<noteq> 0) p \<noteq> []" unfolding dropWhile_eq_drop .
      from hd_dropWhile [OF this] have "hd ?q = 10 \<or> hd ?q = 0" unfolding dropWhile_eq_drop by blast
      moreover have "hd ?q \<in> set p" using hd_in_set [OF ne] by (rule in_set_dropD)
      moreover have "hd ?q \<noteq> 10" using False ne by blast
      ultimately have "0 \<in> set p" by simp
      with 1(2) show False ..
    qed
    then have "?line = p" using p [symmetric] by simp
    with s \<open>?q = []\<close> have "split_lines p = [p]" by simp
    then show ?thesis unfolding grep_lines.simps [of pattern p] Let_def if_not_P [OF False] by simp
  qed
qed

lemma grep_loop_eq:
  assumes "\<And>i. 0 < sizes i" and "0 \<notin> set (m @ input)" and "10 \<notin> set m"
    and "\<forall>l\<in>set (split_lines (m @ input)). length l < BUF"
  shows "grep_loop pattern sizes i m input = matching pattern (butlast (split_lines (m @ input)))"
  using assms
proof (induction pattern sizes i m input rule: grep_loop.induct)
  case (1 pattern sizes i m input)
  let ?n = "min (sizes i) (BUF - length m)"
  let ?r = "take ?n input"
  show ?case
  proof (cases "?r = []")
    case True
    have "length m < BUF"
      using 1(5) unfolding split_no_newline [OF 1(4)] by simp
    with True have "input = []" using 1(2) [of i] by (auto simp: min_def split: if_splits)
    then show ?thesis using split_no_newline [OF 1(4), of "[]"] by (subst grep_loop.simps) simp
  next
    case False
    let ?rest = "last (split_lines (m @ ?r))"
    have l: "grep_lines pattern (m @ ?r) = (matching pattern (butlast (split_lines (m @ ?r))), ?rest)"
      using 1(3) by (intro grep_lines_eq) (auto dest: in_set_takeD)
    have s: "split_lines (m @ input) = butlast (split_lines (m @ ?r)) @ split_lines (?rest @ drop ?n input)"
      using split_carry [of "m @ ?r" "drop ?n input"] by simp
    have "set ?rest \<subseteq> set (m @ ?r)" by (rule set_last_split)
    then have "set (?rest @ drop ?n input) \<subseteq> set (m @ input)" by (auto dest: in_set_takeD in_set_dropD)
    then have "grep_loop pattern sizes (Suc i) ?rest (drop ?n input)
        = matching pattern (butlast (split_lines (?rest @ drop ?n input)))"
      using 1(3,5) s by (intro 1(1) [OF refl refl False l [symmetric] refl] 1(2) last_no_newline) auto
    then have "grep_loop pattern sizes i m input = matching pattern (butlast (split_lines (m @ ?r)))
        @ matching pattern (butlast (split_lines (?rest @ drop ?n input)))"
      unfolding grep_loop.simps [of pattern sizes i m input] Let_def l
      by (simp only: False if_False prod.case)
    then show ?thesis using s by (simp add: butlast_append)
  qed
qed

text \<open>
  C33: However the file is cut into reads, \<open>grep\<close> prints exactly the whole lines that match, each with its newline and in the order of
  the file, provided that no line is longer than the buffer and that there is no NUL.
\<close>

theorem grep_prints_matching:
  assumes "\<And>i. 0 < sizes i" and "0 \<notin> set input" and "\<forall>l\<in>set (split_lines input). length l < BUF"
  shows "grep pattern sizes input =
    concat (map (\<lambda>l. if match pattern l then l @ [10] else []) (butlast (split_lines input)))"
  using grep_loop_eq [of sizes "[]" input pattern 0] assms by (simp add: grep_def matching_def)

theorem grep_prints_matching_witness:
  "grep [0x5e, 0x61, 0x2a, 0x62] (\<lambda>i. 3) [0x61, 0x61, 0x62, 10, 0x63, 10, 0x62, 10] = [0x61, 0x61, 0x62, 10, 0x62, 10]"
  using grep_prints_matching [of "\<lambda>i. 3" "[0x61, 0x61, 0x62, 10, 0x63, 10, 0x62, 10]" "[0x5e, 0x61, 0x2a, 0x62]"]
  by (simp add: BUF_def match_def matchhere.simps matchstar.simps)

text \<open>A line that fills the buffer ends the search of the file.\<close>

lemma grep_long_line:
  assumes "10 \<notin> set m" and "0 \<notin> set m" and "BUF \<le> length m"
  shows "grep_loop pattern sizes i m input = []"
  using assms by (subst grep_loop.simps) simp

end
