(* ===== verification/Ulib.thy ===== *)
theory Ulib imports Prelude begin

text \<open>
  user/ulib.c and user/printf.c: the library of user programs. A C string is the list of its characters before the NUL. What a program
  writes is the list of the characters.
\<close>

section \<open>Strings\<close>

text \<open>The difference of the first two characters that are not the same, the NULs at the ends among them; it is at least -255 and at most 255.\<close>

fun ustrcmp :: "u8 list \<Rightarrow> u8 list \<Rightarrow> int" where
  "ustrcmp (c # p) (d # q) = (if c = d then ustrcmp p q else uint c - uint d)"
| "ustrcmp [] [] = 0"
| "ustrcmp (c # p) [] = uint c"
| "ustrcmp [] (d # q) = - uint d"

text \<open>What is in the string from the first \<open>c\<close> on, or \<open>None\<close> for the null pointer: the NUL at the end is not found.\<close>

primrec ustrchr :: "u8 list \<Rightarrow> u8 \<Rightarrow> u8 list option" where
  "ustrchr [] c = None"
| "ustrchr (d # s) c = (if d = c then Some (d # s) else ustrchr s c)"

text \<open>
  \<open>gets\<close> on the input that is left: what is in the buffer before the NUL that it puts at the end, and the rest of the input.
\<close>

fun gets_loop :: "nat \<Rightarrow> u8 list \<Rightarrow> u8 list \<times> u8 list" where
  "gets_loop room [] = ([], [])"
| "gets_loop 0 input = ([], input)"
| "gets_loop (Suc room) (c # input) =
    (if c = 10 \<or> c = 13 then ([c], input) else let (b, rest) = gets_loop room input in (c # b, rest))"

definition gets :: "nat \<Rightarrow> u8 list \<Rightarrow> u8 list \<times> u8 list" where
  "gets n input = gets_loop (n - 1) input"

text \<open>The loop of \<open>atoi\<close>, with the sum wrapping at 32 bits.\<close>

fun atoi_loop :: "u32 \<Rightarrow> u8 list \<Rightarrow> u32" where
  "atoi_loop n [] = n"
| "atoi_loop n (c # s) = (if 0x30 \<le> c \<and> c \<le> 0x39 then atoi_loop (n * 10 + ucast c - 0x30) s else n)"

definition atoi :: "u8 list \<Rightarrow> u32" where
  "atoi s = (case s of [] \<Rightarrow> 0 | c # r \<Rightarrow> if c = 0x2d then atoi_loop 0 r * (- 1) else atoi_loop 0 s)"

section \<open>printf\<close>

definition udigits :: "u8 list" where
  "udigits = [0x30, 0x31, 0x32, 0x33, 0x34, 0x35, 0x36, 0x37, 0x38, 0x39, 0x41, 0x42, 0x43, 0x44, 0x45, 0x46]"

text \<open>The characters that the loop puts in \<open>buf\<close>, the last digit first. The base is 10 or 16.\<close>

function digit_loop :: "u32 \<Rightarrow> u32 \<Rightarrow> u8 list" where
  "digit_loop x b =
    (let d = udigits ! unat (x mod b); x' = x div b in
     if x' = 0 \<or> b \<le> 1 then [d] else d # digit_loop x' b)"
  by pat_completeness auto
termination
proof (relation "measure (\<lambda>(x, _). unat x)", goal_cases)
  case (2 x b d x')
  then have "1 < unat b" by (simp add: word_le_nat_alt)
  moreover have "x \<noteq> 0" using 2 by auto
  then have "0 < unat x" by (simp add: unat_gt_0)
  ultimately have "unat x div unat b < unat x" by simp
  then show ?case using 2 by (simp add: unat_div)
qed simp

declare digit_loop.simps [simp del]

definition uprintint :: "u32 \<Rightarrow> u32 \<Rightarrow> bool \<Rightarrow> u8 list" where
  "uprintint xx b neg =
    (if neg \<and> xx <s 0 then 0x2d # rev (digit_loop (- xx) b) else rev (digit_loop xx b))"

definition uprintptr :: "u64 \<Rightarrow> u8 list" where
  "uprintptr x = [0x30, 0x78] @ map (\<lambda>i. udigits ! unat (drop_bit 60 (push_bit (4 * i) x))) [0..<16]"

text \<open>An argument is a number or a string, which can be null. \<open>None\<close> stands for an argument that is not there or not of the kind.\<close>

datatype varg = Num u64 | Str "u8 list option"

fun vprintf :: "u8 list \<Rightarrow> varg list \<Rightarrow> u8 list option" where
  "vprintf [] ap = Some []"
| "vprintf (c # fmt) ap =
    (if c \<noteq> 0x25 then map_option ((#) c) (vprintf fmt ap)
     else case fmt of
       [] \<Rightarrow> Some []
     | k # fmt \<Rightarrow>
         if k = 0x73 then
           (case ap of
              Str s # ap \<Rightarrow>
                map_option ((@) (case s of None \<Rightarrow> [0x28, 0x6e, 0x75, 0x6c, 0x6c, 0x29] | Some s \<Rightarrow> s)) (vprintf fmt ap)
            | _ \<Rightarrow> None)
         else if k \<in> {0x64, 0x6c, 0x78, 0x70, 0x63} then
           (case ap of
              Num w # ap \<Rightarrow>
                map_option ((@)
                  (if k = 0x64 then uprintint (ucast w) 10 True
                   else if k = 0x6c then uprintint (ucast w) 10 False
                   else if k = 0x78 then uprintint (ucast w) 16 False
                   else if k = 0x70 then uprintptr w else [ucast w])) (vprintf fmt ap)
            | _ \<Rightarrow> None)
         else if k = 0x25 then map_option ((#) 0x25) (vprintf fmt ap)
         else map_option ((@) [0x25, k]) (vprintf fmt ap))"

section \<open>Numbers are printed as they are read\<close>

definition digit_step :: "u32 \<Rightarrow> u8 \<Rightarrow> u32" where
  "digit_step n c = n * 10 + ucast c - 0x30"

lemma less_10: "k < 10 \<Longrightarrow> k \<in> {0, 1, 2, 3, 4, 5, 6, 7, 8, 9 :: nat}"
  by auto

lemma udigits_small: "k < 10 \<Longrightarrow> udigits ! k = 0x30 + of_nat k"
  by (drule less_10) (auto simp: udigits_def)

lemma digit_mod: "udigits ! unat ((x::u32) mod 10) = 0x30 + ucast (x mod 10) \<and> unat (x mod 10) < 10"
proof -
  have "unat (x mod 10) < 10" by (simp add: unat_mod)
  moreover have "of_nat (unat (x mod 10)) = (ucast (x mod 10) :: u8)" by simp
  ultimately show ?thesis using udigits_small by metis
qed

lemma digit_char: "k < 10 \<Longrightarrow> 0x30 \<le> (0x30 + of_nat k :: u8) \<and> (0x30 + of_nat k :: u8) \<le> 0x39"
  by (drule less_10) auto

lemma digit_loop_digits: "\<forall>c\<in>set (digit_loop x 10). 0x30 \<le> c \<and> c \<le> 0x39"
proof (induction x "10 :: u32" rule: digit_loop.induct)
  case (1 x)
  have "0x30 \<le> udigits ! unat (x mod 10) \<and> udigits ! unat (x mod 10) \<le> 0x39"
    using digit_mod [of x] digit_char [of "unat (x mod 10)"] by simp
  then show ?case using 1 by (auto simp: digit_loop.simps [of x 10] Let_def)
qed

lemma digit_value: "k < 10 \<Longrightarrow> ucast (0x30 + of_nat k :: u8) - 0x30 = (of_nat k :: u32)"
  by (drule less_10) auto

lemma digit_step_mod: "digit_step n (udigits ! unat (x mod 10)) = n * 10 + x mod 10"
proof -
  have "unat (x mod 10) < 10" using digit_mod by blast
  then have "ucast (udigits ! unat (x mod 10)) - 0x30 = (x mod 10 :: u32)"
    using udigits_small digit_value [of "unat (x mod 10)"] by simp
  then show ?thesis by (simp add: digit_step_def add_diff_eq [symmetric])
qed

lemma digit_loop_value: "foldl digit_step 0 (rev (digit_loop x 10)) = x"
proof (induction x "10 :: u32" rule: digit_loop.induct)
  case (1 x)
  have "x div 10 * 10 + x mod 10 = x" by (rule div_mult_mod_eq)
  moreover have "\<not> 10 \<le> (1 :: u32)" by (simp add: word_le_nat_alt)
  ultimately show ?case using 1 by (auto simp: digit_loop.simps [of x 10] Let_def digit_step_mod)
qed

lemma atoi_loop_fold: "\<forall>c\<in>set s. 0x30 \<le> c \<and> c \<le> 0x39 \<Longrightarrow> atoi_loop n s = foldl digit_step n s"
  by (induction s arbitrary: n) (auto simp: digit_step_def)

text \<open>
  \<open>atoi\<close> reads back what \<open>printf\<close> prints for \<open>%d\<close>, for every \<open>int\<close>, the least one included (where the code relies on sums that wrap).
\<close>

theorem atoi_printint: "atoi (uprintint x 10 True) = x"
proof -
  have pos: "atoi (rev (digit_loop y 10)) = y" for y
  proof (cases "rev (digit_loop y 10)")
    case Nil
    then show ?thesis using digit_loop_value [of y] by (simp add: atoi_def)
  next
    case (Cons c r)
    then have "c \<in> set (digit_loop y 10)" by (metis list.set_intros(1) set_rev)
    then have "c \<noteq> 0x2d" using digit_loop_digits [of y] by auto
    then show ?thesis using atoi_loop_fold [of "rev (digit_loop y 10)" 0] digit_loop_digits [of y] digit_loop_value [of y] Cons
      by (simp add: atoi_def)
  qed
  have "atoi_loop 0 (rev (digit_loop y 10)) = y" for y
    using atoi_loop_fold [of "rev (digit_loop y 10)" 0] digit_loop_digits [of y] digit_loop_value [of y] by simp
  then show ?thesis using pos by (simp add: uprintint_def atoi_def)
qed

end
