(* ===== verification/Tools.thy ===== *)
theory Tools imports Ulib begin

text \<open>
  The filters user/wc.c and user/xargs.c. As in \<open>Grep\<close>, \<open>input\<close> is what is still to be read.
\<close>

section \<open>wc\<close>

text \<open>The counters \<open>l\<close>, \<open>w\<close>, \<open>c\<close> and \<open>inword\<close>.\<close>

type_synonym wc_st = "u32 \<times> u32 \<times> u32 \<times> bool"

definition wc_char :: "u8 \<Rightarrow> wc_st \<Rightarrow> wc_st" where
  "wc_char b st =
    (case st of (l, w, c, inword) \<Rightarrow>
      let c = c + 1; l = (if b = 10 then l + 1 else l) in
      if ustrchr [0x20, 13, 9, 10, 11] b \<noteq> None then (l, w, c, False)
      else if \<not> inword then (l, w + 1, c, True) else (l, w, c, inword))"

text \<open>The loop over the reads; \<open>sizes i\<close> is how much the \<open>i\<close>-th gives at most.\<close>

function wc_loop :: "(nat \<Rightarrow> nat) \<Rightarrow> nat \<Rightarrow> wc_st \<Rightarrow> u8 list \<Rightarrow> wc_st" where
  "wc_loop sizes i st input =
    (let n = min (sizes i) 512; r = take n input in
     if r = [] then st else wc_loop sizes (Suc i) (fold wc_char r st) (drop n input))"
  by pat_completeness auto
termination
  by (relation "measure (\<lambda>(_, _, _, input). length input)") (auto simp: Let_def)

declare wc_loop.simps [simp del]

definition wc :: "(nat \<Rightarrow> nat) \<Rightarrow> u8 list \<Rightarrow> u32 \<times> u32 \<times> u32" where
  "wc sizes input = (case wc_loop sizes 0 (0, 0, 0, False) input of (l, w, c, _) \<Rightarrow> (l, w, c))"

text \<open>The words of a text: the longest pieces without a blank in them.\<close>

definition blank :: "u8 \<Rightarrow> bool" where
  "blank b \<longleftrightarrow> b \<in> {0x20, 13, 9, 10, 11}"

function text_words :: "u8 list \<Rightarrow> u8 list list" where
  "text_words [] = []"
| "text_words (b # bs) =
    (if blank b then text_words bs
     else (b # takeWhile (\<lambda>b. \<not> blank b) bs) # text_words (dropWhile (\<lambda>b. \<not> blank b) bs))"
  by pat_completeness auto
termination
  by (relation "measure length") (auto simp: le_imp_less_Suc length_dropWhile_le)

lemma wc_loop_fold: "(\<And>i. 0 < sizes i) \<Longrightarrow> wc_loop sizes i st input = fold wc_char input st"
proof (induction sizes i st input rule: wc_loop.induct)
  case (1 sizes i st input)
  show ?case
  proof (cases "input = []")
    case True
    then show ?thesis by (simp add: wc_loop.simps [of sizes i])
  next
    case False
    let ?n = "min (sizes i) 512"
    have "0 < ?n" using 1(2) [of i] by simp
    then have "take ?n input \<noteq> []" using False by simp
    then have "wc_loop sizes i st input = fold wc_char (drop ?n input) (fold wc_char (take ?n input) st)"
      using 1(1) [OF refl refl \<open>take ?n input \<noteq> []\<close> 1(2)] \<open>take ?n input \<noteq> []\<close> \<open>0 < ?n\<close> by (simp add: wc_loop.simps [of sizes i] Let_def min_def)
    also have "\<dots> = fold wc_char (take ?n input @ drop ?n input) st" by (simp only: fold_append comp_apply)
    finally show ?thesis by simp
  qed
qed

lemma wc_char_simp:
  "wc_char b (l, w, c, inword) =
    (if b = 10 then l + 1 else l, if blank b \<or> inword then w else w + 1, c + 1, \<not> blank b)"
  by (auto simp: wc_char_def blank_def)

text \<open>Inside of a word the first piece does not count.\<close>

lemma wc_fold:
  "fold wc_char bs (l, w, c, inword) =
    (l + of_nat (count_list bs 10), w + of_nat (length (text_words (if inword then dropWhile (\<lambda>b. \<not> blank b) bs else bs))),
     c + of_nat (length bs), if bs = [] then inword else \<not> blank (last bs))"
proof (induction bs arbitrary: l w c inword)
  case (Cons b bs)
  then show ?case by (cases "blank b"; cases inword) (auto simp: wc_char_simp)
qed simp

text \<open>
  Whatever the reads give, as long as each gives something until the input ends, \<open>wc\<close> counts the newlines, the words and the characters of the whole
  input, modulo 2^32.
\<close>

theorem wc_counts:
  assumes "\<And>i. 0 < sizes i"
  shows "wc sizes input = (of_nat (count_list input 10), of_nat (length (text_words input)), of_nat (length input))"
  using wc_loop_fold [of sizes, OF assms] by (simp add: wc_def wc_fold)

lemma wc_counts_witness: "wc (\<lambda>i. if i = 0 then 3 else 5) [0x61, 0x20, 0x62, 0x63, 10, 10, 0x64] = (2, 3, 7)"
  by (subst wc_counts) (simp_all add: blank_def)

section \<open>xargs\<close>

text \<open>
  \<open>readline\<close> on the array \<open>buf\<close>, from the position \<open>p\<close> on: the position at the end, the array and the rest of the input. A character is stored before its
  position is compared with the length, and at the end of the input no NUL is put behind the line.
\<close>

fun xreadline :: "nat \<Rightarrow> u8 list \<Rightarrow> u8 list \<Rightarrow> (nat \<times> u8 list \<times> u8 list) kres" where
  "xreadline p buf [] = Inr (p, buf, [])"
| "xreadline p buf (c # input) =
    (if length buf \<le> p then Inl Wild
     else if c = 10 then
       if p = 0 then xreadline 0 (buf[0 := c]) input else Inr (p, buf[p := 0], input)
     else xreadline (p + 1) (buf[p := c]) input)"

lemma xreadline_shorter: "xreadline p buf input = Inr (n, buf', rest) \<Longrightarrow> length rest \<le> length input \<and> (p < n \<longrightarrow> length rest < length input)"
  by (induction p buf input rule: xreadline.induct) (auto split: if_splits)

text \<open>The arguments with which the command is run while there are lines; the last of them is the string in \<open>buf\<close>.\<close>

function xargs_loop :: "u8 list list \<Rightarrow> u8 list \<Rightarrow> u8 list \<Rightarrow> u8 list list list kres" where
  "xargs_loop argv buf input =
    (if 0 \<notin> set buf then Inl Wild
     else
       kbind (xreadline 0 buf input) (\<lambda>(n, buf', input).
         if n = 0 then Inr [argv @ [cstr buf]]
         else kbind (xargs_loop argv buf' input) (\<lambda>rest. Inr ((argv @ [cstr buf]) # rest))))"
  by pat_completeness auto
termination
  by (relation "measure (\<lambda>(_, _, input). length input)") (auto dest: xreadline_shorter)

declare xargs_loop.simps [simp del]

text \<open>\<open>junk\<close> is what is in \<open>buf\<close> at the start; \<open>argv\<close> is the command and its first arguments.\<close>

definition xargs :: "u8 list \<Rightarrow> u8 list list \<Rightarrow> u8 list \<Rightarrow> u8 list list list kres" where
  "xargs junk argv input =
    kbind (xreadline 0 junk input) (\<lambda>(n, buf, input). if n = 0 then Inr [argv] else xargs_loop argv buf input)"

text \<open>A line that fits, and a text of lines.\<close>

definition xline :: "u8 list \<Rightarrow> bool" where
  "xline l \<longleftrightarrow> 0 \<notin> set l \<and> 10 \<notin> set l \<and> length l < 128"

definition unlines :: "u8 list list \<Rightarrow> u8 list" where
  "unlines ls = concat (map (\<lambda>l. l @ [10]) ls)"

lemma unlines_simps [simp]: "unlines [] = []" "unlines (l # ls) = l @ 10 # unlines ls"
  by (simp_all add: unlines_def)

lemma xreadline_line:
  assumes "p + length l < length buf" and "10 \<notin> set l" and "0 < p + length l"
  shows "xreadline p buf (l @ 10 # input) = Inr (p + length l, (take p buf @ l @ drop (p + length l) buf)[p + length l := 0], input)"
  using assms
proof (induction l arbitrary: p buf)
  case Nil
  then show ?case by simp
next
  case (Cons c l)
  have "take (Suc p) (buf[p := c]) = take p buf @ [c]" using Cons.prems(1) by (simp add: take_Suc_conv_app_nth)
  moreover have "xreadline (Suc p) (buf[p := c]) (l @ 10 # input) = Inr (Suc p + length l,
      (take (Suc p) (buf[p := c]) @ l @ drop (Suc p + length l) (buf[p := c]))[Suc p + length l := 0], input)"
    by (rule Cons.IH) (use Cons.prems in auto)
  ultimately show ?case using Cons.prems by simp
qed

text \<open>Empty lines are skipped; the first that is not is in the array afterwards.\<close>

lemma xreadline_lines:
  assumes "length buf = 128" and "\<forall>l\<in>set ls. xline l"
  shows "case filter (\<lambda>l. l \<noteq> []) ls of
      [] \<Rightarrow> \<exists>b. xreadline 0 buf (unlines ls) = Inr (0, b, [])
    | l # fs \<Rightarrow> \<exists>b ms. xreadline 0 buf (unlines ls) = Inr (length l, b, unlines ms) \<and> length b = 128 \<and> 0 \<in> set b \<and> cstr b = l \<and>
        filter (\<lambda>l. l \<noteq> []) ms = fs \<and> set ms \<subseteq> set ls"
  using assms
proof (induction ls arbitrary: buf)
  case (Cons l ls)
  show ?case
  proof (cases "l = []")
    case True
    then show ?thesis using Cons.IH [of "buf[0 := 10]"] Cons.prems by (auto split: list.splits)
  next
    case False
    let ?b = "(l @ drop (length l) buf)[length l := 0]"
    have l: "0 \<notin> set l" "10 \<notin> set l" "length l < 128" using Cons.prems(2) by (auto simp: xline_def)
    then have r: "xreadline 0 buf (unlines (l # ls)) = Inr (length l, ?b, unlines ls)"
      using xreadline_line [of 0 l buf "unlines ls"] Cons.prems(1) False by simp
    obtain d ds where "drop (length l) buf = d # ds" using l(3) Cons.prems(1) by (cases "drop (length l) buf") auto
    then have b: "?b = l @ 0 # ds" by simp
    have "cstr (l @ 0 # ds) = l" using l(1) unfolding cstr_def by (subst takeWhile_append2) auto
    moreover have "length ?b = 128" using l(3) Cons.prems(1) by simp
    ultimately show ?thesis using r b False by (auto intro!: exI [of _ ?b] exI [of _ ls])
  qed
qed simp

lemma xargs_loop_lines:
  assumes "length buf = 128" and "0 \<in> set buf" and "\<forall>l\<in>set ls. xline l"
  shows "xargs_loop argv buf (unlines ls) = Inr (map (\<lambda>l. argv @ [l]) (cstr buf # filter (\<lambda>l. l \<noteq> []) ls))"
  using assms
proof (induction "length (filter (\<lambda>l. l \<noteq> []) ls)" arbitrary: buf ls)
  case 0
  then show ?case using xreadline_lines [of buf ls] by (auto simp: xargs_loop.simps [of argv buf])
next
  case (Suc n)
  then obtain l fs where f: "filter (\<lambda>l. l \<noteq> []) ls = l # fs" by (cases "filter (\<lambda>l. l \<noteq> []) ls") auto
  then obtain b ms where x: "xreadline 0 buf (unlines ls) = Inr (length l, b, unlines ms)" "length b = 128" "0 \<in> set b" "cstr b = l"
    "filter (\<lambda>l. l \<noteq> []) ms = fs" "set ms \<subseteq> set ls"
    using xreadline_lines [of buf ls] Suc.prems by auto
  have "l \<in> set (filter (\<lambda>l. l \<noteq> []) ls)" using f by simp
  then have "l \<noteq> []" by auto
  moreover have "xargs_loop argv b (unlines ms) = Inr (map (\<lambda>l. argv @ [l]) (cstr b # filter (\<lambda>l. l \<noteq> []) ms))"
    by (rule Suc.hyps(1)) (use x f Suc in auto)
  ultimately show ?case using x f Suc.prems by (simp add: xargs_loop.simps [of argv buf])
qed

text \<open>
  \<open>xargs\<close> on lines of up to 127 characters, each with its newline, runs the command once for each line that is not empty, in order, with the line as
  the last argument; without any such line it runs the command once as it is.
\<close>

theorem xargs_lines:
  assumes "length junk = 128" and "\<forall>l\<in>set ls. xline l"
  shows "xargs junk argv (unlines ls) =
    Inr (if filter (\<lambda>l. l \<noteq> []) ls = [] then [argv] else map (\<lambda>l. argv @ [l]) (filter (\<lambda>l. l \<noteq> []) ls))"
proof (cases "filter (\<lambda>l. l \<noteq> []) ls")
  case Nil
  then show ?thesis using xreadline_lines [OF assms] by (auto simp: xargs_def)
next
  case (Cons l fs)
  then obtain b ms where x: "xreadline 0 junk (unlines ls) = Inr (length l, b, unlines ms)" "length b = 128" "0 \<in> set b" "cstr b = l"
    "filter (\<lambda>l. l \<noteq> []) ms = fs" "set ms \<subseteq> set ls"
    using xreadline_lines [OF assms] by auto
  have "l \<in> set (filter (\<lambda>l. l \<noteq> []) ls)" using Cons by simp
  then have "l \<noteq> []" by auto
  moreover have "xargs_loop argv b (unlines ms) = Inr (map (\<lambda>l. argv @ [l]) (cstr b # filter (\<lambda>l. l \<noteq> []) ms))"
    by (rule xargs_loop_lines) (use x assms in auto)
  ultimately show ?thesis using x Cons by (simp add: xargs_def)
qed

lemma xargs_lines_witness:
  "xargs (replicate 128 0xff) [[0x65]] [0x61, 0x62, 10, 10, 0x63, 10] = Inr [[[0x65], [0x61, 0x62]], [[0x65], [0x63]]]"
  using xargs_lines [of "replicate 128 0xff" "[[0x61, 0x62], [], [0x63]]" "[[0x65]]"] by (simp add: xline_def)

text \<open>\<open>ab\<close>, a newline and \<open>c\<close>: without a newline at the end the last line keeps what the longer line before it left in the array.\<close>

lemma xargs_unfinished:
  "xargs (replicate 128 0) [] [0x61, 0x62, 10, 0x63] = Inr [[[0x61, 0x62]], [[0x63, 0x62]]]"
proof -
  have "replicate 128 (0::u8) = 0 # 0 # 0 # 0 # replicate 124 0" by (simp add: numeral_eq_Suc)
  then show ?thesis by (simp add: xargs_def xargs_loop.simps cstr_def)
qed

end
