(* ===== verification/Shell.thy ===== *)
theory Shell imports Fcntl begin

text \<open>
  user/sh.c: the parser of command lines. The line is a buffer of characters, without the NUL at its end; a pointer into it is an
  index. A word of a command is the pair of indices that the code keeps, where it starts and where it ends.
\<close>

section \<open>Commands\<close>

text \<open>
  The structures \<open>execcmd\<close> to \<open>backcmd\<close> behind a \<open>struct cmd\<close>, over words \<open>'w\<close>. A redirection has the file, the mode to open it with and
  the descriptor. \<open>malloc\<close> is taken to succeed, as the code takes it.
\<close>

datatype 'w cmd =
    EXEC "'w list"
  | REDIR "'w cmd" 'w u32 nat
  | PIPE "'w cmd" "'w cmd"
  | LIST "'w cmd" "'w cmd"
  | BACK "'w cmd"

type_synonym slice = "nat \<times> nat"

definition MAXARGS :: nat where "MAXARGS = 10"

section \<open>Tokens\<close>

definition whitespace :: "u8 list" where "whitespace = [0x20, 9, 13, 10, 11]"
definition symbols :: "u8 list" where "symbols = [0x3c, 0x7c, 0x3e, 0x26, 0x3b, 0x28, 0x29]"

definition at :: "u8 list \<Rightarrow> nat \<Rightarrow> u8" where
  "at b i = (if i < length b then b ! i else 0)"

text \<open>A character that can be in a word.\<close>

definition wordchar :: "u8 \<Rightarrow> bool" where
  "wordchar c \<longleftrightarrow> c \<notin> set whitespace \<and> c \<notin> set symbols"

definition skip_white :: "u8 list \<Rightarrow> nat \<Rightarrow> nat" where
  "skip_white b i = i + length (takeWhile (\<lambda>c. c \<in> set whitespace) (drop i b))"

text \<open>The token, where it starts and ends, and the next position.\<close>

definition gettoken :: "u8 list \<Rightarrow> nat \<Rightarrow> u8 \<times> nat \<times> nat \<times> nat" where
  "gettoken b i =
    (let q = skip_white b i;
         c = at b q;
         (ret, eq) =
           (if c = 0 then (c, q)
            else if c \<in> {0x7c, 0x28, 0x29, 0x3b, 0x26, 0x3c} then (c, q + 1)
            else if c = 0x3e then (if at b (q + 1) = 0x3e then (0x2b, q + 2) else (c, q + 1))
            else (0x61, q + length (takeWhile wordchar (drop q b))))
     in (ret, q, eq, skip_white b eq))"

definition peek :: "u8 list \<Rightarrow> nat \<Rightarrow> u8 list \<Rightarrow> bool \<times> nat" where
  "peek b i toks = (let s = skip_white b i in (at b s \<noteq> 0 \<and> at b s \<in> set toks, s))"

definition next_token :: "u8 list \<Rightarrow> nat \<Rightarrow> nat" where
  "next_token b i = (let (_, _, _, j) = gettoken b i in j)"

lemma skip_white_le: "i \<le> skip_white b i"
  by (simp add: skip_white_def)

lemma skip_white_bound: "i \<le> length b \<Longrightarrow> skip_white b i \<le> length b"
  using length_takeWhile_le [of "\<lambda>c. c \<in> set whitespace" "drop i b"] by (simp add: skip_white_def)

lemma skip_white_idem: "skip_white b (skip_white b i) = skip_white b i"
proof -
  let ?P = "\<lambda>c. c \<in> set whitespace"
  have "drop (skip_white b i) b = dropWhile ?P (drop i b)"
    by (simp add: skip_white_def dropWhile_eq_drop add.commute)
  then show ?thesis using hd_dropWhile [of ?P "drop i b"]
    by (cases "dropWhile ?P (drop i b)") (auto simp: skip_white_def [of b "skip_white b i"])
qed

text \<open>A token that is not the end of the line moves on, and stays inside of it.\<close>

lemma gettoken_moves:
  assumes "gettoken b i = (t, q, e, j)"
  shows "i \<le> q" and "q \<le> e" and "e \<le> j" and "t \<noteq> 0 \<Longrightarrow> q < e" and "i \<le> length b \<Longrightarrow> j \<le> length b"
proof -
  have w: "at b q \<noteq> 0 \<Longrightarrow> \<not> at b q \<in> {0x7c, 0x28, 0x29, 0x3b, 0x26, 0x3c} \<Longrightarrow> at b q \<noteq> 0x3e \<Longrightarrow> q = skip_white b i \<Longrightarrow>
      0 < length (takeWhile wordchar (drop q b))"
  proof -
    assume a: "at b q \<noteq> 0" "\<not> at b q \<in> {0x7c, 0x28, 0x29, 0x3b, 0x26, 0x3c}" "at b q \<noteq> 0x3e" "q = skip_white b i"
    then have q: "q < length b" by (simp add: at_def split: if_splits)
    then have d: "drop q b = at b q # drop (Suc q) b" by (simp add: at_def Cons_nth_drop_Suc)
    have "at b q \<notin> set whitespace"
    proof
      assume "at b q \<in> set whitespace"
      then have "skip_white b q \<noteq> q" using d by (simp add: skip_white_def)
      then show False using skip_white_idem [of b i] a(4) by simp
    qed
    then have "wordchar (at b q)" using a by (simp add: wordchar_def symbols_def)
    then show ?thesis using d by simp
  qed
  have q: "q = skip_white b i" and j: "j = skip_white b e"
    using assms by (auto simp: gettoken_def Let_def split: if_splits)
  show "i \<le> q" and "e \<le> j" using q j skip_white_le by simp_all
  show "q \<le> e" using assms by (auto simp: gettoken_def Let_def split: if_splits)
  show "t \<noteq> 0 \<Longrightarrow> q < e" using assms w q by (auto simp: gettoken_def Let_def split: if_splits)
  assume i: "i \<le> length b"
  have "e \<le> length b"
    using assms skip_white_bound [OF i] length_takeWhile_le [of wordchar "drop q b"]
    by (auto simp: gettoken_def Let_def at_def split: if_splits)
  then show "j \<le> length b" using j skip_white_bound by simp
qed

lemma peek_moves:
  assumes "peek b i toks = (p, s)"
  shows "i \<le> s" and "i \<le> length b \<Longrightarrow> s \<le> length b" and "p \<Longrightarrow> s < length b" and "p \<Longrightarrow> s < next_token b s"
proof -
  have s: "s = skip_white b i" using assms by (simp add: peek_def Let_def)
  then show "i \<le> s" and "i \<le> length b \<Longrightarrow> s \<le> length b" by (simp_all add: skip_white_le skip_white_bound)
  assume p: p
  then have a: "at b s \<noteq> 0" using assms s by (auto simp: peek_def Let_def)
  then show "s < length b" by (simp add: at_def split: if_splits)
  obtain t q e j where g: "gettoken b s = (t, q, e, j)" by (metis prod_cases4)
  have "q = s" using g s skip_white_idem by (auto simp: gettoken_def Let_def split: if_splits)
  then have "t \<noteq> 0" using g a by (auto simp: gettoken_def Let_def split: if_splits)
  then show "s < next_token b s" using gettoken_moves [OF g] by (simp add: next_token_def g)
qed

lemma gettoken_inside:
  assumes "gettoken b i = (t, q, e, j)"
  shows "i \<le> j \<and> (i \<le> length b \<longrightarrow> j \<le> length b) \<and> (t \<noteq> 0 \<longrightarrow> i < j \<and> i < length b)"
proof -
  have "t \<noteq> 0 \<Longrightarrow> i < length b"
  proof -
    assume "t \<noteq> 0"
    then have "at b (skip_white b i) \<noteq> 0" using assms by (auto simp: gettoken_def Let_def split: if_splits)
    then show "i < length b" using skip_white_le [of i b] by (simp add: at_def split: if_splits)
  qed
  then show ?thesis using gettoken_moves [OF assms] by auto
qed

lemma peek_token:
  assumes "peek b i toks = (True, s)"
  shows "i \<le> s \<and> s < length b \<and> s < next_token b s"
  using peek_moves [OF assms] by simp

section \<open>The parser\<close>

text \<open>
  The code wraps the command in one \<open>redircmd\<close> after another while it still adds arguments to the \<open>execcmd\<close> inside. The model collects
  the redirections and wraps the finished command in them, in the same order.
\<close>

type_synonym redir = "slice \<times> u32 \<times> nat"

definition redircmd :: "redir \<Rightarrow> slice cmd \<Rightarrow> slice cmd" where
  "redircmd r c = (case r of (w, mode, fd) \<Rightarrow> REDIR c w mode fd)"

definition redir_of :: "u8 \<Rightarrow> slice \<Rightarrow> redir" where
  "redir_of tok w =
    (if tok = 0x3c then (w, O_RDONLY, 0)
     else if tok = 0x3e then (w, O_WRONLY OR O_CREATE OR O_TRUNC, 1)
     else (w, O_WRONLY OR O_CREATE OR O_APPEND, 1))"

function parseredirs :: "u8 list \<Rightarrow> nat \<Rightarrow> (redir list \<times> nat) kres" where
  "parseredirs b i =
    (let (p, i) = peek b i [0x3c, 0x3e] in
     if p then
       let (tok, _, _, i) = gettoken b i; (t, q, eq, i) = gettoken b i in
       if t \<noteq> 0x61 then Inl (Panic ''missing file for redirection'')
       else kbind (parseredirs b i) (\<lambda>(rs, i). Inr (redir_of tok (q, eq) # rs, i))
     else Inr ([], i))"
  by pat_completeness auto
termination
  by (relation "measure (\<lambda>(b, i). length b - i)") (auto dest!: peek_token [OF sym] gettoken_inside [OF sym])

declare parseredirs.simps [simp del]

lemma parseredirs_moves: "parseredirs b i = Inr (rs, j) \<Longrightarrow> i \<le> j \<and> (i \<le> length b \<longrightarrow> j \<le> length b)"
proof (induction b i arbitrary: rs j rule: parseredirs.induct)
  case (1 b i)
  obtain p s where p: "peek b i [0x3c, 0x3e] = (p, s)" by (metis surj_pair)
  note m = peek_moves [OF p]
  show ?case
  proof (cases p)
    case False
    then show ?thesis using 1(2) p m by (simp add: parseredirs.simps [of b i])
  next
    case True
    obtain tok q1 e1 k where g1: "gettoken b s = (tok, q1, e1, k)" by (metis prod_cases4)
    obtain t q e l where g2: "gettoken b k = (t, q, e, l)" by (metis prod_cases4)
    have "t = 0x61" and "\<exists>rs'. parseredirs b l = Inr (rs', j)"
      using 1(2) p True g1 g2 by (auto simp: parseredirs.simps [of b i] kbind_Inr_iff split: if_splits)
    then obtain rs' where "parseredirs b l = Inr (rs', j)" and t: "\<not> t \<noteq> 0x61" by auto
    from 1(1) [OF p [symmetric] _ True g1 [symmetric] _ _ _ g2 [symmetric] _ _ _ t this(1)]
    have "l \<le> j \<and> (l \<le> length b \<longrightarrow> j \<le> length b)" by simp
    then show ?thesis using m gettoken_moves [OF g1] gettoken_moves [OF g2] by auto
  qed
qed

text \<open>The arguments of a command, with the redirections between them.\<close>

function parse_args :: "u8 list \<Rightarrow> nat \<Rightarrow> slice list \<Rightarrow> redir list \<Rightarrow> (slice list \<times> redir list \<times> nat) kres" where
  "parse_args b i av rs =
    (let (stop, i) = peek b i [0x7c, 0x29, 0x26, 0x3b] in
     if stop then Inr (av, rs, i)
     else
       let (tok, q, eq, i) = gettoken b i in
       if tok = 0 then Inr (av, rs, i)
       else if tok \<noteq> 0x61 then Inl (Panic ''syntax'')
       else if Suc (length av) \<ge> MAXARGS then Inl (Panic ''too many args'')
       else kbind (parseredirs b i) (\<lambda>(r, i). parse_args b i (av @ [(q, eq)]) (rs @ r)))"
  by pat_completeness auto
termination
  by (relation "measure (\<lambda>(b, i, _). length b - i)")
    (auto dest!: peek_moves(1) [OF sym] gettoken_inside [OF sym] parseredirs_moves)

declare parse_args.simps [simp del]

text \<open>The loop of \<open>parseline\<close> over \<open>&\<close>.\<close>

function parse_amps :: "u8 list \<Rightarrow> nat \<Rightarrow> slice cmd \<Rightarrow> slice cmd \<times> nat" where
  "parse_amps b i c =
    (let (p, i) = peek b i [0x26] in
     if p then parse_amps b (next_token b i) (BACK c) else (c, i))"
  by pat_completeness auto
termination
  by (relation "measure (\<lambda>(b, i, _). length b - i)") (auto dest!: peek_token [OF sym])

declare parse_amps.simps [simp del]

text \<open>
  The four routines that call each other. \<open>Deep\<close> is the end of the fuel: each call takes one, and four calls read at least one token, so
  four for each character of the line and four more are enough (\<open>parse_not_deep\<close>).
\<close>

fun parseline :: "nat \<Rightarrow> u8 list \<Rightarrow> nat \<Rightarrow> (slice cmd \<times> nat) kres"
  and parsepipe :: "nat \<Rightarrow> u8 list \<Rightarrow> nat \<Rightarrow> (slice cmd \<times> nat) kres"
  and parseexec :: "nat \<Rightarrow> u8 list \<Rightarrow> nat \<Rightarrow> (slice cmd \<times> nat) kres"
  and parseblock :: "nat \<Rightarrow> u8 list \<Rightarrow> nat \<Rightarrow> (slice cmd \<times> nat) kres" where
  "parseline 0 b i = Inl Deep"
| "parseline (Suc n) b i =
    kbind (parsepipe n b i) (\<lambda>(c, i).
      let (c, i) = parse_amps b i c; (p, i) = peek b i [0x3b] in
      if p then kbind (parseline n b (next_token b i)) (\<lambda>(d, i). Inr (LIST c d, i)) else Inr (c, i))"
| "parsepipe 0 b i = Inl Deep"
| "parsepipe (Suc n) b i =
    kbind (parseexec n b i) (\<lambda>(c, i).
      let (p, i) = peek b i [0x7c] in
      if p then kbind (parsepipe n b (next_token b i)) (\<lambda>(d, i). Inr (PIPE c d, i)) else Inr (c, i))"
| "parseexec 0 b i = Inl Deep"
| "parseexec (Suc n) b i =
    (let (p, i) = peek b i [0x28] in
     if p then parseblock n b i
     else
       kbind (parseredirs b i) (\<lambda>(rs, i).
       kbind (parse_args b i [] rs) (\<lambda>(av, rs, i).
         Inr (fold redircmd rs (EXEC av), i))))"
| "parseblock 0 b i = Inl Deep"
| "parseblock (Suc n) b i =
    (let (p, i) = peek b i [0x28] in
     if \<not> p then Inl (Panic ''parseblock'')
     else
       kbind (parseline n b (next_token b i)) (\<lambda>(c, i).
         let (p, i) = peek b i [0x29] in
         if \<not> p then Inl (Panic ''syntax - missing )'')
         else kbind (parseredirs b (next_token b i)) (\<lambda>(rs, i). Inr (fold redircmd rs c, i))))"

text \<open>\<open>nulterminate\<close> on the array of the line.\<close>

primrec nulterminate :: "slice cmd \<Rightarrow> u8 list \<Rightarrow> u8 list" where
  "nulterminate (EXEC av) a = fold (\<lambda>(_, eq) a. a[eq := 0]) av a"
| "nulterminate (REDIR c w mode fd) a = (nulterminate c a)[snd w := 0]"
| "nulterminate (PIPE c d) a = nulterminate d (nulterminate c a)"
| "nulterminate (LIST c d) a = nulterminate d (nulterminate c a)"
| "nulterminate (BACK c) a = nulterminate c a"

text \<open>The command and the array, which has the words of the command as C strings in it.\<close>

definition parsecmd :: "u8 list \<Rightarrow> (slice cmd \<times> u8 list) kres" where
  "parsecmd b =
    kbind (parseline (4 * length b + 4) b 0) (\<lambda>(c, i).
      let (_, i) = peek b i [] in
      if i \<noteq> length b then Inl (Panic ''syntax'') else Inr (c, nulterminate c (b @ [0])))"

section \<open>The parser returns\<close>

lemma parse_args_moves:
  "parse_args b i av rs = Inr (av', rs', j) \<Longrightarrow> i \<le> j \<and> (i \<le> length b \<longrightarrow> j \<le> length b)"
proof (induction b i av rs arbitrary: av' rs' j rule: parse_args.induct)
  case (1 b i av rs)
  obtain p s where p: "peek b i [0x7c, 0x29, 0x26, 0x3b] = (p, s)" by (metis surj_pair)
  obtain t q e k where g: "gettoken b s = (t, q, e, k)" by (metis prod_cases4)
  note m = peek_moves [OF p] gettoken_inside [OF g]
  show ?case
  proof (cases "p \<or> t = 0")
    case True
    then show ?thesis using 1(2) p g m by (auto simp: parse_args.simps [of b i av rs] split: if_splits)
  next
    case False
    then obtain r l where t: "t = 0x61" "\<not> Suc (length av) \<ge> MAXARGS" and r: "parseredirs b k = Inr (r, l)"
      and "parse_args b l (av @ [(q, e)]) (rs @ r) = Inr (av', rs', j)"
      using 1(2) p g by (auto simp: parse_args.simps [of b i av rs] kbind_Inr_iff split: if_splits)
    then have "l \<le> j \<and> (l \<le> length b \<longrightarrow> j \<le> length b)"
      using 1(1) [of "(p, s)" p s "(t, q, e, k)" t "(q, e, k)" q "(e, k)" e k "(r, l)" r l] False p g by auto
    then show ?thesis using m parseredirs_moves [OF r] by auto
  qed
qed

lemma parse_amps_moves: "parse_amps b i c = (c', j) \<Longrightarrow> i \<le> j \<and> (i \<le> length b \<longrightarrow> j \<le> length b)"
proof (induction b i c arbitrary: rule: parse_amps.induct)
  case (1 b i c)
  obtain p s where p: "peek b i [0x26] = (p, s)" by (metis surj_pair)
  obtain t q e k where g: "gettoken b s = (t, q, e, k)" by (metis prod_cases4)
  have n: "next_token b s = k" by (simp add: next_token_def g)
  show ?case
    using 1(1) [of "(p, s)" p s] 1(2) p n peek_moves [OF p] gettoken_inside [OF g]
    by (cases p) (auto simp: parse_amps.simps [of b i])
qed

text \<open>The messages of the parser; its fifth one, \<open>parseblock\<close>, is never printed.\<close>

definition syntax_errors :: "kfail set" where
  "syntax_errors =
    Panic ` {''missing file for redirection'', ''syntax'', ''too many args'', ''syntax - missing )''}"

lemma syntax_errors_simps [simp]:
  "Deep \<notin> syntax_errors"
  "Panic m \<in> syntax_errors \<longleftrightarrow>
    m \<in> {''missing file for redirection'', ''syntax'', ''too many args'', ''syntax - missing )''}"
  by (auto simp: syntax_errors_def)

lemma parseredirs_errors: "parseredirs b i = Inl x \<Longrightarrow> x \<in> syntax_errors"
proof (induction b i rule: parseredirs.induct)
  case (1 b i)
  obtain p s where p: "peek b i [0x3c, 0x3e] = (p, s)" by (metis surj_pair)
  obtain tok q1 e1 k where g1: "gettoken b s = (tok, q1, e1, k)" by (metis prod_cases4)
  obtain t q e l where g2: "gettoken b k = (t, q, e, l)" by (metis prod_cases4)
  show ?case
    using 1(1) [of "(p, s)" p s "(tok, q1, e1, k)" tok "(q1, e1, k)" q1 "(e1, k)" e1 k "(t, q, e, l)" t "(q, e, l)" q "(e, l)" e l]
      1(2) p g1 g2
    by (cases "parseredirs b l") (auto simp: parseredirs.simps [of b i] split: if_splits)
qed

lemma parse_args_errors: "parse_args b i av rs = Inl x \<Longrightarrow> x \<in> syntax_errors"
proof (induction b i av rs rule: parse_args.induct)
  case (1 b i av rs)
  obtain p s where p: "peek b i [0x7c, 0x29, 0x26, 0x3b] = (p, s)" by (metis surj_pair)
  obtain t q e k where g: "gettoken b s = (t, q, e, k)" by (metis prod_cases4)
  show ?case
  proof (cases "parseredirs b k")
    case (Inl e)
    then show ?thesis using 1(2) p g parseredirs_errors [of b k]
      by (auto simp: parse_args.simps [of b i av rs] split: if_splits)
  next
    case (Inr rl)
    then obtain r l where "parseredirs b k = Inr (r, l)" by (cases rl) simp
    then show ?thesis
      using p g 1(1) [of "(p, s)" p s "(t, q, e, k)" t "(q, e, k)" q "(e, k)" e k "(r, l)" r l] 1(2)
      by (auto simp: parse_args.simps [of b i av rs] split: if_splits)
  qed
qed

text \<open>The measure of the four routines: their fuel covers what is left of the line.\<close>

lemma next_token_bound: "i \<le> length b \<Longrightarrow> next_token b i \<le> length b"
  using gettoken_inside by (metis next_token_def prod_cases4 case_prod_conv)

section \<open>Well-formed commands\<close>

text \<open>A word is not empty, lies inside of the line, and ends where no character of a word is.\<close>

definition slice_ok :: "u8 list \<Rightarrow> slice \<Rightarrow> bool" where
  "slice_ok b w \<longleftrightarrow> (case w of (q, e) \<Rightarrow>
    q < e \<and> e \<le> length b \<and> (\<forall>k. q \<le> k \<longrightarrow> k < e \<longrightarrow> wordchar (b ! k)) \<and> (e < length b \<longrightarrow> \<not> wordchar (b ! e)))"

definition redir_ok :: "u8 list \<Rightarrow> redir \<Rightarrow> bool" where
  "redir_ok b r \<longleftrightarrow> (case r of (w, mode, fd) \<Rightarrow>
    slice_ok b w \<and> (fd = 0 \<and> mode = O_RDONLY
      \<or> fd = 1 \<and> mode \<in> {O_WRONLY OR O_CREATE OR O_TRUNC, O_WRONLY OR O_CREATE OR O_APPEND}))"

primrec cmd_ok :: "u8 list \<Rightarrow> slice cmd \<Rightarrow> bool" where
  "cmd_ok b (EXEC av) \<longleftrightarrow> length av < MAXARGS \<and> (\<forall>w\<in>set av. slice_ok b w)"
| "cmd_ok b (REDIR c w mode fd) \<longleftrightarrow> cmd_ok b c \<and> redir_ok b (w, mode, fd)"
| "cmd_ok b (PIPE c d) \<longleftrightarrow> cmd_ok b c \<and> cmd_ok b d"
| "cmd_ok b (LIST c d) \<longleftrightarrow> cmd_ok b c \<and> cmd_ok b d"
| "cmd_ok b (BACK c) \<longleftrightarrow> cmd_ok b c"

lemma nth_takeWhile_drop:
  assumes "e = q + length (takeWhile P (drop q b))" and "q \<le> length b"
  shows "e \<le> length b" and "q \<le> k \<Longrightarrow> k < e \<Longrightarrow> P (b ! k)" and "e < length b \<Longrightarrow> \<not> P (b ! e)"
proof -
  let ?n = "length (takeWhile P (drop q b))"
  show "e \<le> length b" using length_takeWhile_le [of P "drop q b"] assms by simp
  show "P (b ! k)" if "q \<le> k" "k < e"
  proof -
    have k: "k - q < ?n" using that assms(1) by simp
    have "takeWhile P (drop q b) ! (k - q) = b ! k"
      using takeWhile_nth [OF k] that assms(2) by simp
    then show ?thesis using set_takeWhileD nth_mem [OF k] by metis
  qed
  show "\<not> P (b ! e)" if "e < length b"
    using nth_length_takeWhile [of P "drop q b"] that assms by simp
qed

lemma gettoken_word:
  assumes "gettoken b i = (0x61, q, e, j)" and "i \<le> length b"
  shows "slice_ok b (q, e)"
proof -
  have q: "q = skip_white b i" and e: "e = q + length (takeWhile wordchar (drop q b))"
    using assms(1) by (auto simp: gettoken_def Let_def split: if_splits)
  have "q \<le> length b" using q skip_white_bound [OF assms(2)] by simp
  note n = nth_takeWhile_drop [OF e this]
  moreover have "q < e" using gettoken_moves(4) [OF assms(1)] by simp
  ultimately show ?thesis by (simp add: slice_ok_def)
qed

lemma redir_of_ok: "slice_ok b w \<Longrightarrow> redir_ok b (redir_of tok w)"
  by (simp add: redir_ok_def redir_of_def)

lemma parseredirs_ok: "parseredirs b i = Inr (rs, j) \<Longrightarrow> i \<le> length b \<Longrightarrow> \<forall>r\<in>set rs. redir_ok b r"
proof (induction b i arbitrary: rs j rule: parseredirs.induct)
  case (1 b i)
  obtain p s where p: "peek b i [0x3c, 0x3e] = (p, s)" by (metis surj_pair)
  obtain tok q1 e1 k where g1: "gettoken b s = (tok, q1, e1, k)" by (metis prod_cases4)
  obtain t q e l where g2: "gettoken b k = (t, q, e, l)" by (metis prod_cases4)
  show ?case
  proof (cases p)
    case False
    then show ?thesis using 1(2) p by (simp add: parseredirs.simps [of b i])
  next
    case True
    then obtain rs' where t: "t = 0x61" and r: "parseredirs b l = Inr (rs', j)" "rs = redir_of tok (q, e) # rs'"
      using 1(2) p g1 g2 by (auto simp: parseredirs.simps [of b i] kbind_Inr_iff split: if_splits)
    have k: "k \<le> length b" "l \<le> length b"
      using peek_moves [OF p] gettoken_inside [OF g1] gettoken_inside [OF g2] 1(3) by auto
    then have "redir_ok b (redir_of tok (q, e))" using gettoken_word [of b k q e l] g2 t by (simp add: redir_of_ok)
    moreover have "\<forall>r\<in>set rs'. redir_ok b r"
      using 1(1) [of "(p, s)" p s "(tok, q1, e1, k)" tok "(q1, e1, k)" q1 "(e1, k)" e1 k "(t, q, e, l)" t "(q, e, l)" q "(e, l)" e l rs' j]
        p True g1 g2 t r k by auto
    ultimately show ?thesis using r by simp
  qed
qed

lemma parse_args_ok:
  "parse_args b i av rs = Inr (av', rs', j) \<Longrightarrow> i \<le> length b \<Longrightarrow> length av < MAXARGS \<Longrightarrow> \<forall>w\<in>set av. slice_ok b w \<Longrightarrow>
    \<forall>r\<in>set rs. redir_ok b r \<Longrightarrow> length av' < MAXARGS \<and> (\<forall>w\<in>set av'. slice_ok b w) \<and> (\<forall>r\<in>set rs'. redir_ok b r)"
proof (induction b i av rs arbitrary: av' rs' j rule: parse_args.induct)
  case (1 b i av rs)
  obtain p s where p: "peek b i [0x7c, 0x29, 0x26, 0x3b] = (p, s)" by (metis surj_pair)
  obtain t q e k where g: "gettoken b s = (t, q, e, k)" by (metis prod_cases4)
  show ?case
  proof (cases "p \<or> t = 0")
    case True
    then show ?thesis using 1(2,4-6) p g by (auto simp: parse_args.simps [of b i av rs] split: if_splits)
  next
    case False
    then obtain r l where t: "t = 0x61" "\<not> Suc (length av) \<ge> MAXARGS" and r: "parseredirs b k = Inr (r, l)"
      and a: "parse_args b l (av @ [(q, e)]) (rs @ r) = Inr (av', rs', j)"
      using 1(2) p g by (auto simp: parse_args.simps [of b i av rs] kbind_Inr_iff split: if_splits)
    have k: "s \<le> length b" "k \<le> length b" "l \<le> length b"
      using peek_moves [OF p] gettoken_inside [OF g] parseredirs_moves [OF r] 1(3) by auto
    have "slice_ok b (q, e)" using gettoken_word [of b s q e k] g t k by simp
    moreover have "\<forall>r\<in>set r. redir_ok b r" using parseredirs_ok [OF r] k by simp
    moreover have "length (av @ [(q, e)]) < MAXARGS" using t by simp
    ultimately show ?thesis
      by (intro 1(1) [of "(p, s)" p s "(t, q, e, k)" t "(q, e, k)" q "(e, k)" e k "(r, l)" r l av' rs' j])
        (use False p g t r a k 1(5,6) in simp_all, auto)
  qed
qed

lemma redircmd_ok: "\<forall>r\<in>set rs. redir_ok b r \<Longrightarrow> cmd_ok b c \<Longrightarrow> cmd_ok b (fold redircmd rs c)"
  by (induction rs arbitrary: c) (auto simp: redircmd_def split: prod.splits)

lemma parse_amps_ok: "parse_amps b i c = (c', j) \<Longrightarrow> cmd_ok b c \<Longrightarrow> cmd_ok b c'"
proof (induction b i c rule: parse_amps.induct)
  case (1 b i c)
  obtain p s where "peek b i [0x26] = (p, s)" by (metis surj_pair)
  then show ?case using 1 by (cases p) (auto simp: parse_amps.simps [of b i])
qed

text \<open>What a routine that starts at \<open>i\<close> gives back.\<close>

definition bounded :: "('a \<Rightarrow> bool) \<Rightarrow> u8 list \<Rightarrow> nat \<Rightarrow> ('a \<times> nat) kres \<Rightarrow> bool" where
  "bounded P b i r \<longleftrightarrow>
    (\<forall>e. r = Inl e \<longrightarrow> e \<in> syntax_errors) \<and> (\<forall>x j. r = Inr (x, j) \<longrightarrow> P x \<and> i \<le> j \<and> j \<le> length b)"

lemma bounded_simps [simp]:
  "bounded P b i (Inr (x, j)) \<longleftrightarrow> P x \<and> i \<le> j \<and> j \<le> length b" "bounded P b i (Inl e) \<longleftrightarrow> e \<in> syntax_errors"
  by (auto simp: bounded_def)

lemma bounded_bind:
  assumes "bounded P b i m"
    and "\<And>x j. m = Inr (x, j) \<Longrightarrow> P x \<Longrightarrow> i \<le> j \<Longrightarrow> j \<le> length b \<Longrightarrow> bounded Q b i (f (x, j))"
  shows "bounded Q b i (kbind m f)"
  using assms by (cases m) (auto simp: bounded_def)

lemma bounded_mono: "bounded P b j r \<Longrightarrow> i \<le> j \<Longrightarrow> bounded P b i r"
  by (auto simp: bounded_def)

lemma parseredirs_bounded: "i \<le> length b \<Longrightarrow> bounded (\<lambda>rs. \<forall>r\<in>set rs. redir_ok b r) b i (parseredirs b i)"
  using parseredirs_moves [of b i] parseredirs_errors [of b i] parseredirs_ok [of b i] by (auto simp: bounded_def)

lemma parse_args_bounded:
  assumes "i \<le> length b" and "\<forall>r\<in>set rs. redir_ok b r"
  shows "bounded (cmd_ok b) b i (kbind (parse_args b i [] rs) (\<lambda>(av, rs, i). Inr (fold redircmd rs (EXEC av), i)))"
proof (cases "parse_args b i [] rs")
  case (Inl e)
  then show ?thesis using parse_args_errors by auto
next
  case (Inr x)
  then obtain av rs' j where "parse_args b i [] rs = Inr (av, rs', j)" by (metis prod_cases3)
  then show ?thesis using parse_args_moves parse_args_ok [of b i "[]" rs av rs' j] assms
    by (auto simp: MAXARGS_def intro!: redircmd_ok)
qed

text \<open>One call of each routine, given what the calls in it do.\<close>

lemma parseline_step:
  assumes "i \<le> length b" and "bounded (cmd_ok b) b i (parsepipe n b i)"
    and "\<And>j. i < j \<Longrightarrow> j \<le> length b \<Longrightarrow> bounded (cmd_ok b) b j (parseline n b j)"
  shows "bounded (cmd_ok b) b i (parseline (Suc n) b i)"
  unfolding parseline.simps
proof (rule bounded_bind [OF assms(2)])
  fix c j assume c: "cmd_ok b c" and j: "i \<le> j" "j \<le> length b"
  obtain c' k where a: "parse_amps b j c = (c', k)" by (metis surj_pair)
  obtain p l where p: "peek b k [0x3b] = (p, l)" by (metis surj_pair)
  note m = parse_amps_moves [OF a] peek_moves [OF p] parse_amps_ok [OF a c]
  have "bounded (cmd_ok b) b i (kbind (parseline n b (next_token b l)) (\<lambda>(d, i). Inr (LIST c' d, i)))" if p
  proof -
    have t: "next_token b l \<le> length b" "i < next_token b l" using m j that next_token_bound by auto
    have "bounded (cmd_ok b) b i (parseline n b (next_token b l))"
      by (rule bounded_mono [OF assms(3) [OF t(2,1)]]) (use t in simp)
    then show ?thesis by (rule bounded_bind) (use t m c in auto)
  qed
  then show "bounded (cmd_ok b) b i (case (c, j) of (c, i) \<Rightarrow> let (c, i) = parse_amps b i c; (p, i) = peek b i [0x3b] in
      if p then kbind (parseline n b (next_token b i)) (\<lambda>(d, i). Inr (LIST c d, i)) else Inr (c, i))"
    using a p m j by auto
qed

lemma parsepipe_step:
  assumes "i \<le> length b" and "bounded (cmd_ok b) b i (parseexec n b i)"
    and "\<And>j. i < j \<Longrightarrow> j \<le> length b \<Longrightarrow> bounded (cmd_ok b) b j (parsepipe n b j)"
  shows "bounded (cmd_ok b) b i (parsepipe (Suc n) b i)"
  unfolding parsepipe.simps
proof (rule bounded_bind [OF assms(2)])
  fix c j assume c: "cmd_ok b c" and j: "i \<le> j" "j \<le> length b"
  obtain p l where p: "peek b j [0x7c] = (p, l)" by (metis surj_pair)
  note m = peek_moves [OF p]
  have "bounded (cmd_ok b) b i (kbind (parsepipe n b (next_token b l)) (\<lambda>(d, i). Inr (PIPE c d, i)))" if p
  proof -
    have t: "next_token b l \<le> length b" "i < next_token b l" using m j that next_token_bound by auto
    have "bounded (cmd_ok b) b i (parsepipe n b (next_token b l))"
      by (rule bounded_mono [OF assms(3) [OF t(2,1)]]) (use t in simp)
    then show ?thesis by (rule bounded_bind) (use t m c in auto)
  qed
  then show "bounded (cmd_ok b) b i (case (c, j) of (c, i) \<Rightarrow> let (p, i) = peek b i [0x7c] in
      if p then kbind (parsepipe n b (next_token b i)) (\<lambda>(d, i). Inr (PIPE c d, i)) else Inr (c, i))"
    using p m j c by auto
qed

lemma parseexec_step:
  assumes "i \<le> length b"
    and "\<And>j. i \<le> j \<Longrightarrow> j \<le> length b \<Longrightarrow> fst (peek b j [0x28]) \<Longrightarrow> bounded (cmd_ok b) b j (parseblock n b j)"
  shows "bounded (cmd_ok b) b i (parseexec (Suc n) b i)"
proof -
  obtain p l where p: "peek b i [0x28] = (p, l)" by (metis surj_pair)
  note m = peek_moves [OF p]
  have l: "i \<le> l" "l \<le> length b" using m assms(1) by auto
  have "fst (peek b l [0x28])" if p using p that by (auto simp: peek_def Let_def skip_white_idem)
  then have "bounded (cmd_ok b) b i (parseblock n b l)" if p using bounded_mono [OF assms(2)] l that by blast
  moreover have "bounded (cmd_ok b) b i (kbind (parseredirs b l) (\<lambda>(rs, i).
      kbind (parse_args b i [] rs) (\<lambda>(av, rs, i). Inr (fold redircmd rs (EXEC av), i))))"
    using l by (intro bounded_bind [OF bounded_mono [OF parseredirs_bounded]])
      (auto intro: bounded_mono [OF parse_args_bounded])
  ultimately show ?thesis using p by simp
qed

lemma parseblock_step:
  assumes "i \<le> length b" and "\<And>j. i < j \<Longrightarrow> j \<le> length b \<Longrightarrow> bounded (cmd_ok b) b j (parseline n b j)"
    and "fst (peek b i [0x28])"
  shows "bounded (cmd_ok b) b i (parseblock (Suc n) b i)"
proof -
  obtain p l where p: "peek b i [0x28] = (p, l)" by (metis surj_pair)
  have "bounded (cmd_ok b) b i (kbind (parseline n b (next_token b l)) (\<lambda>(c, i).
      let (p, i) = peek b i [0x29] in
      if \<not> p then Inl (Panic ''syntax - missing )'')
      else kbind (parseredirs b (next_token b i)) (\<lambda>(rs, i). Inr (fold redircmd rs c, i))))" (is "bounded (cmd_ok b) b i (kbind _ ?f)") if p
  proof (rule bounded_bind)
    have t: "next_token b l \<le> length b" "i < next_token b l" using peek_moves [OF p] assms(1) that next_token_bound by auto
    show "bounded (cmd_ok b) b i (parseline n b (next_token b l))"
      by (rule bounded_mono [OF assms(2) [OF t(2,1)]]) (use t in simp)
    fix c j assume c: "cmd_ok b c" and j: "i \<le> j" "j \<le> length b"
    obtain q k where q: "peek b j [0x29] = (q, k)" by (metis surj_pair)
    have "bounded (cmd_ok b) b i (kbind (parseredirs b (next_token b k)) (\<lambda>(rs, i). Inr (fold redircmd rs c, i)))" if q
    proof -
      have "next_token b k \<le> length b" "i < next_token b k" using that peek_moves [OF q] j next_token_bound by auto
      then show ?thesis using c
        by (intro bounded_bind [OF bounded_mono [OF parseredirs_bounded]]) (auto intro: redircmd_ok)
    qed
    then show "bounded (cmd_ok b) b i (?f (c, j))" using q by simp
  qed
  then show ?thesis using p assms(3) by simp
qed

lemma parse_total:
  assumes "i \<le> length b"
  shows "4 * (length b - i) + 4 \<le> n \<Longrightarrow> bounded (cmd_ok b) b i (parseline n b i)"
    and "4 * (length b - i) + 3 \<le> n \<Longrightarrow> bounded (cmd_ok b) b i (parsepipe n b i)"
    and "4 * (length b - i) + 2 \<le> n \<Longrightarrow> bounded (cmd_ok b) b i (parseexec n b i)"
    and "4 * (length b - i) + 1 \<le> n \<Longrightarrow> fst (peek b i [0x28]) \<Longrightarrow> bounded (cmd_ok b) b i (parseblock n b i)"
  using assms
proof (induction n arbitrary: i)
  case (Suc n)
  { case 1
    then show ?case by (intro parseline_step Suc.IH(1,2)) simp_all
  next
    case 2
    then show ?case by (intro parsepipe_step Suc.IH(2,3)) simp_all
  next
    case 3
    then show ?case by (intro parseexec_step Suc.IH(4)) simp_all
  next
    case 4
    then show ?case by (intro parseblock_step Suc.IH(1)) simp_all
  }
qed simp_all

text \<open>
  C36: The parser returns for every line, whatever is on it: it gives a command, or it stops with one of four messages, and never with the
  fifth that is in the code, \<open>parseblock\<close>.
\<close>

theorem parsecmd_returns:
  "(\<exists>c a. parsecmd b = Inr (c, a)) \<or>
   (\<exists>m\<in>{''missing file for redirection'', ''syntax'', ''too many args'', ''syntax - missing )''}. parsecmd b = Inl (Panic m))"
proof -
  have "bounded (cmd_ok b) b 0 (parseline (4 * length b + 4) b 0)" by (rule parse_total) simp_all
  then show ?thesis
    by (cases "parseline (4 * length b + 4) b 0") (auto simp: parsecmd_def bounded_def syntax_errors_def split: prod.splits)
qed

end
