(* ===== verification/ShellRun.thy ===== *)
theory ShellRun imports Shell Ulib begin

text \<open>
  user/sh.c, the rest: environment variables, the built-in commands, and the processes that run a command. A process is the tree of the
  system calls it makes, branching on what they return.
\<close>

section \<open>Environment variables\<close>

type_synonym env = "(u8 list \<times> u8 list) list"

definition NENVS :: nat where "NENVS = 16"

definition letter :: "u8 \<Rightarrow> bool" where
  "letter c \<longleftrightarrow> 0x41 \<le> c \<and> c \<le> 0x5a \<or> 0x61 \<le> c \<and> c \<le> 0x7a \<or> c = 0x5f"

definition namechar :: "u8 \<Rightarrow> bool" where
  "namechar c \<longleftrightarrow> letter c \<or> 0x30 \<le> c \<and> c \<le> 0x39"

definition checkenvname :: "u8 list \<Rightarrow> nat" where
  "checkenvname s = (case s of [] \<Rightarrow> 0 | c # cs \<Rightarrow> if letter c then Suc (length (takeWhile namechar cs)) else 0)"

text \<open>
  \<open>export\<close> with its argument \<open>arg\<close>: what it returns and the variables afterwards; what it prints is left out. The arrays hold 32 and 96
  characters, an argument without \<open>=\<close> is read past its end, and for an empty value the code looks at the character before the array.
\<close>

definition sh_export :: "env \<Rightarrow> u8 list \<Rightarrow> (int \<times> env) kres" where
  "sh_export envs arg =
    (if arg = [0x2d, 0x70] then Inr (0, envs)
     else if length envs = NENVS then Inr (- 1, envs)
     else
       let name = takeWhile (\<lambda>c. c \<noteq> 0x3d) arg; rest = drop (length name) arg in
       if rest = [] \<or> length name \<ge> 32 then Inl Wild
       else if checkenvname name \<noteq> length name then Inr (- 1, envs)
       else
         let val = tl rest in
         if val = [] \<or> length val \<ge> 96 then Inl Wild
         else Inr (0, envs @ [(name, if last val = 0x2f then butlast val else val)]))"

text \<open>
  \<open>replace\<close>: the new line and the number of dollar signs. The values of all variables of the name are put in, one behind the other.
\<close>

function replace_loop :: "env \<Rightarrow> u8 list \<Rightarrow> (u8 list \<times> nat) kres" where
  "replace_loop envs s =
    (case s of
       [] \<Rightarrow> Inr ([], 0)
     | c # s \<Rightarrow>
         if c \<noteq> 0x24 then kbind (replace_loop envs s) (\<lambda>(r, n). Inr (c # r, n))
         else if s \<noteq> [] \<and> letter (hd s) then
           let name = takeWhile namechar s in
           if length name \<ge> 32 then Inl Wild
           else
             kbind (replace_loop envs (drop (length name) s)) (\<lambda>(r, n).
               Inr (concat (map snd (filter (\<lambda>e. fst e = name) envs)) @ r, Suc n))
         else kbind (replace_loop envs s) (\<lambda>(r, n). Inr (0x24 # r, Suc n)))"
  by pat_completeness auto
termination
  by (relation "measure (\<lambda>(_, s). length s)") auto

declare replace_loop.simps [simp del]

text \<open>The buffer of the line holds 100 characters.\<close>

definition replace :: "env \<Rightarrow> u8 list \<Rightarrow> (u8 list \<times> nat) kres" where
  "replace envs buf =
    kbind (replace_loop envs buf) (\<lambda>(r, n). if length r \<ge> 100 then Inl Wild else Inr (r, n))"

section \<open>System calls of a process\<close>

text \<open>
  \<open>Exec\<close> goes on only when it fails. \<open>Undefined\<close> is a store outside of an array.
\<close>

datatype syscall = Fork | Wait | Close int | Dup int | Open "u8 list" u32 | Dev u32 u32 u32 | Cd "u8 list" | Print int "u8 list"

datatype proc_run =
    Exit int
  | Exec "u8 list" "u8 list list" proc_run
  | Call syscall "int \<Rightarrow> proc_run"
  | MkPipe "int \<Rightarrow> int \<Rightarrow> int \<Rightarrow> proc_run"
  | Undefined

definition sh_panic :: "u8 list \<Rightarrow> proc_run" where
  "sh_panic msg = Call (Print 2 (msg @ [10])) (\<lambda>_. Exit 1)"

definition fork1 :: "(int \<Rightarrow> proc_run) \<Rightarrow> proc_run" where
  "fork1 k = Call Fork (\<lambda>pid. if pid = - 1 then sh_panic [0x66, 0x6f, 0x72, 0x6b] else k pid)"

text \<open>The programs that an \<open>EXEC\<close> tries: the name as it is, then in the directory of each variable; \<open>env_cmd\<close> holds 64 characters.\<close>

primrec exec_dirs :: "env \<Rightarrow> u8 list list \<Rightarrow> proc_run \<Rightarrow> proc_run" where
  "exec_dirs [] argv k = k"
| "exec_dirs (e # es) argv k =
    (let path = snd e @ 0x2f # hd argv in
     if length path \<ge> 64 then Undefined else Exec path argv (exec_dirs es argv k))"

definition exec_failed :: "u8 list \<Rightarrow> u8 list" where
  "exec_failed name = [0x65, 0x78, 0x65, 0x63, 0x20] @ name @ [0x20, 0x66, 0x61, 0x69, 0x6c, 0x65, 0x64, 10]"

definition open_failed :: "u8 list \<Rightarrow> u8 list" where
  "open_failed name = [0x6f, 0x70, 0x65, 0x6e, 0x20] @ name @ [0x20, 0x66, 0x61, 0x69, 0x6c, 0x65, 0x64, 10]"

primrec runcmd :: "env \<Rightarrow> u8 list cmd \<Rightarrow> proc_run" where
  "runcmd envs (EXEC argv) =
    (if argv = [] then Exit 1
     else Exec (hd argv) argv
       (exec_dirs envs argv (Call (Print 2 (exec_failed (hd argv))) (\<lambda>_. Exit 0))))"
| "runcmd envs (REDIR c file_name mode fd) =
    Call (Close (int fd)) (\<lambda>_.
    Call (Open file_name mode) (\<lambda>r.
      if r < 0 then Call (Print 2 (open_failed file_name)) (\<lambda>_. Exit 1) else runcmd envs c))"
| "runcmd envs (LIST c d) =
    fork1 (\<lambda>pid. if pid = 0 then runcmd envs c else Call Wait (\<lambda>_. runcmd envs d))"
| "runcmd envs (PIPE c d) =
    MkPipe (\<lambda>r p0 p1.
      if r < 0 then sh_panic [0x70, 0x69, 0x70, 0x65]
      else
        fork1 (\<lambda>pid.
          if pid = 0 then
            Call (Close 1) (\<lambda>_. Call (Dup p1) (\<lambda>_. Call (Close p0) (\<lambda>_. Call (Close p1) (\<lambda>_. runcmd envs c))))
          else
            fork1 (\<lambda>pid.
              if pid = 0 then
                Call (Close 0) (\<lambda>_. Call (Dup p0) (\<lambda>_. Call (Close p0) (\<lambda>_. Call (Close p1) (\<lambda>_. runcmd envs d))))
              else
                Call (Close p0) (\<lambda>_. Call (Close p1) (\<lambda>_. Call Wait (\<lambda>_. Call Wait (\<lambda>_. Exit 0)))))))"
| "runcmd envs (BACK c) = fork1 (\<lambda>pid. if pid = 0 then runcmd envs c else Exit 0)"

section \<open>One line of input\<close>

text \<open>
  What the shell does with a line, in the process of the shell itself: change the directory, nothing, set a variable, or start a process and
  wait for it. The line still has its newline. A command that is no \<open>execcmd\<close> is read as if it were one: its \<open>argv[0]\<close> is then the pointer
  to a command, which is not null and does not point to \<open>export\<close>. An error of the parser ends the shell.
\<close>

datatype turn = Chdir "u8 list" | Nothing | Usage | SetVar env int | Start "u8 list cmd"

definition sh_turn :: "env \<Rightarrow> u8 list \<Rightarrow> turn kres" where
  "sh_turn envs line =
    kbind (replace envs line) (\<lambda>(buf, _).
      if take 3 buf = [0x63, 0x64, 0x20] then Inr (Chdir (drop 3 (butlast buf)))
      else
        kbind (parsecmd buf) (\<lambda>(c, a).
          let c = map_cmd (\<lambda>(q, _). cstr (drop q a)) c in
          case c of
            EXEC [] \<Rightarrow> Inr Nothing
          | EXEC (w # ws) \<Rightarrow>
              if w = [0x65, 0x78, 0x70, 0x6f, 0x72, 0x74] then
                case ws of [] \<Rightarrow> Inr Usage | arg # _ \<Rightarrow> kbind (sh_export envs arg) (\<lambda>(r, envs). Inr (SetVar envs r))
              else Inr (Start c)
          | _ \<Rightarrow> Inr (Start c)))"

section \<open>The shell\<close>

text \<open>The line that \<open>getcmd\<close> gets from the input of the shell, without its prompt, and without the calls of \<open>getcwd\<close> for the prompt; \<open>None\<close> is the end.\<close>

definition getcmd :: "u8 list \<Rightarrow> (u8 list \<times> u8 list) option" where
  "getcmd input =
    (case gets 100 input of (buf, rest) \<Rightarrow> if cstr buf = [] then None else Some (cstr buf, rest))"

text \<open>The loop that opens the descriptors below 3; each \<open>dev\<close> takes the lowest that is free, so the fourth ends it.\<close>

primrec ensure_fds :: "nat \<Rightarrow> proc_run \<Rightarrow> proc_run" where
  "ensure_fds 0 k = Undefined"
| "ensure_fds (Suc n) k =
    Call (Dev O_RDWR 1 0) (\<lambda>fd. if fd < 0 then k else if fd \<ge> 3 then Call (Close fd) (\<lambda>_. k) else ensure_fds n k)"

text \<open>A line more is read in every turn, of which \<open>gets\<close> takes at least a character.\<close>

lemma gets_loop_shorter: "gets_loop room input = (b, rest) \<Longrightarrow> length rest + length b = length input"
  by (induction room input arbitrary: b rest rule: gets_loop.induct) (auto split: if_splits prod.splits)

lemma getcmd_shorter: "getcmd input = Some (line, rest) \<Longrightarrow> length rest < length input"
proof -
  assume g: "getcmd input = Some (line, rest)"
  obtain b r where b: "gets_loop 99 input = (b, r)" by (metis surj_pair)
  then have "b \<noteq> []" and "r = rest" using g by (auto simp: getcmd_def gets_def cstr_def split: if_splits)
  then show ?thesis using gets_loop_shorter [OF b] by (cases b) auto
qed

definition cannot_cd :: "u8 list \<Rightarrow> u8 list" where
  "cannot_cd path = [0x63, 0x61, 0x6e, 0x6e, 0x6f, 0x74, 0x20, 0x63, 0x64, 0x20] @ path @ [10]"

definition usage_export :: "u8 list" where
  "usage_export = map of_char ''Usage: export [-p] [NAME=VALUE]'' @ [10]"

definition export_failed :: "u8 list" where
  "export_failed = map of_char ''export failed'' @ [10]"

text \<open>A message of the parser goes through \<open>panic\<close>, which ends the shell.\<close>

function sh_loop :: "env \<Rightarrow> u8 list \<Rightarrow> proc_run" where
  "sh_loop envs input =
    (case getcmd input of
       None \<Rightarrow> Exit 0
     | Some (line, input) \<Rightarrow>
         (case sh_turn envs line of
            Inl (Panic msg) \<Rightarrow> sh_panic (map of_char msg)
          | Inl _ \<Rightarrow> Undefined
          | Inr Nothing \<Rightarrow> sh_loop envs input
          | Inr (Chdir path) \<Rightarrow>
              Call (Cd path) (\<lambda>r. if r < 0 then Call (Print 2 (cannot_cd path)) (\<lambda>_. sh_loop envs input) else sh_loop envs input)
          | Inr Usage \<Rightarrow> Call (Print 2 usage_export) (\<lambda>_. sh_loop envs input)
          | Inr (SetVar envs r) \<Rightarrow>
              if r < 0 then Call (Print 2 export_failed) (\<lambda>_. sh_loop envs input) else sh_loop envs input
          | Inr (Start c) \<Rightarrow> fork1 (\<lambda>pid. if pid = 0 then runcmd envs c else Call Wait (\<lambda>_. sh_loop envs input))))"
  by pat_completeness auto
termination
  by (relation "measure (\<lambda>(_, input). length input)") (auto dest: getcmd_shorter)

declare sh_loop.simps [simp del]

definition sh_main :: "u8 list \<Rightarrow> proc_run" where
  "sh_main input =
    ensure_fds 4 (sh_loop [(map of_char ''SHELL'', map of_char ''/bin'')] input)"

end
