(* ===== verification/ShellProps.thy ===== *)
theory ShellProps imports Shell begin

text \<open>
  The parser of the shell: the words of a command become C strings in the line, and the parser undoes the printing of a command.
\<close>

section \<open>Words as strings\<close>

lemma nth_update_iff: "xs[i := x] ! k = (if i = k \<and> k < length xs then x else xs ! k)"
  by (cases "i < length xs") (auto simp: nth_list_update list_update_beyond)

lemma nulterminate_nth:
  "length (nulterminate c a) = length a \<and>
   (\<forall>k<length a. nulterminate c a ! k = (if k \<in> snd ` set_cmd c then 0 else a ! k))"
proof (induction c arbitrary: a)
  case (EXEC av)
  show ?case by (induction av arbitrary: a) (auto simp: nth_update_iff split: prod.splits)
qed (auto simp: nth_update_iff)

lemma cmd_ok_slices: "cmd_ok b c \<Longrightarrow> w \<in> set_cmd c \<Longrightarrow> slice_ok b w"
  by (induction c) (auto simp: redir_ok_def)

lemma cstr_slice:
  assumes "q < e" and "e < length a" and "a ! e = 0" and "\<And>k. q \<le> k \<Longrightarrow> k < e \<Longrightarrow> a ! k \<noteq> 0"
  shows "cstr (drop q a) = take (e - q) (drop q a)"
proof -
  have "takeWhile (\<lambda>c. c \<noteq> 0) (drop q a) = take (e - q) (drop q a)"
    by (rule takeWhile_eq_take_P_nth) (use assms in auto)
  then show ?thesis by (simp add: cstr_def)
qed

lemma parsecmd_Inr:
  assumes "parsecmd b = Inr (c, a)"
  shows "cmd_ok b c" and "a = nulterminate c (b @ [0])"
proof -
  obtain i where i: "parseline (4 * length b + 4) b 0 = Inr (c, i)" and "a = nulterminate c (b @ [0])"
    using assms unfolding parsecmd_def by (auto elim!: kbind_InrE split: prod.splits if_splits)
  then show "a = nulterminate c (b @ [0])" by simp
  have "bounded (cmd_ok b) b 0 (parseline (4 * length b + 4) b 0)" by (rule parse_total) simp_all
  then show "cmd_ok b c" by (simp add: i)
qed

lemma words_cstr:
  assumes "parsecmd b = Inr (c, a)" and "0 \<notin> set b"
  shows "cmd_ok b c \<and> (\<forall>(q, e)\<in>set_cmd c. cstr (drop q a) = take (e - q) (drop q b))"
proof -
  note ok = parsecmd_Inr(1) [OF assms(1)] and a = parsecmd_Inr(2) [OF assms(1)]
  have "cstr (drop q a) = take (e - q) (drop q b)" if w: "(q, e) \<in> set_cmd c" for q e
  proof -
    have s: "slice_ok b (q, e)" by (rule cmd_ok_slices [OF ok w])
    have len: "length a = Suc (length b)" using nulterminate_nth [of c "b @ [0]"] a by simp
    have nth: "a ! k = (if k \<in> snd ` set_cmd c then 0 else (b @ [0]) ! k)" if "k \<le> length b" for k
      using nulterminate_nth [of c "b @ [0]"] a that by simp
    have keep: "a ! k = b ! k" if "q \<le> k" "k < e" for k
    proof -
      have "k \<notin> snd ` set_cmd c"
      proof
        assume "k \<in> snd ` set_cmd c"
        then obtain q' where "(q', k) \<in> set_cmd c" by force
        then have "slice_ok b (q', k)" by (rule cmd_ok_slices [OF ok])
        then show False using s that by (auto simp: slice_ok_def)
      qed
      then show ?thesis using nth [of k] s that by (simp add: slice_ok_def nth_append)
    qed
    have "a ! e = 0" using nth [of e] w s by (force simp: slice_ok_def)
    moreover have "a ! k \<noteq> 0" if "q \<le> k" "k < e" for k
    proof -
      have "b ! k \<in> set b" using s that by (intro nth_mem) (auto simp: slice_ok_def)
      then show ?thesis using keep [OF that] assms(2) by auto
    qed
    ultimately have "cstr (drop q a) = take (e - q) (drop q a)"
      using s len by (intro cstr_slice) (auto simp: slice_ok_def)
    also have "\<dots> = take (e - q) (drop q b)"
      using s len keep by (intro nth_equalityI) (auto simp: slice_ok_def)
    finally show ?thesis .
  qed
  then show ?thesis using ok by auto
qed

text \<open>
  A command that the parser gives is well formed: at most nine arguments, a file for each redirection with the mode and descriptor of
  its symbol, and words that are not empty and lie inside of the line. In the array that \<open>nulterminate\<close> leaves, every word of it,
  wherever it is in the tree, is a C string: its characters on the line, and then the NUL.
\<close>

theorem parsecmd_words:
  assumes "parsecmd b = Inr (c, a)" and "0 \<notin> set b"
  shows "cmd_ok b c \<and> (\<forall>(q, e)\<in>set_cmd c. cstr (drop q a) = take (e - q) (drop q b))"
  by (rule words_cstr [OF assms])

lemma parsecmd_words_witness:
  "\<exists>a. parsecmd [0x61, 0x62, 0x7c, 0x63] = Inr (PIPE (EXEC [(0, 2)]) (EXEC [(3, 4)]), a) \<and> cstr (drop 0 a) = [0x61, 0x62]"
proof -
  have p: "parsecmd [0x61, 0x62, 0x7c, 0x63] = Inr (PIPE (EXEC [(0, 2)]) (EXEC [(3, 4)]), [0x61, 0x62, 0, 0x63, 0])"
    by code_simp
  show ?thesis using parsecmd_words [OF p] p by simp
qed

section \<open>Printing a command\<close>

text \<open>A command over its words is printed as tokens, with parentheses where they are needed.\<close>

datatype token = Word "u8 list" | Sym u8 | Append

primrec tok_text :: "token \<Rightarrow> u8 list" where
  "tok_text (Word w) = w"
| "tok_text (Sym c) = [c]"
| "tok_text Append = [0x3e, 0x3e]"

primrec tok_kind :: "token \<Rightarrow> u8" where
  "tok_kind (Word w) = 0x61"
| "tok_kind (Sym c) = c"
| "tok_kind Append = 0x2b"

definition word_ok :: "u8 list \<Rightarrow> bool" where
  "word_ok w \<longleftrightarrow> w \<noteq> [] \<and> (\<forall>c\<in>set w. wordchar c \<and> c \<noteq> 0)"

primrec tok_ok :: "token \<Rightarrow> bool" where
  "tok_ok (Word w) \<longleftrightarrow> word_ok w"
| "tok_ok (Sym c) \<longleftrightarrow> c \<in> set symbols"
| "tok_ok Append \<longleftrightarrow> True"

definition text_of :: "token list \<Rightarrow> u8 list" where
  "text_of ts = concat (map (\<lambda>t. tok_text t @ [0x20]) ts)"

definition redir_toks :: "u8 list \<times> u32 \<times> nat \<Rightarrow> token list" where
  "redir_toks r = (case r of (w, mode, _) \<Rightarrow>
    [if mode = O_RDONLY then Sym 0x3c else if mode = O_WRONLY OR O_CREATE OR O_TRUNC then Sym 0x3e else Append, Word w])"

definition paren :: "bool \<Rightarrow> token list \<Rightarrow> token list" where
  "paren p ts = (if p then Sym 0x28 # ts @ [Sym 0x29] else ts)"

text \<open>At level 3 a command is a line, at 2 what stands before \<open>;\<close>, at 1 what stands before \<open>&\<close>, and at 0 what stands before \<open>|\<close>.\<close>

primrec toks :: "u8 list cmd \<Rightarrow> nat \<Rightarrow> token list" where
  "toks (EXEC ws) l = map Word ws"
| "toks (REDIR c w mode fd) l = toks c 0 @ redir_toks (w, mode, fd)"
| "toks (PIPE c d) l = paren (l = 0) (toks c 0 @ Sym 0x7c # toks d 1)"
| "toks (LIST c d) l = paren (l < 3) (toks c 2 @ Sym 0x3b # toks d 3)"
| "toks (BACK c) l = paren (l < 2) (toks c 2 @ [Sym 0x26])"

text \<open>The commands that can be written on a line.\<close>

primrec wf_cmd :: "u8 list cmd \<Rightarrow> bool" where
  "wf_cmd (EXEC ws) \<longleftrightarrow> length ws < MAXARGS \<and> (\<forall>w\<in>set ws. word_ok w)"
| "wf_cmd (REDIR c w mode fd) \<longleftrightarrow> wf_cmd c \<and> word_ok w \<and> (fd = 0 \<and> mode = O_RDONLY
      \<or> fd = 1 \<and> mode \<in> {O_WRONLY OR O_CREATE OR O_TRUNC, O_WRONLY OR O_CREATE OR O_APPEND})"
| "wf_cmd (PIPE c d) \<longleftrightarrow> wf_cmd c \<and> wf_cmd d"
| "wf_cmd (LIST c d) \<longleftrightarrow> wf_cmd c \<and> wf_cmd d"
| "wf_cmd (BACK c) \<longleftrightarrow> wf_cmd c"

section \<open>Reading printed tokens\<close>

lemma text_of_simps [simp]:
  "text_of [] = []" "text_of (t # ts) = tok_text t @ 0x20 # text_of ts" "text_of (ts @ us) = text_of ts @ text_of us"
  by (simp_all add: text_of_def)

text \<open>The first character of what follows.\<close>

text \<open>Tokens in a text, with any whitespace behind each of them.\<close>

primrec spells :: "token list \<Rightarrow> u8 list \<Rightarrow> bool" where
  "spells [] s \<longleftrightarrow> s = []"
| "spells (t # ts) s \<longleftrightarrow> (\<exists>g s'. s = tok_text t @ g @ s' \<and> g \<noteq> [] \<and> set g \<subseteq> set whitespace \<and> spells ts s')"

declare spells.simps(2) [simp del]

lemma spells_length: "spells ts s \<Longrightarrow> length (text_of ts) \<le> length s"
proof (induction ts arbitrary: s)
  case (Cons t ts)
  then obtain g s' where "s = tok_text t @ g @ s'" "g \<noteq> []" "spells ts s'" by (auto simp: spells.simps(2))
  moreover from this(2) have "1 \<le> length g" by (cases g) auto
  ultimately show ?case using Cons.IH [of s'] by simp
qed simp

definition starts :: "token list \<Rightarrow> u8 list \<Rightarrow> bool" where
  "starts ts cs \<longleftrightarrow> ts \<noteq> [] \<and> hd (tok_text (hd ts)) \<in> set cs"

lemma starts_simps [simp]: "\<not> starts [] cs" "starts (t # ts) cs \<longleftrightarrow> hd (tok_text t) \<in> set cs"
  by (simp_all add: starts_def)

lemma tok_first:
  assumes "tok_ok t"
  obtains c r where "tok_text t = c # r" and "c \<notin> set whitespace" and "c \<noteq> 0"
proof (cases t)
  case (Word w)
  then show ?thesis using assms that [of "hd w" "tl w"] by (cases w) (auto simp: word_ok_def wordchar_def)
next
  case (Sym c)
  then show ?thesis using assms that [of c "[]"] by (auto simp: symbols_def whitespace_def)
next
  case Append
  then show ?thesis using that [of "0x3e" "[0x3e]"] by (simp add: whitespace_def)
qed

lemma at_drop: "drop i b = c # r \<Longrightarrow> at b i = c" "drop i b = [] \<Longrightarrow> at b i = 0"
proof -
  show "at b i = c" if "drop i b = c # r"
    using that nth_via_drop [OF that] by (simp add: at_def) (metis drop_all list.distinct(1) not_le)
  show "at b i = 0" if "drop i b = []" using that by (simp add: at_def)
qed

lemma skip_text:
  assumes "spells ts (drop i b)" and "\<forall>t\<in>set ts. tok_ok t"
  shows "skip_white b i = i"
proof (cases ts)
  case Nil
  then show ?thesis using assms(1) by (simp add: skip_white_def)
next
  case (Cons t us)
  then have "tok_ok t" using assms(2) by simp
  then obtain c r where "tok_text t = c # r" "c \<notin> set whitespace" by (rule tok_first)
  then show ?thesis using assms(1) Cons by (auto simp: skip_white_def spells.simps(2))
qed

lemma peek_text:
  assumes "spells ts (drop i b)" and "\<forall>t\<in>set ts. tok_ok t"
  shows "peek b i cs = (starts ts cs, i)"
proof (cases ts)
  case Nil
  then show ?thesis using assms skip_text [OF assms] by (simp add: peek_def at_drop(2))
next
  case (Cons t us)
  then have "tok_ok t" using assms(2) by simp
  then obtain c r where c: "tok_text t = c # r" "c \<noteq> 0" by (rule tok_first)
  then have "at b i = c" using assms(1) Cons by (auto simp: spells.simps(2) intro: at_drop(1))
  then show ?thesis using c Cons skip_text [OF assms] by (simp add: peek_def)
qed

lemma gettoken_text:
  assumes "spells (t # ts) (drop i b)" and "\<forall>u\<in>set (t # ts). tok_ok u"
  shows "\<exists>j. gettoken b i = (tok_kind t, i, i + length (tok_text t), j) \<and> spells ts (drop j b)"
proof -
  let ?e = "i + length (tok_text t)"
  have s: "skip_white b i = i" by (rule skip_text [OF assms])
  obtain x g r where d: "drop i b = tok_text t @ (x # g) @ r" and g: "set (x # g) \<subseteq> set whitespace" and r: "spells ts r"
    using assms(1) by (auto simp: spells.simps(2) neq_Nil_conv)
  have e: "drop ?e b = (x # g) @ r"
  proof -
    have "drop ?e b = drop (length (tok_text t)) (drop i b)" by (simp add: add.commute)
    then show ?thesis by (simp add: d)
  qed
  let ?j = "?e + length (x # g)"
  have j: "drop ?j b = r"
  proof -
    have "drop ?j b = drop (length (x # g)) (drop ?e b)" by (simp only: drop_drop add.commute)
    then show ?thesis unfolding e by simp
  qed
  have "skip_white b ?j = ?j" by (rule skip_text [of ts]) (use r j assms(2) in auto)
  then have "takeWhile (\<lambda>c. c \<in> set whitespace) r = []" using j by (simp add: skip_white_def)
  then have "takeWhile (\<lambda>c. c \<in> set whitespace) ((x # g) @ r) = x # g" using g by (subst takeWhile_append2) auto
  then have w: "skip_white b ?e = ?j" by (simp only: skip_white_def e)
  moreover have "gettoken b i = (tok_kind t, i, ?e, skip_white b ?e)"
  proof (cases t)
    case (Word w)
    then have w: "word_ok w" using assms(2) by simp
    then obtain c r where c: "w = c # r" by (cases w) (auto simp: word_ok_def)
    then have "at b i = c" using d Word by (intro at_drop(1)) simp
    moreover have "c \<noteq> 0" "c \<notin> set symbols" using w c by (auto simp: word_ok_def wordchar_def)
    moreover have "takeWhile wordchar (drop i b) = w"
      using d Word w g by (simp add: takeWhile_append word_ok_def wordchar_def)
    ultimately show ?thesis using s Word by (simp add: gettoken_def symbols_def)
  next
    case (Sym c)
    then have "at b i = c" "c \<in> set symbols" using assms(2) d by (auto intro: at_drop(1))
    moreover have "at b (Suc i) = x" using e Sym by (intro at_drop(1)) simp
    moreover have "x \<noteq> 0x3e" using g by (auto simp: whitespace_def)
    ultimately show ?thesis using s Sym by (auto simp: gettoken_def symbols_def)
  next
    case Append
    then have "at b i = 0x3e" using d by (auto intro: at_drop(1))
    moreover have "drop (Suc i) b = 0x3e # x # g @ r" using d Append by (simp flip: tl_drop add: drop_Suc tl_drop)
    then have "at b (Suc i) = 0x3e" by (rule at_drop(1))
    ultimately show ?thesis using s Append by (simp add: gettoken_def)
  qed
  ultimately show ?thesis using r j by auto
qed

lemma next_token_text:
  assumes "spells (t # ts) (drop i b)" and "\<forall>u\<in>set (t # ts). tok_ok u"
  shows "spells ts (drop (next_token b i) b)"
  using gettoken_text [OF assms] by (auto simp: next_token_def)

section \<open>Parsing what was printed\<close>

text \<open>The words of a parsed command.\<close>

definition word_of :: "u8 list \<Rightarrow> slice \<Rightarrow> u8 list" where
  "word_of b w = (case w of (q, e) \<Rightarrow> take (e - q) (drop q b))"

definition redir_text :: "u8 list \<Rightarrow> redir \<Rightarrow> u8 list \<times> u32 \<times> nat" where
  "redir_text b r = (case r of (w, mode, fd) \<Rightarrow> (word_of b w, mode, fd))"

definition wf_redir :: "u8 list \<times> u32 \<times> nat \<Rightarrow> bool" where
  "wf_redir r \<longleftrightarrow> (case r of (w, mode, fd) \<Rightarrow> wf_cmd (REDIR (EXEC []) w mode fd))"

abbreviation "rtoks rs \<equiv> concat (map redir_toks rs)"

lemmas modes = O_RDONLY_def O_WRONLY_def O_CREATE_def O_TRUNC_def O_APPEND_def

lemma redir_toks_ok: "wf_redir r \<Longrightarrow> \<forall>t\<in>set (redir_toks r). tok_ok t"
  by (auto simp: wf_redir_def redir_toks_def symbols_def split: prod.splits)

lemma wf_redir_cases:
  assumes "wf_redir r"
  obtains w t where "redir_toks r = [t, Word w]" and "t \<in> {Sym 0x3c, Sym 0x3e, Append}" and "word_ok w"
    and "\<And>b q e. word_of b (q, e) = w \<Longrightarrow> redir_text b (redir_of (tok_kind t) (q, e)) = r"
proof -
  obtain w mode fd where r: "r = (w, mode, fd)" by (metis prod_cases3)
  let ?t = "if mode = O_RDONLY then Sym 0x3c else if mode = O_WRONLY OR O_CREATE OR O_TRUNC then Sym 0x3e else Append"
  have "redir_toks r = [?t, Word w]" by (simp add: redir_toks_def r)
  moreover have "?t \<in> {Sym 0x3c, Sym 0x3e, Append}" "word_ok w" using assms by (simp_all add: wf_redir_def r)
  moreover have "redir_text b (redir_of (tok_kind ?t) (q, e)) = r" if "word_of b (q, e) = w" for b q e
    using assms that by (auto simp: wf_redir_def r redir_text_def redir_of_def modes)
  ultimately show ?thesis by (rule that)
qed

lemma word_of_token:
  assumes "spells (t # ts) (drop i b)"
  shows "word_of b (i, i + length (tok_text t)) = tok_text t"
  using assms by (auto simp: word_of_def spells.simps(2))

lemma rtoks_ok: "\<forall>r\<in>set rs. wf_redir r \<Longrightarrow> \<forall>t\<in>set (rtoks rs). tok_ok t"
  using redir_toks_ok by auto

lemma parseredirs_text:
  "spells (rtoks rs @ ts) (drop i b) \<Longrightarrow> \<forall>r\<in>set rs. wf_redir r \<Longrightarrow> \<forall>t\<in>set ts. tok_ok t \<Longrightarrow> \<not> starts ts [0x3c, 0x3e] \<Longrightarrow>
    \<exists>rs' j. parseredirs b i = Inr (rs', j) \<and> map (redir_text b) rs' = rs \<and> spells ts (drop j b)"
proof (induction rs arbitrary: i)
  case Nil
  then have "peek b i [0x3c, 0x3e] = (False, i)" using peek_text [of ts i b] by simp
  then show ?case using Nil(1) by (simp add: parseredirs.simps [of b i])
next
  case (Cons r rs)
  then obtain w t where w: "redir_toks r = [t, Word w]" "t \<in> {Sym 0x3c, Sym 0x3e, Append}" "word_ok w"
    and x: "\<And>b q e. word_of b (q, e) = w \<Longrightarrow> redir_text b (redir_of (tok_kind t) (q, e)) = r"
    by (auto elim: wf_redir_cases)
  let ?ts = "Word w # rtoks rs @ ts"
  have d: "spells (t # ?ts) (drop i b)" using Cons.prems(1) w(1) by simp
  have ok: "\<forall>u\<in>set (t # ?ts). tok_ok u" using Cons.prems(2,3) w rtoks_ok [of rs] by (auto simp: symbols_def)
  have p: "peek b i [0x3c, 0x3e] = (True, i)" using peek_text [OF d ok] w(2) by auto
  obtain k where k: "gettoken b i = (tok_kind t, i, i + length (tok_text t), k)" "spells ?ts (drop k b)"
    using gettoken_text [OF d ok] by blast
  obtain l where l: "gettoken b k = (0x61, k, k + length w, l)" "spells (rtoks rs @ ts) (drop l b)"
    using gettoken_text [of "Word w" "rtoks rs @ ts" k b] k(2) ok by auto
  obtain rs' j where "parseredirs b l = Inr (rs', j)" "map (redir_text b) rs' = rs" "spells ts (drop j b)"
    using Cons.IH [OF l(2)] Cons.prems(2-4) by auto
  moreover have "word_of b (k, k + length w) = w" using word_of_token [of "Word w" "rtoks rs @ ts" k b] k(2) by simp
  ultimately show ?case using p k l x by (simp add: parseredirs.simps [of b i])
qed

lemma parse_args_end:
  assumes "spells ts (drop i b)" and "\<forall>t\<in>set ts. tok_ok t" and "ts = [] \<or> starts ts [0x7c, 0x29, 0x26, 0x3b]"
  shows "parse_args b i av rs = Inr (av, rs, i)"
proof (cases "ts = []")
  case True
  then have "gettoken b i = (0, i, i, i)"
    using assms(1) skip_text [OF assms(1,2)] at_drop(2) [of i b] by (simp add: gettoken_def)
  then show ?thesis using peek_text [OF assms(1,2)] True by (simp add: parse_args.simps [of b i])
next
  case False
  then show ?thesis using peek_text [OF assms(1,2)] assms(3) by (simp add: parse_args.simps [of b i])
qed

lemma word_starts: "word_ok w \<Longrightarrow> set cs \<subseteq> set symbols \<Longrightarrow> hd w \<notin> set cs"
  by (cases w) (auto simp: word_ok_def wordchar_def)

lemma parse_args_text:
  "spells (map Word ws @ rtoks rs @ ts) (drop i b) \<Longrightarrow> ws \<noteq> [] \<Longrightarrow> \<forall>w\<in>set ws. word_ok w \<Longrightarrow> \<forall>r\<in>set rs. wf_redir r \<Longrightarrow>
    \<forall>t\<in>set ts. tok_ok t \<Longrightarrow> ts = [] \<or> starts ts [0x7c, 0x29, 0x26, 0x3b] \<Longrightarrow> length av + length ws < MAXARGS \<Longrightarrow>
    \<exists>av' rs' j. parse_args b i av rs0 = Inr (av @ av', rs0 @ rs', j) \<and> map (word_of b) av' = ws \<and>
      map (redir_text b) rs' = rs \<and> spells ts (drop j b)"
proof (induction ws arbitrary: i av rs0)
  case (Cons w ws)
  let ?ts = "map Word ws @ rtoks rs @ ts"
  have d: "spells (Word w # ?ts) (drop i b)" using Cons.prems(1) by simp
  have ok: "\<forall>u\<in>set (Word w # ?ts). tok_ok u" using Cons.prems(3-5) rtoks_ok [of rs] by auto
  have p: "peek b i [0x7c, 0x29, 0x26, 0x3b] = (False, i)"
    using peek_text [OF d ok] word_starts [of w "[0x7c, 0x29, 0x26, 0x3b]"] ok by (simp add: symbols_def)
  obtain k where k: "gettoken b i = (0x61, i, i + length w, k)" "spells ?ts (drop k b)"
    using gettoken_text [OF d ok] by auto
  have w: "word_of b (i, i + length w) = w" using word_of_token [OF d] by simp
  have step: "parse_args b i av rs0 = kbind (parseredirs b k) (\<lambda>(r, i'). parse_args b i' (av @ [(i, i + length w)]) (rs0 @ r))"
    using p k(1) Cons.prems(7) by (simp add: parse_args.simps [of b i av])
  show ?case
  proof (cases "ws = []")
    case True
    have "\<not> starts ts [0x3c, 0x3e]" using Cons.prems(6) by (cases ts) auto
    then obtain rs' j where r: "parseredirs b k = Inr (rs', j)" "map (redir_text b) rs' = rs" "spells ts (drop j b)"
      using parseredirs_text [of rs ts k b] k(2) True Cons.prems(4,5) by auto
    have "parse_args b j (av @ [(i, i + length w)]) (rs0 @ rs') = Inr (av @ [(i, i + length w)], rs0 @ rs', j)"
      by (rule parse_args_end [OF r(3) Cons.prems(5,6)])
    then show ?thesis using step r w True by (intro exI [of _ "[(i, i + length w)]"]) simp
  next
    case False
    then have "hd ws \<in> set ws" by simp
    then have "\<not> starts ?ts [0x3c, 0x3e]"
      using False Cons.prems(3) word_starts [of "hd ws" "[0x3c, 0x3e]"] by (cases ws) (simp_all add: symbols_def)
    moreover have "\<forall>t\<in>set ?ts. tok_ok t" using ok by simp
    ultimately obtain j where r: "parseredirs b k = Inr ([], j)" "spells ?ts (drop j b)"
      using parseredirs_text [of "[]" ?ts k b] k(2) by auto
    have "length (av @ [(i, i + length w)]) + length ws < MAXARGS" using Cons.prems(7) by simp
    from Cons.IH [OF r(2) False _ Cons.prems(4-6) this, of rs0] Cons.prems(3)
    obtain av' rs' l where "parse_args b j (av @ [(i, i + length w)]) rs0 = Inr ((av @ [(i, i + length w)]) @ av', rs0 @ rs', l)"
      "map (word_of b) av' = ws" "map (redir_text b) rs' = rs" "spells ts (drop l b)" by auto
    then show ?thesis using step r w by (intro exI [of _ "(i, i + length w) # av'"]) simp
  qed
qed simp

text \<open>A command and the redirections around it.\<close>

fun strip :: "'w cmd \<Rightarrow> 'w cmd \<times> ('w \<times> u32 \<times> nat) list" where
  "strip (REDIR c w mode fd) = (let (d, rs) = strip c in (d, rs @ [(w, mode, fd)]))"
| "strip c = (c, [])"

definition wrap :: "'w \<times> u32 \<times> nat \<Rightarrow> 'w cmd \<Rightarrow> 'w cmd" where
  "wrap r c = (case r of (w, mode, fd) \<Rightarrow> REDIR c w mode fd)"

lemma strip_wrap:
  assumes "strip c = (d, rs)"
  shows "c = fold wrap rs d" and "\<not> (\<exists>e w m f. d = REDIR e w m f)" and "wf_cmd c \<Longrightarrow> wf_cmd d \<and> (\<forall>r\<in>set rs. wf_redir r)"
    and "toks c 0 = toks d 0 @ rtoks rs"
proof -
  have "c = fold wrap rs d \<and> (\<nexists>e w m f. d = REDIR e w m f) \<and> (wf_cmd c \<longrightarrow> wf_cmd d \<and> (\<forall>r\<in>set rs. wf_redir r))
    \<and> toks c 0 = toks d 0 @ rtoks rs"
    using assms
  proof (induction c arbitrary: rs)
    case (REDIR c w mode fd)
    obtain d' rs' where s: "strip c = (d', rs')" by (metis surj_pair)
    then have "d' = d" "rs = rs' @ [(w, mode, fd)]" using REDIR.prems by simp_all
    then show ?case using REDIR.IH s by (auto simp: wrap_def wf_redir_def MAXARGS_def)
  qed auto
  then show "c = fold wrap rs d" "\<not> (\<exists>e w m f. d = REDIR e w m f)" "wf_cmd c \<Longrightarrow> wf_cmd d \<and> (\<forall>r\<in>set rs. wf_redir r)"
    "toks c 0 = toks d 0 @ rtoks rs" by blast+
qed

lemma map_redircmd:
  "map_cmd (word_of b) (fold redircmd rs c) = fold wrap (map (redir_text b) rs) (map_cmd (word_of b) c)"
  by (induction rs arbitrary: c) (auto simp: redircmd_def wrap_def redir_text_def split: prod.splits)

lemma toks_ok: "wf_cmd c \<Longrightarrow> \<forall>t\<in>set (toks c l). tok_ok t"
  by (induction c arbitrary: l) (auto simp: paren_def symbols_def redir_toks_def)

lemma spells_no_nul: "spells ts s \<Longrightarrow> \<forall>t\<in>set ts. tok_ok t \<Longrightarrow> 0 \<notin> set s"
proof (induction ts arbitrary: s)
  case (Cons t ts)
  have "0 \<notin> set (tok_text t)" using Cons.prems(2) by (cases t) (auto simp: word_ok_def symbols_def)
  moreover have "0 \<notin> set whitespace" by (simp add: whitespace_def)
  ultimately show ?case using Cons by (auto simp: spells.simps(2))
qed simp

lemma spells_text_of: "spells ts (text_of ts)"
proof (induction ts)
  case (Cons t ts)
  then show ?case by (simp add: spells.simps(2) exI [of _ "[0x20]"] whitespace_def)
qed simp

text \<open>A routine reads the command \<open>c\<close> and leaves the tokens \<open>ts\<close>.\<close>

definition reads :: "u8 list \<Rightarrow> (slice cmd \<times> nat) kres \<Rightarrow> u8 list cmd \<Rightarrow> token list \<Rightarrow> bool" where
  "reads b r c ts \<longleftrightarrow> (\<exists>c' j. r = Inr (c', j) \<and> map_cmd (word_of b) c' = c \<and> spells ts (drop j b))"

lemma readsE:
  assumes "reads b r c ts"
  obtains c' j where "r = Inr (c', j)" and "map_cmd (word_of b) c' = c" and "spells ts (drop j b)"
  using assms by (auto simp: reads_def)

text \<open>What may follow a command of each level.\<close>

definition follow :: "nat \<Rightarrow> token list \<Rightarrow> bool" where
  "follow l ts \<longleftrightarrow> (\<forall>t\<in>set ts. tok_ok t) \<and>
    (ts = [] \<or> starts ts (if l \<ge> 3 then [0x29] else if l = 2 then [0x29, 0x3b] else if l = 1 then [0x29, 0x3b, 0x26] else [0x29, 0x3b, 0x26, 0x7c]))"

lemma follow_mono: "follow l ts \<Longrightarrow> k \<le> l \<Longrightarrow> follow k ts"
  by (auto simp: follow_def starts_def split: if_splits)

definition line_reads :: "nat \<Rightarrow> bool" where
  "line_reads n \<longleftrightarrow> (\<forall>b i c ts. spells (toks c 3 @ ts) (drop i b) \<longrightarrow> wf_cmd c \<longrightarrow> follow 3 ts \<longrightarrow>
     4 * length (text_of (toks c 3 @ ts)) + 4 \<le> n \<longrightarrow> reads b (parseline n b i) c ts)"

definition pipe_reads :: "nat \<Rightarrow> bool" where
  "pipe_reads n \<longleftrightarrow> (\<forall>b i c ts. spells (toks c 1 @ ts) (drop i b) \<longrightarrow> wf_cmd c \<longrightarrow> follow 1 ts \<longrightarrow>
     4 * length (text_of (toks c 1 @ ts)) + 3 \<le> n \<longrightarrow> reads b (parsepipe n b i) c ts)"

definition exec_reads :: "nat \<Rightarrow> bool" where
  "exec_reads n \<longleftrightarrow> (\<forall>b i c ts. spells (toks c 0 @ ts) (drop i b) \<longrightarrow> wf_cmd c \<longrightarrow> follow 0 ts \<longrightarrow>
     4 * length (text_of (toks c 0 @ ts)) + 2 \<le> n \<longrightarrow> reads b (parseexec n b i) c ts)"

definition block_reads :: "nat \<Rightarrow> bool" where
  "block_reads n \<longleftrightarrow> (\<forall>b i c rs ts. spells (Sym 0x28 # toks c 3 @ Sym 0x29 # rtoks rs @ ts) (drop i b) \<longrightarrow> wf_cmd c \<longrightarrow>
     (\<forall>r\<in>set rs. wf_redir r) \<longrightarrow> follow 0 ts \<longrightarrow>
     4 * length (text_of (Sym 0x28 # toks c 3 @ Sym 0x29 # rtoks rs @ ts)) + 1 \<le> n \<longrightarrow>
     reads b (parseblock n b i) (fold wrap rs c) ts)"

lemma follow_not_redir: "follow 0 ts \<Longrightarrow> \<not> starts ts [0x3c, 0x3e]"
  by (auto simp: follow_def starts_def)

lemma block_step:
  assumes "line_reads n"
  shows "block_reads (Suc n)"
  unfolding block_reads_def
proof (intro allI impI)
  fix b i c rs ts
  let ?u = "Sym 0x29 # rtoks rs @ ts"
  assume d: "spells (Sym 0x28 # toks c 3 @ ?u) (drop i b)" and wf: "wf_cmd c" "\<forall>r\<in>set rs. wf_redir r" and f: "follow 0 ts"
    and n: "4 * length (text_of (Sym 0x28 # toks c 3 @ ?u)) + 1 \<le> Suc n"
  have oku: "\<forall>t\<in>set ?u. tok_ok t" using rtoks_ok [OF wf(2)] f by (auto simp: follow_def symbols_def)
  then have ok: "\<forall>t\<in>set (Sym 0x28 # toks c 3 @ ?u). tok_ok t" using toks_ok [OF wf(1)] by (auto simp: symbols_def)
  have p: "peek b i [0x28] = (True, i)" using peek_text [OF d ok] by simp
  have "spells (toks c 3 @ ?u) (drop (next_token b i) b)" by (rule next_token_text [OF d ok])
  moreover have "follow 3 ?u" using oku by (simp add: follow_def)
  ultimately have "reads b (parseline n b (next_token b i)) c ?u"
    using assms wf(1) n by (auto simp: line_reads_def)
  then obtain c' j where c': "parseline n b (next_token b i) = Inr (c', j)" "map_cmd (word_of b) c' = c" "spells ?u (drop j b)"
    by (rule readsE)
  have q: "peek b j [0x29] = (True, j)" using peek_text [OF c'(3) oku] by simp
  have "spells (rtoks rs @ ts) (drop (next_token b j) b)" by (rule next_token_text [OF c'(3) oku])
  moreover have "\<forall>t\<in>set ts. tok_ok t" using f by (simp add: follow_def)
  ultimately obtain rs' k where "parseredirs b (next_token b j) = Inr (rs', k)" "map (redir_text b) rs' = rs" "spells ts (drop k b)"
    using parseredirs_text wf(2) follow_not_redir [OF f] by blast
  then show "reads b (parseblock (Suc n) b i) (fold wrap rs c) ts"
    using p q c' by (auto simp: reads_def map_redircmd)
qed

lemma args_read:
  assumes "spells (map Word ws @ rtoks rs @ ts) (drop i b)" and "length ws < MAXARGS" and "\<forall>w\<in>set ws. word_ok w"
    and "\<forall>r\<in>set rs. wf_redir r" and "follow 0 ts"
  shows "reads b (kbind (parseredirs b i) (\<lambda>(rs, i). kbind (parse_args b i [] rs) (\<lambda>(av, rs, i). Inr (fold redircmd rs (EXEC av), i))))
    (fold wrap rs (EXEC ws)) ts"
proof -
  have f: "\<forall>t\<in>set ts. tok_ok t" "ts = [] \<or> starts ts [0x7c, 0x29, 0x26, 0x3b]"
    using assms(5) by (auto simp: follow_def starts_def)
  show ?thesis
  proof (cases "ws = []")
    case True
    then have "spells (rtoks rs @ ts) (drop i b)" using assms(1) by simp
    then obtain rs' j where r: "parseredirs b i = Inr (rs', j)" "map (redir_text b) rs' = rs" "spells ts (drop j b)"
      using parseredirs_text assms(4) f(1) follow_not_redir [OF assms(5)] by blast
    then show ?thesis using parse_args_end [OF r(3) f] True by (simp add: reads_def map_redircmd)
  next
    case False
    let ?ts = "map Word ws @ rtoks rs @ ts"
    have "hd ws \<in> set ws" using False by simp
    then have "\<not> starts ?ts [0x3c, 0x3e]"
      using False assms(3) word_starts [of "hd ws" "[0x3c, 0x3e]"] by (cases ws) (simp_all add: symbols_def)
    moreover have "\<forall>t\<in>set ?ts. tok_ok t" using assms(3) rtoks_ok [OF assms(4)] f(1) by auto
    ultimately obtain j where r: "parseredirs b i = Inr ([], j)" "spells ?ts (drop j b)"
      using parseredirs_text [of "[]" ?ts i b] assms(1) by auto
    have "length [] + length ws < MAXARGS" using assms(2) by simp
    from parse_args_text [OF r(2) False assms(3,4) f this, of "[]"] obtain av rs' k where
      "parse_args b j [] [] = Inr (av, rs', k)" "map (word_of b) av = ws" "map (redir_text b) rs' = rs" "spells ts (drop k b)"
      by auto
    then show ?thesis using r(1) by (simp add: reads_def map_redircmd)
  qed
qed

lemma exec_step:
  assumes "block_reads n"
  shows "exec_reads (Suc n)"
  unfolding exec_reads_def
proof (intro allI impI)
  fix b i c ts
  assume d: "spells (toks c 0 @ ts) (drop i b)" and wf: "wf_cmd c" and f: "follow 0 ts"
    and n: "4 * length (text_of (toks c 0 @ ts)) + 2 \<le> Suc n"
  obtain e rs where s: "strip c = (e, rs)" by (metis surj_pair)
  note w = strip_wrap [OF s]
  have ok: "\<forall>t\<in>set (toks c 0 @ ts). tok_ok t" using toks_ok [OF wf] f by (auto simp: follow_def)
  show "reads b (parseexec (Suc n) b i) c ts"
  proof (cases "\<exists>ws. e = EXEC ws")
    case True
    then obtain ws where e: "e = EXEC ws" by blast
    have "\<not> starts (map Word ws @ rtoks rs @ ts) [0x28]"
    proof (cases ws)
      case Nil
      then show ?thesis using f w(3) [OF wf]
        by (cases rs) (auto simp: follow_def starts_def elim!: wf_redir_cases)
    next
      case (Cons v vs)
      then show ?thesis using w(3) [OF wf] e word_starts [of v "[0x28]"] by (simp add: symbols_def)
    qed
    then have "peek b i [0x28] = (False, i)" using peek_text [OF d ok] w(4) e by simp
    moreover have "reads b (kbind (parseredirs b i) (\<lambda>(rs, i). kbind (parse_args b i [] rs) (\<lambda>(av, rs, i).
        Inr (fold redircmd rs (EXEC av), i)))) (fold wrap rs (EXEC ws)) ts"
      using d w(3) [OF wf] w(4) e f by (intro args_read) auto
    ultimately show ?thesis using w(1) e by simp
  next
    case False
    then have t: "toks e 0 = Sym 0x28 # toks e 3 @ [Sym 0x29]" using w(2) by (cases e) (auto simp: paren_def)
    have p: "peek b i [0x28] = (True, i)" using peek_text [OF d ok] w(4) t by simp
    have "reads b (parseblock n b i) (fold wrap rs e) ts"
      using assms d n w(3) [OF wf] f unfolding block_reads_def w(4) t by auto
    then show ?thesis using p w(1) by simp
  qed
qed

lemma pipe_step:
  assumes "exec_reads n" and "pipe_reads n"
  shows "pipe_reads (Suc n)"
  unfolding pipe_reads_def
proof (intro allI impI)
  fix b i c ts
  assume d: "spells (toks c 1 @ ts) (drop i b)" and wf: "wf_cmd c" and f: "follow 1 ts"
    and n: "4 * length (text_of (toks c 1 @ ts)) + 3 \<le> Suc n"
  have okts: "\<forall>t\<in>set ts. tok_ok t" using f by (simp add: follow_def)
  show "reads b (parsepipe (Suc n) b i) c ts"
  proof (cases "\<exists>x y. c = PIPE x y")
    case True
    then obtain x y where c: "c = PIPE x y" by blast
    let ?u = "Sym 0x7c # toks y 1 @ ts"
    have d': "spells (toks x 0 @ ?u) (drop i b)" using d by (simp add: c paren_def)
    have oku: "\<forall>t\<in>set ?u. tok_ok t" using toks_ok [of y 1] wf okts by (auto simp: c symbols_def)
    then have "follow 0 ?u" by (simp add: follow_def)
    then have "reads b (parseexec n b i) x ?u"
      using assms(1) d' wf n by (auto simp: exec_reads_def c paren_def)
    then obtain x' j where x': "parseexec n b i = Inr (x', j)" "map_cmd (word_of b) x' = x" "spells ?u (drop j b)"
      by (rule readsE)
    have p: "peek b j [0x7c] = (True, j)" using peek_text [OF x'(3) oku] by simp
    have "spells (toks y 1 @ ts) (drop (next_token b j) b)" by (rule next_token_text [OF x'(3) oku])
    then have "reads b (parsepipe n b (next_token b j)) y ts"
      using assms(2) wf f n by (auto simp: pipe_reads_def c paren_def)
    then show ?thesis using x' p by (auto simp: reads_def c)
  next
    case False
    then have t: "toks c 1 = toks c 0" by (cases c) (auto simp: paren_def)
    have "reads b (parseexec n b i) c ts"
      using assms(1) d [unfolded t] wf n [unfolded t] follow_mono [OF f, of 0] by (simp add: exec_reads_def)
    then obtain c' j where c': "parseexec n b i = Inr (c', j)" "map_cmd (word_of b) c' = c" "spells ts (drop j b)"
      by (rule readsE)
    have "peek b j [0x7c] = (False, j)" using peek_text [OF c'(3) okts] f by (auto simp: follow_def starts_def)
    then show ?thesis using c' by (simp add: reads_def)
  qed
qed

text \<open>A command at level 2: what \<open>parsepipe\<close> reads of it, and the loop over \<open>&\<close> from there.\<close>

lemma bg_base:
  assumes "pipe_reads n" and "spells (toks c 1 @ ts) (drop i b)" and "wf_cmd c" and "follow 1 ts"
    and "4 * length (text_of (toks c 1 @ ts)) + 3 \<le> n"
  shows "\<exists>c0 k c' j. parsepipe n b i = Inr (c0, k) \<and> parse_amps b k c0 = parse_amps b j c' \<and>
    map_cmd (word_of b) c' = c \<and> spells ts (drop j b)"
proof -
  have "reads b (parsepipe n b i) c ts" using assms by (simp add: pipe_reads_def)
  then show ?thesis by (rule readsE) blast
qed

lemma bg_reads:
  assumes "pipe_reads n" and "spells (toks c 2 @ ts) (drop i b)" and "wf_cmd c" and "follow 1 ts"
    and "4 * length (text_of (toks c 2 @ ts)) + 3 \<le> n"
  shows "\<exists>c0 k c' j. parsepipe n b i = Inr (c0, k) \<and> parse_amps b k c0 = parse_amps b j c' \<and>
    map_cmd (word_of b) c' = c \<and> spells ts (drop j b)"
  using assms(2-5)
proof (induction c arbitrary: ts)
  case (BACK c)
  let ?u = "Sym 0x26 # ts"
  have ok: "\<forall>t\<in>set ?u. tok_ok t" using BACK.prems(3) by (simp add: follow_def symbols_def)
  then have "follow 1 ?u" by (simp add: follow_def)
  with BACK.prems obtain c0 k c' j where x: "parsepipe n b i = Inr (c0, k)" "parse_amps b k c0 = parse_amps b j c'"
    "map_cmd (word_of b) c' = c" "spells ?u (drop j b)"
    using BACK.IH [of ?u] by (auto simp: paren_def)
  have "peek b j [0x26] = (True, j)" using peek_text [OF x(4) ok] by simp
  then have "parse_amps b j c' = parse_amps b (next_token b j) (BACK c')" by (simp add: parse_amps.simps [of b j])
  moreover have "spells ts (drop (next_token b j) b)" by (rule next_token_text [OF x(4) ok])
  ultimately show ?case using x by (intro exI [of _ c0] exI [of _ k] exI [of _ "BACK c'"] exI [of _ "next_token b j"]) simp
next
  case (EXEC ws)
  then show ?case by (intro bg_base [OF assms(1)]) simp_all
next
  case (REDIR c w mode fd)
  show ?case using REDIR.prems by (intro bg_base [OF assms(1)]) simp_all
next
  case (PIPE c d)
  show ?case using PIPE.prems by (intro bg_base [OF assms(1)]) (simp_all add: paren_def)
next
  case (LIST c d)
  show ?case using LIST.prems by (intro bg_base [OF assms(1)]) (simp_all add: paren_def)
qed

lemma line_step:
  assumes "pipe_reads n" and "line_reads n"
  shows "line_reads (Suc n)"
  unfolding line_reads_def
proof (intro allI impI)
  fix b i c ts
  assume d: "spells (toks c 3 @ ts) (drop i b)" and wf: "wf_cmd c" and f: "follow 3 ts"
    and n: "4 * length (text_of (toks c 3 @ ts)) + 4 \<le> Suc n"
  have okts: "\<forall>t\<in>set ts. tok_ok t" using f by (simp add: follow_def)
  have stop: "parse_amps b j c' = (c', j)" if "spells us (drop j b)" "follow 2 us" for us j c'
  proof -
    have "peek b j [0x26] = (False, j)" using peek_text [OF that(1)] that(2) by (auto simp: follow_def starts_def)
    then show ?thesis by (simp add: parse_amps.simps [of b j])
  qed
  show "reads b (parseline (Suc n) b i) c ts"
  proof (cases "\<exists>x y. c = LIST x y")
    case True
    then obtain x y where c: "c = LIST x y" by blast
    let ?u = "Sym 0x3b # toks y 3 @ ts"
    have d': "spells (toks x 2 @ ?u) (drop i b)" using d by (simp add: c paren_def)
    have oku: "\<forall>t\<in>set ?u. tok_ok t" using toks_ok [of y 3] wf okts by (auto simp: c symbols_def)
    then have fu: "follow 2 ?u" by (simp add: follow_def)
    obtain c0 k x' j where x: "parsepipe n b i = Inr (c0, k)" "parse_amps b k c0 = parse_amps b j x'"
      "map_cmd (word_of b) x' = x" "spells ?u (drop j b)"
      using bg_reads [OF assms(1) d' _ follow_mono [OF fu]] wf n by (auto simp: c paren_def)
    have p: "peek b j [0x3b] = (True, j)" using peek_text [OF x(4) oku] by simp
    have "spells (toks y 3 @ ts) (drop (next_token b j) b)" by (rule next_token_text [OF x(4) oku])
    then have "reads b (parseline n b (next_token b j)) y ts"
      using assms(2) wf f n by (auto simp: line_reads_def c paren_def)
    then show ?thesis using x p stop [OF x(4) fu, of x'] by (auto simp: reads_def c)
  next
    case False
    then have t: "toks c 3 = toks c 2" by (cases c) (auto simp: paren_def)
    have f2: "follow 2 ts" using follow_mono [OF f, of 2] by simp
    have f1: "follow 1 ts" using follow_mono [OF f, of 1] by simp
    have "4 * length (text_of (toks c 2 @ ts)) + 3 \<le> n" using n by (simp add: t)
    from bg_reads [OF assms(1) d [unfolded t] wf f1 this] obtain c0 k c' j where
      x: "parsepipe n b i = Inr (c0, k)" "parse_amps b k c0 = parse_amps b j c'"
        "map_cmd (word_of b) c' = c" "spells ts (drop j b)" by auto
    have "peek b j [0x3b] = (False, j)" using peek_text [OF x(4) okts] f by (auto simp: follow_def starts_def)
    then show ?thesis using x stop [OF x(4) f2, of c'] by (auto simp: reads_def)
  qed
qed

lemma all_read: "line_reads n \<and> pipe_reads n \<and> exec_reads n \<and> block_reads n"
proof (induction n)
  case 0
  show ?case by (simp add: line_reads_def pipe_reads_def exec_reads_def block_reads_def)
next
  case (Suc n)
  then show ?case by (simp add: line_step pipe_step exec_step block_step)
qed

lemma parse_spelled:
  assumes "wf_cmd c" and "spells (toks c 3) b"
  shows "\<exists>c' a. parsecmd b = Inr (c', a) \<and> map_cmd (\<lambda>(q, e). cstr (drop q a)) c' = c"
proof -
  have "line_reads (4 * length b + 4)" using all_read by blast
  moreover have "follow 3 []" by (simp add: follow_def)
  ultimately have "reads b (parseline (4 * length b + 4) b 0) c []"
    using assms spells_length [OF assms(2)] by (simp add: line_reads_def)
  then obtain c' j where c': "parseline (4 * length b + 4) b 0 = Inr (c', j)" "map_cmd (word_of b) c' = c" "spells [] (drop j b)"
    by (rule readsE)
  have "bounded (cmd_ok b) b 0 (parseline (4 * length b + 4) b 0)" by (rule parse_total) simp_all
  then have "j = length b" using c'(1,3) by simp
  moreover have "peek b j [] = (False, j)" using peek_text [OF c'(3)] by simp
  ultimately have p: "parsecmd b = Inr (c', nulterminate c' (b @ [0]))" using c'(1) by (simp add: parsecmd_def)
  have "0 \<notin> set b" by (rule spells_no_nul [OF assms(2) toks_ok [OF assms(1)]])
  from words_cstr [OF p this] have "map_cmd (\<lambda>(q, e). cstr (drop q (nulterminate c' (b @ [0])))) c' = map_cmd (word_of b) c'"
    by (intro cmd.map_cong0) (auto simp: word_of_def)
  then show ?thesis using p c'(2) by auto
qed

text \<open>
  C27: The parser undoes the printing of a command: for every command, however its pipes, lists, background parts and redirections are nested, and every
  text of its tokens, whatever whitespace is between them, \<open>parsecmd\<close> gives the command back, with its words as the C strings that are in the
  array afterwards.
\<close>

theorem parsecmd_print:
  assumes "wf_cmd c" and "spells (toks c 3) b"
  shows "\<exists>c' a. parsecmd b = Inr (c', a) \<and> map_cmd (\<lambda>(q, e). cstr (drop q a)) c' = c"
  by (rule parse_spelled [OF assms])

text \<open>\<open>( a b & ) | ( c ; ) < d\<close>\<close>

lemma parsecmd_print_witness:
  "\<exists>c' a. parsecmd (text_of (toks (PIPE (BACK (EXEC [[0x61], [0x62]])) (REDIR (LIST (EXEC [[0x63]]) (EXEC [])) [0x64] O_RDONLY 0)) 3)) = Inr (c', a)
    \<and> map_cmd (\<lambda>(q, e). cstr (drop q a)) c' =
      PIPE (BACK (EXEC [[0x61], [0x62]])) (REDIR (LIST (EXEC [[0x63]]) (EXEC [])) [0x64] O_RDONLY 0)"
  by (rule parsecmd_print [OF _ spells_text_of]) (simp add: word_ok_def wordchar_def whitespace_def symbols_def MAXARGS_def)

end
