(* ===== verification/ShellRunProps.thy ===== *)
theory ShellRunProps imports ShellRun ShellProps Riscv begin

text \<open>
  The processes of a command, run by an abstract system: a table of descriptors in which \<open>open\<close>, \<open>dup\<close> and \<open>pipe\<close> take the lowest free
  descriptors, as \<open>fdalloc\<close> does. \<open>started\<close> says without system calls what a command starts and with which descriptors.
\<close>

section \<open>An abstract system\<close>

datatype object = Given nat | Device u32 | Opened "u8 list" u32 | ReadEnd nat | WriteEnd nat

type_synonym table = "nat \<Rightarrow> object option"

text \<open>A program that is started: its descriptors, its path and its arguments.\<close>

type_synonym launch = "table \<times> u8 list \<times> u8 list list"

definition lowest :: "table \<Rightarrow> nat option" where
  "lowest t = find (\<lambda>fd. t fd = None) [0..<NOFILE]"

definition put_lowest :: "object option \<Rightarrow> table \<Rightarrow> int \<times> table" where
  "put_lowest x t = (case lowest t of None \<Rightarrow> (- 1, t) | Some fd \<Rightarrow> (int fd, t(fd := x)))"

text \<open>
  What the process tree starts, the child of a fork before its parent. \<open>opens\<close> are the files that can be opened, \<open>runs\<close> the programs
  that there are; \<open>n\<close> is the number of the next pipe. The result is \<open>None\<close> when something undefined happens.
\<close>

primrec run :: "(u8 list \<Rightarrow> u32 \<Rightarrow> bool) \<Rightarrow> (u8 list \<Rightarrow> bool) \<Rightarrow> proc_run \<Rightarrow> table \<Rightarrow> nat \<Rightarrow> (launch list \<times> nat) option" where
  "run opens runs (Exit c) t n = Some ([], n)"
| "run opens runs (Exec path argv k) t n = (if runs path then Some ([(t, path, argv)], n) else run opens runs k t n)"
| "run opens runs (Call sc k) t n =
    (case sc of
       Fork \<Rightarrow>
         (case run opens runs (k 0) t n of
            None \<Rightarrow> None
          | Some (xs, n) \<Rightarrow> map_option (\<lambda>(ys, n). (xs @ ys, n)) (run opens runs (k 1) t n))
     | Wait \<Rightarrow> run opens runs (k 1) t n
     | Close fd \<Rightarrow> run opens runs (k 0) (t(nat fd := None)) n
     | Dup fd \<Rightarrow> (case put_lowest (t (nat fd)) t of (r, t) \<Rightarrow> run opens runs (k r) t n)
     | Open path mode \<Rightarrow>
         if opens path mode then (case put_lowest (Some (Opened path mode)) t of (r, t) \<Rightarrow> run opens runs (k r) t n)
         else run opens runs (k (- 1)) t n
     | Dev mode major minor \<Rightarrow> (case put_lowest (Some (Device major)) t of (r, t) \<Rightarrow> run opens runs (k r) t n)
     | Cd path \<Rightarrow> run opens runs (k 0) t n
     | Print fd msg \<Rightarrow> run opens runs (k 0) t n)"
| "run opens runs (MkPipe k) t n =
    (case put_lowest (Some (ReadEnd n)) t of
       (p0, t) \<Rightarrow> case put_lowest (Some (WriteEnd n)) t of (p1, t) \<Rightarrow> run opens runs (k 0 p0 p1) t (Suc n))"
| "run opens runs Undefined t n = None"

section \<open>What a command means\<close>

text \<open>The paths that are tried for a name.\<close>

definition candidates :: "env \<Rightarrow> u8 list \<Rightarrow> u8 list list" where
  "candidates envs name = name # map (\<lambda>e. snd e @ 0x2f # name) envs"

text \<open>Both sides of a pipe get the end of it in place of descriptor 1 or 0, and nothing else of it.\<close>

primrec started :: "(u8 list \<Rightarrow> u32 \<Rightarrow> bool) \<Rightarrow> (u8 list \<Rightarrow> bool) \<Rightarrow> env \<Rightarrow> u8 list cmd \<Rightarrow> table \<Rightarrow> nat \<Rightarrow> launch list \<times> nat" where
  "started opens runs envs (EXEC argv) t n =
    (case argv of [] \<Rightarrow> ([], n)
     | name # _ \<Rightarrow> (case find runs (candidates envs name) of None \<Rightarrow> ([], n) | Some path \<Rightarrow> ([(t, path, argv)], n)))"
| "started opens runs envs (REDIR c path mode fd) t n =
    (if opens path mode then started opens runs envs c (t(fd \<mapsto> Opened path mode)) n else ([], n))"
| "started opens runs envs (PIPE c d) t n =
    (let (xs, m) = started opens runs envs c (t(1 \<mapsto> WriteEnd n)) (Suc n);
         (ys, l) = started opens runs envs d (t(0 \<mapsto> ReadEnd n)) m
     in (xs @ ys, l))"
| "started opens runs envs (LIST c d) t n =
    (let (xs, m) = started opens runs envs c t n; (ys, l) = started opens runs envs d t m in (xs @ ys, l))"
| "started opens runs envs (BACK c) t n = started opens runs envs c t n"

text \<open>
  A command whose names fit the buffer for each directory, and that redirects descriptors 0 and 1 only, as the parser makes them.
\<close>

primrec runnable_cmd :: "env \<Rightarrow> u8 list cmd \<Rightarrow> bool" where
  "runnable_cmd envs (EXEC argv) \<longleftrightarrow>
    list_all (\<lambda>name. list_all (\<lambda>e. length (snd e) + length name < 63) envs) (take 1 argv)"
| "runnable_cmd envs (REDIR c path mode fd) \<longleftrightarrow> fd < 2 \<and> runnable_cmd envs c"
| "runnable_cmd envs (PIPE c d) \<longleftrightarrow> runnable_cmd envs c \<and> runnable_cmd envs d"
| "runnable_cmd envs (LIST c d) \<longleftrightarrow> runnable_cmd envs c \<and> runnable_cmd envs d"
| "runnable_cmd envs (BACK c) \<longleftrightarrow> runnable_cmd envs c"

section \<open>The system calls wire the descriptors up\<close>

text \<open>The three descriptors that the shell makes sure of.\<close>

definition standard :: "table \<Rightarrow> bool" where
  "standard t \<longleftrightarrow> (\<forall>fd. t fd \<noteq> None \<longleftrightarrow> fd < 3)"

lemma standardD: "standard t \<Longrightarrow> t fd = None \<longleftrightarrow> 3 \<le> fd"
  unfolding standard_def by (metis not_less)

lemma standard_upd: "standard t \<Longrightarrow> fd < 3 \<Longrightarrow> standard (t(fd \<mapsto> x))"
  by (simp add: standard_def)

lemma upt_NOFILE: "[0..<NOFILE] = 0 # 1 # 2 # 3 # 4 # [5..<16]"
  by (simp add: NOFILE_def upt_rec)

lemma put_lowest_closed:
  assumes "standard t" and "fd < 2"
  shows "put_lowest x (t(fd := None)) = (int fd, t(fd := x))"
  using assms standardD [OF assms(1), of 0] by (cases "fd = 0") (auto simp: put_lowest_def lowest_def upt_NOFILE)

lemma put_lowest_pipe:
  assumes "standard t"
  shows "put_lowest (Some a) t = (3, t(3 \<mapsto> a))" and "put_lowest (Some b) (t(3 \<mapsto> a)) = (4, t(3 \<mapsto> a, 4 \<mapsto> b))"
  using standardD [OF assms] by (simp_all add: put_lowest_def lowest_def upt_NOFILE)

text \<open>Beside a pipe in 3 and 4: what \<open>close\<close>, \<open>dup\<close>, \<open>close\<close>, \<open>close\<close> leave of the table.\<close>

lemma pipe_side:
  assumes "standard t" and "fd < 2"
  shows "put_lowest x (t(3 \<mapsto> a, 4 \<mapsto> b, fd := None)) = (int fd, t(3 \<mapsto> a, 4 \<mapsto> b, fd := x))"
    and "(t(3 \<mapsto> a, 4 \<mapsto> b, fd := x))(3 := None, 4 := None) = t(fd := x)"
proof -
  show "put_lowest x (t(3 \<mapsto> a, 4 \<mapsto> b, fd := None)) = (int fd, t(3 \<mapsto> a, 4 \<mapsto> b, fd := x))"
    using assms standardD [OF assms(1), of 0] by (cases "fd = 0") (auto simp: put_lowest_def lowest_def upt_NOFILE)
  show "(t(3 \<mapsto> a, 4 \<mapsto> b, fd := x))(3 := None, 4 := None) = t(fd := x)"
    using assms(2) standardD [OF assms(1), of 3] standardD [OF assms(1), of 4] by (auto simp: fun_eq_iff)
qed

lemma run_exec_dirs:
  assumes "list_all (\<lambda>e. length (snd e) + length (hd argv) < 63) es"
  shows "run opens runs (exec_dirs es argv k) t n =
    (case find runs (map (\<lambda>e. snd e @ 0x2f # hd argv) es) of
       None \<Rightarrow> run opens runs k t n | Some path \<Rightarrow> Some ([(t, path, argv)], n))"
  using assms by (induction es) (simp_all add: Let_def)

lemma run_EXEC:
  assumes "runnable_cmd envs (EXEC argv)"
  shows "run opens runs (runcmd envs (EXEC argv)) t n = Some (started opens runs envs (EXEC argv) t n)"
  using assms by (cases argv) (simp_all add: run_exec_dirs candidates_def split: option.split)

lemma run_PIPE:
  assumes "standard t"
    and c: "\<And>t n. standard t \<Longrightarrow> run opens runs (runcmd envs c) t n = Some (started opens runs envs c t n)"
    and d: "\<And>t n. standard t \<Longrightarrow> run opens runs (runcmd envs d) t n = Some (started opens runs envs d t n)"
  shows "run opens runs (runcmd envs (PIPE c d)) t n = Some (started opens runs envs (PIPE c d) t n)"
proof -
  have "run opens runs (runcmd envs c) (t(1 \<mapsto> WriteEnd n)) (Suc n) = Some (started opens runs envs c (t(1 \<mapsto> WriteEnd n)) (Suc n))"
    by (rule c) (simp add: standard_upd assms(1))
  moreover have "run opens runs (runcmd envs d) (t(0 \<mapsto> ReadEnd n)) m = Some (started opens runs envs d (t(0 \<mapsto> ReadEnd n)) m)" for m
    by (rule d) (simp add: standard_upd assms(1))
  moreover note pipe_side [OF assms(1), where fd = 1 and x = "Some (WriteEnd n)" and a = "ReadEnd n" and b = "WriteEnd n"]
    pipe_side [OF assms(1), where fd = 0 and x = "Some (ReadEnd n)" and a = "ReadEnd n" and b = "WriteEnd n"]
  ultimately show ?thesis
    by (simp add: fork1_def put_lowest_pipe [OF assms(1)] Let_def split: prod.split)
qed

text \<open>
  When descriptors 0, 1 and 2 are open and no others, the process tree of a command starts exactly the programs of the command, each with its
  arguments and with the descriptors that the redirections and pipes around it ask for: no end of a pipe is left open in a process that does not use
  it, and the first of the candidate paths that exists is run. A redirection to a file that cannot be opened starts nothing.
\<close>

lemma run_started:
  "runnable_cmd envs c \<Longrightarrow> standard t \<Longrightarrow> run opens runs (runcmd envs c) t n = Some (started opens runs envs c t n)"
proof (induction c arbitrary: t n)
  case (EXEC argv)
  then show ?case using run_EXEC by blast
next
  case (REDIR c path mode fd)
  then show ?case by (simp add: put_lowest_closed standard_upd)
next
  case (PIPE c d)
  then show ?case by (intro run_PIPE) simp_all
next
  case (LIST c d)
  then show ?case by (simp add: fork1_def split: prod.splits)
next
  case (BACK c)
  then show ?case by (simp add: fork1_def split: prod.split)
qed

section \<open>Variables\<close>

text \<open>The value that \<open>export\<close> keeps.\<close>

definition kept :: "u8 list \<Rightarrow> u8 list" where
  "kept val = (if last val = 0x2f then butlast val else val)"

text \<open>A name that \<open>export\<close> takes, other than the empty one.\<close>

definition env_name :: "u8 list \<Rightarrow> bool" where
  "env_name name \<longleftrightarrow> name \<noteq> [] \<and> letter (hd name) \<and> list_all namechar name \<and> length name < 32"

lemma letter_namechar: "letter c \<Longrightarrow> namechar c" by (simp add: namechar_def)

lemma checkenvname_iff:
  "name \<noteq> [] \<Longrightarrow> checkenvname name = length name \<longleftrightarrow> letter (hd name) \<and> list_all namechar name"
proof (cases name)
  case (Cons c cs)
  have "length (takeWhile namechar cs) = length cs \<longleftrightarrow> list_all namechar cs"
    by (metis list_all_iff order_refl takeWhile_eq_all_conv takeWhile_eq_take take_all_iff)
  then show ?thesis using Cons by (auto simp: checkenvname_def letter_namechar)
qed simp

lemma sh_export_ok:
  assumes "sh_export envs (name @ 0x3d # val) = Inr (0, envs')" and "0x3d \<notin> set name" and "name \<noteq> []"
  shows "env_name name" and "envs' = envs @ [(name, kept val)]"
proof -
  have tw: "takeWhile (\<lambda>c. c \<noteq> 0x3d) (name @ 0x3d # val) = name"
    using assms(2) by (subst takeWhile_append2) auto
  have np: "name @ 0x3d # val \<noteq> [0x2d, 0x70]"
    using assms(2,3) by (cases name; cases "tl name") auto
  have "checkenvname name = length name \<and> length name < 32 \<and> envs' = envs @ [(name, kept val)]"
    using assms(1) np unfolding sh_export_def
    by (auto simp: tw Let_def kept_def split: if_splits)
  then show "env_name name" and "envs' = envs @ [(name, kept val)]"
    using assms(3) by (auto simp: checkenvname_iff env_name_def)
qed

lemma replace_plain:
  "0x24 \<notin> set pre \<Longrightarrow> replace_loop envs (pre @ s) = kbind (replace_loop envs s) (\<lambda>(r, n). Inr (pre @ r, n))"
proof (induction pre)
  case Nil
  then show ?case by (cases "replace_loop envs s") auto
next
  case (Cons c pre)
  then show ?case by (cases "replace_loop envs s") (auto simp: replace_loop.simps [of envs "c # _"])
qed

lemma replace_name:
  assumes "env_name name" and "post = [] \<or> \<not> namechar (hd post)"
  shows "replace_loop envs (0x24 # name @ post) =
    kbind (replace_loop envs post) (\<lambda>(r, n). Inr (concat (map snd (filter (\<lambda>e. fst e = name) envs)) @ r, Suc n))"
proof -
  have n: "list_all namechar name" using assms(1) by (simp add: env_name_def)
  then have "takeWhile namechar (name @ post) = name"
    using assms(2) by (cases post) (auto simp: takeWhile_append list_all_iff)
  then show ?thesis
    using assms(1) by (auto simp: replace_loop.simps [of envs "0x24 # _"] env_name_def Let_def)
qed

text \<open>
  After \<open>export NAME=VALUE\<close> has succeeded for a name that had no value yet, \<open>$NAME\<close> in a line is replaced by the value, less a
  slash at its end, up to the first character that cannot be in a name; the text around it stays as it is.
\<close>

theorem export_replace:
  assumes "sh_export envs (name @ 0x3d # val) = Inr (0, envs')" and "0x3d \<notin> set name" and "name \<noteq> []"
    and "name \<notin> fst ` set envs" and "0x24 \<notin> set pre" and "0x24 \<notin> set post"
    and "post = [] \<or> \<not> namechar (hd post)" and "length (pre @ kept val @ post) < 100"
  shows "replace envs' (pre @ 0x24 # name @ post) = Inr (pre @ kept val @ post, 1)"
proof -
  note e = sh_export_ok [OF assms(1-3)]
  have "filter (\<lambda>e. fst e = name) envs = []" using assms(4) by (auto simp: filter_empty_conv)
  moreover have "replace_loop envs' post = Inr (post, 0)"
    using replace_plain [OF assms(6), of envs' "[]"] by (simp add: replace_loop.simps [of envs' "[]"])
  ultimately have "replace_loop envs' (pre @ 0x24 # name @ post) = Inr (pre @ kept val @ post, 1)"
    by (simp add: replace_plain [OF assms(5)] replace_name [OF e(1) assms(7)] e(2))
  then show ?thesis using assms(8) by (simp add: replace_def)
qed

lemma export_replace_witness:
  "replace [([0x50], [0x2f, 0x62])] [0x6c, 0x73, 0x20, 0x24, 0x50, 0x2f, 0x78] = Inr ([0x6c, 0x73, 0x20, 0x2f, 0x62, 0x2f, 0x78], 1)"
proof -
  have "sh_export [] ([0x50] @ 0x3d # [0x2f, 0x62, 0x2f]) = Inr (0, [([0x50], [0x2f, 0x62])])"
    by (simp add: sh_export_def NENVS_def checkenvname_def letter_def)
  from export_replace [OF this, of "[0x6c, 0x73, 0x20]" "[0x2f, 0x78]"] show ?thesis
    by (simp add: kept_def namechar_def letter_def)
qed

section \<open>A session\<close>

text \<open>The table after the first loop of the shell, which opens the console where a descriptor below 3 is free.\<close>

definition filled :: "table \<Rightarrow> table" where
  "filled t fd = (if fd < 3 \<and> t fd = None then Some (Device 1) else t fd)"

lemma ensure_fds_step:
  "run opens runs (ensure_fds (Suc m) k) t n =
    (case lowest t of
       None \<Rightarrow> run opens runs k t n
     | Some fd \<Rightarrow> if fd \<ge> 3 then run opens runs k (t(fd := None)) n else run opens runs (ensure_fds m k) (t(fd \<mapsto> Device 1)) n)"
  by (auto simp: put_lowest_def split: option.split)

lemma ensure_fds_run:
  assumes "\<And>fd. 3 \<le> fd \<Longrightarrow> t fd = None"
  shows "run opens runs (ensure_fds 4 k) t n = run opens runs k (filled t) n" and "standard (filled t)"
proof -
  have "filled t fd \<noteq> None \<longleftrightarrow> fd < 3" for fd using assms [of fd] by (cases "fd < 3") (auto simp: filled_def)
  then show "standard (filled t)" by (simp only: standard_def simp_thms)
  have low: "lowest u = (if u 0 = None then Some 0 else if u 1 = None then Some 1 else if u 2 = None then Some 2 else Some 3)"
    if "u 3 = None" for u
    using that by (simp add: lowest_def upt_NOFILE)
  have t3: "t 3 = None" by (rule assms) simp
  have close: "u(3 := None) = u" if "u 3 = None" for u :: table using that by (simp add: fun_upd_idem)
  have fill: "filled t = t(0 := filled t 0, 1 := filled t 1, 2 := filled t 2)"
  proof
    fix fd :: nat
    have "fd < 3 \<Longrightarrow> fd = 0 \<or> fd = 1 \<or> fd = 2" by auto
    then show "filled t fd = (t(0 := filled t 0, 1 := filled t 1, 2 := filled t 2)) fd" by (auto simp: filled_def)
  qed
  have here: "filled t fd = (if t fd = None then Some (Device 1) else t fd)" if "fd < 3" for fd
    using that by (simp add: filled_def)
  have "ensure_fds 4 k = ensure_fds (Suc (Suc (Suc (Suc 0)))) k" by (simp add: numeral_eq_Suc)
  then have "run opens runs (ensure_fds 4 k) t n = run opens runs k (t(0 := filled t 0, 1 := filled t 1, 2 := filled t 2)) n"
    by (simp only:) (cases "t 0"; cases "t 1"; cases "t 2";
      simp add: ensure_fds_step low t3 close here fun_upd_idem del: ensure_fds.simps)
  then show "run opens runs (ensure_fds 4 k) t n = run opens runs k (filled t) n" by (simp only: fill [symmetric])
qed

text \<open>
  A line as a user types it for a command: the tokens with whitespace between them, up to 99 characters with the newline at the end, nothing that
  \<open>replace\<close> or the built-in commands react to.
\<close>

definition typed :: "env \<Rightarrow> u8 list cmd \<Rightarrow> u8 list \<Rightarrow> bool" where
  "typed envs c line \<longleftrightarrow>
    wf_cmd c \<and> spells (toks c 3) line \<and> runnable_cmd envs c \<and> line \<noteq> [] \<and> length line < 100 \<and>
    last line = 10 \<and> 10 \<notin> set (butlast line) \<and> 13 \<notin> set line \<and> 0x24 \<notin> set line \<and>
    take 3 line \<noteq> [0x63, 0x64, 0x20] \<and> (\<forall>ws. c \<noteq> EXEC ([0x65, 0x78, 0x70, 0x6f, 0x72, 0x74] # ws))"

text \<open>What a list of commands starts, one after the other.\<close>

primrec session :: "(u8 list \<Rightarrow> u32 \<Rightarrow> bool) \<Rightarrow> (u8 list \<Rightarrow> bool) \<Rightarrow> env \<Rightarrow> u8 list cmd list \<Rightarrow> table \<Rightarrow> nat \<Rightarrow> launch list \<times> nat" where
  "session opens runs envs [] t n = ([], n)"
| "session opens runs envs (c # cs) t n =
    (let (xs, m) = started opens runs envs c t n; (ys, l) = session opens runs envs cs t m in (xs @ ys, l))"

lemma gets_line:
  assumes "10 \<notin> set pre" and "13 \<notin> set pre" and "length pre < room"
  shows "gets_loop room (pre @ 10 # rest) = (pre @ [10], rest)"
  using assms
proof (induction pre arbitrary: room)
  case Nil
  then show ?case by (cases room) simp_all
next
  case (Cons c pre)
  then show ?case by (cases room) auto
qed

lemma spells_not_nil: "spells ts s \<Longrightarrow> ts \<noteq> [] \<Longrightarrow> s \<noteq> []"
  by (cases ts) (auto simp: spells.simps(2))

lemma typed_line:
  assumes "typed envs c line"
  shows "getcmd (line @ rest) = Some (line, rest)" and "sh_turn envs line = Inr (Start c)" and "runnable_cmd envs c"
proof -
  have t: "wf_cmd c" "spells (toks c 3) line" "length line < 100" "last line = 10" "10 \<notin> set (butlast line)" "13 \<notin> set line"
    "0x24 \<notin> set line" "take 3 line \<noteq> [0x63, 0x64, 0x20]" "\<forall>ws. c \<noteq> EXEC ([0x65, 0x78, 0x70, 0x6f, 0x72, 0x74] # ws)"
    using assms by (simp_all add: typed_def)
  show "runnable_cmd envs c" using assms by (simp add: typed_def)
  have nul: "0 \<notin> set line" by (rule spells_no_nul [OF t(2) toks_ok [OF t(1)]])
  have ne: "line \<noteq> []" using assms by (simp add: typed_def)
  then have "butlast line @ [last line] = line" by (rule append_butlast_last_id)
  then have l: "butlast line @ [10] = line" by (simp only: t(4))
  have "gets_loop 99 (butlast line @ 10 # rest) = (butlast line @ [10], rest)"
    using t(3,5,6) by (intro gets_line) (auto dest: in_set_butlastD)
  moreover have "butlast line @ 10 # rest = line @ rest" by (subst (2) l [symmetric]) simp
  ultimately have "gets 100 (line @ rest) = (line, rest)" using l by (simp add: gets_def)
  moreover have "cstr line = line" using nul unfolding cstr_def takeWhile_eq_all_conv by metis
  ultimately show "getcmd (line @ rest) = Some (line, rest)" using ne by (simp add: getcmd_def)
  have "replace_loop envs line = Inr (line, 0)"
    using replace_plain [OF t(7), of envs "[]"] by (simp add: replace_loop.simps [of envs "[]"])
  then have r: "replace envs line = Inr (line, 0)" using t(3) by (simp add: replace_def)
  obtain c' a where p: "parsecmd line = Inr (c', a)" "map_cmd (\<lambda>(q, e). cstr (drop q a)) c' = c"
    using parse_spelled [OF t(1,2)] by blast
  have "c \<noteq> EXEC []" using t(2) ne by auto
  then show "sh_turn envs line = Inr (Start c)"
    using r p t(8,9) by (auto simp: sh_turn_def split: cmd.splits list.splits)
qed

lemma run_lines:
  "list_all2 (typed envs) cs lines \<Longrightarrow> standard t \<Longrightarrow> run opens runs (sh_loop envs (concat lines)) t n = Some (session opens runs envs cs t n)"
proof (induction cs lines arbitrary: n rule: list_all2_induct)
  case Nil
  then show ?case by (simp add: sh_loop.simps [of envs "[]"] getcmd_def gets_def cstr_def)
next
  case (Cons c cs line lines)
  note l = typed_line [OF Cons.hyps(1)]
  have "run opens runs (sh_loop envs (concat (line # lines))) t n =
      run opens runs (fork1 (\<lambda>pid. if pid = 0 then runcmd envs c else Call Wait (\<lambda>_. sh_loop envs (concat lines)))) t n"
    using l(1) [of "concat lines"] l(2) by (simp add: sh_loop.simps [of envs "line @ _"])
  then show ?case using run_started [OF l(3) Cons.prems] Cons.IH [OF Cons.prems] by (simp add: fork1_def split: prod.split)
qed

text \<open>
  C9: A session of the shell: for every list of commands typed on lines, \<open>main\<close>, started with any of the descriptors below 3 open, reads the lines, parses them and
  starts exactly the programs of the commands, in order, with their arguments and with the console, files and pipe ends on the descriptors that the
  commands ask for, and then ends.
\<close>

theorem shell_session:
  assumes "list_all2 (typed [(map of_char ''SHELL'', map of_char ''/bin'')]) cs lines" and "\<And>fd. 3 \<le> fd \<Longrightarrow> t fd = None"
  shows "run opens runs (sh_main (concat lines)) t n =
    Some (session opens runs [(map of_char ''SHELL'', map of_char ''/bin'')] cs (filled t) n)"
  using run_lines [OF assms(1)] ensure_fds_run [of t, OF assms(2)] by (simp add: sh_main_def del: list.map)

text \<open>\<open>ls\<close> and \<open>a|b >f\<close>.\<close>

lemma shell_session_witness:
  "run (\<lambda>_ _. True) (\<lambda>p. take 1 p = [0x2f]) (sh_main [0x6c, 0x73, 10, 0x61, 0x20, 0x7c, 0x20, 0x62, 0x20, 0x3e, 9, 0x66, 10]) (\<lambda>_. None) 0 =
   Some ([(filled (\<lambda>_. None), [0x2f, 0x62, 0x69, 0x6e, 0x2f, 0x6c, 0x73], [[0x6c, 0x73]]),
          ((filled (\<lambda>_. None))(1 \<mapsto> WriteEnd 0), [0x2f, 0x62, 0x69, 0x6e, 0x2f, 0x61], [[0x61]]),
          ((filled (\<lambda>_. None))(0 \<mapsto> ReadEnd 0, 1 \<mapsto> Opened [0x66] (O_WRONLY OR O_CREATE OR O_TRUNC)), [0x2f, 0x62, 0x69, 0x6e, 0x2f, 0x62], [[0x62]])], 1)"
proof -
  let ?envs = "[(map of_char ''SHELL'', map of_char ''/bin'')] :: env"
  let ?d = "PIPE (EXEC [[0x61]]) (REDIR (EXEC [[0x62]]) [0x66] (O_WRONLY OR O_CREATE OR O_TRUNC) 1)"
  have w: "word_ok [0x6c, 0x73]" "word_ok [0x61]" "word_ok [0x62]" "word_ok [0x66]"
    by (simp_all add: word_ok_def wordchar_def whitespace_def symbols_def)
  have "spells [Word [0x6c, 0x73]] [0x6c, 0x73, 10]" by (simp add: spells.simps(2) whitespace_def)
  then have "typed ?envs (EXEC [[0x6c, 0x73]]) [0x6c, 0x73, 10]" using w by (simp add: typed_def MAXARGS_def)
  moreover have "spells (toks ?d 3) [0x61, 0x20, 0x7c, 0x20, 0x62, 0x20, 0x3e, 9, 0x66, 10]"
  proof -
    have s: "spells ts s \<Longrightarrow> g \<in> set whitespace \<Longrightarrow> spells (t # ts) (tok_text t @ g # s)" for t ts s and g :: u8
      by (simp add: spells.simps(2) exI [of _ "[g]"])
    have "spells [Word [0x66]] [0x66, 10]" by (simp add: spells.simps(2) whitespace_def)
    then have "spells (Sym 0x3e # [Word [0x66]]) (tok_text (Sym 0x3e) @ 9 # [0x66, 10])" by (rule s) (simp add: whitespace_def)
    then have "spells (Word [0x62] # [Sym 0x3e, Word [0x66]]) (tok_text (Word [0x62]) @ 0x20 # [0x3e, 9, 0x66, 10])"
      by (intro s) (simp_all add: whitespace_def)
    then have "spells (Sym 0x7c # [Word [0x62], Sym 0x3e, Word [0x66]]) (tok_text (Sym 0x7c) @ 0x20 # [0x62, 0x20, 0x3e, 9, 0x66, 10])"
      by (intro s) (simp_all add: whitespace_def)
    then have "spells (Word [0x61] # [Sym 0x7c, Word [0x62], Sym 0x3e, Word [0x66]])
        (tok_text (Word [0x61]) @ 0x20 # [0x7c, 0x20, 0x62, 0x20, 0x3e, 9, 0x66, 10])"
      by (intro s) (simp_all add: whitespace_def)
    then show ?thesis by (simp add: paren_def redir_toks_def modes)
  qed
  then have "typed ?envs ?d [0x61, 0x20, 0x7c, 0x20, 0x62, 0x20, 0x3e, 9, 0x66, 10]" using w by (simp add: typed_def MAXARGS_def)
  ultimately have "list_all2 (typed ?envs) [EXEC [[0x6c, 0x73]], ?d] [[0x6c, 0x73, 10], [0x61, 0x20, 0x7c, 0x20, 0x62, 0x20, 0x3e, 9, 0x66, 10]]"
    by simp
  from shell_session [OF this, of "\<lambda>_. None" "\<lambda>_ _. True" "\<lambda>p. take 1 p = [0x2f]" 0] show ?thesis
    by (simp add: candidates_def Let_def)
qed

end
