(* ===== verification/Umalloc.thy ===== *)
theory Umalloc imports Prelude "HOL-Library.While_Combinator" "HOL-Library.Disjoint_Sets" begin

text \<open>
  user/umalloc.c: the allocator of user programs, a ring of free blocks in the order of their addresses. A pointer to a \<open>Header\<close> is
  the number of its 16-byte unit, 0 the null pointer; a block is named by its header, and its size counts units, the header included.
\<close>

section \<open>State and operations\<close>

text \<open>
  \<open>hptr\<close> and \<open>hsize\<close> are the fields of the headers, \<open>base_at\<close> is where \<open>base\<close> lies. The end of the process, \<open>brk\<close>, is in bytes, and
  \<open>limit\<close> is the size from which on the kernel has no more memory for the process.
\<close>

record uheap =
  hptr :: "nat \<Rightarrow> nat"
  hsize :: "nat \<Rightarrow> u32"
  base_at :: nat
  freep :: nat
  brk :: nat
  limit :: nat

definition set_ptr :: "nat \<Rightarrow> nat \<Rightarrow> uheap \<Rightarrow> uheap" where
  "set_ptr p q s = s\<lparr>hptr := (hptr s)(p := q)\<rparr>"

definition set_size :: "nat \<Rightarrow> u32 \<Rightarrow> uheap \<Rightarrow> uheap" where
  "set_size p n s = s\<lparr>hsize := (hsize s)(p := n)\<rparr>"

definition units :: "uheap \<Rightarrow> nat \<Rightarrow> nat" where
  "units s p = unat (hsize s p)"

text \<open>
  \<open>sbrk\<close>, as the process sees it: the old end, or \<open>None\<close> for -1. The argument is an \<open>int\<close>. A decrease by more than the process has makes the unsigned
  sum of \<open>growproc\<close> wrap around to a larger size, for which \<open>uvmdealloc\<close> frees nothing: the size stays, and the call succeeds.
\<close>

definition sbrk :: "u32 \<Rightarrow> uheap \<Rightarrow> nat option \<times> uheap" where
  "sbrk n s =
    (let new = int (brk s) + sint n in
     if 0 < sint n then if new \<le> int (limit s) then (Some (brk s), s\<lparr>brk := nat new\<rparr>) else (None, s)
     else if 0 \<le> new then (Some (brk s), s\<lparr>brk := nat new\<rparr>) else (Some (brk s), s))"

text \<open>The place in the ring where the loop of \<open>free\<close> stops.\<close>

definition spot :: "nat \<Rightarrow> uheap \<Rightarrow> nat \<Rightarrow> bool" where
  "spot bp s p \<longleftrightarrow> p < bp \<and> bp < hptr s p \<or> hptr s p \<le> p \<and> (p < bp \<or> bp < hptr s p)"

definition join_right :: "nat \<Rightarrow> nat \<Rightarrow> uheap \<Rightarrow> uheap" where
  "join_right bp p s =
    (let q = hptr s p in
     if bp + units s bp = q then set_ptr bp (hptr s q) (set_size bp (hsize s bp + hsize s q) s) else set_ptr bp q s)"

definition join_left :: "nat \<Rightarrow> nat \<Rightarrow> uheap \<Rightarrow> uheap" where
  "join_left bp p s =
    (if p + units s p = bp then set_ptr p (hptr s bp) (set_size p (hsize s p + hsize s bp) s) else set_ptr p bp s)"

text \<open>\<open>None\<close>: the search does not end, or \<open>freep\<close> is null.\<close>

definition free :: "nat \<Rightarrow> uheap \<Rightarrow> uheap option" where
  "free ap s =
    (let bp = ap - 1 in
     if freep s = 0 then None
     else
       case while_option (\<lambda>p. \<not> spot bp s p) (hptr s) (freep s) of
         None \<Rightarrow> None
       | Some p \<Rightarrow> Some ((join_left bp p (join_right bp p s))\<lparr>freep := p\<rparr>))"

text \<open>The product of \<open>morecore\<close> has 64 bits, the argument of \<open>sbrk\<close> 32.\<close>

definition morecore :: "u32 \<Rightarrow> uheap \<Rightarrow> (nat \<times> uheap) option" where
  "morecore nu s =
    (let nu = (if nu < 4096 then 4096 else nu) in
     case sbrk (ucast (ucast nu * 16 :: u64)) s of
       (None, s) \<Rightarrow> Some (0, s)
     | (Some p, s) \<Rightarrow>
         let hp = p div 16 in
         map_option (\<lambda>s. (freep s, s)) (free (hp + 1) (set_size hp nu s)))"

definition take_block :: "u32 \<Rightarrow> nat \<Rightarrow> nat \<Rightarrow> uheap \<Rightarrow> nat \<times> uheap" where
  "take_block nunits prevp p s =
    (if hsize s p = nunits then (p + 1, set_ptr prevp (hptr s p) s\<lparr>freep := prevp\<rparr>)
     else
       let n = hsize s p - nunits; q = p + unat n in
       (q + 1, (set_size q nunits (set_size p n s))\<lparr>freep := prevp\<rparr>))"

partial_function (option) malloc_loop :: "u32 \<Rightarrow> nat \<Rightarrow> nat \<Rightarrow> uheap \<Rightarrow> (nat \<times> uheap) option" where
  "malloc_loop nunits prevp p s =
    (if hsize s p \<ge> nunits then Some (take_block nunits prevp p s)
     else if p = freep s then
       Option.bind (morecore nunits s) (\<lambda>(p, s). if p = 0 then Some (0, s) else malloc_loop nunits p (hptr s p) s)
     else malloc_loop nunits p (hptr s p) s)"

definition units_for :: "u32 \<Rightarrow> u32" where
  "units_for nbytes = ucast ((ucast nbytes + 16 - 1) div 16 + 1 :: u64)"

definition malloc :: "u32 \<Rightarrow> uheap \<Rightarrow> (nat \<times> uheap) option" where
  "malloc nbytes s =
    (let b = base_at s;
         s = (if freep s = 0 then set_size b 0 (set_ptr b b (s\<lparr>freep := b\<rparr>)) else s)
     in malloc_loop (units_for nbytes) (freep s) (hptr s (freep s)) s)"

section \<open>Rings\<close>

text \<open>Nodes that are linked in the order of the list, the last to the first.\<close>

definition ring :: "(nat \<Rightarrow> nat) \<Rightarrow> nat list \<Rightarrow> bool" where
  "ring h ns \<longleftrightarrow> map h ns = rotate1 ns"

text \<open>The way from a node along a list of nodes.\<close>

primrec path :: "(nat \<Rightarrow> nat) \<Rightarrow> nat \<Rightarrow> nat list \<Rightarrow> bool" where
  "path h p [] \<longleftrightarrow> True"
| "path h p (q # qs) \<longleftrightarrow> h p = q \<and> path h q qs"

lemma path_append: "path h p (xs @ q # ys) \<longleftrightarrow> path h p (xs @ [q]) \<and> path h q ys"
  by (induction xs arbitrary: p) auto

lemma path_map: "path h p (xs @ [q]) \<longleftrightarrow> map h (p # xs) = xs @ [q]"
  by (induction xs arbitrary: p) auto

lemma ring_path: "ring h (p # ps) \<longleftrightarrow> path h p (ps @ [p])"
  by (simp add: ring_def path_map)

text \<open>A ring can be read from any of its nodes.\<close>

lemma ring_around:
  assumes "ring h (xs @ p # ys)"
  shows "ring h (p # ys @ xs)"
proof (cases xs)
  case Nil
  then show ?thesis using assms by simp
next
  case (Cons x xs')
  have "path h x (xs' @ p # ys @ [x])" using assms Cons by (simp add: ring_path)
  then have "path h x (xs' @ [p])" and "path h p (ys @ [x])" using path_append [of h x xs' p "ys @ [x]"] by simp_all
  then have "path h p (ys @ x # xs' @ [p])" using path_append [of h p ys x "xs' @ [p]"] by simp
  then show ?thesis using Cons by (simp add: ring_path)
qed

lemma ring_rotate: "ring h (xs @ p # ys) \<longleftrightarrow> ring h (p # ys @ xs)"
proof
  assume r: "ring h (p # ys @ xs)"
  show "ring h (xs @ p # ys)"
  proof (cases xs)
    case (Cons x xs')
    then have "ring h ((p # ys) @ x # xs')" using r by simp
    from ring_around [OF this] show ?thesis using Cons by simp
  qed (use r in simp)
qed (rule ring_around)

lemma path_upd: "x \<notin> set (butlast (p # qs)) \<Longrightarrow> path (h(x := y)) p qs = path h p qs"
  by (induction qs arbitrary: p) (auto split: if_splits)

text \<open>A node put in behind another, and a node taken out.\<close>

lemma ring_insert:
  assumes "ring h (xs @ p # ys)" and "p \<notin> set (ys @ xs)" and "b \<notin> set (xs @ p # ys)"
  shows "ring (h(b := h p, p := b)) (xs @ p # b # ys)"
proof -
  have "path h p ((ys @ xs) @ [p])" using assms(1) by (simp add: ring_rotate ring_path)
  moreover have "b \<notin> set (p # ys @ xs)" using assms(3) by auto
  ultimately have "path (h(b := h p, p := b)) p (b # (ys @ xs) @ [p])"
    using assms(2) by (cases "ys @ xs") (auto simp: path_upd butlast_append simp del: set_append append_assoc)
  then show ?thesis by (simp add: ring_rotate ring_path)
qed

lemma ring_delete:
  assumes "ring h (xs @ p # q # ys)" and "p \<notin> set (q # ys @ xs)"
  shows "ring (h(p := h q)) (xs @ p # ys)"
proof -
  have "path h p (q # (ys @ xs) @ [p])" using assms(1) by (simp add: ring_rotate ring_path)
  then have "path (h(p := h q)) p ((ys @ xs) @ [p])"
    using assms(2) by (cases "ys @ xs") (auto simp: path_upd butlast_append simp del: set_append append_assoc)
  then show ?thesis by (simp add: ring_rotate ring_path)
qed

lemma ring_next: "ring h (xs @ p # q # ys) \<Longrightarrow> h p = q"
  by (simp add: ring_rotate ring_path)

lemma ring_outside: "b \<notin> set ns \<Longrightarrow> ring (h(b := x)) ns = ring h ns"
proof -
  assume "b \<notin> set ns"
  then have "map (h(b := x)) ns = map h ns" by auto
  then show ?thesis by (simp only: ring_def)
qed

section \<open>The invariant\<close>

definition cells :: "uheap \<Rightarrow> nat \<Rightarrow> nat set" where
  "cells s p = {p..<p + units s p}"

text \<open>
  \<open>ns\<close> is the ring: \<open>base\<close>, which is no block, and the free blocks in the order of their addresses. \<open>A\<close> are the blocks that the program
  has, and \<open>U\<close> the units that \<open>sbrk\<close> has given: the blocks do not overlap and cover \<open>U\<close> between them, so no unit is lost.
\<close>

definition before :: "uheap \<Rightarrow> nat \<Rightarrow> nat \<Rightarrow> bool" where
  "before s p q \<longleftrightarrow> p < q \<and> p + units s p \<le> q"

definition blocks :: "nat list \<Rightarrow> nat set \<Rightarrow> uheap \<Rightarrow> nat set" where
  "blocks ns A s = set ns - {base_at s} \<union> A"

definition heap_ok :: "nat list \<Rightarrow> nat set \<Rightarrow> nat set \<Rightarrow> uheap \<Rightarrow> bool" where
  "heap_ok ns A U s \<longleftrightarrow>
    0 < base_at s \<and> units s (base_at s) = 0 \<and> base_at s \<in> set ns \<and> ring (hptr s) ns \<and> sorted_wrt (before s) ns \<and>
    freep s \<in> set ns \<and> (\<forall>p\<in>blocks ns A s. 0 < units s p \<and> base_at s < p) \<and> set ns \<inter> A = {} \<and>
    disjoint_family_on (cells s) (blocks ns A s) \<and> \<Union> (cells s ` blocks ns A s) = U \<and>
    U \<subseteq> {..<brk s div 16} \<and> base_at s < brk s div 16 \<and> 16 dvd brk s \<and> brk s \<le> limit s \<and> limit s < 2 ^ 31"

text \<open>No two free blocks lie side by side.\<close>

definition coalesced :: "nat list \<Rightarrow> uheap \<Rightarrow> bool" where
  "coalesced ns s \<longleftrightarrow> sorted_wrt (\<lambda>p q. p + units s p < q) ns"

lemma set_simps [simp]:
  "hptr (set_ptr p q s) = (hptr s)(p := q)" "hsize (set_ptr p q s) = hsize s" "base_at (set_ptr p q s) = base_at s"
  "freep (set_ptr p q s) = freep s" "brk (set_ptr p q s) = brk s" "limit (set_ptr p q s) = limit s"
  "hptr (set_size p n s) = hptr s" "hsize (set_size p n s) = (hsize s)(p := n)" "base_at (set_size p n s) = base_at s"
  "freep (set_size p n s) = freep s" "brk (set_size p n s) = brk s" "limit (set_size p n s) = limit s"
  by (simp_all add: set_ptr_def set_size_def)

lemma units_simps [simp]:
  "units (set_ptr p q s) = units s" "units (set_size p n s) = (units s)(p := unat n)" "units (s\<lparr>freep := p\<rparr>) = units s"
  "cells (set_ptr p q s) = cells s" "cells (s\<lparr>freep := p\<rparr>) = cells s"
  "cells (set_size p n s) = (cells s)(p := {p..<p + unat n})"
  "before (set_ptr p q s) = before s" "before (s\<lparr>freep := p\<rparr>) = before s"
  "blocks ns A (set_ptr p q s) = blocks ns A s" "blocks ns A (set_size p n s) = blocks ns A s"
  "blocks ns A (s\<lparr>freep := p\<rparr>) = blocks ns A s"
  by (auto simp: units_def cells_def before_def blocks_def fun_eq_iff)

lemma heap_okD:
  assumes "heap_ok ns A U s"
  shows "0 < base_at s" and "units s (base_at s) = 0" and "ring (hptr s) ns" and "sorted_wrt (before s) ns"
    and "freep s \<in> set ns" and "\<And>p. p \<in> blocks ns A s \<Longrightarrow> 0 < units s p \<and> base_at s < p" and "set ns \<inter> A = {}"
    and "disjoint_family_on (cells s) (blocks ns A s)" and "\<Union> (cells s ` blocks ns A s) = U"
    and "U \<subseteq> {..<brk s div 16}" and "base_at s < brk s div 16" and "16 dvd brk s" and "brk s \<le> limit s" and "limit s < 2 ^ 31"
    and "base_at s \<in> set ns"
  using assms unfolding heap_ok_def by blast+

lemma sorted_before_distinct: "sorted_wrt (before s) ns \<Longrightarrow> distinct ns"
  by (induction ns) (auto simp: before_def)

lemmas ring_distinct = heap_okD(4) [THEN sorted_before_distinct]

text \<open>Blocks end inside of the process, so their sizes can be added without a carry.\<close>

lemma block_end:
  assumes "heap_ok ns A U s" and "p \<in> blocks ns A s"
  shows "p + units s p \<le> brk s div 16" and "p + units s p < 2 ^ 27"
proof -
  have u: "0 < units s p" using heap_okD(6) [OF assms] by simp
  then have "p + units s p - 1 \<in> cells s p" by (auto simp: cells_def)
  then have "p + units s p - 1 \<in> U" using heap_okD(9) [OF assms(1)] assms(2) by blast
  then have "p + units s p - 1 < brk s div 16" using heap_okD(10) [OF assms(1)] by auto
  then show "p + units s p \<le> brk s div 16" using u by simp
  moreover have "brk s div 16 < 2 ^ 27" using heap_okD(13,14) [OF assms(1)] by simp
  ultimately show "p + units s p < 2 ^ 27" by simp
qed

lemma blocks_apart:
  assumes "heap_ok ns A U s" and "p \<in> blocks ns A s" and "q \<in> blocks ns A s" and "p < q"
  shows "before s p q"
proof -
  have "cells s p \<inter> cells s q = {}"
    using heap_okD(8) [OF assms(1)] assms(2,3,4) by (auto simp: disjoint_family_on_def)
  moreover have "q \<in> cells s q" using heap_okD(6) [OF assms(1,3)] by (simp add: cells_def)
  ultimately have "q \<notin> cells s p" by auto
  then show ?thesis using assms(4) by (auto simp: cells_def before_def)
qed

text \<open>A block of the program lies apart from each node of the ring.\<close>

lemma node_apart:
  assumes "heap_ok ns A U s" and "b \<in> A" and "x \<in> set ns"
  shows "x < b \<and> before s x b \<or> b < x \<and> before s b x"
proof -
  have b: "b \<in> blocks ns A s" using assms(2) by (simp add: blocks_def)
  then have B: "base_at s < b" using heap_okD(6) [OF assms(1)] by simp
  have "x \<noteq> b" using assms(2,3) heap_okD(7) [OF assms(1)] by auto
  show ?thesis
  proof (cases "x = base_at s")
    case True
    then show ?thesis using B heap_okD(2) [OF assms(1)] by (simp add: before_def)
  next
    case False
    then have "x \<in> blocks ns A s" using assms(3) by (simp add: blocks_def)
    then show ?thesis using blocks_apart [OF assms(1)] b \<open>x \<noteq> b\<close> by (meson linorder_neqE_nat)
  qed
qed

text \<open>The node after which a block of the program belongs.\<close>

lemma split_at:
  assumes "heap_ok ns A U s" and "b \<in> A"
  obtains xs p ys where "ns = xs @ p # ys" and "\<forall>x\<in>set (xs @ [p]). before s x b" and "\<forall>y\<in>set ys. before s b y"
proof -
  let ?P = "\<lambda>x. x < b"
  have "b \<in> blocks ns A s" using assms(2) by (simp add: blocks_def)
  then have B: "base_at s < b" using heap_okD(6) [OF assms(1)] by simp
  have "base_at s \<in> set (filter ?P ns)" using B heap_okD(15) [OF assms(1)] by simp
  then obtain xs p where xs: "filter ?P ns = xs @ [p]" by (metis rev_exhaust list.set(1) empty_iff)
  have "sorted_wrt (<) ns" using sorted_wrt_mono_rel [OF _ heap_okD(4) [OF assms(1)], of "(<)"] by (simp add: before_def)
  then have "ns = filter ?P ns @ filter (\<lambda>x. \<not> ?P x) ns"
  proof (induction ns)
    case (Cons x ns)
    show ?case
    proof (cases "x < b")
      case False
      then have "filter ?P ns = []" using Cons.prems by (auto simp: filter_empty_conv)
      then show ?thesis using Cons False by (metis append_Nil filter.simps(2) sorted_wrt.simps(2))
    qed (use Cons in auto)
  qed simp
  then have "ns = xs @ p # filter (\<lambda>x. \<not> ?P x) ns" using xs by simp
  moreover have "\<forall>x\<in>set (xs @ [p]). before s x b"
    by (auto simp flip: xs dest!: node_apart [OF assms])
  moreover have "\<forall>y\<in>set (filter (\<lambda>x. \<not> ?P x) ns). before s b y"
    using node_apart [OF assms] by auto
  ultimately show thesis by (rule that)
qed

section \<open>Steps on the ring\<close>

lemma heap_freep: "heap_ok ns A U s \<Longrightarrow> f \<in> set ns \<Longrightarrow> heap_ok ns A U (s\<lparr>freep := f\<rparr>)"
  by (simp add: heap_ok_def)

text \<open>A block of the program goes into the ring; the blocks stay the same.\<close>

lemma heap_insert:
  assumes "heap_ok (xs @ p # ys) A U s" and "b \<in> A" and "\<forall>x\<in>set (xs @ [p]). before s x b" and "\<forall>y\<in>set ys. before s b y"
  shows "heap_ok (xs @ p # b # ys) (A - {b}) U (set_ptr p b (set_ptr b (hptr s p) s))"
proof -
  note ok = heap_okD [OF assms(1)]
  have b: "b \<notin> set (xs @ p # ys)" using assms(2) ok(7) by auto
  have B: "base_at s \<noteq> b" using b ok(15) by metis
  then have "blocks (xs @ p # b # ys) (A - {b}) s = blocks (xs @ p # ys) A s" using assms(2) by (auto simp: blocks_def)
  moreover have "ring ((hptr s)(b := hptr s p, p := b)) (xs @ p # b # ys)"
    using ring_insert [OF ok(3) _ b] ring_distinct [OF assms(1)] by auto
  moreover have "sorted_wrt (before s) (xs @ p # b # ys)"
    using ok(4) assms(3,4) by (auto simp: sorted_wrt_append)
  ultimately show ?thesis using ok by (auto simp: heap_ok_def)
qed

lemma sorted_size_outside [simp]:
  "p \<notin> set xs \<Longrightarrow> sorted_wrt (before (set_size p n s)) xs = sorted_wrt (before s) xs"
  by (induction xs) (auto simp: before_def)

text \<open>Two free blocks that lie side by side become one.\<close>

definition absorb :: "nat \<Rightarrow> nat \<Rightarrow> uheap \<Rightarrow> uheap" where
  "absorb p q s = set_ptr p (hptr s q) (set_size p (hsize s p + hsize s q) s)"

lemma disjoint_merge:
  assumes "disjoint_family_on f S" and "p \<in> S" and "q \<in> S" and "p \<noteq> q"
  shows "disjoint_family_on (f(p := f p \<union> f q)) (S - {q})"
  using assms unfolding disjoint_family_on_def by auto

lemma heap_join:
  assumes "heap_ok (xs @ p # q # ys) A U s" and "p + units s p = q" and "freep s \<noteq> q" and "p \<noteq> base_at s" and "q \<noteq> base_at s"
  shows "heap_ok (xs @ p # ys) A U (absorb p q s)" and "units (absorb p q s) p = units s p + units s q"
proof -
  note ok = heap_okD [OF assms(1)]
  have d: "distinct (xs @ p # q # ys)" by (rule ring_distinct [OF assms(1)])
  let ?S = "blocks (xs @ p # q # ys) A s"
  have p: "p \<in> ?S" and q: "q \<in> ?S" using assms(4,5) by (auto simp: blocks_def)
  have "units s p + units s q < 2 ^ 32" using block_end(2) [OF assms(1) q] assms(2) by simp
  then have u: "unat (hsize s p + hsize s q) = units s p + units s q" by (simp add: units_def unat_add_no_wrap)
  then show "units (absorb p q s) p = units s p + units s q" by (simp add: absorb_def)
  have c: "{p..<p + (units s p + units s q)} = cells s p \<union> cells s q" using assms(2) by (auto simp: cells_def)
  have "q \<notin> A" using ok(7) by auto
  then have S: "blocks (xs @ p # ys) A s = ?S - {q}" using d assms(5) by (auto simp: blocks_def)
  have "ring ((hptr s)(p := hptr s q)) (xs @ p # ys)" using ring_delete [OF ok(3)] d by auto
  moreover have "sorted_wrt (before (absorb p q s)) (xs @ p # ys)"
    using ok(4) d assms(2) u by (simp add: absorb_def sorted_wrt_append) (auto simp: before_def)
  moreover have "disjoint_family_on ((cells s)(p := cells s p \<union> cells s q)) (?S - {q})"
    using d by (intro disjoint_merge ok(8) p q) auto
  moreover have "\<Union> ((cells s)(p := cells s p \<union> cells s q) ` (?S - {q})) = U"
    unfolding ok(9) [symmetric] using p q d by auto
  ultimately show "heap_ok (xs @ p # ys) A U (absorb p q s)"
    using ok assms(3,4,5) u d unfolding heap_ok_def by (simp add: absorb_def S c)
qed

text \<open>\<open>join_right\<close> and \<open>join_left\<close> are an insertion, with the joins that are possible after it.\<close>

lemma joins_insert:
  assumes "b \<noteq> p" and "hptr s p \<noteq> b" and "hptr s p \<noteq> p \<or> b + units s b \<noteq> hptr s p"
  shows "join_left b p (join_right b p s) =
    (let t = set_ptr p b (set_ptr b (hptr s p) s);
         t = (if b + units s b = hptr s p then absorb b (hptr s p) t else t)
     in if p + units s p = b then absorb p b t else t)"
  using assms
  by (auto simp: join_left_def join_right_def absorb_def Let_def set_ptr_def set_size_def units_def fun_eq_iff)

section \<open>Where a block goes\<close>

lemma while_path:
  assumes "path h p zs" and "\<exists>z\<in>set (p # zs). P z"
  shows "\<exists>z\<in>set (p # zs). while_option (\<lambda>p. \<not> P p) h p = Some z \<and> P z"
  using assms
proof (induction zs arbitrary: p)
  case (Cons q zs)
  then show ?case by (cases "P p") (fastforce simp: while_option_unfold [of _ h p])+
qed (simp add: while_option_unfold)

lemma ring_succ:
  assumes "ring h (us @ z # vs)"
  shows "h z = hd (vs @ us @ [z])"
proof -
  have "path h z (vs @ us @ [z])" using ring_around [OF assms] by (simp add: ring_path)
  then show ?thesis by (cases "vs @ us @ [z]") auto
qed

lemma spot_iff:
  assumes "heap_ok (xs @ p # ys) A U s" and "\<forall>x\<in>set (xs @ [p]). before s x b" and "\<forall>y\<in>set ys. before s b y" and "z \<in> set (xs @ p # ys)"
  shows "spot b s z \<longleftrightarrow> z = p"
proof -
  note ok = heap_okD [OF assms(1)]
  have lt: "sorted_wrt (<) (xs @ p # ys)" by (rule sorted_wrt_mono_rel [OF _ ok(4)]) (simp add: before_def)
  have bx: "\<forall>x\<in>set (xs @ [p]). x < b" and yb: "\<forall>y\<in>set ys. b < y" using assms(2,3) by (auto simp: before_def)
  consider (x) us vs where "xs = us @ z # vs" | (p) "z = p" | (y) us vs where "ys = us @ z # vs"
    using assms(4) by (auto simp: in_set_conv_decomp [of z])
  then show ?thesis
  proof cases
    case x
    have "hptr s z = hd (vs @ p # ys @ us @ [z])" using ring_succ [of "hptr s" us z "vs @ p # ys"] ok(3) x by simp
    then have "hptr s z \<in> set (vs @ [p])" by (cases vs) simp_all
    then have "z < hptr s z" and "hptr s z < b" using lt bx x by (auto simp: sorted_wrt_append)
    moreover have "z < p" using lt x by (simp add: sorted_wrt_append)
    ultimately show ?thesis by (simp add: spot_def)
  next
    case p
    have n: "hptr s p = hd (ys @ xs @ [p])" using ring_succ ok(3) by fastforce
    have "p < b" using bx by simp
    show ?thesis
    proof (cases ys)
      case Nil
      then have "hptr s p \<le> p" using n lt by (cases xs) (auto simp: sorted_wrt_append)
      then show ?thesis using p \<open>p < b\<close> by (simp add: spot_def)
    next
      case (Cons y ys')
      then show ?thesis using n p \<open>p < b\<close> yb by (simp add: spot_def)
    qed
  next
    case y
    have n: "hptr s z = hd (vs @ xs @ p # us @ [z])" using ring_succ [of "hptr s" "xs @ p # us" z vs] ok(3) y by simp
    have "b < z" using yb y by simp
    show ?thesis
    proof (cases vs)
      case Nil
      then have "hptr s z \<in> set (xs @ [p])" using n by (cases xs) simp_all
      then have "hptr s z < b" using bx by blast
      then show ?thesis using \<open>b < z\<close> bx by (auto simp: spot_def)
    next
      case (Cons v vs')
      then have "z < hptr s z" using n lt y by (simp add: sorted_wrt_append)
      then show ?thesis using \<open>b < z\<close> bx by (auto simp: spot_def)
    qed
  qed
qed

lemma find_spot:
  assumes "heap_ok (xs @ p # ys) A U s" and "\<forall>x\<in>set (xs @ [p]). before s x b" and "\<forall>y\<in>set ys. before s b y"
  shows "while_option (\<lambda>p. \<not> spot b s p) (hptr s) (freep s) = Some p"
proof -
  note ok = heap_okD [OF assms(1)]
  obtain us vs where uv: "xs @ p # ys = us @ freep s # vs" using ok(5) split_list by fast
  have "path (hptr s) (freep s) (vs @ us @ [freep s])" using ring_around [of "hptr s" us "freep s" vs] ok(3) uv by (simp add: ring_path)
  moreover have sub: "set (freep s # vs @ us @ [freep s]) = set (xs @ p # ys)" unfolding uv by auto
  moreover have "spot b s p" using spot_iff [OF assms, of p] by simp
  ultimately obtain z where "z \<in> set (xs @ p # ys)" and "while_option (\<lambda>p. \<not> spot b s p) (hptr s) (freep s) = Some z" and "spot b s z"
    using while_path [of "hptr s" "freep s" "vs @ us @ [freep s]" "spot b s"]
    by (metis in_set_conv_decomp)
  then show ?thesis using spot_iff [OF assms] by metis
qed

section \<open>free\<close>

lemma coalesced_split:
  "coalesced (xs @ p # ys) s \<longleftrightarrow>
    coalesced xs s \<and> coalesced ys s \<and> (\<forall>x\<in>set xs. x + units s x < p) \<and> (\<forall>y\<in>set ys. p + units s p < y) \<and>
    (\<forall>x\<in>set xs. \<forall>y\<in>set ys. x + units s x < y)"
  by (auto simp: coalesced_def sorted_wrt_append)

lemma coalesced_cong: "(\<And>x. x \<in> set ns \<Longrightarrow> units t x = units s x) \<Longrightarrow> coalesced ns t = coalesced ns s"
  unfolding coalesced_def by (induction ns) auto

text \<open>What \<open>free\<close> and its callers have of each other: the blocks of the program, the extent of the heap.\<close>

definition kept_by :: "nat set \<Rightarrow> uheap \<Rightarrow> uheap \<Rightarrow> bool" where
  "kept_by A s t \<longleftrightarrow> (\<forall>a\<in>A. units t a = units s a) \<and> base_at t = base_at s \<and> limit t = limit s"

text \<open>A join with the next block where that is possible: afterwards there is a gap.\<close>

lemma join_step:
  assumes "heap_ok (xs @ p # ys) A U s" and "coalesced ys s" and "freep s \<notin> set ys" and "p = base_at s \<Longrightarrow> ys \<noteq> []"
    and "t = (if p + units s p = hptr s p then absorb p (hptr s p) s else s)"
  shows "\<exists>zs. heap_ok (xs @ p # zs) A U t \<and> coalesced (p # zs) t \<and> set zs \<subseteq> set ys \<and> units s p \<le> units t p \<and> (\<forall>z. z \<noteq> p \<longrightarrow> units t z = units s z) \<and>
    (\<forall>y\<in>set ys. y \<in> set zs \<or> units s y \<le> units t p)"
proof -
  note ok = heap_okD [OF assms(1)]
  have d: "distinct (xs @ p # ys)" by (rule ring_distinct [OF assms(1)])
  have y: "\<forall>y\<in>set ys. before s p y" using ok(4) by (simp add: sorted_wrt_append)
  have n: "hptr s p = hd (ys @ xs @ [p])" using ring_succ ok(3) by fastforce
  have b: "x \<in> set (xs @ p # ys) \<Longrightarrow> x = base_at s \<or> 0 < units s x \<and> base_at s < x" for x using ok(6) by (auto simp: blocks_def)
  show ?thesis
  proof (cases "p + units s p = hptr s p")
    case True
    have "ys \<noteq> []"
    proof
      assume e: "ys = []"
      then have "hptr s p \<le> p" using n ok(4) by (cases xs) (auto simp: sorted_wrt_append before_def)
      then show False using True b [of p] assms(4) e by auto
    qed
    then obtain q zs where ys: "ys = q # zs" by (cases ys) auto
    then have q: "hptr s p = q" using n by simp
    have p: "p \<noteq> base_at s" using True q y ys ok(2) by (auto simp: before_def)
    have "base_at s < q" using b [of p] p y ys by (auto simp: before_def)
    then have a: "heap_ok (xs @ p # zs) A U (absorb p q s)" "units (absorb p q s) p = units s p + units s q"
      using heap_join [of xs p q zs A U s] assms(1,3) ys q True p by auto
    have u: "\<forall>z. z \<noteq> p \<longrightarrow> units (absorb p q s) z = units s z" by (simp add: absorb_def)
    have "coalesced zs (absorb p q s) = coalesced zs s" using u d ys by (intro coalesced_cong) auto
    then have "coalesced (p # zs) (absorb p q s)"
      using assms(2) a(2) True q ys by (auto simp: coalesced_def)
    moreover have "units s q \<le> units (absorb p q s) p" using a(2) by simp
    ultimately show ?thesis using a u True q ys assms(5) by (intro exI [of _ zs]) auto
  next
    case False
    have "\<forall>y\<in>set ys. p + units s p < y"
    proof (cases ys)
      case (Cons q zs)
      then have "p + units s p < q" using False n y by (auto simp: before_def)
      then show ?thesis using assms(2) Cons by (auto simp: coalesced_def)
    qed simp
    then show ?thesis using assms(1,2,5) False by (auto simp: coalesced_def)
  qed
qed

lemma node_pos: "heap_ok ns A U s \<Longrightarrow> x \<in> set ns \<Longrightarrow> x \<noteq> 0"
  using heap_okD(1,6) [of ns A U s] by (cases "x = base_at s") (fastforce simp: blocks_def)+

lemma joins_freep: "(join_left b p (join_right b p s))\<lparr>freep := f\<rparr> = join_left b p (join_right b p (s\<lparr>freep := f\<rparr>))"
  by (simp add: join_left_def join_right_def Let_def set_ptr_def set_size_def units_def)

lemma free_block:
  assumes "heap_ok ns A U s" and "b \<in> A" and "coalesced ns s"
  shows "\<exists>ns' t. free (b + 1) s = Some t \<and> heap_ok ns' (A - {b}) U t \<and> coalesced ns' t \<and> kept_by (A - {b}) s t \<and> brk t = brk s \<and>
    (\<exists>p\<in>set ns'. units s b \<le> units t p)"
proof -
  obtain xs p ys where ns: "ns = xs @ p # ys" and x: "\<forall>x\<in>set (xs @ [p]). before s x b" and y: "\<forall>y\<in>set ys. before s b y"
    using split_at [OF assms(1,2)] by blast
  note ok = heap_okD [OF assms(1)]
  let ?s = "s\<lparr>freep := p\<rparr>"
  let ?q = "hptr s p"
  let ?i = "set_ptr p b (set_ptr b ?q ?s)"
  define j where "j = (if b + units s b = ?q then absorb b ?q ?i else ?i)"
  define t where "t = (if p + units s p = b then absorb p b j else j)"
  have b: "b \<notin> set ns" "b \<noteq> base_at s" "p \<noteq> b" using assms(2) ok(7,15) by (auto simp: ns)
  have d: "distinct ns" by (rule ring_distinct [OF assms(1)])
  have co: "\<forall>x\<in>set xs. x + units s x < p" "\<forall>y\<in>set ys. p + units s p < y" "\<forall>x\<in>set xs. \<forall>y\<in>set ys. x + units s x < y"
    "coalesced xs s" "coalesced ys s" using assms(3) by (simp_all add: ns coalesced_split)
  have "heap_ok ((xs @ [p]) @ b # ys) (A - {b}) U ?i"
    using heap_insert [of xs p ys A U ?s b] heap_freep [OF assms(1)] assms(2) x y by (simp add: ns)
  moreover have "coalesced ys ?i" using co(5) by (simp add: coalesced_def)
  moreover have jd: "j = (if b + units ?i b = hptr ?i b then absorb b (hptr ?i b) ?i else ?i)" using b by (simp add: j_def)
  ultimately have "\<exists>zs. heap_ok ((xs @ [p]) @ b # zs) (A - {b}) U j \<and> coalesced (b # zs) j \<and> set zs \<subseteq> set ys \<and> units ?i b \<le> units j b \<and>
      (\<forall>z. z \<noteq> b \<longrightarrow> units j z = units ?i z) \<and> (\<forall>y\<in>set ys. y \<in> set zs \<or> units ?i y \<le> units j b)"
    using b d ns by (intro join_step) auto
  then obtain zs where j: "heap_ok (xs @ p # b # zs) (A - {b}) U j" "coalesced (b # zs) j" "set zs \<subseteq> set ys" "units s b \<le> units j b"
      "\<forall>z. z \<noteq> b \<longrightarrow> units j z = units s z" by auto
  have base: "base_at j = base_at s" "limit j = limit s" "brk j = brk s" "freep j = p" "hptr j p = b"
    using b by (auto simp: j_def absorb_def)
  have "t = (if p + units j p = hptr j p then absorb p (hptr j p) j else j)" using b base j(5) by (simp add: t_def)
  then have "\<exists>ws. heap_ok (xs @ p # ws) (A - {b}) U t \<and> coalesced (p # ws) t \<and> set ws \<subseteq> set (b # zs) \<and> units j p \<le> units t p \<and>
      (\<forall>z. z \<noteq> p \<longrightarrow> units t z = units j z) \<and> (\<forall>y\<in>set (b # zs). y \<in> set ws \<or> units j y \<le> units t p)"
    using j(1,2,3) b d ns base by (intro join_step) auto
  then obtain ws where w: "heap_ok (xs @ p # ws) (A - {b}) U t" "coalesced (p # ws) t" "set ws \<subseteq> set (b # zs)" "units j p \<le> units t p"
      "\<forall>z. z \<noteq> p \<longrightarrow> units t z = units j z" "b \<in> set ws \<or> units j b \<le> units t p" by auto
  have f: "free (b + 1) s = Some t"
  proof -
    have "hptr s p \<in> set ns" using ring_succ [of "hptr s" xs p ys] ok(3) hd_in_set [of "ys @ xs @ [p]"] by (auto simp: ns)
    then have "hptr s p \<noteq> b" using b(1) by metis
    moreover have "p < b" and "0 < units s b" using x ok(6) assms(2) by (auto simp: before_def blocks_def)
    ultimately have "join_left b p (join_right b p ?s) = t"
      using b joins_insert [of b p ?s] by (auto simp: t_def j_def Let_def)
    moreover have "freep s \<noteq> 0" by (rule node_pos [OF assms(1) ok(5)])
    ultimately show ?thesis
      using find_spot [of xs p ys A U s b] assms(1) x y by (simp add: ns free_def joins_freep)
  qed
  have u: "\<forall>z. z \<noteq> p \<longrightarrow> z \<noteq> b \<longrightarrow> units t z = units s z" using w(5) j(5) by simp
  have "coalesced xs t = coalesced xs s" using u d b by (intro coalesced_cong) (auto simp: ns)
  moreover have "\<forall>x\<in>set xs. units t x = units s x" using u d b by (auto simp: ns)
  moreover have "\<forall>x\<in>set xs. x + units s x < b" using co(1) x by (fastforce simp: before_def)
  ultimately have "coalesced (xs @ p # ws) t"
    using co w(2,3) j(3) by (fastforce simp: coalesced_split coalesced_def [of "p # ws"] coalesced_def [of ws])
  moreover have "kept_by (A - {b}) s t"
  proof -
    have "\<forall>a\<in>A - {b}. units t a = units s a" using u ok(7) by (auto simp: ns)
    moreover have "base_at t = base_at s" and "limit t = limit s" using base(1,2) by (simp_all add: t_def absorb_def)
    ultimately show ?thesis by (simp add: kept_by_def)
  qed
  moreover have "brk t = brk s" using base by (simp add: t_def absorb_def)
  moreover have "\<exists>p\<in>set (xs @ p # ws). units s b \<le> units t p"
  proof (cases "b \<in> set ws")
    case True
    then show ?thesis using w(5) j(4) b(3) by (intro bexI [of _ b]) auto
  next
    case False
    then show ?thesis using w(6) j(4) by auto
  qed
  ultimately show ?thesis using f w(1) by blast
qed

section \<open>malloc\<close>

text \<open>The whole of a free block goes to the program.\<close>

lemma heap_take_all:
  assumes "heap_ok (xs @ p # q # ys) A U s" and "q \<noteq> base_at s"
  shows "heap_ok (xs @ p # ys) (insert q A) U (set_ptr p (hptr s q) s\<lparr>freep := p\<rparr>)"
proof -
  note ok = heap_okD [OF assms(1)]
  have d: "distinct (xs @ p # q # ys)" by (rule ring_distinct [OF assms(1)])
  have "blocks (xs @ p # ys) (insert q A) s = blocks (xs @ p # q # ys) A s" using assms(2) d by (auto simp: blocks_def)
  moreover have "ring ((hptr s)(p := hptr s q)) (xs @ p # ys)" using ring_delete [OF ok(3)] d by auto
  moreover have "sorted_wrt (before s) (xs @ p # ys)" using ok(4) by (auto simp: sorted_wrt_append)
  ultimately show ?thesis using ok assms(2) d by (auto simp: heap_ok_def)
qed

text \<open>The end of a free block goes to the program.\<close>

lemma disjoint_split:
  assumes "disjoint_family_on f S" and "p \<in> S" and "q \<notin> S" and "f p = X \<union> Y" and "X \<inter> Y = {}"
  shows "disjoint_family_on (f(p := X, q := Y)) (insert q S)" and "\<Union> ((f(p := X, q := Y)) ` insert q S) = \<Union> (f ` S)"
proof -
  let ?g = "f(p := X, q := Y)"
  have "p \<noteq> q" using assms(2,3) by auto
  have o: "x \<in> S \<Longrightarrow> x \<noteq> p \<Longrightarrow> ?g x = f x \<and> f x \<inter> X = {} \<and> f x \<inter> Y = {}" for x
    using disjoint_family_onD [OF assms(1) _ assms(2)] assms(3,4) by auto
  show "disjoint_family_on ?g (insert q S)"
    unfolding disjoint_family_on_def
  proof (intro ballI impI)
    fix m n assume mn: "m \<in> insert q S" "n \<in> insert q S" "m \<noteq> n"
    have f: "m \<in> S \<Longrightarrow> n \<in> S \<Longrightarrow> f m \<inter> f n = {}" using disjoint_family_onD [OF assms(1)] mn(3) by blast
    show "?g m \<inter> ?g n = {}"
      using mn o [of m] o [of n] f \<open>p \<noteq> q\<close> assms(5) by (cases "m = q"; cases "n = q"; cases "m = p"; cases "n = p") auto
  qed
  show "\<Union> (?g ` insert q S) = \<Union> (f ` S)"
  proof -
    have "?g ` insert q S = insert Y (insert X (f ` (S - {p})))" using assms(2,3) \<open>p \<noteq> q\<close> by auto
    moreover have "f ` S = insert (f p) (f ` (S - {p}))" using assms(2) by auto
    ultimately show ?thesis using assms(4) by auto
  qed
qed

lemma sorted_shrink:
  "sorted_wrt (before s) ns \<Longrightarrow> (\<And>x. x \<in> set ns \<Longrightarrow> units t x \<le> units s x) \<Longrightarrow> sorted_wrt (before t) ns"
proof (induction ns)
  case (Cons x ns)
  then have "units t x \<le> units s x" by simp
  then have "\<forall>y\<in>set ns. before t x y" using Cons.prems(1) by (fastforce simp: before_def)
  then show ?case using Cons by simp
qed simp

lemma heap_take_tail:
  assumes "heap_ok ns A U s" and "p \<in> set ns" and "0 < n" and "n < hsize s p" and "r \<in> set ns" and "q = p + unat (hsize s p - n)"
  shows "heap_ok ns (insert q A) U ((set_size q n (set_size p (hsize s p - n) s))\<lparr>freep := r\<rparr>)" and "q \<notin> blocks ns A s" and "p < q"
proof -
  note ok = heap_okD [OF assms(1)]
  let ?S = "blocks ns A s"
  have n: "unat n < units s p" "unat (hsize s p - n) = units s p - unat n" "0 < unat n"
    using assms(3,4) by (simp_all add: units_def word_less_nat_alt unat_sub word_le_nat_alt unat_gt_0 word_gt_0)
  have p: "p \<noteq> base_at s" using n(1) ok(2) by (cases "p = base_at s") auto
  then have pS: "p \<in> ?S" using assms(2) by (simp add: blocks_def)
  show pq: "p < q" using assms(6) n by simp
  have qc: "q \<in> cells s p" using assms(6) n by (auto simp: cells_def)
  show qS: "q \<notin> ?S"
  proof
    assume q: "q \<in> ?S"
    then have "q \<in> cells s q" using ok(6) by (simp add: cells_def)
    then show False using disjoint_family_onD [OF ok(8) pS q] pq qc by auto
  qed
  have B: "base_at s < q" using pq ok(6) [OF pS] by simp
  have out: "q \<notin> set ns" "q \<notin> A" using qS B by (auto simp: blocks_def)
  have S: "blocks ns (insert q A) s = insert q ?S" using B by (auto simp: blocks_def)
  have c: "cells s p = {p..<p + (units s p - unat n)} \<union> {q..<q + unat n}" "{p..<p + (units s p - unat n)} \<inter> {q..<q + unat n} = {}"
    using assms(6) n by (auto simp: cells_def)
  let ?c = "(cells s)(p := {p..<p + (units s p - unat n)}, q := {q..<q + unat n})"
  have dj: "disjoint_family_on ?c (insert q ?S)" and un: "\<Union> (?c ` insert q ?S) = U"
    using disjoint_split [OF ok(8) pS qS c] ok(9) by simp_all
  have so: "sorted_wrt (before (set_size q n (set_size p (hsize s p - n) s))) ns"
    by (rule sorted_shrink [OF ok(4)]) (use out n in auto)
  show "heap_ok ns (insert q A) U ((set_size q n (set_size p (hsize s p - n) s))\<lparr>freep := r\<rparr>)"
    using ok dj un so n out p pq B assms(5) unfolding heap_ok_def by (auto simp: S)
qed

lemma head_base:
  assumes "heap_ok (x # ns) A U s"
  shows "x = base_at s"
proof (rule ccontr)
  assume "x \<noteq> base_at s"
  then have "base_at s < x" and "base_at s \<in> set ns" using heap_okD(6,15) [OF assms] by (auto simp: blocks_def)
  then show False using heap_okD(4) [OF assms] by (auto simp: before_def)
qed

lemma coalesced_shrink:
  "coalesced ns s \<Longrightarrow> (\<And>x. x \<in> set ns \<Longrightarrow> units t x \<le> units s x) \<Longrightarrow> coalesced ns t"
proof (induction ns)
  case (Cons x ns)
  then have "units t x \<le> units s x" by simp
  then have "\<forall>y\<in>set ns. x + units t x < y" using Cons.prems(1) by (fastforce simp: coalesced_def)
  then show ?case using Cons by (simp add: coalesced_def)
qed (simp add: coalesced_def)

lemma take_block_ok:
  assumes "heap_ok ns A U s" and "coalesced ns s" and "r \<in> set ns" and "hptr s r \<in> set ns" and "0 < n" and "n \<le> hsize s (hptr s r)"
  shows "\<exists>b ns' t. take_block n r (hptr s r) s = (b + 1, t) \<and> heap_ok ns' (insert b A) U t \<and> coalesced ns' t \<and> b \<notin> A \<and> kept_by A s t \<and>
    hsize t b = n \<and> brk t = brk s"
proof (cases "hsize s (hptr s r) = n")
  case True
  define q where "q = hptr s r"
  have q: "q \<noteq> base_at s" using True assms(5) heap_okD(2) [OF assms(1)] by (auto simp: q_def units_def unat_eq_0)
  obtain us vs where ns: "ns = us @ r # vs" using assms(3) by (meson split_list)
  have h: "q = hd (vs @ us @ [r])" using ring_succ heap_okD(3) [OF assms(1)] by (fastforce simp: ns q_def)
  have "vs \<noteq> []"
  proof
    assume e: "vs = []"
    then have "ns = hd (us @ [r]) # tl (us @ [r])" by (simp add: ns)
    then show False using head_base [of "hd (us @ [r])" "tl (us @ [r])" A U s] assms(1) h q e by simp
  qed
  then obtain ys where vs: "vs = q # ys" using h by (cases vs) auto
  let ?t = "set_ptr r (hptr s q) s\<lparr>freep := r\<rparr>"
  have "heap_ok (us @ r # ys) (insert q A) U ?t" by (rule heap_take_all) (use assms(1) ns vs q in simp_all)
  moreover have "coalesced (us @ r # ys) ?t" using assms(2) by (auto simp: ns vs coalesced_def sorted_wrt_append)
  moreover have "q \<notin> A" using heap_okD(7) [OF assms(1)] by (auto simp: ns vs)
  moreover have "take_block n r (hptr s r) s = (q + 1, ?t)" using True by (simp add: take_block_def q_def)
  ultimately show ?thesis using True by (auto simp: kept_by_def q_def)
next
  case False
  define q where "q = hptr s r"
  define b where "b = q + unat (hsize s q - n)"
  let ?t = "(set_size b n (set_size q (hsize s q - n) s))\<lparr>freep := r\<rparr>"
  have n: "n < hsize s q" using assms(6) False by (simp add: q_def)
  note t = heap_take_tail [OF assms(1) _ assms(5) n assms(3) b_def] assms(4)
  have "unat (hsize s q - n) \<le> units s q" using n by (simp add: units_def unat_sub word_le_nat_alt word_less_nat_alt)
  moreover have bn: "b \<notin> set ns" "b \<notin> A" using t heap_okD(6) [OF assms(1)] q_def
    by (auto simp: blocks_def) (metis bot_nat_0.not_eq_extremum not_less_iff_gr_or_eq order.strict_trans heap_okD(2) [OF assms(1)] heap_okD(6) [OF assms(1)] blocks_def)
  ultimately have "coalesced ns ?t" by (intro coalesced_shrink [OF assms(2)]) auto
  moreover have "\<forall>a\<in>A. a \<noteq> b \<and> a \<noteq> q" using bn t(4) heap_okD(7) [OF assms(1)] by (auto simp: q_def)
  moreover have "take_block n r (hptr s r) s = (b + 1, ?t)" using False by (simp add: take_block_def q_def b_def Let_def)
  ultimately show ?thesis using t bn by (auto simp: kept_by_def q_def)
qed

lemma loop_walk:
  assumes "path (hptr s) prev (zs @ [freep s])" and "freep s \<notin> set zs"
  shows "(\<exists>r\<in>set (prev # zs). hptr s r \<in> set (zs @ [freep s]) \<and> n \<le> hsize s (hptr s r) \<and>
        malloc_loop n prev (hptr s prev) s = Some (take_block n r (hptr s r) s)) \<or>
    (\<forall>q\<in>set (zs @ [freep s]). hsize s q < n) \<and>
    malloc_loop n prev (hptr s prev) s =
      Option.bind (morecore n s) (\<lambda>(p, s). if p = 0 then Some (0, s) else malloc_loop n p (hptr s p) s)"
  using assms
proof (induction zs arbitrary: prev)
  case Nil
  then show ?case using malloc_loop.simps [of n prev "hptr s prev" s] by (auto simp: not_le)
next
  case (Cons z zs)
  then have z: "hptr s prev = z" "z \<noteq> freep s" by auto
  show ?case
  proof (cases "n \<le> hsize s z")
    case True
    then show ?thesis using z malloc_loop.simps [of n prev z s] by auto
  next
    case False
    then have "malloc_loop n prev (hptr s prev) s = malloc_loop n z (hptr s z) s"
      using z malloc_loop.simps [of n prev z s] by simp
    then show ?thesis using Cons.IH [of z] Cons.prems False z by (auto simp: not_le)
  qed
qed

section \<open>More memory\<close>

lemma sorted_before_brk: "sorted_wrt (before (s\<lparr>brk := b\<rparr>)) ns = sorted_wrt (before s) ns"
  by (induction ns) (auto simp: before_def units_def)

lemma units_brk [simp]: "units (s\<lparr>brk := b\<rparr>) = units s"
  by (simp add: units_def fun_eq_iff)

text \<open>What \<open>morecore\<close> asks for.\<close>

definition grant :: "u32 \<Rightarrow> nat" where
  "grant n = max 4096 (unat n)"

lemma grant_pos [simp]: "0 < grant n"
  by (simp add: grant_def)

lemma sbrk_amount:
  assumes "unat m < 2 ^ 27"
  shows "sint (ucast (ucast m * 16 :: u64) :: u32) = int (16 * unat m)"
proof -
  have i: "uint m = int (unat m)" by simp
  then have m: "uint m < 2 ^ 27" using assms by (simp del: of_nat_unat)
  have "uint (ucast m * 16 :: u64) = uint m * 16"
    using m by (simp add: uint_word_ariths unsigned_ucast_eq take_bit_int_eq_self_iff) (simp add: take_bit_int_def)
  then have "uint (ucast (ucast m * 16 :: u64) :: u32) = uint m * 16"
    using m by (simp add: unsigned_ucast_eq take_bit_int_eq_self_iff)
  moreover have "sint w = uint w" if "uint w < 2 ^ 31" for w :: u32
  proof -
    have "- (2 ^ 31) \<le> uint w" by (rule order_trans [OF _ uint_ge_0]) simp
    then show ?thesis using that by (simp add: sint_uint signed_take_bit_int_eq_self_iff)
  qed
  moreover have "uint m * 16 < 2 ^ 31" using m by simp
  moreover have "uint m * 16 = int (16 * unat m)" by simp
  ultimately show ?thesis by (simp only:)
qed

lemma morecore_none:
  assumes "unat n < 2 ^ 27" and "limit s < brk s + 16 * grant n"
  shows "morecore n s = Some (0, s)"
proof -
  let ?m = "if n < 4096 then 4096 else n"
  have m: "unat ?m = grant n" by (auto simp: grant_def word_less_nat_alt)
  then have "unat ?m < 2 ^ 27" using assms(1) by (simp add: grant_def)
  then show ?thesis using assms(2) m by (simp add: morecore_def sbrk_def sbrk_amount del: of_nat_mult)
qed

lemma morecore_some:
  assumes "heap_ok ns A U s" and "coalesced ns s" and "unat n < 2 ^ 27" and "brk s + 16 * grant n \<le> limit s"
  shows "\<exists>ns' t. morecore n s = Some (freep t, t) \<and> heap_ok ns' A (U \<union> {brk s div 16..<brk t div 16}) t \<and> coalesced ns' t \<and>
    kept_by A s t \<and> brk t = brk s + 16 * grant n \<and> (\<exists>p\<in>set ns'. n \<le> hsize t p)"
proof -
  let ?m = "if n < 4096 then 4096 else n"
  let ?h = "brk s div 16"
  let ?s = "set_size ?h ?m (s\<lparr>brk := brk s + 16 * grant n\<rparr>)"
  note ok = heap_okD [OF assms(1)]
  have m: "unat ?m = grant n" by (auto simp: grant_def word_less_nat_alt)
  have m27: "unat ?m < 2 ^ 27" using assms(3) m by (simp add: grant_def)
  have new: "?h \<noteq> base_at s" "?h \<notin> blocks ns A s"
    using ok(11) block_end(1) [OF assms(1)] ok(6) by fastforce+
  then have out: "?h \<notin> set ns" "?h \<notin> A" by (auto simp: blocks_def)
  have e: "(brk s + 16 * grant n) div 16 = ?h + grant n" by simp
  let ?c = "(cells s)(?h := {?h..<?h + grant n})"
  have c: "cells ?s = ?c" "blocks ns (insert ?h A) ?s = insert ?h (blocks ns A s)"
    using new m by (auto simp: cells_def units_def blocks_def fun_eq_iff)
  have low: "x \<in> blocks ns A s \<Longrightarrow> cells s x \<subseteq> {..<?h}" for x
    using block_end(1) [OF assms(1)] by (fastforce simp: cells_def)
  have "disjoint_family_on ?c (insert ?h (blocks ns A s))"
    unfolding disjoint_family_on_def
  proof (intro ballI impI)
    fix x y assume xy: "x \<in> insert ?h (blocks ns A s)" "y \<in> insert ?h (blocks ns A s)" "x \<noteq> y"
    then show "?c x \<inter> ?c y = {}"
      using disjoint_family_onD [OF ok(8), of x y] low [of x] low [of y] by (cases "x = ?h"; cases "y = ?h") auto
  qed
  moreover have "\<Union> (?c ` insert ?h (blocks ns A s)) = U \<union> {?h..<?h + grant n}"
  proof -
    have "?c ` insert ?h (blocks ns A s) = insert {?h..<?h + grant n} (cells s ` blocks ns A s)" using new(2) by auto
    then show ?thesis using ok(9) by auto
  qed
  moreover have "sorted_wrt (before ?s) ns" using ok(4) out(1) by (simp add: sorted_before_brk)
  moreover have "\<forall>p\<in>insert ?h (blocks ns A s). 0 < units ?s p \<and> base_at s < p" using ok(6,11) m by (auto simp: units_def grant_def)
  moreover have "units ?s (base_at s) = 0" using ok(2) new(1) by (simp add: units_def)
  moreover have "U \<subseteq> {..<?h + grant n}" using ok(10) by auto
  ultimately have "heap_ok ns (insert ?h A) (U \<union> {?h..<?h + grant n}) ?s"
    using ok(1,3,5,7,11-15) out assms(4) unfolding heap_ok_def c by (auto simp: e)
  moreover have "coalesced ns ?s" using assms(2) out by (intro coalesced_shrink [OF assms(2)]) auto
  ultimately obtain ns' t where t: "free (?h + 1) ?s = Some t" "heap_ok ns' (insert ?h A - {?h}) (U \<union> {?h..<?h + grant n}) t" "coalesced ns' t"
    "kept_by (insert ?h A - {?h}) ?s t" "brk t = brk ?s" "\<exists>p\<in>set ns'. units ?s ?h \<le> units t p"
    using free_block by blast
  have i: "sint (ucast (ucast ?m * 16 :: u64) :: u32) = int (16 * grant n)" using sbrk_amount [OF m27] m by metis
  have "sbrk (ucast (ucast ?m * 16 :: u64)) s = (Some (brk s), s\<lparr>brk := brk s + 16 * grant n\<rparr>)"
    unfolding sbrk_def i using assms(4) by (simp add: nat_add_distrib del: of_nat_mult)
  then have "morecore n s = Some (freep t, t)" using t(1) unfolding morecore_def Let_def by simp
  moreover have "insert ?h A - {?h} = A" using out(2) by simp
  moreover have "kept_by A s t" using t(4) out(2) \<open>insert ?h A - {?h} = A\<close> by (auto simp: kept_by_def units_def)
  moreover have "\<exists>p\<in>set ns'. n \<le> hsize t p"
  proof -
    have "unat n \<le> units ?s ?h" using m by (simp add: units_def grant_def)
    then obtain p where "p \<in> set ns'" and "unat n \<le> units t p" using t(6) by (meson le_trans)
    then show ?thesis by (auto simp: units_def word_le_nat_alt)
  qed
  ultimately show ?thesis using t(2,3,5) by (auto simp: e)
qed

section \<open>Both operations keep the heap\<close>

text \<open>The heap of a program: as it is before the first call, or with a ring.\<close>

definition heap :: "nat set \<Rightarrow> nat set \<Rightarrow> uheap \<Rightarrow> bool" where
  "heap A U s \<longleftrightarrow>
    freep s = 0 \<and> A = {} \<and> U = {} \<and> 0 < base_at s \<and> base_at s < brk s div 16 \<and> 16 dvd brk s \<and> brk s \<le> limit s \<and> limit s < 2 ^ 31 \<or>
    (\<exists>ns. heap_ok ns A U s \<and> coalesced ns s)"

lemma ring_walk:
  assumes "heap_ok ns A U s"
  obtains zs where "path (hptr s) (freep s) (zs @ [freep s])" and "freep s \<notin> set zs" and "set (zs @ [freep s]) = set ns"
proof -
  obtain us vs where ns: "ns = us @ freep s # vs" using heap_okD(5) [OF assms] by (meson split_list)
  have "path (hptr s) (freep s) ((vs @ us) @ [freep s])" using ring_around heap_okD(3) [OF assms] ns by (fastforce simp: ring_path)
  moreover have "freep s \<notin> set (vs @ us)" using ring_distinct [OF assms] ns by auto
  moreover have "set ((vs @ us) @ [freep s]) = set ns" unfolding ns by auto
  ultimately show thesis by (rule that)
qed

text \<open>The outcome of \<open>malloc\<close> for a size in units.\<close>

definition allocated :: "u32 \<Rightarrow> nat set \<Rightarrow> nat set \<Rightarrow> uheap \<Rightarrow> nat \<Rightarrow> uheap \<Rightarrow> bool" where
  "allocated n A U s p t \<longleftrightarrow>
    kept_by A s t \<and>
    (if p = 0 then heap A U t \<and> brk t = brk s \<and> limit s < brk s + 16 * grant n
     else p - 1 \<notin> A \<and> heap (insert (p - 1) A) (U \<union> {brk s div 16..<brk t div 16}) t \<and> units t (p - 1) = unat n)"

lemma malloc_loop_ok:
  assumes "heap_ok ns A U s" and "coalesced ns s" and "0 < n" and "unat n < 2 ^ 27"
  shows "\<exists>p t. malloc_loop n (freep s) (hptr s (freep s)) s = Some (p, t) \<and> allocated n A U s p t"
proof -
  have found: "\<exists>p t'. malloc_loop n (freep t) (hptr t (freep t)) t = Some (p, t') \<and> p \<noteq> 0 \<and> p - 1 \<notin> A \<and> heap (insert (p - 1) A) V t' \<and>
      kept_by A t t' \<and> units t' (p - 1) = unat n \<and> brk t' = brk t"
    if t: "heap_ok ms A V t" "coalesced ms t" and r: "r \<in> set (freep t # zs)" "hptr t r \<in> set (zs @ [freep t])" "n \<le> hsize t (hptr t r)"
      "malloc_loop n (freep t) (hptr t (freep t)) t = Some (take_block n r (hptr t r) t)" "set (zs @ [freep t]) = set ms" for t ms V r zs
  proof -
    have "r \<in> set ms" and "hptr t r \<in> set ms" using r by auto
    from take_block_ok [OF t this assms(3) r(3)] show ?thesis using r(4) by (force simp: heap_def units_def)
  qed
  obtain zs where w: "path (hptr s) (freep s) (zs @ [freep s])" "freep s \<notin> set zs" "set (zs @ [freep s]) = set ns"
    using ring_walk [OF assms(1)] by blast
  from loop_walk [OF w(1,2), of n] show ?thesis
  proof (elim disjE bexE conjE)
    fix r assume r: "r \<in> set (freep s # zs)" "hptr s r \<in> set (zs @ [freep s])" "n \<le> hsize s (hptr s r)"
      "malloc_loop n (freep s) (hptr s (freep s)) s = Some (take_block n r (hptr s r) s)"
    from found [OF assms(1,2) this w(3)] show ?thesis by (force simp: allocated_def)
  next
    assume m: "malloc_loop n (freep s) (hptr s (freep s)) s =
      Option.bind (morecore n s) (\<lambda>(p, s). if p = 0 then Some (0, s) else malloc_loop n p (hptr s p) s)"
    show ?thesis
    proof (cases "brk s + 16 * grant n \<le> limit s")
      case False
      then show ?thesis using m morecore_none [OF assms(4)] assms(1,2) by (auto simp: allocated_def heap_def kept_by_def)
    next
      case True
      obtain ms t where t: "morecore n s = Some (freep t, t)" "heap_ok ms A (U \<union> {brk s div 16..<brk t div 16}) t" "coalesced ms t"
        "kept_by A s t" "brk t = brk s + 16 * grant n" "\<exists>p\<in>set ms. n \<le> hsize t p"
        using morecore_some [OF assms(1,2,4) True] by blast
      obtain ys where y: "path (hptr t) (freep t) (ys @ [freep t])" "freep t \<notin> set ys" "set (ys @ [freep t]) = set ms"
        using ring_walk [OF t(2)] by blast
      have "\<not> (\<forall>q\<in>set (ys @ [freep t]). hsize t q < n)" using t(6) y(3) by (metis linorder_not_less)
      then obtain r where "r \<in> set (freep t # ys)" "hptr t r \<in> set (ys @ [freep t])" "n \<le> hsize t (hptr t r)"
        "malloc_loop n (freep t) (hptr t (freep t)) t = Some (take_block n r (hptr t r) t)"
        using loop_walk [OF y(1,2), of n] by blast
      from found [OF t(2,3) this y(3)] show ?thesis
        using m t(1,4) node_pos [OF t(2) heap_okD(5) [OF t(2)]] by (force simp: allocated_def kept_by_def)
    qed
  qed
qed

lemma headers_for: "unat ((ucast (nbytes :: u32) + 16 - 1) div 16 :: u64) = (unat nbytes + 15) div 16"
proof -
  have u: "unat (ucast nbytes :: u64) = unat nbytes" by (rule unat_ucast_up) simp
  have "unat nbytes < 2 ^ 32" using unsigned_less [of nbytes] by simp
  then have "unat (ucast nbytes + 15 :: u64) = unat nbytes + 15"
    using u by (subst unat_add_no_wrap) simp_all
  moreover have "(ucast nbytes + 16 - 1 :: u64) = ucast nbytes + 15" by (simp add: add_diff_eq [symmetric])
  ultimately have "unat (ucast nbytes + 16 - 1 :: u64) = unat nbytes + 15" by (simp only:)
  then show ?thesis by (simp only: unat_div) simp
qed

lemma units_for_amount:
  assumes "unat nbytes \<le> 2 ^ 31 - 32"
  shows "unat (units_for nbytes) = (unat nbytes + 15) div 16 + 1"
proof -
  have "unat ((ucast nbytes + 16 - 1) div 16 + 1 :: u64) = (unat nbytes + 15) div 16 + 1"
    using assms headers_for [of nbytes] by (subst unat_add_no_wrap) (simp_all del: add_diff_cancel_right')
  then show ?thesis using assms by (simp add: units_for_def unsigned_ucast_eq take_bit_nat_eq_self_iff)
qed

text \<open>
  C17: \<open>malloc\<close> always returns. For up to 2^31 - 32 bytes it either gives a block that is new to the program and large enough, or it gives null
  and the kernel has refused the memory; in both cases the blocks that the program had are as they were, apart from each other, from the new one
  and from the free blocks, and every unit that the kernel has given is in one of them.
\<close>

theorem malloc_ok:
  assumes "heap A U s" and "unat nbytes \<le> 2 ^ 31 - 32"
  shows "\<exists>p t. malloc nbytes s = Some (p, t) \<and> allocated (units_for nbytes) A U s p t \<and> (p \<noteq> 0 \<longrightarrow> unat nbytes \<le> 16 * (units t (p - 1) - 1))"
proof -
  let ?s = "if freep s = 0 then set_size (base_at s) 0 (set_ptr (base_at s) (base_at s) (s\<lparr>freep := base_at s\<rparr>)) else s"
  let ?n = "units_for nbytes"
  have F: "freep s = 0 \<Longrightarrow> A = {} \<and> U = {} \<and> 0 < base_at s \<and> base_at s < brk s div 16 \<and> 16 dvd brk s \<and> brk s \<le> limit s \<and> limit s < 2 ^ 31"
    using assms(1) node_pos heap_okD(5) unfolding heap_def by metis
  obtain ns where "heap_ok ns A U ?s" "coalesced ns ?s"
  proof (cases "freep s = 0")
    case True
    note F [OF this]
    then have "heap_ok [base_at s] A U ?s" "coalesced [base_at s] ?s"
      using True by (auto simp: heap_ok_def coalesced_def ring_def blocks_def disjoint_family_on_def)
    then show ?thesis by (rule that)
  next
    case False
    then show ?thesis using assms(1) that unfolding heap_def by auto
  qed
  moreover have n: "unat ?n = (unat nbytes + 15) div 16 + 1" by (rule units_for_amount [OF assms(2)])
  then have "0 < ?n" "unat ?n < 2 ^ 27" using assms(2) by (simp_all add: word_less_nat_alt)
  ultimately obtain p t where "malloc_loop ?n (freep ?s) (hptr ?s (freep ?s)) ?s = Some (p, t)" and a: "allocated ?n A U ?s p t"
    using malloc_loop_ok by blast
  then have "malloc nbytes s = Some (p, t)" by (simp add: malloc_def Let_def)
  moreover have "allocated ?n A U s p t"
    using a F by (cases "freep s = 0") (auto simp: allocated_def kept_by_def)
  moreover have "unat nbytes \<le> 16 * ((unat nbytes + 15) div 16)" by presburger
  ultimately show ?thesis using n by (auto simp: allocated_def)
qed

text \<open>
  C28: Giving a block of the program back to \<open>free\<close> returns, for every order in which blocks are freed: the block is free memory again, joined with the free
  blocks at its two sides, and nothing else of the heap changes.
\<close>

theorem free_ok:
  assumes "heap A U s" and "b \<in> A"
  shows "\<exists>t. free (b + 1) s = Some t \<and> heap (A - {b}) U t \<and> kept_by (A - {b}) s t \<and> brk t = brk s"
proof -
  obtain ns where "heap_ok ns A U s" "coalesced ns s" using assms by (auto simp: heap_def)
  from free_block [OF this(1) assms(2) this(2)] show ?thesis by (auto simp: heap_def)
qed

text \<open>A process whose \<open>base\<close> is at 16, that ends at 128 and may grow to 2^20 bytes.\<close>

definition heap_demo :: uheap where
  "heap_demo = \<lparr>hptr = \<lambda>_. 1, hsize = \<lambda>p. if p = 5 then 3 else 0, base_at = 1, freep = 0, brk = 128, limit = 2 ^ 20\<rparr>"

lemma malloc_ok_witness:
  "\<exists>p t. malloc 100 heap_demo = Some (p, t) \<and> allocated (units_for 100) {} {} heap_demo p t \<and> (p \<noteq> 0 \<longrightarrow> 100 \<le> 16 * (units t (p - 1) - 1))"
  using malloc_ok [of "{}" "{}" heap_demo 100] by (simp add: heap_def heap_demo_def)

text \<open>Units 5, 6 and 7 are a block of the program.\<close>

lemma free_ok_witness:
  "\<exists>t. free 6 (heap_demo\<lparr>freep := 1\<rparr>) = Some t \<and> heap {} {5, 6, 7} t"
proof -
  have "heap_ok [1] {5} {5, 6, 7} (heap_demo\<lparr>freep := 1\<rparr>)"
    by (auto simp: heap_ok_def heap_demo_def units_def cells_def blocks_def ring_def disjoint_family_on_def)
  moreover have "coalesced [1] (heap_demo\<lparr>freep := 1\<rparr>)" by (simp add: coalesced_def)
  ultimately have "heap {5} {5, 6, 7} (heap_demo\<lparr>freep := 1\<rparr>)" unfolding heap_def by blast
  from free_ok [OF this, of 5] show ?thesis by auto
qed

section \<open>Sizes that wrap\<close>

text \<open>
  C40: For the last 15 sizes that an argument can have, \<open>morecore\<close> asks the kernel for 16 bytes, since \<open>sbrk\<close> takes an \<open>int\<close>: the first call of \<open>malloc\<close> returns a
  block whose header claims 2^28 + 1 units.
\<close>

theorem malloc_wraps:
  assumes "freep s = 0" and "0 < base_at s" and "base_at s < brk s div 16" and "brk s + 16 \<le> limit s" and "2 ^ 32 - 15 \<le> unat nbytes"
  shows "\<exists>p t. malloc nbytes s = Some (p, t) \<and> p \<noteq> 0 \<and> brk t = brk s + 16 \<and> units t (p - 1) = 2 ^ 28 + 1"
proof -
  let ?s = "set_size (base_at s) 0 (set_ptr (base_at s) (base_at s) (s\<lparr>freep := base_at s\<rparr>))"
  let ?h = "brk s div 16" and ?b = "base_at s" and ?n = "0x10000001 :: u32"
  have n: "units_for nbytes = ?n"
  proof -
    have "unat nbytes < 2 ^ 32" using unsigned_less [of nbytes] by simp
    then have "(unat nbytes + 15) div 16 = unat (0x10000000 :: u64)" using assms(5) by simp
    with headers_for [of nbytes] have "unat ((ucast nbytes + 16 - 1) div 16 :: u64) = unat (0x10000000 :: u64)" by (simp only:)
    then have "(ucast nbytes + 16 - 1) div 16 = (0x10000000 :: u64)" by (rule unat_inj)
    then show ?thesis by (simp add: units_for_def)
  qed
  have f: "free (?h + 1) (set_size ?h ?n (?s\<lparr>brk := brk s + 16\<rparr>)) =
      Some (set_ptr ?b ?h (set_ptr ?h ?b (set_size ?h ?n (?s\<lparr>brk := brk s + 16\<rparr>))))"
    using assms(2,3) by (simp add: free_def while_option_unfold spot_def join_left_def join_right_def units_def set_ptr_def set_size_def Let_def fun_eq_iff)
  have "morecore ?n ?s = Some (?b, set_ptr ?b ?h (set_ptr ?h ?b (set_size ?h ?n (?s\<lparr>brk := brk s + 16\<rparr>))))"
    using f assms(4) by (simp add: morecore_def sbrk_def set_ptr_def set_size_def nat_add_distrib Let_def)
  then have "malloc_loop ?n ?b ?b ?s = Some (take_block ?n ?b ?h (set_ptr ?b ?h (set_ptr ?h ?b (set_size ?h ?n (?s\<lparr>brk := brk s + 16\<rparr>)))))"
    using assms(2,3) by (simp add: malloc_loop.simps [of ?n ?b ?b] malloc_loop.simps [of ?n ?b ?h])
  then have "malloc nbytes s = Some (take_block ?n ?b ?h (set_ptr ?b ?h (set_ptr ?h ?b (set_size ?h ?n (?s\<lparr>brk := brk s + 16\<rparr>)))))"
    using assms(1) n by (simp add: malloc_def Let_def)
  then show ?thesis using assms(3) by (simp add: take_block_def units_def)
qed

lemma malloc_wraps_witness:
  "\<exists>p t. malloc 0xFFFFFFFF heap_demo = Some (p, t) \<and> p \<noteq> 0 \<and> brk t = 144 \<and> units t (p - 1) = 2 ^ 28 + 1"
  using malloc_wraps [of heap_demo "0xFFFFFFFF"] by (simp add: heap_demo_def)

end
