(* ===== verification/Spec2Isabelle.thy ===== *)
theory Spec2Isabelle
  imports KString Riscv SpinSteps VmProps UserMem Bio VirtioProps DmacProps DirProps PipeProps ConsoleProps FileProps WaitProps TrapProps Grep Tools ShellRunProps Umalloc
begin

text \<open>
  A model of the kernel of xv6-k210, of its shell and of a few of its other user programs, with the theorems that make its parts correct.

  The program. The kernel runs on a two-hart RISC-V board. A process enters it through \<open>usertrap\<close> (kernel/trap.c), which serves a
  device, the timer or a system call. \<open>syscall\<close> (kernel/syscall.c) picks a handler by its number; the handlers (kernel/sysproc.c,
  kernel/sysfile.c) read their arguments from the trap frame and call the process layer (kernel/proc.c, kernel/exec.c) or the file layer
  (kernel/file.c). Open files lead to pipes (kernel/pipe.c), the console (kernel/console.c) or the FAT32 file system (kernel/fat32.c), which
  reads and writes sectors through the buffer cache (kernel/bio.c). All share the page allocator (kernel/kalloc.c), the page tables
  (kernel/vm.c), spin locks with their interrupt nesting (kernel/spinlock.c, kernel/intr.c) and sleep locks (kernel/sleeplock.c).

  The model. The state is one record, extended theory by theory in the order the code is layered: \<open>kst\<close> (the spin locks and the
  harts), \<open>kmem_st\<close>, \<open>vm_st\<close>, \<open>proc_st\<close>, \<open>slk_st\<close>, \<open>bio_st\<close>, \<open>fat_st\<close>, \<open>cons_st\<close>, \<open>pipe_st\<close>, \<open>file_st\<close>, \<open>life_st\<close>, \<open>exec_st\<close>,
  \<open>sys_st\<close>, \<open>trap_st\<close>. An operation works on any extension of the state it needs, so callers pass their state through. Physical
  memory is one map from addresses to bytes: free pages, page tables, trap frames and user pages all lie in it, as in the machine.
  An operation has a result of type \<open>kres\<close>: \<open>Inr\<close> with its value and the state, or \<open>Inl\<close> with how the kernel stops: \<open>Panic\<close> with the
  message of the code, \<open>Spins\<close> (a lock that nobody will release), \<open>Sleeps\<close> (the process goes to sleep on a channel, which a caller that
  does not model the wait cannot follow), \<open>Exits\<close> (the process is gone), \<open>Wild\<close> (an access through a null pointer or outside
  of an object, of which the code says nothing) and \<open>Deep\<close> (the fuel of a loop is used up). Integers have the width they have in the code.

  Where the parts are.
  \<^item> \<open>Prelude\<close>: the results, the helper lemmas and the collections of simplification rules.
  \<^item> \<open>KString\<close>: kernel/string.c over byte memory. \<open>memmove_copies\<close>.
  \<^item> \<open>Riscv\<close>: addresses, page table entries and the constants of libs/riscv.h and libs/memlayout.h.
  \<^item> \<open>Spinlock\<close>: kernel/spinlock.c and kernel/intr.c as one hart runs them. \<open>SpinSteps\<close>: \<open>acquire\<close> and \<open>release\<close> of several harts as
    interleaved steps; mutual exclusion and progress by induction over the reachable states.
  \<^item> \<open>Kalloc\<close> and \<open>PageAlloc\<close>: kernel/kalloc.c, with the free list in the pages; the allocator's invariant as a locale.
  \<^item> \<open>Vm\<close>: kernel/vm.c. \<open>VmTree\<close>, \<open>VmMap\<close> and \<open>VmProps\<close>: well-formed page tables, what \<open>walk\<close> finds and allocates, and what
    \<open>mappages\<close>, \<open>vmunmap\<close> and \<open>walkaddr\<close> do to the map from virtual addresses to entries.
  \<^item> \<open>Proc\<close>: the table of processes, the scheduler, sleep and wakeup (kernel/proc.c). A context switch splits an operation into the
    half before and the half after it. \<open>UserMem\<close>: copies to and from the running process.
  \<^item> \<open>Sleeplock\<close>: kernel/sleeplock.c, and the contract of a lock as the locale \<open>mutex\<close>, interpreted for spin locks and sleep locks.
  \<^item> \<open>Store\<close>: a locale for things that are written and read by key. It is interpreted for the disk behind the buffer cache, for the memory card and for the file
    allocation table.
  \<^item> \<open>Bio\<close>: kernel/bio.c, with the ring of buffers in order of use. The calls of the disk driver are reads and writes of an array of sectors; the next two items are
    the drivers, which implement them.
  \<^item> \<open>Virtio\<close>: kernel/virtio_disk.c, with the descriptors and the two rings that it shares with the device. \<open>VirtioProps\<close>: processes, handler and device
    as interleaved steps, which implement a disk whose requests are atomic; by an invariant over the reachable configurations. The device may fail a request: it then
    transfers nothing, and the handler panics (\<open>virtio_safe\<close>).
  \<^item> \<open>Sdcard\<close>: kernel/sdcard.c over the history of a serial bus. \<open>SdcardProps\<close>: with a card that follows the protocol the driver is a store
    of the sectors that the card has, in the sense of \<open>Store\<close>.
  \<^item> The board below the card driver. \<open>FpioaTable\<close> and \<open>Pins\<close>: kernel/fpioa.c with its table of 256 functions, kernel/gpiohs.c and kernel/utils.c; a function is on one
    pin at a time (\<open>fpioa_assigns\<close>), and the five pins of the card are set up (\<open>card_pins\<close>). \<open>Sysctl\<close>: kernel/sysctl.c. \<open>Spi\<close>: the transfers of kernel/spi.c by the
    processor, over the history of register accesses. \<open>SpiProps\<close>: what such a history puts on the bus, and what the manual of the controller promises; then these transfers are
    the operations on the bus that \<open>Sdcard\<close> is built on. A byte counts as sent when the controller has said that its queue is empty and it is idle; turning it off loses
    what is still queued. Received bytes are promised for transfers that fit the queue, of at most 32 frames. \<open>Dmac\<close>: kernel/dmac.c and the transfers of kernel/spi.c that use it. \<open>DmacProps\<close>: what they program, from the
    buffer of the caller to the registers and back, and waiting for them.
  \<^item> \<open>FatTable\<close>, \<open>FatAlloc\<close>, \<open>FatData\<close>, \<open>FatFile\<close>: the allocation table, clusters and the data of files (kernel/fat32.c). The contents of a file are a list of
    bytes over the chain of its clusters; \<open>eread\<close>, \<open>ewrite\<close>, \<open>etrunc\<close> and \<open>alloc_clus\<close> are described by what they do to it.
    \<open>FatName\<close>: names on the disk and in paths. \<open>FatDir\<close>: the cache of entries, directories and the walk along a path.
    \<open>DirScan\<close> and \<open>DirProps\<close>: a directory as a list of records (named files, plain short entries, holes); \<open>dirlookup\<close> searches that list,
    \<open>ealloc\<close> extends it, \<open>eremove\<close> makes holes in it.
  \<^item> \<open>Fifo\<close>: a bounded queue as a locale, with rings of bytes. \<open>Pipe\<close> and \<open>PipeProps\<close>: kernel/pipe.c as such a queue.
    \<open>Console\<close> and \<open>ConsoleProps\<close>: kernel/console.c and kernel/printf.c; the interrupt handler refines a line editor.
  \<^item> \<open>File\<close>: kernel/file.c. \<open>ProcLife\<close>: the life of a process (\<open>allocproc\<close> to \<open>wait\<close>). \<open>Exec\<close>: kernel/exec.c. \<open>Sysarg\<close>, \<open>Sysproc\<close>, \<open>Sysfile\<close>,
    \<open>Syscall\<close>: the system calls. \<open>Trap\<close>: kernel/trap.c, the claims of kernel/plic.c and the order of kernel/main.c.
    \<open>FileProps\<close>: counted references as a locale, interpreted for files and cached entries; descriptors are counted through \<open>dup\<close>, \<open>close\<close> and
    \<open>fork\<close>. \<open>WaitProps\<close>: how \<open>exit\<close> and \<open>wait\<close> meet without losing a wakeup. \<open>TrapProps\<close>: the path of a system call from user mode and back.
  \<^item> \<open>Grep\<close>: user/grep.c, against the language that a pattern stands for. \<open>Tools\<close>: user/wc.c and user/xargs.c.
  \<^item> \<open>Fcntl\<close>: the modes of \<open>open\<close>, for the kernel and the shell. \<open>Shell\<close>: the parser of user/sh.c and why it returns; \<open>ShellProps\<close>: what it
    gives, and that it undoes the printing of commands. \<open>ShellRun\<close>: variables, built-in commands and the main loop; a process is the tree of the system
    calls that it makes. \<open>ShellRunProps\<close>: these trees on a table of descriptors, against what a command means; a whole session.
  \<^item> \<open>Umalloc\<close>: user/umalloc.c, with the ring of free blocks as a list and the blocks of the program as a set.
    \<open>Ulib\<close>: user/ulib.c and user/printf.c.

  Bounds and fuel. Loops that count run on a \<open>nat\<close> or end by a measure on the words they compare. \<open>bget\<close> and \<open>eget\<close> go once around
  rings of \<open>NBUF\<close> and \<open>ENTRY_CACHE_NUM\<close> nodes. \<open>eread\<close> and \<open>ewrite\<close> have the number of bytes as fuel, since every turn moves at least one;
  \<open>etrunc\<close> has the number of clusters and 3, since a chain has no cluster twice; \<open>loadseg\<close> the number of pages and 2; a scan of a directory
  65536 entries, the most that FAT32 allows; \<open>eput\<close> and the walk to the root as many parents as the cache holds. \<open>etrunc_frees\<close>, \<open>eread_contents\<close> and
  \<open>ewrite_contents\<close> prove that the fuel is enough, as they state a result and not only what a result would be. The timeouts of the card driver are those of the code. The loops of kernel/spi.c
  and kernel/dmac.c poll a device and have fuel; \<open>wire_write_sends\<close> and \<open>wire_read_receives\<close> give an amount from which on they return; \<open>wire_write_dma_sends\<close> does so for the
  transfers by direct memory access, where the wait itself is a parameter. The parser of the shell has
  four calls for each character and four more (\<open>parsecmd_returns\<close>). The searches of \<open>malloc\<close> and \<open>free\<close> have no fuel: that they do not end would be the
  value \<open>None\<close>, and \<open>malloc_ok\<close> and \<open>free_ok\<close> give a value.

  Not modelled. The serial port of QEMU, which is not built, the assembly of the trampoline and of the
  context switch, the debug printers \<open>vmprint\<close>, \<open>reg_info\<close> and \<open>trapframedump\<close>, the set-up of the interrupt controller, the user programs that only pass their
  arguments to a system call or two, the prompt of the shell and the calls of \<open>getcwd\<close> for it, and the tests. The count of references of an open file is an unbounded integer;
  by the invariant of \<open>FileProps\<close> it is a number of descriptors, far below the bound of its \<open>int\<close>. The hardware walks page tables only where the kernel itself goes through a user address. Interleavings
  of harts are modelled for spin locks, and those of processes, handler and device for the virtio disk; everything else runs one operation at a time, between context switches.

  Divergences that the model shows. \<open>dma_wakeup_lost\<close> is a transfer that ends just before its process goes to sleep. \<open>copyout2_guard\<close> tells when the range check of \<open>copyout2\<close> means what it says: its sum can wrap.
  \<open>filewrite_minus_one\<close> and \<open>dirnext_junk_panics\<close> are errors of kernel/file.c. \<open>grep_long_line\<close> is the search that ends at a long line.
  \<open>malloc_wraps\<close> is a size that does not fit the argument of \<open>sbrk\<close>, \<open>xargs_unfinished\<close> a last line without its newline. \<open>emake_first_lost\<close> is the
  first file of an empty root directory, \<open>entry_count_short\<close>, \<open>short_name_e5\<close> and \<open>formatname_dots\<close> are names that the directory code mistakes. In
  \<open>dirlookup\<close> the misplaced parenthesis of the loop's condition is kept: empty slots of a directory are never found.
\<close>

end
